(* ===== verification/Prelude.thy ===== *)
theory Prelude
  imports Main "HOL-Library.Word"
begin

text \<open>
  Shared vocabulary of the development: machine integers, byte memory, the libc memory
  operations, the little- and big-endian accessors of \<^verbatim>\<open>src/src/sigil_internal.h\<close>, the result
  codes of \<^verbatim>\<open>src/include/sigil.h\<close>, and the lemmas about them that every component uses.

  A C pointer into a buffer is a \<open>mem\<close> (a function from offsets to bytes) together with a
  \<open>nat\<close> offset. An operation that writes returns the updated memory, so that "nothing outside
  the buffer is touched" is a theorem about offsets beyond the buffer's size and not an
  assumption of the model.
\<close>

unbundle bit_operations_syntax

section \<open>Types\<close>

type_synonym u8 = "8 word"
type_synonym u16 = "16 word"
type_synonym u32 = "32 word"
type_synonym u64 = "64 word"
type_synonym mem = "nat \<Rightarrow> u8"
type_synonym bytes = "u8 list"

text \<open>The \<^verbatim>\<open>SIGIL_*\<close> result codes.\<close>

datatype rc =
    SIGIL_OK
  | SIGIL_ERR_INVALID_ARG
  | SIGIL_ERR_IO
  | SIGIL_ERR_UNKNOWN_PLATFORM
  | SIGIL_ERR_UNSUPPORTED_FORMAT
  | SIGIL_ERR_NOT_FOUND
  | SIGIL_ERR_NEEDS_KEY
  | SIGIL_ERR_CRYPTO
  | SIGIL_ERR_OOM
  | SIGIL_ERR_CONFLICT
  | SIGIL_ERR_EXISTS
  | SIGIL_ERR_NO_SPACE
  | SIGIL_ERR_UNCOLLECTED
  | SIGIL_ERR_DAMAGED

named_theorems mem_simps \<open>pointwise equations of the memory operations\<close>
named_theorems rw_simps \<open>reads over writes of the fixed-width accessors\<close>

section \<open>Byte memory\<close>

definition memcpy :: "mem \<Rightarrow> nat \<Rightarrow> mem \<Rightarrow> nat \<Rightarrow> nat \<Rightarrow> mem" where
  "memcpy d doff s soff n =
     (\<lambda>i. if doff \<le> i \<and> i < doff + n then s (soff + (i - doff)) else d i)"

definition memset :: "mem \<Rightarrow> nat \<Rightarrow> u8 \<Rightarrow> nat \<Rightarrow> mem" where
  "memset d doff v n = (\<lambda>i. if doff \<le> i \<and> i < doff + n then v else d i)"

text \<open>\<^verbatim>\<open>memcmp(a + x, b + y, n) == 0\<close>.\<close>

definition mem_eq :: "mem \<Rightarrow> nat \<Rightarrow> mem \<Rightarrow> nat \<Rightarrow> nat \<Rightarrow> bool" where
  "mem_eq a x b y n = list_all (\<lambda>i. a (x + i) = b (y + i)) [0..<n]"

definition bytes_at :: "mem \<Rightarrow> nat \<Rightarrow> nat \<Rightarrow> bytes" where
  "bytes_at m off n = map (\<lambda>i. m (off + i)) [0..<n]"

definition mem_of :: "bytes \<Rightarrow> mem" where
  "mem_of bs = (\<lambda>i. if i < length bs then bs ! i else 0)"

text \<open>A C string literal's bytes, and the string a NUL-terminated buffer holds.\<close>

definition str :: "string \<Rightarrow> bytes" where
  "str s = map of_char s"

definition cstr :: "bytes \<Rightarrow> bytes" where
  "cstr bs = takeWhile (\<lambda>b. b \<noteq> 0) bs"

text \<open>\<^verbatim>\<open>memcmp(m + off, lit, strlen(lit)) == 0\<close>.\<close>

definition has_bytes :: "mem \<Rightarrow> nat \<Rightarrow> bytes \<Rightarrow> bool" where
  "has_bytes m off bs = (bytes_at m off (length bs) = bs)"

lemma memcpy_apply [mem_simps]:
  "memcpy d doff s soff n i =
     (if doff \<le> i \<and> i < doff + n then s (soff + (i - doff)) else d i)"
  by (simp add: memcpy_def)

lemma memset_apply [mem_simps]:
  "memset d doff v n i = (if doff \<le> i \<and> i < doff + n then v else d i)"
  by (simp add: memset_def)

lemma mem_eq_iff: "mem_eq a x b y n \<longleftrightarrow> (\<forall>i<n. a (x + i) = b (y + i))"
  by (auto simp: mem_eq_def list_all_iff)

lemma mem_eqI: "(\<And>i. i < n \<Longrightarrow> a (x + i) = b (y + i)) \<Longrightarrow> mem_eq a x b y n"
  by (simp add: mem_eq_iff)

lemma mem_eqD: "mem_eq a x b y n \<Longrightarrow> i < n \<Longrightarrow> a (x + i) = b (y + i)"
  by (simp add: mem_eq_iff)

lemma mem_eq_sym: "mem_eq a x b y n \<Longrightarrow> mem_eq b y a x n"
  by (simp add: mem_eq_iff)

lemma mem_eq_trans: "mem_eq a x b y n \<Longrightarrow> mem_eq b y c z n \<Longrightarrow> mem_eq a x c z n"
  by (simp add: mem_eq_iff)

lemma mem_eq_refl [simp]: "mem_eq a x a x n"
  by (simp add: mem_eq_iff)

lemma length_bytes_at [simp]: "length (bytes_at m off n) = n"
  by (simp add: bytes_at_def)

lemma nth_bytes_at [simp]: "i < n \<Longrightarrow> bytes_at m off n ! i = m (off + i)"
  by (simp add: bytes_at_def)

lemma bytes_at_eq_iff: "bytes_at a x n = bytes_at b y n \<longleftrightarrow> mem_eq a x b y n"
  by (auto simp: mem_eq_iff list_eq_iff_nth_eq)

lemma bytes_at_cong: "(\<And>i. i < n \<Longrightarrow> a (x + i) = b (y + i)) \<Longrightarrow> bytes_at a x n = bytes_at b y n"
  by (simp add: bytes_at_eq_iff mem_eq_iff)

lemma bytes_at_add: "bytes_at m p (a + b) = bytes_at m p a @ bytes_at m (p + a) b"
  by (auto intro: nth_equalityI simp: nth_append)

lemma bytes_at_part: "p + k \<le> n \<Longrightarrow> take k (drop p (bytes_at m x n)) = bytes_at m (x + p) k"
  by (rule nth_equalityI) (simp_all add: add.assoc)

lemma has_bytes_iff: "has_bytes m off bs \<longleftrightarrow> (\<forall>i<length bs. m (off + i) = bs ! i)"
  by (auto simp: has_bytes_def list_eq_iff_nth_eq)

section \<open>Fixed-width accessors\<close>

definition sigil_read_le16 :: "mem \<Rightarrow> nat \<Rightarrow> u16" where
  "sigil_read_le16 p o1 = ucast (p o1) OR push_bit 8 (ucast (p (o1 + 1)))"

definition sigil_read_be16 :: "mem \<Rightarrow> nat \<Rightarrow> u16" where
  "sigil_read_be16 p o1 = push_bit 8 (ucast (p o1)) OR ucast (p (o1 + 1))"

definition sigil_read_le32 :: "mem \<Rightarrow> nat \<Rightarrow> u32" where
  "sigil_read_le32 p o1 = ucast (p o1) OR push_bit 8 (ucast (p (o1 + 1)))
     OR push_bit 16 (ucast (p (o1 + 2))) OR push_bit 24 (ucast (p (o1 + 3)))"

definition sigil_read_be32 :: "mem \<Rightarrow> nat \<Rightarrow> u32" where
  "sigil_read_be32 p o1 = ucast (p (o1 + 3)) OR push_bit 8 (ucast (p (o1 + 2)))
     OR push_bit 16 (ucast (p (o1 + 1))) OR push_bit 24 (ucast (p o1))"

definition sigil_read_le64 :: "mem \<Rightarrow> nat \<Rightarrow> u64" where
  "sigil_read_le64 p o1 =
     ucast (sigil_read_le32 p o1) OR push_bit 32 (ucast (sigil_read_le32 p (o1 + 4)))"

definition sigil_read_be64 :: "mem \<Rightarrow> nat \<Rightarrow> u64" where
  "sigil_read_be64 p o1 =
     push_bit 32 (ucast (sigil_read_be32 p o1)) OR ucast (sigil_read_be32 p (o1 + 4))"

definition sigil_write_le16 :: "mem \<Rightarrow> nat \<Rightarrow> u16 \<Rightarrow> mem" where
  "sigil_write_le16 p o1 v = p(o1 := ucast v, o1 + 1 := ucast (drop_bit 8 v))"

definition sigil_write_be16 :: "mem \<Rightarrow> nat \<Rightarrow> u16 \<Rightarrow> mem" where
  "sigil_write_be16 p o1 v = p(o1 := ucast (drop_bit 8 v), o1 + 1 := ucast v)"

definition sigil_write_le32 :: "mem \<Rightarrow> nat \<Rightarrow> u32 \<Rightarrow> mem" where
  "sigil_write_le32 p o1 v =
     p(o1 := ucast v, o1 + 1 := ucast (drop_bit 8 v),
       o1 + 2 := ucast (drop_bit 16 v), o1 + 3 := ucast (drop_bit 24 v))"

definition sigil_write_be32 :: "mem \<Rightarrow> nat \<Rightarrow> u32 \<Rightarrow> mem" where
  "sigil_write_be32 p o1 v =
     p(o1 := ucast (drop_bit 24 v), o1 + 1 := ucast (drop_bit 16 v),
       o1 + 2 := ucast (drop_bit 8 v), o1 + 3 := ucast v)"

definition sigil_write_le64 :: "mem \<Rightarrow> nat \<Rightarrow> u64 \<Rightarrow> mem" where
  "sigil_write_le64 p o1 v =
     sigil_write_le32 (sigil_write_le32 p o1 (ucast v)) (o1 + 4) (ucast (drop_bit 32 v))"

definition sigil_write_be64 :: "mem \<Rightarrow> nat \<Rightarrow> u64 \<Rightarrow> mem" where
  "sigil_write_be64 p o1 v =
     sigil_write_be32 (sigil_write_be32 p o1 (ucast (drop_bit 32 v))) (o1 + 4) (ucast v)"

lemmas write_defs =
  sigil_write_le16_def sigil_write_be16_def sigil_write_le32_def sigil_write_be32_def
  sigil_write_le64_def sigil_write_be64_def

lemma write_le16_apply [mem_simps]:
  "sigil_write_le16 p o1 v i =
     (if i = o1 then ucast v else if i = o1 + 1 then ucast (drop_bit 8 v) else p i)"
  by (simp add: sigil_write_le16_def)

lemma write_be16_apply [mem_simps]:
  "sigil_write_be16 p o1 v i =
     (if i = o1 then ucast (drop_bit 8 v) else if i = o1 + 1 then ucast v else p i)"
  by (simp add: sigil_write_be16_def)

lemma write_le32_apply [mem_simps]:
  "sigil_write_le32 p o1 v i =
     (if i = o1 then ucast v else if i = o1 + 1 then ucast (drop_bit 8 v)
      else if i = o1 + 2 then ucast (drop_bit 16 v)
      else if i = o1 + 3 then ucast (drop_bit 24 v) else p i)"
  by (simp add: sigil_write_le32_def)

lemma write_be32_apply [mem_simps]:
  "sigil_write_be32 p o1 v i =
     (if i = o1 then ucast (drop_bit 24 v) else if i = o1 + 1 then ucast (drop_bit 16 v)
      else if i = o1 + 2 then ucast (drop_bit 8 v)
      else if i = o1 + 3 then ucast v else p i)"
  by (simp add: sigil_write_be32_def)

lemma write_le64_outside: "i < o1 \<or> o1 + 8 \<le> i \<Longrightarrow> sigil_write_le64 p o1 v i = p i"
  by (auto simp: sigil_write_le64_def mem_simps)

lemma write_be64_outside: "i < o1 \<or> o1 + 8 \<le> i \<Longrightarrow> sigil_write_be64 p o1 v i = p i"
  by (auto simp: sigil_write_be64_def mem_simps)

subsection \<open>Round trips\<close>

lemma read_write_le16 [rw_simps, simp]: "sigil_read_le16 (sigil_write_le16 p o1 v) o1 = v"
  by (rule bit_word_eqI) (auto simp: sigil_read_le16_def mem_simps bit_simps)

lemma read_write_be16 [rw_simps, simp]: "sigil_read_be16 (sigil_write_be16 p o1 v) o1 = v"
  by (rule bit_word_eqI) (auto simp: sigil_read_be16_def mem_simps bit_simps)

lemma read_write_le32 [rw_simps, simp]: "sigil_read_le32 (sigil_write_le32 p o1 v) o1 = v"
proof (rule bit_word_eqI)
  fix n assume "n < LENGTH(32)"
  then show "bit (sigil_read_le32 (sigil_write_le32 p o1 v) o1) n = bit v n"
    by (cases "n < 24"; cases "n < 16"; cases "n < 8")
       (auto simp: sigil_read_le32_def mem_simps bit_simps)
qed

lemma read_write_be32 [rw_simps, simp]: "sigil_read_be32 (sigil_write_be32 p o1 v) o1 = v"
proof (rule bit_word_eqI)
  fix n assume "n < LENGTH(32)"
  then show "bit (sigil_read_be32 (sigil_write_be32 p o1 v) o1) n = bit v n"
    by (cases "n < 24"; cases "n < 16"; cases "n < 8")
       (auto simp: sigil_read_be32_def mem_simps bit_simps)
qed

text \<open>A read depends only on the bytes it covers.\<close>

lemma read_le16_cong:
  "a x = b y \<Longrightarrow> a (x + 1) = b (y + 1) \<Longrightarrow> sigil_read_le16 a x = sigil_read_le16 b y"
  by (simp add: sigil_read_le16_def)

lemma read_be16_cong:
  "a x = b y \<Longrightarrow> a (x + 1) = b (y + 1) \<Longrightarrow> sigil_read_be16 a x = sigil_read_be16 b y"
  by (simp add: sigil_read_be16_def)

lemma read_le32_cong:
  assumes "\<And>k. k < 4 \<Longrightarrow> a (x + k) = b (y + k)"
  shows "sigil_read_le32 a x = sigil_read_le32 b y"
  using assms [of 0] assms [of 1] assms [of 2] assms [of 3] by (simp add: sigil_read_le32_def)

lemma read_be32_cong:
  assumes "\<And>k. k < 4 \<Longrightarrow> a (x + k) = b (y + k)"
  shows "sigil_read_be32 a x = sigil_read_be32 b y"
  using assms [of 0] assms [of 1] assms [of 2] assms [of 3] by (simp add: sigil_read_be32_def)

lemma read_le64_cong:
  assumes "\<And>k. k < 8 \<Longrightarrow> a (x + k) = b (y + k)"
  shows "sigil_read_le64 a x = sigil_read_le64 b y"
proof -
  have "sigil_read_le32 a x = sigil_read_le32 b y"
    by (rule read_le32_cong) (simp add: assms)
  moreover have "sigil_read_le32 a (x + 4) = sigil_read_le32 b (y + 4)"
    by (rule read_le32_cong) (simp add: assms add.assoc)
  ultimately show ?thesis by (simp add: sigil_read_le64_def)
qed

lemma read_be64_cong:
  assumes "\<And>k. k < 8 \<Longrightarrow> a (x + k) = b (y + k)"
  shows "sigil_read_be64 a x = sigil_read_be64 b y"
proof -
  have "sigil_read_be32 a x = sigil_read_be32 b y"
    by (rule read_be32_cong) (simp add: assms)
  moreover have "sigil_read_be32 a (x + 4) = sigil_read_be32 b (y + 4)"
    by (rule read_be32_cong) (simp add: assms add.assoc)
  ultimately show ?thesis by (simp add: sigil_read_be64_def)
qed

lemma read_write_le64 [rw_simps, simp]: "sigil_read_le64 (sigil_write_le64 p o1 v) o1 = v"
proof -
  let ?m = "sigil_write_le32 p o1 (ucast v)"
  have "sigil_read_le32 (sigil_write_le64 p o1 v) o1 = sigil_read_le32 ?m o1"
    by (rule read_le32_cong) (simp add: sigil_write_le64_def mem_simps)
  then show ?thesis
    by (simp add: sigil_read_le64_def)
       (simp add: sigil_write_le64_def, rule bit_word_eqI, auto simp: bit_simps)
qed

lemma read_write_be64 [rw_simps, simp]: "sigil_read_be64 (sigil_write_be64 p o1 v) o1 = v"
proof -
  let ?m = "sigil_write_be32 p o1 (ucast (drop_bit 32 v))"
  have "sigil_read_be32 (sigil_write_be64 p o1 v) o1 = sigil_read_be32 ?m o1"
    by (rule read_be32_cong) (simp add: sigil_write_be64_def mem_simps)
  then show ?thesis
    by (simp add: sigil_read_be64_def)
       (simp add: sigil_write_be64_def, rule bit_word_eqI, auto simp: bit_simps)
qed

text \<open>Reads as numbers, and writing back what was read.\<close>

lemma unat_word8_less: "unat (w :: u8) < 256"
  using unsigned_less [of w] by simp

lemma unat_word16_less: "unat (w :: u16) < 65536"
  using unsigned_less [of w] by simp

lemma unat_join16:
  "unat ((ucast (a :: u8) :: u16) OR push_bit 8 (ucast (b :: u8))) = unat a + 256 * unat b"
proof -
  have "(ucast a :: u16) OR push_bit 8 (ucast b) = ucast a + push_bit 8 (ucast b)"
    by (rule disjunctive_add_eq_or [symmetric], rule bit_word_eqI)
       (auto simp: bit_simps dest: bit_imp_le_length)
  then show ?thesis
    using unat_word8_less [of a] unat_word8_less [of b]
    by (simp add: unat_word_ariths unsigned_ucast_eq push_bit_eq_mult take_bit_eq_mod unsigned_push_bit_eq)
qed

lemma unat_read_le16: "unat (sigil_read_le16 p x) = unat (p x) + 256 * unat (p (x + 1))"
  by (simp add: sigil_read_le16_def unat_join16)

lemma unat_read_be16: "unat (sigil_read_be16 p x) = 256 * unat (p x) + unat (p (x + 1))"
  by (simp add: sigil_read_be16_def or.commute [of "push_bit _ _"] unat_join16)

lemma write_read_le16: "sigil_write_le16 p x (sigil_read_le16 p x) = p"
proof -
  have "ucast (sigil_read_le16 p x) = p x"
    by (rule bit_word_eqI) (auto simp: sigil_read_le16_def bit_simps)
  moreover have "ucast (drop_bit 8 (sigil_read_le16 p x)) = p (x + 1)"
    by (rule bit_word_eqI) (auto simp: sigil_read_le16_def bit_simps dest: bit_imp_le_length)
  ultimately show ?thesis by (auto simp: mem_simps fun_eq_iff)
qed

lemma write_read_be16: "sigil_write_be16 p x (sigil_read_be16 p x) = p"
proof -
  have "ucast (sigil_read_be16 p x) = p (x + 1)"
    by (rule bit_word_eqI) (auto simp: sigil_read_be16_def bit_simps)
  moreover have "ucast (drop_bit 8 (sigil_read_be16 p x)) = p x"
    by (rule bit_word_eqI) (auto simp: sigil_read_be16_def bit_simps dest: bit_imp_le_length)
  ultimately show ?thesis by (auto simp: mem_simps fun_eq_iff)
qed

lemma read_le32_bytes:
  "ucast (sigil_read_le32 p x) = p x" "ucast (drop_bit 8 (sigil_read_le32 p x)) = p (x + 1)"
  "ucast (drop_bit 16 (sigil_read_le32 p x)) = p (x + 2)"
  "ucast (drop_bit 24 (sigil_read_le32 p x)) = p (x + 3)"
     by (rule bit_word_eqI, auto simp: sigil_read_le32_def bit_simps dest: bit_imp_le_length)+

lemma unat_of_nat8: "n < 256 \<Longrightarrow> unat (of_nat n :: u8) = n"
  by (simp add: unsigned_of_nat take_bit_nat_eq_self)

lemma unat_of_nat16: "n < 65536 \<Longrightarrow> unat (of_nat n :: u16) = n"
  by (simp add: unsigned_of_nat take_bit_nat_eq_self)

lemma unat_of_nat32: "n < 4294967296 \<Longrightarrow> unat (of_nat n :: u32) = n"
  by (simp add: unsigned_of_nat take_bit_nat_eq_self)

lemma unat_less_iff_bits: "unat (w :: 'a::len word) < 2 ^ n \<longleftrightarrow> (\<forall>i. n \<le> i \<longrightarrow> \<not> bit w i)"
proof -
  have b: "bit (unat w) i \<longleftrightarrow> bit w i" for i by (simp add: bit_simps)
  have "unat w < 2 ^ n \<longleftrightarrow> take_bit n (unat w) = unat w" by (simp add: take_bit_nat_eq_self_iff)
  also have "\<dots> \<longleftrightarrow> (\<forall>i. (i < n \<and> bit w i) = bit w i)" by (simp only: bit_eq_iff bit_take_bit_iff b) simp
  also have "\<dots> \<longleftrightarrow> (\<forall>i. n \<le> i \<longrightarrow> \<not> bit w i)" by (meson not_le)
  finally show ?thesis .
qed

lemma ucast_u8_u32 [simp]: "ucast (ucast (x :: u8) :: u32) = x"
  by (rule bit_word_eqI) (simp add: bit_simps)

lemma flag_bits:
  "bit (0x40 :: 'a::len word) i \<longleftrightarrow> i = 6 \<and> 6 < LENGTH('a)"
  "bit (0x80 :: 'a::len word) i \<longleftrightarrow> i = 7 \<and> 7 < LENGTH('a)"
  "bit (0x100 :: 'a::len word) i \<longleftrightarrow> i = 8 \<and> 8 < LENGTH('a)"
  using bit_exp_iff [where ?'a = "'a word", of 6 i] bit_exp_iff [where ?'a = "'a word", of 7 i]
    bit_exp_iff [where ?'a = "'a word", of 8 i] by auto

text \<open>A read is not affected by a write elsewhere.\<close>

lemma read_le32_write_le32_other [rw_simps]:
  "x + 4 \<le> y \<or> y + 4 \<le> x \<Longrightarrow> sigil_read_le32 (sigil_write_le32 p y v) x = sigil_read_le32 p x"
  by (rule read_le32_cong) (auto simp: mem_simps)

lemma read_le32_write_le64_other [rw_simps]:
  "x + 4 \<le> y \<or> y + 8 \<le> x \<Longrightarrow> sigil_read_le32 (sigil_write_le64 p y v) x = sigil_read_le32 p x"
  by (rule read_le32_cong) (auto intro!: write_le64_outside)

section \<open>Loops that write disjoint regions\<close>

text \<open>A loop whose round \<open>i\<close> writes only the region \<open>R i\<close>, from what the memory holds there: after
  it every region holds what its own round wrote, and the rest is untouched.\<close>

lemma fold_outside_regions:
  assumes "\<And>i m j. i \<in> set is \<Longrightarrow> j \<notin> R i \<Longrightarrow> f i m j = (m j :: u8)"
    and "\<forall>i \<in> set is. j \<notin> R i"
  shows "fold f is m j = m j"
  using assms
proof (induction "is" arbitrary: m)
  case (Cons a xs)
  have "fold f xs (f a m) j = f a m j"
  proof (rule Cons.IH)
    show "f i m j = m j" if "i \<in> set xs" "j \<notin> R i" for i m j
      by (rule Cons.prems(1)) (use that in simp_all)
    show "\<forall>i \<in> set xs. j \<notin> R i" using Cons.prems(2) by simp
  qed
  also have "\<dots> = m j" by (rule Cons.prems(1)) (use Cons.prems(2) in simp_all)
  finally show ?case by simp
qed simp

lemma fold_in_region:
  assumes "\<And>i m j. i \<in> set is \<Longrightarrow> j \<notin> R i \<Longrightarrow> f i m j = (m j :: u8)"
    and "\<And>i m m' j. i \<in> set is \<Longrightarrow> j \<in> R i \<Longrightarrow> (\<And>k. k \<in> R i \<Longrightarrow> m k = m' k) \<Longrightarrow> f i m j = f i m' j"
    and "\<And>i k. i \<in> set is \<Longrightarrow> k \<in> set is \<Longrightarrow> i \<noteq> k \<Longrightarrow> R i \<inter> R k = {}"
    and "distinct is" and "i \<in> set is" and "j \<in> R i"
  shows "fold f is m j = f i m j"
  using assms
proof (induction "is" arbitrary: m)
  case Nil
  from Nil.prems(5) show ?case by simp
next
  case (Cons a xs)
  show ?case
  proof (cases "i = a")
    case True
    have "\<forall>k \<in> set xs. j \<notin> R k"
    proof
      fix k assume "k \<in> set xs"
      then have "R i \<inter> R k = {}" using Cons.prems(3) [of i k] Cons.prems(4) True by auto
      then show "j \<notin> R k" using Cons.prems(6) by blast
    qed
    then have "fold f xs (f a m) j = f a m j"
    proof (intro fold_outside_regions [where R = R])
      show "f i m j = m j" if "i \<in> set xs" "j \<notin> R i" for i m j
        by (rule Cons.prems(1)) (use that in simp_all)
    qed
    then show ?thesis using True by simp
  next
    case False
    then have i: "i \<in> set xs" using Cons.prems(5) by simp
    have d: "R i \<inter> R a = {}" using Cons.prems(3) [of i a] i False by simp
    have "fold f xs (f a m) j = f i (f a m) j"
    proof (rule Cons.IH)
      show "f i m j = m j" if "i \<in> set xs" "j \<notin> R i" for i m j
        by (rule Cons.prems(1)) (use that in simp_all)
      show "f i m j = f i m' j" if "i \<in> set xs" "j \<in> R i" "\<And>k. k \<in> R i \<Longrightarrow> m k = m' k" for i m m' j
        by (rule Cons.prems(2)) (use that in simp_all)
      show "R i \<inter> R k = {}" if "i \<in> set xs" "k \<in> set xs" "i \<noteq> k" for i k
        by (rule Cons.prems(3)) (use that in simp_all)
    qed (use Cons.prems(4,6) i in simp_all)
    also have "\<dots> = f i m j"
    proof (rule Cons.prems(2))
      fix k assume "k \<in> R i"
      then show "f a m k = m k" using d Cons.prems(1) [of a k m] by auto
    qed (use i Cons.prems(6) in simp_all)
    finally show ?thesis by simp
  qed
qed

text \<open>Copying or filling with bytes that agree.\<close>

lemma memcpy_cong:
  assumes "\<And>k. k < n \<Longrightarrow> a (x + k) = b (y + k)"
  shows "memcpy d p a x n = memcpy d p b y n"
proof
  fix i show "memcpy d p a x n i = memcpy d p b y n i"
    using assms [of "i - p"] by (auto simp: memcpy_apply simp del: add_diff_assoc)
qed

end
