(* ===== verification/CardCommon.thy ===== *)
theory CardCommon
  imports Prelude
begin

text \<open>
  What the memory-card readers share: the listing and repair records of
  \<^verbatim>\<open>src/include/sigil.h\<close> and the helpers of \<^verbatim>\<open>src/src/card.c\<close> that fill them. A name buffer is
  the string it holds, so \<^verbatim>\<open>snprintf\<close> into a buffer of \<open>n\<close> bytes is \<open>take (n - 1)\<close>; a listing's
  arrays are lists, and the counts beside them are kept because the code keeps them.
\<close>

datatype sigil_card_format =
    SIGIL_CARD_FORMAT_UNKNOWN
  | SIGIL_CARD_FORMAT_PS1_RAW
  | SIGIL_CARD_FORMAT_PS1_GME
  | SIGIL_CARD_FORMAT_PS1_VMP
  | SIGIL_CARD_FORMAT_PS2
  | SIGIL_CARD_FORMAT_GAMECUBE_RAW
  | SIGIL_CARD_FORMAT_DREAMCAST_VMU
  | SIGIL_CARD_FORMAT_SATURN_BACKUP
  | SIGIL_CARD_FORMAT_SEGACD_BRAM

record sigil_card_entry =
  ce_name :: bytes
  ce_owner_id :: bytes
  ce_blocks :: nat
  ce_first_block :: nat

record sigil_card_listing =
  cl_format :: sigil_card_format
  total_blocks :: nat
  free_blocks :: nat
  free_slots :: nat
  corrupt_count :: nat
  entries :: "sigil_card_entry list"
  corrupt_entries :: "sigil_card_entry list"

datatype sigil_card_damage =
    SIGIL_CARD_DAMAGE_CHAIN
  | SIGIL_CARD_DAMAGE_CHAIN_UNWRITTEN
  | SIGIL_CARD_DAMAGE_CHAIN_BROKEN
  | SIGIL_CARD_DAMAGE_SIZE_MISMATCH
  | SIGIL_CARD_DAMAGE_BLOCKS_SHARED
  | SIGIL_CARD_DAMAGE_BLOCKS_IN_USE
  | SIGIL_CARD_DAMAGE_CHECKSUM_MISMATCH
  | SIGIL_CARD_DAMAGE_UNVERIFIABLE
  | SIGIL_CARD_DAMAGE_COPY_DAMAGED

record sigil_card_repair_entry =
  re_name :: bytes
  re_owner_id :: bytes
  re_first_block :: nat
  re_damage :: sigil_card_damage
  re_repaired :: bool

record sigil_card_repair_report =
  rr_format :: sigil_card_format
  rr_data :: "bytes option"
  rr_entries :: "sigil_card_repair_entry list"

section \<open>Filling a listing\<close>

definition SIGIL_CARD_NAME_MAX :: nat where "SIGIL_CARD_NAME_MAX = 64"
definition SIGIL_CARD_OWNER_MAX :: nat where "SIGIL_CARD_OWNER_MAX = 16"

definition sigil_card_listing_new :: "sigil_card_format \<Rightarrow> sigil_card_listing" where
  "sigil_card_listing_new format =
     \<lparr>cl_format = format, total_blocks = 0, free_blocks = 0, free_slots = 0, corrupt_count = 0,
      entries = [], corrupt_entries = []\<rparr>"

text \<open>\<open>name\<close> and \<open>owner_id\<close> are \<open>None\<close> for a NULL pointer.\<close>

definition sigil_card_listing_corrupt ::
    "sigil_card_listing \<Rightarrow> bytes option \<Rightarrow> bytes option \<Rightarrow> nat \<Rightarrow> sigil_card_listing" where
  "sigil_card_listing_corrupt l name owner_id first_block =
     (let l = l\<lparr>corrupt_count := corrupt_count l + 1\<rparr> in
      case name of
        None \<Rightarrow> l
      | Some name \<Rightarrow>
          l\<lparr>corrupt_entries := corrupt_entries l @
             [\<lparr>ce_name = take (SIGIL_CARD_NAME_MAX - 1) name,
               ce_owner_id = take (SIGIL_CARD_OWNER_MAX - 1) (case owner_id of Some o1 \<Rightarrow> o1 | None \<Rightarrow> []),
               ce_blocks = 0, ce_first_block = first_block\<rparr>]\<rparr>)"

text \<open>\<^verbatim>\<open>entries[entry_count++] = e\<close>.\<close>

definition listing_add :: "sigil_card_listing \<Rightarrow> sigil_card_entry \<Rightarrow> sigil_card_listing" where
  "listing_add l e = l\<lparr>entries := entries l @ [e]\<rparr>"

definition isupper :: "u8 \<Rightarrow> bool" where "isupper c = (0x41 \<le> c \<and> c \<le> 0x5A)"
definition isdigit :: "u8 \<Rightarrow> bool" where "isdigit c = (0x30 \<le> c \<and> c \<le> 0x39)"

definition sigil_card_sony_owner :: "bytes \<Rightarrow> bytes" where
  "sigil_card_sony_owner name =
     (if length name < 12 \<or> name ! 0 \<noteq> 0x42 then []
      else if name ! 1 \<noteq> 0x41 \<and> name ! 1 \<noteq> 0x45 \<and> name ! 1 \<noteq> 0x49 then []
      else let code = drop 2 name in
        if list_ex (\<lambda>i. \<not> isupper (code ! i)) [0..<4] then []
        else if list_ex (\<lambda>i. \<not> isdigit (code ! i)) [5..<10] then []
        else (take 10 code)[4 := 0x2D])"

section \<open>Filling a repair report\<close>

definition sigil_card_repair_note ::
    "sigil_card_repair_report \<Rightarrow> bytes option \<Rightarrow> bytes option \<Rightarrow> nat \<Rightarrow> sigil_card_damage \<Rightarrow> bool
       \<Rightarrow> sigil_card_repair_report" where
  "sigil_card_repair_note r name owner_id first_block damage repaired =
     r\<lparr>rr_entries := rr_entries r @
        [\<lparr>re_name = take (SIGIL_CARD_NAME_MAX - 1) (case name of Some n \<Rightarrow> n | None \<Rightarrow> []),
          re_owner_id = take (SIGIL_CARD_OWNER_MAX - 1) (case owner_id of Some o1 \<Rightarrow> o1 | None \<Rightarrow> []),
          re_first_block = first_block, re_damage = damage, re_repaired = repaired\<rparr>]\<rparr>"

text \<open>A format without a repair of its own: every save the listing leaves out is noted, and the
  ones the card does not name follow with an empty name.\<close>

definition report_listing ::
    "sigil_card_listing \<Rightarrow> sigil_card_repair_report \<Rightarrow> sigil_card_repair_report" where
  "report_listing l r =
     fold (\<lambda>_ r. sigil_card_repair_note r None None 0 SIGIL_CARD_DAMAGE_CHAIN False)
       [length (corrupt_entries l)..<corrupt_count l]
       (fold (\<lambda>e r. sigil_card_repair_note r (Some (ce_name e)) (Some (ce_owner_id e)) (ce_first_block e)
                       SIGIL_CARD_DAMAGE_CHAIN False)
         (corrupt_entries l) r)"

section \<open>Lemmas\<close>

lemma listing_new_sel [simp]:
  "cl_format (sigil_card_listing_new f) = f" "total_blocks (sigil_card_listing_new f) = 0"
  "free_blocks (sigil_card_listing_new f) = 0" "free_slots (sigil_card_listing_new f) = 0"
  "corrupt_count (sigil_card_listing_new f) = 0" "entries (sigil_card_listing_new f) = []"
  "corrupt_entries (sigil_card_listing_new f) = []"
  by (simp_all add: sigil_card_listing_new_def)

lemma listing_add_sel [simp]:
  "cl_format (listing_add l e) = cl_format l" "total_blocks (listing_add l e) = total_blocks l"
  "free_blocks (listing_add l e) = free_blocks l" "free_slots (listing_add l e) = free_slots l"
  "corrupt_count (listing_add l e) = corrupt_count l" "entries (listing_add l e) = entries l @ [e]"
  "corrupt_entries (listing_add l e) = corrupt_entries l"
  by (simp_all add: listing_add_def)

lemma listing_corrupt_sel [simp]:
  "cl_format (sigil_card_listing_corrupt l n o1 b) = cl_format l"
  "total_blocks (sigil_card_listing_corrupt l n o1 b) = total_blocks l"
  "free_blocks (sigil_card_listing_corrupt l n o1 b) = free_blocks l"
  "free_slots (sigil_card_listing_corrupt l n o1 b) = free_slots l"
  "corrupt_count (sigil_card_listing_corrupt l n o1 b) = corrupt_count l + 1"
  "entries (sigil_card_listing_corrupt l n o1 b) = entries l"
  by (simp_all add: sigil_card_listing_corrupt_def Let_def split: option.splits)

lemma listing_corrupt_named:
  "map ce_first_block (corrupt_entries (sigil_card_listing_corrupt l (Some n) o1 b)) =
     map ce_first_block (corrupt_entries l) @ [b]"
  by (simp add: sigil_card_listing_corrupt_def)

text \<open>An owner is either empty or the ten-byte product code with its dash.\<close>

lemma sony_owner_shape:
  "sigil_card_sony_owner name = [] \<or>
     (length (sigil_card_sony_owner name) = 10 \<and> sigil_card_sony_owner name ! 4 = 0x2D)"
  by (auto simp: sigil_card_sony_owner_def Let_def nth_list_update)

lemma report_listing_entries:
  "rr_entries (report_listing l r) = rr_entries r @
     map (\<lambda>e. \<lparr>re_name = take 63 (ce_name e), re_owner_id = take 15 (ce_owner_id e),
                re_first_block = ce_first_block e, re_damage = SIGIL_CARD_DAMAGE_CHAIN,
                re_repaired = False\<rparr>) (corrupt_entries l) @
     replicate (corrupt_count l - length (corrupt_entries l))
       \<lparr>re_name = [], re_owner_id = [], re_first_block = 0, re_damage = SIGIL_CARD_DAMAGE_CHAIN,
        re_repaired = False\<rparr>"
proof -
  have named: "rr_entries (fold (\<lambda>e r. sigil_card_repair_note r (Some (ce_name e)) (Some (ce_owner_id e))
        (ce_first_block e) SIGIL_CARD_DAMAGE_CHAIN False) es r) = rr_entries r @
     map (\<lambda>e. \<lparr>re_name = take 63 (ce_name e), re_owner_id = take 15 (ce_owner_id e),
                re_first_block = ce_first_block e, re_damage = SIGIL_CARD_DAMAGE_CHAIN,
                re_repaired = False\<rparr>) es" for es r
    by (induction es arbitrary: r)
       (simp_all add: sigil_card_repair_note_def SIGIL_CARD_NAME_MAX_def SIGIL_CARD_OWNER_MAX_def)
  have unnamed: "rr_entries (fold (\<lambda>_ r. sigil_card_repair_note r None None 0 SIGIL_CARD_DAMAGE_CHAIN False)
        is r) = rr_entries r @ replicate (length is)
       \<lparr>re_name = [], re_owner_id = [], re_first_block = 0, re_damage = SIGIL_CARD_DAMAGE_CHAIN,
        re_repaired = False\<rparr>" for "is" :: "nat list" and r
    by (induction "is" arbitrary: r)
       (simp_all add: sigil_card_repair_note_def replicate_append_same)
  show ?thesis by (simp add: report_listing_def named unnamed)
qed

end
