(* ===== verification/Chains.thy ===== *)
theory Chains
  imports Prelude
begin

text \<open>
  Block chains. Every card format of \<^verbatim>\<open>src/src/card_*.c\<close> stores a save as a chain of blocks and
  reads it with a loop of its own (\<^verbatim>\<open>walk_chain\<close>) that stops at links leaving the card and at
  blocks already seen. This theory says once what an intact chain is (\<open>linked\<close> and distinct),
  and states as a locale the contract every format's loop keeps: it returns exactly the intact
  chain that starts at a block, and nothing (the empty list, a count of 0 in the code) when there
  is none. The lemmas of the locale are what the format theories use about their loops.
\<close>

section \<open>Links and intact chains\<close>

text \<open>What a block's link says: the chain ends here, goes on, or is not a link of a whole chain.\<close>

datatype link = End | Next nat | Bad

fun linked :: "(nat \<Rightarrow> link) \<Rightarrow> nat list \<Rightarrow> bool" where
  "linked step [] = False"
| "linked step [b] = (step b = End)"
| "linked step (b # c # bs) = (step b = Next c \<and> linked step (c # bs))"

lemma linked_nonempty: "linked step bs \<Longrightarrow> bs \<noteq> []"
  by auto

text \<open>A chain is determined by the block it starts at.\<close>

lemma linked_unique: "linked step bs \<Longrightarrow> linked step cs \<Longrightarrow> hd bs = hd cs \<Longrightarrow> bs = cs"
proof (induction bs arbitrary: cs)
  case Nil
  then show ?case by simp
next
  case (Cons b bs)
  from Cons.prems(2,3) obtain ds where cs: "cs = b # ds" by (cases cs) auto
  show ?case
    using Cons.prems Cons.IH [of ds] unfolding cs
    by (cases bs; cases ds) auto
qed

lemma linked_cong: "(\<And>b. b \<in> set bs \<Longrightarrow> step b = step' b) \<Longrightarrow> linked step bs = linked step' bs"
  by (induction step bs rule: linked.induct) auto

lemma linked_tl: "linked step (b # bs) \<Longrightarrow> bs \<noteq> [] \<Longrightarrow> linked step bs"
  by (cases bs) auto

lemma linked_suffix: "linked step (as @ bs) \<Longrightarrow> bs \<noteq> [] \<Longrightarrow> linked step bs"
  by (induction as) (auto dest: linked_tl)

text \<open>The links of a chain by position, as the code writes them.\<close>

lemma linked_nth:
  "linked step bs \<longleftrightarrow>
     bs \<noteq> [] \<and> (\<forall>i<length bs. step (bs ! i) = (if Suc i = length bs then End else Next (bs ! Suc i)))"
proof (induction bs)
  case Nil
  then show ?case by simp
next
  case (Cons b bs)
  then show ?case
    by (cases bs) (simp_all add: All_less_Suc2)
qed

text \<open>Two chains over the same links that meet run together from there to the end.\<close>

lemma linked_meet:
  assumes "linked step (as @ b # bs)" and "linked step (cs @ b # ds)"
  shows "bs = ds"
  using linked_unique [OF linked_suffix [OF assms(1)] linked_suffix [OF assms(2)]] by simp

section \<open>Counting the chains that reach a block\<close>

text \<open>\<^verbatim>\<open>for (i < n) claims[order[i]]++\<close>.\<close>

definition claim_chain :: "nat list \<Rightarrow> (nat \<Rightarrow> nat) \<Rightarrow> nat \<Rightarrow> nat" where
  "claim_chain order claims = fold (\<lambda>b claims. claims(b := claims b + 1)) order claims"

lemma claim_chain_apply:
  "distinct order \<Longrightarrow> claim_chain order claims x = claims x + (if x \<in> set order then 1 else 0)"
  unfolding claim_chain_def by (induction order arbitrary: claims) auto

lemma fold_claims:
  assumes "\<And>b. b \<in> set bs \<Longrightarrow> distinct (w b)"
  shows "fold (\<lambda>b claims. if \<not> P b then claims else claim_chain (w b) claims) bs claims x =
    claims x + length (filter (\<lambda>b. P b \<and> x \<in> set (w b)) bs)"
  using assms by (induction bs arbitrary: claims) (auto simp: claim_chain_apply)

text \<open>A count above one is a second chain through the block.\<close>

lemma two_claims:
  assumes "distinct bs" and "a \<in> set bs" and "Q a"
  shows "1 < length (filter Q bs) \<longleftrightarrow> (\<exists>b \<in> set bs. b \<noteq> a \<and> Q b)"
proof -
  have "length (filter Q bs) = card {b \<in> set bs. Q b}"
    using assms(1) by (metis distinct_card distinct_filter set_filter)
  moreover have "{b \<in> set bs. Q b} = insert a {b \<in> set bs. b \<noteq> a \<and> Q b}"
    using assms by auto
  moreover have "finite {b \<in> set bs. b \<noteq> a \<and> Q b}" by simp
  ultimately have "length (filter Q bs) = Suc (card {b \<in> set bs. b \<noteq> a \<and> Q b})"
    by simp
  then show ?thesis by (auto simp: card_gt_0_iff)
qed

text \<open>The same with counters that stop at 255, as the formats with larger directories keep them: a
  count above one says the same.\<close>

definition claim_chain_sat :: "nat list \<Rightarrow> (nat \<Rightarrow> nat) \<Rightarrow> nat \<Rightarrow> nat" where
  "claim_chain_sat order claims =
     fold (\<lambda>b claims. if claims b < 255 then claims(b := claims b + 1) else claims) order claims"

lemma claim_chain_sat_apply:
  assumes "\<And>x. c x = min 255 (d x)"
  shows "claim_chain_sat order c x = min 255 (claim_chain order d x)"
  using assms unfolding claim_chain_sat_def claim_chain_def
proof (induction order arbitrary: c d)
  case Nil
  then show ?case by simp
next
  case (Cons b bs)
  have "(if c b < 255 then c(b := c b + 1) else c) y = min 255 ((d(b := d b + 1)) y)" for y
    using Cons.prems [of y] Cons.prems [of b] by (auto simp: min_def split: if_splits)
  from Cons.IH [of _ "d(b := d b + 1)", OF this] show ?case by simp
qed

lemma fold_claims_sat:
  assumes "\<And>b. b \<in> set bs \<Longrightarrow> distinct (w b)"
  shows "fold (\<lambda>b claims. if \<not> P b then claims else claim_chain_sat (w b) claims) bs (\<lambda>_. 0) x =
    min 255 (length (filter (\<lambda>b. P b \<and> x \<in> set (w b)) bs))"
proof -
  have "fold (\<lambda>b claims. if \<not> P b then claims else claim_chain_sat (w b) claims) bs c x =
      min 255 (fold (\<lambda>b claims. if \<not> P b then claims else claim_chain (w b) claims) bs d x)"
    if "\<And>x. c x = min 255 (d x)" for c d
    using that assms
  proof (induction bs arbitrary: c d)
    case (Cons b bs)
    have "(if \<not> P b then c else claim_chain_sat (w b) c) y = min 255 ((if \<not> P b then d else claim_chain (w b) d) y)" for y
      using Cons.prems(1) claim_chain_sat_apply [of c d "w b" y, OF Cons.prems(1)] by simp
    from Cons.IH [of _ "if \<not> P b then d else claim_chain (w b) d", OF this] Cons.prems(2) show ?case by simp
  qed simp
  from this [of "\<lambda>_. 0" "\<lambda>_. 0"] fold_claims [of bs w P "\<lambda>_. 0" x, OF assms] show ?thesis by simp
qed

section \<open>Accounting for every block\<close>

text \<open>Free blocks and the blocks of disjoint chains that have the others add up to the card.\<close>

lemma blocks_accounted:
  assumes "distinct ls" and "\<And>a. a \<in> set ls \<Longrightarrow> distinct (w a) \<and> set (w a) \<subseteq> {m..<n :: nat}"
    and "\<And>a b. a \<in> set ls \<Longrightarrow> b \<in> set ls \<Longrightarrow> a \<noteq> b \<Longrightarrow> set (w a) \<inter> set (w b) = {}"
    and "\<And>b. m \<le> b \<Longrightarrow> b < n \<Longrightarrow> free b \<longleftrightarrow> (\<forall>a \<in> set ls. b \<notin> set (w a))"
  shows "length (filter free [m..<n]) + sum_list (map (\<lambda>a. length (w a)) ls) = n - m"
proof -
  have "sum_list (map (\<lambda>a. length (w a)) ls) = (\<Sum>a \<in> set ls. length (w a))"
    by (rule sum_list_distinct_conv_sum_set [OF assms(1)])
  also have "\<dots> = (\<Sum>a \<in> set ls. card (set (w a)))"
    using assms(2) by (intro sum.cong) (auto simp: distinct_card)
  also have "\<dots> = card (\<Union>a \<in> set ls. set (w a))"
    using assms(3) by (intro card_UN_disjoint [symmetric]) auto
  finally have used: "sum_list (map (\<lambda>a. length (w a)) ls) = card (\<Union>a \<in> set ls. set (w a))" .
  have "length (filter free [m..<n]) = card (set (filter free [m..<n]))"
    by (rule distinct_card [symmetric]) simp
  also have "set (filter free [m..<n]) = {m..<n} - (\<Union>a \<in> set ls. set (w a))" using assms(4) by auto
  also have "card \<dots> = (n - m) - card (\<Union>a \<in> set ls. set (w a))"
    using assms(2) by (subst card_Diff_subset) auto
  finally have "length (filter free [m..<n]) = (n - m) - card (\<Union>a \<in> set ls. set (w a))" .
  moreover have "card (\<Union>a \<in> set ls. set (w a)) \<le> card {m..<n}" using assms(2) by (intro card_mono) auto
  ultimately show ?thesis using used by simp
qed

section \<open>The contract of a chain reader\<close>

locale chain_reader =
  fixes step :: "'c \<Rightarrow> nat \<Rightarrow> link"
    and start :: "'c \<Rightarrow> nat \<Rightarrow> bool"
    and walk :: "'c \<Rightarrow> nat \<Rightarrow> nat list"
  assumes walk_sound:
      "start c b \<Longrightarrow> walk c b \<noteq> [] \<Longrightarrow>
         hd (walk c b) = b \<and> linked (step c) (walk c b) \<and> distinct (walk c b)"
    and walk_complete:
      "start c (hd bs) \<Longrightarrow> linked (step c) bs \<Longrightarrow> distinct bs \<Longrightarrow> walk c (hd bs) = bs"
begin

lemma walk_linked: "start c b \<Longrightarrow> walk c b \<noteq> [] \<Longrightarrow> linked (step c) (walk c b)"
  using walk_sound by blast

lemma walk_distinct: "start c b \<Longrightarrow> distinct (walk c b)"
  by (cases "walk c b = []") (use walk_sound in auto)

lemma walk_hd: "start c b \<Longrightarrow> walk c b \<noteq> [] \<Longrightarrow> hd (walk c b) = b"
  using walk_sound by blast

lemma start_in_walk: "start c b \<Longrightarrow> walk c b \<noteq> [] \<Longrightarrow> b \<in> set (walk c b)"
  using walk_hd by (metis list.set_sel(1))

text \<open>The loop returns a chain exactly when an intact one starts at the block.\<close>

lemma walk_iff:
  "start c b \<Longrightarrow>
     walk c b = bs \<and> bs \<noteq> [] \<longleftrightarrow> hd bs = b \<and> linked (step c) bs \<and> distinct bs"
  using walk_sound walk_complete linked_nonempty by metis

text \<open>A card whose links agree on the blocks of an intact chain has the same chain.\<close>

lemma walk_frame:
  assumes "start c b" and "walk c b \<noteq> []" and "start c' b"
    and "\<And>x. x \<in> set (walk c b) \<Longrightarrow> step c' x = step c x"
  shows "walk c' b = walk c b"
proof -
  have "linked (step c') (walk c b)"
    using walk_linked [OF assms(1,2)] linked_cong assms(4) by blast
  with walk_complete [of c' "walk c b"] walk_hd [OF assms(1,2)] walk_distinct [OF assms(1)] assms(3)
  show ?thesis by simp
qed

text \<open>A chain written link by link is read back.\<close>

lemma walk_written:
  assumes "bs \<noteq> []" and "distinct bs" and "start c (hd bs)"
    and "\<And>i. i < length bs \<Longrightarrow>
           step c (bs ! i) = (if Suc i = length bs then End else Next (bs ! Suc i))"
  shows "walk c (hd bs) = bs"
  using assms by (intro walk_complete) (auto simp: linked_nth)

text \<open>Two intact chains that share a block end in the same blocks.\<close>

lemma walk_meet:
  assumes "start c a" and "start c b" and "x \<in> set (walk c a)" and "x \<in> set (walk c b)"
  shows "\<exists>as bs cs. walk c a = as @ x # cs \<and> walk c b = bs @ x # cs"
proof -
  from assms(3,4) obtain as cs bs ds
    where a: "walk c a = as @ x # cs" and b: "walk c b = bs @ x # ds"
    by (meson split_list)
  have "linked (step c) (walk c a)" by (rule walk_linked [OF assms(1)]) (simp add: a)
  moreover have "linked (step c) (walk c b)" by (rule walk_linked [OF assms(2)]) (simp add: b)
  ultimately have "linked (step c) (as @ x # cs)" and "linked (step c) (bs @ x # ds)"
    by (simp_all add: a b)
  with a b show ?thesis using linked_meet by blast
qed

text \<open>A block that no link leads to is on another block's chain only as its start.\<close>

lemma not_on_walk:
  assumes "start c a" and "\<And>y. step c y \<noteq> Next x" and "x \<in> set (walk c a)"
  shows "x = a"
proof -
  from assms(3) obtain as cs where w: "walk c a = as @ x # cs" by (meson split_list)
  have l: "linked (step c) (walk c a)" by (rule walk_linked [OF assms(1)]) (simp add: w)
  show ?thesis
  proof (cases as rule: rev_cases)
    case Nil
    then show ?thesis using walk_hd [OF assms(1)] w by simp
  next
    case (snoc bs y)
    with l w have "linked (step c) (y # x # cs)"
      using linked_suffix [of "step c" bs "y # x # cs"] by simp
    then show ?thesis using assms(2) by simp
  qed
qed

end

end
