(* ===== verification/Stream.thy ===== *)
theory Stream
  imports Prelude
begin

text \<open>
  Streams: \<^verbatim>\<open>sigil_io\<close> (\<^verbatim>\<open>src/include/sigil.h\<close>), the two read loops of \<^verbatim>\<open>src/src/io_file.c\<close>
  every reader goes through, and the stream over a byte buffer that \<^verbatim>\<open>sync_units.c\<close> and
  \<^verbatim>\<open>rzip.c\<close> read cards from.

  The client supplies \<^verbatim>\<open>sigil_io\<close>, so a stream is a parameter. What the code relies on is the
  documented behaviour of \<^verbatim>\<open>read\<close>: it returns at most the bytes asked for, and only at the end of
  the stream none. The locale \<open>byte_stream\<close> states that for a stream holding \<open>data\<close>.
\<close>

section \<open>The interface\<close>

text \<open>\<open>io_read off len\<close> is \<open>None\<close> for a negative result; \<open>io_size\<close> is \<open>None\<close> for a stream
  without a size function.\<close>

record sigil_io =
  io_read :: "nat \<Rightarrow> nat \<Rightarrow> bytes option"
  io_size :: "int option"

text \<open>\<^verbatim>\<open>io->size ? io->size(io->ctx) : -1\<close>.\<close>

definition stream_size :: "sigil_io \<Rightarrow> int" where
  "stream_size io = (case io_size io of None \<Rightarrow> -1 | Some n \<Rightarrow> n)"

section \<open>The read loops\<close>

text \<open>The buffer starts at offset \<open>p\<close> of \<open>buf\<close>. The result is the code, the buffer and the
  count read.\<close>

function sigil_io_read_upto_loop ::
    "sigil_io \<Rightarrow> nat \<Rightarrow> mem \<Rightarrow> nat \<Rightarrow> nat \<Rightarrow> nat \<Rightarrow> rc \<times> mem \<times> nat" where
  "sigil_io_read_upto_loop io off buf p len got =
     (if got < len then
        (case io_read io (off + got) (len - got) of
           None \<Rightarrow> (SIGIL_ERR_IO, buf, got)
         | Some bs \<Rightarrow>
             if bs = [] then (SIGIL_OK, buf, got)
             else sigil_io_read_upto_loop io off
                    (memcpy buf (p + got) (mem_of bs) 0 (length bs)) p len (got + length bs))
      else (SIGIL_OK, buf, got))"
  by pat_completeness auto
termination
  by (relation "measure (\<lambda>(io, off, buf, p, len, got). len - got)")
     (auto simp: neq_Nil_conv diff_less_mono2)

declare sigil_io_read_upto_loop.simps [simp del]

definition sigil_io_read_upto :: "sigil_io \<Rightarrow> nat \<Rightarrow> mem \<Rightarrow> nat \<Rightarrow> nat \<Rightarrow> rc \<times> mem \<times> nat" where
  "sigil_io_read_upto io off buf p len = sigil_io_read_upto_loop io off buf p len 0"

function sigil_io_read_exact_loop ::
    "sigil_io \<Rightarrow> nat \<Rightarrow> mem \<Rightarrow> nat \<Rightarrow> nat \<Rightarrow> rc \<times> mem" where
  "sigil_io_read_exact_loop io off buf p remaining =
     (if 0 < remaining then
        (case io_read io off remaining of
           None \<Rightarrow> (SIGIL_ERR_IO, buf)
         | Some bs \<Rightarrow>
             if bs = [] then (SIGIL_ERR_IO, buf)
             else sigil_io_read_exact_loop io (off + length bs)
                    (memcpy buf p (mem_of bs) 0 (length bs)) (p + length bs) (remaining - length bs))
      else (SIGIL_OK, buf))"
  by pat_completeness auto
termination
  by (relation "measure (\<lambda>(io, off, buf, p, remaining). remaining)") auto

declare sigil_io_read_exact_loop.simps [simp del]

definition sigil_io_read_exact :: "sigil_io \<Rightarrow> nat \<Rightarrow> mem \<Rightarrow> nat \<Rightarrow> nat \<Rightarrow> rc \<times> mem" where
  "sigil_io_read_exact io off buf p len = sigil_io_read_exact_loop io off buf p len"

section \<open>The contract of a stream\<close>

locale byte_stream =
  fixes io :: sigil_io and data :: bytes
  assumes read_some:
      "0 < len \<Longrightarrow> off < length data \<Longrightarrow>
         \<exists>n. 0 < n \<and> n \<le> len \<and> off + n \<le> length data \<and> io_read io off len = Some (take n (drop off data))"
    and read_end: "0 < len \<Longrightarrow> length data \<le> off \<Longrightarrow> io_read io off len = Some []"
begin

text \<open>However short the single reads are, the loop fills the buffer with the stream's bytes up to
  the count asked for or the end of the stream.\<close>

lemma read_upto_loop:
  assumes "got \<le> min len (length data - off)"
  shows "\<exists>buf'. sigil_io_read_upto_loop io off buf p len got =
             (SIGIL_OK, buf', min len (length data - off)) \<and>
           (\<forall>i. buf' i = (if p + got \<le> i \<and> i < p + min len (length data - off)
                          then data ! (off + (i - p)) else buf i))"
  using assms
proof (induction "len - got" arbitrary: got buf rule: less_induct)
  case less
  show ?case
  proof (cases "got < min len (length data - off)")
    case False
    then have got: "got = min len (length data - off)" using less.prems by linarith
    show ?thesis
    proof (cases "got < len")
      case True
      with got have "length data \<le> off + got" by simp
      with True have "io_read io (off + got) (len - got) = Some []" by (intro read_end) auto
      with True got show ?thesis
        by (subst sigil_io_read_upto_loop.simps) auto
    next
      case False
      with got show ?thesis by (subst sigil_io_read_upto_loop.simps) auto
    qed
  next
    case True
    then have "0 < len - got" and "off + got < length data" by linarith+
    then obtain n where n: "0 < n" "n \<le> len - got" "off + got + n \<le> length data"
      and rd: "io_read io (off + got) (len - got) = Some (take n (drop (off + got) data))"
      using read_some by blast
    let ?bs = "take n (drop (off + got) data)"
    have lb: "length ?bs = n" and nth: "\<And>k. k < n \<Longrightarrow> mem_of ?bs k = data ! (off + got + k)"
      using n by (auto simp: mem_of_def)
    let ?buf = "memcpy buf (p + got) (mem_of ?bs) 0 n"
    have le: "got + n \<le> min len (length data - off)" using n True by linarith
    have lt: "len - (got + n) < len - got" using n True by linarith
    from less.hyps [OF lt le, of ?buf]
    obtain buf' where rec: "sigil_io_read_upto_loop io off ?buf p len (got + n) =
        (SIGIL_OK, buf', min len (length data - off))"
      and vals: "\<forall>i. buf' i = (if p + (got + n) \<le> i \<and> i < p + min len (length data - off)
                          then data ! (off + (i - p)) else ?buf i)"
      by blast
    have "sigil_io_read_upto_loop io off buf p len got =
        (SIGIL_OK, buf', min len (length data - off))"
      using True rd n lb rec by (subst sigil_io_read_upto_loop.simps) auto
    moreover have "buf' i = (if p + got \<le> i \<and> i < p + min len (length data - off)
                          then data ! (off + (i - p)) else buf i)" for i
    proof (cases "p + got \<le> i \<and> i < p + got + n")
      case True
      have e: "i - (p + got) < n" "off + got + (i - (p + got)) = off + (i - p)" using True by auto
      show ?thesis
        using True n vals nth [OF e(1)] e(2) by (auto simp: memcpy_apply)
    next
      case False
      then show ?thesis using vals n by (auto simp: memcpy_apply)
    qed
    ultimately show ?thesis by blast
  qed
qed

lemma read_upto:
  "\<exists>buf'. sigil_io_read_upto io off buf p len = (SIGIL_OK, buf', min len (length data - off)) \<and>
     (\<forall>i. buf' i = (if p \<le> i \<and> i < p + min len (length data - off)
                    then data ! (off + (i - p)) else buf i))"
  using read_upto_loop [of 0 len off buf p] by (simp add: sigil_io_read_upto_def)

text \<open>\<^verbatim>\<open>sigil_io_read_exact\<close> succeeds exactly when the stream holds all the bytes asked for.\<close>

lemma read_exact_loop_ok:
  assumes "off + remaining \<le> length data"
  shows "\<exists>buf'. sigil_io_read_exact_loop io off buf p remaining = (SIGIL_OK, buf') \<and>
           (\<forall>i. buf' i = (if p \<le> i \<and> i < p + remaining then data ! (off + (i - p)) else buf i))"
  using assms
proof (induction remaining arbitrary: off buf p rule: less_induct)
  case (less r)
  show ?case
  proof (cases "0 < r")
    case False
    then show ?thesis by (subst sigil_io_read_exact_loop.simps) auto
  next
    case True
    then obtain n where n: "0 < n" "n \<le> r" "off + n \<le> length data"
      and rd: "io_read io off r = Some (take n (drop off data))"
      using read_some [of r off] less.prems by auto
    let ?bs = "take n (drop off data)"
    have lb: "length ?bs = n" and nth: "\<And>k. k < n \<Longrightarrow> mem_of ?bs k = data ! (off + k)"
      using n by (auto simp: mem_of_def)
    let ?buf = "memcpy buf p (mem_of ?bs) 0 n"
    from less.IH [of "r - n" "off + n" ?buf "p + n"] n less.prems
    obtain buf' where rec: "sigil_io_read_exact_loop io (off + n) ?buf (p + n) (r - n) = (SIGIL_OK, buf')"
      and vals: "\<forall>i. buf' i = (if p + n \<le> i \<and> i < p + r then data ! (off + n + (i - (p + n))) else ?buf i)"
      by auto
    have "sigil_io_read_exact_loop io off buf p r = (SIGIL_OK, buf')"
      using True rd n lb rec by (subst sigil_io_read_exact_loop.simps) auto
    moreover have "buf' i = (if p \<le> i \<and> i < p + r then data ! (off + (i - p)) else buf i)" for i
    proof (cases "p \<le> i \<and> i < p + n")
      case True
      have e: "i - p < n" using True by auto
      show ?thesis using True n vals nth [OF e] by (auto simp: memcpy_apply)
    next
      case False
      then show ?thesis using vals n by (auto simp: memcpy_apply)
    qed
    ultimately show ?thesis by blast
  qed
qed

lemma read_exact_loop_short:
  assumes "length data < off + remaining" and "0 < remaining"
  shows "fst (sigil_io_read_exact_loop io off buf p remaining) = SIGIL_ERR_IO"
  using assms
proof (induction remaining arbitrary: off buf p rule: less_induct)
  case (less r)
  show ?case
  proof (cases "off < length data")
    case True
    then obtain n where n: "0 < n" "n \<le> r" "off + n \<le> length data"
      and rd: "io_read io off r = Some (take n (drop off data))"
      using read_some [of r off] less.prems by auto
    have "fst (sigil_io_read_exact_loop io (off + n) b (p + n) (r - n)) = SIGIL_ERR_IO" for b
      using n less.prems by (intro less.IH) auto
    with n rd less.prems show ?thesis by (subst sigil_io_read_exact_loop.simps) auto
  next
    case False
    with less.prems show ?thesis
      by (subst sigil_io_read_exact_loop.simps) (simp add: read_end)
  qed
qed

lemma read_exact_iff:
  "fst (sigil_io_read_exact io off buf p len) = SIGIL_OK \<longleftrightarrow> len = 0 \<or> off + len \<le> length data"
proof (cases "off + len \<le> length data")
  case True
  then show ?thesis
    using read_exact_loop_ok [of off len buf p] by (auto simp: sigil_io_read_exact_def)
next
  case False
  then show ?thesis
    using read_exact_loop_short [of off len buf p]
    by (cases "len = 0") (auto simp: sigil_io_read_exact_def sigil_io_read_exact_loop.simps [of io off buf p 0])
qed

end

section \<open>The stream over a byte buffer\<close>

definition mem_read :: "bytes \<Rightarrow> nat \<Rightarrow> nat \<Rightarrow> bytes option" where
  "mem_read m off len =
     (if length m \<le> off then Some []
      else (let n = (if length m - off < len then length m - off else len)
            in Some (take n (drop off m))))"

definition mem_size :: "bytes \<Rightarrow> int" where
  "mem_size m = int (length m)"

definition mem_io :: "bytes \<Rightarrow> sigil_io" where
  "mem_io m = \<lparr>io_read = mem_read m, io_size = Some (mem_size m)\<rparr>"

interpretation memio: byte_stream "mem_io m" m for m
proof unfold_locales
  fix len off :: nat assume "0 < len" "off < length m"
  then show "\<exists>n. 0 < n \<and> n \<le> len \<and> off + n \<le> length m \<and>
      io_read (mem_io m) off len = Some (take n (drop off m))"
    by (intro exI [of _ "min len (length m - off)"])
       (auto simp: mem_io_def mem_read_def Let_def min_def)
next
  fix len off :: nat assume "0 < len" "length m \<le> off"
  then show "io_read (mem_io m) off len = Some []"
    by (simp add: mem_io_def mem_read_def)
qed

lemma stream_size_mem_io [simp]: "stream_size (mem_io m) = int (length m)"
  by (simp add: stream_size_def mem_io_def mem_size_def)

end
