(* ===== verification/Digests.thy ===== *)
theory Digests
  imports Prelude "HOL-Library.While_Combinator" "HOL-Library.Multiset"
begin

text \<open>
  The digests of \<^verbatim>\<open>src/src/md5.c\<close> and \<^verbatim>\<open>src/src/sha1.c\<close>: the compression functions on
  32-bit words, the streaming contexts (a chaining state, a byte count and a partly filled
  64-byte buffer), their \<^verbatim>\<open>init\<close>/\<^verbatim>\<open>update\<close>/\<^verbatim>\<open>final\<close> operations, HMAC-SHA1 and RomM's
  hash over named parts.

  Both contexts keep one contract, the locale \<open>block_hash\<close>: an update feeds the pending bytes
  and the new ones to the compression function block by block and keeps the rest. From it follows
  that it doesn't matter how the data is cut into updates, and that each digest is the one the
  standard defines on the padded message.
\<close>

section \<open>The contract of a streaming block hash\<close>

text \<open>The whole 64-byte blocks of a byte string, and what is left over.\<close>

function feed :: "('s \<Rightarrow> bytes \<Rightarrow> 's) \<Rightarrow> 's \<Rightarrow> bytes \<Rightarrow> 's" where
  "feed f s bs = (if 64 \<le> length bs then feed f (f s (take 64 bs)) (drop 64 bs) else s)"
  by pat_completeness auto
termination
  by (relation "measure (\<lambda>(f, s, bs). length bs)") auto

function rest64 :: "bytes \<Rightarrow> bytes" where
  "rest64 bs = (if 64 \<le> length bs then rest64 (drop 64 bs) else bs)"
  by pat_completeness auto
termination
  by (relation "measure length") auto

declare feed.simps [simp del] rest64.simps [simp del]

lemma feed_short [simp]: "length bs < 64 \<Longrightarrow> feed f s bs = s"
  by (subst feed.simps) simp

lemma feed_block: "length b = 64 \<Longrightarrow> feed f s (b @ bs) = feed f (f s b) bs"
  by (subst feed.simps) simp

lemma rest64_short [simp]: "length bs < 64 \<Longrightarrow> rest64 bs = bs"
  by (subst rest64.simps) simp

lemma rest64_block: "length b = 64 \<Longrightarrow> rest64 (b @ bs) = rest64 bs"
  by (subst rest64.simps) simp

lemma length_rest64: "length (rest64 bs) = length bs mod 64"
proof (induction bs rule: rest64.induct)
  case (1 bs)
  show ?case
  proof (cases "64 \<le> length bs")
    case True
    with 1 have "length (rest64 bs) = (length bs - 64) mod 64"
      by (subst rest64.simps) simp
    with True show ?thesis by (simp add: le_mod_geq)
  next
    case False
    then show ?thesis by simp
  qed
qed

lemma length_rest64_less: "length (rest64 bs) < 64"
  by (simp add: length_rest64)

text \<open>Feeding in two steps is feeding once.\<close>

lemma feed_append: "feed f s (bs @ cs) = feed f (feed f s bs) (rest64 bs @ cs)"
proof (induction f s bs rule: feed.induct)
  case (1 f s bs)
  show ?case
  proof (cases "64 \<le> length bs")
    case True
    let ?b = "take 64 bs" and ?r = "drop 64 bs"
    have "feed f s (bs @ cs) = feed f (f s ?b) (?r @ cs)"
      using True feed_block [of ?b f s "?r @ cs"] by (simp flip: append_assoc)
    also have "\<dots> = feed f (feed f (f s ?b) ?r) (rest64 ?r @ cs)"
      using 1 True by simp
    also have "feed f (f s ?b) ?r = feed f s bs"
      using True by (subst (2) feed.simps) simp
    also have "rest64 ?r = rest64 bs"
      using True by (subst (2) rest64.simps) simp
    finally show ?thesis .
  next
    case False
    then show ?thesis by simp
  qed
qed

lemma rest64_append: "rest64 (bs @ cs) = rest64 (rest64 bs @ cs)"
proof (induction bs rule: rest64.induct)
  case (1 bs)
  show ?case
  proof (cases "64 \<le> length bs")
    case True
    let ?b = "take 64 bs" and ?r = "drop 64 bs"
    have "rest64 (bs @ cs) = rest64 (?r @ cs)"
      using True rest64_block [of ?b "?r @ cs"] by (simp flip: append_assoc)
    also have "\<dots> = rest64 (rest64 ?r @ cs)" using 1 True by simp
    also have "rest64 ?r = rest64 bs" using True by (subst (2) rest64.simps) simp
    finally show ?thesis .
  next
    case False
    then show ?thesis by simp
  qed
qed

locale block_hash =
  fixes compress :: "'s \<Rightarrow> bytes \<Rightarrow> 's"
    and init :: 'h
    and update :: "'h \<Rightarrow> bytes \<Rightarrow> 'h"
    and state :: "'h \<Rightarrow> 's"
    and pending :: "'h \<Rightarrow> bytes"
    and fill :: "'h \<Rightarrow> nat"
    and count :: "'h \<Rightarrow> u64"
    and iv :: 's
  assumes init: "state init = iv" "pending init = []" "fill init < 64" "count init = 0"
    and pending_fill: "length (pending h) = fill h"
    and update_state: "fill h < 64 \<Longrightarrow> state (update h bs) = feed compress (state h) (pending h @ bs)"
    and update_pending: "fill h < 64 \<Longrightarrow> pending (update h bs) = rest64 (pending h @ bs)"
    and update_fill: "fill h < 64 \<Longrightarrow> fill (update h bs) < 64"
    and update_count: "count (update h bs) = count h + of_nat (length bs)"
begin

lemma updates_fill: "fill h < 64 \<Longrightarrow> fill (foldl update h bss) < 64"
  by (induction bss arbitrary: h) (auto simp: update_fill)

text \<open>However the data is cut into updates, the context is that of one update with all of it.\<close>

lemma updates_state:
  "fill h < 64 \<Longrightarrow>
     state (foldl update h bss) = feed compress (state h) (pending h @ concat bss) \<and>
     pending (foldl update h bss) = rest64 (pending h @ concat bss) \<and>
     count (foldl update h bss) = count h + of_nat (length (concat bss))"
proof (induction bss rule: rev_induct)
  case Nil
  then show ?case by (simp add: pending_fill)
next
  case (snoc b bss)
  let ?g = "foldl update h bss"
  have g: "fill ?g < 64" using updates_fill snoc.prems .
  have st: "state ?g = feed compress (state h) (pending h @ concat bss)"
    and pd: "pending ?g = rest64 (pending h @ concat bss)"
    and ct: "count ?g = count h + of_nat (length (concat bss))"
    using snoc by simp_all
  have "state (update ?g b) = feed compress (state h) ((pending h @ concat bss) @ b)"
    by (simp only: update_state [OF g] st pd feed_append [of compress "state h" "pending h @ concat bss" b])
  moreover have "pending (update ?g b) = rest64 ((pending h @ concat bss) @ b)"
    by (simp only: update_pending [OF g] pd rest64_append [of "pending h @ concat bss" b])
  moreover have "count (update ?g b) = count h + of_nat (length (concat (bss @ [b])))"
    by (simp add: update_count ct)
  ultimately show ?case by simp
qed

lemma init_updates:
  "state (foldl update init bss) = feed compress iv (concat bss)"
  "pending (foldl update init bss) = rest64 (concat bss)"
  "count (foldl update init bss) = of_nat (length (concat bss))"
  "fill (foldl update init bss) < 64"
  using updates_state [of init bss] updates_fill [of init bss] by (simp_all add: init)

end

section \<open>The streaming context\<close>

text \<open>
  \<^verbatim>\<open>sigil_md5\<close> and \<^verbatim>\<open>sigil_sha1\<close> are one structure but for the size of the chaining state,
  and their \<^verbatim>\<open>update\<close> functions are one text but for the compression function, so both are
  instances of the definitions here.
\<close>

record 's hash_ctx =
  ctx_state :: 's
  ctx_length :: u64
  ctx_buffer :: mem
  ctx_buffered :: nat

text \<open>The loop over the whole blocks of the data, and the tail copied to the buffer.\<close>

function hash_blocks :: "('s \<Rightarrow> mem \<Rightarrow> 's) \<Rightarrow> 's \<Rightarrow> bytes \<Rightarrow> 's \<times> bytes" where
  "hash_blocks block st p =
     (if 64 \<le> length p then hash_blocks block (block st (mem_of (take 64 p))) (drop 64 p) else (st, p))"
  by pat_completeness auto
termination
  by (relation "measure (\<lambda>(block, st, p). length p)") auto

declare hash_blocks.simps [simp del]

definition hash_tail :: "('s \<Rightarrow> mem \<Rightarrow> 's) \<Rightarrow> 's hash_ctx \<Rightarrow> bytes \<Rightarrow> 's hash_ctx" where
  "hash_tail block m p =
     (let (st, q) = hash_blocks block (ctx_state m) p;
          m = m\<lparr>ctx_state := st\<rparr>
      in if q \<noteq> [] then
           m\<lparr>ctx_buffer := memcpy (ctx_buffer m) 0 (mem_of q) 0 (length q), ctx_buffered := length q\<rparr>
         else m)"

definition hash_update :: "('s \<Rightarrow> mem \<Rightarrow> 's) \<Rightarrow> 's hash_ctx \<Rightarrow> bytes \<Rightarrow> 's hash_ctx" where
  "hash_update block m data =
     (let len = length data;
          m = m\<lparr>ctx_length := ctx_length m + of_nat len\<rparr>
      in if ctx_buffered m \<noteq> 0 then
           (let n = (if 64 - ctx_buffered m > len then len else 64 - ctx_buffered m);
                m = m\<lparr>ctx_buffer := memcpy (ctx_buffer m) (ctx_buffered m) (mem_of data) 0 n,
                      ctx_buffered := ctx_buffered m + n\<rparr>
            in if ctx_buffered m < 64 then m
               else hash_tail block (m\<lparr>ctx_state := block (ctx_state m) (ctx_buffer m), ctx_buffered := 0\<rparr>)
                              (drop n data))
         else hash_tail block m data)"

definition ctx_pending :: "'s hash_ctx \<Rightarrow> bytes" where
  "ctx_pending m = bytes_at (ctx_buffer m) 0 (ctx_buffered m)"

lemma hash_blocks_feed: "hash_blocks block st p = (feed (\<lambda>s b. block s (mem_of b)) st p, rest64 p)"
proof (induction block st p rule: hash_blocks.induct)
  case (1 block st p)
  then show ?case
    by (subst hash_blocks.simps, subst feed.simps, subst rest64.simps) simp
qed

lemma bytes_at_memcpy_mem_of:
  "bytes_at (memcpy b k (mem_of q) 0 n) 0 (k + n) = bytes_at b 0 k @ take n q" if "n \<le> length q"
  using that by (auto simp: list_eq_iff_nth_eq nth_append memcpy_apply mem_of_def)

lemma hash_tail_simps:
  assumes "ctx_buffered m = 0"
  shows "ctx_state (hash_tail block m p) = feed (\<lambda>s b. block s (mem_of b)) (ctx_state m) p"
    and "ctx_pending (hash_tail block m p) = rest64 p"
    and "ctx_buffered (hash_tail block m p) < 64"
    and "ctx_length (hash_tail block m p) = ctx_length m"
  using assms length_rest64_less [of p] bytes_at_memcpy_mem_of [of "length (rest64 p)" "rest64 p" "ctx_buffer m" 0]
  by (auto simp: hash_tail_def hash_blocks_feed ctx_pending_def bytes_at_def Let_def)

text \<open>The update of the code keeps the contract, for a compression function that reads 64 bytes.\<close>

lemma hash_update_block_hash:
  assumes cong: "\<And>s a b. (\<And>i. i < 64 \<Longrightarrow> a i = b i) \<Longrightarrow> block s a = block s b"
    and iv: "ctx_state h0 = iv" "ctx_buffered h0 = 0" "ctx_length h0 = 0"
  shows "block_hash (\<lambda>s b. block s (mem_of b)) h0 (hash_update block) ctx_state ctx_pending ctx_buffered ctx_length iv"
proof
  show "ctx_state h0 = iv" "ctx_pending h0 = []" "ctx_buffered h0 < 64" "ctx_length h0 = 0"
    using iv by (auto simp: ctx_pending_def bytes_at_def)
  show "length (ctx_pending h) = ctx_buffered h" for h :: "'a hash_ctx"
    by (simp add: ctx_pending_def)
  show "ctx_length (hash_update block h bs) = ctx_length h + of_nat (length bs)" for h bs
    by (auto simp: hash_update_def Let_def hash_tail_simps)
  fix h :: "'a hash_ctx" and bs :: bytes
  assume fill: "ctx_buffered h < 64"
  let ?k = "ctx_buffered h" and ?n = "min (64 - ctx_buffered h) (length bs)"
  let ?buf = "memcpy (ctx_buffer h) ?k (mem_of bs) 0 ?n"
  have pend: "bytes_at ?buf 0 (?k + ?n) = ctx_pending h @ take ?n bs"
    by (simp add: ctx_pending_def bytes_at_memcpy_mem_of)
  have n: "(if 64 - ?k > length bs then length bs else 64 - ?k) = ?n" by simp
  have "ctx_state (hash_update block h bs) = feed (\<lambda>s b. block s (mem_of b)) (ctx_state h) (ctx_pending h @ bs) \<and>
        ctx_pending (hash_update block h bs) = rest64 (ctx_pending h @ bs) \<and>
        ctx_buffered (hash_update block h bs) < 64"
  proof (cases "?k = 0")
    case True
    then have "ctx_pending h = []" by (simp add: ctx_pending_def bytes_at_def)
    with True show ?thesis by (simp add: hash_update_def Let_def hash_tail_simps)
  next
    case k: False
    show ?thesis
    proof (cases "?k + ?n < 64")
      case True
      then have "length bs < 64 - ?k" by linarith
      with k True pend fill show ?thesis
        by (simp add: hash_update_def Let_def ctx_pending_def)
    next
      case False
      then have kn: "?k + ?n = 64" using fill by simp
      let ?m = "h\<lparr>ctx_length := ctx_length h + of_nat (length bs), ctx_buffer := ?buf,
                 ctx_state := block (ctx_state h) ?buf, ctx_buffered := 0\<rparr>"
      have upd: "hash_update block h bs = hash_tail block ?m (drop ?n bs)"
        using k kn fill by (auto simp: hash_update_def Let_def n)
      let ?b = "ctx_pending h @ take ?n bs"
      have lb: "length ?b = 64" using kn by (simp add: ctx_pending_def)
      have "block (ctx_state h) ?buf = block (ctx_state h) (mem_of ?b)"
      proof (rule cong)
        fix i :: nat assume "i < 64"
        then show "?buf i = mem_of ?b i"
          using lb kn arg_cong [OF pend, of "\<lambda>xs. xs ! i"] by (simp add: mem_of_def)
      qed
      moreover have "ctx_pending h @ bs = ?b @ drop ?n bs" by simp
      ultimately show ?thesis
        using feed_block [OF lb, of "\<lambda>s b. block s (mem_of b)" "ctx_state h" "drop ?n bs"]
          rest64_block [OF lb, of "drop ?n bs"]
        by (simp add: upd hash_tail_simps)
    qed
  qed
  then show "ctx_state (hash_update block h bs) = feed (\<lambda>s b. block s (mem_of b)) (ctx_state h) (ctx_pending h @ bs)"
    and "ctx_pending (hash_update block h bs) = rest64 (ctx_pending h @ bs)"
    and "ctx_buffered (hash_update block h bs) < 64"
    by simp_all
qed

section \<open>MD5\<close>

definition MD5_K :: "u32 list" where
  "MD5_K =
    [0xd76aa478, 0xe8c7b756, 0x242070db, 0xc1bdceee, 0xf57c0faf, 0x4787c62a, 0xa8304613, 0xfd469501,
     0x698098d8, 0x8b44f7af, 0xffff5bb1, 0x895cd7be, 0x6b901122, 0xfd987193, 0xa679438e, 0x49b40821,
     0xf61e2562, 0xc040b340, 0x265e5a51, 0xe9b6c7aa, 0xd62f105d, 0x02441453, 0xd8a1e681, 0xe7d3fbc8,
     0x21e1cde6, 0xc33707d6, 0xf4d50d87, 0x455a14ed, 0xa9e3e905, 0xfcefa3f8, 0x676f02d9, 0x8d2a4c8a,
     0xfffa3942, 0x8771f681, 0x6d9d6122, 0xfde5380c, 0xa4beea44, 0x4bdecfa9, 0xf6bb4b60, 0xbebfbc70,
     0x289b7ec6, 0xeaa127fa, 0xd4ef3085, 0x04881d05, 0xd9d4d039, 0xe6db99e5, 0x1fa27cf8, 0xc4ac5665,
     0xf4292244, 0x432aff97, 0xab9423a7, 0xfc93a039, 0x655b59c3, 0x8f0ccc92, 0xffeff47d, 0x85845dd1,
     0x6fa87e4f, 0xfe2ce6e0, 0xa3014314, 0x4e0811a1, 0xf7537e82, 0xbd3af235, 0x2ad7d2bb, 0xeb86d391]"

definition MD5_S :: "nat list" where
  "MD5_S =
    [7, 12, 17, 22, 7, 12, 17, 22, 7, 12, 17, 22, 7, 12, 17, 22,
     5,  9, 14, 20, 5,  9, 14, 20, 5,  9, 14, 20, 5,  9, 14, 20,
     4, 11, 16, 23, 4, 11, 16, 23, 4, 11, 16, 23, 4, 11, 16, 23,
     6, 10, 15, 21, 6, 10, 15, 21, 6, 10, 15, 21, 6, 10, 15, 21]"

definition md5_rotl :: "u32 \<Rightarrow> nat \<Rightarrow> u32" where
  "md5_rotl x c = push_bit c x OR drop_bit (32 - c) x"

type_synonym md5_words = "u32 \<times> u32 \<times> u32 \<times> u32"

text \<open>One round of the loop in \<^verbatim>\<open>md5_block\<close>; \<open>m\<close> is the block as words.\<close>

definition md5_round :: "(nat \<Rightarrow> u32) \<Rightarrow> nat \<Rightarrow> md5_words \<Rightarrow> md5_words" where
  "md5_round m i = (\<lambda>(a, b, c, d).
     let (f, g) =
       (if i < 16 then ((b AND c) OR (NOT b AND d), i)
        else if i < 32 then ((d AND b) OR (NOT d AND c), (5 * i + 1) mod 16)
        else if i < 48 then (b XOR c XOR d, (3 * i + 5) mod 16)
        else (c XOR (b OR NOT d), (7 * i) mod 16))
     in (d, b + md5_rotl (a + f + MD5_K ! i + m g) (MD5_S ! i), b, c))"

definition md5_block :: "md5_words \<Rightarrow> mem \<Rightarrow> md5_words" where
  "md5_block st block =
     (let m = (\<lambda>i. sigil_read_le32 block (i * 4));
          (s0, s1, s2, s3) = st;
          (a, b, c, d) = fold (md5_round m) [0..<64] (s0, s1, s2, s3)
      in (s0 + a, s1 + b, s2 + c, s3 + d))"

type_synonym sigil_md5 = "md5_words hash_ctx"

definition md5_iv :: md5_words where
  "md5_iv = (0x67452301, 0xefcdab89, 0x98badcfe, 0x10325476)"

definition sigil_md5_init :: sigil_md5 where
  "sigil_md5_init = \<lparr>ctx_state = md5_iv, ctx_length = 0, ctx_buffer = (\<lambda>_. 0), ctx_buffered = 0\<rparr>"

definition sigil_md5_update :: "sigil_md5 \<Rightarrow> bytes \<Rightarrow> sigil_md5" where
  "sigil_md5_update = hash_update md5_block"

text \<open>\<^verbatim>\<open>sigil_md5_final\<close> pads through \<^verbatim>\<open>update\<close>, one byte at a time, taking each pad byte off
  the count again.\<close>

definition md5_pad_byte :: "sigil_md5 \<Rightarrow> u8 \<Rightarrow> sigil_md5" where
  "md5_pad_byte m b =
     (let m = sigil_md5_update m [b] in m\<lparr>ctx_length := ctx_length m - 1\<rparr>)"

definition md5_len_le :: "u64 \<Rightarrow> bytes" where
  "md5_len_le bits = map (\<lambda>i. ucast (drop_bit (8 * i) bits)) [0..<8]"

definition md5_digest :: "md5_words \<Rightarrow> bytes" where
  "md5_digest st = (let (a, b, c, d) = st in
     concat (map (\<lambda>w. [ucast w, ucast (drop_bit 8 w), ucast (drop_bit 16 w), ucast (drop_bit 24 w)])
                 [a, b, c, d]))"

definition sigil_md5_final :: "sigil_md5 \<Rightarrow> bytes" where
  "sigil_md5_final m =
     (let bits = ctx_length m * 8;
          m = md5_pad_byte m 0x80;
          m = while (\<lambda>m. ctx_buffered m \<noteq> 56) (\<lambda>m. md5_pad_byte m 0) m;
          m = sigil_md5_update m (md5_len_le bits)
      in md5_digest (ctx_state m))"

definition hex_lower :: bytes where
  "hex_lower = str ''0123456789abcdef''"

definition sigil_md5_hex :: "bytes \<Rightarrow> bytes" where
  "sigil_md5_hex digest =
     concat (map (\<lambda>d. [hex_lower ! unat (drop_bit 4 d), hex_lower ! unat (d AND 0xF)]) digest)"

definition sigil_md5_of :: "bytes \<Rightarrow> bytes" where
  "sigil_md5_of data = sigil_md5_hex (sigil_md5_final (sigil_md5_update sigil_md5_init data))"

text \<open>RomM's hash over named parts (\<^verbatim>\<open>sigil_named_hash\<close>): \<open>qsort\<close> by \<open>strcmp\<close> on the names,
  then one context fed line by line. Names are C strings, compared as unsigned bytes.\<close>

fun strcmp_le :: "bytes \<Rightarrow> bytes \<Rightarrow> bool" where
  "strcmp_le [] ys = True"
| "strcmp_le (x # xs) [] = False"
| "strcmp_le (x # xs) (y # ys) = (if x = y then strcmp_le xs ys else x < y)"

fun insert_named :: "(bytes \<times> bytes) \<Rightarrow> (bytes \<times> bytes) list \<Rightarrow> (bytes \<times> bytes) list" where
  "insert_named x [] = [x]"
| "insert_named x (y # ys) = (if strcmp_le (fst x) (fst y) then x # y # ys else y # insert_named x ys)"

definition sort_named :: "(bytes \<times> bytes) list \<Rightarrow> (bytes \<times> bytes) list" where
  "sort_named items = foldr insert_named items []"

definition named_line :: "nat \<Rightarrow> bytes \<times> bytes \<Rightarrow> bytes list" where
  "named_line i item =
     (if 0 < i then [str [CHR 0x0A]] else []) @ [fst item, str '':'', snd item]"

definition sigil_named_hash :: "(bytes \<times> bytes) list \<Rightarrow> bytes" where
  "sigil_named_hash items =
     (let items = (if 0 < length items then sort_named items else items);
          parts = concat (map (\<lambda>i. named_line i (items ! i)) [0..<length items]);
          m = foldl sigil_md5_update sigil_md5_init parts
      in sigil_md5_hex (sigil_md5_final m))"

section \<open>SHA-1\<close>

definition sha1_rotl :: "u32 \<Rightarrow> nat \<Rightarrow> u32" where
  "sha1_rotl x n = push_bit n x OR drop_bit (32 - n) x"

type_synonym sha1_words = "u32 \<times> u32 \<times> u32 \<times> u32 \<times> u32"

text \<open>The message schedule \<open>w[0..79]\<close>, extended one word at a time.\<close>

definition sha1_schedule :: "mem \<Rightarrow> u32 list" where
  "sha1_schedule block =
     foldl (\<lambda>w t. w @ [sha1_rotl (w ! (t - 3) XOR w ! (t - 8) XOR w ! (t - 14) XOR w ! (t - 16)) 1])
       (map (\<lambda>t. sigil_read_be32 block (t * 4)) [0..<16]) [16..<80]"

definition sha1_round :: "u32 list \<Rightarrow> nat \<Rightarrow> sha1_words \<Rightarrow> sha1_words" where
  "sha1_round w t = (\<lambda>(a, b, c, d, e).
     let (f, k) =
       (if t < 20 then ((b AND c) XOR (NOT b AND d), 0x5a827999)
        else if t < 40 then (b XOR c XOR d, 0x6ed9eba1)
        else if t < 60 then ((b AND c) XOR (b AND d) XOR (c AND d), 0x8f1bbcdc)
        else (b XOR c XOR d, 0xca62c1d6));
         temp = sha1_rotl a 5 + f + e + k + w ! t
     in (temp, a, sha1_rotl b 30, c, d))"

definition sha1_block :: "sha1_words \<Rightarrow> mem \<Rightarrow> sha1_words" where
  "sha1_block st block =
     (let w = sha1_schedule block;
          (s0, s1, s2, s3, s4) = st;
          (a, b, c, d, e) = fold (sha1_round w) [0..<80] (s0, s1, s2, s3, s4)
      in (s0 + a, s1 + b, s2 + c, s3 + d, s4 + e))"

type_synonym sigil_sha1 = "sha1_words hash_ctx"

definition sha1_iv :: sha1_words where
  "sha1_iv = (0x67452301, 0xefcdab89, 0x98badcfe, 0x10325476, 0xc3d2e1f0)"

definition sigil_sha1_init :: sigil_sha1 where
  "sigil_sha1_init = \<lparr>ctx_state = sha1_iv, ctx_length = 0, ctx_buffer = (\<lambda>_. 0), ctx_buffered = 0\<rparr>"

definition sigil_sha1_update :: "sigil_sha1 \<Rightarrow> bytes \<Rightarrow> sigil_sha1" where
  "sigil_sha1_update = hash_update sha1_block"

definition sha1_digest :: "sha1_words \<Rightarrow> bytes" where
  "sha1_digest st = (let (a, b, c, d, e) = st in
     concat (map (\<lambda>w. [ucast (drop_bit 24 w), ucast (drop_bit 16 w), ucast (drop_bit 8 w), ucast w])
                 [a, b, c, d, e]))"

text \<open>\<^verbatim>\<open>sigil_sha1_final\<close> pads in the buffer itself.\<close>

definition sigil_sha1_final :: "sigil_sha1 \<Rightarrow> bytes" where
  "sigil_sha1_final s =
     (let bits = ctx_length s * 8;
          s = s\<lparr>ctx_buffer := (ctx_buffer s)(ctx_buffered s := 0x80), ctx_buffered := ctx_buffered s + 1\<rparr>;
          s = (if 56 < ctx_buffered s then
                 (let b = memset (ctx_buffer s) (ctx_buffered s) 0 (64 - ctx_buffered s)
                  in s\<lparr>ctx_buffer := b, ctx_state := sha1_block (ctx_state s) b, ctx_buffered := 0\<rparr>)
               else s);
          b = memset (ctx_buffer s) (ctx_buffered s) 0 (56 - ctx_buffered s);
          b = fold (\<lambda>i b. b(63 - i := ucast (drop_bit (8 * i) bits))) [0..<8] b
      in sha1_digest (sha1_block (ctx_state s) b))"

definition sha1_of :: "bytes list \<Rightarrow> bytes" where
  "sha1_of parts = sigil_sha1_final (foldl sigil_sha1_update sigil_sha1_init parts)"

text \<open>\<^verbatim>\<open>sigil_hmac_sha1\<close>: the key, hashed when longer than a block, padded with zeros.\<close>

definition hmac_block :: "bytes \<Rightarrow> bytes" where
  "hmac_block key =
     (let k = (if 64 < length key then sha1_of [key] else key) in k @ replicate (64 - length k) 0)"

definition sigil_hmac_sha1 :: "bytes \<Rightarrow> bytes \<Rightarrow> bytes" where
  "sigil_hmac_sha1 key data =
     (let block = hmac_block key;
          inner = sha1_of [map (\<lambda>b. b XOR 0x36) block, data]
      in sha1_of [map (\<lambda>b. b XOR 0x5c) block, inner])"

section \<open>The digests are those of the padded message\<close>

lemma md5_block_cong:
  assumes "\<And>i. i < 64 \<Longrightarrow> a i = b i"
  shows "md5_block s a = md5_block s b"
proof -
  have m: "sigil_read_le32 a (i * 4) = sigil_read_le32 b (i * 4)" if "i < 16" for i
    using that by (intro read_le32_cong assms) simp
  have "fold (md5_round (\<lambda>i. sigil_read_le32 a (i * 4))) [0..<64] t =
        fold (md5_round (\<lambda>i. sigil_read_le32 b (i * 4))) [0..<64] t" for t
    by (rule fold_cong) (auto simp: md5_round_def fun_eq_iff Let_def m)
  then show ?thesis by (simp add: md5_block_def Let_def)
qed

lemma sha1_block_cong:
  assumes "\<And>i. i < 64 \<Longrightarrow> a i = b i"
  shows "sha1_block s a = sha1_block s b"
proof -
  have "sigil_read_be32 a (t * 4) = sigil_read_be32 b (t * 4)" if "t < 16" for t
    using that by (intro read_be32_cong assms) simp
  then have "map (\<lambda>t. sigil_read_be32 a (t * 4)) [0..<16] = map (\<lambda>t. sigil_read_be32 b (t * 4)) [0..<16]"
    by (intro map_cong refl) simp
  then have "sha1_schedule a = sha1_schedule b" by (simp only: sha1_schedule_def)
  then show ?thesis by (simp only: sha1_block_def)
qed

abbreviation md5_compress :: "md5_words \<Rightarrow> bytes \<Rightarrow> md5_words" where
  "md5_compress \<equiv> \<lambda>s b. md5_block s (mem_of b)"

abbreviation sha1_compress :: "sha1_words \<Rightarrow> bytes \<Rightarrow> sha1_words" where
  "sha1_compress \<equiv> \<lambda>s b. sha1_block s (mem_of b)"

interpretation md5: block_hash md5_compress sigil_md5_init sigil_md5_update ctx_state ctx_pending
    ctx_buffered ctx_length md5_iv
  unfolding sigil_md5_update_def
  by (rule hash_update_block_hash) (auto simp: sigil_md5_init_def intro: md5_block_cong)

interpretation sha1: block_hash sha1_compress sigil_sha1_init sigil_sha1_update ctx_state ctx_pending
    ctx_buffered ctx_length sha1_iv
  unfolding sigil_sha1_update_def
  by (rule hash_update_block_hash) (auto simp: sigil_sha1_init_def intro: sha1_block_cong)

definition md_pad :: "nat \<Rightarrow> bytes" where
  "md_pad n = 0x80 # replicate (if n mod 64 < 56 then 55 - n mod 64 else 119 - n mod 64) 0"

definition md5_spec :: "bytes \<Rightarrow> bytes" where
  "md5_spec bs =
     md5_digest (feed md5_compress md5_iv
       (bs @ md_pad (length bs) @ md5_len_le (of_nat (length bs) * 8)))"

lemma pad_byte:
  assumes "ctx_buffered m < 64"
  shows "ctx_state (md5_pad_byte m b) = feed md5_compress (ctx_state m) (ctx_pending m @ [b])"
    and "ctx_pending (md5_pad_byte m b) = rest64 (ctx_pending m @ [b])"
    and "ctx_buffered (md5_pad_byte m b) = (if ctx_buffered m = 63 then 0 else ctx_buffered m + 1)"
proof -
  let ?u = "sigil_md5_update m [b]"
  have pd: "ctx_pending (md5_pad_byte m b) = ctx_pending ?u"
    by (simp add: md5_pad_byte_def Let_def ctx_pending_def)
  show "ctx_state (md5_pad_byte m b) = feed md5_compress (ctx_state m) (ctx_pending m @ [b])"
    using md5.update_state [OF assms, of "[b]"] by (simp add: md5_pad_byte_def Let_def)
  show p: "ctx_pending (md5_pad_byte m b) = rest64 (ctx_pending m @ [b])"
    using md5.update_pending [OF assms, of "[b]"] pd by simp
  show "ctx_buffered (md5_pad_byte m b) = (if ctx_buffered m = 63 then 0 else ctx_buffered m + 1)"
    using arg_cong [OF p, of length] assms by (simp add: md5.pending_fill length_rest64)
qed

text \<open>The padding loop stops, with the buffer filled to 56 bytes.\<close>

lemma md5_pad_loop:
  assumes "ctx_buffered m < 64" and "z = (if ctx_buffered m \<le> 56 then 56 - ctx_buffered m else 120 - ctx_buffered m)"
  shows "\<exists>m'. while (\<lambda>m. ctx_buffered m \<noteq> 56) (\<lambda>m. md5_pad_byte m 0) m = m' \<and>
    ctx_buffered m' = 56 \<and>
    ctx_state m' = feed md5_compress (ctx_state m) (ctx_pending m @ replicate z 0) \<and>
    ctx_pending m' = rest64 (ctx_pending m @ replicate z 0)"
  using assms
proof (induction z arbitrary: m)
  case 0
  then have b: "ctx_buffered m = 56" by (auto split: if_splits)
  then have "while (\<lambda>m. ctx_buffered m \<noteq> 56) (\<lambda>m. md5_pad_byte m 0) m = m"
    by (subst while_unfold) (simp only: if_False simp_thms)
  with b show ?case by (intro exI [of _ m]) (simp add: md5.pending_fill)
next
  case (Suc z)
  have ne: "ctx_buffered m \<noteq> 56" using Suc.prems by auto
  let ?p = "md5_pad_byte m 0"
  note p = pad_byte [OF Suc.prems(1), of 0]
  have "ctx_buffered ?p < 64" using Suc.prems by (simp add: p)
  moreover have "z = (if ctx_buffered ?p \<le> 56 then 56 - ctx_buffered ?p else 120 - ctx_buffered ?p)"
    unfolding p using Suc.prems ne by (auto split: if_splits)
  ultimately obtain m' where
      w: "while (\<lambda>m. ctx_buffered m \<noteq> 56) (\<lambda>m. md5_pad_byte m 0) ?p = m'" "ctx_buffered m' = 56"
    and s: "ctx_state m' = feed md5_compress (ctx_state ?p) (ctx_pending ?p @ replicate z 0)"
    and d: "ctx_pending m' = rest64 (ctx_pending ?p @ replicate z 0)"
    using Suc.IH by blast
  have cat: "ctx_pending m @ replicate (Suc z) 0 = (ctx_pending m @ [0]) @ replicate z 0"
    by simp
  have "ctx_state m' = feed md5_compress (ctx_state m) (ctx_pending m @ replicate (Suc z) 0)"
    unfolding s p cat by (rule feed_append [symmetric])
  moreover have "ctx_pending m' = rest64 (ctx_pending m @ replicate (Suc z) 0)"
    unfolding d p cat by (rule rest64_append [symmetric])
  moreover have "while (\<lambda>m. ctx_buffered m \<noteq> 56) (\<lambda>m. md5_pad_byte m 0) m = m'"
    by (subst while_unfold) (simp only: ne if_True simp_thms w not_False_eq_True)
  ultimately show ?case using w(2) by blast
qed

lemma md5_final_feed:
  assumes "ctx_buffered m < 64"
  shows "sigil_md5_final m =
    md5_digest (feed md5_compress (ctx_state m)
      (ctx_pending m @ md_pad (ctx_buffered m) @ md5_len_le (ctx_length m * 8)))"
proof -
  let ?k = "ctx_buffered m" and ?p = "md5_pad_byte m 0x80"
  let ?z = "if ctx_buffered ?p \<le> 56 then 56 - ctx_buffered ?p else 120 - ctx_buffered ?p"
  note p = pad_byte [OF assms, of "0x80"]
  have p64: "ctx_buffered ?p < 64" using assms by (simp add: p)
  obtain m' where w: "while (\<lambda>m. ctx_buffered m \<noteq> 56) (\<lambda>m. md5_pad_byte m 0) ?p = m'" "ctx_buffered m' = 56"
    and s: "ctx_state m' = feed md5_compress (ctx_state ?p) (ctx_pending ?p @ replicate ?z 0)"
    and d: "ctx_pending m' = rest64 (ctx_pending ?p @ replicate ?z 0)"
    using md5_pad_loop [OF p64 refl] by blast
  have z: "?z = (if ?k mod 64 < 56 then 55 - ?k mod 64 else 119 - ?k mod 64)"
    unfolding p using assms by auto
  let ?zs = "replicate (if ?k mod 64 < 56 then 55 - ?k mod 64 else 119 - ?k mod 64) (0 :: u8)"
  let ?pad = "ctx_pending m @ md_pad ?k"
  have pad: "?pad = (ctx_pending m @ [0x80]) @ ?zs" by (simp add: md_pad_def)
  have s': "ctx_state m' = feed md5_compress (ctx_state m) ?pad"
    unfolding s z pad feed_append [of md5_compress "ctx_state m" "ctx_pending m @ [0x80]" ?zs]
    by (simp only: p)
  have d': "ctx_pending m' = rest64 ?pad"
    unfolding d z pad rest64_append [of "ctx_pending m @ [0x80]" ?zs]
    by (simp only: p)
  have "ctx_state (sigil_md5_update m' l) = feed md5_compress (ctx_state m) (?pad @ l)" for l
    using md5.update_state [of m' l] w(2)
    unfolding s' d' feed_append [of md5_compress "ctx_state m" ?pad l] by simp
  then show ?thesis unfolding sigil_md5_final_def Let_def w(1) by simp
qed

lemma md5_streams: "sigil_md5_final (foldl sigil_md5_update sigil_md5_init bss) = md5_spec (concat bss)"
proof -
  let ?m = "foldl sigil_md5_update sigil_md5_init bss" and ?bs = "concat bss"
  note m = md5.init_updates [of bss]
  have "ctx_buffered ?m = length ?bs mod 64"
    using arg_cong [OF m(2), of length] by (simp only: md5.pending_fill length_rest64)
  then have "md_pad (ctx_buffered ?m) = md_pad (length ?bs)" by (simp add: md_pad_def)
  then show ?thesis
    unfolding md5_final_feed [OF m(4)] md5_spec_def m(1,2,3)
      feed_append [of md5_compress md5_iv ?bs "md_pad (length ?bs) @ md5_len_le (of_nat (length ?bs) * 8)"]
    by simp
qed

definition sha1_len_be :: "u64 \<Rightarrow> bytes" where
  "sha1_len_be bits = map (\<lambda>i. ucast (drop_bit (8 * (7 - i)) bits)) [0..<8]"

definition sha1_spec :: "bytes \<Rightarrow> bytes" where
  "sha1_spec bs =
     sha1_digest (feed sha1_compress sha1_iv
       (bs @ md_pad (length bs) @ sha1_len_be (of_nat (length bs) * 8)))"

text \<open>The eight length bytes the loop stores at the end of the buffer.\<close>

lemma length_bytes_stored:
  "fold (\<lambda>i b. b(63 - i := ucast (drop_bit (8 * i) bits))) [0..<8] b j =
     (if 56 \<le> j \<and> j < 64 then sha1_len_be bits ! (j - 56) else (b j :: u8))"
proof (cases "56 \<le> j \<and> j < 64")
  case True
  then have "j \<in> {56, 57, 58, 59, 60, 61, 62, 63}" by auto
  then show ?thesis by (auto simp: sha1_len_be_def upt_rec)
next
  case False
  then show ?thesis by (auto simp: upt_rec)
qed

lemma sha1_final_feed:
  assumes "ctx_buffered m < 64"
  shows "sigil_sha1_final m =
    sha1_digest (feed sha1_compress (ctx_state m)
      (ctx_pending m @ md_pad (ctx_buffered m) @ sha1_len_be (ctx_length m * 8)))"
proof -
  let ?k = "ctx_buffered m" and ?l = "sha1_len_be (ctx_length m * 8)"
  have len: "length (ctx_pending m) = ?k" "length ?l = 8" by (simp_all add: sha1.pending_fill sha1_len_be_def)
  have pn: "ctx_pending m ! i = ctx_buffer m i" if "i < ?k" for i
    using that by (simp add: ctx_pending_def)
  let ?put = "\<lambda>b. fold (\<lambda>i b. b(63 - i := ucast (drop_bit (8 * i) (ctx_length m * 8)))) [0..<8] b"
  let ?b0 = "(ctx_buffer m)(?k := 0x80)"
  show ?thesis
  proof (cases "?k < 56")
    case True
    let ?b = "?put (memset ?b0 (?k + 1) 0 (56 - (?k + 1)))"
    let ?x = "ctx_pending m @ md_pad ?k @ ?l"
    have lx: "length ?x = 64" using True by (simp add: len md_pad_def)
    have "sha1_block (ctx_state m) ?b = sha1_block (ctx_state m) (mem_of ?x)"
    proof (rule sha1_block_cong)
      fix i :: nat assume "i < 64"
      then show "?b i = mem_of ?x i"
        using True by (auto simp: length_bytes_stored mem_of_def lx nth_append len md_pad_def
            memset_apply pn nth_Cons')
    qed
    then show ?thesis
      using True feed_block [OF lx, of sha1_compress "ctx_state m" "[]"]
      by (simp add: sigil_sha1_final_def Let_def)
  next
    case False
    let ?c = "memset ?b0 (?k + 1) 0 (64 - (?k + 1))"
    let ?y = "ctx_pending m @ 0x80 # replicate (63 - ?k) 0"
    let ?b = "?put (memset ?c 0 0 56)"
    let ?x = "replicate 56 0 @ ?l"
    have ly: "length ?y = 64" using False assms by (simp add: len)
    have lx: "length ?x = 64" by (simp add: len)
    have "sha1_block (ctx_state m) ?c = sha1_block (ctx_state m) (mem_of ?y)"
    proof (rule sha1_block_cong)
      fix i :: nat assume "i < 64"
      then show "?c i = mem_of ?y i"
        using False by (auto simp: mem_of_def ly nth_append len memset_apply pn nth_Cons')
    qed
    moreover have "sha1_block s ?b = sha1_block s (mem_of ?x)" for s
    proof (rule sha1_block_cong)
      fix i :: nat assume "i < 64"
      then show "?b i = mem_of ?x i"
        by (auto simp: length_bytes_stored mem_of_def lx nth_append len memset_apply)
    qed
    moreover have "119 - ?k = (63 - ?k) + 56" using assms by simp
    then have "replicate (119 - ?k) (0 :: u8) = replicate (63 - ?k) 0 @ replicate 56 0"
      by (simp only: replicate_add)
    then have "ctx_pending m @ md_pad ?k @ ?l = ?y @ ?x"
      using False assms by (simp add: md_pad_def)
    ultimately show ?thesis
      using False feed_block [OF ly, of sha1_compress "ctx_state m" ?x]
        feed_block [OF lx, of sha1_compress "sha1_block (ctx_state m) (mem_of ?y)" "[]"]
      by (simp add: sigil_sha1_final_def Let_def)
  qed
qed

lemma sha1_streams: "sha1_of bss = sha1_spec (concat bss)"
proof -
  let ?m = "foldl sigil_sha1_update sigil_sha1_init bss" and ?bs = "concat bss"
  note m = sha1.init_updates [of bss]
  have "ctx_buffered ?m = length ?bs mod 64"
    using arg_cong [OF m(2), of length] by (simp only: sha1.pending_fill length_rest64)
  then have "md_pad (ctx_buffered ?m) = md_pad (length ?bs)" by (simp add: md_pad_def)
  then show ?thesis
    unfolding sha1_of_def sha1_final_feed [OF m(4)] sha1_spec_def m(1,2,3)
      feed_append [of sha1_compress sha1_iv ?bs "md_pad (length ?bs) @ sha1_len_be (of_nat (length ?bs) * 8)"]
    by simp
qed

lemma hmac_sha1_spec:
  "sigil_hmac_sha1 key data =
     (let k = (if 64 < length key then sha1_spec key else key);
          block = k @ replicate (64 - length k) 0
      in sha1_spec (map (\<lambda>b. b XOR 0x5c) block @ sha1_spec (map (\<lambda>b. b XOR 0x36) block @ data)))"
  by (simp add: sigil_hmac_sha1_def hmac_block_def Let_def sha1_streams)

text \<open>The order of \<^verbatim>\<open>strcmp\<close> is total, so sorting by distinct names leaves one order.\<close>

lemma strcmp_le_refl: "strcmp_le x x"
  by (induction x) auto

lemma strcmp_le_total: "strcmp_le x y \<or> strcmp_le y x"
  by (induction x y rule: strcmp_le.induct) auto

lemma strcmp_le_antisym: "strcmp_le x y \<Longrightarrow> strcmp_le y x \<Longrightarrow> x = y"
  by (induction x y rule: strcmp_le.induct) (auto split: if_splits elim: strcmp_le.elims)

lemma strcmp_le_trans: "strcmp_le x y \<Longrightarrow> strcmp_le y z \<Longrightarrow> strcmp_le x z"
proof (induction x y arbitrary: z rule: strcmp_le.induct)
  case (3 x xs y ys)
  from 3 show ?case by (cases z) (auto split: if_splits)
qed auto

definition named_sorted :: "(bytes \<times> bytes) list \<Rightarrow> bool" where
  "named_sorted = sorted_wrt (\<lambda>x y. strcmp_le (fst x) (fst y))"

lemma mset_insert_named [simp]: "mset (insert_named x xs) = add_mset x (mset xs)"
  by (induction xs) auto

lemma set_insert_named: "set (insert_named x xs) = insert x (set xs)"
  by (induction xs) auto

lemma sorted_insert_named: "named_sorted xs \<Longrightarrow> named_sorted (insert_named x xs)"
  by (induction xs)
     (auto simp: named_sorted_def set_insert_named dest: strcmp_le_trans
           intro: strcmp_le_total [THEN disjE])

lemma mset_sort_named: "mset (sort_named xs) = mset xs"
  by (induction xs) (auto simp: sort_named_def)

lemma sorted_sort_named: "named_sorted (sort_named xs)"
  by (induction xs) (auto simp: sort_named_def sorted_insert_named, simp add: named_sorted_def)

lemma named_sorted_unique:
  assumes "named_sorted xs" and "named_sorted ys" and "mset xs = mset ys" and "distinct (map fst xs)"
  shows "xs = ys"
  using assms
proof (induction xs arbitrary: ys)
  case Nil
  then show ?case by simp
next
  case (Cons x xs)
  then obtain y zs where ys: "ys = y # zs" by (cases ys) auto
  have sets: "insert x (set xs) = insert y (set zs)"
    using Cons.prems(3) ys by (metis list.simps(15) set_mset_mset)
  have "x = y"
  proof (rule ccontr)
    assume ne: "x \<noteq> y"
    with sets have "x \<in> set zs" "y \<in> set xs" by auto
    with Cons.prems(1,2) ys have "fst x = fst y"
      by (auto simp: named_sorted_def intro: strcmp_le_antisym)
    with \<open>y \<in> set xs\<close> Cons.prems(4) show False by (force)
  qed
  with Cons ys show ?case by (auto simp: named_sorted_def)
qed

lemma sort_named_perm:
  assumes "mset xs = mset ys" and "distinct (map fst xs)"
  shows "sort_named xs = sort_named ys"
proof (rule named_sorted_unique)
  show "distinct (map fst (sort_named xs))"
    using assms(2) by (metis mset_sort_named mset_map mset_eq_imp_distinct_iff)
qed (simp_all add: sorted_sort_named mset_sort_named assms(1))

text \<open>The saves of a game hash to one digest whatever order the caller lists them in.\<close>

theorem named_hash_order:
  assumes "mset xs = mset ys" and "distinct (map fst xs)"
  shows "sigil_named_hash xs = sigil_named_hash ys"
  by (simp add: sigil_named_hash_def sort_named_perm [OF assms] size_mset [symmetric] assms(1) del: size_mset)

theorem named_hash_order_witness:
  "sigil_named_hash [(str ''a'', str ''1''), (str ''b'', str ''2'')] =
   sigil_named_hash [(str ''b'', str ''2''), (str ''a'', str ''1'')]"
  by (rule named_hash_order) (simp_all add: str_def)

text \<open>C30 However a caller cuts its data into updates, the MD5 of the pieces is the MD5 of the whole
  as RFC 1321 lays it out: the bytes, the padding, the bit length in little-endian order, block by block.\<close>

theorem md5_streaming:
  "sigil_md5_final (foldl sigil_md5_update sigil_md5_init bss) = md5_spec (concat bss)"
  by (rule md5_streams)

text \<open>C31 HMAC-SHA1 as RFC 2104 defines it, over SHA-1 of the whole message: a key longer than a
  block is hashed first, a shorter one padded with zeros.\<close>

theorem hmac_sha1_rfc2104:
  "sigil_hmac_sha1 key data =
     (let k = (if 64 < length key then sha1_spec key else key);
          block = k @ replicate (64 - length k) 0
      in sha1_spec (map (\<lambda>b. b XOR 0x5c) block @ sha1_spec (map (\<lambda>b. b XOR 0x36) block @ data)))"
  by (rule hmac_sha1_spec)

end
