(* ===== verification/CardPs1.thy ===== *)
theory CardPs1
  imports CardCommon Chains Stream Digests
begin

text \<open>
  PlayStation memory cards: \<^verbatim>\<open>src/src/card_ps1.c\<close>. A card image is a byte memory of
  \<open>PS1_CARD_SIZE\<close> bytes; a frame or block number selects an offset in it as in the code. The
  functions of the source come in its order; the lemmas about them are in
  \<^verbatim>\<open>CardPs1Proofs\<close> and \<^verbatim>\<open>CardPs1Files\<close>.

  The block cipher is not under \<^verbatim>\<open>src/\<close>: \<open>vmp_hmac_key\<close> and the functions over it take the
  decryption and encryption of one block as parameters.
\<close>

section \<open>Layout\<close>

definition PS1_CARD_SIZE :: nat where "PS1_CARD_SIZE = 131072"
definition PS1_BLOCK_SIZE :: nat where "PS1_BLOCK_SIZE = 8192"
definition PS1_FRAME_SIZE :: nat where "PS1_FRAME_SIZE = 128"
definition PS1_DATA_BLOCKS :: nat where "PS1_DATA_BLOCKS = 15"
definition PS1_NAME_LEN :: nat where "PS1_NAME_LEN = 20"
definition PS1_GME_HEADER_SIZE :: nat where "PS1_GME_HEADER_SIZE = 3904"
definition PS1_VMP_HEADER_SIZE :: nat where "PS1_VMP_HEADER_SIZE = 128"
definition PS1_LINK_END :: u16 where "PS1_LINK_END = 0xFFFF"
definition PS1_STATE_FIRST :: u32 where "PS1_STATE_FIRST = 0x51"
definition PS1_STATE_MIDDLE :: u32 where "PS1_STATE_MIDDLE = 0x52"
definition PS1_STATE_LAST :: u32 where "PS1_STATE_LAST = 0x53"
definition PS1_STATE_FREE :: u32 where "PS1_STATE_FREE = 0xA0"
definition PS1_STATE_DELETED_FIRST :: u32 where "PS1_STATE_DELETED_FIRST = 0xA1"
definition PS1_STATE_DELETED_MIDDLE :: u32 where "PS1_STATE_DELETED_MIDDLE = 0xA2"
definition PS1_STATE_DELETED_LAST :: u32 where "PS1_STATE_DELETED_LAST = 0xA3"
definition PS1_WRITE_TEST_FRAME :: nat where "PS1_WRITE_TEST_FRAME = 63"
definition PS1_BROKEN_FIRST_FRAME :: nat where "PS1_BROKEN_FIRST_FRAME = 16"
definition PS1_BROKEN_FRAMES :: nat where "PS1_BROKEN_FRAMES = 20"
definition PS1_FRAME_CHECKSUM :: nat where "PS1_FRAME_CHECKSUM = 127"

definition VMP_SEED :: nat where "VMP_SEED = 0x0C"
definition VMP_SIGNATURE :: nat where "VMP_SIGNATURE = 0x20"
definition VMP_SIGN_LEN :: nat where "VMP_SIGN_LEN = 20"
definition GME_STATES :: nat where "GME_STATES = 0x16"
definition GME_LINKS :: nat where "GME_LINKS = 0x26"
definition GME_COMMENTS :: nat where "GME_COMMENTS = 0x40"
definition GME_COMMENT :: nat where "GME_COMMENT = 0x100"

lemmas ps1_consts =
  PS1_CARD_SIZE_def PS1_BLOCK_SIZE_def PS1_FRAME_SIZE_def PS1_DATA_BLOCKS_def PS1_NAME_LEN_def
  PS1_GME_HEADER_SIZE_def PS1_VMP_HEADER_SIZE_def PS1_LINK_END_def PS1_WRITE_TEST_FRAME_def
  PS1_BROKEN_FIRST_FRAME_def PS1_BROKEN_FRAMES_def PS1_FRAME_CHECKSUM_def
  VMP_SEED_def VMP_SIGNATURE_def VMP_SIGN_LEN_def GME_STATES_def GME_LINKS_def GME_COMMENTS_def
  GME_COMMENT_def

lemmas ps1_states =
  PS1_STATE_FIRST_def PS1_STATE_MIDDLE_def PS1_STATE_LAST_def PS1_STATE_FREE_def
  PS1_STATE_DELETED_FIRST_def PS1_STATE_DELETED_MIDDLE_def PS1_STATE_DELETED_LAST_def

text \<open>The offset of a directory frame, and its state and link.\<close>

definition ps1_frame_at :: "nat \<Rightarrow> nat" where
  "ps1_frame_at block = block * PS1_FRAME_SIZE"

definition ps1_frame_state :: "mem \<Rightarrow> nat \<Rightarrow> u32" where
  "ps1_frame_state img block = sigil_read_le32 img (ps1_frame_at block)"

definition ps1_frame_link :: "mem \<Rightarrow> nat \<Rightarrow> u16" where
  "ps1_frame_link img block = sigil_read_le16 img (ps1_frame_at block + 8)"

section \<open>Chains\<close>

text \<open>The loop of \<^verbatim>\<open>walk_chain\<close>: \<open>seen\<close> is its 16-bit set of blocks, \<open>order\<close> the blocks so far. A
  return of 0 is the empty list; otherwise the count is the length of the list.\<close>

function ps1_walk_loop :: "mem \<Rightarrow> u16 \<Rightarrow> nat list \<Rightarrow> nat \<Rightarrow> nat list" where
  "ps1_walk_loop img seen order block =
     (let seen = seen OR push_bit block 1;
          order = order @ [block];
          link = ps1_frame_link img block
      in if link = PS1_LINK_END then order
         else if PS1_DATA_BLOCKS \<le> unat link then []
         else let next = unat link + 1 in
           if bit seen next then []
           else let state = ps1_frame_state img next in
             if state \<noteq> PS1_STATE_MIDDLE \<and> state \<noteq> PS1_STATE_LAST then []
             else ps1_walk_loop img seen order next)"
  by pat_completeness auto
termination
proof (relation "measure (\<lambda>(img, seen, order, block).
    card {i. i < 16 \<and> \<not> bit (seen OR push_bit block (1 :: u16)) i})")
  fix img :: mem and seen seen' :: u16 and order order' :: "nat list" and block "next" :: nat
    and link :: u16 and state :: u32
  assume s: "seen' = seen OR push_bit block 1" and l: "\<not> PS1_DATA_BLOCKS \<le> unat link"
    and n: "next = unat link + 1" and nb: "\<not> bit seen' next"
  have "next < 16" using l n by (simp add: ps1_consts)
  moreover have "bit (push_bit next (1 :: u16)) next" using \<open>next < 16\<close> by (simp add: bit_simps)
  ultimately have "{i. i < 16 \<and> \<not> bit (seen' OR push_bit next (1 :: u16)) i} \<subset> {i. i < 16 \<and> \<not> bit seen' i}"
    using nb by (auto simp: bit_or_iff)
  then show "((img, seen', order', next), (img, seen, order, block)) \<in>
      measure (\<lambda>(img, seen, order, block). card {i. i < 16 \<and> \<not> bit (seen OR push_bit block (1 :: u16)) i})"
    unfolding s by (simp add: psubset_card_mono)
qed simp

declare ps1_walk_loop.simps [simp del]

definition ps1_walk_chain :: "mem \<Rightarrow> nat \<Rightarrow> nat list" where
  "ps1_walk_chain img first = ps1_walk_loop img 0 [] first"


section \<open>Reading a card\<close>

text \<open>\<open>load_card\<close>: the result code, the image, the format and the wrapper's header (\<open>None\<close> for a
  NULL pointer). Bytes of \<open>magic\<close> past the count read are not looked at.\<close>

definition ps1_load_card ::
    "sigil_io \<Rightarrow> mem \<Rightarrow> sigil_card_format \<Rightarrow> mem option \<Rightarrow> rc \<times> mem \<times> sigil_card_format \<times> mem option" where
  "ps1_load_card io img format header =
     (let (rc, magic, got) = sigil_io_read_upto io 0 (\<lambda>_. 0) 0 12 in
      if rc \<noteq> SIGIL_OK then (rc, img, format, header)
      else
        let detected =
          (if 4 \<le> got \<and> has_bytes magic 0 [0, 0x50, 0x4D, 0x56]
           then Some (PS1_VMP_HEADER_SIZE, SIGIL_CARD_FORMAT_PS1_VMP)
           else if 11 \<le> got \<and> has_bytes magic 0 (str ''123-456-STD'')
           then Some (PS1_GME_HEADER_SIZE, SIGIL_CARD_FORMAT_PS1_GME)
           else if 2 \<le> got \<and> has_bytes magic 0 (str ''MC'')
           then (if int PS1_CARD_SIZE < stream_size io then None else Some (0, SIGIL_CARD_FORMAT_PS1_RAW))
           else None) in
        case detected of
          None \<Rightarrow> (SIGIL_ERR_UNSUPPORTED_FORMAT, img, format, header)
        | Some (offset, format) \<Rightarrow>
            let (rc, header) =
              (case header of
                 Some h \<Rightarrow>
                   if offset \<noteq> 0 then
                     (let (rc, h, got) = sigil_io_read_upto io 0 h 0 offset in
                      (if rc \<noteq> SIGIL_OK then rc
                       else if got \<noteq> offset then SIGIL_ERR_UNSUPPORTED_FORMAT else SIGIL_OK, Some h))
                   else (SIGIL_OK, Some h)
               | None \<Rightarrow> (SIGIL_OK, None)) in
            if rc \<noteq> SIGIL_OK then (rc, img, format, header)
            else
              let img = memset img 0 0 PS1_CARD_SIZE;
                  (rc, img, got) = sigil_io_read_upto io offset img 0 PS1_CARD_SIZE in
              if rc \<noteq> SIGIL_OK then (rc, img, format, header)
              else if got < PS1_BLOCK_SIZE \<or> \<not> has_bytes img 0 (str ''MC'')
              then (SIGIL_ERR_UNSUPPORTED_FORMAT, img, format, header)
              else if got < PS1_CARD_SIZE \<and> format \<noteq> SIGIL_CARD_FORMAT_PS1_GME
              then (SIGIL_ERR_UNSUPPORTED_FORMAT, img, format, header)
              else (SIGIL_OK, img, format, header))"

definition sigil_ps1_card_load ::
    "sigil_io \<Rightarrow> mem \<Rightarrow> sigil_card_format \<Rightarrow> rc \<times> mem \<times> sigil_card_format" where
  "sigil_ps1_card_load io img format =
     (let (rc, img, format, _) = ps1_load_card io img format None in (rc, img, format))"

record sigil_ps1_file =
  pf_image :: mem
  pf_format :: sigil_card_format
  pf_header :: mem
  pf_read_directory :: mem

definition sigil_ps1_file_load :: "sigil_io \<Rightarrow> sigil_ps1_file \<Rightarrow> rc \<times> sigil_ps1_file" where
  "sigil_ps1_file_load io f =
     (let h = memset (pf_header f) 0 0 PS1_GME_HEADER_SIZE;
          (rc, img, format, header) = ps1_load_card io (pf_image f) (pf_format f) (Some h);
          f = f\<lparr>pf_image := img, pf_format := format, pf_header := the header\<rparr> in
      if rc = SIGIL_OK
      then (rc, f\<lparr>pf_read_directory := memcpy (pf_read_directory f) 0 img 0 PS1_BLOCK_SIZE\<rparr>)
      else (rc, f))"

section \<open>Frames\<close>

definition ps1_seal_frame :: "mem \<Rightarrow> nat \<Rightarrow> mem" where
  "ps1_seal_frame m f =
     m(f + PS1_FRAME_CHECKSUM := fold (\<lambda>i x. x XOR m (f + i)) [0..<PS1_FRAME_CHECKSUM] 0)"

definition ps1_write_frame :: "mem \<Rightarrow> nat \<Rightarrow> u32 \<Rightarrow> u32 \<Rightarrow> u16 \<Rightarrow> mem" where
  "ps1_write_frame m f state siz link =
     (let m = sigil_write_le32 m f state;
          m = sigil_write_le32 m (f + 4) siz
      in sigil_write_le16 m (f + 8) link)"

definition sigil_ps1_format :: "mem \<Rightarrow> mem" where
  "sigil_ps1_format img =
     (let img = memset img 0 0 PS1_CARD_SIZE;
          img = img(0 := 0x4D, 1 := 0x43);
          img = ps1_seal_frame img 0;
          img = fold (\<lambda>block img.
                    let f = ps1_frame_at block
                    in ps1_seal_frame (ps1_write_frame img f PS1_STATE_FREE 0 PS1_LINK_END) f)
                  [1..<PS1_DATA_BLOCKS + 1] img;
          img = fold (\<lambda>i img.
                    let f = ps1_frame_at (PS1_BROKEN_FIRST_FRAME + i)
                    in ps1_seal_frame (ps1_write_frame img f 0xFFFFFFFF 0 PS1_LINK_END) f)
                  [0..<PS1_BROKEN_FRAMES] img
      in memcpy img (ps1_frame_at PS1_WRITE_TEST_FRAME) img 0 PS1_FRAME_SIZE)"

section \<open>Card files\<close>

definition sigil_ps1_file_format :: "sigil_ps1_file \<Rightarrow> sigil_card_format \<Rightarrow> sigil_ps1_file" where
  "sigil_ps1_file_format f format =
     (let img = sigil_ps1_format (pf_image f);
          format = (if format = SIGIL_CARD_FORMAT_PS1_VMP then format else SIGIL_CARD_FORMAT_PS1_RAW);
          header = memset (pf_header f) 0 0 PS1_GME_HEADER_SIZE;
          (img, header) =
            (if format = SIGIL_CARD_FORMAT_PS1_VMP then
               (let img = memset img (PS1_WRITE_TEST_FRAME * PS1_FRAME_SIZE) 0 PS1_FRAME_SIZE;
                    header = memcpy header 0 (mem_of [0, 0x50, 0x4D, 0x56]) 0 4;
                    header = sigil_write_le32 header 4 (of_nat PS1_VMP_HEADER_SIZE);
                    header = fold (\<lambda>i h. h(VMP_SEED + i := of_nat i)) [0..<VMP_SIGN_LEN] header
                in (img, header))
             else (img, header))
      in f\<lparr>pf_image := img, pf_format := format, pf_header := header,
           pf_read_directory := memcpy (pf_read_directory f) 0 img 0 PS1_BLOCK_SIZE\<rparr>)"

definition VMP_KEY :: bytes where
  "VMP_KEY = [0xAB, 0x5A, 0xBC, 0x9F, 0xC1, 0xF4, 0x9D, 0xE6, 0xA0, 0x51, 0xDB, 0xAE, 0xFA, 0x51, 0x88, 0x59]"

definition VMP_MASK :: bytes where
  "VMP_MASK = [0xB3, 0x0F, 0xFE, 0xED, 0xB7, 0xDC, 0x5E, 0xB7, 0x13, 0x3D, 0xA6, 0x0D, 0x1B, 0x6B, 0x2C, 0xDC]"

text \<open>\<open>dec\<close> and \<open>enc\<close> are \<^verbatim>\<open>AES_ECB_decrypt\<close> and \<^verbatim>\<open>AES_ECB_encrypt\<close> on one block under a key.\<close>

type_synonym block_cipher = "bytes \<Rightarrow> bytes \<Rightarrow> bytes"

definition vmp_hmac_key :: "block_cipher \<Rightarrow> block_cipher \<Rightarrow> bytes \<Rightarrow> bytes" where
  "vmp_hmac_key dec enc seed =
     (let d = dec VMP_KEY (take 16 seed);
          e = enc VMP_KEY (take 16 seed)
      in map (\<lambda>i. d ! i XOR VMP_MASK ! i) [0..<16] @ map (\<lambda>i. e ! i XOR seed ! (16 + i)) [0..<4])"

definition vmp_sign :: "block_cipher \<Rightarrow> block_cipher \<Rightarrow> sigil_ps1_file \<Rightarrow> bytes" where
  "vmp_sign dec enc f =
     (let len = PS1_VMP_HEADER_SIZE + PS1_CARD_SIZE;
          file = memcpy (\<lambda>_. 0) 0 (pf_header f) 0 PS1_VMP_HEADER_SIZE;
          file = memset file VMP_SIGNATURE 0 VMP_SIGN_LEN;
          file = memcpy file PS1_VMP_HEADER_SIZE (pf_image f) 0 PS1_CARD_SIZE;
          key = vmp_hmac_key dec enc (bytes_at (pf_header f) VMP_SEED VMP_SIGN_LEN)
      in sigil_hmac_sha1 key (bytes_at file 0 len))"

definition sigil_ps1_file_check :: "block_cipher \<Rightarrow> block_cipher \<Rightarrow> sigil_ps1_file \<Rightarrow> rc" where
  "sigil_ps1_file_check dec enc f =
     (if pf_format f \<noteq> SIGIL_CARD_FORMAT_PS1_VMP then SIGIL_OK
      else if vmp_sign dec enc f = bytes_at (pf_header f) VMP_SIGNATURE VMP_SIGN_LEN then SIGIL_OK
      else SIGIL_ERR_DAMAGED)"

definition ps1_gme_refresh :: "sigil_ps1_file \<Rightarrow> mem \<Rightarrow> mem" where
  "ps1_gme_refresh f header =
     fold (\<lambda>s header.
        let at = ps1_frame_at (s + 1);
            now = pf_image f;
            before = pf_read_directory f;
            deleted = (0xA0 < now at \<and> now at \<le> 0xA3);
            header = header(GME_STATES + s := if deleted then 0xA0 else now at);
            header = header(GME_LINKS + s := if deleted then 0xFF else now (at + 8));
            same_save = (now at = before at \<and> mem_eq now (at + 0x0A) before (at + 0x0A) PS1_NAME_LEN)
        in if \<not> same_save then memset header (GME_COMMENTS + GME_COMMENT * s) 0 GME_COMMENT else header)
       [0..<PS1_DATA_BLOCKS] header"

definition sigil_ps1_file_write :: "block_cipher \<Rightarrow> block_cipher \<Rightarrow> sigil_ps1_file \<Rightarrow> rc \<times> bytes" where
  "sigil_ps1_file_write dec enc f =
     (let header = (if pf_format f = SIGIL_CARD_FORMAT_PS1_GME then PS1_GME_HEADER_SIZE
                    else if pf_format f = SIGIL_CARD_FORMAT_PS1_VMP then PS1_VMP_HEADER_SIZE else 0);
          file = memcpy (\<lambda>_. 0) 0 (pf_header f) 0 header;
          file = memcpy file header (pf_image f) 0 PS1_CARD_SIZE;
          file = (if pf_format f = SIGIL_CARD_FORMAT_PS1_GME then ps1_gme_refresh f file else file);
          file = (if pf_format f = SIGIL_CARD_FORMAT_PS1_VMP
                  then memcpy file VMP_SIGNATURE (mem_of (vmp_sign dec enc f)) 0 VMP_SIGN_LEN else file)
      in (SIGIL_OK, bytes_at file 0 (header + PS1_CARD_SIZE)))"

section \<open>Listing\<close>

text \<open>How many save chains reach each block. There are at most 15 of them, so the byte counters
  do not wrap and are numbers here.\<close>

definition ps1_count_claims :: "mem \<Rightarrow> nat \<Rightarrow> nat" where
  "ps1_count_claims img =
     fold (\<lambda>block claims.
        if ps1_frame_state img block \<noteq> PS1_STATE_FIRST then claims
        else claim_chain (ps1_walk_chain img block) claims)
       [1..<PS1_DATA_BLOCKS + 1] (\<lambda>_. 0)"

definition ps1_chain_shared :: "mem \<Rightarrow> nat \<Rightarrow> (nat \<Rightarrow> nat) \<Rightarrow> bool" where
  "ps1_chain_shared img first claims = list_ex (\<lambda>b. 1 < claims b) (ps1_walk_chain img first)"

definition ps1_frame_is_free :: "mem \<Rightarrow> nat \<Rightarrow> bool" where
  "ps1_frame_is_free img block =
     (let state = ps1_frame_state img block in PS1_STATE_FREE \<le> state \<and> state \<le> PS1_STATE_DELETED_LAST)"

definition ps1_name_at :: "mem \<Rightarrow> nat \<Rightarrow> bytes" where
  "ps1_name_at img block = cstr (bytes_at img (ps1_frame_at block + 0x0A) PS1_NAME_LEN)"

text \<open>One round of the listing loop.\<close>

definition ps1_list_block :: "mem \<Rightarrow> (nat \<Rightarrow> nat) \<Rightarrow> nat \<Rightarrow> sigil_card_listing \<Rightarrow> sigil_card_listing" where
  "ps1_list_block img claims block listing =
     (let state = ps1_frame_state img block in
      if PS1_STATE_FREE \<le> state \<and> state \<le> PS1_STATE_DELETED_LAST
      then listing\<lparr>free_slots := free_slots listing + 1\<rparr>
      else if state \<noteq> PS1_STATE_FIRST then listing
      else
        let name = ps1_name_at img block;
            owner = sigil_card_sony_owner name;
            blocks = length (ps1_walk_chain img block) in
        if blocks = 0 \<or> ps1_chain_shared img block claims
        then sigil_card_listing_corrupt listing (Some name) (Some owner) block
        else listing_add listing
               \<lparr>ce_name = name, ce_owner_id = owner, ce_blocks = blocks, ce_first_block = block\<rparr>)"

definition sigil_ps1_card_list :: "mem \<Rightarrow> sigil_card_format \<Rightarrow> sigil_card_listing" where
  "sigil_ps1_card_list img format =
     (let listing = (sigil_card_listing_new format)\<lparr>total_blocks := PS1_DATA_BLOCKS\<rparr>;
          claims = ps1_count_claims img;
          listing = fold (ps1_list_block img claims) [1..<PS1_DATA_BLOCKS + 1] listing
      in listing\<lparr>free_blocks := free_slots listing\<rparr>)"

definition sigil_ps1_card_list_io :: "sigil_io \<Rightarrow> rc \<times> sigil_card_listing option" where
  "sigil_ps1_card_list_io io =
     (let (rc, img, format) = sigil_ps1_card_load io (\<lambda>_. 0) SIGIL_CARD_FORMAT_UNKNOWN in
      if rc = SIGIL_OK then (rc, Some (sigil_ps1_card_list img format)) else (rc, None))"

section \<open>Saves\<close>

definition sigil_ps1_entry_data :: "mem \<Rightarrow> nat \<Rightarrow> nat \<Rightarrow> mem \<Rightarrow> nat \<Rightarrow> rc \<times> mem" where
  "sigil_ps1_entry_data img first_block blocks out p =
     (if first_block < 1 \<or> PS1_DATA_BLOCKS < first_block then (SIGIL_ERR_INVALID_ARG, out)
      else
        let order = ps1_walk_chain img first_block in
        if length order = 0 \<or> length order \<noteq> blocks then (SIGIL_ERR_INVALID_ARG, out)
        else (SIGIL_OK,
              fold (\<lambda>i out. memcpy out (p + i * PS1_BLOCK_SIZE) img (order ! i * PS1_BLOCK_SIZE) PS1_BLOCK_SIZE)
                [0..<length order] out))"

definition sigil_ps1_mcs_size :: "nat \<Rightarrow> nat" where
  "sigil_ps1_mcs_size blocks = PS1_FRAME_SIZE + blocks * PS1_BLOCK_SIZE"

definition sigil_ps1_extract :: "mem \<Rightarrow> nat \<Rightarrow> nat \<Rightarrow> mem \<Rightarrow> rc \<times> mem" where
  "sigil_ps1_extract img first_block blocks out =
     (if first_block < 1 \<or> PS1_DATA_BLOCKS < first_block then (SIGIL_ERR_INVALID_ARG, out)
      else if ps1_frame_state img first_block \<noteq> PS1_STATE_FIRST then (SIGIL_ERR_INVALID_ARG, out)
      else
        let (rc, out) = sigil_ps1_entry_data img first_block blocks out PS1_FRAME_SIZE in
        if rc \<noteq> SIGIL_OK then (rc, out)
        else
          let out = memcpy out 0 img (ps1_frame_at first_block) PS1_FRAME_SIZE;
              out = out(8 := 0xFF, 9 := 0xFF)
          in (SIGIL_OK, ps1_seal_frame out 0))"

definition ps1_mcs_blocks :: "mem \<Rightarrow> nat \<Rightarrow> nat" where
  "ps1_mcs_blocks mcs len =
     (if len < sigil_ps1_mcs_size 1 then 0
      else if (len - PS1_FRAME_SIZE) mod PS1_BLOCK_SIZE \<noteq> 0 then 0
      else
        let blocks = (len - PS1_FRAME_SIZE) div PS1_BLOCK_SIZE in
        if PS1_DATA_BLOCKS < blocks \<or> sigil_read_le32 mcs 0 \<noteq> PS1_STATE_FIRST then 0 else blocks)"

definition sigil_ps1_cost :: "mem \<Rightarrow> nat \<Rightarrow> nat" where
  "sigil_ps1_cost mcs len = ps1_mcs_blocks mcs len"

text \<open>The save on the card that carries the name of \<open>mcs\<close>.\<close>

definition ps1_named_as :: "mem \<Rightarrow> nat \<Rightarrow> mem \<Rightarrow> bool" where
  "ps1_named_as img block mcs =
     (ps1_frame_state img block = PS1_STATE_FIRST \<and>
      mem_eq img (ps1_frame_at block + 0x0A) mcs 0x0A PS1_NAME_LEN)"

text \<open>One round of the writing loop of \<open>inject\<close>.\<close>

definition ps1_inject_block :: "nat list \<Rightarrow> mem \<Rightarrow> nat \<Rightarrow> mem \<Rightarrow> mem" where
  "ps1_inject_block chosen mcs i img =
     (let blocks = length chosen;
          f = ps1_frame_at (chosen ! i);
          last = (i + 1 = blocks);
          link = (if last then PS1_LINK_END else of_nat (chosen ! (i + 1) - 1));
          img = (if i = 0
                 then ps1_write_frame (memcpy img f mcs 0 PS1_FRAME_SIZE) f PS1_STATE_FIRST
                        (of_nat (blocks * PS1_BLOCK_SIZE)) link
                 else ps1_write_frame (memset img f 0 PS1_FRAME_SIZE) f
                        (if last then PS1_STATE_LAST else PS1_STATE_MIDDLE) 0 link);
          img = ps1_seal_frame img f
      in memcpy img (chosen ! i * PS1_BLOCK_SIZE) mcs (PS1_FRAME_SIZE + i * PS1_BLOCK_SIZE) PS1_BLOCK_SIZE)"

definition sigil_ps1_inject :: "mem \<Rightarrow> mem \<Rightarrow> nat \<Rightarrow> rc \<times> mem" where
  "sigil_ps1_inject img mcs len =
     (let blocks = ps1_mcs_blocks mcs len in
      if blocks = 0 then (SIGIL_ERR_UNSUPPORTED_FORMAT, img)
      else if list_ex (\<lambda>block. ps1_named_as img block mcs) [1..<PS1_DATA_BLOCKS + 1]
      then (SIGIL_ERR_EXISTS, img)
      else
        let chosen = take blocks (filter (ps1_frame_is_free img) [1..<PS1_DATA_BLOCKS + 1]) in
        if length chosen < blocks then (SIGIL_ERR_NO_SPACE, img)
        else (SIGIL_OK, fold (ps1_inject_block chosen mcs) [0..<blocks] img))"

definition ps1_delete_block :: "nat list \<Rightarrow> nat \<Rightarrow> mem \<Rightarrow> mem" where
  "ps1_delete_block order i img =
     (let f = ps1_frame_at (order ! i);
          state = (if i = 0 then PS1_STATE_DELETED_FIRST
                   else if i + 1 = length order then PS1_STATE_DELETED_LAST
                   else PS1_STATE_DELETED_MIDDLE)
      in ps1_seal_frame (sigil_write_le32 img f state) f)"

definition sigil_ps1_delete :: "mem \<Rightarrow> nat \<Rightarrow> rc \<times> mem" where
  "sigil_ps1_delete img first_block =
     (if first_block < 1 \<or> PS1_DATA_BLOCKS < first_block then (SIGIL_ERR_INVALID_ARG, img)
      else if ps1_frame_state img first_block \<noteq> PS1_STATE_FIRST then (SIGIL_ERR_INVALID_ARG, img)
      else
        let order = ps1_walk_chain img first_block in
        if length order = 0 then (SIGIL_ERR_INVALID_ARG, img)
        else (SIGIL_OK, fold (ps1_delete_block order) [0..<length order] img))"

text \<open>Each round of the loop of \<open>verify\<close> overwrites the whole of the copy before it compares it.\<close>

definition sigil_ps1_verify :: "mem \<Rightarrow> mem \<Rightarrow> nat \<Rightarrow> rc" where
  "sigil_ps1_verify img mcs len =
     (let blocks = ps1_mcs_blocks mcs len in
      if blocks = 0 then SIGIL_ERR_UNSUPPORTED_FORMAT
      else if list_ex (\<lambda>block.
                ps1_named_as img block mcs \<and>
                length (ps1_walk_chain img block) = blocks \<and>
                (let (rc, copy) = sigil_ps1_extract img block blocks (\<lambda>_. 0)
                 in rc = SIGIL_OK \<and> mem_eq copy 0 mcs 0 len))
              [1..<PS1_DATA_BLOCKS + 1]
      then SIGIL_OK else SIGIL_ERR_NOT_FOUND)"

end
