(* ===== verification/CardPs1Proofs.thy ===== *)
theory CardPs1Proofs
  imports CardPs1
begin

text \<open>
  Correctness of the PlayStation card model. The chain reader meets the contract of
  \<^verbatim>\<open>Chains\<close>; the listing shows exactly the saves with a whole chain no other save shares; a save
  is what \<open>extract\<close> gives; and \<open>inject\<close>, \<open>delete\<close> and \<open>verify\<close> change and check those saves
  and nothing else.
\<close>

section \<open>The chain reader\<close>

text \<open>What a frame's link says, over the whole card.\<close>

definition ps1_step :: "mem \<Rightarrow> nat \<Rightarrow> link" where
  "ps1_step img b =
     (let link = ps1_frame_link img b in
      if link = PS1_LINK_END then End
      else if PS1_DATA_BLOCKS \<le> unat link then Bad
      else if ps1_frame_state img (unat link + 1) \<in> {PS1_STATE_MIDDLE, PS1_STATE_LAST}
      then Next (unat link + 1) else Bad)"

lemma ps1_step_Next:
  "ps1_step img b = Next c \<Longrightarrow> 1 \<le> c \<and> c < 16 \<and> ps1_frame_state img c \<in> {PS1_STATE_MIDDLE, PS1_STATE_LAST}"
  by (auto simp: ps1_step_def Let_def ps1_consts split: if_splits)

lemma ps1_walk_loop_step:
  assumes "b < 16" and "\<And>i. i < 16 \<Longrightarrow> bit seen i \<longleftrightarrow> i \<in> set order"
  shows "ps1_walk_loop img seen order b =
    (case ps1_step img b of
       End \<Rightarrow> order @ [b]
     | Bad \<Rightarrow> []
     | Next c \<Rightarrow> if c \<in> set (order @ [b]) then []
                else ps1_walk_loop img (seen OR push_bit b 1) (order @ [b]) c)"
    and "i < 16 \<Longrightarrow> bit (seen OR push_bit b 1) i \<longleftrightarrow> i \<in> set (order @ [b])"
proof -
  have b: "bit (seen OR push_bit b 1) i \<longleftrightarrow> i \<in> set (order @ [b])" if "i < 16" for i
    using assms that by (auto simp: bit_simps)
  then show "i < 16 \<Longrightarrow> bit (seen OR push_bit b 1) i \<longleftrightarrow> i \<in> set (order @ [b])" .
  let ?l = "ps1_frame_link img b"
  show "ps1_walk_loop img seen order b =
    (case ps1_step img b of
       End \<Rightarrow> order @ [b]
     | Bad \<Rightarrow> []
     | Next c \<Rightarrow> if c \<in> set (order @ [b]) then []
                else ps1_walk_loop img (seen OR push_bit b 1) (order @ [b]) c)"
  proof (cases "?l = PS1_LINK_END \<or> PS1_DATA_BLOCKS \<le> unat ?l")
    case True
    then show ?thesis by (subst ps1_walk_loop.simps) (auto simp: ps1_step_def Let_def)
  next
    case False
    then have "unat ?l + 1 < 16" by (simp add: ps1_consts)
    from b [OF this] False show ?thesis
      by (subst ps1_walk_loop.simps) (simp add: ps1_step_def Let_def del: bit_or_iff)
  qed
qed

lemma ps1_walk_loop_sound:
  "b < 16 \<Longrightarrow> (\<And>i. i < 16 \<Longrightarrow> bit seen i \<longleftrightarrow> i \<in> set order) \<Longrightarrow> distinct (order @ [b]) \<Longrightarrow>
   ps1_walk_loop img seen order b \<noteq> [] \<Longrightarrow>
   \<exists>bs. ps1_walk_loop img seen order b = order @ bs \<and> hd bs = b \<and> linked (ps1_step img) bs \<and> distinct (order @ bs)"
proof (induction img seen order b rule: ps1_walk_loop.induct)
  case (1 img seen order b)
  note unfold = ps1_walk_loop_step [OF "1.prems"(1,2)]
  show ?case
  proof (cases "ps1_step img b")
    case End
    then show ?thesis using unfold(1) "1.prems"(3) by (intro exI [of _ "[b]"]) simp
  next
    case Bad
    then show ?thesis using unfold(1) "1.prems"(4) by simp
  next
    case (Next c)
    have new: "c \<notin> set (order @ [b])" and rest: "ps1_walk_loop img (seen OR push_bit b 1) (order @ [b]) c \<noteq> []"
      using unfold(1) "1.prems"(4) Next by (auto split: if_splits)
    have c: "c < 16" using ps1_step_Next [OF Next] by simp
    have d: "distinct ((order @ [b]) @ [c])" using new "1.prems"(3) by auto
    from Next obtain l where l: "l = ps1_frame_link img b" "l \<noteq> PS1_LINK_END" "\<not> PS1_DATA_BLOCKS \<le> unat l"
      "c = unat l + 1" "ps1_frame_state img c = PS1_STATE_MIDDLE \<or> ps1_frame_state img c = PS1_STATE_LAST"
      by (auto simp: ps1_step_def Let_def split: if_splits)
    have "\<exists>bs. ps1_walk_loop img (seen OR push_bit b 1) (order @ [b]) c = (order @ [b]) @ bs \<and> hd bs = c \<and>
        linked (ps1_step img) bs \<and> distinct ((order @ [b]) @ bs)"
      using l new unfold(2) c by (intro "1.IH" [OF refl refl l(1-3) l(4) _ refl] d rest) auto
    then obtain bs where bs: "ps1_walk_loop img (seen OR push_bit b 1) (order @ [b]) c = (order @ [b]) @ bs"
      "hd bs = c" "linked (ps1_step img) bs" "distinct ((order @ [b]) @ bs)" by blast
    have "linked (ps1_step img) (b # bs)" using bs(2,3) Next by (cases bs) auto
    with bs(1,4) show ?thesis using unfold(1) Next new by (intro exI [of _ "b # bs"]) auto
  qed
qed

lemma ps1_walk_loop_complete:
  "linked (ps1_step img) bs \<Longrightarrow> distinct (order @ bs) \<Longrightarrow> hd bs < 16 \<Longrightarrow>
   (\<And>i. i < 16 \<Longrightarrow> bit seen i \<longleftrightarrow> i \<in> set order) \<Longrightarrow>
   ps1_walk_loop img seen order (hd bs) = order @ bs"
proof (induction bs arbitrary: seen order)
  case Nil
  then show ?case by simp
next
  case (Cons b bs)
  have b: "b < 16" using Cons.prems(3) by simp
  note unfold = ps1_walk_loop_step [OF b Cons.prems(4)]
  show ?case
  proof (cases bs)
    case Nil
    then show ?thesis using unfold(1) Cons.prems(1) by simp
  next
    case (Cons c cs)
    then have s: "ps1_step img b = Next c" and l: "linked (ps1_step img) bs" using Cons.prems(1) by auto
    have "ps1_walk_loop img (seen OR push_bit b 1) (order @ [b]) (hd bs) = (order @ [b]) @ bs"
      using Cons.prems(2) Cons ps1_step_Next [OF s] by (intro Cons.IH l unfold(2)) auto
    then show ?thesis using unfold(1) s Cons Cons.prems(2) by auto
  qed
qed

interpretation ps1: chain_reader ps1_step "\<lambda>_ b. b < 16" ps1_walk_chain
proof unfold_locales
  fix img :: mem and b :: nat
  assume "b < 16" "ps1_walk_chain img b \<noteq> []"
  then show "hd (ps1_walk_chain img b) = b \<and> linked (ps1_step img) (ps1_walk_chain img b) \<and>
      distinct (ps1_walk_chain img b)"
    using ps1_walk_loop_sound [of b 0 "[]" img] by (auto simp: ps1_walk_chain_def)
next
  fix img :: mem and bs :: "nat list"
  assume "hd bs < 16" "linked (ps1_step img) bs" "distinct bs"
  then show "ps1_walk_chain img (hd bs) = bs"
    using ps1_walk_loop_complete [of img bs "[]" 0] by (simp add: ps1_walk_chain_def)
qed

text \<open>Every block of a walk but its first carries a middle or last state.\<close>

lemma linked_ps1_states:
  "linked (ps1_step img) bs \<Longrightarrow> b \<in> set (tl bs) \<Longrightarrow>
     1 \<le> b \<and> b < 16 \<and> ps1_frame_state img b \<in> {PS1_STATE_MIDDLE, PS1_STATE_LAST}"
proof (induction bs)
  case (Cons a bs)
  then obtain c cs where bs: "bs = c # cs" by (cases bs) simp_all
  with Cons.prems(1) have s: "ps1_step img a = Next c" and l: "linked (ps1_step img) bs" by simp_all
  show ?case
  proof (cases "b = c")
    case True
    then show ?thesis using ps1_step_Next [OF s] by blast
  next
    case False
    then show ?thesis using Cons.IH [OF l] Cons.prems(2) bs by simp
  qed
qed simp

lemma ps1_walk_states:
  assumes "b < 16" and "x \<in> set (ps1_walk_chain img b)" and "x \<noteq> b"
  shows "1 \<le> x \<and> x < 16 \<and> ps1_frame_state img x \<in> {PS1_STATE_MIDDLE, PS1_STATE_LAST}"
proof -
  have ne: "ps1_walk_chain img b \<noteq> []" using assms(2) by auto
  with assms ps1.walk_hd have "x \<in> set (tl (ps1_walk_chain img b))"
    by (metis list.collapse set_ConsD)
  with linked_ps1_states [OF ps1.walk_linked [OF assms(1) ne]] show ?thesis by blast
qed

lemma ps1_walk_in_range:
  assumes "1 \<le> b" and "b < 16" and "x \<in> set (ps1_walk_chain img b)"
  shows "1 \<le> x \<and> x < 16"
proof (cases "x = b")
  case True
  with assms(1,2) show ?thesis by simp
next
  case False
  with ps1_walk_states [OF assms(2,3)] show ?thesis by blast
qed

lemma ps1_walk_length:
  assumes "1 \<le> b" and "b < 16"
  shows "length (ps1_walk_chain img b) \<le> 15"
proof -
  have "set (ps1_walk_chain img b) \<subseteq> {1..<16}" using ps1_walk_in_range [OF assms] by auto
  from card_mono [OF _ this] distinct_card [OF ps1.walk_distinct [OF assms(2)]] show ?thesis by simp
qed

section \<open>What the listing shows\<close>

text \<open>A save is whole when its chain is intact, and live when no other save's chain shares a block
  with it. A block is free when its frame says so.\<close>

definition ps1_whole :: "mem \<Rightarrow> nat \<Rightarrow> bool" where
  "ps1_whole img b = (1 \<le> b \<and> b < 16 \<and> ps1_frame_state img b = PS1_STATE_FIRST \<and> ps1_walk_chain img b \<noteq> [])"

definition ps1_live :: "mem \<Rightarrow> nat \<Rightarrow> bool" where
  "ps1_live img b =
     (ps1_whole img b \<and>
      list_all (\<lambda>a. ps1_whole img a \<and> a \<noteq> b \<longrightarrow>
                 set (ps1_walk_chain img a) \<inter> set (ps1_walk_chain img b) = {}) [1..<16])"

lemma ps1_whole_range: "ps1_whole img a \<Longrightarrow> a \<in> set [1..<16]"
  by (simp add: ps1_whole_def)

lemma ps1_whole_by:
  "a \<in> set [1..<16] \<and> ps1_frame_state img a = PS1_STATE_FIRST \<and> x \<in> set (ps1_walk_chain img a) \<longleftrightarrow>
     ps1_whole img a \<and> x \<in> set (ps1_walk_chain img a)"
  by (auto simp: ps1_whole_def)

lemma ps1_live_iff:
  "ps1_live img b \<longleftrightarrow> ps1_whole img b \<and>
     (\<forall>a. ps1_whole img a \<longrightarrow> a \<noteq> b \<longrightarrow> set (ps1_walk_chain img a) \<inter> set (ps1_walk_chain img b) = {})"
  using ps1_whole_range [of img] by (auto simp: ps1_live_def list_all_iff)

lemma ps1_claims:
  "ps1_count_claims img x =
     length (filter (\<lambda>b. ps1_frame_state img b = PS1_STATE_FIRST \<and> x \<in> set (ps1_walk_chain img b)) [1..<16])"
  unfolding ps1_count_claims_def
  by (subst fold_claims) (auto simp: ps1_consts intro: ps1.walk_distinct)

lemma ps1_shared:
  assumes "ps1_whole img b"
  shows "ps1_chain_shared img b (ps1_count_claims img) \<longleftrightarrow> \<not> ps1_live img b"
proof -
  have b: "b \<in> set [1..<16]" "ps1_frame_state img b = PS1_STATE_FIRST" using assms by (auto simp: ps1_whole_def)
  have "1 < ps1_count_claims img x \<longleftrightarrow>
      (\<exists>a. ps1_whole img a \<and> a \<noteq> b \<and> x \<in> set (ps1_walk_chain img a))"
    if x: "x \<in> set (ps1_walk_chain img b)" for x
  proof -
    let ?Q = "\<lambda>a. ps1_frame_state img a = PS1_STATE_FIRST \<and> x \<in> set (ps1_walk_chain img a)"
    have "1 < ps1_count_claims img x \<longleftrightarrow> (\<exists>a \<in> set [1..<16]. a \<noteq> b \<and> ?Q a)"
      unfolding ps1_claims using b x by (intro two_claims) simp_all
    also have "\<dots> \<longleftrightarrow> (\<exists>a. a \<noteq> b \<and> (a \<in> set [1..<16] \<and> ?Q a))" by blast
    also have "\<dots> \<longleftrightarrow> (\<exists>a. ps1_whole img a \<and> a \<noteq> b \<and> x \<in> set (ps1_walk_chain img a))"
      unfolding ps1_whole_by by blast
    finally show ?thesis .
  qed
  then show ?thesis
    using assms by (auto simp: ps1_chain_shared_def list_ex_iff ps1_live_iff)
qed

definition ps1_entry :: "mem \<Rightarrow> nat \<Rightarrow> sigil_card_entry" where
  "ps1_entry img b =
     \<lparr>ce_name = ps1_name_at img b, ce_owner_id = sigil_card_sony_owner (ps1_name_at img b),
      ce_blocks = length (ps1_walk_chain img b), ce_first_block = b\<rparr>"

lemma ps1_free_state: "ps1_frame_is_free img b \<Longrightarrow> ps1_frame_state img b \<notin> {PS1_STATE_FIRST, PS1_STATE_MIDDLE, PS1_STATE_LAST}"
  by (auto simp: ps1_frame_is_free_def Let_def ps1_states)

lemma ps1_list_block:
  assumes "1 \<le> b" and "b < 16"
  shows "ps1_list_block img (ps1_count_claims img) b l =
    (if ps1_frame_is_free img b then l\<lparr>free_slots := free_slots l + 1\<rparr>
     else if ps1_frame_state img b \<noteq> PS1_STATE_FIRST then l
     else if ps1_live img b then listing_add l (ps1_entry img b)
     else sigil_card_listing_corrupt l (Some (ps1_name_at img b))
            (Some (sigil_card_sony_owner (ps1_name_at img b))) b)"
  using assms ps1_shared [of img b]
  by (cases "ps1_whole img b")
     (auto simp: ps1_list_block_def Let_def ps1_frame_is_free_def ps1_entry_def ps1_whole_def
                 ps1_live_iff)

lemma ps1_list_fold:
  assumes "set bs \<subseteq> {1..<16}"
  shows "entries (fold (ps1_list_block img (ps1_count_claims img)) bs l) =
           entries l @ map (ps1_entry img) (filter (ps1_live img) bs) \<and>
         free_slots (fold (ps1_list_block img (ps1_count_claims img)) bs l) =
           free_slots l + length (filter (ps1_frame_is_free img) bs) \<and>
         corrupt_count (fold (ps1_list_block img (ps1_count_claims img)) bs l) = corrupt_count l +
           length (filter (\<lambda>b. ps1_frame_state img b = PS1_STATE_FIRST \<and> \<not> ps1_live img b) bs) \<and>
         map ce_first_block (corrupt_entries (fold (ps1_list_block img (ps1_count_claims img)) bs l)) =
           map ce_first_block (corrupt_entries l) @
             filter (\<lambda>b. ps1_frame_state img b = PS1_STATE_FIRST \<and> \<not> ps1_live img b) bs \<and>
         total_blocks (fold (ps1_list_block img (ps1_count_claims img)) bs l) = total_blocks l \<and>
         cl_format (fold (ps1_list_block img (ps1_count_claims img)) bs l) = cl_format l"
  using assms
proof (induction bs arbitrary: l)
  case Nil
  then show ?case by simp
next
  case (Cons b bs)
  have st: "ps1_live img b \<Longrightarrow> ps1_frame_state img b = PS1_STATE_FIRST"
    by (simp add: ps1_live_def ps1_whole_def)
  show ?case
    using Cons.prems Cons.IH [of "ps1_list_block img (ps1_count_claims img) b l"]
      ps1_list_block [of b img l] ps1_free_state [of img b] st
    by (auto simp: listing_corrupt_named)
qed

text \<open>The listing of a card: exactly the live saves, in directory order; the free slots; and
  every other save counted as corrupt and named.\<close>

theorem ps1_card_list_spec:
  "let l = sigil_ps1_card_list img format in
   entries l = map (ps1_entry img) (filter (ps1_live img) [1..<16]) \<and>
   free_slots l = length (filter (ps1_frame_is_free img) [1..<16]) \<and>
   free_blocks l = free_slots l \<and> total_blocks l = 15 \<and> cl_format l = format \<and>
   map ce_first_block (corrupt_entries l) =
     filter (\<lambda>b. ps1_frame_state img b = PS1_STATE_FIRST \<and> \<not> ps1_live img b) [1..<16] \<and>
   corrupt_count l = length (corrupt_entries l)"
proof -
  have l: "length (corrupt_entries l) = length (map ce_first_block (corrupt_entries l))" for l by simp
  show ?thesis
    unfolding sigil_ps1_card_list_def Let_def l
    using ps1_list_fold [of "[1..<16]" img "(sigil_card_listing_new format)\<lparr>total_blocks := PS1_DATA_BLOCKS\<rparr>"]
    by (simp del: length_map upt_rec_numeral upt_Suc add: ps1_consts)
qed

section \<open>Frames and blocks\<close>

lemma ps1_seal_apply [mem_simps]:
  "ps1_seal_frame m f i =
     (if i = f + 127 then fold (\<lambda>i x. x XOR m (f + i)) [0..<127] 0 else m i)"
  by (simp add: ps1_seal_frame_def PS1_FRAME_CHECKSUM_def)

lemma ps1_write_frame_outside:
  "i < f \<or> f + 10 \<le> i \<Longrightarrow> ps1_write_frame m f s z l i = m i"
  by (auto simp: ps1_write_frame_def Let_def mem_simps)

lemma ps1_write_frame_reads:
  "sigil_read_le32 (ps1_write_frame m f s z l) f = s"
  "sigil_read_le32 (ps1_write_frame m f s z l) (f + 4) = z"
  "sigil_read_le16 (ps1_write_frame m f s z l) (f + 8) = l"
proof -
  let ?a = "sigil_write_le32 m f s" let ?b = "sigil_write_le32 ?a (f + 4) z"
  have "sigil_read_le32 (ps1_write_frame m f s z l) f = sigil_read_le32 ?a f"
    by (rule read_le32_cong) (simp add: ps1_write_frame_def Let_def mem_simps)
  then show "sigil_read_le32 (ps1_write_frame m f s z l) f = s" by simp
  have "sigil_read_le32 (ps1_write_frame m f s z l) (f + 4) = sigil_read_le32 ?b (f + 4)"
    by (rule read_le32_cong) (simp add: ps1_write_frame_def Let_def write_le16_apply)
  then show "sigil_read_le32 (ps1_write_frame m f s z l) (f + 4) = z" by simp
  show "sigil_read_le16 (ps1_write_frame m f s z l) (f + 8) = l" by (simp add: ps1_write_frame_def Let_def)
qed

lemma fold_xor_cong:
  "(\<And>i. i \<in> set is \<Longrightarrow> a i = b i) \<Longrightarrow> fold (\<lambda>i x. x XOR a i) is x = fold (\<lambda>i x. x XOR b i) is (x :: u8)"
  by (rule fold_cong) simp_all

lemma ps1_seal_cong:
  "(\<And>k. k < 128 \<Longrightarrow> a (x + k) = b (y + k)) \<Longrightarrow> k < 128 \<Longrightarrow>
     ps1_seal_frame a x (x + k) = ps1_seal_frame b y (y + k)"
  by (auto simp: mem_simps intro!: fold_xor_cong)

text \<open>The bytes that belong to a block: its directory frame and its data.\<close>

definition ps1_region :: "nat \<Rightarrow> nat set" where
  "ps1_region b = {b * 128..<b * 128 + 128} \<union> {b * 8192..<b * 8192 + 8192}"

lemma ps1_region_disjoint:
  assumes "1 \<le> b" and "b < 16" and "1 \<le> c" and "c < 16" and "b \<noteq> c"
  shows "ps1_region b \<inter> ps1_region c = {}"
proof -
  have s: "b * 128 + 128 \<le> c * 128 \<or> c * 128 + 128 \<le> b * 128"
    "b * 8192 + 8192 \<le> c * 8192 \<or> c * 8192 + 8192 \<le> b * 8192" using assms(5) by linarith+
  have r: "b * 128 + 128 \<le> c * 8192" "c * 128 + 128 \<le> b * 8192" using assms by linarith+
  show ?thesis using s r by (auto simp: ps1_region_def)
qed

definition ps1_same :: "mem \<Rightarrow> mem \<Rightarrow> nat \<Rightarrow> bool" where
  "ps1_same a b c = (list_all (\<lambda>k. a (c * 128 + k) = b (c * 128 + k)) [0..<128] \<and>
                     list_all (\<lambda>k. a (c * 8192 + k) = b (c * 8192 + k)) [0..<8192])"

lemma ps1_sameI: "(\<And>j. j \<in> ps1_region c \<Longrightarrow> a j = b j) \<Longrightarrow> ps1_same a b c"
  by (simp add: ps1_same_def ps1_region_def list_all_iff)

lemma ps1_same_frame: "ps1_same a b c \<Longrightarrow> k < 128 \<Longrightarrow> a (c * 128 + k) = b (c * 128 + k)"
  by (simp add: ps1_same_def list_all_iff)

lemma ps1_same_data: "ps1_same a b c \<Longrightarrow> k < 8192 \<Longrightarrow> a (c * 8192 + k) = b (c * 8192 + k)"
  by (simp add: ps1_same_def list_all_iff)

lemma ps1_same_sym: "ps1_same a b c \<Longrightarrow> ps1_same b a c"
  by (simp add: ps1_same_def list_all_iff)

lemma ps1_same_state: "ps1_same a b c \<Longrightarrow> ps1_frame_state a c = ps1_frame_state b c"
  by (auto simp: ps1_frame_state_def ps1_frame_at_def PS1_FRAME_SIZE_def ps1_same_frame intro!: read_le32_cong)

lemma ps1_same_link: "ps1_same a b c \<Longrightarrow> ps1_frame_link a c = ps1_frame_link b c"
  using ps1_same_frame [of a b c 8] ps1_same_frame [of a b c 9]
  unfolding ps1_frame_link_def ps1_frame_at_def PS1_FRAME_SIZE_def
  by (intro read_le16_cong) (simp_all add: ac_simps)

lemma ps1_same_name: "ps1_same a b c \<Longrightarrow> ps1_name_at a c = ps1_name_at b c"
  unfolding ps1_name_at_def ps1_frame_at_def PS1_FRAME_SIZE_def PS1_NAME_LEN_def
  by (rule arg_cong [where f = cstr], rule bytes_at_cong) (simp add: ps1_same_frame add.assoc)

lemma ps1_same_linked:
  "linked (ps1_step a) bs \<Longrightarrow> (\<And>x. x \<in> set bs \<Longrightarrow> ps1_same a b x) \<Longrightarrow> linked (ps1_step b) bs"
proof (induction bs)
  case (Cons x bs)
  have l: "ps1_frame_link b x = ps1_frame_link a x" using ps1_same_link [of a b x] Cons.prems(2) by simp
  show ?case
  proof (cases bs)
    case Nil
    then show ?thesis using Cons.prems(1) l by (auto simp: ps1_step_def Let_def split: if_splits)
  next
    case (Cons c cs)
    have s: "ps1_frame_state b c = ps1_frame_state a c" using ps1_same_state [of a b c] Cons.prems(2) Cons by simp
    have "ps1_step a x = Next c" using Cons.prems(1) Cons by simp
    then have "ps1_step b x = Next c" using l s by (auto simp: ps1_step_def Let_def split: if_splits)
    moreover have "linked (ps1_step b) bs" using Cons.IH Cons.prems Cons by simp
    ultimately show ?thesis using Cons by simp
  qed
qed simp

lemma ps1_same_walk:
  assumes "b < 16" and "ps1_walk_chain img b \<noteq> []"
    and "\<And>x. x \<in> set (ps1_walk_chain img b) \<Longrightarrow> ps1_same img img' x"
  shows "ps1_walk_chain img' b = ps1_walk_chain img b"
  using ps1_same_linked [OF ps1.walk_linked [OF assms(1,2)] assms(3)]
    ps1.walk_complete [of "ps1_walk_chain img b" img'] ps1.walk_hd [OF assms(1,2)]
    ps1.walk_distinct [OF assms(1)] assms(1) by simp

section \<open>Extracting a save\<close>

text \<open>What a copy of \<open>n\<close> blocks in chain order holds.\<close>

lemma ps1_copy_blocks:
  "fold (\<lambda>i out. memcpy out (p + i * 8192) img (order ! i * 8192) 8192) [0..<n] out j =
     (if p \<le> j \<and> j < p + n * 8192
      then img (order ! ((j - p) div 8192) * 8192 + (j - p) mod 8192) else out j)"
proof (induction n)
  case 0
  show ?case by auto
next
  case (Suc n)
  show ?case
  proof (cases "p + n * 8192 \<le> j \<and> j < p + n * 8192 + 8192")
    case True
    then have "8192 * n \<le> j - p" "j - p < 8192 * Suc n" by auto
    then have d: "(j - p) div 8192 = n" by (rule div_nat_eqI)
    moreover have "(j - p) mod 8192 = j - (p + n * 8192)"
      using True by (simp add: modulo_nat_def d)
    ultimately show ?thesis using True by (simp add: memcpy_apply)
  next
    case False
    then show ?thesis using Suc by (auto simp: memcpy_apply)
  qed
qed

lemma ps1_entry_data_iff:
  "fst (sigil_ps1_entry_data img b n out p) = SIGIL_OK \<longleftrightarrow>
     1 \<le> b \<and> b < 16 \<and> ps1_walk_chain img b \<noteq> [] \<and> length (ps1_walk_chain img b) = n"
  by (auto simp: sigil_ps1_entry_data_def Let_def PS1_DATA_BLOCKS_def)

lemma ps1_entry_data_bytes:
  assumes "1 \<le> b" and "b < 16" and "ps1_walk_chain img b \<noteq> []"
  shows "sigil_ps1_entry_data img b (length (ps1_walk_chain img b)) out p =
    (SIGIL_OK, \<lambda>j. if p \<le> j \<and> j < p + length (ps1_walk_chain img b) * 8192
       then img (ps1_walk_chain img b ! ((j - p) div 8192) * 8192 + (j - p) mod 8192) else out j)"
  using assms by (auto simp: sigil_ps1_entry_data_def Let_def ps1_consts ps1_copy_blocks)

text \<open>The save in its \<^verbatim>\<open>.mcs\<close> form, as a function of the card.\<close>

definition ps1_mcs_frame :: "mem \<Rightarrow> nat \<Rightarrow> mem" where
  "ps1_mcs_frame img b = ps1_seal_frame ((memcpy (\<lambda>_. 0) 0 img (b * 128) 128)(8 := 0xFF, 9 := 0xFF)) 0"

definition ps1_mcs_byte :: "mem \<Rightarrow> nat \<Rightarrow> nat \<Rightarrow> u8" where
  "ps1_mcs_byte img b j =
     (if j < 128 then ps1_mcs_frame img b j
      else img (ps1_walk_chain img b ! ((j - 128) div 8192) * 8192 + (j - 128) mod 8192))"

definition ps1_save :: "mem \<Rightarrow> nat \<Rightarrow> bytes option" where
  "ps1_save img b =
     (if ps1_whole img b
      then Some (map (ps1_mcs_byte img b) [0..<sigil_ps1_mcs_size (length (ps1_walk_chain img b))])
      else None)"

lemma ps1_extract_iff:
  "fst (sigil_ps1_extract img b n out) = SIGIL_OK \<longleftrightarrow>
     ps1_whole img b \<and> length (ps1_walk_chain img b) = n"
  using ps1_entry_data_iff [of img b n out 128]
  by (auto simp: sigil_ps1_extract_def Let_def ps1_consts ps1_whole_def split: prod.splits if_splits)

lemma ps1_extract_bytes:
  assumes "ps1_whole img b"
  shows "sigil_ps1_extract img b (length (ps1_walk_chain img b)) out =
    (SIGIL_OK, \<lambda>j. if j < sigil_ps1_mcs_size (length (ps1_walk_chain img b))
                  then ps1_mcs_byte img b j else out j)"
proof -
  have b: "1 \<le> b" "b < 16" "ps1_walk_chain img b \<noteq> []" "ps1_frame_state img b = PS1_STATE_FIRST"
    using assms by (auto simp: ps1_whole_def)
  let ?n = "length (ps1_walk_chain img b)"
  let ?d = "\<lambda>j. if 128 \<le> j \<and> j < 128 + ?n * 8192
       then img (ps1_walk_chain img b ! ((j - 128) div 8192) * 8192 + (j - 128) mod 8192) else out j"
  let ?o = "(memcpy ?d 0 img (b * 128) 128)(8 := 0xFF, 9 := 0xFF)"
  have "sigil_ps1_extract img b ?n out = (SIGIL_OK, ps1_seal_frame ?o 0)"
    using b ps1_entry_data_bytes [OF b(1-3), of out 128]
    by (simp add: sigil_ps1_extract_def PS1_DATA_BLOCKS_def PS1_FRAME_SIZE_def ps1_frame_at_def
        Let_def not_less)
  moreover have "ps1_seal_frame ?o 0 j = (if j < sigil_ps1_mcs_size ?n then ps1_mcs_byte img b j else out j)" for j
  proof (cases "j < 128")
    case True
    have "ps1_seal_frame ?o 0 (0 + j) =
        ps1_seal_frame ((memcpy (\<lambda>_. 0) 0 img (b * 128) 128)(8 := 0xFF, 9 := 0xFF)) 0 (0 + j)"
      by (rule ps1_seal_cong) (auto simp: memcpy_apply True)
    then show ?thesis
      using True by (simp add: ps1_mcs_byte_def ps1_mcs_frame_def sigil_ps1_mcs_size_def ps1_consts)
  next
    case False
    then show ?thesis
      by (simp add: ps1_seal_apply memcpy_apply ps1_mcs_byte_def sigil_ps1_mcs_size_def ps1_consts)
  qed
  ultimately show ?thesis by (auto simp: fun_eq_iff)
qed

lemma ps1_extract_save:
  assumes "ps1_whole img b"
  shows "ps1_save img b =
    Some (bytes_at (snd (sigil_ps1_extract img b (length (ps1_walk_chain img b)) out)) 0
            (sigil_ps1_mcs_size (length (ps1_walk_chain img b))))"
  using assms by (simp add: ps1_extract_bytes [OF assms] ps1_save_def bytes_at_def)

text \<open>Cards that agree on the blocks of a chain hold the same save there.\<close>

lemma ps1_save_cong:
  assumes "ps1_whole img b" and "\<And>x. x \<in> set (ps1_walk_chain img b) \<Longrightarrow> ps1_same img img' x"
  shows "ps1_whole img' b" and "ps1_walk_chain img' b = ps1_walk_chain img b"
    and "ps1_entry img' b = ps1_entry img b" and "ps1_save img' b = ps1_save img b"
proof -
  have b: "b < 16" "ps1_walk_chain img b \<noteq> []" using assms(1) by (auto simp: ps1_whole_def)
  show w: "ps1_walk_chain img' b = ps1_walk_chain img b" by (rule ps1_same_walk [OF b assms(2)])
  have sb: "ps1_same img img' b" using assms(2) ps1.start_in_walk [OF b] by blast
  show whole: "ps1_whole img' b"
    using assms(1) w ps1_same_state [OF sb] by (simp add: ps1_whole_def)
  show "ps1_entry img' b = ps1_entry img b" using w ps1_same_name [OF sb] by (simp add: ps1_entry_def)
  have "ps1_mcs_byte img' b j = ps1_mcs_byte img b j"
    if j: "j < sigil_ps1_mcs_size (length (ps1_walk_chain img b))" for j
  proof (cases "j < 128")
    case True
    have "memcpy (\<lambda>_. 0) 0 img' (b * 128) 128 = memcpy (\<lambda>_. 0) 0 img (b * 128) 128"
      by (rule memcpy_cong) (simp add: ps1_same_frame [OF ps1_same_sym [OF sb]])
    then show ?thesis using True by (simp add: ps1_mcs_byte_def ps1_mcs_frame_def)
  next
    case False
    then have "(j - 128) div 8192 < length (ps1_walk_chain img b)"
      using j by (simp add: sigil_ps1_mcs_size_def ps1_consts less_mult_imp_div_less)
    then have "ps1_same img img' (ps1_walk_chain img b ! ((j - 128) div 8192))"
      by (intro assms(2)) simp
    from ps1_same_data [OF this, of "(j - 128) mod 8192"] show ?thesis
      using False w by (simp add: ps1_mcs_byte_def)
  qed
  then show "ps1_save img' b = ps1_save img b" using assms(1) whole w by (simp add: ps1_save_def)
qed

section \<open>Injecting a save\<close>

lemma ps1_mcs_blocks_iff:
  "ps1_mcs_blocks mcs len = n \<and> n \<noteq> 0 \<longleftrightarrow>
     1 \<le> n \<and> n \<le> 15 \<and> len = sigil_ps1_mcs_size n \<and> sigil_read_le32 mcs 0 = PS1_STATE_FIRST"
proof
  assume a: "ps1_mcs_blocks mcs len = n \<and> n \<noteq> 0"
  then have l: "128 + 8192 \<le> len" "(len - 128) mod 8192 = 0" "(len - 128) div 8192 = n" "n \<le> 15"
    "sigil_read_le32 mcs 0 = PS1_STATE_FIRST"
    by (auto simp: ps1_mcs_blocks_def Let_def sigil_ps1_mcs_size_def ps1_consts split: if_splits)
  from l(2,3) have "len - 128 = n * 8192" by (metis add.right_neutral div_mult_mod_eq)
  with l a show "1 \<le> n \<and> n \<le> 15 \<and> len = sigil_ps1_mcs_size n \<and> sigil_read_le32 mcs 0 = PS1_STATE_FIRST"
    by (simp add: sigil_ps1_mcs_size_def ps1_consts)
next
  assume "1 \<le> n \<and> n \<le> 15 \<and> len = sigil_ps1_mcs_size n \<and> sigil_read_le32 mcs 0 = PS1_STATE_FIRST"
  then show "ps1_mcs_blocks mcs len = n \<and> n \<noteq> 0"
    by (simp add: ps1_mcs_blocks_def Let_def sigil_ps1_mcs_size_def ps1_consts)
qed

definition ps1_free_list :: "mem \<Rightarrow> nat list" where
  "ps1_free_list img = filter (ps1_frame_is_free img) [1..<16]"

lemma ps1_inject_cases:
  obtains (format) "ps1_mcs_blocks mcs len = 0" "sigil_ps1_inject img mcs len = (SIGIL_ERR_UNSUPPORTED_FORMAT, img)"
  | (named) b where "ps1_mcs_blocks mcs len \<noteq> 0" "1 \<le> b" "b < 16" "ps1_named_as img b mcs"
      "sigil_ps1_inject img mcs len = (SIGIL_ERR_EXISTS, img)"
  | (room) "ps1_mcs_blocks mcs len \<noteq> 0" "\<forall>b. 1 \<le> b \<and> b < 16 \<longrightarrow> \<not> ps1_named_as img b mcs"
      "length (ps1_free_list img) < ps1_mcs_blocks mcs len"
      "sigil_ps1_inject img mcs len = (SIGIL_ERR_NO_SPACE, img)"
  | (ok) "ps1_mcs_blocks mcs len \<noteq> 0" "\<forall>b. 1 \<le> b \<and> b < 16 \<longrightarrow> \<not> ps1_named_as img b mcs"
      "ps1_mcs_blocks mcs len \<le> length (ps1_free_list img)"
      "sigil_ps1_inject img mcs len =
         (SIGIL_OK, fold (ps1_inject_block (take (ps1_mcs_blocks mcs len) (ps1_free_list img)) mcs)
                      [0..<ps1_mcs_blocks mcs len] img)"
proof -
  have ex: "list_ex (\<lambda>b. ps1_named_as img b mcs) [1..<16] \<longleftrightarrow> (\<exists>b. 1 \<le> b \<and> b < 16 \<and> ps1_named_as img b mcs)"
    by (auto simp: list_ex_iff simp del: upt_rec_numeral)
  have fl: "take n (filter (ps1_frame_is_free img) [1..<16]) = take n (ps1_free_list img)" for n
    by (simp add: ps1_free_list_def)
  show thesis
  proof (cases "ps1_mcs_blocks mcs len = 0")
    case True
    then show thesis by (intro format) (simp_all add: sigil_ps1_inject_def)
  next
    case n: False
    show thesis
    proof (cases "\<exists>b. 1 \<le> b \<and> b < 16 \<and> ps1_named_as img b mcs")
      case True
      then obtain b where "1 \<le> b" "b < 16" "ps1_named_as img b mcs" by blast
      moreover have "list_ex (\<lambda>b. ps1_named_as img b mcs) [1..<PS1_DATA_BLOCKS + 1]"
        using ex True by (simp add: PS1_DATA_BLOCKS_def del: upt_rec_numeral)
      ultimately show thesis using n
        by (intro named [of b]) (simp_all add: sigil_ps1_inject_def)
    next
      case False
      have "\<not> list_ex (\<lambda>b. ps1_named_as img b mcs) [1..<PS1_DATA_BLOCKS + 1]"
        using ex False by (simp add: PS1_DATA_BLOCKS_def del: upt_rec_numeral)
      then have i: "sigil_ps1_inject img mcs len =
          (if length (ps1_free_list img) < ps1_mcs_blocks mcs len then (SIGIL_ERR_NO_SPACE, img)
           else (SIGIL_OK, fold (ps1_inject_block (take (ps1_mcs_blocks mcs len) (ps1_free_list img)) mcs)
                      [0..<ps1_mcs_blocks mcs len] img))"
        using n by (simp add: sigil_ps1_inject_def Let_def ps1_free_list_def PS1_DATA_BLOCKS_def del: upt_rec_numeral)
      show thesis
        by (cases "length (ps1_free_list img) < ps1_mcs_blocks mcs len")
           (use n False i in \<open>auto intro: room ok\<close>)
    qed
  qed
qed

text \<open>The directory frame the \<open>i\<close>th block of a save gets.\<close>

definition ps1_new_frame :: "nat list \<Rightarrow> mem \<Rightarrow> nat \<Rightarrow> mem" where
  "ps1_new_frame chosen mcs i =
     ps1_seal_frame
       (ps1_write_frame (if i = 0 then memcpy (\<lambda>_. 0) 0 mcs 0 128 else (\<lambda>_. 0)) 0
         (if i = 0 then PS1_STATE_FIRST else if i + 1 = length chosen then PS1_STATE_LAST else PS1_STATE_MIDDLE)
         (if i = 0 then of_nat (length chosen * 8192) else 0)
         (if i + 1 = length chosen then PS1_LINK_END else of_nat (chosen ! (i + 1) - 1))) 0"

lemma ps1_write_frame_shift:
  assumes "\<And>k. k < 128 \<Longrightarrow> a (x + k) = b k" and "k < 128"
  shows "ps1_write_frame a x s z l (x + k) = ps1_write_frame b 0 s z l k"
  using assms by (auto simp: ps1_write_frame_def Let_def mem_simps)

lemma ps1_inject_block_outside:
  assumes "1 \<le> chosen ! i" and "j \<notin> ps1_region (chosen ! i)"
  shows "ps1_inject_block chosen mcs i img j = img j"
proof -
  let ?f = "chosen ! i * 128"
  have j: "\<not> (?f \<le> j \<and> j < ?f + 128)" "\<not> (chosen ! i * 8192 \<le> j \<and> j < chosen ! i * 8192 + 8192)"
    using assms(2) by (auto simp: ps1_region_def)
  have w: "ps1_write_frame m ?f s z l j = m j" for m s z l
    using j(1) by (intro ps1_write_frame_outside) linarith
  have "j \<noteq> ?f + 127" using j(1) by linarith
  then show ?thesis
    using j w by (cases "i = 0") (auto simp: ps1_inject_block_def Let_def ps1_frame_at_def ps1_consts mem_simps)
qed

lemma ps1_inject_block_frame:
  assumes "1 \<le> chosen ! i" and "chosen ! i < 16" and "k < 128"
  shows "ps1_inject_block chosen mcs i img (chosen ! i * 128 + k) = ps1_new_frame chosen mcs i k"
proof -
  let ?c = "chosen ! i"
  have "?c * 128 + k < ?c * 8192" using assms by linarith
  then have "ps1_inject_block chosen mcs i img (?c * 128 + k) =
     ps1_seal_frame
       (ps1_write_frame (if i = 0 then memcpy img (?c * 128) mcs 0 128 else memset img (?c * 128) 0 128) (?c * 128)
         (if i = 0 then PS1_STATE_FIRST else if i + 1 = length chosen then PS1_STATE_LAST else PS1_STATE_MIDDLE)
         (if i = 0 then of_nat (length chosen * 8192) else 0)
         (if i + 1 = length chosen then PS1_LINK_END else of_nat (chosen ! (i + 1) - 1))) (?c * 128) (?c * 128 + k)"
    by (simp add: ps1_inject_block_def Let_def ps1_frame_at_def PS1_FRAME_SIZE_def PS1_BLOCK_SIZE_def memcpy_apply)
  also have "\<dots> = ps1_new_frame chosen mcs i (0 + k)"
    unfolding ps1_new_frame_def
  proof (rule ps1_seal_cong [OF _ assms(3)], unfold add_0, rule ps1_write_frame_shift)
    fix k :: nat assume "k < 128"
    then show "(if i = 0 then memcpy img (?c * 128) mcs 0 128 else memset img (?c * 128) 0 128) (?c * 128 + k) =
        (if i = 0 then memcpy (\<lambda>_. 0) 0 mcs 0 128 else (\<lambda>_. 0)) k"
      by (simp add: mem_simps)
  qed
  finally show ?thesis by simp
qed

lemma ps1_inject_block_data:
  "k < 8192 \<Longrightarrow> ps1_inject_block chosen mcs i img (chosen ! i * 8192 + k) = mcs (128 + i * 8192 + k)"
  by (simp add: ps1_inject_block_def Let_def ps1_consts memcpy_apply)

text \<open>The card after the writing loop.\<close>

lemma ps1_inject_fold:
  assumes ch: "distinct chosen" "set chosen \<subseteq> {1..<16}" and i: "i < length chosen"
  shows "k < 128 \<Longrightarrow> fold (ps1_inject_block chosen mcs) [0..<length chosen] img (chosen ! i * 128 + k) =
           ps1_new_frame chosen mcs i k"
    and "k < 8192 \<Longrightarrow> fold (ps1_inject_block chosen mcs) [0..<length chosen] img (chosen ! i * 8192 + k) =
           mcs (128 + i * 8192 + k)"
proof -
  have r: "1 \<le> chosen ! i \<and> chosen ! i < 16" if "i < length chosen" for i
    using ch(2) nth_mem [OF that] by auto
  have f: "fold (ps1_inject_block chosen mcs) [0..<length chosen] img j = ps1_inject_block chosen mcs i img j"
    if j: "j \<in> ps1_region (chosen ! i)" for j
  proof (rule fold_in_region [where R = "\<lambda>i. ps1_region (chosen ! i)"])
    show "ps1_inject_block chosen mcs i m j = m j" if "i \<in> set [0..<length chosen]" "j \<notin> ps1_region (chosen ! i)" for i m j
      using that r [of i] by (intro ps1_inject_block_outside) auto
    show "ps1_inject_block chosen mcs i m j = ps1_inject_block chosen mcs i m' j"
      if a: "i \<in> set [0..<length chosen]" "j \<in> ps1_region (chosen ! i)" for i m m' j
    proof (cases "chosen ! i * 128 \<le> j \<and> j < chosen ! i * 128 + 128")
      case True
      then obtain k where "j = chosen ! i * 128 + k" "k < 128" using le_Suc_ex by auto
      then show ?thesis using a r [of i] by (simp add: ps1_inject_block_frame)
    next
      case False
      then have "chosen ! i * 8192 \<le> j \<and> j < chosen ! i * 8192 + 8192" using a(2) by (auto simp: ps1_region_def)
      then obtain k where "j = chosen ! i * 8192 + k" "k < 8192" using le_Suc_ex by auto
      then show ?thesis by (simp add: ps1_inject_block_data)
    qed
    show "ps1_region (chosen ! i) \<inter> ps1_region (chosen ! k) = {}"
      if "i \<in> set [0..<length chosen]" "k \<in> set [0..<length chosen]" "i \<noteq> k" for i k
      using that r [of i] r [of k] ch(1) by (intro ps1_region_disjoint) (auto simp: nth_eq_iff_index_eq)
  qed (use i j in simp_all)
  show "k < 128 \<Longrightarrow> fold (ps1_inject_block chosen mcs) [0..<length chosen] img (chosen ! i * 128 + k) =
           ps1_new_frame chosen mcs i k"
    using f [of "chosen ! i * 128 + k"] r [OF i] by (simp add: ps1_region_def ps1_inject_block_frame)
  show "k < 8192 \<Longrightarrow> fold (ps1_inject_block chosen mcs) [0..<length chosen] img (chosen ! i * 8192 + k) =
           mcs (128 + i * 8192 + k)"
    using f [of "chosen ! i * 8192 + k"] by (simp add: ps1_region_def ps1_inject_block_data)
qed

lemma ps1_inject_fold_outside:
  assumes "set chosen \<subseteq> {1..<16}" and "\<And>c. c \<in> set chosen \<Longrightarrow> j \<notin> ps1_region c"
  shows "fold (ps1_inject_block chosen mcs) [0..<length chosen] img j = img j"
proof (rule fold_outside_regions [where R = "\<lambda>i. ps1_region (chosen ! i)"])
  show "ps1_inject_block chosen mcs i m j = m j"
    if "i \<in> set [0..<length chosen]" "j \<notin> ps1_region (chosen ! i)" for i m j
  proof (rule ps1_inject_block_outside [OF _ that(2)])
    have "chosen ! i \<in> set chosen" using that(1) by simp
    then show "1 \<le> chosen ! i" using assms(1) by auto
  qed
qed (use assms(2) in simp)

text \<open>The blocks a successful \<open>inject\<close> takes: the lowest free ones.\<close>

definition ps1_chosen :: "mem \<Rightarrow> mem \<Rightarrow> nat \<Rightarrow> nat list" where
  "ps1_chosen img mcs len = take (ps1_mcs_blocks mcs len) (ps1_free_list img)"

text \<open>The form in which the card gives a save back: frame rewritten and sealed.\<close>

definition ps1_canon :: "mem \<Rightarrow> nat \<Rightarrow> mem" where
  "ps1_canon mcs n = ps1_seal_frame (ps1_write_frame mcs 0 PS1_STATE_FIRST (of_nat (n * 8192)) PS1_LINK_END) 0"

lemma ps1_inject_ok:
  assumes "sigil_ps1_inject img mcs len = (SIGIL_OK, img')"
  shows "1 \<le> ps1_mcs_blocks mcs len" and "ps1_mcs_blocks mcs len \<le> 15"
    and "len = sigil_ps1_mcs_size (ps1_mcs_blocks mcs len)"
    and "length (ps1_chosen img mcs len) = ps1_mcs_blocks mcs len"
    and "distinct (ps1_chosen img mcs len)" and "set (ps1_chosen img mcs len) \<subseteq> {1..<16}"
    and "\<And>b. b \<in> set (ps1_chosen img mcs len) \<Longrightarrow> ps1_frame_is_free img b"
    and "img' = fold (ps1_inject_block (ps1_chosen img mcs len) mcs) [0..<length (ps1_chosen img mcs len)] img"
    and "\<And>b. 1 \<le> b \<Longrightarrow> b < 16 \<Longrightarrow> \<not> ps1_named_as img b mcs"
proof -
  have s: "set (ps1_chosen img mcs len) \<subseteq> set (ps1_free_list img)"
    by (simp add: ps1_chosen_def set_take_subset)
  show "distinct (ps1_chosen img mcs len)" by (simp add: ps1_chosen_def ps1_free_list_def del: upt_rec_numeral)
  show "set (ps1_chosen img mcs len) \<subseteq> {1..<16}"
    using s by (auto simp: ps1_free_list_def simp del: upt_rec_numeral)
  show "ps1_frame_is_free img b" if "b \<in> set (ps1_chosen img mcs len)" for b
    using s that by (auto simp: ps1_free_list_def)
  have ok: "1 \<le> ps1_mcs_blocks mcs len \<and> length (ps1_chosen img mcs len) = ps1_mcs_blocks mcs len \<and>
      img' = fold (ps1_inject_block (ps1_chosen img mcs len) mcs) [0..<length (ps1_chosen img mcs len)] img \<and>
      (\<forall>b. 1 \<le> b \<and> b < 16 \<longrightarrow> \<not> ps1_named_as img b mcs)"
    by (cases rule: ps1_inject_cases [of mcs len img]) (use assms in \<open>simp_all add: ps1_chosen_def min_def\<close>)
  then show "1 \<le> ps1_mcs_blocks mcs len" "length (ps1_chosen img mcs len) = ps1_mcs_blocks mcs len"
    "img' = fold (ps1_inject_block (ps1_chosen img mcs len) mcs) [0..<length (ps1_chosen img mcs len)] img"
    by blast+
  then show "ps1_mcs_blocks mcs len \<le> 15" "len = sigil_ps1_mcs_size (ps1_mcs_blocks mcs len)"
    using ps1_mcs_blocks_iff [of mcs len "ps1_mcs_blocks mcs len"] by simp_all
  show "\<not> ps1_named_as img b mcs" if "1 \<le> b" "b < 16" for b using ok that by blast
qed

lemma ps1_inject_same:
  assumes "sigil_ps1_inject img mcs len = (SIGIL_OK, img')"
    and "1 \<le> b" and "b < 16" and "b \<notin> set (ps1_chosen img mcs len)"
  shows "ps1_same img img' b"
proof (rule ps1_sameI)
  fix j assume j: "j \<in> ps1_region b"
  note ok = ps1_inject_ok [OF assms(1)]
  have "j \<notin> ps1_region c" if c: "c \<in> set (ps1_chosen img mcs len)" for c
    using ps1_region_disjoint [of b c] assms(2-4) ok(6) c j by (metis atLeastLessThan_iff disjoint_iff subsetD)
  then show "img j = img' j" using ps1_inject_fold_outside [OF ok(6)] by (subst ok(8)) simp
qed

lemma ps1_new_frame_reads:
  "sigil_read_le32 (ps1_new_frame ch mcs i) 0 =
     (if i = 0 then PS1_STATE_FIRST else if i + 1 = length ch then PS1_STATE_LAST else PS1_STATE_MIDDLE)"
  "sigil_read_le16 (ps1_new_frame ch mcs i) 8 =
     (if i + 1 = length ch then PS1_LINK_END else of_nat (ch ! (i + 1) - 1))"
proof -
  let ?m = "if i = 0 then memcpy (\<lambda>_. 0) 0 mcs 0 128 else (\<lambda>_. 0)"
  let ?s = "if i = 0 then PS1_STATE_FIRST else if i + 1 = length ch then PS1_STATE_LAST else PS1_STATE_MIDDLE"
  let ?z = "if i = 0 then of_nat (length ch * 8192) else 0"
  let ?l = "if i + 1 = length ch then PS1_LINK_END else of_nat (ch ! (i + 1) - 1)"
  note r = ps1_write_frame_reads [of ?m 0 ?s ?z ?l]
  have "sigil_read_le32 (ps1_new_frame ch mcs i) 0 = sigil_read_le32 (ps1_write_frame ?m 0 ?s ?z ?l) 0"
    unfolding ps1_new_frame_def by (rule read_le32_cong) (simp add: ps1_seal_apply)
  with r(1) show "sigil_read_le32 (ps1_new_frame ch mcs i) 0 = ?s" by simp
  have "sigil_read_le16 (ps1_new_frame ch mcs i) 8 = sigil_read_le16 (ps1_write_frame ?m 0 ?s ?z ?l) 8"
    unfolding ps1_new_frame_def by (rule read_le16_cong) (simp_all add: ps1_seal_apply)
  with r(3) show "sigil_read_le16 (ps1_new_frame ch mcs i) 8 = ?l" by simp
qed

lemma ps1_inject_new_frame:
  assumes "sigil_ps1_inject img mcs len = (SIGIL_OK, img')" and "i < length (ps1_chosen img mcs len)"
  shows "ps1_frame_state img' (ps1_chosen img mcs len ! i) =
     (if i = 0 then PS1_STATE_FIRST
      else if i + 1 = length (ps1_chosen img mcs len) then PS1_STATE_LAST else PS1_STATE_MIDDLE)"
    and "ps1_frame_link img' (ps1_chosen img mcs len ! i) =
     (if i + 1 = length (ps1_chosen img mcs len) then PS1_LINK_END
      else of_nat (ps1_chosen img mcs len ! (i + 1) - 1))"
proof -
  let ?ch = "ps1_chosen img mcs len"
  note ok = ps1_inject_ok [OF assms(1)]
  have f: "k < 128 \<Longrightarrow> img' (?ch ! i * 128 + k) = ps1_new_frame ?ch mcs i k" for k
    using ps1_inject_fold(1) [OF ok(5,6) assms(2)] by (subst ok(8)) simp
  have "ps1_frame_state img' (?ch ! i) = sigil_read_le32 (ps1_new_frame ?ch mcs i) 0"
    unfolding ps1_frame_state_def ps1_frame_at_def PS1_FRAME_SIZE_def by (rule read_le32_cong) (simp add: f)
  then show "ps1_frame_state img' (?ch ! i) =
     (if i = 0 then PS1_STATE_FIRST else if i + 1 = length ?ch then PS1_STATE_LAST else PS1_STATE_MIDDLE)"
    by (simp add: ps1_new_frame_reads)
  have "ps1_frame_link img' (?ch ! i) = sigil_read_le16 (ps1_new_frame ?ch mcs i) 8"
    unfolding ps1_frame_link_def ps1_frame_at_def PS1_FRAME_SIZE_def
    using f [of 8] f [of 9] by (intro read_le16_cong) (simp_all add: ac_simps)
  then show "ps1_frame_link img' (?ch ! i) =
     (if i + 1 = length ?ch then PS1_LINK_END else of_nat (?ch ! (i + 1) - 1))"
    by (simp only: ps1_new_frame_reads)
qed

text \<open>The new save's chain is the blocks chosen, in order.\<close>

lemma ps1_inject_walk:
  assumes "sigil_ps1_inject img mcs len = (SIGIL_OK, img')"
  shows "ps1_walk_chain img' (hd (ps1_chosen img mcs len)) = ps1_chosen img mcs len"
    and "ps1_whole img' (hd (ps1_chosen img mcs len))"
proof -
  let ?ch = "ps1_chosen img mcs len"
  note ok = ps1_inject_ok [OF assms]
  note fr = ps1_inject_new_frame [OF assms]
  have ne: "?ch \<noteq> []" using ok(1,4) by auto
  then have hd: "hd ?ch = ?ch ! 0" "0 < length ?ch" by (simp_all add: hd_conv_nth)
  have rng: "1 \<le> ?ch ! i \<and> ?ch ! i < 16" if "i < length ?ch" for i using ok(6) nth_mem [OF that] by auto
  show w: "ps1_walk_chain img' (hd ?ch) = ?ch"
  proof (rule ps1.walk_written [OF ne ok(5)])
    show "hd ?ch < 16" using rng hd by simp
    fix i assume i: "i < length ?ch"
    show "ps1_step img' (?ch ! i) = (if Suc i = length ?ch then End else Next (?ch ! Suc i))"
    proof (cases "Suc i = length ?ch")
      case True
      then show ?thesis using fr(2) [OF i] by (simp add: ps1_step_def)
    next
      case False
      then have i': "Suc i < length ?ch" using i by simp
      let ?c = "?ch ! Suc i"
      have "unat (of_nat (?c - 1) :: u16) = ?c - 1"
        by (rule unat_of_nat16) (use rng [OF i'] in linarith)
      moreover have "(of_nat (?c - 1) :: u16) \<noteq> PS1_LINK_END"
      proof
        assume "(of_nat (?c - 1) :: u16) = PS1_LINK_END"
        from arg_cong [OF this, of unat] calculation have "?c - 1 = 65535"
          by (simp add: PS1_LINK_END_def)
        with rng [OF i'] show False by linarith
      qed
      moreover have "\<not> 15 \<le> ?c - 1" using rng [OF i'] by linarith
      ultimately show ?thesis
        using False fr(2) [OF i] fr(1) [OF i'] rng [OF i']
        by (simp add: ps1_step_def Let_def PS1_DATA_BLOCKS_def)
    qed
  qed
  show "ps1_whole img' (hd ?ch)"
    using w ne rng [of 0] fr(1) [of 0] hd by (simp add: ps1_whole_def)
qed


lemma ps1_inject_save:
  assumes "sigil_ps1_inject img mcs len = (SIGIL_OK, img')"
  shows "ps1_save img' (hd (ps1_chosen img mcs len)) =
    Some (bytes_at (ps1_canon mcs (ps1_mcs_blocks mcs len)) 0 len)"
proof -
  let ?ch = "ps1_chosen img mcs len" and ?n = "ps1_mcs_blocks mcs len"
  note ok = ps1_inject_ok [OF assms] and w = ps1_inject_walk [OF assms]
  have ne: "?ch \<noteq> []" using ok(1,4) by auto
  then have hd: "hd ?ch = ?ch ! 0" "0 < length ?ch" by (simp_all add: hd_conv_nth)
  have f: "k < 128 \<Longrightarrow> img' (hd ?ch * 128 + k) = ps1_new_frame ?ch mcs 0 k" for k
    using ps1_inject_fold(1) [OF ok(5,6) hd(2)] by (subst ok(8)) (simp add: hd(1))
  have d: "i < ?n \<Longrightarrow> k < 8192 \<Longrightarrow> img' (?ch ! i * 8192 + k) = mcs (128 + i * 8192 + k)" for i k
    using ps1_inject_fold(2) [OF ok(5,6), of i k] ok(4) by (subst ok(8)) simp
  have byte: "ps1_mcs_byte img' (hd ?ch) j = ps1_canon mcs ?n j" if j: "j < sigil_ps1_mcs_size ?n" for j
  proof (cases "j < 128")
    case True
    have "ps1_seal_frame ((memcpy (\<lambda>_. 0) 0 img' (hd ?ch * 128) 128)(8 := 0xFF, 9 := 0xFF)) 0 (0 + j) =
        ps1_seal_frame (ps1_write_frame mcs 0 PS1_STATE_FIRST (of_nat (?n * 8192)) PS1_LINK_END) 0 (0 + j)"
    proof (cases "j = 127")
      case True
      have "fold (\<lambda>i x. x XOR ((memcpy (\<lambda>_. 0) 0 img' (hd ?ch * 128) 128)(8 := 0xFF, 9 := 0xFF)) (0 + i)) [0..<127] 0 =
          fold (\<lambda>i x. x XOR ps1_write_frame mcs 0 PS1_STATE_FIRST (of_nat (?n * 8192)) PS1_LINK_END (0 + i)) [0..<127] 0"
      proof (rule fold_xor_cong)
        fix i assume "i \<in> set [0..<127::nat]"
        then show "((memcpy (\<lambda>_. 0) 0 img' (hd ?ch * 128) 128)(8 := 0xFF, 9 := 0xFF)) (0 + i) =
            ps1_write_frame mcs 0 PS1_STATE_FIRST (of_nat (?n * 8192)) PS1_LINK_END (0 + i)"
          using f [of i] by (auto simp: memcpy_apply ps1_new_frame_def ps1_seal_apply ps1_write_frame_def Let_def
              mem_simps ok(4) PS1_LINK_END_def)
      qed
      then show ?thesis using True by (simp add: ps1_seal_apply)
    next
      case False
      then show ?thesis
        using f [of j] \<open>j < 128\<close> by (auto simp: memcpy_apply ps1_new_frame_def ps1_seal_apply ps1_write_frame_def Let_def
              mem_simps ok(4) PS1_LINK_END_def)
    qed
    then show ?thesis using True by (simp add: ps1_mcs_byte_def ps1_mcs_frame_def ps1_canon_def)
  next
    case False
    let ?i = "(j - 128) div 8192" let ?k = "(j - 128) mod 8192"
    have "?i < ?n" using False j by (simp add: sigil_ps1_mcs_size_def ps1_consts less_mult_imp_div_less)
    moreover have "128 + ?i * 8192 + ?k = j"
      using False div_mult_mod_eq [of "j - 128" 8192] by linarith
    ultimately have "img' (?ch ! ?i * 8192 + ?k) = mcs j" using d [of ?i ?k] by simp
    then show ?thesis
      using False w(1) by (simp add: ps1_mcs_byte_def ps1_canon_def ps1_seal_apply ps1_write_frame_outside)
  qed
  have "length (ps1_walk_chain img' (hd ?ch)) = ?n" using w(1) ok(4) by simp
  then show ?thesis
    using w(2) byte ok(3) by (simp add: ps1_save_def bytes_at_def)
qed

text \<open>The saves already on the card stay as they are.\<close>

lemma ps1_walk_not_free:
  assumes "ps1_whole img b" and "x \<in> set (ps1_walk_chain img b)"
  shows "\<not> ps1_frame_is_free img x"
proof -
  have b: "b < 16" "ps1_frame_state img b = PS1_STATE_FIRST" using assms(1) by (simp_all add: ps1_whole_def)
  then have "ps1_frame_state img x \<in> {PS1_STATE_FIRST, PS1_STATE_MIDDLE, PS1_STATE_LAST}"
    using ps1_walk_states [OF b(1) assms(2)] by (cases "x = b") auto
  with ps1_free_state show ?thesis by blast
qed

lemma ps1_whole_in_range: "ps1_whole img b \<Longrightarrow> x \<in> set (ps1_walk_chain img b) \<Longrightarrow> 1 \<le> x \<and> x < 16"
  by (rule ps1_walk_in_range [of b]) (simp_all add: ps1_whole_def)

lemma ps1_inject_keeps:
  assumes "sigil_ps1_inject img mcs len = (SIGIL_OK, img')" and "ps1_whole img b"
  shows "ps1_whole img' b" and "ps1_walk_chain img' b = ps1_walk_chain img b"
    and "ps1_entry img' b = ps1_entry img b" and "ps1_save img' b = ps1_save img b"
    and "b \<noteq> hd (ps1_chosen img mcs len)"
    and "set (ps1_walk_chain img b) \<inter> set (ps1_chosen img mcs len) = {}"
proof -
  note ok = ps1_inject_ok [OF assms(1)]
  show d: "set (ps1_walk_chain img b) \<inter> set (ps1_chosen img mcs len) = {}"
    using ok(7) ps1_walk_not_free [OF assms(2)] by blast
  have same: "ps1_same img img' x" if "x \<in> set (ps1_walk_chain img b)" for x
    using that d ps1_whole_in_range [OF assms(2) that] by (intro ps1_inject_same [OF assms(1)]) auto
  show "ps1_whole img' b" "ps1_walk_chain img' b = ps1_walk_chain img b"
    "ps1_entry img' b = ps1_entry img b" "ps1_save img' b = ps1_save img b"
    using ps1_save_cong [OF assms(2) same] by simp_all
  have "b \<in> set (ps1_walk_chain img b)" using assms(2) ps1.start_in_walk by (simp add: ps1_whole_def)
  moreover have "hd (ps1_chosen img mcs len) \<in> set (ps1_chosen img mcs len)"
    using ok(1,4) by (intro hd_in_set) auto
  ultimately show "b \<noteq> hd (ps1_chosen img mcs len)" using d by blast
qed

text \<open>A save the injection makes whole by closing its broken chain runs into the new save.\<close>

lemma ps1_inject_new_whole:
  assumes "sigil_ps1_inject img mcs len = (SIGIL_OK, img')" and "ps1_whole img' a"
    and "\<not> ps1_whole img a" and "a \<noteq> hd (ps1_chosen img mcs len)"
  shows "set (ps1_walk_chain img' a) \<inter> set (ps1_chosen img mcs len) \<noteq> {}"
proof
  assume d: "set (ps1_walk_chain img' a) \<inter> set (ps1_chosen img mcs len) = {}"
  have "ps1_same img' img x" if "x \<in> set (ps1_walk_chain img' a)" for x
  proof (rule ps1_same_sym, rule ps1_inject_same [OF assms(1)])
    show "1 \<le> x" "x < 16" using ps1_whole_in_range [OF assms(2) that] by simp_all
  qed (use that d in blast)
  from ps1_save_cong(1) [OF assms(2) this] assms(3) show False by simp
qed

lemma ps1_inject_other_disjoint:
  assumes "sigil_ps1_inject img mcs len = (SIGIL_OK, img')" and "ps1_whole img b" and "ps1_whole img' a"
    and "\<not> ps1_whole img a"
  shows "set (ps1_walk_chain img' a) \<inter> set (ps1_walk_chain img' b) = {}"
proof (rule ccontr)
  let ?ch = "ps1_chosen img mcs len"
  note ok = ps1_inject_ok [OF assms(1)] and w = ps1_inject_walk [OF assms(1)]
  note kb = ps1_inject_keeps [OF assms(1,2)]
  assume "set (ps1_walk_chain img' a) \<inter> set (ps1_walk_chain img' b) \<noteq> {}"
  then obtain x where x: "x \<in> set (ps1_walk_chain img' a)" "x \<in> set (ps1_walk_chain img' b)" by blast
  have r: "a < 16" "b < 16" "hd ?ch < 16" using assms(2,3) w(2) by (simp_all add: ps1_whole_def)
  have xc: "x \<notin> set ?ch" using x(2) kb(2,6) by auto
  then have "a \<noteq> hd ?ch" using x(1) w(1) by auto
  from ps1_inject_new_whole [OF assms(1,3,4) this]
  obtain y where y: "y \<in> set (ps1_walk_chain img' a)" "y \<in> set ?ch" by blast
  from ps1.walk_meet [OF r(1,2) x] obtain as bs cs
    where a: "ps1_walk_chain img' a = as @ x # cs" and b: "ps1_walk_chain img' b = bs @ x # cs" by blast
  have "y \<notin> set (x # cs)" using b y(2) kb(2,6) by auto
  then have "y \<in> set as" using y(1) a by auto
  then obtain us vs where as: "as = us @ y # vs" by (meson split_list)
  from ps1.walk_meet [OF r(1,3) y(1)] y(2) w(1) obtain ps qs rs
    where a': "ps1_walk_chain img' a = ps @ y # rs" and c: "?ch = qs @ y # rs" by auto
  have "linked (ps1_step img') (ps1_walk_chain img' a)" by (rule ps1.walk_linked [OF r(1)]) (simp add: a)
  then have "linked (ps1_step img') (ps @ y # rs)" and "linked (ps1_step img') (us @ y # (vs @ x # cs))"
    using a a' as by simp_all
  then have "rs = vs @ x # cs" by (rule linked_meet)
  with c xc show False by simp
qed

text \<open>A card is clean when the listing counts no save as corrupt.\<close>

definition ps1_clean :: "mem \<Rightarrow> bool" where
  "ps1_clean img = list_all (\<lambda>b. ps1_frame_state img b = PS1_STATE_FIRST \<longrightarrow> ps1_live img b) [1..<16]"

lemma ps1_clean_iff:
  "ps1_clean img \<longleftrightarrow> (\<forall>b. 1 \<le> b \<longrightarrow> b < 16 \<longrightarrow> ps1_frame_state img b = PS1_STATE_FIRST \<longrightarrow> ps1_live img b)"
  by (auto simp: ps1_clean_def list_all_iff simp del: upt_rec_numeral)

lemma ps1_live_whole: "ps1_live img b \<Longrightarrow> ps1_whole img b"
  by (simp add: ps1_live_def)

lemma ps1_inject_live_old:
  assumes "sigil_ps1_inject img mcs len = (SIGIL_OK, img')" and "ps1_whole img b"
  shows "ps1_live img' b \<longleftrightarrow> ps1_live img b"
proof -
  note k = ps1_inject_keeps [OF assms(1)]
  note w = ps1_inject_walk [OF assms(1)]
  have "set (ps1_walk_chain img' a) \<inter> set (ps1_walk_chain img' b) = {}"
    if a: "ps1_whole img' a" "\<not> ps1_whole img a" for a
    by (rule ps1_inject_other_disjoint [OF assms a])
  then show ?thesis
    unfolding ps1_live_iff using k(1,2) assms(2) by metis
qed

lemma ps1_inject_live_clean:
  assumes inj: "sigil_ps1_inject img mcs len = (SIGIL_OK, img')" and "ps1_clean img"
  shows "ps1_live img' b \<longleftrightarrow> ps1_live img b \<or> b = hd (ps1_chosen img mcs len)"
    and "ps1_whole img' b \<longleftrightarrow> ps1_live img' b" and "ps1_clean img'"
proof -
  let ?ch = "ps1_chosen img mcs len"
  note ok = ps1_inject_ok [OF inj] and w = ps1_inject_walk [OF inj] and k = ps1_inject_keeps [OF inj]
  have first: "ps1_whole img a \<or> a = hd ?ch"
    if a: "1 \<le> a" "a < 16" "ps1_frame_state img' a = PS1_STATE_FIRST" for a
  proof (cases "a \<in> set ?ch")
    case True
    then obtain i where i: "i < length ?ch" "a = ?ch ! i" by (auto simp: in_set_conv_nth)
    then have "i = 0" using ps1_inject_new_frame(1) [OF inj i(1)] a(3)
      by (cases "i = 0") (auto simp: ps1_states split: if_splits)
    then show ?thesis using i by (simp add: hd_conv_nth)
  next
    case False
    from ps1_same_state [OF ps1_inject_same [OF inj a(1,2) False]] a
    have "ps1_live img a" using assms(2) by (simp add: ps1_clean_iff)
    then show ?thesis by (simp add: ps1_live_whole)
  qed
  then have whole: "ps1_whole img' a \<longleftrightarrow> ps1_whole img a \<or> a = hd ?ch" for a
    using k(1) w(2) by (auto simp: ps1_whole_def)
  have wl: "ps1_whole img a \<longleftrightarrow> ps1_live img a" for a
    using assms(2) by (auto simp: ps1_clean_iff ps1_live_whole) (simp add: ps1_whole_def)
  have new: "ps1_live img' (hd ?ch)"
    unfolding ps1_live_iff
  proof (intro conjI allI impI)
    fix a assume "ps1_whole img' a" "a \<noteq> hd ?ch"
    then have "ps1_whole img a" using whole by blast
    then show "set (ps1_walk_chain img' a) \<inter> set (ps1_walk_chain img' (hd ?ch)) = {}"
      using k(2,6) w(1) by simp
  qed (rule w(2))
  show live: "ps1_live img' b \<longleftrightarrow> ps1_live img b \<or> b = hd ?ch" for b
    using new ps1_inject_live_old [OF inj, of b] wl whole ps1_live_whole by metis
  show "ps1_whole img' b \<longleftrightarrow> ps1_live img' b" using live whole wl by simp
  show "ps1_clean img'"
    unfolding ps1_clean_iff using first live wl by blast
qed

section \<open>Deleting a save\<close>

lemma ps1_delete_cases:
  "sigil_ps1_delete img b =
     (if ps1_whole img b
      then (SIGIL_OK, fold (ps1_delete_block (ps1_walk_chain img b)) [0..<length (ps1_walk_chain img b)] img)
      else (SIGIL_ERR_INVALID_ARG, img))"
  by (auto simp: sigil_ps1_delete_def Let_def ps1_whole_def PS1_DATA_BLOCKS_def)

definition ps1_deleted_state :: "nat \<Rightarrow> nat \<Rightarrow> u32" where
  "ps1_deleted_state i n =
     (if i = 0 then PS1_STATE_DELETED_FIRST else if i + 1 = n then PS1_STATE_DELETED_LAST
      else PS1_STATE_DELETED_MIDDLE)"

lemma ps1_delete_block_apply:
  "ps1_delete_block order i img j =
     (if j = order ! i * 128 + 127
      then fold (\<lambda>k x. x XOR sigil_write_le32 img (order ! i * 128) (ps1_deleted_state i (length order)) (order ! i * 128 + k)) [0..<127] 0
      else sigil_write_le32 img (order ! i * 128) (ps1_deleted_state i (length order)) j)"
  by (simp add: ps1_delete_block_def Let_def ps1_deleted_state_def ps1_frame_at_def PS1_FRAME_SIZE_def ps1_seal_apply)

lemma ps1_delete_block_outside: "j \<notin> {order ! i * 128..<order ! i * 128 + 128} \<Longrightarrow> ps1_delete_block order i img j = img j"
  by (auto simp: ps1_delete_block_apply mem_simps)

lemma ps1_delete_fold:
  assumes "distinct order" and "i < length order" and "k < 128"
  shows "fold (ps1_delete_block order) [0..<length order] img (order ! i * 128 + k) =
    ps1_delete_block order i img (order ! i * 128 + k)"
proof (rule fold_in_region [where R = "\<lambda>i. {order ! i * 128..<order ! i * 128 + 128}"])
  show "ps1_delete_block order i m j = ps1_delete_block order i m' j"
    if a: "j \<in> {order ! i * 128..<order ! i * 128 + 128}"
      "\<And>k. k \<in> {order ! i * 128..<order ! i * 128 + 128} \<Longrightarrow> m k = m' k" for i m m' j
  proof -
    have w: "sigil_write_le32 m (order ! i * 128) s l = sigil_write_le32 m' (order ! i * 128) s l"
      if "l \<in> {order ! i * 128..<order ! i * 128 + 128}" for s l
      using a(2) that by (simp add: mem_simps)
    show ?thesis
      unfolding ps1_delete_block_apply using a(1) w by (auto intro!: fold_xor_cong)
  qed
  show "{order ! i * 128..<order ! i * 128 + 128} \<inter> {order ! k * 128..<order ! k * 128 + 128} = {}"
    if "i \<in> set [0..<length order]" "k \<in> set [0..<length order]" "i \<noteq> k" for i k
  proof -
    have "order ! i \<noteq> order ! k" using that assms(1) by (simp add: nth_eq_iff_index_eq)
    then have "order ! i * 128 + 128 \<le> order ! k * 128 \<or> order ! k * 128 + 128 \<le> order ! i * 128" by linarith
    then show ?thesis by auto
  qed
qed (use assms ps1_delete_block_outside in simp_all)

lemma ps1_delete_outside:
  assumes "\<And>x. x \<in> set order \<Longrightarrow> j \<notin> {x * 128..<x * 128 + 128}"
  shows "fold (ps1_delete_block order) [0..<length order] img j = img j"
  by (rule fold_outside_regions [where R = "\<lambda>i. {order ! i * 128..<order ! i * 128 + 128}"])
     (use assms in \<open>auto intro: ps1_delete_block_outside\<close>)

lemma ps1_delete_ok:
  assumes "sigil_ps1_delete img b = (SIGIL_OK, img')"
  shows "ps1_whole img b"
    and "\<And>x. 1 \<le> x \<Longrightarrow> x < 16 \<Longrightarrow> x \<notin> set (ps1_walk_chain img b) \<Longrightarrow> ps1_same img img' x"
    and "\<And>i. i < length (ps1_walk_chain img b) \<Longrightarrow>
           ps1_frame_state img' (ps1_walk_chain img b ! i) = ps1_deleted_state i (length (ps1_walk_chain img b))"
proof -
  let ?o = "ps1_walk_chain img b"
  show w: "ps1_whole img b" using assms by (simp add: ps1_delete_cases split: if_splits)
  then have img': "img' = fold (ps1_delete_block ?o) [0..<length ?o] img"
    using assms by (simp add: ps1_delete_cases)
  have dist: "distinct ?o" using w ps1.walk_distinct by (simp add: ps1_whole_def)
  have rng: "1 \<le> x \<and> x < 16" if "x \<in> set ?o" for x using ps1_whole_in_range [OF w that] .
  show "ps1_same img img' x" if x: "1 \<le> x" "x < 16" "x \<notin> set ?o" for x
  proof (rule ps1_sameI)
    fix j assume j: "j \<in> ps1_region x"
    have "j \<notin> {y * 128..<y * 128 + 128}" if y: "y \<in> set ?o" for y
    proof -
      have "x \<noteq> y" using x(3) y by blast
      from ps1_region_disjoint [OF x(1,2) _ _ this] rng [OF y] have "ps1_region x \<inter> ps1_region y = {}" by simp
      moreover have "{y * 128..<y * 128 + 128} \<subseteq> ps1_region y" by (auto simp: ps1_region_def)
      ultimately show ?thesis using j by blast
    qed
    then show "img j = img' j" unfolding img' by (subst ps1_delete_outside) simp_all
  qed
  show "ps1_frame_state img' (?o ! i) = ps1_deleted_state i (length ?o)" if i: "i < length ?o" for i
  proof -
    have "ps1_frame_state img' (?o ! i) =
        sigil_read_le32 (sigil_write_le32 img (?o ! i * 128) (ps1_deleted_state i (length ?o))) (?o ! i * 128)"
      unfolding ps1_frame_state_def ps1_frame_at_def PS1_FRAME_SIZE_def img'
      by (rule read_le32_cong) (simp add: ps1_delete_fold [OF dist i] ps1_delete_block_apply)
    then show ?thesis by simp
  qed
qed

lemma ps1_deleted_free: "ps1_deleted_state i n \<notin> {PS1_STATE_FIRST, PS1_STATE_MIDDLE, PS1_STATE_LAST}"
  "PS1_STATE_FREE \<le> ps1_deleted_state i n \<and> ps1_deleted_state i n \<le> PS1_STATE_DELETED_LAST"
  by (auto simp: ps1_deleted_state_def ps1_states)

lemma ps1_delete_state:
  assumes "sigil_ps1_delete img b = (SIGIL_OK, img')" and "x \<in> set (ps1_walk_chain img b)"
  shows "ps1_frame_is_free img' x" and "ps1_frame_state img' x \<notin> {PS1_STATE_FIRST, PS1_STATE_MIDDLE, PS1_STATE_LAST}"
proof -
  from assms(2) obtain i where "i < length (ps1_walk_chain img b)" "x = ps1_walk_chain img b ! i"
    by (auto simp: in_set_conv_nth)
  with ps1_delete_ok(3) [OF assms(1)]
  have s: "ps1_frame_state img' x = ps1_deleted_state i (length (ps1_walk_chain img b))" by simp
  show "ps1_frame_is_free img' x" using s ps1_deleted_free(2) by (simp add: ps1_frame_is_free_def)
  show "ps1_frame_state img' x \<notin> {PS1_STATE_FIRST, PS1_STATE_MIDDLE, PS1_STATE_LAST}"
    using s ps1_deleted_free(1) by metis
qed

lemma ps1_delete_keeps:
  assumes "sigil_ps1_delete img b = (SIGIL_OK, img')" and "ps1_whole img a"
    and "set (ps1_walk_chain img a) \<inter> set (ps1_walk_chain img b) = {}"
  shows "ps1_whole img' a" and "ps1_walk_chain img' a = ps1_walk_chain img a"
    and "ps1_entry img' a = ps1_entry img a" and "ps1_save img' a = ps1_save img a"
proof -
  have "ps1_same img img' x" if "x \<in> set (ps1_walk_chain img a)" for x
    using that assms(3) ps1_whole_in_range [OF assms(2) that] by (intro ps1_delete_ok(2) [OF assms(1)]) auto
  from ps1_save_cong [OF assms(2) this]
  show "ps1_whole img' a" "ps1_walk_chain img' a = ps1_walk_chain img a"
    "ps1_entry img' a = ps1_entry img a" "ps1_save img' a = ps1_save img a" by simp_all
qed

lemma ps1_delete_whole:
  assumes "sigil_ps1_delete img b = (SIGIL_OK, img')"
  shows "ps1_whole img' a \<longleftrightarrow> ps1_whole img a \<and> set (ps1_walk_chain img a) \<inter> set (ps1_walk_chain img b) = {}"
proof
  assume a: "ps1_whole img' a"
  have d: "x \<notin> set (ps1_walk_chain img b)" if x: "x \<in> set (ps1_walk_chain img' a)" for x
  proof
    assume "x \<in> set (ps1_walk_chain img b)"
    from ps1_delete_state(1) [OF assms this] ps1_walk_not_free [OF a x] show False by simp
  qed
  have "ps1_same img' img x" if x: "x \<in> set (ps1_walk_chain img' a)" for x
    using d [OF x] ps1_whole_in_range [OF a x] by (simp add: ps1_same_sym [OF ps1_delete_ok(2) [OF assms]])
  from ps1_save_cong(1,2) [OF a this]
  have s: "ps1_whole img a" "ps1_walk_chain img a = ps1_walk_chain img' a" by simp_all
  show "ps1_whole img a \<and> set (ps1_walk_chain img a) \<inter> set (ps1_walk_chain img b) = {}"
    unfolding s(2) using s(1) d by blast
qed (use ps1_delete_keeps [OF assms] in blast)

lemma ps1_delete_live:
  assumes del: "sigil_ps1_delete img b = (SIGIL_OK, img')" and b: "ps1_live img b"
  shows "ps1_whole img' a \<longleftrightarrow> ps1_whole img a \<and> a \<noteq> b"
    and "ps1_live img' a \<longleftrightarrow> ps1_live img a \<and> a \<noteq> b"
proof -
  have ne: "set (ps1_walk_chain img b) \<noteq> {}" using ps1_delete_ok(1) [OF del] by (simp add: ps1_whole_def)
  have dis: "set (ps1_walk_chain img c) \<inter> set (ps1_walk_chain img b) = {} \<longleftrightarrow> c \<noteq> b" if "ps1_whole img c" for c
    using b ne that by (auto simp: ps1_live_iff)
  show whole: "ps1_whole img' a \<longleftrightarrow> ps1_whole img a \<and> a \<noteq> b" for a
    using ps1_delete_whole [OF del] dis by blast
  have walk: "ps1_walk_chain img' c = ps1_walk_chain img c" if "ps1_whole img c" "c \<noteq> b" for c
    using ps1_delete_keeps(2) [OF del that(1)] dis [OF that(1)] that(2) by blast
  show "ps1_live img' a \<longleftrightarrow> ps1_live img a \<and> a \<noteq> b"
  proof
    assume l: "ps1_live img' a"
    then have a: "ps1_whole img a" "a \<noteq> b" using whole ps1_live_whole by blast+
    have "set (ps1_walk_chain img c) \<inter> set (ps1_walk_chain img a) = {}" if c: "ps1_whole img c" "c \<noteq> a" for c
    proof (cases "c = b")
      case True
      then show ?thesis using dis [OF a(1)] a(2) by blast
    next
      case False
      then show ?thesis using l c whole walk [OF c(1) False] walk [OF a] unfolding ps1_live_iff by metis
    qed
    then show "ps1_live img a \<and> a \<noteq> b" using a by (simp add: ps1_live_iff)
  next
    assume l: "ps1_live img a \<and> a \<noteq> b"
    then have a: "ps1_whole img a" "a \<noteq> b" using ps1_live_whole by blast+
    have "set (ps1_walk_chain img' c) \<inter> set (ps1_walk_chain img' a) = {}" if "ps1_whole img' c" "c \<noteq> a" for c
      using l that whole walk [of c] walk [OF a] by (simp add: ps1_live_iff)
    then show "ps1_live img' a" using whole a by (simp add: ps1_live_iff)
  qed
qed

lemma ps1_delete_clean:
  assumes del: "sigil_ps1_delete img b = (SIGIL_OK, img')" and "ps1_clean img"
  shows "ps1_clean img'"
  unfolding ps1_clean_iff
proof (intro allI impI)
  have w: "ps1_whole img b" by (rule ps1_delete_ok(1) [OF del])
  then have b: "ps1_live img b" using assms(2) by (simp add: ps1_clean_iff ps1_whole_def)
  fix a assume a: "1 \<le> a" "a < 16" "ps1_frame_state img' a = PS1_STATE_FIRST"
  then have "a \<notin> set (ps1_walk_chain img b)" using ps1_delete_state(2) [OF del] by blast
  then have "ps1_frame_state img a = PS1_STATE_FIRST" "a \<noteq> b"
    using ps1_same_state [OF ps1_delete_ok(2) [OF del a(1,2)]] a(3) ps1.start_in_walk [of b img] w
    by (auto simp: ps1_whole_def)
  with a assms(2) have "ps1_live img a" by (simp add: ps1_clean_iff)
  with \<open>a \<noteq> b\<close> ps1_delete_live(2) [OF del b] show "ps1_live img' a" by simp
qed

section \<open>Free blocks\<close>

lemma ps1_delete_free:
  assumes del: "sigil_ps1_delete img b = (SIGIL_OK, img')" and a: "1 \<le> a" "a < 16"
  shows "ps1_frame_is_free img' a \<longleftrightarrow> ps1_frame_is_free img a \<or> a \<in> set (ps1_walk_chain img b)"
proof (cases "a \<in> set (ps1_walk_chain img b)")
  case True
  then show ?thesis using ps1_delete_state(1) [OF del] by blast
next
  case False
  then show ?thesis using ps1_same_state [OF ps1_delete_ok(2) [OF del a]] by (simp add: ps1_frame_is_free_def)
qed

lemma ps1_free_count: "length (ps1_free_list img) = card {b \<in> {1..<16}. ps1_frame_is_free img b}"
proof -
  have "distinct (ps1_free_list img)" "set (ps1_free_list img) = {b \<in> {1..<16}. ps1_frame_is_free img b}"
    by (auto simp: ps1_free_list_def simp del: upt_rec_numeral)
  then show ?thesis using distinct_card by metis
qed

lemma ps1_delete_free_count:
  assumes del: "sigil_ps1_delete img b = (SIGIL_OK, img')"
  shows "length (ps1_free_list img') = length (ps1_free_list img) + length (ps1_walk_chain img b)"
proof -
  have w: "ps1_whole img b" by (rule ps1_delete_ok(1) [OF del])
  have "{a \<in> {1..<16}. ps1_frame_is_free img' a} =
      {a \<in> {1..<16}. ps1_frame_is_free img a} \<union> set (ps1_walk_chain img b)"
    using ps1_delete_free [OF del] ps1_whole_in_range [OF w] by auto
  moreover have "{a \<in> {1..<16}. ps1_frame_is_free img a} \<inter> set (ps1_walk_chain img b) = {}"
    using ps1_walk_not_free [OF w] by blast
  moreover have "card (set (ps1_walk_chain img b)) = length (ps1_walk_chain img b)"
    using w by (intro distinct_card ps1.walk_distinct) (simp add: ps1_whole_def)
  ultimately show ?thesis by (simp add: ps1_free_count card_Un_disjoint)
qed

lemma ps1_inject_free_count:
  assumes inj: "sigil_ps1_inject img mcs len = (SIGIL_OK, img')"
  shows "length (ps1_free_list img) = length (ps1_free_list img') + ps1_mcs_blocks mcs len"
proof -
  let ?ch = "ps1_chosen img mcs len"
  note ok = ps1_inject_ok [OF inj]
  have free: "ps1_frame_is_free img' a \<longleftrightarrow> ps1_frame_is_free img a \<and> a \<notin> set ?ch" if a: "1 \<le> a" "a < 16" for a
  proof (cases "a \<in> set ?ch")
    case True
    then obtain i where "i < length ?ch" "a = ?ch ! i" by (auto simp: in_set_conv_nth)
    then have "ps1_frame_state img' a \<in> {PS1_STATE_FIRST, PS1_STATE_MIDDLE, PS1_STATE_LAST}"
      using ps1_inject_new_frame(1) [OF inj] by simp
    then show ?thesis using ps1_free_state True by blast
  next
    case False
    then show ?thesis using ps1_same_state [OF ps1_inject_same [OF inj a]] by (simp add: ps1_frame_is_free_def)
  qed
  have "{a \<in> {1..<16}. ps1_frame_is_free img a} = {a \<in> {1..<16}. ps1_frame_is_free img' a} \<union> set ?ch"
    using free ok(6,7) by auto
  moreover have "{a \<in> {1..<16}. ps1_frame_is_free img' a} \<inter> set ?ch = {}" using free by auto
  moreover have "card (set ?ch) = ps1_mcs_blocks mcs len" using distinct_card [OF ok(5)] ok(4) by simp
  ultimately show ?thesis by (simp add: ps1_free_count card_Un_disjoint)
qed

section \<open>Verifying a save\<close>

lemma ps1_verify_iff:
  "sigil_ps1_verify img mcs len = SIGIL_OK \<longleftrightarrow>
     ps1_mcs_blocks mcs len \<noteq> 0 \<and>
     (\<exists>b. ps1_named_as img b mcs \<and> ps1_save img b = Some (bytes_at mcs 0 len))"
proof -
  let ?n = "ps1_mcs_blocks mcs len"
  have "ps1_named_as img b mcs \<and> length (ps1_walk_chain img b) = ?n \<and>
        (let (rc, copy) = sigil_ps1_extract img b ?n (\<lambda>_. 0) in rc = SIGIL_OK \<and> mem_eq copy 0 mcs 0 len) \<longleftrightarrow>
      ps1_named_as img b mcs \<and> ps1_save img b = Some (bytes_at mcs 0 len)"
    if n: "?n \<noteq> 0" and b: "1 \<le> b" "b < 16" for b
  proof (cases "ps1_whole img b \<and> length (ps1_walk_chain img b) = ?n")
    case True
    have l: "len = sigil_ps1_mcs_size ?n" using ps1_mcs_blocks_iff [of mcs len ?n] n by blast
    obtain copy where c: "sigil_ps1_extract img b ?n (\<lambda>_. 0) = (SIGIL_OK, copy)"
      using True ps1_extract_bytes by metis
    have "ps1_save img b = Some (bytes_at copy 0 (sigil_ps1_mcs_size ?n))"
      using ps1_extract_save [of img b "\<lambda>_. 0"] True c by simp
    then have "ps1_save img b = Some (bytes_at copy 0 len)" unfolding l [symmetric] .
    then show ?thesis using True c by (simp add: bytes_at_eq_iff)
  next
    case False
    have l: "len = sigil_ps1_mcs_size ?n" using ps1_mcs_blocks_iff [of mcs len ?n] n by blast
    have "ps1_save img b \<noteq> Some (bytes_at mcs 0 len)"
    proof
      assume s: "ps1_save img b = Some (bytes_at mcs 0 len)"
      then have w: "ps1_whole img b" by (simp add: ps1_save_def split: if_splits)
      from s w have "length (bytes_at mcs 0 len) = sigil_ps1_mcs_size (length (ps1_walk_chain img b))"
        by (auto simp: ps1_save_def dest!: arg_cong [of _ _ length])
      with l have "sigil_ps1_mcs_size ?n = sigil_ps1_mcs_size (length (ps1_walk_chain img b))" by simp
      with False w show False by (simp add: sigil_ps1_mcs_size_def ps1_consts)
    qed
    moreover have "\<not> (length (ps1_walk_chain img b) = ?n \<and> ps1_named_as img b mcs)"
      using False n b by (auto simp: ps1_whole_def ps1_named_as_def)
    ultimately show ?thesis by blast
  qed
  moreover have "1 \<le> b \<and> b < 16" if "ps1_save img b = Some x" for b x
    using that by (auto simp: ps1_save_def ps1_whole_def split: if_splits)
  ultimately have "?n \<noteq> 0 \<Longrightarrow> list_ex (\<lambda>b. ps1_named_as img b mcs \<and> length (ps1_walk_chain img b) = ?n \<and>
        (let (rc, copy) = sigil_ps1_extract img b ?n (\<lambda>_. 0) in rc = SIGIL_OK \<and> mem_eq copy 0 mcs 0 len))
        [1..<PS1_DATA_BLOCKS + 1] \<longleftrightarrow>
      (\<exists>b. ps1_named_as img b mcs \<and> ps1_save img b = Some (bytes_at mcs 0 len))"
    by (auto simp: list_ex_iff PS1_DATA_BLOCKS_def simp del: upt_rec_numeral)
  then show ?thesis by (auto simp: sigil_ps1_verify_def Let_def)
qed

lemma ps1_canon_name: "k < 20 \<Longrightarrow> ps1_canon mcs n (0x0A + k) = mcs (0x0A + k)"
  by (simp add: ps1_canon_def ps1_seal_apply ps1_write_frame_outside)

lemma ps1_inject_named:
  assumes "sigil_ps1_inject img mcs len = (SIGIL_OK, img')"
  shows "ps1_named_as img' (hd (ps1_chosen img mcs len)) mcs"
proof -
  let ?ch = "ps1_chosen img mcs len"
  note ok = ps1_inject_ok [OF assms]
  have ne: "?ch \<noteq> []" using ok(1,4) by auto
  then have f: "img' (hd ?ch * 128 + (10 + k)) = mcs (10 + k)" if "k < 20" for k
    using ps1_inject_fold(1) [OF ok(5,6), of 0 "10 + k" mcs img] that
    by (subst ok(8)) (simp add: hd_conv_nth ps1_new_frame_def ps1_seal_apply ps1_write_frame_outside memcpy_apply)
  show ?thesis
    using ps1_inject_walk(2) [OF assms] f
    by (auto simp: ps1_named_as_def ps1_whole_def ps1_frame_at_def ps1_consts mem_eq_iff add.assoc)
qed

section \<open>Checksums and bounds\<close>

text \<open>A frame's checksum holds when all its 128 bytes cancel under exclusive or.\<close>

definition ps1_sealed :: "mem \<Rightarrow> nat \<Rightarrow> bool" where
  "ps1_sealed m f = (fold (\<lambda>i x. x XOR m (f + i)) [0..<128] 0 = 0)"

lemma ps1_sealed_seal: "ps1_sealed (ps1_seal_frame m f) f"
proof -
  have "[0..<128] = [0..<127] @ [127::nat]" by (simp add: upt_conv_Cons)
  moreover have "fold (\<lambda>i x. x XOR ps1_seal_frame m f (f + i)) [0..<127] 0 =
      fold (\<lambda>i x. x XOR m (f + i)) [0..<127] (0 :: u8)"
    by (rule fold_xor_cong) (simp add: ps1_seal_apply)
  ultimately show ?thesis by (simp only: ps1_sealed_def fold_append o_apply) (simp add: ps1_seal_apply)
qed

lemma ps1_sealed_cong:
  "(\<And>k. k < 128 \<Longrightarrow> a (x + k) = b (y + k)) \<Longrightarrow> ps1_sealed a x = ps1_sealed b y"
  unfolding ps1_sealed_def
  by (rule arg_cong [where f = "\<lambda>w. w = 0"], rule fold_xor_cong) simp

definition ps1_sealed_dir :: "mem \<Rightarrow> bool" where
  "ps1_sealed_dir img = list_all (\<lambda>b. ps1_sealed img (b * 128)) [0..<64]"

lemma ps1_sealed_same: "ps1_same a b c \<Longrightarrow> ps1_sealed b (c * 128) = ps1_sealed a (c * 128)"
  by (rule ps1_sealed_cong) (simp add: ps1_same_frame)

text \<open>A byte no data block's frame or data covers, such as the header frame or anything past the card.\<close>

lemma ps1_not_region:
  "j < 128 \<or> 2048 \<le> j \<and> j < 8192 \<or> PS1_CARD_SIZE \<le> j \<Longrightarrow> 1 \<le> c \<Longrightarrow> c < 16 \<Longrightarrow> j \<notin> ps1_region c"
  by (auto simp: ps1_region_def PS1_CARD_SIZE_def)

lemma ps1_inject_bounds:
  assumes "j < 128 \<or> 2048 \<le> j \<and> j < 8192 \<or> PS1_CARD_SIZE \<le> j"
  shows "snd (sigil_ps1_inject img mcs len) j = img j"
proof (cases "fst (sigil_ps1_inject img mcs len) = SIGIL_OK")
  case True
  then have inj: "sigil_ps1_inject img mcs len = (SIGIL_OK, snd (sigil_ps1_inject img mcs len))"
    by (simp add: prod_eq_iff)
  note ok = ps1_inject_ok [OF inj]
  show ?thesis
    unfolding ok(8) by (rule ps1_inject_fold_outside [OF ok(6)]) (use ps1_not_region [OF assms] ok(6) in auto)
next
  case False
  then show ?thesis by (cases rule: ps1_inject_cases [of mcs len img]) simp_all
qed

lemma ps1_delete_bounds:
  assumes "j < 128 \<or> 2048 \<le> j"
  shows "snd (sigil_ps1_delete img b) j = img j"
proof (cases "ps1_whole img b")
  case True
  show ?thesis
    unfolding ps1_delete_cases using True
    by (simp, intro ps1_delete_outside) (use assms ps1_whole_in_range [OF True] in fastforce)
qed (simp add: ps1_delete_cases)

lemma ps1_inject_sealed:
  assumes inj: "sigil_ps1_inject img mcs len = (SIGIL_OK, img')" and "ps1_sealed_dir img"
  shows "ps1_sealed_dir img'"
  unfolding ps1_sealed_dir_def list_all_iff
proof
  note ok = ps1_inject_ok [OF inj]
  fix b assume "b \<in> set [0..<64::nat]"
  then have s: "ps1_sealed img (b * 128)" and b: "b < 64" using assms(2) by (auto simp: ps1_sealed_dir_def list_all_iff)
  consider (new) "b \<in> set (ps1_chosen img mcs len)" | (old) "b \<notin> set (ps1_chosen img mcs len)" "1 \<le> b" "b < 16"
    | (out) "b = 0 \<or> 16 \<le> b" by linarith
  then show "ps1_sealed img' (b * 128)"
  proof cases
    case new
    then obtain i where i: "i < length (ps1_chosen img mcs len)" "b = ps1_chosen img mcs len ! i"
      by (auto simp: in_set_conv_nth)
    have "ps1_sealed img' (b * 128) = ps1_sealed (ps1_new_frame (ps1_chosen img mcs len) mcs i) 0"
      by (rule ps1_sealed_cong) (subst ok(8), simp add: i(2) ps1_inject_fold(1) [OF ok(5,6) i(1)])
    then show ?thesis by (simp add: ps1_new_frame_def ps1_sealed_seal)
  next
    case old
    then show ?thesis using ps1_sealed_same [OF ps1_inject_same [OF inj old(2,3,1)]] s by simp
  next
    case out
    have "ps1_sealed img' (b * 128) = ps1_sealed img (b * 128)"
    proof (rule ps1_sealed_cong)
      fix k :: nat assume "k < 128"
      then have "b * 128 + k < 128 \<or> 2048 \<le> b * 128 + k \<and> b * 128 + k < 8192 \<or> PS1_CARD_SIZE \<le> b * 128 + k"
        using out b by auto
      from ps1_inject_bounds [OF this, of img mcs len] inj show "img' (b * 128 + k) = img (b * 128 + k)" by simp
    qed
    then show ?thesis using s by simp
  qed
qed

lemma ps1_delete_sealed:
  assumes del: "sigil_ps1_delete img a = (SIGIL_OK, img')" and "ps1_sealed_dir img"
  shows "ps1_sealed_dir img'"
  unfolding ps1_sealed_dir_def list_all_iff
proof
  let ?o = "ps1_walk_chain img a"
  have w: "ps1_whole img a" by (rule ps1_delete_ok(1) [OF del])
  have img': "img' = fold (ps1_delete_block ?o) [0..<length ?o] img" using del w by (simp add: ps1_delete_cases)
  have dist: "distinct ?o" using w ps1.walk_distinct by (simp add: ps1_whole_def)
  fix b assume "b \<in> set [0..<64::nat]"
  then have s: "ps1_sealed img (b * 128)" using assms(2) by (auto simp: ps1_sealed_dir_def list_all_iff)
  show "ps1_sealed img' (b * 128)"
  proof (cases "b \<in> set ?o")
    case True
    then obtain i where i: "i < length ?o" "b = ?o ! i" by (auto simp: in_set_conv_nth)
    have "ps1_sealed img' (b * 128) = ps1_sealed (ps1_delete_block ?o i img) (b * 128)"
      unfolding img' i(2) by (rule ps1_sealed_cong) (simp add: ps1_delete_fold [OF dist i(1)])
    then show ?thesis
      using i(2) by (simp add: ps1_delete_block_def Let_def ps1_frame_at_def PS1_FRAME_SIZE_def ps1_sealed_seal)
  next
    case False
    have "ps1_sealed img' (b * 128) = ps1_sealed img (b * 128)"
    proof (rule ps1_sealed_cong)
      fix k :: nat assume k: "k < 128"
      have "b * 128 + k \<notin> {x * 128..<x * 128 + 128}" if "x \<in> set ?o" for x
      proof -
        have "x \<noteq> b" using that False by blast
        then have "x * 128 + 128 \<le> b * 128 \<or> b * 128 + 128 \<le> x * 128" by linarith
        then show ?thesis using k by auto
      qed
      then show "img' (b * 128 + k) = img (b * 128 + k)" unfolding img' by (rule ps1_delete_outside)
    qed
    then show ?thesis using s by simp
  qed
qed

section \<open>A formatted card\<close>

lemma ps1_format_frame_loop:
  assumes "\<And>b. b \<in> set bs \<Longrightarrow> g b = b * 128" and "distinct bs" and "b \<in> set bs" and "k < 128"
  shows "fold (\<lambda>b m. let f = g b in ps1_seal_frame (ps1_write_frame m f s z l) f) bs m (b * 128 + k) =
     ps1_seal_frame (ps1_write_frame m (b * 128) s z l) (b * 128) (b * 128 + k)"
proof -
  have "fold (\<lambda>b m. let f = g b in ps1_seal_frame (ps1_write_frame m f s z l) f) bs m (b * 128 + k) =
      (let f = g b in ps1_seal_frame (ps1_write_frame m f s z l) f) (b * 128 + k)"
  proof (rule fold_in_region [where R = "\<lambda>b. {b * 128..<b * 128 + 128}"])
    show "(let f = g i in ps1_seal_frame (ps1_write_frame m f s z l) f) j = m j"
      if "i \<in> set bs" "j \<notin> {i * 128..<i * 128 + 128}" for i m j
      using that by (simp add: Let_def assms(1) ps1_seal_apply) (intro conjI impI ps1_write_frame_outside; auto)
    show "(let f = g i in ps1_seal_frame (ps1_write_frame m f s z l) f) j =
          (let f = g i in ps1_seal_frame (ps1_write_frame m' f s z l) f) j"
      if a: "i \<in> set bs" "j \<in> {i * 128..<i * 128 + 128}" "\<And>k. k \<in> {i * 128..<i * 128 + 128} \<Longrightarrow> m k = m' k" for i m m' j
    proof -
      obtain k where k: "j = i * 128 + k" "k < 128" using a(2) le_Suc_ex by auto
      have "ps1_write_frame m (i * 128) s z l (i * 128 + k) = ps1_write_frame m' (i * 128) s z l (i * 128 + k)" if "k < 128" for k
        using a(3) that by (auto simp: ps1_write_frame_def Let_def mem_simps)
      then show ?thesis unfolding Let_def assms(1) [OF a(1)] k(1) by (rule ps1_seal_cong [OF _ k(2)])
    qed
    show "{i * 128..<i * 128 + 128} \<inter> {k * 128..<k * 128 + 128} = {}"
      if "i \<noteq> k" for i k :: nat
    proof -
      have "i * 128 + 128 \<le> k * 128 \<or> k * 128 + 128 \<le> i * 128" using that by linarith
      then show ?thesis by auto
    qed
  qed (use assms in auto)
  then show ?thesis by (simp add: assms(1,3) Let_def)
qed

lemma ps1_format_frame_loop_outside:
  assumes "\<And>b. b \<in> set bs \<Longrightarrow> g b = b * 128" and "\<And>b. b \<in> set bs \<Longrightarrow> j \<notin> {b * 128..<b * 128 + 128}"
  shows "fold (\<lambda>b m. let f = g b in ps1_seal_frame (ps1_write_frame m f s z l) f) bs m j = m j"
proof (rule fold_outside_regions [where R = "\<lambda>b. {b * 128..<b * 128 + 128}"])
  show "(let f = g i in ps1_seal_frame (ps1_write_frame m f s z l) f) j = m j"
    if "i \<in> set bs" "j \<notin> {i * 128..<i * 128 + 128}" for i m j
    using that by (simp add: Let_def assms(1) ps1_seal_apply) (intro conjI impI ps1_write_frame_outside; auto)
qed (use assms in blast)

text \<open>A frame the format writes, on its own.\<close>

definition ps1_blank_frame :: "u32 \<Rightarrow> mem" where
  "ps1_blank_frame s = ps1_seal_frame (ps1_write_frame (\<lambda>_. 0) 0 s 0 PS1_LINK_END) 0"

definition ps1_header_frame :: mem where
  "ps1_header_frame = ps1_seal_frame ((\<lambda>_. 0)(0 := 0x4D, 1 := 0x43)) 0"

lemma ps1_format_bytes:
  "sigil_ps1_format m j =
     (if PS1_CARD_SIZE \<le> j then m j
      else if j < 128 \<or> 8064 \<le> j \<and> j < 8192 then ps1_header_frame (j mod 128)
      else if j < 2048 then ps1_blank_frame PS1_STATE_FREE (j mod 128)
      else if j < 4608 then ps1_blank_frame 0xFFFFFFFF (j mod 128)
      else 0)"
proof -
  define A where "A = ps1_seal_frame ((memset m 0 0 PS1_CARD_SIZE)(0 := 0x4D, 1 := 0x43)) 0"
  define B where "B = fold (\<lambda>block img. let f = ps1_frame_at block
      in ps1_seal_frame (ps1_write_frame img f PS1_STATE_FREE 0 PS1_LINK_END) f) [1..<16] A"
  define C where "C = fold (\<lambda>b img. let f = ps1_frame_at b
      in ps1_seal_frame (ps1_write_frame img f 0xFFFFFFFF 0 PS1_LINK_END) f) [16..<36] B"
  have r: "map (\<lambda>i. 16 + i) [0..<20] = [16..<36::nat]" by (simp add: upt_conv_Cons)
  have c: "fold (\<lambda>i img. let f = ps1_frame_at (PS1_BROKEN_FIRST_FRAME + i)
      in ps1_seal_frame (ps1_write_frame img f 0xFFFFFFFF 0 PS1_LINK_END) f) [0..<PS1_BROKEN_FRAMES] B = C"
    unfolding C_def r [symmetric] PS1_BROKEN_FRAMES_def PS1_BROKEN_FIRST_FRAME_def
    by (simp only: fold_map o_def)
  have "PS1_DATA_BLOCKS + 1 = 16" by (simp add: PS1_DATA_BLOCKS_def)
  then have fmt: "sigil_ps1_format m = memcpy C (63 * 128) C 0 128"
    unfolding sigil_ps1_format_def Let_def
    by (simp only: c [unfolded Let_def] A_def [symmetric, unfolded Let_def] B_def [symmetric, unfolded Let_def])
       (simp add: ps1_frame_at_def PS1_FRAME_SIZE_def PS1_WRITE_TEST_FRAME_def)
  have g: "ps1_frame_at x = x * 128" for x by (simp add: ps1_frame_at_def PS1_FRAME_SIZE_def)
  have a: "A k = (if PS1_CARD_SIZE \<le> k then m k else if k < 128 then ps1_header_frame k else 0)" for k
  proof (cases "k < 128")
    case True
    have "A (0 + k) = ps1_header_frame (0 + k)"
      unfolding ps1_header_frame_def A_def
      by (rule ps1_seal_cong [OF _ True]) (auto simp: memset_apply PS1_CARD_SIZE_def)
    then show ?thesis using True by (simp add: PS1_CARD_SIZE_def)
  next
    case False
    then show ?thesis by (simp add: A_def ps1_seal_apply memset_apply PS1_CARD_SIZE_def)
  qed
  have blank: "ps1_seal_frame (ps1_write_frame x (n * 128) s 0 PS1_LINK_END) (n * 128) (n * 128 + k) = ps1_blank_frame s k"
    if "\<And>k. k < 128 \<Longrightarrow> x (n * 128 + k) = 0" "k < 128" for x n s k
  proof -
    have "ps1_seal_frame (ps1_write_frame x (n * 128) s 0 PS1_LINK_END) (n * 128) (n * 128 + k) = ps1_blank_frame s (0 + k)"
      unfolding ps1_blank_frame_def
      by (rule ps1_seal_cong [OF _ that(2)], unfold add_0, rule ps1_write_frame_shift) (use that in auto)
    then show ?thesis by simp
  qed
  have b: "B k = (if 128 \<le> k \<and> k < 2048 then ps1_blank_frame PS1_STATE_FREE (k mod 128) else A k)" for k
  proof (cases "128 \<le> k \<and> k < 2048")
    case True
    then have n: "1 \<le> k div 128" "k div 128 < 16"
      by (simp_all add: less_mult_imp_div_less Suc_le_eq div_greater_zero_iff)
    have z: "A (k div 128 * 128 + l) = 0" if "l < 128" for l
      using n that unfolding a PS1_CARD_SIZE_def by auto
    have "B (k div 128 * 128 + k mod 128) = ps1_blank_frame PS1_STATE_FREE (k mod 128)"
      unfolding B_def
      by (subst ps1_format_frame_loop [OF g], simp, use n in \<open>simp del: upt_rec_numeral\<close>, simp, rule blank) (simp_all add: z)
    then show ?thesis using True by simp
  next
    case False
    have "j \<noteq> k" if "1 \<le> b" "b < 16" "b * 128 \<le> j" "j < b * 128 + 128" for b j using that False by auto
    then show ?thesis
      unfolding B_def using False
      by (subst ps1_format_frame_loop_outside [OF g]) auto
  qed
  have c': "C k = (if 2048 \<le> k \<and> k < 4608 then ps1_blank_frame 0xFFFFFFFF (k mod 128) else B k)" for k
  proof (cases "2048 \<le> k \<and> k < 4608")
    case True
    then have n: "16 \<le> k div 128" "k div 128 < 36"
      by (simp_all add: less_mult_imp_div_less less_eq_div_iff_mult_less_eq)
    have z: "B (k div 128 * 128 + l) = 0" if "l < 128" for l
      using n that unfolding a b PS1_CARD_SIZE_def by auto
    have "C (k div 128 * 128 + k mod 128) = ps1_blank_frame 0xFFFFFFFF (k mod 128)"
      unfolding C_def
      by (subst ps1_format_frame_loop [OF g], simp, use n in \<open>simp del: upt_rec_numeral\<close>, simp, rule blank) (simp_all add: z)
    then show ?thesis using True by simp
  next
    case False
    then show ?thesis
      unfolding C_def
      by (subst ps1_format_frame_loop_outside [OF g]) auto
  qed
  have m63: "8064 \<le> j \<Longrightarrow> j < 8192 \<Longrightarrow> j mod 128 = j - 8064"
    using mod_mult_self1 [of "j - 8064" 63 128] by simp
  show ?thesis
    unfolding fmt memcpy_apply using m63 by (auto simp: c' b a PS1_CARD_SIZE_def)
qed

lemma ps1_blank_frame_state: "sigil_read_le32 (ps1_blank_frame s) 0 = s"
proof -
  have "sigil_read_le32 (ps1_blank_frame s) 0 = sigil_read_le32 (ps1_write_frame (\<lambda>_. 0) 0 s 0 PS1_LINK_END) 0"
    unfolding ps1_blank_frame_def by (rule read_le32_cong) (simp add: ps1_seal_apply)
  then show ?thesis by (simp add: ps1_write_frame_reads)
qed

lemma ps1_format_state:
  assumes "1 \<le> b" and "b < 16"
  shows "ps1_frame_state (sigil_ps1_format m) b = PS1_STATE_FREE"
proof -
  have "ps1_frame_state (sigil_ps1_format m) b = sigil_read_le32 (ps1_blank_frame PS1_STATE_FREE) 0"
    unfolding ps1_frame_state_def ps1_frame_at_def PS1_FRAME_SIZE_def
  proof (rule read_le32_cong)
    fix k :: nat assume "k < 4"
    then show "sigil_ps1_format m (b * 128 + k) = ps1_blank_frame PS1_STATE_FREE (0 + k)"
      using assms by (auto simp: ps1_format_bytes PS1_CARD_SIZE_def)
  qed
  then show ?thesis by (simp only: ps1_blank_frame_state)
qed

lemma ps1_format_free: "1 \<le> b \<Longrightarrow> b < 16 \<Longrightarrow> ps1_frame_is_free (sigil_ps1_format m) b"
  by (simp add: ps1_frame_is_free_def ps1_format_state ps1_states)

lemma ps1_format_free_list: "ps1_free_list (sigil_ps1_format m) = [1..<16]"
  unfolding ps1_free_list_def using ps1_format_free by (simp add: filter_id_conv del: upt_rec_numeral)

lemma ps1_format_not_whole: "\<not> ps1_whole (sigil_ps1_format m) b"
  by (auto simp: ps1_whole_def ps1_format_state ps1_states)

lemma ps1_format_clean: "ps1_clean (sigil_ps1_format m)"
  by (auto simp: ps1_clean_iff ps1_format_state ps1_states)

lemma ps1_zero_sealed: "ps1_sealed (\<lambda>_. 0) 0"
proof -
  have "fold (\<lambda>i x. x) xs a = a" for xs :: "nat list" and a :: u8 by (induction xs) simp_all
  then show ?thesis by (simp add: ps1_sealed_def)
qed

lemma ps1_format_sealed: "ps1_sealed_dir (sigil_ps1_format m)"
  unfolding ps1_sealed_dir_def list_all_iff
proof
  fix b assume "b \<in> set [0..<64::nat]"
  then have b: "b < 64" by simp
  let ?f = "if b = 0 \<or> b = 63 then ps1_header_frame else if b < 16 then ps1_blank_frame PS1_STATE_FREE
            else if b < 36 then ps1_blank_frame 0xFFFFFFFF else (\<lambda>_. 0)"
  have "ps1_sealed (sigil_ps1_format m) (b * 128) = ps1_sealed ?f 0"
  proof (rule ps1_sealed_cong)
    fix k :: nat assume "k < 128"
    moreover have "(b * 128 + k) mod 128 = k" "(8064 + k) mod 128 = k" using \<open>k < 128\<close> mod_mult_self3 [of 63 128 k] by simp_all
    ultimately show "sigil_ps1_format m (b * 128 + k) = ?f (0 + k)"
      using b by (auto simp: ps1_format_bytes PS1_CARD_SIZE_def)
  qed
  moreover have "ps1_sealed ?f 0"
    using ps1_sealed_seal ps1_zero_sealed by (simp add: ps1_header_frame_def ps1_blank_frame_def)
  ultimately show "ps1_sealed (sigil_ps1_format m) (b * 128)" by simp
qed

text \<open>A data block is accounted for when it is free or on a live save's chain.\<close>

definition ps1_accounted :: "mem \<Rightarrow> bool" where
  "ps1_accounted img =
     list_all (\<lambda>x. ps1_frame_is_free img x \<or>
                   list_ex (\<lambda>b. ps1_live img b \<and> x \<in> set (ps1_walk_chain img b)) [1..<16]) [1..<16]"

lemma ps1_accounted_iff:
  "ps1_accounted img \<longleftrightarrow>
     (\<forall>x. 1 \<le> x \<longrightarrow> x < 16 \<longrightarrow> ps1_frame_is_free img x \<or> (\<exists>b. ps1_live img b \<and> x \<in> set (ps1_walk_chain img b)))"
proof -
  have "(\<exists>b. ps1_live img b \<and> x \<in> set (ps1_walk_chain img b)) \<longleftrightarrow>
      (\<exists>b \<in> set [1..<16]. ps1_live img b \<and> x \<in> set (ps1_walk_chain img b))" for x
    using ps1_live_whole ps1_whole_range by blast
  then show ?thesis
    by (auto simp: ps1_accounted_def list_all_iff list_ex_iff simp del: upt_rec_numeral)
qed

lemma ps1_inject_accounted:
  assumes inj: "sigil_ps1_inject img mcs len = (SIGIL_OK, img')" and c: "ps1_clean img" and a: "ps1_accounted img"
  shows "ps1_accounted img'"
  unfolding ps1_accounted_iff
proof (intro allI impI)
  let ?ch = "ps1_chosen img mcs len"
  note live = ps1_inject_live_clean(1) [OF inj c] and w = ps1_inject_walk(1) [OF inj]
  fix x :: nat assume x: "1 \<le> x" "x < 16"
  show "ps1_frame_is_free img' x \<or> (\<exists>b. ps1_live img' b \<and> x \<in> set (ps1_walk_chain img' b))"
  proof (cases "x \<in> set ?ch")
    case True
    then have "ps1_live img' (hd ?ch) \<and> x \<in> set (ps1_walk_chain img' (hd ?ch))" using live w by simp
    then show ?thesis by blast
  next
    case False
    have f: "ps1_frame_is_free img' x = ps1_frame_is_free img x"
      using ps1_same_state [OF ps1_inject_same [OF inj x False]] by (simp add: ps1_frame_is_free_def)
    have "ps1_live img' b \<and> x \<in> set (ps1_walk_chain img' b)"
      if "ps1_live img b" "x \<in> set (ps1_walk_chain img b)" for b
      using that live ps1_inject_keeps(2) [OF inj ps1_live_whole [OF that(1)]] by simp
    then show ?thesis using a x f unfolding ps1_accounted_iff by blast
  qed
qed

lemma ps1_delete_accounted:
  assumes del: "sigil_ps1_delete img a = (SIGIL_OK, img')" and c: "ps1_clean img" and acc: "ps1_accounted img"
  shows "ps1_accounted img'"
  unfolding ps1_accounted_iff
proof (intro allI impI)
  have w: "ps1_whole img a" by (rule ps1_delete_ok(1) [OF del])
  then have l: "ps1_live img a" using c by (simp add: ps1_clean_iff ps1_whole_def)
  fix x :: nat assume x: "1 \<le> x" "x < 16"
  show "ps1_frame_is_free img' x \<or> (\<exists>b. ps1_live img' b \<and> x \<in> set (ps1_walk_chain img' b))"
  proof (cases "ps1_frame_is_free img x \<or> x \<in> set (ps1_walk_chain img a)")
    case True
    then show ?thesis using ps1_delete_free [OF del x] by blast
  next
    case False
    then obtain b where b: "ps1_live img b" "x \<in> set (ps1_walk_chain img b)"
      using acc x unfolding ps1_accounted_iff by blast
    have ne: "b \<noteq> a" using False b by blast
    then have "set (ps1_walk_chain img b) \<inter> set (ps1_walk_chain img a) = {}"
      using l ps1_live_whole [OF b(1)] by (simp add: ps1_live_iff)
    from ps1_delete_keeps(2) [OF del ps1_live_whole [OF b(1)] this] b ps1_delete_live(2) [OF del l] ne
    show ?thesis by auto
  qed
qed

text \<open>So the free blocks and the listed saves add up to the card.\<close>

lemma ps1_accounted_sum:
  assumes "ps1_accounted img"
  shows "length (ps1_free_list img) + sum_list (map (\<lambda>b. length (ps1_walk_chain img b)) (filter (ps1_live img) [1..<16])) = 15"
proof -
  let ?F = "{x \<in> {1..<16}. ps1_frame_is_free img x}" and ?L = "{b \<in> {1..<16}. ps1_live img b}"
  let ?W = "\<lambda>b. set (ps1_walk_chain img b)"
  have L: "set (filter (ps1_live img) [1..<16]) = ?L" by (auto simp del: upt_rec_numeral)
  have "sum_list (map (\<lambda>b. length (ps1_walk_chain img b)) (filter (ps1_live img) [1..<16])) =
      (\<Sum>b \<in> ?L. length (ps1_walk_chain img b))"
    unfolding L [symmetric] by (rule sum_list_distinct_conv_sum_set) (simp del: upt_rec_numeral)
  also have "\<dots> = (\<Sum>b \<in> ?L. card (?W b))"
    by (rule sum.cong) (use distinct_card [OF ps1.walk_distinct] in \<open>simp_all add: \<close>)
  also have "\<dots> = card (\<Union>b \<in> ?L. ?W b)"
    by (rule card_UN_disjoint [symmetric]) (auto simp: ps1_live_iff)
  finally have s: "sum_list (map (\<lambda>b. length (ps1_walk_chain img b)) (filter (ps1_live img) [1..<16])) =
      card (\<Union>b \<in> ?L. ?W b)" .
  have "?F \<union> (\<Union>b \<in> ?L. ?W b) = {1..<16}"
  proof
    show "?F \<union> (\<Union>b \<in> ?L. ?W b) \<subseteq> {1..<16}"
      using ps1_whole_in_range ps1_live_whole by fastforce
    show "{1..<16} \<subseteq> ?F \<union> (\<Union>b \<in> ?L. ?W b)"
      using assms ps1_live_whole ps1_whole_def unfolding ps1_accounted_iff by fastforce
  qed
  moreover have "?F \<inter> (\<Union>b \<in> ?L. ?W b) = {}" using ps1_walk_not_free ps1_live_whole by fast
  ultimately have "card ?F + card (\<Union>b \<in> ?L. ?W b) = card {1..<16::nat}"
    by (metis (no_types, lifting) card_Un_disjoint finite_UN finite_Un finite_atLeastLessThan)
  then show ?thesis unfolding s ps1_free_count by simp
qed

section \<open>Cards the code builds\<close>

text \<open>Every card that formatting, injecting and deleting can lead to, failed calls included.\<close>

inductive ps1_reachable :: "mem \<Rightarrow> bool" where
  formatted: "ps1_reachable (sigil_ps1_format m)"
| injected: "ps1_reachable img \<Longrightarrow> ps1_reachable (snd (sigil_ps1_inject img mcs len))"
| deleted: "ps1_reachable img \<Longrightarrow> ps1_reachable (snd (sigil_ps1_delete img b))"

lemma ps1_format_header: "has_bytes (sigil_ps1_format m) 0 (str ''MC'')"
  by (simp add: has_bytes_def bytes_at_def str_def ps1_format_bytes PS1_CARD_SIZE_def
      ps1_header_frame_def ps1_seal_apply)

lemma has_MC_cong:
  "(\<And>j. j < 128 \<Longrightarrow> a j = b j) \<Longrightarrow> has_bytes a 0 (str ''MC'') \<Longrightarrow> has_bytes b 0 (str ''MC'')"
  by (simp add: has_bytes_def bytes_at_def str_def)

lemma ps1_reachable_ok:
  "ps1_reachable img \<Longrightarrow>
     ps1_clean img \<and> ps1_accounted img \<and> ps1_sealed_dir img \<and> has_bytes img 0 (str ''MC'')"
proof (induction rule: ps1_reachable.induct)
  case (formatted m)
  then show ?case
    using ps1_format_free by (simp add: ps1_format_clean ps1_format_sealed ps1_format_header ps1_accounted_iff)
next
  case (injected img mcs len)
  have h: "has_bytes (snd (sigil_ps1_inject img mcs len)) 0 (str ''MC'')"
    by (rule has_MC_cong [of img]) (use injected in \<open>simp_all add: ps1_inject_bounds\<close>)
  show ?case
  proof (cases "fst (sigil_ps1_inject img mcs len) = SIGIL_OK")
    case True
    then have "sigil_ps1_inject img mcs len = (SIGIL_OK, snd (sigil_ps1_inject img mcs len))"
      by (simp add: prod_eq_iff)
    from ps1_inject_live_clean(3) [OF this] ps1_inject_accounted [OF this] ps1_inject_sealed [OF this] h injected.IH
    show ?thesis by blast
  next
    case False
    then have "snd (sigil_ps1_inject img mcs len) = img"
      by (cases rule: ps1_inject_cases [of mcs len img]) simp_all
    with injected.IH show ?thesis by simp
  qed
next
  case (deleted img b)
  have h: "has_bytes (snd (sigil_ps1_delete img b)) 0 (str ''MC'')"
    by (rule has_MC_cong [of img]) (use deleted in \<open>simp_all add: ps1_delete_bounds\<close>)
  show ?case
  proof (cases "fst (sigil_ps1_delete img b) = SIGIL_OK")
    case True
    then have "sigil_ps1_delete img b = (SIGIL_OK, snd (sigil_ps1_delete img b))"
      by (simp add: prod_eq_iff)
    from ps1_delete_clean [OF this] ps1_delete_accounted [OF this] ps1_delete_sealed [OF this] h deleted.IH
    show ?thesis by blast
  next
    case False
    then have "snd (sigil_ps1_delete img b) = img" by (simp add: ps1_delete_cases split: if_splits)
    with deleted.IH show ?thesis by simp
  qed
qed

section \<open>A save to try the operations on\<close>

lemma ps1_canon_outside: "128 \<le> j \<Longrightarrow> ps1_canon mcs n j = mcs j"
  by (simp add: ps1_canon_def ps1_seal_apply ps1_write_frame_outside)

lemma ps1_canon_state: "sigil_read_le32 (ps1_canon mcs n) 0 = PS1_STATE_FIRST"
proof -
  have "sigil_read_le32 (ps1_canon mcs n) 0 =
      sigil_read_le32 (ps1_write_frame mcs 0 PS1_STATE_FIRST (of_nat (n * 8192)) PS1_LINK_END) 0"
    unfolding ps1_canon_def by (rule read_le32_cong) (simp add: ps1_seal_apply)
  then show ?thesis by (simp add: ps1_write_frame_reads)
qed

lemma ps1_canon_idem: "ps1_canon (ps1_canon mcs n) n = ps1_canon mcs n"
proof -
  let ?w = "\<lambda>m. ps1_write_frame m 0 PS1_STATE_FIRST (of_nat (n * 8192)) PS1_LINK_END"
  have w: "?w (ps1_canon mcs n) i = ?w mcs i" if "i \<noteq> 127" for i
    using that by (auto simp: ps1_canon_def ps1_seal_apply ps1_write_frame_def Let_def mem_simps)
  have "fold (\<lambda>i x. x XOR ?w (ps1_canon mcs n) (0 + i)) [0..<127] 0 = fold (\<lambda>i x. x XOR ?w mcs (0 + i)) [0..<127] 0"
    by (rule fold_xor_cong, rule w) simp
  then show ?thesis
    using w by (auto simp: fun_eq_iff ps1_canon_def [of "ps1_canon mcs n"] ps1_seal_apply)
       (simp_all add: ps1_canon_def ps1_seal_apply)
qed

definition ps1_sample :: mem where "ps1_sample = ps1_canon (\<lambda>_. 0) 1"

definition ps1_sample_card :: mem where
  "ps1_sample_card = snd (sigil_ps1_inject (sigil_ps1_format (\<lambda>_. 0)) ps1_sample 8320)"

lemma ps1_sample_blocks: "ps1_mcs_blocks ps1_sample 8320 = 1"
  using ps1_mcs_blocks_iff [of ps1_sample 8320 1]
  by (simp add: sigil_ps1_mcs_size_def ps1_consts ps1_sample_def ps1_canon_state)

lemma ps1_sample_inject:
  "sigil_ps1_inject (sigil_ps1_format (\<lambda>_. 0)) ps1_sample 8320 = (SIGIL_OK, ps1_sample_card)"
  "hd (ps1_chosen (sigil_ps1_format (\<lambda>_. 0)) ps1_sample 8320) = 1"
proof -
  have "fst (sigil_ps1_inject (sigil_ps1_format (\<lambda>_. 0)) ps1_sample 8320) = SIGIL_OK"
    by (cases rule: ps1_inject_cases [of ps1_sample 8320 "sigil_ps1_format (\<lambda>_. 0)"])
       (auto simp: ps1_sample_blocks ps1_format_free_list ps1_named_as_def ps1_format_state ps1_states)
  then show "sigil_ps1_inject (sigil_ps1_format (\<lambda>_. 0)) ps1_sample 8320 = (SIGIL_OK, ps1_sample_card)"
    by (simp add: ps1_sample_card_def prod_eq_iff)
  show "hd (ps1_chosen (sigil_ps1_format (\<lambda>_. 0)) ps1_sample 8320) = 1"
    by (simp add: ps1_chosen_def ps1_sample_blocks ps1_format_free_list upt_conv_Cons del: upt_rec_numeral)
qed

lemma ps1_sample_live: "ps1_live ps1_sample_card 1" "ps1_clean ps1_sample_card"
  using ps1_inject_live_clean [OF ps1_sample_inject(1) ps1_format_clean] ps1_sample_inject(2) by simp_all

lemma ps1_sample_save: "ps1_save ps1_sample_card 1 = Some (bytes_at ps1_sample 0 8320)"
  using ps1_inject_save [OF ps1_sample_inject(1)] ps1_sample_inject(2) ps1_canon_idem [of "\<lambda>_. 0" 1]
  by (simp add: ps1_sample_blocks) (simp add: ps1_sample_def)

section \<open>Properties\<close>

text \<open>The chain walk returns a chain exactly when an intact one starts at the block: linked to
  an end mark, through middle and last frames, never twice through a block. It stays within the
  15 data blocks, so it never overruns the callers' arrays.\<close>

theorem ps1_walk_chain_spec:
  assumes "1 \<le> first" and "first < 16"
  shows "(ps1_walk_chain img first = bs \<and> bs \<noteq> [] \<longleftrightarrow>
            hd bs = first \<and> linked (ps1_step img) bs \<and> distinct bs) \<and>
         length (ps1_walk_chain img first) \<le> 15 \<and> set (ps1_walk_chain img first) \<subseteq> {1..<16}"
  using ps1.walk_iff [of first img bs] ps1_walk_length [OF assms] ps1_walk_in_range [OF assms] assms(2)
  by auto

theorem ps1_walk_chain_spec_witness:
  "(ps1_walk_chain ps1_sample_card 1 = [1] \<and> [1 :: nat] \<noteq> [] \<longleftrightarrow>
      hd [1] = (1 :: nat) \<and> linked (ps1_step ps1_sample_card) [1] \<and> distinct [1 :: nat]) \<and>
   length (ps1_walk_chain ps1_sample_card 1) \<le> 15 \<and> set (ps1_walk_chain ps1_sample_card 1) \<subseteq> {1..<16}"
  by (rule ps1_walk_chain_spec) simp_all

text \<open>C28 Every result code of \<open>inject\<close>, and that an injection that fails leaves the card as it was:
  not a single save, a save of that name there, too few free blocks, or success.\<close>

theorem ps1_inject_outcome:
  "sigil_ps1_inject img mcs len =
     (if \<not> (\<exists>n \<in> {1..15}. len = sigil_ps1_mcs_size n \<and> sigil_read_le32 mcs 0 = PS1_STATE_FIRST)
      then (SIGIL_ERR_UNSUPPORTED_FORMAT, img)
      else if \<exists>b \<in> {1..15}. ps1_named_as img b mcs then (SIGIL_ERR_EXISTS, img)
      else if length (ps1_free_list img) < sigil_ps1_cost mcs len then (SIGIL_ERR_NO_SPACE, img)
      else (SIGIL_OK, snd (sigil_ps1_inject img mcs len)))"
proof -
  have n: "(\<exists>n \<in> {1..15}. len = sigil_ps1_mcs_size n \<and> sigil_read_le32 mcs 0 = PS1_STATE_FIRST) \<longleftrightarrow>
      ps1_mcs_blocks mcs len \<noteq> 0"
    using ps1_mcs_blocks_iff [of mcs len] by (metis atLeastAtMost_iff)
  have b: "(\<exists>b \<in> {1..15}. ps1_named_as img b mcs) \<longleftrightarrow> (\<exists>b. 1 \<le> b \<and> b < 16 \<and> ps1_named_as img b mcs)"
    by (auto simp: less_Suc_eq_le numeral_eq_Suc)
  show ?thesis
    unfolding n b sigil_ps1_cost_def
    by (cases rule: ps1_inject_cases [of mcs len img]) auto
qed

text \<open>C1 A successful \<open>inject\<close>: the new save reads back as the canonical form of what was given,
  under the name given; every save that was whole keeps its bytes, its blocks and its listing
  entry; the blocks taken were free, and exactly the save's cost is gone from the free blocks.\<close>

theorem ps1_inject_effect:
  assumes "sigil_ps1_inject img mcs len = (SIGIL_OK, img')"
  shows "\<exists>new. 1 \<le> new \<and> new < 16 \<and> ps1_frame_is_free img new \<and> ps1_named_as img' new mcs \<and>
     ps1_save img' new = Some (bytes_at (ps1_canon mcs (sigil_ps1_cost mcs len)) 0 len) \<and>
     (\<forall>b. ps1_whole img b \<longrightarrow>
        ps1_save img' b = ps1_save img b \<and> ps1_walk_chain img' b = ps1_walk_chain img b \<and>
        ps1_entry img' b = ps1_entry img b \<and> ps1_live img' b = ps1_live img b) \<and>
     length (ps1_free_list img) = length (ps1_free_list img') + sigil_ps1_cost mcs len"
proof -
  let ?new = "hd (ps1_chosen img mcs len)"
  note ok = ps1_inject_ok [OF assms]
  have "?new \<in> set (ps1_chosen img mcs len)" using ok(1,4) by (intro hd_in_set) auto
  then have r: "1 \<le> ?new" "?new < 16" "ps1_frame_is_free img ?new" using ok(6,7) by auto
  show ?thesis
    unfolding sigil_ps1_cost_def
  proof (intro exI conjI allI impI)
    show "ps1_live img' b = ps1_live img b" if "ps1_whole img b" for b
      by (rule ps1_inject_live_old [OF assms that])
    show "ps1_save img' b = ps1_save img b" "ps1_walk_chain img' b = ps1_walk_chain img b"
      "ps1_entry img' b = ps1_entry img b" if "ps1_whole img b" for b
      using ps1_inject_keeps [OF assms that] by simp_all
  qed (rule r ps1_inject_named [OF assms] ps1_inject_save [OF assms] ps1_inject_free_count [OF assms])+
qed

theorem ps1_inject_effect_witness:
  "\<exists>new. 1 \<le> new \<and> new < 16 \<and> ps1_frame_is_free (sigil_ps1_format (\<lambda>_. 0)) new \<and>
     ps1_named_as ps1_sample_card new ps1_sample \<and>
     ps1_save ps1_sample_card new = Some (bytes_at (ps1_canon ps1_sample (sigil_ps1_cost ps1_sample 8320)) 0 8320)"
  using ps1_inject_effect [OF ps1_sample_inject(1)] by blast

text \<open>A save in canonical form that was injected verifies, and the listing of a card without
  corrupt saves gains just this save.\<close>

theorem ps1_inject_verifies:
  assumes "sigil_ps1_inject img mcs len = (SIGIL_OK, img')"
    and "mem_eq (ps1_canon mcs (sigil_ps1_cost mcs len)) 0 mcs 0 len"
  shows "sigil_ps1_verify img' mcs len = SIGIL_OK \<and>
     (ps1_clean img \<longrightarrow>
        (\<exists>new. \<not> ps1_live img new \<and> (\<forall>b. ps1_live img' b \<longleftrightarrow> ps1_live img b \<or> b = new) \<and> ps1_clean img'))"
proof
  have "ps1_save img' (hd (ps1_chosen img mcs len)) = Some (bytes_at mcs 0 len)"
    using ps1_inject_save [OF assms(1)] assms(2) by (simp add: bytes_at_eq_iff [symmetric] sigil_ps1_cost_def)
  then show "sigil_ps1_verify img' mcs len = SIGIL_OK"
    unfolding ps1_verify_iff using ps1_inject_named [OF assms(1)] ps1_inject_ok(1) [OF assms(1)] by auto
  show "ps1_clean img \<longrightarrow>
        (\<exists>new. \<not> ps1_live img new \<and> (\<forall>b. ps1_live img' b \<longleftrightarrow> ps1_live img b \<or> b = new) \<and> ps1_clean img')"
    using ps1_inject_live_clean [OF assms(1)] ps1_inject_keeps(5) [OF assms(1) ps1_live_whole] by blast
qed

theorem ps1_inject_verifies_witness:
  "sigil_ps1_verify ps1_sample_card ps1_sample 8320 = SIGIL_OK"
proof -
  have "mem_eq (ps1_canon ps1_sample (sigil_ps1_cost ps1_sample 8320)) 0 ps1_sample 0 8320"
    unfolding sigil_ps1_cost_def ps1_sample_blocks unfolding ps1_sample_def ps1_canon_idem by simp
  from ps1_inject_verifies [OF ps1_sample_inject(1) this] show ?thesis by blast
qed

text \<open>C18 A save taken off one card and put on another: what \<open>extract\<close> gives for a save whose
  frame records its size is a single save that \<open>inject\<close> takes, and after it \<open>verify\<close> finds the
  save on the second card byte for byte.\<close>

theorem ps1_transfer:
  assumes "sigil_ps1_extract img b n (\<lambda>_. 0) = (SIGIL_OK, mcs)"
    and "sigil_read_le32 img (ps1_frame_at b + 4) = of_nat (n * 8192)"
  shows "sigil_ps1_cost mcs (sigil_ps1_mcs_size n) = n \<and>
     (sigil_ps1_inject other mcs (sigil_ps1_mcs_size n) = (SIGIL_OK, img') \<longrightarrow>
        sigil_ps1_verify img' mcs (sigil_ps1_mcs_size n) = SIGIL_OK)"
proof -
  have w: "ps1_whole img b" and n: "length (ps1_walk_chain img b) = n"
    using ps1_extract_iff [of img b n "\<lambda>_. 0"] assms(1) by simp_all
  have nr: "1 \<le> n" "n \<le> 15"
    using w ps1_walk_length [of b img] unfolding n [symmetric] by (auto simp: ps1_whole_def Suc_le_eq)
  have mcs: "mcs j = ps1_mcs_frame img b j" if "j < 128" for j
    using ps1_extract_bytes [OF w, of "\<lambda>_. 0"] assms(1) n that
    by (simp add: ps1_mcs_byte_def sigil_ps1_mcs_size_def ps1_consts)
  have frame: "mcs j = (if j = 8 \<or> j = 9 then 0xFF else img (b * 128 + j))" if "j < 127" for j
    using mcs [of j] that by (auto simp: ps1_mcs_frame_def ps1_seal_apply memcpy_apply)
  have st: "sigil_read_le32 mcs 0 = PS1_STATE_FIRST"
  proof -
    have "sigil_read_le32 mcs 0 = ps1_frame_state img b"
      unfolding ps1_frame_state_def ps1_frame_at_def PS1_FRAME_SIZE_def
      by (rule read_le32_cong) (simp add: frame)
    then show ?thesis using w by (simp add: ps1_whole_def)
  qed
  have sz: "sigil_read_le32 mcs 4 = of_nat (n * 8192)"
  proof -
    have "sigil_read_le32 mcs 4 = sigil_read_le32 img (ps1_frame_at b + 4)"
      unfolding ps1_frame_at_def PS1_FRAME_SIZE_def
      by (rule read_le32_cong) (simp add: frame add.assoc)
    then show ?thesis using assms(2) by simp
  qed
  have blocks: "ps1_mcs_blocks mcs (sigil_ps1_mcs_size n) = n"
    using ps1_mcs_blocks_iff [of mcs "sigil_ps1_mcs_size n" n] st nr by simp
  have same: "ps1_write_frame mcs 0 PS1_STATE_FIRST (of_nat (n * 8192)) PS1_LINK_END j = mcs j" if "j < 127" for j
    using frame [of 8] frame [of 9] st [symmetric] sz [symmetric] read_le32_bytes [of mcs 0] read_le32_bytes [of mcs 4]
    by (auto simp: ps1_write_frame_def Let_def mem_simps PS1_LINK_END_def)
  have "ps1_canon mcs n j = mcs j" for j
  proof (cases "j = 127")
    case True
    have "fold (\<lambda>i x. x XOR ps1_write_frame mcs 0 PS1_STATE_FIRST (of_nat (n * 8192)) PS1_LINK_END (0 + i)) [0..<127] 0 =
        fold (\<lambda>i x. x XOR ((memcpy (\<lambda>_. 0) 0 img (b * 128) 128)(8 := 0xFF, 9 := 0xFF)) (0 + i)) [0..<127] 0"
      by (rule fold_xor_cong, unfold add_0, subst same) (auto simp: frame memcpy_apply)
    then show ?thesis
      using True mcs [of 127] by (simp add: ps1_canon_def ps1_seal_apply ps1_mcs_frame_def)
  next
    case False
    then show ?thesis
      using same [of j] ps1_canon_outside [of j mcs n]
      by (cases "j < 127") (simp_all add: ps1_canon_def ps1_seal_apply)
  qed
  then have canon: "ps1_canon mcs n = mcs" by blast
  show ?thesis
  proof (intro conjI impI)
    assume inj: "sigil_ps1_inject other mcs (sigil_ps1_mcs_size n) = (SIGIL_OK, img')"
    have "ps1_save img' (hd (ps1_chosen other mcs (sigil_ps1_mcs_size n))) = Some (bytes_at mcs 0 (sigil_ps1_mcs_size n))"
      using ps1_inject_save [OF inj] by (simp add: blocks canon)
    then show "sigil_ps1_verify img' mcs (sigil_ps1_mcs_size n) = SIGIL_OK"
      unfolding ps1_verify_iff blocks using ps1_inject_named [OF inj] nr by auto
  qed (simp add: sigil_ps1_cost_def blocks)
qed

lemma ps1_sample_size: "sigil_read_le32 ps1_sample_card (ps1_frame_at 1 + 4) = of_nat (1 * 8192)"
proof -
  let ?img = "sigil_ps1_format (\<lambda>_. 0)"
  note ok = ps1_inject_ok [OF ps1_sample_inject(1)]
  have c: "ps1_chosen ?img ps1_sample 8320 \<noteq> []" "length (ps1_chosen ?img ps1_sample 8320) = 1"
    using ok(4) by (auto simp: ps1_sample_blocks)
  then have h: "ps1_chosen ?img ps1_sample 8320 ! 0 = 1"
    using ps1_sample_inject(2) by (simp add: hd_conv_nth)
  have "sigil_read_le32 ps1_sample_card (ps1_frame_at 1 + 4) =
      sigil_read_le32 (ps1_write_frame (memcpy (\<lambda>_. 0) 0 ps1_sample 0 128) 0 PS1_STATE_FIRST (of_nat (1 * 8192)) PS1_LINK_END) (0 + 4)"
  proof (rule read_le32_cong)
    fix k :: nat assume k: "k < 4"
    have "ps1_sample_card (1 * 128 + (4 + k)) = ps1_new_frame (ps1_chosen ?img ps1_sample 8320) ps1_sample 0 (4 + k)"
      using ps1_inject_fold(1) [OF ok(5,6), of 0 "4 + k" ps1_sample ?img] c(2) h k by (subst ok(8)) simp
    then show "ps1_sample_card (ps1_frame_at 1 + 4 + k) =
       ps1_write_frame (memcpy (\<lambda>_. 0) 0 ps1_sample 0 128) 0 PS1_STATE_FIRST (of_nat (1 * 8192)) PS1_LINK_END (0 + 4 + k)"
      using c(2) k by (simp add: ps1_new_frame_def ps1_seal_apply ps1_frame_at_def PS1_FRAME_SIZE_def ac_simps)
  qed
  then show ?thesis unfolding ps1_write_frame_reads .
qed

theorem ps1_transfer_witness:
  "sigil_ps1_cost (snd (sigil_ps1_extract ps1_sample_card 1 1 (\<lambda>_. 0))) (sigil_ps1_mcs_size 1) = 1"
proof -
  let ?e = "sigil_ps1_extract ps1_sample_card 1 1 (\<lambda>_. 0)"
  have "length (ps1_walk_chain ps1_sample_card 1) = 1"
    using ps1_inject_walk(1) [OF ps1_sample_inject(1)] ps1_sample_inject(2) ps1_inject_ok(4) [OF ps1_sample_inject(1)]
    by (simp add: ps1_sample_blocks)
  then have "fst ?e = SIGIL_OK"
    using ps1_extract_iff [of ps1_sample_card 1 1 "\<lambda>_. 0"] ps1_live_whole [OF ps1_sample_live(1)] by simp
  then have "?e = (SIGIL_OK, snd ?e)" by (simp add: prod_eq_iff)
  from ps1_transfer [OF this ps1_sample_size] show ?thesis by blast
qed

text \<open>C23 \<open>delete\<close> of a listed save removes that save and no other: every other live save keeps its
  bytes and stays listed, its blocks become free, and a call that fails leaves the card as it was.\<close>

theorem ps1_delete_effect:
  assumes "ps1_live img b" and "sigil_ps1_delete img b = (rc, img')"
  shows "rc = SIGIL_OK \<and> ps1_save img' b = None \<and>
     (\<forall>a. ps1_live img' a \<longleftrightarrow> ps1_live img a \<and> a \<noteq> b) \<and>
     (\<forall>a. ps1_whole img a \<and> a \<noteq> b \<longrightarrow>
        ps1_save img' a = ps1_save img a \<and> ps1_entry img' a = ps1_entry img a) \<and>
     length (ps1_free_list img') = length (ps1_free_list img) + length (ps1_walk_chain img b)"
proof -
  from assms have "rc = SIGIL_OK" by (simp add: ps1_delete_cases ps1_live_whole)
  with assms have del: "sigil_ps1_delete img b = (SIGIL_OK, img')" by simp
  note live = ps1_delete_live [OF del assms(1)]
  have "ps1_save img' b = None" using live(1) by (simp add: ps1_save_def)
  moreover have "ps1_save img' a = ps1_save img a \<and> ps1_entry img' a = ps1_entry img a"
    if "ps1_whole img a" "a \<noteq> b" for a
    using ps1_delete_keeps [OF del that(1)] assms(1) that by (simp add: ps1_live_iff)
  ultimately show ?thesis
    using \<open>rc = SIGIL_OK\<close> live(2) ps1_delete_free_count [OF del] by simp
qed

theorem ps1_delete_effect_witness:
  "\<forall>a. ps1_live (snd (sigil_ps1_delete ps1_sample_card 1)) a \<longleftrightarrow> ps1_live ps1_sample_card a \<and> a \<noteq> 1"
  using ps1_delete_effect [OF ps1_sample_live(1) prod.collapse [symmetric]] by blast

text \<open>C10 On every card that formatting, injecting and deleting lead to, every save is listed, every
  directory frame's checksum holds, the card still starts with its magic, and the free blocks and
  the listed saves' blocks add up to the 15 of the card.\<close>

theorem ps1_reachable_invariant:
  assumes "ps1_reachable img"
  shows "let l = sigil_ps1_card_list img format in
     corrupt_count l = 0 \<and> free_blocks l + sum_list (map ce_blocks (entries l)) = total_blocks l \<and>
     ps1_sealed_dir img \<and> has_bytes img 0 (str ''MC'')"
proof -
  note inv = ps1_reachable_ok [OF assms]
  let ?l = "sigil_ps1_card_list img format"
  note fold = ps1_list_fold [of "[1..<16]" img "(sigil_card_listing_new format)\<lparr>total_blocks := 15\<rparr>"]
  have l: "sigil_ps1_card_list img format =
      (fold (ps1_list_block img (ps1_count_claims img)) [1..<16]
         ((sigil_card_listing_new format)\<lparr>total_blocks := 15\<rparr>))
      \<lparr>free_blocks := free_slots (fold (ps1_list_block img (ps1_count_claims img)) [1..<16]
         ((sigil_card_listing_new format)\<lparr>total_blocks := 15\<rparr>))\<rparr>"
    by (simp add: sigil_ps1_card_list_def Let_def PS1_DATA_BLOCKS_def del: upt_rec_numeral)
  have "filter (\<lambda>b. ps1_frame_state img b = PS1_STATE_FIRST \<and> \<not> ps1_live img b) [1..<16] = []"
    using inv by (auto simp: ps1_clean_iff filter_empty_conv simp del: upt_rec_numeral)
  then have c: "corrupt_count ?l = 0" unfolding l using fold by (simp del: upt_rec_numeral)
  have b: "ce_blocks \<circ> ps1_entry img = (\<lambda>b. length (ps1_walk_chain img b))" by (auto simp: ps1_entry_def)
  have "free_blocks ?l + sum_list (map ce_blocks (entries ?l)) = 15"
    unfolding l using fold ps1_accounted_sum inv by (simp add: ps1_free_list_def b del: upt_rec_numeral)
  moreover have "total_blocks ?l = 15" unfolding l using fold by (simp del: upt_rec_numeral)
  ultimately show ?thesis using inv c by simp
qed

theorem ps1_reachable_invariant_witness:
  "let l = sigil_ps1_card_list (sigil_ps1_format (\<lambda>_. 0)) SIGIL_CARD_FORMAT_PS1_RAW in
     corrupt_count l = 0 \<and> free_blocks l + sum_list (map ce_blocks (entries l)) = total_blocks l \<and>
     ps1_sealed_dir (sigil_ps1_format (\<lambda>_. 0)) \<and> has_bytes (sigil_ps1_format (\<lambda>_. 0)) 0 (str ''MC'')"
  by (rule ps1_reachable_invariant, rule ps1_reachable.formatted)

end
