(* ===== verification/CardPs1Files.thy ===== *)
theory CardPs1Files
  imports CardPs1Proofs
begin

text \<open>
  PlayStation card files: what \<^verbatim>\<open>sigil_ps1_file_write\<close> writes loads back, in each of the three
  wrappers; a signed \<^verbatim>\<open>.vmp\<close> checks; and which short files load.
\<close>

section \<open>Reading a byte buffer\<close>

lemma length_sha1_digest [simp]: "length (sha1_digest s) = 20"
  by (cases s) (simp add: sha1_digest_def)

lemma length_hmac [simp]: "length (sigil_hmac_sha1 key data) = 20"
  by (simp add: hmac_sha1_spec Let_def sha1_spec_def)

lemma bytes_at_has: "has_bytes m 0 bs \<Longrightarrow> k < length bs \<Longrightarrow> m k = bs ! k"
  by (simp add: has_bytes_iff)

text \<open>The card file in front of the image: the header of the format, refreshed or signed.\<close>

definition ps1_header_size :: "sigil_card_format \<Rightarrow> nat" where
  "ps1_header_size fmt =
     (if fmt = SIGIL_CARD_FORMAT_PS1_GME then PS1_GME_HEADER_SIZE
      else if fmt = SIGIL_CARD_FORMAT_PS1_VMP then PS1_VMP_HEADER_SIZE else 0)"

definition ps1_magic :: "sigil_card_format \<Rightarrow> bytes" where
  "ps1_magic fmt =
     (if fmt = SIGIL_CARD_FORMAT_PS1_GME then str ''123-456-STD''
      else if fmt = SIGIL_CARD_FORMAT_PS1_VMP then [0, 0x50, 0x4D, 0x56] else str ''MC'')"

text \<open>A buffer of at least the header and one block, with the format's magic and the card's.\<close>

lemma ps1_load_card_buffer:
  assumes fmt: "fmt \<in> {SIGIL_CARD_FORMAT_PS1_RAW, SIGIL_CARD_FORMAT_PS1_GME, SIGIL_CARD_FORMAT_PS1_VMP}"
    and len: "ps1_header_size fmt + PS1_BLOCK_SIZE \<le> length data"
    and raw: "fmt = SIGIL_CARD_FORMAT_PS1_RAW \<Longrightarrow> length data \<le> PS1_CARD_SIZE"
    and mag: "has_bytes (mem_of data) 0 (ps1_magic fmt)"
    and mc: "has_bytes (mem_of data) (ps1_header_size fmt) (str ''MC'')"
  shows "ps1_load_card (mem_io data) img f header =
    (if length data < ps1_header_size fmt + PS1_CARD_SIZE \<and> fmt \<noteq> SIGIL_CARD_FORMAT_PS1_GME
     then SIGIL_ERR_UNSUPPORTED_FORMAT else SIGIL_OK,
     \<lambda>i. if i < PS1_CARD_SIZE then mem_of data (ps1_header_size fmt + i) else img i,
     fmt,
     map_option (\<lambda>h i. if i < ps1_header_size fmt then mem_of data i else h i) header)"
proof -
  let ?h = "ps1_header_size fmt"
  obtain magic where m: "sigil_io_read_upto (mem_io data) 0 (\<lambda>_. 0) 0 12 = (SIGIL_OK, magic, min 12 (length data - 0))"
    and mv: "\<forall>i. magic i = (if 0 \<le> i \<and> i < 0 + min 12 (length data - 0) then data ! (0 + (i - 0)) else 0)"
    using memio.read_upto [of data 0 "\<lambda>_. 0" 0 12] by blast
  have l12: "12 \<le> length data" using len by (simp add: ps1_consts)
  then have mv': "magic i = mem_of data i" if "i < 12" for i using mv that by (simp add: mem_of_def)
  have hm: "has_bytes magic 0 [0, 0x50, 0x4D, 0x56] = has_bytes (mem_of data) 0 [0, 0x50, 0x4D, 0x56]"
    "has_bytes magic 0 (str ''123-456-STD'') = has_bytes (mem_of data) 0 (str ''123-456-STD'')"
    "has_bytes magic 0 (str ''MC'') = has_bytes (mem_of data) 0 (str ''MC'')"
    by (simp_all add: has_bytes_iff str_def mv')
  have first12: "has_bytes (mem_of data) 0 (str ''123-456-STD'') \<Longrightarrow> mem_of data 0 = 0x31"
    "has_bytes (mem_of data) 0 (str ''MC'') \<Longrightarrow> mem_of data 0 = 0x4D"
    "has_bytes (mem_of data) 0 [0, 0x50, 0x4D, 0x56] \<Longrightarrow> mem_of data 0 = 0"
    by (simp_all add: has_bytes_def bytes_at_def str_def upt_conv_Cons)
  have detect: "(if 4 \<le> (12::nat) \<and> has_bytes magic 0 [0, 0x50, 0x4D, 0x56]
       then Some (PS1_VMP_HEADER_SIZE, SIGIL_CARD_FORMAT_PS1_VMP)
       else if 11 \<le> (12::nat) \<and> has_bytes magic 0 (str ''123-456-STD'')
       then Some (PS1_GME_HEADER_SIZE, SIGIL_CARD_FORMAT_PS1_GME)
       else if 2 \<le> (12::nat) \<and> has_bytes magic 0 (str ''MC'')
       then (if int PS1_CARD_SIZE < stream_size (mem_io data) then None else Some (0, SIGIL_CARD_FORMAT_PS1_RAW))
       else None) = Some (?h, fmt)"
    unfolding hm using fmt raw mag first12 by (auto simp: ps1_header_size_def ps1_magic_def)
  have hdr: "(case header of
       Some h \<Rightarrow>
         if ?h \<noteq> 0 then
           (let (rc, h, got) = sigil_io_read_upto (mem_io data) 0 h 0 ?h in
            (if rc \<noteq> SIGIL_OK then rc
             else if got \<noteq> ?h then SIGIL_ERR_UNSUPPORTED_FORMAT else SIGIL_OK, Some h))
         else (SIGIL_OK, Some h)
     | None \<Rightarrow> (SIGIL_OK, None)) =
     (SIGIL_OK, map_option (\<lambda>h i. if i < ?h then mem_of data i else h i) header)"
  proof (cases header)
    case (Some h)
    obtain h' where r: "sigil_io_read_upto (mem_io data) 0 h 0 ?h = (SIGIL_OK, h', min ?h (length data - 0))"
      and v: "\<forall>i. h' i = (if 0 \<le> i \<and> i < 0 + min ?h (length data - 0) then data ! (0 + (i - 0)) else h i)"
      using memio.read_upto [of data 0 h 0 ?h] by blast
    have "h' = (\<lambda>i. if i < ?h then mem_of data i else h i)"
      using v len by (auto simp: mem_of_def fun_eq_iff)
    then show ?thesis using r len Some by (simp add: min_def)
  qed simp
  let ?z = "memset img 0 0 PS1_CARD_SIZE"
  obtain img' where r: "sigil_io_read_upto (mem_io data) ?h ?z 0 PS1_CARD_SIZE =
      (SIGIL_OK, img', min PS1_CARD_SIZE (length data - ?h))"
    and v: "\<forall>i. img' i = (if 0 \<le> i \<and> i < 0 + min PS1_CARD_SIZE (length data - ?h) then data ! (?h + (i - 0)) else ?z i)"
    using memio.read_upto [of data ?h ?z 0 PS1_CARD_SIZE] by blast
  have img': "img' = (\<lambda>i. if i < PS1_CARD_SIZE then mem_of data (?h + i) else img i)"
    using v len by (auto simp: mem_of_def memset_apply fun_eq_iff)
  have mc': "has_bytes img' 0 (str ''MC'')"
    using mc unfolding img' by (simp add: has_bytes_def bytes_at_def str_def PS1_CARD_SIZE_def)
  have got: "\<not> min PS1_CARD_SIZE (length data - ?h) < PS1_BLOCK_SIZE"
    using len by (simp add: ps1_consts)
  have short: "min PS1_CARD_SIZE (length data - ?h) < PS1_CARD_SIZE \<longleftrightarrow> length data < ?h + PS1_CARD_SIZE"
    using len by auto
  have m12: "min 12 (length data - 0) = (12 :: nat)" using l12 by simp
  show ?thesis
    unfolding ps1_load_card_def m m12 Let_def prod.case if_not_P [of False, simplified] simp_thms if_False
      detect option.case hdr [unfolded Let_def] r
    using mc' got short unfolding img' by auto
qed

section \<open>What is written loads back\<close>

lemma ps1_gme_refresh_outside:
  assumes "j < 0x16 \<or> 3904 \<le> j"
  shows "ps1_gme_refresh f h j = h j"
  unfolding ps1_gme_refresh_def
  by (rule fold_outside_regions [where R = "\<lambda>_. {0x16..<3904}"])
     (use assms in \<open>auto simp: Let_def ps1_consts memset_apply\<close>)

text \<open>A file as \<open>file_load\<close> or \<open>file_format\<close> leaves it: a card with its magic behind the header its
  format has.\<close>

definition ps1_file_ok :: "sigil_ps1_file \<Rightarrow> bool" where
  "ps1_file_ok f =
     (pf_format f \<in> {SIGIL_CARD_FORMAT_PS1_RAW, SIGIL_CARD_FORMAT_PS1_GME, SIGIL_CARD_FORMAT_PS1_VMP} \<and>
      has_bytes (pf_image f) 0 (str ''MC'') \<and>
      (pf_format f \<noteq> SIGIL_CARD_FORMAT_PS1_RAW \<longrightarrow> has_bytes (pf_header f) 0 (ps1_magic (pf_format f))))"

text \<open>The bytes of the written file.\<close>

lemma ps1_file_write_bytes:
  fixes dec enc f
  defines "data \<equiv> snd (sigil_ps1_file_write dec enc f)" and "h \<equiv> ps1_header_size (pf_format f)"
  shows "fst (sigil_ps1_file_write dec enc f) = SIGIL_OK" and "length data = h + PS1_CARD_SIZE"
    and "i < PS1_CARD_SIZE \<Longrightarrow> mem_of data (h + i) = pf_image f i"
    and "i < h \<Longrightarrow> i < 0x16 \<or> pf_format f = SIGIL_CARD_FORMAT_PS1_VMP \<and> \<not> (0x20 \<le> i \<and> i < 0x34) \<Longrightarrow>
           mem_of data i = pf_header f i"
    and "pf_format f = SIGIL_CARD_FORMAT_PS1_VMP \<Longrightarrow> i < 20 \<Longrightarrow>
           mem_of data (0x20 + i) = mem_of (vmp_sign dec enc f) i"
proof -
  let ?file = "let file = memcpy (memcpy (\<lambda>_. 0) 0 (pf_header f) 0 h) h (pf_image f) 0 PS1_CARD_SIZE;
      file = (if pf_format f = SIGIL_CARD_FORMAT_PS1_GME then ps1_gme_refresh f file else file)
    in if pf_format f = SIGIL_CARD_FORMAT_PS1_VMP
       then memcpy file VMP_SIGNATURE (mem_of (vmp_sign dec enc f)) 0 VMP_SIGN_LEN else file"
  have w: "sigil_ps1_file_write dec enc f = (SIGIL_OK, bytes_at ?file 0 (h + PS1_CARD_SIZE))"
    by (simp add: sigil_ps1_file_write_def h_def ps1_header_size_def Let_def)
  then show "fst (sigil_ps1_file_write dec enc f) = SIGIL_OK" "length data = h + PS1_CARD_SIZE"
    by (simp_all add: data_def)
  have m: "mem_of data j = ?file j" if "j < h + PS1_CARD_SIZE" for j
    using that by (simp add: data_def w mem_of_def)
  have fx: "fmt \<noteq> SIGIL_CARD_FORMAT_PS1_GME \<Longrightarrow> fmt \<noteq> SIGIL_CARD_FORMAT_PS1_VMP \<Longrightarrow> ps1_header_size fmt = 0"
    "ps1_header_size SIGIL_CARD_FORMAT_PS1_GME = 3904" "ps1_header_size SIGIL_CARD_FORMAT_PS1_VMP = 128" for fmt
    by (simp_all add: ps1_header_size_def ps1_consts)
  show "mem_of data (h + i) = pf_image f i" if "i < PS1_CARD_SIZE"
    using that fx by (subst m) (auto simp: Let_def memcpy_apply h_def ps1_gme_refresh_outside VMP_SIGNATURE_def VMP_SIGN_LEN_def)
  show "mem_of data i = pf_header f i"
    if "i < h" "i < 0x16 \<or> pf_format f = SIGIL_CARD_FORMAT_PS1_VMP \<and> \<not> (0x20 \<le> i \<and> i < 0x34)"
    using that fx by (subst m) (auto simp: Let_def memcpy_apply h_def ps1_gme_refresh_outside VMP_SIGNATURE_def VMP_SIGN_LEN_def)
  show "mem_of data (0x20 + i) = mem_of (vmp_sign dec enc f) i"
    if "pf_format f = SIGIL_CARD_FORMAT_PS1_VMP" "i < 20"
    using that by (subst m) (auto simp: Let_def memcpy_apply h_def fx VMP_SIGNATURE_def VMP_SIGN_LEN_def)
qed

lemma length_vmp_sign [simp]: "length (vmp_sign dec enc f) = 20"
  by (simp add: vmp_sign_def Let_def)

text \<open>The signature covers the header but for itself, and the card.\<close>

lemma vmp_sign_cong:
  assumes "\<And>i. i < 128 \<Longrightarrow> \<not> (0x20 \<le> i \<and> i < 0x34) \<Longrightarrow> pf_header f i = pf_header g i"
    and "\<And>i. i < PS1_CARD_SIZE \<Longrightarrow> pf_image f i = pf_image g i"
  shows "vmp_sign dec enc f = vmp_sign dec enc g"
proof -
  have k: "bytes_at (pf_header f) VMP_SEED VMP_SIGN_LEN = bytes_at (pf_header g) VMP_SEED VMP_SIGN_LEN"
    by (rule bytes_at_cong) (use assms(1) in \<open>auto simp: VMP_SEED_def VMP_SIGN_LEN_def\<close>)
  have "bytes_at (memcpy (memset (memcpy (\<lambda>_. 0) 0 (pf_header f) 0 PS1_VMP_HEADER_SIZE) VMP_SIGNATURE 0 VMP_SIGN_LEN)
            PS1_VMP_HEADER_SIZE (pf_image f) 0 PS1_CARD_SIZE) 0 (PS1_VMP_HEADER_SIZE + PS1_CARD_SIZE) =
        bytes_at (memcpy (memset (memcpy (\<lambda>_. 0) 0 (pf_header g) 0 PS1_VMP_HEADER_SIZE) VMP_SIGNATURE 0 VMP_SIGN_LEN)
            PS1_VMP_HEADER_SIZE (pf_image g) 0 PS1_CARD_SIZE) 0 (PS1_VMP_HEADER_SIZE + PS1_CARD_SIZE)"
    by (rule bytes_at_cong) (use assms in \<open>auto simp: mem_simps PS1_VMP_HEADER_SIZE_def VMP_SIGNATURE_def VMP_SIGN_LEN_def\<close>)
  with k show ?thesis by (simp only: vmp_sign_def Let_def)
qed

lemma ps1_header_has_magic:
  assumes "ps1_file_ok f"
  shows "has_bytes (mem_of (snd (sigil_ps1_file_write dec enc f))) 0 (ps1_magic (pf_format f))"
proof -
  note w = ps1_file_write_bytes [where dec = dec and enc = enc and f = f]
  have "mem_of (snd (sigil_ps1_file_write dec enc f)) k = ps1_magic (pf_format f) ! k"
    if k: "k < length (ps1_magic (pf_format f))" for k
  proof (cases "pf_format f = SIGIL_CARD_FORMAT_PS1_RAW")
    case True
    then show ?thesis
      using w(3) [of k] k assms
      by (auto simp: ps1_file_ok_def has_bytes_iff ps1_magic_def ps1_header_size_def str_def PS1_CARD_SIZE_def)
  next
    case False
    then have "k < 0x16" "k < ps1_header_size (pf_format f)"
      using k assms by (auto simp: ps1_file_ok_def ps1_magic_def ps1_header_size_def str_def ps1_consts)
    then show ?thesis using w(4) [of k] False k assms by (simp add: ps1_file_ok_def has_bytes_iff)
  qed
  then show ?thesis by (simp add: has_bytes_iff)
qed

text \<open>C29 A card file that is written loads again: in the raw, \<^verbatim>\<open>.gme\<close> and \<^verbatim>\<open>.vmp\<close> form it comes back
  in its format with every byte of its card and its directory as it was, and a \<^verbatim>\<open>.vmp\<close> carries the
  signature that the PSP's check accepts, whatever the cipher.\<close>

theorem ps1_file_roundtrip:
  assumes "ps1_file_ok f"
  shows "\<exists>data f'. sigil_ps1_file_write dec enc f = (SIGIL_OK, data) \<and>
     length data = ps1_header_size (pf_format f) + PS1_CARD_SIZE \<and>
     sigil_ps1_file_load (mem_io data) g = (SIGIL_OK, f') \<and>
     pf_format f' = pf_format f \<and> mem_eq (pf_image f') 0 (pf_image f) 0 PS1_CARD_SIZE \<and>
     mem_eq (pf_read_directory f') 0 (pf_image f) 0 PS1_BLOCK_SIZE \<and>
     sigil_ps1_file_check dec enc f' = SIGIL_OK"
proof -
  let ?data = "snd (sigil_ps1_file_write dec enc f)" and ?fmt = "pf_format f" and ?h = "ps1_header_size (pf_format f)"
  note w = ps1_file_write_bytes [where dec = dec and enc = enc and f = f]
  have fmt: "?fmt \<in> {SIGIL_CARD_FORMAT_PS1_RAW, SIGIL_CARD_FORMAT_PS1_GME, SIGIL_CARD_FORMAT_PS1_VMP}"
    using assms by (simp add: ps1_file_ok_def)
  have mc: "has_bytes (mem_of ?data) ?h (str ''MC'')"
    using assms w(3) by (simp add: ps1_file_ok_def has_bytes_iff str_def PS1_CARD_SIZE_def)
  let ?H = "\<lambda>i. if i < ?h then mem_of ?data i else memset (pf_header g) 0 0 PS1_GME_HEADER_SIZE i"
  let ?I = "\<lambda>i. if i < PS1_CARD_SIZE then mem_of ?data (?h + i) else pf_image g i"
  have ld: "ps1_load_card (mem_io ?data) (pf_image g) (pf_format g) (Some (memset (pf_header g) 0 0 PS1_GME_HEADER_SIZE)) =
      (SIGIL_OK, ?I, ?fmt, Some ?H)"
    by (subst ps1_load_card_buffer [OF fmt _ _ ps1_header_has_magic [OF assms] mc])
       (auto simp: w(2) ps1_header_size_def PS1_CARD_SIZE_def PS1_BLOCK_SIZE_def)
  let ?f = "g\<lparr>pf_image := ?I, pf_format := ?fmt, pf_header := ?H,
               pf_read_directory := memcpy (pf_read_directory g) 0 ?I 0 PS1_BLOCK_SIZE\<rparr>"
  have load: "sigil_ps1_file_load (mem_io ?data) g = (SIGIL_OK, ?f)"
    by (simp add: sigil_ps1_file_load_def Let_def ld)
  have img: "mem_eq (pf_image ?f) 0 (pf_image f) 0 PS1_CARD_SIZE"
    by (rule mem_eqI) (simp add: w(3))
  have dir: "mem_eq (pf_read_directory ?f) 0 (pf_image f) 0 PS1_BLOCK_SIZE"
    by (rule mem_eqI) (simp add: w(3) memcpy_apply PS1_BLOCK_SIZE_def PS1_CARD_SIZE_def)
  have chk: "sigil_ps1_file_check dec enc ?f = SIGIL_OK"
  proof (cases "?fmt = SIGIL_CARD_FORMAT_PS1_VMP")
    case True
    then have h: "?h = 128" by (simp add: ps1_header_size_def PS1_VMP_HEADER_SIZE_def)
    have "vmp_sign dec enc ?f = vmp_sign dec enc f"
      by (rule vmp_sign_cong) (use True w(3,4) h in auto)
    also have "\<dots> = bytes_at (pf_header ?f) VMP_SIGNATURE VMP_SIGN_LEN"
      using w(5) True h
      by (auto simp: list_eq_iff_nth_eq VMP_SIGNATURE_def VMP_SIGN_LEN_def mem_of_def [of "vmp_sign dec enc f"])
    finally have e: "vmp_sign dec enc ?f = bytes_at (pf_header ?f) VMP_SIGNATURE VMP_SIGN_LEN" .
    show ?thesis unfolding sigil_ps1_file_check_def e by simp
  qed (simp add: sigil_ps1_file_check_def)
  have "sigil_ps1_file_write dec enc f = (SIGIL_OK, ?data)" using w(1) by (simp add: prod_eq_iff)
  with w(2) load img dir chk show ?thesis by (intro exI [of _ ?data] exI [of _ ?f]) simp
qed

definition ps1_sample_file :: sigil_ps1_file where
  "ps1_sample_file =
     sigil_ps1_file_format \<lparr>pf_image = \<lambda>_. 0, pf_format = SIGIL_CARD_FORMAT_UNKNOWN, pf_header = \<lambda>_. 0,
                            pf_read_directory = \<lambda>_. 0\<rparr> SIGIL_CARD_FORMAT_PS1_VMP"

lemma ps1_sample_file_ok: "ps1_file_ok ps1_sample_file"
proof -
  have s: "fold (\<lambda>i h. h(12 + i := of_nat i)) [0..<20] h j = h j" if "j < 12" for h :: mem and j
    by (rule fold_outside_regions [where R = "\<lambda>_. {12..}"]) (use that in auto)
  have m: "has_bytes (sigil_ps1_format (\<lambda>_. 0)) 0 (str ''MC'')" by (rule ps1_format_header)
  show ?thesis
    using m
    by (simp add: ps1_sample_file_def ps1_file_ok_def sigil_ps1_file_format_def Let_def ps1_magic_def
        has_bytes_def bytes_at_def str_def upt_conv_Cons ps1_consts s mem_simps mem_of_def del: upt_rec_numeral)
qed

theorem ps1_file_roundtrip_witness:
  "\<exists>data f'. sigil_ps1_file_write (\<lambda>k b. b) (\<lambda>k b. b) ps1_sample_file = (SIGIL_OK, data) \<and>
     sigil_ps1_file_load (mem_io data) ps1_sample_file = (SIGIL_OK, f') \<and>
     sigil_ps1_file_check (\<lambda>k b. b) (\<lambda>k b. b) f' = SIGIL_OK"
  using ps1_file_roundtrip [OF ps1_sample_file_ok] by blast

text \<open>Which short files load. A raw card or a \<^verbatim>\<open>.vmp\<close> that ends before the card does is refused;
  a \<^verbatim>\<open>.gme\<close> loads with the missing tail as zeros.\<close>

theorem ps1_load_short:
  assumes "fmt \<in> {SIGIL_CARD_FORMAT_PS1_RAW, SIGIL_CARD_FORMAT_PS1_GME, SIGIL_CARD_FORMAT_PS1_VMP}"
    and "ps1_header_size fmt + PS1_BLOCK_SIZE \<le> length data"
    and "length data < ps1_header_size fmt + PS1_CARD_SIZE"
    and "has_bytes (mem_of data) 0 (ps1_magic fmt)"
    and "has_bytes (mem_of data) (ps1_header_size fmt) (str ''MC'')"
  shows "\<exists>img'. sigil_ps1_card_load (mem_io data) img f =
      (if fmt = SIGIL_CARD_FORMAT_PS1_GME then SIGIL_OK else SIGIL_ERR_UNSUPPORTED_FORMAT, img', fmt) \<and>
    (\<forall>i < PS1_CARD_SIZE. img' i = mem_of data (ps1_header_size fmt + i))"
proof -
  have "length data \<le> PS1_CARD_SIZE" if "fmt = SIGIL_CARD_FORMAT_PS1_RAW"
    using assms(3) that by (simp add: ps1_header_size_def)
  from ps1_load_card_buffer [OF assms(1,2) this assms(4,5), of img f None] assms(3)
  show ?thesis by (auto simp: sigil_ps1_card_load_def)
qed

theorem ps1_load_short_witness:
  "\<exists>img'. sigil_ps1_card_load (mem_io (0x4D # 0x43 # replicate 8190 0)) (\<lambda>_. 0) SIGIL_CARD_FORMAT_UNKNOWN =
     (SIGIL_ERR_UNSUPPORTED_FORMAT, img', SIGIL_CARD_FORMAT_PS1_RAW)"
proof -
  have "\<exists>img'. sigil_ps1_card_load (mem_io (0x4D # 0x43 # replicate 8190 0)) (\<lambda>_. 0) SIGIL_CARD_FORMAT_UNKNOWN =
      (if SIGIL_CARD_FORMAT_PS1_RAW = SIGIL_CARD_FORMAT_PS1_GME then SIGIL_OK else SIGIL_ERR_UNSUPPORTED_FORMAT,
       img', SIGIL_CARD_FORMAT_PS1_RAW) \<and>
    (\<forall>i < PS1_CARD_SIZE. img' i = mem_of (0x4D # 0x43 # replicate 8190 0) (ps1_header_size SIGIL_CARD_FORMAT_PS1_RAW + i))"
    by (rule ps1_load_short)
       (simp_all add: ps1_header_size_def ps1_consts ps1_magic_def has_bytes_def bytes_at_def str_def mem_of_def)
  then show ?thesis by auto
qed

end
