(* ===== verification/CardDreamcast.thy ===== *)
theory CardDreamcast
  imports CardCommon Chains Stream
begin

text \<open>
  Dreamcast VMU images: \<^verbatim>\<open>src/src/card_dreamcast.c\<close>, in its order. The image is a byte memory of
  \<open>VMU_CARD_SIZE\<close> bytes, a directory entry the offset of its 32 bytes in it, and the layout read
  from the root block a record. \<open>SIZE_MAX\<close> and a count of 0 of the search functions are \<open>None\<close> and
  the empty list. The lemmas are in \<^verbatim>\<open>CardDreamcastProofs\<close>.
\<close>

section \<open>Layout\<close>

definition VMU_CARD_SIZE :: nat where "VMU_CARD_SIZE = 131072"
definition VMU_BLOCK_SIZE :: nat where "VMU_BLOCK_SIZE = 512"
definition VMU_BLOCKS :: nat where "VMU_BLOCKS = 256"
definition VMU_DIR_ENTRY_SIZE :: nat where "VMU_DIR_ENTRY_SIZE = 32"
definition VMU_NAME_LEN :: nat where "VMU_NAME_LEN = 12"
definition VMU_ROOT_BLOCK :: nat where "VMU_ROOT_BLOCK = 255"
definition VMU_FAT_FREE :: nat where "VMU_FAT_FREE = 0xFFFC"
definition VMU_FAT_END :: nat where "VMU_FAT_END = 0xFFFA"
definition VMU_TYPE_EMPTY :: u8 where "VMU_TYPE_EMPTY = 0x00"
definition VMU_TYPE_DATA :: u8 where "VMU_TYPE_DATA = 0x33"
definition VMU_TYPE_GAME :: u8 where "VMU_TYPE_GAME = 0xCC"
definition VMU_SLOTS_PER_BLOCK :: nat where "VMU_SLOTS_PER_BLOCK = 16"

definition ROOT_FILL_LEN :: nat where "ROOT_FILL_LEN = 16"
definition ROOT_FILL :: u8 where "ROOT_FILL = 0x55"
definition ROOT_COLOUR :: nat where "ROOT_COLOUR = 0x10"
definition ROOT_TIME :: nat where "ROOT_TIME = 0x30"
definition ROOT_LAST_BLOCK :: nat where "ROOT_LAST_BLOCK = 0x40"
definition ROOT_ROOT_BLOCK :: nat where "ROOT_ROOT_BLOCK = 0x44"
definition ROOT_FAT_BLOCK :: nat where "ROOT_FAT_BLOCK = 0x46"
definition ROOT_FAT_SIZE :: nat where "ROOT_FAT_SIZE = 0x48"
definition ROOT_DIR_BLOCK :: nat where "ROOT_DIR_BLOCK = 0x4A"
definition ROOT_DIR_SIZE :: nat where "ROOT_DIR_SIZE = 0x4C"
definition ROOT_USER_SIZE :: nat where "ROOT_USER_SIZE = 0x50"
definition ROOT_FIELD_52 :: nat where "ROOT_FIELD_52 = 0x52"
definition ROOT_FIELD_56 :: nat where "ROOT_FIELD_56 = 0x56"

definition ENTRY_FIRST_BLOCK :: nat where "ENTRY_FIRST_BLOCK = 0x02"
definition ENTRY_NAME :: nat where "ENTRY_NAME = 0x04"
definition ENTRY_TIME :: nat where "ENTRY_TIME = 0x10"
definition ENTRY_SIZE :: nat where "ENTRY_SIZE = 0x18"
definition ENTRY_HEADER :: nat where "ENTRY_HEADER = 0x1A"

lemmas vmu_consts =
  VMU_CARD_SIZE_def VMU_BLOCK_SIZE_def VMU_BLOCKS_def VMU_DIR_ENTRY_SIZE_def VMU_NAME_LEN_def
  VMU_ROOT_BLOCK_def VMU_SLOTS_PER_BLOCK_def ROOT_FILL_LEN_def ROOT_COLOUR_def ROOT_TIME_def
  ROOT_LAST_BLOCK_def ROOT_ROOT_BLOCK_def ROOT_FAT_BLOCK_def ROOT_FAT_SIZE_def ROOT_DIR_BLOCK_def
  ROOT_DIR_SIZE_def ROOT_USER_SIZE_def ROOT_FIELD_52_def ROOT_FIELD_56_def ENTRY_FIRST_BLOCK_def
  ENTRY_NAME_def ENTRY_TIME_def ENTRY_SIZE_def ENTRY_HEADER_def

lemmas vmu_types = VMU_TYPE_EMPTY_def VMU_TYPE_DATA_def VMU_TYPE_GAME_def

record vmu_layout =
  vl_fat_block :: nat
  vl_dir_block :: nat
  vl_dir_blocks :: nat
  vl_dir_step :: int
  vl_user_blocks :: nat

definition vmu_block_at :: "nat \<Rightarrow> nat" where
  "vmu_block_at block = block * VMU_BLOCK_SIZE"

definition vmu_fat_get :: "mem \<Rightarrow> vmu_layout \<Rightarrow> nat \<Rightarrow> nat" where
  "vmu_fat_get img l block = unat (sigil_read_le16 img (vmu_block_at (vl_fat_block l) + 2 * block))"

definition vmu_fat_set :: "mem \<Rightarrow> vmu_layout \<Rightarrow> nat \<Rightarrow> nat \<Rightarrow> mem" where
  "vmu_fat_set img l block val = sigil_write_le16 img (vmu_block_at (vl_fat_block l) + 2 * block) (of_nat val)"

definition vmu_range_clear :: "nat \<Rightarrow> nat \<Rightarrow> vmu_layout \<Rightarrow> bool" where
  "vmu_range_clear low high l =
     (vl_user_blocks l \<le> low \<and> high < VMU_ROOT_BLOCK \<and> (vl_fat_block l < low \<or> high < vl_fat_block l))"

definition vmu_read_layout :: "mem \<Rightarrow> vmu_layout option" where
  "vmu_read_layout img =
     (let root = vmu_block_at VMU_ROOT_BLOCK in
      if list_ex (\<lambda>i. img (root + i) \<noteq> ROOT_FILL) [0..<ROOT_FILL_LEN] then None
      else
        let l = \<lparr>vl_fat_block = unat (sigil_read_le16 img (root + ROOT_FAT_BLOCK)),
                 vl_dir_block = unat (sigil_read_le16 img (root + ROOT_DIR_BLOCK)),
                 vl_dir_blocks = unat (sigil_read_le16 img (root + ROOT_DIR_SIZE)),
                 vl_dir_step = 0,
                 vl_user_blocks = unat (sigil_read_le16 img (root + ROOT_USER_SIZE))\<rparr> in
        if sigil_read_le16 img (root + ROOT_FAT_SIZE) \<noteq> 1 then None
        else if VMU_ROOT_BLOCK \<le> vl_fat_block l \<or> vl_user_blocks l = 0 \<or> vl_fat_block l < vl_user_blocks l then None
        else if vl_dir_blocks l = 0 \<or> VMU_ROOT_BLOCK \<le> vl_dir_block l then None
        else
          let step =
            (if vl_dir_blocks l \<le> vl_dir_block l + 1 \<and>
                vmu_range_clear (vl_dir_block l + 1 - vl_dir_blocks l) (vl_dir_block l) l then Some (-1)
             else if vmu_range_clear (vl_dir_block l) (vl_dir_block l + vl_dir_blocks l - 1) l then Some 1
             else None) in
          case step of
            None \<Rightarrow> None
          | Some step \<Rightarrow>
              let l = l\<lparr>vl_dir_step := step\<rparr> in
              if vmu_fat_get img l VMU_ROOT_BLOCK = VMU_FAT_END \<and>
                 vmu_fat_get img l (vl_fat_block l) = VMU_FAT_END
              then Some l else None)"

definition vmu_slot_count :: "vmu_layout \<Rightarrow> nat" where
  "vmu_slot_count l = vl_dir_blocks l * VMU_SLOTS_PER_BLOCK"

definition vmu_slot_offset :: "vmu_layout \<Rightarrow> nat \<Rightarrow> nat" where
  "vmu_slot_offset l slot =
     (let block = int (vl_dir_block l) + vl_dir_step l * int (slot div VMU_SLOTS_PER_BLOCK)
      in nat block * VMU_BLOCK_SIZE + (slot mod VMU_SLOTS_PER_BLOCK) * VMU_DIR_ENTRY_SIZE)"

definition vmu_is_file :: "mem \<Rightarrow> nat \<Rightarrow> bool" where
  "vmu_is_file m entry = (m entry = VMU_TYPE_DATA \<or> m entry = VMU_TYPE_GAME)"

section \<open>Chains\<close>

function vmu_walk_loop :: "mem \<Rightarrow> vmu_layout \<Rightarrow> (nat \<Rightarrow> bool) \<Rightarrow> nat list \<Rightarrow> nat \<Rightarrow> nat list" where
  "vmu_walk_loop img l seen order block =
     (if vl_user_blocks l \<le> block \<or> seen block then []
      else
        let seen = seen(block := True);
            order = order @ [block];
            nxt = vmu_fat_get img l block
        in if nxt = VMU_FAT_END then order else vmu_walk_loop img l seen order nxt)"
  by pat_completeness auto
termination
proof (relation "measure (\<lambda>(img, l, seen, order, block). card {b. b < vl_user_blocks l \<and> \<not> seen b})")
  fix img :: mem and l :: vmu_layout and seen seen' :: "nat \<Rightarrow> bool" and order order' :: "nat list" and block nxt :: nat
  assume a: "\<not> (vl_user_blocks l \<le> block \<or> seen block)" and s: "seen' = seen(block := True)"
  have "{b. b < vl_user_blocks l \<and> \<not> seen' b} \<subset> {b. b < vl_user_blocks l \<and> \<not> seen b}"
    unfolding s using a by (auto simp: psubset_eq set_eq_iff)
  then show "((img, l, seen', order', nxt), (img, l, seen, order, block)) \<in>
      measure (\<lambda>(img, l, seen, order, block). card {b. b < vl_user_blocks l \<and> \<not> seen b})"
    by (simp add: psubset_card_mono)
qed simp

declare vmu_walk_loop.simps [simp del]

definition vmu_walk_chain :: "mem \<Rightarrow> vmu_layout \<Rightarrow> nat \<Rightarrow> nat list" where
  "vmu_walk_chain img l first = vmu_walk_loop img l (\<lambda>_. False) [] first"

definition vmu_entry_chain :: "mem \<Rightarrow> vmu_layout \<Rightarrow> nat \<Rightarrow> nat list" where
  "vmu_entry_chain img l entry =
     (let order = vmu_walk_chain img l (unat (sigil_read_le16 img (entry + ENTRY_FIRST_BLOCK)))
      in if length order = unat (sigil_read_le16 img (entry + ENTRY_SIZE)) then order else [])"

definition vmu_find_by_block :: "mem \<Rightarrow> vmu_layout \<Rightarrow> nat \<Rightarrow> nat option" where
  "vmu_find_by_block img l first_block =
     find (\<lambda>entry. vmu_is_file img entry \<and>
                   unat (sigil_read_le16 img (entry + ENTRY_FIRST_BLOCK)) = first_block \<and>
                   vmu_entry_chain img l entry \<noteq> [])
       (map (vmu_slot_offset l) [0..<vmu_slot_count l])"

section \<open>Reading and listing\<close>

definition sigil_dreamcast_card_load :: "sigil_io \<Rightarrow> mem \<Rightarrow> rc \<times> mem" where
  "sigil_dreamcast_card_load io img =
     (let siz = stream_size io in
      if 0 \<le> siz \<and> siz \<noteq> int VMU_CARD_SIZE then (SIGIL_ERR_UNSUPPORTED_FORMAT, img)
      else
        let (rc, img, got) = sigil_io_read_upto io 0 img 0 VMU_CARD_SIZE in
        if rc \<noteq> SIGIL_OK then (rc, img)
        else if got \<noteq> VMU_CARD_SIZE then (SIGIL_ERR_UNSUPPORTED_FORMAT, img)
        else
          let rc =
            (if siz < 0 then
               (let (rc, _, got) = sigil_io_read_upto io VMU_CARD_SIZE (\<lambda>_. 0) 0 1 in
                if rc \<noteq> SIGIL_OK then rc
                else if got \<noteq> 0 then SIGIL_ERR_UNSUPPORTED_FORMAT else SIGIL_OK)
             else SIGIL_OK) in
          if rc \<noteq> SIGIL_OK then (rc, img)
          else (if vmu_read_layout img \<noteq> None then SIGIL_OK else SIGIL_ERR_UNSUPPORTED_FORMAT, img))"

definition vmu_count_claims :: "mem \<Rightarrow> vmu_layout \<Rightarrow> nat \<Rightarrow> nat" where
  "vmu_count_claims img l =
     fold (\<lambda>s claims.
        if \<not> vmu_is_file img (vmu_slot_offset l s) then claims
        else claim_chain_sat (vmu_entry_chain img l (vmu_slot_offset l s)) claims)
       [0..<vmu_slot_count l] (\<lambda>_. 0)"

definition vmu_chain_shared :: "mem \<Rightarrow> vmu_layout \<Rightarrow> nat \<Rightarrow> (nat \<Rightarrow> nat) \<Rightarrow> bool" where
  "vmu_chain_shared img l entry claims = list_ex (\<lambda>b. 1 < claims b) (vmu_entry_chain img l entry)"

definition vmu_name_at :: "mem \<Rightarrow> nat \<Rightarrow> bytes" where
  "vmu_name_at img entry = cstr (bytes_at img (entry + ENTRY_NAME) VMU_NAME_LEN)"

definition vmu_list_slot ::
    "mem \<Rightarrow> vmu_layout \<Rightarrow> (nat \<Rightarrow> nat) \<Rightarrow> nat \<Rightarrow> sigil_card_listing \<Rightarrow> sigil_card_listing" where
  "vmu_list_slot img l claims s listing =
     (let entry = vmu_slot_offset l s in
      if img entry = VMU_TYPE_EMPTY then listing\<lparr>free_slots := free_slots listing + 1\<rparr>
      else if \<not> vmu_is_file img entry then listing
      else
        let name = vmu_name_at img entry;
            first = unat (sigil_read_le16 img (entry + ENTRY_FIRST_BLOCK));
            blocks = length (vmu_entry_chain img l entry) in
        if blocks = 0 \<or> vmu_chain_shared img l entry claims
        then sigil_card_listing_corrupt listing (Some name) None first
        else listing_add listing
               \<lparr>ce_name = name, ce_owner_id = [], ce_blocks = blocks, ce_first_block = first\<rparr>)"

definition sigil_dreamcast_card_list :: "mem \<Rightarrow> rc \<times> sigil_card_listing option" where
  "sigil_dreamcast_card_list img =
     (case vmu_read_layout img of
        None \<Rightarrow> (SIGIL_ERR_UNSUPPORTED_FORMAT, None)
      | Some l \<Rightarrow>
          let claims = vmu_count_claims img l;
              listing = (sigil_card_listing_new SIGIL_CARD_FORMAT_DREAMCAST_VMU)
                \<lparr>total_blocks := vl_user_blocks l,
                 free_blocks := length (filter (\<lambda>b. vmu_fat_get img l b = VMU_FAT_FREE) [0..<vl_user_blocks l])\<rparr>
          in (SIGIL_OK, Some (fold (vmu_list_slot img l claims) [0..<vmu_slot_count l] listing)))"

definition sigil_dreamcast_entry_data :: "mem \<Rightarrow> nat \<Rightarrow> nat \<Rightarrow> mem \<Rightarrow> rc \<times> mem" where
  "sigil_dreamcast_entry_data img first_block blocks out =
     (case vmu_read_layout img of
        None \<Rightarrow> (SIGIL_ERR_INVALID_ARG, out)
      | Some l \<Rightarrow>
          let order = vmu_walk_chain img l first_block in
          if length order = 0 \<or> length order \<noteq> blocks then (SIGIL_ERR_INVALID_ARG, out)
          else (SIGIL_OK,
                fold (\<lambda>i out. memcpy out (i * VMU_BLOCK_SIZE) img (vmu_block_at (order ! i)) VMU_BLOCK_SIZE)
                  [0..<length order] out))"

definition sigil_dreamcast_card_list_io :: "sigil_io \<Rightarrow> rc \<times> sigil_card_listing option" where
  "sigil_dreamcast_card_list_io io =
     (let (rc, img) = sigil_dreamcast_card_load io (\<lambda>_. 0) in
      if rc = SIGIL_OK then sigil_dreamcast_card_list img else (rc, None))"

section \<open>Repair\<close>

definition VMS_HEADER_SIZE :: nat where "VMS_HEADER_SIZE = 0x80"
definition VMS_ICON_COUNT :: nat where "VMS_ICON_COUNT = 0x40"
definition VMS_EYECATCH_TYPE :: nat where "VMS_EYECATCH_TYPE = 0x44"
definition VMS_CRC :: nat where "VMS_CRC = 0x46"
definition VMS_DATA_SIZE :: nat where "VMS_DATA_SIZE = 0x48"
definition VMS_ICON_SIZE :: nat where "VMS_ICON_SIZE = 512"

definition EYECATCH_SIZE :: "nat list" where
  "EYECATCH_SIZE = [0, 72 * 56 * 2, 512 + 72 * 56, 32 + 72 * 56 div 2]"

definition vms_crc_bit :: "u16 \<Rightarrow> u16" where
  "vms_crc_bit n = (if n AND 0x8000 \<noteq> 0 then push_bit 1 n XOR 0x1021 else push_bit 1 n)"

definition sigil_dreamcast_vms_crc :: "mem \<Rightarrow> nat \<Rightarrow> u16" where
  "sigil_dreamcast_vms_crc data len =
     fold (\<lambda>i n. (vms_crc_bit ^^ 8) (n XOR push_bit 8 (ucast (data i)))) [0..<len] 0"

text \<open>The result and the flag \<^verbatim>\<open>unverifiable\<close>.\<close>

definition vmu_vms_checks :: "mem \<Rightarrow> nat list \<Rightarrow> bool \<times> bool" where
  "vmu_vms_checks img blocks =
     (let count = length blocks;
          len = count * VMU_BLOCK_SIZE;
          file = fold (\<lambda>i file. memcpy file (i * VMU_BLOCK_SIZE) img (vmu_block_at (blocks ! i)) VMU_BLOCK_SIZE)
                   [0..<count] (\<lambda>_. 0);
          eyecatch = unat (sigil_read_le16 file VMS_EYECATCH_TYPE);
          stored = sigil_read_le16 file VMS_CRC;
          covered = VMS_HEADER_SIZE + unat (sigil_read_le16 file VMS_ICON_COUNT) * VMS_ICON_SIZE
            + (if eyecatch < 4 then EYECATCH_SIZE ! eyecatch else 0) + unat (sigil_read_le32 file VMS_DATA_SIZE)
      in if stored = 0 then (False, True)
         else if eyecatch < 4 \<and> covered \<le> len
         then (sigil_dreamcast_vms_crc (file(VMS_CRC := 0, VMS_CRC + 1 := 0)) covered = stored, False)
         else (False, False))"

text \<open>The damage, and the rebuilt chain (empty when there is none).\<close>

definition vmu_damage :: "mem \<Rightarrow> vmu_layout \<Rightarrow> nat \<Rightarrow> sigil_card_damage \<times> nat list" where
  "vmu_damage img l entry =
     (let first = unat (sigil_read_le16 img (entry + ENTRY_FIRST_BLOCK));
          siz = unat (sigil_read_le16 img (entry + ENTRY_SIZE));
          walked = length (vmu_walk_chain img l first) in
      if walked \<noteq> 0 \<and> walked = siz then (SIGIL_CARD_DAMAGE_BLOCKS_SHARED, [])
      else if walked \<noteq> 0 then (SIGIL_CARD_DAMAGE_SIZE_MISMATCH, [])
      else if vl_user_blocks l \<le> first \<or> vmu_fat_get img l first \<noteq> VMU_FAT_FREE
      then (SIGIL_CARD_DAMAGE_CHAIN_BROKEN, [])
      else if img entry \<noteq> VMU_TYPE_DATA \<or> sigil_read_le16 img (entry + ENTRY_HEADER) \<noteq> 0 \<or> siz = 0
      then (SIGIL_CARD_DAMAGE_UNVERIFIABLE, [])
      else if first + 1 < siz then (SIGIL_CARD_DAMAGE_BLOCKS_IN_USE, [])
      else
        let rebuilt = map (\<lambda>i. first - i) [0..<siz] in
        if list_ex (\<lambda>block. vmu_fat_get img l block \<noteq> VMU_FAT_FREE) rebuilt
        then (SIGIL_CARD_DAMAGE_BLOCKS_IN_USE, [])
        else
          let (ok, unverifiable) = vmu_vms_checks img rebuilt in
          if \<not> ok
          then (if unverifiable then SIGIL_CARD_DAMAGE_UNVERIFIABLE else SIGIL_CARD_DAMAGE_CHECKSUM_MISMATCH, [])
          else (SIGIL_CARD_DAMAGE_CHAIN_UNWRITTEN, rebuilt))"

text \<open>Writing a chain into the FAT: \<^verbatim>\<open>fat_set(b[i], i + 1 < n ? b[i + 1] : VMU_FAT_END)\<close> for each \<open>i\<close>.\<close>

definition vmu_set_chain :: "vmu_layout \<Rightarrow> nat list \<Rightarrow> nat \<Rightarrow> mem \<Rightarrow> mem" where
  "vmu_set_chain l blocks i img =
     vmu_fat_set img l (blocks ! i) (if i + 1 < length blocks then blocks ! (i + 1) else VMU_FAT_END)"

definition vmu_repair_slot ::
    "vmu_layout \<Rightarrow> (nat \<Rightarrow> nat) \<Rightarrow> nat \<Rightarrow> mem \<times> sigil_card_repair_report \<times> bool
       \<Rightarrow> mem \<times> sigil_card_repair_report \<times> bool" where
  "vmu_repair_slot l claims s = (\<lambda>(img, report, changed).
     let entry = vmu_slot_offset l s in
     if \<not> vmu_is_file img entry then (img, report, changed)
     else if vmu_entry_chain img l entry \<noteq> [] \<and> \<not> vmu_chain_shared img l entry claims then (img, report, changed)
     else
       let name = vmu_name_at img entry;
           (damage, rebuilt) = vmu_damage img l entry;
           img = fold (vmu_set_chain l rebuilt) [0..<length rebuilt] img;
           report = sigil_card_repair_note report (Some name) None
             (unat (sigil_read_le16 img (entry + ENTRY_FIRST_BLOCK))) damage (rebuilt \<noteq> [])
       in (img, report, rebuilt \<noteq> [] \<or> changed))"

definition sigil_dreamcast_card_repair ::
    "mem \<Rightarrow> sigil_card_repair_report \<Rightarrow> rc \<times> mem \<times> sigil_card_repair_report \<times> bool" where
  "sigil_dreamcast_card_repair img report =
     (case vmu_read_layout img of
        None \<Rightarrow> (SIGIL_ERR_UNSUPPORTED_FORMAT, img, report, False)
      | Some l \<Rightarrow>
          (SIGIL_OK, fold (vmu_repair_slot l (vmu_count_claims img l)) [0..<vmu_slot_count l] (img, report, False)))"

section \<open>Saves\<close>

definition sigil_dreamcast_dci_size :: "nat \<Rightarrow> nat" where
  "sigil_dreamcast_dci_size blocks = VMU_DIR_ENTRY_SIZE + blocks * VMU_BLOCK_SIZE"

definition vmu_reverse_groups :: "mem \<Rightarrow> nat \<Rightarrow> mem \<Rightarrow> nat \<Rightarrow> nat \<Rightarrow> mem" where
  "vmu_reverse_groups dst p src q len =
     fold (\<lambda>g dst. let i = 4 * g in
             dst(p + i := src (q + i + 3), p + i + 1 := src (q + i + 2),
                 p + i + 2 := src (q + i + 1), p + i + 3 := src (q + i)))
       [0..<len div 4] dst"

definition sigil_dreamcast_extract :: "mem \<Rightarrow> nat \<Rightarrow> nat \<Rightarrow> mem \<Rightarrow> rc \<times> mem" where
  "sigil_dreamcast_extract img first_block blocks out =
     (case vmu_read_layout img of
        None \<Rightarrow> (SIGIL_ERR_INVALID_ARG, out)
      | Some l \<Rightarrow>
          (case vmu_find_by_block img l first_block of
             None \<Rightarrow> (SIGIL_ERR_INVALID_ARG, out)
           | Some off \<Rightarrow>
               let order = vmu_entry_chain img l off in
               if length order \<noteq> blocks then (SIGIL_ERR_INVALID_ARG, out)
               else
                 let out = memcpy out 0 img off VMU_DIR_ENTRY_SIZE;
                     out = sigil_write_le16 out ENTRY_FIRST_BLOCK 0
                 in (SIGIL_OK,
                     fold (\<lambda>i out. vmu_reverse_groups out (sigil_dreamcast_dci_size i) img
                                     (vmu_block_at (order ! i)) VMU_BLOCK_SIZE)
                       [0..<length order] out)))"

definition FORMAT_COLOUR :: bytes where "FORMAT_COLOUR = [0x01, 0xFF, 0xFF, 0xFF, 0xFF]"
definition FORMAT_TIME :: bytes where "FORMAT_TIME = [0x19, 0x98, 0x11, 0x27, 0x00, 0x00, 0x58, 0x04]"
definition FORMAT_FAT_BLOCK :: nat where "FORMAT_FAT_BLOCK = 254"
definition FORMAT_DIR_BLOCK :: nat where "FORMAT_DIR_BLOCK = 253"
definition FORMAT_DIR_BLOCKS :: nat where "FORMAT_DIR_BLOCKS = 13"
definition FORMAT_USER_BLOCKS :: nat where "FORMAT_USER_BLOCKS = 200"

definition sigil_dreamcast_format :: "mem \<Rightarrow> mem" where
  "sigil_dreamcast_format img =
     (let img = memset img 0 0 VMU_CARD_SIZE;
          root = vmu_block_at VMU_ROOT_BLOCK;
          img = memset img root ROOT_FILL ROOT_FILL_LEN;
          img = memcpy img (root + ROOT_COLOUR) (mem_of FORMAT_COLOUR) 0 (length FORMAT_COLOUR);
          img = memcpy img (root + ROOT_TIME) (mem_of FORMAT_TIME) 0 (length FORMAT_TIME);
          img = sigil_write_le16 img (root + ROOT_LAST_BLOCK) (of_nat VMU_ROOT_BLOCK);
          img = sigil_write_le16 img (root + ROOT_ROOT_BLOCK) (of_nat VMU_ROOT_BLOCK);
          img = sigil_write_le16 img (root + ROOT_FAT_BLOCK) (of_nat FORMAT_FAT_BLOCK);
          img = sigil_write_le16 img (root + ROOT_FAT_SIZE) 1;
          img = sigil_write_le16 img (root + ROOT_DIR_BLOCK) (of_nat FORMAT_DIR_BLOCK);
          img = sigil_write_le16 img (root + ROOT_DIR_SIZE) (of_nat FORMAT_DIR_BLOCKS);
          img = sigil_write_le16 img (root + ROOT_USER_SIZE) (of_nat FORMAT_USER_BLOCKS);
          img = sigil_write_le16 img (root + ROOT_FIELD_52) 0x1F;
          img = sigil_write_le16 img (root + ROOT_FIELD_56) 0x80;
          l = \<lparr>vl_fat_block = FORMAT_FAT_BLOCK, vl_dir_block = FORMAT_DIR_BLOCK,
               vl_dir_blocks = FORMAT_DIR_BLOCKS, vl_dir_step = -1, vl_user_blocks = FORMAT_USER_BLOCKS\<rparr>;
          dir_low = FORMAT_DIR_BLOCK + 1 - FORMAT_DIR_BLOCKS;
          img = fold (\<lambda>b img. vmu_fat_set img l b VMU_FAT_FREE) [0..<dir_low] img;
          img = vmu_fat_set img l dir_low VMU_FAT_END;
          img = fold (\<lambda>b img. vmu_fat_set img l b (b - 1)) [dir_low + 1..<FORMAT_DIR_BLOCK + 1] img;
          img = vmu_fat_set img l FORMAT_FAT_BLOCK VMU_FAT_END
      in vmu_fat_set img l VMU_ROOT_BLOCK VMU_FAT_END)"

text \<open>\<open>like\<close> is \<open>None\<close> for a NULL pointer.\<close>

definition sigil_dreamcast_format_like :: "mem \<Rightarrow> mem option \<Rightarrow> mem" where
  "sigil_dreamcast_format_like img like =
     (case like of
        None \<Rightarrow> sigil_dreamcast_format img
      | Some like \<Rightarrow>
          (case vmu_read_layout like of
             None \<Rightarrow> sigil_dreamcast_format img
           | Some l \<Rightarrow>
               let img = memcpy img 0 like 0 VMU_CARD_SIZE;
                   img = fold (\<lambda>s img. memset img (vmu_slot_offset l s) 0 VMU_DIR_ENTRY_SIZE) [0..<vmu_slot_count l] img
               in fold (\<lambda>b img. memset (vmu_fat_set img l b VMU_FAT_FREE) (vmu_block_at b) 0 VMU_BLOCK_SIZE)
                    [0..<vl_user_blocks l] img))"

definition vmu_dci_blocks :: "mem \<Rightarrow> nat \<Rightarrow> nat" where
  "vmu_dci_blocks dci len =
     (if len < sigil_dreamcast_dci_size 1 then 0
      else if (len - VMU_DIR_ENTRY_SIZE) mod VMU_BLOCK_SIZE \<noteq> 0 then 0
      else
        let blocks = (len - VMU_DIR_ENTRY_SIZE) div VMU_BLOCK_SIZE in
        if VMU_BLOCKS < blocks \<or> \<not> vmu_is_file dci 0 \<or> unat (sigil_read_le16 dci ENTRY_SIZE) \<noteq> blocks
        then 0 else blocks)"

definition vmu_named_as :: "mem \<Rightarrow> nat \<Rightarrow> mem \<Rightarrow> bool" where
  "vmu_named_as img entry dci =
     (vmu_is_file img entry \<and> mem_eq img (entry + ENTRY_NAME) dci ENTRY_NAME VMU_NAME_LEN)"

definition vmu_name_taken :: "mem \<Rightarrow> vmu_layout \<Rightarrow> mem \<Rightarrow> bool" where
  "vmu_name_taken img l dci =
     list_ex (\<lambda>s. vmu_named_as img (vmu_slot_offset l s) dci) [0..<vmu_slot_count l]"

definition vmu_choose_blocks :: "mem \<Rightarrow> vmu_layout \<Rightarrow> bool \<Rightarrow> nat \<Rightarrow> nat list option" where
  "vmu_choose_blocks img l game blocks =
     (if vl_user_blocks l < blocks then None
      else if game then
        (if list_ex (\<lambda>b. vmu_fat_get img l b \<noteq> VMU_FAT_FREE) [0..<blocks] then None else Some [0..<blocks])
      else
        let chosen = take blocks (filter (\<lambda>b. vmu_fat_get img l b = VMU_FAT_FREE) (rev [0..<vl_user_blocks l]))
        in if length chosen = blocks then Some chosen else None)"

definition sigil_dreamcast_cost :: "mem \<Rightarrow> nat \<Rightarrow> nat" where
  "sigil_dreamcast_cost dci len = vmu_dci_blocks dci len"

definition vmu_inject_block :: "vmu_layout \<Rightarrow> nat list \<Rightarrow> mem \<Rightarrow> nat \<Rightarrow> mem \<Rightarrow> mem" where
  "vmu_inject_block l chosen dci i img =
     (let img = vmu_reverse_groups img (vmu_block_at (chosen ! i)) dci (sigil_dreamcast_dci_size i) VMU_BLOCK_SIZE
      in vmu_fat_set img l (chosen ! i) (if i + 1 = length chosen then VMU_FAT_END else chosen ! (i + 1)))"

definition sigil_dreamcast_inject :: "mem \<Rightarrow> mem \<Rightarrow> nat \<Rightarrow> rc \<times> mem" where
  "sigil_dreamcast_inject img dci len =
     (let blocks = vmu_dci_blocks dci len in
      if blocks = 0 then (SIGIL_ERR_UNSUPPORTED_FORMAT, img)
      else case vmu_read_layout img of
        None \<Rightarrow> (SIGIL_ERR_INVALID_ARG, img)
      | Some l \<Rightarrow>
          if vmu_name_taken img l dci then (SIGIL_ERR_EXISTS, img)
          else case vmu_choose_blocks img l (dci 0 = VMU_TYPE_GAME) blocks of
            None \<Rightarrow> (SIGIL_ERR_NO_SPACE, img)
          | Some chosen \<Rightarrow>
              (case find (\<lambda>slot. img slot = VMU_TYPE_EMPTY) (map (vmu_slot_offset l) [0..<vmu_slot_count l]) of
                 None \<Rightarrow> (SIGIL_ERR_NO_SPACE, img)
               | Some slot \<Rightarrow>
                   let img = fold (vmu_inject_block l chosen dci) [0..<blocks] img;
                       img = memcpy img slot dci 0 VMU_DIR_ENTRY_SIZE
                   in (SIGIL_OK, sigil_write_le16 img (slot + ENTRY_FIRST_BLOCK) (of_nat (chosen ! 0)))))"

definition sigil_dreamcast_delete :: "mem \<Rightarrow> nat \<Rightarrow> rc \<times> mem" where
  "sigil_dreamcast_delete img first_block =
     (case vmu_read_layout img of
        None \<Rightarrow> (SIGIL_ERR_INVALID_ARG, img)
      | Some l \<Rightarrow>
          (case vmu_find_by_block img l first_block of
             None \<Rightarrow> (SIGIL_ERR_INVALID_ARG, img)
           | Some off \<Rightarrow>
               let order = vmu_entry_chain img l off;
                   img = fold (\<lambda>b img. vmu_fat_set img l b VMU_FAT_FREE) order img
               in (SIGIL_OK, memset img off 0 VMU_DIR_ENTRY_SIZE)))"

text \<open>A successful \<open>extract\<close> overwrites the whole of the copy that the loop compares.\<close>

definition sigil_dreamcast_verify :: "mem \<Rightarrow> mem \<Rightarrow> nat \<Rightarrow> rc" where
  "sigil_dreamcast_verify img dci len =
     (let blocks = vmu_dci_blocks dci len in
      if blocks = 0 then SIGIL_ERR_UNSUPPORTED_FORMAT
      else case vmu_read_layout img of
        None \<Rightarrow> SIGIL_ERR_INVALID_ARG
      | Some l \<Rightarrow>
          if list_ex (\<lambda>s. let entry = vmu_slot_offset l s in
                vmu_named_as img entry dci \<and> length (vmu_entry_chain img l entry) = blocks \<and>
                (let (rc, copy) = sigil_dreamcast_extract img
                       (unat (sigil_read_le16 img (entry + ENTRY_FIRST_BLOCK))) blocks (\<lambda>_. 0)
                 in rc = SIGIL_OK \<and> mem_eq copy 0 dci 0 ENTRY_FIRST_BLOCK \<and>
                    mem_eq copy (ENTRY_FIRST_BLOCK + 2) dci (ENTRY_FIRST_BLOCK + 2) (len - ENTRY_FIRST_BLOCK - 2)))
              [0..<vmu_slot_count l]
          then SIGIL_OK else SIGIL_ERR_NOT_FOUND)"

section \<open>VMS and VMI files\<close>

definition VMI_SIZE :: nat where "VMI_SIZE = 108"
definition VMI_CHECKSUM :: nat where "VMI_CHECKSUM = 0x00"
definition VMI_TIME :: nat where "VMI_TIME = 0x44"
definition VMI_RESOURCE_NAME :: nat where "VMI_RESOURCE_NAME = 0x50"
definition VMI_FILENAME :: nat where "VMI_FILENAME = 0x58"
definition VMI_FILE_MODE :: nat where "VMI_FILE_MODE = 0x64"
definition VMI_FILE_SIZE :: nat where "VMI_FILE_SIZE = 0x68"
definition VMI_MODE_GAME :: u16 where "VMI_MODE_GAME = 0x02"
definition VMI_MODE_PROTECT :: u16 where "VMI_MODE_PROTECT = 0x01"

definition vmu_to_bcd :: "nat \<Rightarrow> u8 option" where
  "vmu_to_bcd val =
     (if 99 < val then None else Some (push_bit 4 (of_nat (val div 10)) OR of_nat (val mod 10)))"

fun vmu_all_bcd :: "nat list \<Rightarrow> bytes option" where
  "vmu_all_bcd [] = Some []"
| "vmu_all_bcd (v # vs) =
     (case vmu_to_bcd v of None \<Rightarrow> None | Some b \<Rightarrow> map_option ((#) b) (vmu_all_bcd vs))"

definition vmi_time_to_bcd :: "mem \<Rightarrow> nat \<Rightarrow> bytes option" where
  "vmi_time_to_bcd vmi p =
     (let year = unat (sigil_read_le16 vmi p)
      in vmu_all_bcd (year div 100 # year mod 100 # map (\<lambda>i. unat (vmi (p + 2 + i))) [0..<6]))"

definition sigil_dreamcast_dci_from_vms :: "mem \<Rightarrow> nat \<Rightarrow> mem \<Rightarrow> nat \<Rightarrow> mem \<Rightarrow> rc \<times> mem" where
  "sigil_dreamcast_dci_from_vms vms vms_len vmi vmi_len out =
     (if vmi_len \<noteq> VMI_SIZE \<or> vms_len = 0 \<or> vms_len mod VMU_BLOCK_SIZE \<noteq> 0
      then (SIGIL_ERR_UNSUPPORTED_FORMAT, out)
      else
        let blocks = vms_len div VMU_BLOCK_SIZE in
        if VMU_BLOCKS < blocks \<or> unat (sigil_read_le32 vmi VMI_FILE_SIZE) \<noteq> vms_len
        then (SIGIL_ERR_UNSUPPORTED_FORMAT, out)
        else if list_ex (\<lambda>i. vmi (VMI_CHECKSUM + i) \<noteq> (vmi (VMI_RESOURCE_NAME + i) AND str ''SEGA'' ! i)) [0..<4]
        then (SIGIL_ERR_UNSUPPORTED_FORMAT, out)
        else
          case vmi_time_to_bcd vmi VMI_TIME of
            None \<Rightarrow> (SIGIL_ERR_UNSUPPORTED_FORMAT, out)
          | Some bcd \<Rightarrow>
              let mode = sigil_read_le16 vmi VMI_FILE_MODE;
                  game = (mode AND VMI_MODE_GAME \<noteq> 0);
                  entry = memcpy (\<lambda>_. 0) ENTRY_TIME (mem_of bcd) 0 8;
                  entry = entry(0 := if game then VMU_TYPE_GAME else VMU_TYPE_DATA,
                                1 := if mode AND VMI_MODE_PROTECT \<noteq> 0 then 0xFF else 0x00);
                  entry = memcpy entry ENTRY_NAME vmi VMI_FILENAME VMU_NAME_LEN;
                  entry = sigil_write_le16 entry ENTRY_SIZE (of_nat blocks);
                  entry = sigil_write_le16 entry ENTRY_HEADER (if game then 1 else 0);
                  out = memcpy out 0 entry 0 VMU_DIR_ENTRY_SIZE
              in (SIGIL_OK, vmu_reverse_groups out VMU_DIR_ENTRY_SIZE vms 0 vms_len))"

end
