(* ===== verification/CardStore.thy ===== *)
theory CardStore
  imports Chains
begin

text \<open>
  Cards with a directory and a block table. The Dreamcast VMU and the GameCube card both keep a
  save as a directory entry naming its first block and its size, and a chain of links through a
  table. This theory says for both what a whole save is, what adding and removing one does to the
  table and the directory (\<open>inserted\<close> and \<open>removed\<close>), and what follows for the other saves. The
  locale extends the contract of \<^verbatim>\<open>Chains\<close> by the directory; the format theories interpret it on
  the code's model and show that their \<open>inject\<close> and \<open>delete\<close> are such an insertion and removal.
\<close>

locale card_store = chain_reader step start walk
  for step :: "'c \<Rightarrow> nat \<Rightarrow> link" and start :: "'c \<Rightarrow> nat \<Rightarrow> bool" and walk :: "'c \<Rightarrow> nat \<Rightarrow> nat list" +
  fixes dir :: "'c \<Rightarrow> nat \<Rightarrow> (nat \<times> nat) option"
    and data :: "'c \<Rightarrow> nat \<Rightarrow> bytes"
    and meta :: "'c \<Rightarrow> nat \<Rightarrow> bytes"
    and sized :: bool
  assumes walk_start: "walk c b \<noteq> [] \<Longrightarrow> start c b"
    and step_start: "step c b = Next x \<Longrightarrow> start c x"
begin

text \<open>A slot's chain, and a whole save: one whose chain has the length the directory records.\<close>

definition chained :: "'c \<Rightarrow> nat \<Rightarrow> nat list \<Rightarrow> bool" where
  "chained c s bs \<longleftrightarrow> (\<exists>f n. dir c s = Some (f, n) \<and> walk c f = bs \<and> bs \<noteq> [])"

definition whole :: "'c \<Rightarrow> nat \<Rightarrow> nat list \<Rightarrow> bool" where
  "whole c s bs \<longleftrightarrow> (\<exists>f. dir c s = Some (f, length bs) \<and> walk c f = bs \<and> bs \<noteq> [])"

text \<open>The chains the listing counts as claiming their blocks: those of the recorded size (\<open>sized\<close>)
  or all. A save is live when it is whole and no other claiming chain shares a block with it; a card
  is clean when every directory entry is a live save.\<close>

definition claims :: "'c \<Rightarrow> nat \<Rightarrow> nat list \<Rightarrow> bool" where
  "claims c s bs \<longleftrightarrow> (if sized then whole c s bs else chained c s bs)"

definition live :: "'c \<Rightarrow> nat \<Rightarrow> nat list \<Rightarrow> bool" where
  "live c s bs \<longleftrightarrow> whole c s bs \<and> (\<forall>t cs. t \<noteq> s \<longrightarrow> claims c t cs \<longrightarrow> set cs \<inter> set bs = {})"

definition clean :: "'c \<Rightarrow> bool" where
  "clean c \<longleftrightarrow> (\<forall>s. dir c s \<noteq> None \<longrightarrow> (\<exists>bs. live c s bs))"

text \<open>What the save in a slot holds: its directory bytes and its blocks in chain order.\<close>

definition save :: "'c \<Rightarrow> nat \<Rightarrow> (bytes \<times> bytes list) option" where
  "save c s =
     (case dir c s of
        None \<Rightarrow> None
      | Some (f, n) \<Rightarrow> if walk c f \<noteq> [] \<and> length (walk c f) = n
                      then Some (meta c s, map (data c) (walk c f)) else None)"

definition inserted :: "'c \<Rightarrow> 'c \<Rightarrow> nat \<Rightarrow> nat list \<Rightarrow> bool" where
  "inserted c c' s ch \<longleftrightarrow>
     ch \<noteq> [] \<and> distinct ch \<and> (\<forall>b \<in> set ch. start c b \<and> step c b = Bad) \<and>
     (\<forall>b. start c' b = start c b) \<and>
     (\<forall>b. b \<notin> set ch \<longrightarrow> start c b \<longrightarrow> step c' b = step c b \<and> data c' b = data c b) \<and>
     (\<forall>i < length ch. step c' (ch ! i) = (if Suc i = length ch then End else Next (ch ! Suc i))) \<and>
     dir c s = None \<and> dir c' s = Some (hd ch, length ch) \<and>
     (\<forall>t. t \<noteq> s \<longrightarrow> dir c' t = dir c t \<and> (dir c t \<noteq> None \<longrightarrow> meta c' t = meta c t))"

definition removed :: "'c \<Rightarrow> 'c \<Rightarrow> nat \<Rightarrow> nat list \<Rightarrow> bool" where
  "removed c c' s bs \<longleftrightarrow>
     whole c s bs \<and> (\<forall>b. start c' b = start c b) \<and>
     (\<forall>b. b \<notin> set bs \<longrightarrow> start c b \<longrightarrow> step c' b = step c b \<and> data c' b = data c b) \<and>
     (\<forall>b \<in> set bs. step c' b = Bad) \<and> dir c' s = None \<and>
     (\<forall>t. t \<noteq> s \<longrightarrow> dir c' t = dir c t \<and> (dir c t \<noteq> None \<longrightarrow> meta c' t = meta c t))"

lemma whole_chained: "whole c s bs \<Longrightarrow> chained c s bs"
  by (auto simp: whole_def chained_def)

lemma chained_unique: "chained c s bs \<Longrightarrow> chained c s cs \<Longrightarrow> bs = cs"
  by (auto simp: chained_def)

lemma chainedE:
  assumes "chained c s bs"
  obtains f n where "dir c s = Some (f, n)" "walk c f = bs" "bs \<noteq> []" "start c f" "hd bs = f"
    "linked (step c) bs" "distinct bs" "f \<in> set bs"
proof -
  from assms obtain f n where d: "dir c s = Some (f, n)" "walk c f = bs" "bs \<noteq> []" by (auto simp: chained_def)
  then have s: "start c f" using walk_start by blast
  show thesis
    using d s walk_hd [OF s] walk_linked [OF s] walk_distinct [OF s] start_in_walk [OF s]
    by (intro that) simp_all
qed

lemma chained_not_bad:
  assumes "chained c s bs" and "b \<in> set bs"
  shows "step c b \<noteq> Bad"
proof -
  from assms(1) have "linked (step c) bs" by (elim chainedE)
  with assms(2) show ?thesis by (auto simp: linked_nth in_set_conv_nth split: if_splits)
qed

lemma chain_start: "start c f \<Longrightarrow> linked (step c) bs \<Longrightarrow> hd bs = f \<Longrightarrow> b \<in> set bs \<Longrightarrow> start c b"
proof (induction bs arbitrary: f)
  case (Cons x xs)
  show ?case
  proof (cases "b = x")
    case False
    then have ne: "b \<in> set xs" using Cons.prems by simp
    then obtain y ys where xs: "xs = y # ys" by (cases xs) auto
    have "step c x = Next y" "linked (step c) xs" using Cons.prems(2) xs by simp_all
    then show ?thesis using Cons.IH [of y] step_start ne xs by simp
  qed (use Cons.prems in simp)
qed simp

text \<open>Cards with the same blocks and the same links have the same chains.\<close>

lemma walk_same:
  assumes "\<And>b. start c' b = start c b" and "\<And>b. start c b \<Longrightarrow> step c' b = step c b"
  shows "walk c' f = walk c f"
proof -
  have half: "walk d' f = walk d f"
    if st: "\<And>b. start d' b = start d b" "\<And>b. start d b \<Longrightarrow> step d' b = step d b" and ne: "walk d f \<noteq> []" for d d'
  proof -
    have s: "start d f" by (rule walk_start [OF ne])
    note w = walk_linked [OF s ne] walk_hd [OF s ne] walk_distinct [OF s]
    have "linked (step d') (walk d f)"
      using w(1) linked_cong [of "walk d f" "step d'" "step d"] st(2) chain_start [OF s w(1,2)] by blast
    with walk_complete [of d' "walk d f"] w st(1) s show ?thesis by simp
  qed
  show ?thesis
  proof (cases "walk c f = []")
    case True
    show ?thesis
    proof (rule ccontr)
      assume "walk c' f \<noteq> walk c f"
      then have "walk c' f \<noteq> []" using True by simp
      from half [OF _ _ this, of c] assms True this show False by simp
    qed
  qed (use half assms in blast)
qed

text \<open>A chain over blocks two cards agree on is a chain of both.\<close>

lemma chained_cong:
  assumes "chained c s bs" and "dir c' s = dir c s" and "start c' (hd bs)"
    and "\<And>b. b \<in> set bs \<Longrightarrow> step c' b = step c b"
  shows "chained c' s bs" and "whole c s bs \<Longrightarrow> whole c' s bs"
proof -
  from assms(1) obtain f n where d: "dir c s = Some (f, n)" "walk c f = bs" "bs \<noteq> []" "hd bs = f"
    "linked (step c) bs" "distinct bs" by (elim chainedE)
  have "linked (step c') bs" using d(5) linked_cong assms(4) by metis
  then have "walk c' f = bs" using walk_complete [of c' bs] assms(3) d(4,6) by simp
  then show "chained c' s bs" "whole c s bs \<Longrightarrow> whole c' s bs"
    using d assms(2) by (auto simp: chained_def whole_def)
qed

subsection \<open>Adding a save\<close>

lemma inserted_new:
  assumes "inserted c c' s ch"
  shows "whole c' s ch"
proof -
  have ch: "ch \<noteq> []" "distinct ch" "start c' (hd ch)" "dir c' s = Some (hd ch, length ch)"
    using assms by (auto simp: inserted_def)
  moreover have "walk c' (hd ch) = ch"
    by (rule walk_written [OF ch(1-3)]) (use assms in \<open>simp add: inserted_def\<close>)
  ultimately show ?thesis by (simp add: whole_def)
qed

lemma inserted_keeps:
  assumes ins: "inserted c c' s ch" and old: "chained c t bs"
  shows "chained c' t bs" and "whole c t bs \<Longrightarrow> whole c' t bs" and "t \<noteq> s" and "set bs \<inter> set ch = {}"
    and "save c' t = save c t"
proof -
  from old obtain f n where d: "dir c t = Some (f, n)" "walk c f = bs" "bs \<noteq> []" "start c f" "hd bs = f"
    "linked (step c) bs" by (elim chainedE)
  show ts: "t \<noteq> s" using ins d(1) by (auto simp: inserted_def)
  show dj: "set bs \<inter> set ch = {}"
    using ins chained_not_bad [OF old] by (auto simp: inserted_def)
  have "start c b \<and> b \<notin> set ch" if "b \<in> set bs" for b
  proof
    show "b \<notin> set ch" using dj that by blast
    show "start c b" using chain_start [OF d(4,6,5)] that by blast
  qed
  then have st: "step c' b = step c b" "data c' b = data c b" if "b \<in> set bs" for b
    using that ins by (simp_all add: inserted_def)
  have dr: "dir c' t = dir c t" "meta c' t = meta c t" using ins ts d(1) by (simp_all add: inserted_def)
  have "start c' (hd bs)" using ins d(4,5) by (simp add: inserted_def)
  from chained_cong [OF old dr(1) this st(1)]
  show ch: "chained c' t bs" and "whole c t bs \<Longrightarrow> whole c' t bs" by simp_all
  have "walk c' f = bs" using ch dr d(1) by (auto simp: chained_def)
  then show "save c' t = save c t" using dr d st by (simp add: save_def)
qed

text \<open>A chain that the insertion closes runs into the new save, and into no other.\<close>

lemma inserted_new_chain:
  assumes ins: "inserted c c' s ch" and new: "chained c' t cs" and ts: "t \<noteq> s" and old: "\<nexists>bs. chained c t bs"
  shows "set cs \<inter> set ch \<noteq> {}"
proof
  assume dj: "set cs \<inter> set ch = {}"
  from new obtain f n where d: "start c' f" "hd cs = f" "linked (step c') cs" by (elim chainedE)
  have "step c b = step c' b" if "b \<in> set cs" for b
  proof -
    have "start c' b" using chain_start [OF d(1,3,2) that] .
    then show ?thesis using ins dj that by (simp add: inserted_def disjoint_iff)
  qed
  from chained_cong(1) [OF new _ _ this] ins ts d(1,2) old show False
    by (auto simp: inserted_def)
qed

lemma inserted_new_disjoint:
  assumes ins: "inserted c c' s ch" and u: "chained c u us" and new: "chained c' t cs"
    and old: "\<nexists>bs. chained c t bs" and ts: "t \<noteq> s"
  shows "set cs \<inter> set us = {}"
proof (rule ccontr)
  note ku = inserted_keeps [OF ins u]
  from ku(1) obtain fu where U: "walk c' fu = us" "start c' fu" by (elim chainedE)
  from new obtain ft where T: "walk c' ft = cs" "start c' ft" "linked (step c') cs" by (elim chainedE)
  from whole_chained [OF inserted_new [OF ins]] obtain fs where S: "walk c' fs = ch" "start c' fs"
    by (elim chainedE)
  assume "set cs \<inter> set us \<noteq> {}"
  then obtain x where x: "x \<in> set (walk c' ft)" "x \<in> set (walk c' fu)" using T U by auto
  from inserted_new_chain [OF ins new ts old] obtain y where y: "y \<in> set (walk c' ft)" "y \<in> set (walk c' fs)"
    using T S by auto
  from walk_meet [OF T(2) U(2) x] obtain as bs ds
    where a: "cs = as @ x # ds" and b: "us = bs @ x # ds" using T U by auto
  have "y \<notin> set (x # ds)" using b y(2) S(1) ku(4) by auto
  then have "y \<in> set as" using y(1) T(1) a by auto
  then obtain p q where as: "as = p @ y # q" by (meson split_list)
  from walk_meet [OF T(2) S(2) y] obtain ps qs rs
    where a': "cs = ps @ y # rs" and c: "ch = qs @ y # rs" using T S by auto
  have "linked (step c') (ps @ y # rs)" and "linked (step c') (p @ y # (q @ x # ds))"
    using T(3) a a' as by simp_all
  then have "rs = q @ x # ds" by (rule linked_meet)
  then show False using c b ku(4) by auto
qed

lemma claims_chained: "claims c s bs \<Longrightarrow> chained c s bs"
  by (auto simp: claims_def whole_chained split: if_splits)

lemma whole_claims: "whole c s bs \<Longrightarrow> claims c s bs"
  by (simp add: claims_def whole_chained)

lemma inserted_claims:
  assumes ins: "inserted c c' s ch" and "chained c t bs"
  shows "claims c' t cs \<longleftrightarrow> claims c t cs"
proof -
  note k = inserted_keeps [OF ins assms(2)]
  have d: "dir c' t = dir c t" using ins k(3) by (simp add: inserted_def)
  have "chained c' t cs \<longleftrightarrow> cs = bs" "chained c t cs \<longleftrightarrow> cs = bs"
    using k(1) assms(2) chained_unique by blast+
  moreover have "whole c' t bs \<longleftrightarrow> whole c t bs"
    using k(2) d assms(2) by (auto simp: whole_def chained_def)
  ultimately show ?thesis using whole_chained by (auto simp: claims_def)
qed

lemma inserted_live_old:
  assumes ins: "inserted c c' s ch" and old: "chained c t bs"
  shows "live c' t bs \<longleftrightarrow> live c t bs"
proof -
  note k = inserted_keeps [OF ins old]
  have w: "whole c' t bs \<longleftrightarrow> whole c t bs"
    using k(2) k(3) ins old by (auto simp: whole_def chained_def inserted_def)
  have "(\<forall>cs. claims c' u cs \<longrightarrow> set cs \<inter> set bs = {}) \<longleftrightarrow> (\<forall>cs. claims c u cs \<longrightarrow> set cs \<inter> set bs = {})" for u
  proof (cases "\<exists>us. chained c u us")
    case True
    then show ?thesis using inserted_claims [OF ins] by blast
  next
    case False
    have "set cs \<inter> set bs = {}" if "claims c' u cs" for cs
    proof (cases "u = s")
      case True
      then have "cs = ch" using chained_unique claims_chained [OF that] whole_chained [OF inserted_new [OF ins]] by blast
      then show ?thesis using k(4) by blast
    next
      case us: False
      show ?thesis by (rule inserted_new_disjoint [OF ins old claims_chained [OF that] False us])
    qed
    then show ?thesis using False claims_chained by blast
  qed
  then show ?thesis using w unfolding live_def by blast
qed

lemma live_whole: "live c s bs \<Longrightarrow> whole c s bs"
  by (simp add: live_def)

text \<open>On a clean card the live saves after the insertion are those before and the new one.\<close>

lemma inserted_clean:
  assumes ins: "inserted c c' s ch" and cl: "clean c"
  shows "live c' t bs \<longleftrightarrow> live c t bs \<or> t = s \<and> bs = ch" and "clean c'"
proof -
  have old: "\<exists>bs. live c u bs" if "dir c' u \<noteq> None" "u \<noteq> s" for u
    using that cl ins by (auto simp: clean_def inserted_def)
  have new: "live c' s ch"
    unfolding live_def
  proof (intro conjI allI impI)
    fix u cs assume u: "u \<noteq> s" "claims c' u cs"
    then have "dir c' u \<noteq> None" using claims_chained [OF u(2)] by (auto simp: chained_def)
    with old u(1) obtain bs where "live c u bs" by blast
    then have cb: "chained c u bs" by (simp add: live_whole whole_chained)
    with inserted_keeps [OF ins cb] chained_unique claims_chained [OF u(2)] show "set cs \<inter> set ch = {}" by blast
  qed (rule inserted_new [OF ins])
  show live: "live c' t bs \<longleftrightarrow> live c t bs \<or> t = s \<and> bs = ch" for t bs
  proof
    assume l: "live c' t bs"
    show "live c t bs \<or> t = s \<and> bs = ch"
    proof (cases "t = s")
      case True
      then show ?thesis using l new chained_unique live_whole whole_chained by blast
    next
      case False
      have "dir c' t \<noteq> None" using live_whole [OF l] by (auto simp: whole_def)
      with old False obtain cs where cs: "live c t cs" by blast
      then have "chained c t cs" by (simp add: live_whole whole_chained)
      from inserted_keeps(1) [OF ins this] l have "cs = bs"
        using chained_unique live_whole whole_chained by blast
      with cs show ?thesis by simp
    qed
  next
    assume "live c t bs \<or> t = s \<and> bs = ch"
    then show "live c' t bs"
      using new inserted_live_old [OF ins, of t bs] live_whole whole_chained by blast
  qed
  show "clean c'" unfolding clean_def using old live by blast
qed

subsection \<open>Removing a save\<close>

lemma removed_keeps:
  assumes rem: "removed c c' s bs" and old: "chained c t cs" and ts: "t \<noteq> s" and dj: "set cs \<inter> set bs = {}"
  shows "chained c' t cs" and "whole c t cs \<Longrightarrow> whole c' t cs" and "save c' t = save c t"
proof -
  from old obtain f n where d: "dir c t = Some (f, n)" "walk c f = cs" "cs \<noteq> []" "start c f" "hd cs = f"
    "linked (step c) cs" by (elim chainedE)
  have st: "step c' b = step c b" "data c' b = data c b" if "b \<in> set cs" for b
    using that dj rem chain_start [OF d(4,6,5) that] by (auto simp: removed_def)
  have dr: "dir c' t = dir c t" "meta c' t = meta c t" using rem ts d(1) by (simp_all add: removed_def)
  have "start c' (hd cs)" using rem d(4,5) by (simp add: removed_def)
  from chained_cong [OF old dr(1) this st(1)]
  show ch: "chained c' t cs" and "whole c t cs \<Longrightarrow> whole c' t cs" by simp_all
  have "walk c' f = cs" using ch dr d(1) by (auto simp: chained_def)
  then show "save c' t = save c t" using dr d st by (simp add: save_def)
qed

lemma removed_chained:
  assumes rem: "removed c c' s bs" and new: "chained c' t cs"
  shows "chained c t cs" and "t \<noteq> s" and "set cs \<inter> set bs = {}"
proof -
  show ts: "t \<noteq> s" using rem new by (auto simp: removed_def chained_def)
  show dj: "set cs \<inter> set bs = {}" using rem chained_not_bad [OF new] by (auto simp: removed_def)
  from new obtain f n where d: "start c' f" "hd cs = f" "linked (step c') cs" by (elim chainedE)
  have "step c b = step c' b" if "b \<in> set cs" for b
    using that dj rem chain_start [OF d(1,3,2) that] by (auto simp: removed_def)
  from chained_cong(1) [OF new _ _ this] rem ts d(1,2) show "chained c t cs"
    by (auto simp: removed_def)
qed

lemma removed_live:
  assumes rem: "removed c c' s bs" and lv: "live c s bs"
  shows "live c' t cs \<longleftrightarrow> live c t cs \<and> t \<noteq> s"
proof
  have sz: "dir c' u = dir c u" if "u \<noteq> s" for u using rem that by (simp add: removed_def)
  have cl: "claims c u us" if "claims c' u us" for u us
    using that removed_chained [OF rem claims_chained [OF that]] sz
    by (auto simp: claims_def whole_def chained_def split: if_splits)
  { assume l: "live c' t cs"
    note r = removed_chained [OF rem whole_chained [OF live_whole [OF l]]]
    have w: "whole c t cs" using live_whole [OF l] r(1,2) sz by (auto simp: whole_def chained_def)
    have "set us \<inter> set cs = {}" if u: "u \<noteq> t" "claims c u us" for u us
    proof (cases "u = s")
      case True
      then have "us = bs" using chained_unique claims_chained [OF u(2)] whole_chained [OF live_whole [OF lv]] by blast
      then show ?thesis using r(3) by blast
    next
      case False
      then have dj: "set us \<inter> set bs = {}" using lv u(2) by (simp add: live_def)
      from removed_keeps(1,2) [OF rem claims_chained [OF u(2)] False dj] u(2) have "claims c' u us"
        by (auto simp: claims_def split: if_splits)
      then show ?thesis using l u(1) by (simp add: live_def)
    qed
    with w r(2) show "live c t cs \<and> t \<noteq> s" by (simp add: live_def) }
  { assume l: "live c t cs \<and> t \<noteq> s"
    then have "claims c t cs" "t \<noteq> s" using whole_claims live_whole by blast+
    then have dj: "set cs \<inter> set bs = {}" using lv by (simp add: live_def)
    have "whole c' t cs"
      using removed_keeps(2) [OF rem whole_chained _ dj] l live_whole by blast
    moreover have "set us \<inter> set cs = {}" if "u \<noteq> t" "claims c' u us" for u us
      using l that cl by (simp add: live_def)
    ultimately show "live c' t cs" by (simp add: live_def) }
qed

lemma removed_clean:
  assumes rem: "removed c c' s bs" and cl: "clean c"
  shows "clean c'"
proof -
  have "whole c s bs" using rem by (simp add: removed_def)
  then have "live c s bs"
    using cl chained_unique whole_chained live_whole unfolding clean_def whole_def by (metis option.distinct(1))
  note live = removed_live [OF rem this]
  show ?thesis
    unfolding clean_def
  proof (intro allI impI)
    fix t assume "dir c' t \<noteq> None"
    moreover from this have ts: "t \<noteq> s" using rem by (auto simp: removed_def)
    moreover have "dir c' t = dir c t" using rem ts by (simp add: removed_def)
    ultimately have "t \<noteq> s" "dir c t \<noteq> None" by simp_all
    with cl live show "\<exists>bs. live c' t bs" by (auto simp: clean_def)
  qed
qed

end

end
