(* ===== verification/CardDreamcastProofs.thy ===== *)
theory CardDreamcastProofs
  imports CardDreamcast CardStore
begin

text \<open>
  Correctness of the Dreamcast VMU model. The FAT walk meets the contract of \<^verbatim>\<open>Chains\<close> and the
  directory that of \<^verbatim>\<open>CardStore\<close>; \<open>inject\<close> and \<open>delete\<close> are an insertion and a removal there;
  the listing shows the live files; and the repair writes only chains it has proved.
\<close>

section \<open>The layout\<close>

text \<open>A layout that \<open>read_layout\<close> accepts, and where it puts things.\<close>

definition vmu_fits :: "vmu_layout \<Rightarrow> bool" where
  "vmu_fits l =
     (vl_fat_block l < 255 \<and> 0 < vl_user_blocks l \<and> vl_user_blocks l \<le> vl_fat_block l \<and>
      0 < vl_dir_blocks l \<and> vl_dir_block l < 255 \<and>
      (vl_dir_step l = -1 \<and> vl_dir_blocks l \<le> vl_dir_block l + 1 \<and>
         vmu_range_clear (vl_dir_block l + 1 - vl_dir_blocks l) (vl_dir_block l) l \<or>
       vl_dir_step l = 1 \<and> vmu_range_clear (vl_dir_block l) (vl_dir_block l + vl_dir_blocks l - 1) l))"

text \<open>What \<open>read_layout\<close> looks at: the root block, and the FAT's own two entries.\<close>

definition vmu_raw_layout :: "mem \<Rightarrow> vmu_layout" where
  "vmu_raw_layout img =
     \<lparr>vl_fat_block = unat (sigil_read_le16 img 130630), vl_dir_block = unat (sigil_read_le16 img 130634),
      vl_dir_blocks = unat (sigil_read_le16 img 130636), vl_dir_step = 0,
      vl_user_blocks = unat (sigil_read_le16 img 130640)\<rparr>"

definition vmu_dir_steps :: "vmu_layout \<Rightarrow> int option" where
  "vmu_dir_steps l =
     (if vl_dir_blocks l \<le> vl_dir_block l + 1 \<and>
         vmu_range_clear (vl_dir_block l + 1 - vl_dir_blocks l) (vl_dir_block l) l then Some (-1)
      else if vmu_range_clear (vl_dir_block l) (vl_dir_block l + vl_dir_blocks l - 1) l then Some 1 else None)"

lemma vmu_read_layout_iff:
  "vmu_read_layout img = Some l \<longleftrightarrow>
     (\<forall>i < 16. img (130560 + i) = 0x55) \<and> sigil_read_le16 img 130632 = 1 \<and>
     (\<exists>step. vmu_dir_steps (vmu_raw_layout img) = Some step \<and> l = vmu_raw_layout img\<lparr>vl_dir_step := step\<rparr>) \<and>
     vl_fat_block l < 255 \<and> 0 < vl_user_blocks l \<and> vl_user_blocks l \<le> vl_fat_block l \<and>
     0 < vl_dir_blocks l \<and> vl_dir_block l < 255 \<and>
     vmu_fat_get img l 255 = VMU_FAT_END \<and> vmu_fat_get img l (vl_fat_block l) = VMU_FAT_END"
proof -
  have ex: "list_ex (\<lambda>i. img (130560 + i) \<noteq> ROOT_FILL) [0..<16] \<longleftrightarrow> \<not> (\<forall>i < 16. img (130560 + i) = 0x55)"
    by (auto simp: list_ex_iff ROOT_FILL_def simp del: upt_rec_numeral)
  have raw: "\<lparr>vl_fat_block = unat (sigil_read_le16 img 130630), vl_dir_block = unat (sigil_read_le16 img 130634),
      vl_dir_blocks = unat (sigil_read_le16 img 130636), vl_dir_step = 0,
      vl_user_blocks = unat (sigil_read_le16 img 130640)\<rparr> = vmu_raw_layout img"
    by (simp add: vmu_raw_layout_def)
  let ?r = "vmu_raw_layout img"
  have "vmu_read_layout img =
     (if \<not> (\<forall>i < 16. img (130560 + i) = 0x55) then None
      else if sigil_read_le16 img 130632 \<noteq> 1 then None
      else if 255 \<le> vl_fat_block ?r \<or> vl_user_blocks ?r = 0 \<or> vl_fat_block ?r < vl_user_blocks ?r then None
      else if vl_dir_blocks ?r = 0 \<or> 255 \<le> vl_dir_block ?r then None
      else case vmu_dir_steps ?r of None \<Rightarrow> None
        | Some step \<Rightarrow>
            if vmu_fat_get img (?r\<lparr>vl_dir_step := step\<rparr>) 255 = VMU_FAT_END \<and>
               vmu_fat_get img (?r\<lparr>vl_dir_step := step\<rparr>) (vl_fat_block ?r) = VMU_FAT_END
            then Some (?r\<lparr>vl_dir_step := step\<rparr>) else None)"
    unfolding vmu_read_layout_def Let_def vmu_block_at_def vmu_consts vmu_dir_steps_def
    by (simp add: ex raw del: upt_rec_numeral)
  then show ?thesis by (auto split: if_splits option.splits)
qed

lemma vmu_read_layout_fits: "vmu_read_layout img = Some l \<Longrightarrow> vmu_fits l"
  by (auto simp: vmu_read_layout_iff vmu_fits_def vmu_dir_steps_def vmu_range_clear_def split: if_splits)

lemma vmu_read_layout_cong:
  assumes l: "vmu_read_layout img = Some l"
    and root: "\<And>k. k < 512 \<Longrightarrow> img' (130560 + k) = img (130560 + k)"
    and fat: "vmu_fat_get img' l 255 = vmu_fat_get img l 255"
      "vmu_fat_get img' l (vl_fat_block l) = vmu_fat_get img l (vl_fat_block l)"
  shows "vmu_read_layout img' = Some l"
proof -
  have r: "sigil_read_le16 img' (130560 + x) = sigil_read_le16 img (130560 + x)" if "x < 511" for x
    using root [of x] root [of "x + 1"] that by (intro read_le16_cong) (simp_all add: ac_simps)
  have "vmu_raw_layout img' = vmu_raw_layout img" "sigil_read_le16 img' 130632 = sigil_read_le16 img 130632"
    using r [of 70] r [of 74] r [of 76] r [of 80] r [of 72] by (simp_all add: vmu_raw_layout_def)
  then show ?thesis using l fat root by (simp add: vmu_read_layout_iff)
qed

definition vmu_dir_at :: "vmu_layout \<Rightarrow> nat \<Rightarrow> nat" where
  "vmu_dir_at l k = nat (int (vl_dir_block l) + vl_dir_step l * int k)"

lemma vmu_dir_at_range:
  assumes "vmu_fits l" and "k < vl_dir_blocks l"
  shows "vl_user_blocks l \<le> vmu_dir_at l k \<and> vmu_dir_at l k < 255 \<and> vmu_dir_at l k \<noteq> vl_fat_block l"
  using assms by (auto simp: vmu_fits_def vmu_range_clear_def VMU_ROOT_BLOCK_def vmu_dir_at_def nat_diff_distrib)

lemma vmu_dir_at_inj:
  assumes "vmu_fits l" and "k < vl_dir_blocks l" and "j < vl_dir_blocks l" and "vmu_dir_at l k = vmu_dir_at l j"
  shows "k = j"
  using assms by (auto simp: vmu_fits_def vmu_dir_at_def)

lemma vmu_slot_offset_eq: "vmu_slot_offset l s = vmu_dir_at l (s div 16) * 512 + (s mod 16) * 32"
  by (simp add: vmu_slot_offset_def Let_def vmu_dir_at_def vmu_consts)

lemma vmu_slot_block:
  assumes "vmu_fits l" and "s < vmu_slot_count l" and "k < 32"
  obtains d where "vmu_slot_offset l s + k = d * 512 + ((s mod 16) * 32 + k)" "(s mod 16) * 32 + k < 512"
    "vl_user_blocks l \<le> d" "d < 255" "d \<noteq> vl_fat_block l" "d = vmu_dir_at l (s div 16)"
proof -
  have s: "s div 16 < vl_dir_blocks l" using assms(2) by (simp add: vmu_slot_count_def VMU_SLOTS_PER_BLOCK_def less_mult_imp_div_less)
  have "s mod 16 \<le> 15" by simp
  then have "(s mod 16) * 32 + k < 512" using assms(3) by linarith
  then show thesis
    using that [of "vmu_dir_at l (s div 16)"] vmu_dir_at_range [OF assms(1) s] by (simp add: vmu_slot_offset_eq)
qed

text \<open>Offsets in different blocks differ.\<close>

lemma block_neq: "a * 512 + x = b * 512 + (y :: nat) \<Longrightarrow> x < 512 \<Longrightarrow> y < 512 \<Longrightarrow> a = b \<and> x = y"
proof -
  assume a: "a * 512 + x = b * 512 + y" "x < 512" "y < 512"
  have "(a * 512 + x) div 512 = a" "(b * 512 + y) div 512 = b" using a(2,3) by simp_all
  with a(1) have "a = b" by simp
  with a(1) show ?thesis by simp
qed

lemma vmu_slots_disjoint:
  assumes "vmu_fits l" and "s < vmu_slot_count l" and "t < vmu_slot_count l" and "j < 32" and "k < 32"
    and "vmu_slot_offset l s + j = vmu_slot_offset l t + k"
  shows "s = t \<and> j = k"
proof -
  obtain d where d: "vmu_slot_offset l s + j = d * 512 + ((s mod 16) * 32 + j)" "(s mod 16) * 32 + j < 512"
    "d = vmu_dir_at l (s div 16)" using vmu_slot_block [OF assms(1,2,4)] by metis
  obtain e where e: "vmu_slot_offset l t + k = e * 512 + ((t mod 16) * 32 + k)" "(t mod 16) * 32 + k < 512"
    "e = vmu_dir_at l (t div 16)" using vmu_slot_block [OF assms(1,3,5)] by metis
  have eq: "d * 512 + ((s mod 16) * 32 + j) = e * 512 + ((t mod 16) * 32 + k)" using d e assms(6) by simp
  from block_neq [OF eq d(2) e(2)] have de: "d = e" "(s mod 16) * 32 + j = (t mod 16) * 32 + k" by simp_all
  have "((s mod 16) * 32 + j) div 32 = s mod 16" "((t mod 16) * 32 + k) div 32 = t mod 16" using assms(4,5) by simp_all
  then have m: "s mod 16 = t mod 16" using de(2) by simp
  have "s div 16 < vl_dir_blocks l" "t div 16 < vl_dir_blocks l"
    using assms(2,3) by (simp_all add: vmu_slot_count_def VMU_SLOTS_PER_BLOCK_def less_mult_imp_div_less)
  with vmu_dir_at_inj [OF assms(1)] d(3) e(3) de(1) have "s div 16 = t div 16" by blast
  with m have "s = t" by (metis div_mult_mod_eq)
  with de(2) show ?thesis by simp
qed

section \<open>The chain reader\<close>

definition vmu_step :: "mem \<times> vmu_layout \<Rightarrow> nat \<Rightarrow> link" where
  "vmu_step c b =
     (let nxt = vmu_fat_get (fst c) (snd c) b in
      if nxt = VMU_FAT_END then End
      else if nxt < vl_user_blocks (snd c) then Next nxt else Bad)"

definition vmu_start :: "mem \<times> vmu_layout \<Rightarrow> nat \<Rightarrow> bool" where
  "vmu_start c b = (b < vl_user_blocks (snd c))"

lemma vmu_walk_loop_step:
  "vmu_walk_loop img l seen order b =
    (if \<not> vmu_start (img, l) b \<or> seen b then []
     else case vmu_step (img, l) b of
       End \<Rightarrow> order @ [b]
     | Bad \<Rightarrow> []
     | Next c \<Rightarrow> vmu_walk_loop img l (seen(b := True)) (order @ [b]) c)"
proof (cases "\<not> vmu_start (img, l) b \<or> seen b")
  case True
  then show ?thesis by (subst vmu_walk_loop.simps) (auto simp: vmu_start_def)
next
  case False
  let ?n = "vmu_fat_get img l b"
  have "vmu_walk_loop img l s o' ?n = []" if "\<not> ?n < vl_user_blocks l" for s o'
    using that by (subst vmu_walk_loop.simps) simp
  then show ?thesis
    using False by (subst vmu_walk_loop.simps) (simp add: vmu_step_def vmu_start_def Let_def)
qed

lemma vmu_walk_loop_sound:
  "(\<And>i. seen i \<longleftrightarrow> i \<in> set order) \<Longrightarrow> distinct order \<Longrightarrow> vmu_walk_loop img l seen order b \<noteq> [] \<Longrightarrow>
   \<exists>bs. vmu_walk_loop img l seen order b = order @ bs \<and> hd bs = b \<and> linked (vmu_step (img, l)) bs \<and> distinct (order @ bs)"
proof (induction img l seen order b rule: vmu_walk_loop.induct)
  case (1 img l seen order b)
  note unfold = vmu_walk_loop_step [of img l seen order b]
  have ok: "vmu_start (img, l) b" "\<not> seen b" using unfold "1.prems"(3) by (auto split: if_splits)
  show ?case
  proof (cases "vmu_step (img, l) b")
    case End
    then have "vmu_walk_loop img l seen order b = order @ [b]" using unfold ok by simp
    moreover have "b \<notin> set order" using "1.prems"(1) ok(2) by blast
    ultimately show ?thesis using End "1.prems"(2) by (intro exI [of _ "[b]"]) simp
  next
    case Bad
    then show ?thesis using unfold "1.prems"(3) by (auto split: if_splits)
  next
    case (Next c)
    then have w: "vmu_walk_loop img l seen order b = vmu_walk_loop img l (seen(b := True)) (order @ [b]) c"
      using unfold ok by simp
    from Next have c: "c = vmu_fat_get img l b" "c \<noteq> VMU_FAT_END" by (auto simp: vmu_step_def Let_def split: if_splits)
    have g: "\<not> (vl_user_blocks l \<le> b \<or> seen b)" using ok by (simp add: vmu_start_def)
    have "\<exists>bs. vmu_walk_loop img l (seen(b := True)) (order @ [b]) c = (order @ [b]) @ bs \<and> hd bs = c \<and>
        linked (vmu_step (img, l)) bs \<and> distinct ((order @ [b]) @ bs)"
    proof (rule "1.IH" [OF g refl refl c])
      show "(seen(b := True)) i \<longleftrightarrow> i \<in> set (order @ [b])" for i using "1.prems"(1) by simp
      show "distinct (order @ [b])" using "1.prems"(1,2) ok(2) by auto
      show "vmu_walk_loop img l (seen(b := True)) (order @ [b]) c \<noteq> []" using "1.prems"(3) unfolding w .
    qed
    then obtain bs where bs: "vmu_walk_loop img l (seen(b := True)) (order @ [b]) c = (order @ [b]) @ bs"
      "hd bs = c" "linked (vmu_step (img, l)) bs" "distinct ((order @ [b]) @ bs)" by blast
    have "linked (vmu_step (img, l)) (b # bs)" using bs(2,3) Next by (cases bs) auto
    with bs(1,4) w show ?thesis by (intro exI [of _ "b # bs"]) auto
  qed
qed

lemma vmu_walk_loop_complete:
  "linked (vmu_step (img, l)) bs \<Longrightarrow> distinct (order @ bs) \<Longrightarrow> vmu_start (img, l) (hd bs) \<Longrightarrow>
   (\<And>i. seen i \<longleftrightarrow> i \<in> set order) \<Longrightarrow> vmu_walk_loop img l seen order (hd bs) = order @ bs"
proof (induction bs arbitrary: seen order)
  case Nil
  then show ?case by simp
next
  case (Cons b bs)
  have ok: "vmu_start (img, l) b" "\<not> seen b" using Cons.prems by auto
  note unfold = vmu_walk_loop_step [of img l seen order b]
  show ?case
  proof (cases bs)
    case Nil
    then show ?thesis using unfold ok Cons.prems(1) by simp
  next
    case (Cons c cs)
    then have s: "vmu_step (img, l) b = Next c" and lk: "linked (vmu_step (img, l)) bs" using Cons.prems(1) by auto
    have "vmu_start (img, l) c" using s by (auto simp: vmu_step_def vmu_start_def Let_def split: if_splits)
    then have "vmu_walk_loop img l (seen(b := True)) (order @ [b]) (hd bs) = (order @ [b]) @ bs"
      using Cons.prems(2,4) Cons by (intro Cons.IH lk) auto
    then show ?thesis using unfold s ok Cons by simp
  qed
qed

text \<open>The directory: the first block and the size of each file.\<close>

definition vmu_dir :: "mem \<times> vmu_layout \<Rightarrow> nat \<Rightarrow> (nat \<times> nat) option" where
  "vmu_dir c s =
     (let off = vmu_slot_offset (snd c) s in
      if s < vmu_slot_count (snd c) \<and> vmu_is_file (fst c) off
      then Some (unat (sigil_read_le16 (fst c) (off + 2)), unat (sigil_read_le16 (fst c) (off + 0x18))) else None)"

definition vmu_data :: "mem \<times> vmu_layout \<Rightarrow> nat \<Rightarrow> bytes" where
  "vmu_data c b = bytes_at (fst c) (b * 512) 512"

text \<open>The entry's bytes but for its first block, which names where the save sits.\<close>

definition vmu_meta :: "mem \<times> vmu_layout \<Rightarrow> nat \<Rightarrow> bytes" where
  "vmu_meta c s = (let off = vmu_slot_offset (snd c) s in bytes_at (sigil_write_le16 (fst c) (off + 2) 0) off 32)"

interpretation vmu: card_store vmu_step vmu_start "\<lambda>(img, l). vmu_walk_chain img l" vmu_dir vmu_data vmu_meta True
proof unfold_locales
  fix c :: "mem \<times> vmu_layout" and b :: nat
  obtain img l where c: "c = (img, l)" by (cases c)
  { assume "(case c of (img, l) \<Rightarrow> vmu_walk_chain img l) b \<noteq> []"
    then have ne: "vmu_walk_chain img l b \<noteq> []" by (simp add: c)
    then show "hd ((case c of (img, l) \<Rightarrow> vmu_walk_chain img l) b) = b \<and>
        linked (vmu_step c) ((case c of (img, l) \<Rightarrow> vmu_walk_chain img l) b) \<and>
        distinct ((case c of (img, l) \<Rightarrow> vmu_walk_chain img l) b)"
      using vmu_walk_loop_sound [of "\<lambda>_. False" "[]" img l b] by (auto simp: c vmu_walk_chain_def)
    from ne show "vmu_start c b"
      using vmu_walk_loop_step [of img l "\<lambda>_. False" "[]" b] by (auto simp: c vmu_walk_chain_def split: if_splits) }
next
  fix c :: "mem \<times> vmu_layout" and bs :: "nat list"
  obtain img l where c: "c = (img, l)" by (cases c)
  assume "vmu_start c (hd bs)" "linked (vmu_step c) bs" "distinct bs"
  then show "(case c of (img, l) \<Rightarrow> vmu_walk_chain img l) (hd bs) = bs"
    using vmu_walk_loop_complete [of img l bs "[]" "\<lambda>_. False"] by (simp add: c vmu_walk_chain_def)
next
  fix c :: "mem \<times> vmu_layout" and b x :: nat
  assume "vmu_step c b = Next x"
  then show "vmu_start c x" by (auto simp: vmu_step_def vmu_start_def Let_def split: if_splits)
qed

section \<open>Listing\<close>

lemma vmu_entry_chain_whole:
  assumes "s < vmu_slot_count l" and "vmu_is_file img (vmu_slot_offset l s)"
  shows "vmu.whole (img, l) s bs \<longleftrightarrow> vmu_entry_chain img l (vmu_slot_offset l s) = bs \<and> bs \<noteq> []"
  using assms by (auto simp: vmu.whole_def vmu_dir_def vmu_entry_chain_def Let_def ENTRY_FIRST_BLOCK_def ENTRY_SIZE_def)

lemma vmu_whole_file:
  assumes "vmu.whole (img, l) s bs"
  shows "s < vmu_slot_count l" and "vmu_is_file img (vmu_slot_offset l s)"
    and "vmu_entry_chain img l (vmu_slot_offset l s) = bs" and "bs \<noteq> []"
proof -
  show s: "s < vmu_slot_count l" "vmu_is_file img (vmu_slot_offset l s)"
    using assms by (auto simp: vmu.whole_def vmu_dir_def Let_def split: if_splits)
  then show "vmu_entry_chain img l (vmu_slot_offset l s) = bs" "bs \<noteq> []"
    using vmu_entry_chain_whole assms by blast+
qed

lemma vmu_entry_chain_distinct: "distinct (vmu_entry_chain img l e)"
proof (cases "vmu_entry_chain img l e = []")
  case False
  let ?f = "unat (sigil_read_le16 img (e + ENTRY_FIRST_BLOCK))"
  from False have w: "vmu_entry_chain img l e = vmu_walk_chain img l ?f" "vmu_walk_chain img l ?f \<noteq> []"
    by (auto simp: vmu_entry_chain_def Let_def split: if_splits)
  with vmu.walk_distinct [of "(img, l)" ?f] vmu.walk_start [of "(img, l)" ?f] show ?thesis by simp
qed simp

lemma vmu_claims:
  "vmu_count_claims img l x =
     min 255 (length (filter (\<lambda>s. vmu_is_file img (vmu_slot_offset l s) \<and>
                                  x \<in> set (vmu_entry_chain img l (vmu_slot_offset l s))) [0..<vmu_slot_count l]))"
  unfolding vmu_count_claims_def by (rule fold_claims_sat) (rule vmu_entry_chain_distinct)

lemma vmu_shared:
  assumes "vmu.whole (img, l) s bs"
  shows "vmu_chain_shared img l (vmu_slot_offset l s) (vmu_count_claims img l) \<longleftrightarrow> \<not> vmu.live (img, l) s bs"
proof -
  note w = vmu_whole_file [OF assms]
  have "1 < vmu_count_claims img l x \<longleftrightarrow> (\<exists>t cs. t \<noteq> s \<and> vmu.whole (img, l) t cs \<and> x \<in> set cs)"
    if x: "x \<in> set bs" for x
  proof -
    let ?Q = "\<lambda>s. vmu_is_file img (vmu_slot_offset l s) \<and> x \<in> set (vmu_entry_chain img l (vmu_slot_offset l s))"
    have "1 < vmu_count_claims img l x \<longleftrightarrow> 1 < length (filter ?Q [0..<vmu_slot_count l])"
      unfolding vmu_claims by auto
    also have "\<dots> \<longleftrightarrow> (\<exists>t \<in> set [0..<vmu_slot_count l]. t \<noteq> s \<and> ?Q t)"
      by (rule two_claims) (use w x in auto)
    also have "\<dots> \<longleftrightarrow> (\<exists>t cs. t \<noteq> s \<and> vmu.whole (img, l) t cs \<and> x \<in> set cs)"
    proof
      assume "\<exists>t \<in> set [0..<vmu_slot_count l]. t \<noteq> s \<and> ?Q t"
      then obtain t where t: "t < vmu_slot_count l" "t \<noteq> s" "?Q t" by auto
      then have "vmu.whole (img, l) t (vmu_entry_chain img l (vmu_slot_offset l t))"
        by (subst vmu_entry_chain_whole) auto
      with t show "\<exists>t cs. t \<noteq> s \<and> vmu.whole (img, l) t cs \<and> x \<in> set cs" by blast
    next
      assume "\<exists>t cs. t \<noteq> s \<and> vmu.whole (img, l) t cs \<and> x \<in> set cs"
      then obtain t cs where t: "t \<noteq> s" "vmu.whole (img, l) t cs" "x \<in> set cs" by blast
      with vmu_whole_file [OF t(2)] show "\<exists>t \<in> set [0..<vmu_slot_count l]. t \<noteq> s \<and> ?Q t" by auto
    qed
    finally show ?thesis .
  qed
  then show ?thesis
    using assms w(3) by (auto simp: vmu_chain_shared_def list_ex_iff vmu.live_def vmu.claims_def)
qed

definition vmu_live :: "mem \<Rightarrow> vmu_layout \<Rightarrow> nat \<Rightarrow> bool" where
  "vmu_live img l s = vmu.live (img, l) s (vmu_entry_chain img l (vmu_slot_offset l s))"

lemma vmu_live_iff: "vmu_live img l s \<longleftrightarrow> (\<exists>bs. vmu.live (img, l) s bs)"
  using vmu_whole_file(3) vmu.live_whole unfolding vmu_live_def by metis

definition vmu_entry :: "mem \<Rightarrow> vmu_layout \<Rightarrow> nat \<Rightarrow> sigil_card_entry" where
  "vmu_entry img l s =
     (let e = vmu_slot_offset l s in
      \<lparr>ce_name = vmu_name_at img e, ce_owner_id = [], ce_blocks = length (vmu_entry_chain img l e),
       ce_first_block = unat (sigil_read_le16 img (e + ENTRY_FIRST_BLOCK))\<rparr>)"

lemma vmu_list_slot:
  assumes "s < vmu_slot_count l"
  shows "vmu_list_slot img l (vmu_count_claims img l) s lst =
    (if img (vmu_slot_offset l s) = VMU_TYPE_EMPTY then lst\<lparr>free_slots := free_slots lst + 1\<rparr>
     else if \<not> vmu_is_file img (vmu_slot_offset l s) then lst
     else if vmu_live img l s then listing_add lst (vmu_entry img l s)
     else sigil_card_listing_corrupt lst (Some (vmu_name_at img (vmu_slot_offset l s))) None
            (unat (sigil_read_le16 img (vmu_slot_offset l s + ENTRY_FIRST_BLOCK))))"
proof (cases "vmu_is_file img (vmu_slot_offset l s)")
  case fl: True
  show ?thesis
  proof (cases "vmu_entry_chain img l (vmu_slot_offset l s) = []")
    case True
    then have "\<not> vmu_live img l s"
      unfolding vmu_live_def using vmu_whole_file(4) vmu.live_whole by blast
    then show ?thesis using True fl by (simp add: vmu_list_slot_def Let_def)
  next
    case False
    then have "vmu.whole (img, l) s (vmu_entry_chain img l (vmu_slot_offset l s))"
      using vmu_entry_chain_whole [OF assms fl] by blast
    from vmu_shared [OF this] False fl show ?thesis
      by (simp add: vmu_list_slot_def Let_def vmu_live_def vmu_entry_def)
  qed
qed (simp add: vmu_list_slot_def Let_def)

lemma vmu_live_file: "vmu_live img l s \<Longrightarrow> vmu_is_file img (vmu_slot_offset l s) \<and> s < vmu_slot_count l"
  using vmu_whole_file vmu.live_whole unfolding vmu_live_def by blast

lemma vmu_file_not_empty: "vmu_is_file img e \<Longrightarrow> img e \<noteq> VMU_TYPE_EMPTY"
  by (auto simp: vmu_is_file_def vmu_types)

lemma vmu_list_fold:
  assumes "set ss \<subseteq> {..<vmu_slot_count l}"
  shows "let r = fold (vmu_list_slot img l (vmu_count_claims img l)) ss lst in
    entries r = entries lst @ map (vmu_entry img l) (filter (vmu_live img l) ss) \<and>
    free_slots r = free_slots lst + length (filter (\<lambda>s. img (vmu_slot_offset l s) = VMU_TYPE_EMPTY) ss) \<and>
    corrupt_count r = corrupt_count lst +
      length (filter (\<lambda>s. vmu_is_file img (vmu_slot_offset l s) \<and> \<not> vmu_live img l s) ss) \<and>
    total_blocks r = total_blocks lst \<and> free_blocks r = free_blocks lst"
  using assms
proof (induction ss arbitrary: lst)
  case Nil
  then show ?case by simp
next
  case (Cons s ss)
  show ?case
    using Cons.prems Cons.IH [of "vmu_list_slot img l (vmu_count_claims img l) s lst"]
      vmu_list_slot [of s l img lst] vmu_live_file [of img l s] vmu_file_not_empty [of img "vmu_slot_offset l s"]
    by (auto simp: Let_def)
qed

section \<open>Reversed groups\<close>

definition rev4 :: "nat \<Rightarrow> nat" where
  "rev4 k = 4 * (k div 4) + (3 - k mod 4)"

lemma rev4_less: "k < 4 * n \<Longrightarrow> rev4 k < 4 * n"
proof -
  assume "k < 4 * n"
  then have "k div 4 < n" by (simp add: div_less_iff_less_mult mult.commute)
  then show ?thesis by (simp add: rev4_def)
qed

lemma rev4_parts: "m < 4 \<Longrightarrow> rev4 (4 * a + m) = 4 * a + (3 - m)"
  by (simp add: rev4_def)

lemma rev4_rev4 [simp]: "rev4 (rev4 k) = k"
proof -
  have "3 - k mod 4 < 4" "k mod 4 < 4" by simp_all
  then have "rev4 (rev4 k) = 4 * (k div 4) + (3 - (3 - k mod 4))"
    using rev4_parts [of "3 - k mod 4" "k div 4"] by (simp only: rev4_def [of k])
  also have "\<dots> = 4 * (k div 4) + k mod 4" using \<open>k mod 4 < 4\<close> by linarith
  finally show ?thesis by simp
qed

lemma vmu_reverse_groups_apply:
  "vmu_reverse_groups dst p src q len j =
     (if p \<le> j \<and> j < p + 4 * (len div 4) then src (q + rev4 (j - p)) else dst j)"
proof -
  have "fold (\<lambda>g dst. let i = 4 * g in
             dst(p + i := src (q + i + 3), p + i + 1 := src (q + i + 2),
                 p + i + 2 := src (q + i + 1), p + i + 3 := src (q + i))) [0..<n] dst j =
     (if p \<le> j \<and> j < p + 4 * n then src (q + rev4 (j - p)) else dst j)" for n
  proof (induction n)
    case 0
    show ?case by auto
  next
    case (Suc n)
    consider "j = p + 4 * n" | "j = p + 4 * n + 1" | "j = p + 4 * n + 2" | "j = p + 4 * n + 3"
      | "j < p + 4 * n \<or> p + 4 * n + 4 \<le> j" by linarith
    then show ?case
    proof cases
      case 5
      then show ?thesis using Suc by (auto simp: Let_def)
    qed (use rev4_parts [of 0 n] rev4_parts [of 1 n] rev4_parts [of 2 n] rev4_parts [of 3 n]
          in \<open>simp_all add: Let_def ac_simps\<close>)
  qed
  then show ?thesis by (simp add: vmu_reverse_groups_def)
qed

section \<open>The FAT\<close>

lemma vmu_fat_set_apply:
  "vmu_fat_set img l b v j =
     (if j = vl_fat_block l * 512 + 2 * b then ucast (of_nat v :: u16)
      else if j = vl_fat_block l * 512 + 2 * b + 1 then ucast (drop_bit 8 (of_nat v :: u16))
      else img j)"
  by (simp add: vmu_fat_set_def vmu_block_at_def VMU_BLOCK_SIZE_def write_le16_apply)

lemma vmu_fat_get_eq:
  assumes "img' (vl_fat_block l * 512 + 2 * b) = img (vl_fat_block l * 512 + 2 * b)"
    and "img' (vl_fat_block l * 512 + 2 * b + 1) = img (vl_fat_block l * 512 + 2 * b + 1)"
  shows "vmu_fat_get img' l b = vmu_fat_get img l b"
  unfolding vmu_fat_get_def vmu_block_at_def VMU_BLOCK_SIZE_def
  by (rule arg_cong [where f = unat], rule read_le16_cong) (use assms in simp_all)

lemma vmu_fat_get_set:
  assumes "v < 65536"
  shows "vmu_fat_get (vmu_fat_set img l b v) l c = (if b = c then v else vmu_fat_get img l c)"
proof (cases "b = c")
  case True
  then show ?thesis using assms by (simp add: vmu_fat_get_def vmu_fat_set_def unat_of_nat16)
next
  case False
  then show ?thesis by (simp, intro vmu_fat_get_eq) (auto simp: vmu_fat_set_apply; presburger)+
qed

section \<open>Adding a file\<close>

text \<open>The bytes a user block owns: its data and its FAT entry.\<close>

definition vmu_region :: "vmu_layout \<Rightarrow> nat \<Rightarrow> nat set" where
  "vmu_region l b = {b * 512..<b * 512 + 512} \<union> {vl_fat_block l * 512 + 2 * b, vl_fat_block l * 512 + 2 * b + 1}"

lemma vmu_region_disjoint:
  assumes "vmu_fits l" and "b < vl_user_blocks l" and "c < vl_user_blocks l" and "b \<noteq> c"
  shows "vmu_region l b \<inter> vmu_region l c = {}"
proof -
  have f: "b < vl_fat_block l" "c < vl_fat_block l" using assms by (auto simp: vmu_fits_def)
  then have x: "b * 512 + 512 \<le> vl_fat_block l * 512" "c * 512 + 512 \<le> vl_fat_block l * 512" by linarith+
  have "b * 512 + 512 \<le> c * 512 \<or> c * 512 + 512 \<le> b * 512" using assms(4) by linarith
  then show ?thesis using x assms(4) by (auto simp: vmu_region_def)
qed

lemma vmu_region_bounds:
  assumes "vmu_fits l" and "b < vl_user_blocks l" and "j \<in> vmu_region l b"
  shows "j div 512 = b \<or> j div 512 = vl_fat_block l \<and> j mod 512 div 2 = b"
proof -
  have "b < 255" using assms by (auto simp: vmu_fits_def)
  then show ?thesis using assms(3) by (auto simp: vmu_region_def intro: div_nat_eqI)
qed

definition vmu_link :: "nat list \<Rightarrow> nat \<Rightarrow> nat" where
  "vmu_link ch i = (if i + 1 = length ch then VMU_FAT_END else ch ! (i + 1))"

lemma vmu_inject_block_apply:
  assumes "vmu_fits l" and "ch ! i < vl_user_blocks l"
  shows "vmu_inject_block l ch dci i img j =
     (if j = vl_fat_block l * 512 + 2 * (ch ! i) then ucast (of_nat (vmu_link ch i) :: u16)
      else if j = vl_fat_block l * 512 + 2 * (ch ! i) + 1 then ucast (drop_bit 8 (of_nat (vmu_link ch i) :: u16))
      else if ch ! i * 512 \<le> j \<and> j < ch ! i * 512 + 512
      then dci (32 + i * 512 + rev4 (j - ch ! i * 512)) else img j)"
  by (simp add: vmu_inject_block_def Let_def vmu_fat_set_apply vmu_link_def vmu_reverse_groups_apply vmu_block_at_def
      sigil_dreamcast_dci_size_def vmu_consts)

lemma vmu_inject_fold:
  assumes fit: "vmu_fits l" and ch: "distinct ch" "\<forall>b \<in> set ch. b < vl_user_blocks l"
  shows "i < length ch \<Longrightarrow> j \<in> vmu_region l (ch ! i) \<Longrightarrow>
           fold (vmu_inject_block l ch dci) [0..<length ch] img j = vmu_inject_block l ch dci i img j"
    and "(\<And>b. b \<in> set ch \<Longrightarrow> j \<notin> vmu_region l b) \<Longrightarrow> fold (vmu_inject_block l ch dci) [0..<length ch] img j = img j"
proof -
  have r: "ch ! i < vl_user_blocks l" if "i < length ch" for i using ch(2) that by simp
  have out: "vmu_inject_block l ch dci i m j = m j" if "i \<in> set [0..<length ch]" "j \<notin> vmu_region l (ch ! i)" for i m j
    using that r by (auto simp: vmu_inject_block_apply [OF fit] vmu_region_def)
  show "fold (vmu_inject_block l ch dci) [0..<length ch] img j = vmu_inject_block l ch dci i img j"
    if i: "i < length ch" "j \<in> vmu_region l (ch ! i)"
  proof (rule fold_in_region [where R = "\<lambda>i. vmu_region l (ch ! i)"])
    show "vmu_inject_block l ch dci i m j = vmu_inject_block l ch dci i m' j"
      if "i \<in> set [0..<length ch]" "j \<in> vmu_region l (ch ! i)" for i m m' j
      using that r by (auto simp: vmu_inject_block_apply [OF fit] vmu_region_def)
    show "vmu_region l (ch ! i) \<inter> vmu_region l (ch ! k) = {}"
      if "i \<in> set [0..<length ch]" "k \<in> set [0..<length ch]" "i \<noteq> k" for i k
      using that r ch(1) by (intro vmu_region_disjoint [OF fit]) (auto simp: nth_eq_iff_index_eq)
  qed (use out i in simp_all)
  show "fold (vmu_inject_block l ch dci) [0..<length ch] img j = img j" if "\<And>b. b \<in> set ch \<Longrightarrow> j \<notin> vmu_region l b"
    by (rule fold_outside_regions [where R = "\<lambda>i. vmu_region l (ch ! i)"]) (use out that in simp_all)
qed

text \<open>The card after the loop and the directory entry.\<close>

definition vmu_put :: "mem \<Rightarrow> vmu_layout \<Rightarrow> nat list \<Rightarrow> nat \<Rightarrow> mem \<Rightarrow> mem" where
  "vmu_put img l ch s dci =
     sigil_write_le16 (memcpy (fold (vmu_inject_block l ch dci) [0..<length ch] img) (vmu_slot_offset l s) dci 0 32)
       (vmu_slot_offset l s + 2) (of_nat (ch ! 0))"

lemma vmu_slot_not_region:
  assumes "vmu_fits l" and "s < vmu_slot_count l" and "k < 32" and "b < vl_user_blocks l"
  shows "vmu_slot_offset l s + k \<notin> vmu_region l b"
proof
  assume a: "vmu_slot_offset l s + k \<in> vmu_region l b"
  obtain d where d: "vmu_slot_offset l s + k = d * 512 + ((s mod 16) * 32 + k)" "(s mod 16) * 32 + k < 512"
    "vl_user_blocks l \<le> d" "d \<noteq> vl_fat_block l" using vmu_slot_block [OF assms(1-3)] by metis
  then have "(vmu_slot_offset l s + k) div 512 = d" by (simp add: div_nat_eqI)
  with vmu_region_bounds [OF assms(1,4) a] d assms(4) show False by auto
qed

lemma vmu_put_bytes:
  assumes fit: "vmu_fits l" and ch: "distinct ch" "\<forall>b \<in> set ch. b < vl_user_blocks l"
    and s: "s < vmu_slot_count l"
  shows "i < length ch \<Longrightarrow> j \<in> vmu_region l (ch ! i) \<Longrightarrow> vmu_put img l ch s dci j = vmu_inject_block l ch dci i img j"
    and "k < 32 \<Longrightarrow> vmu_put img l ch s dci (vmu_slot_offset l s + k) =
           sigil_write_le16 dci 2 (of_nat (ch ! 0)) k"
    and "(\<And>b. b \<in> set ch \<Longrightarrow> j \<notin> vmu_region l b) \<Longrightarrow> (\<And>k. k < 32 \<Longrightarrow> j \<noteq> vmu_slot_offset l s + k) \<Longrightarrow>
           vmu_put img l ch s dci j = img j"
proof -
  let ?o = "vmu_slot_offset l s"
  have away: "vmu_put img l ch s dci j = fold (vmu_inject_block l ch dci) [0..<length ch] img j"
    if "\<And>k. k < 32 \<Longrightarrow> j \<noteq> ?o + k" for j
  proof -
    have "\<not> (?o \<le> j \<and> j < ?o + 32)"
    proof
      assume "?o \<le> j \<and> j < ?o + 32"
      then have "j = ?o + (j - ?o)" "j - ?o < 32" by auto
      with that show False by blast
    qed
    then show ?thesis by (auto simp: vmu_put_def write_le16_apply memcpy_apply)
  qed
  show "vmu_put img l ch s dci j = vmu_inject_block l ch dci i img j" if i: "i < length ch" "j \<in> vmu_region l (ch ! i)"
  proof -
    have "j \<noteq> ?o + k" if "k < 32" for k using vmu_slot_not_region [OF fit s that] i ch(2) by fastforce
    then show ?thesis using away vmu_inject_fold(1) [OF fit ch i] by simp
  qed
  show "vmu_put img l ch s dci (?o + k) = sigil_write_le16 dci 2 (of_nat (ch ! 0)) k" if "k < 32"
    using that by (auto simp: vmu_put_def write_le16_apply memcpy_apply)
  show "vmu_put img l ch s dci j = img j"
    if "\<And>b. b \<in> set ch \<Longrightarrow> j \<notin> vmu_region l b" "\<And>k. k < 32 \<Longrightarrow> j \<noteq> ?o + k"
    using away [OF that(2)] vmu_inject_fold(2) [OF fit ch that(1)] by simp
qed

lemma block_div: "x < 512 \<Longrightarrow> (d * 512 + x) div 512 = (d :: nat)"
  by simp

lemma vmu_slot_div:
  assumes "vmu_fits l" and "s < vmu_slot_count l" and "k < 32"
  shows "vl_user_blocks l \<le> (vmu_slot_offset l s + k) div 512" "(vmu_slot_offset l s + k) div 512 < 255"
    "(vmu_slot_offset l s + k) div 512 \<noteq> vl_fat_block l"
proof -
  obtain d where d: "vmu_slot_offset l s + k = d * 512 + ((s mod 16) * 32 + k)" "(s mod 16) * 32 + k < 512"
    "vl_user_blocks l \<le> d" "d < 255" "d \<noteq> vl_fat_block l" using vmu_slot_block [OF assms] by metis
  then have "(vmu_slot_offset l s + k) div 512 = d" by (simp only: block_div)
  with d show "vl_user_blocks l \<le> (vmu_slot_offset l s + k) div 512" "(vmu_slot_offset l s + k) div 512 < 255"
    "(vmu_slot_offset l s + k) div 512 \<noteq> vl_fat_block l" by simp_all
qed

text \<open>Two cards of one layout agree outside the blocks \<open>bs\<close> and the slot \<open>s\<close>.\<close>

definition vmu_agree :: "mem \<Rightarrow> mem \<Rightarrow> vmu_layout \<Rightarrow> nat set \<Rightarrow> nat \<Rightarrow> bool" where
  "vmu_agree img img' l bs s \<longleftrightarrow>
     (\<forall>j. (\<forall>b \<in> bs. j \<notin> vmu_region l b) \<longrightarrow> (\<forall>k < 32. j \<noteq> vmu_slot_offset l s + k) \<longrightarrow> img' j = img j)"

lemma vmu_agree_rest:
  assumes fit: "vmu_fits l" and ag: "vmu_agree img img' l bs s" and bs: "\<forall>b \<in> bs. b < vl_user_blocks l"
    and s: "s < vmu_slot_count l"
  shows "c < 256 \<Longrightarrow> c \<notin> bs \<Longrightarrow> vmu_fat_get img' l c = vmu_fat_get img l c"
    and "c < vl_user_blocks l \<Longrightarrow> c \<notin> bs \<Longrightarrow> vmu_data (img', l) c = vmu_data (img, l) c"
    and "t < vmu_slot_count l \<Longrightarrow> t \<noteq> s \<Longrightarrow> k < 32 \<Longrightarrow> img' (vmu_slot_offset l t + k) = img (vmu_slot_offset l t + k)"
    and "k < 512 \<Longrightarrow> img' (130560 + k) = img (130560 + k)"
proof -
  have same: "img' j = img j" if "\<And>b. b \<in> bs \<Longrightarrow> j \<notin> vmu_region l b" "\<And>k. k < 32 \<Longrightarrow> j \<noteq> vmu_slot_offset l s + k" for j
    using ag that by (simp add: vmu_agree_def)
  have fb: "vl_user_blocks l \<le> vl_fat_block l" "vl_fat_block l < 255" using fit by (auto simp: vmu_fits_def)
  have fat: "img' (vl_fat_block l * 512 + x) = img (vl_fat_block l * 512 + x)"
    if x: "x < 512" "\<And>b. b \<in> bs \<Longrightarrow> x div 2 \<noteq> b" for x
  proof (rule same)
    fix b assume b: "b \<in> bs"
    show "vl_fat_block l * 512 + x \<notin> vmu_region l b"
      using vmu_region_bounds [OF fit bspec [OF bs b]] x(1) x(2) [OF b] bspec [OF bs b] fb by fastforce
  next
    fix k :: nat assume "k < 32"
    from vmu_slot_div(3) [OF fit s this] x(1) show "vl_fat_block l * 512 + x \<noteq> vmu_slot_offset l s + k"
      by (metis block_div)
  qed
  show "vmu_fat_get img' l c = vmu_fat_get img l c" if c: "c < 256" "c \<notin> bs"
  proof (rule vmu_fat_get_eq)
    show "img' (vl_fat_block l * 512 + 2 * c) = img (vl_fat_block l * 512 + 2 * c)"
      by (rule fat) (use c in auto)
    show "img' (vl_fat_block l * 512 + 2 * c + 1) = img (vl_fat_block l * 512 + 2 * c + 1)"
      using fat [of "2 * c + 1"] c by (auto simp: add.assoc)
  qed
  show "vmu_data (img', l) c = vmu_data (img, l) c" if c: "c < vl_user_blocks l" "c \<notin> bs"
    unfolding vmu_data_def fst_conv
  proof (rule bytes_at_cong, rule same)
    fix k :: nat assume k: "k < 512"
    show "c * 512 + k \<notin> vmu_region l b" if "b \<in> bs" for b
      using vmu_region_bounds [OF fit bspec [OF bs that]] k c that fb by fastforce
    show "c * 512 + k \<noteq> vmu_slot_offset l s + i" if "i < 32" for i
      using vmu_slot_div(1) [OF fit s that] k c by (metis block_div not_le)
  qed
  show "img' (vmu_slot_offset l t + k) = img (vmu_slot_offset l t + k)" if t: "t < vmu_slot_count l" "t \<noteq> s" "k < 32"
  proof (rule same)
    show "vmu_slot_offset l t + k \<notin> vmu_region l b" if "b \<in> bs" for b
      by (rule vmu_slot_not_region [OF fit t(1,3) bspec [OF bs that]])
    show "vmu_slot_offset l t + k \<noteq> vmu_slot_offset l s + i" if "i < 32" for i
      using vmu_slots_disjoint [OF fit t(1) s t(3) that] t(2) by blast
  qed
  show "img' (130560 + k) = img (130560 + k)" if k: "k < 512"
  proof (rule same)
    have d: "(130560 + k) div 512 = 255" using k block_div [of k 255] by simp
    show "130560 + k \<notin> vmu_region l b" if "b \<in> bs" for b
      using vmu_region_bounds [OF fit bspec [OF bs that], of "130560 + k"] d fb bspec [OF bs that] by auto
    show "130560 + k \<noteq> vmu_slot_offset l s + i" if "i < 32" for i
      using vmu_slot_div(2) [OF fit s that] d by auto
  qed
qed

lemma vmu_agree_layout:
  assumes l: "vmu_read_layout img = Some l" and ag: "vmu_agree img img' l bs s"
    and bs: "\<forall>b \<in> bs. b < vl_user_blocks l" and s: "s < vmu_slot_count l"
  shows "vmu_read_layout img' = Some l"
proof -
  have fit: "vmu_fits l" by (rule vmu_read_layout_fits [OF l])
  then have fb: "vl_user_blocks l \<le> vl_fat_block l" "vl_fat_block l < 255" by (auto simp: vmu_fits_def)
  have "255 \<notin> bs" "vl_fat_block l \<notin> bs" using bs fb by fastforce+
  with vmu_agree_rest(1) [OF fit ag bs s] vmu_agree_rest(4) [OF fit ag bs s] fb show ?thesis
    by (intro vmu_read_layout_cong [OF l]) simp_all
qed

lemma vmu_agree_slot:
  assumes fit: "vmu_fits l" and ag: "vmu_agree img img' l bs s" and bs: "\<forall>b \<in> bs. b < vl_user_blocks l"
    and s: "s < vmu_slot_count l" and t: "t \<noteq> s"
  shows "vmu_dir (img', l) t = vmu_dir (img, l) t" and "vmu_dir (img, l) t \<noteq> None \<Longrightarrow> vmu_meta (img', l) t = vmu_meta (img, l) t"
    and "t < vmu_slot_count l \<Longrightarrow> vmu_entry_chain img' l (vmu_slot_offset l t) = vmu_entry_chain img l (vmu_slot_offset l t) \<Longrightarrow>
           vmu_entry img' l t = vmu_entry img l t"
proof -
  let ?o = "vmu_slot_offset l t"
  have b: "img' (?o + k) = img (?o + k)" if "t < vmu_slot_count l" "k < 32" for k
    using vmu_agree_rest(3) [OF fit ag bs s] that t by simp
  have rd: "sigil_read_le16 img' (?o + x) = sigil_read_le16 img (?o + x)" if "t < vmu_slot_count l" "x < 31" for x
    using b [OF that(1), of x] b [OF that(1), of "x + 1"] that(2) by (intro read_le16_cong) (simp_all add: add.assoc)
  have fl: "vmu_is_file img' ?o = vmu_is_file img ?o" if "t < vmu_slot_count l"
    using b [OF that, of 0] by (simp add: vmu_is_file_def)
  show "vmu_dir (img', l) t = vmu_dir (img, l) t"
    using rd [of 2] rd [of "0x18"] fl by (auto simp: vmu_dir_def Let_def)
  show "vmu_meta (img', l) t = vmu_meta (img, l) t" if "vmu_dir (img, l) t \<noteq> None"
  proof -
    have "t < vmu_slot_count l" using that by (auto simp: vmu_dir_def Let_def split: if_splits)
    from b [OF this] show ?thesis
      by (auto simp: vmu_meta_def Let_def write_le16_apply intro!: bytes_at_cong)
  qed
  show "vmu_entry img' l t = vmu_entry img l t"
    if "t < vmu_slot_count l" "vmu_entry_chain img' l ?o = vmu_entry_chain img l ?o"
  proof -
    have "bytes_at img' (?o + 4) 12 = bytes_at img (?o + 4) 12"
      using b [OF that(1)] by (intro bytes_at_cong) (simp add: add.assoc)
    then show ?thesis
      using rd [OF that(1), of 2] that(2)
      by (simp add: vmu_entry_def Let_def vmu_name_at_def ENTRY_NAME_def VMU_NAME_LEN_def ENTRY_FIRST_BLOCK_def)
  qed
qed

lemma vmu_put_agree:
  assumes "vmu_fits l" and "distinct ch" and "\<forall>b \<in> set ch. b < vl_user_blocks l" and "s < vmu_slot_count l"
  shows "vmu_agree img (vmu_put img l ch s dci) l (set ch) s"
  unfolding vmu_agree_def using vmu_put_bytes(3) [OF assms] by blast

lemma vmu_put_new:
  assumes fit: "vmu_fits l" and ch: "distinct ch" "\<forall>b \<in> set ch. b < vl_user_blocks l" "ch \<noteq> []"
    and s: "s < vmu_slot_count l"
  shows "i < length ch \<Longrightarrow> vmu_fat_get (vmu_put img l ch s dci) l (ch ! i) = vmu_link ch i"
    and "i < length ch \<Longrightarrow> k < 512 \<Longrightarrow> vmu_put img l ch s dci (ch ! i * 512 + k) = dci (32 + i * 512 + rev4 k)"
    and "vmu_is_file (vmu_put img l ch s dci) (vmu_slot_offset l s) = vmu_is_file dci 0"
    and "unat (sigil_read_le16 (vmu_put img l ch s dci) (vmu_slot_offset l s + 2)) = hd ch"
    and "sigil_read_le16 (vmu_put img l ch s dci) (vmu_slot_offset l s + 0x18) = sigil_read_le16 dci 0x18"
proof -
  let ?img = "vmu_put img l ch s dci" let ?F = "vl_fat_block l * 512" let ?o = "vmu_slot_offset l s"
  note B = vmu_put_bytes [OF fit ch(1,2) s, where img = img and dci = dci]
  have small: "b < 65536" if "b \<in> set ch" for b using bspec [OF ch(2) that] fit by (auto simp: vmu_fits_def)
  have lnk: "vmu_link ch i < 65536" if "i < length ch" for i
    using small [of "ch ! (i + 1)"] that by (auto simp: vmu_link_def VMU_FAT_END_def)
  show "vmu_fat_get ?img l (ch ! i) = vmu_link ch i" if i: "i < length ch"
  proof -
    have r: "ch ! i < vl_user_blocks l" using ch(2) i by simp
    have v: "?img (?F + 2 * (ch ! i)) = vmu_inject_block l ch dci i img (?F + 2 * (ch ! i))"
      "?img (?F + 2 * (ch ! i) + 1) = vmu_inject_block l ch dci i img (?F + 2 * (ch ! i) + 1)"
      using i by (auto intro!: B(1) simp: vmu_region_def)
    have "vmu_fat_get ?img l (ch ! i) = vmu_fat_get (vmu_fat_set img l (ch ! i) (vmu_link ch i)) l (ch ! i)"
      by (rule vmu_fat_get_eq) (simp_all only: v vmu_inject_block_apply [OF fit r] vmu_fat_set_apply, simp_all)
    then show ?thesis using lnk [OF i] by (simp add: vmu_fat_get_set)
  qed
  show "?img (ch ! i * 512 + k) = dci (32 + i * 512 + rev4 k)" if i: "i < length ch" and k: "k < 512"
  proof -
    have r: "ch ! i < vl_user_blocks l" using ch(2) i by simp
    then have "ch ! i * 512 + k < ?F" using k fit by (auto simp: vmu_fits_def)
    moreover have "ch ! i * 512 + k \<in> vmu_region l (ch ! i)" using k by (simp add: vmu_region_def)
    ultimately show ?thesis using B(1) [OF i, of "ch ! i * 512 + k"] k vmu_inject_block_apply [OF fit r] by simp
  qed
  show "vmu_is_file ?img ?o = vmu_is_file dci 0"
    using B(2) [of 0] by (simp add: vmu_is_file_def write_le16_apply)
  have "sigil_read_le16 ?img (?o + 2) = sigil_read_le16 (sigil_write_le16 dci 2 (of_nat (ch ! 0))) 2"
    using B(2) [of 2] B(2) [of 3] by (intro read_le16_cong) (simp_all add: numeral_3_eq_3)
  then show "unat (sigil_read_le16 ?img (?o + 2)) = hd ch"
    using small [of "ch ! 0"] ch(3) by (simp add: unat_of_nat16 hd_conv_nth)
  show "sigil_read_le16 ?img (?o + 0x18) = sigil_read_le16 dci 0x18"
    using B(2) [of "0x18"] B(2) [of "0x19"]
    by (intro read_le16_cong) (simp_all add: ac_simps write_le16_apply)
qed

lemma vmu_put_inserted:
  assumes fit: "vmu_fits l" and ch: "distinct ch" "\<forall>b \<in> set ch. b < vl_user_blocks l" "ch \<noteq> []"
    and s: "s < vmu_slot_count l" and free: "\<And>b. b \<in> set ch \<Longrightarrow> vmu_fat_get img l b = VMU_FAT_FREE"
    and empty: "img (vmu_slot_offset l s) = VMU_TYPE_EMPTY"
    and dci: "vmu_is_file dci 0" "unat (sigil_read_le16 dci 0x18) = length ch"
  shows "vmu.inserted (img, l) (vmu_put img l ch s dci, l) s ch"
proof -
  let ?img = "vmu_put img l ch s dci"
  have ag: "vmu_agree img ?img l (set ch) s" by (rule vmu_put_agree [OF fit ch(1,2) s])
  note new = vmu_put_new [OF fit ch s, where img = img and dci = dci]
  have ub: "vl_user_blocks l < 255" using fit by (auto simp: vmu_fits_def)
  show ?thesis
    unfolding vmu.inserted_def
  proof (intro conjI ballI allI impI)
    show "vmu_start (img, l) b" if "b \<in> set ch" for b using ch(2) that by (simp add: vmu_start_def)
    show "vmu_step (img, l) b = Bad" if "b \<in> set ch" for b
      using free that ub by (simp add: vmu_step_def VMU_FAT_FREE_def VMU_FAT_END_def)
    show "vmu_start (?img, l) b = vmu_start (img, l) b" for b by (simp add: vmu_start_def)
    fix b assume b: "b \<notin> set ch" "vmu_start (img, l) b"
    then have "b < 256" "b < vl_user_blocks l" using ub by (simp_all add: vmu_start_def)
    with vmu_agree_rest(1,2) [OF fit ag ch(2) s] b
    show "vmu_step (?img, l) b = vmu_step (img, l) b" "vmu_data (?img, l) b = vmu_data (img, l) b"
      by (simp_all add: vmu_step_def Let_def)
  next
    fix i assume i: "i < length ch"
    have nx: "ch ! Suc i < vl_user_blocks l" if "Suc i < length ch" using ch(2) that by simp
    show "vmu_step (?img, l) (ch ! i) = (if Suc i = length ch then End else Next (ch ! Suc i))"
      using new(1) [OF i] nx i ub
      by (cases "Suc i < length ch") (auto simp: vmu_step_def Let_def vmu_link_def VMU_FAT_END_def)
  next
    show "vmu_dir (img, l) s = None"
      using empty by (auto simp: vmu_dir_def Let_def vmu_is_file_def vmu_types)
    show "vmu_dir (?img, l) s = Some (hd ch, length ch)"
      using new(3-5) dci s by (simp add: vmu_dir_def Let_def)
  next
    fix t assume t: "t \<noteq> s"
    show "vmu_dir (?img, l) t = vmu_dir (img, l) t" by (rule vmu_agree_slot(1) [OF fit ag ch(2) s t])
    show "vmu_meta (?img, l) t = vmu_meta (img, l) t" if "vmu_dir (img, l) t \<noteq> None"
      by (rule vmu_agree_slot(2) [OF fit ag ch(2) s t that])
  qed (use ch in simp_all)
qed

end
