(* ===== verification/CardDreamcastSpec.thy ===== *)
theory CardDreamcastSpec
  imports CardDreamcastProofs
begin

text \<open>
  What the operations of the Dreamcast VMU do to a card: adding, deleting, verifying, formatting and
  repairing, each as an effect on the live files, and what every card built by them keeps.
\<close>

section \<open>Outcome of adding a file\<close>

lemma find_map_slots:
  "find P (map f [0..<n]) = Some off \<Longrightarrow> \<exists>s < n. off = f s \<and> P (f s)"
  by (auto simp: find_Some_iff)

lemma vmu_choose_blocks:
  assumes "vmu_choose_blocks img l game n = Some ch" and "0 < n"
  shows "distinct ch" "\<forall>b \<in> set ch. b < vl_user_blocks l \<and> vmu_fat_get img l b = VMU_FAT_FREE" "length ch = n"
proof -
  have d: "distinct (filter P (rev [0..<m]))" for P and m :: nat by simp
  show "distinct ch" using assms by (auto simp: vmu_choose_blocks_def Let_def distinct_take d split: if_splits)
  show "length ch = n" using assms by (auto simp: vmu_choose_blocks_def Let_def split: if_splits)
  show "\<forall>b \<in> set ch. b < vl_user_blocks l \<and> vmu_fat_get img l b = VMU_FAT_FREE"
    using assms by (auto simp: vmu_choose_blocks_def Let_def list_ex_iff split: if_splits dest!: in_set_takeD)
qed

lemma vmu_dci_blocks:
  assumes "vmu_dci_blocks dci len = n" and "n \<noteq> 0"
  shows "vmu_is_file dci 0" "unat (sigil_read_le16 dci 0x18) = n" "len = 32 + n * 512"
proof -
  show "vmu_is_file dci 0" "unat (sigil_read_le16 dci 0x18) = n"
    using assms by (auto simp: vmu_dci_blocks_def Let_def ENTRY_SIZE_def split: if_splits)
  show "len = 32 + n * 512"
    using assms by (auto simp: vmu_dci_blocks_def Let_def vmu_consts sigil_dreamcast_dci_size_def split: if_splits)
qed

lemma vmu_inject_ok:
  assumes l: "vmu_read_layout img = Some l" and ok: "sigil_dreamcast_inject img dci len = (SIGIL_OK, img')"
  obtains s ch where "s < vmu_slot_count l" "img (vmu_slot_offset l s) = VMU_TYPE_EMPTY"
    "length ch = vmu_dci_blocks dci len" "ch \<noteq> []" "distinct ch"
    "\<forall>b \<in> set ch. b < vl_user_blocks l" "\<forall>b \<in> set ch. vmu_fat_get img l b = VMU_FAT_FREE"
    "\<not> vmu_name_taken img l dci" "img' = vmu_put img l ch s dci" "vmu.inserted (img, l) (img', l) s ch"
proof -
  let ?n = "vmu_dci_blocks dci len"
  have n: "?n \<noteq> 0" and nt: "\<not> vmu_name_taken img l dci"
    using ok l by (auto simp: sigil_dreamcast_inject_def Let_def split: if_splits)
  from ok l n nt obtain ch off where
    ch: "vmu_choose_blocks img l (dci 0 = VMU_TYPE_GAME) ?n = Some ch" and
    f: "find (\<lambda>slot. img slot = VMU_TYPE_EMPTY) (map (vmu_slot_offset l) [0..<vmu_slot_count l]) = Some off" and
    i: "img' = sigil_write_le16 (memcpy (fold (vmu_inject_block l ch dci) [0..<?n] img) off dci 0 VMU_DIR_ENTRY_SIZE)
          (off + ENTRY_FIRST_BLOCK) (of_nat (ch ! 0))"
    by (auto simp: sigil_dreamcast_inject_def Let_def split: if_splits option.splits)
  from find_map_slots [OF f] obtain s where s: "s < vmu_slot_count l" "off = vmu_slot_offset l s"
    "img (vmu_slot_offset l s) = VMU_TYPE_EMPTY" by blast
  note c = vmu_choose_blocks [OF ch] 
  have cs: "distinct ch" "\<forall>b \<in> set ch. b < vl_user_blocks l" "\<forall>b \<in> set ch. vmu_fat_get img l b = VMU_FAT_FREE"
    "length ch = ?n" "ch \<noteq> []" using c n by auto
  have i': "img' = vmu_put img l ch s dci"
    unfolding i vmu_put_def s(2) cs(4) by (simp add: VMU_DIR_ENTRY_SIZE_def ENTRY_FIRST_BLOCK_def)
  have "vmu.inserted (img, l) (img', l) s ch"
    unfolding i'
    by (rule vmu_put_inserted [OF vmu_read_layout_fits [OF l] cs(1,2,5) s(1)])
      (use cs s vmu_dci_blocks [OF refl n] in auto)
  with s cs nt i' show thesis by (intro that) auto
qed


text \<open>The file in a slot: its directory bytes but for the first block, and its blocks in chain order.\<close>

definition vmu_file :: "mem \<Rightarrow> vmu_layout \<Rightarrow> nat \<Rightarrow> (bytes \<times> bytes list) option" where
  "vmu_file img l s = vmu.save (img, l) s"

definition vmu_clean :: "mem \<Rightarrow> vmu_layout \<Rightarrow> bool" where
  "vmu_clean img l \<longleftrightarrow> (\<forall>s < vmu_slot_count l. vmu_is_file img (vmu_slot_offset l s) \<longrightarrow> vmu_live img l s)"

lemma vmu_clean_iff: "vmu_clean img l \<longleftrightarrow> vmu.clean (img, l)"
proof -
  have "vmu_dir (img, l) s \<noteq> None \<longleftrightarrow> s < vmu_slot_count l \<and> vmu_is_file img (vmu_slot_offset l s)" for s
    by (simp add: vmu_dir_def Let_def)
  then show ?thesis unfolding vmu_clean_def vmu.clean_def vmu_live_iff by blast
qed

lemma vmu_whole_live: "vmu.live (img, l) s bs \<longleftrightarrow> vmu_live img l s \<and> vmu_entry_chain img l (vmu_slot_offset l s) = bs"
  using vmu_whole_file(3) vmu.live_whole unfolding vmu_live_def by blast

lemma vmu_file_whole:
  assumes "vmu.whole (img, l) s bs"
  shows "vmu_file img l s = Some (vmu_meta (img, l) s, map (vmu_data (img, l)) bs)"
  using assms by (auto simp: vmu_file_def vmu.save_def vmu.whole_def)

text \<open>A block of a \<^verbatim>\<open>.dci\<close> file as the card stores it: every group of four bytes reversed.\<close>

definition dci_block :: "mem \<Rightarrow> nat \<Rightarrow> bytes" where
  "dci_block dci i = map (\<lambda>k. dci (32 + i * 512 + rev4 k)) [0..<512]"

lemma vmu_put_file:
  assumes fit: "vmu_fits l" and ch: "distinct ch" "\<forall>b \<in> set ch. b < vl_user_blocks l" "ch \<noteq> []"
    and s: "s < vmu_slot_count l" and w: "vmu.whole (vmu_put img l ch s dci, l) s ch"
  shows "vmu_file (vmu_put img l ch s dci) l s =
      Some (bytes_at (sigil_write_le16 dci 2 0) 0 32, map (dci_block dci) [0..<length ch])"
    and "vmu_entry (vmu_put img l ch s dci) l s =
      \<lparr>ce_name = cstr (bytes_at dci 4 12), ce_owner_id = [], ce_blocks = length ch, ce_first_block = hd ch\<rparr>"
proof -
  let ?img = "vmu_put img l ch s dci" let ?o = "vmu_slot_offset l s"
  note B = vmu_put_bytes(2) [OF fit ch(1,2) s, where img = img and dci = dci]
  note new = vmu_put_new [OF fit ch s, where img = img and dci = dci]
  have "sigil_write_le16 ?img (?o + 2) 0 (?o + k) = sigil_write_le16 dci 2 0 k" if "k < 32" for k
    using B [OF that] by (auto simp: write_le16_apply)
  then have m: "vmu_meta (?img, l) s = bytes_at (sigil_write_le16 dci 2 0) 0 32"
    unfolding vmu_meta_def Let_def fst_conv snd_conv by (intro bytes_at_cong) simp
  have d: "vmu_data (?img, l) (ch ! i) = dci_block dci i" if "i < length ch" for i
    using new(2) [OF that] unfolding vmu_data_def dci_block_def bytes_at_def fst_conv by (intro map_cong) simp_all
  have "map (vmu_data (?img, l)) ch = map (dci_block dci) [0..<length ch]"
    using d by (intro nth_equalityI) simp_all
  with m show "vmu_file ?img l s = Some (bytes_at (sigil_write_le16 dci 2 0) 0 32, map (dci_block dci) [0..<length ch])"
    using vmu_file_whole [OF w] by simp
  have "bytes_at ?img (?o + 4) 12 = bytes_at dci 4 12"
    using B by (intro bytes_at_cong) (simp add: add.assoc write_le16_apply)
  then show "vmu_entry ?img l s =
      \<lparr>ce_name = cstr (bytes_at dci 4 12), ce_owner_id = [], ce_blocks = length ch, ce_first_block = hd ch\<rparr>"
    using new(4) vmu_whole_file(3) [OF w]
    by (simp add: vmu_entry_def Let_def vmu_name_at_def ENTRY_NAME_def VMU_NAME_LEN_def ENTRY_FIRST_BLOCK_def)
qed

lemma vmu_agree_live:
  assumes fit: "vmu_fits l" and ag: "vmu_agree img img' l bs s" and bs: "\<forall>b \<in> bs. b < vl_user_blocks l"
    and s: "s < vmu_slot_count l" and t: "t \<noteq> s" and lv: "vmu.live (img, l) t cs" "vmu.live (img', l) t cs"
  shows "vmu_entry img' l t = vmu_entry img l t"
proof -
  have "t < vmu_slot_count l" using vmu_whole_file(1) vmu.live_whole [OF lv(1)] by blast
  moreover have "vmu_entry_chain img' l (vmu_slot_offset l t) = vmu_entry_chain img l (vmu_slot_offset l t)"
    using lv vmu_whole_live by metis
  ultimately show ?thesis by (rule vmu_agree_slot(3) [OF fit ag bs s t])
qed

text \<open>C5 (functional): a successful \<^verbatim>\<open>sigil_dreamcast_inject\<close> fills one empty slot with the file of the
  \<^verbatim>\<open>.dci\<close>: its directory bytes but for the first block and its blocks, groups reversed. Every listed
  file stays listed with the same entry and the same contents, the layout is kept, and on a card
  whose files are all listed they still are, the new one added.\<close>

theorem vmu_inject_effect:
  assumes l: "vmu_read_layout img = Some l" and ok: "sigil_dreamcast_inject img dci len = (SIGIL_OK, img')"
  shows "vmu_read_layout img' = Some l \<and>
    (\<exists>s < vmu_slot_count l. img (vmu_slot_offset l s) = VMU_TYPE_EMPTY \<and>
       vmu_file img' l s = Some (bytes_at (sigil_write_le16 dci 2 0) 0 32,
                                 map (dci_block dci) [0..<vmu_dci_blocks dci len]) \<and>
       ce_name (vmu_entry img' l s) = cstr (bytes_at dci 4 12) \<and>
       ce_blocks (vmu_entry img' l s) = vmu_dci_blocks dci len \<and>
       (\<forall>t. vmu_live img l t \<longrightarrow>
          t \<noteq> s \<and> vmu_live img' l t \<and> vmu_entry img' l t = vmu_entry img l t \<and> vmu_file img' l t = vmu_file img l t) \<and>
       (vmu_clean img l \<longrightarrow> vmu_clean img' l \<and> (\<forall>t. vmu_live img' l t \<longleftrightarrow> vmu_live img l t \<or> t = s)))"
proof -
  have fit: "vmu_fits l" by (rule vmu_read_layout_fits [OF l])
  obtain s ch where s: "s < vmu_slot_count l" "img (vmu_slot_offset l s) = VMU_TYPE_EMPTY"
    and ch: "length ch = vmu_dci_blocks dci len" "ch \<noteq> []" "distinct ch" "\<forall>b \<in> set ch. b < vl_user_blocks l"
    and i: "img' = vmu_put img l ch s dci" and ins: "vmu.inserted (img, l) (img', l) s ch"
    by (rule vmu_inject_ok [OF l ok])
  have ag: "vmu_agree img img' l (set ch) s" unfolding i by (rule vmu_put_agree [OF fit ch(3,4) s(1)])
  note new = vmu_put_file [OF fit ch(3,4,2) s(1) vmu.inserted_new [OF ins, unfolded i]]
  have keep: "t \<noteq> s \<and> vmu_live img' l t \<and> vmu_entry img' l t = vmu_entry img l t \<and> vmu_file img' l t = vmu_file img l t"
    if t: "vmu_live img l t" for t
  proof -
    from t obtain bs where lv: "vmu.live (img, l) t bs" by (auto simp: vmu_live_iff)
    note c = vmu.whole_chained [OF vmu.live_whole [OF lv]]
    note k = vmu.inserted_keeps [OF ins c]
    have lv': "vmu.live (img', l) t bs" using vmu.inserted_live_old [OF ins c] lv by blast
    from vmu_agree_live [OF fit ag ch(4) s(1) k(3) lv lv'] k(3,5) lv' show ?thesis
      by (auto simp: vmu_file_def vmu_live_iff)
  qed
  have cl: "vmu_clean img' l \<and> (\<forall>t. vmu_live img' l t \<longleftrightarrow> vmu_live img l t \<or> t = s)" if "vmu_clean img l"
    using vmu.inserted_clean [OF ins] that unfolding vmu_clean_iff vmu_live_iff by blast
  show ?thesis
    using vmu_agree_layout [OF l ag ch(4) s(1)] s new ch(1) keep cl unfolding i [symmetric]
    by (intro conjI exI [of _ s] allI impI) simp_all
qed

text \<open>The name a \<^verbatim>\<open>.dci\<close> is refused for, and the blocks it is given.\<close>

definition vmu_room :: "mem \<Rightarrow> vmu_layout \<Rightarrow> mem \<Rightarrow> nat \<Rightarrow> bool" where
  "vmu_room img l dci n \<longleftrightarrow> n \<le> vl_user_blocks l \<and>
     (if dci 0 = VMU_TYPE_GAME then \<forall>b < n. vmu_fat_get img l b = VMU_FAT_FREE
      else n \<le> card {b. b < vl_user_blocks l \<and> vmu_fat_get img l b = VMU_FAT_FREE}) \<and>
     (\<exists>s < vmu_slot_count l. img (vmu_slot_offset l s) = VMU_TYPE_EMPTY)"

lemma length_filter_rev_upt: "length (filter P (rev [0..<m])) = card {b. b < m \<and> P b}"
proof -
  have "length (filter P (rev [0..<m])) = card (set (filter P (rev [0..<m])))"
    by (rule distinct_card [symmetric]) simp
  moreover have "set (filter P (rev [0..<m])) = {b. b < m \<and> P b}" by auto
  ultimately show ?thesis by simp
qed

lemma vmu_choose_blocks_iff:
  "vmu_choose_blocks img l game n \<noteq> None \<longleftrightarrow> n \<le> vl_user_blocks l \<and>
     (if game then \<forall>b < n. vmu_fat_get img l b = VMU_FAT_FREE
      else n \<le> card {b. b < vl_user_blocks l \<and> vmu_fat_get img l b = VMU_FAT_FREE})"
  by (auto simp: vmu_choose_blocks_def Let_def list_ex_iff length_filter_rev_upt)

lemma find_map_slots_None: "find P (map f [0..<n]) = None \<longleftrightarrow> (\<forall>s < n. \<not> P (f s))"
  by (auto simp: find_None_iff)

text \<open>C27 (error): the result of \<^verbatim>\<open>sigil_dreamcast_inject\<close> on every branch, in the order the code decides:
  a malformed \<^verbatim>\<open>.dci\<close>, a card with no readable layout, a name the card has, no room (a VMU game
  needs the first blocks of the card free, a data file any; and an empty slot). Nothing is written
  on a failure.\<close>

theorem vmu_inject_outcome:
  "fst (sigil_dreamcast_inject img dci len) =
     (if vmu_dci_blocks dci len = 0 then SIGIL_ERR_UNSUPPORTED_FORMAT
      else case vmu_read_layout img of
        None \<Rightarrow> SIGIL_ERR_INVALID_ARG
      | Some l \<Rightarrow>
          if vmu_name_taken img l dci then SIGIL_ERR_EXISTS
          else if vmu_room img l dci (vmu_dci_blocks dci len) then SIGIL_OK else SIGIL_ERR_NO_SPACE) \<and>
   (fst (sigil_dreamcast_inject img dci len) = SIGIL_OK \<or> snd (sigil_dreamcast_inject img dci len) = img)"
proof -
  let ?n = "vmu_dci_blocks dci len"
  consider "?n = 0" | "?n \<noteq> 0" "vmu_read_layout img = None"
    | l where "?n \<noteq> 0" "vmu_read_layout img = Some l" "vmu_name_taken img l dci"
    | l where "?n \<noteq> 0" "vmu_read_layout img = Some l" "\<not> vmu_name_taken img l dci" by (cases "vmu_read_layout img") auto
  then show ?thesis
  proof cases
    case (4 l)
    show ?thesis
    proof (cases "vmu_choose_blocks img l (dci 0 = VMU_TYPE_GAME) ?n")
      case None
      then have "\<not> vmu_room img l dci ?n"
        using vmu_choose_blocks_iff [of img l "dci 0 = VMU_TYPE_GAME" ?n] by (auto simp: vmu_room_def split: if_splits)
      with 4 None show ?thesis by (simp add: sigil_dreamcast_inject_def Let_def)
    next
      case (Some ch)
      then have c: "?n \<le> vl_user_blocks l \<and>
          (if dci 0 = VMU_TYPE_GAME then \<forall>b < ?n. vmu_fat_get img l b = VMU_FAT_FREE
           else ?n \<le> card {b. b < vl_user_blocks l \<and> vmu_fat_get img l b = VMU_FAT_FREE})"
        using vmu_choose_blocks_iff [of img l "dci 0 = VMU_TYPE_GAME" ?n] by simp
      show ?thesis
      proof (cases "find (\<lambda>slot. img slot = VMU_TYPE_EMPTY) (map (vmu_slot_offset l) [0..<vmu_slot_count l])")
        case None
        then have "\<not> vmu_room img l dci ?n" by (simp add: vmu_room_def find_map_slots_None)
        with None 4 Some show ?thesis by (simp add: sigil_dreamcast_inject_def Let_def)
      next
        case (Some off)
        from find_map_slots [OF this] have "vmu_room img l dci ?n" using c unfolding vmu_room_def by blast
        with 4 Some \<open>vmu_choose_blocks img l _ ?n = Some ch\<close> show ?thesis
          by (simp add: sigil_dreamcast_inject_def Let_def)
      qed
    qed
  qed (simp_all add: sigil_dreamcast_inject_def)
qed

section \<open>Deleting a file\<close>

lemma vmu_free_chain_get:
  "vmu_fat_get (fold (\<lambda>b img. vmu_fat_set img l b VMU_FAT_FREE) bs img) l c =
     (if c \<in> set bs then VMU_FAT_FREE else vmu_fat_get img l c)"
  by (induction bs arbitrary: img) (auto simp: vmu_fat_get_set VMU_FAT_FREE_def)

lemma vmu_free_chain_out:
  "(\<And>b. b \<in> set bs \<Longrightarrow> j \<notin> vmu_region l b) \<Longrightarrow>
     fold (\<lambda>b img. vmu_fat_set img l b VMU_FAT_FREE) bs img j = img j"
  by (induction bs arbitrary: img) (auto simp: vmu_fat_set_apply vmu_region_def)

text \<open>The card after a delete.\<close>

definition vmu_cleared :: "mem \<Rightarrow> vmu_layout \<Rightarrow> nat list \<Rightarrow> nat \<Rightarrow> mem" where
  "vmu_cleared img l bs s =
     memset (fold (\<lambda>b img. vmu_fat_set img l b VMU_FAT_FREE) bs img) (vmu_slot_offset l s) 0 32"

lemma vmu_cleared_agree: "vmu_agree img (vmu_cleared img l bs s) l (set bs) s"
proof -
  have "vmu_cleared img l bs s j = img j"
    if "\<forall>b \<in> set bs. j \<notin> vmu_region l b" "\<forall>k < 32. j \<noteq> vmu_slot_offset l s + k" for j
  proof -
    have "\<not> (vmu_slot_offset l s \<le> j \<and> j < vmu_slot_offset l s + 32)"
      using that(2) by (metis add_diff_inverse_nat linorder_not_less nat_add_left_cancel_less)
    then show ?thesis using vmu_free_chain_out [of bs j l img] that(1) by (auto simp: vmu_cleared_def memset_apply)
  qed
  then show ?thesis by (simp add: vmu_agree_def)
qed

lemma vmu_chain_user:
  assumes "vmu.chained (img, l) s bs"
  shows "\<forall>b \<in> set bs. b < vl_user_blocks l"
proof -
  from assms obtain f where "vmu_start (img, l) f" "linked (vmu_step (img, l)) bs" "hd bs = f" by (elim vmu.chainedE)
  with vmu.chain_start show ?thesis by (fastforce simp: vmu_start_def)
qed

lemma vmu_cleared_get:
  assumes fit: "vmu_fits l" and s: "s < vmu_slot_count l" and c: "c < 256"
  shows "vmu_fat_get (vmu_cleared img l bs s) l c = (if c \<in> set bs then VMU_FAT_FREE else vmu_fat_get img l c)"
proof -
  have "vl_fat_block l * 512 + x \<noteq> vmu_slot_offset l s + k" if "x < 512" "k < 32" for x k
    using vmu_slot_div(3) [OF fit s that(2)] that(1) by (metis block_div)
  then have "\<not> (vmu_slot_offset l s \<le> vl_fat_block l * 512 + x \<and> vl_fat_block l * 512 + x < vmu_slot_offset l s + 32)"
    if "x < 512" for x
    using that by (metis add_diff_inverse_nat linorder_not_less nat_add_left_cancel_less)
  from this [of "2 * c"] this [of "2 * c + 1"] c
  have "vmu_fat_get (vmu_cleared img l bs s) l c = vmu_fat_get (fold (\<lambda>b img. vmu_fat_set img l b VMU_FAT_FREE) bs img) l c"
    by (intro vmu_fat_get_eq) (auto simp: vmu_cleared_def memset_apply)
  then show ?thesis by (simp add: vmu_free_chain_get)
qed

lemma vmu_cleared_fat:
  assumes fit: "vmu_fits l" and w: "vmu.whole (img, l) s bs"
  shows "\<forall>b \<in> set bs. vmu_fat_get (vmu_cleared img l bs s) l b = VMU_FAT_FREE"
  using vmu_cleared_get [OF fit vmu_whole_file(1) [OF w]] vmu_chain_user [OF vmu.whole_chained [OF w]] fit
  by (fastforce simp: vmu_fits_def)

lemma vmu_cleared_removed:
  assumes fit: "vmu_fits l" and w: "vmu.whole (img, l) s bs"
  shows "vmu.removed (img, l) (vmu_cleared img l bs s, l) s bs"
proof -
  let ?img = "vmu_cleared img l bs s"
  note s = vmu_whole_file(1) [OF w]
  note user = vmu_chain_user [OF vmu.whole_chained [OF w]]
  have ub: "vl_user_blocks l < 255" using fit by (auto simp: vmu_fits_def)
  have ag: "vmu_agree img ?img l (set bs) s" by (rule vmu_cleared_agree)
  note fat = vmu_cleared_get [OF fit s]
  show ?thesis
    unfolding vmu.removed_def
  proof (intro conjI allI impI ballI)
    show "vmu_start (?img, l) b = vmu_start (img, l) b" for b by (simp add: vmu_start_def)
    fix b assume b: "b \<notin> set bs" "vmu_start (img, l) b"
    then have "b < 256" "b < vl_user_blocks l" using ub by (simp_all add: vmu_start_def)
    with vmu_agree_rest(1,2) [OF fit ag user s] b
    show "vmu_step (?img, l) b = vmu_step (img, l) b" "vmu_data (?img, l) b = vmu_data (img, l) b"
      by (simp_all add: vmu_step_def Let_def)
  next
    fix b assume b: "b \<in> set bs"
    then have "b < 256" using user ub by fastforce
    then have "vmu_fat_get ?img l b = VMU_FAT_FREE" using fat b by simp
    then show "vmu_step (?img, l) b = Bad"
      using ub by (simp add: vmu_step_def Let_def VMU_FAT_FREE_def VMU_FAT_END_def)
  next
    show "vmu_dir (?img, l) s = None"
      by (auto simp: vmu_dir_def Let_def vmu_is_file_def vmu_types vmu_cleared_def memset_apply)
    fix t assume t: "t \<noteq> s"
    show "vmu_dir (?img, l) t = vmu_dir (img, l) t" by (rule vmu_agree_slot(1) [OF fit ag user s t])
    show "vmu_meta (?img, l) t = vmu_meta (img, l) t" if "vmu_dir (img, l) t \<noteq> None"
      by (rule vmu_agree_slot(2) [OF fit ag user s t that])
  qed (rule w)
qed


lemma vmu_whole_hd:
  assumes "vmu.whole (img, l) s bs"
  shows "hd bs = unat (sigil_read_le16 img (vmu_slot_offset l s + 2))"
proof -
  from vmu.whole_chained [OF assms] obtain f n where "vmu_dir (img, l) s = Some (f, n)" "hd bs = f" by (elim vmu.chainedE)
  then show ?thesis by (auto simp: vmu_dir_def Let_def split: if_splits)
qed

lemma vmu_find_by_block_iff:
  "vmu_find_by_block img l f = Some off \<longleftrightarrow>
     (\<exists>s bs. s < vmu_slot_count l \<and> off = vmu_slot_offset l s \<and> vmu.whole (img, l) s bs \<and> hd bs = f \<and>
        (\<forall>t < s. \<forall>cs. vmu.whole (img, l) t cs \<longrightarrow> hd cs \<noteq> f))"
proof -
  define P where "P entry \<longleftrightarrow> vmu_is_file img entry \<and>
      unat (sigil_read_le16 img (entry + ENTRY_FIRST_BLOCK)) = f \<and> vmu_entry_chain img l entry \<noteq> []" for entry
  have P: "P (vmu_slot_offset l s) \<longleftrightarrow> (\<exists>bs. vmu.whole (img, l) s bs \<and> hd bs = f)" if s: "s < vmu_slot_count l" for s
  proof
    assume p: "P (vmu_slot_offset l s)"
    let ?bs = "vmu_entry_chain img l (vmu_slot_offset l s)"
    have w: "vmu.whole (img, l) s ?bs" using p s vmu_entry_chain_whole unfolding P_def by blast
    then have "hd ?bs = unat (sigil_read_le16 img (vmu_slot_offset l s + 2))"
      by (rule vmu_whole_hd)
    with w p show "\<exists>bs. vmu.whole (img, l) s bs \<and> hd bs = f" by (auto simp: P_def ENTRY_FIRST_BLOCK_def)
  next
    assume "\<exists>bs. vmu.whole (img, l) s bs \<and> hd bs = f"
    then obtain bs where w: "vmu.whole (img, l) s bs" "hd bs = f" by blast
    note k = vmu_whole_file [OF w(1)]
    have "hd bs = unat (sigil_read_le16 img (vmu_slot_offset l s + 2))"
      by (rule vmu_whole_hd [OF w(1)])
    with w(2) k show "P (vmu_slot_offset l s)" by (simp add: P_def ENTRY_FIRST_BLOCK_def)
  qed
  have "vmu_find_by_block img l f = find P (map (vmu_slot_offset l) [0..<vmu_slot_count l])"
    unfolding vmu_find_by_block_def P_def ..
  also have "\<dots> = Some off \<longleftrightarrow> (\<exists>s < vmu_slot_count l. off = vmu_slot_offset l s \<and> P (vmu_slot_offset l s) \<and>
      (\<forall>t < s. \<not> P (vmu_slot_offset l t)))"
    by (auto simp: find_Some_iff)
  finally show ?thesis using P by (auto 0 3 intro: less_trans)
qed

lemma vmu_delete_ok:
  assumes l: "vmu_read_layout img = Some l" and ok: "sigil_dreamcast_delete img f = (SIGIL_OK, img')"
  obtains s bs where "s < vmu_slot_count l" "vmu.whole (img, l) s bs" "hd bs = f" "img' = vmu_cleared img l bs s"
    "\<forall>t < s. \<forall>cs. vmu.whole (img, l) t cs \<longrightarrow> hd cs \<noteq> f"
proof -
  from ok l obtain off where off: "vmu_find_by_block img l f = Some off"
    and i: "img' = memset (fold (\<lambda>b img. vmu_fat_set img l b VMU_FAT_FREE) (vmu_entry_chain img l off) img) off 0 32"
    by (auto simp: sigil_dreamcast_delete_def Let_def VMU_DIR_ENTRY_SIZE_def split: option.splits)
  from off obtain s bs where s: "s < vmu_slot_count l" "off = vmu_slot_offset l s" "vmu.whole (img, l) s bs" "hd bs = f"
    "\<forall>t < s. \<forall>cs. vmu.whole (img, l) t cs \<longrightarrow> hd cs \<noteq> f" by (auto simp: vmu_find_by_block_iff)
  with i vmu_whole_file(3) [OF s(3)] show thesis by (intro that) (simp_all add: vmu_cleared_def)
qed

text \<open>A listed file is the only one that starts at its first block.\<close>

lemma vmu_live_unique:
  assumes "vmu.live (img, l) s bs" and "vmu.whole (img, l) t cs" and "hd cs = hd bs"
  shows "t = s \<and> cs = bs"
proof -
  have w: "vmu.whole (img, l) s bs" using assms(1) by (rule vmu.live_whole)
  then have "bs \<noteq> []" "cs \<noteq> []" using assms(2) vmu_whole_file(4) by blast+
  then have "hd bs \<in> set bs \<inter> set cs" using assms(3) by (metis IntI hd_in_set)
  moreover have "set cs \<inter> set bs = {}" if "t \<noteq> s"
    using assms(1) vmu.whole_claims [OF assms(2)] that by (simp add: vmu.live_def)
  ultimately have "t = s" by blast
  with assms(2) w vmu_whole_file(3) show ?thesis by blast
qed

text \<open>C22 (functional): \<^verbatim>\<open>sigil_dreamcast_delete\<close> of a listed file succeeds and removes that file only:
  its slot is empty, its blocks are free, the layout is kept and every other listed file stays
  listed with the same entry and contents.\<close>

theorem vmu_delete_effect:
  assumes l: "vmu_read_layout img = Some l" and lv: "vmu_live img l s"
  shows "\<exists>img'. sigil_dreamcast_delete img (ce_first_block (vmu_entry img l s)) = (SIGIL_OK, img') \<and>
     vmu_read_layout img' = Some l \<and> img' (vmu_slot_offset l s) = VMU_TYPE_EMPTY \<and>
     (\<forall>b \<in> set (vmu_entry_chain img l (vmu_slot_offset l s)). vmu_fat_get img' l b = VMU_FAT_FREE) \<and>
     (\<forall>t. vmu_live img' l t \<longleftrightarrow> vmu_live img l t \<and> t \<noteq> s) \<and>
     (\<forall>t. vmu_live img l t \<longrightarrow> t \<noteq> s \<longrightarrow>
        vmu_entry img' l t = vmu_entry img l t \<and> vmu_file img' l t = vmu_file img l t)"
proof -
  have fit: "vmu_fits l" by (rule vmu_read_layout_fits [OF l])
  let ?bs = "vmu_entry_chain img l (vmu_slot_offset l s)"
  have live: "vmu.live (img, l) s ?bs" using lv by (simp add: vmu_live_def)
  note w = vmu.live_whole [OF live]
  have hd: "ce_first_block (vmu_entry img l s) = hd ?bs"
    using vmu_whole_hd [OF w] by (simp add: vmu_entry_def Let_def ENTRY_FIRST_BLOCK_def)
  have "vmu_find_by_block img l (hd ?bs) = Some (vmu_slot_offset l s)"
    unfolding vmu_find_by_block_iff using w vmu_whole_file(1) [OF w] vmu_live_unique [OF live] by blast
  then have del: "sigil_dreamcast_delete img (hd ?bs) = (SIGIL_OK, vmu_cleared img l ?bs s)"
    by (simp add: sigil_dreamcast_delete_def l Let_def vmu_cleared_def VMU_DIR_ENTRY_SIZE_def)
  let ?img = "vmu_cleared img l ?bs s"
  have s: "s < vmu_slot_count l" by (rule vmu_whole_file(1) [OF w])
  note rem = vmu_cleared_removed [OF fit w]
  have user: "\<forall>b \<in> set ?bs. b < vl_user_blocks l" by (rule vmu_chain_user [OF vmu.whole_chained [OF w]])
  note ag = vmu_cleared_agree [of img l ?bs s]
  have lay: "vmu_read_layout ?img = Some l" by (rule vmu_agree_layout [OF l ag user s])
  have lives: "vmu_live ?img l t \<longleftrightarrow> vmu_live img l t \<and> t \<noteq> s" for t
    unfolding vmu_live_iff using vmu.removed_live [OF rem live] by blast
  have keep: "vmu_entry ?img l t = vmu_entry img l t \<and> vmu_file ?img l t = vmu_file img l t"
    if t: "vmu_live img l t" "t \<noteq> s" for t
  proof -
    from t obtain cs where ct: "vmu.live (img, l) t cs" by (auto simp: vmu_live_iff)
    then have "vmu.live (?img, l) t cs" using vmu.removed_live [OF rem live] t(2) by blast
    from vmu_agree_live [OF fit ag user s t(2) ct this] have e: "vmu_entry ?img l t = vmu_entry img l t" .
    have "set cs \<inter> set ?bs = {}" using live t(2) vmu.whole_claims [OF vmu.live_whole [OF ct]] by (simp add: vmu.live_def)
    from vmu.removed_keeps(3) [OF rem vmu.whole_chained [OF vmu.live_whole [OF ct]] t(2) this] e
    show ?thesis by (simp add: vmu_file_def)
  qed
  have free: "\<forall>b \<in> set ?bs. vmu_fat_get ?img l b = VMU_FAT_FREE" by (rule vmu_cleared_fat [OF fit w])
  have "?img (vmu_slot_offset l s) = VMU_TYPE_EMPTY" by (simp add: vmu_cleared_def memset_apply vmu_types)
  with hd del lay lives keep free show ?thesis by (intro exI [of _ ?img]) simp
qed

section \<open>The formatted card\<close>

definition vmu_std_layout :: vmu_layout where
  "vmu_std_layout = \<lparr>vl_fat_block = 254, vl_dir_block = 253, vl_dir_blocks = 13, vl_dir_step = -1, vl_user_blocks = 200\<rparr>"

text \<open>The image before the FAT is written.\<close>

definition vmu_format_root :: "mem \<Rightarrow> mem" where
  "vmu_format_root img =
     (let img = memset img 0 0 131072;
          img = memset img 130560 ROOT_FILL 16;
          img = memcpy img (130560 + 16) (mem_of FORMAT_COLOUR) 0 (length FORMAT_COLOUR);
          img = memcpy img (130560 + 48) (mem_of FORMAT_TIME) 0 (length FORMAT_TIME);
          img = sigil_write_le16 img (130560 + 64) 255;
          img = sigil_write_le16 img (130560 + 68) 255;
          img = sigil_write_le16 img (130560 + 70) 254;
          img = sigil_write_le16 img (130560 + 72) 1;
          img = sigil_write_le16 img (130560 + 74) 253;
          img = sigil_write_le16 img (130560 + 76) 13;
          img = sigil_write_le16 img (130560 + 80) 200;
          img = sigil_write_le16 img (130560 + 82) 0x1F
      in sigil_write_le16 img (130560 + 86) 0x80)"

definition vmu_format_fat :: "mem \<Rightarrow> mem" where
  "vmu_format_fat img =
     fold (\<lambda>b img. vmu_fat_set img vmu_std_layout b
              (if b < 241 then VMU_FAT_FREE else if b \<in> {241, 254, 255} then VMU_FAT_END else b - 1))
       ([0..<241] @ [241] @ [242..<254] @ [254, 255]) img"

lemma vmu_format_eq: "sigil_dreamcast_format img = vmu_format_fat (vmu_format_root img)"
proof -
  let ?v = "\<lambda>b :: nat. if b < 241 then VMU_FAT_FREE else if b \<in> {241, 254, 255} then VMU_FAT_END else b - 1"
  have 1: "fold (\<lambda>b img. vmu_fat_set img vmu_std_layout b (?v b)) [0..<241] m =
      fold (\<lambda>b img. vmu_fat_set img vmu_std_layout b VMU_FAT_FREE) [0..<241] m" for m
    by (rule fold_cong) (auto simp del: upt_rec_numeral)
  have 2: "fold (\<lambda>b img. vmu_fat_set img vmu_std_layout b (?v b)) [242..<254] m =
      fold (\<lambda>b img. vmu_fat_set img vmu_std_layout b (b - 1)) [242..<254] m" for m
    by (rule fold_cong) (auto simp del: upt_rec_numeral)
  show ?thesis
    unfolding vmu_format_fat_def fold_append comp_def 1 2
    by (simp add: sigil_dreamcast_format_def vmu_format_root_def Let_def vmu_consts vmu_block_at_def FORMAT_FAT_BLOCK_def
        FORMAT_DIR_BLOCK_def FORMAT_DIR_BLOCKS_def FORMAT_USER_BLOCKS_def
        vmu_std_layout_def [symmetric] del: upt_rec_numeral)
qed

lemma vmu_fat_set_fold_get:
  assumes "\<forall>b \<in> set bs. v b < 65536"
  shows "vmu_fat_get (fold (\<lambda>b img. vmu_fat_set img l b (v b)) bs img) l c =
     (if c \<in> set bs then v c else vmu_fat_get img l c)"
  using assms by (induction bs arbitrary: img) (auto simp: vmu_fat_get_set)

lemma vmu_fat_set_fold_out:
  assumes "\<forall>b \<in> set bs. b < 256" and "j < vl_fat_block l * 512 \<or> vl_fat_block l * 512 + 512 \<le> j"
  shows "fold (\<lambda>b img. vmu_fat_set img l b (v b)) bs img j = img j"
  using assms by (induction bs arbitrary: img) (auto simp: vmu_fat_set_apply)

lemma vmu_format_get:
  "b < 256 \<Longrightarrow> vmu_fat_get (sigil_dreamcast_format img) vmu_std_layout b =
     (if b < 241 then VMU_FAT_FREE else if b \<in> {241, 254, 255} then VMU_FAT_END else b - 1)"
  unfolding vmu_format_eq vmu_format_fat_def
  by (subst vmu_fat_set_fold_get) (auto simp: VMU_FAT_FREE_def VMU_FAT_END_def simp del: upt_rec_numeral)

lemma vmu_format_out: "j < 130048 \<or> 130560 \<le> j \<Longrightarrow> sigil_dreamcast_format img j = vmu_format_root img j"
  unfolding vmu_format_eq vmu_format_fat_def
  by (rule vmu_fat_set_fold_out) (auto simp: vmu_std_layout_def simp del: upt_rec_numeral)

lemma vmu_format_low: "j < 130048 \<Longrightarrow> sigil_dreamcast_format img j = 0"
  by (simp add: vmu_format_out vmu_format_root_def Let_def write_le16_apply memcpy_apply memset_apply)

lemma vmu_format_root_bytes:
  "i < 16 \<Longrightarrow> vmu_format_root img (130560 + i) = 0x55"
  "vmu_format_root img 130630 = 254" "vmu_format_root img 130631 = 0"
  "vmu_format_root img 130632 = 1" "vmu_format_root img 130633 = 0"
  "vmu_format_root img 130634 = 253" "vmu_format_root img 130635 = 0"
  "vmu_format_root img 130636 = 13" "vmu_format_root img 130637 = 0"
  "vmu_format_root img 130640 = 200" "vmu_format_root img 130641 = 0"
  by (simp_all add: vmu_format_root_def Let_def write_le16_apply memcpy_apply memset_apply ROOT_FILL_def FORMAT_COLOUR_def FORMAT_TIME_def)

lemma vmu_format_layout: "vmu_read_layout (sigil_dreamcast_format img) = Some vmu_std_layout"
proof -
  note b = vmu_format_root_bytes [where img = img]
  have r: "vmu_raw_layout (sigil_dreamcast_format img) = vmu_std_layout\<lparr>vl_dir_step := 0\<rparr>"
    "sigil_read_le16 (sigil_dreamcast_format img) 130632 = 1"
    by (simp_all add: vmu_raw_layout_def vmu_format_out vmu_std_layout_def sigil_read_le16_def b)
  have "vmu_dir_steps (vmu_std_layout\<lparr>vl_dir_step := 0\<rparr>) = Some (-1)"
    by (simp add: vmu_dir_steps_def vmu_std_layout_def vmu_range_clear_def VMU_ROOT_BLOCK_def)
  moreover have "vmu_fat_get (sigil_dreamcast_format img) vmu_std_layout 255 = VMU_FAT_END"
    "vmu_fat_get (sigil_dreamcast_format img) vmu_std_layout 254 = VMU_FAT_END" by (simp_all add: vmu_format_get)
  moreover have "\<forall>i < 16. sigil_dreamcast_format img (130560 + i) = 0x55" using b(1) by (simp add: vmu_format_out)
  ultimately show ?thesis unfolding vmu_read_layout_iff r by (simp add: vmu_std_layout_def)
qed

lemma vmu_std_slots: "vmu_slot_count vmu_std_layout = 208" "vl_user_blocks vmu_std_layout = 200"
  by (simp_all add: vmu_slot_count_def vmu_std_layout_def VMU_SLOTS_PER_BLOCK_def)

lemma vmu_std_fits: "vmu_fits vmu_std_layout"
  using vmu_read_layout_fits [OF vmu_format_layout] .

lemma vmu_format_slot:
  assumes "s < 208" and "k < 32"
  shows "sigil_dreamcast_format img (vmu_slot_offset vmu_std_layout s + k) = 0"
proof -
  have "s < vmu_slot_count vmu_std_layout" using assms(1) by (simp add: vmu_std_slots)
  from vmu_slot_div(2,3) [OF vmu_std_fits this assms(2)]
  have "(vmu_slot_offset vmu_std_layout s + k) div 512 < 254" by (simp add: vmu_std_layout_def)
  then show ?thesis by (intro vmu_format_low) (simp add: div_less_iff_less_mult)
qed


section \<open>Reading a file back\<close>

lemma vmu_extract_bytes:
  assumes l: "vmu_read_layout img = Some l" and f: "vmu_find_by_block img l (hd bs) = Some (vmu_slot_offset l s)"
    and w: "vmu.whole (img, l) s bs"
  shows "\<exists>out'. sigil_dreamcast_extract img (hd bs) (length bs) out = (SIGIL_OK, out') \<and>
     (\<forall>k < 32. out' k = (if k = 2 \<or> k = 3 then 0 else img (vmu_slot_offset l s + k))) \<and>
     (\<forall>i < length bs. \<forall>k < 512. out' (32 + i * 512 + k) = img (bs ! i * 512 + rev4 k))"
proof -
  let ?o = "vmu_slot_offset l s"
  let ?out = "sigil_write_le16 (memcpy out 0 img ?o 32) 2 0"
  let ?f = "\<lambda>i out. vmu_reverse_groups out (32 + i * 512) img (bs ! i * 512) 512"
  let ?out' = "fold ?f [0..<length bs] ?out"
  have ch: "vmu_entry_chain img l ?o = bs" by (rule vmu_whole_file(3) [OF w])
  have ex: "sigil_dreamcast_extract img (hd bs) (length bs) out = (SIGIL_OK, ?out')"
    by (simp add: sigil_dreamcast_extract_def l f ch Let_def VMU_DIR_ENTRY_SIZE_def ENTRY_FIRST_BLOCK_def
        sigil_dreamcast_dci_size_def vmu_block_at_def VMU_BLOCK_SIZE_def)
  have app: "?f i m j = (if 32 + i * 512 \<le> j \<and> j < 32 + i * 512 + 512 then img (bs ! i * 512 + rev4 (j - (32 + i * 512))) else m j)"
    for i m j by (simp add: vmu_reverse_groups_apply)
  let ?R = "\<lambda>i :: nat. {32 + i * 512..<32 + i * 512 + 512}"
  have "?out' k = ?out k" if "k < 32" for k
    by (rule fold_outside_regions [where R = ?R]) (use app that in auto)
  moreover have "?out k = (if k = 2 \<or> k = 3 then 0 else img (?o + k))" if "k < 32" for k
    using that by (auto simp: write_le16_apply memcpy_apply)
  moreover have "?out' (32 + i * 512 + k) = img (bs ! i * 512 + rev4 k)" if i: "i < length bs" and k: "k < 512" for i k
  proof -
    have "?out' (32 + i * 512 + k) = ?f i ?out (32 + i * 512 + k)"
    proof (rule fold_in_region [where R = ?R])
      show "?R a \<inter> ?R b = {}" if "a \<noteq> b" for a b :: nat
      proof -
        have "a * 512 + 512 \<le> b * 512 \<or> b * 512 + 512 \<le> a * 512" using that by linarith
        then show ?thesis by auto
      qed
    qed (use app i k in auto)
    then show ?thesis using k by (simp add: app)
  qed
  ultimately show ?thesis using ex by (intro exI [of _ ?out']) simp
qed

lemma vmu_dci_cover:
  fixes j n :: nat
  assumes "j < 32 + n * 512"
  obtains "j < 32" | i k where "i < n" "k < 512" "j = 32 + i * 512 + k"
proof (cases "j < 32")
  case False
  have "(j - 32) div 512 < n" using assms False by (simp add: div_less_iff_less_mult)
  moreover have "j = 32 + (j - 32) div 512 * 512 + (j - 32) mod 512" using False by simp
  ultimately show thesis using that(2) [of "(j - 32) div 512" "(j - 32) mod 512"] by simp
qed (use that in blast)

lemma vmu_verify_ok:
  assumes l: "vmu_read_layout img = Some l" and n: "vmu_dci_blocks dci len \<noteq> 0" and s: "s < vmu_slot_count l"
    and "vmu_named_as img (vmu_slot_offset l s) dci"
    and "length (vmu_entry_chain img l (vmu_slot_offset l s)) = vmu_dci_blocks dci len"
    and "unat (sigil_read_le16 img (vmu_slot_offset l s + 2)) = f"
    and "sigil_dreamcast_extract img f (vmu_dci_blocks dci len) (\<lambda>_. 0) = (SIGIL_OK, cp)"
    and "mem_eq cp 0 dci 0 2" and "mem_eq cp 4 dci 4 (len - 4)"
  shows "sigil_dreamcast_verify img dci len = SIGIL_OK"
proof -
  have "list_ex P [0..<vmu_slot_count l]" if "P s" for P using s that by (auto simp: list_ex_iff)
  then show ?thesis
    using assms unfolding sigil_dreamcast_verify_def Let_def ENTRY_FIRST_BLOCK_def by simp
qed

text \<open>C20 (roundtrip): on a card whose files are all listed, a \<^verbatim>\<open>.dci\<close> that was injected verifies, and
  extracting the new file by its first block gives back every byte of the \<^verbatim>\<open>.dci\<close> but for the first
  block's number, which is written as 0.\<close>

theorem vmu_inject_verifies:
  assumes l: "vmu_read_layout img = Some l" and cl: "vmu_clean img l"
    and ok: "sigil_dreamcast_inject img dci len = (SIGIL_OK, img')"
  shows "sigil_dreamcast_verify img' dci len = SIGIL_OK \<and>
    (\<exists>s out'. vmu_live img' l s \<and>
       sigil_dreamcast_extract img' (ce_first_block (vmu_entry img' l s)) (vmu_dci_blocks dci len) out = (SIGIL_OK, out') \<and>
       (\<forall>j < len. out' j = (if j = 2 \<or> j = 3 then 0 else dci j)))"
proof -
  have fit: "vmu_fits l" by (rule vmu_read_layout_fits [OF l])
  let ?n = "vmu_dci_blocks dci len"
  obtain s ch where s: "s < vmu_slot_count l" "img (vmu_slot_offset l s) = VMU_TYPE_EMPTY"
    and ch: "length ch = ?n" "ch \<noteq> []" "distinct ch" "\<forall>b \<in> set ch. b < vl_user_blocks l"
    and i: "img' = vmu_put img l ch s dci" and ins: "vmu.inserted (img, l) (img', l) s ch"
    by (rule vmu_inject_ok [OF l ok])
  let ?o = "vmu_slot_offset l s"
  have n: "?n \<noteq> 0" using ch(1,2) by (metis length_0_conv)
  have dci: "vmu_is_file dci 0" and len: "\<And>j. j < len \<longleftrightarrow> j < 32 + ?n * 512"
    using vmu_dci_blocks [OF refl n] by (blast, linarith)
  have l': "vmu_read_layout img' = Some l"
    unfolding i by (rule vmu_agree_layout [OF l vmu_put_agree [OF fit ch(3,4) s(1)] ch(4) s(1)])
  have live: "vmu.live (img', l) s ch" using vmu.inserted_clean [OF ins] cl by (simp add: vmu_clean_iff)
  note w = vmu.live_whole [OF live]
  note new = vmu_put_new [OF fit ch(3,4,2) s(1), where img = img and dci = dci, folded i]
  note B = vmu_put_bytes(2) [OF fit ch(3,4) s(1), where img = img and dci = dci, folded i]
  have f: "vmu_find_by_block img' l (hd ch) = Some ?o"
    unfolding vmu_find_by_block_iff using s(1) w vmu_live_unique [OF live] by blast
  have ext: "\<exists>out'. sigil_dreamcast_extract img' (hd ch) ?n out = (SIGIL_OK, out') \<and>
      (\<forall>j < len. out' j = (if j = 2 \<or> j = 3 then 0 else dci j))" for out
  proof -
    obtain out' where o: "sigil_dreamcast_extract img' (hd ch) ?n out = (SIGIL_OK, out')"
      "\<forall>k < 32. out' k = (if k = 2 \<or> k = 3 then 0 else img' (?o + k))"
      "\<forall>i < ?n. \<forall>k < 512. out' (32 + i * 512 + k) = img' (ch ! i * 512 + rev4 k)"
      using vmu_extract_bytes [OF l' f w, of out] unfolding ch(1) by blast
    have "out' j = (if j = 2 \<or> j = 3 then 0 else dci j)" if "j < len" for j
      using that unfolding len
    proof (cases rule: vmu_dci_cover)
      case 1
      then show ?thesis using o(2) B [of j] by (auto simp: write_le16_apply)
    next
      case (2 i k)
      have "rev4 k < 512" using rev4_less [of k 128] 2(2) by simp
      with 2 o(3) new(2) [of i "rev4 k"] ch(1) show ?thesis by simp
    qed
    with o(1) show ?thesis by blast
  qed
  from ext [of "\<lambda>_. 0"] obtain cp where cp: "sigil_dreamcast_extract img' (hd ch) ?n (\<lambda>_. 0) = (SIGIL_OK, cp)"
    "\<forall>j < len. cp j = (if j = 2 \<or> j = 3 then 0 else dci j)" by blast
  have named: "vmu_named_as img' ?o dci"
    using new(3) dci B by (auto simp: vmu_named_as_def mem_eq_def list_all_iff ENTRY_NAME_def VMU_NAME_LEN_def add.assoc write_le16_apply)
  have eq: "mem_eq cp 0 dci 0 2" "mem_eq cp 4 dci 4 (len - 4)"
    using cp(2) len [of 0] len [of 1] by (auto simp: mem_eq_def list_all_iff)
  have "sigil_dreamcast_verify img' dci len = SIGIL_OK"
    by (rule vmu_verify_ok [OF l' n s(1) named _ new(4) cp(1) eq])
      (simp add: vmu_whole_file(3) [OF w] ch(1))
  moreover have "ce_first_block (vmu_entry img' l s) = hd ch"
    using vmu_whole_hd [OF w] by (simp add: vmu_entry_def Let_def ENTRY_FIRST_BLOCK_def)
  moreover have "vmu_live img' l s" using live by (auto simp: vmu_live_iff)
  moreover obtain out' where "sigil_dreamcast_extract img' (hd ch) ?n out = (SIGIL_OK, out')"
    "\<forall>j < len. out' j = (if j = 2 \<or> j = 3 then 0 else dci j)" using ext [of out] by blast
  ultimately show ?thesis by (intro conjI exI [of _ s] exI [of _ out']) simp_all
qed

section \<open>What the card lists\<close>

definition vmu_free_list :: "mem \<Rightarrow> vmu_layout \<Rightarrow> nat list" where
  "vmu_free_list img l = filter (\<lambda>b. vmu_fat_get img l b = VMU_FAT_FREE) [0..<vl_user_blocks l]"

lemma vmu_card_list:
  assumes "vmu_read_layout img = Some l"
  obtains r where "sigil_dreamcast_card_list img = (SIGIL_OK, Some r)"
    "entries r = map (vmu_entry img l) (filter (vmu_live img l) [0..<vmu_slot_count l])"
    "free_slots r = length (filter (\<lambda>s. img (vmu_slot_offset l s) = VMU_TYPE_EMPTY) [0..<vmu_slot_count l])"
    "corrupt_count r =
       length (filter (\<lambda>s. vmu_is_file img (vmu_slot_offset l s) \<and> \<not> vmu_live img l s) [0..<vmu_slot_count l])"
    "total_blocks r = vl_user_blocks l" "free_blocks r = length (vmu_free_list img l)"
proof -
  let ?lst = "(sigil_card_listing_new SIGIL_CARD_FORMAT_DREAMCAST_VMU)
     \<lparr>total_blocks := vl_user_blocks l, free_blocks := length (vmu_free_list img l)\<rparr>"
  have "sigil_dreamcast_card_list img =
      (SIGIL_OK, Some (fold (vmu_list_slot img l (vmu_count_claims img l)) [0..<vmu_slot_count l] ?lst))"
    by (simp add: sigil_dreamcast_card_list_def assms Let_def vmu_free_list_def)
  moreover have "set [0..<vmu_slot_count l] \<subseteq> {..<vmu_slot_count l}" by auto
  from vmu_list_fold [OF this, of img ?lst] have
    "let r = fold (vmu_list_slot img l (vmu_count_claims img l)) [0..<vmu_slot_count l] ?lst in
      entries r = map (vmu_entry img l) (filter (vmu_live img l) [0..<vmu_slot_count l]) \<and>
      free_slots r = length (filter (\<lambda>s. img (vmu_slot_offset l s) = VMU_TYPE_EMPTY) [0..<vmu_slot_count l]) \<and>
      corrupt_count r =
        length (filter (\<lambda>s. vmu_is_file img (vmu_slot_offset l s) \<and> \<not> vmu_live img l s) [0..<vmu_slot_count l]) \<and>
      total_blocks r = vl_user_blocks l \<and> free_blocks r = length (vmu_free_list img l)"
    by (simp add: sigil_card_listing_new_def Let_def)
  ultimately show thesis by (intro that) (auto simp: Let_def)
qed

text \<open>C25 (functional): the listing of a VMU with a readable layout shows the files whose chain has the
  recorded size and shares no block with another such file, in slot order; it counts the other
  files as corrupt, the empty slots, and the blocks whose FAT entry says free.\<close>

theorem vmu_card_list_spec:
  assumes "vmu_read_layout img = Some l"
  shows "\<exists>r. sigil_dreamcast_card_list img = (SIGIL_OK, Some r) \<and>
     entries r = map (vmu_entry img l) (filter (vmu_live img l) [0..<vmu_slot_count l]) \<and>
     free_slots r = length (filter (\<lambda>s. img (vmu_slot_offset l s) = VMU_TYPE_EMPTY) [0..<vmu_slot_count l]) \<and>
     corrupt_count r =
       length (filter (\<lambda>s. vmu_is_file img (vmu_slot_offset l s) \<and> \<not> vmu_live img l s) [0..<vmu_slot_count l]) \<and>
     total_blocks r = vl_user_blocks l \<and> free_blocks r = length (vmu_free_list img l)"
  by (rule vmu_card_list [OF assms]) blast

theorem vmu_card_list_spec_witness:
  "\<exists>r. sigil_dreamcast_card_list (sigil_dreamcast_format (\<lambda>_. 0)) = (SIGIL_OK, Some r) \<and> total_blocks r = 200"
  using vmu_card_list_spec [OF vmu_format_layout, of "\<lambda>_. 0"] vmu_std_slots by auto

section \<open>Every card built by the operations\<close>

inductive vmu_reachable :: "mem \<Rightarrow> bool" where
  formatted: "vmu_reachable (sigil_dreamcast_format img)"
| injected: "vmu_reachable img \<Longrightarrow> sigil_dreamcast_inject img dci len = (SIGIL_OK, img') \<Longrightarrow> vmu_reachable img'"
| deleted: "vmu_reachable img \<Longrightarrow> sigil_dreamcast_delete img f = (SIGIL_OK, img') \<Longrightarrow> vmu_reachable img'"

text \<open>Every file is listed, every slot is empty or a file, a block is free unless a file has it, and no
  two files have one name.\<close>

definition vmu_name12 :: "mem \<Rightarrow> vmu_layout \<Rightarrow> nat \<Rightarrow> bytes" where
  "vmu_name12 img l s = bytes_at img (vmu_slot_offset l s + 4) 12"

definition vmu_inv :: "mem \<Rightarrow> vmu_layout \<Rightarrow> bool" where
  "vmu_inv img l \<longleftrightarrow>
     vmu_read_layout img = Some l \<and> vmu_clean img l \<and>
     (\<forall>s < vmu_slot_count l. img (vmu_slot_offset l s) = VMU_TYPE_EMPTY \<or> vmu_is_file img (vmu_slot_offset l s)) \<and>
     (\<forall>b < vl_user_blocks l. vmu_fat_get img l b = VMU_FAT_FREE \<longleftrightarrow> (\<nexists>s bs. vmu.live (img, l) s bs \<and> b \<in> set bs)) \<and>
     (\<forall>s t. vmu_live img l s \<longrightarrow> vmu_live img l t \<longrightarrow> vmu_name12 img l s = vmu_name12 img l t \<longrightarrow> s = t)"

lemma vmu_format_inv: "vmu_inv (sigil_dreamcast_format img) vmu_std_layout"
proof -
  have e: "sigil_dreamcast_format img (vmu_slot_offset vmu_std_layout s) = VMU_TYPE_EMPTY" if "s < 208" for s
    using vmu_format_slot [OF that, of 0 img] by (simp add: vmu_types)
  have nf: "\<not> vmu_is_file (sigil_dreamcast_format img) (vmu_slot_offset vmu_std_layout s)" if "s < 208" for s
    using e [OF that] vmu_file_not_empty by blast
  have nl: "\<not> vmu.live (sigil_dreamcast_format img, vmu_std_layout) s bs" for s bs
    using nf vmu_whole_file [OF vmu.live_whole] by (metis vmu_std_slots(1))
  then have "\<not> vmu_live (sigil_dreamcast_format img) vmu_std_layout s" for s by (simp add: vmu_live_iff)
  with e nf nl show ?thesis
    by (simp add: vmu_inv_def vmu_format_layout vmu_clean_def vmu_std_slots vmu_format_get)
qed

lemma vmu_agree_name:
  assumes "vmu_fits l" and "vmu_agree img img' l bs s" and "\<forall>b \<in> bs. b < vl_user_blocks l"
    and "s < vmu_slot_count l" and "t < vmu_slot_count l" and "t \<noteq> s"
  shows "vmu_name12 img' l t = vmu_name12 img l t"
    and "img' (vmu_slot_offset l t) = img (vmu_slot_offset l t)"
proof -
  note r = vmu_agree_rest(3) [OF assms(1-4) assms(5,6)]
  show "vmu_name12 img' l t = vmu_name12 img l t"
    unfolding vmu_name12_def using r by (intro bytes_at_cong) (simp add: add.assoc)
  show "img' (vmu_slot_offset l t) = img (vmu_slot_offset l t)" using r [of 0] by simp
qed

lemma vmu_inject_inv:
  assumes inv: "vmu_inv img l" and ok: "sigil_dreamcast_inject img dci len = (SIGIL_OK, img')"
  shows "vmu_inv img' l"
proof -
  have l: "vmu_read_layout img = Some l" and cl: "vmu_clean img l" using inv by (simp_all add: vmu_inv_def)
  have fit: "vmu_fits l" by (rule vmu_read_layout_fits [OF l])
  obtain s ch where s: "s < vmu_slot_count l" "img (vmu_slot_offset l s) = VMU_TYPE_EMPTY"
    and ch: "length ch = vmu_dci_blocks dci len" "ch \<noteq> []" "distinct ch" "\<forall>b \<in> set ch. b < vl_user_blocks l"
      "\<not> vmu_name_taken img l dci"
    and i: "img' = vmu_put img l ch s dci" and ins: "vmu.inserted (img, l) (img', l) s ch"
    by (rule vmu_inject_ok [OF l ok])
  have ag: "vmu_agree img img' l (set ch) s" unfolding i by (rule vmu_put_agree [OF fit ch(3,4) s(1)])
  note live = vmu.inserted_clean [OF ins cl [unfolded vmu_clean_iff]]
  note new = vmu_put_new [OF fit ch(3,4,2) s(1), where img = img and dci = dci, folded i]
  have dci: "vmu_is_file dci 0" using ch(1,2) vmu_dci_blocks(1) [OF refl] by (metis length_0_conv)
  note nm = vmu_agree_name [OF fit ag ch(4) s(1)]
  have fat: "vmu_fat_get img' l b = VMU_FAT_FREE \<longleftrightarrow> (\<nexists>s bs. vmu.live (img', l) s bs \<and> b \<in> set bs)"
    if b: "b < vl_user_blocks l" for b
  proof (cases "b \<in> set ch")
    case True
    then have "vmu_step (img', l) b \<noteq> Bad" using vmu.chained_not_bad [OF vmu.whole_chained [OF vmu.inserted_new [OF ins]]] by blast
    then have "vmu_fat_get img' l b \<noteq> VMU_FAT_FREE"
      using fit by (auto simp: vmu_step_def Let_def VMU_FAT_FREE_def VMU_FAT_END_def vmu_fits_def)
    with True live(1) show ?thesis by blast
  next
    case False
    have "b < 256" using b fit by (simp add: vmu_fits_def)
    then have "vmu_fat_get img' l b = vmu_fat_get img l b" using vmu_agree_rest(1) [OF fit ag ch(4) s(1)] False by blast
    with False live(1) inv b show ?thesis by (auto simp: vmu_inv_def)
  qed
  have name: "vmu_name12 img' l s = bytes_at dci 4 12"
    unfolding vmu_name12_def i
    by (rule bytes_at_cong) (simp add: vmu_put_bytes(2) [OF fit ch(3,4) s(1)] add.assoc write_le16_apply)
  have fresh: "vmu_name12 img' l t \<noteq> vmu_name12 img' l s" if t: "vmu_live img l t" for t
  proof
    have tt: "t < vmu_slot_count l" "vmu_is_file img (vmu_slot_offset l t)" using vmu_live_file [OF t] by simp_all
    have ts: "t \<noteq> s" using tt(2) s(2) vmu_file_not_empty by blast
    assume "vmu_name12 img' l t = vmu_name12 img' l s"
    then have "vmu_name12 img l t = bytes_at dci 4 12" using nm(1) [OF tt(1) ts] name by simp
    then have "vmu_named_as img (vmu_slot_offset l t) dci"
      using tt(2) by (auto simp: vmu_named_as_def vmu_name12_def mem_eq_def list_all_iff bytes_at_def ENTRY_NAME_def VMU_NAME_LEN_def)
    with tt(1) ch(5) show False by (auto simp: vmu_name_taken_def list_ex_iff)
  qed
  have lives: "vmu_live img' l t \<longleftrightarrow> vmu_live img l t \<or> t = s" for t using live(1) by (auto simp: vmu_live_iff)
  have names: "t = u" if "vmu_live img' l t" "vmu_live img' l u" "vmu_name12 img' l t = vmu_name12 img' l u" for t u
  proof (cases "t = s \<or> u = s")
    case True
    with that fresh lives show ?thesis by metis
  next
    case False
    with that lives have o: "vmu_live img l t" "vmu_live img l u" by blast+
    with False that(3) nm(1) vmu_live_file have "vmu_name12 img l t = vmu_name12 img l u" by metis
    with o inv show ?thesis by (auto simp: vmu_inv_def)
  qed
  have slots: "img' (vmu_slot_offset l t) = VMU_TYPE_EMPTY \<or> vmu_is_file img' (vmu_slot_offset l t)"
    if "t < vmu_slot_count l" for t
    using that nm(2) [OF that] new(3) dci inv by (cases "t = s") (auto simp: vmu_inv_def vmu_is_file_def)
  show ?thesis
    unfolding vmu_inv_def using vmu_agree_layout [OF l ag ch(4) s(1)] live(2) fat names slots vmu_clean_iff by blast
qed

lemma vmu_delete_inv:
  assumes inv: "vmu_inv img l" and ok: "sigil_dreamcast_delete img f = (SIGIL_OK, img')"
  shows "vmu_inv img' l"
proof -
  have l: "vmu_read_layout img = Some l" and cl: "vmu_clean img l" using inv by (simp_all add: vmu_inv_def)
  have fit: "vmu_fits l" by (rule vmu_read_layout_fits [OF l])
  obtain s bs where s: "s < vmu_slot_count l" and w: "vmu.whole (img, l) s bs" and i: "img' = vmu_cleared img l bs s"
    by (rule vmu_delete_ok [OF l ok])
  note user = vmu_chain_user [OF vmu.whole_chained [OF w]]
  have ag: "vmu_agree img img' l (set bs) s" unfolding i by (rule vmu_cleared_agree)
  have rem: "vmu.removed (img, l) (img', l) s bs" unfolding i by (rule vmu_cleared_removed [OF fit w])
  have "vmu_live img l s" using cl s vmu_whole_file(2) [OF w] by (simp add: vmu_clean_def)
  then have lv: "vmu.live (img, l) s bs" using vmu_whole_live vmu_whole_file(3) [OF w] by blast
  note live = vmu.removed_live [OF rem lv]
  have lives: "vmu_live img' l t \<longleftrightarrow> vmu_live img l t \<and> t \<noteq> s" for t using live by (auto simp: vmu_live_iff)
  note nm = vmu_agree_name [OF fit ag user s]
  have fat: "vmu_fat_get img' l b = VMU_FAT_FREE \<longleftrightarrow> (\<nexists>s bs. vmu.live (img', l) s bs \<and> b \<in> set bs)"
    if b: "b < vl_user_blocks l" for b
  proof -
    have "b < 256" using b fit by (simp add: vmu_fits_def)
    then have g: "vmu_fat_get img' l b = (if b \<in> set bs then VMU_FAT_FREE else vmu_fat_get img l b)"
      unfolding i by (rule vmu_cleared_get [OF fit s])
    have dj: "set cs \<inter> set bs = {}" if "t \<noteq> s" "vmu.live (img, l) t cs" for t cs
      using lv vmu.whole_claims [OF vmu.live_whole [OF that(2)]] that(1) by (simp add: vmu.live_def)
    have un: "cs = bs" if "vmu.live (img, l) s cs" for cs
      using vmu_whole_live that lv by metis
    have old: "vmu_fat_get img l b = VMU_FAT_FREE \<longleftrightarrow> (\<nexists>s bs. vmu.live (img, l) s bs \<and> b \<in> set bs)"
      using inv b by (simp add: vmu_inv_def)
    show ?thesis
    proof (cases "b \<in> set bs")
      case True
      then have "\<not> (vmu.live (img', l) t cs \<and> b \<in> set cs)" for t cs using live dj [of t cs] by blast
      with True g show ?thesis by simp
    next
      case False
      then have "vmu.live (img', l) t cs \<and> b \<in> set cs \<longleftrightarrow> vmu.live (img, l) t cs \<and> b \<in> set cs" for t cs
        using live un [of cs] by (cases "t = s") auto
      with False g old show ?thesis by simp
    qed
  qed
  have e: "img' (vmu_slot_offset l s) = VMU_TYPE_EMPTY" by (simp add: i vmu_cleared_def memset_apply vmu_types)
  have slots: "img' (vmu_slot_offset l t) = VMU_TYPE_EMPTY \<or> vmu_is_file img' (vmu_slot_offset l t)"
    if "t < vmu_slot_count l" for t
    using that nm(2) [OF that] e inv by (cases "t = s") (auto simp: vmu_inv_def vmu_is_file_def)
  have names: "t = u" if "vmu_live img' l t" "vmu_live img' l u" "vmu_name12 img' l t = vmu_name12 img' l u" for t u
  proof -
    from that lives have o: "vmu_live img l t" "t \<noteq> s" "vmu_live img l u" "u \<noteq> s" by blast+
    with that(3) nm(1) vmu_live_file have "vmu_name12 img l t = vmu_name12 img l u" by metis
    with o inv show ?thesis by (auto simp: vmu_inv_def)
  qed
  have "vmu_clean img' l" using vmu.removed_clean [OF rem] cl by (simp add: vmu_clean_iff)
  with vmu_agree_layout [OF l ag user s] fat names slots show ?thesis unfolding vmu_inv_def by blast
qed

lemma vmu_reachable_inv: "vmu_reachable img \<Longrightarrow> vmu_inv img vmu_std_layout"
proof (induction rule: vmu_reachable.induct)
  case (formatted img)
  show ?case by (rule vmu_format_inv)
next
  case (injected img dci len img')
  show ?case by (rule vmu_inject_inv [OF injected.IH injected.hyps(2)])
next
  case (deleted img f img')
  show ?case by (rule vmu_delete_inv [OF deleted.IH deleted.hyps(2)])
qed

lemma vmu_inv_accounted:
  assumes inv: "vmu_inv img l"
  shows "length (vmu_free_list img l) +
    sum_list (map ce_blocks (map (vmu_entry img l) (filter (vmu_live img l) [0..<vmu_slot_count l]))) = vl_user_blocks l"
proof -
  let ?w = "\<lambda>s. vmu_entry_chain img l (vmu_slot_offset l s)"
  let ?L = "filter (vmu_live img l) [0..<vmu_slot_count l]"
  have lv: "vmu.live (img, l) s (?w s)" if "s \<in> set ?L" for s using that by (simp add: vmu_live_def)
  have "length (filter (\<lambda>b. vmu_fat_get img l b = VMU_FAT_FREE) [0..<vl_user_blocks l]) +
      sum_list (map (\<lambda>a. length (?w a)) ?L) = vl_user_blocks l - 0"
  proof (rule blocks_accounted)
    fix a assume a: "a \<in> set ?L"
    show "distinct (?w a) \<and> set (?w a) \<subseteq> {0..<vl_user_blocks l}"
      using vmu_entry_chain_distinct vmu_chain_user [OF vmu.whole_chained [OF vmu.live_whole [OF lv [OF a]]]] by auto
    show "set (?w a) \<inter> set (?w b) = {}" if "b \<in> set ?L" "a \<noteq> b" for b
      using lv [OF a] lv [OF that(1)] that(2) vmu.whole_claims vmu.live_whole unfolding vmu.live_def by metis
  next
    fix b assume "b < vl_user_blocks l"
    with inv show "vmu_fat_get img l b = VMU_FAT_FREE \<longleftrightarrow> (\<forall>a \<in> set ?L. b \<notin> set (?w a))"
      using vmu_live_file by (auto simp: vmu_inv_def vmu_whole_live)
  qed simp
  then show ?thesis by (simp add: vmu_free_list_def vmu_entry_def Let_def comp_def)
qed

text \<open>C9 (invariant): on every VMU that formatting, adding and deleting files lead to, the layout reads as
  the formatted one, no file is corrupt, the free blocks and the listed files' blocks add up to the
  200 of the card, the empty slots and the listed files to its 208 slots, and no two files have the
  same twelve bytes of name.\<close>

theorem vmu_reachable_invariant:
  assumes "vmu_reachable img"
  shows "vmu_read_layout img = Some vmu_std_layout \<and>
    (\<exists>r. sigil_dreamcast_card_list img = (SIGIL_OK, Some r) \<and> corrupt_count r = 0 \<and> total_blocks r = 200 \<and>
       free_blocks r + sum_list (map ce_blocks (entries r)) = 200 \<and> free_slots r + length (entries r) = 208) \<and>
    (\<forall>s t. vmu_live img vmu_std_layout s \<longrightarrow> vmu_live img vmu_std_layout t \<longrightarrow>
       vmu_name12 img vmu_std_layout s = vmu_name12 img vmu_std_layout t \<longrightarrow> s = t)"
proof -
  let ?l = vmu_std_layout
  note inv = vmu_reachable_inv [OF assms]
  have lay: "vmu_read_layout img = Some ?l" and cl: "vmu_clean img ?l" using inv by (simp_all add: vmu_inv_def)
  obtain r where r: "sigil_dreamcast_card_list img = (SIGIL_OK, Some r)"
    "entries r = map (vmu_entry img ?l) (filter (vmu_live img ?l) [0..<vmu_slot_count ?l])"
    "free_slots r = length (filter (\<lambda>s. img (vmu_slot_offset ?l s) = VMU_TYPE_EMPTY) [0..<vmu_slot_count ?l])"
    "corrupt_count r =
       length (filter (\<lambda>s. vmu_is_file img (vmu_slot_offset ?l s) \<and> \<not> vmu_live img ?l s) [0..<vmu_slot_count ?l])"
    "total_blocks r = vl_user_blocks ?l" "free_blocks r = length (vmu_free_list img ?l)" by (rule vmu_card_list [OF lay])
  have c: "corrupt_count r = 0" using cl unfolding r(4) vmu_clean_def by (simp add: filter_empty_conv)
  have "filter (\<lambda>s. img (vmu_slot_offset ?l s) = VMU_TYPE_EMPTY) [0..<vmu_slot_count ?l] =
      filter (\<lambda>s. \<not> vmu_live img ?l s) [0..<vmu_slot_count ?l]"
  proof (rule filter_cong [OF refl])
    fix s assume "s \<in> set [0..<vmu_slot_count ?l]"
    then have s: "s < vmu_slot_count ?l" by simp
    with inv have "img (vmu_slot_offset ?l s) = VMU_TYPE_EMPTY \<or> vmu_is_file img (vmu_slot_offset ?l s)"
      unfolding vmu_inv_def by blast
    with s cl vmu_live_file [of img ?l s] vmu_file_not_empty [of img "vmu_slot_offset ?l s"]
    show "img (vmu_slot_offset ?l s) = VMU_TYPE_EMPTY \<longleftrightarrow> \<not> vmu_live img ?l s" unfolding vmu_clean_def by blast
  qed
  then have sl: "free_slots r + length (entries r) = vmu_slot_count ?l"
    using sum_length_filter_compl [of "vmu_live img ?l" "[0..<vmu_slot_count ?l]"] r(2,3) by simp
  have acc: "free_blocks r + sum_list (map ce_blocks (entries r)) = vl_user_blocks ?l"
    using vmu_inv_accounted [OF inv] unfolding r(2,6) .
  have names: "\<forall>s t. vmu_live img ?l s \<longrightarrow> vmu_live img ?l t \<longrightarrow> vmu_name12 img ?l s = vmu_name12 img ?l t \<longrightarrow> s = t"
    using inv unfolding vmu_inv_def by blast
  show ?thesis
    by (rule conjI [OF lay conjI [OF exI [of _ r] names]])
      (intro conjI r(1) c r(5) [unfolded vmu_std_slots] acc [unfolded vmu_std_slots] sl [unfolded vmu_std_slots])
qed

theorem vmu_reachable_invariant_witness:
  "vmu_read_layout (sigil_dreamcast_format (\<lambda>_. 0)) = Some vmu_std_layout"
  using vmu_reachable_invariant [OF vmu_reachable.formatted] by blast

section \<open>A card with one file\<close>

definition vmu_sample_dci :: mem where
  "vmu_sample_dci = (\<lambda>_. 0)(0 := 0x33, 4 := 0x41, 24 := 1, 40 := 7)"

definition vmu_sample_card :: mem where
  "vmu_sample_card = snd (sigil_dreamcast_inject (sigil_dreamcast_format (\<lambda>_. 0)) vmu_sample_dci 544)"

lemma vmu_sample_blocks: "vmu_dci_blocks vmu_sample_dci 544 = 1"
  by (simp add: vmu_dci_blocks_def sigil_dreamcast_dci_size_def vmu_consts vmu_is_file_def vmu_types
      vmu_sample_dci_def sigil_read_le16_def)

lemma vmu_inject_room:
  assumes "vmu_dci_blocks dci len = n" and "0 < n" and "vmu_read_layout img = Some l"
    and "\<not> vmu_name_taken img l dci" and "n \<le> vl_user_blocks l"
    and "\<forall>b < vl_user_blocks l. vmu_fat_get img l b = VMU_FAT_FREE"
    and "s < vmu_slot_count l" and "img (vmu_slot_offset l s) = VMU_TYPE_EMPTY"
  shows "fst (sigil_dreamcast_inject img dci len) = SIGIL_OK"
proof -
  have "{b. b < vl_user_blocks l \<and> vmu_fat_get img l b = VMU_FAT_FREE} = {..<vl_user_blocks l}" using assms(6) by auto
  then have "vmu_choose_blocks img l game n \<noteq> None" for game
    using assms(5,6) unfolding vmu_choose_blocks_iff by auto
  moreover have "find (\<lambda>slot. img slot = VMU_TYPE_EMPTY) (map (vmu_slot_offset l) [0..<vmu_slot_count l]) \<noteq> None"
    using assms(7,8) by (auto simp: find_map_slots_None)
  ultimately obtain ch off where "vmu_choose_blocks img l (dci 0 = VMU_TYPE_GAME) n = Some ch"
    "find (\<lambda>slot. img slot = VMU_TYPE_EMPTY) (map (vmu_slot_offset l) [0..<vmu_slot_count l]) = Some off" by blast
  then show ?thesis using assms(1-4) by (simp add: sigil_dreamcast_inject_def Let_def)
qed

lemma vmu_sample_inject:
  "sigil_dreamcast_inject (sigil_dreamcast_format (\<lambda>_. 0)) vmu_sample_dci 544 = (SIGIL_OK, vmu_sample_card)"
proof -
  let ?m = "sigil_dreamcast_format (\<lambda>_. 0)"
  have e: "?m (vmu_slot_offset vmu_std_layout s) = 0" if "s < 208" for s using vmu_format_slot [OF that, of 0] by simp
  have "\<not> vmu_name_taken ?m vmu_std_layout vmu_sample_dci"
    using e by (auto simp: vmu_name_taken_def vmu_named_as_def vmu_is_file_def vmu_types list_ex_iff vmu_std_slots)
  then have "fst (sigil_dreamcast_inject ?m vmu_sample_dci 544) = SIGIL_OK"
    using e [of 0] by (intro vmu_inject_room [OF vmu_sample_blocks _ vmu_format_layout, where s = 0])
      (simp_all add: vmu_std_slots vmu_format_get vmu_types)
  then show ?thesis by (simp add: vmu_sample_card_def prod_eq_iff)
qed

lemma vmu_sample_reachable: "vmu_reachable vmu_sample_card"
  by (rule vmu_reachable.injected [OF vmu_reachable.formatted vmu_sample_inject])

theorem vmu_inject_effect_witness:
  "\<exists>s < 208. vmu_file vmu_sample_card vmu_std_layout s =
     Some (bytes_at (sigil_write_le16 vmu_sample_dci 2 0) 0 32, [dci_block vmu_sample_dci 0])"
  using vmu_inject_effect [OF vmu_format_layout vmu_sample_inject] by (auto simp: vmu_sample_blocks vmu_std_slots)

theorem vmu_inject_verifies_witness: "sigil_dreamcast_verify vmu_sample_card vmu_sample_dci 544 = SIGIL_OK"
proof -
  have "vmu_clean (sigil_dreamcast_format (\<lambda>_. 0)) vmu_std_layout"
    using vmu_format_inv [of "\<lambda>_. 0"] by (simp add: vmu_inv_def)
  from vmu_inject_verifies [OF vmu_format_layout this vmu_sample_inject] show ?thesis by blast
qed

lemma vmu_sample_live: "\<exists>s. vmu_live vmu_sample_card vmu_std_layout s"
proof -
  obtain s where "s < vmu_slot_count vmu_std_layout" "vmu_is_file vmu_sample_card (vmu_slot_offset vmu_std_layout s)"
    by (rule vmu_inject_ok [OF vmu_format_layout vmu_sample_inject])
      (use vmu_whole_file(1,2) vmu.inserted_new in blast)
  then show ?thesis using vmu_reachable_inv [OF vmu_sample_reachable] by (auto simp: vmu_inv_def vmu_clean_def)
qed

theorem vmu_delete_effect_witness:
  "\<exists>s img'. vmu_live vmu_sample_card vmu_std_layout s \<and>
     sigil_dreamcast_delete vmu_sample_card (ce_first_block (vmu_entry vmu_sample_card vmu_std_layout s)) = (SIGIL_OK, img') \<and>
     \<not> vmu_live img' vmu_std_layout s"
proof -
  obtain s where s: "vmu_live vmu_sample_card vmu_std_layout s" using vmu_sample_live by blast
  have "vmu_read_layout vmu_sample_card = Some vmu_std_layout"
    using vmu_reachable_inv [OF vmu_sample_reachable] by (simp add: vmu_inv_def)
  from vmu_delete_effect [OF this s] s show ?thesis by blast
qed

section \<open>Repair\<close>

text \<open>What a repair may have changed so far: FAT entries of blocks that were free.\<close>

definition vmu_only_free :: "vmu_layout \<Rightarrow> mem \<Rightarrow> mem \<Rightarrow> bool" where
  "vmu_only_free l img img' \<longleftrightarrow>
     (\<forall>j. img' j \<noteq> img j \<longrightarrow>
        (\<exists>b < vl_user_blocks l. vmu_fat_get img l b = VMU_FAT_FREE \<and>
           (j = vl_fat_block l * 512 + 2 * b \<or> j = vl_fat_block l * 512 + 2 * b + 1)))"

lemma vmu_only_free_refl: "vmu_only_free l img img"
  by (simp add: vmu_only_free_def)

lemma vmu_only_free_get:
  assumes "vmu_only_free l img img'" and "vmu_fat_get img l c \<noteq> VMU_FAT_FREE"
  shows "vmu_fat_get img' l c = vmu_fat_get img l c"
proof (rule vmu_fat_get_eq)
  show "img' (vl_fat_block l * 512 + 2 * c) = img (vl_fat_block l * 512 + 2 * c)"
  proof (rule ccontr)
    assume "img' (vl_fat_block l * 512 + 2 * c) \<noteq> img (vl_fat_block l * 512 + 2 * c)"
    with assms(1) obtain b where b: "vmu_fat_get img l b = VMU_FAT_FREE"
      "vl_fat_block l * 512 + 2 * c = vl_fat_block l * 512 + 2 * b \<or>
       vl_fat_block l * 512 + 2 * c = vl_fat_block l * 512 + 2 * b + 1"
      unfolding vmu_only_free_def by blast
    from b(2) have "b = c" by presburger
    with b(1) assms(2) show False by simp
  qed
  show "img' (vl_fat_block l * 512 + 2 * c + 1) = img (vl_fat_block l * 512 + 2 * c + 1)"
  proof (rule ccontr)
    assume "img' (vl_fat_block l * 512 + 2 * c + 1) \<noteq> img (vl_fat_block l * 512 + 2 * c + 1)"
    with assms(1) obtain b where b: "vmu_fat_get img l b = VMU_FAT_FREE"
      "vl_fat_block l * 512 + 2 * c + 1 = vl_fat_block l * 512 + 2 * b \<or>
       vl_fat_block l * 512 + 2 * c + 1 = vl_fat_block l * 512 + 2 * b + 1"
      unfolding vmu_only_free_def by blast
    from b(2) have "b = c" by presburger
    with b(1) assms(2) show False by simp
  qed
qed

lemma vmu_damage_rebuilt:
  assumes "vmu_damage img l e = (d, bs)"
  shows "distinct bs" and "\<forall>b \<in> set bs. b < vl_user_blocks l \<and> vmu_fat_get img l b = VMU_FAT_FREE"
    and "bs \<noteq> [] \<longleftrightarrow> d = SIGIL_CARD_DAMAGE_CHAIN_UNWRITTEN"
proof -
  let ?f = "unat (sigil_read_le16 img (e + ENTRY_FIRST_BLOCK))" and ?s = "unat (sigil_read_le16 img (e + ENTRY_SIZE))"
  have "bs = [] \<and> d \<noteq> SIGIL_CARD_DAMAGE_CHAIN_UNWRITTEN \<or>
      bs = map (\<lambda>i. ?f - i) [0..<?s] \<and> ?f < vl_user_blocks l \<and> ?s \<le> ?f + 1 \<and> ?s \<noteq> 0 \<and>
      d = SIGIL_CARD_DAMAGE_CHAIN_UNWRITTEN \<and> (\<forall>b \<in> set bs. vmu_fat_get img l b = VMU_FAT_FREE)"
    using assms by (auto simp: vmu_damage_def Let_def list_ex_iff not_le split: if_splits prod.splits)
  then show "distinct bs" "\<forall>b \<in> set bs. b < vl_user_blocks l \<and> vmu_fat_get img l b = VMU_FAT_FREE"
    "bs \<noteq> [] \<longleftrightarrow> d = SIGIL_CARD_DAMAGE_CHAIN_UNWRITTEN"
    by (auto simp: distinct_map inj_on_def)
qed

lemma vmu_set_chain_only:
  assumes "vmu_only_free l img0 img" and "\<forall>b \<in> set bs. b < vl_user_blocks l \<and> vmu_fat_get img l b = VMU_FAT_FREE"
  shows "vmu_only_free l img0 (fold (vmu_set_chain l bs) [0..<length bs] img)"
proof -
  have free: "vmu_fat_get img0 l b = VMU_FAT_FREE" if "b \<in> set bs" for b
    using vmu_only_free_get [OF assms(1), of b] assms(2) that by metis
  have "vmu_only_free l img0 (fold (vmu_set_chain l bs) is m)"
    if "set is \<subseteq> {..<length bs}" "vmu_only_free l img0 m" for "is" m
    using that
  proof (induction "is" arbitrary: m)
    case (Cons i js)
    have b: "bs ! i < vl_user_blocks l" "vmu_fat_get img0 l (bs ! i) = VMU_FAT_FREE"
      using Cons.prems(1) assms(2) free by auto
    have "vmu_only_free l img0 (vmu_set_chain l bs i m)"
      unfolding vmu_only_free_def
    proof (intro allI impI)
      fix j assume j: "vmu_set_chain l bs i m j \<noteq> img0 j"
      show "\<exists>b < vl_user_blocks l. vmu_fat_get img0 l b = VMU_FAT_FREE \<and>
           (j = vl_fat_block l * 512 + 2 * b \<or> j = vl_fat_block l * 512 + 2 * b + 1)"
      proof (cases "j = vl_fat_block l * 512 + 2 * (bs ! i) \<or> j = vl_fat_block l * 512 + 2 * (bs ! i) + 1")
        case True
        with b show ?thesis by blast
      next
        case False
        then have "m j \<noteq> img0 j" using j by (simp add: vmu_set_chain_def vmu_fat_set_apply)
        with Cons.prems(2) show ?thesis unfolding vmu_only_free_def by blast
      qed
    qed
    with Cons show ?case by simp
  qed simp
  from this [of "[0..<length bs]", OF _ assms(1)] show ?thesis by (simp add: subset_eq)
qed

lemma vmu_repair_fold:
  assumes "vmu_only_free l img0 img"
  shows "case fold (vmu_repair_slot l claims) ss (img, rep, ch) of (img', rep', ch') \<Rightarrow>
     vmu_only_free l img0 img' \<and> (\<not> ch' \<longrightarrow> img' = img) \<and> (ch \<longrightarrow> ch')"
  using assms
proof (induction ss arbitrary: img rep ch)
  case (Cons s ss)
  obtain img1 rep1 ch1 where st: "vmu_repair_slot l claims s (img, rep, ch) = (img1, rep1, ch1)"
    by (cases "vmu_repair_slot l claims s (img, rep, ch)")
  have "vmu_only_free l img0 img1 \<and> (\<not> ch1 \<longrightarrow> img1 = img) \<and> (ch \<longrightarrow> ch1)"
  proof -
    obtain d bs where d: "vmu_damage img l (vmu_slot_offset l s) = (d, bs)" by (cases "vmu_damage img l (vmu_slot_offset l s)")
    note r = vmu_set_chain_only [OF Cons.prems vmu_damage_rebuilt(2) [OF d]]
    show ?thesis using st Cons.prems r by (auto simp: vmu_repair_slot_def Let_def d split: if_splits)
  qed
  moreover from this have "vmu_only_free l img0 img1" by blast
  from Cons.IH [OF this, where rep = rep1 and ch = ch1] have "case fold (vmu_repair_slot l claims) ss (img1, rep1, ch1) of (img', rep', ch') \<Rightarrow>
     vmu_only_free l img0 img' \<and> (\<not> ch' \<longrightarrow> img' = img1) \<and> (ch1 \<longrightarrow> ch')" .
  ultimately show ?case by (auto simp: st split: prod.splits)
qed simp

text \<open>C8 (safety): a repair writes FAT entries of blocks that were free, and nothing else: the layout, the
  directory and the data blocks keep every byte, a block that a chain has keeps its link, so every
  file whose chain had its recorded size keeps its chain and its contents; and a repair that says
  it changed nothing did not.\<close>

theorem vmu_repair_keeps:
  assumes l: "vmu_read_layout img = Some l" and r: "sigil_dreamcast_card_repair img rep = (rc, img', rep', changed)"
  shows "rc = SIGIL_OK \<and> vmu_read_layout img' = Some l \<and>
    (\<forall>b. vmu_fat_get img l b \<noteq> VMU_FAT_FREE \<longrightarrow> vmu_fat_get img' l b = vmu_fat_get img l b) \<and>
    (\<forall>j. j div 512 \<noteq> vl_fat_block l \<longrightarrow> img' j = img j) \<and>
    (\<forall>s bs. vmu.whole (img, l) s bs \<longrightarrow> vmu.whole (img', l) s bs \<and> vmu_file img' l s = vmu_file img l s) \<and>
    (\<not> changed \<longrightarrow> img' = img)"
proof -
  have fit: "vmu_fits l" by (rule vmu_read_layout_fits [OF l])
  have rc: "rc = SIGIL_OK" and f: "fold (vmu_repair_slot l (vmu_count_claims img l)) [0..<vmu_slot_count l] (img, rep, False) =
      (img', rep', changed)" using r l by (simp_all add: sigil_dreamcast_card_repair_def)
  from vmu_repair_fold [OF vmu_only_free_refl, where l = l and claims = "vmu_count_claims img l"
      and ss = "[0..<vmu_slot_count l]" and img = img and rep = rep and ch = False]
  have only: "vmu_only_free l img img'" and ch: "\<not> changed \<longrightarrow> img' = img" by (simp_all add: f)
  have fat: "vmu_fat_get img' l b = vmu_fat_get img l b" if "vmu_fat_get img l b \<noteq> VMU_FAT_FREE" for b
    by (rule vmu_only_free_get [OF only that])
  have out: "img' j = img j" if "j div 512 \<noteq> vl_fat_block l" for j
  proof (rule ccontr)
    assume "img' j \<noteq> img j"
    with only obtain b where "b < vl_user_blocks l" "j = vl_fat_block l * 512 + 2 * b \<or> j = vl_fat_block l * 512 + 2 * b + 1"
      unfolding vmu_only_free_def by blast
    with fit have "j div 512 = vl_fat_block l" by (auto simp: vmu_fits_def intro: div_nat_eqI)
    with that show False by simp
  qed
  have fb: "vl_user_blocks l \<le> vl_fat_block l" "vl_fat_block l < 255" using fit by (auto simp: vmu_fits_def)
  have lay: "vmu_read_layout img' = Some l"
  proof (rule vmu_read_layout_cong [OF l])
    show "img' (130560 + k) = img (130560 + k)" if "k < 512" for k
      using out [of "130560 + k"] block_div [OF that, of 255] fb by simp
    show "vmu_fat_get img' l 255 = vmu_fat_get img l 255"
      "vmu_fat_get img' l (vl_fat_block l) = vmu_fat_get img l (vl_fat_block l)"
      using l fat by (simp_all add: vmu_read_layout_iff VMU_FAT_END_def VMU_FAT_FREE_def)
  qed
  have whole: "vmu.whole (img', l) s bs \<and> vmu_file img' l s = vmu_file img l s" if w: "vmu.whole (img, l) s bs" for s bs
  proof -
    note c = vmu.whole_chained [OF w]
    have s: "s < vmu_slot_count l" by (rule vmu_whole_file(1) [OF w])
    have b: "img' (vmu_slot_offset l s + k) = img (vmu_slot_offset l s + k)" if "k < 32" for k
      using vmu_slot_div(3) [OF fit s that] by (intro out)
    have rd: "sigil_read_le16 img' (vmu_slot_offset l s + x) = sigil_read_le16 img (vmu_slot_offset l s + x)" if "x < 31" for x
      using b [of x] b [of "x + 1"] that by (intro read_le16_cong) (simp_all add: add.assoc)
    have dir: "vmu_dir (img', l) s = vmu_dir (img, l) s"
      using rd [of 2] rd [of "0x18"] b [of 0] by (auto simp: vmu_dir_def Let_def vmu_is_file_def)
    have st: "vmu_step (img', l) x = vmu_step (img, l) x" if "x \<in> set bs" for x
    proof -
      have "vmu_fat_get img l x \<noteq> VMU_FAT_FREE"
        using vmu.chained_not_bad [OF c that] fb by (auto simp: vmu_step_def Let_def VMU_FAT_FREE_def VMU_FAT_END_def)
      then show ?thesis using fat by (simp add: vmu_step_def Let_def)
    qed
    have "vmu_start (img', l) (hd bs)"
      using vmu_chain_user [OF c] vmu_whole_file(4) [OF w] by (simp add: vmu_start_def)
    with vmu.chained_cong(2) [OF c dir _ st] w have w': "vmu.whole (img', l) s bs" by blast
    have "vmu_data (img', l) x = vmu_data (img, l) x" if "x \<in> set bs" for x
    proof -
      have "x < vl_fat_block l" using vmu_chain_user [OF c] that fb by fastforce
      then show ?thesis unfolding vmu_data_def fst_conv by (intro bytes_at_cong out) simp
    qed
    moreover have "vmu_meta (img', l) s = vmu_meta (img, l) s"
      using b by (auto simp: vmu_meta_def Let_def write_le16_apply intro!: bytes_at_cong)
    ultimately have "vmu_file img' l s = vmu_file img l s"
      by (simp add: vmu_file_whole [OF w] vmu_file_whole [OF w'])
    with w' show ?thesis ..
  qed
  show ?thesis using rc lay fat out whole ch by blast
qed

theorem vmu_repair_keeps_witness:
  "vmu_read_layout (fst (snd (sigil_dreamcast_card_repair vmu_sample_card
     \<lparr>rr_format = SIGIL_CARD_FORMAT_DREAMCAST_VMU, rr_data = None, rr_entries = []\<rparr>))) = Some vmu_std_layout"
proof -
  let ?r = "sigil_dreamcast_card_repair vmu_sample_card
     \<lparr>rr_format = SIGIL_CARD_FORMAT_DREAMCAST_VMU, rr_data = None, rr_entries = []\<rparr>"
  have "vmu_read_layout vmu_sample_card = Some vmu_std_layout"
    using vmu_reachable_inv [OF vmu_sample_reachable] by (simp add: vmu_inv_def)
  from vmu_repair_keeps [OF this, of _ "fst ?r" "fst (snd ?r)" "fst (snd (snd ?r))" "snd (snd (snd ?r))"] show ?thesis
    by simp
qed

end
