(* ===== verification/CardGamecube.thy ===== *)
theory CardGamecube
  imports CardCommon Chains Stream
begin

text \<open>
  GameCube memory cards: \<^verbatim>\<open>src/src/card_gamecube.c\<close>, in its order. The image is a byte memory and its
  size; a directory or block table is the offset of its 8192 bytes in a memory, the image itself or
  the copy an operation works on. An index of -1 is \<open>None\<close>. The lemmas are in
  \<^verbatim>\<open>CardGamecubeProofs\<close>.
\<close>

section \<open>Layout\<close>

definition GC_BLOCK_SIZE :: nat where "GC_BLOCK_SIZE = 0x2000"
definition GC_SYSTEM_BLOCKS :: nat where "GC_SYSTEM_BLOCKS = 5"
definition GC_DENTRY_SIZE :: nat where "GC_DENTRY_SIZE = 0x40"
definition GC_DIR_ENTRIES :: nat where "GC_DIR_ENTRIES = 127"
definition GC_FILENAME_LEN :: nat where "GC_FILENAME_LEN = 32"
definition GC_MAX_CARD_SIZE :: nat where "GC_MAX_CARD_SIZE = 2048 * GC_BLOCK_SIZE"

definition HEADER_SIZE_MBITS :: nat where "HEADER_SIZE_MBITS = 0x22"
definition HEADER_ENCODING :: nat where "HEADER_ENCODING = 0x24"
definition HEADER_CHECKSUM :: nat where "HEADER_CHECKSUM = 0x1FC"

definition DIR_BLOCK_FIRST :: nat where "DIR_BLOCK_FIRST = 1"
definition DIR_COUNTER :: nat where "DIR_COUNTER = 0x1FFA"
definition DIR_CHECKSUM :: nat where "DIR_CHECKSUM = 0x1FFC"

definition BAT_BLOCK_FIRST :: nat where "BAT_BLOCK_FIRST = 3"
definition BAT_CHECKSUM :: nat where "BAT_CHECKSUM = 0"
definition BAT_COUNTER :: nat where "BAT_COUNTER = 4"
definition BAT_FREE_BLOCKS :: nat where "BAT_FREE_BLOCKS = 6"
definition BAT_LAST_ALLOCATED :: nat where "BAT_LAST_ALLOCATED = 8"
definition BAT_MAP :: nat where "BAT_MAP = 10"
definition BAT_FREE :: nat where "BAT_FREE = 0"
definition BAT_CHAIN_END :: nat where "BAT_CHAIN_END = 0xFFFF"

definition DENTRY_GAMECODE :: nat where "DENTRY_GAMECODE = 0"
definition DENTRY_MAKERCODE_END :: nat where "DENTRY_MAKERCODE_END = 6"
definition DENTRY_FILENAME :: nat where "DENTRY_FILENAME = 8"
definition DENTRY_FIRST_BLOCK :: nat where "DENTRY_FIRST_BLOCK = 0x36"
definition DENTRY_BLOCK_COUNT :: nat where "DENTRY_BLOCK_COUNT = 0x38"
definition DENTRY_EMPTY :: u8 where "DENTRY_EMPTY = 0xFF"

definition GC_MAX_DATA_BLOCKS :: nat where
  "GC_MAX_DATA_BLOCKS = GC_MAX_CARD_SIZE div GC_BLOCK_SIZE - GC_SYSTEM_BLOCKS"

definition GCS_DENTRY :: nat where "GCS_DENTRY = 0x110"
definition GCS_DATA :: nat where "GCS_DATA = 0x150"
definition SAV_DENTRY :: nat where "SAV_DENTRY = 0x80"
definition SAV_DATA :: nat where "SAV_DATA = 0xC0"

lemmas gc_consts =
  GC_BLOCK_SIZE_def GC_SYSTEM_BLOCKS_def GC_DENTRY_SIZE_def GC_DIR_ENTRIES_def GC_FILENAME_LEN_def
  HEADER_SIZE_MBITS_def HEADER_ENCODING_def HEADER_CHECKSUM_def
  DIR_BLOCK_FIRST_def DIR_COUNTER_def DIR_CHECKSUM_def BAT_BLOCK_FIRST_def BAT_CHECKSUM_def
  BAT_COUNTER_def BAT_FREE_BLOCKS_def BAT_LAST_ALLOCATED_def BAT_MAP_def BAT_FREE_def BAT_CHAIN_END_def
  DENTRY_GAMECODE_def DENTRY_MAKERCODE_END_def DENTRY_FILENAME_def DENTRY_FIRST_BLOCK_def
  DENTRY_BLOCK_COUNT_def

record card_view =
  cv_total_blocks :: nat
  cv_dir_block :: nat
  cv_bat_block :: nat

section \<open>Checksums\<close>

definition sigil_gamecube_checksum :: "mem \<Rightarrow> nat \<Rightarrow> nat \<Rightarrow> u16 \<times> u16" where
  "sigil_gamecube_checksum data p len =
     (let (s, inv) =
        fold (\<lambda>k (s, inv). let w = sigil_read_be16 data (p + 2 * k) in (s + w, inv + NOT w)) [0..<len div 2] (0, 0)
      in (if s = 0xFFFF then 0 else s, if inv = 0xFFFF then 0 else inv))"

definition gc_checksum_matches :: "mem \<Rightarrow> nat \<Rightarrow> nat \<Rightarrow> nat \<Rightarrow> bool" where
  "gc_checksum_matches data p len stored =
     (let (sum, inverse) = sigil_gamecube_checksum data p len
      in sigil_read_be16 data stored = sum \<and> sigil_read_be16 data (stored + 2) = inverse)"

definition gc_seal :: "mem \<Rightarrow> nat \<Rightarrow> nat \<Rightarrow> nat \<Rightarrow> mem" where
  "gc_seal data p len stored =
     (let (sum, inverse) = sigil_gamecube_checksum data p len
      in sigil_write_be16 (sigil_write_be16 data stored sum) (stored + 2) inverse)"

definition gc_seal_header :: "mem \<Rightarrow> nat \<Rightarrow> mem" where
  "gc_seal_header m header = gc_seal m header HEADER_CHECKSUM (header + HEADER_CHECKSUM)"

definition gc_seal_dir :: "mem \<Rightarrow> nat \<Rightarrow> mem" where
  "gc_seal_dir m dir = gc_seal m dir DIR_CHECKSUM (dir + DIR_CHECKSUM)"

definition gc_seal_bat :: "mem \<Rightarrow> nat \<Rightarrow> mem" where
  "gc_seal_bat m bat = gc_seal m (bat + BAT_COUNTER) (GC_BLOCK_SIZE - BAT_COUNTER) (bat + BAT_CHECKSUM)"

section \<open>Opening a card\<close>

definition gc_total_blocks_for_size :: "nat \<Rightarrow> nat" where
  "gc_total_blocks_for_size siz =
     (if siz mod GC_BLOCK_SIZE \<noteq> 0 then 0
      else let blocks = siz div GC_BLOCK_SIZE in
        if blocks \<in> set [64, 128, 256, 512, 1024, 2048] then blocks else 0)"

definition gc_header_valid :: "mem \<Rightarrow> nat \<Rightarrow> nat \<Rightarrow> bool" where
  "gc_header_valid m header nblk =
     (gc_checksum_matches m header HEADER_CHECKSUM (header + HEADER_CHECKSUM) \<and>
      unat (sigil_read_be16 m (header + HEADER_SIZE_MBITS)) * 16 = nblk)"

definition gc_block_at :: "nat \<Rightarrow> nat" where
  "gc_block_at block = block * GC_BLOCK_SIZE"

definition gc_signed_counter :: "u16 \<Rightarrow> int" where
  "gc_signed_counter counter = (if counter < 0x8000 then uint counter else uint counter - 0x10000)"

definition gc_current_copy :: "bool \<Rightarrow> u16 \<Rightarrow> bool \<Rightarrow> u16 \<Rightarrow> nat option" where
  "gc_current_copy valid0 counter0 valid1 counter1 =
     (if valid0 \<and> valid1 then Some (if gc_signed_counter counter0 - gc_signed_counter counter1 < 0 then 1 else 0)
      else if valid0 then Some 0
      else if valid1 then Some 1
      else None)"

definition gc_dir_valid :: "mem \<Rightarrow> nat \<Rightarrow> bool" where
  "gc_dir_valid m dir = gc_checksum_matches m dir DIR_CHECKSUM (dir + DIR_CHECKSUM)"

definition gc_bat_valid :: "mem \<Rightarrow> nat \<Rightarrow> bool" where
  "gc_bat_valid m bat = gc_checksum_matches m (bat + BAT_COUNTER) (GC_BLOCK_SIZE - BAT_COUNTER) bat"

definition gc_open_view :: "mem \<Rightarrow> nat \<Rightarrow> rc \<times> card_view option" where
  "gc_open_view img siz =
     (let nblk = gc_total_blocks_for_size siz in
      if nblk = 0 \<or> \<not> gc_header_valid img 0 nblk then (SIGIL_ERR_UNSUPPORTED_FORMAT, None)
      else
        let dir0 = gc_block_at DIR_BLOCK_FIRST; dir1 = gc_block_at (DIR_BLOCK_FIRST + 1);
            dir = gc_current_copy (gc_dir_valid img dir0) (sigil_read_be16 img (dir0 + DIR_COUNTER))
                                  (gc_dir_valid img dir1) (sigil_read_be16 img (dir1 + DIR_COUNTER));
            bat0 = gc_block_at BAT_BLOCK_FIRST; bat1 = gc_block_at (BAT_BLOCK_FIRST + 1);
            bat = gc_current_copy (gc_bat_valid img bat0) (sigil_read_be16 img (bat0 + BAT_COUNTER))
                                  (gc_bat_valid img bat1) (sigil_read_be16 img (bat1 + BAT_COUNTER))
        in case (dir, bat) of
             (Some d, Some b) \<Rightarrow>
               (SIGIL_OK, Some \<lparr>cv_total_blocks = nblk, cv_dir_block = DIR_BLOCK_FIRST + d,
                                cv_bat_block = BAT_BLOCK_FIRST + b\<rparr>)
           | _ \<Rightarrow> (SIGIL_ERR_UNSUPPORTED_FORMAT, None))"

section \<open>The block table\<close>

definition gc_bat_link :: "mem \<Rightarrow> nat \<Rightarrow> nat \<Rightarrow> nat" where
  "gc_bat_link m bat block = unat (sigil_read_be16 m (bat + BAT_MAP + (block - GC_SYSTEM_BLOCKS) * 2))"

definition gc_set_bat_link :: "mem \<Rightarrow> nat \<Rightarrow> nat \<Rightarrow> nat \<Rightarrow> mem" where
  "gc_set_bat_link m bat block val =
     sigil_write_be16 m (bat + BAT_MAP + (block - GC_SYSTEM_BLOCKS) * 2) (of_nat val)"

definition gc_dentry_at :: "nat \<Rightarrow> nat \<Rightarrow> nat" where
  "gc_dentry_at dir index = dir + index * GC_DENTRY_SIZE"

definition gc_dentry_live :: "mem \<Rightarrow> nat \<Rightarrow> bool" where
  "gc_dentry_live m dentry = (m (dentry + DENTRY_GAMECODE) \<noteq> DENTRY_EMPTY)"

text \<open>The bitset \<^verbatim>\<open>seen\<close> is the set of its bits; a chain that is not whole is the empty list.\<close>

function gc_walk_loop :: "mem \<Rightarrow> nat \<Rightarrow> nat \<Rightarrow> (nat \<Rightarrow> bool) \<Rightarrow> nat list \<Rightarrow> nat \<Rightarrow> nat list" where
  "gc_walk_loop m bat nblk seen order block =
     (let seen = seen(block := True);
          order = order @ [block];
          nxt = gc_bat_link m bat block
      in if nxt = BAT_CHAIN_END then order
         else if nxt < GC_SYSTEM_BLOCKS \<or> nblk \<le> nxt then []
         else if seen nxt then []
         else gc_walk_loop m bat nblk seen order nxt)"
  by pat_completeness auto
termination
proof (relation "measure (\<lambda>(m, bat, nblk, seen, order, block). card {b. b < nblk \<and> \<not> (seen(block := True)) b})")
  fix m :: mem and bat nblk block nxt :: nat and seen seen' :: "nat \<Rightarrow> bool" and order order' :: "nat list"
  assume s: "seen' = seen(block := True)" and b: "\<not> (nxt < GC_SYSTEM_BLOCKS \<or> nblk \<le> nxt)" "\<not> seen' nxt"
  have "{b. b < nblk \<and> \<not> (seen'(nxt := True)) b} \<subset> {b. b < nblk \<and> \<not> (seen(block := True)) b}"
  proof (rule psubsetI)
    show "{b. b < nblk \<and> \<not> (seen'(nxt := True)) b} \<subseteq> {b. b < nblk \<and> \<not> (seen(block := True)) b}"
      unfolding s by auto
    have i: "nxt \<in> {b. b < nblk \<and> \<not> (seen(block := True)) b}" using b unfolding s by simp
    have o: "nxt \<notin> {b. b < nblk \<and> \<not> (seen'(nxt := True)) b}" by simp
    from i o show "{b. b < nblk \<and> \<not> (seen'(nxt := True)) b} \<noteq> {b. b < nblk \<and> \<not> (seen(block := True)) b}" by metis
  qed
  then show "((m, bat, nblk, seen', order', nxt), (m, bat, nblk, seen, order, block)) \<in>
      measure (\<lambda>(m, bat, nblk, seen, order, block). card {b. b < nblk \<and> \<not> (seen(block := True)) b})"
    by (simp add: psubset_card_mono)
qed simp

declare gc_walk_loop.simps [simp del]

definition gc_walk_chain :: "mem \<Rightarrow> nat \<Rightarrow> nat \<Rightarrow> nat \<Rightarrow> nat list" where
  "gc_walk_chain m bat nblk first =
     (if first < GC_SYSTEM_BLOCKS \<or> nblk \<le> first then [] else gc_walk_loop m bat nblk (\<lambda>_. False) [] first)"

definition gc_free_block_count :: "mem \<Rightarrow> nat \<Rightarrow> nat \<Rightarrow> nat" where
  "gc_free_block_count m bat nblk =
     length (filter (\<lambda>b. gc_bat_link m bat b = BAT_FREE) [GC_SYSTEM_BLOCKS..<nblk])"

definition gc_find_entry_at :: "mem \<Rightarrow> nat \<Rightarrow> mem \<Rightarrow> nat \<Rightarrow> nat \<Rightarrow> nat \<Rightarrow> nat \<Rightarrow> nat option" where
  "gc_find_entry_at dm dir bm bat nblk first_block blocks =
     find (\<lambda>i. let d = gc_dentry_at dir i; count = unat (sigil_read_be16 dm (d + DENTRY_BLOCK_COUNT)) in
             gc_dentry_live dm d \<and> unat (sigil_read_be16 dm (d + DENTRY_FIRST_BLOCK)) = first_block \<and>
             (blocks = 0 \<or> count = blocks) \<and> length (gc_walk_chain bm bat nblk first_block) = count)
       [0..<GC_DIR_ENTRIES]"

text \<open>\<^verbatim>\<open>strncmp(a, b, n) == 0\<close>.\<close>

definition strn_eq :: "mem \<Rightarrow> nat \<Rightarrow> mem \<Rightarrow> nat \<Rightarrow> nat \<Rightarrow> bool" where
  "strn_eq a x b y n = (cstr (bytes_at a x n) = cstr (bytes_at b y n))"

definition gc_find_identity :: "mem \<Rightarrow> nat \<Rightarrow> mem \<Rightarrow> nat \<Rightarrow> nat option" where
  "gc_find_identity m dir gm gci =
     find (\<lambda>i. let d = gc_dentry_at dir i in
             gc_dentry_live m d \<and> mem_eq m d gm gci DENTRY_MAKERCODE_END \<and>
             strn_eq m (d + DENTRY_FILENAME) gm (gci + DENTRY_FILENAME) GC_FILENAME_LEN)
       [0..<GC_DIR_ENTRIES]"

section \<open>Reading and listing\<close>

definition sigil_gamecube_card_load :: "sigil_io \<Rightarrow> rc \<times> (mem \<times> nat) option" where
  "sigil_gamecube_card_load io =
     (let ssize = stream_size io in
      if 0 \<le> ssize \<and> gc_total_blocks_for_size (nat ssize) = 0 then (SIGIL_ERR_UNSUPPORTED_FORMAT, None)
      else
        let (rc, header) = sigil_io_read_exact io 0 (\<lambda>_. 0) 0 GC_BLOCK_SIZE in
        if rc \<noteq> SIGIL_OK then (if 0 \<le> ssize then rc else SIGIL_ERR_UNSUPPORTED_FORMAT, None)
        else
          let nblk = unat (sigil_read_be16 header HEADER_SIZE_MBITS) * 16 in
          if gc_total_blocks_for_size (nblk * GC_BLOCK_SIZE) = 0 \<or> \<not> gc_header_valid header 0 nblk
          then (SIGIL_ERR_UNSUPPORTED_FORMAT, None)
          else
            let card_size = nblk * GC_BLOCK_SIZE in
            if 0 \<le> ssize \<and> nat ssize \<noteq> card_size then (SIGIL_ERR_UNSUPPORTED_FORMAT, None)
            else if ssize < 0 \<and> (case io_read io card_size 1 of None \<Rightarrow> False | Some bs \<Rightarrow> bs \<noteq> [])
            then (SIGIL_ERR_UNSUPPORTED_FORMAT, None)
            else
              let card = memcpy (\<lambda>_. 0) 0 header 0 GC_BLOCK_SIZE;
                  (rc, card) = sigil_io_read_exact io GC_BLOCK_SIZE card GC_BLOCK_SIZE (card_size - GC_BLOCK_SIZE) in
              if rc \<noteq> SIGIL_OK then (if 0 \<le> ssize then rc else SIGIL_ERR_UNSUPPORTED_FORMAT, None)
              else if fst (gc_open_view card card_size) \<noteq> SIGIL_OK then (SIGIL_ERR_UNSUPPORTED_FORMAT, None)
              else (SIGIL_OK, Some (card, card_size)))"

definition hex_digit_upper :: "nat \<Rightarrow> u8" where
  "hex_digit_upper d = of_nat (if d < 10 then 0x30 + d else 0x37 + d)"

text \<open>\<^verbatim>\<open>%02X\<close>.\<close>

definition hex2_upper :: "u8 \<Rightarrow> bytes" where
  "hex2_upper b = [hex_digit_upper (unat b div 16), hex_digit_upper (unat b mod 16)]"

definition gc_count_claims :: "mem \<Rightarrow> nat \<Rightarrow> nat \<Rightarrow> nat \<Rightarrow> nat \<Rightarrow> nat" where
  "gc_count_claims img dir bat nblk =
     fold (\<lambda>i claims. let d = gc_dentry_at dir i in
        if \<not> gc_dentry_live img d then claims
        else claim_chain_sat (gc_walk_chain img bat nblk (unat (sigil_read_be16 img (d + DENTRY_FIRST_BLOCK)))) claims)
       [0..<GC_DIR_ENTRIES] (\<lambda>_. 0)"

definition gc_list_entry ::
    "mem \<Rightarrow> nat \<Rightarrow> nat \<Rightarrow> nat \<Rightarrow> (nat \<Rightarrow> nat) \<Rightarrow> nat \<Rightarrow> sigil_card_listing \<Rightarrow> sigil_card_listing" where
  "gc_list_entry img dir bat nblk claims i listing =
     (let d = gc_dentry_at dir i in
      if \<not> gc_dentry_live img d then listing\<lparr>free_slots := free_slots listing + 1\<rparr>
      else
        let first = unat (sigil_read_be16 img (d + DENTRY_FIRST_BLOCK));
            blocks = unat (sigil_read_be16 img (d + DENTRY_BLOCK_COUNT));
            name = cstr (bytes_at img (d + DENTRY_FILENAME) GC_FILENAME_LEN);
            owner = hex2_upper (img (d + DENTRY_GAMECODE)) @ hex2_upper (img (d + DENTRY_GAMECODE + 1)) @
              hex2_upper (img (d + DENTRY_GAMECODE + 2)) @ hex2_upper (img (d + DENTRY_GAMECODE + 3));
            order = (if blocks \<noteq> 0 then gc_walk_chain img bat nblk first else []);
            walked = length order;
            shared = list_ex (\<lambda>b. 1 < claims b) order in
        if blocks = 0 \<or> walked \<noteq> blocks \<or> shared
        then sigil_card_listing_corrupt listing (Some name) (Some owner) first
        else listing_add listing \<lparr>ce_name = name, ce_owner_id = owner, ce_blocks = blocks, ce_first_block = first\<rparr>)"

definition sigil_gamecube_card_list :: "mem \<Rightarrow> nat \<Rightarrow> rc \<times> sigil_card_listing option" where
  "sigil_gamecube_card_list img siz =
     (case gc_open_view img siz of
        (rc, None) \<Rightarrow> (rc, None)
      | (_, Some v) \<Rightarrow>
          let dir = gc_block_at (cv_dir_block v); bat = gc_block_at (cv_bat_block v);
              nblk = cv_total_blocks v;
              listing = (sigil_card_listing_new SIGIL_CARD_FORMAT_GAMECUBE_RAW)
                \<lparr>total_blocks := nblk - GC_SYSTEM_BLOCKS, free_blocks := gc_free_block_count img bat nblk\<rparr>;
              claims = gc_count_claims img dir bat nblk
          in (SIGIL_OK, Some (fold (gc_list_entry img dir bat nblk claims) [0..<GC_DIR_ENTRIES] listing)))"

definition gc_copy_chain :: "mem \<Rightarrow> card_view \<Rightarrow> nat \<Rightarrow> nat \<Rightarrow> mem \<Rightarrow> nat \<Rightarrow> rc \<times> mem" where
  "gc_copy_chain img v first_block blocks out p =
     (let order = gc_walk_chain img (gc_block_at (cv_bat_block v)) (cv_total_blocks v) first_block in
      if length order = 0 \<or> length order \<noteq> blocks then (SIGIL_ERR_INVALID_ARG, out)
      else (SIGIL_OK,
            fold (\<lambda>i out. memcpy out (p + i * GC_BLOCK_SIZE) img (gc_block_at (order ! i)) GC_BLOCK_SIZE)
              [0..<length order] out))"

definition sigil_gamecube_entry_data :: "mem \<Rightarrow> nat \<Rightarrow> nat \<Rightarrow> nat \<Rightarrow> mem \<Rightarrow> rc \<times> mem" where
  "sigil_gamecube_entry_data img siz first_block blocks out =
     (case gc_open_view img siz of
        (rc, None) \<Rightarrow> (rc, out)
      | (_, Some v) \<Rightarrow> gc_copy_chain img v first_block blocks out 0)"

definition sigil_gamecube_gci_size :: "nat \<Rightarrow> nat" where
  "sigil_gamecube_gci_size blocks = GC_DENTRY_SIZE + blocks * GC_BLOCK_SIZE"

definition sigil_gamecube_extract :: "mem \<Rightarrow> nat \<Rightarrow> nat \<Rightarrow> nat \<Rightarrow> mem \<Rightarrow> rc \<times> mem" where
  "sigil_gamecube_extract img siz first_block blocks out =
     (if blocks = 0 then (SIGIL_ERR_INVALID_ARG, out)
      else case gc_open_view img siz of
        (rc, None) \<Rightarrow> (rc, out)
      | (_, Some v) \<Rightarrow>
          let dir = gc_block_at (cv_dir_block v) in
          (case gc_find_entry_at img dir img (gc_block_at (cv_bat_block v)) (cv_total_blocks v) first_block blocks of
             None \<Rightarrow> (SIGIL_ERR_INVALID_ARG, out)
           | Some index \<Rightarrow>
               let (rc, out) = gc_copy_chain img v first_block blocks out GC_DENTRY_SIZE in
               if rc \<noteq> SIGIL_OK then (rc, out)
               else (SIGIL_OK, memcpy out 0 img (gc_dentry_at dir index) GC_DENTRY_SIZE)))"

section \<open>Changing a card\<close>

definition gc_format_copy :: "nat \<Rightarrow> nat \<Rightarrow> mem \<Rightarrow> mem" where
  "gc_format_copy nblk copy img =
     (let dir = gc_block_at (DIR_BLOCK_FIRST + copy);
          img = sigil_write_be16 img (dir + DIR_COUNTER) (of_nat copy);
          img = gc_seal_dir img dir;
          bat = gc_block_at (BAT_BLOCK_FIRST + copy);
          img = memset img bat 0 GC_BLOCK_SIZE;
          img = sigil_write_be16 img (bat + BAT_COUNTER) (of_nat copy);
          img = sigil_write_be16 img (bat + BAT_FREE_BLOCKS) (of_nat (nblk - GC_SYSTEM_BLOCKS));
          img = sigil_write_be16 img (bat + BAT_LAST_ALLOCATED) (of_nat (GC_SYSTEM_BLOCKS - 1))
      in gc_seal_bat img bat)"

definition sigil_gamecube_format :: "mem \<Rightarrow> nat \<Rightarrow> bool \<Rightarrow> rc \<times> mem" where
  "sigil_gamecube_format img siz shift_jis =
     (let nblk = gc_total_blocks_for_size siz in
      if nblk = 0 then (SIGIL_ERR_INVALID_ARG, img)
      else
        let img = memset img 0 0xFF siz;
            header = gc_block_at 0;
            img = memset img header 0 (HEADER_ENCODING + 2);
            img = sigil_write_be16 img (header + HEADER_SIZE_MBITS) (of_nat (nblk div 16));
            img = sigil_write_be16 img (header + HEADER_ENCODING) (if shift_jis then 1 else 0);
            img = gc_seal_header img header
        in (SIGIL_OK, fold (gc_format_copy nblk) [0, 1] img))"

text \<open>\<open>dir\<close> and \<open>bat\<close> are the copies the operation worked on, at offset 0 of their memories.\<close>

definition gc_commit :: "mem \<Rightarrow> card_view \<Rightarrow> mem \<Rightarrow> mem \<Rightarrow> mem" where
  "gc_commit img v dir bat =
     (let dir = sigil_write_be16 dir DIR_COUNTER (sigil_read_be16 img (gc_block_at (cv_dir_block v) + DIR_COUNTER) + 1);
          dir = gc_seal_dir dir 0;
          bat = sigil_write_be16 bat BAT_COUNTER (sigil_read_be16 img (gc_block_at (cv_bat_block v) + BAT_COUNTER) + 1);
          bat = sigil_write_be16 bat BAT_FREE_BLOCKS (of_nat (gc_free_block_count bat 0 (cv_total_blocks v)));
          bat = gc_seal_bat bat 0
      in fold (\<lambda>copy img.
            let img = memcpy img (gc_block_at (DIR_BLOCK_FIRST + copy)) dir 0 GC_BLOCK_SIZE
            in memcpy img (gc_block_at (BAT_BLOCK_FIRST + copy)) bat 0 GC_BLOCK_SIZE)
           [0, 1] img)"

definition gc_gci_blocks :: "mem \<Rightarrow> nat \<Rightarrow> nat" where
  "gc_gci_blocks gci len =
     (if len < sigil_gamecube_gci_size 1 then 0
      else if (len - GC_DENTRY_SIZE) mod GC_BLOCK_SIZE \<noteq> 0 then 0
      else
        let blocks = (len - GC_DENTRY_SIZE) div GC_BLOCK_SIZE in
        if GC_MAX_DATA_BLOCKS < blocks \<or> unat (sigil_read_be16 gci DENTRY_BLOCK_COUNT) \<noteq> blocks then 0
        else if \<not> gc_dentry_live gci 0 then 0
        else blocks)"

definition sigil_gamecube_cost :: "mem \<Rightarrow> nat \<Rightarrow> nat" where
  "sigil_gamecube_cost gci len = gc_gci_blocks gci len"

definition gc_inject_block :: "nat list \<Rightarrow> mem \<Rightarrow> nat \<Rightarrow> mem \<times> mem \<Rightarrow> mem \<times> mem" where
  "gc_inject_block chosen gci i = (\<lambda>(img, bat).
     (memcpy img (gc_block_at (chosen ! i)) gci (GC_DENTRY_SIZE + i * GC_BLOCK_SIZE) GC_BLOCK_SIZE,
      gc_set_bat_link bat 0 (chosen ! i) (if i + 1 = length chosen then BAT_CHAIN_END else chosen ! (i + 1))))"

definition sigil_gamecube_inject :: "mem \<Rightarrow> nat \<Rightarrow> mem \<Rightarrow> nat \<Rightarrow> rc \<times> mem" where
  "sigil_gamecube_inject img siz gci len =
     (case gc_open_view img siz of
        (rc, None) \<Rightarrow> (rc, img)
      | (_, Some v) \<Rightarrow>
          let blocks = gc_gci_blocks gci len in
          if blocks = 0 then (SIGIL_ERR_UNSUPPORTED_FORMAT, img)
          else
            let dir = memcpy (\<lambda>_. 0) 0 img (gc_block_at (cv_dir_block v)) GC_BLOCK_SIZE;
                bat = memcpy (\<lambda>_. 0) 0 img (gc_block_at (cv_bat_block v)) GC_BLOCK_SIZE in
            if gc_find_identity dir 0 gci 0 \<noteq> None then (SIGIL_ERR_EXISTS, img)
            else
              let chosen = take blocks (filter (\<lambda>b. gc_bat_link bat 0 b = BAT_FREE)
                                          [GC_SYSTEM_BLOCKS..<cv_total_blocks v]) in
              (case find (\<lambda>i. \<not> gc_dentry_live dir (gc_dentry_at 0 i)) [0..<GC_DIR_ENTRIES] of
                 None \<Rightarrow> (SIGIL_ERR_NO_SPACE, img)
               | Some slot \<Rightarrow>
                   if length chosen < blocks then (SIGIL_ERR_NO_SPACE, img)
                   else
                     let (img, bat) = fold (gc_inject_block chosen gci) [0..<blocks] (img, bat);
                         bat = sigil_write_be16 bat BAT_LAST_ALLOCATED (of_nat (chosen ! (blocks - 1)));
                         dentry = slot * GC_DENTRY_SIZE;
                         dir = memcpy dir dentry gci 0 GC_DENTRY_SIZE;
                         dir = sigil_write_be16 dir (dentry + DENTRY_FIRST_BLOCK) (of_nat (chosen ! 0))
                     in (SIGIL_OK, gc_commit img v dir bat)))"

definition gc_delete_block :: "nat \<Rightarrow> mem \<times> mem \<Rightarrow> mem \<times> mem" where
  "gc_delete_block b = (\<lambda>(img, bat).
     (memset img (gc_block_at b) 0xFF GC_BLOCK_SIZE, gc_set_bat_link bat 0 b BAT_FREE))"

definition sigil_gamecube_delete :: "mem \<Rightarrow> nat \<Rightarrow> nat \<Rightarrow> rc \<times> mem" where
  "sigil_gamecube_delete img siz first_block =
     (case gc_open_view img siz of
        (rc, None) \<Rightarrow> (rc, img)
      | (_, Some v) \<Rightarrow>
          let dir = memcpy (\<lambda>_. 0) 0 img (gc_block_at (cv_dir_block v)) GC_BLOCK_SIZE;
              bat = memcpy (\<lambda>_. 0) 0 img (gc_block_at (cv_bat_block v)) GC_BLOCK_SIZE in
          (case gc_find_entry_at dir 0 bat 0 (cv_total_blocks v) first_block 0 of
             None \<Rightarrow> (SIGIL_ERR_INVALID_ARG, img)
           | Some index \<Rightarrow>
               let order = gc_walk_chain bat 0 (cv_total_blocks v) first_block;
                   (img, bat) = fold gc_delete_block order (img, bat);
                   dir = memset dir (index * GC_DENTRY_SIZE) DENTRY_EMPTY GC_DENTRY_SIZE
               in (SIGIL_OK, gc_commit img v dir bat)))"

definition sigil_gamecube_verify :: "mem \<Rightarrow> nat \<Rightarrow> mem \<Rightarrow> nat \<Rightarrow> rc" where
  "sigil_gamecube_verify img siz gci len =
     (case gc_open_view img siz of
        (rc, None) \<Rightarrow> rc
      | (_, Some v) \<Rightarrow>
          let blocks = gc_gci_blocks gci len in
          if blocks = 0 then SIGIL_ERR_UNSUPPORTED_FORMAT
          else
            let dir = gc_block_at (cv_dir_block v) in
            (case gc_find_identity img dir gci 0 of
               None \<Rightarrow> SIGIL_ERR_NOT_FOUND
             | Some index \<Rightarrow>
                 let dentry = gc_dentry_at dir index in
                 if unat (sigil_read_be16 img (dentry + DENTRY_BLOCK_COUNT)) \<noteq> blocks then SIGIL_ERR_NOT_FOUND
                 else
                   let (rc, copy) = sigil_gamecube_extract img siz
                         (unat (sigil_read_be16 img (dentry + DENTRY_FIRST_BLOCK))) blocks (\<lambda>_. 0);
                       copy = memcpy copy DENTRY_FIRST_BLOCK gci DENTRY_FIRST_BLOCK 2
                   in if rc = SIGIL_OK \<and> mem_eq copy 0 gci 0 len then SIGIL_OK else SIGIL_ERR_NOT_FOUND))"

section \<open>Other containers of a save\<close>

definition gc_wrapped_blocks :: "nat \<Rightarrow> nat \<Rightarrow> nat option" where
  "gc_wrapped_blocks len data_offset =
     (if len < data_offset + GC_BLOCK_SIZE \<or> (len - data_offset) mod GC_BLOCK_SIZE \<noteq> 0 then None
      else let blocks = (len - data_offset) div GC_BLOCK_SIZE in
        if blocks \<le> GC_MAX_DATA_BLOCKS then Some blocks else None)"

definition gc_swap_pair :: "nat \<Rightarrow> mem \<Rightarrow> mem" where
  "gc_swap_pair p m = m(p := m (p + 1), p + 1 := m p)"

text \<open>The converted entry and where the save's blocks start; \<open>None\<close> when it is too short.\<close>

definition gc_to_gci_entry :: "mem \<Rightarrow> nat \<Rightarrow> mem \<Rightarrow> (mem \<times> nat) option" where
  "gc_to_gci_entry save len out =
     (if 6 \<le> len \<and> has_bytes save 0 (str ''GCSAVE'') \<and> gc_wrapped_blocks len GCS_DATA \<noteq> None
      then Some (sigil_write_be16 (memcpy out 0 save GCS_DENTRY GC_DENTRY_SIZE) DENTRY_BLOCK_COUNT
                   (of_nat (the (gc_wrapped_blocks len GCS_DATA))), GCS_DATA)
      else if 12 \<le> len \<and> has_bytes save 0 (str ''DATELGC_SAVE'') \<and> gc_wrapped_blocks len SAV_DATA \<noteq> None
      then Some (fold gc_swap_pair (0x06 # map (\<lambda>k. 0x2C + 2 * k) [0..<10])
                   (memcpy out 0 save SAV_DENTRY GC_DENTRY_SIZE), SAV_DATA)
      else if GC_DENTRY_SIZE \<le> len then Some (memcpy out 0 save 0 GC_DENTRY_SIZE, GC_DENTRY_SIZE)
      else None)"

definition sigil_gamecube_to_gci :: "mem \<Rightarrow> nat \<Rightarrow> mem \<Rightarrow> rc \<times> mem \<times> nat" where
  "sigil_gamecube_to_gci save len out =
     (case gc_to_gci_entry save len out of
        None \<Rightarrow> (SIGIL_ERR_UNSUPPORTED_FORMAT, out, 0)
      | Some (out, data_offset) \<Rightarrow>
          let gci_len = GC_DENTRY_SIZE + (len - data_offset) in
          if gc_gci_blocks out gci_len = 0 then (SIGIL_ERR_UNSUPPORTED_FORMAT, out, 0)
          else (SIGIL_OK, memcpy out GC_DENTRY_SIZE save data_offset (len - data_offset), gci_len))"

section \<open>Saves bound to a card's serial\<close>

definition FZERO_BLOCKS :: nat where "FZERO_BLOCKS = 4"
definition FZERO_CRC_POLY :: u16 where "FZERO_CRC_POLY = 0x8408"

definition gc_binds_to_serial :: "mem \<Rightarrow> nat \<Rightarrow> bool" where
  "gc_binds_to_serial m dentry =
     (has_bytes m (dentry + DENTRY_GAMECODE) (str ''GFZ'') \<and>
      has_bytes m (dentry + DENTRY_FILENAME) (str ''f_zero.dat'' @ replicate 22 0))"

definition gc_chain_byte :: "nat list \<Rightarrow> nat \<Rightarrow> nat" where
  "gc_chain_byte order p = gc_block_at (order ! (p div GC_BLOCK_SIZE)) + p mod GC_BLOCK_SIZE"

definition gc_crc_bit :: "u16 \<Rightarrow> u16" where
  "gc_crc_bit crc = (if crc AND 1 \<noteq> 0 then drop_bit 1 crc XOR FZERO_CRC_POLY else drop_bit 1 crc)"

definition gc_fzero_crc :: "mem \<Rightarrow> nat list \<Rightarrow> u16" where
  "gc_fzero_crc img order =
     fold (\<lambda>p crc. (gc_crc_bit ^^ 8) (crc XOR ucast (img (gc_chain_byte order p)))) [2..<FZERO_BLOCKS * GC_BLOCK_SIZE] 0xFFFF"

definition gc_serials :: "mem \<Rightarrow> nat \<Rightarrow> u32 \<times> u32" where
  "gc_serials img header =
     fold (\<lambda>w (s1, s2). (s1 XOR sigil_read_be32 img (header + w * 4), s2 XOR sigil_read_be32 img (header + (w + 1) * 4)))
       [0, 2, 4, 6] (0, 0)"

definition sigil_gamecube_bind_serial :: "mem \<Rightarrow> nat \<Rightarrow> nat \<Rightarrow> rc \<times> mem" where
  "sigil_gamecube_bind_serial img siz first_block =
     (case gc_open_view img siz of
        (rc, None) \<Rightarrow> (rc, img)
      | (_, Some v) \<Rightarrow>
          let dir = gc_block_at (cv_dir_block v); bat = gc_block_at (cv_bat_block v) in
          (case gc_find_entry_at img dir img bat (cv_total_blocks v) first_block 0 of
             None \<Rightarrow> (SIGIL_ERR_INVALID_ARG, img)
           | Some index \<Rightarrow>
               if \<not> gc_binds_to_serial img (gc_dentry_at dir index) then (SIGIL_OK, img)
               else
                 let order = gc_walk_chain img bat (cv_total_blocks v) first_block in
                 if length order < FZERO_BLOCKS then (SIGIL_ERR_INVALID_ARG, img)
                 else
                   let (serial1, serial2) = gc_serials img (gc_block_at 0);
                       img = sigil_write_be16 img (gc_chain_byte order (GC_BLOCK_SIZE + 0x66)) (ucast (drop_bit 16 serial1));
                       img = sigil_write_be16 img (gc_chain_byte order (3 * GC_BLOCK_SIZE + 0x1580)) (ucast (drop_bit 16 serial2));
                       img = sigil_write_be16 img (gc_chain_byte order (GC_BLOCK_SIZE + 0x60)) (ucast serial1);
                       img = sigil_write_be16 img (gc_chain_byte order (GC_BLOCK_SIZE + 0x200)) (ucast serial2);
                       crc = gc_fzero_crc img order
                   in (SIGIL_OK, sigil_write_be16 img (gc_chain_byte order 0) (NOT crc))))"

section \<open>Repair\<close>

definition gc_restore_copy ::
    "nat \<Rightarrow> bool \<Rightarrow> bool \<Rightarrow> mem \<times> sigil_card_repair_report \<times> bool \<Rightarrow> mem \<times> sigil_card_repair_report \<times> bool" where
  "gc_restore_copy first valid0 valid1 = (\<lambda>(img, report, changed).
     if valid0 = valid1 then (img, report, changed)
     else
       let good = (if valid0 then first else first + 1); bad = (if valid0 then first + 1 else first)
       in (memcpy img (gc_block_at bad) img (gc_block_at good) GC_BLOCK_SIZE,
           sigil_card_repair_note report None None bad SIGIL_CARD_DAMAGE_COPY_DAMAGED True, True))"

definition sigil_gamecube_card_repair ::
    "mem \<Rightarrow> nat \<Rightarrow> sigil_card_repair_report \<Rightarrow> rc \<times> mem \<times> sigil_card_repair_report \<times> bool" where
  "sigil_gamecube_card_repair img siz report =
     (case gc_open_view img siz of
        (rc, None) \<Rightarrow> (rc, img, report, False)
      | (_, Some _) \<Rightarrow>
          let d = DIR_BLOCK_FIRST; b = BAT_BLOCK_FIRST;
              dir_valid0 = gc_dir_valid img (gc_block_at d); dir_valid1 = gc_dir_valid img (gc_block_at (d + 1));
              bat_valid0 = gc_bat_valid img (gc_block_at b); bat_valid1 = gc_bat_valid img (gc_block_at (b + 1));
              (img, report, changed) =
                gc_restore_copy b bat_valid0 bat_valid1 (gc_restore_copy d dir_valid0 dir_valid1 (img, report, False))
          in case sigil_gamecube_card_list img siz of
               (SIGIL_OK, Some listing) \<Rightarrow>
                 (SIGIL_OK, img,
                  fold (\<lambda>e r. sigil_card_repair_note r (Some (ce_name e)) (Some (ce_owner_id e)) (ce_first_block e)
                                SIGIL_CARD_DAMAGE_CHAIN False) (corrupt_entries listing) report, changed)
             | (rc, _) \<Rightarrow> (rc, img, report, changed))"

definition sigil_gamecube_card_list_io :: "sigil_io \<Rightarrow> rc \<times> sigil_card_listing option" where
  "sigil_gamecube_card_list_io io =
     (case sigil_gamecube_card_load io of
        (rc, Some (img, siz)) \<Rightarrow> (if rc = SIGIL_OK then sigil_gamecube_card_list img siz else (rc, None))
      | (rc, None) \<Rightarrow> (rc, None))"

end
