(* ===== verification/CardGamecubeProofs.thy ===== *)
theory CardGamecubeProofs
  imports CardGamecube CardStore
begin

text \<open>
  Correctness of the GameCube model. The block table's walk meets the contract of \<^verbatim>\<open>Chains\<close> and the
  directory that of \<^verbatim>\<open>CardStore\<close>; a commit is read back as the directory and table it wrote.
\<close>

section \<open>Sizes\<close>

lemma gc_total_range: "gc_total_blocks_for_size siz = n \<Longrightarrow> n \<noteq> 0 \<Longrightarrow> 64 \<le> n \<and> n \<le> 2048 \<and> siz = n * 8192"
  by (auto simp: gc_total_blocks_for_size_def Let_def GC_BLOCK_SIZE_def split: if_splits)

section \<open>Checksums\<close>

lemma gc_checksum_cong:
  assumes "\<And>k. k < len \<Longrightarrow> m (p + k) = m' (p' + k)"
  shows "sigil_gamecube_checksum m p len = sigil_gamecube_checksum m' p' len"
proof -
  have "sigil_read_be16 m (p + 2 * k) = sigil_read_be16 m' (p' + 2 * k)" if "k < len div 2" for k
    using assms [of "2 * k"] assms [of "2 * k + 1"] that by (intro read_be16_cong) (simp_all add: add.assoc)
  then have "fold (\<lambda>k (s, inv). let w = sigil_read_be16 m (p + 2 * k) in (s + w, inv + NOT w)) [0..<len div 2] (0, 0) =
      fold (\<lambda>k (s, inv). let w = sigil_read_be16 m' (p' + 2 * k) in (s + w, inv + NOT w)) [0..<len div 2] (0, 0)"
    by (intro fold_cong) auto
  then show ?thesis by (simp add: sigil_gamecube_checksum_def)
qed

lemma gc_matches_cong:
  assumes "\<And>k. k < len \<Longrightarrow> m (p + k) = m' (p' + k)" and "\<And>k. k < 4 \<Longrightarrow> m (s + k) = m' (s' + k)"
  shows "gc_checksum_matches m p len s = gc_checksum_matches m' p' len s'"
proof -
  have "sigil_read_be16 m s = sigil_read_be16 m' s'"
    using assms(2) [of 0] assms(2) [of 1] by (intro read_be16_cong) simp_all
  moreover have "sigil_read_be16 m (s + 2) = sigil_read_be16 m' (s' + 2)"
    using assms(2) [of 2] assms(2) [of 3] by (intro read_be16_cong) (simp_all add: numeral_3_eq_3)
  moreover have "sigil_gamecube_checksum m p len = sigil_gamecube_checksum m' p' len"
    by (rule gc_checksum_cong) (rule assms(1))
  ultimately show ?thesis by (simp add: gc_checksum_matches_def)
qed

text \<open>Sealing stores a checksum that matches, outside the bytes it covers.\<close>

lemma gc_seal_out: "j < s \<or> s + 4 \<le> j \<Longrightarrow> gc_seal m p len s j = m j"
  by (auto simp: gc_seal_def write_be16_apply split: prod.splits)

lemma gc_seal_matches:
  assumes "s + 4 \<le> p \<or> p + len \<le> s"
  shows "gc_checksum_matches (gc_seal m p len s) p len s"
proof -
  obtain a b where ab: "sigil_gamecube_checksum m p len = (a, b)" by (cases "sigil_gamecube_checksum m p len")
  have "sigil_gamecube_checksum (gc_seal m p len s) p len = (a, b)"
    unfolding ab [symmetric] using assms by (intro gc_checksum_cong gc_seal_out) auto
  moreover have "sigil_read_be16 (gc_seal m p len s) s = a"
  proof -
    have "sigil_read_be16 (gc_seal m p len s) s = sigil_read_be16 (sigil_write_be16 m s a) s"
      by (intro read_be16_cong) (simp_all add: gc_seal_def ab write_be16_apply)
    then show ?thesis by simp
  qed
  moreover have "sigil_read_be16 (gc_seal m p len s) (s + 2) = b" by (simp add: gc_seal_def ab)
  ultimately show ?thesis by (simp add: gc_checksum_matches_def)
qed

text \<open>The bytes of a block, at whatever offset they sit.\<close>

definition same_block :: "mem \<Rightarrow> nat \<Rightarrow> mem \<Rightarrow> nat \<Rightarrow> bool" where
  "same_block m p m' p' \<longleftrightarrow> (\<forall>k < 8192. m (p + k) = m' (p' + k))"

lemma same_block_valid:
  assumes "same_block m p m' p'"
  shows "gc_dir_valid m p = gc_dir_valid m' p'" and "gc_bat_valid m p = gc_bat_valid m' p'"
proof -
  have e: "m (p + k) = m' (p' + k)" if "k < 8192" for k using assms that by (simp add: same_block_def)
  show "gc_dir_valid m p = gc_dir_valid m' p'"
    unfolding gc_dir_valid_def DIR_CHECKSUM_def using e by (intro gc_matches_cong) (simp_all add: add.assoc)
  show "gc_bat_valid m p = gc_bat_valid m' p'"
    unfolding gc_bat_valid_def BAT_COUNTER_def GC_BLOCK_SIZE_def using e by (intro gc_matches_cong) (simp_all add: add.assoc)
qed

lemma same_block_read:
  "same_block m p m' p' \<Longrightarrow> x < 8191 \<Longrightarrow> sigil_read_be16 m (p + x) = sigil_read_be16 m' (p' + x)"
proof -
  assume a: "same_block m p m' p'" "x < 8191"
  then have e: "m (p + k) = m' (p' + k)" if "k < 8192" for k using that unfolding same_block_def by blast
  from a(2) have "m (p + x) = m' (p' + x)" "m (p + (x + 1)) = m' (p' + (x + 1))" by (intro e, simp)+
  then show ?thesis by (intro read_be16_cong) (simp_all add: add.assoc)
qed

section \<open>Opening a committed card\<close>

lemma gc_current_same: "gc_current_copy True c True c = Some 0"
  by (simp add: gc_current_copy_def)

definition gc_view :: "nat \<Rightarrow> nat \<Rightarrow> nat \<Rightarrow> card_view" where
  "gc_view n d b = \<lparr>cv_total_blocks = n, cv_dir_block = d, cv_bat_block = b\<rparr>"

lemma gc_view_sel [simp]:
  "cv_total_blocks (gc_view n d b) = n" "cv_dir_block (gc_view n d b) = d" "cv_bat_block (gc_view n d b) = b"
  by (simp_all add: gc_view_def)

lemma gc_open_view_iff:
  "gc_open_view img siz = (SIGIL_OK, Some v) \<longleftrightarrow>
     (let n = gc_total_blocks_for_size siz in
      n \<noteq> 0 \<and> gc_header_valid img 0 n \<and>
      (\<exists>d b. gc_current_copy (gc_dir_valid img 8192) (sigil_read_be16 img (8192 + 0x1FFA))
               (gc_dir_valid img 16384) (sigil_read_be16 img (16384 + 0x1FFA)) = Some d \<and>
             gc_current_copy (gc_bat_valid img 24576) (sigil_read_be16 img (24576 + 4))
               (gc_bat_valid img 32768) (sigil_read_be16 img (32768 + 4)) = Some b \<and>
             v = gc_view n (1 + d) (3 + b)))"
  by (auto simp: gc_open_view_def Let_def gc_block_at_def gc_consts gc_view_def split: option.splits)

lemma gc_open_viewE:
  assumes "gc_open_view img siz = (rc, Some v)"
  obtains d b where "rc = SIGIL_OK" "d = 1 \<or> d = 2" "b = 3 \<or> b = 4" "v = gc_view (gc_total_blocks_for_size siz) d b"
    "gc_total_blocks_for_size siz \<noteq> 0" "gc_header_valid img 0 (gc_total_blocks_for_size siz)"
    "gc_dir_valid img (d * 8192)" "gc_bat_valid img (b * 8192)"
proof -
  have rc: "rc = SIGIL_OK" using assms by (auto simp: gc_open_view_def Let_def split: if_splits option.splits)
  from assms [unfolded rc gc_open_view_iff Let_def] obtain d b where
    n: "gc_total_blocks_for_size siz \<noteq> 0" "gc_header_valid img 0 (gc_total_blocks_for_size siz)"
    and d: "gc_current_copy (gc_dir_valid img 8192) (sigil_read_be16 img (8192 + 0x1FFA))
               (gc_dir_valid img 16384) (sigil_read_be16 img (16384 + 0x1FFA)) = Some d"
    and b: "gc_current_copy (gc_bat_valid img 24576) (sigil_read_be16 img (24576 + 4))
               (gc_bat_valid img 32768) (sigil_read_be16 img (32768 + 4)) = Some b"
    and v: "v = gc_view (gc_total_blocks_for_size siz) (1 + d) (3 + b)" by blast
  have c: "k = 0 \<and> p \<or> k = 1 \<and> q" if "gc_current_copy p x q y = Some k" for p q x y k
    using that by (auto simp: gc_current_copy_def split: if_splits)
  from c [OF d] have d': "1 + d = 1 \<or> 1 + d = 2" "gc_dir_valid img ((1 + d) * 8192)" by auto
  from c [OF b] have b': "3 + b = 3 \<or> 3 + b = 4" "gc_bat_valid img ((3 + b) * 8192)" by auto
  show thesis by (rule that [OF rc d'(1) b'(1) v n d'(2) b'(2)])
qed

text \<open>The directory and table \<open>commit\<close> writes: the counters one past the mounted copy's, the free
  count, the checksums; every other byte is the operation's.\<close>

definition gc_commit_dir :: "mem \<Rightarrow> card_view \<Rightarrow> mem \<Rightarrow> mem" where
  "gc_commit_dir img v dir =
     gc_seal_dir (sigil_write_be16 dir 0x1FFA (sigil_read_be16 img (cv_dir_block v * 8192 + 0x1FFA) + 1)) 0"

definition gc_commit_bat :: "mem \<Rightarrow> card_view \<Rightarrow> mem \<Rightarrow> mem" where
  "gc_commit_bat img v bat =
     (let bat = sigil_write_be16 bat 4 (sigil_read_be16 img (cv_bat_block v * 8192 + 4) + 1)
      in gc_seal_bat (sigil_write_be16 bat 6 (of_nat (gc_free_block_count bat 0 (cv_total_blocks v)))) 0)"

lemma gc_commit_dir_out: "k < 0x1FFA \<Longrightarrow> gc_commit_dir img v dir k = dir k"
  by (simp add: gc_commit_dir_def gc_seal_dir_def DIR_CHECKSUM_def gc_seal_out write_be16_apply)

lemma gc_commit_bat_out: "8 \<le> k \<Longrightarrow> gc_commit_bat img v bat k = bat k"
  by (simp add: gc_commit_bat_def Let_def gc_seal_bat_def BAT_CHECKSUM_def gc_seal_out write_be16_apply)

lemma gc_commit_valid:
  "gc_dir_valid (gc_commit_dir img v dir) 0" "gc_bat_valid (gc_commit_bat img v bat) 0"
  by (simp_all add: gc_dir_valid_def gc_commit_dir_def gc_seal_dir_def DIR_CHECKSUM_def gc_bat_valid_def
      gc_commit_bat_def Let_def gc_seal_bat_def BAT_COUNTER_def BAT_CHECKSUM_def GC_BLOCK_SIZE_def gc_seal_matches)

lemma gc_commit_apply:
  "gc_commit img v dir bat j =
     (if 8192 \<le> j \<and> j < 16384 then gc_commit_dir img v dir (j - 8192)
      else if 16384 \<le> j \<and> j < 24576 then gc_commit_dir img v dir (j - 16384)
      else if 24576 \<le> j \<and> j < 32768 then gc_commit_bat img v bat (j - 24576)
      else if 32768 \<le> j \<and> j < 40960 then gc_commit_bat img v bat (j - 32768)
      else img j)"
  by (auto simp: gc_commit_def gc_commit_dir_def gc_commit_bat_def Let_def gc_block_at_def gc_consts memcpy_apply)

lemma gc_header_cong:
  assumes "\<And>j. j < 8192 \<Longrightarrow> img' j = img j"
  shows "gc_header_valid img' 0 n = gc_header_valid img 0 n"
proof -
  have "gc_checksum_matches img' 0 508 508 = gc_checksum_matches img 0 508 508"
    by (rule gc_matches_cong) (use assms in simp_all)
  moreover have "sigil_read_be16 img' 34 = sigil_read_be16 img 34" using assms by (intro read_be16_cong) simp_all
  ultimately show ?thesis by (simp add: gc_header_valid_def HEADER_CHECKSUM_def HEADER_SIZE_MBITS_def)
qed

lemma gc_commit_open:
  assumes open_: "gc_open_view img0 siz = (SIGIL_OK, Some v)" and head: "\<And>j. j < 8192 \<Longrightarrow> img j = img0 j"
  shows "gc_open_view (gc_commit img v dir bat) siz = (SIGIL_OK, Some (gc_view (cv_total_blocks v) 1 3))"
proof -
  let ?img = "gc_commit img v dir bat"
  from open_ have h: "gc_total_blocks_for_size siz \<noteq> 0" "gc_header_valid img0 0 (gc_total_blocks_for_size siz)"
    "cv_total_blocks v = gc_total_blocks_for_size siz"
    by (auto elim: gc_open_viewE)
  have "gc_header_valid ?img 0 n = gc_header_valid img0 0 n" for n
    by (rule gc_header_cong) (simp add: gc_commit_apply head)
  moreover have d: "same_block ?img 8192 (gc_commit_dir img v dir) 0" "same_block ?img 16384 (gc_commit_dir img v dir) 0"
    and b: "same_block ?img 24576 (gc_commit_bat img v bat) 0" "same_block ?img 32768 (gc_commit_bat img v bat) 0"
    by (simp_all add: same_block_def gc_commit_apply)
  ultimately show ?thesis
    unfolding gc_open_view_iff Let_def
    using h same_block_valid(1) [OF d(1)] same_block_valid(1) [OF d(2)] same_block_valid(2) [OF b(1)]
      same_block_valid(2) [OF b(2)] gc_commit_valid same_block_read [OF d(1), of "0x1FFA"]
      same_block_read [OF d(2), of "0x1FFA"] same_block_read [OF b(1), of 4] same_block_read [OF b(2), of 4]
    by (simp add: gc_current_same)
qed

section \<open>The chain reader\<close>

definition gc_step :: "mem \<times> card_view \<Rightarrow> nat \<Rightarrow> link" where
  "gc_step c b =
     (let nxt = gc_bat_link (fst c) (cv_bat_block (snd c) * 8192) b in
      if nxt = BAT_CHAIN_END then End
      else if 5 \<le> nxt \<and> nxt < cv_total_blocks (snd c) then Next nxt else Bad)"

definition gc_start :: "mem \<times> card_view \<Rightarrow> nat \<Rightarrow> bool" where
  "gc_start c b \<longleftrightarrow> 5 \<le> b \<and> b < cv_total_blocks (snd c)"

definition gc_walk :: "mem \<times> card_view \<Rightarrow> nat \<Rightarrow> nat list" where
  "gc_walk c b = gc_walk_chain (fst c) (cv_bat_block (snd c) * 8192) (cv_total_blocks (snd c)) b"

lemma gc_walk_loop_step:
  "gc_walk_loop img (cv_bat_block v * 8192) (cv_total_blocks v) seen order b =
    (case gc_step (img, v) b of
       End \<Rightarrow> order @ [b]
     | Bad \<Rightarrow> []
     | Next c \<Rightarrow> if c = b \<or> seen c then []
                else gc_walk_loop img (cv_bat_block v * 8192) (cv_total_blocks v) (seen(b := True)) (order @ [b]) c)"
  by (subst gc_walk_loop.simps) (auto simp: gc_step_def Let_def GC_SYSTEM_BLOCKS_def)

lemma gc_walk_loop_sound:
  assumes "bat = cv_bat_block v * 8192" and "n = cv_total_blocks v"
    and "\<And>i. seen i \<longleftrightarrow> i \<in> set order" and "distinct order" and "b \<notin> set order"
    and "gc_walk_loop img bat n seen order b \<noteq> []"
  shows "\<exists>bs. gc_walk_loop img bat n seen order b = order @ bs \<and> hd bs = b \<and> linked (gc_step (img, v)) bs \<and>
     distinct (order @ bs)"
  using assms
proof (induction img bat n seen order b rule: gc_walk_loop.induct)
  case (1 img bat n seen order b)
  note unfold = gc_walk_loop_step [of img v seen order b, folded "1.prems"(1,2)]
  show ?case
  proof (cases "gc_step (img, v) b")
    case End
    then have "gc_walk_loop img bat n seen order b = order @ [b]" using unfold by simp
    then show ?thesis using End "1.prems"(4,5) by (intro exI [of _ "[b]"]) simp
  next
    case Bad
    then show ?thesis using unfold "1.prems"(6) by simp
  next
    case (Next c)
    then have nc: "c \<noteq> b" "\<not> seen c" using unfold "1.prems"(6) by (auto split: if_splits)
    then have w: "gc_walk_loop img bat n seen order b = gc_walk_loop img bat n (seen(b := True)) (order @ [b]) c"
      using unfold Next by simp
    from Next have c: "c = gc_bat_link img bat b" "c \<noteq> BAT_CHAIN_END" "\<not> (c < GC_SYSTEM_BLOCKS \<or> n \<le> c)"
      using "1.prems"(1,2) by (auto simp: gc_step_def Let_def GC_SYSTEM_BLOCKS_def split: if_splits)
    have "\<exists>bs. gc_walk_loop img bat n (seen(b := True)) (order @ [b]) c = (order @ [b]) @ bs \<and> hd bs = c \<and>
        linked (gc_step (img, v)) bs \<and> distinct ((order @ [b]) @ bs)"
    proof (rule "1.IH" [OF refl refl c])
      show "\<not> (seen(b := True)) c" using nc by simp
      show "bat = cv_bat_block v * 8192" "n = cv_total_blocks v" by (rule "1.prems")+
      show "(seen(b := True)) i \<longleftrightarrow> i \<in> set (order @ [b])" for i using "1.prems"(3) by simp
      show "distinct (order @ [b])" using "1.prems"(4,5) by auto
      show "c \<notin> set (order @ [b])" using nc "1.prems"(3) by simp
      show "gc_walk_loop img bat n (seen(b := True)) (order @ [b]) c \<noteq> []" using "1.prems"(6) unfolding w .
    qed
    then obtain bs where bs: "gc_walk_loop img bat n (seen(b := True)) (order @ [b]) c = (order @ [b]) @ bs"
      "hd bs = c" "linked (gc_step (img, v)) bs" "distinct ((order @ [b]) @ bs)" by blast
    have "linked (gc_step (img, v)) (b # bs)" using bs(2,3) Next by (cases bs) auto
    with bs(1,4) w show ?thesis by (intro exI [of _ "b # bs"]) auto
  qed
qed

lemma gc_walk_loop_complete:
  "linked (gc_step (img, v)) bs \<Longrightarrow> distinct (order @ bs) \<Longrightarrow> (\<And>i. seen i \<longleftrightarrow> i \<in> set order) \<Longrightarrow>
   gc_walk_loop img (cv_bat_block v * 8192) (cv_total_blocks v) seen order (hd bs) = order @ bs"
proof (induction bs arbitrary: seen order)
  case Nil
  then show ?case by simp
next
  case (Cons b bs)
  note unfold = gc_walk_loop_step [of img v seen order b]
  show ?case
  proof (cases bs)
    case Nil
    then show ?thesis using unfold Cons.prems(1) by simp
  next
    case (Cons c cs)
    then have s: "gc_step (img, v) b = Next c" and lk: "linked (gc_step (img, v)) bs" using Cons.prems(1) by auto
    have "gc_walk_loop img (cv_bat_block v * 8192) (cv_total_blocks v) (seen(b := True)) (order @ [b]) (hd bs) = (order @ [b]) @ bs"
      using Cons.prems(2,3) Cons by (intro Cons.IH lk) auto
    moreover have "c \<noteq> b" "\<not> seen c" using Cons.prems(2,3) Cons by auto
    ultimately show ?thesis using unfold s Cons by simp
  qed
qed

text \<open>The directory, the data blocks, and an entry's bytes but for its first block.\<close>

definition gc_dir :: "mem \<times> card_view \<Rightarrow> nat \<Rightarrow> (nat \<times> nat) option" where
  "gc_dir c i =
     (let d = cv_dir_block (snd c) * 8192 + i * 64 in
      if i < 127 \<and> gc_dentry_live (fst c) d
      then Some (unat (sigil_read_be16 (fst c) (d + 0x36)), unat (sigil_read_be16 (fst c) (d + 0x38))) else None)"

definition gc_data :: "mem \<times> card_view \<Rightarrow> nat \<Rightarrow> bytes" where
  "gc_data c b = bytes_at (fst c) (b * 8192) 8192"

definition gc_meta :: "mem \<times> card_view \<Rightarrow> nat \<Rightarrow> bytes" where
  "gc_meta c i = (let d = cv_dir_block (snd c) * 8192 + i * 64 in bytes_at (sigil_write_be16 (fst c) (d + 0x36) 0) d 64)"

interpretation gc: card_store gc_step gc_start gc_walk gc_dir gc_data gc_meta False
proof unfold_locales
  fix c :: "mem \<times> card_view" and b :: nat
  obtain img v where c: "c = (img, v)" by (cases c)
  { assume "gc_start c b" "gc_walk c b \<noteq> []"
    then show "hd (gc_walk c b) = b \<and> linked (gc_step c) (gc_walk c b) \<and> distinct (gc_walk c b)"
      using gc_walk_loop_sound [OF refl refl, where v = v and seen = "\<lambda>_. False" and order = "[]" and img = img and b = b]
      by (auto simp: c gc_walk_def gc_walk_chain_def GC_SYSTEM_BLOCKS_def gc_start_def split: if_splits) }
  { assume "gc_walk c b \<noteq> []"
    then show "gc_start c b"
      by (auto simp: c gc_walk_def gc_walk_chain_def GC_SYSTEM_BLOCKS_def gc_start_def split: if_splits) }
next
  fix c :: "mem \<times> card_view" and bs :: "nat list"
  obtain img v where c: "c = (img, v)" by (cases c)
  assume "gc_start c (hd bs)" "linked (gc_step c) bs" "distinct bs"
  then show "gc_walk c (hd bs) = bs"
    using gc_walk_loop_complete [of img v bs "[]" "\<lambda>_. False"]
    by (auto simp: c gc_walk_def gc_walk_chain_def GC_SYSTEM_BLOCKS_def gc_start_def)
next
  fix c :: "mem \<times> card_view" and b x :: nat
  assume "gc_step c b = Next x"
  then show "gc_start c x" by (auto simp: gc_step_def gc_start_def Let_def split: if_splits)
qed

section \<open>Listing\<close>

lemma gc_walk_eq:
  "gc_walk_chain img (gc_block_at (cv_bat_block v)) (cv_total_blocks v) f = gc_walk (img, v) f"
  by (simp add: gc_walk_def gc_block_at_def GC_BLOCK_SIZE_def)

lemma gc_walk_distinct: "distinct (gc_walk c f)"
proof (cases "gc_walk c f = []")
  case False
  with gc.walk_start gc.walk_distinct show ?thesis by blast
qed simp

definition gc_offset :: "card_view \<Rightarrow> nat \<Rightarrow> nat" where
  "gc_offset v i = cv_dir_block v * 8192 + i * 64"

lemma gc_dentry_eq: "gc_dentry_at (gc_block_at (cv_dir_block v)) i = gc_offset v i"
  by (simp add: gc_dentry_at_def gc_block_at_def gc_offset_def gc_consts)

definition gc_first :: "mem \<Rightarrow> card_view \<Rightarrow> nat \<Rightarrow> nat" where
  "gc_first img v i = unat (sigil_read_be16 img (gc_offset v i + 0x36))"

definition gc_count :: "mem \<Rightarrow> card_view \<Rightarrow> nat \<Rightarrow> nat" where
  "gc_count img v i = unat (sigil_read_be16 img (gc_offset v i + 0x38))"

lemma gc_dir_eq:
  "gc_dir (img, v) i = (if i < 127 \<and> gc_dentry_live img (gc_offset v i) then Some (gc_first img v i, gc_count img v i) else None)"
  by (simp add: gc_dir_def Let_def gc_first_def gc_count_def gc_offset_def)

lemma gc_chained_iff:
  "gc.chained (img, v) i bs \<longleftrightarrow>
     i < 127 \<and> gc_dentry_live img (gc_offset v i) \<and> gc_walk (img, v) (gc_first img v i) = bs \<and> bs \<noteq> []"
  by (auto simp: gc.chained_def gc_dir_eq)

lemma gc_whole_iff:
  "gc.whole (img, v) i bs \<longleftrightarrow>
     i < 127 \<and> gc_dentry_live img (gc_offset v i) \<and> gc_walk (img, v) (gc_first img v i) = bs \<and> bs \<noteq> [] \<and>
     gc_count img v i = length bs"
  by (auto simp: gc.whole_def gc_dir_eq)

lemma gc_claims:
  "gc_count_claims img (gc_block_at (cv_dir_block v)) (gc_block_at (cv_bat_block v)) (cv_total_blocks v) x =
     min 255 (length (filter (\<lambda>i. gc_dentry_live img (gc_offset v i) \<and> x \<in> set (gc_walk (img, v) (gc_first img v i))) [0..<127]))"
  unfolding gc_count_claims_def Let_def gc_dentry_eq gc_walk_eq GC_DIR_ENTRIES_def DENTRY_FIRST_BLOCK_def gc_first_def [symmetric]
  by (rule fold_claims_sat) (rule gc_walk_distinct)

lemma gc_shared:
  assumes w: "gc.whole (img, v) i bs"
  shows "list_ex (\<lambda>b. 1 < gc_count_claims img (gc_block_at (cv_dir_block v)) (gc_block_at (cv_bat_block v)) (cv_total_blocks v) b) bs
     \<longleftrightarrow> \<not> gc.live (img, v) i bs"
proof -
  let ?Q = "\<lambda>x i. gc_dentry_live img (gc_offset v i) \<and> x \<in> set (gc_walk (img, v) (gc_first img v i))"
  have Q: "i < 127 \<and> ?Q x i \<longleftrightarrow> (\<exists>cs. gc.chained (img, v) i cs \<and> x \<in> set cs)" for x i
    by (auto simp: gc_chained_iff)
  have "1 < gc_count_claims img (gc_block_at (cv_dir_block v)) (gc_block_at (cv_bat_block v)) (cv_total_blocks v) x \<longleftrightarrow>
      (\<exists>t cs. t \<noteq> i \<and> gc.chained (img, v) t cs \<and> x \<in> set cs)" if x: "x \<in> set bs" for x
  proof -
    have "1 < gc_count_claims img (gc_block_at (cv_dir_block v)) (gc_block_at (cv_bat_block v)) (cv_total_blocks v) x \<longleftrightarrow>
        1 < length (filter (?Q x) [0..<127])" unfolding gc_claims by auto
    also have "\<dots> \<longleftrightarrow> (\<exists>t \<in> set [0..<127]. t \<noteq> i \<and> ?Q x t)"
      by (rule two_claims) (use w x in \<open>auto simp: gc_whole_iff\<close>)
    also have "\<dots> \<longleftrightarrow> (\<exists>t. t \<noteq> i \<and> t < 127 \<and> ?Q x t)" by auto
    also have "\<dots> \<longleftrightarrow> (\<exists>t cs. t \<noteq> i \<and> gc.chained (img, v) t cs \<and> x \<in> set cs)" using Q by metis
    finally show ?thesis .
  qed
  then show ?thesis using w by (auto simp: list_ex_iff gc.live_def gc.claims_def)
qed

definition gc_live :: "mem \<Rightarrow> card_view \<Rightarrow> nat \<Rightarrow> bool" where
  "gc_live img v i = gc.live (img, v) i (gc_walk (img, v) (gc_first img v i))"

lemma gc_live_iff: "gc.live (img, v) i bs \<longleftrightarrow> gc_live img v i \<and> gc_walk (img, v) (gc_first img v i) = bs"
proof
  assume lv: "gc.live (img, v) i bs"
  then have "gc_walk (img, v) (gc_first img v i) = bs" using gc.live_whole [OF lv] by (simp add: gc_whole_iff)
  with lv show "gc_live img v i \<and> gc_walk (img, v) (gc_first img v i) = bs" by (simp add: gc_live_def)
qed (auto simp: gc_live_def)

lemma gc_live_ex: "gc_live img v i \<longleftrightarrow> (\<exists>bs. gc.live (img, v) i bs)"
  using gc_live_iff by metis

lemma gc_live_whole: "gc_live img v i \<Longrightarrow> gc.whole (img, v) i (gc_walk (img, v) (gc_first img v i))"
  unfolding gc_live_def by (rule gc.live_whole)

definition gc_name :: "mem \<Rightarrow> nat \<Rightarrow> bytes" where
  "gc_name m d = cstr (bytes_at m (d + 8) 32)"

definition gc_owner :: "mem \<Rightarrow> nat \<Rightarrow> bytes" where
  "gc_owner m d = concat (map hex2_upper (bytes_at m d 4))"

definition gc_entry :: "mem \<Rightarrow> card_view \<Rightarrow> nat \<Rightarrow> sigil_card_entry" where
  "gc_entry img v i =
     \<lparr>ce_name = gc_name img (gc_offset v i), ce_owner_id = gc_owner img (gc_offset v i),
      ce_blocks = gc_count img v i, ce_first_block = gc_first img v i\<rparr>"

lemma gc_owner_eq: "gc_owner m d = hex2_upper (m d) @ hex2_upper (m (d + 1)) @ hex2_upper (m (d + 2)) @ hex2_upper (m (d + 3))"
proof -
  have "bytes_at m d 4 = [m d, m (d + 1), m (d + 2), m (d + 3)]"
    by (simp add: bytes_at_def upt_rec numeral_3_eq_3)
  then show ?thesis by (simp add: gc_owner_def)
qed

lemma gc_list_entry:
  assumes i: "i < 127"
  shows "gc_list_entry img (gc_block_at (cv_dir_block v)) (gc_block_at (cv_bat_block v)) (cv_total_blocks v)
      (gc_count_claims img (gc_block_at (cv_dir_block v)) (gc_block_at (cv_bat_block v)) (cv_total_blocks v)) i lst =
    (if \<not> gc_dentry_live img (gc_offset v i) then lst\<lparr>free_slots := free_slots lst + 1\<rparr>
     else if gc_live img v i then listing_add lst (gc_entry img v i)
     else sigil_card_listing_corrupt lst (Some (gc_name img (gc_offset v i))) (Some (gc_owner img (gc_offset v i)))
            (gc_first img v i))"
proof (cases "gc_dentry_live img (gc_offset v i)")
  case lv: True
  let ?w = "gc_walk (img, v) (gc_first img v i)"
  let ?claims = "gc_count_claims img (gc_block_at (cv_dir_block v)) (gc_block_at (cv_bat_block v)) (cv_total_blocks v)"
  have l: "gc_list_entry img (gc_block_at (cv_dir_block v)) (gc_block_at (cv_bat_block v)) (cv_total_blocks v) ?claims i lst =
    (let order = (if gc_count img v i \<noteq> 0 then ?w else []) in
     if gc_count img v i = 0 \<or> length order \<noteq> gc_count img v i \<or> list_ex (\<lambda>b. 1 < ?claims b) order
     then sigil_card_listing_corrupt lst (Some (gc_name img (gc_offset v i))) (Some (gc_owner img (gc_offset v i))) (gc_first img v i)
     else listing_add lst (gc_entry img v i))"
    using lv unfolding gc_list_entry_def gc_dentry_eq Let_def gc_walk_eq
    by (auto simp: gc_first_def gc_count_def gc_name_def gc_owner_eq gc_entry_def gc_consts)
  show ?thesis
  proof (cases "gc.whole (img, v) i ?w")
    case True
    from gc_shared [OF True] True lv show ?thesis
      unfolding l by (simp add: gc_whole_iff gc_live_def [symmetric] Let_def)
  next
    case False
    then have "\<not> gc_live img v i" using gc_live_whole by blast
    moreover have "?w = [] \<or> gc_count img v i \<noteq> length ?w" using False i lv by (auto simp: gc_whole_iff)
    ultimately show ?thesis using lv unfolding l by (auto simp: Let_def)
  qed
qed (simp add: gc_list_entry_def Let_def gc_dentry_eq)

lemma gc_live_entry: "gc_live img v i \<Longrightarrow> i < 127 \<and> gc_dentry_live img (gc_offset v i)"
  using gc_live_whole gc_whole_iff by blast

lemma gc_list_fold:
  assumes "set is \<subseteq> {..<127}"
  shows "let r = fold (gc_list_entry img (gc_block_at (cv_dir_block v)) (gc_block_at (cv_bat_block v)) (cv_total_blocks v)
      (gc_count_claims img (gc_block_at (cv_dir_block v)) (gc_block_at (cv_bat_block v)) (cv_total_blocks v))) is lst in
    entries r = entries lst @ map (gc_entry img v) (filter (gc_live img v) is) \<and>
    free_slots r = free_slots lst + length (filter (\<lambda>i. \<not> gc_dentry_live img (gc_offset v i)) is) \<and>
    corrupt_count r = corrupt_count lst + length (filter (\<lambda>i. gc_dentry_live img (gc_offset v i) \<and> \<not> gc_live img v i) is) \<and>
    total_blocks r = total_blocks lst \<and> free_blocks r = free_blocks lst"
  using assms
proof (induction "is" arbitrary: lst)
  case Nil
  then show ?case by simp
next
  case (Cons i js)
  let ?f = "gc_list_entry img (gc_block_at (cv_dir_block v)) (gc_block_at (cv_bat_block v)) (cv_total_blocks v)
      (gc_count_claims img (gc_block_at (cv_dir_block v)) (gc_block_at (cv_bat_block v)) (cv_total_blocks v))"
  show ?case
    using Cons.prems Cons.IH [of "?f i lst"] gc_list_entry [of i img v lst] gc_live_entry [of img v i]
    by (auto simp: Let_def)
qed

section \<open>What a commit leaves\<close>

lemma gc_offset_sel: "gc_offset (gc_view n d b) i = d * 8192 + i * 64"
  by (simp add: gc_offset_def)

lemma gc_link_cong:
  assumes "m (p + 10 + (b - 5) * 2) = m' (p' + 10 + (b - 5) * 2)"
    and "m (p + 10 + (b - 5) * 2 + 1) = m' (p' + 10 + (b - 5) * 2 + 1)"
  shows "gc_bat_link m p b = gc_bat_link m' p' b"
  unfolding gc_bat_link_def BAT_MAP_def GC_SYSTEM_BLOCKS_def
  by (rule arg_cong [where f = unat], rule read_be16_cong) (use assms in simp_all)

lemma gc_commit_link:
  assumes "5 \<le> b" and "b < 2048"
  shows "gc_bat_link (gc_commit img v dir bat) (3 * 8192) b = gc_bat_link bat 0 b"
proof -
  have r: "(b - 5) * 2 \<le> 4084" using assms by simp
  have e: "gc_commit img v dir bat (24576 + k) = bat k" if "8 \<le> k" "k < 8192" for k
    using that by (simp add: gc_commit_apply gc_commit_bat_out)
  show ?thesis using r e [of "10 + (b - 5) * 2"] e [of "10 + (b - 5) * 2 + 1"]
    by (intro gc_link_cong) (simp_all add: add.assoc)
qed

lemma gc_commit_entry:
  assumes "i < 127" and "k < 64"
  shows "gc_commit img v dir bat (gc_offset (gc_view n 1 3) i + k) = dir (i * 64 + k)"
proof -
  have "i * 64 + k < 8128" using assms by linarith
  then show ?thesis by (simp add: gc_offset_sel gc_commit_apply add.assoc gc_commit_dir_out)
qed

lemma gc_commit_data: "5 \<le> b \<Longrightarrow> gc_commit img v dir bat (b * 8192 + k) = img (b * 8192 + k)"
proof -
  assume "5 \<le> b"
  then have "40960 \<le> b * 8192" by linarith
  then show ?thesis by (simp add: gc_commit_apply)
qed

text \<open>Two cards agree outside the blocks \<open>bs\<close> and the entry \<open>s\<close>.\<close>

definition gc_agree :: "mem \<Rightarrow> card_view \<Rightarrow> mem \<Rightarrow> card_view \<Rightarrow> nat set \<Rightarrow> nat \<Rightarrow> bool" where
  "gc_agree img v img' v' bs s \<longleftrightarrow>
     cv_total_blocks v' = cv_total_blocks v \<and>
     (\<forall>b. 5 \<le> b \<longrightarrow> b < cv_total_blocks v \<longrightarrow> b \<notin> bs \<longrightarrow>
        gc_bat_link img' (cv_bat_block v' * 8192) b = gc_bat_link img (cv_bat_block v * 8192) b \<and>
        (\<forall>k < 8192. img' (b * 8192 + k) = img (b * 8192 + k))) \<and>
     (\<forall>i < 127. i \<noteq> s \<longrightarrow> (\<forall>k < 64. img' (gc_offset v' i + k) = img (gc_offset v i + k)))"

lemma gc_agree_total: "gc_agree img v img' v' bs s \<Longrightarrow> cv_total_blocks v' = cv_total_blocks v"
  by (simp add: gc_agree_def)

lemma gc_agree_block:
  assumes "gc_agree img v img' v' bs s" and "gc_start (img, v) b" and "b \<notin> bs"
  shows "gc_step (img', v') b = gc_step (img, v) b" and "gc_data (img', v') b = gc_data (img, v) b"
proof -
  have r: "5 \<le> b" "b < cv_total_blocks v" using assms(2) by (simp_all add: gc_start_def)
  with assms(1,3) show "gc_step (img', v') b = gc_step (img, v) b" by (simp add: gc_agree_def gc_step_def Let_def)
  from r assms(1,3) show "gc_data (img', v') b = gc_data (img, v) b"
    unfolding gc_data_def fst_conv by (intro bytes_at_cong) (simp add: gc_agree_def)
qed

lemma gc_agree_start: "gc_agree img v img' v' bs s \<Longrightarrow> gc_start (img', v') b = gc_start (img, v) b"
  by (simp add: gc_start_def gc_agree_def)

lemma gc_agree_entry:
  assumes "gc_agree img v img' v' bs s" and "i < 127" and "i \<noteq> s"
  shows "k < 64 \<Longrightarrow> img' (gc_offset v' i + k) = img (gc_offset v i + k)"
    and "gc_dentry_live img' (gc_offset v' i) = gc_dentry_live img (gc_offset v i)"
    and "gc_first img' v' i = gc_first img v i" and "gc_count img' v' i = gc_count img v i"
    and "gc_name img' (gc_offset v' i) = gc_name img (gc_offset v i)"
    and "n \<le> 64 \<Longrightarrow> bytes_at img' (gc_offset v' i) n = bytes_at img (gc_offset v i) n"
    and "gc_entry img' v' i = gc_entry img v i"
proof -
  show b: "img' (gc_offset v' i + k) = img (gc_offset v i + k)" if "k < 64" for k
    using assms that by (simp add: gc_agree_def)
  have rd: "sigil_read_be16 img' (gc_offset v' i + x) = sigil_read_be16 img (gc_offset v i + x)" if "x < 63" for x
    using b [of x] b [of "x + 1"] that by (intro read_be16_cong) (simp_all add: add.assoc)
  show l: "gc_dentry_live img' (gc_offset v' i) = gc_dentry_live img (gc_offset v i)"
    using b [of 0] by (simp add: gc_dentry_live_def DENTRY_GAMECODE_def)
  show f: "gc_first img' v' i = gc_first img v i" "gc_count img' v' i = gc_count img v i"
    using rd by (simp_all add: gc_first_def gc_count_def)
  show n: "gc_name img' (gc_offset v' i) = gc_name img (gc_offset v i)"
    unfolding gc_name_def using b by (intro arg_cong [where f = cstr] bytes_at_cong) (simp add: add.assoc)
  show "bytes_at img' (gc_offset v' i) n = bytes_at img (gc_offset v i) n" if "n \<le> 64" for n
    using b that by (intro bytes_at_cong) simp
  then have "gc_owner img' (gc_offset v' i) = gc_owner img (gc_offset v i)" by (simp add: gc_owner_def)
  with f n show "gc_entry img' v' i = gc_entry img v i" by (simp add: gc_entry_def)
qed

lemma gc_agree_dir:
  assumes "gc_agree img v img' v' bs s" and "i \<noteq> s"
  shows "gc_dir (img', v') i = gc_dir (img, v) i" and "gc_dir (img, v) i \<noteq> None \<Longrightarrow> gc_meta (img', v') i = gc_meta (img, v) i"
proof -
  show "gc_dir (img', v') i = gc_dir (img, v) i"
    using gc_agree_entry(2-4) [OF assms(1) _ assms(2)] by (cases "i < 127") (simp_all add: gc_dir_eq)
  assume "gc_dir (img, v) i \<noteq> None"
  then have "i < 127" by (auto simp: gc_dir_eq split: if_splits)
  from gc_agree_entry(1) [OF assms(1) this assms(2)] show "gc_meta (img', v') i = gc_meta (img, v) i"
    by (auto simp: gc_meta_def Let_def write_be16_apply gc_offset_def intro!: bytes_at_cong)
qed

section \<open>Adding a save\<close>

lemma fold_pair: "fold (\<lambda>i (a, b). (f i a, g i b)) is (a, b) = (fold f is a, fold g is b)"
  by (induction "is" arbitrary: a b) simp_all

definition gc_put_data :: "mem \<Rightarrow> nat list \<Rightarrow> mem \<Rightarrow> mem" where
  "gc_put_data img ch gci =
     fold (\<lambda>i img. memcpy img (gc_block_at (ch ! i)) gci (GC_DENTRY_SIZE + i * GC_BLOCK_SIZE) GC_BLOCK_SIZE) [0..<length ch] img"

definition gc_link_of :: "nat list \<Rightarrow> nat \<Rightarrow> nat" where
  "gc_link_of ch i = (if i + 1 = length ch then BAT_CHAIN_END else ch ! (i + 1))"

definition gc_put_links :: "mem \<Rightarrow> nat list \<Rightarrow> mem" where
  "gc_put_links bat ch = fold (\<lambda>i bat. gc_set_bat_link bat 0 (ch ! i) (gc_link_of ch i)) [0..<length ch] bat"

lemma gc_inject_fold:
  "fold (gc_inject_block ch gci) [0..<length ch] (img, bat) = (gc_put_data img ch gci, gc_put_links bat ch)"
  unfolding gc_put_data_def gc_put_links_def gc_link_of_def gc_inject_block_def by (rule fold_pair)

lemma gc_put_data:
  assumes "distinct ch"
  shows "i < length ch \<Longrightarrow> k < 8192 \<Longrightarrow> gc_put_data img ch gci (ch ! i * 8192 + k) = gci (64 + i * 8192 + k)"
    and "\<forall>b \<in> set ch. j < b * 8192 \<or> b * 8192 + 8192 \<le> j \<Longrightarrow> gc_put_data img ch gci j = img j"
proof -
  let ?f = "\<lambda>i img. memcpy img (gc_block_at (ch ! i)) gci (GC_DENTRY_SIZE + i * GC_BLOCK_SIZE) GC_BLOCK_SIZE"
  let ?R = "\<lambda>i. {ch ! i * 8192..<ch ! i * 8192 + 8192}"
  have app: "?f i m j = (if ch ! i * 8192 \<le> j \<and> j < ch ! i * 8192 + 8192 then gci (64 + i * 8192 + (j - ch ! i * 8192)) else m j)"
    for i m j by (simp add: memcpy_apply gc_block_at_def gc_consts)
  show "gc_put_data img ch gci (ch ! i * 8192 + k) = gci (64 + i * 8192 + k)" if i: "i < length ch" "k < 8192"
  proof -
    have "gc_put_data img ch gci (ch ! i * 8192 + k) = ?f i img (ch ! i * 8192 + k)"
      unfolding gc_put_data_def
    proof (rule fold_in_region [where R = ?R])
      fix a b assume ab: "a \<in> set [0..<length ch]" "b \<in> set [0..<length ch]" "a \<noteq> b"
      then have "ch ! a \<noteq> ch ! b" using assms by (simp add: nth_eq_iff_index_eq)
      then have "ch ! a * 8192 + 8192 \<le> ch ! b * 8192 \<or> ch ! b * 8192 + 8192 \<le> ch ! a * 8192" by linarith
      then show "?R a \<inter> ?R b = {}" by auto
    qed (use app i in auto)
    then show ?thesis using i by (simp add: app)
  qed
  show "gc_put_data img ch gci j = img j" if "\<forall>b \<in> set ch. j < b * 8192 \<or> b * 8192 + 8192 \<le> j"
    unfolding gc_put_data_def
  proof (rule fold_outside_regions [where R = ?R])
    show "\<forall>i \<in> set [0..<length ch]. j \<notin> ?R i"
    proof
      fix i assume "i \<in> set [0..<length ch]"
      with that have "j < ch ! i * 8192 \<or> ch ! i * 8192 + 8192 \<le> j" by simp
      then show "j \<notin> ?R i" by auto
    qed
  qed (use app in auto)
qed

lemma gc_set_link_get:
  assumes "5 \<le> b" and "5 \<le> c" and "x < 65536"
  shows "gc_bat_link (gc_set_bat_link bat 0 b x) 0 c = (if b = c then x else gc_bat_link bat 0 c)"
proof (cases "b = c")
  case True
  then show ?thesis using assms(3) by (simp add: gc_bat_link_def gc_set_bat_link_def unat_of_nat16)
next
  case False
  then have "b - 5 \<noteq> c - 5" using assms by linarith
  then have "gc_bat_link (gc_set_bat_link bat 0 b x) 0 c = gc_bat_link bat 0 c"
    by (intro gc_link_cong) (auto simp: gc_set_bat_link_def write_be16_apply BAT_MAP_def GC_SYSTEM_BLOCKS_def; presburger)+
  with False show ?thesis by simp
qed

lemma gc_put_links:
  assumes "distinct ch" and "\<forall>b \<in> set ch. 5 \<le> b \<and> b < 2048" and c: "5 \<le> c"
  shows "i < length ch \<Longrightarrow> c = ch ! i \<Longrightarrow> gc_bat_link (gc_put_links bat ch) 0 c = gc_link_of ch i"
    and "c \<notin> set ch \<Longrightarrow> gc_bat_link (gc_put_links bat ch) 0 c = gc_bat_link bat 0 c"
proof -
  let ?f = "\<lambda>i bat. gc_set_bat_link bat 0 (ch ! i) (gc_link_of ch i)"
  have lnk: "gc_link_of ch i < 65536" if "i < length ch" for i
  proof (cases "i + 1 < length ch")
    case True
    then have "ch ! (i + 1) < 2048" using assms(2) by simp
    with True show ?thesis by (simp add: gc_link_of_def)
  qed (use that in \<open>simp add: gc_link_of_def BAT_CHAIN_END_def\<close>)
  have one: "gc_bat_link (?f i m) 0 c = (if ch ! i = c then gc_link_of ch i else gc_bat_link m 0 c)" if "i < length ch" for i m
    using assms(2) c that lnk by (intro gc_set_link_get) auto
  have skip: "gc_bat_link (fold ?f is m) 0 c = gc_bat_link m 0 c"
    if "set is \<subseteq> {..<length ch}" "\<forall>i \<in> set is. ch ! i \<noteq> c" for "is" m
    using that by (induction "is" arbitrary: m) (simp_all add: one)
  show "gc_bat_link (gc_put_links bat ch) 0 c = gc_bat_link bat 0 c" if "c \<notin> set ch"
    unfolding gc_put_links_def using that by (intro skip) auto
  show "gc_bat_link (gc_put_links bat ch) 0 c = gc_link_of ch i" if i: "i < length ch" "c = ch ! i"
  proof -
    have "[0..<length ch] = [0..<i] @ i # [Suc i..<length ch]" using i(1) upt_add_eq_append [of 0 i "length ch - i"] by (simp add: upt_conv_Cons)
    then have "gc_bat_link (gc_put_links bat ch) 0 c = gc_bat_link (fold ?f [Suc i..<length ch] (?f i (fold ?f [0..<i] bat))) 0 c"
      by (simp add: gc_put_links_def)
    also have "\<dots> = gc_bat_link (?f i (fold ?f [0..<i] bat)) 0 c"
      using i assms(1) by (intro skip) (auto simp: nth_eq_iff_index_eq)
    finally show ?thesis using one [OF i(1)] i(2) by simp
  qed
qed

text \<open>The copies an operation works on.\<close>

definition gc_copy :: "mem \<Rightarrow> nat \<Rightarrow> mem" where
  "gc_copy img block = memcpy (\<lambda>_. 0) 0 img (gc_block_at block) GC_BLOCK_SIZE"

lemma gc_copy_apply: "k < 8192 \<Longrightarrow> gc_copy img block k = img (block * 8192 + k)"
  by (simp add: gc_copy_def memcpy_apply gc_block_at_def GC_BLOCK_SIZE_def)

lemma gc_copy_link: "5 \<le> b \<Longrightarrow> b < 2048 \<Longrightarrow> gc_bat_link (gc_copy img block) 0 b = gc_bat_link img (block * 8192) b"
proof -
  assume b: "5 \<le> b" "b < 2048"
  then have "(b - 5) * 2 \<le> 4084" by simp
  then show ?thesis by (intro gc_link_cong) (simp_all add: gc_copy_apply ac_simps)
qed

lemma gc_copy_entry: fixes v :: card_view shows "i < 127 \<Longrightarrow> k < 64 \<Longrightarrow> gc_copy img (cv_dir_block v) (i * 64 + k) = img (gc_offset v i + k)"
proof -
  assume i: "i < 127" "k < 64"
  then have "i * 64 + k < 8192" by linarith
  then show ?thesis by (simp add: gc_copy_apply gc_offset_def add.assoc)
qed

lemma gc_copy_identity: fixes v :: card_view shows "gc_find_identity (gc_copy img (cv_dir_block v)) 0 gci 0 =
    gc_find_identity img (gc_block_at (cv_dir_block v)) gci 0"
  unfolding gc_find_identity_def gc_dentry_eq Let_def
proof (rule find_cong [OF refl])
  fix i assume "i \<in> set [0..<GC_DIR_ENTRIES]"
  then have i: "i < 127" by (simp add: GC_DIR_ENTRIES_def)
  note e = gc_copy_entry [OF i, of _ img v]
  have d: "gc_dentry_at 0 i = i * 64" by (simp add: gc_dentry_at_def GC_DENTRY_SIZE_def)
  have "gc_dentry_live (gc_copy img (cv_dir_block v)) (i * 64) = gc_dentry_live img (gc_offset v i)"
    using e [of 0] by (simp add: gc_dentry_live_def DENTRY_GAMECODE_def)
  moreover have "mem_eq (gc_copy img (cv_dir_block v)) (i * 64) gci 0 6 = mem_eq img (gc_offset v i) gci 0 6"
    using e by (auto simp: mem_eq_iff)
  moreover have "bytes_at (gc_copy img (cv_dir_block v)) (i * 64 + 8) 32 = bytes_at img (gc_offset v i + 8) 32"
    using e by (intro bytes_at_cong) (simp add: add.assoc)
  ultimately show "(gc_dentry_live (gc_copy img (cv_dir_block v)) (gc_dentry_at 0 i) \<and>
      mem_eq (gc_copy img (cv_dir_block v)) (gc_dentry_at 0 i) gci 0 DENTRY_MAKERCODE_END \<and>
      strn_eq (gc_copy img (cv_dir_block v)) (gc_dentry_at 0 i + DENTRY_FILENAME) gci (0 + DENTRY_FILENAME) GC_FILENAME_LEN) =
     (gc_dentry_live img (gc_offset v i) \<and> mem_eq img (gc_offset v i) gci 0 DENTRY_MAKERCODE_END \<and>
      strn_eq img (gc_offset v i + DENTRY_FILENAME) gci (0 + DENTRY_FILENAME) GC_FILENAME_LEN)"
    unfolding d by (simp add: strn_eq_def gc_consts)
qed

lemma gc_copy_live: fixes v :: card_view shows "i < 127 \<Longrightarrow> gc_dentry_live (gc_copy img (cv_dir_block v)) (gc_dentry_at 0 i) = gc_dentry_live img (gc_offset v i)"
  using gc_copy_entry [of i 0 img v] by (simp add: gc_dentry_live_def gc_dentry_at_def gc_consts)

text \<open>The blocks \<open>inject\<close> takes, and the card it leaves.\<close>

definition gc_free_list :: "mem \<Rightarrow> card_view \<Rightarrow> nat list" where
  "gc_free_list img v = filter (\<lambda>b. gc_bat_link img (cv_bat_block v * 8192) b = BAT_FREE) [5..<cv_total_blocks v]"

definition gc_put :: "mem \<Rightarrow> card_view \<Rightarrow> nat list \<Rightarrow> nat \<Rightarrow> mem \<Rightarrow> mem" where
  "gc_put img v ch s gci =
     gc_commit (gc_put_data img ch gci) v
       (sigil_write_be16 (memcpy (gc_copy img (cv_dir_block v)) (s * 64) gci 0 64) (s * 64 + 0x36) (of_nat (ch ! 0)))
       (sigil_write_be16 (gc_put_links (gc_copy img (cv_bat_block v)) ch) 8 (of_nat (last ch)))"

definition gc_view_ok :: "card_view \<Rightarrow> bool" where
  "gc_view_ok v \<longleftrightarrow> 64 \<le> cv_total_blocks v \<and> cv_total_blocks v \<le> 2048 \<and>
     (cv_dir_block v = 1 \<or> cv_dir_block v = 2) \<and> (cv_bat_block v = 3 \<or> cv_bat_block v = 4)"

lemma gc_open_view_ok:
  assumes "gc_open_view img siz = (rc, Some v)"
  shows "gc_view_ok v" and "rc = SIGIL_OK" and "siz = cv_total_blocks v * 8192"
  using assms gc_total_range [of siz "cv_total_blocks v"] by (auto simp: gc_view_ok_def elim!: gc_open_viewE)

lemma gc_copy_free:
  assumes "gc_view_ok v"
  shows "filter (\<lambda>b. gc_bat_link (gc_copy img (cv_bat_block v)) 0 b = BAT_FREE) [GC_SYSTEM_BLOCKS..<cv_total_blocks v] =
    gc_free_list img v"
  unfolding gc_free_list_def GC_SYSTEM_BLOCKS_def
  using assms by (intro filter_cong) (auto simp: gc_view_ok_def gc_copy_link)

lemma gc_inject_eq:
  assumes v: "gc_open_view img siz = (rc, Some v)"
  shows "sigil_gamecube_inject img siz gci len =
     (let n = gc_gci_blocks gci len in
      if n = 0 then (SIGIL_ERR_UNSUPPORTED_FORMAT, img)
      else if gc_find_identity img (gc_block_at (cv_dir_block v)) gci 0 \<noteq> None then (SIGIL_ERR_EXISTS, img)
      else case find (\<lambda>i. \<not> gc_dentry_live img (gc_offset v i)) [0..<127] of
        None \<Rightarrow> (SIGIL_ERR_NO_SPACE, img)
      | Some s \<Rightarrow>
          if length (gc_free_list img v) < n then (SIGIL_ERR_NO_SPACE, img)
          else (SIGIL_OK, gc_put img v (take n (gc_free_list img v)) s gci))"
proof -
  let ?n = "gc_gci_blocks gci len" let ?ch = "take ?n (gc_free_list img v)"
  note ok = gc_open_view_ok(1) [OF v]
  have f: "find (\<lambda>i. \<not> gc_dentry_live (gc_copy img (cv_dir_block v)) (gc_dentry_at 0 i)) [0..<GC_DIR_ENTRIES] =
      find (\<lambda>i. \<not> gc_dentry_live img (gc_offset v i)) [0..<127]"
    unfolding GC_DIR_ENTRIES_def by (rule find_cong [OF refl]) (simp add: gc_copy_live)
  have len: "length ?ch = ?n" if "\<not> length (gc_free_list img v) < ?n" using that by simp
  have put: "(case fold (gc_inject_block ?ch gci) [0..<?n] (img, gc_copy img (cv_bat_block v)) of (img', bat) \<Rightarrow>
        (SIGIL_OK, gc_commit img' v
          (sigil_write_be16 (memcpy (gc_copy img (cv_dir_block v)) (s * GC_DENTRY_SIZE) gci 0 GC_DENTRY_SIZE)
            (s * GC_DENTRY_SIZE + DENTRY_FIRST_BLOCK) (of_nat (?ch ! 0)))
          (sigil_write_be16 bat BAT_LAST_ALLOCATED (of_nat (?ch ! (?n - 1)))))) =
      (SIGIL_OK, gc_put img v ?ch s gci)"
    if "?n \<noteq> 0" "\<not> length (gc_free_list img v) < ?n" for s
  proof -
    have "?ch \<noteq> []" using that by (metis len length_0_conv)
    then have l: "?ch ! (?n - 1) = last ?ch" using len that(2) by (simp add: last_conv_nth)
    have "fold (gc_inject_block ?ch gci) [0..<?n] (img, gc_copy img (cv_bat_block v)) =
        (gc_put_data img ?ch gci, gc_put_links (gc_copy img (cv_bat_block v)) ?ch)"
      using gc_inject_fold [of ?ch gci img] len [OF that(2)] by simp
    then show ?thesis unfolding gc_put_def l [symmetric] by (simp add: GC_DENTRY_SIZE_def DENTRY_FIRST_BLOCK_def BAT_LAST_ALLOCATED_def)
  qed
  show ?thesis
    unfolding sigil_gamecube_inject_def v prod.case option.case gc_copy_def [symmetric] gc_copy_identity Let_def
      gc_copy_free [OF ok] f
    using put by (simp split: option.split)
qed

lemma gc_put_agree:
  assumes ok: "gc_view_ok v" and ch: "distinct ch" "\<forall>b \<in> set ch. 5 \<le> b \<and> b < cv_total_blocks v"
  shows "gc_agree img v (gc_put img v ch s gci) (gc_view (cv_total_blocks v) 1 3) (set ch) s"
proof -
  let ?n = "cv_total_blocks v" let ?bat = "gc_copy img (cv_bat_block v)"
  have n: "?n \<le> 2048" using ok by (simp add: gc_view_ok_def)
  have chr: "\<forall>b \<in> set ch. 5 \<le> b \<and> b < 2048" using ch(2) n by auto
  have link: "gc_bat_link (gc_put img v ch s gci) (3 * 8192) b = gc_bat_link img (cv_bat_block v * 8192) b"
    if b: "5 \<le> b" "b < ?n" "b \<notin> set ch" for b
  proof -
    have b2: "b < 2048" using b n by simp
    have "gc_bat_link (gc_put img v ch s gci) (3 * 8192) b =
        gc_bat_link (sigil_write_be16 (gc_put_links ?bat ch) 8 (of_nat (last ch))) 0 b"
      unfolding gc_put_def by (rule gc_commit_link [OF b(1) b2])
    also have "\<dots> = gc_bat_link (gc_put_links ?bat ch) 0 b" by (rule gc_link_cong) (simp_all add: write_be16_apply)
    also have "\<dots> = gc_bat_link ?bat 0 b" by (rule gc_put_links(2) [OF ch(1) chr b(1,3)])
    finally show ?thesis using gc_copy_link [OF b(1) b2] by simp
  qed
  have data: "gc_put img v ch s gci (b * 8192 + k) = img (b * 8192 + k)" if b: "5 \<le> b" "b \<notin> set ch" "k < 8192" for b k
  proof -
    have "b * 8192 + k < c * 8192 \<or> c * 8192 + 8192 \<le> b * 8192 + k" if "c \<in> set ch" for c
    proof -
      have "c \<noteq> b" using that b by blast
      then show ?thesis using b(3) by linarith
    qed
    then show ?thesis unfolding gc_put_def by (simp add: gc_commit_data b(1) gc_put_data(2) [OF ch(1)])
  qed
  have entry: "gc_put img v ch s gci (gc_offset (gc_view ?n 1 3) i + k) = img (gc_offset v i + k)"
    if i: "i < 127" "i \<noteq> s" "k < 64" for i k
  proof -
    have "i * 64 + k < s * 64 \<or> s * 64 + 64 \<le> i * 64 + k" using i by linarith
    then have out: "\<not> (s * 64 \<le> i * 64 + k \<and> i * 64 + k < s * 64 + 64)"
      and w0: "i * 64 + k \<noteq> s * 64 + 0x36" and w1: "i * 64 + k \<noteq> s * 64 + 0x36 + 1" by linarith+
    have "gc_put img v ch s gci (gc_offset (gc_view ?n 1 3) i + k) = gc_copy img (cv_dir_block v) (i * 64 + k)"
      unfolding gc_put_def gc_commit_entry [OF i(1,3)] write_be16_apply memcpy_apply GC_DENTRY_SIZE_def
      by (simp only: w0 w1 out if_False)
    then show "gc_put img v ch s gci (gc_offset (gc_view ?n 1 3) i + k) = img (gc_offset v i + k)"
      by (simp only: gc_copy_entry [OF i(1,3)])
  qed
  show ?thesis using link data entry by (simp add: gc_agree_def)
qed

lemma gc_put_new:
  assumes ok: "gc_view_ok v" and ch: "distinct ch" "\<forall>b \<in> set ch. 5 \<le> b \<and> b < cv_total_blocks v" "ch \<noteq> []" and s: "s < 127"
  shows "i < length ch \<Longrightarrow> gc_bat_link (gc_put img v ch s gci) (3 * 8192) (ch ! i) = gc_link_of ch i"
    and "i < length ch \<Longrightarrow> gc_data (gc_put img v ch s gci, w) (ch ! i) = bytes_at gci (64 + i * 8192) 8192"
    and "k < 64 \<Longrightarrow> gc_put img v ch s gci (gc_offset (gc_view n 1 3) s + k) = sigil_write_be16 gci 0x36 (of_nat (hd ch)) k"
proof -
  have chr: "\<forall>b \<in> set ch. 5 \<le> b \<and> b < 2048" using ch(2) ok by (auto simp: gc_view_ok_def)
  { assume i: "i < length ch"
    then have b: "5 \<le> ch ! i" "ch ! i < 2048" using chr by simp_all
    have "gc_bat_link (gc_put img v ch s gci) (3 * 8192) (ch ! i) =
        gc_bat_link (sigil_write_be16 (gc_put_links (gc_copy img (cv_bat_block v)) ch) 8 (of_nat (last ch))) 0 (ch ! i)"
      unfolding gc_put_def by (rule gc_commit_link [OF b])
    also have "\<dots> = gc_bat_link (gc_put_links (gc_copy img (cv_bat_block v)) ch) 0 (ch ! i)"
      by (rule gc_link_cong) (simp_all add: write_be16_apply)
    finally show "gc_bat_link (gc_put img v ch s gci) (3 * 8192) (ch ! i) = gc_link_of ch i"
      using gc_put_links(1) [OF ch(1) chr b(1) i refl] by simp
    show "gc_data (gc_put img v ch s gci, w) (ch ! i) = bytes_at gci (64 + i * 8192) 8192"
      unfolding gc_data_def fst_conv
      by (intro bytes_at_cong) (simp add: gc_put_def gc_commit_data b(1) gc_put_data(1) [OF ch(1) i]) }
  show "gc_put img v ch s gci (gc_offset (gc_view n 1 3) s + k) = sigil_write_be16 gci 0x36 (of_nat (hd ch)) k" if k: "k < 64"
    unfolding gc_put_def gc_commit_entry [OF s k] using k ch(3) by (simp add: write_be16_apply memcpy_apply hd_conv_nth)
qed

end
