(* ===== verification/CardGamecubeSpec.thy ===== *)
theory CardGamecubeSpec
  imports CardGamecubeProofs
begin

text \<open>
  What the operations of the GameCube card do to it: adding, deleting, verifying, formatting and
  repairing, each as an effect on the listed saves, and what every card built by them keeps.
\<close>

section \<open>Adding a save\<close>

lemma gc_put_entry:
  assumes ok: "gc_view_ok v" and ch: "distinct ch" "\<forall>b \<in> set ch. 5 \<le> b \<and> b < cv_total_blocks v" "ch \<noteq> []"
    and s: "s < 127" and lv: "gc_dentry_live gci 0"
  defines "v' \<equiv> gc_view (cv_total_blocks v) 1 3"
  shows "gc_dentry_live (gc_put img v ch s gci) (gc_offset v' s)"
    and "gc_first (gc_put img v ch s gci) v' s = hd ch"
    and "gc_count (gc_put img v ch s gci) v' s = unat (sigil_read_be16 gci 0x38)"
    and "gc_meta (gc_put img v ch s gci, v') s = bytes_at (sigil_write_be16 gci 0x36 0) 0 64"
    and "gc_name (gc_put img v ch s gci) (gc_offset v' s) = gc_name gci 0"
    and "bytes_at (gc_put img v ch s gci) (gc_offset v' s) 6 = bytes_at gci 0 6"
    and "gc_owner (gc_put img v ch s gci) (gc_offset v' s) = gc_owner gci 0"
proof -
  let ?img = "gc_put img v ch s gci"
  have e: "?img (gc_offset v' s + k) = sigil_write_be16 gci 0x36 (of_nat (hd ch)) k" if "k < 64" for k
    unfolding v'_def by (rule gc_put_new(3) [OF ok ch s that])
  have rd: "sigil_read_be16 ?img (gc_offset v' s + x) = sigil_read_be16 (sigil_write_be16 gci 0x36 (of_nat (hd ch))) x"
    if "x < 63" for x
    using e [of x] e [of "x + 1"] that by (intro read_be16_cong) (simp_all add: add.assoc)
  show "gc_dentry_live ?img (gc_offset v' s)"
    using e [of 0] lv by (simp add: gc_dentry_live_def DENTRY_GAMECODE_def write_be16_apply)
  have "hd ch < 65536" using ch(2,3) ok hd_in_set [OF ch(3)] by (fastforce simp: gc_view_ok_def)
  then show "gc_first ?img v' s = hd ch" by (simp add: gc_first_def rd unat_of_nat16)
  have "sigil_read_be16 (sigil_write_be16 gci 0x36 (of_nat (hd ch))) 0x38 = sigil_read_be16 gci 0x38"
    by (intro read_be16_cong) (simp_all add: write_be16_apply)
  then show "gc_count ?img v' s = unat (sigil_read_be16 gci 0x38)" by (simp add: gc_count_def rd)
  show "gc_meta (?img, v') s = bytes_at (sigil_write_be16 gci 0x36 0) 0 64"
    using e by (auto simp: gc_meta_def Let_def gc_offset_def write_be16_apply intro!: bytes_at_cong)
  show "gc_name ?img (gc_offset v' s) = gc_name gci 0"
    unfolding gc_name_def using e by (intro arg_cong [where f = cstr] bytes_at_cong) (simp add: add.assoc write_be16_apply)
  have "bytes_at ?img (gc_offset v' s) n = bytes_at gci 0 n" if "n \<le> 6" for n
    using e that by (intro bytes_at_cong) (simp add: write_be16_apply)
  then show "bytes_at ?img (gc_offset v' s) 6 = bytes_at gci 0 6" "gc_owner ?img (gc_offset v' s) = gc_owner gci 0"
    by (simp_all add: gc_owner_def)
qed

lemma gc_put_inserted:
  assumes ok: "gc_view_ok v" and ch: "distinct ch" "\<forall>b \<in> set ch. 5 \<le> b \<and> b < cv_total_blocks v" "ch \<noteq> []"
    and free: "\<forall>b \<in> set ch. gc_bat_link img (cv_bat_block v * 8192) b = BAT_FREE"
    and s: "s < 127" "\<not> gc_dentry_live img (gc_offset v s)"
    and gci: "gc_dentry_live gci 0" "unat (sigil_read_be16 gci 0x38) = length ch"
  shows "gc.inserted (img, v) (gc_put img v ch s gci, gc_view (cv_total_blocks v) 1 3) s ch"
proof -
  let ?img = "gc_put img v ch s gci" let ?v = "gc_view (cv_total_blocks v) 1 3"
  have ag: "gc_agree img v ?img ?v (set ch) s" by (rule gc_put_agree [OF ok ch(1,2)])
  note new = gc_put_entry [OF ok ch s(1) gci(1), where img = img]
  show ?thesis
    unfolding gc.inserted_def
  proof (intro conjI ballI allI impI)
    show "gc_start (img, v) b" if "b \<in> set ch" for b using ch(2) that by (simp add: gc_start_def)
    show "gc_step (img, v) b = Bad" if "b \<in> set ch" for b
      using free that by (simp add: gc_step_def Let_def BAT_FREE_def BAT_CHAIN_END_def)
    show "gc_start (?img, ?v) b = gc_start (img, v) b" for b by (rule gc_agree_start [OF ag])
    fix b assume b: "b \<notin> set ch" "gc_start (img, v) b"
    show "gc_step (?img, ?v) b = gc_step (img, v) b" "gc_data (?img, ?v) b = gc_data (img, v) b"
      by (rule gc_agree_block [OF ag b(2,1)])+
  next
    fix i assume i: "i < length ch"
    have nx: "5 \<le> ch ! Suc i \<and> ch ! Suc i < cv_total_blocks v" if "Suc i < length ch" using ch(2) that by simp
    have "gc_bat_link ?img (cv_bat_block ?v * 8192) (ch ! i) = gc_link_of ch i"
      using gc_put_new(1) [OF ok ch s(1) i] by simp
    then show "gc_step (?img, ?v) (ch ! i) = (if Suc i = length ch then End else Next (ch ! Suc i))"
      using nx i ok by (cases "Suc i < length ch") (auto simp: gc_step_def Let_def gc_link_of_def BAT_CHAIN_END_def gc_view_ok_def)
  next
    show "gc_dir (img, v) s = None" using s(2) by (simp add: gc_dir_eq)
    show "gc_dir (?img, ?v) s = Some (hd ch, length ch)" using new(1-3) gci(2) s(1) by (simp add: gc_dir_eq)
  next
    fix t assume t: "t \<noteq> s"
    show "gc_dir (?img, ?v) t = gc_dir (img, v) t" by (rule gc_agree_dir(1) [OF ag t])
    show "gc_meta (?img, ?v) t = gc_meta (img, v) t" if "gc_dir (img, v) t \<noteq> None"
      by (rule gc_agree_dir(2) [OF ag t that])
  qed (use ch in simp_all)
qed

lemma gc_gci_blocks:
  assumes "gc_gci_blocks gci len = n" and "n \<noteq> 0"
  shows "gc_dentry_live gci 0" "unat (sigil_read_be16 gci 0x38) = n" "len = 64 + n * 8192"
proof -
  show "gc_dentry_live gci 0" "unat (sigil_read_be16 gci 0x38) = n"
    using assms by (auto simp: gc_gci_blocks_def Let_def DENTRY_BLOCK_COUNT_def split: if_splits)
  show "len = 64 + n * 8192"
    using assms by (auto simp: gc_gci_blocks_def Let_def gc_consts sigil_gamecube_gci_size_def split: if_splits)
qed

lemma find_upt: "find P [0..<n] = Some i \<longleftrightarrow> i < n \<and> P i \<and> (\<forall>j < i. \<not> P j)"
  by (auto simp: find_Some_iff)

lemma gc_inject_ok:
  assumes v: "gc_open_view img siz = (rc, Some v)" and ok: "sigil_gamecube_inject img siz gci len = (SIGIL_OK, img')"
  obtains s ch where "s < 127" "\<not> gc_dentry_live img (gc_offset v s)" "length ch = gc_gci_blocks gci len" "ch \<noteq> []"
    "distinct ch" "\<forall>b \<in> set ch. 5 \<le> b \<and> b < cv_total_blocks v" "gc_find_identity img (gc_block_at (cv_dir_block v)) gci 0 = None"
    "gc_dentry_live gci 0" "img' = gc_put img v ch s gci"
    "gc.inserted (img, v) (img', gc_view (cv_total_blocks v) 1 3) s ch"
    "gc_open_view img' siz = (SIGIL_OK, Some (gc_view (cv_total_blocks v) 1 3))"
proof -
  let ?n = "gc_gci_blocks gci len" let ?ch = "take ?n (gc_free_list img v)"
  note vok = gc_open_view_ok [OF v]
  from ok have n: "?n \<noteq> 0" and id: "gc_find_identity img (gc_block_at (cv_dir_block v)) gci 0 = None"
    unfolding gc_inject_eq [OF v] Let_def by (auto split: if_splits)
  from ok n id obtain s where f: "find (\<lambda>i. \<not> gc_dentry_live img (gc_offset v i)) [0..<127] = Some s"
    and len: "\<not> length (gc_free_list img v) < ?n" and i: "img' = gc_put img v ?ch s gci"
    unfolding gc_inject_eq [OF v] Let_def by (auto split: if_splits option.splits)
  from f have s: "s < 127" "\<not> gc_dentry_live img (gc_offset v s)" by (auto simp: find_upt simp del: upt_rec_numeral)
  have cl: "length ?ch = ?n" using len by simp
  then have ne: "?ch \<noteq> []" using n by (metis length_0_conv)
  have ch: "distinct ?ch" "\<forall>b \<in> set ?ch. 5 \<le> b \<and> b < cv_total_blocks v"
    "\<forall>b \<in> set ?ch. gc_bat_link img (cv_bat_block v * 8192) b = BAT_FREE"
    by (auto simp: gc_free_list_def distinct_take dest!: in_set_takeD)
  note g = gc_gci_blocks [OF refl n]
  have "gc_put_data img ?ch gci j = img j" if "j < 8192" for j
  proof (rule gc_put_data(2) [OF ch(1)], rule ballI)
    fix b assume "b \<in> set ?ch"
    with ch(2) have "5 * 8192 \<le> b * 8192" by (intro mult_right_mono) auto
    then show "j < b * 8192 \<or> b * 8192 + 8192 \<le> j" using that by linarith
  qed
  from gc_commit_open [OF v [unfolded vok(2)] this] have op: "gc_open_view img' siz = (SIGIL_OK, Some (gc_view (cv_total_blocks v) 1 3))"
    unfolding i gc_put_def .
  have "gc.inserted (img, v) (img', gc_view (cv_total_blocks v) 1 3) s ?ch"
    unfolding i by (rule gc_put_inserted [OF vok(1) ch(1,2) ne ch(3) s g(1)]) (use g(2) cl in simp)
  from that [OF s cl ne ch(1,2) id g(1) i this op] show thesis .
qed

text \<open>The save in an entry: its directory bytes but for the first block, and its blocks in chain order.\<close>

definition gc_file :: "mem \<Rightarrow> card_view \<Rightarrow> nat \<Rightarrow> (bytes \<times> bytes list) option" where
  "gc_file img v i = gc.save (img, v) i"

definition gc_clean :: "mem \<Rightarrow> card_view \<Rightarrow> bool" where
  "gc_clean img v \<longleftrightarrow> (\<forall>i < 127. gc_dentry_live img (gc_offset v i) \<longrightarrow> gc_live img v i)"

lemma gc_clean_iff: "gc_clean img v \<longleftrightarrow> gc.clean (img, v)"
proof -
  have "gc_dir (img, v) s \<noteq> None \<longleftrightarrow> s < 127 \<and> gc_dentry_live img (gc_offset v s)" for s by (simp add: gc_dir_eq)
  then show ?thesis unfolding gc_clean_def gc.clean_def gc_live_ex by blast
qed

lemma gc_file_whole:
  "gc.whole (img, v) i bs \<Longrightarrow> gc_file img v i = Some (gc_meta (img, v) i, map (gc_data (img, v)) bs)"
  by (auto simp: gc_file_def gc.save_def gc.whole_def)

text \<open>C6 (functional): a successful \<^verbatim>\<open>sigil_gamecube_inject\<close> fills one empty directory entry with the save
  of the \<^verbatim>\<open>.gci\<close>: its directory bytes but for the first block, and its blocks. The card opens again, on
  the first copies of the directory and the block table; every listed save stays listed with the
  same entry and contents, and on a card whose saves are all listed they still are, the new one added.\<close>

theorem gc_inject_effect:
  assumes v: "gc_open_view img siz = (SIGIL_OK, Some v)" and ok: "sigil_gamecube_inject img siz gci len = (SIGIL_OK, img')"
  shows "\<exists>v'. gc_open_view img' siz = (SIGIL_OK, Some v') \<and> cv_total_blocks v' = cv_total_blocks v \<and>
    (\<exists>s < 127. \<not> gc_dentry_live img (gc_offset v s) \<and>
       gc_file img' v' s = Some (bytes_at (sigil_write_be16 gci 0x36 0) 0 64,
          map (\<lambda>i. bytes_at gci (64 + i * 8192) 8192) [0..<gc_gci_blocks gci len]) \<and>
       ce_name (gc_entry img' v' s) = gc_name gci 0 \<and> ce_owner_id (gc_entry img' v' s) = gc_owner gci 0 \<and>
       ce_blocks (gc_entry img' v' s) = gc_gci_blocks gci len \<and>
       (\<forall>t. gc_live img v t \<longrightarrow>
          t \<noteq> s \<and> gc_live img' v' t \<and> gc_entry img' v' t = gc_entry img v t \<and> gc_file img' v' t = gc_file img v t) \<and>
       (gc_clean img v \<longrightarrow> gc_clean img' v' \<and> (\<forall>t. gc_live img' v' t \<longleftrightarrow> gc_live img v t \<or> t = s)))"
proof -
  let ?v = "gc_view (cv_total_blocks v) 1 3" let ?n = "gc_gci_blocks gci len"
  obtain s ch where s: "s < 127" "\<not> gc_dentry_live img (gc_offset v s)"
    and ch: "length ch = ?n" "ch \<noteq> []" "distinct ch" "\<forall>b \<in> set ch. 5 \<le> b \<and> b < cv_total_blocks v"
    and lv: "gc_dentry_live gci 0" and i: "img' = gc_put img v ch s gci" and ins: "gc.inserted (img, v) (img', ?v) s ch"
    and op: "gc_open_view img' siz = (SIGIL_OK, Some ?v)" by (rule gc_inject_ok [OF v ok])
  note vok = gc_open_view_ok(1) [OF v]
  have ag: "gc_agree img v img' ?v (set ch) s" unfolding i by (rule gc_put_agree [OF vok ch(3,4)])
  note new = gc_put_entry [OF vok ch(3,4,2) s(1) lv, where img = img, folded i]
  note w = gc.inserted_new [OF ins]
  have cnt: "gc_count img' ?v s = ?n" using w ch(1) by (simp add: gc_whole_iff)
  have "map (gc_data (img', ?v)) ch = map (\<lambda>i. bytes_at gci (64 + i * 8192) 8192) [0..<?n]"
    unfolding ch(1) [symmetric] i using gc_put_new(2) [OF vok ch(3,4,2) s(1)] by (intro nth_equalityI) simp_all
  with gc_file_whole [OF w] new(4) have fl: "gc_file img' ?v s = Some (bytes_at (sigil_write_be16 gci 0x36 0) 0 64,
          map (\<lambda>i. bytes_at gci (64 + i * 8192) 8192) [0..<?n])" by simp
  have keep: "t \<noteq> s \<and> gc_live img' ?v t \<and> gc_entry img' ?v t = gc_entry img v t \<and> gc_file img' ?v t = gc_file img v t"
    if t: "gc_live img v t" for t
  proof -
    from t obtain bs where l: "gc.live (img, v) t bs" by (auto simp: gc_live_ex)
    note c = gc.whole_chained [OF gc.live_whole [OF l]]
    note k = gc.inserted_keeps [OF ins c]
    have "gc.live (img', ?v) t bs" using gc.inserted_live_old [OF ins c] l by blast
    then have "gc_live img' ?v t" by (auto simp: gc_live_ex)
    moreover have "t < 127" using gc_live_entry [OF t] by blast
    from gc_agree_entry(7) [OF ag this k(3)] have "gc_entry img' ?v t = gc_entry img v t" .
    ultimately show ?thesis using k(3,5) by (simp add: gc_file_def)
  qed
  have cl: "gc_clean img' ?v \<and> (\<forall>t. gc_live img' ?v t \<longleftrightarrow> gc_live img v t \<or> t = s)" if "gc_clean img v"
    using gc.inserted_clean [OF ins] that unfolding gc_clean_iff gc_live_ex by blast
  show ?thesis
    by (rule exI [of _ ?v], intro conjI exI [of _ s] allI impI op s fl)
      (use keep cl cnt new(5,7) in \<open>simp_all add: gc_entry_def\<close>)
qed

section \<open>Outcome of adding a save\<close>

lemma gc_find_identity_ex:
  "gc_find_identity img (gc_block_at (cv_dir_block v)) gci 0 \<noteq> None \<longleftrightarrow>
     (\<exists>i < 127. gc_dentry_live img (gc_offset v i) \<and> bytes_at img (gc_offset v i) 6 = bytes_at gci 0 6 \<and>
        gc_name img (gc_offset v i) = gc_name gci 0)"
  by (auto simp: gc_find_identity_def Let_def gc_dentry_eq find_None_iff strn_eq_def gc_name_def bytes_at_eq_iff
      GC_DIR_ENTRIES_def DENTRY_MAKERCODE_END_def DENTRY_FILENAME_def GC_FILENAME_LEN_def simp del: upt_rec_numeral)

text \<open>C26 (error): the result of \<^verbatim>\<open>sigil_gamecube_inject\<close> on every branch, in the order the code decides:
  a card that does not open, a malformed \<^verbatim>\<open>.gci\<close>, a save of the same game, maker and file name, no
  empty entry or too few free blocks. Nothing is written on a failure.\<close>

theorem gc_inject_outcome:
  "fst (sigil_gamecube_inject img siz gci len) =
     (case gc_open_view img siz of
        (rc, None) \<Rightarrow> rc
      | (_, Some v) \<Rightarrow>
          if gc_gci_blocks gci len = 0 then SIGIL_ERR_UNSUPPORTED_FORMAT
          else if \<exists>i < 127. gc_dentry_live img (gc_offset v i) \<and> bytes_at img (gc_offset v i) 6 = bytes_at gci 0 6 \<and>
                    gc_name img (gc_offset v i) = gc_name gci 0
          then SIGIL_ERR_EXISTS
          else if (\<exists>i < 127. \<not> gc_dentry_live img (gc_offset v i)) \<and>
                  gc_gci_blocks gci len \<le> gc_free_block_count img (gc_block_at (cv_bat_block v)) (cv_total_blocks v)
          then SIGIL_OK else SIGIL_ERR_NO_SPACE) \<and>
   (fst (sigil_gamecube_inject img siz gci len) = SIGIL_OK \<or> snd (sigil_gamecube_inject img siz gci len) = img)"
proof (cases "gc_open_view img siz")
  case (Pair rc vo)
  show ?thesis
  proof (cases vo)
    case None
    with Pair show ?thesis by (simp add: sigil_gamecube_inject_def)
  next
    case (Some v)
    with Pair have v: "gc_open_view img siz = (rc, Some v)" by simp
    have fr: "gc_free_block_count img (gc_block_at (cv_bat_block v)) (cv_total_blocks v) = length (gc_free_list img v)"
      by (simp add: gc_free_block_count_def gc_free_list_def gc_block_at_def GC_BLOCK_SIZE_def GC_SYSTEM_BLOCKS_def)
    show ?thesis
    proof (cases "find (\<lambda>i. \<not> gc_dentry_live img (gc_offset v i)) [0..<127]")
      case None
      then have "\<not> (\<exists>i < 127. \<not> gc_dentry_live img (gc_offset v i))"
        by (simp add: find_None_iff del: upt_rec_numeral)
      with None show ?thesis
        unfolding gc_inject_eq [OF v] v prod.case option.case gc_find_identity_ex Let_def by (auto simp del: upt_rec_numeral)
    next
      case (Some s)
      then have "\<exists>i < 127. \<not> gc_dentry_live img (gc_offset v i)" by (auto simp: find_upt simp del: upt_rec_numeral)
      with Some show ?thesis
        unfolding gc_inject_eq [OF v] v prod.case option.case gc_find_identity_ex Let_def fr
        by (auto simp: not_less simp del: upt_rec_numeral)
    qed
  qed
qed

section \<open>Deleting a save\<close>

definition gc_cleared :: "mem \<Rightarrow> card_view \<Rightarrow> nat list \<Rightarrow> nat \<Rightarrow> mem" where
  "gc_cleared img v bs s =
     gc_commit (fold (\<lambda>b img. memset img (gc_block_at b) 0xFF GC_BLOCK_SIZE) bs img) v
       (memset (gc_copy img (cv_dir_block v)) (s * 64) DENTRY_EMPTY 64)
       (fold (\<lambda>b bat. gc_set_bat_link bat 0 b BAT_FREE) bs (gc_copy img (cv_bat_block v)))"

lemma gc_erase_out:
  "\<forall>b \<in> set bs. j < b * 8192 \<or> b * 8192 + 8192 \<le> j \<Longrightarrow>
     fold (\<lambda>b img. memset img (gc_block_at b) 0xFF GC_BLOCK_SIZE) bs img j = img j"
  by (induction bs arbitrary: img) (auto simp: memset_apply gc_block_at_def GC_BLOCK_SIZE_def)

lemma gc_free_links:
  assumes "\<forall>b \<in> set bs. 5 \<le> b" and "5 \<le> c"
  shows "gc_bat_link (fold (\<lambda>b bat. gc_set_bat_link bat 0 b BAT_FREE) bs bat) 0 c =
     (if c \<in> set bs then BAT_FREE else gc_bat_link bat 0 c)"
  using assms by (induction bs arbitrary: bat) (auto simp: gc_set_link_get BAT_FREE_def)

lemma gc_cleared_link:
  assumes ok: "gc_view_ok v" and bs: "\<forall>b \<in> set bs. 5 \<le> b \<and> b < cv_total_blocks v" and c: "5 \<le> c" "c < cv_total_blocks v"
  shows "gc_bat_link (gc_cleared img v bs s) (3 * 8192) c =
     (if c \<in> set bs then BAT_FREE else gc_bat_link img (cv_bat_block v * 8192) c)"
proof -
  have c2: "c < 2048" using ok c by (simp add: gc_view_ok_def)
  have "\<forall>b \<in> set bs. 5 \<le> b" using bs by blast
  from gc_free_links [OF this c(1)] show ?thesis
    unfolding gc_cleared_def gc_commit_link [OF c(1) c2] using gc_copy_link [OF c(1) c2] by simp
qed

lemma gc_cleared_agree:
  assumes ok: "gc_view_ok v" and bs: "\<forall>b \<in> set bs. 5 \<le> b \<and> b < cv_total_blocks v"
  shows "gc_agree img v (gc_cleared img v bs s) (gc_view (cv_total_blocks v) 1 3) (set bs) s"
proof -
  have data: "gc_cleared img v bs s (b * 8192 + k) = img (b * 8192 + k)" if b: "5 \<le> b" "b \<notin> set bs" "k < 8192" for b k
  proof -
    have "b * 8192 + k < c * 8192 \<or> c * 8192 + 8192 \<le> b * 8192 + k" if "c \<in> set bs" for c
    proof -
      have "c \<noteq> b" using that b by blast
      then show ?thesis using b(3) by linarith
    qed
    then show ?thesis unfolding gc_cleared_def by (simp add: gc_commit_data b(1) gc_erase_out)
  qed
  have entry: "gc_cleared img v bs s (gc_offset (gc_view (cv_total_blocks v) 1 3) i + k) = img (gc_offset v i + k)"
    if i: "i < 127" "i \<noteq> s" "k < 64" for i k
  proof -
    have "\<not> (s * 64 \<le> i * 64 + k \<and> i * 64 + k < s * 64 + 64)" using i by linarith
    then show ?thesis
      unfolding gc_cleared_def gc_commit_entry [OF i(1,3)] memset_apply
      using gc_copy_entry [OF i(1,3), of img v] by auto
  qed
  show ?thesis using data entry gc_cleared_link [OF ok bs] by (simp add: gc_agree_def)
qed

lemma gc_chain_user:
  assumes "gc.chained (img, v) s bs"
  shows "\<forall>b \<in> set bs. 5 \<le> b \<and> b < cv_total_blocks v"
proof -
  from assms obtain f where f: "gc_start (img, v) f" "linked (gc_step (img, v)) bs" "hd bs = f" by (elim gc.chainedE)
  show ?thesis using gc.chain_start [OF f] by (simp add: gc_start_def)
qed

lemma gc_cleared_entry:
  "s < 127 \<Longrightarrow> \<not> gc_dentry_live (gc_cleared img v bs s) (gc_offset (gc_view n 1 3) s)"
  using gc_commit_entry [of s 0] by (simp add: gc_dentry_live_def DENTRY_GAMECODE_def gc_cleared_def memset_apply)

lemma gc_cleared_removed:
  assumes ok: "gc_view_ok v" and w: "gc.whole (img, v) s bs"
  shows "gc.removed (img, v) (gc_cleared img v bs s, gc_view (cv_total_blocks v) 1 3) s bs"
proof -
  let ?img = "gc_cleared img v bs s" let ?v = "gc_view (cv_total_blocks v) 1 3"
  have s: "s < 127" using w by (simp add: gc_whole_iff)
  note user = gc_chain_user [OF gc.whole_chained [OF w]]
  note ag = gc_cleared_agree [OF ok user, of img s]
  show ?thesis
    unfolding gc.removed_def
  proof (intro conjI allI impI ballI)
    show "gc_start (?img, ?v) b = gc_start (img, v) b" for b by (rule gc_agree_start [OF ag])
    fix b assume b: "b \<notin> set bs" "gc_start (img, v) b"
    show "gc_step (?img, ?v) b = gc_step (img, v) b" "gc_data (?img, ?v) b = gc_data (img, v) b"
      by (rule gc_agree_block [OF ag b(2,1)])+
  next
    fix b assume b: "b \<in> set bs"
    then have "5 \<le> b" "b < cv_total_blocks v" using user by simp_all
    from gc_cleared_link [OF ok user this, of img s] b show "gc_step (?img, ?v) b = Bad"
      by (simp add: gc_step_def Let_def BAT_FREE_def BAT_CHAIN_END_def)
  next
    show "gc_dir (?img, ?v) s = None" using gc_cleared_entry [OF s] by (simp add: gc_dir_eq)
    fix t assume t: "t \<noteq> s"
    show "gc_dir (?img, ?v) t = gc_dir (img, v) t" by (rule gc_agree_dir(1) [OF ag t])
    show "gc_meta (?img, ?v) t = gc_meta (img, v) t" if "gc_dir (img, v) t \<noteq> None"
      by (rule gc_agree_dir(2) [OF ag t that])
  qed (rule w)
qed

text \<open>The entry \<open>delete\<close> and \<open>extract\<close> find: the first that names the block and has the length of
  the chain there.\<close>

lemma gc_find_entry:
  "gc_find_entry_at img (gc_block_at (cv_dir_block v)) img (gc_block_at (cv_bat_block v)) (cv_total_blocks v) f n =
     find (\<lambda>i. gc_dentry_live img (gc_offset v i) \<and> gc_first img v i = f \<and> (n = 0 \<or> gc_count img v i = n) \<and>
             length (gc_walk (img, v) f) = gc_count img v i) [0..<127]"
  unfolding gc_find_entry_at_def Let_def gc_dentry_eq gc_walk_eq GC_DIR_ENTRIES_def DENTRY_FIRST_BLOCK_def
    DENTRY_BLOCK_COUNT_def gc_first_def gc_count_def ..

lemma gc_copy_chain:
  assumes "gc_view_ok v"
  shows "gc_walk_chain (gc_copy img (cv_bat_block v)) 0 (cv_total_blocks v) f = gc_walk (img, v) f"
proof -
  let ?c = "(gc_copy img (cv_bat_block v), v\<lparr>cv_bat_block := 0\<rparr>)"
  have "gc_walk ?c f = gc_walk (img, v) f"
  proof (rule gc.walk_same)
    show "gc_start ?c b = gc_start (img, v) b" for b by (simp add: gc_start_def)
    show "gc_step ?c b = gc_step (img, v) b" if "gc_start (img, v) b" for b
    proof -
      have "gc_bat_link (gc_copy img (cv_bat_block v)) 0 b = gc_bat_link img (cv_bat_block v * 8192) b"
        using that assms by (intro gc_copy_link) (simp_all add: gc_view_ok_def gc_start_def)
      then show ?thesis by (simp add: gc_step_def Let_def)
    qed
  qed
  then show ?thesis by (simp add: gc_walk_def)
qed


lemma gc_copy_entry_fields:
  fixes v :: card_view
  assumes "i < 127"
  shows "unat (sigil_read_be16 (gc_copy img (cv_dir_block v)) (gc_dentry_at 0 i + DENTRY_FIRST_BLOCK)) = gc_first img v i"
    and "unat (sigil_read_be16 (gc_copy img (cv_dir_block v)) (gc_dentry_at 0 i + DENTRY_BLOCK_COUNT)) = gc_count img v i"
proof -
  have "sigil_read_be16 (gc_copy img (cv_dir_block v)) (gc_dentry_at 0 i + x) = sigil_read_be16 img (gc_offset v i + x)"
    if "x < 63" for x
    using gc_copy_entry [OF assms, of x img v] gc_copy_entry [OF assms, of "x + 1" img v] that
    by (intro read_be16_cong) (simp_all add: gc_dentry_at_def GC_DENTRY_SIZE_def add.assoc)
  then show "unat (sigil_read_be16 (gc_copy img (cv_dir_block v)) (gc_dentry_at 0 i + DENTRY_FIRST_BLOCK)) = gc_first img v i"
    "unat (sigil_read_be16 (gc_copy img (cv_dir_block v)) (gc_dentry_at 0 i + DENTRY_BLOCK_COUNT)) = gc_count img v i"
    by (simp_all add: gc_first_def gc_count_def DENTRY_FIRST_BLOCK_def DENTRY_BLOCK_COUNT_def)
qed

lemma gc_delete_eq:
  assumes v: "gc_open_view img siz = (rc, Some v)"
  shows "sigil_gamecube_delete img siz f =
     (case find (\<lambda>i. gc_dentry_live img (gc_offset v i) \<and> gc_first img v i = f \<and>
                   length (gc_walk (img, v) f) = gc_count img v i) [0..<127] of
        None \<Rightarrow> (SIGIL_ERR_INVALID_ARG, img)
      | Some s \<Rightarrow> (SIGIL_OK, gc_cleared img v (gc_walk (img, v) f) s))"
proof -
  note ok = gc_open_view_ok(1) [OF v]
  let ?bat = "gc_copy img (cv_bat_block v)" let ?dir = "gc_copy img (cv_dir_block v)"
  have "gc_find_entry_at ?dir 0 ?bat 0 (cv_total_blocks v) f 0 =
     find (\<lambda>i. gc_dentry_live img (gc_offset v i) \<and> gc_first img v i = f \<and>
             length (gc_walk (img, v) f) = gc_count img v i) [0..<127]"
    unfolding gc_find_entry_at_def GC_DIR_ENTRIES_def Let_def
    by (rule find_cong [OF refl]) (auto simp: gc_copy_live gc_copy_entry_fields gc_copy_chain [OF ok])
  moreover have "fold gc_delete_block order (m, b) =
      (fold (\<lambda>b img. memset img (gc_block_at b) 0xFF GC_BLOCK_SIZE) order m,
       fold (\<lambda>b bat. gc_set_bat_link bat 0 b BAT_FREE) order b)" for order m b
    unfolding gc_delete_block_def by (rule fold_pair)
  ultimately show ?thesis
    unfolding sigil_gamecube_delete_def v prod.case option.case gc_copy_def [symmetric] Let_def
    by (simp add: gc_copy_chain [OF ok] gc_cleared_def GC_DENTRY_SIZE_def split: option.split del: upt_rec_numeral)
qed

lemma gc_erase_head:
  assumes "\<forall>b \<in> set bs. 5 \<le> b" and "j < 8192"
  shows "fold (\<lambda>b img. memset img (gc_block_at b) 0xFF GC_BLOCK_SIZE) bs img j = img j"
proof (rule gc_erase_out, rule ballI)
  fix b assume "b \<in> set bs"
  with assms(1) have "5 * 8192 \<le> b * 8192" by (intro mult_right_mono) auto
  then show "j < b * 8192 \<or> b * 8192 + 8192 \<le> j" using assms(2) by linarith
qed

lemma gc_cleared_open:
  assumes v: "gc_open_view img siz = (rc, Some v)" and bs: "\<forall>b \<in> set bs. 5 \<le> b"
  shows "gc_open_view (gc_cleared img v bs s) siz = (SIGIL_OK, Some (gc_view (cv_total_blocks v) 1 3))"
  unfolding gc_cleared_def using gc_erase_head [OF bs]
  by (rule gc_commit_open [OF v [unfolded gc_open_view_ok(2) [OF v]]])

lemma gc_whole_hd: "gc.whole (img, v) s bs \<Longrightarrow> hd bs = gc_first img v s"
  using gc.walk_hd [of "(img, v)" "gc_first img v s"] gc.walk_start [of "(img, v)" "gc_first img v s"]
  by (auto simp: gc_whole_iff)

text \<open>A listed save is the only one that starts at its first block.\<close>

lemma gc_live_unique:
  assumes lv: "gc.live (img, v) s bs" and t: "t < 127" "gc_dentry_live img (gc_offset v t)" "gc_first img v t = gc_first img v s"
  shows "t = s"
proof -
  note w = gc.live_whole [OF lv]
  then have "gc_walk (img, v) (gc_first img v t) = bs" "bs \<noteq> []" using t(3) by (simp_all add: gc_whole_iff)
  then have "gc.chained (img, v) t bs" using t by (simp add: gc_chained_iff)
  moreover have "\<forall>t cs. t \<noteq> s \<longrightarrow> gc.chained (img, v) t cs \<longrightarrow> set cs \<inter> set bs = {}"
    using lv by (simp add: gc.live_def gc.claims_def)
  ultimately have "t \<noteq> s \<Longrightarrow> set bs \<inter> set bs = {}" by blast
  with \<open>bs \<noteq> []\<close> show ?thesis by auto
qed

text \<open>C21 (functional): \<^verbatim>\<open>sigil_gamecube_delete\<close> of a listed save succeeds and removes that save only: the
  card opens again, its entry is empty and its blocks are free, and every other listed save stays
  listed with the same entry and contents.\<close>

theorem gc_delete_effect:
  assumes v: "gc_open_view img siz = (SIGIL_OK, Some v)" and lv: "gc_live img v s"
  shows "\<exists>img' v'. sigil_gamecube_delete img siz (ce_first_block (gc_entry img v s)) = (SIGIL_OK, img') \<and>
     gc_open_view img' siz = (SIGIL_OK, Some v') \<and> cv_total_blocks v' = cv_total_blocks v \<and>
     \<not> gc_dentry_live img' (gc_offset v' s) \<and>
     (\<forall>b \<in> set (gc_walk (img, v) (gc_first img v s)). gc_bat_link img' (gc_block_at (cv_bat_block v')) b = BAT_FREE) \<and>
     (\<forall>t. gc_live img' v' t \<longleftrightarrow> gc_live img v t \<and> t \<noteq> s) \<and>
     (\<forall>t. gc_live img v t \<longrightarrow> t \<noteq> s \<longrightarrow> gc_entry img' v' t = gc_entry img v t \<and> gc_file img' v' t = gc_file img v t)"
proof -
  let ?f = "gc_first img v s" let ?bs = "gc_walk (img, v) ?f" let ?v = "gc_view (cv_total_blocks v) 1 3"
  let ?img = "gc_cleared img v ?bs s"
  note ok = gc_open_view_ok(1) [OF v]
  have live: "gc.live (img, v) s ?bs" using lv by (simp add: gc_live_def)
  note w = gc.live_whole [OF live]
  have s: "s < 127" using w by (simp add: gc_whole_iff)
  note user = gc_chain_user [OF gc.whole_chained [OF w]]
  have "find (\<lambda>i. gc_dentry_live img (gc_offset v i) \<and> gc_first img v i = ?f \<and> length (gc_walk (img, v) ?f) = gc_count img v i)
      [0..<127] = Some s"
    unfolding find_upt
  proof (intro conjI allI impI notI)
    fix t assume t: "t < s" "gc_dentry_live img (gc_offset v t) \<and> gc_first img v t = ?f \<and> length ?bs = gc_count img v t"
    then have "t = s" using gc_live_unique [OF live] s by simp
    with t(1) show False by simp
  qed (use w in \<open>simp_all add: gc_whole_iff\<close>)
  then have del: "sigil_gamecube_delete img siz ?f = (SIGIL_OK, ?img)" unfolding gc_delete_eq [OF v] by simp
  have op: "gc_open_view ?img siz = (SIGIL_OK, Some ?v)" using user by (intro gc_cleared_open [OF v]) blast
  note rem = gc_cleared_removed [OF ok w]
  note ag = gc_cleared_agree [OF ok user, of img s]
  have lives: "gc_live ?img ?v t \<longleftrightarrow> gc_live img v t \<and> t \<noteq> s" for t
    unfolding gc_live_ex using gc.removed_live [OF rem live] by blast
  have keep: "gc_entry ?img ?v t = gc_entry img v t \<and> gc_file ?img ?v t = gc_file img v t"
    if t: "gc_live img v t" "t \<noteq> s" for t
  proof -
    from t obtain cs where ct: "gc.live (img, v) t cs" by (auto simp: gc_live_ex)
    note cc = gc.whole_chained [OF gc.live_whole [OF ct]]
    have "set cs \<inter> set ?bs = {}" using live t(2) cc by (simp add: gc.live_def gc.claims_def)
    from gc.removed_keeps(3) [OF rem cc t(2) this] gc_agree_entry(7) [OF ag _ t(2)] gc_live_entry [OF t(1)]
    show ?thesis by (simp add: gc_file_def)
  qed
  have free: "\<forall>b \<in> set ?bs. gc_bat_link ?img (gc_block_at (cv_bat_block ?v)) b = BAT_FREE"
    using gc_cleared_link [OF ok user] user by (simp add: gc_block_at_def GC_BLOCK_SIZE_def)
  have first: "ce_first_block (gc_entry img v s) = ?f" by (simp add: gc_entry_def)
  show ?thesis
    unfolding first
    by (rule exI [of _ ?img], rule exI [of _ ?v], intro conjI allI impI ballI del op)
      (use keep lives free gc_cleared_entry [OF s] in simp_all)
qed

section \<open>The formatted card\<close>

lemma gc_format_copy_out:
  assumes "j < (1 + c) * 8192 \<or> (1 + c) * 8192 + 8192 \<le> j" and "j < (3 + c) * 8192 \<or> (3 + c) * 8192 + 8192 \<le> j"
  shows "gc_format_copy n c img j = img j"
proof -
  let ?d = "(1 + c) * 8192" and ?b = "(3 + c) * 8192"
  have "gc_format_copy n c img j = gc_seal_dir (sigil_write_be16 img (?d + 0x1FFA) (of_nat c)) ?d j"
    using assms(2) unfolding gc_format_copy_def Let_def gc_seal_bat_def gc_block_at_def gc_consts
    by (subst gc_seal_out) (auto simp: write_be16_apply memset_apply)
  also have "\<dots> = img j"
    using assms(1) unfolding gc_seal_dir_def DIR_CHECKSUM_def
    by (subst gc_seal_out) (auto simp: write_be16_apply)
  finally show ?thesis .
qed

lemma gc_format_copy_parts:
  fixes c n k :: nat and img :: mem
  assumes "c < 2"
  defines "m \<equiv> gc_format_copy n c img"
  shows "gc_dir_valid m ((1 + c) * 8192)" and "gc_bat_valid m ((3 + c) * 8192)"
    and "sigil_read_be16 m ((1 + c) * 8192 + 0x1FFA) = of_nat c" and "sigil_read_be16 m ((3 + c) * 8192 + 4) = of_nat c"
    and "k < 0x1FFA \<Longrightarrow> m ((1 + c) * 8192 + k) = img ((1 + c) * 8192 + k)"
    and "10 \<le> k \<Longrightarrow> k < 8192 \<Longrightarrow> m ((3 + c) * 8192 + k) = 0"
proof -
  let ?d = "(1 + c) * 8192" and ?b = "(3 + c) * 8192"
  define w where "w = sigil_write_be16 img (?d + 0x1FFA) (of_nat c)"
  define dm where "dm = gc_seal w ?d 0x1FFC (?d + 0x1FFC)"
  define bm where "bm = sigil_write_be16 (sigil_write_be16 (sigil_write_be16 (memset dm ?b 0 8192) (?b + 4) (of_nat c))
      (?b + 6) (of_nat (n - 5))) (?b + 8) 4"
  have m: "m = gc_seal bm (?b + 4) 8188 ?b"
    by (simp add: m_def gc_format_copy_def Let_def gc_seal_bat_def gc_seal_dir_def gc_block_at_def gc_consts bm_def dm_def w_def)
  have lo: "m j = dm j" if "j < ?d + 8192" for j
  proof -
    have "j < ?b" using that by simp
    then show ?thesis unfolding m by (subst gc_seal_out) (auto simp: bm_def write_be16_apply memset_apply)
  qed
  have "gc_dir_valid dm ?d" unfolding gc_dir_valid_def dm_def DIR_CHECKSUM_def by (rule gc_seal_matches) simp
  moreover have "same_block m ?d dm ?d" using lo by (simp add: same_block_def)
  ultimately show "gc_dir_valid m ?d" using same_block_valid(1) by blast
  show "gc_bat_valid m ?b"
    unfolding m gc_bat_valid_def BAT_COUNTER_def GC_BLOCK_SIZE_def by (simp, rule gc_seal_matches) simp
  have dmw: "dm (?d + k) = w (?d + k)" if "k < 0x1FFC" for k using that by (simp add: dm_def gc_seal_out)
  have "sigil_read_be16 m (?d + 0x1FFA) = sigil_read_be16 w (?d + 0x1FFA)"
    using dmw [of "0x1FFA"] dmw [of "0x1FFB"] by (intro read_be16_cong) (simp_all add: lo)
  then show "sigil_read_be16 m (?d + 0x1FFA) = of_nat c" by (simp add: w_def)
  have mb: "m (?b + k) = bm (?b + k)" if "4 \<le> k" for k unfolding m using that by (intro gc_seal_out) simp
  have "sigil_read_be16 m (?b + 4) = sigil_read_be16 (sigil_write_be16 dm (?b + 4) (of_nat c)) (?b + 4)"
    using mb [of 4] mb [of 5] by (intro read_be16_cong) (simp_all add: bm_def write_be16_apply)
  then show "sigil_read_be16 m (?b + 4) = of_nat c" by simp
  show "m (?d + k) = img (?d + k)" if "k < 0x1FFA" using that dmw [of k] by (simp add: lo w_def write_be16_apply)
  show "m (?b + k) = 0" if "10 \<le> k" "k < 8192" using that mb [of k] by (simp add: bm_def write_be16_apply memset_apply)
qed

lemma gc_format:
  assumes n: "gc_total_blocks_for_size siz = n" "n \<noteq> 0"
  obtains img' where "sigil_gamecube_format img siz sj = (SIGIL_OK, img')"
    "gc_open_view img' siz = (SIGIL_OK, Some (gc_view n 2 4))"
    "\<forall>i < 127. \<not> gc_dentry_live img' (gc_offset (gc_view n 2 4) i)"
    "\<forall>b. 5 \<le> b \<longrightarrow> b < n \<longrightarrow> gc_bat_link img' (4 * 8192) b = BAT_FREE"
proof -
  note rng = gc_total_range [OF n]
  define h where "h = sigil_write_be16 (sigil_write_be16 (memset (memset img 0 0xFF siz) 0 0 0x26) 0x22 (of_nat (n div 16)))
      0x24 (if sj then 1 else 0)"
  define m0 where "m0 = gc_seal h 0 0x1FC 0x1FC"
  define m1 where "m1 = gc_format_copy n 0 m0"
  define m2 where "m2 = gc_format_copy n 1 m1"
  have f: "sigil_gamecube_format img siz sj = (SIGIL_OK, m2)"
    using n by (simp add: sigil_gamecube_format_def Let_def gc_block_at_def gc_consts gc_seal_header_def m2_def m1_def m0_def h_def)
  have o1: "m1 j = m0 j" if "j < 8192 \<or> 40960 \<le> j" for j
    unfolding m1_def using that by (intro gc_format_copy_out) auto
  have o2: "m2 j = m1 j" if "j < 16384 \<or> 24576 \<le> j \<and> j < 32768" for j
    unfolding m2_def using that by (intro gc_format_copy_out) auto
  have "gc_header_valid m2 0 n = gc_header_valid m0 0 n" by (rule gc_header_cong) (simp add: o1 o2)
  moreover have "gc_checksum_matches m0 0 0x1FC 0x1FC" unfolding m0_def by (rule gc_seal_matches) simp
  moreover have "unat (sigil_read_be16 m0 0x22) * 16 = n"
  proof -
    have "sigil_read_be16 m0 0x22 = sigil_read_be16 (sigil_write_be16 h 0x22 (of_nat (n div 16))) 0x22"
      by (intro read_be16_cong) (simp_all add: m0_def gc_seal_out h_def write_be16_apply)
    moreover have "n div 16 < 65536" using rng by (simp add: div_less_iff_less_mult)
    moreover have "n div 16 * 16 = n"
      using n by (auto simp: gc_total_blocks_for_size_def Let_def split: if_splits)
    ultimately show ?thesis by (simp add: unat_of_nat16)
  qed
  ultimately have hv: "gc_header_valid m2 0 n" by (simp add: gc_header_valid_def HEADER_CHECKSUM_def HEADER_SIZE_MBITS_def)
  note p1 = gc_format_copy_parts [where c = 0 and n = n and img = m0, folded m1_def, simplified]
  note p2 = gc_format_copy_parts [where c = 1 and n = n and img = m1, folded m2_def, simplified]
  have s1: "same_block m2 8192 m1 8192" "same_block m2 24576 m1 24576" by (simp_all add: same_block_def o2)
  have c: "sigil_read_be16 m2 (8192 + 0x1FFA) = 0" "sigil_read_be16 m2 (24576 + 4) = 0"
    using same_block_read [OF s1(1), of "0x1FFA"] same_block_read [OF s1(2), of 4] p1(3,4) by simp_all
  have "gc_open_view m2 siz = (SIGIL_OK, Some (gc_view n 2 4))"
    unfolding gc_open_view_iff n(1) Let_def
    using hv n(2) same_block_valid(1) [OF s1(1)] same_block_valid(2) [OF s1(2)] p1(1,2) p2(1-4) c
    by (simp add: gc_current_copy_def gc_signed_counter_def)
  moreover have "\<not> gc_dentry_live m2 (gc_offset (gc_view n 2 4) i)" if "i < 127" for i
  proof -
    have "i * 64 < 0x1FFA" using that by simp
    then have "m2 (16384 + i * 64) = m1 (16384 + i * 64)" using p2(5) [of "i * 64"] by simp
    also have "\<dots> = m0 (16384 + i * 64)" unfolding m1_def using that by (intro gc_format_copy_out) auto
    also have "\<dots> = 0xFF" using that rng by (simp add: m0_def gc_seal_out h_def write_be16_apply memset_apply)
    finally show ?thesis by (simp add: gc_dentry_live_def DENTRY_GAMECODE_def DENTRY_EMPTY_def gc_offset_sel)
  qed
  moreover have "gc_bat_link m2 (4 * 8192) b = BAT_FREE" if "5 \<le> b" "b < n" for b
  proof -
    have "b \<le> 2047" using that rng by linarith
    then have r: "(b - 5) * 2 \<le> 4084" by simp
    have "gc_bat_link m2 (4 * 8192) b = gc_bat_link (\<lambda>_. 0) 0 b"
      using r p2(6) [of "10 + (b - 5) * 2"] p2(6) [of "10 + (b - 5) * 2 + 1"]
      by (intro gc_link_cong) (simp_all add: add.assoc)
    then show ?thesis by (simp add: gc_bat_link_def sigil_read_be16_def BAT_FREE_def)
  qed
  ultimately show thesis using that [OF f] by blast
qed

section \<open>What the card lists\<close>

lemma gc_card_list:
  assumes "gc_open_view img siz = (rc, Some v)"
  obtains r where "sigil_gamecube_card_list img siz = (SIGIL_OK, Some r)"
    "entries r = map (gc_entry img v) (filter (gc_live img v) [0..<127])"
    "free_slots r = length (filter (\<lambda>i. \<not> gc_dentry_live img (gc_offset v i)) [0..<127])"
    "corrupt_count r = length (filter (\<lambda>i. gc_dentry_live img (gc_offset v i) \<and> \<not> gc_live img v i) [0..<127])"
    "total_blocks r = cv_total_blocks v - 5" "free_blocks r = length (gc_free_list img v)"
proof -
  let ?lst = "(sigil_card_listing_new SIGIL_CARD_FORMAT_GAMECUBE_RAW)
     \<lparr>total_blocks := cv_total_blocks v - 5, free_blocks := length (gc_free_list img v)\<rparr>"
  let ?f = "gc_list_entry img (gc_block_at (cv_dir_block v)) (gc_block_at (cv_bat_block v)) (cv_total_blocks v)
      (gc_count_claims img (gc_block_at (cv_dir_block v)) (gc_block_at (cv_bat_block v)) (cv_total_blocks v))"
  have "sigil_gamecube_card_list img siz = (SIGIL_OK, Some (fold ?f [0..<127] ?lst))"
    by (simp add: sigil_gamecube_card_list_def assms Let_def gc_free_block_count_def gc_free_list_def GC_SYSTEM_BLOCKS_def
        GC_DIR_ENTRIES_def gc_block_at_def GC_BLOCK_SIZE_def del: upt_rec_numeral)
  moreover have "set [0..<127] \<subseteq> {..<127 :: nat}" by auto
  from gc_list_fold [OF this, of img v ?lst] have
    "let r = fold ?f [0..<127] ?lst in
      entries r = map (gc_entry img v) (filter (gc_live img v) [0..<127]) \<and>
      free_slots r = length (filter (\<lambda>i. \<not> gc_dentry_live img (gc_offset v i)) [0..<127]) \<and>
      corrupt_count r = length (filter (\<lambda>i. gc_dentry_live img (gc_offset v i) \<and> \<not> gc_live img v i) [0..<127]) \<and>
      total_blocks r = cv_total_blocks v - 5 \<and> free_blocks r = length (gc_free_list img v)"
    by (simp add: sigil_card_listing_new_def Let_def del: upt_rec_numeral)
  ultimately show thesis by (intro that) (auto simp: Let_def simp del: upt_rec_numeral)
qed

text \<open>C24 (functional): the listing of a GameCube card that opens shows, in directory order, the saves whose
  chain has the recorded length and shares no block with the chain of another entry; it counts the
  other entries in use as corrupt, the empty ones, and the blocks the table says are free.\<close>

theorem gc_card_list_spec:
  assumes "gc_open_view img siz = (rc, Some v)"
  shows "\<exists>r. sigil_gamecube_card_list img siz = (SIGIL_OK, Some r) \<and>
     entries r = map (gc_entry img v) (filter (gc_live img v) [0..<127]) \<and>
     free_slots r = length (filter (\<lambda>i. \<not> gc_dentry_live img (gc_offset v i)) [0..<127]) \<and>
     corrupt_count r = length (filter (\<lambda>i. gc_dentry_live img (gc_offset v i) \<and> \<not> gc_live img v i) [0..<127]) \<and>
     total_blocks r = cv_total_blocks v - 5 \<and> free_blocks r = length (gc_free_list img v)"
  by (rule gc_card_list [OF assms]) blast

definition gc_sample_size :: nat where "gc_sample_size = 524288"

definition gc_sample_blank :: mem where
  "gc_sample_blank = snd (sigil_gamecube_format (\<lambda>_. 0) gc_sample_size False)"

lemma gc_sample_total: "gc_total_blocks_for_size gc_sample_size = 64"
  by (simp add: gc_total_blocks_for_size_def gc_sample_size_def GC_BLOCK_SIZE_def)

lemma gc_sample_format: "sigil_gamecube_format (\<lambda>_. 0) gc_sample_size False = (SIGIL_OK, gc_sample_blank)"
  and gc_sample_open: "gc_open_view gc_sample_blank gc_sample_size = (SIGIL_OK, Some (gc_view 64 2 4))"
  by (rule gc_format [OF gc_sample_total, of "\<lambda>_. 0" False]; simp add: gc_sample_blank_def)+

theorem gc_card_list_spec_witness:
  "\<exists>r. sigil_gamecube_card_list gc_sample_blank gc_sample_size = (SIGIL_OK, Some r) \<and> total_blocks r = 59"
  using gc_card_list_spec [OF gc_sample_open] by auto

section \<open>Reading a save back\<close>

lemma gc_copy_chain_bytes:
  assumes "gc_walk (img, v) f = bs" and "bs \<noteq> []" and "length bs = n"
  shows "\<exists>out'. gc_copy_chain img v f n out 64 = (SIGIL_OK, out') \<and>
     (\<forall>i < n. \<forall>k < 8192. out' (64 + i * 8192 + k) = img (bs ! i * 8192 + k))"
proof -
  let ?f = "\<lambda>i out. memcpy out (64 + i * 8192) img (bs ! i * 8192) 8192"
  let ?R = "\<lambda>i :: nat. {64 + i * 8192..<64 + i * 8192 + 8192}"
  have e: "gc_copy_chain img v f n out 64 = (SIGIL_OK, fold ?f [0..<n] out)"
    unfolding gc_copy_chain_def gc_walk_eq assms(1) Let_def using assms(2,3)
    by (auto simp: gc_block_at_def GC_BLOCK_SIZE_def)
  have "fold ?f [0..<n] out (64 + i * 8192 + k) = img (bs ! i * 8192 + k)" if i: "i < n" "k < 8192" for i k
  proof -
    have "fold ?f [0..<n] out (64 + i * 8192 + k) = ?f i out (64 + i * 8192 + k)"
    proof (rule fold_in_region [where R = ?R])
      show "?R a \<inter> ?R b = {}" if "a \<noteq> b" for a b :: nat
      proof -
        have "a * 8192 + 8192 \<le> b * 8192 \<or> b * 8192 + 8192 \<le> a * 8192" using that by linarith
        then show ?thesis by auto
      qed
    qed (use i in \<open>auto simp: memcpy_apply\<close>)
    then show ?thesis using i(2) by (simp add: memcpy_apply)
  qed
  with e show ?thesis by blast
qed

lemma gc_extract_bytes:
  assumes v: "gc_open_view img siz = (rc, Some v)" and lv: "gc.live (img, v) s bs"
  shows "\<exists>out'. sigil_gamecube_extract img siz (gc_first img v s) (length bs) out = (SIGIL_OK, out') \<and>
     (\<forall>k < 64. out' k = img (gc_offset v s + k)) \<and>
     (\<forall>i < length bs. \<forall>k < 8192. out' (64 + i * 8192 + k) = img (bs ! i * 8192 + k))"
proof -
  note w = gc.live_whole [OF lv]
  then have W: "s < 127" "gc_dentry_live img (gc_offset v s)" "gc_walk (img, v) (gc_first img v s) = bs" "bs \<noteq> []"
    "gc_count img v s = length bs" by (simp_all add: gc_whole_iff)
  have f: "gc_find_entry_at img (gc_block_at (cv_dir_block v)) img (gc_block_at (cv_bat_block v)) (cv_total_blocks v)
      (gc_first img v s) (length bs) = Some s"
    unfolding gc_find_entry find_upt
  proof (intro conjI allI impI notI)
    fix t assume t: "t < s" "gc_dentry_live img (gc_offset v t) \<and> gc_first img v t = gc_first img v s \<and>
      (length bs = 0 \<or> gc_count img v t = length bs) \<and> length (gc_walk (img, v) (gc_first img v s)) = gc_count img v t"
    then have "t = s" using gc_live_unique [OF lv] W(1) by simp
    with t(1) show False by simp
  qed (use W in simp_all)
  obtain out1 where o: "gc_copy_chain img v (gc_first img v s) (length bs) out 64 = (SIGIL_OK, out1)"
    "\<forall>i < length bs. \<forall>k < 8192. out1 (64 + i * 8192 + k) = img (bs ! i * 8192 + k)"
    using gc_copy_chain_bytes [OF W(3,4) refl] by blast
  have "sigil_gamecube_extract img siz (gc_first img v s) (length bs) out =
      (SIGIL_OK, memcpy out1 0 img (gc_offset v s) 64)"
    unfolding sigil_gamecube_extract_def v prod.case option.case Let_def f gc_dentry_eq GC_DENTRY_SIZE_def o(1)
    using W(4) by simp
  with o(2) show ?thesis by (auto simp: memcpy_apply)
qed

lemma gci_cover:
  fixes j n :: nat
  assumes "j < 64 + n * 8192"
  obtains "j < 64" | i k where "i < n" "k < 8192" "j = 64 + i * 8192 + k"
proof (cases "j < 64")
  case False
  have "(j - 64) div 8192 < n" using assms False by (simp add: div_less_iff_less_mult)
  moreover have "j = 64 + (j - 64) div 8192 * 8192 + (j - 64) mod 8192" using False by simp
  ultimately show thesis using that(2) [of "(j - 64) div 8192" "(j - 64) mod 8192"] by simp
qed (use that in blast)

text \<open>C19 (roundtrip): on a card whose saves are all listed, a \<^verbatim>\<open>.gci\<close> that was injected verifies, and
  extracting the new save gives back every byte of the \<^verbatim>\<open>.gci\<close> but for the first block's number,
  which names where it sits on this card.\<close>

theorem gc_inject_verifies:
  assumes v: "gc_open_view img siz = (SIGIL_OK, Some v)" and cl: "gc_clean img v"
    and ok: "sigil_gamecube_inject img siz gci len = (SIGIL_OK, img')"
  shows "sigil_gamecube_verify img' siz gci len = SIGIL_OK \<and>
    (\<exists>f out'. sigil_gamecube_extract img' siz f (gc_gci_blocks gci len) out = (SIGIL_OK, out') \<and>
       (\<forall>j < len. out' j = sigil_write_be16 gci 0x36 (of_nat f) j))"
proof -
  let ?v = "gc_view (cv_total_blocks v) 1 3" let ?n = "gc_gci_blocks gci len"
  obtain s ch where s: "s < 127" "\<not> gc_dentry_live img (gc_offset v s)"
    and ch: "length ch = ?n" "ch \<noteq> []" "distinct ch" "\<forall>b \<in> set ch. 5 \<le> b \<and> b < cv_total_blocks v"
    and id: "gc_find_identity img (gc_block_at (cv_dir_block v)) gci 0 = None"
    and lv: "gc_dentry_live gci 0" and i: "img' = gc_put img v ch s gci" and ins: "gc.inserted (img, v) (img', ?v) s ch"
    and op: "gc_open_view img' siz = (SIGIL_OK, Some ?v)" by (rule gc_inject_ok [OF v ok])
  note vok = gc_open_view_ok(1) [OF v]
  have n: "?n \<noteq> 0" using ch(1,2) by (metis length_0_conv)
  have len: "j < len \<longleftrightarrow> j < 64 + ?n * 8192" for j using gc_gci_blocks(3) [OF refl n] by linarith
  have ag: "gc_agree img v img' ?v (set ch) s" unfolding i by (rule gc_put_agree [OF vok ch(3,4)])
  note new = gc_put_entry [OF vok ch(3,4,2) s(1) lv, where img = img, folded i]
  note E = gc_put_new(3) [OF vok ch(3,4,2) s(1), where img = img and gci = gci, folded i]
  have live: "gc.live (img', ?v) s ch" using gc.inserted_clean [OF ins] cl by (simp add: gc_clean_iff)
  have W: "gc_count img' ?v s = ?n" using gc.live_whole [OF live] ch(1) by (simp add: gc_whole_iff)
  have idn: "gc_find_identity img' (gc_block_at (cv_dir_block ?v)) gci 0 = Some s"
  proof -
    have o: "\<not> (gc_dentry_live img' (gc_offset ?v t) \<and> bytes_at img' (gc_offset ?v t) 6 = bytes_at gci 0 6 \<and>
        gc_name img' (gc_offset ?v t) = gc_name gci 0)" if t: "t < 127" "t \<noteq> s" for t
    proof -
      have b6: "bytes_at img' (gc_offset ?v t) 6 = bytes_at img (gc_offset v t) 6"
        by (rule gc_agree_entry(6) [OF ag t]) simp
      show ?thesis unfolding gc_agree_entry(2,5) [OF ag t] b6 using id gc_find_identity_ex [of img v gci] t by blast
    qed
    show ?thesis
      unfolding gc_find_identity_def GC_DIR_ENTRIES_def find_upt Let_def gc_dentry_eq strn_eq_def bytes_at_eq_iff [symmetric]
      using s(1) new(1,5,6) o less_trans [of _ s 127] less_not_refl
      by (auto simp: gc_name_def DENTRY_MAKERCODE_END_def DENTRY_FILENAME_def GC_FILENAME_LEN_def)
  qed
  have ext: "\<exists>out'. sigil_gamecube_extract img' siz (hd ch) ?n out = (SIGIL_OK, out') \<and>
      (\<forall>j < len. out' j = sigil_write_be16 gci 0x36 (of_nat (hd ch)) j)" for out
  proof -
    obtain out' where o: "sigil_gamecube_extract img' siz (hd ch) ?n out = (SIGIL_OK, out')"
      "\<forall>k < 64. out' k = img' (gc_offset ?v s + k)"
      "\<forall>i < ?n. \<forall>k < 8192. out' (64 + i * 8192 + k) = img' (ch ! i * 8192 + k)"
      using gc_extract_bytes [OF op live, of out] unfolding new(2) ch(1) by blast
    have "out' j = sigil_write_be16 gci 0x36 (of_nat (hd ch)) j" if "j < len" for j
      using that unfolding len
    proof (cases rule: gci_cover)
      case 1
      then show ?thesis using o(2) E by simp
    next
      case (2 a k)
      have "gc_data (img', ?v) (ch ! a) = bytes_at gci (64 + a * 8192) 8192"
        unfolding i using 2(1) ch(1) by (intro gc_put_new(2) [OF vok ch(3,4,2) s(1)]) simp
      then have "img' (ch ! a * 8192 + k) = gci (64 + a * 8192 + k)"
        using 2(2) by (simp add: gc_data_def bytes_at_eq_iff mem_eq_iff)
      with 2 o(3) show ?thesis by (simp add: write_be16_apply)
    qed
    with o(1) show ?thesis by blast
  qed
  from ext [of "\<lambda>_. 0"] obtain cp where cp: "sigil_gamecube_extract img' siz (hd ch) ?n (\<lambda>_. 0) = (SIGIL_OK, cp)"
    "\<forall>j < len. cp j = sigil_write_be16 gci 0x36 (of_nat (hd ch)) j" by blast
  have "mem_eq (memcpy cp DENTRY_FIRST_BLOCK gci DENTRY_FIRST_BLOCK 2) 0 gci 0 len"
    using cp(2) by (auto simp: mem_eq_iff memcpy_apply DENTRY_FIRST_BLOCK_def write_be16_apply)
  then have "sigil_gamecube_verify img' siz gci len = SIGIL_OK"
    unfolding sigil_gamecube_verify_def op prod.case option.case Let_def idn gc_dentry_eq
      gc_first_def [unfolded DENTRY_FIRST_BLOCK_def [symmetric], symmetric]
      gc_count_def [unfolded DENTRY_BLOCK_COUNT_def [symmetric], symmetric] W new(2) cp(1)
    using n by simp
  with ext [of out] show ?thesis by blast
qed

section \<open>Every card built by the operations\<close>

inductive gc_reachable :: "nat \<Rightarrow> mem \<Rightarrow> bool" for siz :: nat where
  formatted: "sigil_gamecube_format img siz sj = (SIGIL_OK, img') \<Longrightarrow> gc_reachable siz img'"
| injected: "gc_reachable siz img \<Longrightarrow> sigil_gamecube_inject img siz gci len = (SIGIL_OK, img') \<Longrightarrow> gc_reachable siz img'"
| deleted: "gc_reachable siz img \<Longrightarrow> sigil_gamecube_delete img siz f = (SIGIL_OK, img') \<Longrightarrow> gc_reachable siz img'"

text \<open>Every save is listed, a block is free unless a save has it, and no two saves have the same game,
  maker and file name.\<close>

definition gc_same_id :: "mem \<Rightarrow> card_view \<Rightarrow> nat \<Rightarrow> nat \<Rightarrow> bool" where
  "gc_same_id img v i j \<longleftrightarrow>
     bytes_at img (gc_offset v i) 6 = bytes_at img (gc_offset v j) 6 \<and> gc_name img (gc_offset v i) = gc_name img (gc_offset v j)"

definition gc_inv :: "mem \<Rightarrow> nat \<Rightarrow> card_view \<Rightarrow> bool" where
  "gc_inv img siz v \<longleftrightarrow>
     gc_open_view img siz = (SIGIL_OK, Some v) \<and> gc_clean img v \<and>
     (\<forall>b. 5 \<le> b \<longrightarrow> b < cv_total_blocks v \<longrightarrow>
        (gc_bat_link img (cv_bat_block v * 8192) b = BAT_FREE \<longleftrightarrow> (\<nexists>s bs. gc.live (img, v) s bs \<and> b \<in> set bs))) \<and>
     (\<forall>s t. gc_live img v s \<longrightarrow> gc_live img v t \<longrightarrow> gc_same_id img v s t \<longrightarrow> s = t)"

lemma gc_invD:
  assumes "gc_inv img siz v"
  shows "gc_open_view img siz = (SIGIL_OK, Some v)" and "gc_clean img v"
    and "5 \<le> b \<Longrightarrow> b < cv_total_blocks v \<Longrightarrow>
      gc_bat_link img (cv_bat_block v * 8192) b = BAT_FREE \<longleftrightarrow> (\<nexists>s bs. gc.live (img, v) s bs \<and> b \<in> set bs)"
    and "gc_live img v s \<Longrightarrow> gc_live img v t \<Longrightarrow> gc_same_id img v s t \<Longrightarrow> s = t"
  using assms unfolding gc_inv_def by blast+

lemma gc_format_inv:
  assumes "sigil_gamecube_format img siz sj = (SIGIL_OK, img')"
  shows "\<exists>v. gc_inv img' siz v"
proof -
  let ?n = "gc_total_blocks_for_size siz"
  have n: "?n \<noteq> 0" using assms by (auto simp: sigil_gamecube_format_def Let_def split: if_splits)
  obtain m where "sigil_gamecube_format img siz sj = (SIGIL_OK, m)" and
    m: "gc_open_view m siz = (SIGIL_OK, Some (gc_view ?n 2 4))" "\<forall>i < 127. \<not> gc_dentry_live m (gc_offset (gc_view ?n 2 4) i)"
    "\<forall>b. 5 \<le> b \<longrightarrow> b < ?n \<longrightarrow> gc_bat_link m (4 * 8192) b = BAT_FREE" by (rule gc_format [OF refl n])
  then have i: "m = img'" using assms by simp
  have nl: "\<not> gc_live m (gc_view ?n 2 4) s" for s using m(2) gc_live_entry by blast
  then have "\<not> gc.live (m, gc_view ?n 2 4) s bs" for s bs using gc_live_ex by blast
  with m nl have "gc_inv m siz (gc_view ?n 2 4)" unfolding gc_inv_def gc_clean_def by auto
  with i show ?thesis by blast
qed

lemma gc_same_id_agree:
  assumes ag: "gc_agree img v img' v' bs s" and "t < 127" "u < 127" "t \<noteq> s" "u \<noteq> s"
  shows "gc_same_id img' v' t u = gc_same_id img v t u"
proof -
  have "bytes_at img' (gc_offset v' t) 6 = bytes_at img (gc_offset v t) 6"
    "bytes_at img' (gc_offset v' u) 6 = bytes_at img (gc_offset v u) 6"
    by (rule gc_agree_entry(6) [OF ag]; simp add: assms)+
  then show ?thesis
    using gc_agree_entry(5) [OF ag assms(2,4)] gc_agree_entry(5) [OF ag assms(3,5)] by (simp add: gc_same_id_def)
qed

lemma gc_inject_inv:
  assumes inv: "gc_inv img siz v" and ok: "sigil_gamecube_inject img siz gci len = (SIGIL_OK, img')"
  shows "gc_inv img' siz (gc_view (cv_total_blocks v) 1 3)"
proof -
  let ?v = "gc_view (cv_total_blocks v) 1 3"
  note I = gc_invD [OF inv]
  obtain s ch where s: "s < 127" "\<not> gc_dentry_live img (gc_offset v s)"
    and ch: "length ch = gc_gci_blocks gci len" "ch \<noteq> []" "distinct ch" "\<forall>b \<in> set ch. 5 \<le> b \<and> b < cv_total_blocks v"
    and id: "gc_find_identity img (gc_block_at (cv_dir_block v)) gci 0 = None"
    and lv: "gc_dentry_live gci 0" and i: "img' = gc_put img v ch s gci" and ins: "gc.inserted (img, v) (img', ?v) s ch"
    and op: "gc_open_view img' siz = (SIGIL_OK, Some ?v)" by (rule gc_inject_ok [OF I(1) ok])
  note vok = gc_open_view_ok(1) [OF I(1)]
  have ag: "gc_agree img v img' ?v (set ch) s" unfolding i by (rule gc_put_agree [OF vok ch(3,4)])
  note new = gc_put_entry [OF vok ch(3,4,2) s(1) lv, where img = img, folded i]
  note live = gc.inserted_clean [OF ins I(2) [unfolded gc_clean_iff]]
  have lives: "gc_live img' ?v t \<longleftrightarrow> gc_live img v t \<or> t = s" for t unfolding gc_live_ex using live(1) by blast
  have fat: "gc_bat_link img' (cv_bat_block ?v * 8192) b = BAT_FREE \<longleftrightarrow> (\<nexists>s bs. gc.live (img', ?v) s bs \<and> b \<in> set bs)"
    if b: "5 \<le> b" "b < cv_total_blocks v" for b
  proof (cases "b \<in> set ch")
    case True
    then have "gc_step (img', ?v) b \<noteq> Bad" using gc.chained_not_bad [OF gc.whole_chained [OF gc.inserted_new [OF ins]]] by blast
    then have "gc_bat_link img' (cv_bat_block ?v * 8192) b \<noteq> BAT_FREE"
      by (auto simp: gc_step_def Let_def BAT_FREE_def BAT_CHAIN_END_def split: if_splits)
    with True live(1) show ?thesis by blast
  next
    case False
    then have "gc_bat_link img' (cv_bat_block ?v * 8192) b = gc_bat_link img (cv_bat_block v * 8192) b"
      using ag b unfolding gc_agree_def by blast
    then show ?thesis using False live(1) I(3) [OF b] by (metis (no_types, lifting))
  qed
  have fresh: "\<not> gc_same_id img' ?v t s" if t: "gc_live img v t" for t
  proof -
    have tt: "t < 127" "gc_dentry_live img (gc_offset v t)" using gc_live_entry [OF t] by simp_all
    then have ts: "t \<noteq> s" using s(2) by blast
    have "bytes_at img' (gc_offset ?v t) 6 = bytes_at img (gc_offset v t) 6" by (rule gc_agree_entry(6) [OF ag tt(1) ts]) simp
    with gc_agree_entry(5) [OF ag tt(1) ts] new(5,6) id gc_find_identity_ex [of img v gci] tt show ?thesis
      unfolding gc_same_id_def by metis
  qed
  have sym: "gc_same_id m w a b = gc_same_id m w b a" for m w a b by (auto simp: gc_same_id_def)
  have names: "t = u" if "gc_live img' ?v t" "gc_live img' ?v u" "gc_same_id img' ?v t u" for t u
  proof (cases "t = s \<or> u = s")
    case True
    show ?thesis
    proof (rule ccontr)
      assume "t \<noteq> u"
      with True that lives fresh sym show False by blast
    qed
  next
    case False
    with that lives have o: "gc_live img v t" "gc_live img v u" by blast+
    with gc_same_id_agree [OF ag] gc_live_entry False that(3) have "gc_same_id img v t u" by blast
    from I(4) [OF o this] show ?thesis .
  qed
  show ?thesis
    unfolding gc_inv_def gc_clean_iff using op live(2) fat names by (intro conjI allI impI) (simp_all only: gc_view_sel)
qed

lemma gc_delete_inv:
  assumes inv: "gc_inv img siz v" and ok: "sigil_gamecube_delete img siz f = (SIGIL_OK, img')"
  shows "gc_inv img' siz (gc_view (cv_total_blocks v) 1 3)"
proof -
  let ?v = "gc_view (cv_total_blocks v) 1 3"
  note I = gc_invD [OF inv]
  note vok = gc_open_view_ok(1) [OF I(1)]
  from ok obtain s where f: "find (\<lambda>i. gc_dentry_live img (gc_offset v i) \<and> gc_first img v i = f \<and>
      length (gc_walk (img, v) f) = gc_count img v i) [0..<127] = Some s"
    and i: "img' = gc_cleared img v (gc_walk (img, v) f) s"
    unfolding gc_delete_eq [OF I(1)] by (auto split: option.splits)
  from f have s: "s < 127" "gc_dentry_live img (gc_offset v s)" "gc_first img v s = f"
    by (auto simp: find_upt simp del: upt_rec_numeral)
  then have "gc_live img v s" using I(2) by (simp add: gc_clean_def)
  then have live: "gc.live (img, v) s (gc_walk (img, v) f)" using s(3) by (simp add: gc_live_def)
  let ?bs = "gc_walk (img, v) f"
  note w = gc.live_whole [OF live]
  note user = gc_chain_user [OF gc.whole_chained [OF w]]
  have ag: "gc_agree img v img' ?v (set ?bs) s" unfolding i by (rule gc_cleared_agree [OF vok user])
  have rem: "gc.removed (img, v) (img', ?v) s ?bs" unfolding i by (rule gc_cleared_removed [OF vok w])
  have op: "gc_open_view img' siz = (SIGIL_OK, Some ?v)" unfolding i using user by (intro gc_cleared_open [OF I(1)]) blast
  note lv = gc.removed_live [OF rem live]
  have lives: "gc_live img' ?v t \<longleftrightarrow> gc_live img v t \<and> t \<noteq> s" for t unfolding gc_live_ex using lv by blast
  have fat: "gc_bat_link img' (cv_bat_block ?v * 8192) b = BAT_FREE \<longleftrightarrow> (\<nexists>s bs. gc.live (img', ?v) s bs \<and> b \<in> set bs)"
    if b: "5 \<le> b" "b < cv_total_blocks v" for b
  proof -
    have g: "gc_bat_link img' (cv_bat_block ?v * 8192) b =
        (if b \<in> set ?bs then BAT_FREE else gc_bat_link img (cv_bat_block v * 8192) b)"
      unfolding i gc_view_sel by (rule gc_cleared_link [OF vok user b])
    have dj: "set cs \<inter> set ?bs = {}" if "t \<noteq> s" "gc.live (img, v) t cs" for t cs
      using live gc.whole_chained [OF gc.live_whole [OF that(2)]] that(1) by (simp add: gc.live_def gc.claims_def)
    have un: "cs = ?bs" if "gc.live (img, v) s cs" for cs using that s(3) gc_live_iff by metis
    show ?thesis
    proof (cases "b \<in> set ?bs")
      case True
      then have "\<not> (gc.live (img', ?v) t cs \<and> b \<in> set cs)" for t cs using lv dj [of t cs] by blast
      with True g show ?thesis by simp
    next
      case False
      then have "gc.live (img', ?v) t cs \<and> b \<in> set cs \<longleftrightarrow> gc.live (img, v) t cs \<and> b \<in> set cs" for t cs
        unfolding lv using un [of cs] by (cases "t = s") auto
      with False g I(3) [OF b] show ?thesis by simp
    qed
  qed
  have names: "t = u" if "gc_live img' ?v t" "gc_live img' ?v u" "gc_same_id img' ?v t u" for t u
  proof -
    from that lives have o: "gc_live img v t" "t \<noteq> s" "gc_live img v u" "u \<noteq> s" by blast+
    with gc_same_id_agree [OF ag] gc_live_entry that(3) have "gc_same_id img v t u" by blast
    from I(4) [OF o(1,3) this] show ?thesis .
  qed
  have "gc_clean img' ?v" using gc.removed_clean [OF rem] I(2) by (simp add: gc_clean_iff)
  then show ?thesis
    unfolding gc_inv_def using op fat names by (intro conjI allI impI) (simp_all only: gc_view_sel)
qed

lemma gc_reachable_inv: "gc_reachable siz img \<Longrightarrow> \<exists>v. gc_inv img siz v"
proof (induction rule: gc_reachable.induct)
  case (formatted img sj img')
  then show ?case by (rule gc_format_inv)
next
  case (injected img gci len img')
  then show ?case using gc_inject_inv by blast
next
  case (deleted img f img')
  then show ?case using gc_delete_inv by blast
qed

lemma gc_inv_accounted:
  assumes inv: "gc_inv img siz v"
  shows "length (gc_free_list img v) + sum_list (map ce_blocks (map (gc_entry img v) (filter (gc_live img v) [0..<127]))) =
    cv_total_blocks v - 5"
proof -
  let ?w = "\<lambda>s. gc_walk (img, v) (gc_first img v s)"
  let ?L = "filter (gc_live img v) [0..<127]"
  have lv: "gc.live (img, v) s (?w s)" if "s \<in> set ?L" for s using that by (simp add: gc_live_def del: upt_rec_numeral)
  have "length (filter (\<lambda>b. gc_bat_link img (cv_bat_block v * 8192) b = BAT_FREE) [5..<cv_total_blocks v]) +
      sum_list (map (\<lambda>a. length (?w a)) ?L) = cv_total_blocks v - 5"
  proof (rule blocks_accounted)
    fix a assume a: "a \<in> set ?L"
    show "distinct (?w a) \<and> set (?w a) \<subseteq> {5..<cv_total_blocks v}"
      using gc_walk_distinct gc_chain_user [OF gc.whole_chained [OF gc.live_whole [OF lv [OF a]]]] by auto
    fix b assume b: "b \<in> set ?L" "a \<noteq> b"
    show "set (?w a) \<inter> set (?w b) = {}"
      using lv [OF b(1)] gc.whole_chained [OF gc.live_whole [OF lv [OF a]]] b(2) by (simp add: gc.live_def gc.claims_def)
  next
    fix b assume b: "5 \<le> b" "b < cv_total_blocks v"
    have "(\<exists>s bs. gc.live (img, v) s bs \<and> b \<in> set bs) \<longleftrightarrow> (\<exists>a \<in> set ?L. b \<in> set (?w a))"
      using gc_live_entry by (auto simp: gc_live_iff simp del: upt_rec_numeral)
    with gc_invD(3) [OF inv b]
    show "gc_bat_link img (cv_bat_block v * 8192) b = BAT_FREE \<longleftrightarrow> (\<forall>a \<in> set ?L. b \<notin> set (?w a))" by blast
  qed (simp del: upt_rec_numeral)
  moreover have "map ce_blocks (map (gc_entry img v) ?L) = map (\<lambda>a. length (?w a)) ?L"
  proof -
    have "gc_count img v a = length (?w a)" if "a \<in> set ?L" for a
      using gc.live_whole [OF lv [OF that]] by (simp add: gc_whole_iff)
    then show ?thesis by (simp add: gc_entry_def del: upt_rec_numeral)
  qed
  ultimately show ?thesis unfolding gc_free_list_def by argo
qed

text \<open>C2 (invariant): every GameCube card that formatting, adding and deleting saves lead to opens; no save
  on it is corrupt, the free blocks and the listed saves' blocks add up to the card's, the empty
  entries and the listed saves to the 127 of the directory, and no two saves have the same game code,
  maker code and file name.\<close>

theorem gc_reachable_invariant:
  assumes "gc_reachable siz img"
  shows "\<exists>v r. gc_open_view img siz = (SIGIL_OK, Some v) \<and> sigil_gamecube_card_list img siz = (SIGIL_OK, Some r) \<and>
    corrupt_count r = 0 \<and> free_blocks r + sum_list (map ce_blocks (entries r)) = total_blocks r \<and>
    free_slots r + length (entries r) = 127 \<and>
    (\<forall>s t. gc_live img v s \<longrightarrow> gc_live img v t \<longrightarrow> gc_same_id img v s t \<longrightarrow> s = t)"
proof -
  obtain v where inv: "gc_inv img siz v" using gc_reachable_inv [OF assms] by blast
  note I = gc_invD [OF inv]
  obtain r where r: "sigil_gamecube_card_list img siz = (SIGIL_OK, Some r)"
    "entries r = map (gc_entry img v) (filter (gc_live img v) [0..<127])"
    "free_slots r = length (filter (\<lambda>i. \<not> gc_dentry_live img (gc_offset v i)) [0..<127])"
    "corrupt_count r = length (filter (\<lambda>i. gc_dentry_live img (gc_offset v i) \<and> \<not> gc_live img v i) [0..<127])"
    "total_blocks r = cv_total_blocks v - 5" "free_blocks r = length (gc_free_list img v)" by (rule gc_card_list [OF I(1)])
  have eq: "gc_dentry_live img (gc_offset v i) \<longleftrightarrow> gc_live img v i" if "i < 127" for i
    using that I(2) gc_live_entry unfolding gc_clean_def by blast
  have c: "corrupt_count r = 0" unfolding r(4) using eq by (simp add: filter_empty_conv del: upt_rec_numeral)
  have "filter (\<lambda>i. \<not> gc_dentry_live img (gc_offset v i)) [0..<127] = filter (\<lambda>i. \<not> gc_live img v i) [0..<127]"
    using eq by (intro filter_cong) (simp_all del: upt_rec_numeral)
  then have sl: "free_slots r + length (entries r) = 127"
    using sum_length_filter_compl [of "gc_live img v" "[0..<127]"] unfolding r(2,3) by (simp del: upt_rec_numeral)
  have acc: "free_blocks r + sum_list (map ce_blocks (entries r)) = total_blocks r"
    using gc_inv_accounted [OF inv] unfolding r(2,5,6) .
  show ?thesis using I(1,4) r(1) c sl acc by blast
qed

theorem gc_reachable_invariant_witness:
  "\<exists>r. sigil_gamecube_card_list gc_sample_blank gc_sample_size = (SIGIL_OK, Some r) \<and> corrupt_count r = 0"
  using gc_reachable_invariant [OF gc_reachable.formatted [OF gc_sample_format]] by blast

section \<open>A card with one save\<close>

definition gc_sample_gci :: mem where
  "gc_sample_gci = (\<lambda>_. 0)(0 := 0x47, 8 := 0x41, 0x39 := 1, 64 := 7)"

definition gc_sample_card :: mem where
  "gc_sample_card = snd (sigil_gamecube_inject gc_sample_blank gc_sample_size gc_sample_gci 8256)"

lemma gc_sample_blocks: "gc_gci_blocks gc_sample_gci 8256 = 1"
  by (simp add: gc_gci_blocks_def sigil_gamecube_gci_size_def gc_consts gc_dentry_live_def DENTRY_EMPTY_def
      gc_sample_gci_def sigil_read_be16_def GC_MAX_DATA_BLOCKS_def GC_MAX_CARD_SIZE_def Let_def)

lemma gc_sample_empty:
  "\<forall>i < 127. \<not> gc_dentry_live gc_sample_blank (gc_offset (gc_view 64 2 4) i)"
  "\<forall>b. 5 \<le> b \<longrightarrow> b < 64 \<longrightarrow> gc_bat_link gc_sample_blank (4 * 8192) b = BAT_FREE"
  by (rule gc_format [OF gc_sample_total, of "\<lambda>_. 0" False]; simp add: gc_sample_blank_def)+

lemma gc_sample_inject:
  "sigil_gamecube_inject gc_sample_blank gc_sample_size gc_sample_gci 8256 = (SIGIL_OK, gc_sample_card)"
proof -
  let ?v = "gc_view 64 2 4"
  have "gc_find_identity gc_sample_blank (gc_block_at (cv_dir_block ?v)) gc_sample_gci 0 = None"
    using gc_find_identity_ex [of gc_sample_blank ?v gc_sample_gci] gc_sample_empty(1) by blast
  moreover have "find (\<lambda>i. \<not> gc_dentry_live gc_sample_blank (gc_offset ?v i)) [0..<127] = Some 0"
    unfolding find_upt using gc_sample_empty(1) by simp
  moreover have "gc_free_list gc_sample_blank ?v = [5..<64]"
    unfolding gc_free_list_def gc_view_sel filter_id_conv using gc_sample_empty(2) by auto
  ultimately have "fst (sigil_gamecube_inject gc_sample_blank gc_sample_size gc_sample_gci 8256) = SIGIL_OK"
    unfolding gc_inject_eq [OF gc_sample_open] Let_def gc_sample_blocks by (simp del: upt_rec_numeral)
  then show ?thesis by (simp add: gc_sample_card_def prod_eq_iff)
qed

lemma gc_sample_reachable: "gc_reachable gc_sample_size gc_sample_card"
  by (rule gc_reachable.injected [OF gc_reachable.formatted [OF gc_sample_format] gc_sample_inject])

lemma gc_sample_clean: "gc_clean gc_sample_blank (gc_view 64 2 4)"
  using gc_sample_empty(1) by (simp add: gc_clean_def)

theorem gc_inject_effect_witness:
  "\<exists>v' s. gc_open_view gc_sample_card gc_sample_size = (SIGIL_OK, Some v') \<and>
     gc_file gc_sample_card v' s = Some (bytes_at (sigil_write_be16 gc_sample_gci 0x36 0) 0 64, [bytes_at gc_sample_gci 64 8192])"
  using gc_inject_effect [OF gc_sample_open gc_sample_inject] unfolding gc_sample_blocks by auto

theorem gc_inject_verifies_witness: "sigil_gamecube_verify gc_sample_card gc_sample_size gc_sample_gci 8256 = SIGIL_OK"
  using gc_inject_verifies [OF gc_sample_open gc_sample_clean gc_sample_inject] by blast

lemma gc_sample_live:
  obtains v s where "gc_open_view gc_sample_card gc_sample_size = (SIGIL_OK, Some v)" "gc_live gc_sample_card v s"
proof -
  obtain s ch where s: "gc.inserted (gc_sample_blank, gc_view 64 2 4)
      (gc_sample_card, gc_view (cv_total_blocks (gc_view 64 2 4)) 1 3) s ch"
    and op: "gc_open_view gc_sample_card gc_sample_size = (SIGIL_OK, Some (gc_view (cv_total_blocks (gc_view 64 2 4)) 1 3))"
    by (rule gc_inject_ok [OF gc_sample_open gc_sample_inject])
  from gc.inserted_clean(1) [OF s] gc_sample_clean have
    "gc_live gc_sample_card (gc_view (cv_total_blocks (gc_view 64 2 4)) 1 3) s" unfolding gc_clean_iff gc_live_ex by blast
  from that [OF op this] show thesis .
qed

theorem gc_delete_effect_witness:
  "\<exists>v s img' v'. gc_live gc_sample_card v s \<and>
     sigil_gamecube_delete gc_sample_card gc_sample_size (ce_first_block (gc_entry gc_sample_card v s)) = (SIGIL_OK, img') \<and>
     \<not> gc_live img' v' s"
proof -
  obtain v s where s: "gc_open_view gc_sample_card gc_sample_size = (SIGIL_OK, Some v)" "gc_live gc_sample_card v s"
    by (rule gc_sample_live)
  from gc_delete_effect [OF s] obtain img' v' where
    d: "sigil_gamecube_delete gc_sample_card gc_sample_size (ce_first_block (gc_entry gc_sample_card v s)) = (SIGIL_OK, img')"
    "\<forall>t. gc_live img' v' t \<longleftrightarrow> gc_live gc_sample_card v t \<and> t \<noteq> s" by metis
  from s(2) d(1) spec [OF d(2), of s] show ?thesis by blast
qed

section \<open>Repair\<close>

lemma gc_restore_copy_apply:
  "fst (gc_restore_copy first v0 v1 (img, rep, ch)) j =
     (if v0 \<noteq> v1 \<and> v0 \<and> (first + 1) * 8192 \<le> j \<and> j < (first + 1) * 8192 + 8192 then img (j - 8192)
      else if v0 \<noteq> v1 \<and> v1 \<and> first * 8192 \<le> j \<and> j < first * 8192 + 8192 then img (j + 8192)
      else img j)"
proof -
  have "first * 8192 + (j - (first + 1) * 8192) = j - 8192" if "(first + 1) * 8192 \<le> j" using that by simp
  moreover have "(first + 1) * 8192 + (j - first * 8192) = j + 8192" if "first * 8192 \<le> j" using that by simp
  ultimately show ?thesis
    by (auto simp: gc_restore_copy_def Let_def memcpy_apply gc_block_at_def GC_BLOCK_SIZE_def add.commute)
qed

text \<open>What a card reads the same in another image: the mounted directory and table and the data blocks.\<close>

lemma gc_same_lives:
  assumes n: "cv_total_blocks v' = cv_total_blocks v" "gc_view_ok v"
    and d: "same_block img' (cv_dir_block v' * 8192) img (cv_dir_block v * 8192)"
    and b: "same_block img' (cv_bat_block v' * 8192) img (cv_bat_block v * 8192)"
    and data: "\<And>j. 40960 \<le> j \<Longrightarrow> img' j = img j"
  shows "gc_agree img v img' v' {} 127"
proof -
  have "gc_bat_link img' (cv_bat_block v' * 8192) c = gc_bat_link img (cv_bat_block v * 8192) c"
    if "5 \<le> c" "c < cv_total_blocks v" for c
  proof -
    have "c < 2048" using that n(2) by (simp add: gc_view_ok_def)
    then have "(c - 5) * 2 \<le> 4084" using that by simp
    then have k: "10 + (c - 5) * 2 < 8192" "10 + (c - 5) * 2 + 1 < 8192" by simp_all
    from b have e: "img' (cv_bat_block v' * 8192 + k) = img (cv_bat_block v * 8192 + k)" if "k < 8192" for k
      using that unfolding same_block_def by blast
    show ?thesis using e [OF k(1)] e [OF k(2)] by (intro gc_link_cong) (simp_all add: ac_simps)
  qed
  moreover have "img' (c * 8192 + k) = img (c * 8192 + k)" if "5 \<le> c" for c k
    using that by (intro data) linarith
  moreover have "img' (gc_offset v' i + k) = img (gc_offset v i + k)" if "i < 127" "k < 64" for i k
  proof -
    have "i * 64 + k < 8192" using that by linarith
    with d show ?thesis by (simp add: same_block_def gc_offset_def add.assoc)
  qed
  ultimately show ?thesis using n by (simp add: gc_agree_def)
qed

lemma gc_agree_none_live:
  assumes ag: "gc_agree img v img' v' {} 127"
  shows "gc_live img' v' i = gc_live img v i" and "i < 127 \<Longrightarrow> gc_file img' v' i = gc_file img v i"
proof -
  have w: "gc_walk (img', v') f = gc_walk (img, v) f" for f
    by (rule gc.walk_same) (simp_all add: gc_agree_start [OF ag] gc_agree_block(1) [OF ag])
  have d: "gc_dir (img', v') j = gc_dir (img, v) j" for j
  proof (cases "j = 127")
    case True
    then show ?thesis by (simp add: gc_dir_eq)
  qed (rule gc_agree_dir(1) [OF ag])
  have whole: "gc.whole (img', v') j bs \<longleftrightarrow> gc.whole (img, v) j bs" for j bs by (simp add: gc.whole_def d w)
  have ch: "gc.chained (img', v') j bs \<longleftrightarrow> gc.chained (img, v) j bs" for j bs by (simp add: gc.chained_def d w)
  have "gc.live (img', v') j bs \<longleftrightarrow> gc.live (img, v) j bs" for j bs by (simp add: gc.live_def gc.claims_def whole ch)
  then show "gc_live img' v' i = gc_live img v i" by (simp add: gc_live_ex)
  assume i: "i < 127"
  show "gc_file img' v' i = gc_file img v i"
  proof (cases "\<exists>bs. gc.whole (img, v) i bs")
    case True
    then obtain bs where b: "gc.whole (img, v) i bs" by blast
    have "gc_data (img', v') x = gc_data (img, v) x" if "x \<in> set bs" for x
      using gc_chain_user [OF gc.whole_chained [OF b]] that by (intro gc_agree_block(2) [OF ag]) (simp_all add: gc_start_def)
    moreover have "gc_meta (img', v') i = gc_meta (img, v) i"
      using b i by (intro gc_agree_dir(2) [OF ag]) (auto simp: gc.whole_def)
    ultimately show ?thesis using gc_file_whole [OF b] gc_file_whole [of img' v' i bs] whole b by simp
  next
    case False
    then have "gc.save (img, v) i = None" "gc.save (img', v') i = None"
      unfolding gc.save_def d w by (auto simp: gc.whole_def split: option.splits)
    then show ?thesis by (simp add: gc_file_def)
  qed
qed

text \<open>What \<open>restore_copy\<close> makes of the two copies \<open>f\<close> and \<open>f + 1\<close>: one that passes stays, one that fails
  becomes the other.\<close>

definition gc_repaired :: "(mem \<Rightarrow> nat \<Rightarrow> bool) \<Rightarrow> nat \<Rightarrow> mem \<Rightarrow> mem \<Rightarrow> bool" where
  "gc_repaired valid f img img' \<longleftrightarrow> (\<forall>c \<in> {f, f + 1}.
     same_block img' (gc_block_at c) img (gc_block_at (if valid img (gc_block_at c) then c else 2 * f + 1 - c)))"

text \<open>After \<open>restore_copy\<close> both copies pass and the console mounts the bytes it mounted before.\<close>

lemma gc_restore_pair:
  assumes cong: "\<And>m p m' p'. same_block m p m' p' \<Longrightarrow> valid m p = valid m' p'" and x: "x < 8191"
    and cur: "gc_current_copy (valid img (f * 8192)) (sigil_read_be16 img (f * 8192 + x))
        (valid img ((f + 1) * 8192)) (sigil_read_be16 img ((f + 1) * 8192 + x)) = Some d"
    and img': "\<And>j. f * 8192 \<le> j \<Longrightarrow> j < f * 8192 + 16384 \<Longrightarrow>
        img' j = fst (gc_restore_copy f (valid img (f * 8192)) (valid img ((f + 1) * 8192)) (img, rep, ch)) j"
  shows "gc_repaired valid f img img' \<and> valid img' (f * 8192) \<and> valid img' ((f + 1) * 8192) \<and>
    (\<exists>d'. gc_current_copy (valid img' (f * 8192)) (sigil_read_be16 img' (f * 8192 + x))
        (valid img' ((f + 1) * 8192)) (sigil_read_be16 img' ((f + 1) * 8192 + x)) = Some d' \<and>
      same_block img' ((f + d') * 8192) img ((f + d) * 8192))"
proof -
  let ?v0 = "valid img (f * 8192)" and ?v1 = "valid img ((f + 1) * 8192)"
  consider "?v0" "?v1" | "?v0" "\<not> ?v1" | "\<not> ?v0" "?v1"
    using cur unfolding gc_current_copy_def by (cases ?v0; cases ?v1) simp_all
  then show ?thesis
  proof cases
    case 1
    have b0: "same_block img' (f * 8192) img (f * 8192)" and b1: "same_block img' ((f + 1) * 8192) img ((f + 1) * 8192)"
      using 1 by (simp_all add: same_block_def img' gc_restore_copy_apply)
    have dd: "d = 0 \<or> d = 1" using cur by (auto simp: gc_current_copy_def split: if_splits)
    then have "same_block img' ((f + d) * 8192) img ((f + d) * 8192)" using b0 b1 by (elim disjE) (simp_all only: add_0_right)
    then show ?thesis
      using cur cong [OF b0] cong [OF b1] same_block_read [OF b0 x] same_block_read [OF b1 x] 1 b0 b1
      by (auto simp: gc_repaired_def gc_block_at_def GC_BLOCK_SIZE_def)
  next
    case 2
    have b0: "same_block img' (f * 8192) img (f * 8192)" and b1: "same_block img' ((f + 1) * 8192) img (f * 8192)"
      using 2 by (auto simp: same_block_def img' gc_restore_copy_apply algebra_simps)
    have "d = 0" using cur 2 by (simp add: gc_current_copy_def)
    then show ?thesis
      using cong [OF b0] cong [OF b1] same_block_read [OF b0 x] same_block_read [OF b1 x] 2 b0 b1
      by (auto simp: gc_current_same gc_repaired_def gc_block_at_def GC_BLOCK_SIZE_def)
  next
    case 3
    have b0: "same_block img' (f * 8192) img ((f + 1) * 8192)" and b1: "same_block img' ((f + 1) * 8192) img ((f + 1) * 8192)"
      using 3 by (auto simp: same_block_def img' gc_restore_copy_apply algebra_simps)
    have "d = 1" using cur 3 by (simp add: gc_current_copy_def)
    then show ?thesis
      using cong [OF b0] cong [OF b1] same_block_read [OF b0 x] same_block_read [OF b1 x] 3 b0 b1
      by (auto simp: gc_current_same gc_repaired_def gc_block_at_def GC_BLOCK_SIZE_def)
  qed
qed

text \<open>C7 (safety): repairing a card that opens determines every byte of the image. Of the directory's and
  of the block table's two copies, one that passes its checksum is left as it is, even where it is the
  stale one, and one that fails becomes the other; nothing else is written, and the card is reported changed
  exactly when a copy failed. After it all four pass, and the console mounts what it mounted: the same saves
  are listed, with the same entries and contents.\<close>

theorem gc_repair_restores:
  assumes v: "gc_open_view img siz = (SIGIL_OK, Some v)"
    and r: "sigil_gamecube_card_repair img siz rep = (rc, img', rep', changed)"
  shows "rc = SIGIL_OK \<and> (\<forall>j. j < 8192 \<or> 40960 \<le> j \<longrightarrow> img' j = img j) \<and>
    gc_repaired gc_dir_valid 1 img img' \<and> gc_repaired gc_bat_valid 3 img img' \<and>
    changed = (\<not> (gc_dir_valid img (gc_block_at 1) \<and> gc_dir_valid img (gc_block_at 2) \<and>
      gc_bat_valid img (gc_block_at 3) \<and> gc_bat_valid img (gc_block_at 4))) \<and>
    gc_dir_valid img' (gc_block_at 1) \<and> gc_dir_valid img' (gc_block_at 2) \<and>
    gc_bat_valid img' (gc_block_at 3) \<and> gc_bat_valid img' (gc_block_at 4) \<and>
    (\<exists>v'. gc_open_view img' siz = (SIGIL_OK, Some v') \<and>
       (\<forall>i < 127. gc_live img' v' i = gc_live img v i \<and> gc_entry img' v' i = gc_entry img v i \<and>
                  gc_file img' v' i = gc_file img v i))"
proof -
  let ?dv0 = "gc_dir_valid img 8192" and ?dv1 = "gc_dir_valid img 16384"
  let ?bv0 = "gc_bat_valid img 24576" and ?bv1 = "gc_bat_valid img 32768"
  let ?n = "gc_total_blocks_for_size siz"
  obtain m1 rep1 c1 where a: "gc_restore_copy 1 ?dv0 ?dv1 (img, rep, False) = (m1, rep1, c1)"
    by (cases "gc_restore_copy 1 ?dv0 ?dv1 (img, rep, False)")
  obtain m2 rep2 c2 where b: "gc_restore_copy 3 ?bv0 ?bv1 (m1, rep1, c1) = (m2, rep2, c2)"
    by (cases "gc_restore_copy 3 ?bv0 ?bv1 (m1, rep1, c1)")
  have i: "img' = m2"
    using r a b unfolding sigil_gamecube_card_repair_def v
    by (auto simp: Let_def gc_block_at_def gc_consts split: prod.splits rc.splits option.splits)
  have p1: "m1 j = fst (gc_restore_copy 1 ?dv0 ?dv1 (img, rep, False)) j" for j unfolding a by simp
  have p2: "img' j = fst (gc_restore_copy 3 ?bv0 ?bv1 (m1, rep1, c1)) j" for j unfolding b i by simp
  have lo: "img' j = m1 j" if "j < 24576" for j unfolding p2 gc_restore_copy_apply using that by simp
  have hi: "m1 j = img j" if "j < 8192 \<or> 24576 \<le> j" for j unfolding p1 gc_restore_copy_apply using that by auto
  have out: "img' j = img j" if "j < 8192 \<or> 40960 \<le> j" for j
  proof -
    have "img' j = m1 j" unfolding p2 gc_restore_copy_apply using that by auto
    then show ?thesis using hi that by auto
  qed
  from v obtain d b' where n: "?n \<noteq> 0" "gc_header_valid img 0 ?n"
    and d: "gc_current_copy ?dv0 (sigil_read_be16 img (8192 + 0x1FFA)) ?dv1 (sigil_read_be16 img (16384 + 0x1FFA)) = Some d"
    and b': "gc_current_copy ?bv0 (sigil_read_be16 img (24576 + 4)) ?bv1 (sigil_read_be16 img (32768 + 4)) = Some b'"
    and vv: "v = gc_view ?n (1 + d) (3 + b')" unfolding gc_open_view_iff Let_def by blast
  have D: "gc_repaired gc_dir_valid 1 img img' \<and> gc_dir_valid img' 8192 \<and> gc_dir_valid img' 16384 \<and>
    (\<exists>d'. gc_current_copy (gc_dir_valid img' 8192) (sigil_read_be16 img' (8192 + 0x1FFA))
        (gc_dir_valid img' 16384) (sigil_read_be16 img' (16384 + 0x1FFA)) = Some d' \<and>
      same_block img' ((1 + d') * 8192) img ((1 + d) * 8192))"
    using gc_restore_pair [of gc_dir_valid "0x1FFA" img 1 d img' rep False, OF same_block_valid(1)] d p1 lo by auto
  have B: "gc_repaired gc_bat_valid 3 img img' \<and> gc_bat_valid img' 24576 \<and> gc_bat_valid img' 32768 \<and>
    (\<exists>d'. gc_current_copy (gc_bat_valid img' 24576) (sigil_read_be16 img' (24576 + 4))
        (gc_bat_valid img' 32768) (sigil_read_be16 img' (32768 + 4)) = Some d' \<and>
      same_block img' ((3 + d') * 8192) img ((3 + b') * 8192))"
  proof -
    have "img' j = fst (gc_restore_copy 3 ?bv0 ?bv1 (img, rep, False)) j" if "24576 \<le> j" "j < 40960" for j
    proof -
      have "m1 (j - 8192) = img (j - 8192)" if "32768 \<le> j" using that by (intro hi) linarith
      moreover have "m1 (j + 8192) = img (j + 8192)" "m1 j = img j" using \<open>24576 \<le> j\<close> by (intro hi; simp)+
      ultimately show ?thesis unfolding p2 gc_restore_copy_apply by auto
    qed
    then show ?thesis
      using gc_restore_pair [of gc_bat_valid 4 img 3 b' img' rep False, OF same_block_valid(2)] b' by auto
  qed
  from D obtain d' where d': "gc_current_copy (gc_dir_valid img' 8192) (sigil_read_be16 img' (8192 + 0x1FFA))
        (gc_dir_valid img' 16384) (sigil_read_be16 img' (16384 + 0x1FFA)) = Some d'"
    "same_block img' ((1 + d') * 8192) img ((1 + d) * 8192)" by blast
  from B obtain b'' where b'': "gc_current_copy (gc_bat_valid img' 24576) (sigil_read_be16 img' (24576 + 4))
        (gc_bat_valid img' 32768) (sigil_read_be16 img' (32768 + 4)) = Some b''"
    "same_block img' ((3 + b'') * 8192) img ((3 + b') * 8192)" by blast
  let ?v = "gc_view ?n (1 + d') (3 + b'')"
  have "gc_header_valid img' 0 ?n" using gc_header_cong [of img' img ?n] out n(2) by simp
  then have op: "gc_open_view img' siz = (SIGIL_OK, Some ?v)"
    unfolding gc_open_view_iff Let_def using n(1) d'(1) b''(1) by blast
  have ag: "gc_agree img v img' ?v {} 127"
    by (rule gc_same_lives) (use gc_open_view_ok(1) [OF v] d'(2) b''(2) vv out in simp_all)
  have rc: "rc = SIGIL_OK \<and> changed = c2"
  proof -
    obtain lst where "sigil_gamecube_card_list img' siz = (SIGIL_OK, Some lst)" by (rule gc_card_list [OF op])
    with r a b i show ?thesis unfolding sigil_gamecube_card_repair_def v
      by (auto simp: Let_def gc_block_at_def gc_consts)
  qed
  have "?dv0 \<or> ?dv1" "?bv0 \<or> ?bv1" using d b' by (auto simp: gc_current_copy_def split: if_splits)
  then have ch: "c2 = (\<not> (?dv0 \<and> ?dv1 \<and> ?bv0 \<and> ?bv1))"
    using a b by (auto simp: gc_restore_copy_def Let_def split: if_splits)
  have "gc_live img' ?v i = gc_live img v i \<and> gc_entry img' ?v i = gc_entry img v i \<and> gc_file img' ?v i = gc_file img v i"
    if "i < 127" for i
    using gc_agree_none_live(1) [OF ag, of i] gc_agree_none_live(2) [OF ag that] gc_agree_entry(7) [OF ag that] that by simp
  with op rc ch out D B show ?thesis by (auto simp: gc_block_at_def GC_BLOCK_SIZE_def)
qed

text \<open>The sample card with the checksum of its second directory off by one.\<close>

definition gc_sample_damaged :: mem where
  "gc_sample_damaged = sigil_write_be16 gc_sample_card 24572 (fst (sigil_gamecube_checksum gc_sample_card 16384 8188) + 1)"

lemma gc_sample_damaged_dir: "\<not> gc_dir_valid gc_sample_damaged 16384"
proof -
  have "sigil_gamecube_checksum gc_sample_damaged 16384 8188 = sigil_gamecube_checksum gc_sample_card 16384 8188"
    by (rule gc_checksum_cong) (simp add: gc_sample_damaged_def sigil_write_be16_def)
  moreover have "sigil_read_be16 gc_sample_damaged 24572 = fst (sigil_gamecube_checksum gc_sample_card 16384 8188) + 1"
    by (simp add: gc_sample_damaged_def)
  ultimately show ?thesis by (auto simp: gc_dir_valid_def gc_checksum_matches_def DIR_CHECKSUM_def split: prod.splits)
qed

lemma gc_sample_damaged_open: "gc_open_view gc_sample_damaged gc_sample_size = (SIGIL_OK, Some (gc_view 64 1 3))"
proof -
  obtain s ch where op: "gc_open_view gc_sample_card gc_sample_size = (SIGIL_OK, Some (gc_view 64 1 3))"
    using gc_inject_ok [OF gc_sample_open gc_sample_inject] by auto
  have out: "gc_sample_damaged j = gc_sample_card j" if "j < 24572 \<or> 24576 \<le> j" for j
    using that by (auto simp: gc_sample_damaged_def sigil_write_be16_def)
  have s: "same_block gc_sample_damaged 8192 gc_sample_card 8192" "same_block gc_sample_damaged 24576 gc_sample_card 24576"
    "same_block gc_sample_damaged 32768 gc_sample_card 32768" by (simp_all add: same_block_def out)
  have h: "gc_header_valid gc_sample_damaged 0 64 = gc_header_valid gc_sample_card 0 64" by (rule gc_header_cong) (simp add: out)
  show ?thesis
    using op gc_sample_damaged_dir h same_block_valid(1) [OF s(1)] same_block_valid(2) [OF s(2)] same_block_valid(2) [OF s(3)]
      same_block_read [OF s(2), of 4] same_block_read [OF s(3), of 4]
    unfolding gc_open_view_iff Let_def gc_sample_total by (auto simp: gc_current_copy_def gc_view_def split: if_splits)
qed

theorem gc_repair_restores_witness:
  "\<exists>img' rep'. sigil_gamecube_card_repair gc_sample_damaged gc_sample_size
     \<lparr>rr_format = SIGIL_CARD_FORMAT_GAMECUBE_RAW, rr_data = None, rr_entries = []\<rparr> = (SIGIL_OK, img', rep', True) \<and>
     \<not> gc_dir_valid gc_sample_damaged 16384 \<and> gc_dir_valid img' 16384 \<and>
     (\<forall>k < 8192. img' (16384 + k) = gc_sample_damaged (8192 + k) \<and> img' (8192 + k) = gc_sample_damaged (8192 + k))"
proof -
  let ?r = "sigil_gamecube_card_repair gc_sample_damaged gc_sample_size
     \<lparr>rr_format = SIGIL_CARD_FORMAT_GAMECUBE_RAW, rr_data = None, rr_entries = []\<rparr>"
  obtain rc img' rep' changed where r: "?r = (rc, img', rep', changed)" by (cases ?r)
  note t = gc_repair_restores [OF gc_sample_damaged_open r]
  have "gc_dir_valid gc_sample_damaged 8192" using gc_sample_damaged_open gc_sample_damaged_dir
    unfolding gc_open_view_iff Let_def by (auto simp: gc_current_copy_def split: if_splits)
  then show ?thesis using r t gc_sample_damaged_dir by (auto simp: gc_repaired_def same_block_def gc_block_at_def GC_BLOCK_SIZE_def)
qed

end
