(* ===== verification/ClockGb.thy ===== *)
theory ClockGb
  imports Prelude
begin

text \<open>
  Game Boy real-time clocks: \<^verbatim>\<open>src/src/clock_gb.c\<close>. The neutral clock is the record
  \<open>sigil_gb_clock\<close>; \<open>sigil_gb_clock_read\<close> and \<open>sigil_gb_clock_write\<close> convert it from and to the
  seven layouts emulators write.

  The signed 64-bit stamp is kept as its 64-bit word and read with \<open>sint\<close>. The output buffer of
  the writer holds the format's size; the writer returns it updated. Gambatte's start is a signed
  subtraction in C, undefined for a stamp within three years of the least 64-bit number; here it wraps.
\<close>

section \<open>The clock\<close>

record sigil_gb_clock =
  gb_seconds :: u8
  gb_minutes :: u8
  gb_hours :: u8
  gb_days :: u16
  gb_halted :: bool
  gb_carry :: bool
  gb_latched :: bytes
  gb_stamp :: u64

datatype sigil_gb_clock_format =
    SIGIL_GB_CLOCK_VBA
  | SIGIL_GB_CLOCK_VBA32
  | SIGIL_GB_CLOCK_MGBA
  | SIGIL_GB_CLOCK_GAMBATTE
  | SIGIL_GB_CLOCK_MESEN2
  | SIGIL_GB_CLOCK_SAMEBOY_LIBRETRO
  | SIGIL_GB_CLOCK_TGB_DUAL

definition DH_DAY_HIGH :: u32 where "DH_DAY_HIGH = 0x01"
definition DH_HALT :: u32 where "DH_HALT = 0x40"
definition DH_CARRY :: u32 where "DH_CARRY = 0x80"
definition DAY_LIMIT :: nat where "DAY_LIMIT = 512"
definition DAY_SECONDS :: nat where "DAY_SECONDS = 86400"

text \<open>\<^verbatim>\<open>memset(out, 0, sizeof(*out))\<close>.\<close>

definition gb_clock_zero :: sigil_gb_clock where
  "gb_clock_zero = \<lparr>gb_seconds = 0, gb_minutes = 0, gb_hours = 0, gb_days = 0, gb_halted = False,
     gb_carry = False, gb_latched = replicate 5 0, gb_stamp = 0\<rparr>"

definition gb_dh_of :: "sigil_gb_clock \<Rightarrow> u8" where
  "gb_dh_of c = ucast ((drop_bit 8 (ucast (gb_days c)) AND DH_DAY_HIGH)
     OR (if gb_halted c then DH_HALT else 0) OR (if gb_carry c then DH_CARRY else 0))"

definition gb_set_registers ::
    "sigil_gb_clock \<Rightarrow> u32 \<Rightarrow> u32 \<Rightarrow> u32 \<Rightarrow> u32 \<Rightarrow> u32 \<Rightarrow> sigil_gb_clock" where
  "gb_set_registers c s m h dl dh = c\<lparr>
     gb_seconds := ucast (s mod 60),
     gb_minutes := ucast (m mod 60),
     gb_hours := ucast (h mod 24),
     gb_days := (if 0xFF < dl then ucast (dl mod of_nat DAY_LIMIT)
                 else ucast (dl OR push_bit 8 (dh AND DH_DAY_HIGH))),
     gb_halted := (dh AND DH_HALT \<noteq> 0),
     gb_carry := (dh AND DH_CARRY \<noteq> 0)\<rparr>"

definition gb_set_from_seconds :: "sigil_gb_clock \<Rightarrow> u64 \<Rightarrow> sigil_gb_clock" where
  "gb_set_from_seconds c t = (let days = t div of_nat DAY_SECONDS in c\<lparr>
     gb_seconds := ucast (t mod 60),
     gb_minutes := ucast (t div 60 mod 60),
     gb_hours := ucast (t div 3600 mod 24),
     gb_carry := of_nat DAY_LIMIT \<le> days,
     gb_days := ucast (days mod of_nat DAY_LIMIT),
     gb_halted := False\<rparr>)"

definition gb_seconds_of :: "sigil_gb_clock \<Rightarrow> u64" where
  "gb_seconds_of c = ucast (gb_days c) * of_nat DAY_SECONDS + ucast (gb_hours c) * 3600
     + ucast (gb_minutes c) * 60 + ucast (gb_seconds c)"

definition gb_latch_current :: "sigil_gb_clock \<Rightarrow> sigil_gb_clock" where
  "gb_latch_current c =
     c\<lparr>gb_latched := [gb_seconds c, gb_minutes c, gb_hours c, ucast (gb_days c), gb_dh_of c]\<rparr>"

definition gb_latched_matches_current :: "sigil_gb_clock \<Rightarrow> bool" where
  "gb_latched_matches_current c = (gb_latched (gb_latch_current c) = gb_latched c)"

fun sigil_gb_clock_size :: "sigil_gb_clock_format \<Rightarrow> nat" where
  "sigil_gb_clock_size SIGIL_GB_CLOCK_VBA = 48"
| "sigil_gb_clock_size SIGIL_GB_CLOCK_VBA32 = 44"
| "sigil_gb_clock_size SIGIL_GB_CLOCK_MGBA = 48"
| "sigil_gb_clock_size SIGIL_GB_CLOCK_GAMBATTE = 8"
| "sigil_gb_clock_size SIGIL_GB_CLOCK_MESEN2 = 13"
| "sigil_gb_clock_size SIGIL_GB_CLOCK_SAMEBOY_LIBRETRO = 32"
| "sigil_gb_clock_size SIGIL_GB_CLOCK_TGB_DUAL = 4"

section \<open>Reading\<close>

text \<open>Five 32-bit registers from offset \<open>x\<close>, as the current registers of a zeroed clock, and the
  five latched ones from offset 20.\<close>

definition gb_vba_current :: "mem \<Rightarrow> nat \<Rightarrow> sigil_gb_clock" where
  "gb_vba_current p x = gb_set_registers gb_clock_zero (sigil_read_le32 p x) (sigil_read_le32 p (x + 4))
     (sigil_read_le32 p (x + 8)) (sigil_read_le32 p (x + 12)) (sigil_read_le32 p (x + 16))"

definition gb_vba_latched :: "mem \<Rightarrow> bytes" where
  "gb_vba_latched p = map (\<lambda>i. ucast (sigil_read_le32 p (20 + 4 * i))) [0..<5]"

definition gb_byte_registers :: "mem \<Rightarrow> sigil_gb_clock" where
  "gb_byte_registers p = gb_set_registers gb_clock_zero (ucast (p 0)) (ucast (p 1)) (ucast (p 2))
     (ucast (p 3)) (ucast (p 4))"

definition gb_read_body :: "sigil_gb_clock_format \<Rightarrow> mem \<Rightarrow> u64 \<Rightarrow> sigil_gb_clock \<times> bool" where
  "gb_read_body f p now = (case f of
     SIGIL_GB_CLOCK_VBA \<Rightarrow>
       ((gb_vba_current p 0)\<lparr>gb_latched := gb_vba_latched p, gb_stamp := sigil_read_le64 p 40\<rparr>, False)
   | SIGIL_GB_CLOCK_VBA32 \<Rightarrow>
       ((gb_vba_current p 0)\<lparr>gb_latched := gb_vba_latched p, gb_stamp := ucast (sigil_read_le32 p 40)\<rparr>, False)
   | SIGIL_GB_CLOCK_MGBA \<Rightarrow>
       ((gb_vba_current p 20)\<lparr>gb_latched := gb_vba_latched p, gb_stamp := sigil_read_le64 p 40\<rparr>, False)
   | SIGIL_GB_CLOCK_GAMBATTE \<Rightarrow>
       (gb_latch_current (gb_clock_zero\<lparr>gb_stamp := sigil_read_le64 p 0\<rparr>), True)
   | SIGIL_GB_CLOCK_MESEN2 \<Rightarrow>
       (gb_latch_current ((gb_byte_registers p)\<lparr>gb_stamp := sigil_read_be64 p 5 div 1000\<rparr>), True)
   | SIGIL_GB_CLOCK_SAMEBOY_LIBRETRO \<Rightarrow>
       ((gb_byte_registers p)\<lparr>gb_latched := bytes_at p 5 5, gb_stamp := sigil_read_le64 p 16\<rparr>, False)
   | SIGIL_GB_CLOCK_TGB_DUAL \<Rightarrow>
       (gb_latch_current ((gb_set_from_seconds gb_clock_zero (ucast (sigil_read_le32 p 0)))\<lparr>gb_stamp := now\<rparr>), True))"

text \<open>The clock and the lossy flag; the code alone on an error, which leaves both as they were.\<close>

definition sigil_gb_clock_read ::
    "sigil_gb_clock_format \<Rightarrow> mem \<Rightarrow> nat \<Rightarrow> u64 \<Rightarrow> rc + sigil_gb_clock \<times> bool" where
  "sigil_gb_clock_read f p len now =
     (if sigil_gb_clock_size f = 0 \<or> len \<noteq> sigil_gb_clock_size f then Inl SIGIL_ERR_UNSUPPORTED_FORMAT
      else Inr (gb_read_body f p now))"

section \<open>Writing\<close>

definition gb_put_words :: "mem \<Rightarrow> nat \<Rightarrow> u8 list \<Rightarrow> mem" where
  "gb_put_words out x vs = fold (\<lambda>i m. sigil_write_le32 m (x + 4 * i) (ucast (vs ! i))) [0..<length vs] out"

definition gb_current_bytes :: "sigil_gb_clock \<Rightarrow> bytes" where
  "gb_current_bytes c = [gb_seconds c, gb_minutes c, gb_hours c, ucast (gb_days c), gb_dh_of c]"

definition gb_put_vba_regs :: "mem \<Rightarrow> sigil_gb_clock \<Rightarrow> bytes \<Rightarrow> mem" where
  "gb_put_vba_regs out c latched = gb_put_words (gb_put_words out 0 (gb_current_bytes c)) 20 (take 5 latched)"

definition gb_put_bytes :: "mem \<Rightarrow> sigil_gb_clock \<Rightarrow> mem" where
  "gb_put_bytes out c = out(0 := gb_seconds c, 1 := gb_minutes c, 2 := gb_hours c,
     3 := ucast (gb_days c), 4 := gb_dh_of c)"

definition sigil_gb_clock_write ::
    "sigil_gb_clock_format \<Rightarrow> sigil_gb_clock \<Rightarrow> mem \<Rightarrow> rc \<times> mem \<times> bool" where
  "sigil_gb_clock_write f c out0 =
     (let out = memset out0 0 0 (sigil_gb_clock_size f);
          current = gb_latch_current c
      in case f of
           SIGIL_GB_CLOCK_VBA \<Rightarrow>
             (SIGIL_OK, sigil_write_le64 (gb_put_vba_regs out c (gb_latched c)) 40 (gb_stamp c), False)
         | SIGIL_GB_CLOCK_VBA32 \<Rightarrow>
             (SIGIL_OK, sigil_write_le32 (gb_put_vba_regs out c (gb_latched c)) 40 (ucast (gb_stamp c)),
              sint (gb_stamp c) < 0 \<or> 0xFFFFFFFF < sint (gb_stamp c))
         | SIGIL_GB_CLOCK_MGBA \<Rightarrow>
             (SIGIL_OK, sigil_write_le64 (gb_put_vba_regs out c (gb_latched current)) 40 (gb_stamp c), False)
         | SIGIL_GB_CLOCK_GAMBATTE \<Rightarrow>
             (SIGIL_OK, sigil_write_le64 out 0 (gb_stamp c - (gb_seconds_of c
                + (if gb_carry c then of_nat DAY_LIMIT * of_nat DAY_SECONDS else 0))),
              gb_halted c \<or> gb_carry c)
         | SIGIL_GB_CLOCK_MESEN2 \<Rightarrow>
             (SIGIL_OK, sigil_write_be64 (gb_put_bytes out c) 5 (gb_stamp c * 1000),
              \<not> gb_latched_matches_current c)
         | SIGIL_GB_CLOCK_SAMEBOY_LIBRETRO \<Rightarrow>
             (SIGIL_OK, sigil_write_le64 (memcpy (gb_put_bytes out c) 5 (mem_of (gb_latched c)) 0 5) 16 (gb_stamp c),
              False)
         | SIGIL_GB_CLOCK_TGB_DUAL \<Rightarrow>
             (SIGIL_OK, sigil_write_le32 out 0 (ucast (gb_seconds_of c)), True))"

section \<open>Well-formed clocks\<close>

text \<open>What the comments of \<^verbatim>\<open>sigil_gb_clock\<close> promise: the ranges of the registers and a five-byte
  latch.\<close>

definition gb_clock_ok :: "sigil_gb_clock \<Rightarrow> bool" where
  "gb_clock_ok c \<longleftrightarrow> gb_seconds c < 60 \<and> gb_minutes c < 60 \<and> gb_hours c < 24 \<and> gb_days c < 512 \<and>
     length (gb_latched c) = 5"

text \<open>The time, in Unix seconds, at which a running clock's counter was zero.\<close>

definition gb_epoch :: "sigil_gb_clock \<Rightarrow> u64" where
  "gb_epoch c = gb_stamp c - gb_seconds_of c"

section \<open>Reading gives a well-formed clock\<close>

lemma ucast_mod_less:
  fixes x :: u32 and m :: u32
  assumes "0 < m" "m \<le> 256"
  shows "unat (ucast (x mod m) :: u8) = unat x mod unat m"
proof -
  have "unat (x mod m) = unat x mod unat m" by (simp add: unat_mod)
  moreover have "unat m \<le> 256" using assms(2) by (simp add: word_le_nat_alt)
  moreover have "0 < unat m" using assms(1) by (simp add: word_less_nat_alt)
  ultimately have "unat (x mod m) < 256" by (metis less_le_trans mod_less_divisor)
  then show ?thesis using \<open>unat (x mod m) = _\<close> by (simp add: unsigned_ucast_eq take_bit_nat_eq_self)
qed

lemma gb_set_registers_ok:
  assumes "length (gb_latched c) = 5"
  shows "gb_clock_ok (gb_set_registers c s m h dl dh)"
proof -
  have "(ucast (dl mod 512) :: u16) < 512"
    by (simp add: word_less_nat_alt unsigned_ucast_eq unat_mod take_bit_nat_eq_self)
  moreover have "(ucast (dl OR push_bit 8 (dh AND 1)) :: u16) < 512" if "\<not> 0xFF < dl"
  proof -
    have "unat dl < 2 ^ 8" using that by (simp add: word_less_nat_alt word_le_nat_alt)
    then have "\<forall>i. 8 \<le> i \<longrightarrow> \<not> bit dl i" unfolding unat_less_iff_bits .
    then have "unat (ucast (dl OR push_bit 8 (dh AND 1)) :: u16) < 2 ^ 9"
      unfolding unat_less_iff_bits by (auto simp: bit_simps simp del: push_bit_and)
    then show ?thesis by (simp add: word_less_nat_alt)
  qed
  ultimately show ?thesis using assms
    by (simp add: gb_clock_ok_def gb_set_registers_def DAY_LIMIT_def DH_DAY_HIGH_def word_less_nat_alt ucast_mod_less)
qed

lemma gb_set_from_seconds_ok:
  "length (gb_latched c) = 5 \<Longrightarrow> gb_clock_ok (gb_set_from_seconds c t)"
  by (simp add: gb_clock_ok_def gb_set_from_seconds_def Let_def DAY_LIMIT_def DAY_SECONDS_def word_less_nat_alt
     unsigned_ucast_eq unat_mod take_bit_nat_eq_self)

lemma gb_days_back:
  assumes "gb_days c < 512"
  shows "ucast ((ucast (ucast (gb_days c) :: u8) :: u32) OR push_bit 8 (ucast (gb_dh_of c) AND DH_DAY_HIGH)) = gb_days c"
proof -
  have "unat (gb_days c) < 2 ^ 9" using assms by (simp add: word_less_nat_alt)
  then have hi: "\<not> bit (gb_days c) i" if "9 \<le> i" for i unfolding unat_less_iff_bits using that by blast
  show ?thesis
  proof (rule bit_word_eqI)
    fix i assume "i < LENGTH(16)"
    then consider "i < 8" | "i = 8" | "9 \<le> i" "i < 16" by (simp, linarith)
    then show "bit (ucast ((ucast (ucast (gb_days c) :: u8) :: u32) OR push_bit 8 (ucast (gb_dh_of c) AND DH_DAY_HIGH)) :: u16) i
        = bit (gb_days c) i"
      by cases (auto simp: bit_simps gb_dh_of_def DH_DAY_HIGH_def DH_HALT_def DH_CARRY_def hi flag_bits simp del: push_bit_and)
  qed
qed

lemma and_flag_iff:
  "(w :: u32) AND DH_HALT \<noteq> 0 \<longleftrightarrow> bit w 6" "w AND DH_CARRY \<noteq> 0 \<longleftrightarrow> bit w 7"
  unfolding bit_eq_iff [of "w AND _"] bit_and_iff DH_HALT_def DH_CARRY_def flag_bits by auto

lemma gb_flags_back:
  "ucast (gb_dh_of c) AND DH_HALT \<noteq> 0 \<longleftrightarrow> gb_halted c" "ucast (gb_dh_of c) AND DH_CARRY \<noteq> 0 \<longleftrightarrow> gb_carry c"
  unfolding and_flag_iff
  by (auto simp: gb_dh_of_def bit_simps flag_bits DH_HALT_def DH_CARRY_def DH_DAY_HIGH_def)

lemma ucast_mod_back:
  fixes x :: u8 and m :: u32
  assumes "unat x < unat m"
  shows "ucast (ucast x mod m) = x"
proof -
  have "ucast x mod m = (ucast x :: u32)"
    using assms by (intro word_unat_eq_iff [THEN iffD2]) (simp add: unat_mod unsigned_ucast_eq take_bit_nat_eq_self unat_word8_less [THEN less_trans])
  moreover have "ucast (ucast x :: u32) = x" by (rule bit_word_eqI) (simp add: bit_simps)
  ultimately show ?thesis by simp
qed

lemma gb_registers_back:
  assumes "gb_clock_ok c"
  shows "gb_set_registers z (ucast (gb_seconds c)) (ucast (gb_minutes c)) (ucast (gb_hours c))
      (ucast (ucast (gb_days c) :: u8)) (ucast (gb_dh_of c)) = c\<lparr>gb_latched := gb_latched z, gb_stamp := gb_stamp z\<rparr>"
proof -
  have dl: "\<not> 0xFF < (ucast (x :: u8) :: u32)" for x
    using unat_word8_less [of x] by (simp add: word_less_nat_alt unsigned_ucast_eq take_bit_nat_eq_self)
  have "unat (gb_seconds c) < 60" "unat (gb_minutes c) < 60" "unat (gb_hours c) < 24" "gb_days c < 512"
    using assms by (simp_all add: gb_clock_ok_def word_less_nat_alt)
  then show ?thesis
    unfolding gb_set_registers_def
    by (intro sigil_gb_clock.equality) (simp_all add: dl gb_days_back gb_flags_back ucast_mod_back del: push_bit_and)
qed

section \<open>Writing and reading back\<close>

lemma gb_put_words_5:
  "gb_put_words m x [a, b, c, d, e] = sigil_write_le32 (sigil_write_le32 (sigil_write_le32 (sigil_write_le32
     (sigil_write_le32 m x (ucast a)) (x + 4) (ucast b)) (x + 8) (ucast c)) (x + 12) (ucast d)) (x + 16) (ucast e)"
  by (simp add: gb_put_words_def upt_rec)

lemma gb_vba_regs_read:
  assumes "length l = 5" and "i < 5"
  shows "sigil_read_le32 (gb_put_vba_regs m c l) (4 * i) = ucast (gb_current_bytes c ! i)"
    and "sigil_read_le32 (gb_put_vba_regs m c l) (20 + 4 * i) = ucast (l ! i)"
proof -
  obtain a b d e f where l: "l = [a, b, d, e, f]"
    using assms(1) by (auto simp: length_Suc_conv numeral_eq_Suc)
  have i: "i = 0 \<or> i = 1 \<or> i = 2 \<or> i = 3 \<or> i = 4" using assms(2) by linarith
  show "sigil_read_le32 (gb_put_vba_regs m c l) (4 * i) = ucast (gb_current_bytes c ! i)"
    using i unfolding gb_put_vba_regs_def gb_current_bytes_def l by (auto simp: gb_put_words_5 rw_simps)
  show "sigil_read_le32 (gb_put_vba_regs m c l) (20 + 4 * i) = ucast (l ! i)"
    using i unfolding gb_put_vba_regs_def gb_current_bytes_def l by (auto simp: gb_put_words_5 rw_simps)
qed

lemma gb_vba_back:
  assumes ok: "gb_clock_ok c" and l: "length l = 5"
    and p: "\<And>x. x + 4 \<le> 40 \<Longrightarrow> sigil_read_le32 p x = sigil_read_le32 (gb_put_vba_regs m c l) x"
  shows "gb_vba_latched p = l"
    and "(gb_vba_current p 0)\<lparr>gb_latched := k, gb_stamp := t\<rparr> = c\<lparr>gb_latched := k, gb_stamp := t\<rparr>"
    and "l = gb_current_bytes c \<Longrightarrow> (gb_vba_current p 20)\<lparr>gb_latched := k, gb_stamp := t\<rparr> = c\<lparr>gb_latched := k, gb_stamp := t\<rparr>"
proof -
  have cur: "sigil_read_le32 p (4 * i) = ucast (gb_current_bytes c ! i)"
    and lat: "sigil_read_le32 p (20 + 4 * i) = ucast (l ! i)" if "i < 5" for i
    using gb_vba_regs_read [OF l that, of m c] p [of "4 * i"] p [of "20 + 4 * i"] that by simp_all
  show "gb_vba_latched p = l"
    using l by (intro nth_equalityI) (simp_all add: gb_vba_latched_def lat)
  show "(gb_vba_current p 0)\<lparr>gb_latched := k, gb_stamp := t\<rparr> = c\<lparr>gb_latched := k, gb_stamp := t\<rparr>"
    using cur [of 0] cur [of 1] cur [of 2] cur [of 3] cur [of 4] gb_registers_back [OF ok, of gb_clock_zero]
    by (simp add: gb_vba_current_def gb_current_bytes_def)
  show "(gb_vba_current p 20)\<lparr>gb_latched := k, gb_stamp := t\<rparr> = c\<lparr>gb_latched := k, gb_stamp := t\<rparr>" if "l = gb_current_bytes c"
    using lat [of 0] lat [of 1] lat [of 2] lat [of 3] lat [of 4] gb_registers_back [OF ok, of gb_clock_zero] that
    by (simp add: gb_vba_current_def gb_current_bytes_def)
qed

lemma gb_bytes_back:
  assumes "gb_clock_ok c" and "\<And>i. i < 5 \<Longrightarrow> p i = gb_put_bytes m c i"
  shows "(gb_byte_registers p)\<lparr>gb_latched := k, gb_stamp := t\<rparr> = c\<lparr>gb_latched := k, gb_stamp := t\<rparr>"
  using assms(2) [of 0] assms(2) [of 1] assms(2) [of 2] assms(2) [of 3] assms(2) [of 4]
    gb_registers_back [OF assms(1), of gb_clock_zero]
  by (simp add: gb_byte_registers_def gb_put_bytes_def)


lemma stamp32_back:
  assumes "\<not> sint (t :: u64) < 0" and "\<not> 0xFFFFFFFF < sint t"
  shows "ucast (ucast t :: u32) = t"
proof -
  have k: "uint t = sint t"
    using assms by (simp add: uint_sint take_bit_int_eq_self)
  then have "unat t < 2 ^ 32" using assms by (simp add: unat_eq_nat_uint nat_less_iff)
  then have "\<not> bit t i" if "32 \<le> i" for i unfolding unat_less_iff_bits using that by blast
  then show ?thesis by (intro bit_word_eqI) (auto simp: bit_simps not_le [symmetric])
qed

lemma stamp_ms_back:
  assumes "unat (t :: u64) * 1000 < 2 ^ 64"
  shows "t * 1000 div 1000 = t"
proof -
  have "unat (t * 1000) = unat t * 1000" using assms by (simp add: unat_word_ariths)
  then show ?thesis by (intro word_unat_eq_iff [THEN iffD2]) (simp add: unat_div)
qed

lemma stamp32_kept: "ucast (ucast (t :: u64) :: u32) = take_bit 32 t"
  by (rule bit_word_eqI) (auto simp: bit_simps)

text \<open>The seconds TGB Dual keeps, split into the registers again.\<close>

lemma gb_seconds_unat:
  assumes "gb_clock_ok c"
  shows "unat (gb_seconds_of c) = unat (gb_days c) * 86400 + unat (gb_hours c) * 3600 + unat (gb_minutes c) * 60 + unat (gb_seconds c)"
    "unat (gb_seconds_of c) < 2 ^ 32"
proof -
  have r: "unat (gb_days c) < 512" "unat (gb_hours c) < 24" "unat (gb_minutes c) < 60" "unat (gb_seconds c) < 60"
    using assms by (simp_all add: gb_clock_ok_def word_less_nat_alt)
  let ?n = "unat (gb_days c) * 86400 + unat (gb_hours c) * 3600 + unat (gb_minutes c) * 60 + unat (gb_seconds c)"
  have n: "?n < 2 ^ 32" using r by simp
  have "gb_seconds_of c = of_nat ?n" by (simp add: gb_seconds_of_def DAY_SECONDS_def)
  moreover have "unat (of_nat k :: u64) = k" if "k < 2 ^ 32" for k using that by (simp add: unat_of_nat take_bit_nat_eq_self)
  ultimately show "unat (gb_seconds_of c) = ?n" using n by (simp only:)
  then show "unat (gb_seconds_of c) < 2 ^ 32" using n by simp
qed

lemma gb_from_seconds:
  assumes "gb_clock_ok c"
  shows "gb_set_from_seconds z (ucast (ucast (gb_seconds_of c) :: u32)) =
    c\<lparr>gb_halted := False, gb_carry := False, gb_latched := gb_latched z, gb_stamp := gb_stamp z\<rparr>"
proof -
  have r: "unat (gb_days c) < 512" "unat (gb_hours c) < 24" "unat (gb_minutes c) < 60" "unat (gb_seconds c) < 60"
    using assms by (simp_all add: gb_clock_ok_def word_less_nat_alt)
  define t :: u64 where "t = ucast (ucast (gb_seconds_of c) :: u32)"
  define s where "s = unat (gb_days c) * 86400 + unat (gb_hours c) * 3600 + unat (gb_minutes c) * 60 + unat (gb_seconds c)"
  have t: "unat t = s"
  proof -
    have "take_bit 32 (unat (gb_seconds_of c)) = unat (gb_seconds_of c)"
      using gb_seconds_unat(2) [OF assms] by (rule take_bit_nat_eq_self)
    then have "unat t = unat (gb_seconds_of c)" by (simp add: t_def stamp32_kept unsigned_take_bit_eq)
    then show ?thesis using gb_seconds_unat(1) [OF assms] by (simp only: s_def)
  qed
  have s1: "s = 60 * (60 * (24 * unat (gb_days c) + unat (gb_hours c)) + unat (gb_minutes c)) + unat (gb_seconds c)"
    by (simp add: s_def)
  have dm: "(k * x + y) mod k = y" "(k * x + y) div k = x" if "y < k" for k x y :: nat using that by simp_all
  have m: "s mod 60 = unat (gb_seconds c)" "s div 60 = 60 * (24 * unat (gb_days c) + unat (gb_hours c)) + unat (gb_minutes c)"
    unfolding s1 by (rule dm [OF r(4)])+
  have s2: "s div 3600 = s div 60 div 60" "s div 86400 = s div 3600 div 24" by (simp_all flip: div_mult2_eq)
  have h: "s div 60 mod 60 = unat (gb_minutes c)" "s div 3600 = 24 * unat (gb_days c) + unat (gb_hours c)"
    unfolding s2(1) m(2) by (rule dm [OF r(3)])+
  have d: "s div 3600 mod 24 = unat (gb_hours c)" "s div 86400 = unat (gb_days c)"
    unfolding s2(2) h(2) by (rule dm [OF r(2)])+
  have u: "(ucast (x :: u64) :: u8) = y" if "unat x = unat y" for x y
    using that unat_word8_less [of y] by (intro word_unat_eq_iff [THEN iffD2]) (simp add: unsigned_ucast_eq take_bit_nat_eq_self)
  have u16: "(ucast (x :: u64) :: u16) = y" if "unat x = unat y" for x y
    using that unsigned_less [of y, where ?'a = nat] by (intro word_unat_eq_iff [THEN iffD2]) (simp add: unsigned_ucast_eq take_bit_nat_eq_self)
  have days: "unat (t div 86400) = unat (gb_days c)" using d(2) t by (simp add: unat_div)
  have "ucast (t mod 60) = gb_seconds c" by (rule u) (simp add: unat_mod t m)
  moreover have "ucast (t div 60 mod 60) = gb_minutes c" by (rule u) (simp add: unat_mod unat_div t h)
  moreover have "ucast (t div 3600 mod 24) = gb_hours c" by (rule u) (simp add: unat_mod unat_div t d)
  moreover have "ucast (t div 86400 mod 512) = gb_days c" by (rule u16) (simp add: unat_mod days r)
  moreover have "\<not> 512 \<le> t div 86400" using days r(1) by (simp add: word_le_nat_alt)
  ultimately show ?thesis
    unfolding gb_set_from_seconds_def Let_def t_def [symmetric] by (intro sigil_gb_clock.equality) (simp_all add: DAY_SECONDS_def DAY_LIMIT_def)
qed

lemma gb_put_words_outside:
  assumes "x + 4 * length vs \<le> i"
  shows "gb_put_words m x vs i = m i"
  unfolding gb_put_words_def
  by (rule fold_outside_regions [where R = "\<lambda>k. {x + 4 * k ..< x + 4 * k + 4}"])
     (use assms in \<open>auto simp: mem_simps\<close>)

lemma gb_write_outside:
  assumes "sigil_gb_clock_size f \<le> i"
  shows "fst (snd (sigil_gb_clock_write f c out)) i = out i"
  using assms
  by (cases f) (auto simp: sigil_gb_clock_write_def Let_def gb_put_vba_regs_def gb_current_bytes_def gb_put_bytes_def
      gb_put_words_outside write_le64_outside write_be64_outside mem_simps)

text \<open>What each layout gives back.\<close>

definition gb_back :: "sigil_gb_clock_format \<Rightarrow> u64 \<Rightarrow> sigil_gb_clock \<Rightarrow> sigil_gb_clock" where
  "gb_back f now c = (case f of
      SIGIL_GB_CLOCK_VBA \<Rightarrow> c
    | SIGIL_GB_CLOCK_VBA32 \<Rightarrow> c\<lparr>gb_stamp := take_bit 32 (gb_stamp c)\<rparr>
    | SIGIL_GB_CLOCK_MGBA \<Rightarrow> gb_latch_current c
    | SIGIL_GB_CLOCK_GAMBATTE \<Rightarrow> gb_clock_zero\<lparr>gb_stamp := gb_epoch c - (if gb_carry c then 512 * 86400 else 0)\<rparr>
    | SIGIL_GB_CLOCK_MESEN2 \<Rightarrow> gb_latch_current (c\<lparr>gb_stamp := gb_stamp c * 1000 div 1000\<rparr>)
    | SIGIL_GB_CLOCK_SAMEBOY_LIBRETRO \<Rightarrow> c
    | SIGIL_GB_CLOCK_TGB_DUAL \<Rightarrow> gb_latch_current (c\<lparr>gb_halted := False, gb_carry := False, gb_stamp := now\<rparr>))"

lemma gb_clock_back:
  assumes ok: "gb_clock_ok c" and wr: "sigil_gb_clock_write f c out = (rc, m, lossy)"
  shows "\<exists>l. sigil_gb_clock_read f m (sigil_gb_clock_size f) now = Inr (gb_back f now c, l)"
proof -
  have l: "length (gb_latched c) = 5" using ok by (simp add: gb_clock_ok_def)
  show ?thesis
  proof (cases f)
    case SIGIL_GB_CLOCK_VBA
    then have m: "m = sigil_write_le64 (gb_put_vba_regs (memset out 0 0 48) c (gb_latched c)) 40 (gb_stamp c)"
      using wr by (simp add: sigil_gb_clock_write_def Let_def)
    have "sigil_read_le32 m x = sigil_read_le32 (gb_put_vba_regs (memset out 0 0 48) c (gb_latched c)) x" if "x + 4 \<le> 40" for x
      using that by (simp add: m rw_simps)
    then have "gb_vba_latched m = gb_latched c" "(gb_vba_current m 0)\<lparr>gb_latched := k, gb_stamp := t\<rparr> = c\<lparr>gb_latched := k, gb_stamp := t\<rparr>" for k t
      using gb_vba_back(1,2) [OF ok l, where p = m] by simp_all
    then show ?thesis by (simp add: SIGIL_GB_CLOCK_VBA sigil_gb_clock_read_def gb_read_body_def gb_back_def m ex_bool_eq)
  next
    case SIGIL_GB_CLOCK_VBA32
    then have m: "m = sigil_write_le32 (gb_put_vba_regs (memset out 0 0 44) c (gb_latched c)) 40 (ucast (gb_stamp c))"
      using wr by (auto simp: sigil_gb_clock_write_def Let_def)
    have "sigil_read_le32 m x = sigil_read_le32 (gb_put_vba_regs (memset out 0 0 44) c (gb_latched c)) x" if "x + 4 \<le> 40" for x
      using that by (simp add: m rw_simps)
    then have "gb_vba_latched m = gb_latched c" "(gb_vba_current m 0)\<lparr>gb_latched := k, gb_stamp := t\<rparr> = c\<lparr>gb_latched := k, gb_stamp := t\<rparr>" for k t
      using gb_vba_back(1,2) [OF ok l, where p = m] by simp_all
    then show ?thesis by (simp add: SIGIL_GB_CLOCK_VBA32 sigil_gb_clock_read_def gb_read_body_def gb_back_def m stamp32_kept ex_bool_eq)
  next
    case SIGIL_GB_CLOCK_MGBA
    then have m: "m = sigil_write_le64 (gb_put_vba_regs (memset out 0 0 48) c (gb_current_bytes c)) 40 (gb_stamp c)"
      using wr by (simp add: sigil_gb_clock_write_def Let_def gb_latch_current_def gb_current_bytes_def)
    have l': "length (gb_current_bytes c) = 5" by (simp add: gb_current_bytes_def)
    have "sigil_read_le32 m x = sigil_read_le32 (gb_put_vba_regs (memset out 0 0 48) c (gb_current_bytes c)) x" if "x + 4 \<le> 40" for x
      using that by (simp add: m rw_simps)
    then have "gb_vba_latched m = gb_current_bytes c" "(gb_vba_current m 20)\<lparr>gb_latched := k, gb_stamp := t\<rparr> = c\<lparr>gb_latched := k, gb_stamp := t\<rparr>" for k t
      using gb_vba_back(1) [OF ok l', where p = m] gb_vba_back(3) [OF ok l' _ refl, where p = m] by simp_all
    then show ?thesis by (simp add: SIGIL_GB_CLOCK_MGBA sigil_gb_clock_read_def gb_read_body_def gb_back_def m gb_latch_current_def ex_bool_eq
        flip: gb_current_bytes_def)
  next
    case SIGIL_GB_CLOCK_GAMBATTE
    then have "sigil_read_le64 m 0 = gb_epoch c - (if gb_carry c then 512 * 86400 else 0)"
      using wr by (auto simp: sigil_gb_clock_write_def Let_def gb_epoch_def DAY_LIMIT_def DAY_SECONDS_def)
    then show ?thesis
      by (simp add: SIGIL_GB_CLOCK_GAMBATTE sigil_gb_clock_read_def gb_read_body_def gb_back_def gb_latch_current_def gb_clock_zero_def
          gb_dh_of_def numeral_eq_Suc ex_bool_eq)
  next
    case SIGIL_GB_CLOCK_MESEN2
    then have m: "m = sigil_write_be64 (gb_put_bytes (memset out 0 0 13) c) 5 (gb_stamp c * 1000)"
      using wr by (simp_all add: sigil_gb_clock_write_def Let_def)
    have b: "(gb_byte_registers m)\<lparr>gb_latched := k, gb_stamp := t\<rparr> = c\<lparr>gb_latched := k, gb_stamp := t\<rparr>" for k t
      by (rule gb_bytes_back [OF ok]) (simp add: m write_be64_outside)
    have r: "(gb_byte_registers m)\<lparr>gb_stamp := t\<rparr> = c\<lparr>gb_latched := gb_latched (gb_byte_registers m), gb_stamp := t\<rparr>" for t
      using b [where k = "gb_latched (gb_byte_registers m)" and t = t] by (cases "gb_byte_registers m") simp
    have "gb_latch_current ((gb_byte_registers m)\<lparr>gb_stamp := t\<rparr>) = gb_latch_current (c\<lparr>gb_stamp := t\<rparr>)" for t
      unfolding r by (simp add: gb_latch_current_def gb_dh_of_def)
    then show ?thesis by (simp add: SIGIL_GB_CLOCK_MESEN2 sigil_gb_clock_read_def gb_read_body_def gb_back_def m ex_bool_eq)
  next
    case SIGIL_GB_CLOCK_SAMEBOY_LIBRETRO
    then have m: "m = sigil_write_le64 (memcpy (gb_put_bytes (memset out 0 0 32) c) 5 (mem_of (gb_latched c)) 0 5) 16 (gb_stamp c)"
      using wr by (simp add: sigil_gb_clock_write_def Let_def)
    have "(gb_byte_registers m)\<lparr>gb_latched := k, gb_stamp := t\<rparr> = c\<lparr>gb_latched := k, gb_stamp := t\<rparr>" for k t
      by (rule gb_bytes_back [OF ok]) (simp add: m write_le64_outside memcpy_apply)
    moreover have "bytes_at m 5 5 = gb_latched c"
      using l by (intro nth_equalityI) (simp_all add: m write_le64_outside memcpy_apply mem_of_def)
    ultimately show ?thesis by (simp add: SIGIL_GB_CLOCK_SAMEBOY_LIBRETRO sigil_gb_clock_read_def gb_read_body_def gb_back_def m ex_bool_eq)
  next
    case SIGIL_GB_CLOCK_TGB_DUAL
    then have "sigil_read_le32 m 0 = ucast (gb_seconds_of c)" using wr by (auto simp: sigil_gb_clock_write_def Let_def)
    then show ?thesis
      by (simp add: SIGIL_GB_CLOCK_TGB_DUAL sigil_gb_clock_read_def gb_read_body_def gb_back_def gb_from_seconds [OF ok]
          gb_latch_current_def gb_dh_of_def ex_bool_eq)
  qed
qed

text \<open>What a write that is not lossy keeps.\<close>

lemma gb_back_epoch:
  assumes wr: "sigil_gb_clock_write f c out = (rc, m, lossy)" and l: "\<not> lossy"
    and ms: "f = SIGIL_GB_CLOCK_MESEN2 \<longrightarrow> unat (gb_stamp c) * 1000 < 2 ^ 64"
  shows "gb_epoch (gb_back f now c) = gb_epoch c" "f \<notin> {SIGIL_GB_CLOCK_GAMBATTE, SIGIL_GB_CLOCK_MGBA} \<longrightarrow> gb_back f now c = c"
proof -
  have e: "gb_epoch (gb_latch_current c) = gb_epoch c" "gb_epoch (gb_clock_zero\<lparr>gb_stamp := t\<rparr>) = t" for t
    by (simp_all add: gb_epoch_def gb_seconds_of_def gb_latch_current_def gb_clock_zero_def)
  have same: "gb_back f now c = c" if "f \<notin> {SIGIL_GB_CLOCK_GAMBATTE, SIGIL_GB_CLOCK_MGBA}"
  proof (cases f)
    case SIGIL_GB_CLOCK_VBA32
    then have "take_bit 32 (gb_stamp c) = gb_stamp c"
      using wr l stamp32_back [of "gb_stamp c"] by (auto simp: sigil_gb_clock_write_def Let_def stamp32_kept)
    then show ?thesis by (simp add: gb_back_def SIGIL_GB_CLOCK_VBA32)
  next
    case SIGIL_GB_CLOCK_MESEN2
    then have "gb_latched (gb_latch_current c) = gb_latched c" using wr l
      by (simp add: sigil_gb_clock_write_def Let_def gb_latched_matches_current_def)
    then have "gb_latch_current c = c" by (cases c) (simp add: gb_latch_current_def)
    moreover have "gb_stamp c * 1000 div 1000 = gb_stamp c" using ms SIGIL_GB_CLOCK_MESEN2 by (intro stamp_ms_back) simp
    ultimately show ?thesis by (simp add: gb_back_def SIGIL_GB_CLOCK_MESEN2)
  next
    case SIGIL_GB_CLOCK_TGB_DUAL
    then show ?thesis using wr l by (simp add: sigil_gb_clock_write_def Let_def)
  qed (use that in \<open>simp_all add: gb_back_def\<close>)
  then show "f \<notin> {SIGIL_GB_CLOCK_GAMBATTE, SIGIL_GB_CLOCK_MGBA} \<longrightarrow> gb_back f now c = c" by blast
  show "gb_epoch (gb_back f now c) = gb_epoch c"
  proof (cases "f \<in> {SIGIL_GB_CLOCK_GAMBATTE, SIGIL_GB_CLOCK_MGBA}")
    case True
    then show ?thesis
    proof (elim insertE)
      assume g: "f = SIGIL_GB_CLOCK_GAMBATTE"
      then have "\<not> gb_carry c" using wr l by (auto simp: sigil_gb_clock_write_def Let_def)
      then show ?thesis by (simp add: gb_back_def g e)
    qed (simp_all add: gb_back_def e)
  qed (simp add: same)
qed

text \<open>C33 (round trip). A clock whose registers are in range is written in every layout, nothing past the
  layout's size is touched, and the file read back is, layout by layout, the clock itself but for what the
  layout has no room for: VBA32 keeps the low 32 bits of the stamp, mGBA and Mesen2 store no latch and read
  the current registers as it, Mesen2's stamp goes through unsigned milliseconds, gambatte keeps only the
  moment the count started, and TGB Dual neither stamp nor flags. A layout not reported as lossy keeps that
  moment, but for Mesen2 stamps that do not fit its milliseconds, and then all of the clock in the
  layouts that have registers and a latch.\<close>

theorem gb_clock_roundtrip:
  assumes ok: "gb_clock_ok c" and wr: "sigil_gb_clock_write f c out = (rc, m, lossy)"
  shows "rc = SIGIL_OK \<and> (\<forall>i \<ge> sigil_gb_clock_size f. m i = out i) \<and>
    (\<exists>c' l. sigil_gb_clock_read f m (sigil_gb_clock_size f) now = Inr (c', l) \<and>
       c' = (case f of
          SIGIL_GB_CLOCK_VBA \<Rightarrow> c
        | SIGIL_GB_CLOCK_VBA32 \<Rightarrow> c\<lparr>gb_stamp := take_bit 32 (gb_stamp c)\<rparr>
        | SIGIL_GB_CLOCK_MGBA \<Rightarrow> gb_latch_current c
        | SIGIL_GB_CLOCK_GAMBATTE \<Rightarrow> gb_clock_zero\<lparr>gb_stamp := gb_epoch c - (if gb_carry c then 512 * 86400 else 0)\<rparr>
        | SIGIL_GB_CLOCK_MESEN2 \<Rightarrow> gb_latch_current (c\<lparr>gb_stamp := gb_stamp c * 1000 div 1000\<rparr>)
        | SIGIL_GB_CLOCK_SAMEBOY_LIBRETRO \<Rightarrow> c
        | SIGIL_GB_CLOCK_TGB_DUAL \<Rightarrow> gb_latch_current (c\<lparr>gb_halted := False, gb_carry := False, gb_stamp := now\<rparr>)) \<and>
       (\<not> lossy \<and> (f = SIGIL_GB_CLOCK_MESEN2 \<longrightarrow> unat (gb_stamp c) * 1000 < 2 ^ 64) \<longrightarrow>
          gb_epoch c' = gb_epoch c \<and> (f \<notin> {SIGIL_GB_CLOCK_GAMBATTE, SIGIL_GB_CLOCK_MGBA} \<longrightarrow> c' = c)))"
proof -
  have out: "\<forall>i \<ge> sigil_gb_clock_size f. m i = out i" using gb_write_outside [of f _ c out] wr by simp
  have "rc = SIGIL_OK" using wr by (cases f) (simp_all add: sigil_gb_clock_write_def Let_def)
  with out gb_clock_back [OF ok wr, of now] gb_back_epoch [OF wr, of now] show ?thesis
    unfolding gb_back_def by blast
qed

text \<open>A clock in use: 12:34:56 on day 300, halted, in the 48-byte layout.\<close>

definition gb_demo :: sigil_gb_clock where
  "gb_demo = \<lparr>gb_seconds = 56, gb_minutes = 34, gb_hours = 12, gb_days = 300, gb_halted = True, gb_carry = False,
     gb_latched = [1, 2, 3, 4, 5], gb_stamp = 1700000000\<rparr>"

theorem gb_clock_roundtrip_witness:
  "(\<exists>l. sigil_gb_clock_read SIGIL_GB_CLOCK_VBA
      (fst (snd (sigil_gb_clock_write SIGIL_GB_CLOCK_VBA gb_demo (\<lambda>_. 0)))) 48 0 = Inr (gb_demo, l)) \<and>
   (\<exists>c' l. sigil_gb_clock_read SIGIL_GB_CLOCK_TGB_DUAL
      (fst (snd (sigil_gb_clock_write SIGIL_GB_CLOCK_TGB_DUAL gb_demo (\<lambda>_. 0)))) 4 7 = Inr (c', l) \<and>
      gb_days c' = 300 \<and> gb_hours c' = 12 \<and> gb_minutes c' = 34 \<and> gb_seconds c' = 56 \<and> gb_stamp c' = 7)"
proof -
  have ok: "gb_clock_ok gb_demo" by (simp add: gb_clock_ok_def gb_demo_def)
  obtain m where m: "sigil_gb_clock_write SIGIL_GB_CLOCK_VBA gb_demo (\<lambda>_. 0) = (SIGIL_OK, m, False)"
    by (simp add: sigil_gb_clock_write_def Let_def)
  obtain m' where m': "sigil_gb_clock_write SIGIL_GB_CLOCK_TGB_DUAL gb_demo (\<lambda>_. 0) = (SIGIL_OK, m', True)"
    by (simp add: sigil_gb_clock_write_def Let_def)
  have "\<exists>l. sigil_gb_clock_read SIGIL_GB_CLOCK_VBA m 48 0 = Inr (gb_demo, l)"
    using gb_clock_roundtrip [OF ok m, of 0] by auto
  moreover obtain l where "sigil_gb_clock_read SIGIL_GB_CLOCK_TGB_DUAL m' 4 7 =
      Inr (gb_latch_current (gb_demo\<lparr>gb_halted := False, gb_carry := False, gb_stamp := 7\<rparr>), l)"
    using gb_clock_roundtrip [OF ok m', of 7] by auto
  ultimately show ?thesis unfolding m m' by (simp add: gb_latch_current_def) (simp add: gb_demo_def)
qed

text \<open>C34 (type). Whatever the bytes, a file of the layout's length is read, any other length is
  refused, and the clock read has its seconds and minutes below 60, its hours below 24, its day
  count below 512 and a latch of five bytes.\<close>

theorem gb_clock_read_ok:
  "case sigil_gb_clock_read f p len now of
     Inl e \<Rightarrow> e = SIGIL_ERR_UNSUPPORTED_FORMAT \<and> len \<noteq> sigil_gb_clock_size f
   | Inr (c, lossy) \<Rightarrow> len = sigil_gb_clock_size f \<and> gb_clock_ok c \<and>
       (lossy \<longleftrightarrow> f \<in> {SIGIL_GB_CLOCK_GAMBATTE, SIGIL_GB_CLOCK_MESEN2, SIGIL_GB_CLOCK_TGB_DUAL})"
proof -
  have z: "length (gb_latched gb_clock_zero) = 5" by (simp add: gb_clock_zero_def)
  have cur: "gb_clock_ok ((gb_set_registers gb_clock_zero s m h dl dh)\<lparr>gb_latched := k, gb_stamp := t\<rparr>)"
    if "length k = 5" for s m h dl dh k t
    using gb_set_registers_ok [OF z, of s m h dl dh] that by (simp add: gb_clock_ok_def)
  have latch: "gb_clock_ok (gb_latch_current (c\<lparr>gb_stamp := t\<rparr>))" if "gb_clock_ok c" for c t
    using that by (simp add: gb_clock_ok_def gb_latch_current_def)
  have "gb_clock_ok gb_clock_zero" by (simp add: gb_clock_ok_def gb_clock_zero_def)
  then have "gb_clock_ok (fst (gb_read_body f p now)) \<and> (snd (gb_read_body f p now) \<longleftrightarrow>
      f \<in> {SIGIL_GB_CLOCK_GAMBATTE, SIGIL_GB_CLOCK_MESEN2, SIGIL_GB_CLOCK_TGB_DUAL})"
    by (cases f) (simp_all add: gb_read_body_def gb_vba_current_def gb_byte_registers_def gb_vba_latched_def cur latch
        gb_set_registers_ok gb_set_from_seconds_ok z)
  moreover have "sigil_gb_clock_size f \<noteq> 0" by (cases f) simp_all
  ultimately show ?thesis by (auto simp: sigil_gb_clock_read_def split: prod.split)
qed

text \<open>A Mesen2 clock whose stamp lies before 1970 is reported as kept, and read back at a
  different time: the milliseconds are written as an unsigned number.\<close>

lemma gb_mesen_negative_stamp:
  "\<exists>m. sigil_gb_clock_write SIGIL_GB_CLOCK_MESEN2 (gb_latch_current (gb_demo\<lparr>gb_stamp := -1\<rparr>)) (\<lambda>_. 0) =
       (SIGIL_OK, m, False) \<and> sigil_read_be64 m 5 div 1000 \<noteq> -1"
  by (simp add: sigil_gb_clock_write_def Let_def gb_latched_matches_current_def gb_latch_current_def gb_dh_of_def)

end
