(* ===== verification/N64Save.thy ===== *)
theory N64Save
  imports Prelude
begin

text \<open>
  N64 cartridge saves: \<^verbatim>\<open>src/src/n64_save.c\<close>. A save is the record \<open>n64_save\<close> of the seven
  regions in bus order; \<open>n64_take\<close> fills a region from an emulator's file and \<open>n64_give\<close> writes
  one; \<open>n64_take_blob\<close> and \<open>n64_give_blob\<close> do it for the libretro file that holds them all.

  A region is its number in the enumeration (0 the EEPROM, 1 to 4 the paks, 5 SRAM, 6 flash).
\<close>

section \<open>The save\<close>

definition N64_EEPROM_4K :: nat where "N64_EEPROM_4K = 0x200"
definition N64_EEPROM_MAX :: nat where "N64_EEPROM_MAX = 0x800"
definition N64_PAK_SIZE :: nat where "N64_PAK_SIZE = 0x8000"
definition N64_SRAM_SIZE :: nat where "N64_SRAM_SIZE = 0x8000"
definition N64_FLASH_SIZE :: nat where "N64_FLASH_SIZE = 0x20000"
definition N64_BLOB_SIZE :: nat where "N64_BLOB_SIZE = 0x48800"

definition BLOB_EEPROM :: nat where "BLOB_EEPROM = 0x0"
definition BLOB_PAKS :: nat where "BLOB_PAKS = 0x800"
definition BLOB_SRAM :: nat where "BLOB_SRAM = 0x20800"
definition BLOB_FLASH :: nat where "BLOB_FLASH = 0x28800"

definition PAK_INDEX_FIRST :: nat where "PAK_INDEX_FIRST = 0x10A"
definition PAK_INDEX_END :: nat where "PAK_INDEX_END = 0x200"
definition PAK_INODE_FREE :: u16 where "PAK_INODE_FREE = 0x0003"

definition N64_EEPROM :: nat where "N64_EEPROM = 0"
definition N64_PAK1 :: nat where "N64_PAK1 = 1"
definition N64_PAK4 :: nat where "N64_PAK4 = 4"
definition N64_SRAM :: nat where "N64_SRAM = 5"
definition N64_FLASH :: nat where "N64_FLASH = 6"
definition N64_REGION_COUNT :: nat where "N64_REGION_COUNT = 7"

lemmas n64_sizes = N64_EEPROM_4K_def N64_EEPROM_MAX_def N64_PAK_SIZE_def N64_SRAM_SIZE_def N64_FLASH_SIZE_def
  N64_BLOB_SIZE_def BLOB_EEPROM_def BLOB_PAKS_def BLOB_SRAM_def BLOB_FLASH_def
lemmas n64_regions = N64_EEPROM_def N64_PAK1_def N64_PAK4_def N64_SRAM_def N64_FLASH_def N64_REGION_COUNT_def

record n64_save =
  n64_eeprom :: mem
  n64_eeprom_len :: nat
  n64_pak :: "nat \<Rightarrow> mem"
  n64_sram :: mem
  n64_flash :: mem
  n64_present :: "nat \<Rightarrow> bool"

text \<open>\<^verbatim>\<open>calloc(1, sizeof(n64_save))\<close>.\<close>

definition n64_save_zero :: n64_save where
  "n64_save_zero = \<lparr>n64_eeprom = (\<lambda>_. 0), n64_eeprom_len = 0, n64_pak = (\<lambda>_ _. 0), n64_sram = (\<lambda>_. 0),
     n64_flash = (\<lambda>_. 0), n64_present = (\<lambda>_. False)\<rparr>"

definition N64_NAMES :: "bytes list" where
  "N64_NAMES = map str [''eeprom'', ''pak1'', ''pak2'', ''pak3'', ''pak4'', ''sram'', ''flash'']"

definition n64_region_name :: "int \<Rightarrow> bytes option" where
  "n64_region_name region =
     (if 0 \<le> region \<and> region < int N64_REGION_COUNT then Some (N64_NAMES ! nat region) else None)"

definition n64_region_of :: "bytes \<Rightarrow> int" where
  "n64_region_of name = (case find (\<lambda>r. N64_NAMES ! r = name) [0..<N64_REGION_COUNT] of
     Some r \<Rightarrow> int r | None \<Rightarrow> -1)"

definition n64_full_size :: "nat \<Rightarrow> nat" where
  "n64_full_size region =
     (if region = N64_EEPROM then N64_EEPROM_MAX
      else if region = N64_SRAM then N64_SRAM_SIZE
      else if region = N64_FLASH then N64_FLASH_SIZE
      else N64_PAK_SIZE)"

text \<open>The buffer of a region, and the save with the buffer replaced.\<close>

definition n64_buf :: "n64_save \<Rightarrow> nat \<Rightarrow> mem" where
  "n64_buf s region =
     (if region = N64_EEPROM then n64_eeprom s
      else if region = N64_SRAM then n64_sram s
      else if region = N64_FLASH then n64_flash s
      else n64_pak s (region - N64_PAK1))"

definition n64_set_buf :: "n64_save \<Rightarrow> nat \<Rightarrow> mem \<Rightarrow> n64_save" where
  "n64_set_buf s region m =
     (if region = N64_EEPROM then s\<lparr>n64_eeprom := m\<rparr>
      else if region = N64_SRAM then s\<lparr>n64_sram := m\<rparr>
      else if region = N64_FLASH then s\<lparr>n64_flash := m\<rparr>
      else s\<lparr>n64_pak := (n64_pak s)(region - N64_PAK1 := m)\<rparr>)"

text \<open>\<^verbatim>\<open>n64_region_bytes\<close>: the buffer and the length it holds.\<close>

definition n64_region_bytes :: "n64_save \<Rightarrow> nat \<Rightarrow> mem \<times> nat" where
  "n64_region_bytes s region =
     (n64_buf s region, if region = N64_EEPROM then n64_eeprom_len s else n64_full_size region)"

definition n64_swapped :: "nat \<Rightarrow> bool" where
  "n64_swapped region = (region = N64_SRAM \<or> region = N64_FLASH)"

section \<open>The byte order of SRAM and flash\<close>

definition n64_swap_group :: "nat \<Rightarrow> nat \<Rightarrow> mem \<Rightarrow> mem" where
  "n64_swap_group p k m = (let i = p + 4 * k in
     m(i := m (i + 3), i + 1 := m (i + 2), i + 2 := m (i + 1), i + 3 := m i))"

definition n64_swap32 :: "mem \<Rightarrow> nat \<Rightarrow> nat \<Rightarrow> mem" where
  "n64_swap32 m p len = fold (n64_swap_group p) [0..<len div 4] m"

section \<open>Controller paks\<close>

definition N64_ID_TAIL :: bytes where
  "N64_ID_TAIL = [0x00, 0x01, 0x01, 0x00, 0x01, 0x01, 0xFE, 0xF1]"

definition N64_ID_BLOCKS :: "nat list" where
  "N64_ID_BLOCKS = [0x20, 0x60, 0x80, 0xC0]"

text \<open>The offsets of the inodes of the index page.\<close>

definition n64_pak_inodes :: "nat list" where
  "n64_pak_inodes = map (\<lambda>k. PAK_INDEX_FIRST + 2 * k) [0..<(PAK_INDEX_END - PAK_INDEX_FIRST) div 2]"

definition n64_pak_formatted :: "mem \<Rightarrow> nat \<Rightarrow> mem" where
  "n64_pak_formatted out p =
     (let out = memset out p 0 N64_PAK_SIZE;
          out = fold (\<lambda>b m. memcpy m (p + b + 0x18) (mem_of N64_ID_TAIL) 0 (length N64_ID_TAIL)) N64_ID_BLOCKS out;
          out = fold (\<lambda>at m. m(p + at + 1 := ucast PAK_INODE_FREE)) n64_pak_inodes out;
          out = out(p + 0x101 := 0x71)
      in memcpy out (p + 0x200) out (p + 0x100) 0x100)"

definition n64_written :: "mem \<Rightarrow> nat \<Rightarrow> nat \<Rightarrow> bool" where
  "n64_written m p len = list_ex (\<lambda>i. m (p + i) \<noteq> 0x00 \<and> m (p + i) \<noteq> 0xFF) [0..<len]"

definition n64_pak_used :: "mem \<Rightarrow> bool" where
  "n64_pak_used pak =
     (list_ex (\<lambda>at. sigil_read_be16 pak at \<noteq> PAK_INODE_FREE) n64_pak_inodes \<and> n64_written pak 0 N64_PAK_SIZE)"

section \<open>Taking and giving a region\<close>

text \<open>The file starts at offset \<open>p\<close> of \<open>data\<close> and holds \<open>len\<close> bytes.\<close>

definition n64_take :: "n64_save \<Rightarrow> nat \<Rightarrow> mem \<Rightarrow> nat \<Rightarrow> nat \<Rightarrow> n64_save" where
  "n64_take s region data p len =
     (let full = n64_full_size region;
          n = (if len < full then len else full);
          buf = memset (memcpy (n64_buf s region) 0 data p n) n 0xFF (full - n);
          buf = (if n64_swapped region then n64_swap32 buf 0 full else buf);
          s = n64_set_buf s region buf
      in if region = N64_EEPROM then
           let elen = (if n64_written buf N64_EEPROM_4K (N64_EEPROM_MAX - N64_EEPROM_4K)
                       then N64_EEPROM_MAX else N64_EEPROM_4K)
           in s\<lparr>n64_eeprom_len := elen, n64_present := (n64_present s)(region := n64_written buf 0 elen)\<rparr>
         else s\<lparr>n64_present := (n64_present s)(region :=
             (if N64_PAK1 \<le> region \<and> region \<le> N64_PAK4 then n64_pak_used buf else n64_written buf 0 full))\<rparr>)"

definition n64_take_neutral :: "n64_save \<Rightarrow> int \<Rightarrow> mem \<Rightarrow> nat \<Rightarrow> bool \<times> n64_save" where
  "n64_take_neutral s region data len =
     (if region < 0 \<or> int N64_REGION_COUNT \<le> region then (False, s)
      else let r = nat region in
        if (if r = N64_EEPROM then len \<noteq> N64_EEPROM_4K \<and> len \<noteq> N64_EEPROM_MAX else len \<noteq> n64_full_size r)
        then (False, s)
        else
          let s = (if r = N64_EEPROM then s\<lparr>n64_eeprom_len := len\<rparr> else s);
              s = n64_set_buf s r (memcpy (fst (n64_region_bytes s r)) 0 data 0 len)
          in (True, s\<lparr>n64_present := (n64_present s)(r := True)\<rparr>))"

definition N64_AT :: "nat list" where
  "N64_AT = [BLOB_EEPROM, BLOB_PAKS, BLOB_PAKS + N64_PAK_SIZE, BLOB_PAKS + 2 * N64_PAK_SIZE,
     BLOB_PAKS + 3 * N64_PAK_SIZE, BLOB_SRAM, BLOB_FLASH]"

definition n64_take_blob_region :: "mem \<Rightarrow> nat \<Rightarrow> nat \<Rightarrow> n64_save \<Rightarrow> n64_save" where
  "n64_take_blob_region blob len r s =
     (let at = N64_AT ! r;
          have_len = (if at < len then len - at else 0)
      in n64_take s r blob (if have_len \<noteq> 0 then at else 0)
           (if have_len < n64_full_size r then have_len else n64_full_size r))"

definition n64_take_blob :: "n64_save \<Rightarrow> mem \<Rightarrow> nat \<Rightarrow> n64_save" where
  "n64_take_blob s blob len = fold (n64_take_blob_region blob len) [0..<N64_REGION_COUNT] s"

text \<open>\<open>n64_give\<close> writes at offset \<open>p\<close> of \<open>out\<close>; it returns the region's full size.\<close>

definition n64_give :: "n64_save \<Rightarrow> nat \<Rightarrow> mem \<Rightarrow> nat \<Rightarrow> nat \<times> mem" where
  "n64_give s region out p =
     (let full = n64_full_size region;
          (src, len) = n64_region_bytes s region;
          out = memcpy (memset out p 0xFF full) p src 0 len
      in (full, if n64_swapped region then n64_swap32 out p full else out))"

text \<open>\<open>existing\<close> is the file to keep unused regions from, when there is one: its bytes and length.\<close>

definition n64_give_region ::
    "n64_save \<Rightarrow> n64_save option \<Rightarrow> mem \<Rightarrow> nat \<Rightarrow> mem \<times> nat \<Rightarrow> mem \<times> nat" where
  "n64_give_region s old existing r st =
     (let (out, at) = st; full = n64_full_size r
      in ((if n64_present s r then snd (n64_give s r out at)
           else if (case old of Some old \<Rightarrow> \<not> n64_present old r | None \<Rightarrow> False) then memcpy out at existing at full
           else if N64_PAK1 \<le> r \<and> r \<le> N64_PAK4 then n64_pak_formatted out at
           else memset out at 0xFF full),
          at + full))"

definition n64_give_blob :: "n64_save \<Rightarrow> (mem \<times> nat) option \<Rightarrow> mem \<Rightarrow> mem" where
  "n64_give_blob s existing out =
     (let old = (case existing of
                   Some (m, len) \<Rightarrow> if N64_BLOB_SIZE \<le> len then Some (n64_take_blob n64_save_zero m len) else None
                 | None \<Rightarrow> None);
          em = (case existing of Some (m, len) \<Rightarrow> m | None \<Rightarrow> (\<lambda>_. 0))
      in fst (fold (n64_give_region s old em) [0..<N64_REGION_COUNT] (out, 0)))"

section \<open>Swapping\<close>

definition n64_sw :: "nat \<Rightarrow> nat" where "n64_sw j = 4 * (j div 4) + (3 - j mod 4)"

lemma n64_sw_simps [simp]: "n64_sw (4 * k) = 4 * k + 3" "n64_sw (4 * k + 1) = 4 * k + 2" "n64_sw (4 * k + 2) = 4 * k + 1"
  "n64_sw (4 * k + 3) = 4 * k"
proof -
  have "n64_sw (4 * k + t) = 4 * k + (3 - t)" if "t < 4" for t
    using that by (simp add: n64_sw_def)
  from this [of 0] this [of 1] this [of 2] this [of 3]
  show "n64_sw (4 * k) = 4 * k + 3" "n64_sw (4 * k + 1) = 4 * k + 2" "n64_sw (4 * k + 2) = 4 * k + 1"
    "n64_sw (4 * k + 3) = 4 * k" by simp_all
qed

lemma n64_sw_group: "4 * k \<le> j \<Longrightarrow> j < 4 * k + 4 \<Longrightarrow> 4 * k \<le> n64_sw j \<and> n64_sw j < 4 * k + 4"
proof -
  assume "4 * k \<le> j" "j < 4 * k + 4"
  then have "j = 4 * k \<or> j = 4 * k + 1 \<or> j = 4 * k + 2 \<or> j = 4 * k + 3" by linarith
  then show ?thesis by (elim disjE) (simp_all only: n64_sw_simps, simp_all)
qed

lemma n64_sw_sw [simp]: "n64_sw (n64_sw j) = j"
proof -
  have r: "j = 4 * (j div 4) + j mod 4" by simp
  moreover have "j mod 4 = 0 \<or> j mod 4 = 1 \<or> j mod 4 = 2 \<or> j mod 4 = 3" by linarith
  ultimately show ?thesis by (metis add.right_neutral n64_sw_simps)
qed

lemma n64_sw_less: "j < len \<Longrightarrow> len mod 4 = 0 \<Longrightarrow> n64_sw j < len"
  unfolding n64_sw_def by presburger

lemma n64_swap_group_apply:
  "n64_swap_group p k m i = (if p + 4 * k \<le> i \<and> i < p + 4 * k + 4 then m (p + n64_sw (i - p)) else m i)"
proof (cases "p + 4 * k \<le> i \<and> i < p + 4 * k + 4")
  case True
  then have "i = p + 4 * k \<or> i = p + (4 * k + 1) \<or> i = p + (4 * k + 2) \<or> i = p + (4 * k + 3)" by linarith
  then show ?thesis
    by (elim disjE) (simp_all only: add_diff_cancel_left' n64_sw_simps, simp_all add: n64_swap_group_def Let_def add.assoc)
next
  case False
  then show ?thesis by (auto simp: n64_swap_group_def Let_def)
qed

lemma n64_swap32_apply:
  assumes "len mod 4 = 0"
  shows "n64_swap32 m p len i = (if p \<le> i \<and> i < p + len then m (p + n64_sw (i - p)) else m i)"
proof -
  let ?R = "\<lambda>k. {p + 4 * k ..< p + 4 * k + 4}"
  show ?thesis
  proof (cases "p \<le> i \<and> i < p + len")
    case True
    have "(i - p) div 4 < len div 4" using True assms by presburger
    moreover have "i \<in> ?R ((i - p) div 4)" using True by (simp, presburger)
    ultimately have "n64_swap32 m p len i = n64_swap_group p ((i - p) div 4) m i"
      unfolding n64_swap32_def
    proof (intro fold_in_region [where R = ?R])
      fix q :: nat and a b :: mem and j
      assume j: "j \<in> ?R q" and eq: "\<And>k. k \<in> ?R q \<Longrightarrow> a k = b k"
      have "p + n64_sw (j - p) \<in> ?R q"
        using j n64_sw_group [of q "j - p"] by auto
      then show "n64_swap_group p q a j = n64_swap_group p q b j"
        using j eq by (simp add: n64_swap_group_apply)
    qed (auto simp: n64_swap_group_apply)
    then show ?thesis using True \<open>i \<in> ?R _\<close> by (simp add: n64_swap_group_apply)
  next
    case False
    have "n64_swap32 m p len i = m i"
      unfolding n64_swap32_def
      by (rule fold_outside_regions [where R = ?R]) (use False in \<open>auto simp: n64_swap_group_apply\<close>)
    then show ?thesis using False by auto
  qed
qed

section \<open>Regions\<close>

lemma n64_full_mod: "n64_full_size r mod 4 = 0"
  by (simp add: n64_full_size_def n64_sizes)

lemma n64_buf_set [simp]: "n64_buf (n64_set_buf s r m) r = m"
  by (simp add: n64_buf_def n64_set_buf_def)

lemma n64_buf_set_other:
  "q \<noteq> r \<Longrightarrow> q < 7 \<Longrightarrow> r < 7 \<Longrightarrow> n64_buf (n64_set_buf s r m) q = n64_buf s q"
  by (auto simp: n64_buf_def n64_set_buf_def n64_regions)

lemma n64_set_buf_sel [simp]:
  "n64_eeprom_len (n64_set_buf s r m) = n64_eeprom_len s" "n64_present (n64_set_buf s r m) = n64_present s"
  by (simp_all add: n64_set_buf_def)

lemma n64_buf_upd [simp]:
  "n64_buf (s\<lparr>n64_eeprom_len := l, n64_present := f\<rparr>) r = n64_buf s r"
  "n64_buf (s\<lparr>n64_present := f\<rparr>) r = n64_buf s r" "n64_buf (s\<lparr>n64_eeprom_len := l\<rparr>) r = n64_buf s r"
  by (simp_all add: n64_buf_def)

text \<open>Which byte of an emulator's file is byte \<open>j\<close> of the region.\<close>

definition n64_order :: "nat \<Rightarrow> nat \<Rightarrow> nat" where
  "n64_order r j = (if n64_swapped r then n64_sw j else j)"

lemma n64_order_order [simp]: "n64_order r (n64_order r j) = j"
  by (simp add: n64_order_def)

lemma n64_order_less: "j < n64_full_size r \<Longrightarrow> n64_order r j < n64_full_size r"
  by (simp add: n64_order_def n64_sw_less n64_full_mod)

text \<open>The length a region holds and whether the game wrote to it, from its bytes alone.\<close>

definition n64_held :: "nat \<Rightarrow> mem \<Rightarrow> nat" where
  "n64_held r m = (if r = N64_EEPROM then (if n64_written m N64_EEPROM_4K (N64_EEPROM_MAX - N64_EEPROM_4K)
      then N64_EEPROM_MAX else N64_EEPROM_4K) else n64_full_size r)"

definition n64_used :: "nat \<Rightarrow> mem \<Rightarrow> bool" where
  "n64_used r m = (if N64_PAK1 \<le> r \<and> r \<le> N64_PAK4 then n64_pak_used m else n64_written m 0 (n64_held r m))"

lemma n64_held_le: "n64_held r m \<le> n64_full_size r"
  by (simp add: n64_held_def n64_full_size_def n64_sizes)

lemma n64_written_cong:
  "(\<And>i. i < len \<Longrightarrow> a (p + i) = b (q + i)) \<Longrightarrow> n64_written a p len = n64_written b q len"
  by (simp add: n64_written_def list_ex_iff)

lemma n64_held_cong:
  assumes "\<And>i. i < n64_full_size r \<Longrightarrow> a i = b i"
  shows "n64_held r a = n64_held r b"
proof -
  have "n64_written a N64_EEPROM_4K (N64_EEPROM_MAX - N64_EEPROM_4K) = n64_written b N64_EEPROM_4K (N64_EEPROM_MAX - N64_EEPROM_4K)"
    if "r = N64_EEPROM"
    using assms by (intro n64_written_cong) (simp add: that n64_full_size_def n64_sizes)
  then show ?thesis by (simp add: n64_held_def)
qed

lemma n64_inodes: "at \<in> set n64_pak_inodes \<Longrightarrow> 0x10A \<le> at \<and> at + 1 < 0x200 \<and> even at"
  by (auto simp: n64_pak_inodes_def PAK_INDEX_FIRST_def PAK_INDEX_END_def)

lemma n64_used_cong:
  assumes "\<And>i. i < n64_full_size r \<Longrightarrow> a i = b i"
  shows "n64_used r a = n64_used r b"
proof (cases "N64_PAK1 \<le> r \<and> r \<le> N64_PAK4")
  case True
  then have f: "n64_full_size r = N64_PAK_SIZE" by (auto simp: n64_full_size_def n64_regions)
  have "sigil_read_be16 a at = sigil_read_be16 b at" if "at \<in> set n64_pak_inodes" for at
    by (rule read_be16_cong) (use n64_inodes [OF that] assms f in \<open>simp_all add: N64_PAK_SIZE_def\<close>)
  moreover have "n64_written a 0 N64_PAK_SIZE = n64_written b 0 N64_PAK_SIZE"
    by (rule n64_written_cong) (simp add: assms f)
  ultimately show ?thesis using True by (auto simp: n64_used_def n64_pak_used_def list_ex_iff)
next
  case False
  have "n64_held r a = n64_held r b" by (rule n64_held_cong) (rule assms)
  moreover have "n64_written a 0 (n64_held r a) = n64_written b 0 (n64_held r a)"
    using n64_held_le [of r a] by (intro n64_written_cong) (simp add: assms)
  ultimately show ?thesis using False by (auto simp: n64_used_def)
qed

section \<open>Taking a region\<close>

lemma n64_take_buf:
  assumes "j < n64_full_size r"
  shows "n64_buf (n64_take s r data p len) r j =
    (if n64_order r j < len then data (p + n64_order r j) else 0xFF)"
proof -
  let ?full = "n64_full_size r"
  let ?n = "if len < ?full then len else ?full"
  let ?b = "memset (memcpy (n64_buf s r) 0 data p ?n) ?n 0xFF (?full - ?n)"
  have "n64_buf (n64_take s r data p len) r = (if n64_swapped r then n64_swap32 ?b 0 ?full else ?b)"
    by (simp add: n64_take_def Let_def)
  moreover have "(if n64_swapped r then n64_swap32 ?b 0 ?full else ?b) j = ?b (n64_order r j)"
    using assms by (simp add: n64_order_def n64_swap32_apply n64_full_mod)
  moreover have "?b i = (if i < len then data (p + i) else 0xFF)" if "i < ?full" for i
    using that by (auto simp: memset_apply memcpy_apply)
  ultimately show ?thesis using n64_order_less [OF assms] by simp
qed

lemma n64_take_state:
  shows "n64_present (n64_take s r data p len) r = n64_used r (n64_buf (n64_take s r data p len) r)"
    and "r = N64_EEPROM \<Longrightarrow> n64_eeprom_len (n64_take s r data p len) = n64_held r (n64_buf (n64_take s r data p len) r)"
  by (simp_all add: n64_take_def Let_def n64_used_def n64_held_def n64_regions)

lemma n64_take_other:
  assumes "q \<noteq> r" "q < 7" "r < 7"
  shows "n64_buf (n64_take s r data p len) q = n64_buf s q" "n64_present (n64_take s r data p len) q = n64_present s q"
  using assms by (simp_all add: n64_take_def Let_def n64_buf_set_other)

lemma n64_take_len_other: "r \<noteq> N64_EEPROM \<Longrightarrow> n64_eeprom_len (n64_take s r data p len) = n64_eeprom_len s"
  by (simp add: n64_take_def Let_def)

text \<open>Everything the save says of a region.\<close>

definition n64_view :: "n64_save \<Rightarrow> nat \<Rightarrow> bytes \<times> bool" where
  "n64_view s r = (bytes_at (n64_buf s r) 0 (snd (n64_region_bytes s r)), n64_present s r)"

section \<open>Giving a region\<close>

lemma n64_give_apply:
  assumes "snd (n64_region_bytes s r) \<le> n64_full_size r"
  shows "snd (n64_give s r out p) i = (if p \<le> i \<and> i < p + n64_full_size r
     then (if n64_order r (i - p) < snd (n64_region_bytes s r) then n64_buf s r (n64_order r (i - p)) else 0xFF)
     else out i)"
proof -
  let ?full = "n64_full_size r" and ?len = "snd (n64_region_bytes s r)"
  let ?b = "memcpy (memset out p 0xFF ?full) p (n64_buf s r) 0 ?len"
  have b: "?b (p + j) = (if j < ?len then n64_buf s r j else 0xFF)" if "j < ?full" for j
    using that by (simp add: memcpy_apply memset_apply)
  have g: "snd (n64_give s r out p) = (if n64_swapped r then n64_swap32 ?b p ?full else ?b)"
    by (simp add: n64_give_def n64_region_bytes_def Let_def)
  show ?thesis
  proof (cases "p \<le> i \<and> i < p + ?full")
    case True
    then have j: "i - p < ?full" by linarith
    have "snd (n64_give s r out p) i = ?b (p + n64_order r (i - p))"
      using True by (simp add: g n64_swap32_apply n64_full_mod n64_order_def)
    then show ?thesis using True by (simp add: b n64_order_less [OF j])
  next
    case False
    then have "?b i = out i" using assms by (auto simp: memcpy_apply memset_apply)
    then show ?thesis using False by (auto simp: g n64_swap32_apply n64_full_mod)
  qed
qed

lemma fold_upd: "fold (\<lambda>k m. m(g k := v)) ks b x = (if x \<in> g ` set ks then v else b x)"
  by (induction ks arbitrary: b) auto

lemma n64_pak_formatted_outside:
  assumes "i < p \<or> p + N64_PAK_SIZE \<le> i"
  shows "n64_pak_formatted out p i = out i"
proof -
  have "i \<notin> (\<lambda>at. p + at + 1) ` set n64_pak_inodes"
    using assms n64_inodes by (fastforce simp: N64_PAK_SIZE_def)
  then have "fold (\<lambda>at m. m(p + at + 1 := ucast PAK_INODE_FREE)) n64_pak_inodes m i = m i" for m :: mem
    by (simp only: fold_upd if_False)
  then show ?thesis
    using assms by (auto simp: n64_pak_formatted_def Let_def N64_PAK_SIZE_def N64_ID_BLOCKS_def N64_ID_TAIL_def mem_simps)
qed

lemma n64_pak_formatted_free:
  assumes "\<And>i. i < N64_PAK_SIZE \<Longrightarrow> m i = n64_pak_formatted out p (p + i)"
  shows "\<not> n64_pak_used m"
proof -
  have inode: "m at = 0" "m (at + 1) = 3" if at: "at \<in> set n64_pak_inodes" for at
  proof -
    have r: "0x10A \<le> at" "at + 1 < 0x200" "even at" using n64_inodes [OF at] by auto
    have "p + at \<noteq> p + k + 1" if "k \<in> set n64_pak_inodes" for k
    proof
      assume "p + at = p + k + 1"
      then have "odd at" using n64_inodes [OF that] by simp
      then show False using r by blast
    qed
    then have "p + at \<notin> (\<lambda>at. p + at + 1) ` set n64_pak_inodes" by blast
    then have "fold (\<lambda>at m. m(p + at + 1 := ucast PAK_INODE_FREE)) n64_pak_inodes b (p + at) = b (p + at)" for b :: mem
      by (simp only: fold_upd if_False)
    then have "n64_pak_formatted out p (p + at) = 0"
      using r by (simp add: n64_pak_formatted_def Let_def N64_PAK_SIZE_def N64_ID_BLOCKS_def N64_ID_TAIL_def mem_simps)
    then show "m at = 0" using assms [of at] r by (simp add: N64_PAK_SIZE_def)
    have "p + at + 1 \<in> (\<lambda>at. p + at + 1) ` set n64_pak_inodes" using at by blast
    then have "fold (\<lambda>at m. m(p + at + 1 := ucast PAK_INODE_FREE)) n64_pak_inodes b (p + at + 1) = ucast PAK_INODE_FREE" for b :: mem
      by (simp only: fold_upd if_True)
    then have "n64_pak_formatted out p (p + (at + 1)) = 3"
      using r by (simp add: n64_pak_formatted_def Let_def N64_PAK_SIZE_def N64_ID_BLOCKS_def N64_ID_TAIL_def mem_simps
          PAK_INODE_FREE_def)
    then show "m (at + 1) = 3" using assms [of "at + 1"] r by (simp add: N64_PAK_SIZE_def)
  qed
  have "sigil_read_be16 m at = PAK_INODE_FREE" if "at \<in> set n64_pak_inodes" for at
    using inode [OF that] by (simp add: sigil_read_be16_def PAK_INODE_FREE_def)
  then show ?thesis by (auto simp: n64_pak_used_def list_ex_iff)
qed

section \<open>The file that holds every region\<close>

lemma n64_region_cases:
  "r < 7 \<Longrightarrow> r = 0 \<or> r = 1 \<or> r = 2 \<or> r = 3 \<or> r = 4 \<or> r = 5 \<or> r = (6 :: nat)"
  by linarith

lemma n64_at_step: "r < 6 \<Longrightarrow> N64_AT ! Suc r = N64_AT ! r + n64_full_size r"
  and n64_at_end: "N64_AT ! 6 + n64_full_size 6 = N64_BLOB_SIZE"
  and n64_at_0: "N64_AT ! 0 = 0"
proof -
  assume "r < 6"
  then have "r = 0 \<or> r = 1 \<or> r = 2 \<or> r = 3 \<or> r = 4 \<or> r = 5" by linarith
  then show "N64_AT ! Suc r = N64_AT ! r + n64_full_size r"
    by (elim disjE) (simp_all add: N64_AT_def n64_full_size_def n64_regions n64_sizes)
qed (simp_all add: N64_AT_def n64_full_size_def n64_regions n64_sizes)

lemma n64_at_mono: "q < r \<Longrightarrow> r < 7 \<Longrightarrow> N64_AT ! q + n64_full_size q \<le> N64_AT ! r"
proof (induction r)
  case (Suc r)
  then have "N64_AT ! Suc r = N64_AT ! r + n64_full_size r" by (simp add: n64_at_step)
  then show ?case using Suc by (cases "q = r") auto
qed simp

lemma n64_at_bound: "r < 7 \<Longrightarrow> N64_AT ! r + n64_full_size r \<le> N64_BLOB_SIZE"
  using n64_at_mono [of r 6] n64_at_end by (cases "r = 6") auto

lemma n64_take_blob_region_eq:
  assumes "r < 7" "N64_BLOB_SIZE \<le> len"
  shows "n64_take_blob_region blob len r s = n64_take s r blob (N64_AT ! r) (n64_full_size r)"
proof -
  have "0 < n64_full_size r" by (simp add: n64_full_size_def n64_sizes)
  then show ?thesis using n64_at_bound [OF assms(1)] assms(2) by (simp add: n64_take_blob_region_def Let_def)
qed

text \<open>Every region of a whole file: its bytes in bus order, its length and its use.\<close>

lemma n64_take_blob_view:
  fixes s :: n64_save and blob :: mem
  assumes r: "r < 7" and len: "N64_BLOB_SIZE \<le> len"
  defines "t \<equiv> n64_take_blob s blob len"
  shows "j < n64_full_size r \<Longrightarrow> n64_buf t r j = blob (N64_AT ! r + n64_order r j)"
    and "n64_present t r = n64_used r (n64_buf t r)"
    and "snd (n64_region_bytes t r) = n64_held r (n64_buf t r)"
proof -
  have "\<forall>r < n. (\<forall>j < n64_full_size r. n64_buf (fold (n64_take_blob_region blob len) [0..<n] s) r j =
         blob (N64_AT ! r + n64_order r j)) \<and>
      n64_present (fold (n64_take_blob_region blob len) [0..<n] s) r =
         n64_used r (n64_buf (fold (n64_take_blob_region blob len) [0..<n] s) r) \<and>
      (r = N64_EEPROM \<longrightarrow> n64_eeprom_len (fold (n64_take_blob_region blob len) [0..<n] s) =
         n64_held r (n64_buf (fold (n64_take_blob_region blob len) [0..<n] s) r))" if "n \<le> 7" for n
    using that
  proof (induction n)
    case (Suc n)
    let ?t = "fold (n64_take_blob_region blob len) [0..<n] s"
    have step: "fold (n64_take_blob_region blob len) [0..<Suc n] s = n64_take ?t n blob (N64_AT ! n) (n64_full_size n)"
      using Suc.prems len by (simp add: n64_take_blob_region_eq)
    show ?case unfolding step
    proof (intro allI impI)
      fix r assume "r < Suc n"
      show "(\<forall>j < n64_full_size r. n64_buf (n64_take ?t n blob (N64_AT ! n) (n64_full_size n)) r j =
           blob (N64_AT ! r + n64_order r j)) \<and>
         n64_present (n64_take ?t n blob (N64_AT ! n) (n64_full_size n)) r =
           n64_used r (n64_buf (n64_take ?t n blob (N64_AT ! n) (n64_full_size n)) r) \<and>
         (r = N64_EEPROM \<longrightarrow> n64_eeprom_len (n64_take ?t n blob (N64_AT ! n) (n64_full_size n)) =
           n64_held r (n64_buf (n64_take ?t n blob (N64_AT ! n) (n64_full_size n)) r))"
      proof (cases "r = n")
        case True
        then show ?thesis by (simp add: n64_take_buf n64_order_less n64_take_state)
      next
        case False
        then have "r < n" "n < 7" "r < 7" "n \<noteq> N64_EEPROM" using \<open>r < Suc n\<close> Suc.prems by (auto simp: N64_EEPROM_def)
        then show ?thesis using Suc False by (simp add: n64_take_other n64_take_len_other)
      qed
    qed
  qed simp
  from this [of 7] r have v: "\<forall>j < n64_full_size r. n64_buf t r j = blob (N64_AT ! r + n64_order r j)"
    "n64_present t r = n64_used r (n64_buf t r)" "r = N64_EEPROM \<longrightarrow> n64_eeprom_len t = n64_held r (n64_buf t r)"
    unfolding t_def n64_take_blob_def N64_REGION_COUNT_def by blast+
  then show "j < n64_full_size r \<Longrightarrow> n64_buf t r j = blob (N64_AT ! r + n64_order r j)"
    and "n64_present t r = n64_used r (n64_buf t r)" by blast+
  show "snd (n64_region_bytes t r) = n64_held r (n64_buf t r)"
    using v(3) by (simp add: n64_region_bytes_def n64_held_def)
qed

text \<open>What giving the blob puts at a region.\<close>

definition n64_piece :: "n64_save \<Rightarrow> n64_save option \<Rightarrow> mem \<Rightarrow> nat \<Rightarrow> nat \<Rightarrow> mem \<Rightarrow> mem" where
  "n64_piece s old existing r at out = fst (n64_give_region s old existing r (out, at))"

lemma n64_piece_cases:
  "n64_piece s old existing r at out =
     (if n64_present s r then snd (n64_give s r out at)
      else if (case old of Some old \<Rightarrow> \<not> n64_present old r | None \<Rightarrow> False)
           then memcpy out at existing at (n64_full_size r)
      else if N64_PAK1 \<le> r \<and> r \<le> N64_PAK4 then n64_pak_formatted out at
      else memset out at 0xFF (n64_full_size r))"
  by (simp add: n64_piece_def n64_give_region_def Let_def)

lemma n64_piece_outside:
  assumes "n64_present s r \<longrightarrow> snd (n64_region_bytes s r) \<le> n64_full_size r"
    and "i < at \<or> at + n64_full_size r \<le> i"
  shows "n64_piece s old existing r at out i = out i"
proof -
  have "N64_PAK1 \<le> r \<and> r \<le> N64_PAK4 \<Longrightarrow> n64_full_size r = N64_PAK_SIZE" by (auto simp: n64_full_size_def n64_regions)
  then show ?thesis
    using assms unfolding n64_piece_cases
    by (auto simp: n64_give_apply memcpy_apply memset_apply n64_pak_formatted_outside)
qed

definition n64_fits :: "n64_save \<Rightarrow> bool" where
  "n64_fits s = (n64_present s N64_EEPROM \<longrightarrow> n64_eeprom_len s \<le> N64_EEPROM_MAX)"

lemma n64_fitsD: "n64_fits s \<Longrightarrow> n64_present s r \<longrightarrow> snd (n64_region_bytes s r) \<le> n64_full_size r"
  by (auto simp: n64_fits_def n64_region_bytes_def n64_full_size_def)

lemma n64_give_fold:
  fixes s :: n64_save and old :: "n64_save option" and existing out :: mem
  assumes "n64_fits s" "n \<le> 7"
  defines "g \<equiv> fold (n64_give_region s old existing) [0..<n] (out, 0)"
  shows "n < 7 \<longrightarrow> snd g = N64_AT ! n"
    and "\<forall>r < n. \<exists>out'. \<forall>i. N64_AT ! r \<le> i \<and> i < N64_AT ! r + n64_full_size r \<longrightarrow>
           fst g i = n64_piece s old existing r (N64_AT ! r) out' i"
    and "\<forall>i \<ge> N64_BLOB_SIZE. fst g i = out i"
  using assms(2) unfolding g_def
proof (induction n)
  case 0
  { case 1 show ?case by (simp add: n64_at_0) }
  { case 2 show ?case by simp }
  { case 3 show ?case by simp }
next
  case (Suc n)
  let ?g = "fold (n64_give_region s old existing) [0..<n] (out, 0)"
  have g: "fold (n64_give_region s old existing) [0..<Suc n] (out, 0) =
      (n64_piece s old existing n (N64_AT ! n) (fst ?g), N64_AT ! n + n64_full_size n)"
    if "Suc n \<le> 7"
    using Suc.IH(1) that by (cases ?g) (simp add: n64_piece_def, simp add: n64_give_region_def Let_def)
  { case 1 then show ?case using n64_at_step [of n] by (simp only: g) simp }
  { case 2
    show ?case
    proof (intro allI impI)
      fix r assume r: "r < Suc n"
      show "\<exists>out'. \<forall>i. N64_AT ! r \<le> i \<and> i < N64_AT ! r + n64_full_size r \<longrightarrow>
         fst (fold (n64_give_region s old existing) [0..<Suc n] (out, 0)) i = n64_piece s old existing r (N64_AT ! r) out' i"
      proof (cases "r = n")
        case True then show ?thesis using 2 by (intro exI [of _ "fst ?g"]) (simp only: g fst_conv, simp)
      next
        case False
        then have rn: "r < n" using r by simp
        then obtain out' where o: "\<forall>i. N64_AT ! r \<le> i \<and> i < N64_AT ! r + n64_full_size r \<longrightarrow>
            fst ?g i = n64_piece s old existing r (N64_AT ! r) out' i" using Suc.IH(2) 2 by auto
        have "N64_AT ! r + n64_full_size r \<le> N64_AT ! n" using n64_at_mono [OF rn] 2 by simp
        then show ?thesis using o 2
          by (intro exI [of _ out']) (simp only: g fst_conv, auto simp: n64_piece_outside n64_fitsD [OF assms(1)])
      qed
    qed }
  { case 3
    then show ?case using Suc.IH(3) n64_at_bound [of n]
      by (simp only: g fst_conv) (auto simp: n64_piece_outside n64_fitsD [OF assms(1)]) }
qed


definition n64_old :: "(mem \<times> nat) option \<Rightarrow> n64_save option" where
  "n64_old existing = (case existing of
     Some (m, len) \<Rightarrow> if N64_BLOB_SIZE \<le> len then Some (n64_take_blob n64_save_zero m len) else None
   | None \<Rightarrow> None)"

definition n64_existing :: "(mem \<times> nat) option \<Rightarrow> mem" where
  "n64_existing existing = (case existing of Some (m, len) \<Rightarrow> m | None \<Rightarrow> (\<lambda>_. 0))"

lemma n64_give_blob_bytes:
  assumes "n64_fits s" "r < 7"
  shows "\<exists>out'. \<forall>j < n64_full_size r. n64_give_blob s existing out (N64_AT ! r + j) =
     n64_piece s (n64_old existing) (n64_existing existing) r (N64_AT ! r) out' (N64_AT ! r + j)"
    and "i \<ge> N64_BLOB_SIZE \<Longrightarrow> n64_give_blob s existing out i = out i"
proof -
  have g: "n64_give_blob s existing out = fst (fold (n64_give_region s (n64_old existing) (n64_existing existing)) [0..<7] (out, 0))"
    by (simp only: n64_give_blob_def Let_def n64_old_def n64_existing_def N64_REGION_COUNT_def)
  obtain out' where "\<forall>i. N64_AT ! r \<le> i \<and> i < N64_AT ! r + n64_full_size r \<longrightarrow>
     n64_give_blob s existing out i = n64_piece s (n64_old existing) (n64_existing existing) r (N64_AT ! r) out' i"
    unfolding g using n64_give_fold(2) [OF assms(1) order_refl] assms(2) by blast
  then show "\<exists>out'. \<forall>j < n64_full_size r. n64_give_blob s existing out (N64_AT ! r + j) =
     n64_piece s (n64_old existing) (n64_existing existing) r (N64_AT ! r) out' (N64_AT ! r + j)"
    by (intro exI [of _ out']) simp
  show "i \<ge> N64_BLOB_SIZE \<Longrightarrow> n64_give_blob s existing out i = out i"
    unfolding g using n64_give_fold(3) [OF assms(1) order_refl] by blast
qed

lemma n64_written_ff: "(\<And>i. i < len \<Longrightarrow> m (p + i) = 0xFF) \<Longrightarrow> \<not> n64_written m p len"
  by (simp add: n64_written_def list_ex_iff)

lemma n64_unwritten_ff:
  assumes "\<And>i. i < n64_full_size r \<Longrightarrow> m i = 0xFF" and "\<not> (N64_PAK1 \<le> r \<and> r \<le> N64_PAK4)"
  shows "\<not> n64_used r m"
  unfolding n64_used_def
  using assms n64_held_le [of r m] n64_written_ff [of "n64_held r m" m 0] by auto

text \<open>A region the save lacks reads back as unused.\<close>

lemma n64_absent_unused:
  assumes r: "r < 7" and absent: "\<not> n64_present s r"
    and buf: "\<And>j. j < n64_full_size r \<Longrightarrow> b j =
      n64_piece s (n64_old existing) (n64_existing existing) r (N64_AT ! r) out' (N64_AT ! r + n64_order r j)"
  shows "\<not> n64_used r b"
proof (cases "\<exists>o1. n64_old existing = Some o1 \<and> \<not> n64_present o1 r")
  case True
  then obtain m len where e: "existing = Some (m, len)" "N64_BLOB_SIZE \<le> len"
      "\<not> n64_present (n64_take_blob n64_save_zero m len) r"
    by (auto simp: n64_old_def split: option.splits if_splits)
  have "b j = n64_buf (n64_take_blob n64_save_zero m len) r j" if "j < n64_full_size r" for j
    using buf [OF that] absent e n64_take_blob_view(1) [OF r e(2) that, where s = n64_save_zero and blob = m] n64_order_less [OF that]
    by (simp add: n64_piece_cases n64_old_def n64_existing_def memcpy_apply)
  then have "n64_used r b = n64_used r (n64_buf (n64_take_blob n64_save_zero m len) r)" by (rule n64_used_cong)
  then show ?thesis using n64_take_blob_view(2) [OF r e(2), where s = n64_save_zero and blob = m] e(3) by simp
next
  case False
  then have no: "\<not> (case n64_old existing of Some old \<Rightarrow> \<not> n64_present old r | None \<Rightarrow> False)"
    by (auto split: option.split)
  show ?thesis
  proof (cases "N64_PAK1 \<le> r \<and> r \<le> N64_PAK4")
    case True
    then have f: "n64_full_size r = N64_PAK_SIZE" "\<not> n64_swapped r"
      by (auto simp: n64_full_size_def n64_swapped_def n64_regions)
    have "b j = n64_pak_formatted out' (N64_AT ! r) (N64_AT ! r + j)" if "j < N64_PAK_SIZE" for j
      using buf [of j] that True absent no f by (simp add: n64_piece_cases n64_order_def)
    then show ?thesis using True n64_pak_formatted_free by (simp add: n64_used_def)
  next
    case pak: False
    have "b j = 0xFF" if "j < n64_full_size r" for j
      using buf [OF that] n64_order_less [OF that]
      by (simp only: n64_piece_cases absent no pak if_False memset_apply) simp
    then show ?thesis using pak by (intro n64_unwritten_ff) simp_all
  qed
qed

text \<open>Whether the game wrote to a region the save holds.\<close>

definition n64_touched :: "n64_save \<Rightarrow> nat \<Rightarrow> bool" where
  "n64_touched s r = (if N64_PAK1 \<le> r \<and> r \<le> N64_PAK4 then n64_pak_used (n64_buf s r)
     else n64_written (n64_buf s r) 0 (snd (n64_region_bytes s r)))"

text \<open>C32 (round trip). Writing a save as a libretro file, over any existing file or none, and
  reading the file back gives every region the game wrote to unchanged: its bytes in bus order, the
  length it holds and its presence. A region the save lacks, or whose bytes the game never wrote,
  comes back absent, whatever the existing file held there, so no other game's save is taken for
  this one's. Nothing past the file's size is written. An EEPROM of 2 KiB must use its upper part,
  since the length is read off the bytes.\<close>

theorem n64_blob_keeps:
  assumes eeprom: "n64_present s N64_EEPROM \<Longrightarrow> n64_eeprom_len s = N64_EEPROM_4K \<or>
      n64_eeprom_len s = N64_EEPROM_MAX \<and> n64_written (n64_eeprom s) N64_EEPROM_4K (N64_EEPROM_MAX - N64_EEPROM_4K)"
    and t: "t = n64_take_blob n64_save_zero (n64_give_blob s existing out) N64_BLOB_SIZE"
  shows "(\<forall>r < N64_REGION_COUNT.
      n64_present t r = (n64_present s r \<and> n64_touched s r) \<and>
      (n64_present s r \<longrightarrow> snd (n64_region_bytes t r) = snd (n64_region_bytes s r) \<and>
         (\<forall>j < snd (n64_region_bytes s r). fst (n64_region_bytes t r) j = fst (n64_region_bytes s r) j))) \<and>
    (\<forall>i \<ge> N64_BLOB_SIZE. n64_give_blob s existing out i = out i)"
proof -
  have fits: "n64_fits s" using eeprom by (auto simp: n64_fits_def n64_sizes)
  have one: "n64_present t r = (n64_present s r \<and> n64_touched s r) \<and>
      (n64_present s r \<longrightarrow> snd (n64_region_bytes t r) = snd (n64_region_bytes s r) \<and>
         (\<forall>j < snd (n64_region_bytes s r). n64_buf t r j = n64_buf s r j))" if r: "r < 7" for r
  proof -
    obtain out' where g: "\<forall>j < n64_full_size r. n64_give_blob s existing out (N64_AT ! r + j) =
       n64_piece s (n64_old existing) (n64_existing existing) r (N64_AT ! r) out' (N64_AT ! r + j)"
      using n64_give_blob_bytes(1) [OF fits r] by blast
    note view = n64_take_blob_view [OF r order_refl, where s = n64_save_zero and blob = "n64_give_blob s existing out", folded t]
    have b: "n64_buf t r j = n64_piece s (n64_old existing) (n64_existing existing) r (N64_AT ! r) out' (N64_AT ! r + n64_order r j)"
      if "j < n64_full_size r" for j
      using view(1) [OF that] g n64_order_less [OF that] by simp
    show ?thesis
    proof (cases "n64_present s r")
      case False
      then show ?thesis using n64_absent_unused [OF r False b] view(2) by simp
    next
      case True
      let ?len = "snd (n64_region_bytes s r)"
      have len: "?len \<le> n64_full_size r" using n64_fitsD [OF fits] True by blast
      have bt: "n64_buf t r j = (if j < ?len then n64_buf s r j else 0xFF)" if "j < n64_full_size r" for j
        using b [OF that] True len n64_order_less [OF that] by (simp add: n64_piece_cases n64_give_apply)
      have held: "n64_held r (n64_buf t r) = ?len"
      proof (cases "r = N64_EEPROM")
        case False then show ?thesis by (simp add: n64_held_def n64_region_bytes_def)
      next
        case e: True
        then have f: "n64_full_size r = N64_EEPROM_MAX" "?len = n64_eeprom_len s" "n64_buf s r = n64_eeprom s"
          by (simp_all add: n64_full_size_def n64_region_bytes_def n64_buf_def)
        have "?len = N64_EEPROM_4K \<or> ?len = N64_EEPROM_MAX \<and>
            n64_written (n64_buf s r) N64_EEPROM_4K (N64_EEPROM_MAX - N64_EEPROM_4K)"
            using eeprom True e unfolding f(2,3) by blast
        then show ?thesis
        proof
          assume l: "?len = N64_EEPROM_4K"
          have "\<not> n64_written (n64_buf t r) N64_EEPROM_4K (N64_EEPROM_MAX - N64_EEPROM_4K)"
            by (rule n64_written_ff) (use f(1) in \<open>simp add: bt l n64_sizes\<close>)
          then show ?thesis using e l by (simp add: n64_held_def)
        next
          assume l: "?len = N64_EEPROM_MAX \<and> n64_written (n64_buf s r) N64_EEPROM_4K (N64_EEPROM_MAX - N64_EEPROM_4K)"
          have "n64_written (n64_buf t r) N64_EEPROM_4K (N64_EEPROM_MAX - N64_EEPROM_4K) =
              n64_written (n64_buf s r) N64_EEPROM_4K (N64_EEPROM_MAX - N64_EEPROM_4K)"
            by (rule n64_written_cong) (use f(1) l in \<open>simp add: bt n64_sizes\<close>)
          then show ?thesis using e l by (simp add: n64_held_def)
        qed
      qed
      have "n64_used r (n64_buf t r) = n64_touched s r"
      proof (cases "N64_PAK1 \<le> r \<and> r \<le> N64_PAK4")
        case pak: True
        then have "?len = n64_full_size r" by (auto simp: n64_region_bytes_def n64_regions)
        then have "n64_used r (n64_buf t r) = n64_used r (n64_buf s r)" by (intro n64_used_cong) (simp add: bt)
        then show ?thesis using pak by (simp add: n64_used_def n64_touched_def)
      next
        case False
        have "n64_written (n64_buf t r) 0 ?len = n64_written (n64_buf s r) 0 ?len"
          by (rule n64_written_cong) (use len in \<open>simp add: bt\<close>)
        then show ?thesis using False by (auto simp: n64_used_def n64_touched_def held)
      qed
      then show ?thesis using view(2,3) True held len by (simp add: bt)
    qed
  qed
  have "fst (n64_region_bytes q r) = n64_buf q r" for q r by (simp add: n64_region_bytes_def)
  then show ?thesis using one n64_give_blob_bytes(2) [OF fits, of 0] by (simp add: N64_REGION_COUNT_def)
qed


text \<open>A save with an SRAM the game wrote to and nothing else.\<close>

definition n64_demo :: n64_save where
  "n64_demo = n64_save_zero\<lparr>n64_sram := (\<lambda>i. if i = 5 then 0x2A else 0), n64_present := (\<lambda>r. r = 5)\<rparr>"

lemma n64_blob_keeps_witness:
  "n64_present (n64_take_blob n64_save_zero (n64_give_blob n64_demo None (\<lambda>_. 0)) N64_BLOB_SIZE) 5 \<and>
   fst (n64_region_bytes (n64_take_blob n64_save_zero (n64_give_blob n64_demo None (\<lambda>_. 0)) N64_BLOB_SIZE) 5) 5 = 0x2A"
proof -
  have no: "\<not> n64_present n64_demo N64_EEPROM" by (simp add: n64_demo_def N64_EEPROM_def)
  have pr: "n64_present n64_demo 5" by (simp add: n64_demo_def)
  have "n64_written (n64_sram n64_demo) 0 N64_SRAM_SIZE"
    by (simp add: n64_demo_def n64_written_def list_ex_iff N64_SRAM_SIZE_def Bex_def)
  then have "n64_touched n64_demo 5"
    by (simp add: n64_touched_def n64_regions n64_buf_def n64_region_bytes_def n64_full_size_def)
  moreover have "5 < snd (n64_region_bytes n64_demo 5)" "fst (n64_region_bytes n64_demo 5) 5 = 0x2A"
    by (simp_all add: n64_region_bytes_def n64_regions n64_full_size_def N64_SRAM_SIZE_def n64_buf_def n64_demo_def)
  ultimately show ?thesis
    using n64_blob_keeps [OF notE [OF no] refl, where existing = None and out = "\<lambda>_. 0"] pr
    by (auto simp: N64_REGION_COUNT_def)
qed

text \<open>A region taken from an emulator's file of its full size and given back is
  the file byte for byte, whichever order the emulator stores it in, and nothing around it is
  written. The one exception is the upper part of an EEPROM in which every byte is 0x00 or 0xFF: it
  is taken as a 512-byte EEPROM and padded with 0xFF.\<close>

theorem n64_give_take:
  assumes "g = n64_give (n64_take s r data p (n64_full_size r)) r out q"
  shows "fst g = n64_full_size r \<and>
    (\<forall>j < n64_full_size r. snd g (q + j) =
       (if r = N64_EEPROM \<and> N64_EEPROM_4K \<le> j \<and>
           \<not> n64_written data (p + N64_EEPROM_4K) (N64_EEPROM_MAX - N64_EEPROM_4K) then 0xFF else data (p + j))) \<and>
    (\<forall>i. i < q \<or> q + n64_full_size r \<le> i \<longrightarrow> snd g i = out i)"
proof -
  let ?t = "n64_take s r data p (n64_full_size r)"
  have buf: "n64_buf ?t r j = data (p + n64_order r j)" if "j < n64_full_size r" for j
    using that by (simp add: n64_take_buf n64_order_less)
  have len: "snd (n64_region_bytes ?t r) = n64_held r (n64_buf ?t r)"
    using n64_take_state(2) [of r s data p] by (simp add: n64_region_bytes_def n64_held_def)
  have le: "snd (n64_region_bytes ?t r) \<le> n64_full_size r" unfolding len by (rule n64_held_le)
  have w: "n64_held r (n64_buf ?t r) = (if r = N64_EEPROM \<and>
      \<not> n64_written data (p + N64_EEPROM_4K) (N64_EEPROM_MAX - N64_EEPROM_4K) then N64_EEPROM_4K else n64_full_size r)"
  proof (cases "r = N64_EEPROM")
    case True
    have o: "n64_order N64_EEPROM j = j" for j by (simp add: n64_order_def n64_swapped_def n64_regions)
    have "n64_written (n64_buf ?t r) N64_EEPROM_4K (N64_EEPROM_MAX - N64_EEPROM_4K) =
        n64_written data (p + N64_EEPROM_4K) (N64_EEPROM_MAX - N64_EEPROM_4K)"
      by (rule n64_written_cong)
         (subst buf, use True in \<open>simp_all add: o n64_full_size_def n64_sizes add.assoc\<close>)
    then show ?thesis using True by (simp add: n64_held_def n64_full_size_def)
  qed (simp add: n64_held_def)
  have e: "n64_order N64_EEPROM j = j" for j by (simp add: n64_order_def n64_swapped_def n64_regions)
  have "snd g (q + j) = (if r = N64_EEPROM \<and> N64_EEPROM_4K \<le> j \<and>
      \<not> n64_written data (p + N64_EEPROM_4K) (N64_EEPROM_MAX - N64_EEPROM_4K) then 0xFF else data (p + j))"
    if j: "j < n64_full_size r" for j
    using j n64_order_less [OF j] buf [OF j] buf [OF n64_order_less [OF j]] unfolding assms n64_give_apply [OF le] len w
    by (cases "r = N64_EEPROM") (auto simp: buf e)
  moreover have "snd g i = out i" if "i < q \<or> q + n64_full_size r \<le> i" for i
    using that unfolding assms n64_give_apply [OF le] by auto
  moreover have "fst g = n64_full_size r" by (simp add: assms n64_give_def Let_def split: prod.split)
  ultimately show ?thesis by blast
qed

lemma n64_give_take_witness:
  "fst (n64_give (n64_take n64_save_zero N64_SRAM (\<lambda>i. of_nat i) 0 (n64_full_size N64_SRAM)) N64_SRAM (\<lambda>_. 0) 0) = 0x8000 \<and>
   snd (n64_give (n64_take n64_save_zero N64_SRAM (\<lambda>i. of_nat i) 0 (n64_full_size N64_SRAM)) N64_SRAM (\<lambda>_. 0) 0) 6 = 6"
proof -
  have "n64_full_size N64_SRAM = 0x8000" "N64_SRAM \<noteq> N64_EEPROM"
    by (simp_all add: n64_full_size_def n64_regions N64_SRAM_SIZE_def)
  then show ?thesis
    using n64_give_take [OF refl, where s = n64_save_zero and r = N64_SRAM and data = "\<lambda>i. of_nat i" and p = 0
        and out = "\<lambda>_. 0" and q = 0] by auto
qed

end
