(* ===== verification/BramStorage.thy ===== *)
theory BramStorage
  imports Stream
begin

text \<open>
  How a backup RAM volume is stored on disk: the part of \<^verbatim>\<open>src/src/card_saturn.c\<close> the Saturn and
  Sega CD readers share. A stored file is read whole (\<open>sigil_bram_read_all\<close>), collapsed when each
  byte takes a 16-bit word (\<open>sigil_bram_collapse\<close>), and a volume is written back in the form it was
  read in (\<open>sigil_bram_store\<close>).

  zlib is not part of the repository: the record \<open>zlib\<close> is the parameter for the three calls made to
  it. \<open>z_deflate\<close> is the raw deflate stream of a whole input (\<open>None\<close> when deflate does not end it),
  \<open>z_crc32\<close> its CRC and \<open>z_gunzip\<close> what inflating one gzip member at the start of the input gives:
  the bytes and the count of input bytes it took, or \<open>None\<close> for a stream in error or cut short.
\<close>

section \<open>The storage form\<close>

record sigil_bram_storage =
  bs_gzip :: bool
  bs_gzip_header :: bytes
  bs_expanded :: bool
  bs_filler :: int

definition bram_storage_zero :: sigil_bram_storage where
  "bram_storage_zero = \<lparr>bs_gzip = False, bs_gzip_header = replicate 10 0, bs_expanded = False, bs_filler = 0\<rparr>"

record zlib =
  z_deflate :: "bytes \<Rightarrow> bytes option"
  z_crc32 :: "bytes \<Rightarrow> u32"
  z_gunzip :: "bytes \<Rightarrow> (bytes \<times> nat) option"

definition GZIP_HEADER_SIZE :: nat where "GZIP_HEADER_SIZE = 10"
definition GZIP_TRAILER_SIZE :: nat where "GZIP_TRAILER_SIZE = 8"
definition GZIP_FLAGS :: nat where "GZIP_FLAGS = 3"
definition READ_CHUNK :: nat where "READ_CHUNK = 64 * 1024"

section \<open>Reading a whole stream\<close>

text \<open>\<^verbatim>\<open>while (next < need) next *= 2\<close>.\<close>

function bram_grow_next :: "nat \<Rightarrow> nat \<Rightarrow> nat" where
  "bram_grow_next next1 need = (if next1 < need \<and> 0 < next1 then bram_grow_next (next1 * 2) need else next1)"
  by pat_completeness auto
termination
  by (relation "measure (\<lambda>(next1, need). need - next1)") auto

declare bram_grow_next.simps [simp del]

text \<open>The buffer's new size; \<open>None\<close> when the cap does not allow it.\<close>

definition bram_grow :: "nat \<Rightarrow> nat \<Rightarrow> nat \<Rightarrow> nat option" where
  "bram_grow room need cap =
     (if need \<le> room then Some room
      else let next1 = bram_grow_next (if room \<noteq> 0 then room else READ_CHUNK) need;
               next1 = (if cap < next1 then cap else next1)
           in if next1 < need then None else Some next1)"

function bram_read_loop :: "sigil_io \<Rightarrow> nat \<Rightarrow> bytes \<Rightarrow> nat \<Rightarrow> rc + bytes" where
  "bram_read_loop io cap buf room =
     (if cap < length buf then Inl SIGIL_ERR_UNSUPPORTED_FORMAT
      else case bram_grow room (length buf + 1) (cap + 1) of
             None \<Rightarrow> Inl SIGIL_ERR_OOM
           | Some room \<Rightarrow>
               (case io_read io (length buf) (room - length buf) of
                  None \<Rightarrow> Inl SIGIL_ERR_IO
                | Some bs \<Rightarrow> if bs = [] then Inr buf else bram_read_loop io cap (buf @ bs) room))"
  by pat_completeness auto
termination
  by (relation "measure (\<lambda>(io, cap, buf, room). cap + 1 - length buf)") (auto simp: neq_Nil_conv)

declare bram_read_loop.simps [simp del]

definition sigil_bram_read_all :: "sigil_io \<Rightarrow> nat \<Rightarrow> rc + bytes" where
  "sigil_bram_read_all io cap =
     (if int cap < stream_size io then Inl SIGIL_ERR_UNSUPPORTED_FORMAT else bram_read_loop io cap [] 0)"

section \<open>Expanded volumes\<close>

text \<open>The collapsed bytes and the storage with the filler recorded; \<open>None\<close> is \<^verbatim>\<open>return false\<close>.\<close>

definition sigil_bram_collapse :: "bytes \<Rightarrow> sigil_bram_storage \<Rightarrow> (bytes \<times> sigil_bram_storage) option" where
  "sigil_bram_collapse buf storage =
     (if length buf < 2 \<or> length buf mod 2 \<noteq> 0 then None
      else let constant = list_all (\<lambda>i. buf ! (2 * i) = buf ! 0) [0..<length buf div 2];
               repeated = list_all (\<lambda>i. buf ! (2 * i) = buf ! (2 * i + 1)) [0..<length buf div 2]
           in if \<not> constant \<and> \<not> repeated then None
              else Some (map (\<lambda>i. buf ! (2 * i + 1)) [0..<length buf div 2],
                storage\<lparr>bs_expanded := True, bs_filler := (if constant then int (unat (buf ! 0)) else -1)\<rparr>))"

section \<open>Storing a volume\<close>

definition bram_gzip_wrap :: "zlib \<Rightarrow> bytes \<Rightarrow> bytes \<Rightarrow> rc + bytes" where
  "bram_gzip_wrap z inp header =
     (case z_deflate z inp of
        None \<Rightarrow> Inl SIGIL_ERR_IO
      | Some body \<Rightarrow> Inr ((take GZIP_HEADER_SIZE header)[GZIP_FLAGS := 0] @ body
          @ bytes_at (sigil_write_le32 (sigil_write_le32 (\<lambda>_. 0) 0 (z_crc32 z inp)) 4 (of_nat (length inp))) 0
              GZIP_TRAILER_SIZE))"

definition bram_flat :: "bytes \<Rightarrow> sigil_bram_storage \<Rightarrow> bytes" where
  "bram_flat volume storage =
     (if bs_expanded storage
      then concat (map (\<lambda>b. [if bs_filler storage < 0 then b else word_of_int (bs_filler storage), b]) volume)
      else volume)"

definition sigil_bram_store :: "zlib \<Rightarrow> bytes \<Rightarrow> sigil_bram_storage \<Rightarrow> rc + bytes" where
  "sigil_bram_store z volume storage =
     (let flat = bram_flat volume storage
      in if \<not> bs_gzip storage then Inr flat else bram_gzip_wrap z flat (bs_gzip_header storage))"

section \<open>Gzipped volumes\<close>

definition bram_gunzip_all :: "zlib \<Rightarrow> bytes \<Rightarrow> nat \<Rightarrow> rc + bytes" where
  "bram_gunzip_all z inp cap =
     (case z_gunzip z inp of
        None \<Rightarrow> Inl SIGIL_ERR_UNSUPPORTED_FORMAT
      | Some (out, used) \<Rightarrow> if used = length inp \<and> length out \<le> cap then Inr out else Inl SIGIL_ERR_UNSUPPORTED_FORMAT)"

section \<open>What reading, collapsing and storing do\<close>

lemma bram_grow_next_ge: "0 < n \<Longrightarrow> need \<le> bram_grow_next n need"
  by (induction n need rule: bram_grow_next.induct) (subst bram_grow_next.simps, auto)

lemma bram_grow_some: "need \<le> cap \<Longrightarrow> \<exists>room'. bram_grow room need cap = Some room' \<and> need \<le> room'"
  using bram_grow_next_ge [of "if room \<noteq> 0 then room else READ_CHUNK" need]
  by (auto simp: bram_grow_def Let_def READ_CHUNK_def split: if_splits)

context byte_stream
begin

text \<open>However short the reads are, the whole stream is read when it fits the cap and refused when it
  does not.\<close>

lemma bram_read_loop_all:
  "buf = take (length buf) data \<Longrightarrow> length buf \<le> length data \<Longrightarrow>
     bram_read_loop io cap buf room = (if length data \<le> cap then Inr data else Inl SIGIL_ERR_UNSUPPORTED_FORMAT)"
proof (induction "cap + 1 - length buf" arbitrary: buf room rule: less_induct)
  case less
  show ?case
  proof (cases "cap < length buf")
    case True
    then show ?thesis using less.prems by (subst bram_read_loop.simps) simp
  next
    case False
    obtain room' where g: "bram_grow room (length buf + 1) (cap + 1) = Some room'" "length buf + 1 \<le> room'"
      using bram_grow_some [of "length buf + 1" "cap + 1" room] False by auto
    show ?thesis
    proof (cases "length buf < length data")
      case True
      then obtain n where n: "0 < n" "length buf + n \<le> length data"
        "io_read io (length buf) (room' - length buf) = Some (take n (drop (length buf) data))"
        using read_some [of "room' - length buf" "length buf"] g(2) by auto
      let ?bs = "take n (drop (length buf) data)"
      have buf': "buf @ ?bs = take (length buf + n) data" using less.prems(1) n(2) by (metis take_add)
      have len: "length (buf @ ?bs) = length buf + n" using n(2) by simp
      have "bram_read_loop io cap (buf @ ?bs) room' = (if length data \<le> cap then Inr data else Inl SIGIL_ERR_UNSUPPORTED_FORMAT)"
        by (rule less.hyps) (use len n buf' False in auto)
      then show ?thesis using False g n by (subst bram_read_loop.simps) (auto simp: neq_Nil_conv)
    next
      case False
      have "io_read io (length buf) (room' - length buf) = Some []" using False less.prems g(2) by (intro read_end) auto
      moreover have "buf = data" using False less.prems by simp
      ultimately show ?thesis using \<open>\<not> cap < length buf\<close> g by (subst bram_read_loop.simps) simp
    qed
  qed
qed

lemma bram_read_all:
  assumes "stream_size io = -1 \<or> stream_size io = int (length data)"
  shows "sigil_bram_read_all io cap = (if length data \<le> cap then Inr data else Inl SIGIL_ERR_UNSUPPORTED_FORMAT)"
  using assms bram_read_loop_all [of "[]" cap 0] by (auto simp: sigil_bram_read_all_def)

end

lemma bram_flat_nth:
  assumes "bs_expanded st" "i < length v"
  shows "bram_flat v st ! (2 * i) = (if bs_filler st < 0 then v ! i else word_of_int (bs_filler st))"
    and "bram_flat v st ! (2 * i + 1) = v ! i"
proof -
  have "concat (map (\<lambda>b. [f b, b]) v) ! (2 * i) = f (v ! i) \<and> concat (map (\<lambda>b. [f b, b]) v) ! (2 * i + 1) = v ! i" for f
    using assms(2)
  proof (induction v arbitrary: i)
    case (Cons a v)
    then show ?case by (cases i) simp_all
  qed simp
  then show "bram_flat v st ! (2 * i) = (if bs_filler st < 0 then v ! i else word_of_int (bs_filler st))"
    and "bram_flat v st ! (2 * i + 1) = v ! i"
    using assms(1) by (simp_all add: bram_flat_def)
qed

lemma length_bram_flat: "length (bram_flat v st) = (if bs_expanded st then 2 * length v else length v)"
  by (induction v) (auto simp: bram_flat_def)

text \<open>A volume stored expanded collapses to itself, and what is recorded stores it the same way.\<close>

lemma bram_collapse_flat:
  assumes st: "bs_expanded st" "-1 \<le> bs_filler st" "bs_filler st < 256" and v: "v \<noteq> []"
  shows "\<exists>f. sigil_bram_collapse (bram_flat v st) s0 = Some (v, s0\<lparr>bs_expanded := True, bs_filler := f\<rparr>) \<and>
    -1 \<le> f \<and> f < 256 \<and> bram_flat v (s0\<lparr>bs_expanded := True, bs_filler := f\<rparr>) = bram_flat v st"
proof -
  let ?b = "bram_flat v st"
  have len: "length ?b = 2 * length v" using st by (simp add: length_bram_flat)
  have lv: "0 < length v" using v by simp
  let ?c = "list_all (\<lambda>i. ?b ! (2 * i) = ?b ! 0) [0..<length v]"
  let ?r = "list_all (\<lambda>i. ?b ! (2 * i) = ?b ! (2 * i + 1)) [0..<length v]"
  have b0: "?b ! 0 = (if bs_filler st < 0 then v ! 0 else word_of_int (bs_filler st))"
    using bram_flat_nth(1) [OF st(1) lv] by simp
  have vals: "map (\<lambda>i. ?b ! (2 * i + 1)) [0..<length v] = v"
    by (intro nth_equalityI) (use bram_flat_nth(2) [OF st(1)] in simp_all)
  let ?f = "if ?c then int (unat (?b ! 0)) else -1"
  have cr: "?c \<or> ?r"
    using bram_flat_nth(1,2) [OF st(1), of _ v] by (cases "bs_filler st < 0") (auto simp: list_all_iff b0)
  have col: "sigil_bram_collapse ?b s0 = Some (v, s0\<lparr>bs_expanded := True, bs_filler := ?f\<rparr>)"
    using len lv vals cr unfolding sigil_bram_collapse_def Let_def by auto
  have eq: "bram_flat v (s0\<lparr>bs_expanded := True, bs_filler := ?f\<rparr>) = bram_flat v st"
  proof (cases ?c)
    case True
    have "(if bs_filler st < 0 then v ! i else word_of_int (bs_filler st)) = ?b ! 0" if "i < length v" for i
      using True that by (simp add: list_all_iff bram_flat_nth(1) [OF st(1), symmetric])
    then have m: "map (\<lambda>b. [?b ! 0, b]) v = map (\<lambda>b. [if bs_filler st < 0 then b else word_of_int (bs_filler st), b]) v"
      by (intro nth_equalityI) simp_all
    have x: "bram_flat v (s0\<lparr>bs_expanded := True, bs_filler := int (unat x)\<rparr>) = concat (map (\<lambda>b. [x, b]) v)" for x
      by (simp add: bram_flat_def)
    have y: "bram_flat v st = concat (map (\<lambda>b. [if bs_filler st < 0 then b else word_of_int (bs_filler st), b]) v)"
      using st(1) by (simp add: bram_flat_def)
    have "bram_flat v (s0\<lparr>bs_expanded := True, bs_filler := ?f\<rparr>) = concat (map (\<lambda>b. [?b ! 0, b]) v)"
      unfolding if_P [OF True] by (rule x)
    also have "\<dots> = bram_flat v st" unfolding m by (rule y [symmetric])
    finally show ?thesis .
  next
    case False
    then have "bs_filler st < 0" by (auto simp: list_all_iff bram_flat_nth [OF st(1)] b0 split: if_splits)
    then show ?thesis using False st(1) by (simp add: bram_flat_def)
  qed
  have "int (unat (?b ! 0)) < 256" "-1 \<le> int (unat (?b ! 0))" using unat_word8_less [of "?b ! 0"] by linarith+
  then have "-1 \<le> ?f \<and> ?f < 256" by simp
  then show ?thesis using col eq by blast
qed

end
