(* ===== verification/SegaCdEcc.thy ===== *)
theory SegaCdEcc
  imports Prelude
begin

text \<open>
  The error-correcting blocks of Sega CD backup RAM: the first part of
  \<^verbatim>\<open>src/src/card_segacd.c\<close>. A 32-byte payload is stored in 64 bytes: two copies of its CRC-16
  around it, spread over 6-bit symbols, with eight 6-bit code words over GF(64) and eight 8-bit
  code words over GF(256), one of each per column of the 8x8 byte grid.

  A code word is the list of its eight symbols and a block a byte memory whose 64 bytes start at
  the offset given. The main result is \<open>segacd_ecc_corrects\<close>: a stored block that is damaged in at
  most one bit plane of each column decodes to its payload.
\<close>

section \<open>The CRC\<close>

definition SEGACD_BLOCK_SIZE :: nat where "SEGACD_BLOCK_SIZE = 64"
definition SEGACD_PAYLOAD_SIZE :: nat where "SEGACD_PAYLOAD_SIZE = 32"
definition CRC_POLY :: u16 where "CRC_POLY = 0x1021"
definition GF8_POLY :: u32 where "GF8_POLY = 0x11D"
definition GF6_POLY :: u32 where "GF6_POLY = 0x43"
definition CODE_LEN :: nat where "CODE_LEN = 8"
definition CODE_DATA :: nat where "CODE_DATA = 6"
definition ECC_BUF_LEN :: nat where "ECC_BUF_LEN = 36"

definition crc16_bit :: "u16 \<Rightarrow> u16" where
  "crc16_bit crc = (if crc AND 0x8000 \<noteq> 0 then push_bit 1 crc XOR CRC_POLY else push_bit 1 crc)"

definition crc16_byte :: "u16 \<Rightarrow> u8 \<Rightarrow> u16" where
  "crc16_byte crc b = (crc16_bit ^^ 8) (crc XOR push_bit 8 (ucast b))"

definition crc16 :: "mem \<Rightarrow> nat \<Rightarrow> nat \<Rightarrow> u16" where
  "crc16 m p len = fold (\<lambda>i crc. crc16_byte crc (m (p + i))) [0..<len] 0"

section \<open>The fields\<close>

record gf_field =
  gf_bits :: nat
  gf_poly :: u32
  gf_inv_alpha_plus_1 :: u8
  gf_alpha_pow :: "u8 list"

definition GF8 :: gf_field where
  "GF8 = \<lparr>gf_bits = 8, gf_poly = GF8_POLY, gf_inv_alpha_plus_1 = 0xF4,
     gf_alpha_pow = [0x01, 0x02, 0x04, 0x08, 0x10, 0x20, 0x40, 0x80]\<rparr>"

definition GF6 :: gf_field where
  "GF6 = \<lparr>gf_bits = 6, gf_poly = GF6_POLY, gf_inv_alpha_plus_1 = 0x3E,
     gf_alpha_pow = [0x01, 0x02, 0x04, 0x08, 0x10, 0x20, 0x03, 0x06]\<rparr>"

text \<open>\<^verbatim>\<open>a <<= 1; if (a & (1u << f->bits)) a ^= f->poly\<close>.\<close>

definition gf_double :: "gf_field \<Rightarrow> u32 \<Rightarrow> u32" where
  "gf_double f a = (let a = push_bit 1 a in if a AND push_bit (gf_bits f) 1 \<noteq> 0 then a XOR gf_poly f else a)"

lemma drop_bit_less:
  fixes b :: u32
  assumes "b \<noteq> 0"
  shows "unat (drop_bit 1 b) < unat b"
proof -
  have "unat b \<noteq> 0" using assms by (simp add: unat_eq_zero)
  moreover have "unat (drop_bit 1 b) = unat b div 2" unfolding unsigned_drop_bit_eq
    using unsigned_less [where ?'a = nat, of b] by (simp add: drop_bit_eq_div take_bit_nat_eq_self)
  ultimately show ?thesis by simp
qed

function gf_mul_loop :: "gf_field \<Rightarrow> u32 \<Rightarrow> u32 \<Rightarrow> u32 \<Rightarrow> u32" where
  "gf_mul_loop f r a b =
     (if b \<noteq> 0 then gf_mul_loop f (if b AND 1 \<noteq> 0 then r XOR a else r) (gf_double f a) (drop_bit 1 b) else r)"
  by pat_completeness auto
termination
  by (relation "measure (\<lambda>(f, r, a, b). unat b)") (auto intro: drop_bit_less simp del: One_nat_def)

declare gf_mul_loop.simps [simp del]

definition gf_mul :: "gf_field \<Rightarrow> u8 \<Rightarrow> u8 \<Rightarrow> u8" where
  "gf_mul f a b = ucast (gf_mul_loop f 0 (ucast a) (ucast b))"

section \<open>Code words\<close>

text \<open>The two syndromes of the first \<open>n\<close> symbols.\<close>

definition syndromes :: "gf_field \<Rightarrow> u8 list \<Rightarrow> nat \<Rightarrow> u8 \<times> u8" where
  "syndromes f c n = fold (\<lambda>i (s0, s1).
     (s0 XOR c ! i, s1 XOR gf_mul f (c ! i) (gf_alpha_pow f ! (CODE_LEN - 1 - i)))) [0..<n] (0, 0)"

definition rs_encode :: "gf_field \<Rightarrow> u8 list \<Rightarrow> u8 list" where
  "rs_encode f c =
     (let (a, b) = syndromes f c CODE_DATA;
          c = c[6 := gf_mul f (a XOR b) (gf_inv_alpha_plus_1 f)]
      in c[7 := a XOR c ! 6])"

text \<open>\<open>None\<close> is \<^verbatim>\<open>return false\<close>.\<close>

definition rs_correct :: "gf_field \<Rightarrow> u8 list \<Rightarrow> u8 list option" where
  "rs_correct f c =
     (let (s0, s1) = syndromes f c CODE_LEN in
      if s0 = 0 \<and> s1 = 0 then Some c
      else if s0 = 0 \<or> s1 = 0 then None
      else case find (\<lambda>k. gf_mul f s0 (gf_alpha_pow f ! k) = s1) [0..<CODE_LEN] of
             None \<Rightarrow> None
           | Some k \<Rightarrow> Some (c[CODE_LEN - 1 - k := c ! (CODE_LEN - 1 - k) XOR s0]))"

section \<open>The code words of a block\<close>

definition RS6_LAST :: "nat list" where
  "RS6_LAST = [0x2D, 0x2E, 0x2F, 0x08, 0x11, 0x1A, 0x23, 0x2C]"

definition rs6_pos :: "nat \<Rightarrow> nat \<Rightarrow> nat" where
  "rs6_pos column i = (if i < 5 then column + i * 9 else if i = 5 then RS6_LAST ! column
     else (if i = 6 then 0x30 else 0x38) + column)"

definition rs6_get :: "mem \<Rightarrow> nat \<Rightarrow> u8 list" where
  "rs6_get blk column = map (\<lambda>i. drop_bit 2 (blk (rs6_pos column i))) [0..<CODE_LEN]"

definition rs6_put :: "mem \<Rightarrow> nat \<Rightarrow> u8 list \<Rightarrow> mem" where
  "rs6_put blk column c = fold (\<lambda>i blk. let p = rs6_pos column i in
     blk(p := push_bit 2 (c ! i) OR (blk p AND 3))) [0..<CODE_LEN] blk"

text \<open>\<^verbatim>\<open>v = (v << 1) | (x & 1)\<close> over the eight bytes \<open>x\<close>.\<close>

definition shift_in :: "(nat \<Rightarrow> u8) \<Rightarrow> u8" where
  "shift_in x = fold (\<lambda>i v. push_bit 1 v OR (x i AND 1)) [0..<CODE_LEN] 0"

definition rs8_get :: "mem \<Rightarrow> nat \<Rightarrow> u8 list" where
  "rs8_get blk column = map (\<lambda>j. shift_in (\<lambda>r. drop_bit (7 - j) (blk (column + 8 * r)))) [0..<CODE_LEN]"

definition rs8_put :: "mem \<Rightarrow> nat \<Rightarrow> u8 list \<Rightarrow> mem" where
  "rs8_put blk column c =
     fold (\<lambda>r blk. blk(column + 8 * r := shift_in (\<lambda>j. drop_bit (7 - r) (c ! j)))) [0..<CODE_LEN] blk"

section \<open>Encoding and decoding a block\<close>

text \<open>The 36 bytes a block holds: the CRC, the payload at offset \<open>p\<close>, and the complement of the
  CRC.\<close>

definition ecc_buf :: "mem \<Rightarrow> nat \<Rightarrow> mem" where
  "ecc_buf m p = (let crc = crc16 m p SEGACD_PAYLOAD_SIZE;
       buf = memcpy ((\<lambda>_. 0)(0 := ucast (drop_bit 8 crc), 1 := ucast crc)) 2 m p SEGACD_PAYLOAD_SIZE
     in buf(34 := NOT (buf 0), 35 := NOT (buf 1)))"

definition ecc_spread_group :: "mem \<Rightarrow> nat \<Rightarrow> mem \<Rightarrow> mem" where
  "ecc_spread_group buf g out =
     (let v = push_bit 16 (ucast (buf (3 * g))) OR push_bit 8 (ucast (buf (3 * g + 1)))
              OR ucast (buf (3 * g + 2)) :: u32
      in fold (\<lambda>k out. out(4 * g + k := push_bit 2 (ucast (drop_bit (18 - 6 * k) v AND 0x3F)))) [0..<4] out)"

definition rs6_encode_column :: "nat \<Rightarrow> mem \<Rightarrow> mem" where
  "rs6_encode_column column blk = rs6_put blk column (rs_encode GF6 (rs6_get blk column))"

definition rs8_encode_column :: "nat \<Rightarrow> mem \<Rightarrow> mem" where
  "rs8_encode_column column blk = rs8_put blk column (rs_encode GF8 (rs8_get blk column))"

text \<open>\<open>sigil_segacd_encode_block\<close> gives the encoded block at offset 0 of a memory of its own.\<close>

definition sigil_segacd_encode_block :: "mem \<Rightarrow> nat \<Rightarrow> mem" where
  "sigil_segacd_encode_block m p =
     (let buf = ecc_buf m p;
          out = fold (ecc_spread_group buf) [0..<ECC_BUF_LEN div 3] (\<lambda>_. 0);
          out = fold rs6_encode_column [0..<CODE_LEN] out
      in fold rs8_encode_column [0..<CODE_LEN] out)"

definition rs8_decode_column :: "nat \<Rightarrow> mem option \<Rightarrow> mem option" where
  "rs8_decode_column column r = (case r of None \<Rightarrow> None | Some blk \<Rightarrow>
     (case rs_correct GF8 (rs8_get blk column) of None \<Rightarrow> None | Some c \<Rightarrow> Some (rs8_put blk column c)))"

definition rs6_decode_column :: "nat \<Rightarrow> mem option \<Rightarrow> mem option" where
  "rs6_decode_column column r = (case r of None \<Rightarrow> None | Some blk \<Rightarrow>
     (case rs_correct GF6 (rs6_get blk column) of None \<Rightarrow> None | Some c \<Rightarrow> Some (rs6_put blk column c)))"

definition ecc_gather_group :: "mem \<Rightarrow> nat \<Rightarrow> mem \<Rightarrow> mem" where
  "ecc_gather_group blk g buf =
     (let v = fold (\<lambda>k v. push_bit 6 v OR ucast (drop_bit 2 (blk (4 * g + k)))) [0..<4] (0 :: u32)
      in buf(3 * g := ucast (drop_bit 16 v), 3 * g + 1 := ucast (drop_bit 8 v), 3 * g + 2 := ucast v))"

text \<open>The payload, or \<open>None\<close> when the block cannot be corrected or both CRC copies disagree.\<close>

definition sigil_segacd_decode_block :: "mem \<Rightarrow> nat \<Rightarrow> bytes option" where
  "sigil_segacd_decode_block m p =
     (case fold rs6_decode_column [0..<CODE_LEN]
             (fold rs8_decode_column [0..<CODE_LEN] (Some (memcpy (\<lambda>_. 0) 0 m p SEGACD_BLOCK_SIZE))) of
        None \<Rightarrow> None
      | Some blk \<Rightarrow>
          (let buf = fold (ecc_gather_group blk) [0..<ECC_BUF_LEN div 3] (\<lambda>_. 0);
               crc = crc16 buf 2 SEGACD_PAYLOAD_SIZE;
               first = push_bit 8 (ucast (buf 0)) OR ucast (buf 1);
               second = NOT (push_bit 8 (ucast (buf 34)) OR ucast (buf 35))
           in if crc \<noteq> first \<and> crc \<noteq> second then None else Some (bytes_at buf 2 SEGACD_PAYLOAD_SIZE)))"

section \<open>Multiplication by a constant is linear\<close>

lemma xor_if: "(if P then a XOR (c :: 'a::len word) else a) XOR (if Q then b XOR c else b) =
    (if P \<noteq> Q then (a XOR b) XOR c else a XOR b)"
  by (rule bit_word_eqI) (auto simp: bit_simps)

lemma gf_double_xor: "gf_double f (a XOR b) = gf_double f a XOR gf_double f b"
proof -
  have t: "x AND push_bit n 1 \<noteq> 0 \<longleftrightarrow> bit x n" for x :: u32 and n
    by (simp only: bit_iff_and_push_bit_not_eq_0)
  show ?thesis unfolding gf_double_def Let_def t xor_if by (simp add: bit_xor_iff push_bit_xor)
qed

lemma gf_mul_loop_xor:
  "gf_mul_loop f (r XOR r') (a XOR a') b = gf_mul_loop f r a b XOR gf_mul_loop f r' a' b"
proof (induction f r a b arbitrary: r' a' rule: gf_mul_loop.induct)
  case (1 f r a b)
  show ?case
  proof (cases "b = 0")
    case True then show ?thesis by (simp add: gf_mul_loop.simps)
  next
    case False
    have "(if b AND 1 \<noteq> 0 then (r XOR r') XOR (a XOR a') else r XOR r') =
        (if b AND 1 \<noteq> 0 then r XOR a else r) XOR (if b AND 1 \<noteq> 0 then r' XOR a' else r')"
      by (simp add: ac_simps)
    then show ?thesis
      using 1 [OF False, of "if b AND 1 \<noteq> 0 then r' XOR a' else r'" "gf_double f a'"] False
      by (simp add: gf_mul_loop.simps [of _ _ _ b] gf_double_xor)
  qed
qed

lemma gf_mul_xor: "gf_mul f (a XOR b) k = gf_mul f a k XOR gf_mul f b k"
  using gf_mul_loop_xor [of f 0 0 "ucast a" "ucast b" "ucast k"] by (simp add: gf_mul_def unsigned_xor_eq)

text \<open>Two linear maps that agree on the single bits below \<open>n\<close> agree on every symbol of \<open>n\<close> bits.\<close>

definition linear :: "(u8 \<Rightarrow> u8) \<Rightarrow> bool" where
  "linear h \<longleftrightarrow> (\<forall>a b. h (a XOR b) = h a XOR h b)"

lemma linearI: "(\<And>a b. h (a XOR b) = h a XOR h b) \<Longrightarrow> linear h"
  by (simp add: linear_def)

lemma linear_0: "linear h \<Longrightarrow> h 0 = 0"
proof -
  assume "linear h"
  then have "h (0 XOR 0) = h 0 XOR h 0" unfolding linear_def by blast
  then show ?thesis by simp
qed

lemma linear_mul [intro]: "linear (\<lambda>x. gf_mul f x k)"
  by (rule linearI) (rule gf_mul_xor)

lemma linear_comp [intro]: "linear g \<Longrightarrow> linear h \<Longrightarrow> linear (\<lambda>x. g (h x))"
  by (simp add: linear_def)

lemma linear_xor [intro]: "linear g \<Longrightarrow> linear h \<Longrightarrow> linear (\<lambda>x. g x XOR h x)"
  by (simp add: linear_def ac_simps)

lemma linear_id [intro]: "linear (\<lambda>x. x)"
  by (simp add: linear_def)

lemma linear_eq_bits:
  assumes "linear g" "linear h" and basis: "\<forall>i < n. g (push_bit i 1) = h (push_bit i 1)" and x: "\<forall>i \<ge> n. \<not> bit x i"
  shows "g x = h x"
  using basis x
proof (induction n arbitrary: x)
  case 0
  then have "x = 0" by (intro bit_word_eqI) simp
  then show ?case by (simp add: linear_0 assms)
next
  case (Suc n)
  show ?case
  proof (cases "bit x n")
    case False
    then have "\<forall>i \<ge> n. \<not> bit x i" using Suc.prems(2) by (metis le_antisym not_less_eq_eq)
    then show ?thesis using Suc.IH Suc.prems(1) by simp
  next
    case True
    let ?y = "x XOR push_bit n 1"
    have "\<not> bit ?y i" if "n \<le> i" for i
      using that True Suc.prems(2) by (cases "i = n") (auto simp: bit_simps dest: bit_imp_le_length)
    then have y: "g ?y = h ?y" using Suc.IH Suc.prems(1) by simp
    have "x = ?y XOR push_bit n 1" by (simp add: xor.assoc)
    then have "g x = g ?y XOR g (push_bit n 1)" "h x = h ?y XOR h (push_bit n 1)"
      using assms(1,2) unfolding linear_def by metis+
    then show ?thesis using y Suc.prems(1) by simp
  qed
qed

section \<open>The two codes\<close>

definition small :: "nat \<Rightarrow> u8 \<Rightarrow> bool" where
  "small n x \<longleftrightarrow> (\<forall>i \<ge> n. \<not> bit x i)"

lemma small_8 [simp]: "small 8 x"
  by (auto simp: small_def dest: bit_imp_le_length)

lemma small_0 [simp]: "small n 0"
  by (simp add: small_def)

lemma small_xor: "small n x \<Longrightarrow> small n y \<Longrightarrow> small n (x XOR y)"
  by (simp add: small_def bit_xor_iff)

text \<open>What the decoder relies on, for a field of \<open>n\<close>-bit symbols: the table holds the powers of the
  generator 2, the constant of the encoder inverts the generator plus one, and the eight powers move
  a symbol to eight different places.\<close>

locale rs_code =
  fixes f :: gf_field and n :: nat
  assumes pow_0: "small n x \<Longrightarrow> gf_mul f x (gf_alpha_pow f ! 0) = x"
    and pow_1: "gf_alpha_pow f ! 1 = 2"
    and pow_Suc: "small n x \<Longrightarrow> k < 7 \<Longrightarrow>
      gf_mul f x (gf_alpha_pow f ! Suc k) = gf_mul f (gf_mul f x (gf_alpha_pow f ! k)) 2"
    and mul_small: "small n x \<Longrightarrow> k < 8 \<Longrightarrow> small n (gf_mul f x (gf_alpha_pow f ! k))"
    and inv_small: "small n x \<Longrightarrow> small n (gf_mul f x (gf_inv_alpha_plus_1 f))"
    and inv: "small n x \<Longrightarrow>
      gf_mul f (gf_mul f x (gf_inv_alpha_plus_1 f)) 2 XOR gf_mul f x (gf_inv_alpha_plus_1 f) = x"
    and double_0: "small n x \<Longrightarrow> gf_mul f x 2 = 0 \<Longrightarrow> x = 0"
    and period: "small n x \<Longrightarrow> 0 < m \<Longrightarrow> m < 8 \<Longrightarrow> gf_mul f x (gf_alpha_pow f ! m) = x \<Longrightarrow> x = 0"

text \<open>The syndromes as sums.\<close>

fun syn0 :: "u8 list \<Rightarrow> nat \<Rightarrow> u8" where
  "syn0 c 0 = 0"
| "syn0 c (Suc n) = syn0 c n XOR c ! n"

fun syn1 :: "gf_field \<Rightarrow> u8 list \<Rightarrow> nat \<Rightarrow> u8" where
  "syn1 f c 0 = 0"
| "syn1 f c (Suc n) = syn1 f c n XOR gf_mul f (c ! n) (gf_alpha_pow f ! (7 - n))"

lemma syndromes_eq: "syndromes f c n = (syn0 c n, syn1 f c n)"
proof -
  have "fold (\<lambda>i (s0, s1). (s0 XOR c ! i, s1 XOR gf_mul f (c ! i) (gf_alpha_pow f ! (CODE_LEN - 1 - i)))) [0..<n] (0, 0) =
      (syn0 c n, syn1 f c n)"
    by (induction n) (simp_all add: CODE_LEN_def)
  then show ?thesis by (simp add: syndromes_def)
qed

lemma syn_cong: "(\<And>i. i < n \<Longrightarrow> c ! i = d ! i) \<Longrightarrow> syn0 c n = syn0 d n \<and> syn1 f c n = syn1 f d n"
  by (induction n) simp_all

lemma syn_update:
  assumes "i < n" "n \<le> length c"
  shows "syn0 (c[i := c ! i XOR e]) n = syn0 c n XOR e"
    and "syn1 f (c[i := c ! i XOR e]) n = syn1 f c n XOR gf_mul f e (gf_alpha_pow f ! (7 - i))"
proof -
  have "syn0 (c[i := c ! i XOR e]) n = (if i < n then syn0 c n XOR e else syn0 c n) \<and>
     syn1 f (c[i := c ! i XOR e]) n =
       (if i < n then syn1 f c n XOR gf_mul f e (gf_alpha_pow f ! (7 - i)) else syn1 f c n)"
    using assms(2)
  proof (induction n)
    case (Suc n)
    then show ?case
      by (cases "i = n") (auto simp: gf_mul_xor ac_simps less_Suc_eq)
  qed simp
  then show "syn0 (c[i := c ! i XOR e]) n = syn0 c n XOR e"
    and "syn1 f (c[i := c ! i XOR e]) n = syn1 f c n XOR gf_mul f e (gf_alpha_pow f ! (7 - i))"
    using assms(1) by simp_all
qed

lemma syn_8:
  "syn0 c 8 = syn0 c 6 XOR c ! 6 XOR c ! 7"
  "syn1 f c 8 = syn1 f c 6 XOR gf_mul f (c ! 6) (gf_alpha_pow f ! 1) XOR gf_mul f (c ! 7) (gf_alpha_pow f ! 0)"
  using syn0.simps(2) [of c 7] syn0.simps(2) [of c 6] syn1.simps(2) [of f c 7] syn1.simps(2) [of f c 6] by (simp_all add: xor.assoc)

lemma gf_mul_0 [simp]: "gf_mul f 0 k = 0"
  using linear_0 [OF linear_mul [of f k]] .

lemma xor_0_eq: "a XOR b = 0 \<Longrightarrow> a = (b :: 'a::len word)"
  by (metis xor.assoc xor.left_neutral xor.right_neutral xor_self_eq)

text \<open>A code word: eight symbols with both syndromes zero.\<close>

definition rs_word :: "gf_field \<Rightarrow> nat \<Rightarrow> u8 list \<Rightarrow> bool" where
  "rs_word f n c \<longleftrightarrow> length c = 8 \<and> (\<forall>s \<in> set c. small n s) \<and> syn0 c 8 = 0 \<and> syn1 f c 8 = 0"

context rs_code
begin

text \<open>No two positions turn one error into the same pair of syndromes.\<close>

lemma pow_shift:
  "small n x \<Longrightarrow> k + m < 8 \<Longrightarrow> gf_mul f x (gf_alpha_pow f ! k) = gf_mul f y (gf_alpha_pow f ! k) \<Longrightarrow>
     small n y \<Longrightarrow> x = y"
proof (induction k)
  case 0
  then show ?case using pow_0 [of x] pow_0 [of y] by simp
next
  case (Suc k)
  let ?p = "gf_alpha_pow f ! k"
  have "gf_mul f (gf_mul f x ?p) 2 = gf_mul f (gf_mul f y ?p) 2" using Suc.prems by (simp add: pow_Suc)
  then have "gf_mul f (gf_mul f x ?p XOR gf_mul f y ?p) 2 = 0" by (simp add: gf_mul_xor)
  moreover have "small n (gf_mul f x ?p XOR gf_mul f y ?p)" using Suc.prems by (intro small_xor mul_small) simp_all
  ultimately have "gf_mul f x ?p XOR gf_mul f y ?p = 0" using double_0 by blast
  then have "gf_mul f x ?p = gf_mul f y ?p" by (rule xor_0_eq)
  then show ?case using Suc by simp
qed

lemma pow_comm: "small n x \<Longrightarrow> k + m < 8 \<Longrightarrow>
    gf_mul f x (gf_alpha_pow f ! (k + m)) = gf_mul f (gf_mul f x (gf_alpha_pow f ! m)) (gf_alpha_pow f ! k)"
proof (induction k)
  case 0
  then show ?case using pow_0 [of "gf_mul f x (gf_alpha_pow f ! m)"] mul_small by simp
next
  case (Suc k)
  then show ?case using mul_small [of x m] by (simp add: pow_Suc)
qed

lemma pow_distinct:
  assumes x: "small n x" "x \<noteq> 0" and "j < 8" "k < 8" "gf_mul f x (gf_alpha_pow f ! j) = gf_mul f x (gf_alpha_pow f ! k)"
  shows "j = k"
proof -
  have "\<not> a < b" if "b < 8" "gf_mul f x (gf_alpha_pow f ! a) = gf_mul f x (gf_alpha_pow f ! b)" for a b
  proof
    assume "a < b"
    then obtain m where m: "b = a + m" "0 < m" by (metis less_imp_add_positive)
    have "gf_mul f x (gf_alpha_pow f ! a) = gf_mul f (gf_mul f x (gf_alpha_pow f ! m)) (gf_alpha_pow f ! a)"
      using pow_comm [OF x(1), of a m] that m by simp
    then have "x = gf_mul f x (gf_alpha_pow f ! m)"
      using pow_shift [OF x(1), of a m] mul_small [OF x(1), of m] that m by simp
    then show False using period [OF x(1), of m] x(2) that m by simp
  qed
  then show ?thesis using assms(3-5) by (metis linorder_neqE_nat)
qed

lemma mul_nonzero: "small n x \<Longrightarrow> x \<noteq> 0 \<Longrightarrow> k < 8 \<Longrightarrow> gf_mul f x (gf_alpha_pow f ! k) \<noteq> 0"
  using pow_shift [of x k 0 0] by auto

text \<open>The encoder's parity makes a code word; a code word with one bad symbol is corrected.\<close>

lemma encode_word:
  assumes len: "length c = 8" and sm: "\<forall>i < 6. small n (c ! i)"
  shows "rs_word f n (rs_encode f c)" and "i < 6 \<Longrightarrow> rs_encode f c ! i = c ! i"
proof -
  let ?a = "syn0 c 6" and ?b = "syn1 f c 6"
  let ?p = "gf_mul f (?a XOR ?b) (gf_inv_alpha_plus_1 f)"
  let ?d = "c[6 := ?p, 7 := ?a XOR ?p]"
  have d: "rs_encode f c = ?d"
    using len by (simp add: rs_encode_def syndromes_eq CODE_DATA_def Let_def)
  have six: "d ! 6 = ?p" "d ! 7 = ?a XOR ?p" "i < 6 \<Longrightarrow> d ! i = c ! i" "length d = 8" if "d = ?d" for d i
    using len by (simp_all add: that)
  then show "i < 6 \<Longrightarrow> rs_encode f c ! i = c ! i" using d by blast
  have part: "small n (syn0 c k) \<and> small n (syn1 f c k)" if "k \<le> 6" for k
    using that by (induction k) (simp_all add: small_xor sm mul_small)
  then have ab: "small n (?a XOR ?b)" by (simp add: small_xor)
  have p: "small n ?p" using inv_small [OF ab] .
  have ap: "small n (?a XOR ?p)" using p part by (simp add: small_xor)
  have "syn0 ?d 6 = ?a \<and> syn1 f ?d 6 = ?b"
    by (rule syn_cong) simp
  moreover have "syn0 ?d 8 = syn0 ?d 6 XOR ?p XOR (?a XOR ?p)" "syn1 f ?d 8 = syn1 f ?d 6 XOR gf_mul f ?p 2 XOR (?a XOR ?p)"
    unfolding syn_8 six(1,2) [OF refl] pow_1 pow_0 [OF ap] by (rule refl)+
  moreover have "?b XOR gf_mul f ?p 2 XOR (?a XOR ?p) = (gf_mul f ?p 2 XOR ?p) XOR (?a XOR ?b)"
    by (simp add: ac_simps)
  ultimately have "syn0 ?d 8 = 0 \<and> syn1 f ?d 8 = 0" using inv [OF ab] by (simp add: ac_simps)
  moreover have "small n (?d ! i)" if "i < 8" for i
  proof -
    have "i < 6 \<or> i = 6 \<or> i = 7" using that by linarith
    then show ?thesis using six [OF refl] sm p ap by auto
  qed
  then have "\<forall>s \<in> set ?d. small n s" using six(4) [OF refl] by (metis in_set_conv_nth)
  ultimately show "rs_word f n (rs_encode f c)" unfolding d rs_word_def using six(4) [OF refl] by blast
qed

lemma correct_word:
  assumes c: "rs_word f n c" and i: "i < 8" and e: "small n e"
  shows "rs_correct f (c[i := c ! i XOR e]) = Some c"
proof -
  let ?d = "c[i := c ! i XOR e]"
  have len: "length c = 8" and z: "syn0 c 8 = 0" "syn1 f c 8 = 0" using c by (simp_all add: rs_word_def)
  have s: "syndromes f ?d CODE_LEN = (e, gf_mul f e (gf_alpha_pow f ! (7 - i)))"
    using syn_update(1) [of i 8 c e] syn_update(2) [of i 8 c f e] i len z by (simp add: syndromes_eq CODE_LEN_def)
  show ?thesis
  proof (cases "e = 0")
    case True
    then show ?thesis using s by (simp add: rs_correct_def)
  next
    case False
    have k: "7 - i < 8" by simp
    have nz: "gf_mul f e (gf_alpha_pow f ! (7 - i)) \<noteq> 0" by (rule mul_nonzero [OF e False k])
    have "find (\<lambda>k. gf_mul f e (gf_alpha_pow f ! k) = gf_mul f e (gf_alpha_pow f ! (7 - i))) [0..<CODE_LEN] = Some (7 - i)"
    proof -
      have "gf_mul f e (gf_alpha_pow f ! k) = gf_mul f e (gf_alpha_pow f ! (7 - i)) \<longleftrightarrow> k = 7 - i" if "k < 8" for k
        using pow_distinct [OF e False that, of "7 - i"] by auto
      then show ?thesis unfolding find_Some_iff using i
        by (intro exI [of _ "7 - i"]) (auto simp: CODE_LEN_def)
    qed
    then show ?thesis
      using s nz False i len by (simp add: rs_correct_def CODE_LEN_def xor.assoc)
  qed
qed

lemma correct_none: "rs_word f n c \<Longrightarrow> rs_correct f c = Some c"
  by (simp add: rs_correct_def syndromes_eq rs_word_def CODE_LEN_def)

end

section \<open>GF(256) and GF(64)\<close>

lemma linear_small:
  assumes "linear h" and "\<forall>i < n. small m (h (push_bit i 1))" and "small n x"
  shows "small m (h x)"
  using assms(2,3)
proof (induction n arbitrary: x)
  case 0
  then have "x = 0" by (intro bit_word_eqI) (simp add: small_def)
  then show ?case by (simp add: linear_0 assms)
next
  case (Suc n)
  show ?case
  proof (cases "bit x n")
    case False
    then have "small n x" using Suc.prems(2) unfolding small_def by (metis le_antisym not_less_eq_eq)
    then show ?thesis using Suc by simp
  next
    case True
    let ?y = "x XOR push_bit n 1"
    have "small n ?y" unfolding small_def
    proof (intro allI impI)
      fix i assume "n \<le> i"
      then show "\<not> bit ?y i"
        using True Suc.prems(2) by (cases "i = n") (auto simp: small_def bit_simps dest: bit_imp_le_length)
    qed
    then have "small m (h ?y)" using Suc by simp
    moreover have "h x = h ?y XOR h (push_bit n 1)"
      using assms(1) unfolding linear_def by (metis xor.assoc xor.right_neutral xor_self_eq)
    ultimately show ?thesis using Suc.prems(1) by (simp add: small_xor)
  qed
qed

lemma linear_eqI:
  assumes "linear g" "linear h" "list_all (\<lambda>i. g (push_bit i 1) = h (push_bit i 1)) [0..<n]" "small n x"
  shows "g x = h x"
  by (rule linear_eq_bits [of g h n]) (use assms in \<open>auto simp: small_def list_all_iff\<close>)

lemma linear_smallI:
  assumes "linear h" "list_all (\<lambda>i. drop_bit m (h (push_bit i 1)) = 0) [0..<n]" "small n x"
  shows "small m (h x)"
proof -
  have "small m y" if "drop_bit m y = 0" for y
    unfolding small_def
  proof (intro allI impI)
    fix i assume "m \<le> i"
    then have "bit y i = bit (drop_bit m y) (i - m)" by (simp add: bit_drop_bit_eq)
    then show "\<not> bit y i" using that by simp
  qed
  then show ?thesis using assms by (intro linear_small [of h n]) (auto simp: list_all_iff)
qed

text \<open>A linear map with a linear left inverse.\<close>

lemma linear_inj:
  assumes "linear g" "linear h" "list_all (\<lambda>i. g (h (push_bit i 1)) = push_bit i 1) [0..<n]" "small n x" "h x = 0"
  shows "x = 0"
proof -
  have "g (h x) = x"
    by (rule linear_eqI [OF linear_comp [OF assms(1,2)] linear_id _ assms(4)]) (use assms(3) in simp)
  then show ?thesis using assms(5) linear_0 [OF assms(1)] by simp
qed

lemma gf_mul_1 [simp]: "gf_mul f x 1 = x"
proof -
  have "gf_mul f x 1 = ucast (ucast x :: u32)"
    by (simp add: gf_mul_def gf_mul_loop.simps [of _ _ _ 1] gf_mul_loop.simps [of _ _ _ 0])
  then show ?thesis by simp
qed

text \<open>The checks on the single bits, as predicates of the position, so that evaluation meets only
  concrete symbols.\<close>

definition pow_check :: "gf_field \<Rightarrow> nat \<Rightarrow> nat \<Rightarrow> bool" where
  "pow_check f k i \<longleftrightarrow> gf_mul f (push_bit i 1) (gf_alpha_pow f ! Suc k) =
     gf_mul f (gf_mul f (push_bit i 1) (gf_alpha_pow f ! k)) 2"

definition small_check :: "nat \<Rightarrow> gf_field \<Rightarrow> u8 \<Rightarrow> nat \<Rightarrow> bool" where
  "small_check n f k i \<longleftrightarrow> drop_bit n (gf_mul f (push_bit i 1) k) = 0"

definition inv_check :: "gf_field \<Rightarrow> nat \<Rightarrow> bool" where
  "inv_check f i \<longleftrightarrow> gf_mul f (gf_mul f (push_bit i 1) (gf_inv_alpha_plus_1 f)) 2 XOR
     gf_mul f (push_bit i 1) (gf_inv_alpha_plus_1 f) = push_bit i 1"

definition half_check :: "gf_field \<Rightarrow> u8 \<Rightarrow> nat \<Rightarrow> bool" where
  "half_check f h i \<longleftrightarrow> gf_mul f (gf_mul f (push_bit i 1) 2) h = push_bit i 1"

definition period_check :: "gf_field \<Rightarrow> u8 \<Rightarrow> u8 \<Rightarrow> nat \<Rightarrow> bool" where
  "period_check f p q i \<longleftrightarrow> gf_mul f (gf_mul f (push_bit i 1) p XOR push_bit i 1) q = push_bit i 1"

text \<open>The inverses of one plus each power of the generator.\<close>

definition gf8_inverses :: "u8 list" where "gf8_inverses = [0, 0xF4, 0xA7, 0x9D, 0x72, 0xED, 0x5F, 0x54]"
definition gf6_inverses :: "u8 list" where "gf6_inverses = [0, 0x3E, 0x2B, 0x25, 0x36, 0x02, 0x21, 0x2C]"

lemma gf8_pow: "list_all (\<lambda>k. list_all (pow_check GF8 k) [0..<8]) [0..<7]"
  by code_simp

lemma gf6_pow: "list_all (\<lambda>k. list_all (pow_check GF6 k) [0..<6]) [0..<7]"
  by code_simp

lemma gf6_small: "list_all (\<lambda>k. list_all (small_check 6 GF6 k) [0..<6]) (gf_inv_alpha_plus_1 GF6 # gf_alpha_pow GF6)"
  by code_simp

lemma gf_inv: "list_all (inv_check GF8) [0..<8]" "list_all (inv_check GF6) [0..<6]"
  by code_simp+

lemma gf_half: "list_all (half_check GF8 0x8E) [0..<8]" "list_all (half_check GF6 0x21) [0..<6]"
  by code_simp+

lemma gf8_period: "list_all (\<lambda>m. list_all (period_check GF8 (gf_alpha_pow GF8 ! m) (gf8_inverses ! m)) [0..<8]) [1..<8]"
  by code_simp

lemma gf6_period: "list_all (\<lambda>m. list_all (period_check GF6 (gf_alpha_pow GF6 ! m) (gf6_inverses ! m)) [0..<6]) [1..<8]"
  by code_simp

lemma list_all_uptD: "list_all P [a..<b] \<Longrightarrow> a \<le> i \<Longrightarrow> i < b \<Longrightarrow> P i"
  by (simp add: list_all_iff)

interpretation gf8: rs_code GF8 8
proof
  show "gf_mul GF8 x (gf_alpha_pow GF8 ! 0) = x" for x by (simp add: GF8_def)
  show "gf_alpha_pow GF8 ! 1 = 2" by (simp add: GF8_def)
  show "gf_mul GF8 x (gf_alpha_pow GF8 ! Suc k) = gf_mul GF8 (gf_mul GF8 x (gf_alpha_pow GF8 ! k)) 2"
    if "small 8 x" "k < 7" for x k
    by (rule linear_eqI [OF linear_mul linear_comp [OF linear_mul linear_mul] _ that(1)])
       (use list_all_uptD [OF gf8_pow, of k] that(2) in \<open>simp add: pow_check_def [abs_def]\<close>)
  show "gf_mul GF8 (gf_mul GF8 x (gf_inv_alpha_plus_1 GF8)) 2 XOR gf_mul GF8 x (gf_inv_alpha_plus_1 GF8) = x"
    if "small 8 x" for x
    by (rule linear_eqI [OF linear_xor [OF linear_comp [OF linear_mul linear_mul] linear_mul] linear_id _ that])
       (use gf_inv in \<open>simp add: inv_check_def [abs_def]\<close>)
  show "x = 0" if "small 8 x" "gf_mul GF8 x 2 = 0" for x
    by (rule linear_inj [OF linear_mul linear_mul _ that]) (use gf_half in \<open>simp add: half_check_def [abs_def]\<close>)
  show "x = 0" if "small 8 x" "0 < m" "m < 8" "gf_mul GF8 x (gf_alpha_pow GF8 ! m) = x" for x m
  proof -
    have "gf_mul GF8 x (gf_alpha_pow GF8 ! m) XOR x = 0" using that(4) by simp
    then show ?thesis
      using list_all_uptD [OF gf8_period, of m] that(2,3)
      by (intro linear_inj [OF linear_mul linear_xor [OF linear_mul linear_id] _ that(1)])
         (simp_all add: period_check_def [abs_def])
  qed
qed simp_all

interpretation gf6: rs_code GF6 6
proof
  show "gf_mul GF6 x (gf_alpha_pow GF6 ! 0) = x" for x by (simp add: GF6_def)
  show "gf_alpha_pow GF6 ! 1 = 2" by (simp add: GF6_def)
  show "gf_mul GF6 x (gf_alpha_pow GF6 ! Suc k) = gf_mul GF6 (gf_mul GF6 x (gf_alpha_pow GF6 ! k)) 2"
    if "small 6 x" "k < 7" for x k
    by (rule linear_eqI [OF linear_mul linear_comp [OF linear_mul linear_mul] _ that(1)])
       (use list_all_uptD [OF gf6_pow, of k] that(2) in \<open>simp add: pow_check_def [abs_def]\<close>)
  show "small 6 (gf_mul GF6 x (gf_alpha_pow GF6 ! k))" if "small 6 x" "k < 8" for x k
  proof -
    have "gf_alpha_pow GF6 ! k \<in> set (gf_alpha_pow GF6)" using that(2) by (intro nth_mem) (simp add: GF6_def)
    then have "list_all (small_check 6 GF6 (gf_alpha_pow GF6 ! k)) [0..<6]" using gf6_small by (simp add: list_all_iff)
    then show ?thesis by (intro linear_smallI [OF linear_mul _ that(1)]) (simp add: small_check_def [abs_def])
  qed
  show "small 6 (gf_mul GF6 x (gf_inv_alpha_plus_1 GF6))" if "small 6 x" for x
    by (rule linear_smallI [OF linear_mul _ that]) (use gf6_small in \<open>simp add: small_check_def [abs_def]\<close>)
  show "gf_mul GF6 (gf_mul GF6 x (gf_inv_alpha_plus_1 GF6)) 2 XOR gf_mul GF6 x (gf_inv_alpha_plus_1 GF6) = x"
    if "small 6 x" for x
    by (rule linear_eqI [OF linear_xor [OF linear_comp [OF linear_mul linear_mul] linear_mul] linear_id _ that])
       (use gf_inv in \<open>simp add: inv_check_def [abs_def]\<close>)
  show "x = 0" if "small 6 x" "gf_mul GF6 x 2 = 0" for x
    by (rule linear_inj [OF linear_mul linear_mul _ that]) (use gf_half in \<open>simp add: half_check_def [abs_def]\<close>)
  show "x = 0" if "small 6 x" "0 < m" "m < 8" "gf_mul GF6 x (gf_alpha_pow GF6 ! m) = x" for x m
  proof -
    have "gf_mul GF6 x (gf_alpha_pow GF6 ! m) XOR x = 0" using that(4) by simp
    then show ?thesis
      using list_all_uptD [OF gf6_period, of m] that(2,3)
      by (intro linear_inj [OF linear_mul linear_xor [OF linear_mul linear_id] _ that(1)])
         (simp_all add: period_check_def [abs_def])
  qed
qed

section \<open>The columns of a block\<close>

text \<open>A loop that rewrites the bytes at distinct places, each from its old value.\<close>

lemma fold_at:
  assumes "distinct is" and "inj_on g (set is)"
  shows "i \<in> set is \<Longrightarrow> fold (\<lambda>i b. b(g i := h i (b (g i)))) is b (g i) = h i (b (g i))"
    and "p \<notin> g ` set is \<Longrightarrow> fold (\<lambda>i b. b(g i := h i (b (g i)))) is b p = b p"
proof -
  let ?F = "\<lambda>i b. b(g i := h i (b (g i)))"
  have out: "p \<notin> g ` set is \<Longrightarrow> fold ?F is b p = b p" for "is" p b
  proof (induction "is" arbitrary: b)
    case (Cons a xs)
    then have "fold ?F xs (?F a b) p = ?F a b p" by (intro Cons.IH) simp
    also have "\<dots> = b p" using Cons.prems by (simp add: fun_upd_other)
    finally show ?case unfolding fold_simps .
  qed simp
  have ins: "distinct is \<Longrightarrow> inj_on g (set is) \<Longrightarrow> i \<in> set is \<Longrightarrow> fold ?F is b (g i) = h i (b (g i))" for "is" i b
  proof (induction "is" arbitrary: b)
    case (Cons a xs)
    show ?case
    proof (cases "i = a")
      case True
      have "g a \<notin> g ` set xs" using Cons.prems by auto
      then have "fold ?F xs (?F a b) (g a) = ?F a b (g a)" by (rule out)
      then show ?thesis using True unfolding fold_simps by simp
    next
      case False
      then have i: "i \<in> set xs" "g i \<noteq> g a" using Cons.prems by (auto simp: inj_on_def)
      have "fold ?F xs (?F a b) (g i) = h i (?F a b (g i))" using Cons.prems i by (intro Cons.IH) simp_all
      also have "\<dots> = h i (b (g i))" using i(2) by simp
      finally show ?thesis unfolding fold_simps .
    qed
  qed simp
  show "i \<in> set is \<Longrightarrow> fold ?F is b (g i) = h i (b (g i))" and "p \<notin> g ` set is \<Longrightarrow> fold ?F is b p = b p"
    using ins [OF assms] out by blast+
qed

lemma rs6_distinct: "distinct (map (\<lambda>q. rs6_pos (q div 8) (q mod 8)) [0..<64])"
  by code_simp

lemma rs6_range: "list_all (\<lambda>q. rs6_pos (q div 8) (q mod 8) < 64) [0..<64]"
  by code_simp

lemma rs6_data: "list_all (\<lambda>q. rs6_pos (q div 8) (q mod 8) < 48 \<longleftrightarrow> q mod 8 < 6) [0..<64]"
  by code_simp

lemma rs6_pos_eq:
  assumes "c < 8" "i < 8" "d < 8" "j < 8"
  shows "rs6_pos c i = rs6_pos d j \<longleftrightarrow> c = d \<and> i = j"
proof -
  have "8 * c + i < 64" "8 * d + j < 64" using assms by linarith+
  then have "rs6_pos c i = rs6_pos d j \<longleftrightarrow> 8 * c + i = 8 * d + j"
    using nth_eq_iff_index_eq [OF rs6_distinct, of "8 * c + i" "8 * d + j"] assms by simp
  also have "\<dots> \<longleftrightarrow> c = d \<and> i = j" using assms by (metis add_left_cancel div_mult_self4 div_less add.right_neutral zero_neq_numeral)
  finally show ?thesis .
qed

lemma rs6_pos_range:
  assumes "c < 8" "i < 8"
  shows "rs6_pos c i < 64" and "rs6_pos c i < 48 \<longleftrightarrow> i < 6"
proof -
  have q: "8 * c + i < 64" using assms by linarith
  show "rs6_pos c i < 64" using rs6_range q assms unfolding list_all_iff by (auto dest!: bspec [of _ _ "8 * c + i"])
  show "rs6_pos c i < 48 \<longleftrightarrow> i < 6" using rs6_data q assms unfolding list_all_iff by (auto dest!: bspec [of _ _ "8 * c + i"])
qed

lemma rs6_put_fold:
  "rs6_put blk column c = fold (\<lambda>i b. b(rs6_pos column i := push_bit 2 (c ! i) OR (b (rs6_pos column i) AND 3))) [0..<8] blk"
  by (simp add: rs6_put_def Let_def CODE_LEN_def)

lemma rs6_inj: "c < 8 \<Longrightarrow> inj_on (rs6_pos c) (set [0..<8])"
  by (auto simp: inj_on_def rs6_pos_eq)

lemma rs6_put_in: "column < 8 \<Longrightarrow> i < 8 \<Longrightarrow>
    rs6_put blk column c (rs6_pos column i) = push_bit 2 (c ! i) OR (blk (rs6_pos column i) AND 3)"
  unfolding rs6_put_fold
  by (rule fold_at(1) [where h = "\<lambda>i x. push_bit 2 (c ! i) OR (x AND 3)"]) (simp_all add: rs6_inj [simplified])

lemma rs6_put_out: "column < 8 \<Longrightarrow> (\<And>i. i < 8 \<Longrightarrow> p \<noteq> rs6_pos column i) \<Longrightarrow> rs6_put blk column c p = blk p"
  unfolding rs6_put_fold
  by (rule fold_at(2) [where h = "\<lambda>i x. push_bit 2 (c ! i) OR (x AND 3)"])
     (simp_all add: rs6_inj [simplified], fastforce)

lemma length_rs6_get [simp]: "length (rs6_get blk c) = 8" and length_rs8_get [simp]: "length (rs8_get blk c) = 8"
  by (simp_all add: rs6_get_def rs8_get_def CODE_LEN_def)

lemma rs6_get_nth: "i < 8 \<Longrightarrow> rs6_get blk c ! i = drop_bit 2 (blk (rs6_pos c i))"
  by (simp add: rs6_get_def CODE_LEN_def)

lemma low_bits3: "bit (3 :: u8) n \<longleftrightarrow> n < 2"
proof -
  have "(3 :: u8) = mask 2" by (simp add: mask_eq_decr_exp)
  then show ?thesis by (simp only: bit_mask_iff) auto
qed

lemma join6: "small 6 s \<Longrightarrow> drop_bit 2 (push_bit 2 s OR (x AND 3)) = s"
  unfolding small_def
  by (rule bit_word_eqI) (auto simp: bit_drop_bit_eq bit_or_iff bit_push_bit_iff bit_and_iff low_bits3 not_le)

lemma split6: "push_bit 2 (drop_bit 2 x) OR (x AND 3) = (x :: u8)"
proof (rule bit_word_eqI)
  fix n
  have "bit (push_bit 2 (drop_bit 2 x) OR (x AND 3)) n \<longleftrightarrow> (2 \<le> n \<and> n < 8 \<and> bit x (2 + (n - 2))) \<or> bit x n \<and> n < 2"
    by (simp only: bit_or_iff bit_push_bit_iff bit_drop_bit_eq bit_and_iff low_bits3 comp_def) auto
  then show "bit (push_bit 2 (drop_bit 2 x) OR (x AND 3)) n = bit x n"
    by (cases "n < 2") (auto dest: bit_imp_le_length simp: not_less le_iff_add)
qed

lemma eight_cases: "i < 8 \<Longrightarrow> i = 0 \<or> i = 1 \<or> i = 2 \<or> i = 3 \<or> i = 4 \<or> i = 5 \<or> i = 6 \<or> i = (7 :: nat)"
  by linarith

lemma shift_in_bit: "i < 8 \<Longrightarrow> bit (shift_in x) i \<longleftrightarrow> bit (x (7 - i)) 0"
proof -
  have one: "bit (x j AND 1) n \<longleftrightarrow> n = 0 \<and> bit (x j) 0" for j n
    by (auto simp: bit_and_iff bit_1_iff)
  have step: "k \<le> 8 \<Longrightarrow> bit (fold (\<lambda>i v. push_bit 1 v OR (x i AND 1)) [0..<k] 0) n \<longleftrightarrow> n < k \<and> bit (x (k - 1 - n)) 0" for k n
  proof (induction k arbitrary: n)
    case (Suc k)
    have "bit (fold (\<lambda>i v. push_bit 1 v OR (x i AND 1)) [0..<Suc k] 0) n \<longleftrightarrow>
        (1 \<le> n \<and> n < 8 \<and> n - 1 < k \<and> bit (x (k - 1 - (n - 1))) 0) \<or> n = 0 \<and> bit (x k) 0"
      using Suc.IH [of "n - 1"] Suc.prems
      by (simp add: bit_or_iff bit_push_bit_iff one del: One_nat_def)
    also have "\<dots> \<longleftrightarrow> n < Suc k \<and> bit (x (Suc k - 1 - n)) 0"
      using Suc.prems by (cases n) (auto simp: Suc_diff_Suc)
    finally show ?case .
  qed simp
  assume "i < 8"
  then show ?thesis using step [of 8 i] by (simp add: shift_in_def CODE_LEN_def)
qed

lemma seven_minus [simp]: "j < 8 \<Longrightarrow> 7 - (7 - j) = (j :: nat)"
  by simp

lemma rs8_get_bit: "j < 8 \<Longrightarrow> m < 8 \<Longrightarrow> bit (rs8_get blk column ! j) m \<longleftrightarrow> bit (blk (column + 8 * (7 - m))) (7 - j)"
  by (simp add: rs8_get_def CODE_LEN_def shift_in_bit bit_drop_bit_eq)

lemma rs8_put_fold:
  "rs8_put blk column c = fold (\<lambda>r b. b(column + 8 * r := shift_in (\<lambda>j. drop_bit (7 - r) (c ! j)))) [0..<8] blk"
  by (simp add: rs8_put_def CODE_LEN_def)

lemma rs8_put_in: "r < 8 \<Longrightarrow> rs8_put blk column c (column + 8 * r) = shift_in (\<lambda>j. drop_bit (7 - r) (c ! j))"
  unfolding rs8_put_fold
  by (rule fold_at(1) [where h = "\<lambda>r x. shift_in (\<lambda>j. drop_bit (7 - r) (c ! j))" and g = "\<lambda>r. column + 8 * r"])
     (simp_all add: inj_on_def)

lemma rs8_put_bit: "r < 8 \<Longrightarrow> m < 8 \<Longrightarrow>
    bit (rs8_put blk column c (column + 8 * r)) m \<longleftrightarrow> bit (c ! (7 - m)) (7 - r)"
  by (simp add: rs8_put_in shift_in_bit bit_drop_bit_eq)

lemma rs8_put_out: "(\<And>r. r < 8 \<Longrightarrow> p \<noteq> column + 8 * r) \<Longrightarrow> rs8_put blk column c p = blk p"
  unfolding rs8_put_fold
  by (rule fold_at(2) [where h = "\<lambda>r x. shift_in (\<lambda>j. drop_bit (7 - r) (c ! j))" and g = "\<lambda>r. column + 8 * r"])
     (simp_all add: inj_on_def, fastforce)

lemma byte_eqI: "(\<And>m. m < 8 \<Longrightarrow> bit x m = bit y m) \<Longrightarrow> x = (y :: u8)"
  by (rule bit_word_eqI) simp

lemma rs8_get_put:
  assumes "length c = 8"
  shows "rs8_get (rs8_put blk column c) column = c"
proof (rule nth_equalityI)
  fix j assume "j < length (rs8_get (rs8_put blk column c) column)"
  then have j: "j < 8" by simp
  show "rs8_get (rs8_put blk column c) column ! j = c ! j"
    by (rule byte_eqI) (simp add: rs8_get_bit rs8_put_bit j seven_minus [OF j])
qed (simp add: assms)

lemma rs8_put_get: "rs8_put blk column (rs8_get blk column) = blk"
proof
  fix p
  show "rs8_put blk column (rs8_get blk column) p = blk p"
  proof (cases "\<exists>r < 8. p = column + 8 * r")
    case True
    then obtain r where r: "r < 8" "p = column + 8 * r" by blast
    show ?thesis unfolding r(2) by (rule byte_eqI) (simp add: rs8_put_bit rs8_get_bit seven_minus [OF r(1)] r(1))
  next
    case False
    then show ?thesis by (intro rs8_put_out) blast
  qed
qed

lemma rs8_get_other: "c < 8 \<Longrightarrow> d < 8 \<Longrightarrow> c \<noteq> d \<Longrightarrow> rs8_get (rs8_put blk d w) c = rs8_get blk c"
proof -
  assume "c < 8" "d < 8" "c \<noteq> d"
  then have "rs8_put blk d w (c + 8 * r) = blk (c + 8 * r)" for r
    by (intro rs8_put_out) (metis add.commute div_mult_self1 div_less mod_less mod_mult_self2 zero_neq_numeral)
  then show ?thesis by (simp add: rs8_get_def)
qed

lemma rs6_put_get: "column < 8 \<Longrightarrow> rs6_put blk column (rs6_get blk column) = blk"
proof
  fix p assume c: "column < 8"
  show "rs6_put blk column (rs6_get blk column) p = blk p"
  proof (cases "\<exists>i < 8. p = rs6_pos column i")
    case True
    then show ?thesis using c by (auto simp: rs6_put_in rs6_get_nth split6)
  next
    case False
    then show ?thesis using c by (intro rs6_put_out) auto
  qed
qed

lemma rs6_get_put:
  assumes "column < 8" "length c = 8" "\<forall>s \<in> set c. small 6 s"
  shows "rs6_get (rs6_put blk column c) column = c"
proof (rule nth_equalityI)
  fix i assume "i < length (rs6_get (rs6_put blk column c) column)"
  then have i: "i < 8" by simp
  show "rs6_get (rs6_put blk column c) column ! i = c ! i"
    unfolding rs6_get_nth [OF i] rs6_put_in [OF assms(1) i] by (rule join6) (use assms i in simp)
qed (simp add: assms)

lemma rs6_get_other: "c < 8 \<Longrightarrow> d < 8 \<Longrightarrow> c \<noteq> d \<Longrightarrow> rs6_get (rs6_put blk d w) c = rs6_get blk c"
  by (intro nth_equalityI) (simp_all add: rs6_get_nth rs6_put_out rs6_pos_eq)

text \<open>The code words over GF(64) read the top six bits only.\<close>

lemma rs6_get_cong:
  "c < 8 \<Longrightarrow> (\<And>p. p < 64 \<Longrightarrow> drop_bit 2 (a p) = drop_bit 2 (b p)) \<Longrightarrow> rs6_get a c = rs6_get b c"
  by (intro nth_equalityI) (simp_all add: rs6_get_nth rs6_pos_range)

section \<open>Encoding makes every column a code word\<close>

lemma small_drop_2: "small 6 (drop_bit 2 (x :: u8))"
  by (auto simp: small_def bit_drop_bit_eq dest: bit_imp_le_length)

lemma rs6_get_small: "i < 8 \<Longrightarrow> small 6 (rs6_get blk c ! i)"
  by (simp add: rs6_get_nth small_drop_2)

lemma rs6_encode_pass:
  "n \<le> 8 \<Longrightarrow>
    (\<forall>c < n. rs_word GF6 6 (rs6_get (fold rs6_encode_column [0..<n] m) c)) \<and>
    (\<forall>c < 8. n \<le> c \<longrightarrow> rs6_get (fold rs6_encode_column [0..<n] m) c = rs6_get m c) \<and>
    (\<forall>p < 48. fold rs6_encode_column [0..<n] m p = m p)"
proof (induction n)
  case (Suc n)
  let ?b = "fold rs6_encode_column [0..<n] m"
  let ?w = "rs_encode GF6 (rs6_get ?b n)"
  have n: "n < 8" using Suc.prems by simp
  have b: "\<forall>c < n. rs_word GF6 6 (rs6_get ?b c)" "\<forall>c < 8. n \<le> c \<longrightarrow> rs6_get ?b c = rs6_get m c" "\<forall>p < 48. ?b p = m p"
    using Suc by simp_all
  have w: "rs_word GF6 6 ?w" "\<And>i. i < 6 \<Longrightarrow> ?w ! i = rs6_get ?b n ! i"
    using gf6.encode_word [of "rs6_get ?b n"] by (simp_all add: rs6_get_small)
  have wl: "length ?w = 8" "\<forall>s \<in> set ?w. small 6 s" using w(1) by (simp_all add: rs_word_def)
  have step: "fold rs6_encode_column [0..<Suc n] m = rs6_put ?b n ?w" by (simp add: rs6_encode_column_def)
  have same: "rs6_put ?b n ?w p = ?b p" if p: "p < 48" for p
  proof (cases "\<exists>i < 8. p = rs6_pos n i")
    case True
    then obtain i where i: "i < 8" "p = rs6_pos n i" by blast
    then have "i < 6" using p rs6_pos_range(2) [OF n i(1)] by simp
    then show ?thesis unfolding i(2) rs6_put_in [OF n i(1)] by (simp only: w(2) rs6_get_nth [OF i(1)] split6)
  next
    case False
    then show ?thesis using n by (intro rs6_put_out) auto
  qed
  have "rs_word GF6 6 (rs6_get (rs6_put ?b n ?w) c)" if "c < Suc n" for c
  proof (cases "c = n")
    case True
    then show ?thesis using w(1) rs6_get_put [OF n wl] by simp
  next
    case False
    then show ?thesis using b(1) that n by (simp add: rs6_get_other)
  qed
  moreover have "rs6_get (rs6_put ?b n ?w) c = rs6_get m c" if "c < 8" "Suc n \<le> c" for c
    using b(2) that n by (simp add: rs6_get_other)
  ultimately show ?case unfolding step using same b(3) by auto
qed simp

lemma drop_2_eqI: "(\<And>m. 2 \<le> m \<Longrightarrow> m < 8 \<Longrightarrow> bit x m = bit y m) \<Longrightarrow> drop_bit 2 x = drop_bit 2 (y :: u8)"
proof (rule byte_eqI)
  fix k :: nat
  assume eq: "\<And>m. 2 \<le> m \<Longrightarrow> m < 8 \<Longrightarrow> bit x m = bit y m"
  have "bit x (2 + k) = bit y (2 + k)"
    using eq [of "2 + k"] bit_imp_le_length [of x "2 + k"] bit_imp_le_length [of y "2 + k"] by (cases "2 + k < 8") auto
  then show "bit (drop_bit 2 x) k = bit (drop_bit 2 y) k" by (simp add: bit_drop_bit_eq)
qed

lemma rs8_encode_pass:
  "n \<le> 8 \<Longrightarrow>
    (\<forall>c < n. rs_word GF8 8 (rs8_get (fold rs8_encode_column [0..<n] m) c)) \<and>
    (\<forall>c < 8. n \<le> c \<longrightarrow> rs8_get (fold rs8_encode_column [0..<n] m) c = rs8_get m c) \<and>
    (\<forall>p. drop_bit 2 (fold rs8_encode_column [0..<n] m p) = drop_bit 2 (m p))"
proof (induction n)
  case (Suc n)
  let ?b = "fold rs8_encode_column [0..<n] m"
  let ?w = "rs_encode GF8 (rs8_get ?b n)"
  have n: "n < 8" using Suc.prems by simp
  have b: "\<forall>c < n. rs_word GF8 8 (rs8_get ?b c)" "\<forall>c < 8. n \<le> c \<longrightarrow> rs8_get ?b c = rs8_get m c"
    "\<forall>p. drop_bit 2 (?b p) = drop_bit 2 (m p)"
    using Suc by simp_all
  have w: "rs_word GF8 8 ?w" "\<And>i. i < 6 \<Longrightarrow> ?w ! i = rs8_get ?b n ! i"
    using gf8.encode_word [of "rs8_get ?b n"] by simp_all
  have wl: "length ?w = 8" using w(1) by (simp add: rs_word_def)
  have step: "fold rs8_encode_column [0..<Suc n] m = rs8_put ?b n ?w" by (simp add: rs8_encode_column_def)
  have same: "drop_bit 2 (rs8_put ?b n ?w p) = drop_bit 2 (?b p)" for p
  proof (cases "\<exists>r < 8. p = n + 8 * r")
    case True
    then obtain r where r: "r < 8" "p = n + 8 * r" by blast
    show ?thesis unfolding r(2)
    proof (rule drop_2_eqI)
      fix k :: nat assume k: "2 \<le> k" "k < 8"
      then have j: "7 - k < 6" "7 - k < 8" by linarith+
      show "bit (rs8_put ?b n ?w (n + 8 * r)) k = bit (?b (n + 8 * r)) k"
        using rs8_put_bit [OF r(1) k(2)] w(2) [OF j(1)] rs8_get_bit [OF j(2), of "7 - r" ?b n]
          seven_minus [OF r(1)] seven_minus [OF k(2)] by simp
    qed
  next
    case False
    then have "rs8_put ?b n ?w p = ?b p" by (intro rs8_put_out) blast
    then show ?thesis by simp
  qed
  have "rs_word GF8 8 (rs8_get (rs8_put ?b n ?w) c)" if "c < Suc n" for c
  proof (cases "c = n")
    case True
    then show ?thesis using w(1) rs8_get_put [OF wl] by simp
  next
    case False
    then show ?thesis using b(1) that n by (simp add: rs8_get_other)
  qed
  moreover have "rs8_get (rs8_put ?b n ?w) c = rs8_get m c" if "c < 8" "Suc n \<le> c" for c
    using b(2) that n by (simp add: rs8_get_other)
  ultimately show ?case unfolding step using same b(3) by auto
qed simp

text \<open>The block the encoder stores.\<close>

lemma encode_block_words:
  assumes "c < 8"
  shows "rs_word GF8 8 (rs8_get (sigil_segacd_encode_block m p) c)"
    and "rs_word GF6 6 (rs6_get (sigil_segacd_encode_block m p) c)"
    and "q < 48 \<Longrightarrow> drop_bit 2 (sigil_segacd_encode_block m p q) =
      drop_bit 2 (fold (ecc_spread_group (ecc_buf m p)) [0..<12] (\<lambda>_. 0) q)"
proof -
  let ?s = "fold (ecc_spread_group (ecc_buf m p)) [0..<12] (\<lambda>_. 0)"
  let ?a = "fold rs6_encode_column [0..<8] ?s"
  have e: "sigil_segacd_encode_block m p = fold rs8_encode_column [0..<8] ?a"
    by (simp add: sigil_segacd_encode_block_def Let_def ECC_BUF_LEN_def CODE_LEN_def)
  have six: "\<forall>c < 8. rs_word GF6 6 (rs6_get ?a c)" "\<forall>p < 48. ?a p = ?s p"
    using rs6_encode_pass [of 8 ?s] by blast+
  have eight: "\<forall>c < 8. rs_word GF8 8 (rs8_get (fold rs8_encode_column [0..<8] ?a) c)"
    "\<forall>p. drop_bit 2 (fold rs8_encode_column [0..<8] ?a p) = drop_bit 2 (?a p)"
    using rs8_encode_pass [of 8 ?a] by blast+
  show "rs_word GF8 8 (rs8_get (sigil_segacd_encode_block m p) c)" using eight(1) assms unfolding e by blast
  have "rs6_get (fold rs8_encode_column [0..<8] ?a) c = rs6_get ?a c"
    using eight(2) by (intro rs6_get_cong [OF assms]) blast
  then show "rs_word GF6 6 (rs6_get (sigil_segacd_encode_block m p) c)" using six(1) assms unfolding e by metis
  show "drop_bit 2 (sigil_segacd_encode_block m p q) = drop_bit 2 (?s q)" if "q < 48"
    using six(2) eight(2) that unfolding e by metis
qed

section \<open>Decoding\<close>

text \<open>Two blocks that differ in one bit plane of a column differ in one symbol of its code word.\<close>

definition one_plane :: "mem \<Rightarrow> nat \<Rightarrow> mem \<Rightarrow> nat \<Rightarrow> bool" where
  "one_plane a p b q \<longleftrightarrow> (\<forall>c < 8. \<exists>j < 8. \<forall>r < 8. \<forall>m < 8. m \<noteq> j \<longrightarrow>
     bit (a (p + c + 8 * r)) m = bit (b (q + c + 8 * r)) m)"

lemma rs8_get_error:
  assumes "j < 8" and same: "\<And>r m. r < 8 \<Longrightarrow> m < 8 \<Longrightarrow> m \<noteq> j \<Longrightarrow> bit (a (c + 8 * r)) m = bit (b (c + 8 * r)) m"
  shows "\<exists>e. rs8_get a c = (rs8_get b c)[7 - j := rs8_get b c ! (7 - j) XOR e]"
proof (rule exI [of _ "rs8_get a c ! (7 - j) XOR rs8_get b c ! (7 - j)"], rule nth_equalityI)
  fix i assume "i < length (rs8_get a c)"
  then have i: "i < 8" by simp
  show "rs8_get a c ! i =
      (rs8_get b c)[7 - j := rs8_get b c ! (7 - j) XOR rs8_get a c ! (7 - j) XOR rs8_get b c ! (7 - j)] ! i"
  proof (cases "i = 7 - j")
    case True
    then show ?thesis using assms(1) by (simp add: ac_simps)
  next
    case False
    have "rs8_get a c ! i = rs8_get b c ! i"
    proof (rule byte_eqI)
      fix m :: nat assume m: "m < 8"
      have "7 - i \<noteq> j" using False i assms(1) by linarith
      then show "bit (rs8_get a c ! i) m = bit (rs8_get b c ! i) m"
        using same [of "7 - m" "7 - i"] by (simp add: rs8_get_bit [OF i m])
    qed
    then show ?thesis using False by simp
  qed
qed simp

lemma rs8_get_eq:
  assumes "rs8_get a c = rs8_get b c" "r < 8"
  shows "a (c + 8 * r) = b (c + 8 * r)"
proof (rule byte_eqI)
  fix m :: nat assume m: "m < 8"
  then have j: "7 - m < 8" "7 - r < 8" by simp_all
  show "bit (a (c + 8 * r)) m = bit (b (c + 8 * r)) m"
    using rs8_get_bit [OF j, of a c] rs8_get_bit [OF j, of b c] assms seven_minus [OF m] seven_minus [OF assms(2)] by simp
qed

lemma column_of: "p < 64 \<Longrightarrow> p = p mod 8 + 8 * (p div 8) \<and> p div 8 < (8 :: nat)"
  by auto

lemma rs8_decode_pass:
  assumes words: "\<And>c. c < 8 \<Longrightarrow> rs_word GF8 8 (rs8_get e c)" and dmg: "one_plane d 0 e 0"
  shows "n \<le> 8 \<Longrightarrow> fold rs8_decode_column [0..<n] (Some d) = Some (\<lambda>p. if p < 64 \<and> p mod 8 < n then e p else d p)"
proof (induction n)
  case (Suc n)
  let ?b = "\<lambda>p. if p < 64 \<and> p mod 8 < n then e p else d p"
  have n: "n < 8" using Suc.prems by simp
  have "?b (n + 8 * r) = d (n + 8 * r)" for r using n by simp
  then have get: "rs8_get ?b n = rs8_get d n" by (simp add: rs8_get_def)
  obtain j where j: "j < 8" "\<And>r m. r < 8 \<Longrightarrow> m < 8 \<Longrightarrow> m \<noteq> j \<Longrightarrow> bit (d (n + 8 * r)) m = bit (e (n + 8 * r)) m"
    using dmg n unfolding one_plane_def by (metis add_0)
  obtain x where x: "rs8_get d n = (rs8_get e n)[7 - j := rs8_get e n ! (7 - j) XOR x]"
    using rs8_get_error [where a = d and b = e and c = n, OF j] by blast
  have "rs_correct GF8 (rs8_get ?b n) = Some (rs8_get e n)"
    unfolding get x by (rule gf8.correct_word [OF words [OF n]]) simp_all
  moreover have "rs8_put ?b n (rs8_get e n) = (\<lambda>p. if p < 64 \<and> p mod 8 < Suc n then e p else d p)"
  proof
    fix p
    show "rs8_put ?b n (rs8_get e n) p = (if p < 64 \<and> p mod 8 < Suc n then e p else d p)"
    proof (cases "p < 64 \<and> p mod 8 = n")
      case True
      then have p: "p = n + 8 * (p div 8)" "p div 8 < 8" using column_of [of p] by auto
      have "rs8_get (rs8_put ?b n (rs8_get e n)) n = rs8_get e n" by (rule rs8_get_put) simp
      then have "rs8_put ?b n (rs8_get e n) (n + 8 * (p div 8)) = e (n + 8 * (p div 8))" by (rule rs8_get_eq) (rule p(2))
      then have "rs8_put ?b n (rs8_get e n) p = e p" using p(1) by simp
      then show ?thesis using True by simp
    next
      case False
      have "rs8_put ?b n (rs8_get e n) p = ?b p"
        by (rule rs8_put_out) (use False n in auto)
      then show ?thesis using False by (auto simp: less_Suc_eq)
    qed
  qed
  ultimately show ?case using Suc by (simp add: rs8_decode_column_def)
qed simp

lemma rs6_decode_pass:
  assumes words: "\<And>c. c < 8 \<Longrightarrow> rs_word GF6 6 (rs6_get e c)"
  shows "n \<le> 8 \<Longrightarrow> fold rs6_decode_column [0..<n] (Some e) = Some e"
proof (induction n)
  case (Suc n)
  then show ?case
    by (simp add: rs6_decode_column_def gf6.correct_none [OF words] rs6_put_get)
qed simp


text \<open>Spreading three bytes over four symbols and gathering them again.\<close>

lemma fold_groups:
  assumes "\<And>g b q. f g b q = (if k * g \<le> q \<and> q < k * g + k then h g (q - k * g) else (b :: mem) q)" and "0 < k"
  shows "fold f [0..<n] b q = (if q < k * n then h (q div k) (q mod k) else b q)"
proof (induction n)
  case (Suc n)
  show ?case
  proof (cases "k * n \<le> q \<and> q < k * n + k")
    case True
    then have "q div k = n" using assms(2) by (intro div_nat_eqI) (simp_all add: ac_simps)
    then have "q mod k = q - k * n" by (simp add: minus_mult_div_eq_mod [symmetric])
    then show ?thesis using True \<open>q div k = n\<close> by (simp add: assms(1))
  next
    case False
    then have "\<not> (q < k * Suc n \<and> \<not> q < k * n)" by auto
    then show ?thesis using False Suc by (auto simp: assms(1))
  qed
qed simp

definition group_word :: "mem \<Rightarrow> nat \<Rightarrow> u32" where
  "group_word buf g = push_bit 16 (ucast (buf (3 * g))) OR push_bit 8 (ucast (buf (3 * g + 1))) OR ucast (buf (3 * g + 2))"

lemma spread_group_apply:
  "ecc_spread_group buf g b q = (if 4 * g \<le> q \<and> q < 4 * g + 4
     then push_bit 2 (ucast (drop_bit (18 - 6 * (q - 4 * g)) (group_word buf g) AND 0x3F)) else b q)"
proof (cases "4 * g \<le> q \<and> q < 4 * g + 4")
  case True
  then have "q = 4 * g \<or> q = 4 * g + 1 \<or> q = 4 * g + 2 \<or> q = 4 * g + 3" by linarith
  then show ?thesis
    by (elim disjE) (simp_all add: ecc_spread_group_def Let_def group_word_def upt_rec)
next
  case False
  then show ?thesis by (auto simp: ecc_spread_group_def Let_def upt_rec)
qed

lemma bits_3F: "bit (0x3F :: 'a::len word) n \<longleftrightarrow> n < 6 \<and> n < LENGTH('a)"
proof -
  have "(0x3F :: 'a word) = mask 6" by (simp add: mask_eq_decr_exp)
  then show ?thesis by (simp only: bit_mask_iff) auto
qed

lemma upt_4: "[0..<4] = [0, 1, 2, 3 :: nat]"
  by (simp add: upt_rec numeral_eq_Suc)

lemma group_word_bit: "bit (group_word buf g) n \<longleftrightarrow>
    (16 \<le> n \<and> n < 24 \<and> bit (buf (3 * g)) (n - 16)) \<or> (8 \<le> n \<and> n < 16 \<and> bit (buf (3 * g + 1)) (n - 8)) \<or>
    (n < 8 \<and> bit (buf (3 * g + 2)) n)"
  by (auto simp: group_word_def bit_or_iff bit_push_bit_iff bit_unsigned_iff dest: bit_imp_le_length)

lemma symbol_bit: "k < 4 \<Longrightarrow> bit (drop_bit 2 (push_bit 2 (ucast (drop_bit (18 - 6 * k) v AND (0x3F :: u32))) :: u8)) n \<longleftrightarrow>
    n < 6 \<and> bit v (18 - 6 * k + n)"
  unfolding bit_drop_bit_eq comp_def bit_push_bit_iff bit_unsigned_iff bit_and_iff bits_3F by auto

lemma gather_bits:
  fixes x :: "nat \<Rightarrow> u8"
  assumes "\<And>k n. k < 4 \<Longrightarrow> bit (x k) n \<longleftrightarrow> n < 6 \<and> bit (v :: u32) (18 - 6 * k + n)" and "\<And>n. 24 \<le> n \<Longrightarrow> \<not> bit v n"
  shows "fold (\<lambda>k w. push_bit 6 w OR ucast (x k)) [0..<4] 0 = v"
proof (rule bit_word_eqI)
  fix n assume "n < LENGTH(32)"
  have f: "fold (\<lambda>k w. push_bit 6 w OR ucast (x k)) [0..<4] 0 =
      push_bit 6 (push_bit 6 (push_bit 6 (ucast (x 0)) OR ucast (x 1)) OR ucast (x 2)) OR (ucast (x 3) :: u32)"
    by (simp only: upt_4 fold_simps push_bit_of_0 or.left_neutral)
  also have "\<dots> = push_bit 18 (ucast (x 0)) OR push_bit 12 (ucast (x 1)) OR push_bit 6 (ucast (x 2)) OR ucast (x 3)"
    by (simp add: or.assoc)
  finally have g: "fold (\<lambda>k w. push_bit 6 w OR ucast (x k)) [0..<4] 0 = \<dots>" .
  have b: "bit (push_bit s (ucast (x k)) :: u32) n \<longleftrightarrow> s \<le> n \<and> n < s + 6 \<and> bit v n" if "k < 4" "s = 18 - 6 * k" for k s
    unfolding bit_push_bit_iff bit_unsigned_iff assms(1) [OF that(1)] using that \<open>n < LENGTH(32)\<close>
    by (auto simp: that(2))
  have b3: "bit (ucast (x 3) :: u32) n \<longleftrightarrow> n < 6 \<and> bit v n"
    unfolding bit_unsigned_iff assms(1) [of 3, simplified] using \<open>n < LENGTH(32)\<close> by auto
  have "bit v n \<Longrightarrow> n < 24" using assms(2) [of n] by linarith
  then show "bit (fold (\<lambda>k w. push_bit 6 w OR ucast (x k)) [0..<4] 0 :: u32) n = bit v n"
    unfolding g bit_or_iff b3 using b [of 0 18] b [of 1 12] b [of 2 6] by auto
qed

lemma gather_group_apply:
  assumes "\<And>k. k < 4 \<Longrightarrow> drop_bit 2 (blk (4 * g + k)) = drop_bit 2 (ecc_spread_group buf g b (4 * g + k))"
  shows "ecc_gather_group blk g c q = (if 3 * g \<le> q \<and> q < 3 * g + 3 then buf q else c q)"
proof -
  have v: "fold (\<lambda>k v. push_bit 6 v OR ucast (drop_bit 2 (blk (4 * g + k)))) [0..<4] 0 = group_word buf g"
  proof (rule gather_bits)
    show "bit (drop_bit 2 (blk (4 * g + k))) n \<longleftrightarrow> n < 6 \<and> bit (group_word buf g) (18 - 6 * k + n)" if "k < 4" for k n
      unfolding assms [OF that] spread_group_apply using that symbol_bit [OF that, of "group_word buf g" n] by simp
    show "\<not> bit (group_word buf g) n" if "24 \<le> n" for n using that by (auto simp: group_word_bit)
  qed
  have "ucast (drop_bit 16 (group_word buf g)) = buf (3 * g)"
    by (rule byte_eqI) (auto simp: bit_unsigned_iff bit_drop_bit_eq group_word_bit)
  moreover have "ucast (drop_bit 8 (group_word buf g)) = buf (3 * g + 1)"
    by (rule byte_eqI) (auto simp: bit_unsigned_iff bit_drop_bit_eq group_word_bit)
  moreover have "ucast (group_word buf g) = buf (3 * g + 2)"
    by (rule byte_eqI) (auto simp: bit_unsigned_iff bit_drop_bit_eq group_word_bit)
  moreover have "3 * g \<le> q \<and> q < 3 * g + 3 \<longleftrightarrow> q = 3 * g \<or> q = 3 * g + 1 \<or> q = 3 * g + 2" by linarith
  ultimately show ?thesis unfolding ecc_gather_group_def v Let_def by auto
qed

lemma gather_spread:
  assumes "\<And>q. q < 48 \<Longrightarrow> drop_bit 2 (blk q) = drop_bit 2 (fold (ecc_spread_group buf) [0..<12] b q)"
  shows "n \<le> 12 \<Longrightarrow> fold (ecc_gather_group blk) [0..<n] c q = (if q < 3 * n then buf q else c q)"
proof (induction n)
  case (Suc n)
  have sp: "fold (ecc_spread_group buf) [0..<12] b q =
      (if q < 4 * 12 then push_bit 2 (ucast (drop_bit (18 - 6 * (q mod 4)) (group_word buf (q div 4)) AND 0x3F)) else b q)" for q
    by (rule fold_groups [where h = "\<lambda>g i. push_bit 2 (ucast (drop_bit (18 - 6 * i) (group_word buf g) AND 0x3F))"])
       (simp_all add: spread_group_apply)
  have "drop_bit 2 (blk (4 * n + k)) = drop_bit 2 (ecc_spread_group buf n b (4 * n + k))" if "k < 4" for k
    using assms [of "4 * n + k"] Suc.prems that unfolding sp spread_group_apply by simp
  note step = gather_group_apply [OF this]
  have "fold (ecc_gather_group blk) [0..<Suc n] c q = (if 3 * n \<le> q \<and> q < 3 * n + 3 then buf q else fold (ecc_gather_group blk) [0..<n] c q)"
    by (simp add: step)
  then show ?case using Suc by auto
qed simp

lemma crc16_cong: "(\<And>i. i < n \<Longrightarrow> a (p + i) = b (q + i)) \<Longrightarrow> crc16 a p n = crc16 b q n"
  unfolding crc16_def by (rule fold_cong) simp_all

lemma join_bytes: "push_bit 8 (ucast (ucast (drop_bit 8 (w :: u16)) :: u8)) OR ucast (ucast w :: u8) = w"
proof (rule bit_word_eqI)
  fix n assume "n < LENGTH(16)"
  then show "bit (push_bit 8 (ucast (ucast (drop_bit 8 w) :: u8)) OR ucast (ucast w :: u8) :: u16) n = bit w n"
    unfolding bit_or_iff bit_push_bit_iff bit_unsigned_iff bit_drop_bit_eq by (cases "n < 8") auto
qed

text \<open>C35 (safety). Every payload survives the error-correcting code: a stored block in which each
  column of the 8x8 byte grid is damaged in at most one bit plane (one bit position, in any of the
  column's eight bytes; any single-bit error and no error at all are special cases) decodes to the
  payload it was encoded from.\<close>

theorem segacd_ecc_corrects:
  assumes "one_plane d q (sigil_segacd_encode_block m p) 0"
  shows "sigil_segacd_decode_block d q = Some (bytes_at m p SEGACD_PAYLOAD_SIZE)"
proof -
  let ?e = "sigil_segacd_encode_block m p" and ?d = "memcpy (\<lambda>_. 0) 0 d q SEGACD_BLOCK_SIZE"
  let ?buf = "ecc_buf m p"
  have "one_plane ?d 0 ?e 0"
    unfolding one_plane_def
  proof (intro allI impI)
    fix c :: nat assume "c < 8"
    then obtain j where "j < 8" "\<forall>r < 8. \<forall>m < 8. m \<noteq> j \<longrightarrow> bit (d (q + c + 8 * r)) m = bit (?e (0 + c + 8 * r)) m"
      using assms unfolding one_plane_def by blast
    moreover have "?d (0 + c + 8 * r) = d (q + c + 8 * r)" if "r < 8" for r
      using that \<open>c < 8\<close> by (simp add: memcpy_apply SEGACD_BLOCK_SIZE_def add.assoc)
    ultimately show "\<exists>j<8. \<forall>r<8. \<forall>m<8. m \<noteq> j \<longrightarrow> bit (?d (0 + c + 8 * r)) m = bit (?e (0 + c + 8 * r)) m" by metis
  qed
  then have r8: "fold rs8_decode_column [0..<8] (Some ?d) = Some (\<lambda>p. if p < 64 \<and> p mod 8 < 8 then ?e p else ?d p)"
    by (intro rs8_decode_pass encode_block_words(1)) simp_all
  let ?b = "\<lambda>p. if p < 64 \<and> p mod 8 < 8 then ?e p else ?d p"
  have b: "?b p = ?e p" if "p < 64" for p using that by simp
  have r6: "fold rs6_decode_column [0..<8] (Some ?b) = Some ?b"
  proof (rule rs6_decode_pass)
    fix c :: nat assume c: "c < 8"
    have "rs6_get ?b c = rs6_get ?e c" by (rule rs6_get_cong [OF c]) simp
    then show "rs_word GF6 6 (rs6_get ?b c)" using encode_block_words(2) [OF c] by simp
  qed simp
  have g: "fold (ecc_gather_group ?b) [0..<12] (\<lambda>_. 0) i = (if i < 3 * 12 then ?buf i else 0)" for i
  proof (rule gather_spread)
    fix i :: nat assume "i < 48"
    then show "drop_bit 2 (?b i) = drop_bit 2 (fold (ecc_spread_group ?buf) [0..<12] (\<lambda>_. 0) i)"
      using encode_block_words(3) [of 0 i m p] by simp
  qed simp
  let ?g = "fold (ecc_gather_group ?b) [0..<12] (\<lambda>_. 0)"
  have pay: "?g (2 + i) = m (p + i)" if "i < 32" for i
    using that unfolding g by (simp add: ecc_buf_def Let_def memcpy_apply SEGACD_PAYLOAD_SIZE_def)
  have crc: "crc16 ?g 2 32 = crc16 m p 32" by (rule crc16_cong) (rule pay)
  have "?g 0 = ucast (drop_bit 8 (crc16 m p 32))" "?g 1 = ucast (crc16 m p 32)"
    unfolding g by (simp_all add: ecc_buf_def Let_def memcpy_apply SEGACD_PAYLOAD_SIZE_def)
  then have first: "push_bit 8 (ucast (?g 0)) OR ucast (?g 1) = crc16 ?g 2 32" unfolding crc by (simp only: join_bytes)
  have "bytes_at ?g 2 32 = bytes_at m p 32" by (rule bytes_at_cong) (rule pay)
  then show ?thesis
    unfolding sigil_segacd_decode_block_def CODE_LEN_def r8 r6 option.case ECC_BUF_LEN_def SEGACD_PAYLOAD_SIZE_def Let_def
    using first by simp
qed


lemma one_plane_refl [simp]: "one_plane a p a p"
  unfolding one_plane_def by (auto intro: exI [of _ 0])

text \<open>A payload of ascending bytes, with the top bit of the first byte flipped in storage.\<close>

lemma segacd_ecc_corrects_witness:
  "sigil_segacd_decode_block ((sigil_segacd_encode_block (\<lambda>i. of_nat i) 0)(0 := flip_bit 7 (sigil_segacd_encode_block (\<lambda>i. of_nat i) 0 0))) 0 =
     Some (bytes_at (\<lambda>i. of_nat i) 0 32)"
proof -
  have "one_plane ((sigil_segacd_encode_block (\<lambda>i. of_nat i) 0)(0 := flip_bit 7 (sigil_segacd_encode_block (\<lambda>i. of_nat i) 0 0))) 0
      (sigil_segacd_encode_block (\<lambda>i. of_nat i) 0) 0"
    unfolding one_plane_def
  proof (intro allI impI exI [of _ 7] conjI)
    fix c r m :: nat assume "m \<noteq> 7"
    then show "bit (((sigil_segacd_encode_block (\<lambda>i. of_nat i) 0)(0 := flip_bit 7 (sigil_segacd_encode_block (\<lambda>i. of_nat i) 0 0))) (0 + c + 8 * r)) m =
        bit (sigil_segacd_encode_block (\<lambda>i. of_nat i) 0 (0 + c + 8 * r)) m"
      by (auto simp: bit_flip_bit_iff dest: bit_imp_le_length)
  qed simp
  then show ?thesis using segacd_ecc_corrects [of _ 0 "\<lambda>i. of_nat i" 0] by (simp add: SEGACD_PAYLOAD_SIZE_def)
qed

end
