(* ===== verification/CardSegacd.thy ===== *)
theory CardSegacd
  imports CardCommon BramStorage SegaCdEcc
begin

text \<open>
  Sega CD backup RAM volumes: \<^verbatim>\<open>src/src/card_segacd.c\<close> past its error-correcting code, in its order. A
  volume is the record \<open>sigil_segacd_volume\<close>; its bytes are a memory of \<open>scd_size\<close> bytes. The last
  block is the format block, directory blocks of two entries grow down below it, and the saves sit
  back to back from block 1 in directory order. A directory entry keeps its 16 raw bytes as a memory.

  The \<^verbatim>\<open>uint32_t\<close> counts are natural numbers: every one is at most the 8192 blocks of the largest
  volume or a sum of two 16-bit fields, so none wraps.
\<close>

section \<open>Constants\<close>

definition FORMAT_VOLUME :: nat where "FORMAT_VOLUME = 0x00"
definition FORMAT_UNKNOWN :: nat where "FORMAT_UNKNOWN = 0x0B"
definition FORMAT_FREE :: nat where "FORMAT_FREE = 0x10"
definition FORMAT_FILES :: nat where "FORMAT_FILES = 0x18"
definition FORMAT_SIGNATURE :: nat where "FORMAT_SIGNATURE = 0x20"
definition FORMAT_SIGNATURE_LEN :: nat where "FORMAT_SIGNATURE_LEN = 32"
definition FORMAT_COPIES :: nat where "FORMAT_COPIES = 4"

definition FORMAT_VOLUME_NAME :: bytes where "FORMAT_VOLUME_NAME = str ''___________''"
definition FORMAT_UNKNOWN_BYTES :: bytes where "FORMAT_UNKNOWN_BYTES = [0x00, 0x00, 0x00, 0x00, 0x40]"
definition SEGACD_SIGNATURE :: bytes where
  "SEGACD_SIGNATURE = str ''SEGA_CD_ROM'' @ [0, 1, 0, 0, 0] @ str ''RAM_CARTRIDGE___''"

definition ENTRY_SIZE :: nat where "ENTRY_SIZE = 16"
definition ENTRY_FLAG :: nat where "ENTRY_FLAG = 11"
definition ENTRY_START :: nat where "ENTRY_START = 12"
definition ENTRY_BLOCKS :: nat where "ENTRY_BLOCKS = 14"

definition UNIT_MAGIC :: bytes where "UNIT_MAGIC = str ''SCDU''"
definition UNIT_NAME :: nat where "UNIT_NAME = 0x04"
definition UNIT_FLAG :: nat where "UNIT_FLAG = 0x0F"
definition UNIT_BLOCKS :: nat where "UNIT_BLOCKS = 0x10"

definition SEGACD_INTERNAL_SIZE :: nat where "SEGACD_INTERNAL_SIZE = 8 * 1024"
definition SEGACD_MAX_CART_SIZE :: nat where "SEGACD_MAX_CART_SIZE = 512 * 1024"
definition SEGACD_PICODRIVE_SIZE :: nat where "SEGACD_PICODRIVE_SIZE = SEGACD_INTERNAL_SIZE + 64 * 1024"
definition SEGACD_NAME_LEN :: nat where "SEGACD_NAME_LEN = 11"
definition SEGACD_UNIT_HEADER_SIZE :: nat where "SEGACD_UNIT_HEADER_SIZE = 20"
definition SEGACD_MAX_FILE :: nat where "SEGACD_MAX_FILE = 2 * SEGACD_MAX_CART_SIZE"

lemmas scd_consts =
  FORMAT_VOLUME_def FORMAT_UNKNOWN_def FORMAT_FREE_def FORMAT_FILES_def FORMAT_SIGNATURE_def
  FORMAT_SIGNATURE_LEN_def FORMAT_COPIES_def ENTRY_SIZE_def ENTRY_FLAG_def ENTRY_START_def ENTRY_BLOCKS_def
  UNIT_NAME_def UNIT_FLAG_def UNIT_BLOCKS_def SEGACD_NAME_LEN_def SEGACD_UNIT_HEADER_SIZE_def
  SEGACD_BLOCK_SIZE_def SEGACD_PAYLOAD_SIZE_def SEGACD_INTERNAL_SIZE_def SEGACD_MAX_CART_SIZE_def

section \<open>Volumes\<close>

record sigil_segacd_volume =
  scd_data :: mem
  scd_size :: nat
  scd_storage :: sigil_bram_storage
  scd_other :: bytes
  scd_other_first :: bool

text \<open>\<^verbatim>\<open>for (s = INTERNAL; s <= MAX_CART; s *= 2)\<close>: the seven sizes from 8 KiB to 512 KiB.\<close>

definition scd_volume_size_valid :: "nat \<Rightarrow> bool" where
  "scd_volume_size_valid siz = (siz \<in> set (map (\<lambda>k. SEGACD_INTERNAL_SIZE * 2 ^ k) [0..<7]))"

definition scd_signature_at :: "bytes \<Rightarrow> nat \<Rightarrow> nat \<Rightarrow> nat \<Rightarrow> bool" where
  "scd_signature_at buf len end1 stride =
     (let block = SEGACD_BLOCK_SIZE * stride in
      if len < end1 \<or> end1 < block then False
      else let p = end1 - block + FORMAT_SIGNATURE * stride + (stride - 1)
           in list_all (\<lambda>i. buf ! (p + i * stride) = SEGACD_SIGNATURE ! i) [0..<FORMAT_SIGNATURE_LEN])"

definition scd_volume_blocks :: "sigil_segacd_volume \<Rightarrow> nat" where
  "scd_volume_blocks vol = scd_size vol div SEGACD_BLOCK_SIZE"

text \<open>The offset of the format block in \<^verbatim>\<open>vol->data\<close>.\<close>

definition scd_format_block :: "sigil_segacd_volume \<Rightarrow> nat" where
  "scd_format_block vol = scd_size vol - SEGACD_BLOCK_SIZE"

text \<open>\<open>None\<close> is \<^verbatim>\<open>-1\<close>.\<close>

definition scd_read_count :: "mem \<Rightarrow> nat \<Rightarrow> nat option" where
  "scd_read_count m p =
     (case find (\<lambda>i. 3 \<le> length (filter (\<lambda>j. sigil_read_be16 m (p + 2 * j) = sigil_read_be16 m (p + 2 * i)) [0..<FORMAT_COPIES]))
             [0..<2] of
        Some i \<Rightarrow> Some (unat (sigil_read_be16 m (p + 2 * i)))
      | None \<Rightarrow> None)"

definition scd_write_count :: "mem \<Rightarrow> nat \<Rightarrow> nat \<Rightarrow> mem" where
  "scd_write_count m p v = fold (\<lambda>j m. sigil_write_be16 m (p + 2 * j) (of_nat v)) [0..<FORMAT_COPIES] m"

definition scd_dir_blocks :: "nat \<Rightarrow> nat" where
  "scd_dir_blocks files = (files + 1) div 2"

definition scd_data_end :: "sigil_segacd_volume \<Rightarrow> nat \<Rightarrow> nat" where
  "scd_data_end vol files = scd_volume_blocks vol - 1 - scd_dir_blocks files"

text \<open>\<^verbatim>\<open>(files & 1u) ? 0 : 1\<close>.\<close>

definition scd_held :: "nat \<Rightarrow> nat" where
  "scd_held files = (if odd files then 0 else 1)"

definition scd_bios_free :: "sigil_segacd_volume \<Rightarrow> nat \<Rightarrow> nat \<Rightarrow> nat" where
  "scd_bios_free vol files next1 =
     (let end1 = scd_data_end vol files; held = scd_held files
      in if next1 + held \<le> end1 then end1 - next1 - held else 0)"

record volume_counts =
  vc_files :: nat
  vc_free :: nat

definition scd_read_counts :: "sigil_segacd_volume \<Rightarrow> volume_counts option" where
  "scd_read_counts vol =
     (if \<not> scd_volume_size_valid (scd_size vol) then None
      else case (scd_read_count (scd_data vol) (scd_format_block vol + FORMAT_FILES),
                 scd_read_count (scd_data vol) (scd_format_block vol + FORMAT_FREE)) of
             (Some files, Some free) \<Rightarrow>
               (if scd_volume_blocks vol < scd_dir_blocks files + 2 then None
                else Some \<lparr>vc_files = files, vc_free = free\<rparr>)
           | _ \<Rightarrow> None)"

definition scd_finish_load ::
    "bytes \<Rightarrow> nat \<Rightarrow> nat \<Rightarrow> nat \<Rightarrow> bool \<Rightarrow> sigil_bram_storage \<Rightarrow> rc + sigil_segacd_volume" where
  "scd_finish_load buf len off siz other_first storage =
     (let vol = \<lparr>scd_data = mem_of (take siz (drop off buf)), scd_size = siz, scd_storage = storage,
                 scd_other = (if other_first then take (len - siz) buf else take (len - siz) (drop siz buf)),
                 scd_other_first = other_first\<rparr>
      in case scd_read_counts vol of None \<Rightarrow> Inl SIGIL_ERR_UNSUPPORTED_FORMAT | Some _ \<Rightarrow> Inr vol)"

definition scd_load :: "sigil_io \<Rightarrow> bool \<Rightarrow> rc + sigil_segacd_volume" where
  "scd_load io cart_part =
     (let size = stream_size io in
      if 0 \<le> size \<and> size \<noteq> int SEGACD_PICODRIVE_SIZE \<and> \<not> scd_volume_size_valid (nat size) \<and>
         \<not> (size mod 2 = 0 \<and> scd_volume_size_valid (nat size div 2))
      then Inl SIGIL_ERR_UNSUPPORTED_FORMAT
      else case sigil_bram_read_all io SEGACD_MAX_FILE of
        Inl rc \<Rightarrow> Inl rc
      | Inr buf \<Rightarrow>
          let len = length buf in
          if len = SEGACD_PICODRIVE_SIZE \<and> scd_signature_at buf len SEGACD_INTERNAL_SIZE 1 \<and>
             scd_signature_at buf len len 1
          then (if cart_part
                then scd_finish_load buf len SEGACD_INTERNAL_SIZE (len - SEGACD_INTERNAL_SIZE) True bram_storage_zero
                else scd_finish_load buf len 0 SEGACD_INTERNAL_SIZE False bram_storage_zero)
          else if \<not> cart_part \<and> scd_volume_size_valid len \<and> scd_signature_at buf len len 1
          then scd_finish_load buf len 0 len False bram_storage_zero
          else if \<not> cart_part \<and> len mod 2 = 0 \<and> scd_volume_size_valid (len div 2) \<and> scd_signature_at buf len len 2
          then (case sigil_bram_collapse buf bram_storage_zero of
                  Some (half, storage) \<Rightarrow> scd_finish_load half (len div 2) 0 (len div 2) False storage
                | None \<Rightarrow> Inl SIGIL_ERR_UNSUPPORTED_FORMAT)
          else Inl SIGIL_ERR_UNSUPPORTED_FORMAT)"

definition sigil_segacd_volume_load :: "sigil_io \<Rightarrow> rc + sigil_segacd_volume" where
  "sigil_segacd_volume_load io = scd_load io False"

definition sigil_segacd_volume_load_cart :: "sigil_io \<Rightarrow> rc + sigil_segacd_volume" where
  "sigil_segacd_volume_load_cart io = scd_load io True"

definition sigil_segacd_volume_format :: "nat \<Rightarrow> sigil_bram_storage \<Rightarrow> rc + sigil_segacd_volume" where
  "sigil_segacd_volume_format siz storage =
     (if \<not> scd_volume_size_valid siz then Inl SIGIL_ERR_INVALID_ARG
      else let vol = \<lparr>scd_data = (\<lambda>_. 0), scd_size = siz, scd_storage = storage, scd_other = [], scd_other_first = False\<rparr>;
               f = scd_format_block vol;
               m = memcpy (scd_data vol) (f + FORMAT_VOLUME) (mem_of FORMAT_VOLUME_NAME) 0 SEGACD_NAME_LEN;
               m = memcpy m (f + FORMAT_UNKNOWN) (mem_of FORMAT_UNKNOWN_BYTES) 0 5;
               m = scd_write_count m (f + FORMAT_FREE) (scd_bios_free vol 0 1);
               m = scd_write_count m (f + FORMAT_FILES) 0;
               m = memcpy m (f + FORMAT_SIGNATURE) (mem_of SEGACD_SIGNATURE) 0 FORMAT_SIGNATURE_LEN
           in Inr (vol\<lparr>scd_data := m\<rparr>))"

definition sigil_segacd_volume_write :: "zlib \<Rightarrow> sigil_segacd_volume \<Rightarrow> rc + bytes" where
  "sigil_segacd_volume_write z vol =
     (case sigil_bram_store z (bytes_at (scd_data vol) 0 (scd_size vol)) (scd_storage vol) of
        Inl rc \<Rightarrow> Inl rc
      | Inr stored \<Rightarrow> Inr (if scd_other_first vol then scd_other vol @ stored else stored @ scd_other vol))"

section \<open>The directory\<close>

record dir_entry =
  de_raw :: mem
  de_start :: nat
  de_blocks :: nat
  de_protect :: bool

definition scd_slot_block :: "sigil_segacd_volume \<Rightarrow> nat \<Rightarrow> nat" where
  "scd_slot_block vol slot = (scd_volume_blocks vol - 2 - slot div 2) * SEGACD_BLOCK_SIZE"

definition scd_slot_half :: "nat \<Rightarrow> nat" where
  "scd_slot_half slot = (if odd slot then 0 else ENTRY_SIZE)"

definition scd_data_block :: "nat \<Rightarrow> nat" where
  "scd_data_block block = block * SEGACD_BLOCK_SIZE"

definition scd_entry_of :: "mem \<Rightarrow> nat \<Rightarrow> dir_entry" where
  "scd_entry_of payload half =
     (let raw = memcpy (\<lambda>_. 0) 0 payload half ENTRY_SIZE
      in \<lparr>de_raw = raw, de_start = unat (sigil_read_be16 raw ENTRY_START),
          de_blocks = unat (sigil_read_be16 raw ENTRY_BLOCKS), de_protect = (raw ENTRY_FLAG \<noteq> 0)\<rparr>)"

definition scd_read_slot :: "sigil_segacd_volume \<Rightarrow> nat \<Rightarrow> dir_entry option" where
  "scd_read_slot vol slot =
     (case sigil_segacd_decode_block (scd_data vol) (scd_slot_block vol slot) of
        None \<Rightarrow> None
      | Some payload \<Rightarrow> Some (scd_entry_of (mem_of payload) (scd_slot_half slot)))"

definition scd_write_slot :: "sigil_segacd_volume \<Rightarrow> nat \<Rightarrow> mem \<Rightarrow> sigil_segacd_volume" where
  "scd_write_slot vol slot raw =
     (let payload = (if even slot then (\<lambda>_. 0)
                     else case sigil_segacd_decode_block (scd_data vol) (scd_slot_block vol slot) of
                            None \<Rightarrow> (\<lambda>_. 0) | Some payload \<Rightarrow> mem_of payload);
          payload = memcpy payload (scd_slot_half slot) raw 0 ENTRY_SIZE
      in vol\<lparr>scd_data := memcpy (scd_data vol) (scd_slot_block vol slot)
                           (sigil_segacd_encode_block payload 0) 0 SEGACD_BLOCK_SIZE\<rparr>)"

definition scd_blocks_decode :: "sigil_segacd_volume \<Rightarrow> nat \<Rightarrow> nat \<Rightarrow> bool" where
  "scd_blocks_decode vol start blocks =
     list_all (\<lambda>i. sigil_segacd_decode_block (scd_data vol) (scd_data_block (start + i)) \<noteq> None) [0..<blocks]"

definition scd_entry_valid :: "sigil_segacd_volume \<Rightarrow> volume_counts \<Rightarrow> dir_entry \<Rightarrow> bool" where
  "scd_entry_valid vol c e =
     (if de_start e < 1 \<or> de_blocks e < 1 \<or>
         scd_data_end vol (vc_files c) < de_start e + de_blocks e + scd_held (vc_files c) then False
      else \<not> de_protect e \<or> scd_blocks_decode vol (de_start e) (de_blocks e))"

text \<open>The loop of \<^verbatim>\<open>read_directory\<close> over the slots left: the entries read and the block after them.\<close>

fun scd_directory_loop ::
    "sigil_segacd_volume \<Rightarrow> volume_counts \<Rightarrow> nat list \<Rightarrow> dir_entry list \<Rightarrow> nat \<Rightarrow> (dir_entry list \<times> nat) option" where
  "scd_directory_loop vol c [] es next1 = Some (es, next1)"
| "scd_directory_loop vol c (i # is) es next1 =
     (case scd_read_slot vol i of
        None \<Rightarrow> None
      | Some e \<Rightarrow> if \<not> scd_entry_valid vol c e \<or> de_start e \<noteq> next1 then None
                 else scd_directory_loop vol c is (es @ [e]) (next1 + de_blocks e))"

text \<open>The counts, with the free count taken from the entries, and the entries.\<close>

definition scd_read_directory :: "sigil_segacd_volume \<Rightarrow> rc + volume_counts \<times> dir_entry list" where
  "scd_read_directory vol =
     (case scd_read_counts vol of
        None \<Rightarrow> Inl SIGIL_ERR_INVALID_ARG
      | Some c \<Rightarrow>
          (case scd_directory_loop vol c [0..<vc_files c] [] 1 of
             None \<Rightarrow> Inl SIGIL_ERR_UNSUPPORTED_FORMAT
           | Some (es, next1) \<Rightarrow> Inr (c\<lparr>vc_free := scd_bios_free vol (vc_files c) next1\<rparr>, es)))"

text \<open>\<^verbatim>\<open>1 + (files & 1u)\<close>, and the loop of \<^verbatim>\<open>count_free_slots\<close>.\<close>

definition scd_slot_cost :: "nat \<Rightarrow> nat" where
  "scd_slot_cost files = 1 + (if odd files then 1 else 0)"

function scd_free_slots_loop :: "nat \<Rightarrow> nat \<Rightarrow> nat \<Rightarrow> nat" where
  "scd_free_slots_loop left files slots =
     (if scd_slot_cost files \<le> left
      then scd_free_slots_loop (left - scd_slot_cost files) (files + 1) (slots + 1) else slots)"
  by pat_completeness auto
termination
  by (relation "measure (\<lambda>(left, files, slots). left)") (auto simp: scd_slot_cost_def)

declare scd_free_slots_loop.simps [simp del]

definition scd_count_free_slots :: "volume_counts \<Rightarrow> nat" where
  "scd_count_free_slots c = scd_free_slots_loop (vc_free c) (vc_files c) 0"

definition scd_name_of :: "mem \<Rightarrow> bytes" where
  "scd_name_of raw = takeWhile (\<lambda>b. b \<noteq> 0) (bytes_at raw 0 SEGACD_NAME_LEN)"

definition scd_list_slot :: "sigil_segacd_volume \<Rightarrow> volume_counts \<Rightarrow> nat \<Rightarrow> sigil_card_listing \<Rightarrow> sigil_card_listing" where
  "scd_list_slot vol c i listing =
     (case scd_read_slot vol i of
        None \<Rightarrow> sigil_card_listing_corrupt listing None None 0
      | Some e \<Rightarrow>
          if \<not> scd_entry_valid vol c e
          then sigil_card_listing_corrupt listing (Some (scd_name_of (de_raw e))) None (de_start e)
          else listing_add listing
             \<lparr>ce_name = scd_name_of (de_raw e), ce_owner_id = [], ce_blocks = de_blocks e, ce_first_block = de_start e\<rparr>)"

definition sigil_segacd_list :: "sigil_segacd_volume \<Rightarrow> rc + sigil_card_listing" where
  "sigil_segacd_list vol =
     (case (case scd_read_directory vol of Inr (c, es) \<Rightarrow> Some c | Inl rc \<Rightarrow> scd_read_counts vol) of
        None \<Rightarrow> Inl SIGIL_ERR_INVALID_ARG
      | Some c \<Rightarrow>
          Inr (fold (scd_list_slot vol c) [0..<vc_files c]
            ((sigil_card_listing_new SIGIL_CARD_FORMAT_SEGACD_BRAM)\<lparr>total_blocks := scd_bios_free vol 0 1,
               free_blocks := vc_free c, free_slots := scd_count_free_slots c\<rparr>)))"

text \<open>The first slot whose valid entry starts at \<open>first_block\<close>; slots that do not read are passed
  over.\<close>

fun scd_find_loop :: "sigil_segacd_volume \<Rightarrow> volume_counts \<Rightarrow> nat \<Rightarrow> nat list \<Rightarrow> dir_entry option" where
  "scd_find_loop vol c first_block [] = None"
| "scd_find_loop vol c first_block (i # is) =
     (case scd_read_slot vol i of
        Some e \<Rightarrow> if de_start e = first_block \<and> scd_entry_valid vol c e then Some e
                  else scd_find_loop vol c first_block is
      | None \<Rightarrow> scd_find_loop vol c first_block is)"

definition scd_find_slot :: "sigil_segacd_volume \<Rightarrow> nat \<Rightarrow> dir_entry option" where
  "scd_find_slot vol first_block =
     (case scd_read_counts vol of None \<Rightarrow> None | Some c \<Rightarrow> scd_find_loop vol c first_block [0..<vc_files c])"

fun scd_copy_data :: "sigil_segacd_volume \<Rightarrow> dir_entry \<Rightarrow> nat list \<Rightarrow> bytes \<Rightarrow> bytes option" where
  "scd_copy_data vol e [] acc = Some acc"
| "scd_copy_data vol e (i # is) acc =
     (let src = scd_data_block (de_start e + i) in
      if \<not> de_protect e then scd_copy_data vol e is (acc @ bytes_at (scd_data vol) src SEGACD_BLOCK_SIZE)
      else case sigil_segacd_decode_block (scd_data vol) src of
             None \<Rightarrow> None | Some payload \<Rightarrow> scd_copy_data vol e is (acc @ payload))"

definition sigil_segacd_entry_data :: "sigil_segacd_volume \<Rightarrow> nat \<Rightarrow> rc + bytes" where
  "sigil_segacd_entry_data vol first_block =
     (case scd_find_slot vol first_block of
        None \<Rightarrow> Inl SIGIL_ERR_INVALID_ARG
      | Some e \<Rightarrow> (case scd_copy_data vol e [0..<de_blocks e] [] of
                     None \<Rightarrow> Inl SIGIL_ERR_INVALID_ARG | Some data \<Rightarrow> Inr data))"

definition sigil_segacd_card_list_io :: "sigil_io \<Rightarrow> rc + sigil_card_listing" where
  "sigil_segacd_card_list_io io =
     (case sigil_segacd_volume_load io of Inl rc \<Rightarrow> Inl rc | Inr vol \<Rightarrow> sigil_segacd_list vol)"

section \<open>Units\<close>

definition sigil_segacd_unit_size :: "nat \<Rightarrow> nat" where
  "sigil_segacd_unit_size blocks = SEGACD_UNIT_HEADER_SIZE + blocks * SEGACD_BLOCK_SIZE"

definition sigil_segacd_extract :: "sigil_segacd_volume \<Rightarrow> nat \<Rightarrow> nat \<Rightarrow> mem \<Rightarrow> rc \<times> mem" where
  "sigil_segacd_extract vol first_block blocks out =
     (case scd_find_slot vol first_block of
        None \<Rightarrow> (SIGIL_ERR_INVALID_ARG, out)
      | Some e \<Rightarrow>
          if de_blocks e \<noteq> blocks then (SIGIL_ERR_INVALID_ARG, out)
          else let out = memset out 0 0 SEGACD_UNIT_HEADER_SIZE;
                   out = memcpy out 0 (mem_of UNIT_MAGIC) 0 4;
                   out = memcpy out UNIT_NAME (de_raw e) 0 SEGACD_NAME_LEN;
                   out = out(UNIT_FLAG := de_raw e ENTRY_FLAG);
                   out = sigil_write_be16 out UNIT_BLOCKS (of_nat (de_blocks e))
               in (SIGIL_OK, memcpy out SEGACD_UNIT_HEADER_SIZE (scd_data vol) (scd_data_block (de_start e))
                     (de_blocks e * SEGACD_BLOCK_SIZE)))"

definition scd_unit_blocks :: "mem \<Rightarrow> nat \<Rightarrow> nat" where
  "scd_unit_blocks unit len =
     (if len < sigil_segacd_unit_size 1 \<or> \<not> has_bytes unit 0 UNIT_MAGIC then 0
      else let blocks = unat (sigil_read_be16 unit UNIT_BLOCKS) in
        if blocks = 0 \<or> len \<noteq> sigil_segacd_unit_size blocks then 0
        else if unit UNIT_FLAG \<noteq> 0 \<and>
                \<not> list_all (\<lambda>i. sigil_segacd_decode_block unit (sigil_segacd_unit_size i) \<noteq> None) [0..<blocks]
        then 0 else blocks)"

definition scd_inject_cost :: "nat \<Rightarrow> nat \<Rightarrow> nat" where
  "scd_inject_cost blocks files = blocks + (if odd files then 1 else 0)"

definition sigil_segacd_cost :: "sigil_segacd_volume \<Rightarrow> mem \<Rightarrow> nat \<Rightarrow> nat" where
  "sigil_segacd_cost vol unit len =
     (let blocks = scd_unit_blocks unit len in
      case scd_read_counts vol of
        None \<Rightarrow> 0
      | Some c \<Rightarrow> if blocks = 0 then 0 else scd_inject_cost blocks (vc_files c))"

text \<open>The entry a unit gets at block \<open>start\<close>.\<close>

definition scd_unit_raw :: "mem \<Rightarrow> nat \<Rightarrow> nat \<Rightarrow> mem" where
  "scd_unit_raw unit start blocks =
     (let raw = memcpy (\<lambda>_. 0) 0 unit UNIT_NAME SEGACD_NAME_LEN;
          raw = raw(ENTRY_FLAG := unit UNIT_FLAG);
          raw = sigil_write_be16 raw ENTRY_START (of_nat start)
      in sigil_write_be16 raw ENTRY_BLOCKS (of_nat blocks))"

text \<open>Both counts rewritten.\<close>

definition scd_put_counts :: "sigil_segacd_volume \<Rightarrow> nat \<Rightarrow> nat \<Rightarrow> sigil_segacd_volume" where
  "scd_put_counts vol free files =
     (let f = scd_format_block vol;
          m = scd_write_count (scd_data vol) (f + FORMAT_FREE) free
      in vol\<lparr>scd_data := scd_write_count m (f + FORMAT_FILES) files\<rparr>)"

definition sigil_segacd_inject :: "sigil_segacd_volume \<Rightarrow> mem \<Rightarrow> nat \<Rightarrow> rc \<times> sigil_segacd_volume" where
  "sigil_segacd_inject vol unit len =
     (let blocks = scd_unit_blocks unit len in
      if blocks = 0 then (SIGIL_ERR_UNSUPPORTED_FORMAT, vol)
      else case scd_read_directory vol of
        Inl rc \<Rightarrow> (SIGIL_ERR_UNSUPPORTED_FORMAT, vol)
      | Inr (c, es) \<Rightarrow>
          let exists = list_ex (\<lambda>e. mem_eq (de_raw e) 0 unit UNIT_NAME SEGACD_NAME_LEN) es;
              start = fold (\<lambda>e _. de_start e + de_blocks e) es 1 in
          if exists then (SIGIL_ERR_EXISTS, vol)
          else if vc_free c < scd_inject_cost blocks (vc_files c) then (SIGIL_ERR_NO_SPACE, vol)
          else let vol = vol\<lparr>scd_data := memcpy (scd_data vol) (start * SEGACD_BLOCK_SIZE) unit
                               SEGACD_UNIT_HEADER_SIZE (blocks * SEGACD_BLOCK_SIZE)\<rparr>;
                   vol = scd_write_slot vol (vc_files c) (scd_unit_raw unit start blocks)
               in (SIGIL_OK, scd_put_counts vol (scd_bios_free vol (vc_files c + 1) (start + blocks)) (vc_files c + 1)))"

text \<open>One round of the loop of \<^verbatim>\<open>sigil_segacd_delete\<close>: entry \<open>j\<close> and its data move down by \<open>gap\<close> blocks.\<close>

definition scd_delete_move :: "dir_entry list \<Rightarrow> nat \<Rightarrow> nat \<Rightarrow> sigil_segacd_volume \<Rightarrow> sigil_segacd_volume" where
  "scd_delete_move es gap j vol =
     (let e = es ! j;
          vol = vol\<lparr>scd_data := memcpy (scd_data vol) ((de_start e - gap) * SEGACD_BLOCK_SIZE) (scd_data vol)
                      (de_start e * SEGACD_BLOCK_SIZE) (de_blocks e * SEGACD_BLOCK_SIZE)\<rparr>
      in scd_write_slot vol (j - 1) (sigil_write_be16 (de_raw e) ENTRY_START (of_nat (de_start e - gap))))"

definition sigil_segacd_delete :: "sigil_segacd_volume \<Rightarrow> nat \<Rightarrow> rc \<times> sigil_segacd_volume" where
  "sigil_segacd_delete vol first_block =
     (case scd_read_directory vol of
        Inl rc \<Rightarrow> (rc, vol)
      | Inr (c, es) \<Rightarrow>
          (case find (\<lambda>k. de_start (es ! k) = first_block) [0..<vc_files c] of
             None \<Rightarrow> (SIGIL_ERR_INVALID_ARG, vol)
           | Some k \<Rightarrow>
               let gap = de_blocks (es ! k);
                   last1 = vc_files c - 1;
                   end1 = de_start (es ! last1) + de_blocks (es ! last1);
                   vol = fold (scd_delete_move es gap) [k + 1..<vc_files c] vol;
                   vol = vol\<lparr>scd_data := memset (scd_data vol) ((end1 - gap) * SEGACD_BLOCK_SIZE) 0 (gap * SEGACD_BLOCK_SIZE)\<rparr>;
                   vol = (if odd last1 then scd_write_slot vol last1 (\<lambda>_. 0)
                          else vol\<lparr>scd_data := memset (scd_data vol) (scd_slot_block vol last1) 0 SEGACD_BLOCK_SIZE\<rparr>)
               in (SIGIL_OK, scd_put_counts vol (scd_bios_free vol last1 (end1 - gap)) last1)))"

definition sigil_segacd_verify :: "sigil_segacd_volume \<Rightarrow> mem \<Rightarrow> nat \<Rightarrow> rc" where
  "sigil_segacd_verify vol unit len =
     (let blocks = scd_unit_blocks unit len in
      if blocks = 0 then SIGIL_ERR_UNSUPPORTED_FORMAT
      else case scd_read_counts vol of
        None \<Rightarrow> SIGIL_ERR_INVALID_ARG
      | Some c \<Rightarrow>
          if list_ex (\<lambda>i. case scd_read_slot vol i of
                 None \<Rightarrow> False
               | Some e \<Rightarrow> mem_eq (de_raw e) 0 unit UNIT_NAME SEGACD_NAME_LEN \<and> de_blocks e = blocks \<and>
                   (let (rc, copy) = sigil_segacd_extract vol (de_start e) blocks (\<lambda>_. 0)
                    in rc = SIGIL_OK \<and> mem_eq copy 0 unit 0 len)) [0..<vc_files c]
          then SIGIL_OK else SIGIL_ERR_NOT_FOUND)"

end
