(* ===== verification/CardSegacdProofs.thy ===== *)
theory CardSegacdProofs
  imports CardSegacd
begin

text \<open>
  What a Sega CD volume holds, and that every operation keeps it. A volume is seen as its 64-byte
  blocks: \<open>scd_blk\<close> reads one, and each operation replaces whole blocks, so what a save or a
  directory entry reads is a function of the blocks it covers.
\<close>

section \<open>Blocks\<close>

definition scd_blk :: "mem \<Rightarrow> nat \<Rightarrow> bytes" where
  "scd_blk m b = bytes_at m (b * 64) 64"

lemma length_scd_blk [simp]: "length (scd_blk m b) = 64"
  by (simp add: scd_blk_def)

lemma scd_blk_eqI: "(\<And>k. k < 64 \<Longrightarrow> a (b * 64 + k) = c (d * 64 + k)) \<Longrightarrow> scd_blk a b = scd_blk c d"
  unfolding scd_blk_def by (rule bytes_at_cong)

lemma scd_blk_nth: "k < 64 \<Longrightarrow> scd_blk m b ! k = m (b * 64 + k)"
  by (simp add: scd_blk_def)

lemma block_range: "k < 64 \<Longrightarrow> (x * 64 \<le> b * 64 + k \<and> b * 64 + k < x * 64 + n * 64) \<longleftrightarrow> x \<le> b \<and> b < x + (n :: nat)"
  by linarith

lemma scd_blk_memcpy:
  "scd_blk (memcpy d (x * 64) s so (n * 64)) b =
     (if x \<le> b \<and> b < x + n then bytes_at s (so + (b - x) * 64) 64 else scd_blk d b)"
proof -
  have "so + (b * 64 + k - x * 64) = so + (b - x) * 64 + k" if "x \<le> b" for k :: nat
    using that by (simp add: diff_mult_distrib)
  then show ?thesis
    unfolding scd_blk_def by (auto intro!: bytes_at_cong simp: memcpy_apply block_range)
qed

lemma scd_blk_memset:
  "scd_blk (memset d (x * 64) v (n * 64)) b = (if x \<le> b \<and> b < x + n then replicate 64 v else scd_blk d b)"
  by (auto intro!: nth_equalityI simp: scd_blk_nth memset_apply block_range)

lemma scd_blk_store:
  "scd_blk (memcpy d (x * 64) s 0 SEGACD_BLOCK_SIZE) b = (if b = x then bytes_at s 0 64 else scd_blk d b)"
  using scd_blk_memcpy [of d x s 0 1 b] by (auto simp: SEGACD_BLOCK_SIZE_def)

text \<open>Decoding a block reads its 64 bytes.\<close>

definition scd_dec :: "bytes \<Rightarrow> bytes option" where
  "scd_dec bs = sigil_segacd_decode_block (mem_of bs) 0"

lemma decode_cong:
  assumes "\<And>k. k < 64 \<Longrightarrow> a (p + k) = b (q + k)"
  shows "sigil_segacd_decode_block a p = sigil_segacd_decode_block b q"
proof -
  have "memcpy (\<lambda>_. 0) 0 a p SEGACD_BLOCK_SIZE = memcpy (\<lambda>_. 0) 0 b q SEGACD_BLOCK_SIZE"
    by (rule memcpy_cong) (simp add: assms SEGACD_BLOCK_SIZE_def)
  then show ?thesis by (simp add: sigil_segacd_decode_block_def)
qed

lemma decode_blk: "sigil_segacd_decode_block m (b * 64) = scd_dec (scd_blk m b)"
  unfolding scd_dec_def by (rule decode_cong) (simp add: mem_of_def scd_blk_nth)

lemma decode_at: "sigil_segacd_decode_block m p = scd_dec (bytes_at m p 64)"
  unfolding scd_dec_def by (rule decode_cong) (simp add: mem_of_def)

lemma decode_length: "sigil_segacd_decode_block m p = Some bs \<Longrightarrow> length bs = 32"
  by (auto simp: sigil_segacd_decode_block_def Let_def SEGACD_PAYLOAD_SIZE_def split: option.splits if_splits)

lemma dec_encode: "scd_dec (bytes_at (sigil_segacd_encode_block m p) 0 64) = Some (bytes_at m p 32)"
  using segacd_ecc_corrects [of "sigil_segacd_encode_block m p" 0 m p] by (simp add: decode_at SEGACD_PAYLOAD_SIZE_def)

section \<open>The format block\<close>

lemma scd_write_count_eq:
  "scd_write_count m p v = sigil_write_be16 (sigil_write_be16 (sigil_write_be16 (sigil_write_be16 m p (of_nat v))
     (p + 2) (of_nat v)) (p + 4) (of_nat v)) (p + 6) (of_nat v)"
  by (simp add: scd_write_count_def FORMAT_COPIES_def upt_4 numeral_eq_Suc)

lemma scd_write_count_out: "i < p \<or> p + 8 \<le> i \<Longrightarrow> scd_write_count m p v i = m i"
  by (auto simp: scd_write_count_eq write_be16_apply)

text \<open>The count the four copies vote for.\<close>

definition scd_vote :: "u16 list \<Rightarrow> nat option" where
  "scd_vote r = (if 3 \<le> length (filter (\<lambda>x. x = r ! 0) r) then Some (unat (r ! 0))
     else if 3 \<le> length (filter (\<lambda>x. x = r ! 1) r) then Some (unat (r ! 1)) else None)"

definition scd_copies :: "mem \<Rightarrow> nat \<Rightarrow> u16 list" where
  "scd_copies m p = map (\<lambda>j. sigil_read_be16 m (p + 2 * j)) [0, 1, 2, 3]"

lemma scd_read_count_vote: "scd_read_count m p = scd_vote (scd_copies m p)"
proof -
  have "length (filter (\<lambda>j. sigil_read_be16 m (p + 2 * j) = x) [0, 1, 2, 3]) = length (filter (\<lambda>y. y = x) (scd_copies m p))" for x
    by (simp add: scd_copies_def)
  moreover have "[0..<2] = [0, 1 :: nat]" by (simp add: upt_rec)
  moreover have "scd_copies m p ! 0 = sigil_read_be16 m (p + 2 * 0)" "scd_copies m p ! 1 = sigil_read_be16 m (p + 2 * 1)"
    by (simp_all add: scd_copies_def)
  ultimately show ?thesis
    unfolding scd_read_count_def FORMAT_COPIES_def upt_4 scd_vote_def by (simp only: find.simps option.case split: if_split) auto
qed

lemma scd_copies_cong: "(\<And>k. k < 8 \<Longrightarrow> a (p + k) = b (q + k)) \<Longrightarrow> scd_copies a p = scd_copies b q"
proof -
  assume eq: "\<And>k. k < 8 \<Longrightarrow> a (p + k) = b (q + k)"
  have "sigil_read_be16 a (p + 2 * j) = sigil_read_be16 b (q + 2 * j)" if "j < 4" for j
    using eq [of "2 * j"] eq [of "2 * j + 1"] that by (intro read_be16_cong) (simp_all add: add.assoc)
  from this [of 0] this [of 1] this [of 2] this [of 3] show ?thesis by (simp add: scd_copies_def)
qed

lemma scd_read_count_cong: "(\<And>k. k < 8 \<Longrightarrow> a (p + k) = b (q + k)) \<Longrightarrow> scd_read_count a p = scd_read_count b q"
  unfolding scd_read_count_vote by (rule arg_cong [where f = scd_vote], rule scd_copies_cong)

lemma scd_copies_write: "scd_copies (scd_write_count m p v) p = replicate 4 (of_nat v)"
proof -
  have "sigil_read_be16 (scd_write_count m p v) (p + 2 * j) = of_nat v" if "j < 4" for j
  proof -
    have j: "j = 0 \<or> j = 1 \<or> j = 2 \<or> j = 3" using that by linarith
    have "sigil_read_be16 (scd_write_count m p v) (p + 2 * j) = sigil_read_be16 (sigil_write_be16 m (p + 2 * j) (of_nat v)) (p + 2 * j)"
      using j by (intro read_be16_cong) (auto simp: scd_write_count_eq write_be16_apply)
    then show ?thesis by simp
  qed
  from this [of 0] this [of 1] this [of 2] this [of 3] show ?thesis by (simp add: scd_copies_def numeral_eq_Suc)
qed

lemma scd_read_write_count: "v < 65536 \<Longrightarrow> scd_read_count (scd_write_count m p v) p = Some v"
  by (simp add: scd_read_count_vote scd_copies_write scd_vote_def unat_of_nat16)

section \<open>A well-formed directory\<close>

lemma scd_size_cases:
  assumes "scd_volume_size_valid siz"
  shows "siz mod 64 = 0 \<and> 128 \<le> siz div 64 \<and> siz div 64 \<le> 8192"
proof -
  have "siz \<in> {8192, 16384, 32768, 65536, 131072, 262144, 524288}"
    using assms by (simp add: scd_volume_size_valid_def SEGACD_INTERNAL_SIZE_def upt_rec)
  then show ?thesis by auto
qed

lemma scd_blocks_size: "scd_volume_size_valid (scd_size vol) \<Longrightarrow> scd_size vol = scd_volume_blocks vol * 64"
proof -
  assume "scd_volume_size_valid (scd_size vol)"
  then have "(64 :: nat) dvd scd_size vol" using scd_size_cases [of "scd_size vol"] by (simp add: dvd_eq_mod_eq_0)
  then show ?thesis by (simp add: scd_volume_blocks_def SEGACD_BLOCK_SIZE_def)
qed

lemma scd_blocks_range: "scd_volume_size_valid (scd_size vol) \<Longrightarrow> 128 \<le> scd_volume_blocks vol \<and> scd_volume_blocks vol \<le> 8192"
  using scd_size_cases [of "scd_size vol"] by (simp add: scd_volume_blocks_def SEGACD_BLOCK_SIZE_def)

lemma scd_format_at: "scd_volume_size_valid (scd_size vol) \<Longrightarrow> scd_format_block vol = (scd_volume_blocks vol - 1) * 64"
  using scd_blocks_size [of vol] by (simp add: scd_format_block_def SEGACD_BLOCK_SIZE_def diff_mult_distrib)

text \<open>The block after the entries, and what makes an entry one of the directory's.\<close>

definition scd_next :: "dir_entry list \<Rightarrow> nat" where
  "scd_next es = 1 + sum_list (map de_blocks es)"

definition scd_sound :: "sigil_segacd_volume \<Rightarrow> dir_entry \<Rightarrow> bool" where
  "scd_sound vol e \<longleftrightarrow> 1 \<le> de_blocks e \<and> (de_protect e \<longrightarrow> scd_blocks_decode vol (de_start e) (de_blocks e))"

definition scd_dir :: "sigil_segacd_volume \<Rightarrow> dir_entry list \<Rightarrow> bool" where
  "scd_dir vol es \<longleftrightarrow> scd_volume_size_valid (scd_size vol) \<and>
     (\<exists>free. scd_read_counts vol = Some \<lparr>vc_files = length es, vc_free = free\<rparr>) \<and>
     (\<forall>i < length es. scd_read_slot vol i = Some (es ! i) \<and> de_start (es ! i) = scd_next (take i es) \<and> scd_sound vol (es ! i)) \<and>
     scd_next es + scd_held (length es) \<le> scd_data_end vol (length es)"

lemma scd_directory_loop_iff:
  "scd_directory_loop vol c [k..<k + n] acc nx = Some (es, nx') \<longleftrightarrow>
     (\<exists>fs. es = acc @ fs \<and> length fs = n \<and> nx' = nx + sum_list (map de_blocks fs) \<and>
        (\<forall>i < n. scd_read_slot vol (k + i) = Some (fs ! i) \<and> scd_entry_valid vol c (fs ! i) \<and>
           de_start (fs ! i) = nx + sum_list (map de_blocks (take i fs))))"
proof (induction n arbitrary: k acc nx)
  case 0
  then show ?case by auto
next
  case (Suc n)
  have u: "[k..<k + Suc n] = k # [Suc k..<Suc k + n]" by (simp add: upt_rec)
  show ?case (is "?L \<longleftrightarrow> (\<exists>fs. ?P fs)")
  proof
    assume ?L
    then obtain e where e: "scd_read_slot vol k = Some e" "scd_entry_valid vol c e" "de_start e = nx"
      and rest: "scd_directory_loop vol c [Suc k..<Suc k + n] (acc @ [e]) (nx + de_blocks e) = Some (es, nx')"
      unfolding u by (auto split: option.splits if_splits)
    obtain fs where fs: "es = (acc @ [e]) @ fs" "length fs = n" "nx' = nx + de_blocks e + sum_list (map de_blocks fs)"
      "\<forall>i < n. scd_read_slot vol (Suc k + i) = Some (fs ! i) \<and> scd_entry_valid vol c (fs ! i) \<and>
           de_start (fs ! i) = nx + de_blocks e + sum_list (map de_blocks (take i fs))"
      using iffD1 [OF Suc.IH rest] by blast
    have "?P (e # fs)"
      using e fs by (auto simp: nth_Cons less_Suc_eq_0_disj split: nat.split)
    then show "\<exists>fs. ?P fs" ..
  next
    assume "\<exists>fs. ?P fs"
    then obtain fs where p: "?P fs" by blast
    then obtain e gs where fs: "fs = e # gs" by (cases fs) auto
    have e: "scd_read_slot vol k = Some e" "scd_entry_valid vol c e" "de_start e = nx"
      using p fs by (auto dest: spec [of _ 0])
    have g: "scd_read_slot vol (Suc k + i) = Some (gs ! i) \<and> scd_entry_valid vol c (gs ! i) \<and>
           de_start (gs ! i) = nx + de_blocks e + sum_list (map de_blocks (take i gs))" if "i < n" for i
      using p fs that by (auto dest: spec [of _ "Suc i"])
    have "scd_directory_loop vol c [Suc k..<Suc k + n] (acc @ [e]) (nx + de_blocks e) = Some (es, nx')"
      by (rule iffD2 [OF Suc.IH], rule exI [of _ gs]) (use p fs g in auto)
    then show ?L unfolding u using e by simp
  qed
qed

lemma scd_next_take: "i < length es \<Longrightarrow> scd_next (take i es) + de_blocks (es ! i) \<le> scd_next es"
proof -
  assume i: "i < length es"
  have "es = take i es @ es ! i # drop (Suc i) es" by (rule id_take_nth_drop [OF i])
  then have "sum_list (map de_blocks es) = sum_list (map de_blocks (take i es)) + (de_blocks (es ! i) + sum_list (map de_blocks (drop (Suc i) es)))"
    by (metis list.simps(9) map_append sum_list.Cons sum_list_append)
  then show ?thesis by (simp add: scd_next_def)
qed

lemma scd_next_snoc: "scd_next (es @ [e]) = scd_next es + de_blocks e"
  by (simp add: scd_next_def)

lemma scd_next_Nil [simp]: "scd_next [] = 1"
  by (simp add: scd_next_def)

text \<open>The directory is read exactly when it is well-formed.\<close>

lemma scd_read_directory_iff:
  "scd_read_directory vol = Inr (c, es) \<longleftrightarrow> scd_dir vol es \<and>
     c = \<lparr>vc_files = length es, vc_free = scd_bios_free vol (length es) (scd_next es)\<rparr>"
proof -
  have valid: "scd_entry_valid vol c0 (es ! i) \<longleftrightarrow> scd_sound vol (es ! i) \<and>
      scd_next (take i es) + de_blocks (es ! i) + scd_held (vc_files c0) \<le> scd_data_end vol (vc_files c0)"
    if "de_start (es ! i) = scd_next (take i es)" for c0 i es
    using that by (auto simp: scd_entry_valid_def scd_sound_def scd_next_def not_less)
  have loop: "scd_directory_loop vol c0 [0..<n] [] 1 = Some (es, nx) \<longleftrightarrow>
      length es = n \<and> nx = scd_next es \<and> (\<forall>i < n. scd_read_slot vol i = Some (es ! i) \<and> scd_entry_valid vol c0 (es ! i) \<and>
        de_start (es ! i) = scd_next (take i es))" for c0 n es nx
    using scd_directory_loop_iff [of vol c0 0 n "[]" 1 es nx] by (auto simp: scd_next_def)
  have bound: "(\<forall>i < length es. scd_next (take i es) + de_blocks (es ! i) + h \<le> d) \<longleftrightarrow> scd_next es + h \<le> d"
    if "es \<noteq> [] \<or> 1 + h \<le> d" for es h d
  proof
    assume a: "\<forall>i < length es. scd_next (take i es) + de_blocks (es ! i) + h \<le> d"
    show "scd_next es + h \<le> d"
    proof (cases es rule: rev_cases)
      case Nil
      then show ?thesis using that by simp
    next
      case (snoc fs e)
      then show ?thesis using a [rule_format, of "length fs"] by (simp add: scd_next_snoc)
    qed
  next
    assume b: "scd_next es + h \<le> d"
    show "\<forall>i < length es. scd_next (take i es) + de_blocks (es ! i) + h \<le> d"
    proof (intro allI impI)
      fix i assume "i < length es"
      then show "scd_next (take i es) + de_blocks (es ! i) + h \<le> d" using scd_next_take [of i es] b by linarith
    qed
  qed
  show ?thesis
  proof (cases "scd_read_counts vol")
    case None
    then show ?thesis by (auto simp: scd_read_directory_def scd_dir_def)
  next
    case (Some c0)
    have sz: "scd_volume_size_valid (scd_size vol)"
      using Some by (auto simp: scd_read_counts_def split: if_splits option.splits)
    let ?n = "vc_files c0"
    have start: "es \<noteq> [] \<or> 1 + scd_held ?n \<le> scd_data_end vol ?n" if "length es = ?n"
      using that scd_blocks_range [OF sz] by (cases es) (auto simp: scd_held_def scd_data_end_def scd_dir_blocks_def)
    have "scd_directory_loop vol c0 [0..<?n] [] 1 = Some (es, nx) \<longleftrightarrow>
        length es = ?n \<and> nx = scd_next es \<and> (\<forall>i < ?n. scd_read_slot vol i = Some (es ! i) \<and>
          de_start (es ! i) = scd_next (take i es) \<and> scd_sound vol (es ! i)) \<and>
        scd_next es + scd_held ?n \<le> scd_data_end vol ?n" for nx
    proof (cases "length es = ?n")
      case True
      have b: "(\<forall>i < ?n. scd_next (take i es) + de_blocks (es ! i) + scd_held ?n \<le> scd_data_end vol ?n) \<longleftrightarrow>
          scd_next es + scd_held ?n \<le> scd_data_end vol ?n" using bound [OF start [OF True]] True by simp
      have "scd_entry_valid vol c0 (es ! i) \<and> de_start (es ! i) = scd_next (take i es) \<longleftrightarrow>
          de_start (es ! i) = scd_next (take i es) \<and> scd_sound vol (es ! i) \<and>
          scd_next (take i es) + de_blocks (es ! i) + scd_held ?n \<le> scd_data_end vol ?n" for i
        using valid [of es i c0] by blast
      then show ?thesis unfolding loop b [symmetric] by blast
    next
      case False
      then show ?thesis unfolding loop by blast
    qed
    moreover have "scd_dir vol es \<longleftrightarrow> length es = ?n \<and> (\<forall>i < ?n. scd_read_slot vol i = Some (es ! i) \<and>
          de_start (es ! i) = scd_next (take i es) \<and> scd_sound vol (es ! i)) \<and>
        scd_next es + scd_held ?n \<le> scd_data_end vol ?n"
      using Some sz by (cases c0) (auto simp: scd_dir_def)
    moreover have "scd_read_directory vol = Inr (c, es) \<longleftrightarrow>
        (\<exists>nx. scd_directory_loop vol c0 [0..<?n] [] 1 = Some (es, nx) \<and> c = c0\<lparr>vc_free := scd_bios_free vol ?n nx\<rparr>)"
      using Some by (auto simp: scd_read_directory_def split: option.splits)
    ultimately show ?thesis by (cases c0) auto
  qed
qed

section \<open>Slots\<close>

text \<open>The block that holds a slot, and the entry it reads there.\<close>

definition scd_slot_at :: "sigil_segacd_volume \<Rightarrow> nat \<Rightarrow> nat" where
  "scd_slot_at vol slot = scd_volume_blocks vol - 2 - slot div 2"

definition scd_slot_entry :: "nat \<Rightarrow> bytes \<Rightarrow> dir_entry option" where
  "scd_slot_entry slot b = (case scd_dec b of None \<Rightarrow> None | Some payload \<Rightarrow> Some (scd_entry_of (mem_of payload) (scd_slot_half slot)))"

lemma scd_read_slot_blk: "scd_read_slot vol slot = scd_slot_entry slot (scd_blk (scd_data vol) (scd_slot_at vol slot))"
  by (simp add: scd_read_slot_def scd_slot_entry_def scd_slot_block_def SEGACD_BLOCK_SIZE_def scd_slot_at_def decode_blk
      flip: One_nat_def)

lemma scd_sel [simp]:
  "scd_size (vol\<lparr>scd_data := m\<rparr>) = scd_size vol" "scd_volume_blocks (vol\<lparr>scd_data := m\<rparr>) = scd_volume_blocks vol"
  "scd_slot_at (vol\<lparr>scd_data := m\<rparr>) i = scd_slot_at vol i" "scd_slot_block (vol\<lparr>scd_data := m\<rparr>) i = scd_slot_block vol i"
  "scd_format_block (vol\<lparr>scd_data := m\<rparr>) = scd_format_block vol" "scd_data_end (vol\<lparr>scd_data := m\<rparr>) i = scd_data_end vol i"
  "scd_bios_free (vol\<lparr>scd_data := m\<rparr>) = scd_bios_free vol"
  by (simp_all add: scd_volume_blocks_def scd_slot_at_def scd_slot_block_def scd_format_block_def scd_data_end_def
      scd_bios_free_def [abs_def])

text \<open>What \<^verbatim>\<open>write_slot\<close> encodes: the raw entry in its half, the other half kept for an odd slot.\<close>

definition scd_slot_payload :: "nat \<Rightarrow> bytes \<Rightarrow> mem \<Rightarrow> mem" where
  "scd_slot_payload slot b raw =
     memcpy (if even slot then (\<lambda>_. 0) else case scd_dec b of None \<Rightarrow> (\<lambda>_. 0) | Some payload \<Rightarrow> mem_of payload)
       (scd_slot_half slot) raw 0 16"

definition scd_slot_bytes :: "nat \<Rightarrow> bytes \<Rightarrow> mem \<Rightarrow> bytes" where
  "scd_slot_bytes slot b raw = bytes_at (sigil_segacd_encode_block (scd_slot_payload slot b raw) 0) 0 64"

lemma scd_write_slot_vol: "scd_write_slot vol slot raw = vol\<lparr>scd_data := scd_data (scd_write_slot vol slot raw)\<rparr>"
  by (simp add: scd_write_slot_def Let_def)

lemma scd_write_slot_sel [simp]:
  "scd_size (scd_write_slot vol slot raw) = scd_size vol" "scd_volume_blocks (scd_write_slot vol slot raw) = scd_volume_blocks vol"
  "scd_slot_at (scd_write_slot vol slot raw) i = scd_slot_at vol i"
  "scd_format_block (scd_write_slot vol slot raw) = scd_format_block vol"
  "scd_data_end (scd_write_slot vol slot raw) i = scd_data_end vol i" "scd_bios_free (scd_write_slot vol slot raw) = scd_bios_free vol"
  by (subst scd_write_slot_vol, simp)+

lemma scd_write_slot_blk:
  "scd_blk (scd_data (scd_write_slot vol slot raw)) b =
     (if b = scd_slot_at vol slot then scd_slot_bytes slot (scd_blk (scd_data vol) b) raw else scd_blk (scd_data vol) b)"
proof -
  have at: "scd_slot_block vol slot = scd_slot_at vol slot * 64"
    by (simp add: scd_slot_block_def scd_slot_at_def SEGACD_BLOCK_SIZE_def)
  have "scd_data (scd_write_slot vol slot raw) = memcpy (scd_data vol) (scd_slot_at vol slot * 64)
      (sigil_segacd_encode_block (scd_slot_payload slot (scd_blk (scd_data vol) (scd_slot_at vol slot)) raw) 0) 0 SEGACD_BLOCK_SIZE"
    by (simp add: scd_write_slot_def Let_def at decode_blk scd_slot_payload_def ENTRY_SIZE_def)
  then show ?thesis by (simp add: scd_blk_store scd_slot_bytes_def)
qed

lemma scd_write_slot_out: "i < scd_slot_at vol slot * 64 \<or> scd_slot_at vol slot * 64 + 64 \<le> i \<Longrightarrow>
    scd_data (scd_write_slot vol slot raw) i = scd_data vol i"
  by (simp add: scd_write_slot_def Let_def scd_slot_block_def scd_slot_at_def SEGACD_BLOCK_SIZE_def memcpy_apply) auto

lemma scd_half: "scd_slot_half slot = 0 \<or> scd_slot_half slot = 16"
  by (simp add: scd_slot_half_def ENTRY_SIZE_def)

lemma scd_entry_of_cong: "(\<And>k. k < 16 \<Longrightarrow> a (p + k) = b (q + k)) \<Longrightarrow> scd_entry_of a p = scd_entry_of b q"
proof -
  assume "\<And>k. k < 16 \<Longrightarrow> a (p + k) = b (q + k)"
  then have "memcpy (\<lambda>_. 0) 0 a p ENTRY_SIZE = memcpy (\<lambda>_. 0) 0 b q ENTRY_SIZE"
    by (intro memcpy_cong) (simp add: ENTRY_SIZE_def)
  then show ?thesis by (simp add: scd_entry_of_def)
qed

text \<open>A written slot reads back as the entry of its raw bytes; an odd one leaves its partner.\<close>

lemma scd_slot_entry_bytes: "scd_slot_entry slot (scd_slot_bytes slot b raw) = Some (scd_entry_of raw 0)"
proof -
  have "scd_entry_of (mem_of (bytes_at (scd_slot_payload slot b raw) 0 32)) (scd_slot_half slot) = scd_entry_of raw 0"
    using scd_half [of slot] by (intro scd_entry_of_cong) (auto simp: mem_of_def scd_slot_payload_def memcpy_apply)
  then show ?thesis by (simp add: scd_slot_entry_def scd_slot_bytes_def dec_encode)
qed

lemma scd_slot_entry_partner:
  assumes "odd slot" "scd_slot_entry (slot - 1) b = Some e"
  shows "scd_slot_entry (slot - 1) (scd_slot_bytes slot b raw) = Some e"
proof -
  have half: "scd_slot_half slot = 0" "scd_slot_half (slot - 1) = 16"
    using assms(1) by (simp_all add: scd_slot_half_def ENTRY_SIZE_def)
  obtain payload where p: "scd_dec b = Some payload" "e = scd_entry_of (mem_of payload) 16"
    using assms(2) half by (auto simp: scd_slot_entry_def split: option.splits)
  have len: "length payload = 32" using p(1) by (auto simp: scd_dec_def intro: decode_length)
  have "scd_entry_of (mem_of (bytes_at (scd_slot_payload slot b raw) 0 32)) 16 = scd_entry_of (mem_of payload) 16"
    using assms(1) by (intro scd_entry_of_cong) (simp add: mem_of_def scd_slot_payload_def memcpy_apply p half len)
  then show ?thesis by (simp add: scd_slot_entry_def scd_slot_bytes_def dec_encode half half(2) [simplified] p)
qed

lemma scd_write_slot_same: "scd_read_slot (scd_write_slot vol slot raw) slot = Some (scd_entry_of raw 0)"
  by (simp add: scd_read_slot_blk scd_write_slot_blk scd_slot_entry_bytes)

lemma scd_write_slot_partner:
  assumes "odd slot" "scd_read_slot vol (slot - 1) = Some e"
  shows "scd_read_slot (scd_write_slot vol slot raw) (slot - 1) = Some e"
proof -
  have "(slot - 1) div 2 = slot div 2" using assms(1) by presburger
  then have "scd_slot_at vol (slot - 1) = scd_slot_at vol slot" by (simp add: scd_slot_at_def)
  then show ?thesis
    using scd_slot_entry_partner [OF assms(1)] assms(2) by (simp add: scd_read_slot_blk scd_write_slot_blk)
qed

lemma scd_write_slot_other:
  assumes "scd_slot_at vol i \<noteq> scd_slot_at vol slot"
  shows "scd_read_slot (scd_write_slot vol slot raw) i = scd_read_slot vol i"
  using assms by (simp add: scd_read_slot_blk scd_write_slot_blk)

text \<open>Directory slots \<open>i\<close> and \<open>n\<close> of a volume with room for slot \<open>n\<close>: appending at \<open>n\<close> keeps the
  entries before it.\<close>

lemma scd_slot_at_eq:
  assumes "i div 2 + 2 \<le> scd_volume_blocks vol" "n div 2 + 2 \<le> scd_volume_blocks vol"
  shows "scd_slot_at vol i = scd_slot_at vol n \<longleftrightarrow> i div 2 = n div 2"
  using assms by (auto simp: scd_slot_at_def)

lemma scd_write_slot_before:
  assumes "i < n" "n div 2 + 2 \<le> scd_volume_blocks vol" "scd_read_slot vol i = Some e"
  shows "scd_read_slot (scd_write_slot vol n raw) i = Some e"
proof (cases "i div 2 = n div 2")
  case True
  then have "odd n" "i = n - 1" using assms(1) by presburger+
  then show ?thesis using scd_write_slot_partner assms(3) by simp
next
  case False
  have "i div 2 \<le> n div 2" using assms(1) by (simp add: div_le_mono)
  then show ?thesis using False assms by (subst scd_write_slot_other) (simp_all add: scd_slot_at_eq)
qed

section \<open>The counts\<close>

lemma scd_put_counts_out:
  "i < scd_format_block vol + 16 \<or> scd_format_block vol + 32 \<le> i \<Longrightarrow> scd_data (scd_put_counts vol free files) i = scd_data vol i"
  by (auto simp: scd_put_counts_def Let_def FORMAT_FREE_def FORMAT_FILES_def scd_write_count_out)

lemma scd_put_counts_sel [simp]:
  "scd_size (scd_put_counts vol free files) = scd_size vol" "scd_volume_blocks (scd_put_counts vol free files) = scd_volume_blocks vol"
  "scd_slot_at (scd_put_counts vol free files) i = scd_slot_at vol i"
  "scd_format_block (scd_put_counts vol free files) = scd_format_block vol"
  "scd_data_end (scd_put_counts vol free files) i = scd_data_end vol i"
  "scd_bios_free (scd_put_counts vol free files) = scd_bios_free vol"
  by (simp_all add: scd_put_counts_def Let_def)

lemma scd_put_counts_blk:
  assumes "scd_volume_size_valid (scd_size vol)" "b + 1 < scd_volume_blocks vol"
  shows "scd_blk (scd_data (scd_put_counts vol free files)) b = scd_blk (scd_data vol) b"
proof (rule scd_blk_eqI)
  fix k :: nat assume "k < 64"
  moreover have "(b + 1) * 64 \<le> (scd_volume_blocks vol - 1) * 64" using assms(2) by (intro mult_le_mono1) linarith
  ultimately have "b * 64 + k < scd_format_block vol" unfolding scd_format_at [OF assms(1)] by simp
  then show "scd_data (scd_put_counts vol free files) (b * 64 + k) = scd_data vol (b * 64 + k)"
    by (simp add: scd_put_counts_out)
qed

lemma scd_put_counts_read:
  assumes "scd_volume_size_valid (scd_size vol)" "files < 65536" "free < 65536" "scd_dir_blocks files + 2 \<le> scd_volume_blocks vol"
  shows "scd_read_counts (scd_put_counts vol free files) = Some \<lparr>vc_files = files, vc_free = free\<rparr>"
proof -
  let ?f = "scd_format_block vol"
  have "scd_read_count (scd_data (scd_put_counts vol free files)) (?f + FORMAT_FREE) =
      scd_read_count (scd_write_count (scd_data vol) (?f + FORMAT_FREE) free) (?f + FORMAT_FREE)"
    by (rule scd_read_count_cong) (simp add: scd_put_counts_def Let_def scd_write_count_out FORMAT_FREE_def FORMAT_FILES_def)
  then have fr: "scd_read_count (scd_data (scd_put_counts vol free files)) (?f + FORMAT_FREE) = Some free"
    by (simp add: scd_read_write_count assms)
  have "scd_read_count (scd_data (scd_put_counts vol free files)) (?f + FORMAT_FILES) = Some files"
    by (simp add: scd_put_counts_def Let_def scd_read_write_count assms)
  then show ?thesis using fr assms(1,4) by (simp add: scd_read_counts_def)
qed

section \<open>The saves of a volume\<close>

text \<open>A save is its twelve name and flag bytes and the blocks stored for it.\<close>

type_synonym scd_save = "bytes \<times> bytes list"

definition scd_save_of :: "mem \<Rightarrow> dir_entry \<Rightarrow> scd_save" where
  "scd_save_of m e = (bytes_at (de_raw e) 0 12, map (scd_blk m) [de_start e..<de_start e + de_blocks e])"

definition scd_saves :: "sigil_segacd_volume \<Rightarrow> dir_entry list \<Rightarrow> scd_save list" where
  "scd_saves vol es = map (scd_save_of (scd_data vol)) es"

definition scd_unit_save :: "mem \<Rightarrow> nat \<Rightarrow> scd_save" where
  "scd_unit_save unit blocks =
     (bytes_at unit UNIT_NAME 11 @ [unit UNIT_FLAG], map (\<lambda>i. bytes_at unit (20 + i * 64) 64) [0..<blocks])"

lemma scd_blocks_decode_blk:
  "scd_blocks_decode vol start n \<longleftrightarrow> (\<forall>i < n. scd_dec (scd_blk (scd_data vol) (start + i)) \<noteq> None)"
  unfolding scd_blocks_decode_def list_all_iff scd_data_block_def SEGACD_BLOCK_SIZE_def decode_blk by (simp add: Ball_def)

lemma scd_sound_cong:
  assumes "\<And>b. de_start e \<le> b \<Longrightarrow> b < de_start e + de_blocks e \<Longrightarrow> scd_blk (scd_data v) b = scd_blk (scd_data w) b"
  shows "scd_sound v e = scd_sound w e"
  using assms by (auto simp: scd_sound_def scd_blocks_decode_blk)

lemma scd_save_cong:
  assumes "\<And>b. de_start e \<le> b \<Longrightarrow> b < de_start e + de_blocks e \<Longrightarrow> scd_blk m b = scd_blk m' b"
  shows "scd_save_of m e = scd_save_of m' e"
  using assms by (auto simp: scd_save_of_def)

text \<open>The blocks of the entries lie below the directory.\<close>

lemma scd_dir_bounds:
  assumes "scd_dir vol es"
  shows "scd_volume_size_valid (scd_size vol)" and "scd_dir_blocks (length es) + 2 \<le> scd_volume_blocks vol"
    and "scd_next es + scd_held (length es) + scd_dir_blocks (length es) + 1 \<le> scd_volume_blocks vol"
    and "i < length es \<Longrightarrow> de_start (es ! i) + de_blocks (es ! i) \<le> scd_next es"
    and "i < length es \<Longrightarrow> i div 2 + 2 \<le> scd_volume_blocks vol \<and> scd_next es \<le> scd_slot_at vol i \<and> scd_slot_at vol i + 1 < scd_volume_blocks vol"
proof -
  show sz: "scd_volume_size_valid (scd_size vol)" using assms by (simp add: scd_dir_def)
  show fit: "scd_dir_blocks (length es) + 2 \<le> scd_volume_blocks vol"
    using assms by (auto simp: scd_dir_def scd_read_counts_def split: if_splits option.splits)
  show b: "scd_next es + scd_held (length es) + scd_dir_blocks (length es) + 1 \<le> scd_volume_blocks vol"
    using assms fit by (auto simp: scd_dir_def scd_data_end_def)
  show "de_start (es ! i) + de_blocks (es ! i) \<le> scd_next es" if "i < length es"
    using assms that scd_next_take [OF that] by (auto simp: scd_dir_def)
  show "i div 2 + 2 \<le> scd_volume_blocks vol \<and> scd_next es \<le> scd_slot_at vol i \<and> scd_slot_at vol i + 1 < scd_volume_blocks vol"
    if "i < length es"
  proof -
    have "i div 2 + 1 \<le> scd_dir_blocks (length es)" using that unfolding scd_dir_blocks_def by presburger
    then show ?thesis using b by (auto simp: scd_slot_at_def)
  qed
qed

lemma scd_dir_entry: "scd_dir vol es \<Longrightarrow> i < length es \<Longrightarrow>
    scd_read_slot vol i = Some (es ! i) \<and> de_start (es ! i) = scd_next (take i es) \<and> scd_sound vol (es ! i)"
  by (simp add: scd_dir_def)

section \<open>Units\<close>

lemma scd_unit_blocksD:
  assumes "scd_unit_blocks unit len = n" "n \<noteq> 0"
  shows "len = 20 + n * 64" and "n < 65536" and "n = unat (sigil_read_be16 unit 16)" and "has_bytes unit 0 UNIT_MAGIC"
    and "unit UNIT_FLAG \<noteq> 0 \<Longrightarrow> i < n \<Longrightarrow> scd_dec (bytes_at unit (20 + i * 64) 64) \<noteq> None"
proof -
  have u: "n = unat (sigil_read_be16 unit UNIT_BLOCKS)" "len = sigil_segacd_unit_size n" "has_bytes unit 0 UNIT_MAGIC"
    "unit UNIT_FLAG = 0 \<or> list_all (\<lambda>i. sigil_segacd_decode_block unit (sigil_segacd_unit_size i) \<noteq> None) [0..<n]"
    using assms by (auto simp: scd_unit_blocks_def Let_def split: if_splits)
  show "len = 20 + n * 64" using u(2) by (simp add: sigil_segacd_unit_size_def SEGACD_UNIT_HEADER_SIZE_def SEGACD_BLOCK_SIZE_def)
  show "n < 65536" unfolding u(1) by (rule unat_word16_less)
  show "n = unat (sigil_read_be16 unit 16)" using u(1) by (simp add: UNIT_BLOCKS_def)
  show "has_bytes unit 0 UNIT_MAGIC" by (rule u(3))
  show "scd_dec (bytes_at unit (20 + i * 64) 64) \<noteq> None" if "unit UNIT_FLAG \<noteq> 0" "i < n"
    using u(4) that by (simp add: list_all_iff sigil_segacd_unit_size_def SEGACD_UNIT_HEADER_SIZE_def SEGACD_BLOCK_SIZE_def decode_at)
qed

lemma scd_raw_write_start:
  assumes "start < 65536"
  shows "scd_entry_of (sigil_write_be16 raw 12 (of_nat start)) 0 =
    (scd_entry_of raw 0)\<lparr>de_raw := de_raw (scd_entry_of (sigil_write_be16 raw 12 (of_nat start)) 0), de_start := start\<rparr>"
proof -
  let ?w = "sigil_write_be16 raw 12 (of_nat start)"
  have "sigil_read_be16 (memcpy (\<lambda>_. 0) 0 ?w 0 16) 12 = sigil_read_be16 ?w 12"
    by (rule read_be16_cong) (simp_all add: memcpy_apply)
  moreover have "sigil_read_be16 (memcpy (\<lambda>_. 0) 0 ?w 0 16) 14 = sigil_read_be16 (memcpy (\<lambda>_. 0) 0 raw 0 16) 14"
    by (rule read_be16_cong) (simp_all add: memcpy_apply write_be16_apply)
  moreover have "memcpy (\<lambda>_. 0) 0 ?w 0 16 11 = memcpy (\<lambda>_. 0) 0 raw 0 16 11" by (simp add: memcpy_apply write_be16_apply)
  ultimately show ?thesis
    by (simp add: scd_entry_of_def Let_def ENTRY_SIZE_def ENTRY_START_def ENTRY_BLOCKS_def ENTRY_FLAG_def unat_of_nat16 assms)
qed

lemma scd_unit_entry:
  fixes unit :: mem
  assumes "start < 65536" "n < 65536"
  defines "e \<equiv> scd_entry_of (scd_unit_raw unit start n) 0"
  shows "de_start e = start" "de_blocks e = n" "de_protect e \<longleftrightarrow> unit UNIT_FLAG \<noteq> 0"
    and "bytes_at (de_raw e) 0 12 = bytes_at unit UNIT_NAME 11 @ [unit UNIT_FLAG]"
    and "k < 11 \<Longrightarrow> de_raw e k = unit (4 + k)"
proof -
  let ?r = "memcpy (\<lambda>_. 0) 0 (scd_unit_raw unit start n) 0 16"
  have raw: "scd_unit_raw unit start n k = (if k < 11 then unit (4 + k) else unit UNIT_FLAG)" if "k < 12" for k
    using that by (auto simp: scd_unit_raw_def Let_def memcpy_apply write_be16_apply ENTRY_START_def ENTRY_BLOCKS_def
        ENTRY_FLAG_def UNIT_NAME_def SEGACD_NAME_LEN_def)
  have "sigil_read_be16 ?r 12 = sigil_read_be16 (sigil_write_be16 (\<lambda>_. 0) 12 (of_nat start)) 12"
    by (rule read_be16_cong) (simp_all add: memcpy_apply scd_unit_raw_def Let_def write_be16_apply ENTRY_START_def ENTRY_BLOCKS_def)
  moreover have "sigil_read_be16 ?r 14 = sigil_read_be16 (sigil_write_be16 (\<lambda>_. 0) 14 (of_nat n)) 14"
    by (rule read_be16_cong) (simp_all add: memcpy_apply scd_unit_raw_def Let_def write_be16_apply ENTRY_START_def ENTRY_BLOCKS_def)
  ultimately show "de_start e = start" "de_blocks e = n"
    by (simp_all add: e_def scd_entry_of_def Let_def ENTRY_SIZE_def ENTRY_START_def ENTRY_BLOCKS_def unat_of_nat16 assms(1,2))
  show "de_protect e \<longleftrightarrow> unit UNIT_FLAG \<noteq> 0"
    by (simp add: e_def scd_entry_of_def Let_def ENTRY_SIZE_def ENTRY_FLAG_def memcpy_apply raw)
  have de: "de_raw e k = scd_unit_raw unit start n k" if "k < 16" for k
    using that by (simp add: e_def scd_entry_of_def Let_def ENTRY_SIZE_def memcpy_apply)
  show "k < 11 \<Longrightarrow> de_raw e k = unit (4 + k)" by (simp add: de raw)
  show "bytes_at (de_raw e) 0 12 = bytes_at unit UNIT_NAME 11 @ [unit UNIT_FLAG]"
    by (intro nth_equalityI) (auto simp: de raw nth_append UNIT_NAME_def)
qed

section \<open>Injecting\<close>

lemma scd_start_eq: "scd_dir vol es \<Longrightarrow> fold (\<lambda>e _. de_start e + de_blocks e) es 1 = scd_next es"
proof (cases es rule: rev_cases)
  case (snoc fs e)
  assume "scd_dir vol es"
  then have "de_start (es ! length fs) = scd_next (take (length fs) es)" using snoc by (auto simp: scd_dir_def)
  then show ?thesis using snoc by (simp add: scd_next_snoc)
qed simp

text \<open>The volume an inject leaves.\<close>

definition scd_injected :: "sigil_segacd_volume \<Rightarrow> nat \<Rightarrow> nat \<Rightarrow> mem \<Rightarrow> nat \<Rightarrow> sigil_segacd_volume" where
  "scd_injected vol n start unit blocks =
     scd_put_counts
       (scd_write_slot (vol\<lparr>scd_data := memcpy (scd_data vol) (start * 64) unit 20 (blocks * 64)\<rparr>) n (scd_unit_raw unit start blocks))
       (scd_bios_free vol (n + 1) (start + blocks)) (n + 1)"

lemma scd_inject_cases:
  "sigil_segacd_inject vol unit len =
     (let blocks = scd_unit_blocks unit len in
      if blocks = 0 then (SIGIL_ERR_UNSUPPORTED_FORMAT, vol)
      else case scd_read_directory vol of
        Inl rc \<Rightarrow> (SIGIL_ERR_UNSUPPORTED_FORMAT, vol)
      | Inr (c, es) \<Rightarrow>
          if \<exists>e \<in> set es. mem_eq (de_raw e) 0 unit UNIT_NAME SEGACD_NAME_LEN then (SIGIL_ERR_EXISTS, vol)
          else if scd_bios_free vol (length es) (scd_next es) < scd_inject_cost blocks (length es) then (SIGIL_ERR_NO_SPACE, vol)
          else (SIGIL_OK, scd_injected vol (length es) (scd_next es) unit blocks))"
proof (cases "scd_read_directory vol")
  case (Inr r)
  obtain c es where r: "r = (c, es)" by (cases r)
  have d: "scd_dir vol es" "c = \<lparr>vc_files = length es, vc_free = scd_bios_free vol (length es) (scd_next es)\<rparr>"
    using Inr r by (simp_all add: scd_read_directory_iff)
  show ?thesis
    by (simp add: sigil_segacd_inject_def Let_def Inr r d(2) scd_start_eq [OF d(1)] scd_start_eq [OF d(1), simplified] list_ex_iff scd_injected_def
        SEGACD_BLOCK_SIZE_def SEGACD_UNIT_HEADER_SIZE_def)
qed (simp add: sigil_segacd_inject_def Let_def)

text \<open>Room for a unit: its blocks end short of the directory it leaves.\<close>

lemma scd_room:
  assumes d: "scd_dir vol es" and room: "scd_inject_cost blocks (length es) \<le> scd_bios_free vol (length es) (scd_next es)"
    and b: "blocks \<noteq> 0"
  shows "scd_next es + blocks + scd_held (length es + 1) + scd_dir_blocks (length es + 1) + 1 \<le> scd_volume_blocks vol"
    and "length es div 2 + 2 \<le> scd_volume_blocks vol" and "scd_next es + blocks \<le> scd_slot_at vol (length es)"
    and "scd_slot_at vol (length es) + 1 < scd_volume_blocks vol"
proof -
  let ?n = "length es" and ?V = "scd_volume_blocks vol"
  have fit: "scd_dir_blocks ?n + 2 \<le> ?V" by (rule scd_dir_bounds(2) [OF d])
  have free: "scd_next es + scd_held ?n + blocks + (if odd ?n then 1 else 0) + 1 + scd_dir_blocks ?n \<le> ?V"
    using room b fit by (auto simp: scd_inject_cost_def scd_bios_free_def Let_def scd_data_end_def split: if_splits)
  have dirs: "scd_dir_blocks (?n + 1) = (if odd ?n then scd_dir_blocks ?n else scd_dir_blocks ?n + 1)"
    "scd_dir_blocks (?n + 1) = ?n div 2 + 1"
    unfolding scd_dir_blocks_def by presburger+
  show main: "scd_next es + blocks + scd_held (?n + 1) + scd_dir_blocks (?n + 1) + 1 \<le> ?V"
    using free dirs(1) by (auto simp: scd_held_def split: if_splits)
  show v: "?n div 2 + 2 \<le> ?V" using main dirs(2) b by linarith
  show "scd_next es + blocks \<le> scd_slot_at vol ?n" "scd_slot_at vol ?n + 1 < ?V"
    using main dirs(2) v by (simp_all add: scd_slot_at_def)
qed

lemma scd_injected_blk:
  assumes "scd_volume_size_valid (scd_size vol)" "b + 1 < scd_volume_blocks vol" "start + blocks \<le> scd_slot_at vol n"
  shows "scd_blk (scd_data (scd_injected vol n start unit blocks)) b =
     (if start \<le> b \<and> b < start + blocks then bytes_at unit (20 + (b - start) * 64) 64
      else if b = scd_slot_at vol n then scd_slot_bytes n (scd_blk (scd_data vol) b) (scd_unit_raw unit start blocks)
      else scd_blk (scd_data vol) b)"
  unfolding scd_injected_def using assms
  by (subst scd_put_counts_blk) (auto simp: scd_write_slot_blk scd_blk_memcpy)

lemma scd_injected_dir:
  fixes unit :: mem
  assumes d: "scd_dir vol es" and room: "scd_inject_cost blocks (length es) \<le> scd_bios_free vol (length es) (scd_next es)"
    and u: "scd_unit_blocks unit len = blocks" "blocks \<noteq> 0"
  defines "v \<equiv> scd_injected vol (length es) (scd_next es) unit blocks"
    and "e \<equiv> scd_entry_of (scd_unit_raw unit (scd_next es) blocks) 0"
  shows "scd_dir v (es @ [e])" and "scd_saves v (es @ [e]) = scd_saves vol es @ [scd_unit_save unit blocks]"
proof -
  let ?n = "length es" and ?V = "scd_volume_blocks vol" and ?s = "scd_next es"
  note rm = scd_room [OF d room u(2)]
  note b = scd_dir_bounds [OF d]
  have V: "?V \<le> 8192" using scd_blocks_range [OF b(1)] by simp
  have s: "?s < 65536" "blocks < 65536" using rm(1) V by simp_all
  note en = scd_unit_entry [OF s, where unit = unit, folded e_def]
  have sel: "scd_size v = scd_size vol" "scd_volume_blocks v = ?V" "scd_data_end v i = scd_data_end vol i"
    "scd_slot_at v i = scd_slot_at vol i" for i
    by (simp_all add: v_def scd_injected_def)
  have blk: "scd_blk (scd_data v) c = (if ?s \<le> c \<and> c < ?s + blocks then bytes_at unit (20 + (c - ?s) * 64) 64
      else if c = scd_slot_at vol ?n then scd_slot_bytes ?n (scd_blk (scd_data vol) c) (scd_unit_raw unit ?s blocks)
      else scd_blk (scd_data vol) c)" if "c + 1 < ?V" for c
    unfolding v_def by (rule scd_injected_blk [OF b(1) that rm(3)])
  have low: "scd_blk (scd_data v) c = scd_blk (scd_data vol) c" if "c < ?s" for c
    using blk [of c] that rm(3,4) by simp
  have new: "scd_blk (scd_data v) (?s + i) = bytes_at unit (20 + i * 64) 64" if "i < blocks" for i
    using blk [of "?s + i"] that rm(3,4) by simp
  have old_i: "de_start (es ! i) + de_blocks (es ! i) \<le> ?s" if "i < ?n" for i using b(4) [OF that] .
  have slot_old: "scd_read_slot v i = Some (es ! i)" if i: "i < ?n" for i
  proof -
    have at: "?s \<le> scd_slot_at vol i" "scd_slot_at vol i + 1 < ?V" using b(5) [OF i] by auto
    have above: "\<not> (?s \<le> scd_slot_at vol i \<and> scd_slot_at vol i < ?s + blocks)"
    proof -
      have "scd_slot_at vol ?n \<le> scd_slot_at vol i" using i by (simp add: scd_slot_at_def div_le_mono diff_le_mono2)
      then show ?thesis using rm(3) by simp
    qed
    have r: "scd_read_slot vol i = Some (es ! i)" using scd_dir_entry [OF d i] by blast
    have "scd_read_slot v i = scd_read_slot (scd_write_slot vol ?n (scd_unit_raw unit ?s blocks)) i"
      unfolding scd_read_slot_blk sel(4) blk [OF at(2)] scd_write_slot_sel scd_write_slot_blk using above by auto
    then show ?thesis using scd_write_slot_before [OF i rm(2) r] by simp
  qed
  have slot_new: "scd_read_slot v ?n = Some e"
    using rm(3,4) by (simp add: scd_read_slot_blk sel(4) blk scd_slot_entry_bytes e_def)
  have sound_old: "scd_sound v (es ! i)" if "i < ?n" for i
    using scd_dir_entry [OF d that] scd_sound_cong [of "es ! i" v vol] low old_i [OF that] by auto
  have sound_new: "scd_sound v e"
    using en u scd_unit_blocksD(5) [OF u(1) u(2)] by (auto simp: scd_sound_def scd_blocks_decode_blk new)
  have counts: "\<exists>free. scd_read_counts v = Some \<lparr>vc_files = length (es @ [e]), vc_free = free\<rparr>"
  proof -
    have "scd_bios_free vol (?n + 1) (?s + blocks) \<le> ?V" by (auto simp: scd_bios_free_def Let_def scd_data_end_def)
    moreover have "?n + 1 < 65536" using rm(2) V by presburger
    ultimately have "scd_read_counts v = Some \<lparr>vc_files = ?n + 1, vc_free = scd_bios_free vol (?n + 1) (?s + blocks)\<rparr>"
      unfolding v_def scd_injected_def using b(1) V rm(1) u(2) by (intro scd_put_counts_read) simp_all
    then show ?thesis by simp
  qed
  show "scd_dir v (es @ [e])"
    unfolding scd_dir_def
  proof (intro conjI)
    show "\<forall>i < length (es @ [e]). scd_read_slot v i = Some ((es @ [e]) ! i) \<and>
        de_start ((es @ [e]) ! i) = scd_next (take i (es @ [e])) \<and> scd_sound v ((es @ [e]) ! i)"
      using slot_old slot_new sound_old sound_new scd_dir_entry [OF d] en(1)
      by (auto simp: nth_append less_Suc_eq)
    show "scd_next (es @ [e]) + scd_held (length (es @ [e])) \<le> scd_data_end v (length (es @ [e]))"
      using rm(1) by (simp add: scd_next_snoc en sel scd_data_end_def)
  qed (use b(1) sel(1) counts in simp_all)
  have "scd_save_of (scd_data v) x = scd_save_of (scd_data vol) x" if "x \<in> set es" for x
  proof -
    obtain i where i: "i < ?n" "es ! i = x" using \<open>x \<in> set es\<close> by (metis in_set_conv_nth)
    show ?thesis
    proof (rule scd_save_cong)
      fix c assume "c < de_start x + de_blocks x"
      then show "scd_blk (scd_data v) c = scd_blk (scd_data vol) c" using low old_i [OF i(1)] i(2) by simp
    qed
  qed
  moreover have "scd_save_of (scd_data v) e = scd_unit_save unit blocks"
    using en by (auto simp: scd_save_of_def scd_unit_save_def new intro!: nth_equalityI)
  ultimately show "scd_saves v (es @ [e]) = scd_saves vol es @ [scd_unit_save unit blocks]"
    by (simp add: scd_saves_def)
qed

section \<open>Deleting\<close>

lemma scd_entry_raw: "scd_slot_entry slot b = Some e \<Longrightarrow> scd_entry_of (de_raw e) 0 = e"
proof -
  have "memcpy (\<lambda>_. 0) 0 (memcpy (\<lambda>_. 0) 0 m p 16) 0 16 = memcpy (\<lambda>_. 0) 0 m p 16" for m :: mem and p
    by (rule ext) (simp add: memcpy_apply)
  then have "scd_entry_of (de_raw (scd_entry_of m p)) 0 = scd_entry_of m p" for m p
    by (simp add: scd_entry_of_def Let_def ENTRY_SIZE_def)
  then show "scd_slot_entry slot b = Some e \<Longrightarrow> ?thesis" by (auto simp: scd_slot_entry_def split: option.splits)
qed

text \<open>An entry moved down.\<close>

definition scd_shift :: "nat \<Rightarrow> dir_entry \<Rightarrow> dir_entry" where
  "scd_shift gap e = scd_entry_of (sigil_write_be16 (de_raw e) 12 (of_nat (de_start e - gap))) 0"

lemma scd_shift_sel:
  assumes "scd_entry_of (de_raw e) 0 = e" "de_start e < 65536"
  shows "de_start (scd_shift gap e) = de_start e - gap" "de_blocks (scd_shift gap e) = de_blocks e"
    "de_protect (scd_shift gap e) = de_protect e" "bytes_at (de_raw (scd_shift gap e)) 0 12 = bytes_at (de_raw e) 0 12"
proof -
  have "de_start e - gap < 65536" using assms(2) by simp
  then have s: "scd_shift gap e = e\<lparr>de_raw := de_raw (scd_shift gap e), de_start := de_start e - gap\<rparr>"
    unfolding scd_shift_def using scd_raw_write_start [of "de_start e - gap" "de_raw e"] assms(1) by simp
  then show "de_start (scd_shift gap e) = de_start e - gap" "de_blocks (scd_shift gap e) = de_blocks e"
    "de_protect (scd_shift gap e) = de_protect e" by (metis dir_entry.select_convs dir_entry.surjective dir_entry.update_convs)+
  show "bytes_at (de_raw (scd_shift gap e)) 0 12 = bytes_at (de_raw e) 0 12"
    by (rule bytes_at_cong) (simp add: scd_shift_def scd_entry_of_def Let_def ENTRY_SIZE_def memcpy_apply write_be16_apply)
qed

text \<open>The volume after entries \<open>k + 1\<close> to \<open>m - 1\<close> have moved down.\<close>

definition scd_moved :: "sigil_segacd_volume \<Rightarrow> dir_entry list \<Rightarrow> nat \<Rightarrow> nat \<Rightarrow> sigil_segacd_volume \<Rightarrow> bool" where
  "scd_moved vol es k m w \<longleftrightarrow>
     w = vol\<lparr>scd_data := scd_data w\<rparr> \<and>
     (\<forall>b < de_start (es ! k). scd_blk (scd_data w) b = scd_blk (scd_data vol) b) \<and>
     (\<forall>b. de_start (es ! k) \<le> b \<longrightarrow> b + de_blocks (es ! k) < scd_next (take m es) \<longrightarrow>
        scd_blk (scd_data w) b = scd_blk (scd_data vol) (b + de_blocks (es ! k))) \<and>
     (\<forall>b. scd_next (take m es) \<le> b \<longrightarrow> b < scd_next es \<longrightarrow> scd_blk (scd_data w) b = scd_blk (scd_data vol) b) \<and>
     (\<forall>i < k. scd_read_slot w i = Some (es ! i)) \<and>
     (\<forall>i. k \<le> i \<longrightarrow> i + 1 < m \<longrightarrow> scd_read_slot w i = Some (scd_shift (de_blocks (es ! k)) (es ! (i + 1))))"

lemma scd_next_mono: "i \<le> j \<Longrightarrow> j \<le> length es \<Longrightarrow> scd_next (take i es) \<le> scd_next (take j es)"
proof -
  assume "i \<le> j" "j \<le> length es"
  then have "take j es = take i es @ take (j - i) (drop i es)" by (metis le_add_diff_inverse take_add)
  then show ?thesis by (simp add: scd_next_def)
qed

lemma scd_next_Suc: "i < length es \<Longrightarrow> scd_next (take (Suc i) es) = scd_next (take i es) + de_blocks (es ! i)"
  by (simp add: take_Suc_conv_app_nth scd_next_snoc)

lemma scd_moved_step:
  assumes d: "scd_dir vol es" and k: "k < m" "m < length es" and w: "scd_moved vol es k m w"
  shows "scd_moved vol es k (Suc m) (scd_delete_move es (de_blocks (es ! k)) m w)"
proof -
  let ?g = "de_blocks (es ! k)" and ?e = "es ! m" and ?V = "scd_volume_blocks vol"
  let ?x = "scd_next (take m es)"
  note bd = scd_dir_bounds [OF d]
  have st: "de_start ?e = ?x" "de_start (es ! k) = scd_next (take k es)"
    using scd_dir_entry [OF d] k by simp_all
  have kx: "scd_next (take k es) + ?g \<le> ?x"
    using scd_next_Suc [of k es] scd_next_mono [of "Suc k" m es] k by simp
  have x': "scd_next (take (Suc m) es) = ?x + de_blocks ?e" using scd_next_Suc [OF k(2)] .
  have xe: "?x + de_blocks ?e \<le> scd_next es" using scd_next_take [OF k(2)] .
  have wvol: "w = vol\<lparr>scd_data := scd_data w\<rparr>"
    and low: "\<And>b. b < scd_next (take k es) \<Longrightarrow> scd_blk (scd_data w) b = scd_blk (scd_data vol) b"
    and mid: "\<And>b. scd_next (take k es) \<le> b \<Longrightarrow> b + ?g < ?x \<Longrightarrow> scd_blk (scd_data w) b = scd_blk (scd_data vol) (b + ?g)"
    and high: "\<And>b. ?x \<le> b \<Longrightarrow> b < scd_next es \<Longrightarrow> scd_blk (scd_data w) b = scd_blk (scd_data vol) b"
    and kept: "\<And>i. i < k \<Longrightarrow> scd_read_slot w i = Some (es ! i)"
    and shifted: "\<And>i. k \<le> i \<Longrightarrow> i + 1 < m \<Longrightarrow> scd_read_slot w i = Some (scd_shift ?g (es ! (i + 1)))"
    using w unfolding scd_moved_def st by blast+
  define w1 where "w1 = w\<lparr>scd_data := memcpy (scd_data w) ((?x - ?g) * 64) (scd_data w) (?x * 64) (de_blocks ?e * 64)\<rparr>"
  let ?raw = "sigil_write_be16 (de_raw ?e) 12 (of_nat (?x - ?g))"
  define v where "v = scd_write_slot w1 (m - 1) ?raw"
  have v: "scd_delete_move es ?g m w = v"
    by (simp add: v_def scd_delete_move_def Let_def st SEGACD_BLOCK_SIZE_def ENTRY_START_def w1_def)
  have at: "scd_slot_at w i = scd_slot_at vol i" "scd_volume_blocks w = ?V" for i by (subst wvol, simp)+
  have at1: "scd_slot_at w1 i = scd_slot_at vol i" "scd_volume_blocks w1 = ?V" for i by (simp_all add: w1_def at)
  have b1: "scd_blk (scd_data w1) b = (if ?x - ?g \<le> b \<and> b < ?x - ?g + de_blocks ?e then scd_blk (scd_data w) (b + ?g)
      else scd_blk (scd_data w) b)" for b
  proof -
    have "bytes_at (scd_data w) (?x * 64 + (b - (?x - ?g)) * 64) 64 = scd_blk (scd_data w) (b + ?g)" if "?x - ?g \<le> b"
    proof -
      have "?x * 64 + (b - (?x - ?g)) * 64 = (b + ?g) * 64" using that kx by (simp add: diff_mult_distrib)
      then show ?thesis by (simp only: scd_blk_def)
    qed
    then show ?thesis by (simp add: scd_blk_memcpy w1_def)
  qed
  have slots: "scd_next es \<le> scd_slot_at vol i \<and> i div 2 + 2 \<le> ?V" if "i < length es" for i using bd(5) [OF that] by blast
  have r1: "scd_read_slot w1 i = scd_read_slot w i" if "i < length es" for i
  proof -
    have "\<not> (?x - ?g \<le> scd_slot_at vol i \<and> scd_slot_at vol i < ?x - ?g + de_blocks ?e)"
      using slots [OF that] kx xe by linarith
    then show ?thesis unfolding scd_read_slot_blk at at1 b1 by (subst if_not_P) (assumption, rule refl)
  qed
  have bv: "scd_blk (scd_data v) b = scd_blk (scd_data w1) b" if "b < scd_next es" for b
  proof -
    have "b \<noteq> scd_slot_at vol (m - 1)" using slots [of "m - 1"] that k by linarith
    then show ?thesis by (simp add: v_def scd_write_slot_blk at1)
  qed
  have wv: "v = vol\<lparr>scd_data := scd_data v\<rparr>" using scd_write_slot_vol [of w1 "m - 1" ?raw] wvol
    by (metis v_def w1_def sigil_segacd_volume.surjective sigil_segacd_volume.update_convs(1))
  have lo: "scd_blk (scd_data v) b = scd_blk (scd_data w) b" if "b < ?x - ?g" for b
    using bv [of b] b1 [of b] that xe by (simp add: not_le)
  have md: "scd_blk (scd_data v) b = scd_blk (scd_data w) (b + ?g)" if "?x - ?g \<le> b" "b + ?g < ?x + de_blocks ?e" for b
  proof -
    have "b < ?x - ?g + de_blocks ?e" "b < scd_next es" using that xe kx by linarith+
    then show ?thesis using bv [of b] b1 [of b] that(1) by simp
  qed
  have hi: "scd_blk (scd_data v) b = scd_blk (scd_data w) b" if "?x - ?g + de_blocks ?e \<le> b" "b < scd_next es" for b
    using bv [of b] b1 [of b] that by (simp add: not_less)
  have n1: "scd_blk (scd_data v) b = scd_blk (scd_data vol) b" if "b < de_start (es ! k)" for b
    using low [of b] lo [of b] that kx st by simp
  have n2: "scd_blk (scd_data v) b = scd_blk (scd_data vol) (b + ?g)"
    if "de_start (es ! k) \<le> b" "b + ?g < scd_next (take (Suc m) es)" for b
  proof (cases "b + ?g < ?x")
    case True
    then show ?thesis using mid [of b] lo [of b] that st by simp
  next
    case False
    then show ?thesis using high [of "b + ?g"] md [of b] that xe x' st by simp
  qed
  have n3: "scd_blk (scd_data v) b = scd_blk (scd_data vol) b" if "scd_next (take (Suc m) es) \<le> b" "b < scd_next es" for b
    using high [of b] hi [of b] that x' by simp
  have before: "scd_read_slot v i = Some x" if "i < m - 1" "scd_read_slot w i = Some x" for i x
    unfolding v_def
  proof (rule scd_write_slot_before [OF that(1)])
    show "(m - 1) div 2 + 2 \<le> scd_volume_blocks w1" using slots [of "m - 1"] k at1 by simp
    show "scd_read_slot w1 i = Some x" using r1 [of i] that k by simp
  qed
  have n4: "scd_read_slot v i = Some (es ! i)" if "i < k" for i
    using that k kept by (intro before) auto
  have n5: "scd_read_slot v i = Some (scd_shift ?g (es ! (i + 1)))" if "k \<le> i" "i + 1 < Suc m" for i
  proof (cases "i + 1 < m")
    case True
    then show ?thesis using that shifted by (intro before) auto
  next
    case False
    then have "i = m - 1" "i + 1 = m" using that by simp_all
    then show ?thesis using scd_write_slot_same [of w1 "m - 1" ?raw] by (simp add: scd_shift_def st v_def)
  qed
  show ?thesis unfolding v scd_moved_def using wv n1 n2 n3 n4 n5 by blast
qed

lemma scd_moved_all:
  assumes d: "scd_dir vol es" and k: "k < length es" and m: "k < m" "m \<le> length es"
  shows "scd_moved vol es k m (fold (scd_delete_move es (de_blocks (es ! k))) [k + 1..<m] vol)"
  using m
proof (induction m)
  case (Suc m)
  show ?case
  proof (cases "k = m")
    case True
    have "scd_moved vol es m (Suc m) vol"
      using scd_dir_entry [OF d] Suc.prems True by (auto simp: scd_moved_def scd_next_Suc)
    then show ?thesis using True by simp
  next
    case False
    then have "k < m" using Suc.prems by simp
    moreover have "[k + 1..<Suc m] = [k + 1..<m] @ [m]" using \<open>k < m\<close> by simp
    ultimately show ?thesis using scd_moved_step [OF d _ _ Suc.IH] Suc.prems by simp
  qed
qed simp

lemma scd_blk_clear: "scd_blk (memset d (x * 64) v 64) b = (if b = x then replicate 64 v else scd_blk d b)"
  using scd_blk_memset [of d x v 1 b] by auto

text \<open>The volume a delete leaves.\<close>

definition scd_deleted :: "sigil_segacd_volume \<Rightarrow> dir_entry list \<Rightarrow> nat \<Rightarrow> sigil_segacd_volume" where
  "scd_deleted vol es k =
     (let gap = de_blocks (es ! k); last1 = length es - 1; end1 = scd_next es;
          w = fold (scd_delete_move es gap) [k + 1..<length es] vol;
          w = w\<lparr>scd_data := memset (scd_data w) ((end1 - gap) * 64) 0 (gap * 64)\<rparr>;
          w = (if odd last1 then scd_write_slot w last1 (\<lambda>_. 0)
               else w\<lparr>scd_data := memset (scd_data w) (scd_slot_at w last1 * 64) 0 64\<rparr>)
      in scd_put_counts w (scd_bios_free vol last1 (end1 - gap)) last1)"

definition scd_without :: "dir_entry list \<Rightarrow> nat \<Rightarrow> dir_entry list" where
  "scd_without es k = take k es @ map (scd_shift (de_blocks (es ! k))) (drop (Suc k) es)"

lemma length_scd_without: "k < length es \<Longrightarrow> length (scd_without es k) = length es - 1"
  by (simp add: scd_without_def)

lemma scd_without_nth: "k < length es \<Longrightarrow> i + 1 < length es \<Longrightarrow>
    scd_without es k ! i = (if i < k then es ! i else scd_shift (de_blocks (es ! k)) (es ! (i + 1)))"
  by (simp add: scd_without_def nth_append)

lemma scd_raw_ok: "scd_dir vol es \<Longrightarrow> i < length es \<Longrightarrow> scd_entry_of (de_raw (es ! i)) 0 = es ! i"
  using scd_dir_entry [of vol es i] scd_entry_raw unfolding scd_read_slot_blk by blast

lemma scd_dir_start: "scd_dir vol es \<Longrightarrow> i < length es \<Longrightarrow> de_start (es ! i) < 65536"
  using scd_dir_bounds(1,3) [of vol es] scd_dir_bounds(4) [of vol es i] scd_blocks_range [of vol] by simp

lemma scd_shift_nth:
  assumes "scd_dir vol es" "i < length es"
  shows "de_start (scd_shift g (es ! i)) = de_start (es ! i) - g" "de_blocks (scd_shift g (es ! i)) = de_blocks (es ! i)"
    "de_protect (scd_shift g (es ! i)) = de_protect (es ! i)"
    "bytes_at (de_raw (scd_shift g (es ! i))) 0 12 = bytes_at (de_raw (es ! i)) 0 12"
  using scd_shift_sel [OF scd_raw_ok [OF assms] scd_dir_start [OF assms]] by blast+

lemma scd_next_without:
  assumes d: "scd_dir vol es" and k: "k < length es" and i: "i < length es"
  shows "scd_next (take i (scd_without es k)) =
    (if i \<le> k then scd_next (take i es) else scd_next (take (i + 1) es) - de_blocks (es ! k))"
proof -
  have "de_blocks (scd_shift g e) = de_blocks e" if "e \<in> set es" for e g
    using that scd_shift_nth(2) [OF d] by (metis in_set_conv_nth)
  then have m: "map de_blocks (map (scd_shift g) xs) = map de_blocks xs" if "set xs \<subseteq> set es" for xs g
    using that by auto
  show ?thesis
  proof (cases "i \<le> k")
    case True
    then show ?thesis using k by (simp add: scd_without_def)
  next
    case False
    let ?t = "take (i - k) (drop (Suc k) es)"
    have "set ?t \<subseteq> set es" by (meson set_take_subset set_drop_subset subset_trans)
    have "take i (scd_without es k) = take k es @ map (scd_shift (de_blocks (es ! k))) ?t"
      using False k by (simp add: scd_without_def take_map)
    moreover have "take (i + 1) es = take k es @ es ! k # ?t"
    proof -
      have "i + 1 = Suc k + (i - k)" using False by simp
      then have "take (i + 1) es = take (Suc k) es @ take (i - k) (drop (Suc k) es)" by (metis take_add)
      then show ?thesis using k by (simp add: take_Suc_conv_app_nth)
    qed
    ultimately show ?thesis using False m [OF \<open>set ?t \<subseteq> set es\<close>] by (simp add: scd_next_def comp_def flip: map_map)
  qed
qed

lemma scd_deleted_blk:
  assumes d: "scd_dir vol es" and k: "k < length es"
  defines "v \<equiv> scd_deleted vol es k"
  shows "scd_size v = scd_size vol" "scd_volume_blocks v = scd_volume_blocks vol" "scd_data_end v i = scd_data_end vol i"
    and "b + de_blocks (es ! k) < scd_next es \<Longrightarrow>
      scd_blk (scd_data v) b = scd_blk (scd_data vol) (if b < de_start (es ! k) then b else b + de_blocks (es ! k))"
    and "i + 1 < length es \<Longrightarrow> scd_read_slot v i = Some (scd_without es k ! i)"
    and "scd_read_counts v = Some \<lparr>vc_files = length es - 1,
      vc_free = scd_bios_free vol (length es - 1) (scd_next es - de_blocks (es ! k))\<rparr>"
proof -
  let ?n = "length es" and ?g = "de_blocks (es ! k)" and ?l = "length es - 1" and ?V = "scd_volume_blocks vol"
  define w where "w = fold (scd_delete_move es ?g) [k + 1..<?n] vol"
  define w2 where "w2 = w\<lparr>scd_data := memset (scd_data w) ((scd_next es - ?g) * 64) 0 (?g * 64)\<rparr>"
  define w3 where "w3 = (if odd ?l then scd_write_slot w2 ?l (\<lambda>_. 0)
               else w2\<lparr>scd_data := memset (scd_data w2) (scd_slot_at w2 ?l * 64) 0 64\<rparr>)"
  have v: "v = scd_put_counts w3 (scd_bios_free vol ?l (scd_next es - ?g)) ?l"
    unfolding v_def scd_deleted_def Let_def w_def [symmetric] w2_def [symmetric] w3_def [symmetric] ..
  have mv: "scd_moved vol es k ?n w" unfolding w_def by (rule scd_moved_all [OF d k]) (use k in simp_all)
  have wv: "w = vol\<lparr>scd_data := scd_data w\<rparr>" using mv unfolding scd_moved_def by blast
  have sel: "scd_size w = scd_size vol" "scd_volume_blocks w = ?V" "scd_data_end w i = scd_data_end vol i"
    "scd_slot_at w i = scd_slot_at vol i" for i
    by (subst wv, simp)+
  have sel3: "scd_size w3 = scd_size vol" "scd_volume_blocks w3 = ?V" "scd_data_end w3 i = scd_data_end vol i"
    "scd_slot_at w3 i = scd_slot_at vol i" "scd_slot_at w2 i = scd_slot_at vol i" "scd_volume_blocks w2 = ?V" for i
    by (simp_all add: w3_def w2_def sel)
  show "scd_size v = scd_size vol" "scd_volume_blocks v = ?V" "scd_data_end v i = scd_data_end vol i" for i
    by (simp_all add: v sel3)
  note bd = scd_dir_bounds [OF d]
  have sz3: "scd_volume_size_valid (scd_size w3)" using bd(1) sel3 by simp
  have l: "?l < ?n" using k by simp
  have gk: "de_start (es ! k) + ?g \<le> scd_next es" by (rule bd(4) [OF k])
  have w2b: "scd_blk (scd_data w2) b = scd_blk (scd_data w) b" if "b + ?g < scd_next es \<or> scd_next es \<le> b" for b
    unfolding w2_def using that gk by (auto simp: scd_blk_memset)
  have w3b: "scd_blk (scd_data w3) b = scd_blk (scd_data w2) b" if "b \<noteq> scd_slot_at vol ?l" for b
    using that by (cases "odd ?l") (simp_all add: w3_def scd_write_slot_blk sel3 scd_blk_clear del: even_diff_nat even_Suc)
  have vb: "scd_blk (scd_data v) b = scd_blk (scd_data w3) b" if "b + 1 < ?V" for b
    unfolding v by (rule scd_put_counts_blk [OF sz3]) (use that sel3 in simp)
  show "scd_blk (scd_data v) b = scd_blk (scd_data vol) (if b < de_start (es ! k) then b else b + ?g)"
    if "b + ?g < scd_next es" for b
  proof -
    have "b + 1 < ?V" "b \<noteq> scd_slot_at vol ?l" using bd(3) bd(5) [OF l] that by linarith+
    then have "scd_blk (scd_data v) b = scd_blk (scd_data w) b" using vb w3b w2b that by simp
    then show ?thesis using mv that unfolding scd_moved_def by auto
  qed
  show "scd_read_slot v i = Some (scd_without es k ! i)" if i: "i + 1 < ?n" for i
  proof -
    have i': "i < ?n" using i by simp
    have r: "scd_read_slot w i = Some (scd_without es k ! i)"
      using mv i k unfolding scd_moved_def scd_without_nth [OF k i] by auto
    have r2: "scd_read_slot w2 i = scd_read_slot w i"
      using bd(5) [OF i'] w2b [of "scd_slot_at vol i"] by (simp add: scd_read_slot_blk sel sel3)
    have r3: "scd_read_slot w3 i = Some (scd_without es k ! i)"
    proof (cases "odd ?l")
      case True
      have "?l div 2 + 2 \<le> scd_volume_blocks w2" using bd(5) [OF l] sel3 by simp
      then show ?thesis using True r r2 i by (simp add: w3_def scd_write_slot_before)
    next
      case False
      then have "i div 2 \<noteq> ?l div 2" using i by presburger
      then have "scd_slot_at vol i \<noteq> scd_slot_at vol ?l" using bd(5) [OF i'] bd(5) [OF l] scd_slot_at_eq [of i vol ?l] by simp
      then show ?thesis using r r2 w3b [of "scd_slot_at vol i"] by (simp add: scd_read_slot_blk sel3)
    qed
    have "scd_read_slot v i = scd_read_slot w3 i"
      using vb [of "scd_slot_at vol i"] bd(5) [OF i'] by (simp add: scd_read_slot_blk v sel3)
    then show ?thesis using r3 by simp
  qed
  have "scd_dir_blocks ?l \<le> scd_dir_blocks ?n" by (simp add: scd_dir_blocks_def div_le_mono)
  then have "scd_dir_blocks ?l + 2 \<le> ?V" using bd(2) by linarith
  moreover have "?l < 65536" using bd(2) scd_blocks_range [OF bd(1)] unfolding scd_dir_blocks_def by linarith
  moreover have "scd_bios_free vol ?l (scd_next es - ?g) < 65536"
    using scd_blocks_range [OF bd(1)] by (auto simp: scd_bios_free_def Let_def scd_data_end_def)
  ultimately show "scd_read_counts v = Some \<lparr>vc_files = ?l, vc_free = scd_bios_free vol ?l (scd_next es - ?g)\<rparr>"
    unfolding v using sz3 sel3 by (intro scd_put_counts_read) simp_all
qed

lemma scd_deleted_dir:
  assumes d: "scd_dir vol es" and k: "k < length es"
  defines "v \<equiv> scd_deleted vol es k"
  shows "scd_dir v (scd_without es k)"
    and "scd_saves v (scd_without es k) = take k (scd_saves vol es) @ drop (Suc k) (scd_saves vol es)"
proof -
  let ?n = "length es" and ?g = "de_blocks (es ! k)" and ?ds = "scd_without es k"
  note del = scd_deleted_blk [OF d k, folded v_def] and bd = scd_dir_bounds [OF d] and len = length_scd_without [OF k]
  have nk: "de_start (es ! k) = scd_next (take k es)" "1 \<le> ?g"
    using scd_dir_entry [OF d k] by (simp_all add: scd_sound_def)
  have at: "de_start (?ds ! i) = scd_next (take i ?ds) \<and> scd_save_of (scd_data v) (?ds ! i) = scd_save_of (scd_data vol) (es ! (if i < k then i else i + 1))
      \<and> scd_sound v (?ds ! i)" if i: "i + 1 < ?n" for i
  proof (cases "i < k")
    case True
    have e: "?ds ! i = es ! i" using scd_without_nth [OF k i] True by simp
    have below: "de_start (es ! i) + de_blocks (es ! i) \<le> de_start (es ! k)"
      using scd_next_Suc [of i es] scd_next_mono [of "Suc i" k es] scd_dir_entry [OF d, of i] True k nk by simp
    have same: "scd_blk (scd_data v) b = scd_blk (scd_data vol) b" if "b < de_start (es ! i) + de_blocks (es ! i)" for b
      using del(4) [of b] that below bd(4) [OF k] by simp
    have "scd_save_of (scd_data v) (es ! i) = scd_save_of (scd_data vol) (es ! i)"
      by (rule scd_save_cong) (use same in simp)
    moreover have "scd_sound v (es ! i)" using scd_dir_entry [OF d, of i] i scd_sound_cong [of "es ! i" v vol] same by auto
    ultimately show ?thesis using True e scd_dir_entry [OF d, of i] scd_next_without [OF d k, of i] k by simp
  next
    case False
    define e where "e = es ! (i + 1)"
    have sh: "?ds ! i = scd_shift ?g e" using scd_without_nth [OF k i] False by (simp add: e_def)
    note s = scd_shift_nth [OF d i, of ?g, folded e_def] and be = bd(4) [OF i, folded e_def]
    have st: "de_start e = scd_next (take (i + 1) es)" using scd_dir_entry [OF d i] by (simp add: e_def)
    have kg: "de_start (es ! k) + ?g \<le> de_start e"
      using scd_next_Suc [OF k] scd_next_mono [of "Suc k" "i + 1" es] False i st nk by simp
    have blk: "scd_blk (scd_data v) (de_start e - ?g + j) = scd_blk (scd_data vol) (de_start e + j)" if "j < de_blocks e" for j
    proof -
      have x: "de_start e - ?g + j + ?g = de_start e + j" "\<not> de_start e - ?g + j < de_start (es ! k)" using kg by linarith+
      have "de_start e - ?g + j + ?g < scd_next es" unfolding x(1) using that be by linarith
      from del(4) [OF this] show ?thesis unfolding x(1) if_not_P [OF x(2)] .
    qed
    have "map (scd_blk (scd_data v)) [de_start e - ?g..<de_start e - ?g + de_blocks e] =
        map (scd_blk (scd_data vol)) [de_start e..<de_start e + de_blocks e]"
      by (rule nth_equalityI) (simp_all add: blk)
    then have "scd_save_of (scd_data v) (?ds ! i) = scd_save_of (scd_data vol) e" by (simp add: sh scd_save_of_def s)
    moreover have "scd_sound v (?ds ! i)"
      using conjunct2 [OF conjunct2 [OF scd_dir_entry [OF d i, folded e_def]]]
      by (simp add: scd_sound_def scd_blocks_decode_blk sh s blk)
    moreover have "de_start (?ds ! i) = scd_next (take i ?ds)"
    proof (cases "i = k")
      case True
      then show ?thesis using scd_next_without [OF d k, of i] i sh s st scd_next_Suc [OF k] by simp
    next
      case f: False
      then show ?thesis using scd_next_without [OF d k, of i] False i sh s st by simp
    qed
    ultimately show ?thesis using False by (simp add: e_def)
  qed
  have total: "scd_next ?ds = scd_next es - ?g"
  proof -
    have whole: "scd_next ?ds = scd_next (take (?n - 1) ?ds)" by (simp add: len)
    have n: "?n - 1 < ?n" "?n - 1 + 1 = ?n" using k by simp_all
    show ?thesis
    proof (cases "?n - 1 \<le> k")
      case True
      then have "k = ?n - 1" using k by linarith
      then show ?thesis using whole scd_next_without [OF d k n(1)] True scd_next_Suc [OF k] n(2) by simp
    next
      case False
      show ?thesis unfolding whole scd_next_without [OF d k n(1)] if_not_P [OF False] n(2) by simp
    qed
  qed
  show "scd_dir v ?ds"
    unfolding scd_dir_def
  proof (intro conjI)
    show "scd_volume_size_valid (scd_size v)" using bd(1) del(1) by simp
    show "\<exists>free. scd_read_counts v = Some \<lparr>vc_files = length ?ds, vc_free = free\<rparr>" using del(6) len by simp
    show "\<forall>i<length ?ds. scd_read_slot v i = Some (?ds ! i) \<and> de_start (?ds ! i) = scd_next (take i ?ds) \<and> scd_sound v (?ds ! i)"
      using at del(5) by (simp add: len)
    have "scd_dir_blocks (?n - 1) \<le> scd_dir_blocks ?n" by (simp add: scd_dir_blocks_def div_le_mono)
    moreover have "scd_next es - ?g + 1 \<le> scd_next es" using nk(2) bd(4) [OF k] by linarith
    moreover have "scd_held (?n - 1) \<le> 1" by (simp add: scd_held_def)
    ultimately show "scd_next ?ds + scd_held (length ?ds) \<le> scd_data_end v (length ?ds)"
      using bd(3) unfolding total len scd_data_end_def del(2) by linarith
  qed
  show "scd_saves v ?ds = take k (scd_saves vol es) @ drop (Suc k) (scd_saves vol es)"
    by (rule nth_equalityI) (use k len at in \<open>auto simp: scd_saves_def nth_append\<close>)
qed

lemma scd_delete_cases:
  "sigil_segacd_delete vol first_block =
     (case scd_read_directory vol of
        Inl rc \<Rightarrow> (rc, vol)
      | Inr (c, es) \<Rightarrow>
          (case find (\<lambda>k. de_start (es ! k) = first_block) [0..<length es] of
             None \<Rightarrow> (SIGIL_ERR_INVALID_ARG, vol)
           | Some k \<Rightarrow> (SIGIL_OK, scd_deleted vol es k)))"
proof (cases "scd_read_directory vol")
  case (Inr r)
  then obtain c es where r: "r = (c, es)" by (cases r)
  have d: "scd_dir vol es" "vc_files c = length es" using Inr r by (simp_all add: scd_read_directory_iff)
  show ?thesis
  proof (cases "find (\<lambda>k. de_start (es ! k) = first_block) [0..<length es]")
    case None
    then show ?thesis using Inr r d by (simp add: sigil_segacd_delete_def)
  next
    case (Some k)
    then have k: "k < length es" by (auto simp: find_Some_iff)
    have e: "de_start (es ! (length es - 1)) + de_blocks (es ! (length es - 1)) = scd_next es"
      using scd_dir_entry [OF d(1), of "length es - 1"] scd_next_Suc [of "length es - 1" es] k by simp
    have at: "scd_slot_block w i = scd_slot_at w i * 64" for w i
      by (simp add: scd_slot_block_def scd_slot_at_def SEGACD_BLOCK_SIZE_def)
    have "scd_moved vol es k (length es) (fold (scd_delete_move es (de_blocks (es ! k))) [k + 1..<length es] vol)"
      by (rule scd_moved_all [OF d(1) k]) (use k in simp_all)
    then have w: "fold (scd_delete_move es (de_blocks (es ! k))) [k + 1..<length es] vol =
        vol\<lparr>scd_data := scd_data (fold (scd_delete_move es (de_blocks (es ! k))) [k + 1..<length es] vol)\<rparr>"
      unfolding scd_moved_def by blast
    have bf: "scd_bios_free (fold (scd_delete_move es (de_blocks (es ! k))) [k + 1..<length es] vol) = scd_bios_free vol"
      by (subst w, simp)
    show ?thesis unfolding sigil_segacd_delete_def Inr r sum.case prod.case d(2) Some option.case Let_def scd_deleted_def e
        at SEGACD_BLOCK_SIZE_def if_distrib [of scd_bios_free] if_distribR scd_sel scd_write_slot_sel bf if_cancel ..
  qed
qed (simp add: sigil_segacd_delete_def)

end
