(* ===== verification/CardSegacdSpec.thy ===== *)
theory CardSegacdSpec
  imports CardSegacdProofs
begin

text \<open>
  The contract of a Sega CD volume. Seen from outside, a volume is the list of its saves, each its name
  and flag bytes with the blocks stored for it; \<open>scd_abs\<close> reads it. Injecting appends to the list,
  deleting drops from it and formatting empties it, with the errors of the abstract operations.
\<close>

section \<open>The abstract volume\<close>

definition scd_abs :: "sigil_segacd_volume \<Rightarrow> scd_save list option" where
  "scd_abs vol = (case scd_read_directory vol of Inl rc \<Rightarrow> None | Inr (c, es) \<Rightarrow> Some (scd_saves vol es))"

text \<open>The block after the saves, which sit back to back from block 1, and the blocks left for one more:
  two directory entries share a block, and an even count holds one back for the next.\<close>

definition scd_end :: "scd_save list \<Rightarrow> nat" where
  "scd_end S = 1 + sum_list (map (\<lambda>s. length (snd s)) S)"

definition scd_spec_free :: "nat \<Rightarrow> scd_save list \<Rightarrow> nat" where
  "scd_spec_free limit S =
     limit - 1 - (length S + 1) div 2 - scd_end S - (if odd (length S) then 0 else 1)"

definition scd_spec_name :: "scd_save \<Rightarrow> bytes" where
  "scd_spec_name s = take 11 (fst s)"

definition scd_spec_inject :: "nat \<Rightarrow> scd_save \<Rightarrow> scd_save list \<Rightarrow> rc \<times> scd_save list" where
  "scd_spec_inject limit s S =
     (if scd_spec_name s \<in> scd_spec_name ` set S then (SIGIL_ERR_EXISTS, S)
      else if scd_spec_free limit S < length (snd s) + (if odd (length S) then 1 else 0) then (SIGIL_ERR_NO_SPACE, S)
      else (SIGIL_OK, S @ [s]))"

definition scd_spec_delete :: "nat \<Rightarrow> scd_save list \<Rightarrow> rc \<times> scd_save list" where
  "scd_spec_delete first_block S =
     (case find (\<lambda>k. scd_end (take k S) = first_block) [0..<length S] of
        None \<Rightarrow> (SIGIL_ERR_INVALID_ARG, S)
      | Some k \<Rightarrow> (SIGIL_OK, take k S @ drop (Suc k) S))"

section \<open>Reading the abstraction\<close>

lemma scd_absD: "scd_abs vol = Some S \<Longrightarrow> \<exists>es. scd_dir vol es \<and> S = scd_saves vol es \<and>
    scd_read_directory vol = Inr (\<lparr>vc_files = length es, vc_free = scd_bios_free vol (length es) (scd_next es)\<rparr>, es)"
  by (auto simp: scd_abs_def scd_read_directory_iff split: sum.splits)

lemma scd_absI:
  assumes "scd_dir vol es"
  shows "scd_abs vol = Some (scd_saves vol es)"
proof -
  have "\<exists>c. scd_read_directory vol = Inr (c, es)" using assms scd_read_directory_iff [of vol _ es] by simp
  then show ?thesis by (auto simp: scd_abs_def)
qed

lemma length_scd_saves [simp]: "length (scd_saves vol es) = length es"
  by (simp add: scd_saves_def)

lemma scd_end_saves: "scd_end (scd_saves vol es) = scd_next es"
  by (simp add: scd_end_def scd_next_def scd_saves_def scd_save_of_def comp_def)

lemma scd_take_saves: "take k (scd_saves vol es) = scd_saves vol (take k es)"
  by (simp add: scd_saves_def take_map)

lemma scd_saves_nth: "i < length es \<Longrightarrow> scd_saves vol es ! i = scd_save_of (scd_data vol) (es ! i)"
  by (simp add: scd_saves_def)

lemma scd_spec_free_eq: "scd_spec_free (scd_volume_blocks vol) (scd_saves vol es) = scd_bios_free vol (length es) (scd_next es)"
  by (simp add: scd_spec_free_def scd_bios_free_def Let_def scd_end_saves scd_data_end_def scd_dir_blocks_def scd_held_def)

lemma mem_eq_bytes: "mem_eq a p b q n \<longleftrightarrow> bytes_at a p n = bytes_at b q n"
  by (auto simp: mem_eq_def list_eq_iff_nth_eq list_all_iff)

lemma scd_name_of_save: "scd_spec_name (scd_save_of m e) = bytes_at (de_raw e) 0 11"
  by (rule nth_equalityI) (simp_all add: scd_spec_name_def scd_save_of_def)

lemma scd_name_of_unit: "scd_spec_name (scd_unit_save unit n) = bytes_at unit UNIT_NAME 11"
  by (simp add: scd_spec_name_def scd_unit_save_def)

lemma scd_name_taken:
  "(\<exists>e \<in> set es. mem_eq (de_raw e) 0 unit UNIT_NAME SEGACD_NAME_LEN) \<longleftrightarrow>
     scd_spec_name (scd_unit_save unit n) \<in> scd_spec_name ` set (scd_saves vol es)"
  by (auto simp: image_iff mem_eq_bytes scd_saves_def eq_commute scd_name_of_save scd_name_of_unit SEGACD_NAME_LEN_def)

section \<open>Injecting, deleting and formatting\<close>

lemma scd_inject_abs:
  assumes "scd_abs vol = Some S" and "scd_unit_blocks unit len = n" and "n \<noteq> 0"
  shows "\<exists>vol'. sigil_segacd_inject vol unit len =
      (fst (scd_spec_inject (scd_volume_blocks vol) (scd_unit_save unit n) S), vol') \<and>
    scd_abs vol' = Some (snd (scd_spec_inject (scd_volume_blocks vol) (scd_unit_save unit n) S)) \<and>
    scd_volume_blocks vol' = scd_volume_blocks vol"
proof -
  obtain es where es: "scd_dir vol es" "S = scd_saves vol es"
    "scd_read_directory vol = Inr (\<lparr>vc_files = length es, vc_free = scd_bios_free vol (length es) (scd_next es)\<rparr>, es)"
    using scd_absD [OF assms(1)] by blast
  let ?cost = "n + (if odd (length es) then 1 else 0)" and ?free = "scd_bios_free vol (length es) (scd_next es)"
  have cost: "scd_inject_cost n (length es) = ?cost" by (simp add: scd_inject_cost_def)
  have len: "length (snd (scd_unit_save unit n)) = n" by (simp add: scd_unit_save_def)
  note spec = scd_spec_inject_def [of "scd_volume_blocks vol" "scd_unit_save unit n" S, unfolded es(2) length_scd_saves
      scd_spec_free_eq len, folded scd_name_taken]
  show ?thesis
  proof (cases "(\<exists>e \<in> set es. mem_eq (de_raw e) 0 unit UNIT_NAME SEGACD_NAME_LEN) \<or> ?free < ?cost")
    case True
    then show ?thesis using assms es spec by (auto simp: scd_inject_cases cost)
  next
    case False
    let ?v = "scd_injected vol (length es) (scd_next es) unit n"
    have room: "scd_inject_cost n (length es) \<le> ?free" using False cost by simp
    note dir = scd_injected_dir [OF es(1) room assms(2,3)]
    have "sigil_segacd_inject vol unit len = (SIGIL_OK, ?v)" using assms es False by (simp add: scd_inject_cases cost)
    moreover have "scd_abs ?v = Some (S @ [scd_unit_save unit n])" using scd_absI [OF dir(1)] dir(2) es(2) by simp
    moreover have "scd_volume_blocks ?v = scd_volume_blocks vol" by (simp add: scd_injected_def)
    ultimately show ?thesis using False spec es(2) by simp
  qed
qed

lemma scd_delete_abs:
  assumes "scd_abs vol = Some S"
  shows "\<exists>vol'. sigil_segacd_delete vol first_block = (fst (scd_spec_delete first_block S), vol') \<and>
    scd_abs vol' = Some (snd (scd_spec_delete first_block S)) \<and> scd_volume_blocks vol' = scd_volume_blocks vol \<and>
    (fst (scd_spec_delete first_block S) \<noteq> SIGIL_OK \<longrightarrow> vol' = vol)"
proof -
  obtain es where es: "scd_dir vol es" "S = scd_saves vol es"
    "scd_read_directory vol = Inr (\<lparr>vc_files = length es, vc_free = scd_bios_free vol (length es) (scd_next es)\<rparr>, es)"
    using scd_absD [OF assms] by blast
  have find: "find (\<lambda>k. scd_end (take k S) = first_block) [0..<length S] =
      find (\<lambda>k. de_start (es ! k) = first_block) [0..<length es]"
    unfolding es(2) length_scd_saves
    by (rule find_cong) (use scd_dir_entry [OF es(1)] in \<open>simp_all add: scd_take_saves scd_end_saves\<close>)
  note spec = scd_spec_delete_def [of first_block S, unfolded find]
  show ?thesis
  proof (cases "find (\<lambda>k. de_start (es ! k) = first_block) [0..<length es]")
    case None
    then show ?thesis using es(3) assms spec by (simp add: scd_delete_cases)
  next
    case (Some k)
    then have k: "k < length es" by (auto simp: find_Some_iff)
    have "scd_abs (scd_deleted vol es k) = Some (take k S @ drop (Suc k) S)"
      using scd_absI [OF scd_deleted_dir(1) [OF es(1) k]] scd_deleted_dir(2) [OF es(1) k] es(2) by simp
    then show ?thesis
      using es(3) Some spec scd_deleted_blk(2) [OF es(1) k] by (simp add: scd_delete_cases)
  qed
qed

text \<open>The format block of a formatted volume.\<close>

lemma scd_formatted:
  assumes "scd_volume_size_valid siz" "sigil_segacd_volume_format siz st = Inr vol"
  shows "scd_dir vol []" "scd_size vol = siz" "scd_storage vol = st" "scd_other vol = []"
    and "bytes_at (scd_data vol) (scd_format_block vol + 32) 32 = SEGACD_SIGNATURE"
proof -
  define v0 where "v0 = \<lparr>scd_data = (\<lambda>_. 0), scd_size = siz, scd_storage = st, scd_other = [], scd_other_first = False\<rparr>"
  let ?f = "scd_format_block v0"
  let ?m0 = "memcpy (memcpy (\<lambda>_. 0) (?f + FORMAT_VOLUME) (mem_of FORMAT_VOLUME_NAME) 0 SEGACD_NAME_LEN)
      (?f + FORMAT_UNKNOWN) (mem_of FORMAT_UNKNOWN_BYTES) 0 5"
  let ?m1 = "scd_write_count ?m0 (?f + FORMAT_FREE) (scd_bios_free v0 0 1)"
  let ?m2 = "scd_write_count ?m1 (?f + FORMAT_FILES) 0"
  let ?m3 = "memcpy ?m2 (?f + FORMAT_SIGNATURE) (mem_of SEGACD_SIGNATURE) 0 FORMAT_SIGNATURE_LEN"
  have vol: "vol = v0\<lparr>scd_data := ?m3\<rparr>" using assms by (simp add: sigil_segacd_volume_format_def Let_def v0_def)
  then show sel: "scd_size vol = siz" "scd_storage vol = st" "scd_other vol = []" by (simp_all add: v0_def)
  have f: "scd_format_block vol = ?f" unfolding vol by simp
  have V: "128 \<le> scd_volume_blocks vol" "scd_volume_blocks vol \<le> 8192" "scd_volume_blocks v0 = scd_volume_blocks vol"
    using scd_blocks_range [of vol] assms(1) sel by (simp_all add: vol)
  have "scd_bios_free v0 0 1 < 65536" using V by (auto simp: scd_bios_free_def Let_def scd_data_end_def)
  have dat: "scd_data vol = ?m3" by (simp add: vol)
  from \<open>scd_bios_free v0 0 1 < 65536\<close>
  have r1: "scd_read_count (scd_data vol) (scd_format_block vol + FORMAT_FREE) = Some (scd_bios_free v0 0 1)" unfolding dat f
    by (subst scd_read_count_cong [of _ _ ?m1 "?f + FORMAT_FREE"])
      (simp_all add: scd_write_count_out scd_consts memcpy_apply scd_read_write_count)
  have r2: "scd_read_count (scd_data vol) (scd_format_block vol + FORMAT_FILES) = Some 0" unfolding dat f
    by (subst scd_read_count_cong [of _ _ ?m2 "?f + FORMAT_FILES"])
      (simp_all add: scd_consts memcpy_apply scd_read_write_count)
  have "scd_read_counts vol = Some \<lparr>vc_files = 0, vc_free = scd_bios_free v0 0 1\<rparr>"
    unfolding scd_read_counts_def r1 r2 using assms(1) V(1) by (simp add: sel scd_dir_blocks_def)
  then show "scd_dir vol []"
    using assms(1) V(1) by (simp add: scd_dir_def sel scd_held_def scd_data_end_def scd_dir_blocks_def)
  have "length SEGACD_SIGNATURE = 32" by (simp add: SEGACD_SIGNATURE_def str_def)
  then show "bytes_at (scd_data vol) (scd_format_block vol + 32) 32 = SEGACD_SIGNATURE"
    unfolding dat f
    by (intro nth_equalityI) (simp_all add: scd_consts memcpy_apply mem_of_def)
qed

section \<open>Listing\<close>

lemma scd_dir_valid:
  assumes "scd_dir vol es" "i < length es" "vc_files c = length es"
  shows "scd_entry_valid vol c (es ! i)"
  using scd_dir_entry [OF assms(1,2)] scd_dir_bounds(3) [OF assms(1)] scd_dir_bounds(4) [OF assms(1,2)] assms(3)
  by (auto simp: scd_entry_valid_def scd_sound_def scd_next_def scd_data_end_def)

text \<open>\<open>m\<close> more one-block saves fit when their blocks and the directory blocks they fill are free.\<close>

lemma scd_free_slots_loop_iff:
  "slots + m \<le> scd_free_slots_loop left files slots \<longleftrightarrow> m + ((files + m) div 2 - files div 2) \<le> left"
proof (induction left files slots arbitrary: m rule: scd_free_slots_loop.induct)
  case (1 left files slots)
  have half: "(files + 1) div 2 = files div 2 + (if odd files then 1 else 0)" by simp
  show ?case
  proof (cases "scd_slot_cost files \<le> left")
    case True
    note u = scd_free_slots_loop.simps [of left files slots, unfolded if_P [OF True]] and IH = 1 [OF True]
    show ?thesis
    proof (cases m)
      case 0
      then show ?thesis using IH [of 0] u by simp
    next
      case (Suc j)
      have "files + m = files + 1 + j" using Suc by simp
      moreover have "(files + 1) div 2 \<le> (files + 1 + j) div 2" by (simp add: div_le_mono)
      ultimately have e: "m + ((files + m) div 2 - files div 2) = j + ((files + 1 + j) div 2 - (files + 1) div 2) + scd_slot_cost files"
        using Suc half by (auto simp: scd_slot_cost_def)
      have "slots + m = slots + 1 + j" using Suc by simp
      then show ?thesis unfolding u e by (simp only: IH [of j] le_diff_conv2 [OF True])
    qed
  next
    case False
    then have "scd_free_slots_loop left files slots = slots" by (simp add: scd_free_slots_loop.simps)
    moreover have "left < m + ((files + m) div 2 - files div 2)" if "m \<noteq> 0"
    proof -
      have "(files + 1) div 2 \<le> (files + m) div 2" using that by (intro div_le_mono) simp
      then have "(if odd files then 1 else 0) \<le> (files + m) div 2 - files div 2" using half by linarith
      then show ?thesis using False that by (simp add: scd_slot_cost_def split: if_splits)
    qed
    ultimately show ?thesis by (cases "m = 0") auto
  qed
qed

definition scd_spec_entry :: "scd_save list \<Rightarrow> nat \<Rightarrow> sigil_card_entry" where
  "scd_spec_entry S i = \<lparr>ce_name = takeWhile (\<lambda>b. b \<noteq> 0) (scd_spec_name (S ! i)), ce_owner_id = [],
     ce_blocks = length (snd (S ! i)), ce_first_block = scd_end (take i S)\<rparr>"

lemma scd_list_fold:
  assumes d: "scd_dir vol es" and c: "vc_files c = length es" and n: "n \<le> length es"
  shows "fold (scd_list_slot vol c) [0..<n] l = l\<lparr>entries := entries l @ map (scd_spec_entry (scd_saves vol es)) [0..<n]\<rparr>"
  using n
proof (induction n)
  case (Suc n)
  then have n: "n < length es" by simp
  have "\<lparr>ce_name = scd_name_of (de_raw (es ! n)), ce_owner_id = [], ce_blocks = de_blocks (es ! n), ce_first_block = de_start (es ! n)\<rparr>
      = scd_spec_entry (scd_saves vol es) n"
    using scd_dir_entry [OF d n]
    by (simp add: scd_spec_entry_def scd_take_saves scd_end_saves scd_saves_nth [OF n] scd_name_of_save scd_name_of_def
        SEGACD_NAME_LEN_def) (simp add: scd_save_of_def)
  then have "scd_list_slot vol c n l' = l'\<lparr>entries := entries l' @ [scd_spec_entry (scd_saves vol es) n]\<rparr>" for l'
    using scd_dir_entry [OF d n] scd_dir_valid [OF d n c] by (simp add: scd_list_slot_def listing_add_def)
  then show ?case using Suc by simp
qed simp

lemma scd_list_abs:
  assumes "scd_abs vol = Some S"
  shows "\<exists>l. sigil_segacd_list vol = Inr l \<and> entries l = map (scd_spec_entry S) [0..<length S] \<and>
    corrupt_count l = 0 \<and> corrupt_entries l = [] \<and> cl_format l = SIGIL_CARD_FORMAT_SEGACD_BRAM \<and>
    total_blocks l = scd_spec_free (scd_volume_blocks vol) [] \<and> free_blocks l = scd_spec_free (scd_volume_blocks vol) S \<and>
    (\<forall>m. m \<le> free_slots l \<longleftrightarrow>
       m + ((length S + m) div 2 - length S div 2) \<le> scd_spec_free (scd_volume_blocks vol) S)"
proof -
  obtain es where es: "scd_dir vol es" "S = scd_saves vol es"
    "scd_read_directory vol = Inr (\<lparr>vc_files = length es, vc_free = scd_bios_free vol (length es) (scd_next es)\<rparr>, es)"
    using scd_absD [OF assms] by blast
  have none: "scd_bios_free vol 0 1 = scd_spec_free (scd_volume_blocks vol) []"
    using scd_spec_free_eq [of vol "[]"] by (simp add: scd_saves_def)
  have slots: "m \<le> scd_free_slots_loop left files 0 \<longleftrightarrow> m + ((files + m) div 2 - files div 2) \<le> left" for m left files
    using scd_free_slots_loop_iff [of 0 m] by simp
  show ?thesis
    unfolding sigil_segacd_list_def es(3)
    by (simp add: scd_list_fold [OF es(1)] none [simplified] es(2) scd_spec_free_eq scd_count_free_slots_def slots)
qed

section \<open>Units in and out\<close>

lemma concat_blocks: "concat (map (\<lambda>i. bytes_at m (p + i * 64) 64) [0..<n]) = bytes_at m p (n * 64)"
proof (induction n)
  case (Suc n)
  have "Suc n * 64 = n * 64 + 64" by simp
  then show ?case by (simp only: Suc upt_Suc_append map_append concat_append bytes_at_add) (simp add: Suc)
qed (simp add: bytes_at_def)

text \<open>The bytes of the unit that carries a save.\<close>

definition scd_unit_bytes :: "scd_save \<Rightarrow> bytes" where
  "scd_unit_bytes s = UNIT_MAGIC @ fst s @ bytes_at (sigil_write_be16 (\<lambda>_. 0) 0 (of_nat (length (snd s)))) 0 2 @ [0, 0]
     @ concat (snd s)"

lemma length_unit_magic [simp]: "length UNIT_MAGIC = 4"
  by (simp add: UNIT_MAGIC_def str_def)

text \<open>The finder returns the entry that starts at a block.\<close>

lemma scd_find_loop_all:
  assumes "\<forall>i \<in> set is. scd_read_slot vol i = Some (es ! i) \<and> scd_entry_valid vol c (es ! i)"
  shows "scd_find_loop vol c b is = map_option ((!) es) (find (\<lambda>k. de_start (es ! k) = b) is)"
  using assms by (induction "is") auto

lemma scd_find_slot_dir:
  assumes d: "scd_dir vol es"
  shows "scd_find_slot vol b = map_option ((!) es) (find (\<lambda>k. de_start (es ! k) = b) [0..<length es])"
proof -
  obtain free where c: "scd_read_counts vol = Some \<lparr>vc_files = length es, vc_free = free\<rparr>" using d by (auto simp: scd_dir_def)
  have "\<forall>i \<in> set [0..<length es]. scd_read_slot vol i = Some (es ! i) \<and>
      scd_entry_valid vol \<lparr>vc_files = length es, vc_free = free\<rparr> (es ! i)"
    using scd_dir_entry [OF d] scd_dir_valid [OF d] by simp
  from scd_find_loop_all [OF this] show ?thesis by (simp add: scd_find_slot_def c)
qed

lemma scd_start_inj:
  assumes d: "scd_dir vol es" and "i < length es" "j < length es" "de_start (es ! i) = de_start (es ! j)"
  shows "i = j"
proof -
  have "de_start (es ! a) < de_start (es ! b)" if "a < b" "b < length es" for a b
  proof -
    have a: "a < length es" using that by simp
    have "scd_next (take a es) + de_blocks (es ! a) \<le> scd_next (take b es)"
      using scd_next_Suc [OF a] scd_next_mono [of "Suc a" b es] that by simp
    then show ?thesis using scd_dir_entry [OF d a] scd_dir_entry [OF d that(2)] by (simp add: scd_sound_def)
  qed
  then show ?thesis using assms(2-4) by (metis nat_neq_iff)
qed

lemma scd_find_slot_at:
  assumes d: "scd_dir vol es" and k: "k < length es"
  shows "scd_find_slot vol (de_start (es ! k)) = Some (es ! k)"
proof -
  have "find (\<lambda>i. de_start (es ! i) = de_start (es ! k)) [0..<length es] = Some k"
  proof -
    have "de_start (es ! j) \<noteq> de_start (es ! k)" if "j < k" for j
      using scd_start_inj [OF d _ k, of j] that k by auto
    then show ?thesis unfolding find_Some_iff using k by (intro exI [of _ k]) auto
  qed
  then show ?thesis by (simp add: scd_find_slot_dir [OF d])
qed

lemma scd_save_fst: "length (fst (scd_save_of m e)) = 12"
  by (simp add: scd_save_of_def)

lemma scd_extract_at:
  fixes out :: mem
  assumes d: "scd_dir vol es" and k: "k < length es"
  defines "s \<equiv> scd_save_of (scd_data vol) (es ! k)" and "n \<equiv> de_blocks (es ! k)"
  shows "\<exists>out'. sigil_segacd_extract vol (de_start (es ! k)) n out = (SIGIL_OK, out') \<and>
    bytes_at out' 0 (20 + n * 64) = scd_unit_bytes s"
proof -
  let ?e = "es ! k"
  define o1 where "o1 = memset out 0 0 SEGACD_UNIT_HEADER_SIZE"
  define o2 where "o2 = memcpy o1 0 (mem_of UNIT_MAGIC) 0 4"
  define o3 where "o3 = memcpy o2 UNIT_NAME (de_raw ?e) 0 SEGACD_NAME_LEN"
  define o4 where "o4 = o3(UNIT_FLAG := de_raw ?e ENTRY_FLAG)"
  define o5 where "o5 = sigil_write_be16 o4 UNIT_BLOCKS (of_nat n)"
  define o6 where "o6 = memcpy o5 20 (scd_data vol) (de_start ?e * 64) (n * 64)"
  have ex: "sigil_segacd_extract vol (de_start ?e) n out = (SIGIL_OK, o6)"
    by (simp add: sigil_segacd_extract_def scd_find_slot_at [OF d k] n_def Let_def o1_def o2_def o3_def o4_def o5_def o6_def
        SEGACD_UNIT_HEADER_SIZE_def scd_data_block_def SEGACD_BLOCK_SIZE_def)
  have o: "o6 i = (if i < 20 then o5 i else scd_data vol (de_start ?e * 64 + (i - 20)))" if "i < 20 + n * 64" for i
    using that by (simp add: o6_def memcpy_apply)
  note os = o5_def o4_def o3_def o2_def o1_def SEGACD_UNIT_HEADER_SIZE_def UNIT_NAME_def SEGACD_NAME_LEN_def UNIT_FLAG_def
    ENTRY_FLAG_def UNIT_BLOCKS_def memcpy_apply memset_apply write_be16_apply
  have a: "bytes_at o6 0 4 = UNIT_MAGIC"
    by (intro nth_equalityI) (simp_all add: o, simp add: os mem_of_def)
  have b: "bytes_at o6 4 12 = fst s"
  proof (intro nth_equalityI)
    fix i assume "i < length (bytes_at o6 4 12)"
    then have "i < 11 \<or> i = 11" by auto
    then show "bytes_at o6 4 12 ! i = fst s ! i"
      by (auto simp: o, auto simp: os s_def scd_save_of_def)
  qed (simp add: s_def scd_save_of_def)
  have c: "bytes_at o6 16 2 = bytes_at (sigil_write_be16 (\<lambda>_. 0) 0 (of_nat n)) 0 2"
    by (rule bytes_at_cong) (simp add: o, simp add: os)
  have z: "bytes_at o6 18 2 = [0, 0]"
    by (simp add: bytes_at_def upt_rec o, simp add: os)
  have dt: "bytes_at o6 20 (n * 64) = concat (snd s)"
  proof -
    have "bytes_at o6 20 (n * 64) = bytes_at (scd_data vol) (de_start ?e * 64) (n * 64)"
      by (rule bytes_at_cong) (simp add: o)
    also have "\<dots> = concat (map (\<lambda>i. scd_blk (scd_data vol) (de_start ?e + i)) [0..<n])"
      by (simp add: concat_blocks [symmetric] scd_blk_def add_mult_distrib)
    also have "map (\<lambda>i. scd_blk (scd_data vol) (de_start ?e + i)) [0..<n] = snd s"
      by (rule nth_equalityI) (simp_all add: s_def scd_save_of_def n_def)
    finally show ?thesis .
  qed
  have "length (snd s) = n" by (simp add: s_def scd_save_of_def n_def)
  moreover have "20 + n * 64 = 4 + (12 + (2 + (2 + n * 64)))" by simp
  ultimately have "bytes_at o6 0 (20 + n * 64) = scd_unit_bytes s"
    by (simp only: bytes_at_add scd_unit_bytes_def) (simp add: a b c z dt)
  then show ?thesis using ex by blast
qed

lemma length_scd_unit_bytes: "length (scd_unit_bytes (scd_save_of m e)) = 20 + de_blocks e * 64"
  by (simp add: scd_unit_bytes_def scd_save_fst length_concat comp_def) (simp add: scd_save_of_def comp_def sum_list_triv)

lemma scd_unit_bytes_name: "take 11 (drop 4 (scd_unit_bytes (scd_save_of m e))) = bytes_at (de_raw e) 0 11"
  by (simp add: scd_unit_bytes_def scd_save_fst) (simp add: scd_name_of_save [of m e, unfolded scd_spec_name_def, symmetric])

lemma scd_verify_abs:
  assumes "scd_abs vol = Some S" and "scd_unit_blocks unit len \<noteq> 0"
  shows "sigil_segacd_verify vol unit len =
    (if bytes_at unit 0 len \<in> scd_unit_bytes ` set S then SIGIL_OK else SIGIL_ERR_NOT_FOUND)"
proof -
  obtain es where es: "scd_dir vol es" "S = scd_saves vol es" using scd_absD [OF assms(1)] by blast
  obtain free where c: "scd_read_counts vol = Some \<lparr>vc_files = length es, vc_free = free\<rparr>" using es(1) by (auto simp: scd_dir_def)
  define n where "n = scd_unit_blocks unit len"
  have len: "len = 20 + n * 64" using scd_unit_blocksD(1) [OF n_def [symmetric]] assms(2) n_def by simp
  have long: "15 \<le> len" unfolding len by simp
  define hit where "hit i \<longleftrightarrow> (case scd_read_slot vol i of None \<Rightarrow> False
    | Some e \<Rightarrow> mem_eq (de_raw e) 0 unit UNIT_NAME SEGACD_NAME_LEN \<and> de_blocks e = n \<and>
        (let (rc, copy) = sigil_segacd_extract vol (de_start e) n (\<lambda>_. 0) in rc = SIGIL_OK \<and> mem_eq copy 0 unit 0 len))" for i
  have v: "sigil_segacd_verify vol unit len = (if list_ex hit [0..<length es] then SIGIL_OK else SIGIL_ERR_NOT_FOUND)"
  proof -
    have "n \<noteq> 0" using assms(2) n_def by simp
    then show ?thesis
      unfolding sigil_segacd_verify_def Let_def n_def [symmetric] c hit_def [abs_def] by simp
  qed
  have "hit i \<longleftrightarrow> bytes_at unit 0 len = scd_unit_bytes (S ! i)" if i: "i < length es" for i
  proof -
    let ?s = "scd_save_of (scd_data vol) (es ! i)"
    have s: "S ! i = ?s" using i by (simp add: es(2) scd_saves_nth)
    have slot: "scd_read_slot vol i = Some (es ! i)" using scd_dir_entry [OF es(1) i] by simp
    obtain copy where copy: "sigil_segacd_extract vol (de_start (es ! i)) (de_blocks (es ! i)) (\<lambda>_. 0) = (SIGIL_OK, copy)"
      "bytes_at copy 0 (20 + de_blocks (es ! i) * 64) = scd_unit_bytes ?s"
      using scd_extract_at [OF es(1) i, where out = "\<lambda>_. 0"] by blast
    have nm: "mem_eq (de_raw (es ! i)) 0 unit UNIT_NAME SEGACD_NAME_LEN \<and> de_blocks (es ! i) = n"
      if eq: "bytes_at unit 0 len = scd_unit_bytes ?s"
    proof -
      have "20 + de_blocks (es ! i) * 64 = len"
        using arg_cong [OF eq, of length] by (simp add: length_scd_unit_bytes)
      then have n: "de_blocks (es ! i) = n" using len by simp
      have "bytes_at unit 4 11 = bytes_at (de_raw (es ! i)) 0 11"
        using arg_cong [OF eq, of "\<lambda>bs. take 11 (drop 4 bs)"] long
        by (simp add: scd_unit_bytes_name bytes_at_part)
      then show ?thesis using n by (simp add: mem_eq_bytes UNIT_NAME_def SEGACD_NAME_LEN_def)
    qed
    show ?thesis
    proof (cases "mem_eq (de_raw (es ! i)) 0 unit UNIT_NAME SEGACD_NAME_LEN \<and> de_blocks (es ! i) = n")
      case True
      then have "hit i \<longleftrightarrow> bytes_at copy 0 len = bytes_at unit 0 len" using copy slot by (simp add: hit_def mem_eq_bytes)
      moreover have "bytes_at copy 0 len = scd_unit_bytes ?s" using copy(2) True len by simp
      ultimately show ?thesis unfolding s by metis
    next
      case False
      then have "\<not> hit i" using slot by (auto simp: hit_def)
      then show ?thesis using False nm s by auto
    qed
  qed
  then have "list_ex hit [0..<length es] \<longleftrightarrow> bytes_at unit 0 len \<in> scd_unit_bytes ` set S"
  proof -
    have ss: "set S = (!) S ` {..<length es}" using es(2) by (auto simp: set_conv_nth)
    show ?thesis using \<open>\<And>i. i < length es \<Longrightarrow> hit i = (bytes_at unit 0 len = scd_unit_bytes (S ! i))\<close>
      unfolding ss image_image list_ex_iff by auto
  qed
  then show ?thesis by (simp add: v)
qed

text \<open>A unit with the bytes of a save is accepted and carries it.\<close>

lemma scd_unit_of_save:
  assumes d: "scd_dir vol es" and k: "k < length es" and u: "bytes_at unit 0 (20 + n * 64) = scd_unit_bytes (scd_save_of (scd_data vol) (es ! k))"
    and n: "n = de_blocks (es ! k)"
  shows "scd_unit_blocks unit (20 + n * 64) = n" "scd_unit_save unit n = scd_save_of (scd_data vol) (es ! k)" "n \<noteq> 0"
proof -
  let ?e = "es ! k" and ?s = "scd_save_of (scd_data vol) (es ! k)"
  have sd: "scd_sound vol ?e" using scd_dir_entry [OF d k] by simp
  show n0: "n \<noteq> 0" using sd n by (simp add: scd_sound_def)
  have n16: "n < 65536" using scd_dir_bounds(1,3) [OF d] scd_dir_bounds(4) [OF d k] scd_blocks_range [of vol] n by simp
  have ls: "length (snd ?s) = n" by (simp add: scd_save_of_def n)
  have part: "bytes_at unit p m = take m (drop p (scd_unit_bytes ?s))" if "p + m \<le> 20 + n * 64" for p m
    using bytes_at_part [OF that, of unit 0] u by simp
  have magic: "has_bytes unit 0 UNIT_MAGIC"
    using part [of 0 4] n0 by (simp add: has_bytes_def scd_unit_bytes_def)
  have head: "bytes_at unit 4 12 = fst ?s" using part [of 4 12] n0 by (simp add: scd_unit_bytes_def scd_save_fst)
  have cnt: "bytes_at unit 16 2 = bytes_at (sigil_write_be16 (\<lambda>_. 0) 0 (of_nat n)) 0 2"
    using part [of 16 2] n0 by (simp add: scd_unit_bytes_def scd_save_fst ls)
  have "sigil_read_be16 unit 16 = sigil_read_be16 (sigil_write_be16 (\<lambda>_. 0) 0 (of_nat n)) 0"
    using arg_cong [OF cnt, of "\<lambda>b. b ! 0"] arg_cong [OF cnt, of "\<lambda>b. b ! 1"] by (intro read_be16_cong) simp_all
  then have b: "unat (sigil_read_be16 unit UNIT_BLOCKS) = n" by (simp add: UNIT_BLOCKS_def unat_of_nat16 n16)
  have dat: "bytes_at unit 20 (n * 64) = concat (snd ?s)"
    using part [of 20 "n * 64"] by (simp add: scd_unit_bytes_def scd_save_fst length_concat comp_def)
       (simp add: scd_save_of_def comp_def sum_list_triv n)
  have same: "bytes_at unit 20 (n * 64) = bytes_at (scd_data vol) (de_start ?e * 64) (n * 64)"
  proof -
    have "snd ?s = map (\<lambda>i. bytes_at (scd_data vol) (de_start ?e * 64 + i * 64) 64) [0..<n]"
      by (rule nth_equalityI) (simp_all add: scd_save_of_def n scd_blk_def add_mult_distrib)
    then show ?thesis by (simp add: dat concat_blocks)
  qed
  have blk: "bytes_at unit (20 + i * 64) 64 = scd_blk (scd_data vol) (de_start ?e + i)" if "i < n" for i
  proof -
    have i: "i * 64 + 64 \<le> n * 64" using that by linarith
    have "bytes_at unit (20 + i * 64) 64 = take 64 (drop (i * 64) (bytes_at unit 20 (n * 64)))"
      by (rule bytes_at_part [OF i, symmetric])
    also have "\<dots> = bytes_at (scd_data vol) (de_start ?e * 64 + i * 64) 64"
      unfolding same by (rule bytes_at_part [OF i])
    finally show ?thesis by (simp add: scd_blk_def add_mult_distrib)
  qed
  have un: "bytes_at unit 4 12 = bytes_at unit 4 11 @ [unit 15]" using bytes_at_add [of unit 4 11 1] by (simp add: bytes_at_def)
  show save: "scd_unit_save unit n = ?s"
    using head un by (auto simp: scd_unit_save_def UNIT_NAME_def UNIT_FLAG_def blk scd_save_of_def n intro!: nth_equalityI)
  have flag: "unit UNIT_FLAG = de_raw ?e 11"
    using arg_cong [OF head, of "\<lambda>b. b ! 11"] by (simp add: UNIT_FLAG_def scd_save_of_def)
  have "de_protect ?e \<longleftrightarrow> de_raw ?e 11 \<noteq> 0"
    using arg_cong [OF scd_raw_ok [OF d k], of de_protect]
    by (simp add: scd_entry_of_def Let_def ENTRY_FLAG_def ENTRY_SIZE_def memcpy_apply)
  then have "unit UNIT_FLAG = 0 \<or> list_all (\<lambda>i. sigil_segacd_decode_block unit (sigil_segacd_unit_size i) \<noteq> None) [0..<n]"
    using sd flag by (auto simp: scd_sound_def scd_blocks_decode_blk list_all_iff sigil_segacd_unit_size_def
        SEGACD_UNIT_HEADER_SIZE_def SEGACD_BLOCK_SIZE_def decode_at blk n)
  then show "scd_unit_blocks unit (20 + n * 64) = n"
    using magic b n0 by (simp add: scd_unit_blocks_def Let_def sigil_segacd_unit_size_def SEGACD_UNIT_HEADER_SIZE_def SEGACD_BLOCK_SIZE_def)
qed

text \<open>A save moves from one volume to another as it is.\<close>

lemma scd_transfer:
  fixes out :: mem
  assumes src: "scd_abs src = Some S" and k: "k < length S" and dst: "scd_abs dst = Some T"
  defines "n \<equiv> length (snd (S ! k))" and "r \<equiv> scd_spec_inject (scd_volume_blocks dst) (S ! k) T"
  shows "\<exists>unit dst'. sigil_segacd_extract src (scd_end (take k S)) n out = (SIGIL_OK, unit) \<and>
    bytes_at unit 0 (sigil_segacd_unit_size n) = scd_unit_bytes (S ! k) \<and>
    sigil_segacd_inject dst unit (sigil_segacd_unit_size n) = (fst r, dst') \<and> scd_abs dst' = Some (snd r) \<and>
    (fst r = SIGIL_OK \<longrightarrow> sigil_segacd_verify dst' unit (sigil_segacd_unit_size n) = SIGIL_OK)"
proof -
  obtain es where es: "scd_dir src es" "S = scd_saves src es" using scd_absD [OF src] by blast
  have ke: "k < length es" using k es(2) by simp
  have s: "S ! k = scd_save_of (scd_data src) (es ! k)" using ke es(2) by (simp add: scd_saves_nth)
  have n: "n = de_blocks (es ! k)" by (simp add: n_def s scd_save_of_def)
  have sz: "sigil_segacd_unit_size n = 20 + n * 64"
    by (simp add: sigil_segacd_unit_size_def SEGACD_UNIT_HEADER_SIZE_def SEGACD_BLOCK_SIZE_def)
  have st: "scd_end (take k S) = de_start (es ! k)"
    using scd_dir_entry [OF es(1) ke] by (simp add: es(2) scd_take_saves scd_end_saves)
  obtain unit where u: "sigil_segacd_extract src (de_start (es ! k)) n out = (SIGIL_OK, unit)"
    "bytes_at unit 0 (20 + n * 64) = scd_unit_bytes (S ! k)"
    using scd_extract_at [OF es(1) ke, where out = out, folded n s] by blast
  note us = scd_unit_of_save [OF es(1) ke u(2) [unfolded s] n]
  obtain dst' where d: "sigil_segacd_inject dst unit (20 + n * 64) = (fst r, dst')" "scd_abs dst' = Some (snd r)"
    using scd_inject_abs [OF dst us(1) us(3)] us(2) by (auto simp: r_def s)
  have "sigil_segacd_verify dst' unit (20 + n * 64) = SIGIL_OK" if "fst r = SIGIL_OK"
  proof -
    have "S ! k \<in> set (snd r)" using that by (auto simp: r_def scd_spec_inject_def split: if_splits)
    then show ?thesis using scd_verify_abs [OF d(2), of unit "20 + n * 64"] us(1,3) u(2) by auto
  qed
  then show ?thesis unfolding st sz using u d by blast
qed

section \<open>The format block stays\<close>

text \<open>The signature a volume is recognised by.\<close>

definition scd_signed :: "sigil_segacd_volume \<Rightarrow> bool" where
  "scd_signed vol \<longleftrightarrow> bytes_at (scd_data vol) (scd_size vol - 32) 32 = SEGACD_SIGNATURE"

lemma scd_put_counts_signed:
  assumes "scd_volume_size_valid (scd_size vol)"
  shows "scd_signed (scd_put_counts vol free files) = scd_signed vol"
proof -
  have "scd_size vol - 32 = scd_format_block vol + 32"
    using scd_blocks_range [OF assms] scd_blocks_size [OF assms] by (simp add: scd_format_block_def SEGACD_BLOCK_SIZE_def)
  then have "bytes_at (scd_data (scd_put_counts vol free files)) (scd_size vol - 32) 32 = bytes_at (scd_data vol) (scd_size vol - 32) 32"
    by (intro bytes_at_cong) (simp add: scd_put_counts_out)
  then show ?thesis by (simp add: scd_signed_def)
qed

lemma scd_signed_cong:
  assumes sz: "scd_volume_size_valid (scd_size vol)" "scd_size v = scd_size vol"
    and blk: "scd_blk (scd_data v) (scd_volume_blocks vol - 1) = scd_blk (scd_data vol) (scd_volume_blocks vol - 1)"
  shows "scd_signed v = scd_signed vol"
proof -
  let ?b = "scd_volume_blocks vol - 1"
  have at: "scd_size vol - 32 + i = ?b * 64 + (32 + i)" for i
    using scd_blocks_size [OF sz(1)] scd_blocks_range [OF sz(1)] by (simp add: diff_mult_distrib)
  have "bytes_at m (scd_size vol - 32) 32 = drop 32 (scd_blk m ?b)" for m
    by (intro nth_equalityI) (simp_all add: at scd_blk_nth)
  then show ?thesis using blk sz(2) by (simp add: scd_signed_def)
qed

lemma scd_injected_signed:
  assumes d: "scd_dir vol es" and room: "scd_inject_cost n (length es) \<le> scd_bios_free vol (length es) (scd_next es)" and n: "n \<noteq> 0"
  shows "scd_signed (scd_injected vol (length es) (scd_next es) unit n) = scd_signed vol"
proof -
  note rm = scd_room [OF d room n] and sz = scd_dir_bounds(1) [OF d]
  have "scd_volume_blocks vol - 1 \<noteq> scd_slot_at vol (length es)" "\<not> scd_volume_blocks vol - 1 < scd_next es + n"
    using rm(1,4) by linarith+
  then show ?thesis unfolding scd_injected_def
    by (subst scd_put_counts_signed, simp add: sz, intro scd_signed_cong [OF sz]) (auto simp: scd_write_slot_blk scd_blk_memcpy)
qed

lemma scd_delete_move_top:
  assumes d: "scd_dir vol es" and j: "j < length es" and w: "scd_volume_blocks w = scd_volume_blocks vol"
  shows "scd_blk (scd_data (scd_delete_move es g j w)) (scd_volume_blocks vol - 1) = scd_blk (scd_data w) (scd_volume_blocks vol - 1)"
    and "scd_volume_blocks (scd_delete_move es g j w) = scd_volume_blocks vol" "scd_size (scd_delete_move es g j w) = scd_size w"
proof -
  show "scd_volume_blocks (scd_delete_move es g j w) = scd_volume_blocks vol" "scd_size (scd_delete_move es g j w) = scd_size w"
    by (simp_all add: scd_delete_move_def Let_def w)
  have at: "scd_slot_at w i = scd_slot_at vol i" for i by (simp add: scd_slot_at_def w)
  have "j - 1 < length es" using j by simp
  then have "scd_volume_blocks vol - 1 \<noteq> scd_slot_at vol (j - 1)" using scd_dir_bounds(5) [OF d] by fastforce
  moreover have "\<not> scd_volume_blocks vol - 1 < de_start (es ! j) - g + de_blocks (es ! j)"
    using scd_dir_bounds(3) [OF d] scd_dir_bounds(4) [OF d j] by linarith
  ultimately show "scd_blk (scd_data (scd_delete_move es g j w)) (scd_volume_blocks vol - 1) = scd_blk (scd_data w) (scd_volume_blocks vol - 1)"
    by (simp add: scd_delete_move_def Let_def scd_write_slot_blk scd_blk_memcpy SEGACD_BLOCK_SIZE_def at)
qed

lemma scd_deleted_signed:
  assumes d: "scd_dir vol es" and k: "k < length es"
  shows "scd_signed (scd_deleted vol es k) = scd_signed vol"
proof -
  let ?g = "de_blocks (es ! k)" and ?l = "length es - 1"
  note bd = scd_dir_bounds [OF d]
  have "(\<forall>j \<in> set js. j < length es) \<Longrightarrow> scd_volume_blocks w = scd_volume_blocks vol \<Longrightarrow>
      scd_blk (scd_data (fold (scd_delete_move es ?g) js w)) (scd_volume_blocks vol - 1) = scd_blk (scd_data w) (scd_volume_blocks vol - 1)
      \<and> scd_volume_blocks (fold (scd_delete_move es ?g) js w) = scd_volume_blocks vol \<and> scd_size (fold (scd_delete_move es ?g) js w) = scd_size w" for js w
    by (induction js arbitrary: w) (simp_all add: scd_delete_move_top [OF d, unfolded One_nat_def])
  from this [of "[k + 1..<length es]" vol] obtain w where w: "w = fold (scd_delete_move es ?g) [k + 1..<length es] vol"
    "scd_blk (scd_data w) (scd_volume_blocks vol - 1) = scd_blk (scd_data vol) (scd_volume_blocks vol - 1)"
    "scd_volume_blocks w = scd_volume_blocks vol" "scd_size w = scd_size vol" by auto
  have at: "scd_slot_at w i = scd_slot_at vol i" for i by (simp add: scd_slot_at_def w(3))
  have "?l < length es" using k by simp
  then have x: "scd_volume_blocks vol - 1 \<noteq> scd_slot_at vol ?l" using bd(5) by fastforce
  have y: "\<not> scd_volume_blocks vol - 1 < scd_next es - ?g + ?g" using bd(3) bd(4) [OF k] by linarith
  show ?thesis unfolding scd_deleted_def Let_def w(1) [symmetric]
    by (subst scd_put_counts_signed, simp add: bd(1) w(4), intro scd_signed_cong [OF bd(1)])
      (use x y in \<open>auto simp: w(2) [unfolded One_nat_def] w(3,4) scd_write_slot_blk scd_blk_memset scd_blk_clear at\<close>)
qed

section \<open>Volumes the library builds\<close>

inductive scd_reachable :: "nat \<Rightarrow> sigil_bram_storage \<Rightarrow> sigil_segacd_volume \<Rightarrow> bool" for siz st where
  formatted: "sigil_segacd_volume_format siz st = Inr vol \<Longrightarrow> scd_reachable siz st vol"
| injected: "scd_reachable siz st vol \<Longrightarrow> scd_reachable siz st (snd (sigil_segacd_inject vol unit len))"
| deleted: "scd_reachable siz st vol \<Longrightarrow> scd_reachable siz st (snd (sigil_segacd_delete vol first_block))"

text \<open>What each step keeps: the saves have distinct names, and the format block, size and storage form
  stay.\<close>

definition scd_kept :: "nat \<Rightarrow> sigil_bram_storage \<Rightarrow> sigil_segacd_volume \<Rightarrow> bool" where
  "scd_kept siz st vol \<longleftrightarrow> (\<exists>S. scd_abs vol = Some S \<and> distinct (map scd_spec_name S)) \<and> scd_signed vol \<and>
     scd_size vol = siz \<and> scd_storage vol = st \<and> scd_other vol = []"

lemma scd_put_counts_more [simp]:
  "scd_storage (scd_put_counts vol free files) = scd_storage vol" "scd_other (scd_put_counts vol free files) = scd_other vol"
  by (simp_all add: scd_put_counts_def Let_def)

lemma scd_write_slot_more [simp]:
  "scd_storage (scd_write_slot vol slot raw) = scd_storage vol" "scd_other (scd_write_slot vol slot raw) = scd_other vol"
  by (simp_all add: scd_write_slot_def Let_def)

lemma scd_injected_more: "scd_storage (scd_injected vol n start unit blocks) = scd_storage vol"
  "scd_other (scd_injected vol n start unit blocks) = scd_other vol" "scd_size (scd_injected vol n start unit blocks) = scd_size vol"
  by (simp_all add: scd_injected_def)

lemma scd_deleted_more: "scd_storage (scd_deleted vol es k) = scd_storage vol \<and> scd_other (scd_deleted vol es k) = scd_other vol"
proof -
  have "scd_storage (scd_delete_move es g j w) = scd_storage w \<and> scd_other (scd_delete_move es g j w) = scd_other w" for g j w
    by (simp add: scd_delete_move_def Let_def)
  then have "scd_storage (fold (scd_delete_move es g) js w) = scd_storage w \<and> scd_other (fold (scd_delete_move es g) js w) = scd_other w" for g js w
    by (induction js arbitrary: w) simp_all
  then show ?thesis by (simp add: scd_deleted_def Let_def)
qed

lemma scd_inject_kept:
  assumes k: "scd_kept siz st vol"
  shows "scd_kept siz st (snd (sigil_segacd_inject vol unit len))"
proof -
  let ?n = "scd_unit_blocks unit len"
  obtain S where S: "scd_abs vol = Some S" "distinct (map scd_spec_name S)" using k by (auto simp: scd_kept_def)
  obtain es where es: "scd_dir vol es" "S = scd_saves vol es"
    "scd_read_directory vol = Inr (\<lparr>vc_files = length es, vc_free = scd_bios_free vol (length es) (scd_next es)\<rparr>, es)"
    using scd_absD [OF S(1)] by blast
  show ?thesis
  proof (cases "?n \<noteq> 0 \<and> fst (sigil_segacd_inject vol unit len) = SIGIL_OK")
    case True
    then have inj: "snd (sigil_segacd_inject vol unit len) = scd_injected vol (length es) (scd_next es) unit ?n"
      and room: "scd_inject_cost ?n (length es) \<le> scd_bios_free vol (length es) (scd_next es)"
      by (auto simp: scd_inject_cases es(3) Let_def split: if_splits)
    have "distinct (map scd_spec_name (snd (scd_spec_inject (scd_volume_blocks vol) (scd_unit_save unit ?n) S)))"
      using S(2) by (auto simp: scd_spec_inject_def)
    moreover obtain v' where v: "sigil_segacd_inject vol unit len =
        (fst (scd_spec_inject (scd_volume_blocks vol) (scd_unit_save unit ?n) S), v')"
      "scd_abs v' = Some (snd (scd_spec_inject (scd_volume_blocks vol) (scd_unit_save unit ?n) S))"
      using scd_inject_abs [OF S(1) refl, of unit len] True by blast
    moreover have "v' = scd_injected vol (length es) (scd_next es) unit ?n" using inj v(1) by simp
    ultimately show ?thesis using k scd_injected_signed [OF es(1) room, of unit] True
      by (auto simp: scd_kept_def scd_injected_more)
  next
    case False
    then have "snd (sigil_segacd_inject vol unit len) = vol" by (auto simp: scd_inject_cases es(3) Let_def split: if_splits)
    then show ?thesis using k by simp
  qed
qed

lemma scd_delete_kept:
  assumes k: "scd_kept siz st vol"
  shows "scd_kept siz st (snd (sigil_segacd_delete vol first_block))"
proof -
  obtain S where S: "scd_abs vol = Some S" "distinct (map scd_spec_name S)" using k by (auto simp: scd_kept_def)
  obtain es where es: "scd_dir vol es" "S = scd_saves vol es"
    "scd_read_directory vol = Inr (\<lparr>vc_files = length es, vc_free = scd_bios_free vol (length es) (scd_next es)\<rparr>, es)"
    using scd_absD [OF S(1)] by blast
  show ?thesis
  proof (cases "find (\<lambda>k. de_start (es ! k) = first_block) [0..<length es]")
    case None
    then show ?thesis using k by (simp add: scd_delete_cases es(3))
  next
    case (Some i)
    then have i: "i < length es" by (auto simp: find_Some_iff)
    have "distinct (map scd_spec_name (take i S @ drop (Suc i) S))"
    proof -
      have "distinct (map scd_spec_name (take i S @ S ! i # drop (Suc i) S))" using S(2) i es(2) by (simp add: id_take_nth_drop [symmetric])
      then show ?thesis by simp
    qed
    then show ?thesis
      using k scd_absI [OF scd_deleted_dir(1) [OF es(1) i]] scd_deleted_dir(2) [OF es(1) i] es(2) scd_deleted_signed [OF es(1) i]
        scd_deleted_more [of vol es i] scd_deleted_blk(1) [OF es(1) i]
      by (simp add: scd_kept_def scd_delete_cases es(3) Some)
  qed
qed

lemma scd_reachable_kept: "scd_reachable siz st vol \<Longrightarrow> scd_volume_size_valid siz \<and> scd_kept siz st vol"
proof (induction rule: scd_reachable.induct)
  case (formatted vol)
  then have v: "scd_volume_size_valid siz" by (auto simp: sigil_segacd_volume_format_def split: if_splits)
  note f = scd_formatted [OF v formatted]
  have "scd_size vol - 32 = scd_format_block vol + 32"
    using scd_blocks_range [of vol] scd_blocks_size [of vol] f(2) v by (simp add: scd_format_block_def SEGACD_BLOCK_SIZE_def)
  then show ?case using f v scd_absI [OF f(1)] by (auto simp: scd_kept_def scd_signed_def scd_saves_def)
qed (simp_all add: scd_inject_kept scd_delete_kept)

section \<open>Loading what was written\<close>

lemma scd_dir_cong:
  assumes d: "scd_dir vol es" and sz: "scd_size v = scd_size vol" and eq: "\<And>i. i < scd_size vol \<Longrightarrow> scd_data v i = scd_data vol i"
  shows "scd_dir v es" "scd_saves v es = scd_saves vol es"
proof -
  note bd = scd_dir_bounds [OF d]
  have V: "scd_volume_blocks v = scd_volume_blocks vol" by (simp add: scd_volume_blocks_def sz)
  have f: "scd_format_block v = scd_format_block vol" by (simp add: scd_format_block_def sz)
  have at: "scd_slot_at v i = scd_slot_at vol i" for i by (simp add: scd_slot_at_def V)
  have blk: "scd_blk (scd_data v) b = scd_blk (scd_data vol) b" if "b < scd_volume_blocks vol" for b
  proof (rule scd_blk_eqI)
    fix k :: nat assume "k < 64"
    then show "scd_data v (b * 64 + k) = scd_data vol (b * 64 + k)"
      using that scd_blocks_size [OF bd(1)] by (intro eq) linarith
  qed
  have cnt: "scd_read_count (scd_data v) (scd_format_block vol + o1) = scd_read_count (scd_data vol) (scd_format_block vol + o1)"
    if "o1 \<le> 24" for o1
  proof (rule scd_read_count_cong)
    fix k :: nat assume "k < 8"
    then have "scd_format_block vol + o1 + k < scd_size vol"
      using that scd_blocks_size [OF bd(1)] scd_blocks_range [OF bd(1)] unfolding scd_format_block_def SEGACD_BLOCK_SIZE_def by linarith
    then show "scd_data v (scd_format_block vol + o1 + k) = scd_data vol (scd_format_block vol + o1 + k)" by (rule eq)
  qed
  have counts: "scd_read_counts v = scd_read_counts vol"
    unfolding scd_read_counts_def sz V f by (simp add: cnt FORMAT_FILES_def FORMAT_FREE_def)
  have low: "b < scd_next es \<Longrightarrow> scd_blk (scd_data v) b = scd_blk (scd_data vol) b" for b using blk bd(3) by simp
  have sound: "scd_sound v (es ! i) = scd_sound vol (es ! i)" if "i < length es" for i
    by (rule scd_sound_cong) (use low bd(4) [OF that] in simp)
  have slot: "scd_read_slot v i = scd_read_slot vol i" if "i < length es" for i
    using blk [of "scd_slot_at vol i"] bd(5) [OF that] by (simp add: scd_read_slot_blk at)
  show "scd_dir v es" using d unfolding scd_dir_def by (simp add: sz counts slot sound scd_data_end_def V)
  have "scd_save_of (scd_data v) (es ! i) = scd_save_of (scd_data vol) (es ! i)" if "i < length es" for i
    by (rule scd_save_cong) (use low bd(4) [OF that] in simp)
  then have "\<forall>e \<in> set es. scd_save_of (scd_data v) e = scd_save_of (scd_data vol) e" by (auto simp: in_set_conv_nth)
  then show "scd_saves v es = scd_saves vol es" by (simp add: scd_saves_def)
qed

lemma scd_sizes: "scd_volume_size_valid n \<Longrightarrow> n \<in> {8192, 16384, 32768, 65536, 131072, 262144, 524288}"
  by (simp add: scd_volume_size_valid_def SEGACD_INTERNAL_SIZE_def upt_rec)

lemma length_signature: "length SEGACD_SIGNATURE = 32"
  by (simp add: SEGACD_SIGNATURE_def str_def)

text \<open>Where the loader looks for the signature: at the end of a plain file, and at the odd bytes of an
  expanded one, which is never mistaken for a plain file.\<close>

lemma scd_signature_flat:
  assumes "length v = n" "64 \<le> n" "drop (n - 32) v = SEGACD_SIGNATURE"
  shows "scd_signature_at v n n 1"
proof -
  have "v ! (n - 64 + 32 + i) = SEGACD_SIGNATURE ! i" if "i < 32" for i
  proof -
    have "n - 64 + 32 + i = n - 32 + i" using assms(2) by simp
    then show ?thesis using assms that by (metis length_signature length_drop nth_drop diff_le_self)
  qed
  then show ?thesis using assms(1,2)
    by (simp add: scd_signature_at_def SEGACD_BLOCK_SIZE_def FORMAT_SIGNATURE_def FORMAT_SIGNATURE_LEN_def list_all_iff)
qed

lemma scd_signature_expanded:
  assumes st: "bs_expanded st" and v: "length v = n" "64 \<le> n" "drop (n - 32) v = SEGACD_SIGNATURE"
  shows "scd_signature_at (bram_flat v st) (2 * n) (2 * n) 2" "\<not> scd_signature_at (bram_flat v st) (2 * n) (2 * n) 1"
proof -
  have at: "v ! (n - 32 + i) = SEGACD_SIGNATURE ! i" if "i < 32" for i
    using v that by (metis length_signature length_drop nth_drop diff_le_self)
  have "bram_flat v st ! (2 * n - 128 + 64 + 1 + i * 2) = SEGACD_SIGNATURE ! i" if "i < 32" for i
  proof -
    have "2 * n - 128 + 64 + 1 + i * 2 = 2 * (n - 32 + i) + 1" using v(2) by simp
    then show ?thesis using bram_flat_nth(2) [OF st, of "n - 32 + i" v] at that v by simp
  qed
  then show "scd_signature_at (bram_flat v st) (2 * n) (2 * n) 2" using v(2)
    by (simp add: scd_signature_at_def SEGACD_BLOCK_SIZE_def FORMAT_SIGNATURE_def FORMAT_SIGNATURE_LEN_def list_all_iff)
  have i: "2 * n - 31 = 2 * (n - 32 + 16) + 1" using v(2) by simp
  have "bram_flat v st ! (2 * n - 31) = SEGACD_SIGNATURE ! 16"
    unfolding i using bram_flat_nth(2) [OF st, of "n - 32 + 16" v] at [of 16] v by simp
  moreover have "SEGACD_SIGNATURE ! 16 \<noteq> SEGACD_SIGNATURE ! 1" by (simp add: SEGACD_SIGNATURE_def str_def)
  ultimately have "bram_flat v st ! (2 * n - 31) \<noteq> SEGACD_SIGNATURE ! 1" by simp
  then show "\<not> scd_signature_at (bram_flat v st) (2 * n) (2 * n) 1" using v(2)
    by (auto simp: scd_signature_at_def SEGACD_BLOCK_SIZE_def FORMAT_SIGNATURE_def FORMAT_SIGNATURE_LEN_def list_all_iff
        intro!: bexI [of _ 1])
qed

lemma scd_finish_load_whole:
  assumes d: "scd_dir vol es" and st: "scd_other vol = []"
  defines "buf \<equiv> bytes_at (scd_data vol) 0 (scd_size vol)"
  shows "\<exists>v. scd_finish_load buf (scd_size vol) 0 (scd_size vol) False s = Inr v \<and> scd_abs v = scd_abs vol \<and>
    scd_storage v = s \<and> scd_other v = [] \<and> \<not> scd_other_first v \<and> bytes_at (scd_data v) 0 (scd_size v) = buf"
proof -
  let ?v = "\<lparr>scd_data = mem_of buf, scd_size = scd_size vol, scd_storage = s, scd_other = [], scd_other_first = False\<rparr>"
  have eq: "scd_data ?v i = scd_data vol i" if "i < scd_size vol" for i using that by (simp add: mem_of_def buf_def)
  note c = scd_dir_cong [OF d _ eq]
  have dir: "scd_dir ?v es" and abs: "scd_abs ?v = scd_abs vol" using c scd_absI [of ?v es] scd_absI [OF d] by simp_all
  have "length buf = scd_size vol" by (simp add: buf_def)
  then have "scd_finish_load buf (scd_size vol) 0 (scd_size vol) False s = Inr ?v"
    using dir by (auto simp: scd_finish_load_def scd_dir_def)
  moreover have "bytes_at (scd_data ?v) 0 (scd_size vol) = bytes_at (scd_data vol) 0 (scd_size vol)"
    by (rule bytes_at_cong) (use eq in simp)
  ultimately show ?thesis using abs by (intro exI [of _ ?v]) (simp add: buf_def)
qed

lemma scd_write_load:
  assumes d: "scd_dir vol es" and sg: "scd_signed vol" and ot: "scd_other vol = []"
    and st: "\<not> bs_gzip (scd_storage vol)" "-1 \<le> bs_filler (scd_storage vol)" "bs_filler (scd_storage vol) < 256"
  shows "\<exists>fl v. sigil_segacd_volume_write z vol = Inr fl \<and> sigil_segacd_volume_load (mem_io fl) = Inr v \<and>
    scd_abs v = scd_abs vol \<and> sigil_segacd_volume_write z v = Inr fl"
proof -
  let ?n = "scd_size vol" and ?buf = "bytes_at (scd_data vol) 0 (scd_size vol)"
  have vs: "scd_volume_size_valid ?n" by (rule scd_dir_bounds(1) [OF d])
  note sizes = scd_sizes [OF vs]
  have n: "64 \<le> ?n" "?n \<noteq> 73728" "2 * ?n \<noteq> 73728" "2 * ?n \<le> 1048576" "?n \<le> 1048576" using sizes by auto
  have "drop (?n - 32) ?buf = bytes_at (scd_data vol) (?n - 32) 32"
    using n(1) by (intro nth_equalityI) simp_all
  then have sgn: "drop (?n - 32) ?buf = SEGACD_SIGNATURE" using sg by (simp add: scd_signed_def)
  let ?fl = "bram_flat ?buf (scd_storage vol)"
  have wr: "sigil_segacd_volume_write z vol = Inr ?fl"
    using st ot by (simp add: sigil_segacd_volume_write_def sigil_bram_store_def Let_def)
  have rd: "sigil_bram_read_all (mem_io ?fl) SEGACD_MAX_FILE = Inr ?fl"
    using n memio.bram_read_all [of ?fl SEGACD_MAX_FILE]
    by (auto simp: length_bram_flat SEGACD_MAX_FILE_def SEGACD_MAX_CART_SIZE_def)
  have pico: "SEGACD_PICODRIVE_SIZE = 73728" by (simp add: SEGACD_PICODRIVE_SIZE_def SEGACD_INTERNAL_SIZE_def)
  show ?thesis
  proof (cases "bs_expanded (scd_storage vol)")
    case False
    then have fl: "?fl = ?buf" by (simp add: bram_flat_def)
    obtain v where v: "scd_finish_load ?buf ?n 0 ?n False bram_storage_zero = Inr v" "scd_abs v = scd_abs vol"
      "scd_storage v = bram_storage_zero" "scd_other v = []" "bytes_at (scd_data v) 0 (scd_size v) = ?buf"
      using scd_finish_load_whole [OF d ot, of bram_storage_zero] by blast
    have "sigil_segacd_volume_load (mem_io ?fl) = Inr v"
      using rd v(1) vs n scd_signature_flat [OF _ n(1) sgn]
      by (simp add: fl sigil_segacd_volume_load_def scd_load_def pico Let_def)
    moreover have "sigil_segacd_volume_write z v = Inr ?fl"
      using v(3-5) fl by (simp add: sigil_segacd_volume_write_def sigil_bram_store_def Let_def bram_storage_zero_def bram_flat_def)
    ultimately show ?thesis using wr v(2) by blast
  next
    case True
    have ne: "?buf \<noteq> []" using n(1) by (metis length_bytes_at list.size(3) not_numeral_le_zero)
    obtain f where f: "sigil_bram_collapse ?fl bram_storage_zero = Some (?buf, bram_storage_zero\<lparr>bs_expanded := True, bs_filler := f\<rparr>)"
      "bram_flat ?buf (bram_storage_zero\<lparr>bs_expanded := True, bs_filler := f\<rparr>) = ?fl"
      using bram_collapse_flat [OF True st(2,3) ne, of bram_storage_zero] by blast
    let ?s = "bram_storage_zero\<lparr>bs_expanded := True, bs_filler := f\<rparr>"
    obtain v where v: "scd_finish_load ?buf ?n 0 ?n False ?s = Inr v" "scd_abs v = scd_abs vol"
      "scd_storage v = ?s" "scd_other v = []" "bytes_at (scd_data v) 0 (scd_size v) = ?buf"
      using scd_finish_load_whole [OF d ot, of ?s] by blast
    have len: "length ?fl = 2 * ?n" using True by (simp add: length_bram_flat)
    note sx = scd_signature_expanded [OF True length_bytes_at n(1) sgn]
    have "sigil_segacd_volume_load (mem_io ?fl) = Inr v"
      using rd v(1) vs n sx f(1) by (simp add: sigil_segacd_volume_load_def scd_load_def pico Let_def len nat_mult_distrib)
    moreover have "sigil_segacd_volume_write z v = Inr ?fl"
      using v(3-5) f(2) by (simp add: sigil_segacd_volume_write_def sigil_bram_store_def Let_def bram_storage_zero_def)
    ultimately show ?thesis using wr v(2) by blast
  qed
qed

section \<open>The properties\<close>

text \<open>The smallest volume, empty, a one-block unit and the volume that holds it.\<close>

definition scd_sample :: sigil_segacd_volume where
  "scd_sample = projr (sigil_segacd_volume_format 8192 bram_storage_zero)"

definition scd_sample_unit :: mem where
  "scd_sample_unit = mem_of (UNIT_MAGIC @ str ''DEMO_______'' @ [0, 0, 1, 0, 0] @ replicate 64 7)"

definition scd_sample_one :: sigil_segacd_volume where
  "scd_sample_one = snd (sigil_segacd_inject scd_sample scd_sample_unit 84)"

lemma scd_sample_format: "sigil_segacd_volume_format 8192 bram_storage_zero = Inr scd_sample"
proof -
  have "scd_volume_size_valid 8192" by (simp add: scd_volume_size_valid_def SEGACD_INTERNAL_SIZE_def upt_rec)
  then show ?thesis by (simp add: scd_sample_def sigil_segacd_volume_format_def Let_def)
qed

lemma scd_sample_abs: "scd_abs scd_sample = Some []" "scd_volume_blocks scd_sample = 128"
proof -
  have v: "scd_volume_size_valid 8192" by (simp add: scd_volume_size_valid_def SEGACD_INTERNAL_SIZE_def upt_rec)
  show "scd_abs scd_sample = Some []" using scd_absI [OF scd_formatted(1) [OF v scd_sample_format]] by (simp add: scd_saves_def)
  show "scd_volume_blocks scd_sample = 128"
    using scd_formatted(2) [OF v scd_sample_format] by (simp add: scd_volume_blocks_def SEGACD_BLOCK_SIZE_def)
qed

lemma scd_sample_unit_blocks: "scd_unit_blocks scd_sample_unit 84 = 1"
proof -
  have "sigil_read_be16 scd_sample_unit 16 = 1"
    by (simp add: sigil_read_be16_def scd_sample_unit_def mem_of_def UNIT_MAGIC_def str_def nth_append)
  moreover have "has_bytes scd_sample_unit 0 UNIT_MAGIC"
    by (simp add: has_bytes_iff scd_sample_unit_def mem_of_def nth_append)
  moreover have "scd_sample_unit 15 = 0"
    by (simp add: scd_sample_unit_def mem_of_def UNIT_MAGIC_def str_def nth_append)
  ultimately show ?thesis
    by (simp add: scd_unit_blocks_def Let_def UNIT_BLOCKS_def UNIT_FLAG_def sigil_segacd_unit_size_def
        SEGACD_UNIT_HEADER_SIZE_def SEGACD_BLOCK_SIZE_def)
qed

lemma scd_unit_save_length: "length (snd (scd_unit_save unit n)) = n"
  by (simp add: scd_unit_save_def)

lemma scd_sample_spec:
  "scd_spec_inject 128 (scd_unit_save scd_sample_unit 1) [] = (SIGIL_OK, [scd_unit_save scd_sample_unit 1])"
  by (simp add: scd_spec_inject_def scd_spec_free_def scd_end_def scd_unit_save_def)

lemma scd_sample_one_abs: "scd_abs scd_sample_one = Some [scd_unit_save scd_sample_unit 1]" "scd_volume_blocks scd_sample_one = 128"
  using scd_inject_abs [OF scd_sample_abs(1) scd_sample_unit_blocks] unfolding scd_sample_abs(2) scd_sample_spec
  by (auto simp: scd_sample_one_def)

text \<open>C36 (refinement). Injecting a unit into a Sega CD volume whose directory reads is the abstract
  inject: a save of that name is refused with \<^verbatim>\<open>SIGIL_ERR_EXISTS\<close>, one that does not fit next to its
  directory entry with \<^verbatim>\<open>SIGIL_ERR_NO_SPACE\<close>, and otherwise the volume's saves are the ones it had,
  block for block, followed by the unit's.\<close>

theorem segacd_inject_refines:
  assumes "scd_abs vol = Some S" and "scd_unit_blocks unit len = n" and "n \<noteq> 0"
  shows "\<exists>vol'. sigil_segacd_inject vol unit len =
      (fst (scd_spec_inject (scd_volume_blocks vol) (scd_unit_save unit n) S), vol') \<and>
    scd_abs vol' = Some (snd (scd_spec_inject (scd_volume_blocks vol) (scd_unit_save unit n) S)) \<and>
    scd_volume_blocks vol' = scd_volume_blocks vol"
  by (rule scd_inject_abs [OF assms])

theorem segacd_inject_refines_witness:
  "\<exists>vol'. sigil_segacd_inject scd_sample scd_sample_unit 84 = (SIGIL_OK, vol') \<and>
    scd_abs vol' = Some [scd_unit_save scd_sample_unit 1]"
  using segacd_inject_refines [OF scd_sample_abs(1) scd_sample_unit_blocks] unfolding scd_sample_abs(2) scd_sample_spec by auto

text \<open>C37 (refinement). Deleting from a Sega CD volume by first block is the abstract delete: the save
  that starts there is dropped and the others keep their name, flag and blocks, moved down over the gap;
  any other block is refused with \<^verbatim>\<open>SIGIL_ERR_INVALID_ARG\<close> and leaves the volume as it was.\<close>

theorem segacd_delete_refines:
  assumes "scd_abs vol = Some S"
  shows "\<exists>vol'. sigil_segacd_delete vol first_block = (fst (scd_spec_delete first_block S), vol') \<and>
    scd_abs vol' = Some (snd (scd_spec_delete first_block S)) \<and> scd_volume_blocks vol' = scd_volume_blocks vol \<and>
    (fst (scd_spec_delete first_block S) \<noteq> SIGIL_OK \<longrightarrow> vol' = vol)"
  by (rule scd_delete_abs [OF assms])

theorem segacd_delete_refines_witness:
  "\<exists>vol'. sigil_segacd_delete scd_sample_one 1 = (SIGIL_OK, vol') \<and> scd_abs vol' = Some []"
  using segacd_delete_refines [OF scd_sample_one_abs(1), of 1] by (auto simp: scd_spec_delete_def scd_end_def)

text \<open>A Sega CD volume whose directory reads lists exactly its saves, in order, each
  with its name up to the first NUL, its block count and the block it starts at, none of them corrupt;
  the free blocks are those the abstract volume has, and the free slots are the most one-block saves that
  still fit with their directory entries.\<close>

theorem segacd_list_spec:
  assumes "scd_abs vol = Some S"
  shows "\<exists>l. sigil_segacd_list vol = Inr l \<and> entries l = map (scd_spec_entry S) [0..<length S] \<and>
    corrupt_count l = 0 \<and> corrupt_entries l = [] \<and> cl_format l = SIGIL_CARD_FORMAT_SEGACD_BRAM \<and>
    total_blocks l = scd_spec_free (scd_volume_blocks vol) [] \<and> free_blocks l = scd_spec_free (scd_volume_blocks vol) S \<and>
    (\<forall>m. m \<le> free_slots l \<longleftrightarrow>
       m + ((length S + m) div 2 - length S div 2) \<le> scd_spec_free (scd_volume_blocks vol) S)"
  by (rule scd_list_abs [OF assms])

theorem segacd_list_spec_witness:
  "\<exists>l. sigil_segacd_list scd_sample_one = Inr l \<and> length (entries l) = 1 \<and> ce_first_block (entries l ! 0) = 1 \<and>
    free_blocks l = 124"
  using segacd_list_spec [OF scd_sample_one_abs(1)] unfolding scd_sample_one_abs(2)
  by (auto simp: scd_spec_entry_def scd_end_def scd_spec_free_def scd_unit_save_def)

text \<open>C38 (invariant). Every Sega CD volume made by formatting, then injecting and deleting anything in
  any order, has a directory that reads back, with distinct save names, no empty save, every protected
  block decodable, and the saves, the directory and the block held back for the next entry within the
  volume.\<close>

theorem segacd_reachable_invariant:
  assumes "scd_reachable siz st vol"
  shows "\<exists>S. scd_abs vol = Some S \<and> distinct (map scd_spec_name S) \<and>
    (\<forall>s \<in> set S. snd s \<noteq> [] \<and> (fst s ! 11 \<noteq> 0 \<longrightarrow> (\<forall>b \<in> set (snd s). scd_dec b \<noteq> None))) \<and>
    scd_end S + (length S + 1) div 2 + (if odd (length S) then 0 else 1) + 1 \<le> siz div 64"
proof -
  obtain S where S: "scd_abs vol = Some S" "distinct (map scd_spec_name S)" "scd_size vol = siz"
    using scd_reachable_kept [OF assms] by (auto simp: scd_kept_def)
  obtain es where es: "scd_dir vol es" "S = scd_saves vol es" using scd_absD [OF S(1)] by blast
  have "snd s \<noteq> [] \<and> (fst s ! 11 \<noteq> 0 \<longrightarrow> (\<forall>b \<in> set (snd s). scd_dec b \<noteq> None))" if "s \<in> set S" for s
  proof -
    from that obtain i where i: "i < length es" "s = scd_save_of (scd_data vol) (es ! i)"
      by (auto simp: es(2) in_set_conv_nth scd_saves_nth)
    have "de_protect (es ! i) \<longleftrightarrow> de_raw (es ! i) 11 \<noteq> 0"
      using arg_cong [OF scd_raw_ok [OF es(1) i(1)], of de_protect]
      by (simp add: scd_entry_of_def Let_def ENTRY_FLAG_def ENTRY_SIZE_def memcpy_apply)
    then have flag: "fst s ! 11 \<noteq> 0 \<longleftrightarrow> de_protect (es ! i)" by (simp add: i(2) scd_save_of_def)
    have sd: "scd_sound vol (es ! i)" using scd_dir_entry [OF es(1) i(1)] by simp
    have "\<forall>b \<in> set (snd s). \<exists>j < de_blocks (es ! i). b = scd_blk (scd_data vol) (de_start (es ! i) + j)"
      by (auto simp: i(2) scd_save_of_def) (metis add_diff_inverse_nat linorder_not_less nat_add_left_cancel_less)
    then show ?thesis using sd flag by (auto simp: scd_sound_def scd_blocks_decode_blk i(2) scd_save_of_def)
  qed
  moreover have "scd_end S + (length S + 1) div 2 + (if odd (length S) then 0 else 1) + 1 \<le> siz div 64"
    using scd_dir_bounds(3) [OF es(1)] S(3)
    by (simp add: es(2) scd_end_saves scd_held_def scd_dir_blocks_def scd_volume_blocks_def SEGACD_BLOCK_SIZE_def split: if_splits)
  ultimately show ?thesis using S(1,2) by blast
qed

theorem segacd_reachable_invariant_witness: "\<exists>S. scd_abs scd_sample_one = Some S \<and> distinct (map scd_spec_name S)"
proof -
  have "scd_reachable 8192 bram_storage_zero scd_sample_one"
    unfolding scd_sample_one_def by (intro scd_reachable.intros) (rule scd_sample_format)
  from segacd_reachable_invariant [OF this] show ?thesis by blast
qed

text \<open>C39 (roundtrip). A Sega CD volume so made, stored plain or with each byte expanded to a 16-bit word,
  is written to a file that loads again to the same saves and is written back to the same bytes; an
  expanded file is never taken for a plain one of twice the size.\<close>

theorem segacd_volume_roundtrip:
  assumes "scd_reachable siz st vol" and "\<not> bs_gzip st" and "-1 \<le> bs_filler st" and "bs_filler st < 256"
  shows "\<exists>fl v. sigil_segacd_volume_write z vol = Inr fl \<and> sigil_segacd_volume_load (mem_io fl) = Inr v \<and>
    scd_abs v = scd_abs vol \<and> sigil_segacd_volume_write z v = Inr fl"
proof -
  obtain S where S: "scd_abs vol = Some S" "scd_signed vol" "scd_other vol = []" "scd_storage vol = st"
    using scd_reachable_kept [OF assms(1)] by (auto simp: scd_kept_def)
  obtain es where es: "scd_dir vol es" using scd_absD [OF S(1)] by blast
  show ?thesis by (rule scd_write_load [OF es S(2,3)]) (use assms S(4) in simp_all)
qed

theorem segacd_volume_roundtrip_witness:
  "\<forall>z. \<exists>fl v. sigil_segacd_volume_write z scd_sample_one = Inr fl \<and> sigil_segacd_volume_load (mem_io fl) = Inr v \<and>
    scd_abs v = Some [scd_unit_save scd_sample_unit 1]"
proof -
  have r: "scd_reachable 8192 bram_storage_zero scd_sample_one"
    unfolding scd_sample_one_def by (intro scd_reachable.intros) (rule scd_sample_format)
  have "\<not> bs_gzip bram_storage_zero" "-1 \<le> bs_filler bram_storage_zero" "bs_filler bram_storage_zero < 256"
    by (simp_all add: bram_storage_zero_def)
  from segacd_volume_roundtrip [OF r this] show ?thesis unfolding scd_sample_one_abs by blast
qed

text \<open>C40 (roundtrip). A save extracted from one Sega CD volume is a unit with exactly the save's bytes;
  injected into another volume it is accepted or refused as the abstract inject says, arrives block for
  block, and then verifies.\<close>

theorem segacd_transfer:
  fixes out :: mem
  assumes "scd_abs src = Some S" and "k < length S" and "scd_abs dst = Some T"
  shows "\<exists>unit dst'. sigil_segacd_extract src (scd_end (take k S)) (length (snd (S ! k))) out = (SIGIL_OK, unit) \<and>
    bytes_at unit 0 (sigil_segacd_unit_size (length (snd (S ! k)))) = scd_unit_bytes (S ! k) \<and>
    sigil_segacd_inject dst unit (sigil_segacd_unit_size (length (snd (S ! k)))) =
      (fst (scd_spec_inject (scd_volume_blocks dst) (S ! k) T), dst') \<and>
    scd_abs dst' = Some (snd (scd_spec_inject (scd_volume_blocks dst) (S ! k) T)) \<and>
    (fst (scd_spec_inject (scd_volume_blocks dst) (S ! k) T) = SIGIL_OK \<longrightarrow>
       sigil_segacd_verify dst' unit (sigil_segacd_unit_size (length (snd (S ! k)))) = SIGIL_OK)"
  by (rule scd_transfer [OF assms])

theorem segacd_transfer_witness:
  "\<exists>unit dst'. sigil_segacd_extract scd_sample_one 1 1 (\<lambda>_. 0) = (SIGIL_OK, unit) \<and>
    sigil_segacd_inject scd_sample unit 84 = (SIGIL_OK, dst') \<and> sigil_segacd_verify dst' unit 84 = SIGIL_OK"
  using segacd_transfer [OF scd_sample_one_abs(1) _ scd_sample_abs(1), of 0 "\<lambda>_. 0"]
  unfolding scd_sample_abs(2)
  by (auto simp: scd_sample_spec [simplified] scd_unit_save_length scd_end_def sigil_segacd_unit_size_def
      SEGACD_UNIT_HEADER_SIZE_def SEGACD_BLOCK_SIZE_def)

end
