(* ===== verification/CardSaturn.thy ===== *)
theory CardSaturn
  imports CardCommon BramStorage Digests
begin

text \<open>
  Saturn backup RAM volumes: \<^verbatim>\<open>src/src/card_saturn.c\<close> past its storage part, in its order. A volume is
  the record \<open>sigil_saturn_volume\<close>; its bytes are a memory of \<open>sat_size\<close> bytes. There is no directory:
  a save is found by scanning for its archive block, whose payload starts with the save's fields and the
  list of its other blocks, and the scan keeps which save owns each block (\<open>saturn_map\<close>). A visitor is
  a function from the context, the map and the save to the new context and whether to go on.

  The \<^verbatim>\<open>uint32_t\<close> and \<^verbatim>\<open>size_t\<close> counts are natural numbers: a volume has at most 65536 blocks and a
  save's size is a 32-bit field, so none wraps.
\<close>

section \<open>Constants\<close>

definition SATURN_MAGIC :: bytes where "SATURN_MAGIC = str ''BackUpRam Format''"
definition SATURN_MAGIC_LEN :: nat where "SATURN_MAGIC_LEN = 16"
definition SATURN_ARCHIVE_MARK :: u32 where "SATURN_ARCHIVE_MARK = 0x80000000"
definition SATURN_BLOCK_HEADER :: nat where "SATURN_BLOCK_HEADER = 4"
definition SATURN_FIELDS_LEN :: nat where "SATURN_FIELDS_LEN = 30"
definition SATURN_LIST_OFFSET :: nat where "SATURN_LIST_OFFSET = SATURN_BLOCK_HEADER + SATURN_FIELDS_LEN"
definition SATURN_RESERVED_BLOCKS :: nat where "SATURN_RESERVED_BLOCKS = 2"
definition SATURN_INTERNAL_SIZE :: nat where "SATURN_INTERNAL_SIZE = 32 * 1024"
definition SATURN_CART_SIZE :: nat where "SATURN_CART_SIZE = 512 * 1024"
definition SATURN_YABASANSHIRO_SIZE :: nat where "SATURN_YABASANSHIRO_SIZE = 4 * 1024 * 1024"
definition SATURN_NAME_LEN :: nat where "SATURN_NAME_LEN = 11"
definition SATURN_COMMENT_LEN :: nat where "SATURN_COMMENT_LEN = 10"
definition SATURN_BUP_HEADER_SIZE :: nat where "SATURN_BUP_HEADER_SIZE = 64"
definition SATURN_MAX_FILE :: nat where "SATURN_MAX_FILE = 2 * SATURN_YABASANSHIRO_SIZE"
definition SATURN_MAX_GZIP :: nat where "SATURN_MAX_GZIP = SATURN_MAX_FILE + SATURN_MAX_FILE div 16"

definition ARCHIVE_NAME :: nat where "ARCHIVE_NAME = 0x04"
definition ARCHIVE_LANGUAGE :: nat where "ARCHIVE_LANGUAGE = 0x0F"
definition ARCHIVE_COMMENT :: nat where "ARCHIVE_COMMENT = 0x10"
definition ARCHIVE_DATE :: nat where "ARCHIVE_DATE = 0x1A"
definition ARCHIVE_SIZE :: nat where "ARCHIVE_SIZE = 0x1E"

definition BUP_MAGIC :: bytes where "BUP_MAGIC = str ''Vmem''"
definition BUP_NAME :: nat where "BUP_NAME = 0x10"
definition BUP_COMMENT :: nat where "BUP_COMMENT = 0x1C"
definition BUP_LANGUAGE :: nat where "BUP_LANGUAGE = 0x27"
definition BUP_DATE :: nat where "BUP_DATE = 0x28"
definition BUP_SIZE :: nat where "BUP_SIZE = 0x2C"
definition BUP_BLOCKS :: nat where "BUP_BLOCKS = 0x30"
definition BUP_DATE_2 :: nat where "BUP_DATE_2 = 0x34"

lemmas sat_consts =
  SATURN_MAGIC_LEN_def SATURN_BLOCK_HEADER_def SATURN_FIELDS_LEN_def SATURN_LIST_OFFSET_def SATURN_RESERVED_BLOCKS_def
  SATURN_NAME_LEN_def SATURN_COMMENT_LEN_def SATURN_BUP_HEADER_SIZE_def
  ARCHIVE_NAME_def ARCHIVE_LANGUAGE_def ARCHIVE_COMMENT_def ARCHIVE_DATE_def ARCHIVE_SIZE_def
  BUP_NAME_def BUP_COMMENT_def BUP_LANGUAGE_def BUP_DATE_def BUP_SIZE_def BUP_BLOCKS_def BUP_DATE_2_def

section \<open>Volumes\<close>

record sigil_saturn_volume =
  sat_data :: mem
  sat_size :: nat
  sat_block_size :: nat
  sat_storage :: sigil_bram_storage

definition sat_magic_at :: "bytes \<Rightarrow> nat \<Rightarrow> bool" where
  "sat_magic_at buf stride =
     (if length buf < SATURN_MAGIC_LEN * stride then False
      else list_all (\<lambda>i. buf ! (i * stride + stride - 1) = SATURN_MAGIC ! i) [0..<SATURN_MAGIC_LEN])"

datatype sat_as = AS_ANY | AS_CART | AS_INTERNAL

text \<open>\<open>0\<close> when no device has this size.\<close>

definition sat_block_size_for :: "nat \<Rightarrow> sat_as \<Rightarrow> nat" where
  "sat_block_size_for siz as1 =
     (let internal = siz = SATURN_INTERNAL_SIZE \<or> siz = SATURN_YABASANSHIRO_SIZE;
          cart = siz = SATURN_CART_SIZE \<or> siz = 2 * SATURN_CART_SIZE \<or> siz = 4 * SATURN_CART_SIZE \<or>
                 siz = 8 * SATURN_CART_SIZE
      in if as1 = AS_CART then (if \<not> cart then 0 else if siz = 8 * SATURN_CART_SIZE then 1024 else 512)
         else if internal then 64
         else if as1 = AS_ANY \<and> cart then 512 else 0)"

text \<open>The bytes of the volume and the storage with the gzip header recorded; the first two bytes are
  read again, as \<^verbatim>\<open>read_file\<close> does.\<close>

definition sat_read_file :: "zlib \<Rightarrow> sigil_io \<Rightarrow> rc + bytes \<times> sigil_bram_storage" where
  "sat_read_file z io =
     (case io_read io 0 2 of
        None \<Rightarrow> Inl SIGIL_ERR_IO
      | Some head \<Rightarrow>
          if length head < 2 \<or> head ! 0 \<noteq> 0x1F \<or> head ! 1 \<noteq> 0x8B
          then (case sigil_bram_read_all io SATURN_MAX_FILE of
                  Inl rc \<Rightarrow> Inl rc | Inr buf \<Rightarrow> Inr (buf, bram_storage_zero))
          else (case sigil_bram_read_all io SATURN_MAX_GZIP of
                  Inl rc \<Rightarrow> Inl rc
                | Inr packed \<Rightarrow>
                    if length packed < GZIP_HEADER_SIZE then Inl SIGIL_ERR_UNSUPPORTED_FORMAT
                    else (case bram_gunzip_all z packed SATURN_MAX_FILE of
                            Inl rc \<Rightarrow> Inl rc
                          | Inr buf \<Rightarrow> Inr (buf, bram_storage_zero\<lparr>bs_gzip := True, bs_gzip_header := take GZIP_HEADER_SIZE packed\<rparr>))))"

definition sat_finish_load :: "bytes \<Rightarrow> sigil_bram_storage \<Rightarrow> sat_as \<Rightarrow> rc + sigil_saturn_volume" where
  "sat_finish_load buf storage as1 =
     (let block_size = sat_block_size_for (length buf) as1 in
      if \<not> sat_magic_at buf 1 \<or> block_size = 0 then Inl SIGIL_ERR_UNSUPPORTED_FORMAT
      else Inr \<lparr>sat_data = mem_of buf, sat_size = length buf, sat_block_size = block_size, sat_storage = storage\<rparr>)"

definition sat_load_as :: "zlib \<Rightarrow> sigil_io \<Rightarrow> sat_as \<Rightarrow> rc + sigil_saturn_volume" where
  "sat_load_as z io as1 =
     (case io_read io 0 (2 * SATURN_MAGIC_LEN) of
        None \<Rightarrow> Inl SIGIL_ERR_IO
      | Some head \<Rightarrow>
          let gzip = 2 \<le> length head \<and> head ! 0 = 0x1F \<and> head ! 1 = 0x8B in
          if \<not> gzip \<and> \<not> sat_magic_at head 1 \<and> \<not> sat_magic_at head 2 then Inl SIGIL_ERR_UNSUPPORTED_FORMAT
          else (case sat_read_file z io of
                  Inl rc \<Rightarrow> Inl rc
                | Inr (buf, storage) \<Rightarrow>
                    if sat_magic_at buf 2
                    then (case sigil_bram_collapse buf storage of
                            None \<Rightarrow> Inl SIGIL_ERR_UNSUPPORTED_FORMAT
                          | Some (half, storage) \<Rightarrow> sat_finish_load half storage as1)
                    else sat_finish_load buf storage as1))"

definition sigil_saturn_volume_load :: "zlib \<Rightarrow> sigil_io \<Rightarrow> rc + sigil_saturn_volume" where
  "sigil_saturn_volume_load z io = sat_load_as z io AS_ANY"

definition sigil_saturn_volume_load_cart :: "zlib \<Rightarrow> sigil_io \<Rightarrow> rc + sigil_saturn_volume" where
  "sigil_saturn_volume_load_cart z io = sat_load_as z io AS_CART"

definition sigil_saturn_volume_load_internal :: "zlib \<Rightarrow> sigil_io \<Rightarrow> rc + sigil_saturn_volume" where
  "sigil_saturn_volume_load_internal z io = sat_load_as z io AS_INTERNAL"

definition sat_format_as :: "nat \<Rightarrow> sigil_bram_storage \<Rightarrow> sat_as \<Rightarrow> rc + sigil_saturn_volume" where
  "sat_format_as siz storage as1 =
     (let block_size = sat_block_size_for siz as1 in
      if block_size = 0 then Inl SIGIL_ERR_INVALID_ARG
      else Inr \<lparr>sat_data = (\<lambda>i. if i < block_size then SATURN_MAGIC ! (i mod SATURN_MAGIC_LEN) else 0),
                sat_size = siz, sat_block_size = block_size, sat_storage = storage\<rparr>)"

definition sigil_saturn_volume_format :: "nat \<Rightarrow> sigil_bram_storage \<Rightarrow> rc + sigil_saturn_volume" where
  "sigil_saturn_volume_format siz storage = sat_format_as siz storage AS_ANY"

definition sigil_saturn_volume_format_cart :: "nat \<Rightarrow> sigil_bram_storage \<Rightarrow> rc + sigil_saturn_volume" where
  "sigil_saturn_volume_format_cart siz storage = sat_format_as siz storage AS_CART"

definition sigil_saturn_volume_write :: "zlib \<Rightarrow> sigil_saturn_volume \<Rightarrow> rc + bytes" where
  "sigil_saturn_volume_write z vol = sigil_bram_store z (bytes_at (sat_data vol) 0 (sat_size vol)) (sat_storage vol)"

definition sat_volume_blocks :: "sigil_saturn_volume \<Rightarrow> nat" where
  "sat_volume_blocks vol = sat_size vol div sat_block_size vol"

text \<open>The offset of a block in \<^verbatim>\<open>vol->data\<close>.\<close>

definition sat_block_at :: "sigil_saturn_volume \<Rightarrow> nat \<Rightarrow> nat" where
  "sat_block_at vol block = block * sat_block_size vol"

section \<open>Reading a save's stream\<close>

record saturn_cursor =
  sc_archive :: nat
  sc_list :: "nat list"
  sc_link :: nat
  sc_off :: nat

definition sat_cursor_start :: "nat \<Rightarrow> nat list \<Rightarrow> saturn_cursor" where
  "sat_cursor_start archive list1 = \<lparr>sc_archive = archive, sc_list = list1, sc_link = 0, sc_off = SATURN_LIST_OFFSET\<rparr>"

text \<open>The cursor after \<open>n\<close> bytes and the bytes read; \<open>None\<close> is \<^verbatim>\<open>return false\<close>. The offset never passes
  the block size, so \<open>\<ge>\<close> stands for the code's \<open>==\<close>, and the loop stops on any block size.\<close>

function sat_cursor_read :: "sigil_saturn_volume \<Rightarrow> saturn_cursor \<Rightarrow> nat \<Rightarrow> bytes \<Rightarrow> (saturn_cursor \<times> bytes) option" where
  "sat_cursor_read vol c n acc =
     (if n = 0 then Some (c, acc)
      else if sat_block_size vol \<le> sc_off c
      then (if length (sc_list c) \<le> sc_link c then None
            else sat_cursor_read vol (c\<lparr>sc_link := sc_link c + 1, sc_off := SATURN_BLOCK_HEADER\<rparr>) n acc)
      else let take1 = min (sat_block_size vol - sc_off c) n;
               block = (if sc_link c = 0 then sc_archive c else sc_list c ! (sc_link c - 1))
           in sat_cursor_read vol (c\<lparr>sc_off := sc_off c + take1\<rparr>) (n - take1)
                (acc @ bytes_at (sat_data vol) (sat_block_at vol block + sc_off c) take1))"
  by pat_completeness auto
termination
  by (relation "measures [\<lambda>(vol, c, n, acc). n, \<lambda>(vol, c, n, acc). length (sc_list c) - sc_link c]") auto

declare sat_cursor_read.simps [simp del]

definition sat_cursor_left :: "sigil_saturn_volume \<Rightarrow> saturn_cursor \<Rightarrow> nat" where
  "sat_cursor_left vol c =
     (sat_block_size vol - sc_off c) + (length (sc_list c) - sc_link c) * (sat_block_size vol - SATURN_BLOCK_HEADER)"

definition sat_blocks_needed :: "nat \<Rightarrow> nat \<Rightarrow> nat" where
  "sat_blocks_needed block_size siz =
     (let per_block = block_size - SATURN_BLOCK_HEADER - 2
      in (SATURN_FIELDS_LEN + siz + per_block - 1) div per_block)"

section \<open>Scanning\<close>

record saturn_map =
  sm_owner :: "nat \<Rightarrow> nat"
  sm_list :: "nat list"
  sm_blocks :: nat
  sm_corrupt :: nat
  sm_named :: "sigil_card_listing option"

definition sat_archive_name :: "sigil_saturn_volume \<Rightarrow> nat \<Rightarrow> bytes" where
  "sat_archive_name vol archive =
     takeWhile (\<lambda>b. b \<noteq> 0) (bytes_at (sat_data vol) (sat_block_at vol archive + ARCHIVE_NAME) SATURN_NAME_LEN)"

definition sat_map_open :: "sigil_saturn_volume \<Rightarrow> saturn_map" where
  "sat_map_open vol = \<lparr>sm_owner = (\<lambda>_. 0), sm_list = [], sm_blocks = sat_volume_blocks vol, sm_corrupt = 0, sm_named = None\<rparr>"

text \<open>The loop of \<^verbatim>\<open>parse_entry\<close>: whether the list ended, the map and the cursor, whose list is the blocks
  read.\<close>

function sat_parse_loop ::
    "sigil_saturn_volume \<Rightarrow> saturn_map \<Rightarrow> nat \<Rightarrow> saturn_cursor \<Rightarrow> bool \<times> saturn_map \<times> saturn_cursor" where
  "sat_parse_loop vol m archive c =
     (case sat_cursor_read vol c 2 [] of
        None \<Rightarrow> (False, m, c)
      | Some (c', raw) \<Rightarrow>
          let block = unat (sigil_read_be16 (mem_of raw) 0) in
          if block = 0 then (True, m, c')
          else if block < SATURN_RESERVED_BLOCKS \<or> sm_blocks m \<le> block \<or> sm_owner m block \<noteq> 0 \<or>
                  sigil_read_be32 (sat_data vol) (sat_block_at vol block) \<noteq> 0
          then (False, m, c')
          else sat_parse_loop vol (m\<lparr>sm_owner := (sm_owner m)(block := archive + 1)\<rparr>) archive
                 (c'\<lparr>sc_list := sc_list c' @ [block]\<rparr>))"
  by pat_completeness auto
termination
proof (relation "measure (\<lambda>(vol, m, archive, c). card {b. b < sm_blocks m \<and> sm_owner m b = 0})", goal_cases)
  case prems: (2 vol m archive c a c' raw block)
  let ?m = "m\<lparr>sm_owner := (sm_owner m)(block := archive + 1)\<rparr>"
  have "block < sm_blocks m" "sm_owner m block = 0" using prems(5) by simp_all
  then have "{b. b < sm_blocks ?m \<and> sm_owner ?m b = 0} = {b. b < sm_blocks m \<and> sm_owner m b = 0} - {block}"
    "block \<in> {b. b < sm_blocks m \<and> sm_owner m b = 0}" by auto
  then have "card {b. b < sm_blocks ?m \<and> sm_owner ?m b = 0} < card {b. b < sm_blocks m \<and> sm_owner m b = 0}"
    by (simp only:) (rule card_Diff1_less, simp_all)
  then show ?case by simp
qed simp

declare sat_parse_loop.simps [simp del]

text \<open>\<open>Some (listed, size)\<close> is \<^verbatim>\<open>return true\<close>.\<close>

definition sat_parse_entry ::
    "sigil_saturn_volume \<Rightarrow> saturn_map \<Rightarrow> nat \<Rightarrow> (nat \<times> nat) option \<times> saturn_map" where
  "sat_parse_entry vol m archive =
     (let m = m\<lparr>sm_owner := (sm_owner m)(archive := archive + 1)\<rparr>;
          (ok, m, c) = sat_parse_loop vol m archive (sat_cursor_start archive []);
          m = m\<lparr>sm_list := sc_list c\<rparr>;
          siz = unat (sigil_read_be32 (sat_data vol) (sat_block_at vol archive + ARCHIVE_SIZE));
          ok = (ok \<and> \<not> sat_cursor_left vol c < siz)
      in if \<not> ok then (None, m\<lparr>sm_owner := fold (\<lambda>b own. own(b := 0)) (sc_list c) (sm_owner m)\<rparr>)
         else (Some (length (sc_list c), siz), m))"

type_synonym 'c saturn_visit = "'c \<Rightarrow> saturn_map \<Rightarrow> nat \<Rightarrow> nat \<Rightarrow> nat \<Rightarrow> 'c \<times> bool"

fun sat_scan_loop ::
    "sigil_saturn_volume \<Rightarrow> 'c saturn_visit \<Rightarrow> nat list \<Rightarrow> saturn_map \<Rightarrow> 'c \<Rightarrow> saturn_map \<times> 'c" where
  "sat_scan_loop vol visit [] m ctx = (m, ctx)"
| "sat_scan_loop vol visit (block # blocks) m ctx =
     (if sigil_read_be32 (sat_data vol) (sat_block_at vol block) \<noteq> SATURN_ARCHIVE_MARK
      then sat_scan_loop vol visit blocks m ctx
      else case sat_parse_entry vol m block of
             (None, m) \<Rightarrow>
               sat_scan_loop vol visit blocks
                 (m\<lparr>sm_corrupt := sm_corrupt m + 1,
                    sm_named := map_option (\<lambda>l. sigil_card_listing_corrupt l (Some (sat_archive_name vol block)) None block)
                                  (sm_named m)\<rparr>) ctx
           | (Some (listed, siz), m) \<Rightarrow>
               (case visit ctx m block listed siz of
                  (ctx, go) \<Rightarrow> if go then sat_scan_loop vol visit blocks m ctx else (m, ctx)))"

definition sat_map_scan :: "sigil_saturn_volume \<Rightarrow> saturn_map \<Rightarrow> 'c saturn_visit \<Rightarrow> 'c \<Rightarrow> saturn_map \<times> 'c" where
  "sat_map_scan vol m visit ctx = sat_scan_loop vol visit [SATURN_RESERVED_BLOCKS..<sm_blocks m] m ctx"

record find_ctx =
  fc_target :: nat
  fc_found :: bool
  fc_listed :: nat
  fc_size :: nat

definition sat_find_visit :: "find_ctx saturn_visit" where
  "sat_find_visit f m archive listed siz =
     (if archive \<noteq> fc_target f then (f, True)
      else (f\<lparr>fc_found := True, fc_listed := listed, fc_size := siz\<rparr>, False))"

text \<open>The block list and size of the live save at \<open>first_block\<close>.\<close>

definition sat_find_entry :: "sigil_saturn_volume \<Rightarrow> nat \<Rightarrow> rc + nat list \<times> nat" where
  "sat_find_entry vol first_block =
     (let (m, f) = sat_map_scan vol (sat_map_open vol) sat_find_visit
                     \<lparr>fc_target = first_block, fc_found = False, fc_listed = 0, fc_size = 0\<rparr>
      in if \<not> fc_found f then Inl SIGIL_ERR_INVALID_ARG else Inr (take (fc_listed f) (sm_list m), fc_size f))"

definition sat_read_data :: "sigil_saturn_volume \<Rightarrow> nat \<Rightarrow> nat list \<Rightarrow> nat \<Rightarrow> bytes option" where
  "sat_read_data vol archive list1 siz =
     (case sat_cursor_read vol (sat_cursor_start archive list1) ((length list1 + 1) * 2) [] of
        None \<Rightarrow> None
      | Some (c, _) \<Rightarrow> map_option snd (sat_cursor_read vol c siz []))"

section \<open>Listing\<close>

definition sat_list_visit :: "sigil_saturn_volume \<Rightarrow> sigil_card_entry list saturn_visit" where
  "sat_list_visit vol acc m archive listed siz =
     (acc @ [\<lparr>ce_name = sat_archive_name vol archive, ce_owner_id = [], ce_blocks = listed + 1,
              ce_first_block = archive\<rparr>], True)"

text \<open>The listing is filled through both the visitor and the map; \<open>named\<close> holds it without the entries
  the visitor adds.\<close>

definition sigil_saturn_list :: "sigil_saturn_volume \<Rightarrow> rc + sigil_card_listing" where
  "sigil_saturn_list vol =
     (let blocks = sat_volume_blocks vol;
          (m, es) = sat_map_scan vol ((sat_map_open vol)\<lparr>sm_named := Some (sigil_card_listing_new SIGIL_CARD_FORMAT_SATURN_BACKUP)\<rparr>)
                      (sat_list_visit vol) [];
          free = length (filter (\<lambda>b. sm_owner m b = 0) [SATURN_RESERVED_BLOCKS..<blocks])
      in Inr ((the (sm_named m))\<lparr>entries := es, total_blocks := blocks - SATURN_RESERVED_BLOCKS,
                free_blocks := free, free_slots := free\<rparr>))"

definition sigil_saturn_entry_data :: "sigil_saturn_volume \<Rightarrow> nat \<Rightarrow> rc + bytes" where
  "sigil_saturn_entry_data vol first_block =
     (case sat_find_entry vol first_block of
        Inl rc \<Rightarrow> Inl rc
      | Inr (list1, siz) \<Rightarrow>
          (case sat_read_data vol first_block list1 siz of None \<Rightarrow> Inl SIGIL_ERR_INVALID_ARG | Some data \<Rightarrow> Inr data))"

definition sigil_saturn_card_list_io :: "zlib \<Rightarrow> sigil_io \<Rightarrow> rc + sigil_card_listing" where
  "sigil_saturn_card_list_io z io =
     (case sigil_saturn_volume_load z io of Inl rc \<Rightarrow> Inl rc | Inr vol \<Rightarrow> sigil_saturn_list vol)"

section \<open>Saves in and out\<close>

definition sigil_saturn_extract :: "sigil_saturn_volume \<Rightarrow> nat \<Rightarrow> rc + bytes" where
  "sigil_saturn_extract vol first_block =
     (case sat_find_entry vol first_block of
        Inl rc \<Rightarrow> Inl rc
      | Inr (list1, siz) \<Rightarrow>
          (case sat_read_data vol first_block list1 siz of
             None \<Rightarrow> Inl SIGIL_ERR_INVALID_ARG
           | Some data \<Rightarrow>
               let a = sat_block_at vol first_block;
                   bup = memcpy (\<lambda>_. 0) SATURN_BUP_HEADER_SIZE (mem_of data) 0 siz;
                   bup = memcpy bup 0 (mem_of BUP_MAGIC) 0 4;
                   bup = memcpy bup BUP_NAME (sat_data vol) (a + ARCHIVE_NAME) SATURN_NAME_LEN;
                   bup = memcpy bup BUP_COMMENT (sat_data vol) (a + ARCHIVE_COMMENT) SATURN_COMMENT_LEN;
                   bup = bup(BUP_LANGUAGE := sat_data vol (a + ARCHIVE_LANGUAGE));
                   bup = memcpy bup BUP_DATE (sat_data vol) (a + ARCHIVE_DATE) 4;
                   bup = memcpy bup BUP_SIZE (sat_data vol) (a + ARCHIVE_SIZE) 4;
                   bup = sigil_write_be16 bup BUP_BLOCKS (of_nat (length list1 + 1));
                   bup = memcpy bup BUP_DATE_2 (sat_data vol) (a + ARCHIVE_DATE) 4
               in Inr (bytes_at bup 0 (SATURN_BUP_HEADER_SIZE + siz))))"

definition sigil_saturn_bup_md5 :: "mem \<Rightarrow> nat \<Rightarrow> bytes" where
  "sigil_saturn_bup_md5 bup len =
     (let m = sigil_md5_init;
          m = (if SATURN_BUP_HEADER_SIZE \<le> len
               then let m = sigil_md5_update m (bytes_at bup BUP_NAME SATURN_NAME_LEN);
                        m = sigil_md5_update m (bytes_at bup BUP_COMMENT SATURN_COMMENT_LEN);
                        m = sigil_md5_update m (bytes_at bup BUP_LANGUAGE 1);
                        m = sigil_md5_update m (bytes_at bup BUP_SIZE 4)
                    in sigil_md5_update m (bytes_at bup SATURN_BUP_HEADER_SIZE (len - SATURN_BUP_HEADER_SIZE))
               else m)
      in sigil_md5_hex (sigil_md5_final m))"

definition sat_bup_valid :: "mem \<Rightarrow> nat \<Rightarrow> bool" where
  "sat_bup_valid bup len =
     (if len < SATURN_BUP_HEADER_SIZE \<or> \<not> has_bytes bup 0 BUP_MAGIC then False
      else if bup BUP_NAME = 0 then False
      else len - SATURN_BUP_HEADER_SIZE = unat (sigil_read_be32 bup BUP_SIZE))"

definition sat_name_visit :: "sigil_saturn_volume \<Rightarrow> mem \<Rightarrow> nat \<Rightarrow> bool saturn_visit" where
  "sat_name_visit vol bup name found m archive listed siz =
     (if \<not> mem_eq (sat_data vol) (sat_block_at vol archive + ARCHIVE_NAME) bup name SATURN_NAME_LEN then (found, True)
      else (True, False))"

text \<open>One round of \<^verbatim>\<open>write_entry\<close>: the memory and how much of the stream is written.\<close>

definition sat_write_block ::
    "sigil_saturn_volume \<Rightarrow> nat list \<Rightarrow> mem \<Rightarrow> nat \<Rightarrow> nat \<Rightarrow> mem \<times> nat \<Rightarrow> mem \<times> nat" where
  "sat_write_block vol chosen stream stream_len i = (\<lambda>(m, at).
     let bs = sat_block_size vol;
         b = sat_block_at vol (chosen ! i);
         m = memset m b 0 bs;
         m = sigil_write_be32 m b (if i = 0 then SATURN_ARCHIVE_MARK else 0);
         take1 = min (bs - SATURN_BLOCK_HEADER) (stream_len - at)
     in (memcpy m (b + SATURN_BLOCK_HEADER) stream at take1, at + take1))"

definition sat_write_entry :: "sigil_saturn_volume \<Rightarrow> nat list \<Rightarrow> nat \<Rightarrow> mem \<Rightarrow> nat \<Rightarrow> sigil_saturn_volume" where
  "sat_write_entry vol chosen n stream stream_len =
     vol\<lparr>sat_data := fst (fold (sat_write_block vol chosen stream stream_len) [0..<n] (sat_data vol, 0))\<rparr>"

definition sigil_saturn_cost :: "sigil_saturn_volume \<Rightarrow> mem \<Rightarrow> nat \<Rightarrow> nat" where
  "sigil_saturn_cost vol bup len =
     (if sat_block_size vol = 0 \<or> \<not> sat_bup_valid bup len then 0
      else let need = sat_blocks_needed (sat_block_size vol) (unat (sigil_read_be32 bup BUP_SIZE))
           in if 2 ^ 32 - 1 < need then 2 ^ 32 - 1 else need)"

text \<open>The byte stream of the save a .bup holds, on its blocks.\<close>

definition sat_stream :: "mem \<Rightarrow> nat list \<Rightarrow> nat \<Rightarrow> nat \<Rightarrow> mem" where
  "sat_stream bup chosen need siz =
     (let s = memcpy (\<lambda>_. 0) (ARCHIVE_NAME - SATURN_BLOCK_HEADER) bup BUP_NAME SATURN_NAME_LEN;
          s = s(ARCHIVE_LANGUAGE - SATURN_BLOCK_HEADER := bup BUP_LANGUAGE);
          s = memcpy s (ARCHIVE_COMMENT - SATURN_BLOCK_HEADER) bup BUP_COMMENT SATURN_COMMENT_LEN;
          s = memcpy s (ARCHIVE_DATE - SATURN_BLOCK_HEADER) bup BUP_DATE 4;
          s = memcpy s (ARCHIVE_SIZE - SATURN_BLOCK_HEADER) bup BUP_SIZE 4;
          s = fold (\<lambda>i s. sigil_write_be16 s (SATURN_FIELDS_LEN + (i - 1) * 2) (of_nat (chosen ! i))) [1..<need] s
      in memcpy s (SATURN_FIELDS_LEN + need * 2) bup SATURN_BUP_HEADER_SIZE siz)"

definition sigil_saturn_inject :: "sigil_saturn_volume \<Rightarrow> mem \<Rightarrow> nat \<Rightarrow> rc \<times> sigil_saturn_volume" where
  "sigil_saturn_inject vol bup len =
     (if \<not> sat_bup_valid bup len then (SIGIL_ERR_UNSUPPORTED_FORMAT, vol)
      else let siz = unat (sigil_read_be32 bup BUP_SIZE);
               need = sat_blocks_needed (sat_block_size vol) siz;
               (m, found) = sat_map_scan vol (sat_map_open vol) (sat_name_visit vol bup BUP_NAME) False
           in if found then (SIGIL_ERR_EXISTS, vol)
              else let chosen = take need (filter (\<lambda>b. sm_owner m b = 0) [SATURN_RESERVED_BLOCKS..<sm_blocks m])
                   in if length chosen < need then (SIGIL_ERR_NO_SPACE, vol)
                      else (SIGIL_OK, sat_write_entry vol chosen need (sat_stream bup chosen need siz)
                              (SATURN_FIELDS_LEN + need * 2 + siz)))"

definition sigil_saturn_delete :: "sigil_saturn_volume \<Rightarrow> nat \<Rightarrow> rc \<times> sigil_saturn_volume" where
  "sigil_saturn_delete vol first_block =
     (case sat_find_entry vol first_block of
        Inl rc \<Rightarrow> (rc, vol)
      | Inr (list1, siz) \<Rightarrow>
          (SIGIL_OK, vol\<lparr>sat_data := fold (\<lambda>b m. memset m (sat_block_at vol b) 0 (sat_block_size vol)) list1
             (memset (sat_data vol) (sat_block_at vol first_block) 0 (sat_block_size vol))\<rparr>))"

definition sat_verify_visit :: "sigil_saturn_volume \<Rightarrow> mem \<Rightarrow> rc saturn_visit" where
  "sat_verify_visit vol bup rc m archive listed siz =
     (let a = sat_block_at vol archive in
      if \<not> mem_eq (sat_data vol) (a + ARCHIVE_NAME) bup BUP_NAME SATURN_NAME_LEN \<or>
         siz \<noteq> unat (sigil_read_be32 bup BUP_SIZE) \<or>
         sat_data vol (a + ARCHIVE_LANGUAGE) \<noteq> bup BUP_LANGUAGE \<or>
         \<not> mem_eq (sat_data vol) (a + ARCHIVE_COMMENT) bup BUP_COMMENT SATURN_COMMENT_LEN \<or>
         \<not> mem_eq (sat_data vol) (a + ARCHIVE_DATE) bup BUP_DATE 4 then (rc, True)
      else case sat_read_data vol archive (take listed (sm_list m)) siz of
             None \<Rightarrow> (rc, True)
           | Some data \<Rightarrow> if mem_eq (mem_of data) 0 bup SATURN_BUP_HEADER_SIZE siz then (SIGIL_OK, False) else (rc, True))"

definition sigil_saturn_verify :: "sigil_saturn_volume \<Rightarrow> mem \<Rightarrow> nat \<Rightarrow> rc" where
  "sigil_saturn_verify vol bup len =
     (if \<not> sat_bup_valid bup len then SIGIL_ERR_UNSUPPORTED_FORMAT
      else snd (sat_map_scan vol (sat_map_open vol) (sat_verify_visit vol bup) SIGIL_ERR_NOT_FOUND))"

end
