(* ===== verification/CardSaturnProofs.thy ===== *)
theory CardSaturnProofs
  imports CardSaturn
begin

text \<open>
  How a Saturn volume reads: a save's blocks form one byte stream, the cursor reads it in order, and on a
  volume laid out as a map from archive blocks to block lists the scan visits exactly that map.
\<close>

section \<open>Streams of blocks\<close>

text \<open>The volumes the library makes: a device's size in its block size.\<close>

definition sat_geometry :: "sigil_saturn_volume \<Rightarrow> bool" where
  "sat_geometry vol \<longleftrightarrow> (\<exists>as1. sat_block_size vol = sat_block_size_for (sat_size vol) as1 \<and> sat_block_size vol \<noteq> 0)"

lemma sat_geometry_cases:
  assumes "sat_geometry vol"
  shows "sat_block_size vol \<in> {64, 512, 1024}" "sat_size vol = sat_volume_blocks vol * sat_block_size vol"
    "512 \<le> sat_volume_blocks vol" "sat_volume_blocks vol \<le> 65536"
proof -
  obtain as1 where g: "sat_block_size vol = sat_block_size_for (sat_size vol) as1" "sat_block_size vol \<noteq> 0"
    using assms by (auto simp: sat_geometry_def)
  have "(sat_block_size vol, sat_size vol) \<in> {(64, 32768), (64, 4194304), (512, 524288), (512, 1048576), (512, 2097152), (1024, 4194304)}"
    using g by (auto simp: sat_block_size_for_def Let_def SATURN_INTERNAL_SIZE_def SATURN_YABASANSHIRO_SIZE_def SATURN_CART_SIZE_def
        split: if_splits)
  then show "sat_block_size vol \<in> {64, 512, 1024}" "sat_size vol = sat_volume_blocks vol * sat_block_size vol"
    "512 \<le> sat_volume_blocks vol" "sat_volume_blocks vol \<le> 65536"
    by (auto simp: sat_volume_blocks_def)
qed

text \<open>What a block carries past its header, and what a list of blocks carries.\<close>

definition sat_pay :: "sigil_saturn_volume \<Rightarrow> nat" where
  "sat_pay vol = sat_block_size vol - 4"

definition sat_bytes :: "sigil_saturn_volume \<Rightarrow> nat list \<Rightarrow> bytes" where
  "sat_bytes vol bl = concat (map (\<lambda>b. bytes_at (sat_data vol) (b * sat_block_size vol + 4) (sat_pay vol)) bl)"

lemma sat_bytes_Cons: "sat_bytes vol (b # bl) = bytes_at (sat_data vol) (b * sat_block_size vol + 4) (sat_pay vol) @ sat_bytes vol bl"
  by (simp add: sat_bytes_def)

lemma sat_bytes_append: "sat_bytes vol (xs @ ys) = sat_bytes vol xs @ sat_bytes vol ys"
  by (simp add: sat_bytes_def)

lemma length_sat_bytes [simp]: "length (sat_bytes vol bl) = length bl * sat_pay vol"
  by (induction bl) (simp_all add: sat_bytes_def)

lemma sat_bytes_part:
  "k < length bl \<Longrightarrow> j + t \<le> sat_pay vol \<Longrightarrow>
     take t (drop (k * sat_pay vol + j) (sat_bytes vol bl)) = bytes_at (sat_data vol) (bl ! k * sat_block_size vol + 4 + j) t"
proof (induction bl arbitrary: k)
  case (Cons b bl)
  show ?case
  proof (cases k)
    case 0
    have "take t (drop j (bytes_at (sat_data vol) (b * sat_block_size vol + 4) (sat_pay vol))) =
        bytes_at (sat_data vol) (b * sat_block_size vol + 4 + j) t"
      by (rule nth_equalityI) (use Cons.prems in \<open>simp_all add: add.assoc\<close>)
    then show ?thesis using 0 Cons.prems by (simp add: sat_bytes_Cons)
  next
    case (Suc i)
    then have "drop (k * sat_pay vol + j) (sat_bytes vol (b # bl)) = drop (i * sat_pay vol + j) (sat_bytes vol bl)"
      by (simp add: sat_bytes_Cons)
    then show ?thesis using Cons Suc by simp
  qed
qed simp

section \<open>The cursor\<close>

definition sat_pos :: "sigil_saturn_volume \<Rightarrow> saturn_cursor \<Rightarrow> nat" where
  "sat_pos vol c = sc_link c * sat_pay vol + (sc_off c - 4)"

definition sat_cursor_ok :: "sigil_saturn_volume \<Rightarrow> saturn_cursor \<Rightarrow> bool" where
  "sat_cursor_ok vol c \<longleftrightarrow> 4 \<le> sc_off c \<and> sc_off c \<le> sat_block_size vol \<and> sc_link c \<le> length (sc_list c) \<and> 4 < sat_block_size vol"

definition sat_room :: "sigil_saturn_volume \<Rightarrow> saturn_cursor \<Rightarrow> nat" where
  "sat_room vol c = (length (sc_list c) + 1) * sat_pay vol"

lemma sat_pos_le: "sat_cursor_ok vol c \<Longrightarrow> sat_pos vol c \<le> sat_room vol c"
proof -
  assume c: "sat_cursor_ok vol c"
  then have "sc_link c * sat_pay vol \<le> length (sc_list c) * sat_pay vol" by (intro mult_le_mono1) (simp add: sat_cursor_ok_def)
  moreover have "sc_off c - 4 \<le> sat_pay vol" using c by (auto simp: sat_cursor_ok_def sat_pay_def)
  ultimately show ?thesis unfolding sat_pos_def sat_room_def add_mult_distrib by linarith
qed

text \<open>The cursor returns the next bytes of the stream, or fails past its end.\<close>

lemma sat_cursor_read_spec:
  assumes "sat_cursor_ok vol c"
  shows "if sat_pos vol c + n \<le> sat_room vol c
    then \<exists>c'. sat_cursor_read vol c n acc = Some (c', acc @ take n (drop (sat_pos vol c) (sat_bytes vol (sc_archive c # sc_list c)))) \<and>
      sat_cursor_ok vol c' \<and> sc_archive c' = sc_archive c \<and> sc_list c' = sc_list c \<and> sat_pos vol c' = sat_pos vol c + n
    else sat_cursor_read vol c n acc = None"
  using assms
proof (induction vol c n acc rule: sat_cursor_read.induct)
  case (1 vol c n acc)
  note ok = \<open>sat_cursor_ok vol c\<close>
  note u = sat_cursor_read.simps [of vol c n acc]
  let ?P = "sat_pay vol" and ?bs = "sat_block_size vol"
  show ?case
  proof (cases "n = 0")
    case True
    then show ?thesis using sat_pos_le [OF ok] ok by (subst u) auto
  next
    case n: False
    show ?thesis
    proof (cases "?bs \<le> sc_off c")
      case full: True
      then have off: "sc_off c = ?bs" using ok by (simp add: sat_cursor_ok_def)
      show ?thesis
      proof (cases "length (sc_list c) \<le> sc_link c")
        case True
        then have "sc_link c = length (sc_list c)" using ok by (simp add: sat_cursor_ok_def)
        then have "sat_pos vol c = sat_room vol c" using off by (simp add: sat_pos_def sat_room_def sat_pay_def)
        then show ?thesis using n full True by (simp add: u)
      next
        case False
        define c1 where "c1 = c\<lparr>sc_link := sc_link c + 1, sc_off := SATURN_BLOCK_HEADER\<rparr>"
        have c: "sat_cursor_ok vol c1" "sat_pos vol c1 = sat_pos vol c" "sat_room vol c1 = sat_room vol c"
          "sc_archive c1 = sc_archive c" "sc_list c1 = sc_list c"
          using ok False off by (simp_all add: c1_def sat_cursor_ok_def sat_pos_def sat_room_def SATURN_BLOCK_HEADER_def sat_pay_def)
        have "sat_cursor_read vol c n acc = sat_cursor_read vol c1 n acc" using n full False by (subst u) (simp add: c1_def)
        then show ?thesis using "1.IH"(1) [OF n full False, folded c1_def, OF c(1)] unfolding c(2-5) by simp
      qed
    next
      case part: False
      let ?t = "min (?bs - sc_off c) n"
      let ?b = "if sc_link c = 0 then sc_archive c else sc_list c ! (sc_link c - 1)"
      define c1 where "c1 = c\<lparr>sc_off := sc_off c + ?t\<rparr>"
      let ?x = "bytes_at (sat_data vol) (sat_block_at vol ?b + sc_off c) ?t"
      let ?s = "sat_bytes vol (sc_archive c # sc_list c)"
      have c: "sat_cursor_ok vol c1" "sat_room vol c1 = sat_room vol c" "sc_archive c1 = sc_archive c" "sc_list c1 = sc_list c"
        using ok part by (simp_all add: c1_def sat_cursor_ok_def sat_room_def)
      have pos: "sat_pos vol c1 = sat_pos vol c + ?t" using ok by (simp add: c1_def sat_pos_def sat_cursor_ok_def)
      have read: "sat_cursor_read vol c n acc = sat_cursor_read vol c1 (n - ?t) (acc @ ?x)"
        using n part by (subst u) (simp add: Let_def c1_def)
      have b: "(sc_archive c # sc_list c) ! sc_link c = ?b" by (cases "sc_link c") simp_all
      have "sc_link c < length (sc_archive c # sc_list c)" "sc_off c - 4 + ?t \<le> ?P" "4 \<le> sc_off c"
        using ok by (auto simp: sat_cursor_ok_def sat_pay_def)
      moreover have "m + 4 + (sc_off c - 4) = m + sc_off c" for m using \<open>4 \<le> sc_off c\<close> by simp
      ultimately have "take ?t (drop (sc_link c * ?P + (sc_off c - 4)) ?s) = ?x"
        using sat_bytes_part [of "sc_link c" "sc_archive c # sc_list c" "sc_off c - 4" ?t vol]
        unfolding b sat_block_at_def by simp
      then have x: "?x = take ?t (drop (sat_pos vol c) ?s)" by (simp add: sat_pos_def)
      have join: "take n (drop (sat_pos vol c) ?s) = ?x @ take (n - ?t) (drop (sat_pos vol c + ?t) ?s)"
      proof -
        have n: "?t + (n - ?t) = n" by simp
        have "take (?t + (n - ?t)) (drop (sat_pos vol c) ?s) =
            take ?t (drop (sat_pos vol c) ?s) @ take (n - ?t) (drop ?t (drop (sat_pos vol c) ?s))" by (rule take_add)
        then show ?thesis unfolding n x drop_drop add.commute [of ?t "sat_pos vol c"] .
      qed
      have n': "sat_pos vol c1 + (n - ?t) = sat_pos vol c + n" unfolding pos by simp
      note IH = "1.IH"(2) [OF n part refl refl, folded c1_def, OF c(1), unfolded c(2-4) n']
      show ?thesis
      proof (cases "sat_pos vol c + n \<le> sat_room vol c")
        case True
        then show ?thesis using IH unfolding read join pos by simp
      next
        case False
        then show ?thesis using IH unfolding read by simp
      qed
    qed
  qed
qed

lemma sat_cursor_left: "sat_cursor_ok vol c \<Longrightarrow> sat_cursor_left vol c = sat_room vol c - sat_pos vol c"
proof -
  assume c: "sat_cursor_ok vol c"
  then obtain j where j: "length (sc_list c) = sc_link c + j" using le_Suc_ex [of "sc_link c"] by (auto simp: sat_cursor_ok_def)
  have "sat_block_size vol - sc_off c = sat_pay vol - (sc_off c - 4)" using c by (simp add: sat_cursor_ok_def sat_pay_def)
  moreover have "sc_off c - 4 \<le> sat_pay vol" using c by (auto simp: sat_cursor_ok_def sat_pay_def)
  ultimately show ?thesis
    unfolding sat_cursor_left_def sat_room_def sat_pos_def j SATURN_BLOCK_HEADER_def sat_pay_def [symmetric]
    by (simp add: add_mult_distrib)
qed

section \<open>A save on its blocks\<close>

text \<open>The block number at place \<open>i\<close> of the list a save's stream holds, and the save's size field.\<close>

definition sat_ent :: "sigil_saturn_volume \<Rightarrow> nat list \<Rightarrow> nat \<Rightarrow> nat" where
  "sat_ent vol bl i = unat (sigil_read_be16 (mem_of (take 2 (drop (30 + 2 * i) (sat_bytes vol bl)))) 0)"

definition sat_head :: "sigil_saturn_volume \<Rightarrow> nat \<Rightarrow> u32" where
  "sat_head vol b = sigil_read_be32 (sat_data vol) (b * sat_block_size vol)"

definition sat_size_of :: "sigil_saturn_volume \<Rightarrow> nat \<Rightarrow> nat" where
  "sat_size_of vol a = unat (sigil_read_be32 (sat_data vol) (a * sat_block_size vol + 30))"

definition sat_save_ok :: "sigil_saturn_volume \<Rightarrow> nat \<Rightarrow> nat list \<Rightarrow> bool" where
  "sat_save_ok vol a l \<longleftrightarrow>
     sat_head vol a = SATURN_ARCHIVE_MARK \<and> (\<forall>b \<in> set l. sat_head vol b = 0) \<and> distinct (a # l) \<and>
     (\<forall>b \<in> set (a # l). 2 \<le> b \<and> b < sat_volume_blocks vol) \<and>
     (\<forall>i < length l. sat_ent vol (a # l) i = l ! i) \<and> sat_ent vol (a # l) (length l) = 0 \<and>
     30 + 2 * (length l + 1) + sat_size_of vol a \<le> (length l + 1) * sat_pay vol"

lemma sat_pay_ge: "sat_geometry vol \<Longrightarrow> 60 \<le> sat_pay vol"
  using sat_geometry_cases(1) [of vol] by (auto simp: sat_pay_def)

lemma sat_list_room: "60 \<le> P \<Longrightarrow> 30 + 2 * i + 2 \<le> (i + 1) * (P :: nat)"
proof -
  assume "60 \<le> P"
  then have "(i + 1) * 60 \<le> (i + 1) * P" by (rule mult_le_mono2)
  moreover have "30 + 2 * i + 2 \<le> (i + 1) * 60" by simp
  ultimately show ?thesis by (rule le_trans [rotated])
qed

lemma take_drop_prefix: "n + k \<le> length xs \<Longrightarrow> take k (drop n (xs @ ys)) = take k (drop n xs)"
  by simp

lemma sat_ent_prefix:
  assumes "sat_geometry vol" "i \<le> length l"
  shows "sat_ent vol (a # l @ r) i = sat_ent vol (a # l) i"
proof -
  have "30 + 2 * i + 2 \<le> (i + 1) * sat_pay vol" by (rule sat_list_room [OF sat_pay_ge [OF assms(1)]])
  also have "\<dots> \<le> length (a # l) * sat_pay vol" using assms(2) by (intro mult_le_mono1) simp
  finally have "30 + 2 * i + 2 \<le> length (sat_bytes vol (a # l))" by simp
  then have "take 2 (drop (30 + 2 * i) (sat_bytes vol (a # l) @ sat_bytes vol r)) = take 2 (drop (30 + 2 * i) (sat_bytes vol (a # l)))"
    by (rule take_drop_prefix)
  moreover have "sat_bytes vol (a # l @ r) = sat_bytes vol (a # l) @ sat_bytes vol r"
    using sat_bytes_append [of vol "a # l" r] by simp
  ultimately show ?thesis by (simp only: sat_ent_def)
qed

text \<open>One round of the parse: the cursor stands at the next list entry.\<close>

definition sat_parsing :: "sigil_saturn_volume \<Rightarrow> nat \<Rightarrow> saturn_cursor \<Rightarrow> bool" where
  "sat_parsing vol a c \<longleftrightarrow> sat_cursor_ok vol c \<and> sc_archive c = a \<and> sat_pos vol c = 30 + 2 * length (sc_list c)"

lemma sat_parse_step:
  assumes g: "sat_geometry vol" and c: "sat_parsing vol a c"
  shows "\<exists>c'. sat_cursor_ok vol c' \<and> sc_archive c' = a \<and> sc_list c' = sc_list c \<and> sat_pos vol c' = 30 + 2 * (length (sc_list c) + 1) \<and>
    sat_parse_loop vol m a c =
      (let block = sat_ent vol (a # sc_list c) (length (sc_list c)) in
       if block = 0 then (True, m, c')
       else if block < 2 \<or> sm_blocks m \<le> block \<or> sm_owner m block \<noteq> 0 \<or> sat_head vol block \<noteq> 0 then (False, m, c')
       else sat_parse_loop vol (m\<lparr>sm_owner := (sm_owner m)(block := a + 1)\<rparr>) a (c'\<lparr>sc_list := sc_list c' @ [block]\<rparr>))"
proof -
  have "sat_pos vol c + 2 \<le> sat_room vol c"
    using c sat_list_room [OF sat_pay_ge [OF g], of "length (sc_list c)"] by (simp add: sat_parsing_def sat_room_def)
  then obtain c' where c': "sat_cursor_read vol c 2 [] = Some (c', take 2 (drop (sat_pos vol c) (sat_bytes vol (a # sc_list c))))"
    "sat_cursor_ok vol c'" "sc_archive c' = a" "sc_list c' = sc_list c" "sat_pos vol c' = sat_pos vol c + 2"
    using sat_cursor_read_spec [of vol c 2 "[]"] c by (auto simp: sat_parsing_def)
  have e: "unat (sigil_read_be16 (mem_of (take 2 (drop (sat_pos vol c) (sat_bytes vol (a # sc_list c))))) 0) =
      sat_ent vol (a # sc_list c) (length (sc_list c))"
    using c by (simp add: sat_ent_def sat_parsing_def)
  have "sat_parse_loop vol m a c =
      (let block = sat_ent vol (a # sc_list c) (length (sc_list c)) in
       if block = 0 then (True, m, c')
       else if block < 2 \<or> sm_blocks m \<le> block \<or> sm_owner m block \<noteq> 0 \<or> sat_head vol block \<noteq> 0 then (False, m, c')
       else sat_parse_loop vol (m\<lparr>sm_owner := (sm_owner m)(block := a + 1)\<rparr>) a (c'\<lparr>sc_list := sc_list c' @ [block]\<rparr>))"
    by (subst sat_parse_loop.simps) (simp only: c'(1) option.case prod.case e SATURN_RESERVED_BLOCKS_def sat_head_def sat_block_at_def)
  then show ?thesis using c c' by (intro exI [of _ c']) (simp add: sat_parsing_def)
qed

lemma sat_parsing_next:
  assumes "sat_cursor_ok vol c'" "sc_archive c' = a" "sat_pos vol c' = 30 + 2 * (length (sc_list c') + 1)"
  shows "sat_parsing vol a (c'\<lparr>sc_list := sc_list c' @ [b]\<rparr>)"
  using assms by (simp add: sat_parsing_def sat_cursor_ok_def sat_pos_def)

text \<open>A save whose blocks no other save owns parses to its list.\<close>

lemma sat_parse_loop_ok:
  assumes g: "sat_geometry vol" and s: "sat_save_ok vol a l" and V: "sm_blocks m = sat_volume_blocks vol"
    and own: "\<forall>b \<in> set l. own b = 0"
    and c: "sat_parsing vol a c" "sc_list c = take i l" "i \<le> length l"
    and m: "sm_owner m = (\<lambda>b. if b \<in> set (a # take i l) then a + 1 else own b)"
  shows "\<exists>c'. sat_parse_loop vol m a c = (True, m\<lparr>sm_owner := (\<lambda>b. if b \<in> set (a # l) then a + 1 else own b)\<rparr>, c') \<and>
    sat_cursor_ok vol c' \<and> sc_list c' = l \<and> sat_pos vol c' = 30 + 2 * (length l + 1)"
  using V c m
proof (induction "length l - i" arbitrary: i m c)
  case 0
  then have i: "i = length l" by simp
  then have l: "sc_list c = l" using 0 by simp
  have "sat_ent vol (a # l) (length l) = 0" using s by (simp add: sat_save_ok_def)
  moreover have "m\<lparr>sm_owner := (\<lambda>b. if b \<in> set (a # l) then a + 1 else own b)\<rparr> = m" using 0 i by (intro saturn_map.equality) simp_all
  ultimately show ?case using sat_parse_step [OF g \<open>sat_parsing vol a c\<close>, of m] by (auto simp: l)
next
  case (Suc n)
  then have i: "i < length l" by simp
  note pre = \<open>sm_blocks m = sat_volume_blocks vol\<close> \<open>sat_parsing vol a c\<close> \<open>sc_list c = take i l\<close>
    \<open>sm_owner m = (\<lambda>b. if b \<in> set (a # take i l) then a + 1 else own b)\<close>
  have len: "length (sc_list c) = i" using pre(3) i by simp
  have "sat_ent vol (a # take i l) i = sat_ent vol (a # l) i"
    using sat_ent_prefix [OF g, of i "take i l" a "drop i l"] i by simp
  then have ent: "sat_ent vol (a # sc_list c) (length (sc_list c)) = l ! i" using s i pre(3) len by (simp add: sat_save_ok_def)
  have ld: "distinct (a # l)" "l ! i \<in> set l" using s i by (simp_all add: sat_save_ok_def)
  have fresh: "l ! i \<noteq> a" "l ! i \<notin> set (take i l)"
  proof -
    have "distinct (a # take i l @ l ! i # drop (Suc i) l)" using ld(1) by (simp add: id_take_nth_drop [OF i, symmetric])
    then show "l ! i \<noteq> a" "l ! i \<notin> set (take i l)" by auto
  qed
  have b: "l ! i \<noteq> 0" "\<not> (l ! i < 2 \<or> sm_blocks m \<le> l ! i \<or> sm_owner m (l ! i) \<noteq> 0 \<or> sat_head vol (l ! i) \<noteq> 0)"
    using s ld(2) pre(1) own fresh by (auto simp: sat_save_ok_def pre(4))
  obtain c' where c': "sat_cursor_ok vol c'" "sc_archive c' = a" "sc_list c' = sc_list c"
      "sat_pos vol c' = 30 + 2 * (length (sc_list c) + 1)"
      "sat_parse_loop vol m a c = sat_parse_loop vol (m\<lparr>sm_owner := (sm_owner m)(l ! i := a + 1)\<rparr>) a
         (c'\<lparr>sc_list := sc_list c' @ [l ! i]\<rparr>)"
    using sat_parse_step [OF g pre(2), of m] b unfolding ent Let_def by auto
  let ?m = "m\<lparr>sm_owner := (sm_owner m)(l ! i := a + 1)\<rparr>" and ?c = "c'\<lparr>sc_list := sc_list c' @ [l ! i]\<rparr>"
  have t: "take (Suc i) l = take i l @ [l ! i]" by (rule take_Suc_conv_app_nth [OF i])
  have "\<exists>c''. sat_parse_loop vol ?m a ?c = (True, ?m\<lparr>sm_owner := (\<lambda>b. if b \<in> set (a # l) then a + 1 else own b)\<rparr>, c'') \<and>
      sat_cursor_ok vol c'' \<and> sc_list c'' = l \<and> sat_pos vol c'' = 30 + 2 * (length l + 1)"
  proof (rule Suc.hyps(1) [of "Suc i"])
    show "n = length l - Suc i" using Suc.hyps(2) by simp
    show "sm_blocks ?m = sat_volume_blocks vol" using pre(1) by simp
    show "sat_parsing vol a ?c" by (rule sat_parsing_next) (use c' in simp_all)
    show "sc_list ?c = take (Suc i) l" using c'(3) pre(3) t by simp
    show "Suc i \<le> length l" using i by simp
    show "sm_owner ?m = (\<lambda>b. if b \<in> set (a # take (Suc i) l) then a + 1 else own b)" by (rule ext) (simp add: pre(4) t)
  qed
  then show ?case using c'(5) by simp
qed

definition sat_claim :: "nat \<Rightarrow> nat list \<Rightarrow> (nat \<Rightarrow> nat) \<Rightarrow> nat \<Rightarrow> nat" where
  "sat_claim a l own b = (if b \<in> set (a # l) then a + 1 else own b)"

lemma sat_parsing_start: "sat_geometry vol \<Longrightarrow> sat_parsing vol a (sat_cursor_start a [])"
  using sat_geometry_cases(1) [of vol]
  by (auto simp: sat_parsing_def sat_cursor_start_def sat_cursor_ok_def sat_pos_def sat_consts)

lemma sat_size_at: "unat (sigil_read_be32 (sat_data vol) (sat_block_at vol a + ARCHIVE_SIZE)) = sat_size_of vol a"
  by (simp add: sat_size_of_def sat_block_at_def ARCHIVE_SIZE_def)

lemma sat_parse_entry_ok:
  assumes g: "sat_geometry vol" and s: "sat_save_ok vol a l" and V: "sm_blocks m = sat_volume_blocks vol"
    and own: "\<forall>b \<in> set l. sm_owner m b = 0"
  shows "sat_parse_entry vol m a = (Some (length l, sat_size_of vol a), m\<lparr>sm_owner := sat_claim a l (sm_owner m), sm_list := l\<rparr>)"
proof -
  let ?m = "m\<lparr>sm_owner := (sm_owner m)(a := a + 1)\<rparr>"
  have "\<exists>c'. sat_parse_loop vol ?m a (sat_cursor_start a []) =
      (True, ?m\<lparr>sm_owner := (\<lambda>b. if b \<in> set (a # l) then a + 1 else sm_owner m b)\<rparr>, c') \<and>
    sat_cursor_ok vol c' \<and> sc_list c' = l \<and> sat_pos vol c' = 30 + 2 * (length l + 1)"
    by (rule sat_parse_loop_ok [OF g s _ own sat_parsing_start [OF g], of ?m 0])
      (simp_all add: V sat_cursor_start_def fun_eq_iff)
  then obtain c' where c': "sat_parse_loop vol ?m a (sat_cursor_start a []) =
      (True, ?m\<lparr>sm_owner := (\<lambda>b. if b \<in> set (a # l) then a + 1 else sm_owner m b)\<rparr>, c')"
    "sat_cursor_ok vol c'" "sc_list c' = l" "sat_pos vol c' = 30 + 2 * (length l + 1)"
    by blast
  have "sat_cursor_left vol c' = (length l + 1) * sat_pay vol - (30 + 2 * (length l + 1))"
    using sat_cursor_left [OF c'(2)] c'(3,4) by (simp add: sat_room_def)
  moreover have "30 + 2 * (length l + 1) + sat_size_of vol a \<le> (length l + 1) * sat_pay vol" using s by (simp add: sat_save_ok_def)
  ultimately have fit: "\<not> sat_cursor_left vol c' < sat_size_of vol a" by linarith
  have own': "sat_claim a l (sm_owner m) = (\<lambda>b. if b \<in> set (a # l) then a + 1 else sm_owner m b)"
    by (rule ext) (simp add: sat_claim_def)
  show ?thesis unfolding sat_parse_entry_def Let_def c'(1) prod.case sat_size_at using fit c'(3) own' by simp
qed

text \<open>What the loop of the parse has read is a list of fresh blocks, as the stream lists them.\<close>

definition sat_listed :: "sigil_saturn_volume \<Rightarrow> nat \<Rightarrow> (nat \<Rightarrow> nat) \<Rightarrow> nat list \<Rightarrow> bool" where
  "sat_listed vol a own l \<longleftrightarrow> distinct (a # l) \<and>
     (\<forall>b \<in> set l. sat_head vol b = 0 \<and> own b = 0 \<and> 2 \<le> b \<and> b < sat_volume_blocks vol) \<and>
     (\<forall>i < length l. sat_ent vol (a # l) i = l ! i)"

lemma sat_parse_loop_sound:
  assumes g: "sat_geometry vol"
  shows "sm_blocks m = sat_volume_blocks vol \<Longrightarrow> sat_parsing vol a c \<Longrightarrow> sat_listed vol a own (sc_list c) \<Longrightarrow>
    sm_owner m = sat_claim a (sc_list c) own \<Longrightarrow> sat_parse_loop vol m a c = (ok, m', c') \<Longrightarrow>
    sat_listed vol a own (sc_list c') \<and> m' = m\<lparr>sm_owner := sat_claim a (sc_list c') own\<rparr> \<and>
    (ok \<longrightarrow> sat_cursor_ok vol c' \<and> sat_pos vol c' = 30 + 2 * (length (sc_list c') + 1) \<and>
       sat_ent vol (a # sc_list c') (length (sc_list c')) = 0)"
proof (induction "card {b. b < sat_volume_blocks vol \<and> sm_owner m b = 0}" arbitrary: m c rule: less_induct)
  case less
  let ?k = "length (sc_list c)" let ?e = "sat_ent vol (a # sc_list c) ?k"
  obtain c1 where c1: "sat_cursor_ok vol c1" "sc_archive c1 = a" "sc_list c1 = sc_list c" "sat_pos vol c1 = 30 + 2 * (?k + 1)"
    and step: "sat_parse_loop vol m a c = (if ?e = 0 then (True, m, c1)
       else if ?e < 2 \<or> sm_blocks m \<le> ?e \<or> sm_owner m ?e \<noteq> 0 \<or> sat_head vol ?e \<noteq> 0 then (False, m, c1)
       else sat_parse_loop vol (m\<lparr>sm_owner := (sm_owner m)(?e := a + 1)\<rparr>) a (c1\<lparr>sc_list := sc_list c1 @ [?e]\<rparr>))"
    using sat_parse_step [OF g less.prems(2), of m] unfolding Let_def by blast
  have m: "m = m\<lparr>sm_owner := sat_claim a (sc_list c) own\<rparr>" using less.prems(4) by simp
  show ?case
  proof (cases "?e = 0")
    case True
    then have "ok" "m' = m" "c' = c1" using step less.prems(5) by simp_all
    then show ?thesis using True c1 less.prems(3) m by simp
  next
    case e0: False
    show ?thesis
    proof (cases "?e < 2 \<or> sm_blocks m \<le> ?e \<or> sm_owner m ?e \<noteq> 0 \<or> sat_head vol ?e \<noteq> 0")
      case True
      then have "\<not> ok" "m' = m" "c' = c1" using step e0 less.prems(5) by simp_all
      then show ?thesis using c1 less.prems(3) m by simp
    next
      case False
      define m2 where "m2 = m\<lparr>sm_owner := (sm_owner m)(?e := a + 1)\<rparr>"
      define c2 where "c2 = c1\<lparr>sc_list := sc_list c1 @ [?e]\<rparr>"
      have rest: "sat_parse_loop vol m2 a c2 = (ok, m', c')" using step e0 False less.prems(5) by (simp add: m2_def c2_def)
      have l2: "sc_list c2 = sc_list c @ [?e]" by (simp add: c2_def c1)
      have own2: "sm_owner m2 = sat_claim a (sc_list c2) own" by (rule ext) (simp add: m2_def l2 less.prems(4) sat_claim_def)
      have b2: "sm_blocks m2 = sat_volume_blocks vol" using less.prems(1) by (simp add: m2_def)
      have p2: "sat_parsing vol a c2" unfolding c2_def by (rule sat_parsing_next) (use c1 in simp_all)
      have fresh: "?e \<notin> set (a # sc_list c)" "own ?e = 0" using False less.prems(4) by (auto simp: sat_claim_def split: if_splits)
      have "sat_ent vol (a # sc_list c @ [?e]) i = (sc_list c @ [?e]) ! i" if "i < ?k + 1" for i
      proof -
        have "sat_ent vol (a # sc_list c @ [?e]) i = sat_ent vol (a # sc_list c) i" using that by (intro sat_ent_prefix [OF g]) simp
        then show ?thesis using that less.prems(3) by (cases "i = ?k") (simp_all add: sat_listed_def nth_append)
      qed
      then have s2: "sat_listed vol a own (sc_list c2)"
        using less.prems(1,3) fresh False by (simp add: l2 sat_listed_def)
      have "{b. b < sat_volume_blocks vol \<and> sm_owner m2 b = 0} = {b. b < sat_volume_blocks vol \<and> sm_owner m b = 0} - {?e}"
        by (auto simp: m2_def)
      moreover have "?e \<in> {b. b < sat_volume_blocks vol \<and> sm_owner m b = 0}" using False less.prems(1) by simp
      ultimately have "card {b. b < sat_volume_blocks vol \<and> sm_owner m2 b = 0} < card {b. b < sat_volume_blocks vol \<and> sm_owner m b = 0}"
        by (simp only:) (rule card_Diff1_less, simp_all)
      from less.hyps [OF this b2 p2 s2 own2 rest] show ?thesis by (simp add: m2_def)
    qed
  qed
qed

lemma sat_parse_entry_sound:
  assumes g: "sat_geometry vol" and V: "sm_blocks m = sat_volume_blocks vol" and p: "sat_parse_entry vol m a = (Some (n, siz), m')"
    and a: "sat_head vol a = SATURN_ARCHIVE_MARK" "2 \<le> a" "a < sat_volume_blocks vol"
  shows "\<exists>l. sat_save_ok vol a l \<and> (\<forall>b \<in> set l. sm_owner m b = 0) \<and> n = length l \<and> siz = sat_size_of vol a \<and>
    m' = m\<lparr>sm_owner := sat_claim a l (sm_owner m), sm_list := l\<rparr>"
proof -
  let ?m = "m\<lparr>sm_owner := (sm_owner m)(a := a + 1)\<rparr>"
  obtain ok m1 c where lp: "sat_parse_loop vol ?m a (sat_cursor_start a []) = (ok, m1, c)" by (cases "sat_parse_loop vol ?m a (sat_cursor_start a [])")
  have "sm_owner ?m = sat_claim a (sc_list (sat_cursor_start a [])) (sm_owner m)"
    by (rule ext) (simp add: sat_claim_def sat_cursor_start_def)
  moreover have "sat_listed vol a (sm_owner m) (sc_list (sat_cursor_start a []))" by (simp add: sat_listed_def sat_cursor_start_def)
  ultimately have snd: "sat_listed vol a (sm_owner m) (sc_list c)" "m1 = ?m\<lparr>sm_owner := sat_claim a (sc_list c) (sm_owner m)\<rparr>"
    "ok \<Longrightarrow> sat_cursor_ok vol c \<and> sat_pos vol c = 30 + 2 * (length (sc_list c) + 1) \<and>
       sat_ent vol (a # sc_list c) (length (sc_list c)) = 0"
    using sat_parse_loop_sound [OF g _ sat_parsing_start [OF g] _ _ lp, of "sm_owner m"] V by auto
  have r: "ok" "\<not> sat_cursor_left vol c < sat_size_of vol a" "n = length (sc_list c)" "siz = sat_size_of vol a"
    "m' = m1\<lparr>sm_list := sc_list c\<rparr>"
    using p unfolding sat_parse_entry_def Let_def lp prod.case sat_size_at by (auto split: if_splits)
  note k = snd(3) [OF r(1)]
  have "sat_cursor_left vol c = (length (sc_list c) + 1) * sat_pay vol - (30 + 2 * (length (sc_list c) + 1))"
    using sat_cursor_left [of vol c] k by (simp add: sat_room_def)
  moreover have "30 + 2 * (length (sc_list c) + 1) \<le> (length (sc_list c) + 1) * sat_pay vol"
    using sat_list_room [OF sat_pay_ge [OF g], of "length (sc_list c)"] by simp
  ultimately have "30 + 2 * (length (sc_list c) + 1) + sat_size_of vol a \<le> (length (sc_list c) + 1) * sat_pay vol"
    using r(2) by linarith
  then have "sat_save_ok vol a (sc_list c)" using snd(1) k a by (auto simp: sat_save_ok_def sat_listed_def)
  then show ?thesis using snd(1,2) r by (intro exI [of _ "sc_list c"]) (simp add: sat_listed_def)
qed

section \<open>Volumes as maps\<close>

text \<open>The layout of a volume without corrupt saves: the block list of each archive block.\<close>

type_synonym sat_layout = "nat \<Rightarrow> nat list option"

definition sat_holds :: "sat_layout \<Rightarrow> nat \<Rightarrow> nat \<Rightarrow> bool" where
  "sat_holds L a b \<longleftrightarrow> (case L a of None \<Rightarrow> False | Some l \<Rightarrow> b \<in> set (a # l))"

definition sat_disjoint :: "sat_layout \<Rightarrow> bool" where
  "sat_disjoint L \<longleftrightarrow> (\<forall>a a' b. sat_holds L a b \<longrightarrow> sat_holds L a' b \<longrightarrow> a = a')"

definition sat_laid :: "sigil_saturn_volume \<Rightarrow> sat_layout \<Rightarrow> bool" where
  "sat_laid vol L \<longleftrightarrow> sat_geometry vol \<and> (\<forall>a l. L a = Some l \<longrightarrow> sat_save_ok vol a l) \<and> sat_disjoint L \<and>
     (\<forall>b. 2 \<le> b \<longrightarrow> b < sat_volume_blocks vol \<longrightarrow> sat_head vol b = SATURN_ARCHIVE_MARK \<longrightarrow> L b \<noteq> None)"

text \<open>The map after the archives below \<open>k\<close>: which blocks have an owner.\<close>

definition sat_scanned :: "sigil_saturn_volume \<Rightarrow> sat_layout \<Rightarrow> nat \<Rightarrow> saturn_map \<Rightarrow> bool" where
  "sat_scanned vol L k m \<longleftrightarrow> sm_blocks m = sat_volume_blocks vol \<and> (\<forall>b. sm_owner m b \<noteq> 0 \<longleftrightarrow> (\<exists>a < k. sat_holds L a b))"

text \<open>The scan as a run over the layout: the context it ends with and the archive the visitor stopped at.\<close>

fun sat_run :: "sat_layout \<Rightarrow> ('c \<Rightarrow> nat \<Rightarrow> nat list \<Rightarrow> 'c \<times> bool) \<Rightarrow> nat list \<Rightarrow> 'c \<Rightarrow> 'c \<times> nat option" where
  "sat_run L v [] ctx = (ctx, None)"
| "sat_run L v (b # bs) ctx =
     (case L b of
        None \<Rightarrow> sat_run L v bs ctx
      | Some l \<Rightarrow> (case v ctx b l of (ctx, go) \<Rightarrow> if go then sat_run L v bs ctx else (ctx, Some b)))"

lemma sat_mark_nonzero: "SATURN_ARCHIVE_MARK \<noteq> 0"
  by (simp add: SATURN_ARCHIVE_MARK_def)

lemma sat_scan_loop_run:
  assumes L: "sat_laid vol L" and k: "2 \<le> k" "k \<le> sat_volume_blocks vol" and m: "sat_scanned vol L k m"
    and v: "\<And>ctx m a l. L a = Some l \<Longrightarrow> sm_list m = l \<Longrightarrow> visit ctx m a (length l) (sat_size_of vol a) = v ctx a l"
  shows "\<exists>m'. sat_scan_loop vol visit [k..<sat_volume_blocks vol] m ctx = (m', fst (sat_run L v [k..<sat_volume_blocks vol] ctx)) \<and>
    sm_corrupt m' = sm_corrupt m \<and> sm_named m' = sm_named m \<and>
    (case snd (sat_run L v [k..<sat_volume_blocks vol] ctx) of
       None \<Rightarrow> sat_scanned vol L (sat_volume_blocks vol) m' | Some b \<Rightarrow> L b = Some (sm_list m'))"
  using k m
proof (induction "sat_volume_blocks vol - k" arbitrary: k m ctx)
  case 0
  then show ?case by simp
next
  case (Suc n)
  let ?V = "sat_volume_blocks vol"
  have k: "k < ?V" using Suc.hyps(2) by simp
  have u: "[k..<?V] = k # [Suc k..<?V]" using k by (rule upt_conv_Cons)
  have hd: "sigil_read_be32 (sat_data vol) (sat_block_at vol k) = sat_head vol k" by (simp add: sat_head_def sat_block_at_def)
  have g: "sat_geometry vol" using L by (simp add: sat_laid_def)
  show ?case
  proof (cases "L k")
    case None
    have "sat_head vol k \<noteq> SATURN_ARCHIVE_MARK" using L None k Suc.prems(1) by (auto simp: sat_laid_def)
    moreover have "sat_scanned vol L (Suc k) m" using Suc.prems(3) None by (auto simp: sat_scanned_def less_Suc_eq sat_holds_def)
    ultimately show ?thesis using Suc.hyps(1) [of "Suc k" m ctx] Suc.hyps(2) Suc.prems k None by (simp add: u hd)
  next
    case (Some l)
    have s: "sat_save_ok vol k l" using L Some by (simp add: sat_laid_def)
    have V: "sm_blocks m = ?V" using Suc.prems(3) by (simp add: sat_scanned_def)
    have free: "\<forall>b \<in> set (k # l). sm_owner m b = 0"
    proof
      fix b assume "b \<in> set (k # l)"
      then have "sat_holds L k b" using Some by (simp add: sat_holds_def)
      then have "\<not> (\<exists>a < k. sat_holds L a b)" using L unfolding sat_laid_def sat_disjoint_def by (metis nat_neq_iff)
      then show "sm_owner m b = 0" using Suc.prems(3) by (auto simp: sat_scanned_def)
    qed
    define m1 where "m1 = m\<lparr>sm_owner := sat_claim k l (sm_owner m), sm_list := l\<rparr>"
    have p: "sat_parse_entry vol m k = (Some (length l, sat_size_of vol k), m1)"
      unfolding m1_def by (rule sat_parse_entry_ok [OF g s V]) (use free in simp)
    have m1: "sat_scanned vol L (Suc k) m1"
    proof -
      have "sm_owner m1 b \<noteq> 0 \<longleftrightarrow> sat_holds L k b \<or> sm_owner m b \<noteq> 0" for b
        using Some by (simp add: m1_def sat_claim_def sat_holds_def)
      moreover have "sm_blocks m1 = ?V" using V by (simp add: m1_def)
      ultimately show ?thesis using Suc.prems(3) unfolding sat_scanned_def less_Suc_eq by blast
    qed
    have sel: "sm_list m1 = l" "sm_corrupt m1 = sm_corrupt m" "sm_named m1 = sm_named m" by (simp_all add: m1_def)
    have mk: "sat_head vol k = SATURN_ARCHIVE_MARK" using s by (simp add: sat_save_ok_def)
    obtain ctx1 go where vis: "v ctx k l = (ctx1, go)" by (cases "v ctx k l")
    have vis': "visit ctx m1 k (length l) (sat_size_of vol k) = (ctx1, go)" using v [OF Some sel(1)] vis by simp
    show ?thesis
    proof (cases go)
      case True
      then show ?thesis using Suc.hyps(1) [of "Suc k" m1 ctx1] Suc.hyps(2) Suc.prems k m1 sel
        by (simp add: u hd mk p vis vis' Some)
    next
      case False
      then show ?thesis using sel by (simp add: u hd mk p vis vis' Some)
    qed
  qed
qed

lemma sat_open_scanned:
  assumes "sat_laid vol L"
  shows "sat_scanned vol L 2 ((sat_map_open vol)\<lparr>sm_named := x\<rparr>)"
proof -
  have "\<not> (\<exists>a < 2. sat_holds L a b)" for b
    using assms by (fastforce simp: sat_laid_def sat_holds_def sat_save_ok_def split: option.splits)
  then show ?thesis by (simp add: sat_scanned_def sat_map_open_def)
qed

lemma sat_scan_run:
  assumes L: "sat_laid vol L"
    and v: "\<And>ctx m a l. L a = Some l \<Longrightarrow> sm_list m = l \<Longrightarrow> visit ctx m a (length l) (sat_size_of vol a) = v ctx a l"
  shows "\<exists>m'. sat_map_scan vol ((sat_map_open vol)\<lparr>sm_named := x\<rparr>) visit ctx = (m', fst (sat_run L v [2..<sat_volume_blocks vol] ctx)) \<and>
    sm_corrupt m' = 0 \<and> sm_named m' = x \<and> 
    (case snd (sat_run L v [2..<sat_volume_blocks vol] ctx) of
       None \<Rightarrow> sat_scanned vol L (sat_volume_blocks vol) m' | Some b \<Rightarrow> L b = Some (sm_list m'))"
proof -
  have "2 \<le> sat_volume_blocks vol" using sat_geometry_cases(3) [of vol] L by (simp add: sat_laid_def)
  then show ?thesis
    using sat_scan_loop_run [OF L _ _ sat_open_scanned [OF L], where visit = visit and v = v and ctx = ctx and x1 = x] v
    by (simp add: sat_map_scan_def SATURN_RESERVED_BLOCKS_def) (simp add: sat_map_open_def)
qed

lemma sat_run_find:
  assumes "\<And>b l. L b = Some l \<Longrightarrow> v ctx b l = (if P b then (f b, False) else (ctx, True))"
  shows "sat_run L v bs ctx = (case find (\<lambda>b. L b \<noteq> None \<and> P b) bs of None \<Rightarrow> (ctx, None) | Some b \<Rightarrow> (f b, Some b))"
  using assms by (induction bs) (auto split: option.splits)

lemma sat_run_map:
  assumes "\<And>acc b l. L b = Some l \<Longrightarrow> v acc b l = (acc @ [f b], True)"
  shows "sat_run L v bs acc = (acc @ map f (filter (\<lambda>b. L b \<noteq> None) bs), None)"
  using assms by (induction bs arbitrary: acc) (auto split: option.splits)

lemma sat_live_range: "sat_laid vol L \<Longrightarrow> L a = Some l \<Longrightarrow> a \<in> set [2..<sat_volume_blocks vol]"
  by (auto simp: sat_laid_def sat_save_ok_def)

lemma sat_find_unique: "find (\<lambda>b. P b \<and> b = a) bs = (if P a \<and> a \<in> set bs then Some a else None)"
  by (induction bs) auto

lemma sat_map_open_named: "(sat_map_open vol)\<lparr>sm_named := None\<rparr> = sat_map_open vol"
  by (simp add: sat_map_open_def)

lemma sat_find_entry_laid:
  assumes L: "sat_laid vol L"
  shows "sat_find_entry vol a = (case L a of None \<Rightarrow> Inl SIGIL_ERR_INVALID_ARG | Some l \<Rightarrow> Inr (l, sat_size_of vol a))"
proof -
  let ?f = "\<lparr>fc_target = a, fc_found = False, fc_listed = 0, fc_size = 0\<rparr>"
  let ?g = "\<lambda>b. ?f\<lparr>fc_found := True, fc_listed := length (the (L b)), fc_size := sat_size_of vol b\<rparr>"
  let ?v = "\<lambda>f b l. if b \<noteq> fc_target f then (f, True)
      else (f\<lparr>fc_found := True, fc_listed := length l, fc_size := sat_size_of vol b\<rparr>, False)"
  have "sat_find_visit f m b (length l) (sat_size_of vol b) = ?v f b l" for f and m :: saturn_map and b and l :: "nat list"
    by (simp add: sat_find_visit_def)
  then obtain m' where m': "sat_map_scan vol (sat_map_open vol) sat_find_visit ?f = (m', fst (sat_run L ?v [2..<sat_volume_blocks vol] ?f))"
    "case snd (sat_run L ?v [2..<sat_volume_blocks vol] ?f) of
       None \<Rightarrow> sat_scanned vol L (sat_volume_blocks vol) m' | Some b \<Rightarrow> L b = Some (sm_list m')"
    using sat_scan_run [OF L, where visit = sat_find_visit and v = ?v and ctx = ?f and x = None]
    unfolding sat_map_open_named by blast
  have run: "sat_run L ?v [2..<sat_volume_blocks vol] ?f =
      (case find (\<lambda>b. L b \<noteq> None \<and> b = a) [2..<sat_volume_blocks vol] of None \<Rightarrow> (?f, None) | Some b \<Rightarrow> (?g b, Some b))"
    by (rule sat_run_find) auto
  show ?thesis
  proof (cases "L a")
    case None
    then show ?thesis using m' unfolding run sat_find_unique by (simp add: sat_find_entry_def)
  next
    case (Some l)
    then show ?thesis using m' sat_live_range [OF L Some] unfolding run sat_find_unique by (simp add: sat_find_entry_def)
  qed
qed

text \<open>The bytes of a save: its fields and its data.\<close>

definition sat_data_of :: "sigil_saturn_volume \<Rightarrow> nat \<Rightarrow> nat list \<Rightarrow> bytes" where
  "sat_data_of vol a l = take (sat_size_of vol a) (drop (30 + 2 * (length l + 1)) (sat_bytes vol (a # l)))"

lemma sat_read_data_laid:
  assumes g: "sat_geometry vol" and s: "sat_save_ok vol a l"
  shows "sat_read_data vol a l (sat_size_of vol a) = Some (sat_data_of vol a l)" "length (sat_data_of vol a l) = sat_size_of vol a"
proof -
  let ?c = "sat_cursor_start a l"
  have c: "sat_cursor_ok vol ?c" "sat_pos vol ?c = 30" "sat_room vol ?c = (length l + 1) * sat_pay vol" "sc_archive ?c = a" "sc_list ?c = l"
    using sat_geometry_cases(1) [OF g] by (auto simp: sat_cursor_start_def sat_cursor_ok_def sat_pos_def sat_room_def sat_consts)
  have fit: "30 + 2 * (length l + 1) + sat_size_of vol a \<le> (length l + 1) * sat_pay vol" using s by (simp add: sat_save_ok_def)
  have "sat_pos vol ?c + (length l + 1) * 2 \<le> sat_room vol ?c" using fit c(2,3) by linarith
  then obtain c1 x where c1: "sat_cursor_read vol ?c ((length l + 1) * 2) [] = Some (c1, x)" "sat_cursor_ok vol c1"
    "sc_archive c1 = a" "sc_list c1 = l" "sat_pos vol c1 = 30 + (length l + 1) * 2"
    using sat_cursor_read_spec [OF c(1), of "(length l + 1) * 2" "[]"] c by auto
  have r1: "sat_room vol c1 = (length l + 1) * sat_pay vol" using c1(4) by (simp add: sat_room_def)
  have "sat_pos vol c1 + sat_size_of vol a \<le> sat_room vol c1" using fit c1(5) r1 by linarith
  then obtain c2 where c2: "sat_cursor_read vol c1 (sat_size_of vol a) [] =
      Some (c2, take (sat_size_of vol a) (drop (sat_pos vol c1) (sat_bytes vol (a # l))))"
    using sat_cursor_read_spec [OF c1(2), of "sat_size_of vol a" "[]"] c1(3,4) by auto
  have "sat_pos vol c1 = 30 + 2 * (length l + 1)" using c1(5) by linarith
  then show "sat_read_data vol a l (sat_size_of vol a) = Some (sat_data_of vol a l)"
    unfolding sat_read_data_def c1(1) option.case prod.case c2 by (simp add: sat_data_of_def)
  have "sat_size_of vol a \<le> (length l + 1) * sat_pay vol - (30 + 2 * (length l + 1))" using fit by linarith
  then show "length (sat_data_of vol a l) = sat_size_of vol a" by (simp add: sat_data_of_def)
qed

text \<open>Listing a volume laid out as \<open>L\<close>.\<close>

definition sat_free_blocks :: "sigil_saturn_volume \<Rightarrow> sat_layout \<Rightarrow> nat list" where
  "sat_free_blocks vol L = filter (\<lambda>b. \<not> (\<exists>a. sat_holds L a b)) [2..<sat_volume_blocks vol]"

lemma sat_scanned_free:
  assumes L: "sat_laid vol L" and m: "sat_scanned vol L (sat_volume_blocks vol) m"
  shows "filter (\<lambda>b. sm_owner m b = 0) [2..<sat_volume_blocks vol] = sat_free_blocks vol L"
proof -
  have "sm_owner m b = 0 \<longleftrightarrow> \<not> (\<exists>a. sat_holds L a b)" for b
  proof -
    have "a < sat_volume_blocks vol" if "sat_holds L a b" for a
      using that sat_live_range [OF L] by (auto simp: sat_holds_def split: option.splits)
    then show ?thesis using m unfolding sat_scanned_def by blast
  qed
  then show ?thesis by (simp add: sat_free_blocks_def)
qed

definition sat_entry :: "sigil_saturn_volume \<Rightarrow> sat_layout \<Rightarrow> nat \<Rightarrow> sigil_card_entry" where
  "sat_entry vol L a = \<lparr>ce_name = sat_archive_name vol a, ce_owner_id = [], ce_blocks = length (the (L a)) + 1, ce_first_block = a\<rparr>"

lemma sat_list_laid:
  assumes L: "sat_laid vol L"
  shows "\<exists>l. sigil_saturn_list vol = Inr l \<and> corrupt_count l = 0 \<and> corrupt_entries l = [] \<and>
    cl_format l = SIGIL_CARD_FORMAT_SATURN_BACKUP \<and> total_blocks l = sat_volume_blocks vol - 2 \<and>
    entries l = map (sat_entry vol L) (filter (\<lambda>b. L b \<noteq> None) [2..<sat_volume_blocks vol]) \<and>
    free_blocks l = length (sat_free_blocks vol L) \<and> free_slots l = free_blocks l"
proof -
  let ?v = "\<lambda>acc b l. (acc @ [sat_entry vol L b], True)"
  let ?new = "Some (sigil_card_listing_new SIGIL_CARD_FORMAT_SATURN_BACKUP)"
  have run: "sat_run L ?v [2..<sat_volume_blocks vol] [] =
      ([] @ map (sat_entry vol L) (filter (\<lambda>b. L b \<noteq> None) [2..<sat_volume_blocks vol]), None)"
    by (rule sat_run_map) simp
  have "sat_list_visit vol acc m b (length l) (sat_size_of vol b) = ?v acc b l" if "L b = Some l" for acc m b l
    using that by (simp add: sat_list_visit_def sat_entry_def)
  then obtain m' where m': "sat_map_scan vol ((sat_map_open vol)\<lparr>sm_named := ?new\<rparr>) (sat_list_visit vol) [] =
      (m', map (sat_entry vol L) (filter (\<lambda>b. L b \<noteq> None) [2..<sat_volume_blocks vol]))"
    "sm_named m' = ?new" "sat_scanned vol L (sat_volume_blocks vol) m'"
    using sat_scan_run [OF L, where visit = "sat_list_visit vol" and v = ?v and ctx = "[]" and x = ?new] unfolding run by auto
  show ?thesis
    unfolding sigil_saturn_list_def Let_def m'(1) prod.case m'(2) SATURN_RESERVED_BLOCKS_def sat_scanned_free [OF L m'(3)] by simp
qed

section \<open>A clean listing has a layout\<close>

definition sat_part :: "sigil_saturn_volume \<Rightarrow> sat_layout \<Rightarrow> nat \<Rightarrow> bool" where
  "sat_part vol L k \<longleftrightarrow> (\<forall>a l. L a = Some l \<longrightarrow> a < k \<and> sat_save_ok vol a l) \<and> sat_disjoint L \<and>
     (\<forall>b. 2 \<le> b \<longrightarrow> b < k \<longrightarrow> sat_head vol b = SATURN_ARCHIVE_MARK \<longrightarrow> L b \<noteq> None)"

lemma sat_parse_loop_corrupt:
  "sat_parse_loop vol m a c = (ok, m', c') \<Longrightarrow> sm_corrupt m' = sm_corrupt m \<and> sm_named m' = sm_named m"
proof (induction vol m a c rule: sat_parse_loop.induct)
  case (1 vol m a c)
  from "1.prems" show ?case
    using "1.IH" by (subst (asm) sat_parse_loop.simps) (fastforce simp: Let_def split: option.splits prod.splits if_splits)
qed

lemma sat_parse_entry_corrupt: "sat_parse_entry vol m a = (r, m') \<Longrightarrow> sm_corrupt m' = sm_corrupt m \<and> sm_named m' = sm_named m"
  unfolding sat_parse_entry_def Let_def
  by (auto split: prod.splits if_splits dest!: sat_parse_loop_corrupt)

lemma sat_scan_corrupt_mono: "sm_corrupt m \<le> sm_corrupt (fst (sat_scan_loop vol visit bs m ctx))"
proof (induction bs arbitrary: m ctx)
  case (Cons b bs)
  obtain r m1 where p: "sat_parse_entry vol m b = (r, m1)" by (cases "sat_parse_entry vol m b")
  have c: "sm_corrupt m1 = sm_corrupt m" using sat_parse_entry_corrupt [OF p] by simp
  show ?case
  proof (cases "sigil_read_be32 (sat_data vol) (sat_block_at vol b) = SATURN_ARCHIVE_MARK")
    case False
    then show ?thesis using Cons by simp
  next
    case True
    show ?thesis
    proof (cases r)
      case None
      show ?thesis
        using True p c None
          Cons [of "m1\<lparr>sm_corrupt := sm_corrupt m1 + 1,
             sm_named := map_option (\<lambda>l. sigil_card_listing_corrupt l (Some (sat_archive_name vol b)) None b) (sm_named m1)\<rparr>" ctx]
        by simp
    next
      case (Some x)
      obtain n siz where x: "x = (n, siz)" by (cases x)
      obtain ctx1 go where v: "visit ctx m1 b n siz = (ctx1, go)" by (cases "visit ctx m1 b n siz")
      show ?thesis using True p c Some x v Cons [of m1 ctx1] by simp
    qed
  qed
qed simp

lemma sat_scan_clean:
  assumes g: "sat_geometry vol" and go: "\<And>ctx m a n siz. snd (visit ctx m a n siz)"
  shows "2 \<le> k \<Longrightarrow> k \<le> sat_volume_blocks vol \<Longrightarrow> sat_part vol L k \<Longrightarrow> sat_scanned vol L k m \<Longrightarrow>
    sm_corrupt (fst (sat_scan_loop vol visit [k..<sat_volume_blocks vol] m ctx)) = sm_corrupt m \<Longrightarrow>
    \<exists>L'. sat_part vol L' (sat_volume_blocks vol)"
proof (induction "sat_volume_blocks vol - k" arbitrary: k L m ctx)
  case 0
  then show ?case by auto
next
  case (Suc n)
  let ?V = "sat_volume_blocks vol"
  have k: "k < ?V" using Suc.hyps(2) by simp
  have u: "[k..<?V] = k # [Suc k..<?V]" using k by (rule upt_conv_Cons)
  have hd: "sigil_read_be32 (sat_data vol) (sat_block_at vol k) = sat_head vol k" by (simp add: sat_head_def sat_block_at_def)
  have Lk: "L k = None" using Suc.prems(3) by (cases "L k") (auto simp: sat_part_def)
  show ?case
  proof (cases "sat_head vol k = SATURN_ARCHIVE_MARK")
    case False
    have "sat_part vol L (Suc k)" using Suc.prems(3) False by (auto simp: sat_part_def less_Suc_eq)
    moreover have "sat_scanned vol L (Suc k) m" using Suc.prems(4) Lk by (auto simp: sat_scanned_def less_Suc_eq sat_holds_def)
    moreover have "sm_corrupt (fst (sat_scan_loop vol visit [Suc k..<?V] m ctx)) = sm_corrupt m"
      using Suc.prems(5) False by (simp add: u hd)
    ultimately show ?thesis using Suc.hyps(1) [of "Suc k" L m ctx] Suc.hyps(2) Suc.prems(1) k by simp
  next
    case True
    obtain r m1 where p: "sat_parse_entry vol m k = (r, m1)" by (cases "sat_parse_entry vol m k")
    have c: "sm_corrupt m1 = sm_corrupt m" using sat_parse_entry_corrupt [OF p] by simp
    show ?thesis
    proof (cases r)
      case None
      let ?m2 = "m1\<lparr>sm_corrupt := sm_corrupt m1 + 1,
        sm_named := map_option (\<lambda>l. sigil_card_listing_corrupt l (Some (sat_archive_name vol k)) None k) (sm_named m1)\<rparr>"
      have "sm_corrupt (fst (sat_scan_loop vol visit [Suc k..<?V] ?m2 ctx)) = sm_corrupt m"
        using Suc.prems(5) None p True by (simp add: u hd)
      moreover have "sm_corrupt ?m2 \<le> sm_corrupt (fst (sat_scan_loop vol visit [Suc k..<?V] ?m2 ctx))"
        by (rule sat_scan_corrupt_mono)
      ultimately show ?thesis using c by simp
    next
      case (Some x)
      obtain len siz where x: "x = (len, siz)" by (cases x)
      have V: "sm_blocks m = ?V" using Suc.prems(4) by (simp add: sat_scanned_def)
      obtain l where l: "sat_save_ok vol k l" "\<forall>b \<in> set l. sm_owner m b = 0" "len = length l" "siz = sat_size_of vol k"
        "m1 = m\<lparr>sm_owner := sat_claim k l (sm_owner m), sm_list := l\<rparr>"
        using sat_parse_entry_sound [OF g V p [unfolded Some x] True Suc.prems(1) k] by blast
      let ?L = "L(k \<mapsto> l)"
      have holds: "sat_holds ?L a b \<longleftrightarrow> (if a = k then b \<in> set (k # l) else sat_holds L a b)" for a b by (simp add: sat_holds_def)
      have below: "a < k" if "sat_holds L a b" for a b
        using that Suc.prems(3) by (auto simp: sat_holds_def sat_part_def split: option.splits)
      have apart: "\<not> sat_holds L a b" if "b \<in> set (k # l)" for a b
      proof
        assume h: "sat_holds L a b"
        then have "sm_owner m b \<noteq> 0" using Suc.prems(4) below [OF h] by (auto simp: sat_scanned_def)
        then have "b = k" using l(2) that by auto
        obtain l' where l': "L a = Some l'" "k \<in> set (a # l')" using h \<open>b = k\<close> by (auto simp: sat_holds_def split: option.splits)
        then have "k \<in> set l'" using below [OF h] by auto
        then have "sat_head vol k = 0" using l'(1) Suc.prems(3) by (auto simp: sat_part_def sat_save_ok_def)
        then show False using True sat_mark_nonzero by simp
      qed
      have dj: "sat_holds L a b \<Longrightarrow> sat_holds L a' b \<Longrightarrow> a = a'" for a b a'
        using Suc.prems(3) unfolding sat_part_def sat_disjoint_def by blast
      have "sat_disjoint ?L"
        unfolding sat_disjoint_def holds
      proof (intro allI impI)
        fix a a' b
        assume "if a = k then b \<in> set (k # l) else sat_holds L a b" "if a' = k then b \<in> set (k # l) else sat_holds L a' b"
        then show "a = a'" using apart [of b a] apart [of b a'] dj [of a b a']
          by (cases "a = k"; cases "a' = k") simp_all
      qed
      then have "sat_part vol ?L (Suc k)" using Suc.prems(3) l(1) by (auto simp: sat_part_def less_Suc_eq)
      moreover have "sat_scanned vol ?L (Suc k) m1"
      proof -
        have "sm_owner m1 b \<noteq> 0 \<longleftrightarrow> b \<in> set (k # l) \<or> sm_owner m b \<noteq> 0" for b by (simp add: l(5) sat_claim_def)
        moreover have "(\<exists>a < Suc k. sat_holds ?L a b) \<longleftrightarrow> b \<in> set (k # l) \<or> (\<exists>a < k. sat_holds L a b)" for b
        proof -
          have "(\<exists>a < Suc k. P a) \<longleftrightarrow> P k \<or> (\<exists>a < k. P a)" for P :: "nat \<Rightarrow> bool" using less_Suc_eq by auto
          moreover have "(\<exists>a < k. sat_holds ?L a b) \<longleftrightarrow> (\<exists>a < k. sat_holds L a b)" using holds by (metis less_irrefl)
          ultimately show ?thesis using holds [of k b] by simp
        qed
        moreover have "sm_blocks m1 = ?V" using V by (simp add: l(5))
        ultimately show ?thesis using Suc.prems(4) unfolding sat_scanned_def by blast
      qed
      moreover obtain ctx1 go1 where v: "visit ctx m1 k len siz = (ctx1, go1)" by (cases "visit ctx m1 k len siz")
      moreover have "go1" using go [of ctx m1 k len siz] v by simp
      ultimately show ?thesis
        using Suc.hyps(1) [of "Suc k" ?L m1 ctx1] Suc.hyps(2) Suc.prems(1,5) k p Some x True c by (simp add: u hd)
    qed
  qed
qed

lemma sat_scan_named:
  "\<exists>l. sm_named m = Some l \<and> corrupt_count l = sm_corrupt m \<Longrightarrow>
   \<exists>l. sm_named (fst (sat_scan_loop vol visit bs m ctx)) = Some l \<and>
     corrupt_count l = sm_corrupt (fst (sat_scan_loop vol visit bs m ctx))"
proof (induction bs arbitrary: m ctx)
  case (Cons b bs)
  obtain r m1 where p: "sat_parse_entry vol m b = (r, m1)" by (cases "sat_parse_entry vol m b")
  have c: "sm_corrupt m1 = sm_corrupt m" "sm_named m1 = sm_named m" using sat_parse_entry_corrupt [OF p] by simp_all
  show ?case
  proof (cases "sigil_read_be32 (sat_data vol) (sat_block_at vol b) = SATURN_ARCHIVE_MARK")
    case False
    then show ?thesis using Cons by simp
  next
    case True
    show ?thesis
    proof (cases r)
      case None
      show ?thesis
        using True p c None Cons.prems
          Cons.IH [of "m1\<lparr>sm_corrupt := sm_corrupt m1 + 1,
             sm_named := map_option (\<lambda>l. sigil_card_listing_corrupt l (Some (sat_archive_name vol b)) None b) (sm_named m1)\<rparr>" ctx]
        by auto
    next
      case (Some x)
      obtain n siz where x: "x = (n, siz)" by (cases x)
      obtain ctx1 go where v: "visit ctx m1 b n siz = (ctx1, go)" by (cases "visit ctx m1 b n siz")
      show ?thesis using True p c Some x v Cons.prems Cons.IH [of m1 ctx1] by simp
    qed
  qed
qed simp

lemma sat_clean_laid:
  assumes g: "sat_geometry vol" and l: "sigil_saturn_list vol = Inr l" "corrupt_count l = 0"
  shows "\<exists>L. sat_laid vol L"
proof -
  let ?m = "(sat_map_open vol)\<lparr>sm_named := Some (sigil_card_listing_new SIGIL_CARD_FORMAT_SATURN_BACKUP)\<rparr>"
  let ?r = "sat_scan_loop vol (sat_list_visit vol) [2..<sat_volume_blocks vol] ?m []"
  have "\<exists>l. sm_named (fst ?r) = Some l \<and> corrupt_count l = sm_corrupt (fst ?r)"
    by (rule sat_scan_named) (simp add: sat_map_open_def)
  moreover have "corrupt_count (the (sm_named (fst ?r))) = 0"
  proof -
    obtain m es where r: "?r = (m, es)" by (cases ?r)
    then have "sat_map_scan vol ?m (sat_list_visit vol) [] = (m, es)"
      by (simp add: sat_map_scan_def SATURN_RESERVED_BLOCKS_def) (simp add: sat_map_open_def)
    then show ?thesis using l r by (auto simp: sigil_saturn_list_def Let_def)
  qed
  ultimately have "sm_corrupt (fst ?r) = sm_corrupt ?m" by (auto simp: sat_map_open_def)
  moreover have "sat_part vol (\<lambda>_. None) 2" "sat_scanned vol (\<lambda>_. None) 2 ?m"
    by (simp_all add: sat_part_def sat_disjoint_def sat_scanned_def sat_holds_def sat_map_open_def)
  moreover have "snd (sat_list_visit vol ctx m a n siz)" for ctx m a n siz by (simp add: sat_list_visit_def)
  moreover have "2 \<le> sat_volume_blocks vol" using sat_geometry_cases(3) [OF g] by simp
  ultimately obtain L where L: "sat_part vol L (sat_volume_blocks vol)"
    using sat_scan_clean [OF g, of "sat_list_visit vol" 2 "\<lambda>_. None" ?m "[]"] by auto
  then have "sat_laid vol L" using g by (auto simp: sat_laid_def sat_part_def)
  then show ?thesis by blast
qed

end
