(* ===== verification/CardSaturnSpec.thy ===== *)
theory CardSaturnSpec
  imports CardSaturnProofs
begin

text \<open>
  What the operations on a Saturn volume do to its saves. A volume is read as the map from the archive
  blocks of its live saves to their fields and data; injecting adds one entry to the map, deleting
  removes one, and the volumes the library makes never hold a corrupt save.
\<close>

section \<open>Blocks\<close>

definition sat_blk :: "nat \<Rightarrow> mem \<Rightarrow> nat \<Rightarrow> bytes" where
  "sat_blk bs m b = bytes_at m (b * bs) bs"

lemma length_sat_blk [simp]: "length (sat_blk bs m b) = bs"
  by (simp add: sat_blk_def)

lemma sat_head_blk: "4 \<le> sat_block_size vol \<Longrightarrow> sat_head vol b = sigil_read_be32 (mem_of (sat_blk (sat_block_size vol) (sat_data vol) b)) 0"
  unfolding sat_head_def by (rule read_be32_cong) (simp add: mem_of_def sat_blk_def)

lemma sat_pay_blk: "4 \<le> sat_block_size vol \<Longrightarrow>
    bytes_at (sat_data vol) (b * sat_block_size vol + 4) (sat_pay vol) = drop 4 (sat_blk (sat_block_size vol) (sat_data vol) b)"
  by (rule nth_equalityI) (simp_all add: sat_blk_def sat_pay_def add.assoc)

lemma sat_size_blk: "34 \<le> sat_block_size vol \<Longrightarrow>
    sat_size_of vol a = unat (sigil_read_be32 (mem_of (sat_blk (sat_block_size vol) (sat_data vol) a)) 30)"
  unfolding sat_size_of_def by (rule arg_cong [where f = unat], rule read_be32_cong) (simp add: mem_of_def sat_blk_def add.assoc)

text \<open>The fields of a save: everything between the archive block's header and its list.\<close>

definition sat_fields :: "sigil_saturn_volume \<Rightarrow> nat \<Rightarrow> bytes" where
  "sat_fields vol a = bytes_at (sat_data vol) (a * sat_block_size vol + 4) 30"

lemma sat_fields_blk: "34 \<le> sat_block_size vol \<Longrightarrow> sat_fields vol a = take 30 (drop 4 (sat_blk (sat_block_size vol) (sat_data vol) a))"
  by (rule nth_equalityI) (simp_all add: sat_fields_def sat_blk_def add.assoc)

lemma sat_geometry_34: "sat_geometry vol \<Longrightarrow> 34 \<le> sat_block_size vol \<and> 4 \<le> sat_block_size vol"
  using sat_geometry_cases(1) [of vol] by auto

text \<open>A save depends on the bytes of its blocks only.\<close>

definition sat_same :: "sigil_saturn_volume \<Rightarrow> sigil_saturn_volume \<Rightarrow> nat \<Rightarrow> bool" where
  "sat_same v w b \<longleftrightarrow> sat_blk (sat_block_size v) (sat_data v) b = sat_blk (sat_block_size w) (sat_data w) b"

lemma sat_same_facts:
  assumes "sat_geometry v" "sat_block_size w = sat_block_size v" "\<forall>b \<in> set bl. sat_same v w b"
  shows "sat_bytes v bl = sat_bytes w bl" "\<forall>b \<in> set bl. sat_head v b = sat_head w b"
    "\<forall>b \<in> set bl. sat_size_of v b = sat_size_of w b" "\<forall>b \<in> set bl. sat_fields v b = sat_fields w b"
proof -
  have bs: "34 \<le> sat_block_size v" "4 \<le> sat_block_size v" using sat_geometry_34 [OF assms(1)] by simp_all
  have P: "sat_pay w = sat_pay v" by (simp add: sat_pay_def assms(2))
  have "bytes_at (sat_data v) (b * sat_block_size v + 4) (sat_pay v) = bytes_at (sat_data w) (b * sat_block_size w + 4) (sat_pay w)"
    if "b \<in> set bl" for b
    using assms(3) that bs sat_pay_blk [of v b] sat_pay_blk [of w b] by (simp add: sat_same_def assms(2))
  then show "sat_bytes v bl = sat_bytes w bl" unfolding sat_bytes_def by (metis (no_types, lifting) map_eq_conv)
  show "\<forall>b \<in> set bl. sat_head v b = sat_head w b" "\<forall>b \<in> set bl. sat_size_of v b = sat_size_of w b"
    "\<forall>b \<in> set bl. sat_fields v b = sat_fields w b"
    using assms(3) bs by (simp_all add: sat_same_def assms(2) sat_head_blk sat_size_blk sat_fields_blk)
qed

lemma sat_save_cong:
  assumes "sat_geometry v" "sat_block_size w = sat_block_size v" "sat_size w = sat_size v" "\<forall>b \<in> set (a # l). sat_same v w b"
  shows "sat_save_ok v a l = sat_save_ok w a l" "sat_fields v a = sat_fields w a" "sat_data_of v a l = sat_data_of w a l"
proof -
  note f = sat_same_facts [OF assms(1,2,4)]
  have V: "sat_volume_blocks w = sat_volume_blocks v" "sat_pay w = sat_pay v" by (simp_all add: sat_volume_blocks_def sat_pay_def assms)
  have e: "sat_ent v (a # l) i = sat_ent w (a # l) i" for i by (simp only: sat_ent_def f(1))
  show "sat_fields v a = sat_fields w a" using f(4) by simp
  show "sat_data_of v a l = sat_data_of w a l" using f(3) by (simp only: sat_data_of_def f(1)) simp
  show "sat_save_ok v a l = sat_save_ok w a l" using f(2,3) by (simp add: sat_save_ok_def V e)
qed

section \<open>The map of a volume\<close>

type_synonym sat_save = "bytes \<times> bytes"

definition sat_view :: "sigil_saturn_volume \<Rightarrow> nat \<Rightarrow> sat_save option" where
  "sat_view vol a =
     (case sat_find_entry vol a of
        Inl rc \<Rightarrow> None
      | Inr (l, siz) \<Rightarrow> map_option (\<lambda>d. (sat_fields vol a, d)) (sat_read_data vol a l siz))"

lemma sat_view_laid:
  assumes L: "sat_laid vol L"
  shows "sat_view vol a = map_option (\<lambda>l. (sat_fields vol a, sat_data_of vol a l)) (L a)"
proof (cases "L a")
  case None
  then show ?thesis by (simp add: sat_view_def sat_find_entry_laid [OF L])
next
  case (Some l)
  then have "sat_geometry vol" "sat_save_ok vol a l" using L by (simp_all add: sat_laid_def)
  then show ?thesis using Some by (simp add: sat_view_def sat_find_entry_laid [OF L] sat_read_data_laid)
qed

text \<open>Replacing the blocks of one save, or of none, keeps the others.\<close>

lemma sat_laid_update:
  assumes L: "sat_laid v L" and w: "sat_block_size w = sat_block_size v" "sat_size w = sat_size v"
    and same: "\<And>b. \<not> b \<in> X \<Longrightarrow> sat_same v w b" and off: "\<And>a b. sat_holds L' a b \<Longrightarrow> a \<noteq> n \<Longrightarrow> b \<notin> X"
    and L': "\<And>a. a \<noteq> n \<Longrightarrow> L' a = L a" and new: "\<And>l. L' n = Some l \<Longrightarrow> sat_save_ok w n l \<and> set (n # l) = X"
    and heads: "\<And>b. b \<in> X \<Longrightarrow> sat_head w b = SATURN_ARCHIVE_MARK \<Longrightarrow> L' b \<noteq> None"
    and gone: "L' n = None \<Longrightarrow> L n \<noteq> None \<Longrightarrow> n \<in> X"
  shows "sat_laid w L'" "a \<noteq> n \<Longrightarrow> sat_view w a = sat_view v a"
proof -
  have g: "sat_geometry v" "sat_geometry w" using L w by (simp_all add: sat_laid_def sat_geometry_def)
  have V: "sat_volume_blocks w = sat_volume_blocks v" by (simp add: sat_volume_blocks_def w)
  have keep: "sat_save_ok w a l" "sat_fields v a = sat_fields w a" "sat_data_of v a l = sat_data_of w a l" if "L' a = Some l" "a \<noteq> n" for a l
  proof -
    have "\<forall>b \<in> set (a # l). sat_same v w b" using that off [of a] same by (auto simp: sat_holds_def)
    note c = sat_save_cong [OF g(1) w this]
    show "sat_save_ok w a l" using c(1) L L' [OF that(2)] that(1) by (simp add: sat_laid_def)
    show "sat_fields v a = sat_fields w a" "sat_data_of v a l = sat_data_of w a l" by (rule c(2), rule c(3))
  qed
  have dis: "sat_disjoint L'"
    unfolding sat_disjoint_def
  proof (intro allI impI)
    fix a a' b assume h: "sat_holds L' a b" "sat_holds L' a' b"
    have X: "b \<in> X" if "sat_holds L' n b" using that new by (auto simp: sat_holds_def split: option.splits)
    show "a = a'"
    proof (cases "a = n \<or> a' = n")
      case True
      then show ?thesis using h X off by metis
    next
      case False
      then have "sat_holds L a b" "sat_holds L a' b" using h L' by (simp_all add: sat_holds_def)
      then show ?thesis using L unfolding sat_laid_def sat_disjoint_def by blast
    qed
  qed
  show laid: "sat_laid w L'"
    unfolding sat_laid_def V
  proof (intro conjI allI impI g(2) dis)
    show "sat_save_ok w a l" if "L' a = Some l" for a l using that keep(1) new by (cases "a = n") auto
    show "L' b \<noteq> None" if "2 \<le> b" "b < sat_volume_blocks v" "sat_head w b = SATURN_ARCHIVE_MARK" for b
    proof (cases "b \<in> X")
      case True
      then show ?thesis using heads that(3) by simp
    next
      case False
      have "sat_head v b = sat_head w b" using sat_same_facts(2) [OF g(1) w(1), of "[b]"] same [OF False] by simp
      then have Lb: "L b \<noteq> None" using L that by (simp add: sat_laid_def)
      show ?thesis
      proof (cases "b = n")
        case True
        then show ?thesis using gone Lb False by auto
      next
        case False
        then show ?thesis using L' Lb by simp
      qed
    qed
  qed
  show "sat_view w a = sat_view v a" if "a \<noteq> n"
    using keep(2,3) [OF _ that] L' [OF that] by (cases "L a") (simp_all add: sat_view_laid [OF L] sat_view_laid [OF laid])
qed

section \<open>Deleting\<close>

lemma block_other: "(0::nat) < bs \<Longrightarrow> k < bs \<Longrightarrow> x * bs \<le> b * bs + k \<and> b * bs + k < x * bs + bs \<longleftrightarrow> b = x"
proof
  assume a: "0 < bs" "k < bs" "x * bs \<le> b * bs + k \<and> b * bs + k < x * bs + bs"
  then have "(b * bs + k) div bs = x" by (intro div_nat_eqI) (simp_all add: mult.commute)
  then show "b = x" using a by simp
qed simp

lemma sat_blk_outside:
  assumes "0 < bs" "\<And>i. i < x * bs \<or> x * bs + bs \<le> i \<Longrightarrow> m' i = m i" "b \<noteq> x"
  shows "sat_blk bs m' b = sat_blk bs m b"
  unfolding sat_blk_def
proof (rule bytes_at_cong)
  fix i assume "i < bs"
  then show "m' (b * bs + i) = m (b * bs + i)" using assms(2) [of "b * bs + i"] block_other [OF assms(1), of i x b] assms(3) by linarith
qed

lemma sat_blk_zero:
  assumes "0 < bs"
  shows "sat_blk bs (memset m (x * bs) 0 bs) b = (if b = x then replicate bs 0 else sat_blk bs m b)"
proof (cases "b = x")
  case True
  then show ?thesis by (simp add: sat_blk_def) (rule nth_equalityI, simp_all add: memset_apply)
next
  case False
  then have "sat_blk bs (memset m (x * bs) 0 bs) b = sat_blk bs m b"
    by (intro sat_blk_outside [OF assms, of x]) (auto simp: memset_apply)
  then show ?thesis using False by simp
qed

lemma sat_blk_zeros:
  "0 < bs \<Longrightarrow> sat_blk bs (fold (\<lambda>b m. memset m (b * bs) 0 bs) bl m) b = (if b \<in> set bl then replicate bs 0 else sat_blk bs m b)"
  by (induction bl arbitrary: m) (simp_all add: sat_blk_zero)

lemma sat_head_zero:
  assumes "4 \<le> sat_block_size vol" "sat_blk (sat_block_size vol) (sat_data vol) b = replicate (sat_block_size vol) 0"
  shows "sat_head vol b = 0"
proof -
  have "sigil_read_be32 (mem_of (replicate (sat_block_size vol) 0)) 0 = sigil_read_be32 (\<lambda>_. 0) 0"
    by (rule read_be32_cong) (simp add: mem_of_def)
  then show ?thesis using assms by (simp add: sat_head_blk) (simp add: sigil_read_be32_def)
qed

definition sat_deleted :: "sigil_saturn_volume \<Rightarrow> nat \<Rightarrow> nat list \<Rightarrow> sigil_saturn_volume" where
  "sat_deleted vol a l = vol\<lparr>sat_data := fold (\<lambda>b m. memset m (b * sat_block_size vol) 0 (sat_block_size vol)) (a # l) (sat_data vol)\<rparr>"

lemma sat_delete_laid:
  assumes L: "sat_laid vol L"
  shows "sigil_saturn_delete vol a = (case L a of None \<Rightarrow> (SIGIL_ERR_INVALID_ARG, vol) | Some l \<Rightarrow> (SIGIL_OK, sat_deleted vol a l))"
  by (simp add: sigil_saturn_delete_def sat_find_entry_laid [OF L] sat_deleted_def sat_block_at_def split: option.splits)

lemma sat_deleted_laid:
  assumes L: "sat_laid vol L" and a: "L a = Some l"
  shows "sat_laid (sat_deleted vol a l) (L(a := None))" "sat_view (sat_deleted vol a l) = (sat_view vol)(a := None)"
    "sat_free_blocks (sat_deleted vol a l) (L(a := None)) = filter (\<lambda>b. b \<in> set (a # l) \<or> b \<in> set (sat_free_blocks vol L)) [2..<sat_volume_blocks vol]"
proof -
  let ?w = "sat_deleted vol a l" and ?L = "L(a := None)"
  have g: "sat_geometry vol" using L by (simp add: sat_laid_def)
  have bs: "0 < sat_block_size vol" "4 \<le> sat_block_size vol" using sat_geometry_34 [OF g] by simp_all
  have w: "sat_block_size ?w = sat_block_size vol" "sat_size ?w = sat_size vol" by (simp_all add: sat_deleted_def)
  have blk: "sat_blk (sat_block_size ?w) (sat_data ?w) b =
      (if b \<in> set (a # l) then replicate (sat_block_size vol) 0 else sat_blk (sat_block_size vol) (sat_data vol) b)" for b
    using sat_blk_zeros [OF bs(1), of "a # l"] by (simp add: sat_deleted_def)
  have heads: "sat_head ?w b = 0" if "b \<in> set (a # l)" for b
    by (rule sat_head_zero) (use bs w blk that in simp_all)
  have off: "b \<notin> set (a # l)" if "sat_holds ?L a' b" "a' \<noteq> a" for a' b
  proof
    assume "b \<in> set (a # l)"
    then have "sat_holds L a b" using a by (simp add: sat_holds_def)
    moreover have "sat_holds L a' b" using that by (simp add: sat_holds_def)
    ultimately show False using L that(2) unfolding sat_laid_def sat_disjoint_def by blast
  qed
  have up: "sat_laid ?w ?L" "\<And>a'. a' \<noteq> a \<Longrightarrow> sat_view ?w a' = sat_view vol a'"
    by (rule sat_laid_update [OF L w, where X = "set (a # l)" and L' = ?L and n = a];
        use heads off blk sat_mark_nonzero in \<open>auto simp: sat_same_def\<close>)+
  show "sat_laid ?w ?L" by (rule up(1))
  show "sat_view ?w = (sat_view vol)(a := None)"
    using up(2) sat_view_laid [OF up(1), of a] by (auto simp: fun_eq_iff)
  have V: "sat_volume_blocks ?w = sat_volume_blocks vol" by (simp add: sat_volume_blocks_def w)
  have "\<not> (\<exists>a'. sat_holds ?L a' b) \<longleftrightarrow> b \<in> set (a # l) \<or> \<not> (\<exists>a'. sat_holds L a' b)" for b
  proof
    assume n: "\<not> (\<exists>a'. sat_holds ?L a' b)"
    have "b \<in> set (a # l)" if "sat_holds L a' b" for a'
    proof (cases "a' = a")
      case True
      then show ?thesis using that a by (simp add: sat_holds_def)
    next
      case False
      then have "sat_holds ?L a' b" using that by (simp add: sat_holds_def)
      then show ?thesis using n by blast
    qed
    then show "b \<in> set (a # l) \<or> \<not> (\<exists>a'. sat_holds L a' b)" by blast
  next
    assume r: "b \<in> set (a # l) \<or> \<not> (\<exists>a'. sat_holds L a' b)"
    show "\<not> (\<exists>a'. sat_holds ?L a' b)"
    proof
      assume "\<exists>a'. sat_holds ?L a' b"
      then obtain a' where h: "sat_holds ?L a' b" by blast
      then have "a' \<noteq> a" "sat_holds L a' b" by (auto simp: sat_holds_def split: if_splits)
      then show False using r off [OF h] by blast
    qed
  qed
  then show "sat_free_blocks ?w ?L = filter (\<lambda>b. b \<in> set (a # l) \<or> b \<in> set (sat_free_blocks vol L)) [2..<sat_volume_blocks vol]"
    unfolding sat_free_blocks_def V by (intro filter_cong) auto
qed

section \<open>Injecting\<close>

text \<open>A stream with zeros past its end, and the block that carries its piece \<open>i\<close>.\<close>

definition sat_padded :: "mem \<Rightarrow> nat \<Rightarrow> mem" where
  "sat_padded s len j = (if j < len then s j else 0)"

definition sat_piece :: "nat \<Rightarrow> mem \<Rightarrow> nat \<Rightarrow> nat \<Rightarrow> bytes" where
  "sat_piece bs s len i = bytes_at (sigil_write_be32 (\<lambda>_. 0) 0 (if i = 0 then SATURN_ARCHIVE_MARK else 0)) 0 4
     @ bytes_at (sat_padded s len) (i * (bs - 4)) (bs - 4)"

lemma sat_put_outside:
  assumes "t \<le> bs - 4" "4 < bs" "j < o1 \<or> o1 + bs \<le> j"
  shows "memcpy (sigil_write_be32 (memset m o1 0 bs) o1 h) (o1 + 4) s at t j = m j"
proof -
  have "\<not> (o1 + 4 \<le> j \<and> j < o1 + 4 + t)" "\<not> (o1 \<le> j \<and> j < o1 + bs)" "j \<noteq> o1" "j \<noteq> o1 + 1" "j \<noteq> o1 + 2" "j \<noteq> o1 + 3"
    using assms by linarith+
  then show ?thesis unfolding memcpy_apply write_be32_apply memset_apply by (simp only: if_False simp_thms)
qed

lemma sat_put_head:
  assumes "4 < bs" "k < 4"
  shows "memcpy (sigil_write_be32 (memset m o1 0 bs) o1 h) (o1 + 4) s at t (o1 + k) = sigil_write_be32 (\<lambda>_. 0) 0 h k"
proof -
  have "\<not> (o1 + 4 \<le> o1 + k)" "k < bs" using assms by linarith+
  then show ?thesis using assms(2) by (simp add: memcpy_apply write_be32_apply memset_apply)
qed

lemma sat_put_body:
  assumes "j < bs - 4"
  shows "memcpy (sigil_write_be32 (memset m o1 0 bs) o1 h) (o1 + 4) s at t (o1 + (4 + j)) = (if j < t then s (at + j) else 0)"
proof -
  have a: "o1 + (4 + j) < o1 + bs" "o1 + 4 \<le> o1 + (4 + j)" "o1 \<le> o1 + (4 + j)"
    "o1 + (4 + j) < o1 + 4 + t \<longleftrightarrow> j < t" "o1 + (4 + j) - (o1 + 4) = j" "o1 + (4 + j) \<noteq> o1" "o1 + (4 + j) \<noteq> o1 + 1"
    "o1 + (4 + j) \<noteq> o1 + 2" "o1 + (4 + j) \<noteq> o1 + 3"
    using assms by linarith+
  show ?thesis unfolding memcpy_apply write_be32_apply memset_apply using a by (simp only: simp_thms if_True if_False)
qed

lemma sat_padded_piece:
  assumes "j < p"
  shows "(if j < min p (len - min q len) then s (min q len + j) else 0) = sat_padded s len (q + j)"
proof (cases "q \<le> len")
  case True
  then have "j < min p (len - min q len) \<longleftrightarrow> q + j < len" "min q len = q" using assms by auto
  then show ?thesis by (simp add: sat_padded_def)
next
  case False
  then have "\<not> j < min p (len - min q len)" "\<not> q + j < len" by auto
  then show ?thesis unfolding sat_padded_def by (simp only: if_False)
qed

lemma sat_write_block_blk:
  assumes bs: "sat_block_size vol = bs" "4 < bs" and at: "at = min (i * (bs - 4)) len"
    and w: "sat_write_block vol chosen s len i (m, at) = (m', at')"
  shows "at' = min (Suc i * (bs - 4)) len" "sat_blk bs m' b = (if b = chosen ! i then sat_piece bs s len i else sat_blk bs m b)"
proof -
  let ?x = "chosen ! i" and ?t = "min (bs - 4) (len - at)"
  let ?h = "if i = 0 then SATURN_ARCHIVE_MARK else 0"
  have m': "m' = memcpy (sigil_write_be32 (memset m (?x * bs) 0 bs) (?x * bs) ?h) (?x * bs + 4) s at ?t" and at': "at' = at + ?t"
    using w by (simp_all add: sat_write_block_def Let_def bs SATURN_BLOCK_HEADER_def sat_block_at_def)
  show "at' = min (Suc i * (bs - 4)) len"
  proof -
    have "min x len + min p (len - min x len) = min (p + x) len" for x p :: nat by (auto simp: min_def)
    then show ?thesis unfolding at' at by simp
  qed
  have outside: "m' j = m j" if "j < ?x * bs \<or> ?x * bs + bs \<le> j" for j
    unfolding m' by (rule sat_put_outside) (use that bs(2) in simp_all)
  have inside: "sat_blk bs m' ?x = sat_piece bs s len i"
  proof (rule nth_equalityI)
    show "length (sat_blk bs m' ?x) = length (sat_piece bs s len i)" using bs(2) by (simp add: sat_piece_def)
    fix k assume "k < length (sat_blk bs m' ?x)"
    then have k: "k < bs" by simp
    show "sat_blk bs m' ?x ! k = sat_piece bs s len i ! k"
    proof (cases "k < 4")
      case True
      then have "m' (?x * bs + k) = sigil_write_be32 (\<lambda>_. 0) 0 ?h k"
        unfolding m' by (rule sat_put_head [OF bs(2)])
      then show ?thesis using True k by (simp add: sat_blk_def sat_piece_def nth_append)
    next
      case False
      then obtain j where j: "k = 4 + j" by (metis le_add_diff_inverse not_less)
      have jb: "j < bs - 4" using j k by simp
      have "m' (?x * bs + k) = (if j < ?t then s (at + j) else 0)"
        unfolding m' j by (rule sat_put_body [OF jb])
      also have "\<dots> = sat_padded s len (i * (bs - 4) + j)"
        unfolding at by (rule sat_padded_piece [OF jb])
      finally show ?thesis using k j jb by (simp add: sat_blk_def sat_piece_def nth_append)
    qed
  qed
  have "0 < bs" using bs(2) by simp
  then show "sat_blk bs m' b = (if b = ?x then sat_piece bs s len i else sat_blk bs m b)"
    using inside sat_blk_outside [of bs ?x m' m b] outside by auto
qed

lemma find_snoc: "find P (xs @ [y]) = (case find P xs of Some x \<Rightarrow> Some x | None \<Rightarrow> if P y then Some y else None)"
  by (induction xs) auto

lemma sat_write_blocks:
  assumes bs: "sat_block_size vol = bs" "4 < bs" and d: "distinct chosen" and k: "k \<le> length chosen"
  shows "snd (fold (sat_write_block vol chosen s len) [0..<k] (m, 0)) = min (k * (bs - 4)) len"
    and "sat_blk bs (fst (fold (sat_write_block vol chosen s len) [0..<k] (m, 0))) b =
      (case find (\<lambda>i. chosen ! i = b) [0..<k] of Some i \<Rightarrow> sat_piece bs s len i | None \<Rightarrow> sat_blk bs m b)"
  using k
proof (induction k arbitrary: b)
  case 0
  { case 1 then show ?case by simp next case 2 then show ?case by simp }
next
  case (Suc k)
  obtain m1 at1 where f: "fold (sat_write_block vol chosen s len) [0..<k] (m, 0) = (m1, at1)" by fastforce
  obtain m2 at2 where w: "sat_write_block vol chosen s len k (m1, at1) = (m2, at2)" by fastforce
  have u: "fold (sat_write_block vol chosen s len) [0..<Suc k] (m, 0) = (m2, at2)" using f w by simp
  have kl: "k \<le> length chosen" "Suc k \<le> length chosen" if "Suc k \<le> length chosen" using that by simp_all
  have find: "find (\<lambda>i. chosen ! i = b) [0..<Suc k] =
      (case find (\<lambda>i. chosen ! i = b) [0..<k] of Some i \<Rightarrow> Some i | None \<Rightarrow> if chosen ! k = b then Some k else None)" for b
    by (simp add: find_snoc)
  { case 1
    have at1: "at1 = min (k * (bs - 4)) len" using Suc.IH(1) [OF kl(1) [OF 1]] f by simp
    show ?case unfolding u using sat_write_block_blk(1) [OF bs at1 w] by simp
  next
    case 2
    have at1: "at1 = min (k * (bs - 4)) len" using Suc.IH(1) [OF kl(1) [OF 2]] f by simp
    have notin: "find (\<lambda>i. chosen ! i = b) [0..<k] = None" if "b = chosen ! k"
      unfolding find_None_iff using that d 2 by (auto simp: nth_eq_iff_index_eq)
    show ?case unfolding u fst_conv sat_write_block_blk(2) [OF bs at1 w] find
      using Suc.IH(2) [OF kl(1) [OF 2], of b] f notin by (auto split: option.splits) }
qed

lemma sat_written_blk:
  assumes bs: "sat_block_size vol = bs" "4 < bs" and d: "distinct chosen"
  shows "i < length chosen \<Longrightarrow> sat_blk bs (sat_data (sat_write_entry vol chosen (length chosen) s len)) (chosen ! i) = sat_piece bs s len i"
    and "b \<notin> set chosen \<Longrightarrow> sat_blk bs (sat_data (sat_write_entry vol chosen (length chosen) s len)) b = sat_blk bs (sat_data vol) b"
proof -
  note w = sat_write_blocks(2) [OF bs d order_refl, of s len "sat_data vol"]
  show "sat_blk bs (sat_data (sat_write_entry vol chosen (length chosen) s len)) (chosen ! i) = sat_piece bs s len i" if i: "i < length chosen"
  proof -
    have "find (\<lambda>j. chosen ! j = chosen ! i) [0..<length chosen] = Some i"
      unfolding find_Some_iff using i d by (intro exI [of _ i]) (auto simp: nth_eq_iff_index_eq)
    then show ?thesis using w by (simp add: sat_write_entry_def)
  qed
  show "sat_blk bs (sat_data (sat_write_entry vol chosen (length chosen) s len)) b = sat_blk bs (sat_data vol) b" if "b \<notin> set chosen"
  proof -
    have "find (\<lambda>j. chosen ! j = b) [0..<length chosen] = None"
      unfolding find_None_iff using that by auto
    then show ?thesis using w by (simp add: sat_write_entry_def)
  qed
qed

lemma concat_pieces: "concat (map (\<lambda>i. bytes_at m (i * p) p) [0..<n]) = bytes_at m 0 (n * p)"
proof (induction n)
  case (Suc n)
  have "bytes_at m 0 (Suc n * p) = bytes_at m 0 (n * p) @ bytes_at m (n * p) p"
    using bytes_at_add [of m 0 "n * p" p] by (simp add: add.commute)
  then show ?case using Suc by simp
qed (simp add: bytes_at_def)

lemma drop_sat_piece: "drop 4 (sat_piece bs s len i) = bytes_at (sat_padded s len) (i * (bs - 4)) (bs - 4)"
  by (simp add: sat_piece_def)

lemma sat_written_bytes:
  assumes bs: "4 < sat_block_size vol" and d: "distinct chosen"
    and w_def: "w = sat_write_entry vol chosen (length chosen) s len"
  shows "sat_bytes w chosen = bytes_at (sat_padded s len) 0 (length chosen * sat_pay vol)"
proof -
  have wb: "sat_block_size w = sat_block_size vol" "sat_pay w = sat_pay vol" by (simp_all add: w_def sat_write_entry_def sat_pay_def)
  have "map (\<lambda>b. bytes_at (sat_data w) (b * sat_block_size w + 4) (sat_pay w)) chosen =
      map (\<lambda>i. bytes_at (sat_padded s len) (i * sat_pay vol) (sat_pay vol)) [0..<length chosen]"
  proof (rule nth_equalityI)
    fix i assume i: "i < length (map (\<lambda>b. bytes_at (sat_data w) (b * sat_block_size w + 4) (sat_pay w)) chosen)"
    have "sat_blk (sat_block_size vol) (sat_data w) (chosen ! i) = sat_piece (sat_block_size vol) s len i"
      unfolding w_def by (rule sat_written_blk(1) [OF refl bs d]) (use i in simp)
    then have "bytes_at (sat_data w) ((chosen ! i) * sat_block_size w + 4) (sat_pay w) = bytes_at (sat_padded s len) (i * sat_pay vol) (sat_pay vol)"
      using bs sat_pay_blk [of w "chosen ! i"] by (simp add: wb drop_sat_piece) (simp add: sat_pay_def)
    then show "map (\<lambda>b. bytes_at (sat_data w) (b * sat_block_size w + 4) (sat_pay w)) chosen ! i =
        map (\<lambda>i. bytes_at (sat_padded s len) (i * sat_pay vol) (sat_pay vol)) [0..<length chosen] ! i" using i by simp
  qed simp
  then show ?thesis unfolding sat_bytes_def by (simp only: concat_pieces)
qed

text \<open>The stream of a .bup: its fields, its list, the terminator and its data.\<close>

lemma write_list_outside:
  "j < p \<or> p + 2 * (n - 1) \<le> j \<Longrightarrow> fold (\<lambda>i s. sigil_write_be16 s (p + (i - 1) * 2) (v i)) [1..<n] s j = s j"
proof (induction n)
  case (Suc n)
  show ?case
  proof (cases "1 \<le> n")
    case True
    have "j \<noteq> p + (n - 1) * 2" "j \<noteq> p + (n - 1) * 2 + 1" "j < p \<or> p + 2 * (n - 1) \<le> j" using Suc.prems True by linarith+
    then show ?thesis using True Suc.IH by (simp add: write_be16_apply)
  qed simp
qed simp

lemma write_list_read:
  "1 \<le> i \<Longrightarrow> i < n \<Longrightarrow> sigil_read_be16 (fold (\<lambda>i s. sigil_write_be16 s (p + (i - 1) * 2) (v i)) [1..<n] s) (p + (i - 1) * 2) = v i"
proof (induction n)
  case (Suc n)
  let ?f = "fold (\<lambda>i s. sigil_write_be16 s (p + (i - 1) * 2) (v i)) [1..<n] s"
  have u: "fold (\<lambda>i s. sigil_write_be16 s (p + (i - 1) * 2) (v i)) [1..<Suc n] s = sigil_write_be16 ?f (p + (n - 1) * 2) (v n)"
    using Suc.prems by simp
  show ?case
  proof (cases "i = n")
    case True
    then show ?thesis unfolding u by (simp only: read_write_be16)
  next
    case False
    have "p + (i - 1) * 2 \<noteq> p + (n - 1) * 2" "p + (i - 1) * 2 \<noteq> p + (n - 1) * 2 + 1"
      "p + (i - 1) * 2 + 1 \<noteq> p + (n - 1) * 2" "p + (i - 1) * 2 + 1 \<noteq> p + (n - 1) * 2 + 1"
      using False Suc.prems by presburger+
    then have "sigil_read_be16 (sigil_write_be16 ?f (p + (n - 1) * 2) (v n)) (p + (i - 1) * 2) = sigil_read_be16 ?f (p + (i - 1) * 2)"
      by (intro read_be16_cong) (simp_all only: write_be16_apply if_False)
    then show ?thesis unfolding u using Suc.IH Suc.prems False by simp
  qed
qed simp

definition sat_bup_fields :: "mem \<Rightarrow> bytes" where
  "sat_bup_fields bup = bytes_at bup 16 11 @ [bup 39] @ bytes_at bup 28 10 @ bytes_at bup 40 4 @ bytes_at bup 44 4"

definition sat_stream_head :: "mem \<Rightarrow> mem" where
  "sat_stream_head bup = memcpy (memcpy (memcpy ((memcpy (\<lambda>_. 0) 0 bup 16 11)(11 := bup 39)) 12 bup 28 10) 22 bup 40 4) 26 bup 44 4"

lemma sat_stream_eq:
  "sat_stream bup chosen n siz = memcpy (fold (\<lambda>i s. sigil_write_be16 s (30 + (i - 1) * 2) (of_nat (chosen ! i))) [1..<n]
     (sat_stream_head bup)) (30 + n * 2) bup 64 siz"
  by (simp add: sat_stream_def Let_def sat_consts sat_stream_head_def)

lemma sat_stream_fields: "bytes_at (sat_stream bup chosen n siz) 0 30 = sat_bup_fields bup"
proof -
  have h: "bytes_at (sat_stream bup chosen n siz) 0 30 = bytes_at (sat_stream_head bup) 0 30"
    unfolding sat_stream_eq by (rule bytes_at_cong) (simp add: memcpy_apply write_list_outside [unfolded One_nat_def])
  show ?thesis unfolding h by (simp add: sat_stream_head_def sat_bup_fields_def bytes_at_def upt_rec memcpy_apply)
qed

lemma sat_stream_entry:
  assumes "1 \<le> i" "i < n"
  shows "sigil_read_be16 (sat_stream bup chosen n siz) (30 + 2 * (i - 1)) = of_nat (chosen ! i)"
proof -
  let ?f = "fold (\<lambda>i s. sigil_write_be16 s (30 + (i - 1) * 2) (of_nat (chosen ! i))) [1..<n] (sat_stream_head bup)"
  have "\<not> 30 + n * 2 \<le> 30 + 2 * (i - 1)" "\<not> 30 + n * 2 \<le> 30 + 2 * (i - 1) + 1" using assms by linarith+
  then have "sigil_read_be16 (sat_stream bup chosen n siz) (30 + 2 * (i - 1)) = sigil_read_be16 ?f (30 + (i - 1) * 2)"
    unfolding sat_stream_eq by (intro read_be16_cong) (simp_all only: memcpy_apply if_False simp_thms mult.commute [of 2])
  then show ?thesis using write_list_read [OF assms, of 30 "\<lambda>i. of_nat (chosen ! i)" "sat_stream_head bup"] by simp
qed

lemma sat_stream_end:
  assumes "1 \<le> n"
  shows "sigil_read_be16 (sat_stream bup chosen n siz) (30 + 2 * (n - 1)) = 0"
proof -
  have z: "sat_stream bup chosen n siz (30 + 2 * (n - 1) + k) = 0" if "k < 2" for k
  proof -
    have "\<not> 30 + n * 2 \<le> 30 + 2 * (n - 1) + k" "30 + 2 * (n - 1) \<le> 30 + 2 * (n - 1) + k" "30 \<le> 30 + 2 * (n - 1) + k" using that assms by linarith+
    then show ?thesis by (simp add: sat_stream_eq memcpy_apply write_list_outside [unfolded One_nat_def] sat_stream_head_def)
  qed
  show ?thesis using z [of 0] z [of 1] by (simp add: sigil_read_be16_def)
qed

lemma sat_stream_data: "bytes_at (sat_stream bup chosen n siz) (30 + 2 * n) siz = bytes_at bup 64 siz"
  unfolding sat_stream_eq by (rule bytes_at_cong) (simp add: memcpy_apply)

lemma sat_blocks_needed_fit:
  assumes "60 \<le> bs - 4"
  shows "1 \<le> sat_blocks_needed bs siz" "30 + 2 * sat_blocks_needed bs siz + siz \<le> sat_blocks_needed bs siz * (bs - 4)"
proof -
  define p where "p = bs - 6"
  have p: "58 \<le> p" "bs - 4 = p + 2" using assms by (simp_all add: p_def)
  have n: "sat_blocks_needed bs siz = (30 + siz + p - 1) div p"
    by (simp add: sat_blocks_needed_def Let_def sat_consts p_def)
  have "(30 + siz + p - 1) = 30 + siz + p - 1" ..
  have q: "30 + siz \<le> ((30 + siz + p - 1) div p) * p"
  proof -
    have "(30 + siz + p - 1) mod p < p" using p(1) by simp
    moreover have "30 + siz + p - 1 = ((30 + siz + p - 1) div p) * p + (30 + siz + p - 1) mod p" by (simp only: div_mult_mod_eq)
    ultimately show ?thesis by linarith
  qed
  show "1 \<le> sat_blocks_needed bs siz" using q n by (cases "sat_blocks_needed bs siz") auto
  have "sat_blocks_needed bs siz * (bs - 4) = sat_blocks_needed bs siz * p + 2 * sat_blocks_needed bs siz"
    unfolding p(2) by (simp add: distrib_left)
  then show "30 + 2 * sat_blocks_needed bs siz + siz \<le> sat_blocks_needed bs siz * (bs - 4)"
    using q unfolding n by linarith
qed

lemma sat_padded_part: "x + k \<le> len \<Longrightarrow> bytes_at (sat_padded s len) x k = bytes_at s x k"
  by (rule bytes_at_cong) (simp add: sat_padded_def)

lemma read_be16_bytes: "sigil_read_be16 (mem_of (bytes_at m x 2)) 0 = sigil_read_be16 m x"
  by (rule read_be16_cong) (simp_all add: mem_of_def)

lemma sat_piece_head: "4 < bs \<Longrightarrow> sigil_read_be32 (mem_of (sat_piece bs s len i)) 0 = (if i = 0 then SATURN_ARCHIVE_MARK else 0)"
proof -
  assume "4 < bs"
  then have "sigil_read_be32 (mem_of (sat_piece bs s len i)) 0 =
      sigil_read_be32 (sigil_write_be32 (\<lambda>_. 0) 0 (if i = 0 then SATURN_ARCHIVE_MARK else 0)) 0"
    by (intro read_be32_cong) (simp add: mem_of_def sat_piece_def nth_append)
  then show ?thesis by (simp only: read_write_be32)
qed

text \<open>The save that writing a .bup over the blocks \<open>a # l\<close> makes.\<close>

lemma sat_written_save:
  assumes g: "sat_geometry vol" and d: "distinct (a # l)" and r: "\<forall>b \<in> set (a # l). 2 \<le> b \<and> b < sat_volume_blocks vol"
    and siz: "siz = unat (sigil_read_be32 bup 44)" and n: "length (a # l) = n" "n = sat_blocks_needed (sat_block_size vol) siz"
    and w: "w = sat_write_entry vol (a # l) n (sat_stream bup (a # l) n siz) (30 + n * 2 + siz)"
  shows "sat_save_ok w a l" "sat_fields w a = sat_bup_fields bup" "sat_data_of w a l = bytes_at bup 64 siz" "sat_size_of w a = siz"
    "\<forall>b \<in> set l. sat_head w b = 0"
proof -
  define S where "S = sat_stream bup (a # l) n siz"
  define len where "len = 30 + 2 * n + siz"
  define bs where "bs = sat_block_size vol"
  define M where "M = sat_padded S len"
  have bs: "34 \<le> bs" "4 < bs" "60 \<le> bs - 4" using sat_geometry_cases(1) [OF g] by (auto simp: bs_def)
  have P: "sat_pay vol = bs - 4" by (simp add: sat_pay_def bs_def)
  have w': "w = sat_write_entry vol (a # l) (length (a # l)) S len" using w n by (simp add: S_def len_def mult.commute)
  have wb: "sat_block_size w = bs" "sat_volume_blocks w = sat_volume_blocks vol" "sat_pay w = bs - 4"
    by (simp_all add: w sat_write_entry_def sat_volume_blocks_def bs_def sat_pay_def)
  have fit: "1 \<le> n" "len \<le> n * (bs - 4)" using sat_blocks_needed_fit [OF bs(3), of siz] n(2) by (simp_all add: bs_def len_def)
  have bytes: "sat_bytes w (a # l) = bytes_at M 0 (n * (bs - 4))"
    unfolding M_def P [symmetric] n(1) [symmetric] by (rule sat_written_bytes [OF _ d w']) (use bs bs_def in simp)
  have part: "take k (drop x (sat_bytes w (a # l))) = bytes_at S x k" if "x + k \<le> len" for x k
    unfolding bytes using fit(2) that bytes_at_part [of x k "n * (bs - 4)" M 0] by (simp add: M_def sat_padded_part)
  have blk: "sat_blk bs (sat_data w) ((a # l) ! i) = sat_piece bs S len i" if "i < n" for i
    unfolding w' by (rule sat_written_blk(1)) (use bs d that n in \<open>simp_all add: bs_def\<close>)
  have head: "sat_head w ((a # l) ! i) = (if i = 0 then SATURN_ARCHIVE_MARK else 0)" if "i < n" for i
  proof -
    have "4 \<le> sat_block_size w" using wb(1) bs by simp
    then show ?thesis using blk [OF that] sat_piece_head [OF bs(2)] by (simp add: sat_head_blk wb(1))
  qed
  have heads: "\<forall>b \<in> set l. sat_head w b = 0"
  proof
    fix b assume "b \<in> set l"
    then obtain i where "i < length l" "l ! i = b" by (auto simp: in_set_conv_nth)
    then show "sat_head w b = 0" using head [of "Suc i"] n(1) by simp
  qed
  then show "\<forall>b \<in> set l. sat_head w b = 0" .
  have blk0: "sat_blk bs (sat_data w) a = sat_piece bs S len 0" using blk [of 0] fit(1) by simp
  have pay0: "take k (drop (4 + j) (sat_piece bs S len 0)) = bytes_at S j k" if "j + k \<le> 30" for j k
  proof -
    have "take k (drop (4 + j) (sat_piece bs S len 0)) = take k (drop j (drop 4 (sat_piece bs S len 0)))" by (simp add: add.commute)
    also have "\<dots> = bytes_at M j k" unfolding drop_sat_piece M_def [symmetric] using that bs bytes_at_part [of j k "bs - 4" M 0] by simp
    finally show ?thesis using that by (simp add: M_def sat_padded_part len_def)
  qed
  show f: "sat_fields w a = sat_bup_fields bup"
    using pay0 [of 0 30] bs sat_stream_fields [of bup "a # l" n siz] by (simp add: sat_fields_blk wb(1) blk0 S_def)
  show z: "sat_size_of w a = siz"
  proof -
    have "sigil_read_be32 (mem_of (sat_piece bs S len 0)) 30 = sigil_read_be32 bup 44"
    proof (rule read_be32_cong)
      fix k :: nat assume k: "k < 4"
      have "bytes_at S 0 30 ! (26 + k) = sat_bup_fields bup ! (26 + k)" by (simp add: S_def sat_stream_fields)
      also have "\<dots> = bup (44 + k)" using k by (simp add: sat_bup_fields_def nth_append)
      finally have "S (26 + k) = bup (44 + k)" using k by simp
      moreover have "sat_piece bs S len 0 ! (30 + k) = M (26 + k)"
      proof -
        have "30 + k = 4 + (26 + k)" by simp
        then show ?thesis using k bs by (simp add: sat_piece_def nth_append M_def)
      qed
      ultimately show "mem_of (sat_piece bs S len 0) (30 + k) = bup (44 + k)"
        using k bs by (simp add: mem_of_def M_def sat_padded_def len_def sat_piece_def)
    qed
    then show ?thesis using bs by (simp add: sat_size_blk wb(1) blk0 siz)
  qed
  have len': "length l + 1 = n" using n(1) by simp
  show "sat_data_of w a l = bytes_at bup 64 siz"
    unfolding sat_data_of_def z len' using part [of "30 + 2 * n" siz] sat_stream_data [of bup "a # l" n siz] by (simp add: len_def S_def)
  have ent: "sat_ent w (a # l) i = unat (sigil_read_be16 S (30 + 2 * i))" if "i < n" for i
    using part [of "30 + 2 * i" 2] that by (simp add: sat_ent_def len_def read_be16_bytes)
  have "sat_ent w (a # l) i = l ! i" if i: "i < length l" for i
  proof -
    have "sigil_read_be16 S (30 + 2 * (Suc i - 1)) = of_nat ((a # l) ! Suc i)"
      unfolding S_def by (rule sat_stream_entry) (use i n in simp_all)
    moreover have "l ! i < 65536"
    proof -
      have "l ! i < sat_volume_blocks vol" using r i by simp
      then show ?thesis using sat_geometry_cases(4) [OF g] by linarith
    qed
    ultimately show ?thesis using ent [of i] i n by (simp add: unat_of_nat16)
  qed
  moreover have "sat_ent w (a # l) (length l) = 0"
  proof -
    have "n - 1 = length l" "length l < n" using n(1) by simp_all
    then show ?thesis using ent [of "length l"] sat_stream_end [OF fit(1), of bup "a # l" siz] by (simp add: S_def)
  qed
  moreover have "sat_head w a = SATURN_ARCHIVE_MARK" using head [of 0] fit(1) by simp
  moreover have "30 + 2 * (length l + 1) + sat_size_of w a \<le> (length l + 1) * sat_pay w"
    unfolding z len' wb(3) using fit(2) by (simp add: len_def)
  ultimately show "sat_save_ok w a l"
    unfolding sat_save_ok_def wb(2) using heads d r by blast
qed

text \<open>The name scan finds the first live save of that name; the blocks taken are the lowest free ones.\<close>

definition sat_bup_len :: "mem \<Rightarrow> nat" where
  "sat_bup_len bup = unat (sigil_read_be32 bup 44)"

definition sat_named :: "sigil_saturn_volume \<Rightarrow> mem \<Rightarrow> nat \<Rightarrow> bool" where
  "sat_named vol bup a = (take 11 (sat_fields vol a) = bytes_at bup 16 11)"

lemma sat_named_iff: "sat_named vol bup a \<longleftrightarrow> mem_eq (sat_data vol) (sat_block_at vol a + ARCHIVE_NAME) bup BUP_NAME SATURN_NAME_LEN"
proof -
  have "take 11 (sat_fields vol a) = bytes_at (sat_data vol) (a * sat_block_size vol + 4) 11"
    using bytes_at_part [of 0 11 30 "sat_data vol" "a * sat_block_size vol + 4"] by (simp add: sat_fields_def)
  then show ?thesis by (simp add: sat_named_def bytes_at_eq_iff sat_block_at_def sat_consts)
qed

lemma sat_name_scan:
  assumes L: "sat_laid vol L"
  shows "\<exists>m. sat_map_scan vol (sat_map_open vol) (sat_name_visit vol bup BUP_NAME) False = (m, \<exists>a. L a \<noteq> None \<and> sat_named vol bup a) \<and>
    (\<not> (\<exists>a. L a \<noteq> None \<and> sat_named vol bup a) \<longrightarrow>
       sm_blocks m = sat_volume_blocks vol \<and> filter (\<lambda>b. sm_owner m b = 0) [2..<sat_volume_blocks vol] = sat_free_blocks vol L)"
proof -
  let ?v = "\<lambda>found a l. if sat_named vol bup a then (True, False) else (found, True)"
  have run: "sat_run L ?v [2..<sat_volume_blocks vol] False =
      (case find (\<lambda>b. L b \<noteq> None \<and> sat_named vol bup b) [2..<sat_volume_blocks vol] of None \<Rightarrow> (False, None) | Some b \<Rightarrow> (True, Some b))"
    by (rule sat_run_find) simp
  have some: "find (\<lambda>b. L b \<noteq> None \<and> sat_named vol bup b) [2..<sat_volume_blocks vol] = None \<longleftrightarrow> \<not> (\<exists>a. L a \<noteq> None \<and> sat_named vol bup a)"
    using sat_live_range [OF L] by (fastforce simp: find_None_iff)
  have vis: "sat_name_visit vol bup BUP_NAME ctx m a (length l) (sat_size_of vol a) = ?v ctx a l" for ctx m a and l :: "nat list"
    by (simp add: sat_name_visit_def sat_named_iff)
  obtain m where m: "sat_map_scan vol ((sat_map_open vol)\<lparr>sm_named := None\<rparr>) (sat_name_visit vol bup BUP_NAME) False =
      (m, fst (sat_run L ?v [2..<sat_volume_blocks vol] False))"
    "case snd (sat_run L ?v [2..<sat_volume_blocks vol] False) of
       None \<Rightarrow> sat_scanned vol L (sat_volume_blocks vol) m | Some b \<Rightarrow> L b = Some (sm_list m)"
    using sat_scan_run [OF L, where visit = "sat_name_visit vol bup BUP_NAME" and v = ?v and ctx = False and x = None, OF vis] by blast
  show ?thesis
  proof (cases "\<exists>a. L a \<noteq> None \<and> sat_named vol bup a")
    case True
    then have "fst (sat_run L ?v [2..<sat_volume_blocks vol] False)" unfolding run using some by (auto split: option.splits)
    then show ?thesis using m(1) True unfolding sat_map_open_named by auto
  next
    case False
    then have r: "sat_run L ?v [2..<sat_volume_blocks vol] False = (False, None)" unfolding run using some by simp
    then have "sat_scanned vol L (sat_volume_blocks vol) m" using m(2) by simp
    then have "sm_blocks m = sat_volume_blocks vol" "filter (\<lambda>b. sm_owner m b = 0) [2..<sat_volume_blocks vol] = sat_free_blocks vol L"
      by (simp_all add: sat_scanned_def sat_scanned_free [OF L])
    then show ?thesis using m(1) False r unfolding sat_map_open_named by auto
  qed
qed

definition sat_chosen :: "sigil_saturn_volume \<Rightarrow> sat_layout \<Rightarrow> mem \<Rightarrow> nat list" where
  "sat_chosen vol L bup = take (sat_blocks_needed (sat_block_size vol) (sat_bup_len bup)) (sat_free_blocks vol L)"

definition sat_injected :: "sigil_saturn_volume \<Rightarrow> sat_layout \<Rightarrow> mem \<Rightarrow> sigil_saturn_volume" where
  "sat_injected vol L bup =
     (let siz = sat_bup_len bup; n = sat_blocks_needed (sat_block_size vol) siz; chosen = sat_chosen vol L bup
      in sat_write_entry vol chosen n (sat_stream bup chosen n siz) (30 + n * 2 + siz))"

lemma sat_inject_laid:
  assumes L: "sat_laid vol L"
  shows "sigil_saturn_inject vol bup len =
    (if \<not> sat_bup_valid bup len then (SIGIL_ERR_UNSUPPORTED_FORMAT, vol)
     else if \<exists>a. L a \<noteq> None \<and> sat_named vol bup a then (SIGIL_ERR_EXISTS, vol)
     else if length (sat_free_blocks vol L) < sat_blocks_needed (sat_block_size vol) (sat_bup_len bup) then (SIGIL_ERR_NO_SPACE, vol)
     else (SIGIL_OK, sat_injected vol L bup))"
proof -
  obtain m where m: "sat_map_scan vol (sat_map_open vol) (sat_name_visit vol bup BUP_NAME) False = (m, \<exists>a. L a \<noteq> None \<and> sat_named vol bup a)"
    "\<not> (\<exists>a. L a \<noteq> None \<and> sat_named vol bup a) \<Longrightarrow>
       sm_blocks m = sat_volume_blocks vol \<and> filter (\<lambda>b. sm_owner m b = 0) [2..<sat_volume_blocks vol] = sat_free_blocks vol L"
    using sat_name_scan [OF L] by blast
  have short: "length (take n xs) < n \<longleftrightarrow> length xs < n" for n and xs :: "nat list" by auto
  have c: "BUP_SIZE = 44" "SATURN_RESERVED_BLOCKS = 2" "SATURN_FIELDS_LEN = 30" by (simp_all add: sat_consts)
  show ?thesis
  proof (cases "sat_bup_valid bup len \<and> \<not> (\<exists>a. L a \<noteq> None \<and> sat_named vol bup a)")
    case True
    then show ?thesis using m(1) m(2)
      by (simp add: sigil_saturn_inject_def Let_def c short sat_injected_def sat_chosen_def sat_bup_len_def del: length_take)
  next
    case False
    then show ?thesis using m(1) by (auto simp: sigil_saturn_inject_def Let_def)
  qed
qed

lemma filter_take_drop: "distinct xs \<Longrightarrow> filter (\<lambda>b. b \<notin> set (take n xs)) xs = drop n xs"
proof -
  define ys zs where "ys = take n xs" and "zs = drop n xs"
  then have x: "xs = ys @ zs" by simp
  assume "distinct xs"
  then have "set ys \<inter> set zs = {}" by (simp add: x)
  then have "filter (\<lambda>b. b \<notin> set ys) (ys @ zs) = zs" by (auto simp: filter_empty_conv filter_id_conv)
  then show ?thesis by (simp only: ys_def zs_def append_take_drop_id)
qed

lemma sat_injected_laid:
  assumes L: "sat_laid vol L" and room: "\<not> length (sat_free_blocks vol L) < sat_blocks_needed (sat_block_size vol) (sat_bup_len bup)"
  shows "\<exists>a l. sat_chosen vol L bup = a # l \<and> L a = None \<and> sat_laid (sat_injected vol L bup) (L(a \<mapsto> l)) \<and>
      sat_view (sat_injected vol L bup) = (sat_view vol)(a \<mapsto> (sat_bup_fields bup, bytes_at bup 64 (sat_bup_len bup))) \<and>
      sat_free_blocks (sat_injected vol L bup) (L(a \<mapsto> l)) =
        drop (sat_blocks_needed (sat_block_size vol) (sat_bup_len bup)) (sat_free_blocks vol L)"
proof -
  define n where "n = sat_blocks_needed (sat_block_size vol) (sat_bup_len bup)"
  define ch where "ch = sat_chosen vol L bup"
  define w where "w = sat_injected vol L bup"
  have g: "sat_geometry vol" using L by (simp add: sat_laid_def)
  have bs: "4 < sat_block_size vol" "60 \<le> sat_block_size vol - 4" using sat_geometry_cases(1) [OF g] by auto
  have n: "1 \<le> n" using sat_blocks_needed_fit(1) [OF bs(2)] by (simp add: n_def)
  have ch: "length ch = n" "ch = take n (sat_free_blocks vol L)" using room by (simp_all add: ch_def sat_chosen_def n_def)
  have "ch \<noteq> []"
  proof
    assume "ch = []"
    then have "length ch = 0" by simp
    then show False using ch(1) n by linarith
  qed
  then obtain a l where al: "ch = a # l" by (auto simp: neq_Nil_conv)
  have fr: "distinct (sat_free_blocks vol L)" by (simp add: sat_free_blocks_def)
  have sub: "set ch \<subseteq> set (sat_free_blocks vol L)" unfolding ch(2) by (rule set_take_subset)
  have d: "distinct (a # l)" using fr ch(2) al by (metis distinct_take)
  have r: "\<forall>b \<in> set (a # l). 2 \<le> b \<and> b < sat_volume_blocks vol" using sub al by (auto simp: sat_free_blocks_def)
  have off0: "\<not> sat_holds L a' b" if "b \<in> set (a # l)" for a' b using sub al that by (auto simp: sat_free_blocks_def)
  have La: "L a = None" using off0 [of a a] by (auto simp: sat_holds_def split: option.splits)
  have w_eq: "w = sat_write_entry vol (a # l) n (sat_stream bup (a # l) n (sat_bup_len bup)) (30 + n * 2 + sat_bup_len bup)"
    unfolding w_def sat_injected_def Let_def ch_def [symmetric] n_def [symmetric] al ..
  have nl: "length (a # l) = n" using ch(1) al by simp
  note s = sat_written_save [OF g d r sat_bup_len_def nl n_def w_eq]
  have wb: "sat_block_size w = sat_block_size vol" "sat_size w = sat_size vol" by (simp_all add: w_eq sat_write_entry_def)
  have same: "sat_same vol w b" if "b \<notin> set (a # l)" for b
    using sat_written_blk(2) [OF refl bs(1) d that] wb(1) unfolding sat_same_def w_eq nl [symmetric] by (simp only: wb)
  have off: "b \<notin> set (a # l)" if "sat_holds (L(a \<mapsto> l)) a' b" "a' \<noteq> a" for a' b
  proof
    assume "b \<in> set (a # l)"
    moreover have "sat_holds L a' b" using that by (simp add: sat_holds_def)
    ultimately show False using off0 by blast
  qed
  have "sat_laid w (L(a \<mapsto> l)) \<and> (\<forall>a'. a' \<noteq> a \<longrightarrow> sat_view w a' = sat_view vol a')"
  proof (intro conjI allI impI)
    show "sat_laid w (L(a \<mapsto> l))"
      by (rule sat_laid_update(1) [OF L wb, where X = "set (a # l)" and n = a])
        (use same off s(1,5) sat_mark_nonzero in auto)
    show "sat_view w a' = sat_view vol a'" if "a' \<noteq> a" for a'
      by (rule sat_laid_update(2) [OF L wb, where X = "set (a # l)" and n = a and L' = "L(a \<mapsto> l)"])
        (use same off s(1,5) sat_mark_nonzero that in auto)
  qed
  then have laid: "sat_laid w (L(a \<mapsto> l))" and keep: "\<And>a'. a' \<noteq> a \<Longrightarrow> sat_view w a' = sat_view vol a'" by auto
  have view: "sat_view w = (sat_view vol)(a \<mapsto> (sat_bup_fields bup, bytes_at bup 64 (sat_bup_len bup)))"
    using keep sat_view_laid [OF laid, of a] s(2,3) by (auto simp: fun_eq_iff)
  have free: "sat_free_blocks w (L(a \<mapsto> l)) = drop n (sat_free_blocks vol L)"
  proof -
    have V: "sat_volume_blocks w = sat_volume_blocks vol" by (simp add: sat_volume_blocks_def wb)
    have "\<not> (\<exists>a'. sat_holds (L(a \<mapsto> l)) a' b) \<longleftrightarrow> \<not> (\<exists>a'. sat_holds L a' b) \<and> b \<notin> set ch" for b
    proof -
      have "sat_holds (L(a \<mapsto> l)) a' b \<longleftrightarrow> (if a' = a then b \<in> set (a # l) else sat_holds L a' b)" for a'
        by (simp add: sat_holds_def)
      moreover have "\<not> sat_holds L a b" using La by (simp add: sat_holds_def)
      ultimately show ?thesis unfolding al by metis
    qed
    then have "sat_free_blocks w (L(a \<mapsto> l)) = filter (\<lambda>b. b \<notin> set ch) (sat_free_blocks vol L)"
      unfolding sat_free_blocks_def V filter_filter by (intro filter_cong) auto
    also have "\<dots> = drop n (sat_free_blocks vol L)" unfolding ch(2) by (rule filter_take_drop [OF fr])
    finally show ?thesis .
  qed
  show ?thesis using al La laid view free unfolding w_def ch_def n_def by blast
qed

lemma read_be32_bytes:
  "ucast (sigil_read_be32 p x) = p (x + 3)" "ucast (drop_bit 8 (sigil_read_be32 p x)) = p (x + 2)"
  "ucast (drop_bit 16 (sigil_read_be32 p x)) = p (x + 1)" "ucast (drop_bit 24 (sigil_read_be32 p x)) = p x"
  by (rule bit_word_eqI, auto simp: sigil_read_be32_def bit_simps dest: bit_imp_le_length)+

lemma read_be32_inj: "sigil_read_be32 p x = sigil_read_be32 q y \<longleftrightarrow> bytes_at p x 4 = bytes_at q y 4"
proof
  assume "sigil_read_be32 p x = sigil_read_be32 q y"
  then have "p x = q y" "p (x + 1) = q (y + 1)" "p (x + 2) = q (y + 2)" "p (x + 3) = q (y + 3)"
    using read_be32_bytes by metis+
  then show "bytes_at p x 4 = bytes_at q y 4" by (simp add: bytes_at_def upt_rec numeral_eq_Suc)
next
  assume "bytes_at p x 4 = bytes_at q y 4"
  then show "sigil_read_be32 p x = sigil_read_be32 q y"
    by (intro read_be32_cong) (auto simp: bytes_at_eq_iff mem_eq_iff)
qed

section \<open>Verifying and extracting\<close>

text \<open>The fields a verify compares one by one are the whole of the save's fields.\<close>

definition sat_bup_save :: "mem \<Rightarrow> sat_save" where
  "sat_bup_save bup = (sat_bup_fields bup, bytes_at bup 64 (sat_bup_len bup))"

lemma sat_fields_parts:
  "sat_fields vol a = bytes_at (sat_data vol) (sat_block_at vol a + 4) 11 @ [sat_data vol (sat_block_at vol a + 15)] @
     bytes_at (sat_data vol) (sat_block_at vol a + 16) 10 @ bytes_at (sat_data vol) (sat_block_at vol a + 26) 4 @
     bytes_at (sat_data vol) (sat_block_at vol a + 30) 4"
  by (simp add: sat_fields_def sat_block_at_def bytes_at_def upt_rec add.commute)

lemma sat_fields_match:
  "sat_fields vol a = sat_bup_fields bup \<longleftrightarrow>
     mem_eq (sat_data vol) (sat_block_at vol a + ARCHIVE_NAME) bup BUP_NAME SATURN_NAME_LEN \<and>
     sat_size_of vol a = unat (sigil_read_be32 bup BUP_SIZE) \<and>
     sat_data vol (sat_block_at vol a + ARCHIVE_LANGUAGE) = bup BUP_LANGUAGE \<and>
     mem_eq (sat_data vol) (sat_block_at vol a + ARCHIVE_COMMENT) bup BUP_COMMENT SATURN_COMMENT_LEN \<and>
     mem_eq (sat_data vol) (sat_block_at vol a + ARCHIVE_DATE) bup BUP_DATE 4"
proof -
  have "sat_size_of vol a = unat (sigil_read_be32 bup BUP_SIZE) \<longleftrightarrow> bytes_at (sat_data vol) (sat_block_at vol a + 30) 4 = bytes_at bup 44 4"
    using read_be32_inj [of "sat_data vol" "sat_block_at vol a + 30" bup 44]
    by (simp add: unsigned_word_eqI word_unat_eq_iff [symmetric] sat_size_of_def sat_block_at_def sat_consts)
  then show ?thesis
    unfolding sat_fields_parts sat_bup_fields_def bytes_at_eq_iff [symmetric] by (auto simp: sat_consts)
qed

lemma sat_data_match:
  "length d = siz \<Longrightarrow> mem_eq (mem_of d) 0 bup 64 siz \<longleftrightarrow> d = bytes_at bup 64 siz"
  by (auto simp: mem_eq_iff list_eq_iff_nth_eq mem_of_def)

lemma sat_verify_visit_laid:
  assumes L: "sat_laid vol L" and a: "L a = Some l" and m: "sm_list m = l"
  shows "sat_verify_visit vol bup rc m a (length l) (sat_size_of vol a) =
    (if sat_view vol a = Some (sat_bup_save bup) then (SIGIL_OK, False) else (rc, True))"
proof -
  have g: "sat_geometry vol" and s: "sat_save_ok vol a l" using L a by (simp_all add: sat_laid_def)
  have v: "sat_view vol a = Some (sat_fields vol a, sat_data_of vol a l)" using sat_view_laid [OF L] a by simp
  note d = sat_read_data_laid [OF g s]
  show ?thesis
  proof (cases "sat_fields vol a = sat_bup_fields bup")
    case True
    then have z: "sat_size_of vol a = sat_bup_len bup" by (simp only: sat_fields_match sat_bup_len_def) (simp add: sat_consts)
    have "sat_view vol a = Some (sat_bup_save bup) \<longleftrightarrow> mem_eq (mem_of (sat_data_of vol a l)) 0 bup 64 (sat_size_of vol a)"
      unfolding sat_data_match [OF d(2)] by (simp add: v True z sat_bup_save_def)
    moreover have "sat_verify_visit vol bup rc m a (length l) (sat_size_of vol a) =
        (if mem_eq (mem_of (sat_data_of vol a l)) 0 bup 64 (sat_size_of vol a) then (SIGIL_OK, False) else (rc, True))"
      using True [unfolded sat_fields_match] d(1) m by (simp add: sat_verify_visit_def Let_def SATURN_BUP_HEADER_SIZE_def)
    ultimately show ?thesis by simp
  next
    case False
    then have "sat_verify_visit vol bup rc m a (length l) (sat_size_of vol a) = (rc, True)"
      unfolding sat_fields_match by (simp add: sat_verify_visit_def Let_def)
    then show ?thesis using False by (simp add: v sat_bup_save_def)
  qed
qed

lemma sat_verify_laid:
  assumes L: "sat_laid vol L"
  shows "sigil_saturn_verify vol bup len =
    (if \<not> sat_bup_valid bup len then SIGIL_ERR_UNSUPPORTED_FORMAT
     else if \<exists>a. sat_view vol a = Some (sat_bup_save bup) then SIGIL_OK else SIGIL_ERR_NOT_FOUND)"
proof -
  let ?P = "\<lambda>a. sat_view vol a = Some (sat_bup_save bup)"
  let ?v = "\<lambda>rc a l. if ?P a then (SIGIL_OK, False) else (rc, True)"
  have run: "sat_run L ?v [2..<sat_volume_blocks vol] SIGIL_ERR_NOT_FOUND =
      (case find (\<lambda>b. L b \<noteq> None \<and> ?P b) [2..<sat_volume_blocks vol] of None \<Rightarrow> (SIGIL_ERR_NOT_FOUND, None) | Some b \<Rightarrow> (SIGIL_OK, Some b))"
    by (rule sat_run_find) simp
  have "L a \<noteq> None" if "?P a" for a using that sat_view_laid [OF L, of a] by auto
  then have some: "find (\<lambda>b. L b \<noteq> None \<and> ?P b) [2..<sat_volume_blocks vol] = None \<longleftrightarrow> \<not> (\<exists>a. ?P a)"
    using sat_live_range [OF L] by (fastforce simp: find_None_iff)
  obtain m where m: "sat_map_scan vol ((sat_map_open vol)\<lparr>sm_named := None\<rparr>) (sat_verify_visit vol bup) SIGIL_ERR_NOT_FOUND =
      (m, fst (sat_run L ?v [2..<sat_volume_blocks vol] SIGIL_ERR_NOT_FOUND))"
    using sat_scan_run [OF L, where visit = "sat_verify_visit vol bup" and v = ?v and ctx = SIGIL_ERR_NOT_FOUND and x = None,
        OF sat_verify_visit_laid [OF L]] by blast
  show ?thesis using m some unfolding sat_map_open_named run
    by (auto simp: sigil_saturn_verify_def split: option.splits)
qed

text \<open>The .bup an extract writes.\<close>

definition sat_bup_of :: "sigil_saturn_volume \<Rightarrow> nat \<Rightarrow> nat list \<Rightarrow> bytes \<Rightarrow> mem" where
  "sat_bup_of vol a l data =
     (let x = sat_block_at vol a;
          bup = memcpy (\<lambda>_. 0) 64 (mem_of data) 0 (length data);
          bup = memcpy bup 0 (mem_of BUP_MAGIC) 0 4;
          bup = memcpy bup 16 (sat_data vol) (x + 4) 11;
          bup = memcpy bup 28 (sat_data vol) (x + 16) 10;
          bup = bup(39 := sat_data vol (x + 15));
          bup = memcpy bup 40 (sat_data vol) (x + 26) 4;
          bup = memcpy bup 44 (sat_data vol) (x + 30) 4;
          bup = sigil_write_be16 bup 48 (of_nat (length l + 1))
      in memcpy bup 52 (sat_data vol) (x + 26) 4)"

lemma sat_bup_of_fields: "sat_bup_fields (sat_bup_of vol a l data) = sat_fields vol a"
  unfolding sat_fields_parts sat_bup_fields_def
  by (simp add: sat_bup_of_def Let_def bytes_at_eq_iff mem_eq_iff memcpy_apply write_be16_apply)

lemma sat_bup_of_data: "bytes_at (sat_bup_of vol a l data) 64 (length data) = data"
  by (rule nth_equalityI) (simp_all add: sat_bup_of_def Let_def memcpy_apply write_be16_apply mem_of_def)

lemma sat_bup_of_magic: "has_bytes (sat_bup_of vol a l data) 0 BUP_MAGIC"
proof -
  have "length BUP_MAGIC = 4" by (simp add: BUP_MAGIC_def str_def)
  then show ?thesis by (simp add: has_bytes_iff sat_bup_of_def Let_def memcpy_apply write_be16_apply mem_of_def)
qed

lemma sat_bup_of_name: "sat_bup_of vol a l data 16 = sat_data vol (sat_block_at vol a + 4)"
  by (simp add: sat_bup_of_def Let_def memcpy_apply write_be16_apply)

lemma sat_bup_of_size: "sat_bup_len (sat_bup_of vol a l data) = sat_size_of vol a"
proof -
  have "sigil_read_be32 (sat_bup_of vol a l data) 44 = sigil_read_be32 (sat_data vol) (sat_block_at vol a + 30)"
    by (rule read_be32_cong) (simp add: sat_bup_of_def Let_def memcpy_apply write_be16_apply)
  then show ?thesis by (simp add: sat_bup_len_def sat_size_of_def sat_block_at_def)
qed

lemma sat_bup_save_cong:
  assumes "\<And>i. i < 64 + sat_bup_len p \<Longrightarrow> q i = p i"
  shows "sat_bup_save q = sat_bup_save p" "sat_bup_valid q len = sat_bup_valid p len" "sat_bup_len q = sat_bup_len p"
proof -
  have r: "sigil_read_be32 q 44 = sigil_read_be32 p 44" by (rule read_be32_cong) (simp add: assms)
  then show len: "sat_bup_len q = sat_bup_len p" by (simp add: sat_bup_len_def)
  have "sat_bup_fields q = sat_bup_fields p" by (simp add: sat_bup_fields_def bytes_at_eq_iff mem_eq_iff assms)
  moreover have "bytes_at q 64 (sat_bup_len p) = bytes_at p 64 (sat_bup_len p)" by (rule bytes_at_cong) (simp add: assms)
  ultimately show "sat_bup_save q = sat_bup_save p" by (simp add: sat_bup_save_def len)
  have "has_bytes q 0 BUP_MAGIC = has_bytes p 0 BUP_MAGIC" by (simp add: has_bytes_iff BUP_MAGIC_def str_def assms)
  then show "sat_bup_valid q len = sat_bup_valid p len" using r by (simp add: sat_bup_valid_def sat_consts assms)
qed

lemma sat_extract_laid:
  assumes L: "sat_laid vol L"
  shows "sigil_saturn_extract vol a = (case L a of None \<Rightarrow> Inl SIGIL_ERR_INVALID_ARG
      | Some l \<Rightarrow> Inr (bytes_at (sat_bup_of vol a l (sat_data_of vol a l)) 0 (64 + sat_size_of vol a)))"
proof (cases "L a")
  case None
  then show ?thesis by (simp add: sigil_saturn_extract_def sat_find_entry_laid [OF L])
next
  case (Some l)
  then have gs: "sat_geometry vol" "sat_save_ok vol a l" using L by (simp_all add: sat_laid_def)
  show ?thesis
    using Some sat_read_data_laid [OF gs]
    by (simp add: sigil_saturn_extract_def sat_find_entry_laid [OF L] sat_bup_of_def Let_def sat_consts)
qed

text \<open>What was extracted is the save, and it is a .bup as soon as the save has a name.\<close>

lemma sat_extract_save:
  assumes L: "sat_laid vol L" and x: "sigil_saturn_extract vol a = Inr bup"
  shows "sat_view vol a = Some (sat_bup_save (mem_of bup))"
    "sat_bup_valid (mem_of bup) (length bup) \<longleftrightarrow> fst (the (sat_view vol a)) ! 0 \<noteq> 0"
proof -
  obtain l where l: "L a = Some l" using x by (cases "L a") (simp_all add: sat_extract_laid [OF L])
  then have gs: "sat_geometry vol" "sat_save_ok vol a l" using L by (simp_all add: sat_laid_def)
  define d where "d = sat_data_of vol a l"
  define p where "p = sat_bup_of vol a l d"
  have d: "length d = sat_size_of vol a" using sat_read_data_laid(2) [OF gs] by (simp add: d_def)
  have b: "bup = bytes_at p 0 (64 + sat_size_of vol a)" using x l by (simp add: sat_extract_laid [OF L] d_def p_def)
  have len: "sat_bup_len p = sat_size_of vol a" by (simp add: p_def sat_bup_of_size)
  have q: "mem_of bup i = p i" if "i < 64 + sat_bup_len p" for i using that by (simp add: b len mem_of_def)
  note c = sat_bup_save_cong [OF q]
  have s: "sat_bup_save p = (sat_fields vol a, d)"
    using sat_bup_of_data [of vol a l d] by (simp add: sat_bup_save_def len d [symmetric]) (simp add: p_def sat_bup_of_fields)
  show v: "sat_view vol a = Some (sat_bup_save (mem_of bup))" using l c(1) s by (simp add: sat_view_laid [OF L] d_def)
  have "sat_fields vol a ! 0 = p 16" by (simp add: sat_fields_def p_def sat_bup_of_name sat_block_at_def)
  moreover have "sat_bup_valid p (length bup) \<longleftrightarrow> p 16 \<noteq> 0"
    using sat_bup_of_magic [of vol a l d] len by (simp add: sat_bup_valid_def b sat_consts sat_bup_len_def p_def)
  ultimately show "sat_bup_valid (mem_of bup) (length bup) \<longleftrightarrow> fst (the (sat_view vol a)) ! 0 \<noteq> 0"
    using v c(1,2) s by simp
qed

section \<open>Clean volumes\<close>

text \<open>A volume is clean when it is a device's size and its listing reports no corrupt save.\<close>

definition sat_clean :: "sigil_saturn_volume \<Rightarrow> bool" where
  "sat_clean vol \<longleftrightarrow> sat_geometry vol \<and> (case sigil_saturn_list vol of Inl rc \<Rightarrow> False | Inr l \<Rightarrow> corrupt_count l = 0)"

definition sat_free :: "sigil_saturn_volume \<Rightarrow> nat" where
  "sat_free vol = (case sigil_saturn_list vol of Inl rc \<Rightarrow> 0 | Inr l \<Rightarrow> free_blocks l)"

lemma sat_clean_iff: "sat_clean vol \<longleftrightarrow> (\<exists>L. sat_laid vol L)"
proof
  assume "sat_clean vol"
  then show "\<exists>L. sat_laid vol L" using sat_clean_laid by (auto simp: sat_clean_def split: sum.splits)
next
  assume "\<exists>L. sat_laid vol L"
  then obtain L where L: "sat_laid vol L" by blast
  then show "sat_clean vol" using sat_list_laid [OF L] by (auto simp: sat_clean_def sat_laid_def)
qed

lemma sat_free_laid: "sat_laid vol L \<Longrightarrow> sat_free vol = length (sat_free_blocks vol L)"
  using sat_list_laid [of vol L] by (auto simp: sat_free_def)

text \<open>The layout of a clean volume is the one the finds return.\<close>

definition sat_layout_of :: "sigil_saturn_volume \<Rightarrow> sat_layout" where
  "sat_layout_of vol a = (case sat_find_entry vol a of Inl rc \<Rightarrow> None | Inr (l, siz) \<Rightarrow> Some l)"

lemma sat_layout_of_laid: "sat_laid vol L \<Longrightarrow> sat_layout_of vol = L"
  by (rule ext) (simp add: sat_layout_of_def sat_find_entry_laid split: option.splits)

lemma sat_clean_layout: "sat_clean vol \<Longrightarrow> sat_laid vol (sat_layout_of vol)"
  using sat_layout_of_laid by (metis sat_clean_iff)

lemma sat_view_dom: "sat_laid vol L \<Longrightarrow> sat_view vol a = None \<longleftrightarrow> L a = None"
  by (simp add: sat_view_laid)

lemma sat_named_view:
  assumes L: "sat_laid vol L"
  shows "(\<exists>a. L a \<noteq> None \<and> sat_named vol bup a) \<longleftrightarrow> (\<exists>s \<in> ran (sat_view vol). take 11 (fst s) = take 11 (sat_bup_fields bup))"
proof -
  have n: "take 11 (sat_bup_fields bup) = bytes_at bup 16 11" by (simp add: sat_bup_fields_def)
  have "sat_view vol a = Some s \<longleftrightarrow> (\<exists>l. L a = Some l \<and> s = (sat_fields vol a, sat_data_of vol a l))" for a s
    by (auto simp: sat_view_laid [OF L])
  then show ?thesis unfolding ran_def sat_named_def n by fastforce
qed

text \<open>What injecting promises: no two saves of one name, and enough free blocks.\<close>

definition sat_spec_inject :: "nat \<Rightarrow> nat \<Rightarrow> (nat \<Rightarrow> sat_save option) \<Rightarrow> sat_save \<Rightarrow> rc" where
  "sat_spec_inject free need view save =
     (if \<exists>s \<in> ran view. take 11 (fst s) = take 11 (fst save) then SIGIL_ERR_EXISTS
      else if free < need then SIGIL_ERR_NO_SPACE else SIGIL_OK)"

lemma sat_cost_needed:
  assumes "sat_geometry vol" "sat_bup_valid bup len"
  shows "sigil_saturn_cost vol bup len = sat_blocks_needed (sat_block_size vol) (sat_bup_len bup)"
proof -
  have bs: "60 \<le> sat_block_size vol - 4" "sat_block_size vol \<noteq> 0" using sat_geometry_cases(1) [OF assms(1)] by auto
  define p where "p = sat_block_size vol - 6"
  have p: "58 \<le> p" using bs by (simp add: p_def)
  have "sat_bup_len bup < 4294967296" unfolding sat_bup_len_def using unsigned_less [of "sigil_read_be32 bup 44"] by simp
  moreover have "(30 + sat_bup_len bup + p - 1) div p \<le> (30 + sat_bup_len bup) div p + 1"
  proof -
    have "30 + sat_bup_len bup + p - 1 \<le> 30 + sat_bup_len bup + p" by simp
    then have "(30 + sat_bup_len bup + p - 1) div p \<le> (30 + sat_bup_len bup + p) div p" by (rule div_le_mono)
    also have "\<dots> = (30 + sat_bup_len bup) div p + 1" by (rule div_add_self2) (use p in simp)
    finally show ?thesis .
  qed
  moreover have "(30 + sat_bup_len bup) div p \<le> (30 + sat_bup_len bup) div 58" using p by (intro div_le_mono2) simp_all
  moreover have "(30 + sat_bup_len bup) div 58 \<le> 100000000" using calculation(1) by linarith
  ultimately have "sat_blocks_needed (sat_block_size vol) (sat_bup_len bup) \<le> 100000001"
    by (simp add: sat_blocks_needed_def Let_def sat_consts p_def [symmetric])
  then show ?thesis using assms(2) bs(2) by (simp add: sigil_saturn_cost_def Let_def sat_bup_len_def [symmetric] sat_consts)
qed

lemma sat_inject_clean:
  assumes c: "sat_clean vol" and i: "sigil_saturn_inject vol bup len = (rc, vol')"
  shows "rc = (if \<not> sat_bup_valid bup len then SIGIL_ERR_UNSUPPORTED_FORMAT
      else sat_spec_inject (sat_free vol) (sigil_saturn_cost vol bup len) (sat_view vol) (sat_bup_save bup))"
    "rc \<noteq> SIGIL_OK \<Longrightarrow> vol' = vol"
    "rc = SIGIL_OK \<Longrightarrow> sat_clean vol' \<and> (\<exists>a. sat_view vol a = None \<and> sat_view vol' = (sat_view vol)(a \<mapsto> sat_bup_save bup)) \<and>
      sat_free vol' + sigil_saturn_cost vol bup len = sat_free vol \<and> sigil_saturn_verify vol' bup len = SIGIL_OK"
    "sat_size vol' = sat_size vol" "sat_block_size vol' = sat_block_size vol" "sat_storage vol' = sat_storage vol"
proof -
  define L where "L = sat_layout_of vol"
  have L: "sat_laid vol L" using sat_clean_layout [OF c] by (simp add: L_def)
  have g: "sat_geometry vol" using L by (simp add: sat_laid_def)
  note f = sat_inject_laid [OF L, of bup len, unfolded i sat_named_view [OF L] sat_free_laid [OF L, symmetric]]
  show "rc = (if \<not> sat_bup_valid bup len then SIGIL_ERR_UNSUPPORTED_FORMAT
      else sat_spec_inject (sat_free vol) (sigil_saturn_cost vol bup len) (sat_view vol) (sat_bup_save bup))"
    using f sat_cost_needed [OF g] by (auto simp: sat_spec_inject_def sat_bup_save_def split: if_splits)
  show "rc \<noteq> SIGIL_OK \<Longrightarrow> vol' = vol" using f by (auto split: if_splits)
  show "sat_size vol' = sat_size vol" "sat_block_size vol' = sat_block_size vol" "sat_storage vol' = sat_storage vol"
    using f by (auto simp: sat_injected_def Let_def sat_write_entry_def split: if_splits)
  assume ok: "rc = SIGIL_OK"
  then have v: "sat_bup_valid bup len" and room: "\<not> sat_free vol < sat_blocks_needed (sat_block_size vol) (sat_bup_len bup)"
    and w: "vol' = sat_injected vol L bup" using f by (auto split: if_splits)
  obtain a l where al: "L a = None" "sat_laid vol' (L(a \<mapsto> l))" "sat_view vol' = (sat_view vol)(a \<mapsto> sat_bup_save bup)"
    "sat_free_blocks vol' (L(a \<mapsto> l)) = drop (sat_blocks_needed (sat_block_size vol) (sat_bup_len bup)) (sat_free_blocks vol L)"
    using sat_injected_laid [OF L room [unfolded sat_free_laid [OF L]]] unfolding w sat_bup_save_def by blast
  have "sat_clean vol'" using al(2) sat_clean_iff by blast
  moreover have "sat_view vol a = None" using al(1) sat_view_dom [OF L] by simp
  moreover have "sat_free vol' + sigil_saturn_cost vol bup len = sat_free vol"
    using room al(4) by (simp add: sat_free_laid [OF al(2)] sat_cost_needed [OF g v] sat_free_laid [OF L])
  moreover have "sigil_saturn_verify vol' bup len = SIGIL_OK"
    using sat_verify_laid [OF al(2), of bup len] v al(3) by auto
  ultimately show "sat_clean vol' \<and> (\<exists>a. sat_view vol a = None \<and> sat_view vol' = (sat_view vol)(a \<mapsto> sat_bup_save bup)) \<and>
      sat_free vol' + sigil_saturn_cost vol bup len = sat_free vol \<and> sigil_saturn_verify vol' bup len = SIGIL_OK"
    using al(3) by blast
qed

text \<open>The blocks a save holds.\<close>

definition sat_blocks_of :: "sigil_saturn_volume \<Rightarrow> nat \<Rightarrow> nat" where
  "sat_blocks_of vol a = (case sat_find_entry vol a of Inl rc \<Rightarrow> 0 | Inr (l, siz) \<Rightarrow> length l + 1)"

lemma sat_blocks_of_laid: "sat_laid vol L \<Longrightarrow> sat_blocks_of vol a = (case L a of None \<Rightarrow> 0 | Some l \<Rightarrow> length l + 1)"
  by (simp add: sat_blocks_of_def sat_find_entry_laid split: option.splits)

lemma sat_deleted_free:
  assumes L: "sat_laid vol L" and a: "L a = Some l"
  shows "length (sat_free_blocks (sat_deleted vol a l) (L(a := None))) = length (sat_free_blocks vol L) + length l + 1"
proof -
  have "{b \<in> set [2..<sat_volume_blocks vol]. b \<in> set (a # l) \<or> b \<in> set (sat_free_blocks vol L)} = set (a # l) \<union> set (sat_free_blocks vol L)"
    using L a by (auto simp: sat_laid_def sat_save_ok_def sat_free_blocks_def)
  moreover have "set (a # l) \<inter> set (sat_free_blocks vol L) = {}"
  proof -
    have "sat_holds L a b" if "b \<in> set (a # l)" for b using a that by (simp add: sat_holds_def)
    then show ?thesis by (auto simp: sat_free_blocks_def)
  qed
  moreover have "card (set (a # l)) = length l + 1" using L a by (simp add: sat_laid_def sat_save_ok_def distinct_card)
  moreover have "card (set (sat_free_blocks vol L)) = length (sat_free_blocks vol L)"
    by (rule distinct_card) (simp add: sat_free_blocks_def)
  moreover have "length (filter P [2..<sat_volume_blocks vol]) = card {b \<in> set [2..<sat_volume_blocks vol]. P b}" for P
    by (subst distinct_length_filter [OF distinct_upt]) (rule arg_cong [where f = card], auto)
  ultimately show ?thesis unfolding sat_deleted_laid(3) [OF L a] by (simp only: card_Un_disjoint [OF finite_set finite_set])
qed

lemma sat_delete_clean:
  assumes c: "sat_clean vol" and d: "sigil_saturn_delete vol a = (rc, vol')"
  shows "sat_view vol a = None \<Longrightarrow> rc = SIGIL_ERR_INVALID_ARG \<and> vol' = vol"
    "sat_view vol a \<noteq> None \<Longrightarrow> rc = SIGIL_OK \<and> sat_clean vol' \<and> sat_view vol' = (sat_view vol)(a := None) \<and>
      sat_free vol' = sat_free vol + sat_blocks_of vol a"
    "sat_size vol' = sat_size vol" "sat_block_size vol' = sat_block_size vol" "sat_storage vol' = sat_storage vol"
proof -
  define L where "L = sat_layout_of vol"
  have L: "sat_laid vol L" using sat_clean_layout [OF c] by (simp add: L_def)
  note f = sat_delete_laid [OF L, of a, unfolded d]
  show "sat_view vol a = None \<Longrightarrow> rc = SIGIL_ERR_INVALID_ARG \<and> vol' = vol" using f sat_view_dom [OF L] by (simp split: option.splits)
  show "sat_size vol' = sat_size vol" "sat_block_size vol' = sat_block_size vol" "sat_storage vol' = sat_storage vol"
    using f by (auto simp: sat_deleted_def split: option.splits)
  assume "sat_view vol a \<noteq> None"
  then obtain l where l: "L a = Some l" using sat_view_dom [OF L, of a] by auto
  then have w: "rc = SIGIL_OK" "vol' = sat_deleted vol a l" using f by simp_all
  note s = sat_deleted_laid [OF L l, folded w(2)]
  have "sat_free vol' = sat_free vol + sat_blocks_of vol a"
    using sat_deleted_free [OF L l, folded w(2)] l by (simp add: sat_free_laid [OF s(1)] sat_free_laid [OF L] sat_blocks_of_laid [OF L])
  then show "rc = SIGIL_OK \<and> sat_clean vol' \<and> sat_view vol' = (sat_view vol)(a := None) \<and> sat_free vol' = sat_free vol + sat_blocks_of vol a"
    using w(1) s(1,2) sat_clean_iff by blast
qed

text \<open>A formatted volume is clean and empty.\<close>

lemma sat_format_clean:
  assumes "sat_format_as siz st as1 = Inr vol"
  shows "sat_laid vol (\<lambda>_. None)" "sat_view vol = (\<lambda>_. None)" "sat_size vol = siz" "sat_storage vol = st"
    "sat_block_size vol = sat_block_size_for siz as1"
proof -
  define bs where "bs = sat_block_size_for siz as1"
  have bs: "bs \<noteq> 0" and v: "vol = \<lparr>sat_data = (\<lambda>i. if i < bs then SATURN_MAGIC ! (i mod SATURN_MAGIC_LEN) else 0),
      sat_size = siz, sat_block_size = bs, sat_storage = st\<rparr>"
    using assms by (auto simp: sat_format_as_def Let_def bs_def split: if_splits)
  show "sat_size vol = siz" "sat_storage vol = st" "sat_block_size vol = sat_block_size_for siz as1" by (simp_all add: v bs_def)
  have g: "sat_geometry vol" unfolding sat_geometry_def by (rule exI [of _ as1]) (use bs in \<open>simp add: v bs_def\<close>)
  have "sat_head vol b \<noteq> SATURN_ARCHIVE_MARK" if "2 \<le> b" for b
  proof -
    have "bs \<le> b * bs" using that by simp
    then have "\<not> b * bs + k < bs" for k by linarith
    then have "sigil_read_be32 (sat_data vol) (b * bs) = sigil_read_be32 (\<lambda>_. 0) 0" by (intro read_be32_cong) (simp add: v)
    then show ?thesis by (simp add: sat_head_def v) (simp add: sigil_read_be32_def SATURN_ARCHIVE_MARK_def)
  qed
  then show L: "sat_laid vol (\<lambda>_. None)" using g by (simp add: sat_laid_def sat_disjoint_def sat_holds_def)
  show "sat_view vol = (\<lambda>_. None)" by (rule ext) (simp add: sat_view_laid [OF L])
qed

text \<open>Names: no two saves share one and none is empty, so every save can be extracted to a .bup that
  injects.\<close>

definition sat_names_ok :: "sigil_saturn_volume \<Rightarrow> bool" where
  "sat_names_ok vol \<longleftrightarrow> (\<forall>a b s t. sat_view vol a = Some s \<longrightarrow> sat_view vol b = Some t \<longrightarrow>
       take 11 (fst s) = take 11 (fst t) \<longrightarrow> a = b) \<and> (\<forall>a s. sat_view vol a = Some s \<longrightarrow> fst s ! 0 \<noteq> 0)"

lemma sat_bup_valid_name: "sat_bup_valid bup len \<Longrightarrow> fst (sat_bup_save bup) ! 0 \<noteq> 0"
  by (auto simp: sat_bup_valid_def sat_bup_save_def sat_bup_fields_def sat_consts nth_append split: if_splits)

lemma sat_names_inject:
  assumes c: "sat_clean vol" and n: "sat_names_ok vol" and i: "sigil_saturn_inject vol bup len = (rc, vol')"
  shows "sat_names_ok vol'"
proof (cases "rc = SIGIL_OK")
  case True
  have v: "sat_bup_valid bup len" and new: "\<forall>s \<in> ran (sat_view vol). take 11 (fst s) \<noteq> take 11 (fst (sat_bup_save bup))"
    using sat_inject_clean(1) [OF c i] True by (auto simp: sat_spec_inject_def split: if_splits)
  obtain a where a: "sat_view vol' = (sat_view vol)(a \<mapsto> sat_bup_save bup)" using sat_inject_clean(3) [OF c i True] by blast
  show ?thesis
    using n new sat_bup_valid_name [OF v] unfolding sat_names_ok_def a
    by (auto simp: ran_def split: if_splits) metis+
next
  case False
  then show ?thesis using sat_inject_clean(2) [OF c i] n by simp
qed

lemma sat_names_delete:
  assumes c: "sat_clean vol" and n: "sat_names_ok vol" and d: "sigil_saturn_delete vol a = (rc, vol')"
  shows "sat_names_ok vol'"
  using sat_delete_clean(1,2) [OF c d] n by (cases "sat_view vol a") (auto simp: sat_names_ok_def)

section \<open>Volumes with corrupt saves\<close>

text \<open>Whatever a volume holds, a save that does not parse keeps its archive block only, and the list of
  one that does is fresh: the scan accounts for every block once.\<close>

lemma sat_fold_clear: "fold (\<lambda>b own. own(b := 0)) l own b = (if b \<in> set l then 0 else own b)" for own :: "nat \<Rightarrow> nat"
  by (induction l arbitrary: own) auto

lemma sat_parse_entry_failed:
  assumes g: "sat_geometry vol" and V: "sm_blocks m = sat_volume_blocks vol" and p: "sat_parse_entry vol m a = (None, m')"
  shows "sm_owner m' = (sm_owner m)(a := a + 1)" "sm_blocks m' = sm_blocks m"
proof -
  let ?m = "m\<lparr>sm_owner := (sm_owner m)(a := a + 1)\<rparr>"
  obtain ok m1 c where lp: "sat_parse_loop vol ?m a (sat_cursor_start a []) = (ok, m1, c)" by (cases "sat_parse_loop vol ?m a (sat_cursor_start a [])")
  have "sm_owner ?m = sat_claim a (sc_list (sat_cursor_start a [])) (sm_owner m)"
    by (rule ext) (simp add: sat_claim_def sat_cursor_start_def)
  moreover have "sat_listed vol a (sm_owner m) (sc_list (sat_cursor_start a []))" by (simp add: sat_listed_def sat_cursor_start_def)
  ultimately have snd: "sat_listed vol a (sm_owner m) (sc_list c)" "m1 = ?m\<lparr>sm_owner := sat_claim a (sc_list c) (sm_owner m)\<rparr>"
    using sat_parse_loop_sound [OF g _ sat_parsing_start [OF g] _ _ lp, of "sm_owner m"] V by auto
  have m': "m' = m1\<lparr>sm_list := sc_list c, sm_owner := fold (\<lambda>b own. own(b := 0)) (sc_list c) (sm_owner m1)\<rparr>"
    using p unfolding sat_parse_entry_def Let_def lp prod.case by (auto split: if_splits)
  show "sm_blocks m' = sm_blocks m" by (simp add: m' snd(2))
  show "sm_owner m' = (sm_owner m)(a := a + 1)"
  proof
    fix b
    show "sm_owner m' b = ((sm_owner m)(a := a + 1)) b"
      using snd(1) by (auto simp: m' snd(2) sat_fold_clear sat_claim_def sat_listed_def)
  qed
qed

text \<open>The blocks with an owner, and what the scan keeps of them.\<close>

definition sat_owned :: "sigil_saturn_volume \<Rightarrow> saturn_map \<Rightarrow> nat set" where
  "sat_owned vol m = {b. 2 \<le> b \<and> b < sat_volume_blocks vol \<and> sm_owner m b \<noteq> 0}"

definition sat_accounted :: "sigil_saturn_volume \<Rightarrow> nat \<Rightarrow> saturn_map \<Rightarrow> sigil_card_entry list \<Rightarrow> bool" where
  "sat_accounted vol k m es \<longleftrightarrow> sm_blocks m = sat_volume_blocks vol \<and>
     (\<forall>b. k \<le> b \<longrightarrow> sm_owner m b \<noteq> 0 \<longrightarrow> sat_head vol b = 0) \<and>
     card (sat_owned vol m) = sum_list (map ce_blocks es) + sm_corrupt m"

lemma finite_sat_owned [simp]: "finite (sat_owned vol m)"
  by (simp add: sat_owned_def)

lemma sat_accounted_failed:
  assumes g: "sat_geometry vol" and A: "sat_accounted vol k m es" and k: "2 \<le> k" "k < sat_volume_blocks vol"
    and h: "sat_head vol k = SATURN_ARCHIVE_MARK" and p: "sat_parse_entry vol m k = (None, m')"
  shows "sat_accounted vol (Suc k) (m'\<lparr>sm_corrupt := sm_corrupt m' + 1, sm_named := x\<rparr>) es"
proof -
  have V: "sm_blocks m = sat_volume_blocks vol" using A by (simp add: sat_accounted_def)
  note f = sat_parse_entry_failed [OF g V p] sat_parse_entry_corrupt [OF p]
  have k0: "sm_owner m k = 0" using A h sat_mark_nonzero by (auto simp: sat_accounted_def)
  then have "sat_owned vol (m'\<lparr>sm_corrupt := sm_corrupt m' + 1, sm_named := x\<rparr>) = insert k (sat_owned vol m)" "k \<notin> sat_owned vol m"
    using k by (auto simp: sat_owned_def f(1))
  then show ?thesis using A f by (auto simp: sat_accounted_def)
qed

lemma sat_accounted_parsed:
  assumes g: "sat_geometry vol" and A: "sat_accounted vol k m es" and k: "2 \<le> k" "k < sat_volume_blocks vol"
    and h: "sat_head vol k = SATURN_ARCHIVE_MARK" and p: "sat_parse_entry vol m k = (Some (n, siz), m')"
    and e: "ce_blocks e = n + 1"
  shows "sat_accounted vol (Suc k) m' (es @ [e])"
proof -
  have V: "sm_blocks m = sat_volume_blocks vol" using A by (simp add: sat_accounted_def)
  obtain l where l: "sat_save_ok vol k l" "\<forall>b \<in> set l. sm_owner m b = 0" "n = length l"
    "m' = m\<lparr>sm_owner := sat_claim k l (sm_owner m), sm_list := l\<rparr>"
    using sat_parse_entry_sound [OF g V p h k] by blast
  have k0: "sm_owner m k = 0" using A h sat_mark_nonzero by (auto simp: sat_accounted_def)
  have "sat_owned vol m' = set (k # l) \<union> sat_owned vol m"
    using k l(1) by (auto simp: sat_owned_def l(4) sat_claim_def sat_save_ok_def)
  moreover have "set (k # l) \<inter> sat_owned vol m = {}" using k0 l(2) by (auto simp: sat_owned_def)
  moreover have "card (set (k # l)) = length l + 1" using l(1) by (simp add: sat_save_ok_def distinct_card)
  ultimately have "card (sat_owned vol m') = length l + 1 + card (sat_owned vol m)" by (simp only: card_Un_disjoint [OF finite_set finite_sat_owned])
  then show ?thesis using A l e by (auto simp: sat_accounted_def sat_claim_def sat_save_ok_def)
qed

lemma sat_list_accounts_loop:
  assumes g: "sat_geometry vol"
  shows "2 \<le> k \<Longrightarrow> k \<le> sat_volume_blocks vol \<Longrightarrow> sat_accounted vol k m es \<Longrightarrow>
    sat_scan_loop vol (sat_list_visit vol) [k..<sat_volume_blocks vol] m es = (m', es') \<Longrightarrow>
    sat_accounted vol (sat_volume_blocks vol) m' es'"
proof (induction "sat_volume_blocks vol - k" arbitrary: k m es)
  case 0
  then show ?case by auto
next
  case (Suc n)
  let ?V = "sat_volume_blocks vol"
  have k: "k < ?V" using Suc.hyps(2) by simp
  have u: "[k..<?V] = k # [Suc k..<?V]" using k by (rule upt_conv_Cons)
  have hd: "sigil_read_be32 (sat_data vol) (sat_block_at vol k) = sat_head vol k" by (simp add: sat_head_def sat_block_at_def)
  have next1: "sat_accounted vol ?V m' es'" if "sat_accounted vol (Suc k) m2 es2"
    "sat_scan_loop vol (sat_list_visit vol) [Suc k..<?V] m2 es2 = (m', es')" for m2 es2
    using Suc.hyps(1) [of "Suc k" m2 es2] Suc.hyps(2) Suc.prems(1) k that by simp
  show ?case
  proof (cases "sat_head vol k = SATURN_ARCHIVE_MARK")
    case False
    have "sat_accounted vol (Suc k) m es" using Suc.prems(3) by (simp add: sat_accounted_def)
    then show ?thesis by (rule next1) (use Suc.prems(4) False in \<open>simp add: u hd\<close>)
  next
    case True
    obtain r m1 where p: "sat_parse_entry vol m k = (r, m1)" by (cases "sat_parse_entry vol m k")
    show ?thesis
    proof (cases r)
      case None
      show ?thesis by (rule next1 [OF sat_accounted_failed [OF g Suc.prems(3,1) k True]])
          (use p None Suc.prems(4) True in \<open>simp_all add: u hd\<close>)
    next
      case (Some x)
      obtain n1 siz where x: "x = (n1, siz)" by (cases x)
      show ?thesis
        by (rule next1 [OF sat_accounted_parsed [OF g Suc.prems(3,1) k True, of n1 siz m1
          "\<lparr>ce_name = sat_archive_name vol k, ce_owner_id = [], ce_blocks = n1 + 1, ce_first_block = k\<rparr>"]])
          (use p Some x Suc.prems(4) True in \<open>simp_all add: u hd sat_list_visit_def\<close>)
    qed
  qed
qed

lemma sat_list_accounts:
  assumes g: "sat_geometry vol" and l: "sigil_saturn_list vol = Inr l"
  shows "free_blocks l + sum_list (map ce_blocks (entries l)) + corrupt_count l = total_blocks l"
    "total_blocks l = sat_volume_blocks vol - 2"
proof -
  let ?m = "(sat_map_open vol)\<lparr>sm_named := Some (sigil_card_listing_new SIGIL_CARD_FORMAT_SATURN_BACKUP)\<rparr>"
  let ?V = "sat_volume_blocks vol"
  obtain m es where r: "sat_scan_loop vol (sat_list_visit vol) [2..<?V] ?m [] = (m, es)"
    by (cases "sat_scan_loop vol (sat_list_visit vol) [2..<?V] ?m []")
  have s: "sat_map_scan vol ?m (sat_list_visit vol) [] = (m, es)"
    using r by (simp add: sat_map_scan_def SATURN_RESERVED_BLOCKS_def) (simp add: sat_map_open_def)
  have "\<exists>l. sm_named (fst (sat_scan_loop vol (sat_list_visit vol) [2..<?V] ?m [])) = Some l \<and>
      corrupt_count l = sm_corrupt (fst (sat_scan_loop vol (sat_list_visit vol) [2..<?V] ?m []))"
    by (rule sat_scan_named) (simp add: sat_map_open_def)
  then have corrupt: "corrupt_count (the (sm_named m)) = sm_corrupt m" unfolding r by auto
  have "sat_accounted vol 2 ?m []" by (simp add: sat_accounted_def sat_map_open_def sat_owned_def)
  then have A: "sat_accounted vol ?V m es"
    by (rule sat_list_accounts_loop [OF g order_refl _ _ r, rotated]) (use sat_geometry_cases(3) [OF g] in simp)
  define fr where "fr = filter (\<lambda>b. sm_owner m b = 0) [2..<?V]"
  have "card (set fr \<union> sat_owned vol m) = card (set fr) + card (sat_owned vol m)"
    by (rule card_Un_disjoint) (auto simp: fr_def sat_owned_def)
  moreover have "set fr \<union> sat_owned vol m = {2..<?V}" by (auto simp: fr_def sat_owned_def)
  moreover have "card (set fr) = length fr" by (rule distinct_card) (simp add: fr_def)
  ultimately have "length fr + sum_list (map ce_blocks es) + sm_corrupt m = ?V - 2" using A by (simp add: sat_accounted_def)
  then show "free_blocks l + sum_list (map ce_blocks (entries l)) + corrupt_count l = total_blocks l" "total_blocks l = ?V - 2"
    using l s corrupt by (auto simp: sigil_saturn_list_def Let_def SATURN_RESERVED_BLOCKS_def fr_def)
qed

end
