(* ===== verification/Gzip.thy ===== *)
theory Gzip
  imports BramStorage
begin

text \<open>
  The gzip file \<^verbatim>\<open>gzip_wrap\<close> of \<^verbatim>\<open>src/src/card_saturn.c\<close> makes, against the format RFC 1952 gives:
  what zlib's inflate is relied on to do is stated over the bytes of a gzip member, not over the code that
  writes one. zlib itself is a parameter; deflate with stored blocks only and its inflate, in the
  formats of RFC 1951 and 1952 and with the real CRC-32, is an instance.
\<close>

section \<open>The format\<close>

definition le16_bytes :: "u16 \<Rightarrow> bytes" where
  "le16_bytes w = [ucast w, ucast (drop_bit 8 w)]"

definition le32_bytes :: "u32 \<Rightarrow> bytes" where
  "le32_bytes w = [ucast w, ucast (drop_bit 8 w), ucast (drop_bit 16 w), ucast (drop_bit 24 w)]"

text \<open>A member without optional fields: the magic, method 8, no flags, six bytes of time, level and system,
  the deflate stream, then the CRC-32 and the length modulo \<open>2 ^ 32\<close> of what it holds, low byte first.\<close>

definition gzip_member :: "bytes \<Rightarrow> bytes \<Rightarrow> u32 \<Rightarrow> nat \<Rightarrow> bytes" where
  "gzip_member h body crc n = [0x1F, 0x8B, 8, 0] @ h @ body @ le32_bytes crc @ le32_bytes (of_nat n)"

text \<open>The documented behaviour of zlib: what deflate ended, inflate takes back from a gzip member whose
  trailer is right, to its last byte.\<close>

definition zlib_documented :: "zlib \<Rightarrow> bool" where
  "zlib_documented z \<longleftrightarrow> (\<forall>inp body h. z_deflate z inp = Some body \<longrightarrow> length h = 6 \<longrightarrow>
     z_gunzip z (gzip_member h body (z_crc32 z inp) (length inp)) =
       Some (inp, length (gzip_member h body (z_crc32 z inp) (length inp))))"

section \<open>What the code writes\<close>

lemma bram_gzip_member:
  assumes w: "bram_gzip_wrap z inp header = Inr fl" and h: "length header = 10" "take 3 header = [0x1F, 0x8B, 8]"
  obtains body where "z_deflate z inp = Some body" "fl = gzip_member (drop 4 header) body (z_crc32 z inp) (length inp)"
proof -
  obtain body where b: "z_deflate z inp = Some body" using w by (auto simp: bram_gzip_wrap_def split: option.splits)
  have "header = take 3 header @ [header ! 3] @ drop 4 header"
    using h(1) id_take_nth_drop [of 3 header] by simp
  then have hd: "header = [0x1F, 0x8B, 8] @ [header ! 3] @ drop 4 header" unfolding h(2) .
  have "header[3 := 0] = ([0x1F, 0x8B, 8] @ [header ! 3] @ drop 4 header)[3 := 0]" using hd by (rule arg_cong)
  also have "\<dots> = [0x1F, 0x8B, 8, 0] @ drop 4 header" by (simp add: list_update_append)
  finally have e: "header[3 := 0] = [0x1F, 0x8B, 8, 0] @ drop 4 header" .
  have "bytes_at (sigil_write_le32 (sigil_write_le32 (\<lambda>_. 0) 0 c) 4 n) 0 8 = le32_bytes c @ le32_bytes n" for c n
    by (simp add: le32_bytes_def bytes_at_def upt_rec sigil_write_le32_def)
  then have "fl = gzip_member (drop 4 header) body (z_crc32 z inp) (length inp)"
    using w b h(1) e by (simp add: bram_gzip_wrap_def gzip_member_def GZIP_HEADER_SIZE_def GZIP_TRAILER_SIZE_def GZIP_FLAGS_def)
  then show thesis using that b by blast
qed

lemma zlib_unwraps:
  assumes "zlib_documented z" "bram_gzip_wrap z inp header = Inr fl" "length header = 10" "take 3 header = [0x1F, 0x8B, 8]"
  shows "z_gunzip z fl = Some (inp, length fl)"
proof -
  obtain body where b: "z_deflate z inp = Some body" "fl = gzip_member (drop 4 header) body (z_crc32 z inp) (length inp)"
    by (rule bram_gzip_member [OF assms(2-4)])
  have "length (drop 4 header) = 6" using assms(3) by simp
  then show ?thesis using assms(1) b unfolding zlib_documented_def by blast
qed

section \<open>Deflate without compression\<close>

text \<open>Stored blocks: the last-block bit, the length and its complement, the bytes.\<close>

definition stored_block :: "bool \<Rightarrow> bytes \<Rightarrow> bytes" where
  "stored_block final xs = [if final then 1 else 0] @ le16_bytes (of_nat (length xs)) @ le16_bytes (NOT (of_nat (length xs))) @ xs"

function stored_deflate :: "bytes \<Rightarrow> bytes" where
  "stored_deflate xs = (if length xs \<le> 65535 then stored_block True xs
     else stored_block False (take 65535 xs) @ stored_deflate (drop 65535 xs))"
  by pat_completeness auto
termination
  by (relation "measure length") auto

declare stored_deflate.simps [simp del]

definition le16_of :: "bytes \<Rightarrow> u16" where
  "le16_of p = ucast (p ! 0) OR push_bit 8 (ucast (p ! 1))"

text \<open>The bytes of a stream of stored blocks and what follows it.\<close>

function stored_inflate :: "bytes \<Rightarrow> (bytes \<times> bytes) option" where
  "stored_inflate p =
     (let n = unat (le16_of (drop 1 p)) in
      if length p < 5 + n \<or> 1 < p ! 0 \<or> le16_of (drop 3 p) \<noteq> NOT (le16_of (drop 1 p)) then None
      else if p ! 0 = 1 then Some (take n (drop 5 p), drop (5 + n) p)
      else map_option (\<lambda>(out, rest). (take n (drop 5 p) @ out, rest)) (stored_inflate (drop (5 + n) p)))"
  by pat_completeness auto
termination
  by (relation "measure length") auto

declare stored_inflate.simps [simp del]

definition crc32_byte :: "u8 \<Rightarrow> u32 \<Rightarrow> u32" where
  "crc32_byte b c = fold (\<lambda>_ r. if bit r 0 then drop_bit 1 r XOR 0xEDB88320 else drop_bit 1 r) [0..<8] (c XOR ucast b)"

definition crc32 :: "bytes \<Rightarrow> u32" where
  "crc32 xs = NOT (fold crc32_byte xs 0xFFFFFFFF)"

definition stored_gunzip :: "bytes \<Rightarrow> (bytes \<times> nat) option" where
  "stored_gunzip p =
     (if length p < 10 \<or> take 4 p \<noteq> [0x1F, 0x8B, 8, 0] then None
      else case stored_inflate (drop 10 p) of
             None \<Rightarrow> None
           | Some (out, rest) \<Rightarrow>
               (if length rest < 8 \<or> take 8 rest \<noteq> le32_bytes (crc32 out) @ le32_bytes (of_nat (length out)) then None
                else Some (out, length p - (length rest - 8))))"

definition stored_zlib :: zlib where
  "stored_zlib = \<lparr>z_deflate = (\<lambda>xs. Some (stored_deflate xs)), z_crc32 = crc32, z_gunzip = stored_gunzip\<rparr>"

lemma le16_back: "le16_of (le16_bytes w @ p) = w"
  by (rule bit_word_eqI) (auto simp: le16_of_def le16_bytes_def bit_simps)

lemma inflate_block:
  assumes "length xs \<le> 65535"
  shows "stored_inflate (stored_block final xs @ p) =
     (if final then Some (xs, p) else map_option (\<lambda>(out, rest). (xs @ out, rest)) (stored_inflate p))"
proof -
  let ?n = "of_nat (length xs) :: u16"
  have n: "unat ?n = length xs" using assms by (simp add: unat_of_nat take_bit_nat_eq_self)
  define q where "q = stored_block final xs @ p"
  have l: "le16_of (drop 1 q) = ?n" "le16_of (drop 3 q) = NOT ?n" "drop 5 q = xs @ p" "length q = 5 + length xs + length p"
    and f: "q ! 0 = (if final then 1 else 0)"
    using le16_back [of ?n "le16_bytes (NOT ?n) @ xs @ p"] le16_back [of "NOT ?n" "xs @ p"]
    by (simp_all add: q_def stored_block_def le16_bytes_def)
  have "drop (5 + length xs) q = drop (length xs) (drop 5 q)" by (simp add: add.commute)
  then have d: "drop (5 + length xs) q = p" unfolding l by simp
  have "\<not> (length q < 5 + length xs \<or> 1 < q ! 0 \<or> NOT ?n \<noteq> NOT ?n)" by (simp add: l f)
  moreover have "take (length xs) (xs @ p) = xs" by simp
  moreover have "q ! 0 = 1 \<longleftrightarrow> final" by (simp add: f)
  ultimately have "stored_inflate q = (if final then Some (xs, p) else map_option (\<lambda>(out, rest). (xs @ out, rest)) (stored_inflate p))"
    by (subst stored_inflate.simps) (simp only: Let_def l n d if_False)
  then show ?thesis by (simp only: q_def)
qed

lemma inflate_deflate: "stored_inflate (stored_deflate xs @ p) = Some (xs, p)"
proof (induction xs rule: stored_deflate.induct)
  case (1 xs)
  show ?case
  proof (cases "length xs \<le> 65535")
    case True
    then show ?thesis by (subst stored_deflate.simps) (simp add: inflate_block)
  next
    case False
    have "stored_deflate xs @ p = stored_block False (take 65535 xs) @ stored_deflate (drop 65535 xs) @ p"
      using False by (subst stored_deflate.simps) simp
    then show ?thesis using 1 [OF False] by (simp add: inflate_block)
  qed
qed

lemma stored_deflate_length: "length (stored_deflate xs) \<le> 5 + 2 * length xs"
proof (induction xs rule: stored_deflate.induct)
  case (1 xs)
  then show ?case by (subst stored_deflate.simps) (auto simp: stored_block_def le16_bytes_def)
qed

lemma stored_zlib_documented: "zlib_documented stored_zlib"
  unfolding zlib_documented_def
proof (intro allI impI)
  fix inp body h assume b: "z_deflate stored_zlib inp = Some body" and h: "length (h :: bytes) = 6"
  let ?t = "le32_bytes (crc32 inp) @ le32_bytes (of_nat (length inp))"
  have m: "gzip_member h body (z_crc32 stored_zlib inp) (length inp) = [0x1F, 0x8B, 8, 0] @ h @ stored_deflate inp @ ?t"
    using b by (simp add: gzip_member_def stored_zlib_def)
  have "drop 10 ([0x1F, 0x8B, 8, 0] @ h @ stored_deflate inp @ ?t) = stored_deflate inp @ ?t" using h by simp
  moreover have "length ?t = 8" by (simp add: le32_bytes_def)
  ultimately show "z_gunzip stored_zlib (gzip_member h body (z_crc32 stored_zlib inp) (length inp)) =
       Some (inp, length (gzip_member h body (z_crc32 stored_zlib inp) (length inp)))"
    unfolding m using h by (simp add: stored_zlib_def stored_gunzip_def inflate_deflate)
qed

end
