(* ===== verification/CardSaturnClaims.thy ===== *)
theory CardSaturnClaims
  imports CardSaturnSpec Gzip
begin

text \<open>
  The properties of Saturn backup RAM, over the lemmas of \<open>CardSaturnSpec\<close>: what injecting and deleting
  do to the map of saves, what every volume the library makes satisfies, where the operations write on
  any volume, and the stored forms of a volume.
\<close>

section \<open>Where the operations write\<close>

lemma sat_parse_loop_blocks: "sat_parse_loop vol m a c = (ok, m', c') \<Longrightarrow> sm_blocks m' = sm_blocks m"
proof (induction vol m a c rule: sat_parse_loop.induct)
  case (1 vol m a c)
  from "1.prems" show ?case
    using "1.IH" by (subst (asm) sat_parse_loop.simps) (fastforce simp: Let_def split: option.splits prod.splits if_splits)
qed

lemma sat_parse_entry_blocks: "sat_parse_entry vol m a = (r, m') \<Longrightarrow> sm_blocks m' = sm_blocks m"
  unfolding sat_parse_entry_def Let_def
  by (auto split: prod.splits if_splits dest!: sat_parse_loop_blocks)

lemma sat_scan_blocks: "sm_blocks (fst (sat_scan_loop vol visit bs m ctx)) = sm_blocks m"
proof (induction bs arbitrary: m ctx)
  case (Cons b bs)
  obtain r m1 where p: "sat_parse_entry vol m b = (r, m1)" by (cases "sat_parse_entry vol m b")
  have c: "sm_blocks m1 = sm_blocks m" by (rule sat_parse_entry_blocks [OF p])
  show ?case
  proof (cases r)
    case None
    then show ?thesis using p c by (simp add: Cons)
  next
    case (Some x)
    obtain n siz where x: "x = (n, siz)" by (cases x)
    obtain ctx1 go where v: "visit ctx m1 b n siz = (ctx1, go)" by (cases "visit ctx m1 b n siz")
    show ?thesis using p c Some x v by (simp add: Cons)
  qed
qed simp

text \<open>A find that succeeds, on any volume, returns a save that parsed.\<close>

lemma sat_scan_find_sound:
  assumes g: "sat_geometry vol"
  shows "set bs \<subseteq> {2..<sat_volume_blocks vol} \<Longrightarrow> sm_blocks m = sat_volume_blocks vol \<Longrightarrow> \<not> fc_found f \<Longrightarrow>
    sat_scan_loop vol sat_find_visit bs m f = (m', f') \<Longrightarrow> fc_found f' \<Longrightarrow>
    sat_save_ok vol (fc_target f) (sm_list m') \<and> fc_listed f' = length (sm_list m') \<and> fc_size f' = sat_size_of vol (fc_target f)"
proof (induction bs arbitrary: m)
  case (Cons b bs)
  have hd: "sigil_read_be32 (sat_data vol) (sat_block_at vol b) = sat_head vol b" by (simp add: sat_head_def sat_block_at_def)
  obtain r m1 where p: "sat_parse_entry vol m b = (r, m1)" by (cases "sat_parse_entry vol m b")
  have c: "sm_blocks m1 = sat_volume_blocks vol" using sat_parse_entry_blocks [OF p] Cons.prems(2) by simp
  show ?case
  proof (cases "sat_head vol b = SATURN_ARCHIVE_MARK")
    case False
    then show ?thesis using Cons by (simp add: hd)
  next
    case True
    show ?thesis
    proof (cases r)
      case None
      show ?thesis
        by (rule Cons.IH [of "m1\<lparr>sm_corrupt := sm_corrupt m1 + 1,
             sm_named := map_option (\<lambda>l. sigil_card_listing_corrupt l (Some (sat_archive_name vol b)) None b) (sm_named m1)\<rparr>"])
          (use Cons.prems True p c None in \<open>simp_all add: hd\<close>)
    next
      case (Some x)
      obtain n siz where x: "x = (n, siz)" by (cases x)
      have p': "sat_parse_entry vol m b = (Some (n, siz), m1)" using p Some x by simp
      show ?thesis
      proof (cases "b = fc_target f")
        case False
        then show ?thesis using Cons True p' c by (simp add: hd sat_find_visit_def)
      next
        case t: True
        have "sat_find_visit f m1 b n siz = (f\<lparr>fc_found := True, fc_listed := n, fc_size := siz\<rparr>, False)"
          using t by (simp add: sat_find_visit_def)
        then have "m1 = m' \<and> f\<lparr>fc_found := True, fc_listed := n, fc_size := siz\<rparr> = f'" using Cons.prems(4) True p' by (simp add: hd)
        then have "m' = m1" "fc_listed f' = n" "fc_size f' = siz" by auto
        then show ?thesis using sat_parse_entry_sound [OF g Cons.prems(2) p' True] Cons.prems(1) t by auto
      qed
    qed
  qed
qed simp

lemma sat_find_entry_sound:
  assumes g: "sat_geometry vol" and f: "sat_find_entry vol a = Inr (l, siz)"
  shows "sat_save_ok vol a l" "siz = sat_size_of vol a"
proof -
  let ?f = "\<lparr>fc_target = a, fc_found = False, fc_listed = 0, fc_size = 0\<rparr>"
  let ?s = "sat_scan_loop vol sat_find_visit [2..<sat_volume_blocks vol] (sat_map_open vol) ?f"
  obtain m f' where s: "?s = (m, f')" by (cases ?s)
  have m: "sat_map_scan vol (sat_map_open vol) sat_find_visit ?f = (m, f')"
    using s by (simp add: sat_map_scan_def SATURN_RESERVED_BLOCKS_def) (simp add: sat_map_open_def)
  have r: "fc_found f'" "l = take (fc_listed f') (sm_list m)" "siz = fc_size f'"
    using f m by (auto simp: sat_find_entry_def split: if_splits)
  have "sat_save_ok vol (fc_target ?f) (sm_list m) \<and> fc_listed f' = length (sm_list m) \<and> fc_size f' = sat_size_of vol (fc_target ?f)"
    by (rule sat_scan_find_sound [OF g _ _ _ s r(1)]) (simp_all add: sat_map_open_def)
  then show "sat_save_ok vol a l" "siz = sat_size_of vol a" using r by simp_all
qed

lemma sat_blk_nth: "sat_blk bs m' b = sat_blk bs m b \<Longrightarrow> k < bs \<Longrightarrow> m' (b * bs + k) = m (b * bs + k)"
  by (simp add: sat_blk_def bytes_at_eq_iff mem_eq_iff)

lemma sat_outside_blocks:
  assumes g: "sat_geometry vol" and same: "\<And>b. \<not> (2 \<le> b \<and> b < sat_volume_blocks vol) \<Longrightarrow> sat_blk (sat_block_size vol) m' b = sat_blk (sat_block_size vol) (sat_data vol) b"
    and j: "j < 2 * sat_block_size vol \<or> sat_size vol \<le> j"
  shows "m' j = sat_data vol j"
proof -
  let ?bs = "sat_block_size vol"
  have bs: "0 < ?bs" using sat_geometry_cases(1) [OF g] by auto
  have "\<not> (2 \<le> j div ?bs \<and> j div ?bs < sat_volume_blocks vol)"
  proof
    assume d: "2 \<le> j div ?bs \<and> j div ?bs < sat_volume_blocks vol"
    have "2 * ?bs \<le> j" using d bs by (metis div_le_mono le_trans less_eq_div_iff_mult_less_eq)
    moreover have "j < sat_size vol" using d bs sat_geometry_cases(2) [OF g] by (metis div_less_iff_less_mult)
    ultimately show False using j by linarith
  qed
  from sat_blk_nth [OF same [OF this], of "j mod ?bs"] show ?thesis using bs by (simp only: div_mult_mod_eq mod_less_divisor)
qed

lemma sat_inject_outside:
  assumes g: "sat_geometry vol" and i: "sigil_saturn_inject vol bup len = (rc, vol')" and j: "j < 2 * sat_block_size vol \<or> sat_size vol \<le> j"
  shows "sat_data vol' j = sat_data vol j"
proof -
  have bs: "4 < sat_block_size vol" using sat_geometry_cases(1) [OF g] by auto
  let ?n = "sat_blocks_needed (sat_block_size vol) (unat (sigil_read_be32 bup BUP_SIZE))"
  let ?s = "sat_map_scan vol (sat_map_open vol) (sat_name_visit vol bup BUP_NAME) False"
  obtain m found where s: "?s = (m, found)" by (cases ?s)
  have V: "sm_blocks m = sat_volume_blocks vol"
    using sat_scan_blocks [of vol "sat_name_visit vol bup BUP_NAME" "[2..<sat_volume_blocks vol]" "sat_map_open vol" False] s
    by (simp add: sat_map_scan_def SATURN_RESERVED_BLOCKS_def) (simp add: sat_map_open_def)
  define ch where "ch = take ?n (filter (\<lambda>b. sm_owner m b = 0) [2..<sat_volume_blocks vol])"
  show ?thesis
  proof (cases "rc = SIGIL_OK")
    case False
    then show ?thesis using i s by (auto simp: sigil_saturn_inject_def Let_def split: if_splits)
  next
    case True
    then have len: "length ch = ?n" and w: "vol' = sat_write_entry vol ch ?n (sat_stream bup ch ?n (unat (sigil_read_be32 bup BUP_SIZE)))
        (SATURN_FIELDS_LEN + ?n * 2 + unat (sigil_read_be32 bup BUP_SIZE))"
      using i s V by (auto simp: sigil_saturn_inject_def Let_def ch_def SATURN_RESERVED_BLOCKS_def split: if_splits)
    have d: "distinct ch" by (simp add: ch_def)
    have r: "2 \<le> b \<and> b < sat_volume_blocks vol" if "b \<in> set ch" for b using that by (auto simp: ch_def dest!: in_set_takeD)
    show ?thesis
      by (rule sat_outside_blocks [OF g _ j]) (use sat_written_blk(2) [OF refl bs d] r in \<open>auto simp: w len [symmetric]\<close>)
  qed
qed

lemma sat_delete_outside:
  assumes g: "sat_geometry vol" and i: "sigil_saturn_delete vol a = (rc, vol')" and j: "j < 2 * sat_block_size vol \<or> sat_size vol \<le> j"
  shows "sat_data vol' j = sat_data vol j"
proof (cases "sat_find_entry vol a")
  case (Inl e)
  then show ?thesis using i by (simp add: sigil_saturn_delete_def)
next
  case (Inr x)
  obtain l siz where x: "x = (l, siz)" by (cases x)
  then have s: "sat_save_ok vol a l" using sat_find_entry_sound(1) [OF g] Inr by simp
  have bs: "0 < sat_block_size vol" using sat_geometry_cases(1) [OF g] by auto
  have w: "sat_data vol' = fold (\<lambda>b m. memset m (b * sat_block_size vol) 0 (sat_block_size vol)) (a # l) (sat_data vol)"
    using i Inr x by (auto simp: sigil_saturn_delete_def sat_block_at_def)
  show ?thesis
    unfolding w by (rule sat_outside_blocks [OF g _ j]) (use s in \<open>auto simp only: sat_blk_zeros [OF bs] sat_save_ok_def split: if_splits\<close>)
qed

section \<open>Volumes the library makes\<close>

inductive sat_reachable :: "sat_as \<Rightarrow> nat \<Rightarrow> sigil_bram_storage \<Rightarrow> sigil_saturn_volume \<Rightarrow> bool" where
  formatted: "sigil_saturn_volume_format siz st = Inr vol \<Longrightarrow> sat_reachable AS_ANY siz st vol"
| formatted_cart: "sigil_saturn_volume_format_cart siz st = Inr vol \<Longrightarrow> sat_reachable AS_CART siz st vol"
| injected: "sat_reachable as1 siz st vol \<Longrightarrow> sat_reachable as1 siz st (snd (sigil_saturn_inject vol bup len))"
| deleted: "sat_reachable as1 siz st vol \<Longrightarrow> sat_reachable as1 siz st (snd (sigil_saturn_delete vol a))"

definition sat_kept :: "sat_as \<Rightarrow> nat \<Rightarrow> sigil_bram_storage \<Rightarrow> sigil_saturn_volume \<Rightarrow> bool" where
  "sat_kept as1 siz st vol \<longleftrightarrow> sat_clean vol \<and> sat_names_ok vol \<and> sat_size vol = siz \<and>
     sat_block_size vol = sat_block_size_for siz as1 \<and> sat_storage vol = st \<and>
     (\<forall>i < 16. sat_data vol i = SATURN_MAGIC ! i) \<and> (\<forall>i \<ge> siz. sat_data vol i = 0)"

lemma sat_format_kept:
  assumes f: "sat_format_as siz st as1 = Inr vol"
  shows "sat_kept as1 siz st vol"
proof -
  note c = sat_format_clean [OF f]
  have g: "sat_geometry vol" using c(1) by (simp add: sat_laid_def)
  have d: "sat_data vol = (\<lambda>i. if i < sat_block_size vol then SATURN_MAGIC ! (i mod SATURN_MAGIC_LEN) else 0)"
    using f by (auto simp: sat_format_as_def Let_def split: if_splits)
  have bs: "16 \<le> sat_block_size vol" "sat_block_size vol \<le> siz"
    using sat_geometry_cases [OF g] c(3) by auto
  have "sat_clean vol" using c(1) sat_clean_iff by blast
  moreover have "sat_names_ok vol" by (simp add: sat_names_ok_def c(2))
  ultimately show ?thesis using c bs by (simp add: sat_kept_def d SATURN_MAGIC_LEN_def)
qed

lemma sat_kept_step:
  assumes k: "sat_kept as1 siz st vol"
    and clean: "sat_clean vol'" "sat_names_ok vol'" and same: "sat_size vol' = sat_size vol" "sat_block_size vol' = sat_block_size vol"
      "sat_storage vol' = sat_storage vol"
    and out: "\<And>j. j < 2 * sat_block_size vol \<or> sat_size vol \<le> j \<Longrightarrow> sat_data vol' j = sat_data vol j"
  shows "sat_kept as1 siz st vol'"
proof -
  have "sat_geometry vol" using k by (simp add: sat_kept_def sat_clean_def)
  then have "16 \<le> 2 * sat_block_size vol" using sat_geometry_cases(1) by fastforce
  then show ?thesis using k clean same out by (auto simp: sat_kept_def)
qed

lemma sat_reachable_kept: "sat_reachable as1 siz st vol \<Longrightarrow> sat_kept as1 siz st vol"
proof (induction rule: sat_reachable.induct)
  case (formatted siz st vol)
  then show ?case by (simp add: sigil_saturn_volume_format_def sat_format_kept)
next
  case (formatted_cart siz st vol)
  then show ?case by (simp add: sigil_saturn_volume_format_cart_def sat_format_kept)
next
  case (injected as1 siz st vol bup len)
  obtain rc w where i: "sigil_saturn_inject vol bup len = (rc, w)" by fastforce
  have c: "sat_clean vol" "sat_names_ok vol" "sat_geometry vol" using injected.IH by (simp_all add: sat_kept_def sat_clean_def)
  have "sat_clean w" using sat_inject_clean(2,3) [OF c(1) i] c(1) by blast
  then have "sat_kept as1 siz st w"
    using sat_inject_outside [OF c(3) i] sat_names_inject [OF c(1,2) i] sat_inject_clean(4-6) [OF c(1) i]
    by (intro sat_kept_step [OF injected.IH])
  then show ?case by (simp add: i)
next
  case (deleted as1 siz st vol a)
  obtain rc w where d: "sigil_saturn_delete vol a = (rc, w)" by fastforce
  have c: "sat_clean vol" "sat_names_ok vol" "sat_geometry vol" using deleted.IH by (simp_all add: sat_kept_def sat_clean_def)
  have "sat_clean w" using sat_delete_clean(1,2) [OF c(1) d] c(1) by blast
  then have "sat_kept as1 siz st w"
    using sat_delete_outside [OF c(3) d] sat_names_delete [OF c(1,2) d] sat_delete_clean(3-5) [OF c(1) d]
    by (intro sat_kept_step [OF deleted.IH])
  then show ?case by (simp add: d)
qed

section \<open>Putting a deleted save back\<close>

lemma sat_blocks_needed_least:
  assumes "60 \<le> bs - 4" "30 + 2 * k + siz \<le> k * (bs - 4)"
  shows "sat_blocks_needed bs siz \<le> k"
proof -
  define p where "p = bs - 6"
  have p: "58 \<le> p" "bs - 4 = p + 2" using assms(1) by (simp_all add: p_def)
  have n: "sat_blocks_needed bs siz = (30 + siz + p - 1) div p"
    by (simp add: sat_blocks_needed_def Let_def sat_consts p_def)
  have "30 + siz \<le> k * p" using assms(2) unfolding p(2) by (simp add: distrib_left)
  then have "30 + siz + p - 1 < Suc k * p" using p(1) by simp
  then have "(30 + siz + p - 1) div p < Suc k" by (rule less_mult_imp_div_less)
  then show ?thesis unfolding n by simp
qed

text \<open>Another live save has the name of the one at \<open>a\<close>.\<close>

definition sat_name_shared :: "sigil_saturn_volume \<Rightarrow> nat \<Rightarrow> bool" where
  "sat_name_shared vol a \<longleftrightarrow> (\<exists>b s. b \<noteq> a \<and> sat_view vol b = Some s \<and> take 11 (fst s) = take 11 (fst (the (sat_view vol a))))"

lemma sat_restore:
  assumes c: "sat_clean vol" and x: "sigil_saturn_extract vol a = Inr bup"
    and d: "sigil_saturn_delete vol a = (rc1, vol1)" and i: "sigil_saturn_inject vol1 (mem_of bup) (length bup) = (rc2, vol2)"
  shows "rc1 = SIGIL_OK" "sat_clean vol1"
    "rc2 = (if fst (the (sat_view vol a)) ! 0 = 0 then SIGIL_ERR_UNSUPPORTED_FORMAT
       else if sat_name_shared vol a then SIGIL_ERR_EXISTS else SIGIL_OK)"
    "rc2 \<noteq> SIGIL_OK \<Longrightarrow> vol2 = vol1"
    "rc2 = SIGIL_OK \<Longrightarrow> sat_clean vol2 \<and> sigil_saturn_verify vol2 (mem_of bup) (length bup) = SIGIL_OK \<and>
       (\<exists>b. sat_view vol2 = (sat_view vol)(a := None, b := sat_view vol a)) \<and> sat_free vol \<le> sat_free vol2"
proof -
  define L where "L = sat_layout_of vol"
  have L: "sat_laid vol L" using sat_clean_layout [OF c] by (simp add: L_def)
  have g: "sat_geometry vol" using L by (simp add: sat_laid_def)
  note e = sat_extract_save [OF L x]
  have "sat_view vol a \<noteq> None" using e(1) by simp
  note del = sat_delete_clean(2) [OF c d this]
  then show "rc1 = SIGIL_OK" by simp
  show c1: "sat_clean vol1" using del by auto
  have v1: "sat_view vol1 = (sat_view vol)(a := None)" and f1: "sat_free vol1 = sat_free vol + sat_blocks_of vol a"
    using del by auto
  have g1: "sat_geometry vol1" using c1 by (simp add: sat_clean_def)
  have shared: "sat_name_shared vol a \<longleftrightarrow> (\<exists>s \<in> ran (sat_view vol1). take 11 (fst s) = take 11 (fst (sat_bup_save (mem_of bup))))"
    unfolding sat_name_shared_def v1 e(1) option.sel ran_def by auto
  obtain l where l: "L a = Some l" using e(1) sat_view_dom [OF L, of a] by auto
  have s: "sat_save_ok vol a l" using L l by (simp add: sat_laid_def)
  have siz: "sat_bup_len (mem_of bup) = sat_size_of vol a"
  proof -
    have "length (snd (sat_bup_save (mem_of bup))) = sat_bup_len (mem_of bup)" by (simp add: sat_bup_save_def)
    moreover have "sat_view vol a = Some (sat_fields vol a, sat_data_of vol a l)" using l by (simp add: sat_view_laid [OF L])
    ultimately show ?thesis using e(1) sat_read_data_laid(2) [OF g s] by simp
  qed
  have need: "sigil_saturn_cost vol1 (mem_of bup) (length bup) \<le> sat_blocks_of vol a"
    if valid: "sat_bup_valid (mem_of bup) (length bup)"
  proof -
    have bs: "60 \<le> sat_block_size vol - 4" using sat_pay_ge [OF g] by (simp add: sat_pay_def)
    have "sat_blocks_needed (sat_block_size vol) (sat_size_of vol a) \<le> length l + 1"
      by (rule sat_blocks_needed_least [OF bs]) (use s in \<open>simp add: sat_save_ok_def sat_pay_def\<close>)
    then show ?thesis using sat_cost_needed [OF g1 valid] sat_delete_clean(4) [OF c d] l
      by (simp add: siz sat_blocks_of_laid [OF L])
  qed
  show "rc2 = (if fst (the (sat_view vol a)) ! 0 = 0 then SIGIL_ERR_UNSUPPORTED_FORMAT
       else if sat_name_shared vol a then SIGIL_ERR_EXISTS else SIGIL_OK)"
    using sat_inject_clean(1) [OF c1 i] need f1 e(2) unfolding shared sat_spec_inject_def by auto
  show "vol2 = vol1" if "rc2 \<noteq> SIGIL_OK" by (rule sat_inject_clean(2) [OF c1 i that])
  show "sat_clean vol2 \<and> sigil_saturn_verify vol2 (mem_of bup) (length bup) = SIGIL_OK \<and>
       (\<exists>b. sat_view vol2 = (sat_view vol)(a := None, b := sat_view vol a)) \<and> sat_free vol \<le> sat_free vol2" if rc2: "rc2 = SIGIL_OK"
  proof -
    note inj = sat_inject_clean(3) [OF c1 i rc2]
    have "sat_bup_valid (mem_of bup) (length bup)" using sat_inject_clean(1) [OF c1 i] rc2 by (auto split: if_splits)
    then have "sat_free vol \<le> sat_free vol2" using inj need f1 by fastforce
    moreover have "\<exists>b. sat_view vol2 = (sat_view vol)(a := None, b := sat_view vol a)" using inj e(1) v1 by auto
    ultimately show ?thesis using inj by blast
  qed
qed

section \<open>Stored forms\<close>

text \<open>A storage record a load can have made: deflate is the one method of a gzip member.\<close>

definition sat_storage_ok :: "sigil_bram_storage \<Rightarrow> bool" where
  "sat_storage_ok st \<longleftrightarrow> -1 \<le> bs_filler st \<and> bs_filler st < 256 \<and>
     (bs_gzip st \<longrightarrow> length (bs_gzip_header st) = 10 \<and> take 3 (bs_gzip_header st) = [0x1F, 0x8B, 8])"

lemma sat_magic_at_iff:
  "sat_magic_at buf k \<longleftrightarrow> 16 * k \<le> length buf \<and> (\<forall>i < 16. buf ! (i * k + k - 1) = SATURN_MAGIC ! i)"
  by (auto simp: sat_magic_at_def SATURN_MAGIC_LEN_def list_all_iff)

lemma sat_magic_first: "SATURN_MAGIC ! 0 = 0x42" "SATURN_MAGIC ! 1 = 0x61"
  by (simp_all add: SATURN_MAGIC_def str_def)

lemma mem_io_read: "0 < n \<Longrightarrow> io_read (mem_io m) 0 n = Some (take n m)"
  by (auto simp: mem_io_def mem_read_def Let_def)

lemma sat_read_plain:
  assumes "length fl \<le> SATURN_MAX_FILE" "\<not> (fl ! 0 = 0x1F \<and> fl ! 1 = 0x8B)"
  shows "sat_read_file z (mem_io fl) = Inr (fl, bram_storage_zero)"
proof -
  have "sigil_bram_read_all (mem_io fl) SATURN_MAX_FILE = Inr fl" using memio.bram_read_all [of fl SATURN_MAX_FILE] assms(1) by simp
  then show ?thesis using assms(2) by (auto simp: sat_read_file_def mem_io_read)
qed

lemma sat_read_gzip:
  assumes "length fl \<le> SATURN_MAX_GZIP" "length inp \<le> SATURN_MAX_FILE" "10 \<le> length fl" "fl ! 0 = 0x1F" "fl ! 1 = 0x8B"
    "z_gunzip z fl = Some (inp, length fl)"
  shows "sat_read_file z (mem_io fl) = Inr (inp, bram_storage_zero\<lparr>bs_gzip := True, bs_gzip_header := take 10 fl\<rparr>)"
proof -
  have "sigil_bram_read_all (mem_io fl) SATURN_MAX_GZIP = Inr fl" using memio.bram_read_all [of fl SATURN_MAX_GZIP] assms(1) by simp
  then show ?thesis using assms
    by (simp add: sat_read_file_def mem_io_read GZIP_HEADER_SIZE_def bram_gunzip_all_def)
qed

text \<open>Loading the flat bytes of a volume, however they were packed.\<close>

lemma sat_load_flat:
  assumes v: "length v = siz" "16 \<le> siz" "\<forall>i < 16. v ! i = SATURN_MAGIC ! i" and bs: "sat_block_size_for siz as1 \<noteq> 0"
    and st: "-1 \<le> bs_filler st" "bs_filler st < 256" and s0: "\<not> bs_expanded s0"
    and rd: "sat_read_file z (mem_io fl) = Inr (bram_flat v st, s0)"
    and head: "2 \<le> length fl \<and> fl ! 0 = 0x1F \<and> fl ! 1 = 0x8B \<or> fl = bram_flat v st"
  shows "\<exists>s. sat_load_as z (mem_io fl) as1 = Inr \<lparr>sat_data = mem_of v, sat_size = siz, sat_block_size = sat_block_size_for siz as1, sat_storage = s\<rparr> \<and>
    bs_gzip s = bs_gzip s0 \<and> bs_gzip_header s = bs_gzip_header s0 \<and> bram_flat v s = bram_flat v st"
proof -
  let ?b = "bram_flat v st"
  have m1: "sat_magic_at v 1" using v by (simp add: sat_magic_at_iff)
  have fin: "sat_finish_load v s as1 = Inr \<lparr>sat_data = mem_of v, sat_size = siz, sat_block_size = sat_block_size_for siz as1, sat_storage = s\<rparr>" for s
    using m1 bs v(1) by (simp add: sat_finish_load_def Let_def)
  have lb: "length ?b = (if bs_expanded st then 2 * siz else siz)" by (simp add: length_bram_flat v(1))
  have flat2: "?b ! (2 * i + 1) = v ! i" if "bs_expanded st" "i < 16" for i
    using bram_flat_nth(2) [OF that(1), of i v] that(2) v(1,2) by simp
  have flat1: "?b = v" if "\<not> bs_expanded st" using that by (simp add: bram_flat_def)
  have m2: "sat_magic_at ?b 2 \<longleftrightarrow> bs_expanded st"
  proof (cases "bs_expanded st")
    case True
    have "?b ! (i * 2 + 2 - 1) = SATURN_MAGIC ! i" if "i < 16" for i
    proof -
      have "i * 2 + 2 - 1 = 2 * i + 1" by simp
      then show ?thesis using flat2 [OF True that] v(3) that by (simp only:)
    qed
    then show ?thesis using True lb v(2) by (simp add: sat_magic_at_iff)
  next
    case False
    have "v ! 1 = 0x61" using v(3) sat_magic_first(2) by simp
    then have "v ! 1 \<noteq> SATURN_MAGIC ! 0" unfolding sat_magic_first by simp
    then show ?thesis using False flat1 by (auto simp: sat_magic_at_iff intro!: exI [of _ 0])
  qed
  have h: "sat_magic_at (take 32 ?b) 1 \<or> sat_magic_at (take 32 ?b) 2"
  proof (cases "bs_expanded st")
    case True
    then have "sat_magic_at ?b 2" using m2 by simp
    then have "sat_magic_at (take 32 ?b) 2" using lb v(2) True by (auto simp: sat_magic_at_iff)
    then show ?thesis ..
  next
    case False
    have "sat_magic_at (take 32 v) 1" using v by (auto simp: sat_magic_at_iff)
    then show ?thesis using flat1 [OF False] by simp
  qed
  have ok: "\<not> (\<not> (2 \<le> length (take 32 fl) \<and> take 32 fl ! 0 = 0x1F \<and> take 32 fl ! 1 = 0x8B) \<and>
      \<not> sat_magic_at (take 32 fl) 1 \<and> \<not> sat_magic_at (take 32 fl) 2)"
    using head h by auto
  have load: "sat_load_as z (mem_io fl) as1 =
      (if sat_magic_at ?b 2 then (case sigil_bram_collapse ?b s0 of None \<Rightarrow> Inl SIGIL_ERR_UNSUPPORTED_FORMAT
         | Some (half, s) \<Rightarrow> sat_finish_load half s as1) else sat_finish_load ?b s0 as1)"
  proof -
    have n: "2 * 16 = (32::nat)" by simp
    have "io_read (mem_io fl) 0 32 = Some (take 32 fl)" by (simp add: mem_io_read)
    then show ?thesis
      unfolding sat_load_as_def Let_def SATURN_MAGIC_LEN_def n using ok by (simp only: option.case sum.case prod.case rd if_False)
  qed
  show ?thesis
  proof (cases "bs_expanded st")
    case True
    have "v \<noteq> []" using v(1,2) by auto
    then obtain f where f: "sigil_bram_collapse ?b s0 = Some (v, s0\<lparr>bs_expanded := True, bs_filler := f\<rparr>)"
      "bram_flat v (s0\<lparr>bs_expanded := True, bs_filler := f\<rparr>) = ?b"
      using bram_collapse_flat [OF True st, of v s0] by blast
    show ?thesis
      by (rule exI [of _ "s0\<lparr>bs_expanded := True, bs_filler := f\<rparr>"]) (use load m2 True f fin in simp)
  next
    case False
    show ?thesis by (rule exI [of _ s0]) (use load m2 False flat1 fin s0 in \<open>simp add: bram_flat_def\<close>)
  qed
qed

lemma bram_gzip_wrap_some:
  assumes "bram_gzip_wrap z inp header = Inr fl" "length header = 10"
  shows "10 \<le> length fl" "take 10 fl = header[3 := 0]"
  using assms by (auto simp: bram_gzip_wrap_def GZIP_HEADER_SIZE_def GZIP_FLAGS_def split: option.splits)

lemma sat_gzip_rewrite: "bram_gzip_wrap z inp (header[3 := 0]) = bram_gzip_wrap z inp header" if "length header = 10"
proof -
  have "(take GZIP_HEADER_SIZE (header[3 := 0]))[GZIP_FLAGS := 0] = (take GZIP_HEADER_SIZE header)[GZIP_FLAGS := 0]"
    using that by (simp add: GZIP_HEADER_SIZE_def GZIP_FLAGS_def)
  then show ?thesis by (simp only: bram_gzip_wrap_def)
qed

lemma sat_write_load:
  assumes k: "sat_kept as1 siz st vol" and st: "sat_storage_ok st" and w: "sigil_saturn_volume_write z vol = Inr fl"
    and gz: "bs_gzip st \<Longrightarrow> zlib_documented z \<and> length fl \<le> SATURN_MAX_GZIP"
  shows "\<exists>s. sat_load_as z (mem_io fl) as1 = Inr (vol\<lparr>sat_storage := s\<rparr>) \<and>
    sigil_saturn_volume_write z (vol\<lparr>sat_storage := s\<rparr>) = Inr fl"
proof -
  define v where "v = bytes_at (sat_data vol) 0 siz"
  have g: "sat_geometry vol" and c: "sat_size vol = siz" "sat_block_size vol = sat_block_size_for siz as1" "sat_storage vol = st"
    "\<forall>i < 16. sat_data vol i = SATURN_MAGIC ! i" "\<forall>i \<ge> siz. sat_data vol i = 0"
    using k by (simp_all add: sat_kept_def sat_clean_def)
  have s: "16 \<le> siz" "siz \<le> 4194304" "sat_block_size_for siz as1 \<noteq> 0"
    using g c(1,2) sat_geometry_cases [OF g]
    by (auto simp: sat_block_size_for_def Let_def SATURN_INTERNAL_SIZE_def SATURN_YABASANSHIRO_SIZE_def SATURN_CART_SIZE_def split: if_splits)
  have v: "length v = siz" "\<forall>i < 16. v ! i = SATURN_MAGIC ! i" using s c(4) by (simp_all add: v_def)
  have mv: "mem_of v = sat_data vol" using c(5) by (auto simp: mem_of_def v_def fun_eq_iff)
  have vol: "\<lparr>sat_data = mem_of v, sat_size = siz, sat_block_size = sat_block_size_for siz as1, sat_storage = t\<rparr> = vol\<lparr>sat_storage := t\<rparr>" for t
    using c by (simp add: mv)
  have wr: "sigil_saturn_volume_write z (vol\<lparr>sat_storage := t\<rparr>) =
      (if \<not> bs_gzip t then Inr (bram_flat v t) else bram_gzip_wrap z (bram_flat v t) (bs_gzip_header t))" for t
    by (simp add: sigil_saturn_volume_write_def sigil_bram_store_def Let_def c(1) v_def)
  have w': "(if \<not> bs_gzip st then Inr (bram_flat v st) else bram_gzip_wrap z (bram_flat v st) (bs_gzip_header st)) = Inr fl"
  proof -
    have "vol\<lparr>sat_storage := st\<rparr> = vol" using c(3) by simp
    then show ?thesis using w wr [of st] by (simp only:)
  qed
  have f: "-1 \<le> bs_filler st" "bs_filler st < 256" using st by (simp_all add: sat_storage_ok_def)
  have len: "length (bram_flat v st) \<le> SATURN_MAX_FILE"
    using s(2) by (simp add: length_bram_flat v(1) SATURN_MAX_FILE_def SATURN_YABASANSHIRO_SIZE_def)
  show ?thesis
  proof (cases "bs_gzip st")
    case False
    then have fl: "fl = bram_flat v st" using w' by simp
    have "\<not> (fl ! 0 = 0x1F \<and> fl ! 1 = 0x8B)"
    proof (cases "bs_expanded st")
      case True
      have "fl ! 1 = v ! 0" using bram_flat_nth(2) [OF True, of 0 v] v(1) s(1) fl by simp
      then show ?thesis using v(2) sat_magic_first(1) by simp
    next
      case False
      then show ?thesis using fl v(2) sat_magic_first(1) by (simp add: bram_flat_def)
    qed
    then have "sat_read_file z (mem_io fl) = Inr (bram_flat v st, bram_storage_zero)" using sat_read_plain len fl by simp
    then obtain t where t: "sat_load_as z (mem_io fl) as1 = Inr (vol\<lparr>sat_storage := t\<rparr>)" "bs_gzip t = bs_gzip bram_storage_zero"
      "bram_flat v t = bram_flat v st"
      using sat_load_flat [OF v(1) s(1) v(2) s(3) f, of bram_storage_zero z fl] fl unfolding vol by (auto simp: bram_storage_zero_def)
    then show ?thesis using fl by (intro exI [of _ t]) (simp add: wr bram_storage_zero_def)
  next
    case True
    have h: "length (bs_gzip_header st) = 10" and h3: "take 3 (bs_gzip_header st) = [0x1F, 0x8B, 8]"
      using st True by (simp_all add: sat_storage_ok_def)
    have h2: "bs_gzip_header st ! 0 = 0x1F" "bs_gzip_header st ! 1 = 0x8B"
      using nth_take [of 0 3 "bs_gzip_header st"] nth_take [of 1 3 "bs_gzip_header st"] unfolding h3 by simp_all
    have wrap: "bram_gzip_wrap z (bram_flat v st) (bs_gzip_header st) = Inr fl" using w' True by simp
    note hd = bram_gzip_wrap_some [OF wrap h]
    have un: "z_gunzip z fl = Some (bram_flat v st, length fl)" using zlib_unwraps [OF _ wrap h h3] gz [OF True] by blast
    have "fl ! 0 = take 10 fl ! 0" "fl ! 1 = take 10 fl ! 1" using hd(1) by simp_all
    then have b: "fl ! 0 = 0x1F" "fl ! 1 = 0x8B" unfolding hd(2) using h h2 by simp_all
    define s0 where "s0 = bram_storage_zero\<lparr>bs_gzip := True, bs_gzip_header := take 10 fl\<rparr>"
    have rd: "sat_read_file z (mem_io fl) = Inr (bram_flat v st, s0)"
      unfolding s0_def by (rule sat_read_gzip) (use gz [OF True] len hd(1) b un in simp_all)
    obtain t where t: "sat_load_as z (mem_io fl) as1 = Inr (vol\<lparr>sat_storage := t\<rparr>)" "bs_gzip t = bs_gzip s0"
      "bs_gzip_header t = bs_gzip_header s0" "bram_flat v t = bram_flat v st"
      using sat_load_flat [OF v(1) s(1) v(2) s(3) f, of s0 z fl] rd b hd(1) unfolding vol by (auto simp: s0_def bram_storage_zero_def)
    have "sigil_saturn_volume_write z (vol\<lparr>sat_storage := t\<rparr>) = bram_gzip_wrap z (bram_flat v st) (take 10 fl)"
      using t by (simp add: wr s0_def)
    then show ?thesis using t(1) wrap sat_gzip_rewrite [OF h] hd(2) by (intro exI [of _ t]) simp
  qed
qed

section \<open>A sample volume and .bup\<close>

definition sat_sample :: sigil_saturn_volume where
  "sat_sample = \<lparr>sat_data = (\<lambda>i. if i < 64 then SATURN_MAGIC ! (i mod SATURN_MAGIC_LEN) else 0), sat_size = 32768,
     sat_block_size = 64, sat_storage = bram_storage_zero\<rparr>"

definition sat_sample_bup :: mem where
  "sat_sample_bup = (\<lambda>_. 0)(0 := 0x56, 1 := 0x6D, 2 := 0x65, 3 := 0x6D, 16 := 0x41, 47 := 100, 64 := 7, 163 := 9)"

lemma sat_sample_format: "sigil_saturn_volume_format 32768 bram_storage_zero = Inr sat_sample"
  by (simp add: sigil_saturn_volume_format_def sat_format_as_def sat_block_size_for_def Let_def SATURN_INTERNAL_SIZE_def
      SATURN_YABASANSHIRO_SIZE_def sat_sample_def)

lemma sat_sample_reachable: "sat_reachable AS_ANY 32768 bram_storage_zero sat_sample"
  by (rule sat_reachable.formatted [OF sat_sample_format])

lemma sat_sample_clean: "sat_clean sat_sample" "sat_names_ok sat_sample" "sat_view sat_sample = (\<lambda>_. None)" "sat_free sat_sample = 510"
proof -
  note c = sat_format_clean [OF sat_sample_format [unfolded sigil_saturn_volume_format_def]]
  show "sat_clean sat_sample" "sat_names_ok sat_sample" using sat_reachable_kept [OF sat_sample_reachable] by (simp_all add: sat_kept_def)
  show "sat_view sat_sample = (\<lambda>_. None)" by (rule c(2))
  show "sat_free sat_sample = 510"
    unfolding sat_free_laid [OF c(1)]
    by (simp add: sat_free_blocks_def sat_holds_def sat_volume_blocks_def sat_sample_def)
qed

lemma sat_sample_bup_valid: "sat_bup_valid sat_sample_bup 164" "sat_bup_len sat_sample_bup = 100"
proof -
  have r: "sigil_read_be32 sat_sample_bup 44 = 100" by (simp add: sigil_read_be32_def sat_sample_bup_def)
  then show "sat_bup_len sat_sample_bup = 100" by (simp add: sat_bup_len_def)
  have "has_bytes sat_sample_bup 0 BUP_MAGIC"
    by (simp add: has_bytes_def bytes_at_def BUP_MAGIC_def str_def sat_sample_bup_def upt_rec)
  moreover have "sat_sample_bup BUP_NAME \<noteq> 0" by (simp add: sat_sample_bup_def BUP_NAME_def)
  ultimately show "sat_bup_valid sat_sample_bup 164" using r by (simp add: sat_bup_valid_def sat_consts)
qed

lemma sat_sample_cost: "sigil_saturn_cost sat_sample sat_sample_bup 164 = 3"
  using sat_cost_needed [OF _ sat_sample_bup_valid(1), of sat_sample] sat_sample_clean(1)
  by (simp add: sat_clean_def sat_sample_bup_valid(2)) (simp add: sat_blocks_needed_def Let_def sat_consts sat_sample_def)

definition sat_sample_full :: sigil_saturn_volume where
  "sat_sample_full = snd (sigil_saturn_inject sat_sample sat_sample_bup 164)"

lemma sat_sample_inject: "sigil_saturn_inject sat_sample sat_sample_bup 164 = (SIGIL_OK, sat_sample_full)"
proof -
  obtain rc w where i: "sigil_saturn_inject sat_sample sat_sample_bup 164 = (rc, w)" by fastforce
  then have "rc = SIGIL_OK"
    using sat_inject_clean(1) [OF sat_sample_clean(1) i]
    by (simp add: sat_sample_bup_valid sat_spec_inject_def sat_sample_clean sat_sample_cost)
  then show ?thesis using i by (simp add: sat_sample_full_def)
qed

lemma sat_sample_full_reachable: "sat_reachable AS_ANY 32768 bram_storage_zero sat_sample_full"
  unfolding sat_sample_full_def by (rule sat_reachable.injected [OF sat_sample_reachable])

lemma sat_sample_full_kept: "sat_clean sat_sample_full" "sat_names_ok sat_sample_full" "\<exists>a. sat_view sat_sample_full = [a \<mapsto> sat_bup_save sat_sample_bup]"
  using sat_reachable_kept [OF sat_sample_full_reachable] sat_inject_clean(3) [OF sat_sample_clean(1) sat_sample_inject refl]
  by (simp_all add: sat_kept_def sat_sample_clean(3))

section \<open>The properties\<close>

text \<open>C3 (refinement). Injecting a .bup into a volume that lists without corrupt saves refines adding one
  entry to the map of saves: the code's result is refusal of an invalid .bup, then of a name a live save
  has, then of more blocks than are free, and otherwise success. On success the new save holds exactly
  the .bup's fields and data at an archive block that held no save, every other save is untouched, the
  free count drops by the announced cost, the volume lists clean again and the .bup verifies; on failure
  the volume is unchanged.\<close>

theorem saturn_inject_refines:
  assumes "sat_clean vol" and "sigil_saturn_inject vol bup len = (rc, vol')"
  shows "rc = (if \<not> sat_bup_valid bup len then SIGIL_ERR_UNSUPPORTED_FORMAT
      else sat_spec_inject (sat_free vol) (sigil_saturn_cost vol bup len) (sat_view vol) (sat_bup_save bup)) \<and>
    (rc \<noteq> SIGIL_OK \<longrightarrow> vol' = vol) \<and>
    (rc = SIGIL_OK \<longrightarrow> sat_clean vol' \<and> (\<exists>a. sat_view vol a = None \<and> sat_view vol' = (sat_view vol)(a \<mapsto> sat_bup_save bup)) \<and>
      sat_free vol' + sigil_saturn_cost vol bup len = sat_free vol \<and> sigil_saturn_verify vol' bup len = SIGIL_OK)"
  using sat_inject_clean(1-3) [OF assms] by blast

theorem saturn_inject_refines_witness:
  "\<exists>vol'. sigil_saturn_inject sat_sample sat_sample_bup 164 = (SIGIL_OK, vol') \<and> sat_clean vol' \<and>
     (\<exists>a. sat_view vol' = [a \<mapsto> sat_bup_save sat_sample_bup]) \<and> sat_free vol' = 507 \<and>
     sigil_saturn_verify vol' sat_sample_bup 164 = SIGIL_OK"
  using saturn_inject_refines [OF sat_sample_clean(1) sat_sample_inject] sat_sample_inject
  by (auto simp: sat_sample_clean sat_sample_cost)

text \<open>C12 (refinement). Deleting from such a volume refines removing one entry of the map of saves: a block
  that starts no save is refused and nothing changes; otherwise that save is gone, every other is
  untouched, its blocks are free again and the volume lists clean.\<close>

theorem saturn_delete_refines:
  assumes "sat_clean vol" and "sigil_saturn_delete vol a = (rc, vol')"
  shows "if sat_view vol a = None then rc = SIGIL_ERR_INVALID_ARG \<and> vol' = vol
    else rc = SIGIL_OK \<and> sat_clean vol' \<and> sat_view vol' = (sat_view vol)(a := None) \<and>
      sat_free vol' = sat_free vol + sat_blocks_of vol a"
  using sat_delete_clean(1,2) [OF assms] by simp

theorem saturn_delete_refines_witness:
  "\<exists>a vol'. sat_view sat_sample_full a = Some (sat_bup_save sat_sample_bup) \<and>
     sigil_saturn_delete sat_sample_full a = (SIGIL_OK, vol') \<and> sat_view vol' = (\<lambda>_. None)"
proof -
  obtain a where a: "sat_view sat_sample_full = [a \<mapsto> sat_bup_save sat_sample_bup]" using sat_sample_full_kept(3) by blast
  obtain rc w where d: "sigil_saturn_delete sat_sample_full a = (rc, w)" by fastforce
  show ?thesis
    using saturn_delete_refines [OF sat_sample_full_kept(1) d] d a by (intro exI [of _ a] exI [of _ w]) simp
qed

text \<open>C4 (invariant). Every volume the library makes by formatting, then injecting and deleting anything in
  any order, keeps its signature and lists no corrupt save; the listing shows exactly the archive blocks
  of the map, in block order, and accounts for every block; no two saves share a name and none is empty.\<close>

theorem saturn_reachable_invariant:
  assumes "sat_reachable as1 siz st vol"
  shows "sat_clean vol \<and> (\<forall>i < 16. sat_data vol i = SATURN_MAGIC ! i) \<and>
    (\<forall>a b s t. sat_view vol a = Some s \<longrightarrow> sat_view vol b = Some t \<longrightarrow> take 11 (fst s) = take 11 (fst t) \<longrightarrow> a = b) \<and>
    (\<forall>a s. sat_view vol a = Some s \<longrightarrow> fst s ! 0 \<noteq> 0) \<and>
    (\<exists>l. sigil_saturn_list vol = Inr l \<and> map ce_first_block (entries l) = filter (\<lambda>b. sat_view vol b \<noteq> None) [2..<siz div sat_block_size_for siz as1] \<and>
      free_blocks l + sum_list (map ce_blocks (entries l)) = total_blocks l)"
proof -
  have k: "sat_kept as1 siz st vol" by (rule sat_reachable_kept [OF assms])
  then have c: "sat_clean vol" "sat_names_ok vol" "\<forall>i < 16. sat_data vol i = SATURN_MAGIC ! i"
    "sat_volume_blocks vol = siz div sat_block_size_for siz as1" by (simp_all add: sat_kept_def sat_volume_blocks_def)
  have L: "sat_laid vol (sat_layout_of vol)" by (rule sat_clean_layout [OF c(1)])
  obtain l where l: "sigil_saturn_list vol = Inr l" "corrupt_count l = 0"
    "entries l = map (sat_entry vol (sat_layout_of vol)) (filter (\<lambda>b. sat_layout_of vol b \<noteq> None) [2..<sat_volume_blocks vol])"
    using sat_list_laid [OF L] by blast
  have "map ce_first_block (entries l) = filter (\<lambda>b. sat_view vol b \<noteq> None) [2..<siz div sat_block_size_for siz as1]"
    using sat_view_dom [OF L] by (simp add: l(3) c(4) comp_def sat_entry_def)
  moreover have "free_blocks l + sum_list (map ce_blocks (entries l)) = total_blocks l"
    using sat_list_accounts(1) [OF _ l(1)] L l(2) by (simp add: sat_laid_def)
  ultimately show ?thesis using c l(1) unfolding sat_names_ok_def by blast
qed

theorem saturn_reachable_invariant_witness:
  "sat_clean sat_sample_full \<and> (\<exists>l. sigil_saturn_list sat_sample_full = Inr l \<and> free_blocks l + sum_list (map ce_blocks (entries l)) = total_blocks l)"
  using saturn_reachable_invariant [OF sat_sample_full_reachable] by blast

text \<open>C11 (safety). Whatever bytes a volume of a device's size holds, crossed and looping block lists
  included, the listing counts every block once: the free blocks, the blocks of the listed saves and one
  archive block per corrupt save add up to the volume's blocks past the two reserved ones.\<close>

theorem saturn_list_accounts:
  assumes "sat_geometry vol" and "sigil_saturn_list vol = Inr l"
  shows "free_blocks l + sum_list (map ce_blocks (entries l)) + corrupt_count l = total_blocks l \<and>
    total_blocks l = sat_volume_blocks vol - 2"
  using sat_list_accounts [OF assms] by blast

theorem saturn_list_accounts_witness:
  "\<exists>l. sigil_saturn_list sat_sample_full = Inr l \<and>
     free_blocks l + sum_list (map ce_blocks (entries l)) + corrupt_count l = total_blocks l"
proof -
  have g: "sat_geometry sat_sample_full" using sat_sample_full_kept(1) by (simp add: sat_clean_def)
  obtain l where "sigil_saturn_list sat_sample_full = Inr l"
    using sat_sample_full_kept(1) by (auto simp: sat_clean_def split: sum.splits)
  then show ?thesis using saturn_list_accounts [OF g] by blast
qed

text \<open>C13 (liveness). On a volume that lists without corrupt saves, a save that is taken off and deleted goes
  back from its extracted .bup, however full the volume was: the inject succeeds, no block is lost, the
  save is read as it was, every other save is where it was, and the .bup verifies. The two saves it
  refuses are named: one of an empty name, and one whose name another live save has. Neither is on a volume
  the operations made. After a refusal the volume is the one with the save deleted.\<close>

theorem saturn_restore:
  assumes "sat_clean vol" and "sigil_saturn_extract vol a = Inr bup"
    and "sigil_saturn_delete vol a = (rc1, vol1)" and "sigil_saturn_inject vol1 (mem_of bup) (length bup) = (rc2, vol2)"
  shows "rc1 = SIGIL_OK \<and> sat_clean vol1 \<and>
    rc2 = (if fst (the (sat_view vol a)) ! 0 = 0 then SIGIL_ERR_UNSUPPORTED_FORMAT
      else if \<exists>b s. b \<noteq> a \<and> sat_view vol b = Some s \<and> take 11 (fst s) = take 11 (fst (the (sat_view vol a)))
      then SIGIL_ERR_EXISTS else SIGIL_OK) \<and>
    (rc2 \<noteq> SIGIL_OK \<longrightarrow> vol2 = vol1) \<and>
    (rc2 = SIGIL_OK \<longrightarrow> sat_clean vol2 \<and> sigil_saturn_verify vol2 (mem_of bup) (length bup) = SIGIL_OK \<and>
      (\<exists>b. sat_view vol2 = (sat_view vol)(a := None, b := sat_view vol a)) \<and> sat_free vol \<le> sat_free vol2)"
proof -
  note r = sat_restore [OF assms, unfolded sat_name_shared_def]
  show ?thesis by (rule conjI [OF r(1) conjI [OF r(2) conjI [OF r(3) conjI [OF impI impI]]]]) (erule r(4), erule r(5))
qed

theorem saturn_restore_witness:
  "\<exists>a bup vol1 vol2. sigil_saturn_extract sat_sample_full a = Inr bup \<and> sigil_saturn_delete sat_sample_full a = (SIGIL_OK, vol1) \<and>
     sigil_saturn_inject vol1 (mem_of bup) (length bup) = (SIGIL_OK, vol2) \<and>
     sigil_saturn_verify vol2 (mem_of bup) (length bup) = SIGIL_OK"
proof -
  obtain a where a: "sat_view sat_sample_full = [a \<mapsto> sat_bup_save sat_sample_bup]" using sat_sample_full_kept(3) by blast
  have L: "sat_laid sat_sample_full (sat_layout_of sat_sample_full)" by (rule sat_clean_layout [OF sat_sample_full_kept(1)])
  have "sat_layout_of sat_sample_full a \<noteq> None" using sat_view_dom [OF L, of a] a by simp
  then obtain bup where x: "sigil_saturn_extract sat_sample_full a = Inr bup" using sat_extract_laid [OF L, of a] by auto
  obtain rc1 v1 where d: "sigil_saturn_delete sat_sample_full a = (rc1, v1)" by fastforce
  obtain rc2 v2 where i: "sigil_saturn_inject v1 (mem_of bup) (length bup) = (rc2, v2)" by fastforce
  have va: "sat_view sat_sample_full a = Some (sat_bup_save sat_sample_bup)" by (simp add: a)
  then have "fst (sat_bup_save sat_sample_bup) ! 0 \<noteq> 0" using sat_sample_full_kept(2) unfolding sat_names_ok_def by blast
  then have "fst (the (sat_view sat_sample_full a)) ! 0 \<noteq> 0" by (simp only: va option.sel simp_thms)
  moreover have "\<not> (\<exists>b s. b \<noteq> a \<and> sat_view sat_sample_full b = Some s \<and>
      take 11 (fst s) = take 11 (fst (the (sat_view sat_sample_full a))))" using a by auto
  ultimately have "rc1 = SIGIL_OK \<and> rc2 = SIGIL_OK \<and> sigil_saturn_verify v2 (mem_of bup) (length bup) = SIGIL_OK"
    using saturn_restore [OF sat_sample_full_kept(1) x d i] by simp
  then show ?thesis using x d i by blast
qed

text \<open>C14 (bounds). Whatever bytes a volume of a device's size holds, injecting any .bup and deleting at any
  block number, listed or not, write only inside the volume's buffer past the signature and the reserved
  block.\<close>

theorem saturn_write_bounds:
  assumes "sat_geometry vol" and "j < 2 * sat_block_size vol \<or> sat_size vol \<le> j"
  shows "sat_data (snd (sigil_saturn_inject vol bup len)) j = sat_data vol j \<and>
    sat_data (snd (sigil_saturn_delete vol a)) j = sat_data vol j"
  using sat_inject_outside [OF assms(1) prod.collapse [symmetric] assms(2)] sat_delete_outside [OF assms(1) prod.collapse [symmetric] assms(2)]
  by blast

theorem saturn_write_bounds_witness:
  "sat_data (snd (sigil_saturn_inject sat_sample sat_sample_bup 164)) 127 = 0 \<and>
   sat_data (snd (sigil_saturn_inject sat_sample sat_sample_bup 164)) 32768 = 0"
proof -
  have g: "sat_geometry sat_sample" using sat_sample_clean(1) by (simp add: sat_clean_def)
  have s: "sat_block_size sat_sample = 64" "sat_size sat_sample = 32768" by (simp_all add: sat_sample_def)
  show ?thesis using saturn_write_bounds [OF g, of 127] saturn_write_bounds [OF g, of 32768]
    by (simp add: s) (simp add: sat_sample_def)
qed

text \<open>C15 (roundtrip). A volume so made is written to a file that loads again as the same volume and is
  written back to the same bytes, in every stored form: plain, expanded to 16-bit words, and either of
  them gzipped. The gzipped file is a member of the format of RFC 1952, and of zlib is used only that
  inflate takes such a member back to what deflate was given, where its header, its CRC-32 and its
  length are those the format prescribes.\<close>

theorem saturn_volume_roundtrip:
  assumes "sat_reachable as1 siz st vol" and "sat_storage_ok st" and "sigil_saturn_volume_write z vol = Inr fl"
    and "bs_gzip st \<Longrightarrow> zlib_documented z \<and> length fl \<le> SATURN_MAX_GZIP"
  shows "\<exists>s. sat_load_as z (mem_io fl) as1 = Inr (vol\<lparr>sat_storage := s\<rparr>) \<and>
    sigil_saturn_volume_write z (vol\<lparr>sat_storage := s\<rparr>) = Inr fl"
  by (rule sat_write_load [OF sat_reachable_kept [OF assms(1)] assms(2,3)]) (rule assms(4))

text \<open>A gzipped expanded volume, with zlib instantiated by stored deflate blocks.\<close>

definition sat_sample_storage :: sigil_bram_storage where
  "sat_sample_storage = \<lparr>bs_gzip = True, bs_gzip_header = [0x1F, 0x8B, 8, 0, 0, 0, 0, 0, 0, 3], bs_expanded = True, bs_filler = -1\<rparr>"

theorem saturn_volume_roundtrip_witness:
  "\<exists>fl s. sigil_saturn_volume_write stored_zlib (sat_sample\<lparr>sat_storage := sat_sample_storage\<rparr>) = Inr fl \<and>
     take 4 fl = [0x1F, 0x8B, 8, 0] \<and>
     sigil_saturn_volume_load stored_zlib (mem_io fl) = Inr (sat_sample\<lparr>sat_storage := s\<rparr>)"
proof -
  let ?v = "sat_sample\<lparr>sat_storage := sat_sample_storage\<rparr>"
  let ?x = "bram_flat (bytes_at (sat_data ?v) 0 32768) sat_sample_storage"
  have r: "sat_reachable AS_ANY 32768 sat_sample_storage ?v"
    by (rule sat_reachable.formatted) (simp add: sigil_saturn_volume_format_def sat_format_as_def sat_block_size_for_def Let_def
        SATURN_INTERNAL_SIZE_def SATURN_YABASANSHIRO_SIZE_def sat_sample_def)
  have st: "sat_storage_ok sat_sample_storage" by (simp add: sat_storage_ok_def sat_sample_storage_def)
  obtain fl where fl: "bram_gzip_wrap stored_zlib ?x (bs_gzip_header sat_sample_storage) = Inr fl"
    by (simp add: bram_gzip_wrap_def stored_zlib_def)
  have h: "length (bs_gzip_header sat_sample_storage) = 10" "take 3 (bs_gzip_header sat_sample_storage) = [0x1F, 0x8B, 8]"
    by (simp_all add: sat_sample_storage_def)
  obtain body where b: "z_deflate stored_zlib ?x = Some body"
    "fl = gzip_member (drop 4 (bs_gzip_header sat_sample_storage)) body (z_crc32 stored_zlib ?x) (length ?x)"
    by (rule bram_gzip_member [OF fl h])
  have "length fl \<le> 23 + 2 * length ?x" using b stored_deflate_length [of ?x] h(1) by (simp add: gzip_member_def le32_bytes_def stored_zlib_def)
  then have len: "length fl \<le> SATURN_MAX_GZIP"
    by (simp add: length_bram_flat sat_sample_storage_def SATURN_MAX_GZIP_def SATURN_MAX_FILE_def SATURN_YABASANSHIRO_SIZE_def)
  have "bs_gzip sat_sample_storage" by (simp add: sat_sample_storage_def)
  then have w: "sigil_saturn_volume_write stored_zlib ?v = Inr fl"
    using fl by (simp add: sigil_saturn_volume_write_def sigil_bram_store_def Let_def sat_sample_def)
  have "take 4 fl = [0x1F, 0x8B, 8, 0]" using b(2) by (simp add: gzip_member_def)
  then show ?thesis
    using saturn_volume_roundtrip [OF r st w conjI [OF stored_zlib_documented len]] w by (auto simp: sigil_saturn_volume_load_def)
qed

end
