(* ===== verification/CardPs2.thy ===== *)
theory CardPs2
  imports CardCommon Stream Digests
begin

text \<open>
  PlayStation 2 memory cards: \<^verbatim>\<open>src/src/card_ps2.c\<close> up to its folder cards, in its order. A card is the
  record \<open>sigil_ps2_card\<close> with its pages joined into clusters in one memory; the FAT is reached through
  the indirect FAT clusters, a directory is a chain of 512-byte entries and a save is a folder of the
  root with its files.

  A pointer to a cluster is its offset in \<^verbatim>\<open>card->clusters\<close>. The \<^verbatim>\<open>uint32_t\<close> sums that could pass 32 bits
  on a card of the largest geometry wrap through \<open>wrap32\<close>. A chain array and its count are a list, whose
  emptiness is the code's \<open>0\<close>.
\<close>

section \<open>Constants\<close>

definition PS2_IFC_SLOTS :: nat where "PS2_IFC_SLOTS = 32"
definition PS2_TOD_SIZE :: nat where "PS2_TOD_SIZE = 8"
definition PS2_DIR_ENTRY_SIZE :: nat where "PS2_DIR_ENTRY_SIZE = 512"
definition PS2_FOLDER_SUPERBLOCK_SIZE :: nat where "PS2_FOLDER_SUPERBLOCK_SIZE = 0x2000"
definition PS2_MAGIC :: bytes where "PS2_MAGIC = str ''Sony PS2 Memory Card Format ''"
definition PS2_MAGIC_LEN :: nat where "PS2_MAGIC_LEN = 28"
definition PS2_PAGE_LEN :: nat where "PS2_PAGE_LEN = 512"
definition PS2_SPARE_LEN :: nat where "PS2_SPARE_LEN = 16"
definition PS2_MAX_CLUSTERS :: nat where "PS2_MAX_CLUSTERS = 2 ^ 20"
definition PS2_ENTRY_SIZE :: nat where "PS2_ENTRY_SIZE = 512"
definition PS2_FAT_ALLOCATED :: u32 where "PS2_FAT_ALLOCATED = 0x80000000"
definition PS2_FAT_CHAIN_END :: u32 where "PS2_FAT_CHAIN_END = 0x7FFFFFFF"
definition PS2_MODE_EXISTS :: u16 where "PS2_MODE_EXISTS = 0x8000"
definition PS2_MODE_DIR :: u16 where "PS2_MODE_DIR = 0x0020"
definition PS2_MODE_FILE :: u16 where "PS2_MODE_FILE = 0x0010"
definition PS2_ENTRY_MODE :: nat where "PS2_ENTRY_MODE = 0x00"
definition PS2_ENTRY_LENGTH :: nat where "PS2_ENTRY_LENGTH = 0x04"
definition PS2_ENTRY_CLUSTER :: nat where "PS2_ENTRY_CLUSTER = 0x10"
definition PS2_ENTRY_NAME :: nat where "PS2_ENTRY_NAME = 0x40"
definition PS2_NAME_LEN :: nat where "PS2_NAME_LEN = 32"
definition PS2_ENTRY_PARENT_INDEX :: nat where "PS2_ENTRY_PARENT_INDEX = 0x14"
definition PS2_ENTRY_CREATED :: nat where "PS2_ENTRY_CREATED = 0x08"
definition PS2_ENTRY_MODIFIED :: nat where "PS2_ENTRY_MODIFIED = 0x18"
definition PS2_PAD :: u8 where "PS2_PAD = 0xFF"
definition PS2_FORMAT_CLUSTERS :: nat where "PS2_FORMAT_CLUSTERS = 8192"
definition PS2_PAGES_PER_CLUSTER :: nat where "PS2_PAGES_PER_CLUSTER = 2"
definition PS2_PAGES_PER_BLOCK :: nat where "PS2_PAGES_PER_BLOCK = 16"
definition PS2_FORMAT_IFC :: nat where "PS2_FORMAT_IFC = 8"
definition PS2_FORMAT_FAT_FIRST :: nat where "PS2_FORMAT_FAT_FIRST = 9"
definition PS2_FORMAT_ALLOC_OFFSET :: nat where "PS2_FORMAT_ALLOC_OFFSET = 41"
definition PS2_FORMAT_ALLOC_END :: nat where "PS2_FORMAT_ALLOC_END = 8135"
definition PS2_FORMAT_BACKUP1 :: nat where "PS2_FORMAT_BACKUP1 = 1023"
definition PS2_FORMAT_BACKUP2 :: nat where "PS2_FORMAT_BACKUP2 = 1022"
definition PS2_CARD_TYPE :: u8 where "PS2_CARD_TYPE = 2"
definition PS2_CARD_FLAGS :: u8 where "PS2_CARD_FLAGS = 0x2B"
definition PS2_FORMATTED_AT :: nat where "PS2_FORMATTED_AT = 0x16"
definition PS2_FORMATTED_BYTE :: u8 where "PS2_FORMATTED_BYTE = 0x6F"
definition PS2_MODE_ROOT_SELF :: u16 where "PS2_MODE_ROOT_SELF = 0x8427"
definition PS2_MODE_ROOT_PARENT :: u16 where "PS2_MODE_ROOT_PARENT = 0xA426"

lemmas ps2_consts =
  PS2_IFC_SLOTS_def PS2_PAGE_LEN_def PS2_SPARE_LEN_def PS2_ENTRY_SIZE_def PS2_DIR_ENTRY_SIZE_def PS2_ENTRY_MODE_def
  PS2_ENTRY_LENGTH_def PS2_ENTRY_CLUSTER_def PS2_ENTRY_NAME_def PS2_NAME_LEN_def PS2_ENTRY_PARENT_INDEX_def
  PS2_ENTRY_CREATED_def PS2_ENTRY_MODIFIED_def PS2_TOD_SIZE_def

definition wrap32 :: "nat \<Rightarrow> nat" where "wrap32 n = n mod 4294967296"

section \<open>Cards, chains and directories\<close>

record sigil_ps2_card =
  p2_clusters :: mem
  p2_cluster_size :: nat
  p2_clusters_per_card :: nat
  p2_alloc_offset :: nat
  p2_alloc_end :: nat
  p2_rootdir_cluster :: nat
  p2_ifc :: "nat list"
  p2_ecc :: bool
  p2_spare :: mem
  p2_dirty :: "nat \<Rightarrow> bool"

definition ps2_cluster_in_card :: "sigil_ps2_card \<Rightarrow> nat \<Rightarrow> bool" where
  "ps2_cluster_in_card cd absolute = (absolute < p2_clusters_per_card cd)"

definition ps2_cluster_at :: "sigil_ps2_card \<Rightarrow> nat \<Rightarrow> nat" where
  "ps2_cluster_at cd absolute = absolute * p2_cluster_size cd"

text \<open>The FAT cluster that holds the entry of relative cluster \<open>n\<close>; \<open>None\<close> when a table on the way lies
  outside the card.\<close>

definition ps2_fat_cluster :: "sigil_ps2_card \<Rightarrow> nat \<Rightarrow> nat option" where
  "ps2_fat_cluster cd n =
     (let per_cluster = p2_cluster_size cd div 4;
          fat_index = n div per_cluster;
          ifc_slot = fat_index div per_cluster
      in if PS2_IFC_SLOTS \<le> ifc_slot then None
         else let indirect = p2_ifc cd ! ifc_slot in
           if \<not> ps2_cluster_in_card cd indirect then None
           else let fat_cluster = unat (sigil_read_le32 (p2_clusters cd)
                      (ps2_cluster_at cd indirect + (fat_index mod per_cluster) * 4))
                in if \<not> ps2_cluster_in_card cd fat_cluster then None else Some fat_cluster)"

definition ps2_fat_entry :: "sigil_ps2_card \<Rightarrow> nat \<Rightarrow> u32 option" where
  "ps2_fat_entry cd n =
     map_option (\<lambda>fc. sigil_read_le32 (p2_clusters cd)
         (ps2_cluster_at cd fc + (n mod (p2_cluster_size cd div 4)) * 4)) (ps2_fat_cluster cd n)"

function ps2_walk_loop :: "sigil_ps2_card \<Rightarrow> nat \<Rightarrow> nat list \<Rightarrow> nat list" where
  "ps2_walk_loop cd cluster order =
     (if p2_alloc_end cd \<le> length order then []
      else if p2_alloc_end cd \<le> cluster then []
      else case ps2_fat_entry cd cluster of
             None \<Rightarrow> []
           | Some value \<Rightarrow>
               if value AND PS2_FAT_ALLOCATED = 0 then []
               else let next1 = value AND NOT PS2_FAT_ALLOCATED in
                 if next1 = PS2_FAT_CHAIN_END then order @ [cluster]
                 else ps2_walk_loop cd (unat next1) (order @ [cluster]))"
  by pat_completeness auto
termination
  by (relation "measure (\<lambda>(cd, cluster, order). p2_alloc_end cd - length order)") auto

declare ps2_walk_loop.simps [simp del]

definition ps2_walk_chain :: "sigil_ps2_card \<Rightarrow> nat \<Rightarrow> nat list" where
  "ps2_walk_chain cd first = ps2_walk_loop cd first []"

definition ps2_read_chain :: "sigil_ps2_card \<Rightarrow> nat \<Rightarrow> nat \<Rightarrow> bytes option" where
  "ps2_read_chain cd first len =
     (let order = ps2_walk_chain cd first;
          cs = p2_cluster_size cd;
          used = take ((len + cs - 1) div cs) order
      in if order = [] \<or> length order * cs < len then None
         else if \<not> list_all (\<lambda>c. ps2_cluster_in_card cd (wrap32 (c + p2_alloc_offset cd))) used then None
         else Some (take len (concat (map (\<lambda>c. bytes_at (p2_clusters cd)
                (ps2_cluster_at cd (wrap32 (c + p2_alloc_offset cd))) cs) used))))"

definition ps2_read_dir :: "sigil_ps2_card \<Rightarrow> nat \<Rightarrow> nat \<Rightarrow> mem option" where
  "ps2_read_dir cd first n =
     (if n = 0 \<or> p2_alloc_end cd * (p2_cluster_size cd div PS2_ENTRY_SIZE) < n then None
      else map_option mem_of (ps2_read_chain cd first (n * PS2_ENTRY_SIZE)))"

definition ps2_root_entry_count :: "sigil_ps2_card \<Rightarrow> nat" where
  "ps2_root_entry_count cd =
     (case ps2_read_chain cd (p2_rootdir_cluster cd) PS2_ENTRY_SIZE of
        None \<Rightarrow> 0
      | Some first \<Rightarrow> unat (sigil_read_le32 (mem_of first) PS2_ENTRY_LENGTH))"

text \<open>The fields of the entry \<open>i\<close> of a directory: its mode bits, length and first cluster.\<close>

definition ps2_entry_is :: "mem \<Rightarrow> nat \<Rightarrow> u16 \<Rightarrow> bool" where
  "ps2_entry_is dir i bits = (sigil_read_le16 dir (i * PS2_ENTRY_SIZE + PS2_ENTRY_MODE) AND bits \<noteq> 0)"

definition ps2_entry_length :: "mem \<Rightarrow> nat \<Rightarrow> nat" where
  "ps2_entry_length dir i = unat (sigil_read_le32 dir (i * PS2_ENTRY_SIZE + PS2_ENTRY_LENGTH))"

definition ps2_entry_cluster :: "mem \<Rightarrow> nat \<Rightarrow> nat" where
  "ps2_entry_cluster dir i = unat (sigil_read_le32 dir (i * PS2_ENTRY_SIZE + PS2_ENTRY_CLUSTER))"

section \<open>Loading\<close>

definition ps2_read_fully :: "sigil_io \<Rightarrow> nat \<Rightarrow> mem \<Rightarrow> nat \<Rightarrow> nat \<Rightarrow> rc \<times> mem" where
  "ps2_read_fully io off buf p len =
     (case sigil_io_read_upto io off buf p len of
        (rc, buf, got) \<Rightarrow> if rc \<noteq> SIGIL_OK then (rc, buf)
                          else (if got = len then SIGIL_OK else SIGIL_ERR_UNSUPPORTED_FORMAT, buf))"

text \<open>The loop over the pages: the clusters and the spares read.\<close>

fun ps2_load_pages :: "sigil_io \<Rightarrow> bool \<Rightarrow> nat \<Rightarrow> nat list \<Rightarrow> mem \<Rightarrow> mem \<Rightarrow> rc \<times> mem \<times> mem" where
  "ps2_load_pages io ecc stride [] clusters spare = (SIGIL_OK, clusters, spare)"
| "ps2_load_pages io ecc stride (p # ps) clusters spare =
     (case ps2_read_fully io (p * stride) clusters (p * PS2_PAGE_LEN) PS2_PAGE_LEN of
        (rc, clusters) \<Rightarrow>
          (case (if rc = SIGIL_OK \<and> ecc
                 then ps2_read_fully io (p * stride + PS2_PAGE_LEN) spare (p * PS2_SPARE_LEN) PS2_SPARE_LEN
                 else (rc, spare)) of
             (rc, spare) \<Rightarrow> if rc \<noteq> SIGIL_OK then (rc, clusters, spare)
                             else ps2_load_pages io ecc stride ps clusters spare))"

definition ps2_superblock_card :: "mem \<Rightarrow> sigil_ps2_card" where
  "ps2_superblock_card super =
     \<lparr>p2_clusters = (\<lambda>_. 0), p2_cluster_size = unat (sigil_read_le16 super 0x28) * unat (sigil_read_le16 super 0x2A),
      p2_clusters_per_card = unat (sigil_read_le32 super 0x30), p2_alloc_offset = unat (sigil_read_le32 super 0x34),
      p2_alloc_end = unat (sigil_read_le32 super 0x38), p2_rootdir_cluster = unat (sigil_read_le32 super 0x3C),
      p2_ifc = map (\<lambda>i. unat (sigil_read_le32 super (0x50 + i * 4))) [0..<PS2_IFC_SLOTS],
      p2_ecc = False, p2_spare = (\<lambda>_. 0), p2_dirty = (\<lambda>_. False)\<rparr>"

definition sigil_ps2_card_load :: "sigil_io \<Rightarrow> rc + sigil_ps2_card" where
  "sigil_ps2_card_load io =
     (case ps2_read_fully io 0 (\<lambda>_. 0) 0 PS2_PAGE_LEN of
        (rc, super) \<Rightarrow>
          if rc \<noteq> SIGIL_OK then Inl (if rc = SIGIL_ERR_IO then rc else SIGIL_ERR_UNSUPPORTED_FORMAT)
          else if \<not> has_bytes super 0 PS2_MAGIC then Inl SIGIL_ERR_UNSUPPORTED_FORMAT
          else let page_len = unat (sigil_read_le16 super 0x28);
                   pages_per_cluster = unat (sigil_read_le16 super 0x2A);
                   clusters = unat (sigil_read_le32 super 0x30)
          in if page_len \<noteq> PS2_PAGE_LEN \<or> pages_per_cluster = 0 \<or> 16 < pages_per_cluster then Inl SIGIL_ERR_UNSUPPORTED_FORMAT
          else if clusters = 0 \<or> PS2_MAX_CLUSTERS < clusters then Inl SIGIL_ERR_UNSUPPORTED_FORMAT
          else let cd = ps2_superblock_card super
          in if clusters \<le> p2_alloc_offset cd \<or> p2_alloc_end cd = 0 \<or>
                clusters - p2_alloc_offset cd < p2_alloc_end cd then Inl SIGIL_ERR_UNSUPPORTED_FORMAT
          else let pages = clusters * pages_per_cluster;
                   siz = stream_size io;
                   ecc = (siz = int (pages * (page_len + PS2_SPARE_LEN)))
          in if \<not> ecc \<and> siz \<noteq> int (pages * page_len) then Inl SIGIL_ERR_UNSUPPORTED_FORMAT
          else (case ps2_load_pages io ecc (page_len + (if ecc then PS2_SPARE_LEN else 0)) [0..<pages] (\<lambda>_. 0) (\<lambda>_. 0) of
                  (rc, cl, spare) \<Rightarrow>
                    if rc \<noteq> SIGIL_OK then Inl rc
                    else Inr (cd\<lparr>p2_clusters := cl, p2_ecc := ecc, p2_spare := spare\<rparr>)))"

section \<open>Listing\<close>

definition plain_name :: "bytes \<Rightarrow> bool" where
  "plain_name name \<longleftrightarrow> name \<noteq> [] \<and> name \<noteq> [0x2E] \<and> name \<noteq> [0x2E, 0x2E] \<and> 0x2F \<notin> set name \<and> 0x5C \<notin> set name"

definition ps2_clusters_for :: "nat \<Rightarrow> nat \<Rightarrow> nat" where
  "ps2_clusters_for n cluster_size = (n + cluster_size - 1) div cluster_size"

text \<open>One round of \<^verbatim>\<open>save_clusters\<close>: the sum, and whether every file so far reads.\<close>

definition ps2_save_file :: "sigil_ps2_card \<Rightarrow> mem \<Rightarrow> nat \<Rightarrow> nat \<times> bool \<Rightarrow> nat \<times> bool" where
  "ps2_save_file cd dir i = (\<lambda>(summed, ok).
     if \<not> ok \<or> \<not> ps2_entry_is dir i PS2_MODE_EXISTS \<or> \<not> ps2_entry_is dir i PS2_MODE_FILE then (summed, ok)
     else let need = ps2_clusters_for (ps2_entry_length dir i) (p2_cluster_size cd)
          in (wrap32 (summed + need), \<not> (0 < need \<and> length (ps2_walk_chain cd (ps2_entry_cluster dir i)) < need)))"

text \<open>\<open>None\<close> is \<^verbatim>\<open>return false\<close>.\<close>

definition ps2_save_clusters :: "sigil_ps2_card \<Rightarrow> nat \<Rightarrow> nat \<Rightarrow> nat option" where
  "ps2_save_clusters cd first n =
     (case ps2_read_dir cd first n of
        None \<Rightarrow> None
      | Some dir \<Rightarrow>
          (case fold (ps2_save_file cd dir) [2..<n]
                  (ps2_clusters_for (wrap32 (n * PS2_ENTRY_SIZE)) (p2_cluster_size cd), True) of
             (summed, ok) \<Rightarrow> if ok then Some summed else None))"

text \<open>The counts saturate at 255; the first component is the counts, the second what a check reports.\<close>

definition ps2_claim_chain ::
    "sigil_ps2_card \<Rightarrow> nat \<Rightarrow> nat \<Rightarrow> bool \<Rightarrow> (nat \<Rightarrow> nat) \<Rightarrow> (nat \<Rightarrow> nat) \<times> bool" where
  "ps2_claim_chain cd first span check claims =
     (let order = take span (ps2_walk_chain cd first) in
      if check then (claims, list_ex (\<lambda>c. 1 < claims c) order)
      else (fold (\<lambda>c cl. if cl c < 255 then cl(c := cl c + 1) else cl) order claims, False))"

definition ps2_claim_file ::
    "sigil_ps2_card \<Rightarrow> mem \<Rightarrow> bool \<Rightarrow> nat \<Rightarrow> (nat \<Rightarrow> nat) \<times> bool \<Rightarrow> (nat \<Rightarrow> nat) \<times> bool" where
  "ps2_claim_file cd dir check i = (\<lambda>(claims, shared).
     if shared \<or> \<not> ps2_entry_is dir i PS2_MODE_EXISTS \<or> \<not> ps2_entry_is dir i PS2_MODE_FILE then (claims, shared)
     else ps2_claim_chain cd (ps2_entry_cluster dir i)
            (ps2_clusters_for (ps2_entry_length dir i) (p2_cluster_size cd)) check claims)"

definition ps2_claim_folder ::
    "sigil_ps2_card \<Rightarrow> nat \<Rightarrow> nat \<Rightarrow> bool \<Rightarrow> (nat \<Rightarrow> nat) \<Rightarrow> (nat \<Rightarrow> nat) \<times> bool" where
  "ps2_claim_folder cd first n check claims =
     (case ps2_read_dir cd first n of
        None \<Rightarrow> (claims, False)
      | Some dir \<Rightarrow>
          fold (ps2_claim_file cd dir check) [2..<n]
            (ps2_claim_chain cd first (ps2_clusters_for (wrap32 (n * PS2_ENTRY_SIZE)) (p2_cluster_size cd)) check claims))"

definition ps2_is_folder :: "mem \<Rightarrow> nat \<Rightarrow> bool" where
  "ps2_is_folder dir i \<longleftrightarrow> ps2_entry_is dir i PS2_MODE_EXISTS \<and> ps2_entry_is dir i PS2_MODE_DIR"

definition ps2_count_claims :: "sigil_ps2_card \<Rightarrow> mem \<Rightarrow> nat \<Rightarrow> nat \<Rightarrow> nat" where
  "ps2_count_claims cd root n =
     fold (\<lambda>i claims. if ps2_is_folder root i
                      then fst (ps2_claim_folder cd (ps2_entry_cluster root i) (ps2_entry_length root i) False claims)
                      else claims) [2..<n]
       (fst (ps2_claim_chain cd (p2_rootdir_cluster cd)
          (ps2_clusters_for (wrap32 (n * PS2_ENTRY_SIZE)) (p2_cluster_size cd)) False (\<lambda>_. 0)))"

definition ps2_name_at :: "mem \<Rightarrow> nat \<Rightarrow> bytes" where
  "ps2_name_at dir i = cstr (bytes_at dir (i * PS2_ENTRY_SIZE + PS2_ENTRY_NAME) PS2_NAME_LEN)"

definition ps2_list_folder ::
    "sigil_ps2_card \<Rightarrow> mem \<Rightarrow> (nat \<Rightarrow> nat) \<Rightarrow> nat \<Rightarrow> sigil_card_listing \<Rightarrow> sigil_card_listing" where
  "ps2_list_folder cd root claims i l =
     (if \<not> ps2_is_folder root i then l
      else let first = ps2_entry_cluster root i;
               name = ps2_name_at root i;
               owner = sigil_card_sony_owner name;
               n = ps2_entry_length root i
           in if \<not> plain_name name \<or> ps2_save_clusters cd first n = None \<or> snd (ps2_claim_folder cd first n True claims)
              then sigil_card_listing_corrupt l (Some name) (Some owner) first
              else listing_add l \<lparr>ce_name = name, ce_owner_id = owner, ce_blocks = the (ps2_save_clusters cd first n),
                                  ce_first_block = first\<rparr>)"

definition ps2_fat_free :: "sigil_ps2_card \<Rightarrow> nat \<Rightarrow> bool" where
  "ps2_fat_free cd n = (case ps2_fat_entry cd n of None \<Rightarrow> False | Some value \<Rightarrow> value AND PS2_FAT_ALLOCATED = 0)"

definition sigil_ps2_card_list :: "sigil_ps2_card \<Rightarrow> rc + sigil_card_listing" where
  "sigil_ps2_card_list cd =
     (let n = ps2_root_entry_count cd in
      case ps2_read_dir cd (p2_rootdir_cluster cd) n of
        None \<Rightarrow> Inl SIGIL_ERR_UNSUPPORTED_FORMAT
      | Some root \<Rightarrow>
          let claims = ps2_count_claims cd root n;
              free = length (filter (ps2_fat_free cd) [0..<p2_alloc_end cd])
          in Inr (fold (ps2_list_folder cd root claims) [2..<n]
                ((sigil_card_listing_new SIGIL_CARD_FORMAT_PS2)\<lparr>total_blocks := p2_alloc_end cd, free_blocks := free,
                   free_slots := free\<rparr>)))"

definition sigil_ps2_card_list_io :: "sigil_io \<Rightarrow> rc + sigil_card_listing" where
  "sigil_ps2_card_list_io io = (case sigil_ps2_card_load io of Inl rc \<Rightarrow> Inl rc | Inr cd \<Rightarrow> sigil_ps2_card_list cd)"

text \<open>The root entry of the folder that starts at \<open>first_cluster\<close>: the scan of \<^verbatim>\<open>save_entry_count\<close> stops at
  the first such entry with a nonzero length, that of \<^verbatim>\<open>root_entry_for\<close> at the first such entry.\<close>

definition ps2_save_entry_count :: "sigil_ps2_card \<Rightarrow> nat \<Rightarrow> nat" where
  "ps2_save_entry_count cd first_cluster =
     (let n = ps2_root_entry_count cd in
      case ps2_read_dir cd (p2_rootdir_cluster cd) n of
        None \<Rightarrow> 0
      | Some root \<Rightarrow>
          fold (\<lambda>i found. if found = 0 \<and> ps2_is_folder root i \<and> ps2_entry_cluster root i = first_cluster
                          then ps2_entry_length root i else found) [2..<n] 0)"

definition ps2_both :: "mem \<Rightarrow> nat \<Rightarrow> bool" where
  "ps2_both dir i = (sigil_read_le16 dir (i * PS2_ENTRY_SIZE + PS2_ENTRY_MODE) AND (PS2_MODE_EXISTS OR PS2_MODE_FILE) =
     PS2_MODE_EXISTS OR PS2_MODE_FILE)"

definition sigil_ps2_save_data :: "sigil_ps2_card \<Rightarrow> nat \<Rightarrow> rc + bytes" where
  "sigil_ps2_save_data cd first_cluster =
     (let n = ps2_save_entry_count cd first_cluster in
      case ps2_read_dir cd first_cluster n of
        None \<Rightarrow> Inl SIGIL_ERR_UNSUPPORTED_FORMAT
      | Some dir \<Rightarrow>
          fold (\<lambda>i r. case r of
                  Inl rc \<Rightarrow> Inl rc
                | Inr data \<Rightarrow>
                    if \<not> ps2_both dir i then Inr data
                    else let length1 = ps2_entry_length dir i in
                      if length1 = 0 then Inr data
                      else (case ps2_read_chain cd (ps2_entry_cluster dir i) length1 of
                              None \<Rightarrow> Inl SIGIL_ERR_UNSUPPORTED_FORMAT
                            | Some bs \<Rightarrow> Inr (data @ bs))) [2..<n] (Inr []))"

section \<open>Formatting\<close>

definition ps2_write_dir_entry :: "mem \<Rightarrow> nat \<Rightarrow> u16 \<Rightarrow> nat \<Rightarrow> nat \<Rightarrow> mem \<Rightarrow> bytes \<Rightarrow> mem" where
  "ps2_write_dir_entry m e mode length1 cluster tod name =
     (let m = memset m e 0 PS2_ENTRY_SIZE;
          m = sigil_write_le16 m (e + PS2_ENTRY_MODE) mode;
          m = sigil_write_le32 m (e + PS2_ENTRY_LENGTH) (of_nat length1);
          m = memcpy m (e + 0x08) tod 0 PS2_TOD_SIZE;
          m = sigil_write_le32 m (e + PS2_ENTRY_CLUSTER) (of_nat cluster);
          m = memcpy m (e + 0x18) tod 0 PS2_TOD_SIZE
      in memcpy m (e + PS2_ENTRY_NAME) (mem_of name) 0 (length name))"

definition ps2_write_superblock :: "mem \<Rightarrow> nat \<Rightarrow> mem" where
  "ps2_write_superblock m s =
     (let m = memcpy m s (mem_of PS2_MAGIC) 0 PS2_MAGIC_LEN;
          m = memcpy m (s + PS2_MAGIC_LEN) (mem_of (str ''1.2.0.0'')) 0 7;
          m = sigil_write_le16 m (s + 0x28) (of_nat PS2_PAGE_LEN);
          m = sigil_write_le16 m (s + 0x2A) (of_nat PS2_PAGES_PER_CLUSTER);
          m = sigil_write_le16 m (s + 0x2C) (of_nat PS2_PAGES_PER_BLOCK);
          m = sigil_write_le16 m (s + 0x2E) 0xFF00;
          m = sigil_write_le32 m (s + 0x30) (of_nat PS2_FORMAT_CLUSTERS);
          m = sigil_write_le32 m (s + 0x34) (of_nat PS2_FORMAT_ALLOC_OFFSET);
          m = sigil_write_le32 m (s + 0x38) (of_nat PS2_FORMAT_ALLOC_END);
          m = sigil_write_le32 m (s + 0x3C) 0;
          m = sigil_write_le32 m (s + 0x40) (of_nat PS2_FORMAT_BACKUP1);
          m = sigil_write_le32 m (s + 0x44) (of_nat PS2_FORMAT_BACKUP2);
          m = sigil_write_le32 m (s + 0x50) (of_nat PS2_FORMAT_IFC);
          m = memset m (s + 0xD0) 0xFF 0x80
      in m(s + 0x150 := PS2_CARD_TYPE, s + 0x151 := PS2_CARD_FLAGS))"

definition sigil_ps2_folder_superblock :: "mem \<Rightarrow> mem" where
  "sigil_ps2_folder_superblock out = ps2_write_superblock (memset out 0 0 PS2_FOLDER_SUPERBLOCK_SIZE) 0"

definition sigil_ps2_folder_superblock_usable :: "mem \<Rightarrow> nat \<Rightarrow> bool" where
  "sigil_ps2_folder_superblock_usable data len \<longleftrightarrow> PS2_FOLDER_SUPERBLOCK_SIZE \<le> len \<and> data PS2_FORMATTED_AT = PS2_FORMATTED_BYTE"

definition ps2_format_fat :: "mem \<Rightarrow> nat \<Rightarrow> mem" where
  "ps2_format_fat m cs =
     (let per_cluster = cs div 4;
          fat_clusters = PS2_FORMAT_ALLOC_OFFSET - PS2_FORMAT_FAT_FIRST;
          indirect = PS2_FORMAT_IFC * cs;
          m = memset m indirect 0xFF cs;
          m = fold (\<lambda>i m. sigil_write_le32 m (indirect + i * 4) (of_nat (PS2_FORMAT_FAT_FIRST + i))) [0..<fat_clusters] m
      in fold (\<lambda>n m. sigil_write_le32 m ((PS2_FORMAT_FAT_FIRST + n div per_cluster) * cs + (n mod per_cluster) * 4)
                (if n = 0 \<or> PS2_FORMAT_ALLOC_END \<le> n then 0xFFFFFFFF else PS2_FAT_CHAIN_END))
           [0..<fat_clusters * per_cluster] m)"

definition sigil_ps2_card_format :: "mem \<Rightarrow> sigil_ps2_card" where
  "sigil_ps2_card_format tod =
     (let cs = PS2_PAGE_LEN * PS2_PAGES_PER_CLUSTER;
          m = ps2_write_superblock (\<lambda>_. 0) 0;
          m = ps2_format_fat m cs;
          root = PS2_FORMAT_ALLOC_OFFSET * cs;
          m = ps2_write_dir_entry m root PS2_MODE_ROOT_SELF 2 0 tod (str ''.'');
          m = ps2_write_dir_entry m (root + PS2_ENTRY_SIZE) PS2_MODE_ROOT_PARENT 0 0 tod (str ''..'');
          clusters_per_block = PS2_PAGES_PER_BLOCK div PS2_PAGES_PER_CLUSTER;
          m = memset m (PS2_FORMAT_BACKUP2 * clusters_per_block * cs) 0xFF (clusters_per_block * cs);
          erased_page = PS2_FORMAT_BACKUP2 * PS2_PAGES_PER_BLOCK
      in \<lparr>p2_clusters = m, p2_cluster_size = cs, p2_clusters_per_card = PS2_FORMAT_CLUSTERS,
          p2_alloc_offset = PS2_FORMAT_ALLOC_OFFSET, p2_alloc_end = PS2_FORMAT_ALLOC_END, p2_rootdir_cluster = 0,
          p2_ifc = (replicate PS2_IFC_SLOTS 0)[0 := PS2_FORMAT_IFC], p2_ecc = True,
          p2_spare = memset (\<lambda>_. 0) (erased_page * PS2_SPARE_LEN) 0xFF (PS2_PAGES_PER_BLOCK * PS2_SPARE_LEN),
          p2_dirty = (\<lambda>p. \<not> (erased_page \<le> p \<and> p < erased_page + PS2_PAGES_PER_BLOCK))\<rparr>)"

section \<open>The error-correcting code of a page\<close>

definition ps2_odd_parity :: "u8 \<Rightarrow> bool" where
  "ps2_odd_parity v =
     (let v = v XOR drop_bit 4 v; v = v XOR drop_bit 2 v; v = v XOR drop_bit 1 v in v AND 1 \<noteq> 0)"

definition ecc_column_bits :: "u8 \<Rightarrow> u8" where
  "ecc_column_bits b =
     (let out = fold (\<lambda>(g, p) out. if ps2_odd_parity (b AND g) then out OR push_bit p 1 else out)
                  (zip [0x55, 0x33, 0x0F, 0xAA, 0xCC, 0xF0] [0, 1, 2, 4, 5, 6]) 0
      in if ps2_odd_parity b then out OR 0x80 else out)"

definition ps2_ecc_step :: "mem \<Rightarrow> nat \<Rightarrow> nat \<Rightarrow> u8 \<times> u8 \<times> u8 \<Rightarrow> u8 \<times> u8 \<times> u8" where
  "ps2_ecc_step m chunk i = (\<lambda>(column, line_even, line_odd).
     let c = ecc_column_bits (m (chunk + i)); column = column XOR c in
     if c AND 0x80 \<noteq> 0 then (column, line_even XOR NOT (of_nat i), line_odd XOR of_nat i)
     else (column, line_even, line_odd))"

definition sigil_ps2_ecc :: "mem \<Rightarrow> nat \<Rightarrow> bytes" where
  "sigil_ps2_ecc m chunk =
     (case fold (ps2_ecc_step m chunk) [0..<128] (0, 0, 0) of
        (column, line_even, line_odd) \<Rightarrow> [NOT column AND 0x77, NOT line_even AND 0x7F, NOT line_odd AND 0x7F])"

section \<open>Writing a card file\<close>

definition ps2_pages :: "sigil_ps2_card \<Rightarrow> nat" where
  "ps2_pages cd = p2_clusters_per_card cd * (p2_cluster_size cd div PS2_PAGE_LEN)"

definition sigil_ps2_card_file_size :: "sigil_ps2_card \<Rightarrow> nat" where
  "sigil_ps2_card_file_size cd = ps2_pages cd * (PS2_PAGE_LEN + (if p2_ecc cd then PS2_SPARE_LEN else 0))"

definition ps2_write_page :: "sigil_ps2_card \<Rightarrow> nat \<Rightarrow> nat \<Rightarrow> mem \<Rightarrow> mem" where
  "ps2_write_page cd stride p out =
     (let page = p * PS2_PAGE_LEN;
          dst = p * stride;
          out = memcpy out dst (p2_clusters cd) page PS2_PAGE_LEN
      in if \<not> p2_ecc cd then out
         else if \<not> p2_dirty cd p then memcpy out (dst + PS2_PAGE_LEN) (p2_spare cd) (p * PS2_SPARE_LEN) PS2_SPARE_LEN
         else fold (\<lambda>chunk out. memcpy out (dst + PS2_PAGE_LEN + chunk * 3)
                      (mem_of (sigil_ps2_ecc (p2_clusters cd) (page + chunk * 128))) 0 3) [0..<4]
                (memset out (dst + PS2_PAGE_LEN) 0 PS2_SPARE_LEN))"

definition sigil_ps2_card_write :: "sigil_ps2_card \<Rightarrow> mem \<Rightarrow> mem" where
  "sigil_ps2_card_write cd out =
     fold (ps2_write_page cd (PS2_PAGE_LEN + (if p2_ecc cd then PS2_SPARE_LEN else 0))) [0..<ps2_pages cd] out"

section \<open>Changing a card\<close>

definition ps2_mark_cluster_dirty :: "sigil_ps2_card \<Rightarrow> nat \<Rightarrow> sigil_ps2_card" where
  "ps2_mark_cluster_dirty cd absolute =
     (let pages = p2_cluster_size cd div PS2_PAGE_LEN
      in cd\<lparr>p2_dirty := (\<lambda>p. if absolute * pages \<le> p \<and> p < absolute * pages + pages then True else p2_dirty cd p)\<rparr>)"

text \<open>\<open>None\<close> is \<^verbatim>\<open>return false\<close>. The slot \<^verbatim>\<open>fat_slot\<close> finds is the place \<open>ps2_fat_entry\<close> reads.\<close>

definition ps2_fat_set :: "sigil_ps2_card \<Rightarrow> nat \<Rightarrow> u32 \<Rightarrow> sigil_ps2_card option" where
  "ps2_fat_set cd n value =
     map_option (\<lambda>fc. ps2_mark_cluster_dirty
         (cd\<lparr>p2_clusters := sigil_write_le32 (p2_clusters cd)
              (ps2_cluster_at cd fc + (n mod (p2_cluster_size cd div 4)) * 4) value\<rparr>) fc) (ps2_fat_cluster cd n)"

text \<open>The allocator is the card and the next cluster to try. A failing allocation may have linked the
  cluster it took, so the card is returned either way.\<close>

type_synonym cluster_allocator = "sigil_ps2_card \<times> nat"

definition ps2_allocate :: "cluster_allocator \<Rightarrow> nat \<Rightarrow> bool \<Rightarrow> nat option \<times> cluster_allocator" where
  "ps2_allocate a after chained =
     (case a of (cd, next1) \<Rightarrow>
       (case find (ps2_fat_free cd) [next1..<p2_alloc_end cd] of
          None \<Rightarrow> (None, (cd, max next1 (p2_alloc_end cd)))
        | Some n \<Rightarrow>
            (case ps2_fat_set cd n 0xFFFFFFFF of
               None \<Rightarrow> (None, (cd, n + 1))
             | Some cd \<Rightarrow>
                 if \<not> chained then (Some n, (cd, n + 1))
                 else (case ps2_fat_set cd after (PS2_FAT_ALLOCATED OR of_nat n) of
                         None \<Rightarrow> (None, (cd, n + 1))
                       | Some cd \<Rightarrow> (Some n, (cd, n + 1))))))"

text \<open>The offset of relative cluster \<open>n\<close>, and the card with it marked.\<close>

definition ps2_relative_cluster :: "sigil_ps2_card \<Rightarrow> nat \<Rightarrow> nat \<times> sigil_ps2_card" where
  "ps2_relative_cluster cd n =
     (let absolute = wrap32 (n + p2_alloc_offset cd)
      in (ps2_cluster_at cd absolute, ps2_mark_cluster_dirty cd absolute))"

definition ps2_entries_per_cluster :: "sigil_ps2_card \<Rightarrow> nat" where
  "ps2_entries_per_cluster cd = p2_cluster_size cd div PS2_ENTRY_SIZE"

definition ps2_entry_slot :: "sigil_ps2_card \<Rightarrow> nat list \<Rightarrow> nat \<Rightarrow> nat \<times> sigil_ps2_card" where
  "ps2_entry_slot cd chain index =
     (case ps2_relative_cluster cd (chain ! (index div ps2_entries_per_cluster cd)) of
        (off, cd') \<Rightarrow> (off + (index mod ps2_entries_per_cluster cd) * PS2_ENTRY_SIZE, cd'))"

text \<open>Whether the date at \<open>a\<close> is later than that at \<open>b\<close>: the bytes 7 down to 1, the first that differ decide.\<close>

definition tod_later :: "mem \<Rightarrow> nat \<Rightarrow> mem \<Rightarrow> nat \<Rightarrow> bool" where
  "tod_later m a w b =
     (case find (\<lambda>i. m (a + i) \<noteq> w (b + i)) [7, 6, 5, 4, 3, 2] of
        Some i \<Rightarrow> w (b + i) < m (a + i)
      | None \<Rightarrow> w (b + 1) < m (a + 1))"

end
