(* ===== verification/CardPs2Saves.thy ===== *)
theory CardPs2Saves
  imports CardPs2
begin

text \<open>
  Save folders of a PlayStation 2 card: the part of \<^verbatim>\<open>src/src/card_ps2.c\<close> that lifts a folder off a
  card, puts one on, deletes and compares. A save is the record \<open>sigil_ps2_save\<close>: the root's entry, the
  folder's own two entries and its files, each entry a list of 512 bytes.
\<close>

section \<open>Saves\<close>

record sigil_ps2_file =
  p2f_entry :: bytes
  p2f_data :: bytes

record sigil_ps2_save =
  p2s_entry :: bytes
  p2s_self :: bytes
  p2s_parent :: bytes
  p2s_files :: "sigil_ps2_file list"

definition ps2_file_length :: "sigil_ps2_file \<Rightarrow> nat" where
  "ps2_file_length f = unat (sigil_read_le32 (mem_of (p2f_entry f)) PS2_ENTRY_LENGTH)"

definition ps2_file_cluster :: "sigil_ps2_file \<Rightarrow> nat" where
  "ps2_file_cluster f = unat (sigil_read_le32 (mem_of (p2f_entry f)) PS2_ENTRY_CLUSTER)"

definition ps2_clusters_needed :: "sigil_ps2_card \<Rightarrow> sigil_ps2_save \<Rightarrow> nat \<Rightarrow> nat \<Rightarrow> nat" where
  "ps2_clusters_needed cd save root_slot root_count =
     (let need = (if root_slot = root_count \<and> root_count mod ps2_entries_per_cluster cd = 0 then 1 else 0);
          need = wrap32 (need + ps2_clusters_for (wrap32 (wrap32 (length (p2s_files save) + 2) * PS2_ENTRY_SIZE)) (p2_cluster_size cd))
      in fold (\<lambda>f need. wrap32 (need + ps2_clusters_for (ps2_file_length f) (p2_cluster_size cd))) (p2s_files save) need)"

definition ps2_free_clusters :: "sigil_ps2_card \<Rightarrow> nat" where
  "ps2_free_clusters cd = length (filter (ps2_fat_free cd) [0..<p2_alloc_end cd])"

definition ps2_root_slot_for_new :: "sigil_ps2_card \<Rightarrow> nat \<Rightarrow> nat" where
  "ps2_root_slot_for_new cd root_count =
     (case ps2_read_dir cd (p2_rootdir_cluster cd) root_count of
        None \<Rightarrow> root_count
      | Some root \<Rightarrow>
          (case find (\<lambda>i. \<not> ps2_entry_is root i PS2_MODE_EXISTS) [2..<root_count] of None \<Rightarrow> root_count | Some i \<Rightarrow> i))"

definition ps2_same_name :: "mem \<Rightarrow> nat \<Rightarrow> bytes \<Rightarrow> bool" where
  "ps2_same_name root i entry = mem_eq root (i * PS2_ENTRY_SIZE + PS2_ENTRY_NAME) (mem_of entry) PS2_ENTRY_NAME PS2_NAME_LEN"

definition ps2_name_in_root :: "sigil_ps2_card \<Rightarrow> bytes \<Rightarrow> nat \<Rightarrow> bool" where
  "ps2_name_in_root cd entry root_count =
     (case ps2_read_dir cd (p2_rootdir_cluster cd) root_count of
        None \<Rightarrow> False
      | Some root \<Rightarrow> list_ex (\<lambda>i. ps2_entry_is root i PS2_MODE_EXISTS \<and> ps2_same_name root i entry) [2..<root_count])"

text \<open>The index of the root entry that points at \<open>first_cluster\<close>, and the entry.\<close>

definition ps2_root_entry_for :: "sigil_ps2_card \<Rightarrow> nat \<Rightarrow> (nat \<times> bytes) option" where
  "ps2_root_entry_for cd first_cluster =
     (let n = ps2_root_entry_count cd in
      case ps2_read_dir cd (p2_rootdir_cluster cd) n of
        None \<Rightarrow> None
      | Some root \<Rightarrow>
          map_option (\<lambda>i. (i, bytes_at root (i * PS2_ENTRY_SIZE) PS2_ENTRY_SIZE))
            (find (\<lambda>i. ps2_is_folder root i \<and> ps2_entry_cluster root i = first_cluster) [2..<n]))"

text \<open>One round of the extract loop: the files so far, or the error.\<close>

definition ps2_extract_file :: "sigil_ps2_card \<Rightarrow> mem \<Rightarrow> nat \<Rightarrow> rc + sigil_ps2_file list \<Rightarrow> rc + sigil_ps2_file list" where
  "ps2_extract_file cd dir i r =
     (case r of
        Inl rc \<Rightarrow> Inl rc
      | Inr files \<Rightarrow>
          if \<not> ps2_entry_is dir i PS2_MODE_EXISTS then Inr files
          else if \<not> ps2_entry_is dir i PS2_MODE_FILE then Inl SIGIL_ERR_UNSUPPORTED_FORMAT
          else let entry = bytes_at dir (i * PS2_ENTRY_SIZE) PS2_ENTRY_SIZE;
                   length1 = ps2_entry_length dir i
               in if length1 = 0 then Inr (files @ [\<lparr>p2f_entry = entry, p2f_data = []\<rparr>])
                  else (case ps2_read_chain cd (ps2_entry_cluster dir i) length1 of
                          None \<Rightarrow> Inl SIGIL_ERR_UNSUPPORTED_FORMAT
                        | Some data \<Rightarrow> Inr (files @ [\<lparr>p2f_entry = entry, p2f_data = data\<rparr>])))"

definition sigil_ps2_extract :: "sigil_ps2_card \<Rightarrow> nat \<Rightarrow> rc + sigil_ps2_save" where
  "sigil_ps2_extract cd first_cluster =
     (case ps2_root_entry_for cd first_cluster of
        None \<Rightarrow> Inl SIGIL_ERR_UNSUPPORTED_FORMAT
      | Some (_, entry) \<Rightarrow>
          let n = unat (sigil_read_le32 (mem_of entry) PS2_ENTRY_LENGTH) in
          if n < 2 then Inl SIGIL_ERR_UNSUPPORTED_FORMAT
          else (case ps2_read_dir cd first_cluster n of
                  None \<Rightarrow> Inl SIGIL_ERR_UNSUPPORTED_FORMAT
                | Some dir \<Rightarrow>
                    (case fold (ps2_extract_file cd dir) [2..<n] (Inr []) of
                       Inl rc \<Rightarrow> Inl rc
                     | Inr files \<Rightarrow> Inr \<lparr>p2s_entry = entry, p2s_self = bytes_at dir 0 PS2_ENTRY_SIZE,
                         p2s_parent = bytes_at dir PS2_ENTRY_SIZE PS2_ENTRY_SIZE, p2s_files = files\<rparr>)))"

section \<open>Putting a save on a card\<close>

text \<open>The result flag, the allocator and the chain.\<close>

definition ps2_reserve_entry :: "cluster_allocator \<Rightarrow> nat list \<Rightarrow> nat \<Rightarrow> bool \<times> cluster_allocator \<times> nat list" where
  "ps2_reserve_entry a chain index =
     (let per = ps2_entries_per_cluster (fst a) in
      if index mod per \<noteq> 0 \<or> index div per < length chain then (True, a, chain)
      else (case ps2_allocate a (chain ! (length chain - 1)) True of
              (None, a) \<Rightarrow> (False, a, chain)
            | (Some n, (cd, next1)) \<Rightarrow>
                (case ps2_relative_cluster cd n of
                   (off, cd) \<Rightarrow>
                     (True, (cd\<lparr>p2_clusters := memset (p2_clusters cd) off PS2_PAD (p2_cluster_size cd)\<rparr>, next1), chain @ [n]))))"

definition sigil_ps2_cost :: "sigil_ps2_card \<Rightarrow> sigil_ps2_save \<Rightarrow> nat" where
  "sigil_ps2_cost cd save =
     (let root_count = ps2_root_entry_count cd in
      if root_count < 2 then 0
      else ps2_clusters_needed cd save (ps2_root_slot_for_new cd root_count) root_count)"

text \<open>The data loop of one file: from cluster number \<open>k\<close> on, the flag, the first cluster and the
  allocator.\<close>

fun ps2_put_data ::
    "bytes \<Rightarrow> nat \<Rightarrow> nat list \<Rightarrow> cluster_allocator \<Rightarrow> nat \<Rightarrow> nat \<Rightarrow> bool \<times> nat \<times> cluster_allocator" where
  "ps2_put_data data length1 [] a first prev = (True, first, a)"
| "ps2_put_data data length1 (k # ks) a first prev =
     (case ps2_allocate a prev (0 < k) of
        (None, a) \<Rightarrow> (False, first, a)
      | (Some n, (cd, next1)) \<Rightarrow>
          (case ps2_relative_cluster cd n of
             (off, cd) \<Rightarrow>
               let at = k * p2_cluster_size cd;
                   take1 = min (length1 - at) (p2_cluster_size cd);
                   m = memset (p2_clusters cd) off PS2_PAD (p2_cluster_size cd);
                   m = memcpy m off (mem_of data) at take1
               in ps2_put_data data length1 ks (cd\<lparr>p2_clusters := m\<rparr>, next1) (if k = 0 then n else first) n))"

text \<open>One round of the file loop: the flag, the allocator and the folder's chain.\<close>

definition ps2_put_file ::
    "nat \<times> sigil_ps2_file \<Rightarrow> bool \<times> cluster_allocator \<times> nat list \<Rightarrow> bool \<times> cluster_allocator \<times> nat list" where
  "ps2_put_file = (\<lambda>(i, f) (ok, a, dir_chain).
     if \<not> ok then (ok, a, dir_chain)
     else case ps2_reserve_entry a dir_chain (i + 2) of
            (False, a, dir_chain) \<Rightarrow> (False, a, dir_chain)
          | (True, a, dir_chain) \<Rightarrow>
              let length1 = ps2_file_length f in
              (case ps2_put_data (p2f_data f) length1 [0..<ps2_clusters_for length1 (p2_cluster_size (fst a))] a 0 0 of
                 (ok, first, (cd, next1)) \<Rightarrow>
                   (case ps2_entry_slot cd dir_chain (i + 2) of
                      (e, cd) \<Rightarrow>
                        let m = memcpy (p2_clusters cd) e (mem_of (p2f_entry f)) 0 PS2_ENTRY_SIZE;
                            m = sigil_write_le32 m (e + PS2_ENTRY_CLUSTER) (of_nat (if length1 \<noteq> 0 then first else 0))
                        in (ok, (cd\<lparr>p2_clusters := m\<rparr>, next1), dir_chain))))"

text \<open>The folder's root entry and its own two.\<close>

definition ps2_put_folder :: "sigil_ps2_card \<Rightarrow> sigil_ps2_save \<Rightarrow> nat list \<Rightarrow> nat list \<Rightarrow> nat \<Rightarrow> sigil_ps2_card" where
  "ps2_put_folder cd save root_chain dir_chain slot =
     (let (r, cd) = ps2_entry_slot cd root_chain slot;
          m = memcpy (p2_clusters cd) r (mem_of (p2s_entry save)) 0 PS2_ENTRY_SIZE;
          m = sigil_write_le32 m (r + PS2_ENTRY_LENGTH) (of_nat (length (p2s_files save) + 2));
          m = sigil_write_le32 m (r + PS2_ENTRY_CLUSTER) (of_nat (dir_chain ! 0));
          m = sigil_write_le32 m (r + PS2_ENTRY_PARENT_INDEX) 0;
          (s, cd) = ps2_entry_slot (cd\<lparr>p2_clusters := m\<rparr>) dir_chain 0;
          m = memcpy (p2_clusters cd) s (mem_of (p2s_self save)) 0 PS2_ENTRY_SIZE;
          m = sigil_write_le32 m (s + PS2_ENTRY_PARENT_INDEX) (of_nat slot);
          (q, cd) = ps2_entry_slot (cd\<lparr>p2_clusters := m\<rparr>) dir_chain 1
      in cd\<lparr>p2_clusters := memcpy (p2_clusters cd) q (mem_of (p2s_parent save)) 0 PS2_ENTRY_SIZE\<rparr>)"

definition ps2_put_root :: "sigil_ps2_card \<Rightarrow> sigil_ps2_save \<Rightarrow> nat list \<Rightarrow> nat \<Rightarrow> nat \<Rightarrow> sigil_ps2_card" where
  "ps2_put_root cd save root_chain slot root_count =
     (let (r, cd) = ps2_entry_slot cd root_chain 0;
          m = p2_clusters cd;
          m = (if slot = root_count then sigil_write_le32 m (r + PS2_ENTRY_LENGTH) (of_nat (root_count + 1)) else m);
          m = (if tod_later (mem_of (p2s_self save)) PS2_ENTRY_CREATED m (r + PS2_ENTRY_MODIFIED)
               then memcpy m (r + PS2_ENTRY_MODIFIED) (mem_of (p2s_self save)) PS2_ENTRY_CREATED PS2_TOD_SIZE else m)
      in cd\<lparr>p2_clusters := m\<rparr>)"

definition sigil_ps2_inject :: "sigil_ps2_card \<Rightarrow> sigil_ps2_save \<Rightarrow> rc \<times> sigil_ps2_card" where
  "sigil_ps2_inject cd save =
     (let root_count = ps2_root_entry_count cd in
      if root_count < 2 then (SIGIL_ERR_UNSUPPORTED_FORMAT, cd)
      else if ps2_name_in_root cd (p2s_entry save) root_count then (SIGIL_ERR_EXISTS, cd)
      else let slot = ps2_root_slot_for_new cd root_count in
        if ps2_free_clusters cd < ps2_clusters_needed cd save slot root_count then (SIGIL_ERR_NO_SPACE, cd)
        else let root_chain = ps2_walk_chain cd (p2_rootdir_cluster cd);
                 (ok, a, root_chain) = (if slot = root_count then ps2_reserve_entry (cd, 0) root_chain root_count
                                        else (True, (cd, 0), root_chain))
             in if \<not> ok then (SIGIL_ERR_NO_SPACE, fst a)
                else (case ps2_allocate a 0 False of
                        (None, a) \<Rightarrow> (SIGIL_ERR_NO_SPACE, fst a)
                      | (Some first, (cd, next1)) \<Rightarrow>
                          (case ps2_relative_cluster cd first of
                             (off, cd) \<Rightarrow>
                               let cd = cd\<lparr>p2_clusters := memset (p2_clusters cd) off PS2_PAD (p2_cluster_size cd)\<rparr>;
                                   cd = ps2_put_folder cd save root_chain [first] slot
                               in (case fold ps2_put_file (zip [0..<length (p2s_files save)] (p2s_files save))
                                          (True, (cd, next1), [first]) of
                                     (ok, a, _) \<Rightarrow>
                                       if \<not> ok then (SIGIL_ERR_NO_SPACE, fst a)
                                       else (SIGIL_OK, ps2_put_root (fst a) save root_chain slot root_count)))))"

section \<open>Deleting and comparing\<close>

text \<open>\<^verbatim>\<open>fat_set\<close> without its result.\<close>

definition ps2_fat_clear :: "nat \<Rightarrow> sigil_ps2_card \<Rightarrow> sigil_ps2_card" where
  "ps2_fat_clear n cd = (case ps2_fat_set cd n PS2_FAT_CHAIN_END of None \<Rightarrow> cd | Some cd \<Rightarrow> cd)"

definition ps2_free_chain :: "nat \<Rightarrow> sigil_ps2_card \<Rightarrow> sigil_ps2_card" where
  "ps2_free_chain first cd = fold ps2_fat_clear (ps2_walk_chain cd first) cd"

definition sigil_ps2_delete :: "sigil_ps2_card \<Rightarrow> nat \<Rightarrow> rc \<times> sigil_ps2_card" where
  "sigil_ps2_delete cd first_cluster =
     (case ps2_root_entry_for cd first_cluster of
        None \<Rightarrow> (SIGIL_ERR_INVALID_ARG, cd)
      | Some (index, _) \<Rightarrow>
          (case sigil_ps2_extract cd first_cluster of
             Inl rc \<Rightarrow> (rc, cd)
           | Inr save \<Rightarrow>
               let cd = fold (\<lambda>f cd. if 0 < ps2_file_length f then ps2_free_chain (ps2_file_cluster f) cd else cd)
                          (p2s_files save) cd;
                   cd = ps2_free_chain first_cluster cd;
                   chain = ps2_walk_chain cd (p2_rootdir_cluster cd)
               in if index div ps2_entries_per_cluster cd < length chain
                  then let (e, cd) = ps2_entry_slot cd chain index;
                           m = p2_clusters cd
                       in (SIGIL_OK, cd\<lparr>p2_clusters := sigil_write_le16 m (e + PS2_ENTRY_MODE)
                              (sigil_read_le16 m (e + PS2_ENTRY_MODE) AND NOT PS2_MODE_EXISTS)\<rparr>)
                  else (SIGIL_OK, cd)))"

text \<open>An entry with its cluster field cleared.\<close>

definition ps2_no_cluster :: "bytes \<Rightarrow> bytes" where
  "ps2_no_cluster e = bytes_at (sigil_write_le32 (mem_of e) PS2_ENTRY_CLUSTER 0) 0 PS2_ENTRY_SIZE"

definition ps2_same_file :: "sigil_ps2_file \<Rightarrow> sigil_ps2_file \<Rightarrow> bool" where
  "ps2_same_file a b =
     (if ps2_no_cluster (p2f_entry a) \<noteq> ps2_no_cluster (p2f_entry b) then False
      else mem_eq (mem_of (p2f_data a)) 0 (mem_of (p2f_data b)) 0 (ps2_file_length a))"

definition ps2_holds_save :: "sigil_ps2_card \<Rightarrow> mem \<Rightarrow> sigil_ps2_save \<Rightarrow> nat \<Rightarrow> bool" where
  "ps2_holds_save cd root save i =
     (if \<not> ps2_entry_is root i PS2_MODE_EXISTS then False
      else if \<not> ps2_same_name root i (p2s_entry save) then False
      else if ps2_no_cluster (bytes_at root (i * PS2_ENTRY_SIZE) PS2_ENTRY_SIZE) \<noteq> ps2_no_cluster (p2s_entry save) then False
      else case sigil_ps2_extract cd (ps2_entry_cluster root i) of
             Inl rc \<Rightarrow> False
           | Inr found \<Rightarrow> length (p2s_files found) = length (p2s_files save) \<and>
               list_all (\<lambda>(a, b). ps2_same_file a b) (zip (p2s_files found) (p2s_files save)))"

definition sigil_ps2_verify :: "sigil_ps2_card \<Rightarrow> sigil_ps2_save \<Rightarrow> rc" where
  "sigil_ps2_verify cd save =
     (let n = ps2_root_entry_count cd in
      case ps2_read_dir cd (p2_rootdir_cluster cd) n of
        None \<Rightarrow> SIGIL_ERR_NOT_FOUND
      | Some root \<Rightarrow> if list_ex (ps2_holds_save cd root save) [2..<n] then SIGIL_OK else SIGIL_ERR_NOT_FOUND)"

definition sigil_ps2_save_md5 :: "sigil_ps2_save \<Rightarrow> bytes" where
  "sigil_ps2_save_md5 save =
     (let m = sigil_md5_update sigil_md5_init (bytes_at (mem_of (p2s_entry save)) PS2_ENTRY_NAME PS2_NAME_LEN);
          m = fold (\<lambda>f m.
                let len = bytes_at (mem_of (p2f_entry f)) PS2_ENTRY_LENGTH 4;
                    m = sigil_md5_update m (bytes_at (mem_of (p2f_entry f)) PS2_ENTRY_NAME PS2_NAME_LEN);
                    m = sigil_md5_update m len
                in sigil_md5_update m (bytes_at (mem_of (p2f_data f)) 0 (unat (sigil_read_le32 (mem_of len) 0)))) (p2s_files save) m
      in sigil_md5_hex (sigil_md5_final m))"

end
