(* ===== verification/CardPs2Folder.thy ===== *)
theory CardPs2Folder
  imports CardPs2Saves "HOL-Library.Signed_Division" "HOL-Library.Char_ord"
begin

text \<open>
  PCSX2 folder cards: the end of \<^verbatim>\<open>src/src/card_ps2.c\<close>, which writes a save as the files of a folder
  and reads one back. Card dates are converted to Unix seconds and back, and the folder's
  \<^verbatim>\<open>_pcsx2_index\<close> is printed as block YAML and parsed in block or flow form.

  A \<^verbatim>\<open>const char *\<close> into a NUL-terminated text is the rest of the text, without the NUL: reading past
  the end gives \<open>[]\<close>, where the code sees the NUL. \<^verbatim>\<open>int64_t\<close> values are integers: dates stay within
  64 bits except for the negation of the least one, which is undefined in C and which no index this code
  writes holds.
\<close>

section \<open>Dates\<close>

definition days_from_civil :: "int \<Rightarrow> int \<Rightarrow> int \<Rightarrow> int" where
  "days_from_civil y m d =
     (let y = (if m \<le> 2 then y - 1 else y);
          era = (if 0 \<le> y then y else y - 399) sdiv 400;
          yoe = y - era * 400;
          doy = (153 * (if 2 < m then m - 3 else m + 9) + 2) div 5 + d - 1;
          doe = yoe * 365 + yoe div 4 - yoe div 100 + doy
      in era * 146097 + doe - 719468)"

definition civil_from_days :: "int \<Rightarrow> int \<times> int \<times> int" where
  "civil_from_days z =
     (let z = z + 719468;
          era = (if 0 \<le> z then z else z - 146096) sdiv 146097;
          doe = z - era * 146097;
          yoe = (doe - doe div 1460 + doe div 36524 - doe div 146096) div 365;
          doy = doe - (365 * yoe + yoe div 4 - yoe div 100);
          mp = (5 * doy + 2) div 153;
          d = doy - (153 * mp + 2) div 5 + 1;
          m = (if mp < 10 then mp + 3 else mp - 9)
      in (yoe + era * 400 + (if m \<le> 2 then 1 else 0), m, d))"

definition ps2_byte :: "mem \<Rightarrow> nat \<Rightarrow> int" where
  "ps2_byte m i = int (unat (m i))"

definition tod_to_unix :: "mem \<Rightarrow> nat \<Rightarrow> int" where
  "tod_to_unix m t =
     (let month = (if m (t + 5) \<noteq> 0 then ps2_byte m (t + 5) else 1);
          days = days_from_civil (int (unat (sigil_read_le16 m (t + 6)))) month (if m (t + 4) \<noteq> 0 then ps2_byte m (t + 4) else 1)
      in days * 86400 + ps2_byte m (t + 3) * 3600 + ps2_byte m (t + 2) * 60 + ps2_byte m (t + 1))"

definition unix_to_tod :: "int \<Rightarrow> mem \<Rightarrow> nat \<Rightarrow> mem" where
  "unix_to_tod t m p =
     (let days = (if 0 \<le> t then t div 86400 else - ((- t + 86399) div 86400));
          secs = t - days * 86400;
          (y, mo, d) = civil_from_days days
      in sigil_write_le16 (m(p := 0, p + 1 := word_of_int (secs mod 60), p + 2 := word_of_int (secs div 60 mod 60),
             p + 3 := word_of_int (secs div 3600), p + 4 := word_of_int d, p + 5 := word_of_int mo)) (p + 6) (word_of_int y))"

section \<open>The index\<close>

record index_row =
  ir_name :: bytes
  ir_order :: int
  ir_created :: int
  ir_modified :: int
  ir_has_order :: bool
  ir_has_created :: bool
  ir_has_modified :: bool

type_synonym index_table = "index_row list"

text \<open>\<^verbatim>\<open>index_add\<close> appends a row; its position is the code's pointer to it.\<close>

definition index_add :: "index_table \<Rightarrow> bytes \<Rightarrow> index_table" where
  "index_add t name =
     t @ [\<lparr>ir_name = take PS2_NAME_LEN name, ir_order = 0, ir_created = 0, ir_modified = 0, ir_has_order = False,
           ir_has_created = False, ir_has_modified = False\<rparr>]"

definition index_find :: "index_table \<Rightarrow> bytes \<Rightarrow> index_row option" where
  "index_find t name = find (\<lambda>r. ir_name r = name) t"

definition index_set :: "bytes \<Rightarrow> int \<Rightarrow> index_row \<Rightarrow> index_row" where
  "index_set field value r =
     (if field = str ''order'' then r\<lparr>ir_order := value, ir_has_order := True\<rparr>
      else if field = str ''timeCreated'' then r\<lparr>ir_created := value, ir_has_created := True\<rparr>
      else if field = str ''timeModified'' then r\<lparr>ir_modified := value, ir_has_modified := True\<rparr>
      else r)"

text \<open>Setting a field of the last row, the one a parser is filling.\<close>

definition index_set_last :: "bytes \<Rightarrow> int \<Rightarrow> index_table \<Rightarrow> index_table" where
  "index_set_last field value t = butlast t @ [index_set field value (last t)]"

definition is_blank :: "u8 \<Rightarrow> bool" where
  "is_blank c \<longleftrightarrow> c = 0x20 \<or> c = 0x09 \<or> c = 0x0D \<or> c = 0x0A"

definition skip_space :: "bytes \<Rightarrow> bytes" where
  "skip_space p = dropWhile is_blank p"

text \<open>The three loops of \<^verbatim>\<open>read_scalar\<close>: the text after the scalar and the scalar, \<open>None\<close> for \<^verbatim>\<open>NULL\<close>.\<close>

fun read_single :: "bytes \<Rightarrow> bytes \<Rightarrow> nat \<Rightarrow> (bytes \<times> bytes) option" where
  "read_single [] out cap = None"
| "read_single [c] out cap =
     (if c = 0x27 then Some ([], out) else if cap \<le> length out + 1 then None else read_single [] (out @ [c]) cap)"
| "read_single (c # d # p) out cap =
     (if c = 0x27 then
        (if d = 0x27 then (if cap \<le> length out + 1 then None else read_single p (out @ [0x27]) cap)
         else Some (d # p, out))
      else if cap \<le> length out + 1 then None
      else read_single (d # p) (out @ [c]) cap)"

fun read_double :: "bytes \<Rightarrow> bytes \<Rightarrow> nat \<Rightarrow> (bytes \<times> bytes) option" where
  "read_double [] out cap = None"
| "read_double [c] out cap =
     (if c = 0x22 then Some ([], out) else if cap \<le> length out + 1 then None else read_double [] (out @ [c]) cap)"
| "read_double (c # d # p) out cap =
     (if c = 0x22 then Some (d # p, out)
      else if cap \<le> length out + 1 then None
      else if c = 0x5C then read_double p (out @ [d]) cap
      else read_double (d # p) (out @ [c]) cap)"

fun read_plain :: "bytes \<Rightarrow> bytes \<Rightarrow> bytes \<Rightarrow> nat \<Rightarrow> (bytes \<times> bytes) option" where
  "read_plain [] stops out cap = Some ([], out)"
| "read_plain (c # p) stops out cap =
     (if c \<in> set stops then Some (c # p, out)
      else if cap \<le> length out + 1 then None
      else read_plain p stops (out @ [c]) cap)"

definition trim_blanks :: "bytes \<Rightarrow> bytes" where
  "trim_blanks out = rev (dropWhile (\<lambda>c. c = 0x20 \<or> c = 0x09 \<or> c = 0x0D) (rev out))"

definition read_scalar :: "bytes \<Rightarrow> bytes \<Rightarrow> nat \<Rightarrow> (bytes \<times> bytes) option" where
  "read_scalar p stops cap =
     (case p of
        [] \<Rightarrow> Some ([], [])
      | c # q \<Rightarrow>
          if c = 0x27 then read_single q [] cap
          else if c = 0x22 then read_double q [] cap
          else map_option (\<lambda>(r, out). (r, trim_blanks out)) (read_plain p stops [] cap))"

text \<open>\<^verbatim>\<open>strtoll(s, NULL, 10)\<close> of the C library: blanks, a sign, then digits, saturating at 64 bits.\<close>

definition digits_value :: "bytes \<Rightarrow> int" where
  "digits_value s = fold (\<lambda>c v. v * 10 + int (unat c) - 48) (takeWhile isdigit s) 0"

definition strtoll :: "bytes \<Rightarrow> int" where
  "strtoll s =
     (let s = dropWhile (\<lambda>c. c = 0x20 \<or> (0x09 \<le> c \<and> c \<le> 0x0D)) s;
          v = (case s of
                 [] \<Rightarrow> 0
               | c # q \<Rightarrow> if c = 0x2D then - digits_value q else if c = 0x2B then digits_value q else digits_value s)
      in max (- (2 ^ 63)) (min (2 ^ 63 - 1) v))"

lemma read_single_length: "read_single p out cap = Some (r, s) \<Longrightarrow> length r \<le> length p"
  by (induction p out cap rule: read_single.induct) (auto split: if_splits)

lemma read_double_length: "read_double p out cap = Some (r, s) \<Longrightarrow> length r \<le> length p"
  by (induction p out cap rule: read_double.induct) (auto split: if_splits)

lemma read_plain_length: "read_plain p stops out cap = Some (r, s) \<Longrightarrow> length r \<le> length p"
  by (induction p stops out cap rule: read_plain.induct) (auto split: if_splits)

lemma read_scalar_length: "read_scalar p stops cap = Some (r, s) \<Longrightarrow> length r \<le> length p"
  by (auto simp: read_scalar_def split: list.splits if_splits dest: read_single_length read_double_length read_plain_length)

lemma skip_space_length: "length (skip_space p) \<le> length p"
  by (simp add: skip_space_def length_dropWhile_le)

text \<open>The fields of one row of a flow mapping, then its rows. The parsers return the text they stopped at
  and the table.\<close>

function parse_flow_fields :: "bytes \<Rightarrow> index_table \<Rightarrow> (bytes \<times> index_table) option" where
  "parse_flow_fields p t =
     (case skip_space p of
        [] \<Rightarrow> None
      | c # q \<Rightarrow>
          if c = 0x7D then Some (q, t)
          else (case read_scalar (c # q) [0x3A] 32 of
                  None \<Rightarrow> None
                | Some ([], field) \<Rightarrow> None
                | Some (d # p1, field) \<Rightarrow>
                    if d \<noteq> 0x3A then None
                    else (case read_scalar (skip_space p1) [0x2C, 0x7D] 32 of
                            None \<Rightarrow> None
                          | Some (p2, value) \<Rightarrow>
                              let t = index_set_last field (strtoll value) t
                              in (case skip_space p2 of
                                    [] \<Rightarrow> parse_flow_fields [] t
                                  | e # r \<Rightarrow> parse_flow_fields (if e = 0x2C then r else e # r) t))))"
  by pat_completeness auto
termination
proof (relation "measure (\<lambda>(p, t). length p)", goal_cases)
  case (2 p t c q x y field d p1 z p2 val tt)
  then have "length (d # p1) \<le> length (skip_space p)" by (metis read_scalar_length)
  then show ?case using skip_space_length [of p] by auto
next
  case (3 p t c q x y field d p1 z p2 val tt e r)
  then have "length (d # p1) \<le> length (skip_space p)" by (metis read_scalar_length)
  moreover have "length (skip_space p2) \<le> length (skip_space p1)"
    using 3 skip_space_length [of p2] by (metis read_scalar_length le_trans)
  moreover have "length (if e = 0x2C then r else e # r) \<le> length (skip_space p2)" using 3 by auto
  ultimately have "length (if e = 0x2C then r else e # r) < length p"
    using skip_space_length [of p] skip_space_length [of p1] by simp
  then show ?case by simp
qed simp

declare parse_flow_fields.simps [simp del]

lemma parse_flow_fields_length: "parse_flow_fields p t = Some (r, t') \<Longrightarrow> length r \<le> length p"
proof (induction p t rule: parse_flow_fields.induct)
  case (1 p t)
  obtain c q where cq: "skip_space p = c # q" using "1.prems" by (subst (asm) parse_flow_fields.simps) (auto split: list.splits)
  show ?case
  proof (cases "c = 0x7D")
    case True
    then show ?thesis using "1.prems" cq skip_space_length [of p] by (subst (asm) parse_flow_fields.simps) simp
  next
    case False
    obtain p1 field p2 v where s: "read_scalar (c # q) [0x3A] 32 = Some (0x3A # p1, field)"
      "read_scalar (skip_space p1) [0x2C, 0x7D] 32 = Some (p2, v)"
      using "1.prems" False cq by (subst (asm) parse_flow_fields.simps) (auto split: list.splits option.splits if_splits)
    have l: "length (skip_space p2) \<le> length p"
      using read_scalar_length [OF s(1)] read_scalar_length [OF s(2)] skip_space_length [of p] skip_space_length [of p1]
        skip_space_length [of p2] cq by simp
    show ?thesis
    proof (cases "skip_space p2")
      case Nil
      have "parse_flow_fields [] (index_set_last field (strtoll v) t) = Some (r, t')"
        using "1.prems" False cq s Nil by (subst (asm) parse_flow_fields.simps) simp
      then have "length r \<le> length ([] :: bytes)" using "1.IH"(1) [OF cq False s(1) _ _ _ s(2) _ refl Nil] by simp
      then show ?thesis by simp
    next
      case (Cons e rr)
      let ?n = "if e = 0x2C then rr else e # rr"
      have "parse_flow_fields ?n (index_set_last field (strtoll v) t) = Some (r, t')"
        using "1.prems" False cq s Cons by (subst (asm) parse_flow_fields.simps) simp
      then have "length r \<le> length ?n" using "1.IH"(2) [OF cq False s(1) _ _ _ s(2) _ refl Cons] by simp
      then show ?thesis using l Cons by (simp split: if_splits)
    qed
  qed
qed

function parse_flow_rows :: "bytes \<Rightarrow> index_table \<Rightarrow> index_table option" where
  "parse_flow_rows p t =
     (case skip_space p of
        [] \<Rightarrow> None
      | c # q \<Rightarrow>
          if c = 0x7D then Some t
          else (case read_scalar (c # q) [0x3A] (PS2_NAME_LEN + 8) of
                  None \<Rightarrow> None
                | Some ([], key) \<Rightarrow> None
                | Some (d # p1, key) \<Rightarrow>
                    if d \<noteq> 0x3A then None
                    else (case skip_space p1 of
                            [] \<Rightarrow> None
                          | b # p2 \<Rightarrow>
                              if b \<noteq> 0x7B then None
                              else (case parse_flow_fields p2 (index_add t key) of
                                      None \<Rightarrow> None
                                    | Some (p3, t) \<Rightarrow>
                                        (case skip_space p3 of
                                           [] \<Rightarrow> parse_flow_rows [] t
                                         | e # r \<Rightarrow> parse_flow_rows (if e = 0x2C then r else e # r) t)))))"
  by pat_completeness auto
termination
proof (relation "measure (\<lambda>(p, t). length p)", goal_cases)
  case (2 p t c q x y key d p1 b p2 z p3 tt)
  then have "length (d # p1) \<le> length (skip_space p)" by (metis read_scalar_length)
  then show ?case using skip_space_length [of p] by auto
next
  case (3 p t c q x y key d p1 b p2 z p3 tt e r)
  then have a: "length (d # p1) \<le> length (skip_space p)" by (metis read_scalar_length)
  have "length p3 \<le> length p2" using 3 by (metis parse_flow_fields_length)
  then have "length (skip_space p3) \<le> length p2" using skip_space_length [of p3] by linarith
  moreover have "length p2 < length (skip_space p1)" using 3 by simp
  moreover have "length (if e = 0x2C then r else e # r) \<le> length (skip_space p3)" using 3 by auto
  ultimately have "length (if e = 0x2C then r else e # r) < length p"
    using a skip_space_length [of p] skip_space_length [of p1] by simp
  then show ?case by simp
qed simp

declare parse_flow_rows.simps [simp del]

definition parse_flow :: "bytes \<Rightarrow> index_table \<Rightarrow> index_table option" where
  "parse_flow p t =
     (case skip_space p of [] \<Rightarrow> None | c # q \<Rightarrow> if c \<noteq> 0x7B then None else parse_flow_rows q t)"

text \<open>A line of block YAML is read from its first character on to the end of the text, so a quoted key or
  an empty value may reach past the line, as in the code; the next line starts after the line's end.\<close>

definition parse_block_line :: "bytes \<Rightarrow> index_table \<Rightarrow> index_table option" where
  "parse_block_line p t =
     (let text = dropWhile (\<lambda>c. c = 0x20 \<or> c = 0x09) p in
      if text = [] \<or> hd text = 0x0A \<or> hd text = 0x0D \<or> hd text = 0x23 then Some t
      else case read_scalar text [0x3A, 0x0A] (PS2_NAME_LEN + 8) of
             None \<Rightarrow> None
           | Some (after, key) \<Rightarrow>
               if after = [] \<or> hd after \<noteq> 0x3A then None
               else if length text = length p then Some (index_add t key)
               else if t = [] then None
               else (case read_scalar (skip_space (tl after)) [0x0A] 32 of
                       None \<Rightarrow> None
                     | Some (_, val) \<Rightarrow> Some (index_set_last key (strtoll val) t)))"

function parse_block :: "bytes \<Rightarrow> index_table \<Rightarrow> index_table option" where
  "parse_block p t =
     (if p = [] then Some t
      else case parse_block_line p t of
             None \<Rightarrow> None
           | Some t \<Rightarrow> parse_block (tl (dropWhile (\<lambda>c. c \<noteq> 0x0A) p)) t)"
  by pat_completeness auto
termination
proof (relation "measure (\<lambda>(p, t). length p)", goal_cases)
  case (2 p t tt)
  have "length (tl (dropWhile (\<lambda>c. c \<noteq> 0x0A) p)) \<le> length (dropWhile (\<lambda>c. c \<noteq> 0x0A) p) - 1" by simp
  moreover have "length (dropWhile (\<lambda>c. c \<noteq> 0x0A) p) \<le> length p" by (rule length_dropWhile_le)
  ultimately show ?case using 2 by (cases p) auto
qed simp

declare parse_block.simps [simp del]

definition parse_index :: "bytes \<Rightarrow> index_table option" where
  "parse_index data =
     (let start = skip_space (cstr data)
      in if start \<noteq> [] \<and> hd start = 0x7B then parse_flow start [] else parse_block start [])"

section \<open>Folders\<close>

definition PS2_FOLDER_PATH_MAX :: nat where "PS2_FOLDER_PATH_MAX = 96"
definition PCSX2_INDEX :: bytes where "PCSX2_INDEX = str ''_pcsx2_index''"
definition PCSX2_META_DIR :: bytes where "PCSX2_META_DIR = str ''_pcsx2_meta_directory''"
definition PCSX2_META_PREFIX :: bytes where "PCSX2_META_PREFIX = str ''_pcsx2_meta/''"
definition PCSX2_PREFIX :: bytes where "PCSX2_PREFIX = str ''_pcsx2_''"
definition PCSX2_DIR_MODE :: u16 where "PCSX2_DIR_MODE = 0x8427"
definition PCSX2_FILE_MODE :: u16 where "PCSX2_FILE_MODE = 0x8497"

text \<open>A file of the folder: its path and bytes, the length being the list's.\<close>

record sigil_ps2_folder_file =
  ff_path :: bytes
  ff_data :: bytes

definition find_folder_file :: "sigil_ps2_folder_file list \<Rightarrow> bytes \<Rightarrow> sigil_ps2_folder_file option" where
  "find_folder_file files path = find (\<lambda>f. ff_path f = path) files"

definition default_entry :: "u16 \<Rightarrow> bytes \<Rightarrow> int \<Rightarrow> int \<Rightarrow> mem" where
  "default_entry mode name created modified =
     (let e = sigil_write_le16 (\<lambda>_. 0) PS2_ENTRY_MODE mode;
          e = unix_to_tod created e PS2_ENTRY_CREATED;
          e = unix_to_tod modified e PS2_ENTRY_MODIFIED
      in memcpy e PS2_ENTRY_NAME (mem_of name) 0 (length name))"

text \<open>The name of an entry, as the C string the code makes of its 32 bytes.\<close>

definition entry_name :: "bytes \<Rightarrow> bytes" where
  "entry_name e = cstr (bytes_at (mem_of e) PS2_ENTRY_NAME PS2_NAME_LEN)"

definition rebuilds_without_meta :: "bytes \<Rightarrow> u16 \<Rightarrow> bool" where
  "rebuilds_without_meta actual default_mode =
     (let expect = default_entry default_mode (entry_name actual) (tod_to_unix (mem_of actual) PS2_ENTRY_CREATED)
            (tod_to_unix (mem_of actual) PS2_ENTRY_MODIFIED);
          have1 = memset (memset (mem_of actual) PS2_ENTRY_LENGTH 0 4) PS2_ENTRY_CLUSTER 0 8
      in mem_eq expect 0 have1 0 PS2_ENTRY_SIZE)"

text \<open>\<open>None\<close> is \<^verbatim>\<open>return false\<close>: the path does not fit.\<close>

definition add_folder_file :: "sigil_ps2_folder_file list \<Rightarrow> bytes \<Rightarrow> bytes \<Rightarrow> sigil_ps2_folder_file list option" where
  "add_folder_file files path data =
     (if PS2_FOLDER_PATH_MAX \<le> length path then None else Some (files @ [\<lparr>ff_path = path, ff_data = data\<rparr>]))"

text \<open>The text so far, \<open>None\<close> once a line did not fit its buffer.\<close>

definition text_add :: "bytes option \<Rightarrow> bytes \<Rightarrow> bytes option" where
  "text_add t line = (case t of None \<Rightarrow> None | Some buf \<Rightarrow> if 256 \<le> length line then None else Some (buf @ line))"

text \<open>\<^verbatim>\<open>%zu\<close> and \<^verbatim>\<open>%lld\<close> of \<^verbatim>\<open>printf\<close>.\<close>

fun nat_dec :: "nat \<Rightarrow> bytes" where
  "nat_dec n = (if n < 10 then [of_nat (48 + n)] else nat_dec (n div 10) @ [of_nat (48 + n mod 10)])"

declare nat_dec.simps [simp del]

definition int_dec :: "int \<Rightarrow> bytes" where
  "int_dec v = (if v < 0 then 0x2D # nat_dec (nat (- v)) else nat_dec (nat v))"

fun quoted_loop :: "bytes \<Rightarrow> nat \<Rightarrow> bytes \<Rightarrow> bytes" where
  "quoted_loop [] cap out = out"
| "quoted_loop (c # p) cap out =
     (if length out + 3 < cap then quoted_loop p cap (out @ (if c = 0x27 then [c, 0x27] else [c])) else out)"

definition quoted_key :: "bytes \<Rightarrow> nat \<Rightarrow> bytes" where
  "quoted_key name cap =
     (let out = quoted_loop name cap (if 1 < cap then [0x27] else [])
      in if length out + 1 < cap then out @ [0x27] else out)"

definition times_text :: "int \<Rightarrow> int \<Rightarrow> bytes" where
  "times_text created modified =
     str ''  timeCreated: '' @ int_dec created @ [0x0A] @ str ''  timeModified: '' @ int_dec modified @ [0x0A]"

definition entry_created :: "bytes \<Rightarrow> int" where "entry_created e = tod_to_unix (mem_of e) PS2_ENTRY_CREATED"
definition entry_modified :: "bytes \<Rightarrow> int" where "entry_modified e = tod_to_unix (mem_of e) PS2_ENTRY_MODIFIED"

text \<open>One round of the unpack loop: the files and the index text so far, or the error.\<close>

definition ps2_unpack_file ::
    "nat \<times> sigil_ps2_file \<Rightarrow> rc + sigil_ps2_folder_file list \<times> bytes option
       \<Rightarrow> rc + sigil_ps2_folder_file list \<times> bytes option" where
  "ps2_unpack_file = (\<lambda>(i, f) r.
     case r of
       Inl rc \<Rightarrow> Inl rc
     | Inr (files, index) \<Rightarrow>
         let name = entry_name (p2f_entry f) in
         if \<not> plain_name name \<or> take (length PCSX2_PREFIX) name = PCSX2_PREFIX then Inl SIGIL_ERR_UNSUPPORTED_FORMAT
         else case add_folder_file files name (take (ps2_file_length f) (p2f_data f)) of
                None \<Rightarrow> Inl SIGIL_ERR_OOM
              | Some files \<Rightarrow>
                  (case (if rebuilds_without_meta (p2f_entry f) PCSX2_FILE_MODE then Some files
                         else add_folder_file files (take (PS2_FOLDER_PATH_MAX - 1) (PCSX2_META_PREFIX @ name)) (p2f_entry f)) of
                     None \<Rightarrow> Inl SIGIL_ERR_OOM
                   | Some files \<Rightarrow>
                       Inr (files, text_add index (quoted_key name (2 * PS2_NAME_LEN + 3) @ str '':'' @ [0x0A] @ str ''  order: '' @
                         nat_dec (i + 1) @ [0x0A] @ times_text (entry_created (p2f_entry f)) (entry_modified (p2f_entry f))))))"

definition sigil_ps2_unpack :: "sigil_ps2_save \<Rightarrow> rc + sigil_ps2_folder_file list" where
  "sigil_ps2_unpack save =
     (let index = text_add (Some []) (str ''$ROOT:'' @ [0x0A] @
            times_text (entry_created (p2s_entry save)) (entry_modified (p2s_entry save)))
      in case fold ps2_unpack_file (zip [0..<length (p2s_files save)] (p2s_files save)) (Inr ([], index)) of
           Inl rc \<Rightarrow> Inl rc
         | Inr (files, index) \<Rightarrow>
             (case (if rebuilds_without_meta (p2s_entry save) PCSX2_DIR_MODE then Some files
                    else add_folder_file files PCSX2_META_DIR (p2s_entry save)) of
                None \<Rightarrow> Inl SIGIL_ERR_OOM
              | Some files \<Rightarrow>
                  (case index of
                     None \<Rightarrow> Inl SIGIL_ERR_OOM
                   | Some text \<Rightarrow>
                       (case add_folder_file files PCSX2_INDEX text of None \<Rightarrow> Inl SIGIL_ERR_OOM | Some files \<Rightarrow> Inr files))))"

record pack_item =
  pi_file :: sigil_ps2_folder_file
  pi_order :: int

text \<open>\<^verbatim>\<open>qsort\<close> with \<^verbatim>\<open>compare_items\<close>, whose ties are broken by the order given: the stable insertion sort by
  order.\<close>

definition sort_items :: "pack_item list \<Rightarrow> pack_item list" where
  "sort_items items = sort_key pi_order items"

definition entry_from_meta :: "sigil_ps2_folder_file option \<Rightarrow> bytes \<Rightarrow> u16 \<Rightarrow> int \<Rightarrow> int \<Rightarrow> mem" where
  "entry_from_meta meta name mode created modified =
     (let e = default_entry mode name created modified;
          e = (case meta of None \<Rightarrow> e
               | Some f \<Rightarrow> memcpy e 0 (mem_of (ff_data f)) 0 (min (length (ff_data f)) PS2_ENTRY_SIZE));
          e = memset e PS2_ENTRY_NAME 0 PS2_NAME_LEN
      in memcpy e PS2_ENTRY_NAME (mem_of name) 0 (length name))"

definition row_created :: "index_row option \<Rightarrow> int" where
  "row_created r = (case r of None \<Rightarrow> 0 | Some r \<Rightarrow> if ir_has_created r then ir_created r else 0)"

definition row_modified :: "index_row option \<Rightarrow> int" where
  "row_modified r = (case r of None \<Rightarrow> 0 | Some r \<Rightarrow> if ir_has_modified r then ir_modified r else 0)"

text \<open>The loop that collects the save's files: the items and the next order of a file the index lacks.\<close>

definition pack_collect ::
    "index_table \<Rightarrow> sigil_ps2_folder_file \<Rightarrow> (pack_item list \<times> int) option \<Rightarrow> (pack_item list \<times> int) option" where
  "pack_collect index f r =
     (case r of
        None \<Rightarrow> None
      | Some (items, legacy) \<Rightarrow>
          if take (length PCSX2_PREFIX) (ff_path f) = PCSX2_PREFIX then Some (items, legacy)
          else if \<not> plain_name (ff_path f) \<or> PS2_NAME_LEN < length (ff_path f) then None
          else (case index_find index (ff_path f) of
                  None \<Rightarrow> Some (items @ [\<lparr>pi_file = f, pi_order = legacy\<rparr>], legacy - 1)
                | Some row \<Rightarrow>
                    if ir_has_order row then Some (items @ [\<lparr>pi_file = f, pi_order = ir_order row\<rparr>], legacy)
                    else Some (items @ [\<lparr>pi_file = f, pi_order = legacy\<rparr>], legacy - 1)))"

definition ps2_pack_file ::
    "sigil_ps2_folder_file list \<Rightarrow> index_table \<Rightarrow> sigil_ps2_folder_file \<Rightarrow> sigil_ps2_file" where
  "ps2_pack_file files index f =
     (let meta = find_folder_file files (take (PS2_FOLDER_PATH_MAX - 1) (PCSX2_META_PREFIX @ ff_path f));
          row = index_find index (ff_path f);
          e = entry_from_meta meta (ff_path f) PCSX2_FILE_MODE (row_created row) (row_modified row);
          e = sigil_write_le32 e PS2_ENTRY_LENGTH (of_nat (length (ff_data f)));
          e = sigil_write_le32 e PS2_ENTRY_CLUSTER 0;
          e = sigil_write_le32 e PS2_ENTRY_PARENT_INDEX 0
      in \<lparr>p2f_entry = bytes_at e 0 PS2_ENTRY_SIZE, p2f_data = ff_data f\<rparr>)"

definition ps2_bare_entry :: "bytes \<Rightarrow> bytes" where
  "ps2_bare_entry name =
     bytes_at (memset (memset (default_entry PCSX2_DIR_MODE name 0 0) PS2_ENTRY_CREATED 0 PS2_TOD_SIZE)
       PS2_ENTRY_MODIFIED 0 PS2_TOD_SIZE) 0 PS2_ENTRY_SIZE"

definition sigil_ps2_pack :: "bytes \<Rightarrow> sigil_ps2_folder_file list \<Rightarrow> rc + sigil_ps2_save" where
  "sigil_ps2_pack folder files =
     (if \<not> plain_name folder \<or> PS2_NAME_LEN < length folder then Inl SIGIL_ERR_UNSUPPORTED_FORMAT
      else case (case find_folder_file files PCSX2_INDEX of None \<Rightarrow> Some [] | Some f \<Rightarrow> parse_index (ff_data f)) of
             None \<Rightarrow> Inl SIGIL_ERR_UNSUPPORTED_FORMAT
           | Some index \<Rightarrow>
               let root = (case index_find index (str ''$ROOT'') of None \<Rightarrow> index_find index (str ''%ROOT'') | Some r \<Rightarrow> Some r)
               in (case fold (pack_collect index) files (Some ([], -1)) of
                     None \<Rightarrow> Inl SIGIL_ERR_UNSUPPORTED_FORMAT
                   | Some (items, _) \<Rightarrow>
                       let sorted1 = map pi_file (sort_items items) in
                       if list_ex (\<lambda>f. 4294967295 < length (ff_data f)) sorted1 then Inl SIGIL_ERR_UNSUPPORTED_FORMAT
                       else let saved = map (ps2_pack_file files index) sorted1;
                                e = entry_from_meta (find_folder_file files PCSX2_META_DIR) folder PCSX2_DIR_MODE
                                      (row_created root) (row_modified root);
                                e = sigil_write_le32 e PS2_ENTRY_LENGTH (of_nat (length saved + 2))
                            in Inr \<lparr>p2s_entry = bytes_at e 0 PS2_ENTRY_SIZE, p2s_self = ps2_bare_entry (str ''.''),
                                    p2s_parent = ps2_bare_entry (str ''..''), p2s_files = saved\<rparr>))"

end
