(* ===== verification/CardPs2FolderProofs.thy ===== *)
theory CardPs2FolderProofs
  imports CardPs2Folder
begin

text \<open>
  What the folder cards of \<^verbatim>\<open>src/src/card_ps2.c\<close> promise: a date of a card survives the conversion to Unix
  seconds and back, the index that is written is parsed to the rows it was printed from, and a save
  written as a folder is read back.
\<close>

section \<open>Dates\<close>

definition leap_year :: "int \<Rightarrow> bool" where
  "leap_year y \<longleftrightarrow> 4 dvd y \<and> (\<not> 100 dvd y \<or> 400 dvd y)"

definition days_in_month :: "int \<Rightarrow> int \<Rightarrow> int" where
  "days_in_month y m = (if m = 2 then (if leap_year y then 29 else 28) else if m \<in> {4, 6, 9, 11} then 30 else 31)"

definition valid_date :: "int \<Rightarrow> int \<Rightarrow> int \<Rightarrow> bool" where
  "valid_date y m d \<longleftrightarrow> 1 \<le> m \<and> m \<le> 12 \<and> 1 \<le> d \<and> d \<le> days_in_month y m"

lemma sdiv_floor:
  assumes "0 < k" "a = k - 1"
  shows "(if 0 \<le> y then y else y - a) sdiv k = y div (k :: int)"
proof (cases "0 \<le> y")
  case True
  then show ?thesis using assms by (cases "y = 0") (simp_all add: signed_divide_int_def)
next
  case False
  have "(k - 1 - y) div k = - (y div k)"
  proof (rule int_div_pos_eq)
    show "k - 1 - y = k * - (y div k) + (k - 1 - y mod k)" using minus_mod_eq_mult_div [of y k] by simp
    show "0 \<le> k - 1 - y mod k" using pos_mod_bound [OF assms(1), of y] by linarith
    show "k - 1 - y mod k < k" using pos_mod_sign [OF assms(1), of y] by linarith
  qed
  moreover have "\<bar>y - a\<bar> = k - 1 - y" "sgn (y - a) = - 1" using False assms by simp_all
  ultimately show ?thesis using False assms by (simp add: signed_divide_int_def)
qed

text \<open>The year of an era from the day of the era: the quotient grows with the day, and it is right on the
  first and the last day of each of the 400 years.\<close>

definition era_quotient :: "int \<Rightarrow> int" where
  "era_quotient doe = doe - doe div 1460 + doe div 36524 - doe div 146096"

definition year_start :: "int \<Rightarrow> int" where
  "year_start yoe = yoe * 365 + yoe div 4 - yoe div 100"

definition year_days :: "int \<Rightarrow> int" where
  "year_days yoe = (if leap_year (yoe + 1) then 366 else 365)"

lemma era_quotient_step:
  assumes "0 \<le> x" "x < 146096"
  shows "era_quotient x \<le> era_quotient (x + 1)"
proof (cases "x + 1 < 146096")
  case True
  have "(x + 1) div 1460 \<le> (x + 1460) div 1460" by (rule zdiv_mono1) simp_all
  then have "(x + 1) div 1460 \<le> x div 1460 + 1" by simp
  moreover have "x div 36524 \<le> (x + 1) div 36524" by (rule zdiv_mono1) simp_all
  moreover have "x div 146096 = 0" "(x + 1) div 146096 = 0" using True assms(1) by simp_all
  ultimately show ?thesis unfolding era_quotient_def by linarith
next
  case False
  then have "x = 146095" using assms(2) by linarith
  then show ?thesis by (simp add: era_quotient_def)
qed

lemma era_quotient_mono:
  assumes "0 \<le> x" "x \<le> y" "y \<le> 146096"
  shows "era_quotient x \<le> era_quotient y"
proof -
  have "x + int n \<le> 146096 \<Longrightarrow> era_quotient x \<le> era_quotient (x + int n)" for n
  proof (induction n)
    case (Suc n)
    then have "era_quotient (x + int n) \<le> era_quotient (x + int n + 1)" using assms(1) by (intro era_quotient_step) auto
    then show ?case using Suc by (simp add: algebra_simps)
  qed simp
  from this [of "nat (y - x)"] show ?thesis using assms by simp
qed

lemma year_ends:
  "list_all (\<lambda>y. 365 * y \<le> era_quotient (year_start y) \<and>
     era_quotient (year_start y + year_days y - 1) < 365 * (y + 1) \<and> year_start y + year_days y \<le> 146097) [0..399]"
  by code_simp

lemma month_ends:
  "list_all (\<lambda>mp. list_all (\<lambda>d. let doy = (153 * mp + 2) div 5 + d - 1 in
       (5 * doy + 2) div 153 = mp \<or> 30 < d \<and> mp \<in> {1, 3, 6, 8} \<or> 29 < d \<and> mp = 11) [1..31]) [(0 :: int)..11]"
  by code_simp

lemma year_of_day:
  assumes "0 \<le> yoe" "yoe < 400" "0 \<le> doy" "doy < year_days yoe"
  shows "era_quotient (year_start yoe + doy) div 365 = yoe" "year_start yoe + doy < 146097"
    "0 \<le> year_start yoe + doy"
proof -
  have "yoe \<in> set [0..399]" using assms by simp
  then have e: "365 * yoe \<le> era_quotient (year_start yoe)"
     "era_quotient (year_start yoe + year_days yoe - 1) < 365 * (yoe + 1)" "year_start yoe + year_days yoe \<le> 146097"
    using year_ends by (simp_all only: list_all_iff)
  have "yoe div 100 \<le> yoe div 4" using assms(1) by (intro zdiv_mono2) simp_all
  then have s: "0 \<le> year_start yoe" using assms(1) by (simp add: year_start_def)
  show "year_start yoe + doy < 146097" "0 \<le> year_start yoe + doy" using e(3) assms(3,4) s by linarith+
  have "era_quotient (year_start yoe) \<le> era_quotient (year_start yoe + doy)"
    by (rule era_quotient_mono) (use assms e(3) s in linarith)+
  moreover have "era_quotient (year_start yoe + doy) \<le> era_quotient (year_start yoe + year_days yoe - 1)"
    by (rule era_quotient_mono) (use assms e(3) s in linarith)+
  ultimately have "365 * yoe \<le> era_quotient (year_start yoe + doy)" "era_quotient (year_start yoe + doy) < 365 * (yoe + 1)"
    using e by linarith+
  then show "era_quotient (year_start yoe + doy) div 365 = yoe" by (intro int_div_pos_eq [where r = "era_quotient (year_start yoe + doy) - 365 * yoe"]) auto
qed

lemma month_day:
  assumes "(0 :: int) \<le> mp" "mp \<le> 11" "(1 :: int) \<le> d" "d \<le> 31" "mp \<in> {1, 3, 6, 8} \<longrightarrow> d \<le> 30" "mp = 11 \<longrightarrow> d \<le> 29"
  shows "(5 * ((153 * mp + 2) div 5 + d - 1) + 2) div 153 = mp"
proof -
  have "mp \<in> set [0..11]" "d \<in> set [1..31]" using assms by simp_all
  then have "(5 * ((153 * mp + 2) div 5 + d - 1) + 2) div 153 = mp \<or> 30 < d \<and> mp \<in> {1, 3, 6, 8} \<or> 29 < d \<and> mp = 11"
    using month_ends by (simp only: list_all_iff Let_def)
  then show ?thesis using assms by auto
qed

definition month_index :: "int \<Rightarrow> int" where
  "month_index m = (if 2 < m then m - 3 else m + 9)"

lemma days_of_months: "list_all (\<lambda>mp. 0 \<le> (153 * mp + 2) div 5 \<and>
    (153 * mp + 2) div 5 + (if mp = 11 then 28 else if mp \<in> {1, 3, 6, 8} then 30 else 31) \<le> 365) [(0 :: int)..11]"
  by code_simp

lemma leap_year_mod: "leap_year (y + 1) = leap_year (y mod 400 + 1)"
proof -
  have y: "y + 1 = y mod 400 + 1 + y div 400 * 400" using div_mult_mod_eq [of y 400] by linarith
  have "k dvd y + 1 \<longleftrightarrow> k dvd y mod 400 + 1" if "k dvd 400" for k
    unfolding y by (rule dvd_add_left_iff) (use that in simp)
  from this [of 4] this [of 100] this [of 400]
  have "4 dvd y + 1 \<longleftrightarrow> 4 dvd y mod 400 + 1" "100 dvd y + 1 \<longleftrightarrow> 100 dvd y mod 400 + 1"
    "400 dvd y + 1 \<longleftrightarrow> 400 dvd y mod 400 + 1" by simp_all
  then show ?thesis by (simp add: leap_year_def)
qed

lemma civil_days:
  assumes v: "valid_date y m d"
  shows "civil_from_days (days_from_civil y m d) = (y, m, d)"
proof -
  define y' where "y' = (if m \<le> 2 then y - 1 else y)"
  define yoe where "yoe = y' mod 400"
  define mp where "mp = month_index m"
  define doy where "doy = (153 * mp + 2) div 5 + d - 1"
  have m: "1 \<le> m" "m \<le> 12" "1 \<le> d" "d \<le> days_in_month y m" using v by (simp_all add: valid_date_def)
  have mp: "0 \<le> mp" "mp \<le> 11" "mp \<in> {1, 3, 6, 8} \<longleftrightarrow> m \<in> {4, 6, 9, 11}" "mp = 11 \<longleftrightarrow> m = 2"
    using m(1,2) by (auto simp: mp_def month_index_def)
  have d31: "d \<le> 31" "mp \<in> {1, 3, 6, 8} \<longrightarrow> d \<le> 30" "mp = 11 \<longrightarrow> d \<le> 29"
    using m(4) mp(3,4) by (auto simp: days_in_month_def split: if_splits)
  have "mp \<in> set [0..11]" using mp by simp
  then have dm: "0 \<le> (153 * mp + 2) div 5"
    "(153 * mp + 2) div 5 + (if mp = 11 then 28 else if mp \<in> {1, 3, 6, 8} then 30 else 31) \<le> 365"
    using days_of_months by (simp_all only: list_all_iff)
  have leap: "year_days yoe = (if leap_year (y' + 1) then 366 else 365)"
    by (simp add: year_days_def yoe_def flip: leap_year_mod)
  have feb: "y' + 1 = y" if "mp = 11" using that mp(4) by (simp add: y'_def)
  have doy: "0 \<le> doy" "doy < year_days yoe"
  proof -
    show "0 \<le> doy" using dm(1) m(3) by (simp add: doy_def)
    show "doy < year_days yoe"
    proof (cases "mp = 11")
      case True
      then have "d \<le> (if leap_year y then 29 else 28)" using m(4) mp(4) by (simp add: days_in_month_def)
      then show ?thesis using True feb leap by (auto simp: doy_def split: if_splits)
    next
      case False
      then have "(153 * mp + 2) div 5 + d \<le> 365" using dm(2) d31 by (auto split: if_splits)
      then show ?thesis using leap by (simp add: doy_def)
    qed
  qed
  have yoe: "0 \<le> yoe" "yoe < 400" by (simp_all add: yoe_def)
  note yd = year_of_day [OF yoe doy]
  have yr: "y' - y' div 400 * 400 = yoe" by (simp add: yoe_def minus_div_mult_eq_mod)
  have dfc: "days_from_civil y m d = y' div 400 * 146097 + (year_start yoe + doy) - 719468"
    using sdiv_floor [of 400 399 y']
    unfolding days_from_civil_def Let_def y'_def [symmetric] month_index_def [symmetric] mp_def [symmetric]
    by (simp add: yr year_start_def doy_def)
  define z where "z = days_from_civil y m d + 719468"
  have z: "z = y' div 400 * 146097 + (year_start yoe + doy)" by (simp add: z_def dfc)
  have era: "(if 0 \<le> z then z else z - 146096) sdiv 146097 = y' div 400"
    using sdiv_floor [of 146097 146096 z] yd(2,3) z by simp
  have doe: "z - y' div 400 * 146097 = year_start yoe + doy" by (simp add: z)
  have yy: "yoe + y' div 400 * 400 = y'" by (simp add: yoe_def)
  have mpe: "(5 * doy + 2) div 153 = mp" unfolding doy_def by (rule month_day) (use mp d31 m(3) in auto)
  have ys: "year_start yoe + doy - (365 * yoe + yoe div 4 - yoe div 100) = doy" by (simp add: year_start_def)
  show ?thesis
    unfolding civil_from_days_def Let_def z_def [symmetric] era doe
    unfolding era_quotient_def [symmetric] yd(1) ys mpe yy
    using m(1,2) by (auto simp: doy_def y'_def mp_def month_index_def)
qed

text \<open>Every day number is the number of a valid date.\<close>

lemma months_of_days: "list_all (\<lambda>doy. let mp = (5 * doy + 2) div 153; d = doy - (153 * mp + 2) div 5 + 1 in
    0 \<le> mp \<and> mp \<le> 11 \<and> 1 \<le> d \<and> d \<le> (if mp = 11 then if doy = 365 then 29 else 28 else if mp \<in> {1, 3, 6, 8} then 30 else 31))
  [(0 :: int)..365]"
  by code_simp

lemma year_starts: "list_all (\<lambda>y. year_start (y + 1) = year_start y + year_days y \<or> y = 399) [0..399]"
  by code_simp

lemma year_of_era:
  assumes "0 \<le> doe" "doe < 146097"
  obtains yoe doy where "0 \<le> yoe" "yoe < 400" "0 \<le> doy" "doy < year_days yoe" "doe = year_start yoe + doy"
proof -
  have "n \<le> 400 \<Longrightarrow> doe < (if n = 400 then 146097 else year_start (int n)) \<Longrightarrow>
      \<exists>yoe doy. 0 \<le> yoe \<and> yoe < 400 \<and> 0 \<le> doy \<and> doy < year_days yoe \<and> doe = year_start yoe + doy" for n
  proof (induction n)
    case 0
    then show ?case using assms by (simp add: year_start_def)
  next
    case (Suc n)
    have n: "int n \<in> set [0..399]" using Suc.prems by simp
    have e: "doe < year_start (int n) + year_days (int n)"
    proof (cases "n = 399")
      case True
      then show ?thesis using assms by (simp add: year_start_def year_days_def leap_year_def)
    next
      case False
      have "year_start (int n + 1) = year_start (int n) + year_days (int n) \<or> int n = 399"
        using year_starts n by (simp only: list_all_iff)
      then show ?thesis using Suc.prems False by (simp add: algebra_simps)
    qed
    show ?case
    proof (cases "doe < year_start (int n)")
      case True
      then show ?thesis using Suc by simp
    next
      case False
      then show ?thesis using e n by (intro exI [of _ "int n"] exI [of _ "doe - year_start (int n)"]) simp
    qed
  qed
  from this [of 400] that assms show thesis by auto
qed

lemma days_surj:
  obtains y m d where "valid_date y m d" "days_from_civil y m d = z"
proof -
  define era where "era = (z + 719468) div 146097"
  obtain yoe doy where yd: "0 \<le> yoe" "yoe < 400" "0 \<le> doy" "doy < year_days yoe" "(z + 719468) mod 146097 = year_start yoe + doy"
    by (rule year_of_era [of "(z + 719468) mod 146097"]) simp_all
  define mp where "mp = (5 * doy + 2) div 153"
  define d where "d = doy - (153 * mp + 2) div 5 + 1"
  define m where "m = (if mp < 10 then mp + 3 else mp - 9)"
  define y where "y = yoe + era * 400 + (if m \<le> 2 then 1 else 0)"
  have "doy \<in> set [0..365]" using yd by (auto simp: year_days_def split: if_splits)
  then have l: "0 \<le> mp" "mp \<le> 11" "1 \<le> d"
    "d \<le> (if mp = 11 then if doy = 365 then 29 else 28 else if mp \<in> {1, 3, 6, 8} then 30 else 31)"
    using months_of_days by (simp_all only: list_all_iff Let_def mp_def d_def)
  have m: "1 \<le> m" "m \<le> 12" using l(1,2) by (auto simp: m_def)
  have mp: "(if 2 < m then m - 3 else m + 9) = mp" using l(1,2) by (auto simp: m_def)
  have yy: "(if m \<le> 2 then y - 1 else y) = yoe + era * 400" by (simp add: y_def)
  have "doy = 365 \<Longrightarrow> leap_year (yoe + 1)" using yd(4) by (auto simp: year_days_def split: if_splits)
  moreover have "leap_year (yoe + era * 400 + 1) = leap_year (yoe + 1)"
    using leap_year_mod [of "yoe + era * 400"] yd(1,2) by simp
  ultimately have "valid_date y m d"
    using l m by (auto simp: valid_date_def days_in_month_def y_def m_def split: if_splits)
  moreover have "days_from_civil y m d = z"
  proof -
    have "era * 146097 + (year_start yoe + doy) - 719468 = z"
      using yd(5) by (simp add: era_def flip: yd(5))
    then show ?thesis
      using sdiv_floor [of 400 399 "yoe + era * 400"] yd(1,2)
      by (simp add: days_from_civil_def Let_def mp yy d_def year_start_def)
  qed
  ultimately show thesis by (rule that)
qed

lemma floor_days: "(if 0 \<le> t then t div 86400 else - ((- t + 86399) div 86400)) = t div (86400 :: int)"
proof (cases "0 \<le> t")
  case False
  have "(- t + 86399) div 86400 = - (t div 86400)"
  proof (rule int_div_pos_eq)
    show "- t + 86399 = 86400 * - (t div 86400) + (86399 - t mod 86400)" using minus_mod_eq_mult_div [of t 86400] by simp
    show "0 \<le> 86399 - t mod 86400" using pos_mod_bound [of 86400 t] by linarith
    show "86399 - t mod 86400 < 86400" using pos_mod_sign [of 86400 t] by linarith
  qed
  then show ?thesis using False by simp
qed simp

text \<open>A date as a card holds one: a first byte of zero, the time of day, and a date of the calendar.\<close>

definition valid_tod :: "mem \<Rightarrow> nat \<Rightarrow> bool" where
  "valid_tod m t \<longleftrightarrow> m t = 0 \<and> ps2_byte m (t + 1) < 60 \<and> ps2_byte m (t + 2) < 60 \<and> ps2_byte m (t + 3) < 24 \<and>
     valid_date (int (unat (sigil_read_le16 m (t + 6)))) (ps2_byte m (t + 5)) (ps2_byte m (t + 4))"

lemma seconds_split:
  fixes days :: int
  assumes "0 \<le> s" "s < 60" "0 \<le> mi" "mi < 60" "0 \<le> h" "(h :: int) < 24"
  defines "t \<equiv> days * 86400 + h * 3600 + mi * 60 + s"
  shows "t div 86400 = days" "(t - days * 86400) mod 60 = s" "(t - days * 86400) div 60 mod 60 = mi"
    "(t - days * 86400) div 3600 = h"
proof -
  show "t div 86400 = days" by (rule int_div_pos_eq [where r = "h * 3600 + mi * 60 + s"]) (use assms in auto)
  have r: "t - days * 86400 = h * 3600 + mi * 60 + s" by (simp add: t_def)
  have "(h * 3600 + mi * 60 + s) div 60 = h * 60 + mi" by (rule int_div_pos_eq [where r = s]) (use assms in auto)
  moreover have "(h * 3600 + mi * 60 + s) mod 60 = s"
    by (rule int_mod_pos_eq [where q = "h * 60 + mi"]) (use assms in auto)
  moreover have "(h * 60 + mi) mod 60 = mi" by (rule int_mod_pos_eq [where q = h]) (use assms in auto)
  moreover have "(h * 3600 + mi * 60 + s) div 3600 = h"
    by (rule int_div_pos_eq [where r = "mi * 60 + s"]) (use assms in auto)
  ultimately show "(t - days * 86400) mod 60 = s" "(t - days * 86400) div 60 mod 60 = mi" "(t - days * 86400) div 3600 = h"
    unfolding r by simp_all
qed

lemma unix_to_tod_floor:
  "unix_to_tod t m p = (case civil_from_days (t div 86400) of (y, mo, d) \<Rightarrow>
     sigil_write_le16 (m(p := 0, p + 1 := word_of_int ((t - t div 86400 * 86400) mod 60),
       p + 2 := word_of_int ((t - t div 86400 * 86400) div 60 mod 60),
       p + 3 := word_of_int ((t - t div 86400 * 86400) div 3600), p + 4 := word_of_int d, p + 5 := word_of_int mo))
       (p + 6) (word_of_int y))"
  unfolding unix_to_tod_def floor_days Let_def by simp

lemma word_of_ps2_byte [simp]: "word_of_int (ps2_byte m i) = m i"
  by (simp add: ps2_byte_def)

lemma tod_roundtrip:
  assumes v: "valid_tod m t"
  shows "mem_eq (unix_to_tod (tod_to_unix m t) m' p) p m t PS2_TOD_SIZE"
proof -
  define y mo d h mi s where "y = int (unat (sigil_read_le16 m (t + 6)))" and "mo = ps2_byte m (t + 5)"
    and "d = ps2_byte m (t + 4)" and "h = ps2_byte m (t + 3)" and "mi = ps2_byte m (t + 2)" and "s = ps2_byte m (t + 1)"
  have v': "valid_date y mo d" "m t = 0" "s < 60" "mi < 60" "h < 24"
    using v by (simp_all add: valid_tod_def y_def mo_def d_def h_def mi_def s_def)
  have b: "0 \<le> s" "0 \<le> mi" "0 \<le> h" by (simp_all add: s_def mi_def h_def ps2_byte_def)
  have nz: "m (t + 5) \<noteq> 0" "m (t + 4) \<noteq> 0" using v'(1) by (auto simp: valid_date_def mo_def d_def ps2_byte_def)
  have u: "tod_to_unix m t = days_from_civil y mo d * 86400 + h * 3600 + mi * 60 + s"
    using nz by (simp add: tod_to_unix_def y_def mo_def d_def h_def mi_def s_def)
  note ss = seconds_split [OF b(1) v'(3) b(2) v'(4) b(3) v'(5), of "days_from_civil y mo d", folded u]
  have w: "word_of_int y = sigil_read_le16 m (t + 6)" by (simp add: y_def)
  have "unix_to_tod (tod_to_unix m t) m' p = sigil_write_le16 (m'(p := 0, p + 1 := m (t + 1), p + 2 := m (t + 2),
      p + 3 := m (t + 3), p + 4 := m (t + 4), p + 5 := m (t + 5))) (p + 6) (sigil_read_le16 m (t + 6))"
    unfolding unix_to_tod_floor Let_def ss civil_days [OF v'(1)] w prod.case
    by (simp add: mo_def d_def h_def mi_def s_def)
  moreover have "ucast (sigil_read_le16 m (t + 6)) = m (t + 6)" "ucast (drop_bit 8 (sigil_read_le16 m (t + 6))) = m (t + 7)"
    using fun_cong [OF write_read_le16 [of m "t + 6"], of "t + 6"] fun_cong [OF write_read_le16 [of m "t + 6"], of "t + 7"]
    by (simp_all add: mem_simps)
  moreover have "{..<8} = {0, 1, 2, 3, 4, 5, 6, 7 :: nat}" by auto
  ultimately show ?thesis using v'(2) unfolding mem_eq_iff PS2_TOD_SIZE_def
    by (simp add: mem_simps lessThan_iff [symmetric] del: lessThan_iff)
qed

lemma unix_roundtrip:
  assumes "0 \<le> fst (civil_from_days (s div 86400))" "fst (civil_from_days (s div 86400)) < 65536"
  shows "tod_to_unix (unix_to_tod s m p) p = s" "valid_tod (unix_to_tod s m p) p"
proof -
  obtain y mo d where c: "valid_date y mo d" "days_from_civil y mo d = s div 86400" by (rule days_surj)
  have cd: "civil_from_days (s div 86400) = (y, mo, d)" using civil_days [OF c(1)] c(2) by simp
  define r where "r = s mod 86400"
  have r: "s - s div 86400 * 86400 = r" by (simp add: r_def minus_div_mult_eq_mod)
  have rb: "0 \<le> r" "r < 86400" by (simp_all add: r_def)
  have y: "0 \<le> y" "y < 65536" using assms cd by simp_all
  have md: "1 \<le> mo" "mo \<le> 12" "1 \<le> d" "d \<le> 31"
    using c(1) by (auto simp: valid_date_def days_in_month_def split: if_splits)
  define q where "q = unix_to_tod s m p"
  have q: "q = sigil_write_le16 (m(p := 0, p + 1 := word_of_int (r mod 60), p + 2 := word_of_int (r div 60 mod 60),
      p + 3 := word_of_int (r div 3600), p + 4 := word_of_int d, p + 5 := word_of_int mo)) (p + 6) (word_of_int y)"
    by (simp add: q_def unix_to_tod_floor cd r)
  have nb: "int (unat (word_of_int x :: u8)) = x" if "0 \<le> x" "x < 256" for x
    using that by (simp add: unsigned_of_int take_bit_int_eq_self)
  have nw: "int (unat (word_of_int y :: u16)) = y"
    using y by (simp add: unsigned_of_int take_bit_int_eq_self)
  have hb: "0 \<le> r div 3600" "r div 3600 < 24" "0 \<le> r div 60 mod 60" "r div 60 mod 60 < 60" "0 \<le> r mod 60" "r mod 60 < 60"
    using rb by (auto simp: div_int_pos_iff)
  have f: "q p = 0" "ps2_byte q (p + 1) = r mod 60" "ps2_byte q (p + 2) = r div 60 mod 60" "ps2_byte q (p + 3) = r div 3600"
    "ps2_byte q (p + 4) = d" "ps2_byte q (p + 5) = mo" "int (unat (sigil_read_le16 q (p + 6))) = y"
    using md hb nw by (simp_all add: q ps2_byte_def mem_simps nb [simplified])
  show "valid_tod q p" using c(1) hb unfolding valid_tod_def f by simp
  have "r div 3600 = r div 60 div 60" using zdiv_zmult2_eq [of 60 r 60] by simp
  then have "r = r div 3600 * 3600 + r div 60 mod 60 * 60 + r mod 60"
    using div_mult_mod_eq [of r 60] div_mult_mod_eq [of "r div 60" 60] by linarith
  moreover have "q (p + 4) \<noteq> 0" "q (p + 5) \<noteq> 0" using f(5,6) md by (auto simp: ps2_byte_def)
  ultimately show "tod_to_unix q p = s"
    unfolding tod_to_unix_def Let_def f c(2) using r by (simp only: if_True not_False_eq_True c(2))
qed

text \<open>C17 (roundtrip). A valid date of a card converted to Unix seconds and back is the same eight bytes, and
  seconds of a year a card can hold converted to a date, which is then valid, and back are the same
  seconds.\<close>

theorem ps2_date_roundtrip:
  "(valid_tod m t \<longrightarrow> mem_eq (unix_to_tod (tod_to_unix m t) m' p) p m t PS2_TOD_SIZE) \<and>
   (fst (civil_from_days (s div 86400)) \<in> {0..65535} \<longrightarrow>
      valid_tod (unix_to_tod s m' p) p \<and> tod_to_unix (unix_to_tod s m' p) p = s)"
  using tod_roundtrip unix_roundtrip by auto

theorem ps2_date_roundtrip_witness:
  "mem_eq (unix_to_tod (tod_to_unix (mem_of [0, 59, 59, 23, 29, 2, 0xD0, 7]) 0) (\<lambda>_. 0) 24) 24
     (mem_of [0, 59, 59, 23, 29, 2, 0xD0, 7]) 0 PS2_TOD_SIZE \<and> tod_to_unix (unix_to_tod (- 1) (\<lambda>_. 0) 24) 24 = - 1"
proof -
  have b: "mem_of [0, 59, 59, 23, 29, 2, 0xD0, 7] i = [0, 59, 59, 23, 29, 2, 0xD0, 7] ! i" if "i < 8" for i :: nat
    using that by (simp add: mem_of_def)
  have y: "int (unat (sigil_read_le16 (mem_of [0, 59, 59, 23, 29, 2, 0xD0, 7]) 6)) = 2000"
    unfolding unat_read_le16 by (simp add: b)
  have d: "valid_date 2000 2 29" by (simp add: valid_date_def days_in_month_def leap_year_def)
  have "valid_tod (mem_of [0, 59, 59, 23, 29, 2, 0xD0, 7]) 0"
    unfolding valid_tod_def ps2_byte_def add_0 y by (simp add: b d)
  moreover have "civil_from_days (- 1 div 86400) = (1969, 12, 31)" by code_simp
  then have "fst (civil_from_days (- 1 div 86400)) \<in> {0..65535}" by simp
  ultimately show ?thesis
    using ps2_date_roundtrip [of "mem_of [0, 59, 59, 23, 29, 2, 0xD0, 7]" 0 "\<lambda>_. 0" 24 "- 1"] by blast
qed

section \<open>The index is parsed as it was printed\<close>

definition digit :: "nat \<Rightarrow> u8" where "digit k = of_nat (48 + k)"

lemma unat_digit: "k < 10 \<Longrightarrow> unat (digit k) = 48 + k"
  by (simp add: digit_def unat_of_nat8 del: of_nat_add)

lemma uint_digit: "k < 10 \<Longrightarrow> uint (digit k) = 48 + int k"
  using unat_digit [of k] by (metis of_nat_add of_nat_numeral uint_nat)

lemma isdigit_iff: "isdigit c \<longleftrightarrow> 48 \<le> unat c \<and> unat c \<le> 57"
  by (simp add: isdigit_def word_le_nat_alt)

lemma isdigit_digit: "k < 10 \<Longrightarrow> isdigit (digit k)"
  by (simp add: isdigit_iff unat_digit)

lemma nat_dec_rec: "nat_dec n = (if n < 10 then [digit n] else nat_dec (n div 10) @ [digit (n mod 10)])"
  by (simp add: nat_dec.simps [of n] digit_def)

lemma nat_dec_digits: "nat_dec n \<noteq> [] \<and> (\<forall>c \<in> set (nat_dec n). isdigit c) \<and> (fold (\<lambda>c v. v * 10 + int (unat c) - 48) (nat_dec n) 0 = int n)"
proof (induction n rule: less_induct)
  case (less n)
  show ?case
  proof (cases "n < 10")
    case True
    then show ?thesis by (simp add: nat_dec_rec [of n] isdigit_digit unat_digit uint_digit)
  next
    case False
    have "int (n div 10) * 10 + int (n mod 10) = int n" by presburger
    then show ?thesis using less.IH [of "n div 10"] False
      by (auto simp: nat_dec_rec [of n] isdigit_digit unat_digit uint_digit)
  qed
qed

lemma nat_dec_length: "n < 10 ^ k \<Longrightarrow> 0 < k \<Longrightarrow> length (nat_dec n) \<le> k"
proof (induction k arbitrary: n)
  case (Suc k)
  show ?case
  proof (cases "n < 10")
    case True
    then show ?thesis by (simp add: nat_dec_rec [of n])
  next
    case False
    then have "n div 10 < 10 ^ k" "0 < k" using Suc.prems by (cases k; auto)+
    then show ?thesis using Suc.IH False by (simp add: nat_dec_rec [of n])
  qed
qed simp

lemma not_isdigit [simp]: "\<not> isdigit 0x2D" "\<not> isdigit 0x0A" "\<not> isdigit 0x20" "\<not> isdigit 0x27" "\<not> isdigit 0x22" "\<not> isdigit 0x23" "\<not> isdigit 0x09" "\<not> isdigit 0x0D" "\<not> isdigit 0" "\<not> isdigit 0x2B"
  by (simp_all add: isdigit_iff)

lemma digits_value_dec: "digits_value (nat_dec n) = int n"
  using nat_dec_digits [of n] by (simp add: digits_value_def takeWhile_eq_all_conv [THEN iffD2])

text \<open>The characters of a printed number.\<close>

definition numeral_char :: "u8 \<Rightarrow> bool" where "numeral_char c \<longleftrightarrow> isdigit c \<or> c = 0x2D"

lemma int_dec_chars: "int_dec v \<noteq> []" "c \<in> set (int_dec v) \<Longrightarrow> numeral_char c"
  using nat_dec_digits by (auto simp: int_dec_def numeral_char_def split: if_splits)

lemma strtoll_dec:
  assumes "- (2 ^ 63) \<le> v" "v < 2 ^ 63"
  shows "strtoll (int_dec v) = v"
proof -
  obtain c q where n: "nat_dec (nat \<bar>v\<bar>) = c # q" using nat_dec_digits [of "nat \<bar>v\<bar>"] by (cases "nat_dec (nat \<bar>v\<bar>)") auto
  have "isdigit c" using nat_dec_digits [of "nat \<bar>v\<bar>"] n by auto
  then have c: "c \<noteq> 0x2D" "c \<noteq> 0x2B" "c \<noteq> 0x20" "\<not> (0x09 \<le> c \<and> c \<le> 0x0D)" by (auto simp: isdigit_iff word_le_nat_alt)
  have d: "digits_value (c # q) = \<bar>v\<bar>" using digits_value_dec [of "nat \<bar>v\<bar>"] n by simp
  show ?thesis
  proof (cases "v < 0")
    case True
    then have "int_dec v = 0x2D # c # q" using n by (simp add: int_dec_def)
    then show ?thesis using True d assms by (simp add: strtoll_def min_def max_def word_le_nat_alt)
  next
    case False
    then have "int_dec v = c # q" using n by (simp add: int_dec_def)
    then show ?thesis using False c d assms by (auto simp: strtoll_def min_def max_def Let_def)
  qed
qed

lemma int_dec_length: "- (2 ^ 63) \<le> v \<Longrightarrow> v < 2 ^ 63 \<Longrightarrow> length (int_dec v) \<le> 20"
  using nat_dec_length [of "nat v" 19] nat_dec_length [of "nat (- v)" 19] by (auto simp: int_dec_def nat_less_iff)

lemma read_plain_stop:
  assumes "\<forall>c \<in> set s. c \<notin> set stops" "d \<in> set stops" "length out + length s < cap"
  shows "read_plain (s @ d # p) stops out cap = Some (d # p, out @ s)"
  using assms by (induction s arbitrary: out) auto

lemma trim_blanks_id: "s = [] \<or> last s \<notin> {0x20, 0x09, 0x0D} \<Longrightarrow> trim_blanks s = s"
  by (cases s rule: rev_cases) (auto simp: trim_blanks_def)

lemma read_scalar_plain:
  assumes "s \<noteq> []" "hd s \<notin> {0x27, 0x22}" "last s \<notin> {0x20, 0x09, 0x0D}" "\<forall>c \<in> set s. c \<notin> set stops" "d \<in> set stops"
    "length s < cap"
  shows "read_scalar (s @ d # p) stops cap = Some (d # p, s)"
proof -
  obtain a b where s: "s = a # b" using assms(1) by (cases s) auto
  have "read_plain (s @ d # p) stops [] cap = Some (d # p, s)" using read_plain_stop [OF assms(4,5), of "[]" cap p] assms(6) by simp
  then show ?thesis using assms(2) trim_blanks_id [of s] assms(3) by (simp add: read_scalar_def s)
qed

lemma read_single_quoted:
  assumes "length out + length s + 1 < cap" "d \<noteq> 0x27"
  shows "read_single (concat (map (\<lambda>c. if c = 0x27 then [c, 0x27] else [c]) s) @ 0x27 # d # p) out cap = Some (d # p, out @ s)"
  using assms
proof (induction s arbitrary: out)
  case (Cons c s)
  then show ?case
    by (cases "concat (map (\<lambda>c. if c = 0x27 then [c, 0x27] else [c]) s) @ 0x27 # d # p") auto
qed auto

lemma quoted_loop_all:
  assumes "length out + 2 * length s + 1 < cap"
  shows "quoted_loop s cap out = out @ concat (map (\<lambda>c. if c = 0x27 then [c, 0x27] else [c]) s)"
  using assms by (induction s arbitrary: out) auto

lemma quoted_length: "length (concat (map (\<lambda>c. if c = 0x27 then [c, 0x27] else [c :: u8]) s)) \<le> 2 * length s"
  by (induction s) auto

lemma quoted_key_all:
  assumes "length s \<le> 32"
  shows "quoted_key s 67 = 0x27 # concat (map (\<lambda>c. if c = 0x27 then [c, 0x27] else [c]) s) @ [0x27]"
proof -
  have "quoted_loop s 67 [0x27] = [0x27] @ concat (map (\<lambda>c. if c = 0x27 then [c, 0x27] else [c]) s)"
    by (rule quoted_loop_all) (use assms in auto)
  then show ?thesis using quoted_length [of s] assms by (auto simp: quoted_key_def)
qed

text \<open>One line of the index: a key that adds a row, or a field of the row before.\<close>

lemma next_line: "0x0A \<notin> set a \<Longrightarrow> tl (dropWhile (\<lambda>c. c \<noteq> 0x0A) (a @ 0x0A # rest)) = (rest :: bytes)"
  by (induction a) auto

lemma dropWhile_head: "a \<noteq> [] \<Longrightarrow> \<not> P (hd a) \<Longrightarrow> dropWhile P (a @ b) = a @ b"
  by (cases a) auto

definition field_line :: "bytes \<Rightarrow> int \<Rightarrow> bytes" where
  "field_line field v = [0x20, 0x20] @ field @ [0x3A, 0x20] @ int_dec v @ [0x0A]"

lemma parse_field_line:
  assumes f: "field \<noteq> []" "length field < 40" "\<forall>c \<in> set field. 0x40 < c"
    and t: "t \<noteq> []" and v: "- (2 ^ 63) \<le> v" "v < 2 ^ 63"
  shows "parse_block (field_line field v @ rest) t = parse_block rest (index_set_last field v t)"
proof -
  have al: "c \<notin> {0x20, 0x09, 0x0A, 0x0D, 0x23, 0x27, 0x22, 0x3A}" if "0x40 < c" for c :: u8 using that by auto
  have h: "0x40 < hd field" "0x40 < last field" using f(1,3) by simp_all
  define q where "q = int_dec v @ 0x0A # rest"
  have tx: "dropWhile (\<lambda>c. c = 0x20 \<or> c = 0x09) (field_line field v @ rest) = field @ 0x3A # 0x20 # q"
    using dropWhile_head [OF f(1), of "\<lambda>c. c = 0x20 \<or> c = 0x09"] al [OF h(1)] by (simp add: field_line_def q_def)
  have key: "read_scalar (field @ 0x3A # 0x20 # q) [0x3A, 0x0A] (PS2_NAME_LEN + 8) = Some (0x3A # 0x20 # q, field)"
    by (rule read_scalar_plain) (use f al h in \<open>auto simp: PS2_NAME_LEN_def\<close>)
  have n: "int_dec v \<noteq> []" "\<And>c. c \<in> set (int_dec v) \<Longrightarrow> numeral_char c" by (simp_all add: int_dec_chars)
  have nc: "c \<notin> {0x20, 0x09, 0x0A, 0x0D, 0x23, 0x27, 0x22}" if "numeral_char c" for c
    using that by (auto simp: numeral_char_def)
  have sk: "skip_space (0x20 # q) = q"
    using dropWhile_head [OF n(1), of is_blank "0x0A # rest"] nc [OF n(2) [of "hd (int_dec v)"]] n(1)
    by (simp add: skip_space_def is_blank_def q_def)
  have val: "read_scalar q [0x0A] 32 = Some (0x0A # rest, int_dec v)"
    unfolding q_def by (rule read_scalar_plain)
      (use n nc [OF n(2) [of "hd (int_dec v)"]] nc [OF n(2) [of "last (int_dec v)"]] nc int_dec_length [OF v] in auto)
  have len: "length (field @ 0x3A # 0x20 # q) \<noteq> length (field_line field v @ rest)" by (simp add: field_line_def q_def)
  have line: "parse_block_line (field_line field v @ rest) t = Some (index_set_last field v t)"
    using f(1) al [OF h(1)] t
    unfolding parse_block_line_def tx Let_def
    using len by (simp add: key sk val strtoll_dec [OF v])
  have "0x0A \<notin> set ([0x20, 0x20] @ field @ [0x3A, 0x20] @ int_dec v)" using f(3) al n(2) nc by force
  from next_line [OF this, of rest]
  have nl: "tl (dropWhile (\<lambda>c. c \<noteq> 0x0A) (field_line field v @ rest)) = rest" by (simp add: field_line_def)
  have "field_line field v \<noteq> []" by (simp add: field_line_def)
  then show ?thesis using line nl by (subst parse_block.simps) simp
qed

definition key_line :: "bytes \<Rightarrow> bytes" where
  "key_line name = quoted_key name (2 * PS2_NAME_LEN + 3) @ [0x3A, 0x0A]"

lemma parse_key_line:
  assumes n: "length name \<le> 32" "0x0A \<notin> set name"
  shows "parse_block (key_line name @ rest) t = parse_block rest (index_add t name)"
proof -
  define body where "body = concat (map (\<lambda>c. if c = 0x27 then [c, 0x27] else [c :: u8]) name)"
  have k: "key_line name = 0x27 # body @ [0x27, 0x3A, 0x0A]"
    using quoted_key_all [OF n(1)] by (simp add: key_line_def PS2_NAME_LEN_def body_def)
  have "read_single (body @ 0x27 # 0x3A # 0x0A # rest) [] 40 = Some (0x3A # 0x0A # rest, name)"
    using read_single_quoted [of "[]" name 40 "0x3A" "0x0A # rest"] n(1) by (simp add: body_def)
  then have line: "parse_block_line (key_line name @ rest) t = Some (index_add t name)"
    by (simp add: parse_block_line_def k read_scalar_def PS2_NAME_LEN_def)
  have "0x0A \<notin> set (0x27 # body @ [0x27, 0x3A])" using n(2) by (auto simp: body_def split: if_splits)
  from next_line [OF this, of rest]
  have "tl (dropWhile (\<lambda>c. c \<noteq> 0x0A) (key_line name @ rest)) = rest" by (simp add: k)
  then show ?thesis using line by (subst parse_block.simps) (simp add: k)
qed

lemma parse_root_line: "parse_block (str ''$ROOT:'' @ 0x0A # rest) t = parse_block rest (index_add t (str ''$ROOT''))"
proof -
  have s: "str ''$ROOT:'' = str ''$ROOT'' @ [0x3A]" "str ''$ROOT'' = [0x24, 0x52, 0x4F, 0x4F, 0x54]"
    by (simp_all add: str_def of_char_def)
  have "read_scalar (str ''$ROOT'' @ 0x3A # 0x0A # rest) [0x3A, 0x0A] 40 = Some (0x3A # 0x0A # rest, str ''$ROOT'')"
    by (rule read_scalar_plain) (simp_all add: s)
  then have line: "parse_block_line (str ''$ROOT:'' @ 0x0A # rest) t = Some (index_add t (str ''$ROOT''))"
    by (simp add: parse_block_line_def s PS2_NAME_LEN_def)
  have "0x0A \<notin> set (str ''$ROOT:'')" by (simp add: s)
  from next_line [OF this, of rest]
  show ?thesis using line by (subst parse_block.simps) (simp add: s)
qed

text \<open>The whole index: its rows, each with an order and both dates.\<close>

definition row_lines :: "index_row \<Rightarrow> bytes" where
  "row_lines r = key_line (ir_name r) @ field_line (str ''order'') (ir_order r) @
     field_line (str ''timeCreated'') (ir_created r) @ field_line (str ''timeModified'') (ir_modified r)"

definition printable_row :: "index_row \<Rightarrow> bool" where
  "printable_row r \<longleftrightarrow> length (ir_name r) \<le> PS2_NAME_LEN \<and> 0x0A \<notin> set (ir_name r) \<and> ir_has_order r \<and> ir_has_created r \<and>
     ir_has_modified r \<and> (\<forall>v \<in> {ir_order r, ir_created r, ir_modified r}. - (2 ^ 63) \<le> v \<and> v < 2 ^ 63)"

lemma field_names: "str ''order'' = [0x6F, 0x72, 0x64, 0x65, 0x72]"
  "str ''timeCreated'' = [0x74, 0x69, 0x6D, 0x65, 0x43, 0x72, 0x65, 0x61, 0x74, 0x65, 0x64]"
  "str ''timeModified'' = [0x74, 0x69, 0x6D, 0x65, 0x4D, 0x6F, 0x64, 0x69, 0x66, 0x69, 0x65, 0x64]"
  by (simp_all add: str_def of_char_def)

lemma field_names_ok:
  assumes "field \<in> {str ''order'', str ''timeCreated'', str ''timeModified''}"
  shows "field \<noteq> []" "length field < 40" "\<forall>c \<in> set field. 0x40 < c"
  using assms by (auto simp: field_names)

lemma index_set_fields:
  "index_set (str ''order'') v r = r\<lparr>ir_order := v, ir_has_order := True\<rparr>"
  "index_set (str ''timeCreated'') v r = r\<lparr>ir_created := v, ir_has_created := True\<rparr>"
  "index_set (str ''timeModified'') v r = r\<lparr>ir_modified := v, ir_has_modified := True\<rparr>"
  by (simp_all add: index_set_def field_names)

lemma index_add_not_Nil [simp]: "index_add t n \<noteq> []" "index_set_last f v t \<noteq> []"
  by (simp_all add: index_add_def index_set_last_def)

lemma parse_row_lines:
  assumes "printable_row r"
  shows "parse_block (row_lines r @ rest) t = parse_block rest (t @ [r])"
proof -
  have v: "- (2 ^ 63) \<le> ir_order r" "ir_order r < 2 ^ 63" "- (2 ^ 63) \<le> ir_created r" "ir_created r < 2 ^ 63"
    "- (2 ^ 63) \<le> ir_modified r" "ir_modified r < 2 ^ 63"
    and n: "length (ir_name r) \<le> 32" "0x0A \<notin> set (ir_name r)" and h: "ir_has_order r" "ir_has_created r" "ir_has_modified r"
    using assms by (simp_all add: printable_row_def PS2_NAME_LEN_def)
  have "parse_block (row_lines r @ rest) t = parse_block rest (index_set_last (str ''timeModified'') (ir_modified r)
     (index_set_last (str ''timeCreated'') (ir_created r) (index_set_last (str ''order'') (ir_order r) (index_add t (ir_name r)))))"
    unfolding row_lines_def append_assoc
    by (simp only: parse_key_line [OF n] parse_field_line [OF field_names_ok index_add_not_Nil(1) v(1,2)]
        parse_field_line [OF field_names_ok index_add_not_Nil(2) v(3,4)]
        parse_field_line [OF field_names_ok index_add_not_Nil(2) v(5,6)] insert_iff simp_thms)
  also have "\<dots> = parse_block rest (t @ [r])"
    using n(1) h by (cases r) (simp add: index_set_last_def index_add_def butlast_append index_set_fields PS2_NAME_LEN_def)
  finally show ?thesis .
qed

lemma parse_rows: "list_all printable_row rs \<Longrightarrow> parse_block (concat (map row_lines rs)) t = Some (t @ rs)"
proof (induction rs arbitrary: t)
  case Nil
  then show ?case by (simp add: parse_block.simps)
next
  case (Cons r rs)
  then show ?case using parse_row_lines [of r "concat (map row_lines rs)" t] by simp
qed

lemma days_bound:
  assumes "0 \<le> y" "y < 65536" "1 \<le> m" "m < 256" "1 \<le> d" "d < 256"
  shows "\<bar>days_from_civil y m d\<bar> < 100000000"
proof -
  define y' where "y' = (if m \<le> 2 then y - 1 else y)"
  define mi where "mi = (if 2 < m then m - 3 else m + 9)"
  have y': "- 1 \<le> y'" "y' < 65536" using assms by (auto simp: y'_def)
  have mi: "0 \<le> mi" "mi < 253" using assms by (auto simp: mi_def)
  have e: "(if 0 \<le> y' then y' else y' - 399) sdiv 400 = y' div 400" using sdiv_floor [of 400 399 y'] by simp
  have yoe: "y' - y' div 400 * 400 = y' mod 400" by (simp add: minus_div_mult_eq_mod)
  have eq: "days_from_civil y m d = y' div 400 * 146097 + ((y' mod 400) * 365 + y' mod 400 div 4 - y' mod 400 div 100 +
      ((153 * mi + 2) div 5 + d - 1)) - 719468"
    unfolding days_from_civil_def Let_def y'_def [symmetric] mi_def [symmetric] e yoe by simp
  have "0 \<le> y' mod 400" "y' mod 400 < 400" by simp_all
  moreover have "- 1 \<le> y' div 400" "y' div 400 \<le> 164" using y' by (auto intro: zdiv_mono1)
  moreover have "0 \<le> y' mod 400 div 4" "y' mod 400 div 4 \<le> 100" "0 \<le> y' mod 400 div 100" "y' mod 400 div 100 \<le> 4"
    using calculation(1,2) by linarith+
  moreover have "0 \<le> (153 * mi + 2) div 5" "(153 * mi + 2) div 5 \<le> 8000" using mi by linarith+
  ultimately show ?thesis using assms(5,6) unfolding eq abs_less_iff by linarith
qed

lemma tod_bound: "- (2 ^ 63) \<le> tod_to_unix m t" "tod_to_unix m t < 2 ^ 63"
proof -
  have b: "0 \<le> ps2_byte m i" "ps2_byte m i < 256" for i
    using unat_word8_less [of "m i"] unfolding ps2_byte_def by linarith+
  have b1: "1 \<le> ps2_byte m i" if "m i \<noteq> 0" for i
  proof -
    have "unat (m i) \<noteq> 0" using that by (simp add: unat_eq_0)
    then show ?thesis unfolding ps2_byte_def by linarith
  qed
  have "\<bar>days_from_civil (int (unat (sigil_read_le16 m (t + 6)))) (if m (t + 5) \<noteq> 0 then ps2_byte m (t + 5) else 1)
     (if m (t + 4) \<noteq> 0 then ps2_byte m (t + 4) else 1)\<bar> < 100000000"
  proof (rule days_bound)
    show "int (unat (sigil_read_le16 m (t + 6))) < 65536" using unat_word16_less [of "sigil_read_le16 m (t + 6)"] by linarith
  qed (use b b1 in auto)
  then show "- (2 ^ 63) \<le> tod_to_unix m t" "tod_to_unix m t < 2 ^ 63"
    using b [of "t + 3"] b [of "t + 2"] b [of "t + 1"] unfolding tod_to_unix_def Let_def abs_less_iff by simp_all
qed

section \<open>A save written as a folder\<close>

text \<open>The saves the folder form keeps whole: entries of 512 bytes with their names padded with zeros, a
  folder entry whose count is that of the files, and lengths that say how long the data is; and names a
  folder can hold, apart from each other and from those PCSX2 keeps for itself. A save lifted off a card
  may fall outside: its folder entry counts deleted files too, and a name may have bytes after its end.\<close>

definition padded_name :: "bytes \<Rightarrow> bool" where
  "padded_name e \<longleftrightarrow> list_all (\<lambda>i. mem_of e (PS2_ENTRY_NAME + i) = 0) [length (entry_name e)..<PS2_NAME_LEN]"

definition ps2_save_ok :: "sigil_ps2_save \<Rightarrow> bool" where
  "ps2_save_ok save \<longleftrightarrow> length (p2s_entry save) = PS2_ENTRY_SIZE \<and> padded_name (p2s_entry save) \<and>
     length (p2s_files save) + 2 < 2 ^ 32 \<and>
     sigil_read_le32 (mem_of (p2s_entry save)) PS2_ENTRY_LENGTH = of_nat (length (p2s_files save) + 2) \<and>
     (\<forall>f \<in> set (p2s_files save). length (p2f_entry f) = PS2_ENTRY_SIZE \<and> padded_name (p2f_entry f) \<and>
        length (p2f_data f) = ps2_file_length f)"

definition ps2_folder_names :: "sigil_ps2_save \<Rightarrow> bool" where
  "ps2_folder_names save \<longleftrightarrow> plain_name (entry_name (p2s_entry save)) \<and>
     distinct (map (\<lambda>f. entry_name (p2f_entry f)) (p2s_files save)) \<and>
     (\<forall>f \<in> set (p2s_files save). plain_name (entry_name (p2f_entry f)) \<and>
        take (length PCSX2_PREFIX) (entry_name (p2f_entry f)) \<noteq> PCSX2_PREFIX \<and>
        entry_name (p2f_entry f) \<noteq> str ''$ROOT'' \<and> 0x0A \<notin> set (entry_name (p2f_entry f)))"

text \<open>What the folder of a save holds.\<close>

definition meta_file :: "bytes \<Rightarrow> u16 \<Rightarrow> bytes \<Rightarrow> sigil_ps2_folder_file list" where
  "meta_file entry mode path = (if rebuilds_without_meta entry mode then [] else [\<lparr>ff_path = path, ff_data = entry\<rparr>])"

definition file_items :: "sigil_ps2_file \<Rightarrow> sigil_ps2_folder_file list" where
  "file_items f = \<lparr>ff_path = entry_name (p2f_entry f), ff_data = take (ps2_file_length f) (p2f_data f)\<rparr> #
     meta_file (p2f_entry f) PCSX2_FILE_MODE (PCSX2_META_PREFIX @ entry_name (p2f_entry f))"

definition file_row :: "nat \<times> sigil_ps2_file \<Rightarrow> index_row" where
  "file_row = (\<lambda>(i, f). \<lparr>ir_name = entry_name (p2f_entry f), ir_order = int (i + 1), ir_created = entry_created (p2f_entry f),
     ir_modified = entry_modified (p2f_entry f), ir_has_order = True, ir_has_created = True, ir_has_modified = True\<rparr>)"

definition root_lines :: "bytes \<Rightarrow> bytes" where
  "root_lines e = str ''$ROOT:'' @ [0x0A] @ field_line (str ''timeCreated'') (entry_created e) @
     field_line (str ''timeModified'') (entry_modified e)"

definition folder_files :: "sigil_ps2_save \<Rightarrow> sigil_ps2_folder_file list" where
  "folder_files save = concat (map file_items (p2s_files save)) @ meta_file (p2s_entry save) PCSX2_DIR_MODE PCSX2_META_DIR @
     [\<lparr>ff_path = PCSX2_INDEX, ff_data = root_lines (p2s_entry save) @
        concat (map (row_lines \<circ> file_row) (zip [0..<length (p2s_files save)] (p2s_files save)))\<rparr>]"

lemma str_pieces: "str '':'' = [0x3A]" "str ''  order: '' = [0x20, 0x20] @ str ''order'' @ [0x3A, 0x20]"
  "str ''  timeCreated: '' = [0x20, 0x20] @ str ''timeCreated'' @ [0x3A, 0x20]"
  "str ''  timeModified: '' = [0x20, 0x20] @ str ''timeModified'' @ [0x3A, 0x20]"
  by (simp_all add: str_def of_char_def)

lemma path_lengths: "length PCSX2_META_PREFIX = 12" "length PCSX2_META_DIR = 21" "length PCSX2_INDEX = 12"
  "length PCSX2_PREFIX = 7" "length (str ''$ROOT:'') = 6" "length (str ''order'') = 5" "length (str ''timeCreated'') = 11"
  "length (str ''timeModified'') = 12"
  by (simp_all add: PCSX2_META_PREFIX_def PCSX2_META_DIR_def PCSX2_INDEX_def PCSX2_PREFIX_def str_def)

lemma entry_name_length: "length (entry_name e) \<le> 32"
  using length_takeWhile_le [of "\<lambda>b. b \<noteq> 0" "bytes_at (mem_of e) PS2_ENTRY_NAME PS2_NAME_LEN"]
  by (simp add: entry_name_def cstr_def PS2_NAME_LEN_def)

lemma times_text_lines: "times_text c m = field_line (str ''timeCreated'') c @ field_line (str ''timeModified'') m"
  by (simp add: times_text_def field_line_def str_pieces)

lemma entry_times: "- (2 ^ 63) \<le> entry_created e" "entry_created e < 2 ^ 63" "- (2 ^ 63) \<le> entry_modified e" "entry_modified e < 2 ^ 63"
  by (simp_all only: entry_created_def entry_modified_def tod_bound)

lemma field_line_length: "- (2 ^ 63) \<le> v \<Longrightarrow> v < 2 ^ 63 \<Longrightarrow> length (field_line f v) \<le> length f + 25"
  using int_dec_length [of v] by (simp add: field_line_def)

lemma key_line_length: "length (key_line (entry_name e)) \<le> 68"
  using quoted_length [of "entry_name e"] entry_name_length [of e]
  by (simp add: key_line_def PS2_NAME_LEN_def quoted_key_all)

lemma row_lines_length:
  assumes "i < 2 ^ 32"
  shows "length (row_lines (file_row (i, f))) < 256"
proof -
  have o: "- (2 ^ 63) \<le> int (i + 1)" "int (i + 1) < 2 ^ 63" using assms by simp_all
  show ?thesis
    using field_line_length [OF o, of "str ''order''"] key_line_length [of "p2f_entry f"]
      field_line_length [OF entry_times(1,2), of "str ''timeCreated''" "p2f_entry f"]
      field_line_length [OF entry_times(3,4), of "str ''timeModified''" "p2f_entry f"]
    by (simp add: row_lines_def file_row_def path_lengths)
qed

lemma unpack_file:
  assumes "i < 2 ^ 32" "plain_name (entry_name (p2f_entry f))" "take (length PCSX2_PREFIX) (entry_name (p2f_entry f)) \<noteq> PCSX2_PREFIX"
  shows "ps2_unpack_file (i, f) (Inr (files, Some ls)) = Inr (files @ file_items f, Some (ls @ row_lines (file_row (i, f))))"
proof -
  have p: "length (entry_name (p2f_entry f)) < 96" "length (PCSX2_META_PREFIX @ entry_name (p2f_entry f)) < 95"
    using entry_name_length [of "p2f_entry f"] by (simp_all add: path_lengths)
  have int_dec_nat: "nat_dec (i + 1) = int_dec (int (i + 1))" by (simp add: int_dec_def del: of_nat_add of_nat_Suc)
  have line: "quoted_key (entry_name (p2f_entry f)) (2 * PS2_NAME_LEN + 3) @ str '':'' @ [0x0A] @ str ''  order: '' @
      nat_dec (i + 1) @ [0x0A] @ times_text (entry_created (p2f_entry f)) (entry_modified (p2f_entry f)) =
      row_lines (file_row (i, f))"
    unfolding int_dec_nat times_text_lines row_lines_def file_row_def key_line_def str_pieces by (simp add: field_line_def)
  show ?thesis
    unfolding ps2_unpack_file_def prod.case sum.case Let_def line
    using assms p row_lines_length [OF assms(1), of f]
    by (simp add: add_folder_file_def PS2_FOLDER_PATH_MAX_def text_add_def file_items_def meta_file_def)
qed

lemma unpack_fold:
  assumes "\<forall>(i, f) \<in> set xs. i < 2 ^ 32 \<and> plain_name (entry_name (p2f_entry f)) \<and>
      take (length PCSX2_PREFIX) (entry_name (p2f_entry f)) \<noteq> PCSX2_PREFIX"
  shows "fold ps2_unpack_file xs (Inr (files, Some ls)) =
     Inr (files @ concat (map (file_items \<circ> snd) xs), Some (ls @ concat (map (row_lines \<circ> file_row) xs)))"
  using assms
proof (induction xs arbitrary: files ls)
  case (Cons x xs)
  obtain i f where x: "x = (i, f)" by (cases x)
  show ?case using Cons unpack_file [of i f files ls] by (simp add: x del: One_nat_def)
qed simp

lemma unpack_folder:
  assumes "ps2_save_ok save" "ps2_folder_names save"
  shows "sigil_ps2_unpack save = Inr (folder_files save)"
proof -
  define xs where "xs = zip [0..<length (p2s_files save)] (p2s_files save)"
  have n: "length (p2s_files save) < 2 ^ 32" using assms(1) by (simp add: ps2_save_ok_def)
  have xs: "\<forall>(i, f) \<in> set xs. i < 2 ^ 32 \<and> plain_name (entry_name (p2f_entry f)) \<and>
      take (length PCSX2_PREFIX) (entry_name (p2f_entry f)) \<noteq> PCSX2_PREFIX"
    using n assms(2) by (auto simp: xs_def ps2_folder_names_def dest: set_zip_leftD set_zip_rightD)
  have snds: "map (file_items \<circ> snd) xs = map file_items (p2s_files save)"
    by (simp add: xs_def flip: map_map)
  have "length (root_lines (p2s_entry save)) < 256"
    using field_line_length [OF entry_times(1,2), of "str ''timeCreated''" "p2s_entry save"]
      field_line_length [OF entry_times(3,4), of "str ''timeModified''" "p2s_entry save"]
    by (simp add: root_lines_def path_lengths)
  then have ix: "text_add (Some []) (str ''$ROOT:'' @ [0x0A] @ times_text (entry_created (p2s_entry save)) (entry_modified (p2s_entry save)))
     = Some (root_lines (p2s_entry save))"
    by (simp add: text_add_def root_lines_def times_text_lines)
  show ?thesis
    unfolding sigil_ps2_unpack_def Let_def ix xs_def [symmetric] unpack_fold [OF xs] snds
    by (simp add: add_folder_file_def PS2_FOLDER_PATH_MAX_def meta_file_def folder_files_def path_lengths xs_def)
qed

text \<open>An entry rebuilt from the folder is the one it was printed from, its place on the card aside: the
  cluster it starts at and its index in the parent.\<close>

definition ps2_placeless :: "bytes \<Rightarrow> bytes" where
  "ps2_placeless e = bytes_at (memset (mem_of e) PS2_ENTRY_CLUSTER 0 8) 0 PS2_ENTRY_SIZE"

definition meta_of :: "bytes \<Rightarrow> u16 \<Rightarrow> bytes \<Rightarrow> sigil_ps2_folder_file option" where
  "meta_of e mode path = (if rebuilds_without_meta e mode then None else Some \<lparr>ff_path = path, ff_data = e\<rparr>)"

lemma padded_nameD: "padded_name e \<Longrightarrow> length (entry_name e) \<le> i \<Longrightarrow> i < 32 \<Longrightarrow> mem_of e (0x40 + i) = 0"
  by (simp add: padded_name_def PS2_ENTRY_NAME_def PS2_NAME_LEN_def list_all_iff)

lemma entry_name_nth: "i < length (entry_name e) \<Longrightarrow> entry_name e ! i = mem_of e (0x40 + i)"
proof -
  assume i: "i < length (entry_name e)"
  have "entry_name e ! i = bytes_at (mem_of e) PS2_ENTRY_NAME PS2_NAME_LEN ! i"
    using i unfolding entry_name_def cstr_def by (rule takeWhile_nth)
  moreover have "i < 32" using i entry_name_length [of e] by simp
  ultimately show ?thesis by (simp add: PS2_NAME_LEN_def PS2_ENTRY_NAME_def)
qed

lemma unix_to_tod_outside: "i < p \<or> p + 8 \<le> i \<Longrightarrow> unix_to_tod t m p i = m i"
  unfolding unix_to_tod_floor by (auto simp: mem_simps split: prod.splits)

lemma default_entry_name:
  "0x40 \<le> i \<Longrightarrow> default_entry mode name c m i = (if i < 0x40 + length name then name ! (i - 0x40) else 0)"
  by (auto simp: default_entry_def Let_def unix_to_tod_outside mem_simps ps2_consts mem_of_def)

lemma entry_from_meta_bytes:
  assumes e: "length e = PS2_ENTRY_SIZE" "padded_name e" and i: "i < PS2_ENTRY_SIZE" "\<not> (4 \<le> i \<and> i < 8)" "\<not> (16 \<le> i \<and> i < 24)"
  shows "entry_from_meta (meta_of e mode path) (entry_name e) mode (entry_created e) (entry_modified e) i = mem_of e i"
proof (cases "0x40 \<le> i \<and> i < 0x40 + PS2_NAME_LEN")
  case True
  then have "entry_from_meta (meta_of e mode path) (entry_name e) mode (entry_created e) (entry_modified e) i =
      (if i - 0x40 < length (entry_name e) then entry_name e ! (i - 0x40) else 0)"
    by (auto simp: entry_from_meta_def Let_def mem_simps PS2_ENTRY_NAME_def mem_of_def)
  then show ?thesis using True padded_nameD [OF e(2), of "i - 0x40"] entry_name_nth [of "i - 0x40" e]
    by (auto simp: PS2_NAME_LEN_def)
next
  case False
  have n: "length (entry_name e) \<le> 32" by (rule entry_name_length)
  show ?thesis
  proof (cases "rebuilds_without_meta e mode")
    case True
    then have "default_entry mode (entry_name e) (entry_created e) (entry_modified e) i =
        memset (memset (mem_of e) PS2_ENTRY_LENGTH 0 4) PS2_ENTRY_CLUSTER 0 8 i"
      using i(1) by (simp add: rebuilds_without_meta_def entry_created_def entry_modified_def mem_eq_iff)
    then show ?thesis using True False i n
      by (auto simp: entry_from_meta_def meta_of_def mem_simps ps2_consts)
  next
    case no: False
    then show ?thesis using False i e n
      by (auto simp: entry_from_meta_def meta_of_def mem_simps ps2_consts)
  qed
qed

lemma pack_entry:
  assumes e: "length e = PS2_ENTRY_SIZE" "padded_name e" and l: "sigil_read_le32 (mem_of e) PS2_ENTRY_LENGTH = len"
    and r: "r = sigil_write_le32 (entry_from_meta (meta_of e mode path) (entry_name e) mode (entry_created e) (entry_modified e))
        PS2_ENTRY_LENGTH len"
  shows "ps2_placeless (bytes_at r 0 PS2_ENTRY_SIZE) = ps2_placeless e"
    "bytes_at (sigil_write_le32 (sigil_write_le32 r PS2_ENTRY_CLUSTER 0) PS2_ENTRY_PARENT_INDEX 0) 0 PS2_ENTRY_SIZE = ps2_placeless e"
proof -
  have rl: "r i = mem_of e i" if "i < PS2_ENTRY_SIZE" "\<not> (16 \<le> i \<and> i < 24)" for i
  proof (cases "4 \<le> i \<and> i < 8")
    case True
    then have "i = 4 \<or> i = 5 \<or> i = 6 \<or> i = 7" by auto
    then show ?thesis
      using read_le32_bytes [of "mem_of e" 4] l by (auto simp: r mem_simps PS2_ENTRY_LENGTH_def)
  next
    case False
    then show ?thesis using entry_from_meta_bytes [OF e that(1) False that(2), of mode path]
      by (auto simp: r mem_simps PS2_ENTRY_LENGTH_def)
  qed
  show "ps2_placeless (bytes_at r 0 PS2_ENTRY_SIZE) = ps2_placeless e"
    unfolding ps2_placeless_def by (rule bytes_at_cong) (use rl in \<open>auto simp: mem_simps ps2_consts mem_of_def\<close>)
  show "bytes_at (sigil_write_le32 (sigil_write_le32 r PS2_ENTRY_CLUSTER 0) PS2_ENTRY_PARENT_INDEX 0) 0 PS2_ENTRY_SIZE = ps2_placeless e"
    unfolding ps2_placeless_def by (rule bytes_at_cong) (use rl in \<open>auto simp: mem_simps ps2_consts\<close>)
qed

text \<open>The index is read back as the rows it was printed from.\<close>

definition root_row :: "bytes \<Rightarrow> index_row" where
  "root_row e = \<lparr>ir_name = str ''$ROOT'', ir_order = 0, ir_created = entry_created e, ir_modified = entry_modified e,
     ir_has_order = False, ir_has_created = True, ir_has_modified = True\<rparr>"

lemma parse_root_lines: "parse_block (root_lines e @ rest) [] = parse_block rest [root_row e]"
proof -
  have "parse_block (root_lines e @ rest) [] = parse_block rest (index_set_last (str ''timeModified'') (entry_modified e)
     (index_set_last (str ''timeCreated'') (entry_created e) (index_add [] (str ''$ROOT''))))"
    unfolding root_lines_def append_assoc append_Cons append_Nil
    by (simp only: parse_root_line parse_field_line [OF field_names_ok index_add_not_Nil(1) entry_times(1,2)]
        parse_field_line [OF field_names_ok index_add_not_Nil(2) entry_times(3,4)] insert_iff simp_thms)
  moreover have "length (str ''$ROOT'') = 5" by (simp add: str_def)
  ultimately show ?thesis by (simp add: index_set_last_def index_add_def index_set_fields root_row_def PS2_NAME_LEN_def)
qed

lemma cstr_id: "0 \<notin> set s \<Longrightarrow> cstr s = s"
  by (auto simp: cstr_def takeWhile_eq_all_conv)

lemma nonzero_texts: "0 \<notin> set (int_dec v)" "0 \<notin> set (entry_name e)"
  "field \<in> {str ''order'', str ''timeCreated'', str ''timeModified''} \<Longrightarrow> 0 \<notin> set (field_line field v)"
  "0 \<notin> set (key_line (entry_name e))"
proof -
  show i: "0 \<notin> set (int_dec v)" for v using int_dec_chars(2) [of 0 v] by (auto simp: numeral_char_def)
  show n: "0 \<notin> set (entry_name e)" by (auto simp: entry_name_def cstr_def dest: set_takeWhileD)
  show "0 \<notin> set (field_line field v)" if "field \<in> {str ''order'', str ''timeCreated'', str ''timeModified''}"
    using i that field_names_ok(3) [OF that] by (auto simp: field_line_def)
  show "0 \<notin> set (key_line (entry_name e))"
    using n entry_name_length [of e] by (auto simp: key_line_def PS2_NAME_LEN_def quoted_key_all split: if_splits)
qed

lemma parse_folder_index:
  assumes "\<forall>(i, f) \<in> set xs. i < 2 ^ 32 \<and> 0x0A \<notin> set (entry_name (p2f_entry f))"
  shows "parse_index (root_lines e @ concat (map (row_lines \<circ> file_row) xs)) = Some (root_row e # map file_row xs)"
proof -
  have z: "0 \<notin> set (root_lines e @ concat (map (row_lines \<circ> file_row) xs))"
    using nonzero_texts(3) nonzero_texts(4) by (auto simp: root_lines_def row_lines_def file_row_def str_def of_char_def)
  have "list_all printable_row (map file_row xs)"
    using assms entry_name_length entry_times
    by (fastforce simp: list_all_iff printable_row_def file_row_def PS2_NAME_LEN_def)
  then have "parse_block (root_lines e @ concat (map row_lines (map file_row xs))) [] = Some (root_row e # map file_row xs)"
    by (simp only: parse_root_lines parse_rows append_Cons append_Nil)
  then have "parse_block (root_lines e @ concat (map (row_lines \<circ> file_row) xs)) [] = Some (root_row e # map file_row xs)"
    unfolding map_map .
  moreover have "skip_space (root_lines e @ rest) = root_lines e @ rest" "hd (root_lines e @ rest) = 0x24" "root_lines e \<noteq> []" for rest
    by (simp_all add: root_lines_def str_def of_char_def skip_space_def is_blank_def)
  ultimately show ?thesis unfolding parse_index_def cstr_id [OF z] Let_def by simp
qed

lemma find_unique:
  assumes "x \<in> set xs" "P x" "\<And>y. y \<in> set xs \<Longrightarrow> P y \<Longrightarrow> y = x"
  shows "find P xs = Some x"
  using assms
proof (induction xs)
  case (Cons a xs)
  show ?case
  proof (cases "P a")
    case True
    then have "a = x" using Cons.prems(3) [of a] by simp
    with True show ?thesis by simp
  next
    case False
    then have "x \<in> set xs" using Cons.prems(1,2) by auto
    then have "find P xs = Some x"
    proof (rule Cons.IH [OF _ Cons.prems(2)])
      fix y assume "y \<in> set xs" "P y"
      then show "y = x" by (intro Cons.prems(3)) simp_all
    qed
    with False show ?thesis by simp
  qed
qed simp

lemma find_no: "(\<And>y. y \<in> set xs \<Longrightarrow> \<not> P y) \<Longrightarrow> find P xs = None"
  by (induction xs) auto

lemma path_prefixes: "take 7 (PCSX2_META_PREFIX @ n) = PCSX2_PREFIX" "take 7 PCSX2_META_DIR = PCSX2_PREFIX"
  "take 7 PCSX2_INDEX = PCSX2_PREFIX" "PCSX2_META_DIR \<noteq> PCSX2_INDEX" "PCSX2_META_PREFIX @ n \<noteq> PCSX2_META_DIR"
  "PCSX2_META_PREFIX @ n \<noteq> PCSX2_INDEX"
proof -
  have s: "PCSX2_META_PREFIX = [0x5F, 0x70, 0x63, 0x73, 0x78, 0x32, 0x5F, 0x6D, 0x65, 0x74, 0x61, 0x2F]"
    "PCSX2_META_DIR = [0x5F, 0x70, 0x63, 0x73, 0x78, 0x32, 0x5F, 0x6D, 0x65, 0x74, 0x61, 0x5F, 0x64, 0x69, 0x72, 0x65, 0x63, 0x74, 0x6F, 0x72, 0x79]"
    "PCSX2_INDEX = [0x5F, 0x70, 0x63, 0x73, 0x78, 0x32, 0x5F, 0x69, 0x6E, 0x64, 0x65, 0x78]"
    "PCSX2_PREFIX = [0x5F, 0x70, 0x63, 0x73, 0x78, 0x32, 0x5F]"
    by (simp_all add: PCSX2_META_PREFIX_def PCSX2_META_DIR_def PCSX2_INDEX_def PCSX2_PREFIX_def str_def of_char_def)
  show "take 7 (PCSX2_META_PREFIX @ n) = PCSX2_PREFIX" "take 7 PCSX2_META_DIR = PCSX2_PREFIX"
    "take 7 PCSX2_INDEX = PCSX2_PREFIX" "PCSX2_META_DIR \<noteq> PCSX2_INDEX" "PCSX2_META_PREFIX @ n \<noteq> PCSX2_META_DIR"
    "PCSX2_META_PREFIX @ n \<noteq> PCSX2_INDEX" by (simp_all add: s)
qed

text \<open>The files found in a folder: the index, the metadata of the folder and of each file.\<close>

lemma set_folder_files:
  "y \<in> set (folder_files save) \<longleftrightarrow> (\<exists>f \<in> set (p2s_files save). y \<in> set (file_items f)) \<or>
     y \<in> set (meta_file (p2s_entry save) PCSX2_DIR_MODE PCSX2_META_DIR) \<or>
     y = \<lparr>ff_path = PCSX2_INDEX, ff_data = root_lines (p2s_entry save) @
        concat (map (row_lines \<circ> file_row) (zip [0..<length (p2s_files save)] (p2s_files save)))\<rparr>"
  by (auto simp: folder_files_def)

lemma folder_paths:
  assumes "ps2_folder_names save" "f \<in> set (p2s_files save)" "y \<in> set (file_items f)"
  shows "ff_path y = entry_name (p2f_entry f) \<and> take 7 (ff_path y) \<noteq> PCSX2_PREFIX \<or>
    ff_path y = PCSX2_META_PREFIX @ entry_name (p2f_entry f) \<and> y \<in> set (meta_file (p2f_entry f) PCSX2_FILE_MODE (ff_path y))"
  using assms by (auto simp: file_items_def meta_file_def ps2_folder_names_def path_lengths)

lemma find_index:
  assumes "ps2_folder_names save"
  shows "find_folder_file (folder_files save) PCSX2_INDEX = Some \<lparr>ff_path = PCSX2_INDEX, ff_data = root_lines (p2s_entry save) @
        concat (map (row_lines \<circ> file_row) (zip [0..<length (p2s_files save)] (p2s_files save)))\<rparr>"
  unfolding find_folder_file_def
  using folder_paths [OF assms] path_prefixes
  by (intro find_unique) (auto simp: set_folder_files meta_file_def split: if_splits, metis+)

lemma find_dir_meta:
  assumes "ps2_folder_names save"
  shows "find_folder_file (folder_files save) PCSX2_META_DIR = meta_of (p2s_entry save) PCSX2_DIR_MODE PCSX2_META_DIR"
proof (cases "rebuilds_without_meta (p2s_entry save) PCSX2_DIR_MODE")
  case True
  then show ?thesis unfolding find_folder_file_def meta_of_def
    using folder_paths [OF assms] path_prefixes
    by (simp, intro find_no) (auto simp: set_folder_files meta_file_def split: if_splits, metis+)
next
  case False
  then show ?thesis unfolding find_folder_file_def meta_of_def
    using folder_paths [OF assms] path_prefixes
    by (simp, intro find_unique) (auto simp: set_folder_files meta_file_def split: if_splits, metis+)
qed

lemma find_file_meta:
  assumes n: "ps2_folder_names save" and f: "f \<in> set (p2s_files save)"
  shows "find_folder_file (folder_files save) (PCSX2_META_PREFIX @ entry_name (p2f_entry f)) =
    meta_of (p2f_entry f) PCSX2_FILE_MODE (PCSX2_META_PREFIX @ entry_name (p2f_entry f))"
proof -
  let ?p = "PCSX2_META_PREFIX @ entry_name (p2f_entry f)"
  have d: "g = f" if "g \<in> set (p2s_files save)" "entry_name (p2f_entry g) = entry_name (p2f_entry f)" for g
    using n f that by (auto simp: ps2_folder_names_def distinct_map inj_on_def)
  have u: "y \<in> set (meta_file (p2f_entry f) PCSX2_FILE_MODE ?p)" if y: "y \<in> set (folder_files save)" "ff_path y = ?p" for y
  proof -
    have "ff_path y \<noteq> PCSX2_META_DIR" "ff_path y \<noteq> PCSX2_INDEX" using y(2) path_prefixes by simp_all
    then have "y \<notin> set (meta_file (p2s_entry save) PCSX2_DIR_MODE PCSX2_META_DIR)" "\<And>d. y \<noteq> \<lparr>ff_path = PCSX2_INDEX, ff_data = d\<rparr>"
      by (auto simp: meta_file_def)
    then obtain g where g: "g \<in> set (p2s_files save)" "y \<in> set (file_items g)"
      using y(1) unfolding set_folder_files by blast
    have "take 7 (ff_path y) = PCSX2_PREFIX" using y(2) path_prefixes by simp
    then have p: "ff_path y = PCSX2_META_PREFIX @ entry_name (p2f_entry g)"
      and m: "y \<in> set (meta_file (p2f_entry g) PCSX2_FILE_MODE (ff_path y))" using folder_paths [OF n g] by auto
    have "entry_name (p2f_entry g) = entry_name (p2f_entry f)" using trans [OF p [symmetric] y(2)] by simp
    then have "g = f" by (rule d [OF g(1)])
    then show ?thesis using m y(2) by metis
  qed
  have i: "y \<in> set (folder_files save)" if "y \<in> set (meta_file (p2f_entry f) PCSX2_FILE_MODE ?p)" for y
    using that f by (auto simp: set_folder_files file_items_def)
  show ?thesis
  proof (cases "rebuilds_without_meta (p2f_entry f) PCSX2_FILE_MODE")
    case True
    have "find (\<lambda>y. ff_path y = ?p) (folder_files save) = None"
    proof (rule find_no)
      fix y assume "y \<in> set (folder_files save)"
      then show "ff_path y \<noteq> ?p" using u [of y] True unfolding meta_file_def by auto
    qed
    then show ?thesis by (simp add: find_folder_file_def meta_of_def True)
  next
    case False
    have m: "meta_file (p2f_entry f) PCSX2_FILE_MODE ?p = [\<lparr>ff_path = ?p, ff_data = p2f_entry f\<rparr>]"
      using False by (simp add: meta_file_def)
    have "find (\<lambda>y. ff_path y = ?p) (folder_files save) = Some \<lparr>ff_path = ?p, ff_data = p2f_entry f\<rparr>"
    proof (rule find_unique)
      show "\<lparr>ff_path = ?p, ff_data = p2f_entry f\<rparr> \<in> set (folder_files save)" by (rule i) (simp add: m)
      fix y assume "y \<in> set (folder_files save)" "ff_path y = ?p"
      then have "y \<in> set (meta_file (p2f_entry f) PCSX2_FILE_MODE ?p)" by (rule u)
      then show "y = \<lparr>ff_path = ?p, ff_data = p2f_entry f\<rparr>" by (simp add: m)
    qed simp
    then show ?thesis by (simp add: find_folder_file_def meta_of_def False)
  qed
qed

text \<open>Collecting the files of the folder: each with the order its row gives, and no other.\<close>

definition file_item :: "nat \<times> sigil_ps2_file \<Rightarrow> pack_item" where
  "file_item = (\<lambda>(i, f). \<lparr>pi_file = \<lparr>ff_path = entry_name (p2f_entry f), ff_data = take (ps2_file_length f) (p2f_data f)\<rparr>,
     pi_order = int (i + 1)\<rparr>)"

lemma pack_collect_skip:
  "take 7 (ff_path y) = PCSX2_PREFIX \<Longrightarrow> pack_collect index y (Some r) = Some r"
  by (cases r) (simp add: pack_collect_def path_lengths)

lemma pack_collect_fold:
  assumes "\<forall>(i, f) \<in> set xs. plain_name (entry_name (p2f_entry f)) \<and> take 7 (entry_name (p2f_entry f)) \<noteq> PCSX2_PREFIX \<and>
      index_find index (entry_name (p2f_entry f)) = Some (file_row (i, f))"
  shows "fold (pack_collect index) (concat (map (file_items \<circ> snd) xs)) (Some (items, legacy)) =
    Some (items @ map file_item xs, legacy)"
  using assms
proof (induction xs arbitrary: items)
  case (Cons x xs)
  obtain i f where x: "x = (i, f)" by (cases x)
  have f: "plain_name (entry_name (p2f_entry f))" "take 7 (entry_name (p2f_entry f)) \<noteq> PCSX2_PREFIX"
    "index_find index (entry_name (p2f_entry f)) = Some (file_row (i, f))" using Cons.prems by (auto simp: x)
  have "fold (pack_collect index) (meta_file (p2f_entry f) PCSX2_FILE_MODE (PCSX2_META_PREFIX @ entry_name (p2f_entry f))) (Some r) =
      Some r" for r
    using pack_collect_skip path_prefixes(1) by (simp add: meta_file_def)
  moreover have "pack_collect index \<lparr>ff_path = entry_name (p2f_entry f), ff_data = take (ps2_file_length f) (p2f_data f)\<rparr>
      (Some (items, legacy)) = Some (items @ [file_item (i, f)], legacy)"
    using f entry_name_length [of "p2f_entry f"]
    by (simp add: pack_collect_def path_lengths PS2_NAME_LEN_def file_row_def file_item_def)
  ultimately have "fold (pack_collect index) (file_items f) (Some (items, legacy)) = Some (items @ [file_item (i, f)], legacy)"
    by (simp add: file_items_def)
  then show ?case using Cons by (simp add: x)
qed simp

lemma find_row:
  assumes "distinct (map (ir_name \<circ> file_row) xs)" "x \<in> set xs"
  shows "index_find (map file_row xs) (ir_name (file_row x)) = Some (file_row x)"
  unfolding index_find_def
proof (rule find_unique)
  show "file_row x \<in> set (map file_row xs)" using assms(2) by simp
  fix y assume "y \<in> set (map file_row xs)" "ir_name y = ir_name (file_row x)"
  then obtain z where z: "z \<in> set xs" "y = file_row z" "ir_name (file_row z) = ir_name (file_row x)" by auto
  have "inj_on (ir_name \<circ> file_row) (set xs)" using assms(1) by (simp add: distinct_map)
  then have "z = x" using z(1,3) assms(2) by (auto simp: inj_on_def)
  then show "y = file_row x" using z by simp
qed simp

lemma pack_folder:
  assumes ok: "ps2_save_ok save" and n: "ps2_folder_names save"
  shows "\<exists>save'. sigil_ps2_pack (entry_name (p2s_entry save)) (folder_files save) = Inr save' \<and>
     ps2_placeless (p2s_entry save') = ps2_placeless (p2s_entry save) \<and>
     p2s_self save' = ps2_bare_entry (str ''.'') \<and> p2s_parent save' = ps2_bare_entry (str ''..'') \<and>
     p2s_files save' = map (\<lambda>f. f\<lparr>p2f_entry := ps2_placeless (p2f_entry f)\<rparr>) (p2s_files save)"
proof -
  define fs where "fs = p2s_files save"
  define xs where "xs = zip [0..<length fs] fs"
  define index where "index = root_row (p2s_entry save) # map file_row xs"
  have snd_xs: "map snd xs = fs" by (simp add: xs_def)
  have inxs: "i < length fs" "f \<in> set fs" if "(i, f) \<in> set xs" for i f
    using that by (auto simp: xs_def dest: set_zip_leftD set_zip_rightD)
  have len: "length fs + 2 < 2 ^ 32" using ok by (simp add: ps2_save_ok_def fs_def)
  have nm: "plain_name (entry_name (p2f_entry f))" "take 7 (entry_name (p2f_entry f)) \<noteq> PCSX2_PREFIX"
    "entry_name (p2f_entry f) \<noteq> str ''$ROOT''" "0x0A \<notin> set (entry_name (p2f_entry f))" if "f \<in> set fs" for f
    using n that by (auto simp: ps2_folder_names_def fs_def path_lengths)
  have "parse_index (root_lines (p2s_entry save) @ concat (map (row_lines \<circ> file_row) xs)) = Some index"
    unfolding index_def by (rule parse_folder_index) (use inxs nm len in fastforce)
  then have ix: "(case find_folder_file (folder_files save) PCSX2_INDEX of None \<Rightarrow> Some [] | Some f \<Rightarrow> parse_index (ff_data f)) = Some index"
    by (simp add: find_index [OF n] flip: fs_def xs_def)
  have root: "index_find index (str ''$ROOT'') = Some (root_row (p2s_entry save))"
    by (simp add: index_find_def index_def root_row_def)
  have names: "map (ir_name \<circ> file_row) xs = map (\<lambda>f. entry_name (p2f_entry f)) fs"
    by (simp add: snd_xs [symmetric] file_row_def split_beta)
  have row: "index_find index (entry_name (p2f_entry f)) = Some (file_row (i, f))" if "(i, f) \<in> set xs" for i f
  proof -
    have "distinct (map (ir_name \<circ> file_row) xs)" unfolding names using n by (simp add: ps2_folder_names_def fs_def)
    from find_row [OF this that] show ?thesis
      using nm(3) [OF inxs(2) [OF that]] by (simp add: index_find_def index_def root_row_def file_row_def)
  qed
  have "folder_files save = concat (map (file_items \<circ> snd) xs) @ meta_file (p2s_entry save) PCSX2_DIR_MODE PCSX2_META_DIR @
      [\<lparr>ff_path = PCSX2_INDEX, ff_data = root_lines (p2s_entry save) @ concat (map (row_lines \<circ> file_row) xs)\<rparr>]"
    unfolding folder_files_def fs_def [symmetric] xs_def [symmetric] by (simp add: snd_xs flip: map_map)
  moreover have "fold (pack_collect index) (concat (map (file_items \<circ> snd) xs)) (Some ([], -1)) = Some ([] @ map file_item xs, -1)"
    by (rule pack_collect_fold) (use row nm inxs in auto)
  ultimately have col: "fold (pack_collect index) (folder_files save) (Some ([], -1)) = Some (map file_item xs, -1)"
    by (simp add: meta_file_def pack_collect_skip path_prefixes)
  have "sorted (map pi_order (map file_item xs))"
    by (simp add: sorted_iff_nth_mono xs_def file_item_def)
  then have srt: "map pi_file (sort_items (map file_item xs)) = map (pi_file \<circ> file_item) xs"
    by (simp add: sort_items_def sort_key_id_if_sorted)
  have okf: "length (p2f_entry f) = PS2_ENTRY_SIZE" "padded_name (p2f_entry f)" "length (p2f_data f) = ps2_file_length f"
    if "f \<in> set fs" for f using ok that by (simp_all add: ps2_save_ok_def fs_def)
  have short: "length (p2f_data f) < 4294967296" if "f \<in> set fs" for f
    using okf(3) [OF that] unsigned_less [of "sigil_read_le32 (mem_of (p2f_entry f)) PS2_ENTRY_LENGTH"] by (simp add: ps2_file_length_def)
  have pf: "ps2_pack_file (folder_files save) index (pi_file (file_item (i, f))) = f\<lparr>p2f_entry := ps2_placeless (p2f_entry f)\<rparr>"
    if x: "(i, f) \<in> set xs" for i f
  proof -
    have f: "f \<in> set fs" using inxs(2) [OF x] .
    have p: "take (PS2_FOLDER_PATH_MAX - 1) (PCSX2_META_PREFIX @ entry_name (p2f_entry f)) = PCSX2_META_PREFIX @ entry_name (p2f_entry f)"
      using entry_name_length [of "p2f_entry f"] by (simp add: PS2_FOLDER_PATH_MAX_def path_lengths)
    have l: "of_nat (length (p2f_data f)) = sigil_read_le32 (mem_of (p2f_entry f)) PS2_ENTRY_LENGTH"
      using okf(3) [OF f] by (simp add: ps2_file_length_def)
    have r: "row_created (Some (file_row (i, f))) = entry_created (p2f_entry f)"
      "row_modified (Some (file_row (i, f))) = entry_modified (p2f_entry f)"
      by (simp_all add: row_created_def row_modified_def file_row_def)
    have t: "pi_file (file_item (i, f)) = \<lparr>ff_path = entry_name (p2f_entry f), ff_data = p2f_data f\<rparr>"
      using okf(3) [OF f] by (simp add: file_item_def)
    show ?thesis
      unfolding ps2_pack_file_def t Let_def sigil_ps2_folder_file.simps p row [OF x] r l
        find_file_meta [OF n f [unfolded fs_def]] pack_entry(2) [OF okf(1,2) [OF f] refl refl]
      by simp
  qed
  define saved where "saved = map (\<lambda>f. f\<lparr>p2f_entry := ps2_placeless (p2f_entry f)\<rparr>) fs"
  have "map (ps2_pack_file (folder_files save) index) (map (pi_file \<circ> file_item) xs) =
      map ((\<lambda>f. f\<lparr>p2f_entry := ps2_placeless (p2f_entry f)\<rparr>) \<circ> snd) xs"
    using pf by auto
  then have saved: "map (ps2_pack_file (folder_files save) index) (map (pi_file \<circ> file_item) xs) = saved"
    unfolding saved_def snd_xs [symmetric] by simp
  have small: "\<not> list_ex (\<lambda>f. 4294967295 < length (ff_data f)) (map (pi_file \<circ> file_item) xs)"
    using short inxs by (fastforce simp: list_ex_iff file_item_def)
  have folder: "\<not> (\<not> plain_name (entry_name (p2s_entry save)) \<or> PS2_NAME_LEN < length (entry_name (p2s_entry save)))"
    using n entry_name_length [of "p2s_entry save"] by (simp add: ps2_folder_names_def PS2_NAME_LEN_def)
  have rr: "row_created (Some (root_row (p2s_entry save))) = entry_created (p2s_entry save)"
    "row_modified (Some (root_row (p2s_entry save))) = entry_modified (p2s_entry save)"
    by (simp_all add: row_created_def row_modified_def root_row_def)
  define r where "r = sigil_write_le32 (entry_from_meta (meta_of (p2s_entry save) PCSX2_DIR_MODE PCSX2_META_DIR)
    (entry_name (p2s_entry save)) PCSX2_DIR_MODE (entry_created (p2s_entry save)) (entry_modified (p2s_entry save)))
    PS2_ENTRY_LENGTH (of_nat (length saved + 2))"
  have "sigil_ps2_pack (entry_name (p2s_entry save)) (folder_files save) =
     Inr \<lparr>p2s_entry = bytes_at r 0 PS2_ENTRY_SIZE, p2s_self = ps2_bare_entry (str ''.''),
          p2s_parent = ps2_bare_entry (str ''..''), p2s_files = saved\<rparr>"
    unfolding sigil_ps2_pack_def ix if_not_P [OF folder] option.case Let_def root col prod.case srt if_not_P [OF small] saved
      find_dir_meta [OF n] rr r_def ..
  moreover have "ps2_placeless (bytes_at r 0 PS2_ENTRY_SIZE) = ps2_placeless (p2s_entry save)"
  proof (rule pack_entry(1))
    show "length (p2s_entry save) = PS2_ENTRY_SIZE" "padded_name (p2s_entry save)"
      "sigil_read_le32 (mem_of (p2s_entry save)) PS2_ENTRY_LENGTH = of_nat (length saved + 2)"
      using ok by (simp_all add: ps2_save_ok_def saved_def fs_def)
  qed (rule r_def)
  ultimately show ?thesis by (simp add: saved_def fs_def)
qed

lemma placeless_bytes:
  assumes "p + n \<le> 16 \<or> 24 \<le> p" "p + n \<le> 512"
  shows "bytes_at (mem_of (ps2_placeless e)) p n = bytes_at (mem_of e) p n"
  by (rule bytes_at_cong) (use assms in \<open>auto simp: ps2_placeless_def ps2_consts mem_of_def mem_simps\<close>)

lemma placeless_name:
  assumes "ps2_placeless a = ps2_placeless b"
  shows "bytes_at (mem_of a) PS2_ENTRY_NAME PS2_NAME_LEN = bytes_at (mem_of b) PS2_ENTRY_NAME PS2_NAME_LEN"
  using placeless_bytes [of 64 32 a] placeless_bytes [of 64 32 b] assms
  by (simp add: PS2_ENTRY_NAME_def PS2_NAME_LEN_def)

lemma placeless_md5:
  assumes "ps2_placeless (p2s_entry save') = ps2_placeless (p2s_entry save)"
    and "p2s_files save' = map (\<lambda>f. f\<lparr>p2f_entry := ps2_placeless (p2f_entry f)\<rparr>) (p2s_files save)"
  shows "sigil_ps2_save_md5 save' = sigil_ps2_save_md5 save"
proof -
  have f: "bytes_at (mem_of (ps2_placeless e)) PS2_ENTRY_NAME PS2_NAME_LEN = bytes_at (mem_of e) PS2_ENTRY_NAME PS2_NAME_LEN"
    "bytes_at (mem_of (ps2_placeless e)) PS2_ENTRY_LENGTH 4 = bytes_at (mem_of e) PS2_ENTRY_LENGTH 4" for e
    using placeless_bytes [of 64 32 e] placeless_bytes [of 4 4 e]
    by (simp_all add: PS2_ENTRY_NAME_def PS2_NAME_LEN_def PS2_ENTRY_LENGTH_def)
  show ?thesis
    unfolding sigil_ps2_save_md5_def assms(2) placeless_name [OF assms(1)] fold_map o_def by (simp add: f)
qed

text \<open>C16 (roundtrip). A save written as a PCSX2 folder and packed again is the same save: its entry, its
  files with their names, dates, order and data, each entry but for its place on the card, and so its
  digest. The two entries of the folder itself, which PCSX2 does not keep, are fresh ones.\<close>

theorem ps2_folder_roundtrip:
  assumes "ps2_save_ok save" "ps2_folder_names save"
  shows "\<exists>files save'. sigil_ps2_unpack save = Inr files \<and> sigil_ps2_pack (entry_name (p2s_entry save)) files = Inr save' \<and>
     ps2_placeless (p2s_entry save') = ps2_placeless (p2s_entry save) \<and>
     p2s_self save' = ps2_bare_entry (str ''.'') \<and> p2s_parent save' = ps2_bare_entry (str ''..'') \<and>
     p2s_files save' = map (\<lambda>f. f\<lparr>p2f_entry := ps2_placeless (p2f_entry f)\<rparr>) (p2s_files save) \<and>
     sigil_ps2_save_md5 save' = sigil_ps2_save_md5 save"
  using unpack_folder [OF assms] pack_folder [OF assms] placeless_md5 by fastforce

text \<open>A save of one file.\<close>

definition ps2_sample_entry :: "u8 \<Rightarrow> u32 \<Rightarrow> bytes" where
  "ps2_sample_entry c len = bytes_at ((sigil_write_le32 (\<lambda>_. 0) PS2_ENTRY_LENGTH len)(PS2_ENTRY_NAME := c)) 0 PS2_ENTRY_SIZE"

definition ps2_sample_save :: sigil_ps2_save where
  "ps2_sample_save = \<lparr>p2s_entry = ps2_sample_entry 0x41 3, p2s_self = replicate 512 0, p2s_parent = replicate 512 0,
     p2s_files = [\<lparr>p2f_entry = ps2_sample_entry 0x42 2, p2f_data = [1, 2]\<rparr>]\<rparr>"

lemma sample_entry_name: "c \<noteq> 0 \<Longrightarrow> entry_name (ps2_sample_entry c len) = [c]"
proof -
  assume c: "c \<noteq> 0"
  have "bytes_at (mem_of (ps2_sample_entry c len)) PS2_ENTRY_NAME PS2_NAME_LEN = c # 0 # replicate 30 0"
    by (rule nth_equalityI)
      (auto simp: ps2_sample_entry_def ps2_consts mem_of_def mem_simps nth_Cons split: nat.splits)
  then show ?thesis using c by (simp add: entry_name_def cstr_def)
qed

lemma sample_entry_ok:
  assumes "c \<noteq> 0"
  shows "length (ps2_sample_entry c len) = PS2_ENTRY_SIZE" "padded_name (ps2_sample_entry c len)"
    "sigil_read_le32 (mem_of (ps2_sample_entry c len)) PS2_ENTRY_LENGTH = len"
proof -
  show "length (ps2_sample_entry c len) = PS2_ENTRY_SIZE" by (simp add: ps2_sample_entry_def)
  show "padded_name (ps2_sample_entry c len)"
    unfolding padded_name_def sample_entry_name [OF assms]
    by (auto simp: list_all_iff ps2_sample_entry_def ps2_consts mem_of_def mem_simps)
  have "sigil_read_le32 (mem_of (ps2_sample_entry c len)) PS2_ENTRY_LENGTH =
      sigil_read_le32 (sigil_write_le32 (\<lambda>_. 0) PS2_ENTRY_LENGTH len) PS2_ENTRY_LENGTH"
    by (rule read_le32_cong) (auto simp: ps2_sample_entry_def ps2_consts mem_of_def)
  then show "sigil_read_le32 (mem_of (ps2_sample_entry c len)) PS2_ENTRY_LENGTH = len" by simp
qed

theorem ps2_folder_roundtrip_witness:
  "\<exists>files save'. sigil_ps2_unpack ps2_sample_save = Inr files \<and> sigil_ps2_pack [0x41] files = Inr save' \<and>
     map p2f_data (p2s_files save') = [[1, 2]]"
proof -
  have p: "str ''$ROOT'' \<noteq> [0x42]" "take (length PCSX2_PREFIX) [0x42] \<noteq> PCSX2_PREFIX"
    by (simp_all add: PCSX2_PREFIX_def str_def)
  have n: "ps2_folder_names ps2_sample_save"
    using p by (auto simp: ps2_folder_names_def ps2_sample_save_def sample_entry_name plain_name_def)
  have ok: "ps2_save_ok ps2_sample_save"
    by (simp add: ps2_save_ok_def ps2_sample_save_def sample_entry_ok ps2_file_length_def)
  from ps2_folder_roundtrip [OF ok n] obtain files save' where
    "sigil_ps2_unpack ps2_sample_save = Inr files"
    "sigil_ps2_pack (entry_name (p2s_entry ps2_sample_save)) files = Inr save'"
    "p2s_files save' = map (\<lambda>f. f\<lparr>p2f_entry := ps2_placeless (p2f_entry f)\<rparr>) (p2s_files ps2_sample_save)" by blast
  then show ?thesis by (intro exI [of _ files] exI [of _ save']) (simp add: ps2_sample_save_def sample_entry_name)
qed

end
