(* ===== verification/CardPs2Proofs.thy ===== *)
theory CardPs2Proofs
  imports CardPs2Saves Chains
begin

text \<open>
  What the operations on a PlayStation 2 card promise. A card that is laid out (\<open>ps2_geometry\<close>, as the
  loader checks, and \<open>ps2_fat_ok\<close>, a FAT of its own) reads its FAT as a function of the cluster; setting
  an entry changes that entry only. On this rest the chains, the directories and the files of a card, what
  the listing counts (\<open>ps2_list_spec\<close>), and deleting (\<open>delete_view\<close>): on a card that is \<open>ps2_clean\<close> it
  removes one save, keeps the others and frees the clusters of its chains.
\<close>

section \<open>The layout of a card\<close>

definition ps2_geometry :: "sigil_ps2_card \<Rightarrow> bool" where
  "ps2_geometry cd \<longleftrightarrow> (\<exists>k. 0 < k \<and> k \<le> 16 \<and> p2_cluster_size cd = k * PS2_PAGE_LEN) \<and>
     p2_clusters_per_card cd \<le> PS2_MAX_CLUSTERS \<and> 0 < p2_alloc_end cd \<and>
     p2_alloc_offset cd + p2_alloc_end cd \<le> p2_clusters_per_card cd \<and> length (p2_ifc cd) = PS2_IFC_SLOTS"

definition ps2_per :: "sigil_ps2_card \<Rightarrow> nat" where "ps2_per cd = p2_cluster_size cd div 4"

definition ps2_indirect :: "sigil_ps2_card \<Rightarrow> nat \<Rightarrow> nat" where
  "ps2_indirect cd n = p2_ifc cd ! (n div ps2_per cd div ps2_per cd)"

text \<open>Every cluster has a FAT entry, in a FAT cluster before the data, that no other table of the card
  and no other part of the FAT uses.\<close>

definition ps2_fat_ok :: "sigil_ps2_card \<Rightarrow> bool" where
  "ps2_fat_ok cd \<longleftrightarrow> ps2_geometry cd \<and>
     (\<forall>n < p2_alloc_end cd. ps2_indirect cd n < p2_alloc_offset cd \<and> (\<exists>fc. ps2_fat_cluster cd n = Some fc \<and> 0 < fc \<and> fc < p2_alloc_offset cd \<and>
        (\<forall>m < p2_alloc_end cd. fc \<noteq> ps2_indirect cd m \<and>
           (ps2_fat_cluster cd m = Some fc \<longrightarrow> m div ps2_per cd = n div ps2_per cd))))"

lemma geometry_size:
  assumes "ps2_geometry cd"
  shows "512 \<le> p2_cluster_size cd" "p2_cluster_size cd \<le> 8192" "512 dvd p2_cluster_size cd"
    "p2_cluster_size cd = ps2_per cd * 4" "128 \<le> ps2_per cd" "p2_cluster_size cd = ps2_entries_per_cluster cd * 512"
    "0 < ps2_entries_per_cluster cd"
  using assms by (auto simp: ps2_geometry_def ps2_per_def PS2_PAGE_LEN_def ps2_entries_per_cluster_def PS2_ENTRY_SIZE_def)

lemma relative_absolute:
  assumes "ps2_geometry cd" "c < p2_alloc_end cd"
  shows "wrap32 (c + p2_alloc_offset cd) = c + p2_alloc_offset cd" "ps2_cluster_in_card cd (c + p2_alloc_offset cd)"
  using assms by (auto simp: ps2_geometry_def wrap32_def ps2_cluster_in_card_def PS2_MAX_CLUSTERS_def)

text \<open>Where the entry of a cluster is in the memory of the card.\<close>

definition ps2_fat_at :: "sigil_ps2_card \<Rightarrow> nat \<Rightarrow> nat" where
  "ps2_fat_at cd n = ps2_cluster_at cd (the (ps2_fat_cluster cd n)) + (n mod ps2_per cd) * 4"

lemma fat_entry_at:
  assumes "ps2_fat_ok cd" "n < p2_alloc_end cd"
  shows "ps2_fat_entry cd n = Some (sigil_read_le32 (p2_clusters cd) (ps2_fat_at cd n))"
  using assms by (fastforce simp: ps2_fat_ok_def ps2_fat_entry_def ps2_fat_at_def ps2_per_def)

lemma fat_at_bounds:
  assumes ok: "ps2_fat_ok cd" and n: "n < p2_alloc_end cd"
  shows "p2_cluster_size cd \<le> ps2_fat_at cd n" "ps2_fat_at cd n + 4 \<le> p2_alloc_offset cd * p2_cluster_size cd"
proof -
  obtain fc where fc: "ps2_fat_cluster cd n = Some fc" "0 < fc" "fc < p2_alloc_offset cd" using ok n by (auto simp: ps2_fat_ok_def)
  have g: "p2_cluster_size cd = ps2_per cd * 4" "128 \<le> ps2_per cd" using ok geometry_size by (auto simp: ps2_fat_ok_def)
  have "1 * p2_cluster_size cd \<le> fc * p2_cluster_size cd" using fc(2) by (intro mult_right_mono) simp_all
  then show "p2_cluster_size cd \<le> ps2_fat_at cd n" unfolding ps2_fat_at_def fc option.sel ps2_cluster_at_def by linarith
  have "n mod ps2_per cd + 1 \<le> ps2_per cd" using g(2) by (simp add: Suc_leI)
  then have "(n mod ps2_per cd) * 4 + 4 \<le> p2_cluster_size cd" using g(1) by simp
  moreover have "(fc + 1) * p2_cluster_size cd \<le> p2_alloc_offset cd * p2_cluster_size cd"
    using fc(3) by (intro mult_right_mono) simp_all
  ultimately show "ps2_fat_at cd n + 4 \<le> p2_alloc_offset cd * p2_cluster_size cd"
    by (simp add: ps2_fat_at_def fc ps2_cluster_at_def)
qed

text \<open>Two slots of tables in clusters do not overlap unless they are the same.\<close>

lemma slots_apart:
  assumes "s = p * (4 :: nat)" "i < p" "j < p" "a \<noteq> b \<or> i \<noteq> j"
  shows "a * s + i * 4 + 4 \<le> b * s + j * 4 \<or> b * s + j * 4 + 4 \<le> a * s + i * 4"
proof -
  have d: "a * s + i * 4 = (a * p + i) * 4" "b * s + j * 4 = (b * p + j) * 4" using assms(1) by (simp_all add: algebra_simps)
  have "a * p + i \<noteq> b * p + j"
  proof
    assume e: "a * p + i = b * p + j"
    have "a = (a * p + i) div p" "b = (b * p + j) div p" using assms(2,3) by simp_all
    then have "a = b" using e by metis
    then show False using e assms(4) by simp
  qed
  moreover have "x * 4 + 4 \<le> y * 4 \<or> y * 4 + 4 \<le> x * (4 :: nat)" if "x \<noteq> y" for x y using that by arith
  ultimately show ?thesis unfolding d by blast
qed

lemma fat_at_apart:
  assumes ok: "ps2_fat_ok cd" and n: "n < p2_alloc_end cd" "m < p2_alloc_end cd" "n \<noteq> m"
  shows "ps2_fat_at cd n + 4 \<le> ps2_fat_at cd m \<or> ps2_fat_at cd m + 4 \<le> ps2_fat_at cd n"
proof -
  obtain f h where fh: "ps2_fat_cluster cd n = Some f" "ps2_fat_cluster cd m = Some h"
    and fm: "ps2_fat_cluster cd m = Some f \<Longrightarrow> m div ps2_per cd = n div ps2_per cd"
    using ok n unfolding ps2_fat_ok_def by metis
  have g: "p2_cluster_size cd = ps2_per cd * 4" "128 \<le> ps2_per cd" using ok geometry_size by (auto simp: ps2_fat_ok_def)
  have "f \<noteq> h \<or> n mod ps2_per cd \<noteq> m mod ps2_per cd"
    using fm fh n(3) by (metis div_mult_mod_eq)
  from slots_apart [OF g(1) _ _ this] g(2) show ?thesis by (simp add: ps2_fat_at_def fh ps2_cluster_at_def)
qed

text \<open>The FAT cluster of an entry depends only on the tables that lead to it.\<close>

lemma fat_cluster_cong:
  assumes "p2_cluster_size cd' = p2_cluster_size cd" "p2_clusters_per_card cd' = p2_clusters_per_card cd" "p2_ifc cd' = p2_ifc cd"
    and "\<And>j. j < p2_cluster_size cd \<Longrightarrow> p2_clusters cd' (ps2_indirect cd n * p2_cluster_size cd + j) =
        p2_clusters cd (ps2_indirect cd n * p2_cluster_size cd + j)"
    and g: "ps2_geometry cd"
  shows "ps2_fat_cluster cd' n = ps2_fat_cluster cd n"
proof -
  have p: "p2_cluster_size cd = ps2_per cd * 4" "128 \<le> ps2_per cd" using geometry_size [OF g] by auto
  let ?k = "n div ps2_per cd mod ps2_per cd"
  have k: "?k < ps2_per cd" using p(2) by simp
  have "sigil_read_le32 (p2_clusters cd') (ps2_indirect cd n * p2_cluster_size cd + ?k * 4) =
      sigil_read_le32 (p2_clusters cd) (ps2_indirect cd n * p2_cluster_size cd + ?k * 4)"
  proof (rule read_le32_cong)
    fix j :: nat assume "j < 4"
    then have "?k * 4 + j < p2_cluster_size cd" using k p(1) by linarith
    from assms(4) [OF this] show "p2_clusters cd' (ps2_indirect cd n * p2_cluster_size cd + ?k * 4 + j) =
      p2_clusters cd (ps2_indirect cd n * p2_cluster_size cd + ?k * 4 + j)" by (simp add: add.assoc)
  qed
  then show ?thesis
    unfolding ps2_fat_cluster_def Let_def ps2_cluster_in_card_def ps2_cluster_at_def ps2_per_def ps2_indirect_def
    by (simp add: assms(1-3))
qed

section \<open>The FAT as a table\<close>

text \<open>What a client of a table of entries beside some data relies on.\<close>

locale entry_table =
  fixes ok :: "'c \<Rightarrow> bool"
    and limit :: "'c \<Rightarrow> nat"
    and get :: "'c \<Rightarrow> nat \<Rightarrow> 'v option"
    and put :: "nat \<Rightarrow> 'v \<Rightarrow> 'c \<Rightarrow> 'c"
    and data :: "'c \<Rightarrow> 'd"
  assumes ok_put: "ok c \<Longrightarrow> n < limit c \<Longrightarrow> ok (put n v c)"
    and limit_put: "ok c \<Longrightarrow> n < limit c \<Longrightarrow> limit (put n v c) = limit c"
    and get_put: "ok c \<Longrightarrow> n < limit c \<Longrightarrow> get (put n v c) m = (if m = n then Some v else get c m)"
    and data_put: "ok c \<Longrightarrow> n < limit c \<Longrightarrow> data (put n v c) = data c"
begin

text \<open>Setting a whole list of entries to one value.\<close>

lemma put_all:
  assumes "ok c" "set ns \<subseteq> {..<limit c}"
  shows "ok (fold (\<lambda>n. put n v) ns c)" "limit (fold (\<lambda>n. put n v) ns c) = limit c"
    "get (fold (\<lambda>n. put n v) ns c) m = (if m \<in> set ns then Some v else get c m)"
    "data (fold (\<lambda>n. put n v) ns c) = data c"
proof -
  have "ok (fold (\<lambda>n. put n v) ns c) \<and> limit (fold (\<lambda>n. put n v) ns c) = limit c \<and>
      (\<forall>m. get (fold (\<lambda>n. put n v) ns c) m = (if m \<in> set ns then Some v else get c m)) \<and>
      data (fold (\<lambda>n. put n v) ns c) = data c"
    using assms
  proof (induction ns arbitrary: c)
    case (Cons n ns)
    then have n: "n < limit c" "ok (put n v c)" "limit (put n v c) = limit c" using ok_put limit_put by simp_all
    show ?case using Cons.IH [OF n(2)] Cons.prems n data_put [of c n v] get_put [of c n v] by auto
  qed simp
  then show "ok (fold (\<lambda>n. put n v) ns c)" "limit (fold (\<lambda>n. put n v) ns c) = limit c"
    "get (fold (\<lambda>n. put n v) ns c) m = (if m \<in> set ns then Some v else get c m)"
    "data (fold (\<lambda>n. put n v) ns c) = data c" by simp_all
qed

end

text \<open>The card with one entry set, what \<open>ps2_fat_set\<close> returns; the entries of the clusters and, as the
  data, the geometry, the first cluster and the clusters the FAT describes.\<close>

definition ps2_put_fat :: "nat \<Rightarrow> u32 \<Rightarrow> sigil_ps2_card \<Rightarrow> sigil_ps2_card" where
  "ps2_put_fat n v cd = ps2_mark_cluster_dirty
     (cd\<lparr>p2_clusters := sigil_write_le32 (p2_clusters cd) (ps2_fat_at cd n) v\<rparr>) (the (ps2_fat_cluster cd n))"

definition ps2_fat_view :: "sigil_ps2_card \<Rightarrow> nat \<Rightarrow> u32 option" where
  "ps2_fat_view cd n = (if n < p2_alloc_end cd then ps2_fat_entry cd n else None)"

definition ps2_shape :: "sigil_ps2_card \<Rightarrow> nat \<times> nat \<times> nat \<times> nat \<times> nat \<times> nat list \<times> bool" where
  "ps2_shape cd = (p2_cluster_size cd, p2_clusters_per_card cd, p2_alloc_offset cd, p2_alloc_end cd, p2_rootdir_cluster cd,
     p2_ifc cd, p2_ecc cd)"

definition ps2_data :: "sigil_ps2_card \<Rightarrow> nat \<Rightarrow> u8 option" where
  "ps2_data cd i = (if i < p2_cluster_size cd \<or> p2_alloc_offset cd * p2_cluster_size cd \<le> i then Some (p2_clusters cd i) else None)"

lemma shape_eq:
  "ps2_shape cd' = ps2_shape cd \<longleftrightarrow> p2_cluster_size cd' = p2_cluster_size cd \<and>
     p2_clusters_per_card cd' = p2_clusters_per_card cd \<and> p2_alloc_offset cd' = p2_alloc_offset cd \<and>
     p2_alloc_end cd' = p2_alloc_end cd \<and> p2_rootdir_cluster cd' = p2_rootdir_cluster cd \<and> p2_ifc cd' = p2_ifc cd \<and>
     p2_ecc cd' = p2_ecc cd"
  by (auto simp: ps2_shape_def)

lemma shape_geometry: "ps2_shape cd' = ps2_shape cd \<Longrightarrow> ps2_geometry cd' = ps2_geometry cd"
  by (simp add: shape_eq ps2_geometry_def)

lemma fat_set_put:
  assumes "ps2_fat_ok cd" "n < p2_alloc_end cd"
  shows "ps2_fat_set cd n v = Some (ps2_put_fat n v cd)"
proof -
  obtain fc where "ps2_fat_cluster cd n = Some fc" using assms by (auto simp: ps2_fat_ok_def)
  then show ?thesis by (simp add: ps2_fat_set_def ps2_put_fat_def ps2_fat_at_def ps2_per_def)
qed

text \<open>A card that agrees on the tables that lead to the FAT has its FAT in the same place.\<close>

lemma fat_ok_cong:
  assumes ok: "ps2_fat_ok cd" and s: "ps2_shape cd' = ps2_shape cd"
    and m: "\<And>n j. n < p2_alloc_end cd \<Longrightarrow> j < p2_cluster_size cd \<Longrightarrow>
      p2_clusters cd' (ps2_indirect cd n * p2_cluster_size cd + j) = p2_clusters cd (ps2_indirect cd n * p2_cluster_size cd + j)"
  shows "ps2_fat_ok cd'" "n < p2_alloc_end cd \<Longrightarrow> ps2_fat_cluster cd' n = ps2_fat_cluster cd n"
    "n < p2_alloc_end cd \<Longrightarrow> ps2_fat_at cd' n = ps2_fat_at cd n"
proof -
  have g: "ps2_geometry cd" using ok by (simp add: ps2_fat_ok_def)
  have se: "p2_cluster_size cd' = p2_cluster_size cd" "p2_clusters_per_card cd' = p2_clusters_per_card cd"
    "p2_ifc cd' = p2_ifc cd" "p2_alloc_end cd' = p2_alloc_end cd" "p2_alloc_offset cd' = p2_alloc_offset cd" using s by (simp_all add: shape_eq)
  have c: "ps2_fat_cluster cd' n = ps2_fat_cluster cd n" if "n < p2_alloc_end cd" for n
    using fat_cluster_cong [OF se(1-3) m [OF that] g] .
  then show "n < p2_alloc_end cd \<Longrightarrow> ps2_fat_cluster cd' n = ps2_fat_cluster cd n" .
  show "n < p2_alloc_end cd \<Longrightarrow> ps2_fat_at cd' n = ps2_fat_at cd n"
    using c by (simp add: ps2_fat_at_def ps2_per_def ps2_cluster_at_def se)
  have i: "ps2_indirect cd' n = ps2_indirect cd n" "ps2_per cd' = ps2_per cd" for n
    by (simp_all add: ps2_indirect_def ps2_per_def se)
  show "ps2_fat_ok cd'"
    using ok shape_geometry [OF s] c unfolding ps2_fat_ok_def se i by simp
qed

lemma put_fat:
  assumes ok: "ps2_fat_ok cd" and n: "n < p2_alloc_end cd"
  shows "ps2_fat_ok (ps2_put_fat n v cd)" "ps2_shape (ps2_put_fat n v cd) = ps2_shape cd"
    "ps2_fat_view (ps2_put_fat n v cd) m = (if m = n then Some v else ps2_fat_view cd m)"
    "ps2_data (ps2_put_fat n v cd) = ps2_data cd"
proof -
  define cd' where "cd' = ps2_put_fat n v cd"
  have mem: "p2_clusters cd' = sigil_write_le32 (p2_clusters cd) (ps2_fat_at cd n) v"
    by (simp add: cd'_def ps2_put_fat_def ps2_mark_cluster_dirty_def Let_def)
  have g: "ps2_geometry cd" using ok by (simp add: ps2_fat_ok_def)
  note size = geometry_size [OF g]
  show s: "ps2_shape (ps2_put_fat n v cd) = ps2_shape cd"
    by (simp add: ps2_put_fat_def ps2_mark_cluster_dirty_def shape_eq Let_def)
  obtain fc where fc: "ps2_fat_cluster cd n = Some fc" "fc < p2_alloc_offset cd"
    "\<And>m. m < p2_alloc_end cd \<Longrightarrow> fc \<noteq> ps2_indirect cd m" using ok n unfolding ps2_fat_ok_def by metis
  have at: "ps2_fat_at cd n = fc * p2_cluster_size cd + (n mod ps2_per cd) * 4" by (simp add: ps2_fat_at_def fc ps2_cluster_at_def)
  have k: "(n mod ps2_per cd) * 4 + 4 \<le> p2_cluster_size cd"
    using size(4,5) mod_less_divisor [of "ps2_per cd" n] by linarith
  have out: "p2_clusters cd' (c * p2_cluster_size cd + j) = p2_clusters cd (c * p2_cluster_size cd + j)"
    if "c \<noteq> fc" "j < p2_cluster_size cd" for c j
  proof -
    have "c * p2_cluster_size cd + p2_cluster_size cd \<le> fc * p2_cluster_size cd \<or>
        fc * p2_cluster_size cd + p2_cluster_size cd \<le> c * p2_cluster_size cd"
      using that(1) mult_le_mono1 [of "Suc c" fc "p2_cluster_size cd"] mult_le_mono1 [of "Suc fc" c "p2_cluster_size cd"]
      by (cases "c < fc") auto
    then have "c * p2_cluster_size cd + j < ps2_fat_at cd n \<or> ps2_fat_at cd n + 4 \<le> c * p2_cluster_size cd + j"
      using that(2) k unfolding at by linarith
    then show ?thesis by (auto simp: mem mem_simps)
  qed
  have indir: "\<And>n' j. n' < p2_alloc_end cd \<Longrightarrow> j < p2_cluster_size cd \<Longrightarrow>
      p2_clusters cd' (ps2_indirect cd n' * p2_cluster_size cd + j) = p2_clusters cd (ps2_indirect cd n' * p2_cluster_size cd + j)"
    using out fc(3) by metis
  note fok = fat_ok_cong [OF ok s [folded cd'_def] indir]
  show "ps2_fat_ok (ps2_put_fat n v cd)" using fok(1) by (simp add: cd'_def)
  have ae: "p2_alloc_end cd' = p2_alloc_end cd" using s by (simp add: shape_eq cd'_def)
  have "ps2_fat_view cd' m = (if m = n then Some v else ps2_fat_view cd m)"
  proof (cases "m < p2_alloc_end cd")
    case True
    have "ps2_fat_view cd' m = Some (sigil_read_le32 (p2_clusters cd') (ps2_fat_at cd m))"
      using fat_entry_at [OF fok(1), of m] True ae fok(3) [OF _ _ True] by (simp add: ps2_fat_view_def)
    also have "\<dots> = (if m = n then Some v else Some (sigil_read_le32 (p2_clusters cd) (ps2_fat_at cd m)))"
      using fat_at_apart [OF ok n True] read_le32_write_le32_other [of "ps2_fat_at cd m" "ps2_fat_at cd n"] by (auto simp: mem)
    finally show ?thesis using fat_entry_at [OF ok True] True by (simp add: ps2_fat_view_def)
  next
    case False
    then show ?thesis using n ae by (auto simp: ps2_fat_view_def)
  qed
  then show "ps2_fat_view (ps2_put_fat n v cd) m = (if m = n then Some v else ps2_fat_view cd m)" by (simp add: cd'_def)
  have "ps2_data cd' = ps2_data cd"
    using fat_at_bounds [OF ok n] s by (auto simp: fun_eq_iff ps2_data_def mem mem_simps shape_eq cd'_def [symmetric])
  then show "ps2_data (ps2_put_fat n v cd) = ps2_data cd" by (simp add: cd'_def)
qed

interpretation ps2_fat: entry_table ps2_fat_ok p2_alloc_end ps2_fat_view ps2_put_fat "\<lambda>cd. (ps2_shape cd, ps2_data cd)"
  by unfold_locales (use put_fat in \<open>auto simp: shape_eq\<close>)

section \<open>Chains\<close>

definition ps2_step :: "sigil_ps2_card \<Rightarrow> nat \<Rightarrow> link" where
  "ps2_step cd n = (case ps2_fat_view cd n of
       None \<Rightarrow> Bad
     | Some v \<Rightarrow> if v AND PS2_FAT_ALLOCATED = 0 then Bad
                 else if v AND NOT PS2_FAT_ALLOCATED = PS2_FAT_CHAIN_END then End
                 else Next (unat (v AND NOT PS2_FAT_ALLOCATED)))"

lemma linked_distinct: "linked step bs \<Longrightarrow> distinct bs"
proof (induction bs)
  case (Cons b bs)
  have "b \<notin> set bs"
  proof
    assume "b \<in> set bs"
    then obtain xs ys where s: "bs = xs @ b # ys" by (meson split_list)
    then have "linked step ([] @ b # bs)" "linked step ((b # xs) @ b # ys)" using Cons.prems by simp_all
    then have "bs = ys" by (rule linked_meet)
    then show False using s by simp
  qed
  moreover have "distinct bs" using Cons linked_tl [of step b bs] by (cases bs) simp_all
  ultimately show ?case by simp
qed simp

lemma linked_in_card: "linked (ps2_step cd) bs \<Longrightarrow> set bs \<subseteq> {..<p2_alloc_end cd}"
proof
  fix b assume l: "linked (ps2_step cd) bs" and "b \<in> set bs"
  then obtain i where i: "i < length bs" "b = bs ! i" by (metis in_set_conv_nth)
  then have "ps2_step cd b \<noteq> Bad" using l by (simp add: linked_nth)
  then show "b \<in> {..<p2_alloc_end cd}" by (auto simp: ps2_step_def ps2_fat_view_def split: if_splits)
qed

lemma walk_loop_unfold:
  "ps2_walk_loop cd c order = (if p2_alloc_end cd \<le> length order then []
     else case ps2_step cd c of Bad \<Rightarrow> [] | End \<Rightarrow> order @ [c] | Next d \<Rightarrow> ps2_walk_loop cd d (order @ [c]))"
  by (subst ps2_walk_loop.simps) (auto simp: ps2_step_def ps2_fat_view_def Let_def split: option.splits)

lemma walk_loop_complete:
  "linked (ps2_step cd) (c # bs) \<Longrightarrow> length order + length (c # bs) \<le> p2_alloc_end cd \<Longrightarrow>
     ps2_walk_loop cd c order = order @ c # bs"
proof (induction bs arbitrary: c order)
  case Nil
  then show ?case by (subst walk_loop_unfold) simp
next
  case (Cons b bs)
  then show ?case by (subst walk_loop_unfold) simp
qed

lemma walk_loop_sound:
  "ps2_walk_loop cd c order = r \<Longrightarrow> r \<noteq> [] \<Longrightarrow> \<exists>bs. r = order @ c # bs \<and> linked (ps2_step cd) (c # bs)"
proof (induction cd c order arbitrary: r rule: ps2_walk_loop.induct)
  case (1 cd c order)
  show ?case
  proof (cases "ps2_step cd c")
    case End
    then show ?thesis using "1.prems" by (subst (asm) walk_loop_unfold) (auto split: if_splits)
  next
    case Bad
    then show ?thesis using "1.prems" by (subst (asm) walk_loop_unfold) (auto split: if_splits)
  next
    case (Next d)
    then have r: "ps2_walk_loop cd d (order @ [c]) = r" and n: "\<not> p2_alloc_end cd \<le> length order"
      using "1.prems" by (subst (asm) walk_loop_unfold, auto split: if_splits)+
    obtain v where v: "c < p2_alloc_end cd" "ps2_fat_entry cd c = Some v" "v AND PS2_FAT_ALLOCATED \<noteq> 0"
      "v AND NOT PS2_FAT_ALLOCATED \<noteq> PS2_FAT_CHAIN_END" "d = unat (v AND NOT PS2_FAT_ALLOCATED)"
      using Next by (auto simp: ps2_step_def ps2_fat_view_def split: if_splits option.splits)
    have "\<exists>bs. r = (order @ [c]) @ d # bs \<and> linked (ps2_step cd) (d # bs)"
      using "1.IH" [OF n _ v(2,3) refl v(4)] v r "1.prems"(2) by simp
    then show ?thesis using Next by auto
  qed
qed

interpretation ps2: chain_reader ps2_step "\<lambda>_ _. True" ps2_walk_chain
proof
  fix cd b
  assume "ps2_walk_chain cd b \<noteq> []"
  then obtain bs where "ps2_walk_chain cd b = b # bs" "linked (ps2_step cd) (b # bs)"
    using walk_loop_sound [of cd b "[]"] by (auto simp: ps2_walk_chain_def)
  then show "hd (ps2_walk_chain cd b) = b \<and> linked (ps2_step cd) (ps2_walk_chain cd b) \<and> distinct (ps2_walk_chain cd b)"
    using linked_distinct [of "ps2_step cd" "b # bs"] by simp
next
  fix cd bs
  assume l: "linked (ps2_step cd) bs" "distinct bs"
  have "length bs = card (set bs)" using l(2) by (simp add: distinct_card)
  also have "\<dots> \<le> card {..<p2_alloc_end cd}" using linked_in_card [OF l(1)] by (intro card_mono) simp_all
  finally have "length bs \<le> p2_alloc_end cd" by simp
  then show "ps2_walk_chain cd (hd bs) = bs"
    using l(1) walk_loop_complete [of cd "hd bs" "tl bs" "[]"] by (cases bs) (simp_all add: ps2_walk_chain_def)
qed

lemma walk_in_card: "c \<in> set (ps2_walk_chain cd b) \<Longrightarrow> c < p2_alloc_end cd"
  using linked_in_card [OF ps2.walk_linked, of cd b] by (cases "ps2_walk_chain cd b = []") auto

lemma walk_cong:
  assumes "ps2_walk_chain cd b \<noteq> []" "\<And>x. x \<in> set (ps2_walk_chain cd b) \<Longrightarrow> ps2_fat_view cd' x = ps2_fat_view cd x"
  shows "ps2_walk_chain cd' b = ps2_walk_chain cd b"
  by (rule ps2.walk_frame) (use assms in \<open>auto simp: ps2_step_def\<close>)

text \<open>What a chain holds: the bytes of its clusters in its order.\<close>

definition ps2_at :: "sigil_ps2_card \<Rightarrow> nat \<Rightarrow> nat \<Rightarrow> u8" where
  "ps2_at cd c j = p2_clusters cd ((c + p2_alloc_offset cd) * p2_cluster_size cd + j)"

definition ps2_chain_byte :: "sigil_ps2_card \<Rightarrow> nat list \<Rightarrow> nat \<Rightarrow> u8" where
  "ps2_chain_byte cd w i = ps2_at cd (w ! (i div p2_cluster_size cd)) (i mod p2_cluster_size cd)"

lemma nth_concat_equal:
  assumes "\<forall>x \<in> set xs. length x = k" "i < length xs * k"
  shows "concat xs ! i = xs ! (i div k) ! (i mod k)"
  using assms
proof (induction xs arbitrary: i)
  case (Cons x xs)
  have k: "0 < k" using Cons.prems by (cases k) auto
  show ?case
  proof (cases "i < k")
    case True
    then show ?thesis using Cons.prems by (simp add: nth_append)
  next
    case False
    have "(i - k) div k = i div k - 1" "(i - k) mod k = i mod k" "0 < i div k"
      using False k by (simp_all add: le_div_geq le_mod_geq div_greater_zero_iff)
    moreover have "concat xs ! (i - k) = xs ! ((i - k) div k) ! ((i - k) mod k)"
      by (rule Cons.IH) (use Cons.prems False in auto)
    ultimately show ?thesis using Cons.prems False by (simp add: nth_append nth_Cons')
  qed
qed simp

lemma length_concat_equal: "\<forall>x \<in> set xs. length x = k \<Longrightarrow> length (concat xs) = length xs * k"
  by (induction xs) auto

lemma read_chain_spec:
  assumes g: "ps2_geometry cd" and l: "0 < len"
  shows "ps2_read_chain cd first len = (let w = ps2_walk_chain cd first in
     if w = [] \<or> length w * p2_cluster_size cd < len then None else Some (map (ps2_chain_byte cd w) [0..<len]))"
proof -
  define w where "w = ps2_walk_chain cd first"
  define cs where "cs = p2_cluster_size cd"
  have cs: "0 < cs" using geometry_size(1) [OF g] by (simp add: cs_def)
  define need where "need = (len + cs - 1) div cs"
  have in_card: "ps2_cluster_in_card cd (wrap32 (c + p2_alloc_offset cd))" "wrap32 (c + p2_alloc_offset cd) = c + p2_alloc_offset cd"
    if "c \<in> set w" for c using that relative_absolute [OF g] walk_in_card unfolding w_def by metis+
  have need: "len \<le> need * cs" "need * cs < len + cs"
  proof -
    have "len + cs - 1 = need * cs + (len + cs - 1) mod cs" by (simp add: need_def)
    moreover have "(len + cs - 1) mod cs < cs" using cs by simp
    ultimately show "len \<le> need * cs" "need * cs < len + cs" using l by linarith+
  qed
  have unf: "ps2_read_chain cd first len = (if w = [] \<or> length w * cs < len then None
     else if \<not> list_all (\<lambda>c. ps2_cluster_in_card cd (wrap32 (c + p2_alloc_offset cd))) (take need w) then None
     else Some (take len (concat (map (\<lambda>c. bytes_at (p2_clusters cd) (ps2_cluster_at cd (wrap32 (c + p2_alloc_offset cd))) cs) (take need w)))))"
    unfolding ps2_read_chain_def Let_def w_def cs_def need_def ..
  show ?thesis
  proof (cases "w = [] \<or> length w * cs < len")
    case True
    then show ?thesis by (simp add: ps2_read_chain_def Let_def flip: w_def cs_def)
  next
    case False
    have "need * cs < (length w + 1) * cs" using need(2) False by simp
    then have nw: "need \<le> length w" using mult_less_cancel2 [of need cs "length w + 1"] by simp
    have all: "list_all (\<lambda>c. ps2_cluster_in_card cd (wrap32 (c + p2_alloc_offset cd))) (take need w)"
      using in_card by (auto simp: list_all_iff dest: in_set_takeD)
    have mapeq: "map (\<lambda>c. bytes_at (p2_clusters cd) (ps2_cluster_at cd (wrap32 (c + p2_alloc_offset cd))) cs) (take need w) =
        map (\<lambda>c. map (ps2_at cd c) [0..<cs]) (take need w)"
      using in_card by (auto simp: bytes_at_def ps2_cluster_at_def ps2_at_def cs_def dest!: in_set_takeD)
    have "take len (concat (map (\<lambda>c. map (ps2_at cd c) [0..<cs]) (take need w))) = map (ps2_chain_byte cd w) [0..<len]"
    proof (rule nth_equalityI)
      show "length (take len (concat (map (\<lambda>c. map (ps2_at cd c) [0..<cs]) (take need w)))) = length (map (ps2_chain_byte cd w) [0..<len])"
        using need(1) nw by (subst length_take, subst length_concat_equal [where k = cs]) auto
      fix i assume "i < length (take len (concat (map (\<lambda>c. map (ps2_at cd c) [0..<cs]) (take need w))))"
      then have i: "i < len" by simp
      have d: "i div cs < need" using i need(1) cs by (simp add: less_mult_imp_div_less)
      have "concat (map (\<lambda>c. map (ps2_at cd c) [0..<cs]) (take need w)) ! i = ps2_at cd (w ! (i div cs)) (i mod cs)"
        using d nw i need(1) cs by (subst nth_concat_equal [where k = cs]) auto
      then show "take len (concat (map (\<lambda>c. map (ps2_at cd c) [0..<cs]) (take need w))) ! i = map (ps2_chain_byte cd w) [0..<len] ! i"
        using i by (simp add: ps2_chain_byte_def cs_def)
    qed
    then show ?thesis using False all
      unfolding unf by (simp add: mapeq Let_def flip: w_def cs_def)
  qed
qed

lemma read_chain_0: "ps2_read_chain cd first 0 = (if ps2_walk_chain cd first = [] then None else Some [])"
  if "0 < p2_cluster_size cd"
  using that by (simp add: ps2_read_chain_def Let_def)

section \<open>The listing\<close>

text \<open>The chains a folder claims: its directory's clusters and those of its files that exist, each as far
  as its length goes; and all the chains of a card, the root's first.\<close>

definition ps2_span :: "sigil_ps2_card \<Rightarrow> nat \<Rightarrow> nat \<Rightarrow> nat list" where
  "ps2_span cd first len = take (ps2_clusters_for len (p2_cluster_size cd)) (ps2_walk_chain cd first)"

definition ps2_is_file :: "mem \<Rightarrow> nat \<Rightarrow> bool" where
  "ps2_is_file dir i \<longleftrightarrow> ps2_entry_is dir i PS2_MODE_EXISTS \<and> ps2_entry_is dir i PS2_MODE_FILE"

definition ps2_folder_chains :: "sigil_ps2_card \<Rightarrow> nat \<Rightarrow> nat \<Rightarrow> nat list list" where
  "ps2_folder_chains cd first n = (case ps2_read_dir cd first n of
       None \<Rightarrow> []
     | Some dir \<Rightarrow> ps2_span cd first (wrap32 (n * PS2_ENTRY_SIZE)) #
         map (\<lambda>i. ps2_span cd (ps2_entry_cluster dir i) (ps2_entry_length dir i)) (filter (ps2_is_file dir) [2..<n]))"

definition ps2_root_chains :: "sigil_ps2_card \<Rightarrow> mem \<Rightarrow> nat \<Rightarrow> nat list list" where
  "ps2_root_chains cd root i = (if ps2_is_folder root i then
       ps2_folder_chains cd (ps2_entry_cluster root i) (ps2_entry_length root i) else [])"

definition ps2_all_chains :: "sigil_ps2_card \<Rightarrow> mem \<Rightarrow> nat \<Rightarrow> nat list list" where
  "ps2_all_chains cd root n =
     ps2_span cd (p2_rootdir_cluster cd) (wrap32 (n * PS2_ENTRY_SIZE)) # concat (map (ps2_root_chains cd root) [2..<n])"

definition ps2_uses :: "nat list list \<Rightarrow> nat \<Rightarrow> nat" where
  "ps2_uses ws x = length (filter (\<lambda>w. x \<in> set w) ws)"

lemma uses_append [simp]: "ps2_uses (vs @ ws) x = ps2_uses vs x + ps2_uses ws x" "ps2_uses [] x = 0"
  "ps2_uses (w # ws) x = (if x \<in> set w then 1 else 0) + ps2_uses ws x"
  by (simp_all add: ps2_uses_def)

lemma span_distinct: "distinct (ps2_span cd first len)"
  using ps2.walk_distinct [of cd first] by (simp add: ps2_span_def)

text \<open>The counters are the uses, as far as a byte counts.\<close>

definition ps2_counts :: "(nat \<Rightarrow> nat) \<Rightarrow> nat list list \<Rightarrow> bool" where
  "ps2_counts c ws \<longleftrightarrow> (\<forall>x. c x = min 255 (ps2_uses ws x))"

lemma counts_chain:
  assumes "ps2_counts c ws" "distinct order"
  shows "ps2_counts (fold (\<lambda>b cl. if cl b < 255 then cl(b := cl b + 1) else cl) order c) (ws @ [order])"
  unfolding ps2_counts_def
proof
  fix x
  have "claim_chain_sat order c x = min 255 (claim_chain order (ps2_uses ws) x)"
    by (rule claim_chain_sat_apply) (use assms(1) in \<open>simp add: ps2_counts_def\<close>)
  then show "fold (\<lambda>b cl. if cl b < 255 then cl(b := cl b + 1) else cl) order c x = min 255 (ps2_uses (ws @ [order]) x)"
    by (simp add: claim_chain_sat_def claim_chain_apply [OF assms(2)])
qed

lemma claim_chain_counts:
  assumes "ps2_counts c ws"
  shows "ps2_counts (fst (ps2_claim_chain cd first (ps2_clusters_for len (p2_cluster_size cd)) False c)) (ws @ [ps2_span cd first len])"
    "snd (ps2_claim_chain cd first (ps2_clusters_for len (p2_cluster_size cd)) False c) = False"
  using counts_chain [OF assms span_distinct [of cd first len]] by (simp_all add: ps2_claim_chain_def ps2_span_def)

lemma claim_files_counts:
  assumes "ps2_counts c ws"
  shows "ps2_counts (fst (fold (ps2_claim_file cd dir False) is (c, False)))
      (ws @ map (\<lambda>i. ps2_span cd (ps2_entry_cluster dir i) (ps2_entry_length dir i)) (filter (ps2_is_file dir) is)) \<and>
    snd (fold (ps2_claim_file cd dir False) is (c, False)) = False"
  using assms
proof (induction "is" arbitrary: c ws)
  case (Cons i "is")
  show ?case
  proof (cases "ps2_is_file dir i")
    case True
    let ?p = "ps2_claim_chain cd (ps2_entry_cluster dir i) (ps2_clusters_for (ps2_entry_length dir i) (p2_cluster_size cd)) False c"
    have "ps2_claim_file cd dir False i (c, False) = (fst ?p, False)"
      using True claim_chain_counts(2) [OF Cons.prems] by (auto simp: ps2_claim_file_def ps2_is_file_def prod_eq_iff)
    then show ?thesis using Cons.IH [OF claim_chain_counts(1) [OF Cons.prems]] True by simp
  next
    case False
    then have "ps2_claim_file cd dir False i (c, False) = (c, False)" by (auto simp: ps2_claim_file_def ps2_is_file_def)
    then show ?thesis using Cons False by simp
  qed
qed simp

lemma claim_folder_counts:
  assumes "ps2_counts c ws"
  shows "ps2_counts (fst (ps2_claim_folder cd first n False c)) (ws @ ps2_folder_chains cd first n)"
proof (cases "ps2_read_dir cd first n")
  case None
  then show ?thesis using assms by (simp add: ps2_claim_folder_def ps2_folder_chains_def)
next
  case (Some dir)
  let ?p = "ps2_claim_chain cd first (ps2_clusters_for (wrap32 (n * PS2_ENTRY_SIZE)) (p2_cluster_size cd)) False c"
  have "?p = (fst ?p, False)" using claim_chain_counts(2) [OF assms] by (simp add: prod_eq_iff)
  then show ?thesis
    using claim_files_counts [OF claim_chain_counts(1) [OF assms], of cd dir "[2..<n]" cd first "wrap32 (n * PS2_ENTRY_SIZE)"] Some
    by (simp add: ps2_claim_folder_def ps2_folder_chains_def)
qed

lemma count_claims:
  "ps2_count_claims cd root n x = min 255 (ps2_uses (ps2_all_chains cd root n) x)"
proof -
  have step: "ps2_counts (fold (\<lambda>i claims. if ps2_is_folder root i
      then fst (ps2_claim_folder cd (ps2_entry_cluster root i) (ps2_entry_length root i) False claims) else claims) is c)
      (ws @ concat (map (ps2_root_chains cd root) is))" if "ps2_counts c ws" for "is" c ws
    using that
  proof (induction "is" arbitrary: c ws)
    case (Cons i "is")
    then show ?case
      using claim_folder_counts [OF Cons.prems, of cd "ps2_entry_cluster root i" "ps2_entry_length root i"]
      by (cases "ps2_is_folder root i") (simp_all add: ps2_root_chains_def flip: append_assoc)
  qed simp
  have "ps2_counts (\<lambda>_. 0) []" by (simp add: ps2_counts_def)
  from step [OF claim_chain_counts(1) [OF this]] show ?thesis
    by (simp add: ps2_counts_def ps2_count_claims_def ps2_all_chains_def)
qed

lemma claim_files_check:
  "fold (ps2_claim_file cd dir True) is (c, s) =
     (c, s \<or> (\<exists>i \<in> set is. ps2_is_file dir i \<and> (\<exists>x \<in> set (ps2_span cd (ps2_entry_cluster dir i) (ps2_entry_length dir i)). 1 < c x)))"
proof (induction "is" arbitrary: s)
  case (Cons i "is")
  have "ps2_claim_file cd dir True i (c, s) = (c, s \<or> ps2_is_file dir i \<and>
      (\<exists>x \<in> set (ps2_span cd (ps2_entry_cluster dir i) (ps2_entry_length dir i)). 1 < c x))"
    by (auto simp: ps2_claim_file_def ps2_is_file_def ps2_claim_chain_def ps2_span_def list_ex_iff)
  then show ?case using Cons.IH by simp
qed simp

lemma claim_folder_check:
  "snd (ps2_claim_folder cd first n True c) \<longleftrightarrow> (\<exists>w \<in> set (ps2_folder_chains cd first n). \<exists>x \<in> set w. 1 < c x)"
proof (cases "ps2_read_dir cd first n")
  case None
  then show ?thesis by (simp add: ps2_claim_folder_def ps2_folder_chains_def)
next
  case (Some dir)
  then show ?thesis
    by (auto simp: ps2_claim_folder_def ps2_folder_chains_def ps2_claim_chain_def claim_files_check list_ex_iff ps2_span_def)
qed

text \<open>A folder that reads whole and whose clusters only it uses, each once.\<close>

definition ps2_sound :: "sigil_ps2_card \<Rightarrow> mem \<Rightarrow> nat \<Rightarrow> nat \<Rightarrow> bool" where
  "ps2_sound cd root n i \<longleftrightarrow> ps2_is_folder root i \<and> plain_name (ps2_name_at root i) \<and>
     ps2_save_clusters cd (ps2_entry_cluster root i) (ps2_entry_length root i) \<noteq> None \<and>
     (\<forall>w \<in> set (ps2_root_chains cd root i). \<forall>x \<in> set w. ps2_uses (ps2_all_chains cd root n) x = 1)"

definition ps2_entry_of :: "sigil_ps2_card \<Rightarrow> mem \<Rightarrow> nat \<Rightarrow> sigil_card_entry" where
  "ps2_entry_of cd root i = \<lparr>ce_name = ps2_name_at root i, ce_owner_id = sigil_card_sony_owner (ps2_name_at root i),
     ce_blocks = the (ps2_save_clusters cd (ps2_entry_cluster root i) (ps2_entry_length root i)),
     ce_first_block = ps2_entry_cluster root i\<rparr>"

lemma uses_ge: "w \<in> set ws \<Longrightarrow> x \<in> set w \<Longrightarrow> 1 \<le> ps2_uses ws x"
  by (induction ws) auto

lemma uses_part: "i \<in> set is \<Longrightarrow> ps2_uses (f i) x \<le> ps2_uses (concat (map f is)) x"
  by (induction "is") auto

lemma uses_two: "i \<in> set is \<Longrightarrow> j \<in> set is \<Longrightarrow> i \<noteq> j \<Longrightarrow> ps2_uses (f i) x + ps2_uses (f j) x \<le> ps2_uses (concat (map f is)) x"
proof (induction "is")
  case (Cons k "is")
  then show ?case using uses_part [of i "is" f x] uses_part [of j "is" f x] by (cases "k = i"; cases "k = j") auto
qed simp

lemma shared_iff:
  assumes i: "i \<in> set [2..<n]" "ps2_is_folder root i"
  shows "\<not> snd (ps2_claim_folder cd (ps2_entry_cluster root i) (ps2_entry_length root i) True (ps2_count_claims cd root n)) \<longleftrightarrow>
    (\<forall>w \<in> set (ps2_root_chains cd root i). \<forall>x \<in> set w. ps2_uses (ps2_all_chains cd root n) x = 1)"
proof -
  have ge: "1 \<le> ps2_uses (ps2_all_chains cd root n) x" if "w \<in> set (ps2_root_chains cd root i)" "x \<in> set w" for w x
    using uses_ge [OF that] uses_part [OF i(1), of "ps2_root_chains cd root" x] by (simp add: ps2_all_chains_def)
  then have "\<not> 1 < ps2_count_claims cd root n x \<longleftrightarrow> ps2_uses (ps2_all_chains cd root n) x = 1"
    if "w \<in> set (ps2_root_chains cd root i)" "x \<in> set w" for w x
    using ge [OF that] by (auto simp: count_claims)
  then show ?thesis using i(2) by (fastforce simp: claim_folder_check ps2_root_chains_def)
qed

lemma list_fold:
  assumes "set is \<subseteq> set [2..<n]" "l' = fold (ps2_list_folder cd root (ps2_count_claims cd root n)) is l"
  shows "entries l' = entries l @ map (ps2_entry_of cd root) (filter (ps2_sound cd root n) is)"
    "corrupt_count l' = corrupt_count l + length (filter (\<lambda>i. ps2_is_folder root i \<and> \<not> ps2_sound cd root n i) is)"
    "map ce_first_block (corrupt_entries l') = map ce_first_block (corrupt_entries l) @
       map (ps2_entry_cluster root) (filter (\<lambda>i. ps2_is_folder root i \<and> \<not> ps2_sound cd root n i) is)"
    "total_blocks l' = total_blocks l" "free_blocks l' = free_blocks l" "free_slots l' = free_slots l" "cl_format l' = cl_format l"
proof -
  have "entries l' = entries l @ map (ps2_entry_of cd root) (filter (ps2_sound cd root n) is) \<and>
    corrupt_count l' = corrupt_count l + length (filter (\<lambda>i. ps2_is_folder root i \<and> \<not> ps2_sound cd root n i) is) \<and>
    map ce_first_block (corrupt_entries l') = map ce_first_block (corrupt_entries l) @
       map (ps2_entry_cluster root) (filter (\<lambda>i. ps2_is_folder root i \<and> \<not> ps2_sound cd root n i) is) \<and>
    total_blocks l' = total_blocks l \<and> free_blocks l' = free_blocks l \<and> free_slots l' = free_slots l \<and> cl_format l' = cl_format l"
    using assms
  proof (induction "is" arbitrary: l)
    case (Cons i "is")
    have i: "i \<in> set [2..<n]" using Cons.prems(1) by simp
    define l1 where "l1 = ps2_list_folder cd root (ps2_count_claims cd root n) i l"
    have l1: "l1 = (if \<not> ps2_is_folder root i then l else if ps2_sound cd root n i then listing_add l (ps2_entry_of cd root i)
        else sigil_card_listing_corrupt l (Some (ps2_name_at root i)) (Some (sigil_card_sony_owner (ps2_name_at root i))) (ps2_entry_cluster root i))"
    proof (cases "ps2_is_folder root i")
      case True
      then show ?thesis using shared_iff [OF i True, of cd]
        unfolding l1_def ps2_list_folder_def Let_def ps2_sound_def ps2_entry_of_def by auto
    qed (simp add: l1_def ps2_list_folder_def)
    have "ps2_sound cd root n i \<Longrightarrow> ps2_is_folder root i" by (simp add: ps2_sound_def)
    then show ?case using Cons.IH [of l1] Cons.prems l1 by (auto simp: l1_def [symmetric] listing_corrupt_named)
  qed simp
  then show "entries l' = entries l @ map (ps2_entry_of cd root) (filter (ps2_sound cd root n) is)"
    "corrupt_count l' = corrupt_count l + length (filter (\<lambda>i. ps2_is_folder root i \<and> \<not> ps2_sound cd root n i) is)"
    "map ce_first_block (corrupt_entries l') = map ce_first_block (corrupt_entries l) @
       map (ps2_entry_cluster root) (filter (\<lambda>i. ps2_is_folder root i \<and> \<not> ps2_sound cd root n i) is)"
    "total_blocks l' = total_blocks l" "free_blocks l' = free_blocks l" "free_slots l' = free_slots l" "cl_format l' = cl_format l"
    by simp_all
qed

lemma sound_disjoint:
  assumes "ps2_sound cd root n i" "i \<in> set [2..<n]"
    and v: "w \<in> set (ps2_root_chains cd root i)"
  shows "j \<in> set [2..<n] \<Longrightarrow> j \<noteq> i \<Longrightarrow> v \<in> set (ps2_root_chains cd root j) \<Longrightarrow> set w \<inter> set v = {}"
    "set w \<inter> set (ps2_span cd (p2_rootdir_cluster cd) (wrap32 (n * PS2_ENTRY_SIZE))) = {}"
proof -
  have u: "ps2_uses (ps2_all_chains cd root n) x = 1" if "x \<in> set w" for x
    using assms(1) v that by (auto simp: ps2_sound_def)
  show "set w \<inter> set v = {}" if j: "j \<in> set [2..<n]" "j \<noteq> i" "v \<in> set (ps2_root_chains cd root j)"
  proof -
    have False if "x \<in> set w" "x \<in> set v" for x
      using uses_two [OF assms(2) j(1) j(2) [symmetric], of "ps2_root_chains cd root" x] uses_ge [OF v that(1)] uses_ge [OF j(3) that(2)]
        u [OF that(1)] by (simp add: ps2_all_chains_def split: if_splits)
    then show ?thesis by blast
  qed
  have False if "x \<in> set w" "x \<in> set (ps2_span cd (p2_rootdir_cluster cd) (wrap32 (n * PS2_ENTRY_SIZE)))" for x
    using uses_part [OF assms(2), of "ps2_root_chains cd root" x] uses_ge [OF v that(1)] u [OF that(1)] that(2)
    by (simp add: ps2_all_chains_def)
  then show "set w \<inter> set (ps2_span cd (p2_rootdir_cluster cd) (wrap32 (n * PS2_ENTRY_SIZE))) = {}" by blast
qed

text \<open>The listing: the sound folders in order, the others counted as corrupt, the clusters of the card and
  those free; \<open>sound_disjoint\<close> says no two listed folders share a cluster.\<close>

lemma ps2_list_spec:
  assumes "ps2_read_dir cd (p2_rootdir_cluster cd) (ps2_root_entry_count cd) = Some root"
  obtains l where "sigil_ps2_card_list cd = Inr l"
    "entries l = map (ps2_entry_of cd root) (filter (ps2_sound cd root (ps2_root_entry_count cd)) [2..<ps2_root_entry_count cd])"
    "corrupt_count l = length (filter (\<lambda>i. ps2_is_folder root i \<and> \<not> ps2_sound cd root (ps2_root_entry_count cd) i)
       [2..<ps2_root_entry_count cd])"
    "total_blocks l = p2_alloc_end cd" "free_blocks l = length (filter (ps2_fat_free cd) [0..<p2_alloc_end cd])"
proof -
  obtain l where l: "sigil_ps2_card_list cd = Inr l" by (simp add: sigil_ps2_card_list_def Let_def assms)
  have e: "l = fold (ps2_list_folder cd root (ps2_count_claims cd root (ps2_root_entry_count cd))) [2..<ps2_root_entry_count cd]
      ((sigil_card_listing_new SIGIL_CARD_FORMAT_PS2)\<lparr>total_blocks := p2_alloc_end cd,
         free_blocks := length (filter (ps2_fat_free cd) [0..<p2_alloc_end cd]),
         free_slots := length (filter (ps2_fat_free cd) [0..<p2_alloc_end cd])\<rparr>)"
    using l by (simp add: sigil_ps2_card_list_def Let_def assms)
  show thesis
    by (rule that [OF l]) (use list_fold [OF subset_refl e] in \<open>simp_all add: sigil_card_listing_new_def\<close>)
qed

section \<open>Directories\<close>

text \<open>The bytes of entry \<open>i\<close> of a directory, in the cluster of its chain that holds it.\<close>

definition ps2_dir_byte :: "sigil_ps2_card \<Rightarrow> nat list \<Rightarrow> nat \<Rightarrow> nat \<Rightarrow> u8" where
  "ps2_dir_byte cd w i j = ps2_at cd (w ! (i div ps2_entries_per_cluster cd)) ((i mod ps2_entries_per_cluster cd) * PS2_ENTRY_SIZE + j)"

lemma chain_byte_entry:
  assumes "ps2_geometry cd" "j < 512"
  shows "ps2_chain_byte cd w (i * 512 + j) = ps2_dir_byte cd w i j"
proof -
  define e where "e = ps2_entries_per_cluster cd"
  have e: "p2_cluster_size cd = e * 512" "0 < e" using geometry_size [OF assms(1)] by (simp_all add: e_def)
  have "(i * 512 + j) div (512 * e) = (i * 512 + j) div 512 div e" by (simp add: div_mult2_eq)
  then have d: "(i * 512 + j) div p2_cluster_size cd = i div e" using assms(2) e by (simp add: mult.commute)
  have "(i * 512 + j) mod (512 * e) = 512 * ((i * 512 + j) div 512 mod e) + (i * 512 + j) mod 512" by (rule mod_mult2_eq)
  then have m: "(i * 512 + j) mod p2_cluster_size cd = (i mod e) * 512 + j" using assms(2) e by (simp add: mult.commute)
  show ?thesis by (simp add: ps2_chain_byte_def ps2_dir_byte_def d m PS2_ENTRY_SIZE_def flip: e_def)
qed

lemma read_dir_spec:
  assumes g: "ps2_geometry cd"
  shows "ps2_read_dir cd first n = (let w = ps2_walk_chain cd first in
     if n = 0 \<or> w = [] \<or> length w * ps2_entries_per_cluster cd < n then None
     else Some (mem_of (map (ps2_chain_byte cd w) [0..<n * 512])))"
proof (cases "n = 0")
  case True
  then show ?thesis by (simp add: ps2_read_dir_def)
next
  case False
  define w where "w = ps2_walk_chain cd first"
  define e where "e = ps2_entries_per_cluster cd"
  have e: "p2_cluster_size cd = e * 512" "0 < e" "p2_cluster_size cd div PS2_ENTRY_SIZE = e"
    using geometry_size [OF g] by (simp_all add: e_def PS2_ENTRY_SIZE_def)
  have lw: "length w \<le> p2_alloc_end cd"
  proof -
    have "length w = card (set w)" using ps2.walk_distinct [of cd first] by (simp add: w_def distinct_card)
    also have "\<dots> \<le> card {..<p2_alloc_end cd}" using walk_in_card by (intro card_mono) (auto simp: w_def)
    finally show ?thesis by simp
  qed
  have r: "ps2_read_chain cd first (n * 512) = (if w = [] \<or> length w * e < n then None
      else Some (map (ps2_chain_byte cd w) [0..<n * 512]))"
    using read_chain_spec [OF g, of "n * 512" first] False e(1) by (simp add: Let_def flip: w_def)
  have big: "length w * e < n" if "p2_alloc_end cd * e < n" using that mult_le_mono1 [OF lw, of e] by linarith
  show ?thesis
    unfolding ps2_read_dir_def e(3) Let_def w_def [symmetric] e_def [symmetric] using False r big by (auto simp: PS2_ENTRY_SIZE_def)
qed

text \<open>A directory that was read: its chain is long enough, and its entries are the ones of the clusters.\<close>

lemma read_dirD:
  assumes g: "ps2_geometry cd" and r: "ps2_read_dir cd first n = Some dir"
  shows "0 < n" "ps2_walk_chain cd first \<noteq> []" "n \<le> length (ps2_walk_chain cd first) * ps2_entries_per_cluster cd"
    "i < n \<Longrightarrow> i div ps2_entries_per_cluster cd < length (ps2_walk_chain cd first)"
    "i < n \<Longrightarrow> j < 512 \<Longrightarrow> dir (i * 512 + j) = ps2_dir_byte cd (ps2_walk_chain cd first) i j"
proof -
  define w where "w = ps2_walk_chain cd first"
  have d: "0 < n" "w \<noteq> []" "n \<le> length w * ps2_entries_per_cluster cd" "dir = mem_of (map (ps2_chain_byte cd w) [0..<n * 512])"
    using r by (auto simp: read_dir_spec [OF g] Let_def simp flip: w_def split: if_splits)
  then show "0 < n" "ps2_walk_chain cd first \<noteq> []" "n \<le> length (ps2_walk_chain cd first) * ps2_entries_per_cluster cd"
    by (simp_all add: w_def)
  show "i div ps2_entries_per_cluster cd < length (ps2_walk_chain cd first)" if "i < n"
    using that d(3) by (simp add: less_mult_imp_div_less flip: w_def)
  show "dir (i * 512 + j) = ps2_dir_byte cd (ps2_walk_chain cd first) i j" if "i < n" "j < 512"
  proof -
    have "i * 512 + j < n * 512" using that by linarith
    then show ?thesis using chain_byte_entry [OF g that(2)] by (simp add: d(4) mem_of_def flip: w_def)
  qed
qed

lemma read_dirI:
  assumes "ps2_geometry cd" "0 < n" "ps2_walk_chain cd first \<noteq> []"
    "n \<le> length (ps2_walk_chain cd first) * ps2_entries_per_cluster cd"
  obtains dir where "ps2_read_dir cd first n = Some dir"
  using assms by (auto simp: read_dir_spec Let_def)

section \<open>Cards that agree on some clusters\<close>

definition ps2_agree :: "sigil_ps2_card \<Rightarrow> sigil_ps2_card \<Rightarrow> nat set \<Rightarrow> bool" where
  "ps2_agree cd cd' C \<longleftrightarrow> ps2_shape cd' = ps2_shape cd \<and> (\<forall>c \<in> C. ps2_fat_view cd' c = ps2_fat_view cd c \<and>
     (\<forall>j < p2_cluster_size cd. ps2_at cd' c j = ps2_at cd c j))"

lemma agree_mono: "ps2_agree cd cd' C \<Longrightarrow> D \<subseteq> C \<Longrightarrow> ps2_agree cd cd' D"
  by (auto simp: ps2_agree_def)

lemma agree_refl [simp]: "ps2_agree cd cd C"
  by (simp add: ps2_agree_def)

lemma agree_trans: "ps2_agree a b C \<Longrightarrow> ps2_agree b c C \<Longrightarrow> ps2_agree a c C"
  by (simp add: ps2_agree_def shape_eq)

lemma agree_sym: "ps2_agree a b C \<Longrightarrow> ps2_agree b a C"
  by (simp add: ps2_agree_def shape_eq)

lemma agree_walk:
  assumes "ps2_agree cd cd' C" "ps2_walk_chain cd b \<noteq> []" "set (ps2_walk_chain cd b) \<subseteq> C"
  shows "ps2_walk_chain cd' b = ps2_walk_chain cd b"
  by (rule walk_cong) (use assms in \<open>auto simp: ps2_agree_def\<close>)

lemma agree_read_chain:
  assumes g: "ps2_geometry cd" and a: "ps2_agree cd cd' C" and w: "ps2_walk_chain cd b \<noteq> []" "set (ps2_walk_chain cd b) \<subseteq> C" and l: "0 < len"
  shows "ps2_read_chain cd' b len = ps2_read_chain cd b len"
proof -
  have sh: "ps2_shape cd' = ps2_shape cd" using a by (simp add: ps2_agree_def)
  have s: "p2_cluster_size cd' = p2_cluster_size cd" "ps2_geometry cd'" using sh g shape_geometry [OF sh] by (simp_all add: shape_eq)
  have cs: "0 < p2_cluster_size cd" using geometry_size(1) [OF g] by simp
  have "ps2_chain_byte cd' (ps2_walk_chain cd b) i = ps2_chain_byte cd (ps2_walk_chain cd b) i"
    if "i < len" "\<not> length (ps2_walk_chain cd b) * p2_cluster_size cd < len" for i
  proof -
    have "i div p2_cluster_size cd < length (ps2_walk_chain cd b)" using that by (simp add: less_mult_imp_div_less)
    then have "ps2_walk_chain cd b ! (i div p2_cluster_size cd) \<in> C" using w(2) nth_mem by blast
    moreover have "i mod p2_cluster_size cd < p2_cluster_size cd" using cs by simp
    ultimately have "ps2_at cd' (ps2_walk_chain cd b ! (i div p2_cluster_size cd)) (i mod p2_cluster_size cd) =
        ps2_at cd (ps2_walk_chain cd b ! (i div p2_cluster_size cd)) (i mod p2_cluster_size cd)"
      using a unfolding ps2_agree_def by blast
    then show ?thesis by (simp add: ps2_chain_byte_def s)
  qed
  then show ?thesis
    unfolding read_chain_spec [OF g l] read_chain_spec [OF s(2) l] agree_walk [OF a w] s Let_def by auto
qed

lemma agree_read_dir:
  assumes g: "ps2_geometry cd" and a: "ps2_agree cd cd' C" and w: "ps2_walk_chain cd b \<noteq> []" "set (ps2_walk_chain cd b) \<subseteq> C"
  shows "ps2_read_dir cd' b n = ps2_read_dir cd b n"
proof (cases "n = 0")
  case False
  have "p2_cluster_size cd' = p2_cluster_size cd" "p2_alloc_end cd' = p2_alloc_end cd" using a by (simp_all add: ps2_agree_def shape_eq)
  moreover have "ps2_read_chain cd' b (n * PS2_ENTRY_SIZE) = ps2_read_chain cd b (n * PS2_ENTRY_SIZE)"
    by (rule agree_read_chain [OF g a w]) (use False in \<open>simp add: PS2_ENTRY_SIZE_def\<close>)
  ultimately show ?thesis by (simp add: ps2_read_dir_def)
qed (simp add: ps2_read_dir_def)

section \<open>Folders\<close>

text \<open>What extraction reads of a folder, once its first cluster and its length are known: the folder's own
  two entries and its files.\<close>

definition ps2_read_file :: "sigil_ps2_card \<Rightarrow> mem \<Rightarrow> nat \<Rightarrow> bytes option" where
  "ps2_read_file cd dir i = (if ps2_entry_length dir i = 0 then Some []
     else ps2_read_chain cd (ps2_entry_cluster dir i) (ps2_entry_length dir i))"

definition ps2_file_at :: "sigil_ps2_card \<Rightarrow> mem \<Rightarrow> nat \<Rightarrow> sigil_ps2_file" where
  "ps2_file_at cd dir i = \<lparr>p2f_entry = bytes_at dir (i * PS2_ENTRY_SIZE) PS2_ENTRY_SIZE, p2f_data = the (ps2_read_file cd dir i)\<rparr>"

definition ps2_exists :: "mem \<Rightarrow> nat \<Rightarrow> bool" where "ps2_exists dir i = ps2_entry_is dir i PS2_MODE_EXISTS"

definition ps2_body_ok :: "sigil_ps2_card \<Rightarrow> nat \<Rightarrow> nat \<Rightarrow> bool" where
  "ps2_body_ok cd first n \<longleftrightarrow> 2 \<le> n \<and> (\<exists>dir. ps2_read_dir cd first n = Some dir \<and>
     (\<forall>i \<in> {2..<n}. ps2_exists dir i \<longrightarrow> ps2_entry_is dir i PS2_MODE_FILE \<and> ps2_read_file cd dir i \<noteq> None))"

definition ps2_body :: "sigil_ps2_card \<Rightarrow> nat \<Rightarrow> nat \<Rightarrow> bytes \<times> bytes \<times> sigil_ps2_file list" where
  "ps2_body cd first n = (let dir = the (ps2_read_dir cd first n) in
     (bytes_at dir 0 PS2_ENTRY_SIZE, bytes_at dir PS2_ENTRY_SIZE PS2_ENTRY_SIZE,
      map (ps2_file_at cd dir) (filter (ps2_exists dir) [2..<n])))"

lemma extract_fold:
  "fold (ps2_extract_file cd dir) is (Inr acc) = (if \<forall>i \<in> set is. ps2_exists dir i \<longrightarrow>
       ps2_entry_is dir i PS2_MODE_FILE \<and> ps2_read_file cd dir i \<noteq> None
     then Inr (acc @ map (ps2_file_at cd dir) (filter (ps2_exists dir) is)) else Inl SIGIL_ERR_UNSUPPORTED_FORMAT)"
proof (induction "is" arbitrary: acc)
  case (Cons i "is")
  have err: "fold (ps2_extract_file cd dir) is (Inl e) = Inl e" for e "is"
    by (induction "is") (simp_all add: ps2_extract_file_def)
  show ?case
  proof (cases "ps2_exists dir i")
    case True
    show ?thesis
    proof (cases "ps2_entry_is dir i PS2_MODE_FILE \<and> ps2_read_file cd dir i \<noteq> None")
      case ok: True
      then have "ps2_extract_file cd dir i (Inr acc) = Inr (acc @ [ps2_file_at cd dir i])"
        using True by (auto simp: ps2_extract_file_def ps2_exists_def ps2_file_at_def ps2_read_file_def Let_def split: if_splits)
      then show ?thesis using Cons.IH True ok by simp
    next
      case bad: False
      then have "ps2_extract_file cd dir i (Inr acc) = Inl SIGIL_ERR_UNSUPPORTED_FORMAT"
        using True by (auto simp: ps2_extract_file_def ps2_exists_def ps2_read_file_def Let_def split: if_splits)
      then show ?thesis using True bad by (auto simp: err)
    qed
  next
    case False
    then have "ps2_extract_file cd dir i (Inr acc) = Inr acc" by (simp add: ps2_extract_file_def ps2_exists_def)
    then show ?thesis using Cons.IH False by simp
  qed
qed simp

text \<open>The root's entry of a folder by its index, and the save the folder is.\<close>

definition ps2_root_entry :: "mem \<Rightarrow> nat \<Rightarrow> bytes" where
  "ps2_root_entry root i = bytes_at root (i * PS2_ENTRY_SIZE) PS2_ENTRY_SIZE"

lemma entry_length_at: "ps2_entry_length root i = unat (sigil_read_le32 (mem_of (ps2_root_entry root i)) PS2_ENTRY_LENGTH)"
proof -
  have "sigil_read_le32 (mem_of (ps2_root_entry root i)) PS2_ENTRY_LENGTH = sigil_read_le32 root (i * PS2_ENTRY_SIZE + PS2_ENTRY_LENGTH)"
    by (rule read_le32_cong) (auto simp: ps2_root_entry_def ps2_consts mem_of_def add.assoc)
  then show ?thesis by (simp add: ps2_entry_length_def)
qed

definition ps2_save_at :: "sigil_ps2_card \<Rightarrow> mem \<Rightarrow> nat \<Rightarrow> sigil_ps2_save" where
  "ps2_save_at cd root i = (case ps2_body cd (ps2_entry_cluster root i) (ps2_entry_length root i) of
     (self1, parent1, files) \<Rightarrow> \<lparr>p2s_entry = ps2_root_entry root i, p2s_self = self1, p2s_parent = parent1, p2s_files = files\<rparr>)"

lemma extract_body:
  assumes "ps2_root_entry_for cd first = Some (i, e)" "ps2_read_dir cd (p2_rootdir_cluster cd) (ps2_root_entry_count cd) = Some root"
  shows "e = ps2_root_entry root i" "ps2_entry_cluster root i = first" "2 \<le> i" "i < ps2_root_entry_count cd" "ps2_is_folder root i"
    "sigil_ps2_extract cd first = (if ps2_body_ok cd first (ps2_entry_length root i) then Inr (ps2_save_at cd root i)
       else Inl SIGIL_ERR_UNSUPPORTED_FORMAT)"
proof -
  have f: "find (\<lambda>i. ps2_is_folder root i \<and> ps2_entry_cluster root i = first) [2..<ps2_root_entry_count cd] = Some i"
    and e: "e = ps2_root_entry root i"
    using assms by (auto simp: ps2_root_entry_for_def Let_def ps2_root_entry_def)
  show "e = ps2_root_entry root i" by (rule e)
  have i: "i \<in> set [2..<ps2_root_entry_count cd]" "ps2_is_folder root i" "ps2_entry_cluster root i = first"
    using f by (auto simp: find_Some_iff) 
  then show "ps2_entry_cluster root i = first" "2 \<le> i" "i < ps2_root_entry_count cd" "ps2_is_folder root i" by simp_all
  show "sigil_ps2_extract cd first = (if ps2_body_ok cd first (ps2_entry_length root i) then Inr (ps2_save_at cd root i)
       else Inl SIGIL_ERR_UNSUPPORTED_FORMAT)"
    unfolding sigil_ps2_extract_def assms(1) e option.case prod.case entry_length_at [symmetric] Let_def
    by (auto simp: ps2_body_ok_def extract_fold ps2_save_at_def ps2_body_def Let_def i(3) split: option.splits)
qed

text \<open>The chains a folder really has, to their ends.\<close>

definition ps2_file_walks :: "sigil_ps2_card \<Rightarrow> mem \<Rightarrow> nat \<Rightarrow> nat list list" where
  "ps2_file_walks cd dir n = map (\<lambda>i. ps2_walk_chain cd (ps2_entry_cluster dir i))
     (filter (\<lambda>i. ps2_exists dir i \<and> 0 < ps2_entry_length dir i) [2..<n])"

definition ps2_folder_walks :: "sigil_ps2_card \<Rightarrow> nat \<Rightarrow> nat \<Rightarrow> nat list list" where
  "ps2_folder_walks cd first n = ps2_walk_chain cd first # ps2_file_walks cd (the (ps2_read_dir cd first n)) n"

lemma read_chain_walk: "ps2_geometry cd \<Longrightarrow> 0 < len \<Longrightarrow> ps2_read_chain cd b len \<noteq> None \<Longrightarrow> ps2_walk_chain cd b \<noteq> []"
  by (auto simp: read_chain_spec Let_def split: if_splits)

lemma body_walks:
  assumes g: "ps2_geometry cd" and ok: "ps2_body_ok cd first n" and w: "w \<in> set (ps2_folder_walks cd first n)"
  shows "w \<noteq> []"
proof -
  obtain dir where d: "ps2_read_dir cd first n = Some dir"
    "\<And>i. i \<in> {2..<n} \<Longrightarrow> ps2_exists dir i \<Longrightarrow> ps2_read_file cd dir i \<noteq> None" using ok by (auto simp: ps2_body_ok_def)
  consider "w = ps2_walk_chain cd first" | i where "i \<in> {2..<n}" "ps2_exists dir i" "0 < ps2_entry_length dir i"
    "w = ps2_walk_chain cd (ps2_entry_cluster dir i)" using w by (auto simp: ps2_folder_walks_def ps2_file_walks_def d(1))
  then show ?thesis
  proof cases
    case 1
    then show ?thesis using read_dirD(2) [OF g d(1)] by simp
  next
    case 2
    then show ?thesis using d(2) [OF 2(1,2)] read_chain_walk [OF g 2(3)] by (simp add: ps2_read_file_def)
  qed
qed

lemma agree_body:
  assumes g: "ps2_geometry cd" and a: "ps2_agree cd cd' C" and ok: "ps2_body_ok cd first n"
    and w: "\<Union> (set ` set (ps2_folder_walks cd first n)) \<subseteq> C"
  shows "ps2_body_ok cd' first n" "ps2_body cd' first n = ps2_body cd first n" "ps2_folder_walks cd' first n = ps2_folder_walks cd first n"
proof -
  obtain dir where d: "2 \<le> n" "ps2_read_dir cd first n = Some dir"
    "\<And>i. i \<in> {2..<n} \<Longrightarrow> ps2_exists dir i \<Longrightarrow> ps2_entry_is dir i PS2_MODE_FILE \<and> ps2_read_file cd dir i \<noteq> None" using ok by (auto simp: ps2_body_ok_def)
  have ne: "v \<noteq> []" "set v \<subseteq> C" if "v \<in> set (ps2_folder_walks cd first n)" for v
    using body_walks [OF g ok that] w that by blast+
  have f: "ps2_walk_chain cd first \<in> set (ps2_folder_walks cd first n)" by (simp add: ps2_folder_walks_def)
  have d': "ps2_read_dir cd' first n = Some dir" using agree_read_dir [OF g a ne [OF f]] d(2) by simp
  have fw: "ps2_walk_chain cd (ps2_entry_cluster dir i) \<in> set (ps2_folder_walks cd first n)"
    if "i \<in> {2..<n}" "ps2_exists dir i" "0 < ps2_entry_length dir i" for i
    using that by (auto simp: ps2_folder_walks_def ps2_file_walks_def d(2))
  have rf: "ps2_read_file cd' dir i = ps2_read_file cd dir i" if "i \<in> {2..<n}" "ps2_exists dir i" for i
    using agree_read_chain [OF g a ne [OF fw [OF that]]] by (auto simp: ps2_read_file_def)
  show "ps2_body_ok cd' first n" using d d' rf by (auto simp: ps2_body_ok_def)
  show "ps2_body cd' first n = ps2_body cd first n"
    using rf by (auto simp: ps2_body_def d(2) d' ps2_file_at_def)
  have "ps2_file_walks cd' dir n = ps2_file_walks cd dir n"
    using agree_walk [OF a ne [OF fw]] by (auto simp: ps2_file_walks_def)
  then show "ps2_folder_walks cd' first n = ps2_folder_walks cd first n"
    using agree_walk [OF a ne [OF f]] by (simp add: ps2_folder_walks_def d(2) d')
qed

section \<open>Writing clusters and directory entries\<close>

text \<open>\<open>ps2_wrote cd cd' S\<close>: only data clusters in \<open>S\<close> were written; the FAT says what it said.\<close>

definition ps2_wrote :: "sigil_ps2_card \<Rightarrow> sigil_ps2_card \<Rightarrow> nat set \<Rightarrow> bool" where
  "ps2_wrote cd cd' S \<longleftrightarrow> ps2_fat_ok cd' \<and> ps2_shape cd' = ps2_shape cd \<and> ps2_fat_view cd' = ps2_fat_view cd \<and>
     (\<forall>c j. c \<notin> S \<longrightarrow> j < p2_cluster_size cd \<longrightarrow> ps2_at cd' c j = ps2_at cd c j)"

lemma wrote_agree: "ps2_wrote cd cd' S \<Longrightarrow> ps2_agree cd cd' (- S)"
  by (simp add: ps2_wrote_def ps2_agree_def)

lemma wrote_refl: "ps2_fat_ok cd \<Longrightarrow> ps2_wrote cd cd S"
  by (simp add: ps2_wrote_def)

lemma wrote_trans: "ps2_wrote a b S \<Longrightarrow> ps2_wrote b c T \<Longrightarrow> ps2_wrote a c (S \<union> T)"
  by (simp add: ps2_wrote_def shape_eq)

lemma wrote_mono: "ps2_wrote a b S \<Longrightarrow> S \<subseteq> T \<Longrightarrow> ps2_wrote a b T"
  unfolding ps2_wrote_def by blast

definition ps2_data_at :: "sigil_ps2_card \<Rightarrow> nat \<Rightarrow> nat" where
  "ps2_data_at cd c = (c + p2_alloc_offset cd) * p2_cluster_size cd"

lemma other_cluster:
  assumes "c \<noteq> d" "j < p2_cluster_size cd"
  shows "ps2_data_at cd d + j < ps2_data_at cd c \<or> ps2_data_at cd c + p2_cluster_size cd \<le> ps2_data_at cd d + j"
proof (cases "d < c")
  case True
  then have "(d + p2_alloc_offset cd + 1) * p2_cluster_size cd \<le> (c + p2_alloc_offset cd) * p2_cluster_size cd"
    by (intro mult_le_mono1) simp
  then show ?thesis using assms(2) by (simp add: ps2_data_at_def)
next
  case False
  then have "(c + p2_alloc_offset cd + 1) * p2_cluster_size cd \<le> (d + p2_alloc_offset cd) * p2_cluster_size cd"
    using assms(1) by (intro mult_le_mono1) simp
  then show ?thesis by (simp add: ps2_data_at_def)
qed

lemma data_write:
  assumes ok: "ps2_fat_ok cd" and s: "ps2_shape cd' = ps2_shape cd"
    and m: "\<And>i. i < ps2_data_at cd c + lo \<or> ps2_data_at cd c + hi \<le> i \<Longrightarrow> p2_clusters cd' i = p2_clusters cd i"
    and h: "hi \<le> p2_cluster_size cd"
  shows "ps2_wrote cd cd' {c}"
proof -
  have g: "ps2_geometry cd" using ok by (simp add: ps2_fat_ok_def)
  have low: "p2_clusters cd' i = p2_clusters cd i" if "i < p2_alloc_offset cd * p2_cluster_size cd" for i
  proof (rule m)
    have "p2_alloc_offset cd * p2_cluster_size cd \<le> ps2_data_at cd c" by (simp add: ps2_data_at_def)
    then show "i < ps2_data_at cd c + lo \<or> ps2_data_at cd c + hi \<le> i" using that by linarith
  qed
  have ind: "p2_clusters cd' (ps2_indirect cd n * p2_cluster_size cd + j) = p2_clusters cd (ps2_indirect cd n * p2_cluster_size cd + j)"
    if "n < p2_alloc_end cd" "j < p2_cluster_size cd" for n j
  proof (rule low)
    have "ps2_indirect cd n < p2_alloc_offset cd" using ok that(1) by (simp add: ps2_fat_ok_def)
    then have "(ps2_indirect cd n + 1) * p2_cluster_size cd \<le> p2_alloc_offset cd * p2_cluster_size cd" by (intro mult_le_mono1) simp
    then show "ps2_indirect cd n * p2_cluster_size cd + j < p2_alloc_offset cd * p2_cluster_size cd" using that(2) by simp
  qed
  note f = fat_ok_cong [OF ok s ind]
  have ae: "p2_alloc_end cd' = p2_alloc_end cd" using s by (simp add: shape_eq)
  have v: "ps2_fat_view cd' n = ps2_fat_view cd n" for n
  proof (cases "n < p2_alloc_end cd")
    case True
    have "sigil_read_le32 (p2_clusters cd') (ps2_fat_at cd n) = sigil_read_le32 (p2_clusters cd) (ps2_fat_at cd n)"
      by (rule read_le32_cong, rule low) (use fat_at_bounds(2) [OF ok True] in linarith)
    then show ?thesis
      using fat_entry_at [OF ok True] fat_entry_at [OF f(1), of n] True f(3) [OF _ _ True] ae by (simp add: ps2_fat_view_def)
  qed (simp add: ps2_fat_view_def ae)
  have "ps2_at cd' d j = ps2_at cd d j" if "d \<noteq> c" "j < p2_cluster_size cd" for d j
  proof -
    have "p2_clusters cd' (ps2_data_at cd d + j) = p2_clusters cd (ps2_data_at cd d + j)"
      by (rule m) (use other_cluster [OF that(1) [symmetric] that(2)] h in linarith)
    then show ?thesis using s by (simp add: ps2_at_def ps2_data_at_def shape_eq)
  qed
  then show ?thesis using f(1) s v by (simp add: ps2_wrote_def fun_eq_iff)
qed

text \<open>The slot of a directory entry.\<close>

definition ps2_slot_at :: "sigil_ps2_card \<Rightarrow> nat list \<Rightarrow> nat \<Rightarrow> nat" where
  "ps2_slot_at cd w i = ps2_data_at cd (w ! (i div ps2_entries_per_cluster cd)) + (i mod ps2_entries_per_cluster cd) * PS2_ENTRY_SIZE"

lemma mark_dirty [simp]:
  "p2_clusters (ps2_mark_cluster_dirty cd a) = p2_clusters cd" "ps2_shape (ps2_mark_cluster_dirty cd a) = ps2_shape cd"
  "ps2_shape (cd\<lparr>p2_clusters := m\<rparr>) = ps2_shape cd"
  by (simp_all add: ps2_mark_cluster_dirty_def ps2_shape_def Let_def)

lemma relative_cluster:
  assumes "ps2_geometry cd" "c < p2_alloc_end cd"
  shows "ps2_relative_cluster cd c = (ps2_data_at cd c, ps2_mark_cluster_dirty cd (c + p2_alloc_offset cd))"
  using relative_absolute(1) [OF assms] by (simp add: ps2_relative_cluster_def ps2_data_at_def ps2_cluster_at_def Let_def)

lemma entry_slot:
  assumes "ps2_geometry cd" "w ! (i div ps2_entries_per_cluster cd) < p2_alloc_end cd"
  shows "ps2_entry_slot cd w i = (ps2_slot_at cd w i, ps2_mark_cluster_dirty cd (w ! (i div ps2_entries_per_cluster cd) + p2_alloc_offset cd))"
  using relative_cluster [OF assms] by (simp add: ps2_entry_slot_def ps2_slot_at_def)

lemma slot_byte: "p2_clusters cd (ps2_slot_at cd w i + j) = ps2_dir_byte cd w i j"
  by (simp add: ps2_slot_at_def ps2_dir_byte_def ps2_at_def ps2_data_at_def add.assoc)

lemma slot_fits:
  assumes "ps2_geometry cd"
  shows "(i mod ps2_entries_per_cluster cd) * 512 + 512 \<le> p2_cluster_size cd"
proof -
  have e: "p2_cluster_size cd = ps2_entries_per_cluster cd * 512" "0 < ps2_entries_per_cluster cd" using geometry_size [OF assms] by simp_all
  have "(i mod ps2_entries_per_cluster cd + 1) * 512 \<le> ps2_entries_per_cluster cd * 512"
    using e(2) by (intro mult_le_mono1) (simp add: Suc_leI)
  then show ?thesis using e(1) by simp
qed

lemma slot_write:
  assumes ok: "ps2_fat_ok cd" and s: "ps2_shape cd' = ps2_shape cd"
    and m: "\<And>i. i < ps2_slot_at cd w k \<or> ps2_slot_at cd w k + 512 \<le> i \<Longrightarrow> p2_clusters cd' i = p2_clusters cd i"
    and w: "distinct w" "k div ps2_entries_per_cluster cd < length w"
  shows "ps2_wrote cd cd' {w ! (k div ps2_entries_per_cluster cd)}"
    "i div ps2_entries_per_cluster cd < length w \<Longrightarrow> i \<noteq> k \<Longrightarrow> j < 512 \<Longrightarrow> ps2_dir_byte cd' w i j = ps2_dir_byte cd w i j"
    "ps2_dir_byte cd' w k j = p2_clusters cd' (ps2_slot_at cd w k + j)"
proof -
  define e where "e = ps2_entries_per_cluster cd"
  have g: "ps2_geometry cd" using ok by (simp add: ps2_fat_ok_def)
  have eq: "ps2_entries_per_cluster cd' = e" "p2_cluster_size cd' = p2_cluster_size cd" "p2_alloc_offset cd' = p2_alloc_offset cd"
    using s by (simp_all add: e_def ps2_entries_per_cluster_def shape_eq)
  have fits: "(k mod e) * 512 + 512 \<le> p2_cluster_size cd" using slot_fits [OF g, of k] by (simp add: e_def)
  show wr: "ps2_wrote cd cd' {w ! (k div ps2_entries_per_cluster cd)}"
    by (rule data_write [OF ok s, where lo = "(k mod e) * 512" and hi = "(k mod e) * 512 + 512"])
      (use m fits in \<open>auto simp: ps2_slot_at_def PS2_ENTRY_SIZE_def e_def add.assoc\<close>)
  have sl: "ps2_slot_at cd' v i = ps2_slot_at cd v i" for v i
    by (simp add: ps2_slot_at_def ps2_data_at_def eq flip: e_def)
  show "ps2_dir_byte cd' w k j = p2_clusters cd' (ps2_slot_at cd w k + j)" using slot_byte [of cd' w k j] sl by simp
  show "ps2_dir_byte cd' w i j = ps2_dir_byte cd w i j"
    if i: "i div ps2_entries_per_cluster cd < length w" "i \<noteq> k" "j < 512"
  proof (cases "i div e = k div e")
    case True
    then have "i mod e \<noteq> k mod e" using i(2) by (metis div_mult_mod_eq)
    then have "i mod e < k mod e \<or> k mod e < i mod e" by linarith
    then have "(i mod e) * 512 + 512 \<le> (k mod e) * 512 \<or> (k mod e) * 512 + 512 \<le> (i mod e) * (512 :: nat)" by auto
    then have "p2_clusters cd' (ps2_slot_at cd w i + j) = p2_clusters cd (ps2_slot_at cd w i + j)"
      using i(3) True by (intro m) (auto simp: ps2_slot_at_def PS2_ENTRY_SIZE_def simp flip: e_def)
    then show ?thesis using slot_byte [of cd' w i j] slot_byte [of cd w i j] sl by simp
  next
    case False
    then have "w ! (i div e) \<noteq> w ! (k div e)" using w i(1) by (simp add: nth_eq_iff_index_eq e_def)
    moreover have "(i mod e) * 512 + j < p2_cluster_size cd" using slot_fits [OF g, of i] i(3) by (simp add: e_def)
    ultimately show ?thesis using wr by (simp add: ps2_wrote_def ps2_dir_byte_def eq PS2_ENTRY_SIZE_def flip: e_def)
  qed
qed

section \<open>A sound card and the saves on it\<close>

definition ps2_root :: "sigil_ps2_card \<Rightarrow> mem" where
  "ps2_root cd = the (ps2_read_dir cd (p2_rootdir_cluster cd) (ps2_root_entry_count cd))"

definition ps2_root_walk :: "sigil_ps2_card \<Rightarrow> nat list" where
  "ps2_root_walk cd = ps2_walk_chain cd (p2_rootdir_cluster cd)"

text \<open>The folders of the root, by index, and the chains of each.\<close>

definition ps2_folder :: "sigil_ps2_card \<Rightarrow> nat \<Rightarrow> bool" where
  "ps2_folder cd i \<longleftrightarrow> 2 \<le> i \<and> i < ps2_root_entry_count cd \<and> ps2_is_folder (ps2_root cd) i"

definition ps2_first :: "sigil_ps2_card \<Rightarrow> nat \<Rightarrow> nat" where "ps2_first cd i = ps2_entry_cluster (ps2_root cd) i"
definition ps2_count :: "sigil_ps2_card \<Rightarrow> nat \<Rightarrow> nat" where "ps2_count cd i = ps2_entry_length (ps2_root cd) i"

definition ps2_walks_of :: "sigil_ps2_card \<Rightarrow> nat \<Rightarrow> nat list list" where
  "ps2_walks_of cd i = (if ps2_folder cd i then ps2_folder_walks cd (ps2_first cd i) (ps2_count cd i) else [])"

definition ps2_card_walks :: "sigil_ps2_card \<Rightarrow> nat list list" where
  "ps2_card_walks cd = ps2_root_walk cd # concat (map (ps2_walks_of cd) [0..<ps2_root_entry_count cd])"

text \<open>A card whose root and folders read, whose chains are apart, and whose other clusters are free.\<close>

definition ps2_clean :: "sigil_ps2_card \<Rightarrow> bool" where
  "ps2_clean cd \<longleftrightarrow> ps2_fat_ok cd \<and> 2 \<le> ps2_root_entry_count cd \<and>
     ps2_read_dir cd (p2_rootdir_cluster cd) (ps2_root_entry_count cd) \<noteq> None \<and>
     (\<forall>i. ps2_folder cd i \<longrightarrow> ps2_body_ok cd (ps2_first cd i) (ps2_count cd i)) \<and>
     (\<forall>x < p2_alloc_end cd. ps2_uses (ps2_card_walks cd) x = (if ps2_fat_free cd x then 0 else 1))"

text \<open>The saves by their index in the root, their place on the card aside.\<close>

definition ps2_unplaced :: "sigil_ps2_save \<Rightarrow> sigil_ps2_save" where
  "ps2_unplaced s = s\<lparr>p2s_entry := ps2_no_cluster (p2s_entry s),
     p2s_files := map (\<lambda>f. f\<lparr>p2f_entry := ps2_no_cluster (p2f_entry f)\<rparr>) (p2s_files s)\<rparr>"

definition ps2_view :: "sigil_ps2_card \<Rightarrow> nat \<Rightarrow> sigil_ps2_save option" where
  "ps2_view cd i = (if ps2_folder cd i then Some (ps2_unplaced (ps2_save_at cd (ps2_root cd) i)) else None)"

lemma clean_geometry: "ps2_clean cd \<Longrightarrow> ps2_geometry cd" "ps2_clean cd \<Longrightarrow> ps2_fat_ok cd"
  by (simp_all add: ps2_clean_def ps2_fat_ok_def)

lemma clean_root:
  assumes "ps2_clean cd"
  shows "ps2_read_dir cd (p2_rootdir_cluster cd) (ps2_root_entry_count cd) = Some (ps2_root cd)"
  using assms by (auto simp: ps2_clean_def ps2_root_def)

lemma clean_root_walk:
  assumes c: "ps2_clean cd"
  shows "ps2_root_walk cd \<noteq> []" "distinct (ps2_root_walk cd)"
    "i < ps2_root_entry_count cd \<Longrightarrow> i div ps2_entries_per_cluster cd < length (ps2_root_walk cd)"
    "i < ps2_root_entry_count cd \<Longrightarrow> j < 512 \<Longrightarrow> ps2_root cd (i * 512 + j) = ps2_dir_byte cd (ps2_root_walk cd) i j"
    "ps2_root_entry_count cd \<le> length (ps2_root_walk cd) * ps2_entries_per_cluster cd"
  using read_dirD [OF clean_geometry(1) [OF c] clean_root [OF c]] ps2.walk_distinct by (simp_all add: ps2_root_walk_def)

text \<open>The chains of the root and of the folders, apart from each other.\<close>

lemma uses_le_apart:
  assumes "\<And>x. x \<in> set w \<Longrightarrow> ps2_uses (vs @ w # ws) x \<le> 1" "v \<in> set (vs @ ws)"
  shows "set w \<inter> set v = {}"
proof -
  have False if "x \<in> set w" "x \<in> set v" for x
  proof -
    have "1 \<le> ps2_uses (vs @ ws) x" by (rule uses_ge [OF assms(2) that(2)])
    then show False using assms(1) [OF that(1)] that(1) by simp
  qed
  then show ?thesis by blast
qed

lemma clean_uses:
  assumes c: "ps2_clean cd"
  shows "ps2_uses (ps2_card_walks cd) x \<le> 1"
proof (cases "x < p2_alloc_end cd")
  case True
  then show ?thesis using c by (simp add: ps2_clean_def split: if_splits)
next
  case False
  have "w = ps2_root_walk cd \<or> (\<exists>b. w = ps2_walk_chain cd b)" if "w \<in> set (ps2_card_walks cd)" for w
    using that by (auto simp: ps2_card_walks_def ps2_walks_of_def ps2_folder_walks_def ps2_file_walks_def split: if_splits)
  then have "\<forall>w \<in> set (ps2_card_walks cd). x \<notin> set w" using False walk_in_card by (auto simp: ps2_root_walk_def)
  then have "filter (\<lambda>w. x \<in> set w) (ps2_card_walks cd) = []" by (simp add: filter_empty_conv)
  then show ?thesis by (simp add: ps2_uses_def)
qed

lemma folder_in_count: "ps2_folder cd i \<Longrightarrow> i \<in> set [0..<ps2_root_entry_count cd]"
  by (simp add: ps2_folder_def)

lemma clean_apart:
  assumes c: "ps2_clean cd" and i: "ps2_folder cd i"
  shows "w \<in> set (ps2_walks_of cd i) \<Longrightarrow> set w \<inter> set (ps2_root_walk cd) = {}"
    "ps2_folder cd j \<Longrightarrow> j \<noteq> i \<Longrightarrow> w \<in> set (ps2_walks_of cd i) \<Longrightarrow> v \<in> set (ps2_walks_of cd j) \<Longrightarrow> set w \<inter> set v = {}"
    "ps2_uses (ps2_walks_of cd i) x \<le> 1"
proof -
  have u: "(if x \<in> set (ps2_root_walk cd) then 1 else 0) + ps2_uses (concat (map (ps2_walks_of cd) [0..<ps2_root_entry_count cd])) x \<le> 1" for x
    using clean_uses [OF c, of x] by (simp add: ps2_card_walks_def)
  show "ps2_uses (ps2_walks_of cd i) x \<le> 1"
    using u [of x] uses_part [OF folder_in_count [OF i], of "ps2_walks_of cd" x] by linarith
  show "set w \<inter> set (ps2_root_walk cd) = {}" if "w \<in> set (ps2_walks_of cd i)"
  proof -
    have False if "x \<in> set w" "x \<in> set (ps2_root_walk cd)" for x
      using u [of x] uses_ge [OF \<open>w \<in> set (ps2_walks_of cd i)\<close> that(1)]
        uses_part [OF folder_in_count [OF i], of "ps2_walks_of cd" x] that(2) by simp
    then show ?thesis by blast
  qed
  show "set w \<inter> set v = {}" if j: "ps2_folder cd j" "j \<noteq> i" "w \<in> set (ps2_walks_of cd i)" "v \<in> set (ps2_walks_of cd j)"
  proof -
    have False if "x \<in> set w" "x \<in> set v" for x
      using u [of x] uses_ge [OF j(3) that(1)] uses_ge [OF j(4) that(2)]
        uses_two [OF folder_in_count [OF i] folder_in_count [OF j(1)] j(2) [symmetric], of "ps2_walks_of cd" x] by linarith
    then show ?thesis by blast
  qed
qed

lemma entry_cong:
  assumes "\<And>j. j < 512 \<Longrightarrow> d (k * 512 + j) = d' (k' * 512 + j)"
  shows "ps2_entry_is d k bits = ps2_entry_is d' k' bits" "ps2_entry_length d k = ps2_entry_length d' k'"
    "ps2_entry_cluster d k = ps2_entry_cluster d' k'" "ps2_is_folder d k = ps2_is_folder d' k'" "ps2_exists d k = ps2_exists d' k'"
    "ps2_root_entry d k = ps2_root_entry d' k'"
proof -
  have "sigil_read_le16 d (k * 512) = sigil_read_le16 d' (k' * 512)"
    by (rule read_le16_cong) (use assms [of 0] assms [of 1] in simp_all)
  then show e: "ps2_entry_is d k bits = ps2_entry_is d' k' bits" for bits by (simp add: ps2_entry_is_def ps2_consts)
  show "ps2_is_folder d k = ps2_is_folder d' k'" "ps2_exists d k = ps2_exists d' k'" by (simp_all add: ps2_is_folder_def ps2_exists_def e)
  have "sigil_read_le32 d (k * 512 + p) = sigil_read_le32 d' (k' * 512 + p)" if "p + 4 \<le> 512" for p
    by (rule read_le32_cong) (use assms that in \<open>simp add: add.assoc\<close>)
  from this [of 4] this [of 16] show "ps2_entry_length d k = ps2_entry_length d' k'" "ps2_entry_cluster d k = ps2_entry_cluster d' k'"
    by (simp_all add: ps2_entry_length_def ps2_entry_cluster_def ps2_consts)
  show "ps2_root_entry d k = ps2_root_entry d' k'"
    unfolding ps2_root_entry_def by (rule bytes_at_cong) (use assms in \<open>simp add: ps2_consts\<close>)
qed

text \<open>The number of entries of the root is in its first entry.\<close>

lemma root_count:
  assumes g: "ps2_geometry cd" and w: "ps2_root_walk cd \<noteq> []"
  shows "ps2_root_entry_count cd = unat (sigil_read_le32 (ps2_dir_byte cd (ps2_root_walk cd) 0) PS2_ENTRY_LENGTH)"
proof -
  have cs: "512 \<le> p2_cluster_size cd" using geometry_size(1) [OF g] .
  have "p2_cluster_size cd \<le> length (ps2_root_walk cd) * p2_cluster_size cd" using w by (cases "ps2_root_walk cd") simp_all
  then have "512 \<le> length (ps2_root_walk cd) * p2_cluster_size cd" using cs by (rule le_trans [rotated])
  then have "ps2_read_chain cd (p2_rootdir_cluster cd) PS2_ENTRY_SIZE = Some (map (ps2_chain_byte cd (ps2_root_walk cd)) [0..<512])"
    using read_chain_spec [OF g, of PS2_ENTRY_SIZE "p2_rootdir_cluster cd"] w
    by (simp add: PS2_ENTRY_SIZE_def Let_def flip: ps2_root_walk_def)
  moreover have "sigil_read_le32 (mem_of (map (ps2_chain_byte cd (ps2_root_walk cd)) [0..<512])) PS2_ENTRY_LENGTH =
      sigil_read_le32 (ps2_dir_byte cd (ps2_root_walk cd) 0) PS2_ENTRY_LENGTH"
    by (rule read_le32_cong) (use chain_byte_entry [OF g, of _ "ps2_root_walk cd" 0] in \<open>auto simp: mem_of_def PS2_ENTRY_LENGTH_def\<close>)
  ultimately show ?thesis by (simp add: ps2_root_entry_count_def)
qed

text \<open>A folder that another card has at the same place, over clusters that say the same.\<close>

lemma folder_kept:
  assumes c: "ps2_clean cd" and f: "ps2_folder cd i" and f': "ps2_folder cd' i" and s: "ps2_agree cd cd' C"
    and e: "\<And>j. j < 512 \<Longrightarrow> ps2_root cd' (i * 512 + j) = ps2_root cd (i * 512 + j)"
    and w: "\<Union> (set ` set (ps2_walks_of cd i)) \<subseteq> C"
  shows "ps2_body_ok cd' (ps2_first cd' i) (ps2_count cd' i)" "ps2_walks_of cd' i = ps2_walks_of cd i" "ps2_view cd' i = ps2_view cd i"
    "ps2_first cd' i = ps2_first cd i" "ps2_save_at cd' (ps2_root cd') i = ps2_save_at cd (ps2_root cd) i"
proof -
  note ec = entry_cong [of "ps2_root cd'" i "ps2_root cd" i, OF e]
  have fc: "ps2_first cd' i = ps2_first cd i" "ps2_count cd' i = ps2_count cd i" using ec by (simp_all add: ps2_first_def ps2_count_def)
  have ok: "ps2_body_ok cd (ps2_first cd i) (ps2_count cd i)" using c f by (simp add: ps2_clean_def)
  have w': "\<Union> (set ` set (ps2_folder_walks cd (ps2_first cd i) (ps2_count cd i))) \<subseteq> C" using w f by (simp add: ps2_walks_of_def)
  note a = agree_body [OF clean_geometry(1) [OF c] s ok w']
  show "ps2_first cd' i = ps2_first cd i" by (rule fc)
  show "ps2_body_ok cd' (ps2_first cd' i) (ps2_count cd' i)" using a(1) fc by simp
  show "ps2_walks_of cd' i = ps2_walks_of cd i" using a(3) fc f f' by (simp add: ps2_walks_of_def)
  show sa: "ps2_save_at cd' (ps2_root cd') i = ps2_save_at cd (ps2_root cd) i"
    using a(2) fc ec(6) by (simp add: ps2_save_at_def flip: ps2_first_def ps2_count_def)
  then show "ps2_view cd' i = ps2_view cd i" using f f' by (simp add: ps2_view_def)
qed

section \<open>Deleting\<close>

lemma fat_clear_put: "ps2_fat_ok cd \<Longrightarrow> n < p2_alloc_end cd \<Longrightarrow> ps2_fat_clear n cd = ps2_put_fat n PS2_FAT_CHAIN_END cd"
  by (simp add: ps2_fat_clear_def fat_set_put)

lemma fat_clear_all:
  "ps2_fat_ok cd \<Longrightarrow> set ns \<subseteq> {..<p2_alloc_end cd} \<Longrightarrow> fold ps2_fat_clear ns cd = fold (\<lambda>n. ps2_put_fat n PS2_FAT_CHAIN_END) ns cd"
proof (induction ns arbitrary: cd)
  case (Cons n ns)
  then show ?case using put_fat(1,2) [of cd n PS2_FAT_CHAIN_END] by (simp add: fat_clear_put shape_eq)
qed simp

text \<open>The card with a list of clusters freed.\<close>

definition ps2_freed :: "sigil_ps2_card \<Rightarrow> nat list \<Rightarrow> sigil_ps2_card" where
  "ps2_freed cd ns = fold (\<lambda>n. ps2_put_fat n PS2_FAT_CHAIN_END) ns cd"

lemma freed:
  assumes "ps2_fat_ok cd" "set ns \<subseteq> {..<p2_alloc_end cd}"
  shows "ps2_fat_ok (ps2_freed cd ns)" "ps2_shape (ps2_freed cd ns) = ps2_shape cd"
    "ps2_fat_view (ps2_freed cd ns) m = (if m \<in> set ns then Some PS2_FAT_CHAIN_END else ps2_fat_view cd m)"
    "ps2_agree cd (ps2_freed cd ns) (- set ns)" "ps2_at (ps2_freed cd ns) c j = ps2_at cd c j"
proof -
  note p = ps2_fat.put_all [OF assms, of PS2_FAT_CHAIN_END, folded ps2_freed_def]
  show "ps2_fat_ok (ps2_freed cd ns)" by (rule p(1))
  show s: "ps2_shape (ps2_freed cd ns) = ps2_shape cd" using p(4) by simp
  show v: "ps2_fat_view (ps2_freed cd ns) m = (if m \<in> set ns then Some PS2_FAT_CHAIN_END else ps2_fat_view cd m)" for m by (rule p(3))
  have d: "ps2_data (ps2_freed cd ns) = ps2_data cd" using p(4) by simp
  show a: "ps2_at (ps2_freed cd ns) c j = ps2_at cd c j" for c j
  proof -
    define i where "i = (c + p2_alloc_offset cd) * p2_cluster_size cd + j"
    have "p2_alloc_offset cd * p2_cluster_size cd \<le> (c + p2_alloc_offset cd) * p2_cluster_size cd" by simp
    then have i: "p2_alloc_offset cd * p2_cluster_size cd \<le> i" unfolding i_def by linarith
    then have "ps2_data cd i = Some (p2_clusters cd i)" "ps2_data (ps2_freed cd ns) i = Some (p2_clusters (ps2_freed cd ns) i)"
      using s by (simp_all add: ps2_data_def shape_eq)
    then have "p2_clusters (ps2_freed cd ns) i = p2_clusters cd i" using d by simp
    then show ?thesis using s by (simp add: ps2_at_def i_def shape_eq)
  qed
  show "ps2_agree cd (ps2_freed cd ns) (- set ns)" by (simp add: ps2_agree_def s v a)
qed

text \<open>Freeing chains that are apart, one after the other, frees the clusters they had at first.\<close>

lemma free_chains:
  assumes "ps2_fat_ok cd" "\<And>x. ps2_uses (map (ps2_walk_chain cd) bs) x \<le> 1" "\<And>b. b \<in> set bs \<Longrightarrow> ps2_walk_chain cd b \<noteq> []"
  shows "fold ps2_free_chain bs cd = ps2_freed cd (concat (map (ps2_walk_chain cd) bs))"
  using assms
proof (induction bs arbitrary: cd)
  case Nil
  then show ?case by (simp add: ps2_freed_def)
next
  case (Cons b bs)
  let ?w = "ps2_walk_chain cd b"
  let ?cd = "ps2_freed cd ?w"
  have w: "set ?w \<subseteq> {..<p2_alloc_end cd}" using walk_in_card by auto
  have free1: "ps2_free_chain b cd = ?cd" using fat_clear_all [OF Cons.prems(1) w] by (simp add: ps2_free_chain_def ps2_freed_def)
  note f = freed [OF Cons.prems(1) w]
  have same: "ps2_walk_chain ?cd c = ps2_walk_chain cd c" if "c \<in> set bs" for c
  proof (rule agree_walk [OF f(4)])
    show "ps2_walk_chain cd c \<noteq> []" using Cons.prems(3) that by simp
    have "set ?w \<inter> set (ps2_walk_chain cd c) = {}"
      by (rule uses_le_apart [where vs = "[]" and ws = "map (ps2_walk_chain cd) bs"]) (use Cons.prems(2) that in \<open>simp_all only: append_Nil list.map set_map image_eqI\<close>)
    then show "set (ps2_walk_chain cd c) \<subseteq> - set ?w" by blast
  qed
  then have m: "map (ps2_walk_chain ?cd) bs = map (ps2_walk_chain cd) bs" by simp
  have "fold ps2_free_chain bs ?cd = ps2_freed ?cd (concat (map (ps2_walk_chain ?cd) bs))"
  proof (rule Cons.IH [OF f(1)])
    show "ps2_uses (map (ps2_walk_chain ?cd) bs) x \<le> 1" for x using Cons.prems(2) [of x] unfolding m by (auto split: if_splits)
    show "ps2_walk_chain ?cd c \<noteq> []" if "c \<in> set bs" for c using same [OF that] Cons.prems(3) that by simp
  qed
  then show ?case by (simp add: free1 m) (simp add: ps2_freed_def)
qed

lemma file_at_cluster: "ps2_file_length (ps2_file_at cd dir i) = ps2_entry_length dir i"
  "ps2_file_cluster (ps2_file_at cd dir i) = ps2_entry_cluster dir i"
proof -
  have "sigil_read_le32 (mem_of (p2f_entry (ps2_file_at cd dir i))) p = sigil_read_le32 dir (i * PS2_ENTRY_SIZE + p)" if "p + 4 \<le> 512" for p
    by (rule read_le32_cong) (use that in \<open>auto simp: ps2_file_at_def PS2_ENTRY_SIZE_def mem_of_def add.assoc\<close>)
  from this [of 4] this [of 16] show "ps2_file_length (ps2_file_at cd dir i) = ps2_entry_length dir i"
    "ps2_file_cluster (ps2_file_at cd dir i) = ps2_entry_cluster dir i"
    by (simp_all add: ps2_file_length_def ps2_file_cluster_def ps2_entry_length_def ps2_entry_cluster_def PS2_ENTRY_LENGTH_def PS2_ENTRY_CLUSTER_def)
qed

lemma fold_if: "fold (\<lambda>x a. if P x then f x a else a) xs a = fold f (filter P xs) a"
  by (induction xs arbitrary: a) simp_all

text \<open>The two loops of a deletion free the folder's chains.\<close>

lemma delete_frees:
  assumes c: "ps2_clean cd" and i: "ps2_folder cd i"
  shows "ps2_free_chain (ps2_first cd i) (fold (\<lambda>f cd. if 0 < ps2_file_length f then ps2_free_chain (ps2_file_cluster f) cd else cd)
      (p2s_files (ps2_save_at cd (ps2_root cd) i)) cd) = ps2_freed cd (concat (rotate1 (ps2_walks_of cd i)))"
proof -
  have ok: "ps2_body_ok cd (ps2_first cd i) (ps2_count cd i)" using c i by (simp add: ps2_clean_def)
  then obtain dir where d: "ps2_read_dir cd (ps2_first cd i) (ps2_count cd i) = Some dir" by (auto simp: ps2_body_ok_def)
  define ks where "ks = filter (\<lambda>k. ps2_exists dir k \<and> 0 < ps2_entry_length dir k) [2..<ps2_count cd i]"
  define bs where "bs = map (ps2_entry_cluster dir) ks @ [ps2_first cd i]"
  have files: "p2s_files (ps2_save_at cd (ps2_root cd) i) = map (ps2_file_at cd dir) (filter (ps2_exists dir) [2..<ps2_count cd i])"
    by (simp add: ps2_save_at_def ps2_body_def d flip: ps2_first_def ps2_count_def)
  have walks: "map (ps2_walk_chain cd) bs = rotate1 (ps2_walks_of cd i)"
    using i by (simp add: bs_def ks_def ps2_walks_of_def ps2_folder_walks_def ps2_file_walks_def d)
  have perm: "ps2_uses (rotate1 ws) x = ps2_uses ws x" for ws x by (cases ws) simp_all
  have "fold (\<lambda>f cd. if 0 < ps2_file_length f then ps2_free_chain (ps2_file_cluster f) cd else cd)
      (p2s_files (ps2_save_at cd (ps2_root cd) i)) cd = fold ps2_free_chain (map (ps2_entry_cluster dir) ks) cd"
    unfolding fold_if files by (simp add: filter_map fold_map o_def file_at_cluster ks_def conj_commute)
  then have "ps2_free_chain (ps2_first cd i) (fold (\<lambda>f cd. if 0 < ps2_file_length f then ps2_free_chain (ps2_file_cluster f) cd else cd)
      (p2s_files (ps2_save_at cd (ps2_root cd) i)) cd) = fold ps2_free_chain bs cd"
    by (simp add: bs_def)
  also have "\<dots> = ps2_freed cd (concat (map (ps2_walk_chain cd) bs))"
  proof (rule free_chains)
    show "ps2_fat_ok cd" by (rule clean_geometry(2) [OF c])
    show "ps2_uses (map (ps2_walk_chain cd) bs) x \<le> 1" for x using clean_apart(3) [OF c i] by (simp add: walks perm)
    fix b assume "b \<in> set bs"
    then have "ps2_walk_chain cd b \<in> set (map (ps2_walk_chain cd) bs)" by simp
    then show "ps2_walk_chain cd b \<noteq> []"
      using body_walks [OF clean_geometry(1) [OF c] ok] i unfolding walks by (simp add: ps2_walks_of_def)
  qed
  finally show ?thesis unfolding walks .
qed

text \<open>Clearing the bit of an entry of the root.\<close>

lemma uses_upt_remove:
  assumes "i < n" "\<And>k. k < n \<Longrightarrow> k \<noteq> i \<Longrightarrow> f' k = f k" "f' i = []"
  shows "ps2_uses (concat (map f' [0..<n])) x + ps2_uses (f i) x = ps2_uses (concat (map f [0..<n])) x"
proof -
  have s: "[0..<n] = [0..<i] @ i # [Suc i..<n]" 
    using upt_add_eq_append [of 0 i "n - i"] upt_conv_Cons [OF assms(1)] assms(1) by simp
  have m: "map f' [0..<i] = map f [0..<i]" "map f' [Suc i..<n] = map f [Suc i..<n]" using assms(1,2) by auto
  show ?thesis unfolding s map_append list.map m assms(3) by simp
qed

lemma delete_ok:
  assumes c: "ps2_clean cd" and d: "sigil_ps2_delete cd first = (rc, cd')"
  shows "(\<nexists>i. ps2_folder cd i \<and> ps2_first cd i = first) \<and> rc = SIGIL_ERR_INVALID_ARG \<and> cd' = cd \<or>
    (\<exists>i. ps2_folder cd i \<and> ps2_first cd i = first \<and> rc = SIGIL_OK \<and>
       ps2_shape cd' = ps2_shape cd \<and> ps2_fat_ok cd' \<and>
       (\<forall>x. ps2_fat_view cd' x = (if x \<in> \<Union> (set ` set (ps2_walks_of cd i)) then Some PS2_FAT_CHAIN_END else ps2_fat_view cd x)) \<and>
       (\<forall>x j. x \<notin> set (ps2_root_walk cd) \<longrightarrow> j < p2_cluster_size cd \<longrightarrow> ps2_at cd' x j = ps2_at cd x j) \<and>
       ps2_root_walk cd' = ps2_root_walk cd \<and>
       (\<forall>k j. k < ps2_root_entry_count cd \<longrightarrow> k \<noteq> i \<longrightarrow> j < 512 \<longrightarrow>
          ps2_dir_byte cd' (ps2_root_walk cd) k j = ps2_dir_byte cd (ps2_root_walk cd) k j) \<and>
       sigil_read_le16 (ps2_dir_byte cd' (ps2_root_walk cd) i) PS2_ENTRY_MODE AND PS2_MODE_EXISTS = 0)"
proof (cases "ps2_root_entry_for cd first")
  case None
  have "\<not> (ps2_is_folder (ps2_root cd) i \<and> ps2_entry_cluster (ps2_root cd) i = first)" if "2 \<le> i" "i < ps2_root_entry_count cd" for i
    using None that clean_root [OF c] by (auto simp: ps2_root_entry_for_def find_None_iff)
  then have "\<nexists>i. ps2_folder cd i \<and> ps2_first cd i = first" by (auto simp: ps2_folder_def ps2_first_def)
  then show ?thesis using d None by (simp add: sigil_ps2_delete_def)
next
  case (Some p)
  obtain i e where p: "ps2_root_entry_for cd first = Some (i, e)" using Some by (cases p) simp
  have g: "ps2_geometry cd" "ps2_fat_ok cd" using clean_geometry [OF c] by simp_all
  note x = extract_body [OF p clean_root [OF c]]
  have f: "ps2_folder cd i" "ps2_first cd i = first" using x(2-5) by (simp_all add: ps2_folder_def ps2_first_def)
  have ok: "ps2_body_ok cd first (ps2_count cd i)" using c f by (auto simp: ps2_clean_def)
  then have ex: "sigil_ps2_extract cd first = Inr (ps2_save_at cd (ps2_root cd) i)" using x(6) by (simp add: ps2_count_def)
  define ns where "ns = concat (rotate1 (ps2_walks_of cd i))"
  have ns: "set ns = \<Union> (set ` set (ps2_walks_of cd i))" by (simp add: ns_def)
  have nsl: "set ns \<subseteq> {..<p2_alloc_end cd}"
    using f(1) walk_in_card by (auto simp: ns ps2_walks_of_def ps2_folder_walks_def ps2_file_walks_def)
  define cd1 where "cd1 = ps2_freed cd ns"
  have df: "ps2_free_chain first (fold (\<lambda>f cd. if 0 < ps2_file_length f then ps2_free_chain (ps2_file_cluster f) cd else cd)
      (p2s_files (ps2_save_at cd (ps2_root cd) i)) cd) = cd1"
    using delete_frees [OF c f(1)] by (simp add: cd1_def ns_def f(2))
  note f1 = freed [OF g(2) nsl, folded cd1_def]
  have g1: "ps2_geometry cd1" using f1(1) by (simp add: ps2_fat_ok_def)
  define w where "w = ps2_root_walk cd"
  have w: "w \<noteq> []" "distinct w" "i div ps2_entries_per_cluster cd < length w"
    using clean_root_walk(1-3) [OF c] x(4) by (simp_all add: w_def)
  have wn: "set w \<subseteq> - set ns" using clean_apart(1) [OF c f(1)] by (auto simp: ns w_def)
  have w1: "ps2_walk_chain cd1 (p2_rootdir_cluster cd1) = w"
    using agree_walk [OF f1(4), of "p2_rootdir_cluster cd"] w(1) wn f1(2) by (simp add: w_def ps2_root_walk_def shape_eq)
  have epc: "ps2_entries_per_cluster cd1 = ps2_entries_per_cluster cd" using f1(2) by (simp add: ps2_entries_per_cluster_def shape_eq)
  have wi: "w ! (i div ps2_entries_per_cluster cd) < p2_alloc_end cd1"
    using walk_in_card [OF nth_mem [OF w(3) [unfolded w_def ps2_root_walk_def]]] f1(2) by (simp add: w_def ps2_root_walk_def shape_eq)
  define sl where "sl = ps2_slot_at cd1 w i"
  define cd2 where "cd2 = ps2_mark_cluster_dirty cd1 (w ! (i div ps2_entries_per_cluster cd) + p2_alloc_offset cd1)"
  have cd': "rc = SIGIL_OK" "cd' = cd2\<lparr>p2_clusters := sigil_write_le16 (p2_clusters cd1) (sl + PS2_ENTRY_MODE)
      (sigil_read_le16 (p2_clusters cd1) (sl + PS2_ENTRY_MODE) AND NOT PS2_MODE_EXISTS)\<rparr>"
    using d entry_slot [OF g1, of w i] wi w(3)
    unfolding sigil_ps2_delete_def p option.case prod.case ex sum.case Let_def df w1 epc
    by (auto simp: cd2_def sl_def)
  have s': "ps2_shape cd' = ps2_shape cd1" by (simp add: cd'(2) cd2_def)
  have m: "p2_clusters cd' j = p2_clusters cd1 j" if "j < sl \<or> sl + 512 \<le> j" for j
    using that by (auto simp: cd'(2) mem_simps PS2_ENTRY_MODE_def)
  have wi': "i div ps2_entries_per_cluster cd1 < length w" using w(3) epc by simp
  note sw = slot_write [OF f1(1) s' m [unfolded sl_def] w(2) wi']
  have wr: "ps2_wrote cd1 cd' (set w)"
    by (rule wrote_mono [OF sw(1)]) (use w(3) epc in auto)
  have s: "ps2_shape cd' = ps2_shape cd" using s' f1(2) by simp
  have rw: "ps2_root_walk cd' = w"
  proof -
    have "ps2_walk_chain cd' (p2_rootdir_cluster cd1) = ps2_walk_chain cd1 (p2_rootdir_cluster cd1)"
      by (rule walk_cong) (use w1 w(1) wr in \<open>simp_all add: ps2_wrote_def\<close>)
    then show ?thesis using s' w1 by (simp add: ps2_root_walk_def shape_eq)
  qed
  have db1: "ps2_dir_byte cd1 w k j = ps2_dir_byte cd w k j" for k j using f1(5) epc by (simp add: ps2_dir_byte_def)
  have kept: "ps2_dir_byte cd' w k j = ps2_dir_byte cd w k j" if "k < ps2_root_entry_count cd" "k \<noteq> i" "j < 512" for k j
    using sw(2) [of k j] that clean_root_walk(3) [OF c that(1)] by (simp add: db1 epc flip: w_def)
  have "sigil_read_le16 (ps2_dir_byte cd' w i) PS2_ENTRY_MODE = sigil_read_le16 (p2_clusters cd') sl"
    by (rule read_le16_cong) (use sw(3) [of 0] sw(3) [of 1] in \<open>simp_all add: sl_def PS2_ENTRY_MODE_def\<close>)
  also have "\<dots> = sigil_read_le16 (p2_clusters cd1) sl AND NOT PS2_MODE_EXISTS"
    by (simp add: cd'(2) PS2_ENTRY_MODE_def)
  finally have "sigil_read_le16 (ps2_dir_byte cd' w i) PS2_ENTRY_MODE AND PS2_MODE_EXISTS = 0"
    by (simp add: and.assoc)
  moreover have "ps2_fat_view cd' x = (if x \<in> set ns then Some PS2_FAT_CHAIN_END else ps2_fat_view cd x)" for x
    using wr f1(3) by (simp add: ps2_wrote_def)
  moreover have "ps2_at cd' x j = ps2_at cd x j" if "x \<notin> set w" "j < p2_cluster_size cd" for x j
    using wr f1(2,5) that by (simp add: ps2_wrote_def shape_eq)
  ultimately show ?thesis using f s wr rw kept cd'(1) unfolding ns w_def ps2_wrote_def by blast
qed

text \<open>A card whose root chain has entry 0 and room: its root directory.\<close>

lemma root_dir:
  assumes g: "ps2_geometry cd" and w: "ps2_root_walk cd = w" "w \<noteq> []"
    and n: "unat (sigil_read_le32 (ps2_dir_byte cd w 0) PS2_ENTRY_LENGTH) = n" "0 < n" "n \<le> length w * ps2_entries_per_cluster cd"
  shows "ps2_root_entry_count cd = n" "ps2_read_dir cd (p2_rootdir_cluster cd) n = Some (ps2_root cd)"
    "i < n \<Longrightarrow> j < 512 \<Longrightarrow> ps2_root cd (i * 512 + j) = ps2_dir_byte cd w i j"
proof -
  show c: "ps2_root_entry_count cd = n" using root_count [OF g] w n(1) by simp
  obtain dir where d: "ps2_read_dir cd (p2_rootdir_cluster cd) n = Some dir"
    using read_dirI [OF g n(2), of "p2_rootdir_cluster cd"] w n(3) by (auto simp: ps2_root_walk_def)
  then show "ps2_read_dir cd (p2_rootdir_cluster cd) n = Some (ps2_root cd)" by (simp add: ps2_root_def c)
  show "ps2_root cd (i * 512 + j) = ps2_dir_byte cd w i j" if "i < n" "j < 512"
    using read_dirD(5) [OF g d that] w(1) by (simp add: ps2_root_def c d ps2_root_walk_def)
qed

lemma fat_free_view: "n < p2_alloc_end cd \<Longrightarrow> ps2_fat_free cd n = (case ps2_fat_view cd n of None \<Rightarrow> False | Some v \<Rightarrow> v AND PS2_FAT_ALLOCATED = 0)"
  by (simp add: ps2_fat_free_def ps2_fat_view_def)

lemma shape_count: "ps2_shape cd' = ps2_shape cd \<Longrightarrow> ps2_entries_per_cluster cd' = ps2_entries_per_cluster cd"
  by (simp add: shape_eq ps2_entries_per_cluster_def)

lemma length_filter_or:
  assumes "distinct ns" "set ns \<subseteq> set xs" "\<forall>x \<in> set ns. \<not> P x" "distinct xs"
  shows "length (filter (\<lambda>x. P x \<or> x \<in> set ns) xs) = length (filter P xs) + length ns"
proof -
  have "length (filter (\<lambda>x. P x \<or> x \<in> set ns) xs) = card ({x \<in> set xs. P x} \<union> set ns)"
    using assms(2,4) by (subst distinct_card [symmetric]) (auto intro: arg_cong [where f = card])
  also have "\<dots> = card {x \<in> set xs. P x} + card (set ns)"
    using assms(3) by (intro card_Un_disjoint) auto
  also have "card {x \<in> set xs. P x} = length (filter P xs)"
    using assms(4) by (metis distinct_card distinct_filter set_filter)
  finally show ?thesis using assms(1) by (simp add: distinct_card)
qed

lemma concat_distinct_uses:
  assumes "\<And>w. w \<in> set ws \<Longrightarrow> distinct w" "\<And>x. ps2_uses ws x \<le> 1"
  shows "distinct (concat ws)"
  using assms
proof (induction ws)
  case (Cons w ws)
  have "set w \<inter> set v = {}" if "v \<in> set ws" for v
    by (rule uses_le_apart [where vs = "[]" and ws = ws]) (use Cons.prems(2) that in \<open>simp_all only: append_Nil\<close>)
  moreover have "ps2_uses ws x \<le> 1" for x using Cons.prems(2) [of x] by (auto split: if_splits)
  ultimately show ?case using Cons by auto
qed simp

lemma walks_of_walk: "w \<in> set (ps2_walks_of cd i) \<Longrightarrow> \<exists>b. w = ps2_walk_chain cd b"
  by (auto simp: ps2_walks_of_def ps2_folder_walks_def ps2_file_walks_def split: if_splits)

lemma delete_view:
  assumes c: "ps2_clean cd" and d: "sigil_ps2_delete cd first = (SIGIL_OK, cd')"
  obtains i where "ps2_folder cd i" "ps2_first cd i = first" "ps2_clean cd'" "ps2_view cd' = (ps2_view cd)(i := None)"
    "ps2_shape cd' = ps2_shape cd" "ps2_root_entry_count cd' = ps2_root_entry_count cd"
    "\<And>k. ps2_folder cd' k \<Longrightarrow> ps2_first cd' k = ps2_first cd k"
    "ps2_free_clusters cd' = ps2_free_clusters cd + length (concat (ps2_walks_of cd i))"
proof -
  obtain i where f: "ps2_folder cd i" "ps2_first cd i = first" and s: "ps2_shape cd' = ps2_shape cd" and ok: "ps2_fat_ok cd'"
    and fat: "\<And>x. ps2_fat_view cd' x = (if x \<in> \<Union> (set ` set (ps2_walks_of cd i)) then Some PS2_FAT_CHAIN_END else ps2_fat_view cd x)"
    and dat: "\<And>x j. x \<notin> set (ps2_root_walk cd) \<Longrightarrow> j < p2_cluster_size cd \<Longrightarrow> ps2_at cd' x j = ps2_at cd x j"
    and rw: "ps2_root_walk cd' = ps2_root_walk cd"
    and kept: "\<And>k j. k < ps2_root_entry_count cd \<Longrightarrow> k \<noteq> i \<Longrightarrow> j < 512 \<Longrightarrow>
          ps2_dir_byte cd' (ps2_root_walk cd) k j = ps2_dir_byte cd (ps2_root_walk cd) k j"
    and gone: "sigil_read_le16 (ps2_dir_byte cd' (ps2_root_walk cd) i) PS2_ENTRY_MODE AND PS2_MODE_EXISTS = 0"
    using delete_ok [OF c d] by auto
  define n where "n = ps2_root_entry_count cd"
  define w where "w = ps2_root_walk cd"
  define F where "F = \<Union> (set ` set (ps2_walks_of cd i))"
  have g: "ps2_geometry cd" "ps2_geometry cd'" using clean_geometry(1) [OF c] ok by (simp_all add: ps2_fat_ok_def)
  have n2: "2 \<le> n" using c by (simp add: ps2_clean_def n_def)
  have i: "2 \<le> i" "i < n" using f(1) by (simp_all add: ps2_folder_def n_def)
  have le: "ps2_dir_byte cd' w 0 j = ps2_dir_byte cd w 0 j" if "j < 512" for j using kept [of 0 j] n2 i that by (simp add: w_def n_def)
  have "sigil_read_le32 (ps2_dir_byte cd' w 0) PS2_ENTRY_LENGTH = sigil_read_le32 (ps2_dir_byte cd w 0) PS2_ENTRY_LENGTH"
    by (rule read_le32_cong) (use le in \<open>simp add: PS2_ENTRY_LENGTH_def\<close>)
  then have n': "unat (sigil_read_le32 (ps2_dir_byte cd' w 0) PS2_ENTRY_LENGTH) = n"
    using root_count [OF g(1)] clean_root_walk(1) [OF c] by (simp add: n_def w_def)
  have room: "n \<le> length w * ps2_entries_per_cluster cd'" using clean_root_walk(5) [OF c] by (simp add: n_def w_def shape_count [OF s])
  note rd = root_dir [OF g(2) rw [folded w_def] clean_root_walk(1) [OF c, folded w_def] n' _ room]
  have n0: "0 < n" using n2 by simp
  note rd = rd [OF n0]
  have same: "ps2_root cd' (k * 512 + j) = ps2_root cd (k * 512 + j)" if "k < n" "k \<noteq> i" "j < 512" for k j
    using rd(3) [OF that(1,3)] clean_root_walk(4) [OF c] kept that by (simp add: n_def w_def)
  have fold': "ps2_folder cd' k \<longleftrightarrow> ps2_folder cd k \<and> k \<noteq> i" for k
  proof (cases "k = i")
    case True
    have "sigil_read_le16 (ps2_root cd') (i * 512) = sigil_read_le16 (ps2_dir_byte cd' w i) PS2_ENTRY_MODE"
      by (rule read_le16_cong) (use rd(3) [OF i(2), of 0] rd(3) [OF i(2), of 1] in \<open>simp_all add: PS2_ENTRY_MODE_def\<close>)
    then have "\<not> ps2_is_folder (ps2_root cd') i" using gone by (simp add: ps2_is_folder_def ps2_entry_is_def PS2_ENTRY_SIZE_def PS2_ENTRY_MODE_def w_def)
    then show ?thesis using True by (simp add: ps2_folder_def)
  next
    case False
    show ?thesis
    proof (cases "k < n")
      case True
      have "ps2_is_folder (ps2_root cd') k = ps2_is_folder (ps2_root cd) k" by (rule entry_cong(4)) (rule same [OF True False])
      then show ?thesis using False by (simp add: ps2_folder_def rd(1) n_def)
    qed (simp add: ps2_folder_def rd(1) n_def)
  qed
  have ag: "ps2_agree cd cd' (- (F \<union> set w))"
    unfolding ps2_agree_def using s fat dat by (auto simp: F_def w_def)
  have wk: "\<Union> (set ` set (ps2_walks_of cd k)) \<subseteq> - (F \<union> set w)" if "ps2_folder cd k" "k \<noteq> i" for k
  proof -
    have "set v \<inter> set u = {}" if "v \<in> set (ps2_walks_of cd k)" "u \<in> set (ps2_walks_of cd i)" for u v
      by (rule clean_apart(2) [OF c \<open>ps2_folder cd k\<close> f(1) \<open>k \<noteq> i\<close> [symmetric] that])
    then show ?thesis using clean_apart(1) [OF c that(1)] unfolding F_def w_def by blast
  qed
  have fk: "ps2_body_ok cd' (ps2_first cd' k) (ps2_count cd' k) \<and> ps2_walks_of cd' k = ps2_walks_of cd k \<and> ps2_view cd' k = ps2_view cd k \<and>
      ps2_first cd' k = ps2_first cd k" if "ps2_folder cd' k" for k
  proof -
    have k: "ps2_folder cd k" "k \<noteq> i" "k < n" using that fold' by (auto simp: ps2_folder_def n_def)
    show ?thesis using folder_kept [OF c k(1) that ag same [OF k(3,2)] wk [OF k(1,2)]] by simp
  qed
  have wo: "ps2_walks_of cd' k = ps2_walks_of cd k" if "k \<noteq> i" for k
  proof (cases "ps2_folder cd' k")
    case True
    then show ?thesis using fk by blast
  next
    case False
    then show ?thesis using fold' [of k] that by (simp add: ps2_walks_of_def)
  qed
  have wi: "ps2_walks_of cd' i = []" using fold' by (simp add: ps2_walks_of_def)
  have uses: "ps2_uses (ps2_card_walks cd') x + ps2_uses (ps2_walks_of cd i) x = ps2_uses (ps2_card_walks cd) x" for x
    using uses_upt_remove [OF i(2), of "ps2_walks_of cd'" "ps2_walks_of cd", OF wo wi] by (simp add: ps2_card_walks_def rw rd(1) n_def add.assoc)
  have ui: "ps2_uses (ps2_walks_of cd i) x = (if x \<in> F then 1 else 0)" for x
  proof (cases "x \<in> F")
    case True
    then obtain v where "v \<in> set (ps2_walks_of cd i)" "x \<in> set v" by (auto simp: F_def)
    then show ?thesis using True uses_ge [of v "ps2_walks_of cd i" x] clean_apart(3) [OF c f(1), of x] by simp
  next
    case False
    then have "filter (\<lambda>v. x \<in> set v) (ps2_walks_of cd i) = []" by (auto simp: filter_empty_conv F_def)
    then show ?thesis using False by (simp add: ps2_uses_def)
  qed
  have ae: "p2_alloc_end cd' = p2_alloc_end cd" using s by (simp add: shape_eq)
  have free': "ps2_fat_free cd' x \<longleftrightarrow> ps2_fat_free cd x \<or> x \<in> F" if "x < p2_alloc_end cd" for x
    using that ae fat [of x] by (simp add: fat_free_view F_def PS2_FAT_CHAIN_END_def PS2_FAT_ALLOCATED_def)
  have cu: "ps2_uses (ps2_card_walks cd) x = (if ps2_fat_free cd x then 0 else 1)" if "x < p2_alloc_end cd" for x
    using c that by (simp add: ps2_clean_def)
  have busy: "\<not> ps2_fat_free cd x" if "x < p2_alloc_end cd" "x \<in> F" for x
    using uses [of x] ui [of x] cu [OF that(1)] that(2) by (simp split: if_splits)
  have clean: "ps2_clean cd'"
    unfolding ps2_clean_def
  proof (intro conjI allI impI)
    show "ps2_fat_ok cd'" by (rule ok)
    show "2 \<le> ps2_root_entry_count cd'" using rd(1) n2 by simp
    show "ps2_read_dir cd' (p2_rootdir_cluster cd') (ps2_root_entry_count cd') \<noteq> None" using rd(1,2) by simp
    show "ps2_body_ok cd' (ps2_first cd' k) (ps2_count cd' k)" if "ps2_folder cd' k" for k using fk [OF that] by blast
    show "ps2_uses (ps2_card_walks cd') x = (if ps2_fat_free cd' x then 0 else 1)" if "x < p2_alloc_end cd'" for x
      using uses [of x] ui [of x] cu [of x] free' [of x] busy [of x] that ae by (auto split: if_splits)
  qed
  have view: "ps2_view cd' = (ps2_view cd)(i := None)"
  proof
    fix k show "ps2_view cd' k = ((ps2_view cd)(i := None)) k"
      using fk [of k] fold' [of k] by (auto simp: ps2_view_def)
  qed
  have dist: "distinct (concat (ps2_walks_of cd i))"
    by (rule concat_distinct_uses) (use walks_of_walk ps2.walk_distinct clean_apart(3) [OF c f(1)] in metis)+
  have sub: "set (concat (ps2_walks_of cd i)) \<subseteq> set [0..<p2_alloc_end cd]"
    using walks_of_walk walk_in_card by fastforce
  have nb: "\<forall>x \<in> set (concat (ps2_walks_of cd i)). \<not> ps2_fat_free cd x"
  proof
    fix x assume x: "x \<in> set (concat (ps2_walks_of cd i))"
    have "x < p2_alloc_end cd" using subsetD [OF sub x] by simp
    moreover have "x \<in> F" using x by (simp add: F_def)
    ultimately show "\<not> ps2_fat_free cd x" by (rule busy)
  qed
  have "length (filter (\<lambda>x. ps2_fat_free cd x \<or> x \<in> set (concat (ps2_walks_of cd i))) [0..<p2_alloc_end cd]) =
      length (filter (ps2_fat_free cd) [0..<p2_alloc_end cd]) + length (concat (ps2_walks_of cd i))"
    by (rule length_filter_or [OF dist sub nb]) simp
  moreover have "filter (ps2_fat_free cd') [0..<p2_alloc_end cd] = filter (\<lambda>x. ps2_fat_free cd x \<or> x \<in> set (concat (ps2_walks_of cd i))) [0..<p2_alloc_end cd]"
    by (rule filter_cong) (use free' in \<open>auto simp: F_def\<close>)
  ultimately have "ps2_free_clusters cd' = ps2_free_clusters cd + length (concat (ps2_walks_of cd i))"
    by (simp add: ps2_free_clusters_def ae)
  then show thesis using that [OF f clean view s] rd(1) fk by (simp add: n_def)
qed

end
