(* ===== verification/CardPs2Inject.thy ===== *)
theory CardPs2Inject
  imports CardPs2Proofs
begin

text \<open>
  Two of the steps \<^verbatim>\<open>sigil_ps2_inject\<close> is made of. The allocator (\<open>allocate\<close>, \<open>extend_chain\<close>) takes the next
  free cluster and links it behind a chain, and changes nothing else; the loop that stores a file
  (\<open>put_data\<close>) takes free clusters only, makes one chain of them that holds the file's bytes and the pad
  byte after them, and leaves the data of every other cluster. What the whole of \<^verbatim>\<open>sigil_ps2_inject\<close> does to a
  card is not stated here.
\<close>

section \<open>Taking clusters\<close>

text \<open>\<open>ps2_changed cd cd' FS AS\<close>: the FAT changed in \<open>FS\<close> only, the data in \<open>AS\<close> only.\<close>

definition ps2_changed :: "sigil_ps2_card \<Rightarrow> sigil_ps2_card \<Rightarrow> nat set \<Rightarrow> nat set \<Rightarrow> bool" where
  "ps2_changed cd cd' FS AS \<longleftrightarrow> ps2_fat_ok cd' \<and> ps2_shape cd' = ps2_shape cd \<and>
     (\<forall>x. x \<notin> FS \<longrightarrow> ps2_fat_view cd' x = ps2_fat_view cd x) \<and>
     (\<forall>c j. c \<notin> AS \<longrightarrow> j < p2_cluster_size cd \<longrightarrow> ps2_at cd' c j = ps2_at cd c j)"

lemma changed_trans: "ps2_changed a b F A \<Longrightarrow> ps2_changed b c F' A' \<Longrightarrow> ps2_changed a c (F \<union> F') (A \<union> A')"
  by (simp add: ps2_changed_def shape_eq)

lemma changed_mono: "ps2_changed a b F A \<Longrightarrow> F \<subseteq> F' \<Longrightarrow> A \<subseteq> A' \<Longrightarrow> ps2_changed a b F' A'"
  unfolding ps2_changed_def by blast

lemma changed_refl: "ps2_fat_ok cd \<Longrightarrow> ps2_changed cd cd F A"
  by (simp add: ps2_changed_def)

lemma wrote_changed: "ps2_wrote cd cd' S \<longleftrightarrow> ps2_changed cd cd' {} S"
  by (auto simp: ps2_wrote_def ps2_changed_def fun_eq_iff)

lemma changed_agree: "ps2_changed cd cd' F A \<Longrightarrow> ps2_agree cd cd' (- (F \<union> A))"
  by (simp add: ps2_changed_def ps2_agree_def)

lemma changedD:
  assumes "ps2_changed cd cd' F A"
  shows "ps2_fat_ok cd'" "ps2_shape cd' = ps2_shape cd" "ps2_geometry cd'" "p2_alloc_end cd' = p2_alloc_end cd"
    "p2_cluster_size cd' = p2_cluster_size cd" "ps2_entries_per_cluster cd' = ps2_entries_per_cluster cd"
    "p2_rootdir_cluster cd' = p2_rootdir_cluster cd"
    "x \<notin> F \<Longrightarrow> ps2_fat_view cd' x = ps2_fat_view cd x" "c \<notin> A \<Longrightarrow> j < p2_cluster_size cd \<Longrightarrow> ps2_at cd' c j = ps2_at cd c j"
  using assms by (auto simp: ps2_changed_def ps2_fat_ok_def shape_eq ps2_entries_per_cluster_def)

lemma changed_step: "ps2_changed cd cd' F A \<Longrightarrow> x \<notin> F \<Longrightarrow> ps2_step cd' x = ps2_step cd x"
  by (simp add: ps2_step_def changedD)

lemma changed_linked:
  assumes "ps2_changed cd cd' F A" "set w \<inter> F = {}"
  shows "linked (ps2_step cd') w = linked (ps2_step cd) w"
  by (rule linked_cong) (use changed_step [OF assms(1)] assms(2) in blast)

lemma geometry_limit: "ps2_geometry cd \<Longrightarrow> p2_alloc_end cd \<le> 1048576"
  by (auto simp: ps2_geometry_def PS2_MAX_CLUSTERS_def)

text \<open>The links the allocator writes.\<close>

lemma link_end: "ps2_fat_view cd n = Some 0xFFFFFFFF \<Longrightarrow> ps2_step cd n = End"
  by (simp add: ps2_step_def PS2_FAT_ALLOCATED_def PS2_FAT_CHAIN_END_def)

lemma link_next:
  assumes "ps2_fat_view cd x = Some (PS2_FAT_ALLOCATED OR of_nat n)" "n < 1048576"
  shows "ps2_step cd x = Next n"
proof -
  have u: "unat (of_nat n :: u32) = n" using assms(2) by (simp add: unat_of_nat32)
  have al: "bit PS2_FAT_ALLOCATED i \<longleftrightarrow> i = 31" for i
    using bit_exp_iff [where ?'a = "u32", of 31 i] by (auto simp: PS2_FAT_ALLOCATED_def)
  have hi: "\<not> bit (of_nat n :: u32) i" if "20 \<le> i" for i
    using assms(2) that u unat_less_iff_bits [of "of_nat n :: u32" 20] by simp
  have "(PS2_FAT_ALLOCATED OR of_nat n) AND NOT PS2_FAT_ALLOCATED = (of_nat n :: u32)"
    by (rule bit_word_eqI) (use hi in \<open>auto simp: bit_simps al\<close>)
  moreover have "(PS2_FAT_ALLOCATED OR of_nat n) AND PS2_FAT_ALLOCATED = PS2_FAT_ALLOCATED"
    by (rule bit_word_eqI) (auto simp: bit_simps)
  moreover have "of_nat n \<noteq> PS2_FAT_CHAIN_END"
  proof
    assume "of_nat n = PS2_FAT_CHAIN_END"
    then have "n = unat PS2_FAT_CHAIN_END" using u by metis
    then show False using assms(2) by (simp add: PS2_FAT_CHAIN_END_def)
  qed
  moreover have "PS2_FAT_ALLOCATED \<noteq> 0" by (simp add: PS2_FAT_ALLOCATED_def)
  ultimately show ?thesis using assms(1) u by (simp add: ps2_step_def)
qed

text \<open>What a successful allocation does.\<close>

lemma allocate:
  assumes ok: "ps2_fat_ok cd" and a: "ps2_allocate (cd, nx) after chained = (Some n, cd', nx')"
    and l: "chained \<Longrightarrow> after < p2_alloc_end cd"
  shows "nx \<le> n" "n < p2_alloc_end cd" "ps2_fat_free cd n" "nx' = n + 1"
    "ps2_changed cd cd' (insert n (if chained then {after} else {})) {}"
    "\<not> (chained \<and> after = n) \<Longrightarrow> ps2_step cd' n = End" "chained \<Longrightarrow> ps2_step cd' after = Next n"
proof -
  have g: "ps2_geometry cd" using ok by (simp add: ps2_fat_ok_def)
  have n: "find (ps2_fat_free cd) [nx..<p2_alloc_end cd] = Some n" "nx' = n + 1"
    and put: "ps2_fat_set cd n 0xFFFFFFFF \<noteq> None"
    and cd': "if chained then ps2_fat_set (the (ps2_fat_set cd n 0xFFFFFFFF)) after (PS2_FAT_ALLOCATED OR of_nat n) = Some cd'
       else cd' = the (ps2_fat_set cd n 0xFFFFFFFF)"
    using a by (auto simp: ps2_allocate_def split: option.splits if_splits)
  have in_card: "n \<in> set [nx..<p2_alloc_end cd]" "ps2_fat_free cd n" using n(1) by (auto simp: find_Some_iff)
  then show r: "nx \<le> n" "n < p2_alloc_end cd" "ps2_fat_free cd n" by simp_all
  show "nx' = n + 1" by (rule n(2))
  define cd1 where "cd1 = ps2_put_fat n 0xFFFFFFFF cd"
  have c1: "the (ps2_fat_set cd n 0xFFFFFFFF) = cd1" using fat_set_put [OF ok r(2)] by (simp add: cd1_def)
  note p1 = put_fat [OF ok r(2), of "0xFFFFFFFF", folded cd1_def]
  have at_data: "ps2_at x c j = ps2_at y c j" if "ps2_shape x = ps2_shape y" "ps2_data x = ps2_data y" for x y c j
  proof -
    define i where "i = (c + p2_alloc_offset y) * p2_cluster_size y + j"
    have "p2_alloc_offset y * p2_cluster_size y \<le> (c + p2_alloc_offset y) * p2_cluster_size y" by simp
    then have i: "p2_alloc_offset y * p2_cluster_size y \<le> i" unfolding i_def by linarith
    have "ps2_data x i = Some (p2_clusters x i)" "ps2_data y i = Some (p2_clusters y i)"
      using i that(1) by (simp_all add: ps2_data_def shape_eq)
    then show ?thesis using that by (simp add: ps2_at_def i_def shape_eq)
  qed
  show "ps2_changed cd cd' (insert n (if chained then {after} else {})) {}"
  proof (cases chained)
    case False
    then show ?thesis using cd' c1 p1 at_data [OF p1(2,4)] by (simp add: ps2_changed_def)
  next
    case True
    have af: "after < p2_alloc_end cd1" using l [OF True] p1(2) by (simp add: shape_eq)
    have e: "cd' = ps2_put_fat after (PS2_FAT_ALLOCATED OR of_nat n) cd1" using cd' True c1 fat_set_put [OF p1(1) af] by simp
    note p2 = put_fat [OF p1(1) af, of "PS2_FAT_ALLOCATED OR of_nat n", folded e]
    show ?thesis using True p1 p2 at_data [OF p1(2,4)] at_data [OF p2(2,4)] by (simp add: ps2_changed_def)
  qed
  have lim: "n < 1048576" using geometry_limit [OF g] r(2) by simp
  show "ps2_step cd' n = End" if "\<not> (chained \<and> after = n)"
  proof (rule link_end)
    show "ps2_fat_view cd' n = Some 0xFFFFFFFF"
    proof (cases chained)
      case False
      then show ?thesis using cd' c1 p1(3) by simp
    next
      case True
      have af: "after < p2_alloc_end cd1" using l [OF True] p1(2) by (simp add: shape_eq)
      have e: "cd' = ps2_put_fat after (PS2_FAT_ALLOCATED OR of_nat n) cd1" using cd' True c1 fat_set_put [OF p1(1) af] by simp
      show ?thesis using put_fat(3) [OF p1(1) af] p1(3) that True by (simp add: e)
    qed
  qed
  show "ps2_step cd' after = Next n" if chained
  proof (rule link_next [OF _ lim])
    have af: "after < p2_alloc_end cd1" using l [OF that] p1(2) by (simp add: shape_eq)
    have e: "cd' = ps2_put_fat after (PS2_FAT_ALLOCATED OR of_nat n) cd1" using cd' that c1 fat_set_put [OF p1(1) af] by simp
    show "ps2_fat_view cd' after = Some (PS2_FAT_ALLOCATED OR of_nat n)" using put_fat(3) [OF p1(1) af] by (simp add: e)
  qed
qed

text \<open>A chain, perhaps none yet, that grows by the cluster allocated after its end.\<close>

lemma linked_snoc:
  assumes "w = [] \<or> linked step w" "\<And>x. x \<in> set (butlast w) \<Longrightarrow> step' x = step x" "w \<noteq> [] \<Longrightarrow> step' (last w) = Next n"
    and "step' n = End"
  shows "linked step' (w @ [n])"
  using assms
proof (induction w)
  case (Cons x w)
  show ?case
  proof (cases w)
    case Nil
    then show ?thesis using Cons.prems by simp
  next
    case (Cons y v)
    have l: "linked step (y # v)" "step x = Next y" using Cons.prems(1) by (simp_all add: Cons)
    have "linked step' (w @ [n])"
      by (rule Cons.IH) (use Cons.prems(2-4) l in \<open>auto simp: Cons\<close>)
    then show ?thesis using l(2) Cons.prems(2) [of x] by (simp add: Cons)
  qed
qed simp

lemma free_bad: "n < p2_alloc_end cd \<Longrightarrow> ps2_fat_free cd n \<Longrightarrow> ps2_step cd n = Bad"
  by (auto simp: fat_free_view ps2_step_def split: option.splits)

lemma linked_not_free:
  assumes "linked (ps2_step cd) w" "x \<in> set w"
  shows "\<not> ps2_fat_free cd x"
proof
  assume "ps2_fat_free cd x"
  moreover have "x < p2_alloc_end cd" using linked_in_card [OF assms(1)] assms(2) by auto
  ultimately have "ps2_step cd x = Bad" by (intro free_bad)
  moreover obtain i where "i < length w" "x = w ! i" using assms(2) by (metis in_set_conv_nth)
  ultimately show False using assms(1) by (auto simp: linked_nth split: if_splits)
qed

definition ps2_tail :: "nat list \<Rightarrow> nat set" where "ps2_tail w = (if w = [] then {} else {last w})"

lemma extend_chain:
  assumes ok: "ps2_fat_ok cd" and w: "w = [] \<or> linked (ps2_step cd) w" and af: "w \<noteq> [] \<Longrightarrow> after = last w"
    and a: "ps2_allocate (cd, nx) after (w \<noteq> []) = (Some n, cd', nx')"
  shows "nx \<le> n" "n < p2_alloc_end cd" "ps2_fat_free cd n" "nx' = n + 1" "n \<notin> set w"
    "ps2_changed cd cd' (insert n (ps2_tail w)) {}" "linked (ps2_step cd') (w @ [n])"
proof -
  have lt: "after < p2_alloc_end cd" if "w \<noteq> []"
  proof -
    have "set w \<subseteq> {..<p2_alloc_end cd}" using w that linked_in_card by blast
    then show ?thesis using last_in_set [OF that] af [OF that] by auto
  qed
  note al = allocate [OF ok a lt]
  show "nx \<le> n" "n < p2_alloc_end cd" "ps2_fat_free cd n" "nx' = n + 1" using al(1-4) by simp_all
  show nw: "n \<notin> set w" using w linked_not_free al(3) by auto
  have "(if w \<noteq> [] then {after} else {}) = ps2_tail w" using af by (simp add: ps2_tail_def)
  then show ch: "ps2_changed cd cd' (insert n (ps2_tail w)) {}" using al(5) by simp
  show "linked (ps2_step cd') (w @ [n])"
  proof (rule linked_snoc [OF w])
    fix x assume x: "x \<in> set (butlast w)"
    have "distinct w" using w linked_distinct by auto
    then have "x \<noteq> last w" using x by (cases w rule: rev_cases) auto
    moreover have "x \<noteq> n" using x nw in_set_butlastD by fastforce
    ultimately show "ps2_step cd' x = ps2_step cd x" using changed_step [OF ch] x by (auto simp: ps2_tail_def split: if_splits)
  next
    assume "w \<noteq> []"
    then show "ps2_step cd' (last w) = Next n" using al(7) af by simp
  next
    have "\<not> (w \<noteq> [] \<and> after = n)" using nw af by auto
    then show "ps2_step cd' n = End" using allocate(6) [OF ok a lt] by blast
  qed
qed

lemma mark_size: "p2_cluster_size (ps2_mark_cluster_dirty cd a) = p2_cluster_size cd"
  by (simp add: ps2_mark_cluster_dirty_def Let_def)

text \<open>Filling a cluster: the pad byte, over it the bytes given.\<close>

lemma fill_cluster:
  assumes ok: "ps2_fat_ok cd" and n: "n < p2_alloc_end cd" and k: "k \<le> p2_cluster_size cd"
    and r: "ps2_relative_cluster cd n = (off, cd1)"
    and cd': "cd' = cd1\<lparr>p2_clusters := memcpy (memset (p2_clusters cd1) off PS2_PAD (p2_cluster_size cd1)) off src s k\<rparr>"
  shows "ps2_changed cd cd' {} {n}" "j < p2_cluster_size cd \<Longrightarrow> ps2_at cd' n j = (if j < k then src (s + j) else PS2_PAD)"
proof -
  have g: "ps2_geometry cd" using ok by (simp add: ps2_fat_ok_def)
  have r': "off = ps2_data_at cd n" "cd1 = ps2_mark_cluster_dirty cd (n + p2_alloc_offset cd)" using r relative_cluster [OF g n] by simp_all
  have s1: "ps2_shape cd1 = ps2_shape cd" by (simp add: r')
  have s': "ps2_shape cd' = ps2_shape cd" by (simp add: cd' r')
  have m: "p2_clusters cd' i = (if ps2_data_at cd n \<le> i \<and> i < ps2_data_at cd n + k then src (s + (i - ps2_data_at cd n))
      else if ps2_data_at cd n \<le> i \<and> i < ps2_data_at cd n + p2_cluster_size cd then PS2_PAD else p2_clusters cd i)" for i
    by (simp add: cd' r' mem_simps mark_size)
  show "ps2_changed cd cd' {} {n}"
    unfolding wrote_changed [symmetric]
    by (rule data_write [OF ok s', where lo = 0 and hi = "p2_cluster_size cd"]) (use k in \<open>auto simp: m\<close>)
  show "ps2_at cd' n j = (if j < k then src (s + j) else PS2_PAD)" if "j < p2_cluster_size cd"
  proof -
    have "ps2_at cd' n j = p2_clusters cd' (ps2_data_at cd n + j)" using s' by (simp add: ps2_at_def ps2_data_at_def shape_eq)
    then show ?thesis using that by (simp add: m)
  qed
qed

text \<open>The bytes of cluster \<open>k\<close> of a file.\<close>

definition ps2_file_byte :: "bytes \<Rightarrow> nat \<Rightarrow> nat \<Rightarrow> u8" where
  "ps2_file_byte data len p = (if p < len then mem_of data p else PS2_PAD)"

lemma put_data:
  assumes "ps2_put_data data len [k..<m] (cd, nx) first prev = (True, first', cd', nx')"
    and "ps2_fat_ok cd" "k \<le> m" "(m - 1) * p2_cluster_size cd < len \<or> m = 0" 
    and "w = [] \<longleftrightarrow> k = 0" "w = [] \<or> linked (ps2_step cd) w" "w \<noteq> [] \<Longrightarrow> prev = last w"
  shows "\<exists>ns. length ns = m - k \<and> (\<forall>n \<in> set ns. nx \<le> n \<and> n < nx' \<and> n < p2_alloc_end cd \<and> ps2_fat_free cd n) \<and> distinct ns \<and>
     first' = (if k = 0 \<and> 0 < m then hd ns else first) \<and> nx \<le> nx' \<and>
     ps2_changed cd cd' (set ns \<union> ps2_tail w) (set ns) \<and> (w @ ns = [] \<or> linked (ps2_step cd') (w @ ns)) \<and>
     (\<forall>t < m - k. \<forall>j < p2_cluster_size cd. ps2_at cd' (ns ! t) j = ps2_file_byte data len ((k + t) * p2_cluster_size cd + j))"
  using assms
proof (induction "m - k" arbitrary: k cd nx first prev w)
  case 0
  then have e: "cd' = cd" "nx' = nx" "first' = first" "k = m" by simp_all
  show ?case
    by (rule exI [of _ "[]"]) (use 0 e in \<open>simp add: changed_refl\<close>)
next
  case (Suc d)
  have km: "k < m" using Suc.hyps(2) by simp
  have cons: "[k..<m] = k # [Suc k..<m]" using km by (rule upt_conv_Cons)
  obtain n cd1 nx1 where a: "ps2_allocate (cd, nx) prev (0 < k) = (Some n, cd1, nx1)"
    using Suc.prems(1) by (auto simp: cons split: prod.splits option.splits)
  have wk: "(w \<noteq> []) = (0 < k)" using Suc.prems(5) by auto
  note ex = extend_chain [OF Suc.prems(2) Suc.prems(6,7) a [folded wk]]
  note c1 = changedD [OF ex(6)]
  obtain off cd2 where r: "ps2_relative_cluster cd1 n = (off, cd2)" by (cases "ps2_relative_cluster cd1 n")
  define at where "at = k * p2_cluster_size cd2"
  define cd3 where "cd3 = cd2\<lparr>p2_clusters := memcpy (memset (p2_clusters cd2) off PS2_PAD (p2_cluster_size cd2)) off (mem_of data) at
      (min (len - at) (p2_cluster_size cd2))\<rparr>"
  have rest: "ps2_put_data data len [Suc k..<m] (cd3, nx1) (if k = 0 then n else first) n = (True, first', cd', nx')"
    using Suc.prems(1) by (simp add: cons a r Let_def cd3_def at_def)
  have n1: "n < p2_alloc_end cd1" using ex(2) c1(4) by simp
  have cs2: "p2_cluster_size cd2 = p2_cluster_size cd1"
    using r relative_cluster [OF c1(3) n1] by (auto simp: ps2_mark_cluster_dirty_def Let_def)
  have mk: "min (len - at) (p2_cluster_size cd2) \<le> p2_cluster_size cd1" by (simp add: cs2)
  note fc = fill_cluster [OF c1(1) n1 mk r cd3_def]
  note c3 = changedD [OF fc(1)]
  have ch: "ps2_changed cd cd3 (insert n (ps2_tail w)) {n}" using changed_trans [OF ex(6) fc(1)] by simp
  have cs: "p2_cluster_size cd3 = p2_cluster_size cd" using c3(5) c1(5) by simp
  have ln: "linked (ps2_step cd3) (w @ [n])" using changed_linked [OF fc(1), of "w @ [n]"] ex(7) by simp
  have byte: "ps2_at cd3 n j = ps2_file_byte data len (k * p2_cluster_size cd + j)" if "j < p2_cluster_size cd" for j
  proof -
    have at: "at = k * p2_cluster_size cd" by (simp add: at_def cs2 c1(5))
    have "ps2_at cd3 n j = (if j < min (len - at) (p2_cluster_size cd2) then mem_of data (at + j) else PS2_PAD)"
      using fc(2) [of j] that c1(5) by simp
    moreover have "j < min (len - at) (p2_cluster_size cd2) \<longleftrightarrow> at + j < len" using that cs2 c1(5) by auto
    ultimately show ?thesis by (simp add: ps2_file_byte_def at)
  qed
  obtain ns where ns: "length ns = m - Suc k" "\<forall>x \<in> set ns. nx1 \<le> x \<and> x < nx' \<and> x < p2_alloc_end cd3 \<and> ps2_fat_free cd3 x"
    "distinct ns" "first' = (if k = 0 then n else first)" "nx1 \<le> nx'"
    "ps2_changed cd3 cd' (set ns \<union> {n}) (set ns)" "linked (ps2_step cd') ((w @ [n]) @ ns)"
    "\<forall>t < m - Suc k. \<forall>j < p2_cluster_size cd3. ps2_at cd' (ns ! t) j = ps2_file_byte data len ((Suc k + t) * p2_cluster_size cd3 + j)"
  proof -
    have "\<exists>ns. length ns = m - Suc k \<and> (\<forall>x \<in> set ns. nx1 \<le> x \<and> x < nx' \<and> x < p2_alloc_end cd3 \<and> ps2_fat_free cd3 x) \<and>
       distinct ns \<and> first' = (if Suc k = 0 \<and> 0 < m then hd ns else if k = 0 then n else first) \<and> nx1 \<le> nx' \<and>
       ps2_changed cd3 cd' (set ns \<union> ps2_tail (w @ [n])) (set ns) \<and>
       ((w @ [n]) @ ns = [] \<or> linked (ps2_step cd') ((w @ [n]) @ ns)) \<and>
       (\<forall>t < m - Suc k. \<forall>j < p2_cluster_size cd3. ps2_at cd' (ns ! t) j = ps2_file_byte data len ((Suc k + t) * p2_cluster_size cd3 + j))"
      by (rule Suc.hyps(1) [OF _ rest]) (use Suc.hyps(2) km Suc.prems(4) c3(1) cs ln in auto)
    then show thesis using that by (auto simp: ps2_tail_def)
  qed
  have above: "n < x" "x \<noteq> n" "x \<notin> set w" "ps2_fat_free cd x" "x < p2_alloc_end cd" if "x \<in> set ns" for x
  proof -
    have x: "nx1 \<le> x" "ps2_fat_free cd3 x" "x < p2_alloc_end cd3" using ns(2) that by auto
    show g: "n < x" "x \<noteq> n" using x(1) ex(4) by simp_all
    show lt: "x < p2_alloc_end cd" using x(3) c3(4) c1(4) by simp
    show xw: "x \<notin> set w" using linked_not_free [OF ln, of x] x(2) by auto
    then have "x \<notin> insert n (ps2_tail w)" using g by (auto simp: ps2_tail_def split: if_splits)
    then have "ps2_fat_view cd3 x = ps2_fat_view cd x" using changedD(8) [OF ch] by blast
    then show "ps2_fat_free cd x" using x(2,3) lt by (simp add: fat_free_view)
  qed
  have nn: "n \<notin> set ns" using above by blast
  show ?case
  proof (intro exI [of _ "n # ns"] conjI)
    show "length (n # ns) = m - k" using ns(1) km by simp
    show "\<forall>x \<in> set (n # ns). nx \<le> x \<and> x < nx' \<and> x < p2_alloc_end cd \<and> ps2_fat_free cd x"
      using above ns(2,5) ex(1-4) by fastforce
    show "distinct (n # ns)" using ns(3) nn by simp
    show "first' = (if k = 0 \<and> 0 < m then hd (n # ns) else first)" using ns(4) km by simp
    show "nx \<le> nx'" using ns(5) ex(1,4) by simp
    show "ps2_changed cd cd' (set (n # ns) \<union> ps2_tail w) (set (n # ns))"
      by (rule changed_mono [OF changed_trans [OF ch ns(6)]]) auto
    show "w @ n # ns = [] \<or> linked (ps2_step cd') (w @ n # ns)" using ns(7) by simp
    show "\<forall>t < m - k. \<forall>j < p2_cluster_size cd. ps2_at cd' ((n # ns) ! t) j = ps2_file_byte data len ((k + t) * p2_cluster_size cd + j)"
    proof (intro allI impI)
      fix t j assume t: "t < m - k" "j < p2_cluster_size cd"
      show "ps2_at cd' ((n # ns) ! t) j = ps2_file_byte data len ((k + t) * p2_cluster_size cd + j)"
      proof (cases t)
        case 0
        then show ?thesis using changedD(9) [OF ns(6) nn, of j] byte [OF t(2)] t(2) cs by simp
      next
        case (Suc u)
        then show ?thesis using ns(8) t cs by (simp add: add.commute add.left_commute)
      qed
    qed
  qed
qed

end
