(* ===== verification/CardDispatch.thy ===== *)
theory CardDispatch
  imports CardPs1 CardPs2 CardGamecube CardSaturn CardSegacd CardDreamcast
begin

text \<open>
  The entry points over all card formats, \<^verbatim>\<open>src/src/card.c\<close>: a card is listed by the first reader that
  takes it, and repaired when its format has a repair; for the others the report names every save the
  listing leaves out.
\<close>

text \<open>A reader's result code and listing pointer as one value.\<close>

definition listed :: "rc \<times> sigil_card_listing option \<Rightarrow> rc + sigil_card_listing" where
  "listed r = (case r of (SIGIL_OK, Some l) \<Rightarrow> Inr l | (rc, _) \<Rightarrow> Inl rc)"

definition READERS :: "zlib \<Rightarrow> (sigil_io \<Rightarrow> rc + sigil_card_listing) list" where
  "READERS z =
     [\<lambda>io. listed (sigil_ps1_card_list_io io), sigil_ps2_card_list_io, \<lambda>io. listed (sigil_gamecube_card_list_io io),
      sigil_saturn_card_list_io z, sigil_segacd_card_list_io, \<lambda>io. listed (sigil_dreamcast_card_list_io io)]"

fun try_readers :: "(sigil_io \<Rightarrow> rc + sigil_card_listing) list \<Rightarrow> sigil_io \<Rightarrow> rc + sigil_card_listing" where
  "try_readers [] io = Inl SIGIL_ERR_UNSUPPORTED_FORMAT"
| "try_readers (r # rs) io =
     (case r io of
        Inr l \<Rightarrow> Inr l
      | Inl rc \<Rightarrow> if rc \<noteq> SIGIL_ERR_UNSUPPORTED_FORMAT then Inl rc else try_readers rs io)"

definition sigil_card_list :: "zlib \<Rightarrow> sigil_io \<Rightarrow> rc + sigil_card_listing" where
  "sigil_card_list z io = try_readers (READERS z) io"

text \<open>\<^verbatim>\<open>repair_image\<close>: the report takes the image only when the repair succeeded and changed it.\<close>

definition repair_image ::
    "mem \<Rightarrow> nat \<Rightarrow> sigil_card_repair_report
       \<Rightarrow> (mem \<Rightarrow> nat \<Rightarrow> sigil_card_repair_report \<Rightarrow> rc \<times> mem \<times> sigil_card_repair_report \<times> bool)
       \<Rightarrow> rc \<times> sigil_card_repair_report" where
  "repair_image img siz report repair =
     (case repair img siz report of
        (rc, img, report, changed) \<Rightarrow>
          if rc = SIGIL_OK \<and> changed then (SIGIL_OK, report\<lparr>rr_data := Some (bytes_at img 0 siz)\<rparr>) else (rc, report))"

definition repair_vmu ::
    "mem \<Rightarrow> nat \<Rightarrow> sigil_card_repair_report \<Rightarrow> rc \<times> mem \<times> sigil_card_repair_report \<times> bool" where
  "repair_vmu img siz report = sigil_dreamcast_card_repair img report"

definition repair_gamecube ::
    "mem \<Rightarrow> nat \<Rightarrow> sigil_card_repair_report \<Rightarrow> rc \<times> mem \<times> sigil_card_repair_report \<times> bool" where
  "repair_gamecube img siz report = sigil_gamecube_card_repair img siz report"

text \<open>The report starts as \<^verbatim>\<open>calloc\<close> leaves it, with the listing's format.\<close>

definition sigil_card_repair :: "zlib \<Rightarrow> sigil_io \<Rightarrow> rc + sigil_card_repair_report" where
  "sigil_card_repair z io =
     (case sigil_card_list z io of
        Inl rc \<Rightarrow> Inl rc
      | Inr listing \<Rightarrow>
          let report = \<lparr>rr_format = cl_format listing, rr_data = None, rr_entries = []\<rparr>;
              (rc, report) =
                (if cl_format listing = SIGIL_CARD_FORMAT_DREAMCAST_VMU
                 then (case sigil_dreamcast_card_load io (\<lambda>_. 0) of
                         (rc, img) \<Rightarrow> if rc = SIGIL_OK then repair_image img VMU_CARD_SIZE report repair_vmu else (rc, report))
                 else if cl_format listing = SIGIL_CARD_FORMAT_GAMECUBE_RAW
                 then (case sigil_gamecube_card_load io of
                         (SIGIL_OK, Some (img, siz)) \<Rightarrow> repair_image img siz report repair_gamecube
                       | (rc, _) \<Rightarrow> (rc, report))
                 else (SIGIL_OK, report_listing listing report))
          in if rc \<noteq> SIGIL_OK then Inl rc else Inr report)"

end
