(* ===== verification/Spec2Isabelle.thy ===== *)
theory Spec2Isabelle
  imports CardPs1Files CardDreamcastSpec CardGamecubeSpec ClockGb N64Save CardSegacdSpec CardSaturnClaims CardPs2FolderProofs
    CardPs2Inject CardDispatch
begin

text \<open>
  A verification library for the part of argosy-sigil that changes users' saves: the memory cards, the
  backup RAM volumes, the Game Boy clocks, the N64 saves and the digests under \<^verbatim>\<open>src/src/\<close>.

  \<^bold>\<open>The program.\<close> Sigil moves one game's saves between an emulator and a server. A platform whose games
  share a card has a module of its own, \<^verbatim>\<open>card_*.c\<close>, with the same operations: list the saves, lift one off
  (extract), put one on (inject), delete, verify that one is there, format an empty card and, for two of
  them, repair. \<^verbatim>\<open>card.c\<close> tries the modules in turn. \<^verbatim>\<open>clock_gb.c\<close> converts the clocks of Game Boy
  emulators, \<^verbatim>\<open>n64_save.c\<close> the save files of N64 ones. What the modules promise a user is that no operation
  on one save harms another, that what was put on is read back, and that a failure leaves the card alone.

  \<^bold>\<open>The model.\<close> C buffers are functions from offsets to bytes, a pointer is an offset beside its buffer,
  integers have their C width where they can wrap and are natural numbers where the code's own bounds keep
  them small, an error code is a value of \<open>rc\<close>, and a function that may fail returns \<open>rc\<close> with the changed
  buffer or a sum. Loops are recursive functions with their measures, or folds over the range of the
  counter. Allocation is taken to succeed. A C string is the list of its bytes before the NUL.

  \<^item> \<open>Prelude\<close>: result codes, byte memory, \<^verbatim>\<open>memcpy\<close> and \<^verbatim>\<open>memset\<close>, the fixed-width accessors of
    \<^verbatim>\<open>sigil_internal.h\<close> with their round trips, and loops that write disjoint regions.
  \<^item> \<open>Stream\<close>: the read loops over an \<^verbatim>\<open>sigil_io\<close>; the locale \<open>byte_stream\<close> is its contract, interpreted
    on the in-memory stream. Opening files is not modelled.
  \<^item> \<open>Digests\<close>: \<^verbatim>\<open>md5.c\<close>, \<^verbatim>\<open>sha1.c\<close>. The locale \<open>block_hash\<close> shows that feeding a message in any cuts gives
    the digest of the whole; both hashes interpret it. HMAC-SHA1 is the one of RFC 2104.
  \<^item> \<open>Chains\<close>: block chains, and the locale \<open>chain_reader\<close> every card's walk loop keeps: it returns exactly
    the intact chain that starts at a block, or nothing. \<open>CardStore\<close> extends it to \<open>card_store\<close>, a directory
    over chains, with the effect of writing and of removing an entry on every other one.
  \<^item> \<open>CardCommon\<close>, \<open>CardDispatch\<close>: the listing and repair records and \<^verbatim>\<open>card.c\<close>.
  \<^item> \<open>CardPs1\<close>, \<open>CardPs1Proofs\<close>, \<open>CardPs1Files\<close>: \<^verbatim>\<open>card_ps1.c\<close>, the card and its raw, .gme and .vmp files. The
    block cipher that signs a .vmp is a parameter.
  \<^item> \<open>CardDreamcast\<close> and its two proof theories: \<^verbatim>\<open>card_dreamcast.c\<close>. \<open>CardGamecube\<close> and its two:
    \<^verbatim>\<open>card_gamecube.c\<close>, with the two copies of directory and block table.
  \<^item> \<open>BramStorage\<close>: the stored forms of backup RAM (plain, doubled by filler bytes, gzip), zlib being a
    parameter. \<open>Gzip\<close>: the gzip file against the bytes of RFC 1952, with deflate by stored blocks as an
    instance of zlib. \<open>SegaCdEcc\<close>: the error-correcting blocks of \<^verbatim>\<open>card_segacd.c\<close>; the locale \<open>rs_code\<close> is the
    Reed-Solomon code over a field given by its tables, interpreted on both fields of the file.
    \<open>CardSegacd\<close> and its two: the volume, related to an abstract list of saves.
  \<^item> \<open>CardSaturn\<close> and its three: \<^verbatim>\<open>card_saturn.c\<close>, whose volume has no directory, related to an abstract map
    of saves.
  \<^item> \<open>CardPs2\<close>, \<open>CardPs2Saves\<close>, \<open>CardPs2Folder\<close>: the whole of \<^verbatim>\<open>card_ps2.c\<close>, the card reached through its
    indirect FAT, its save folders, and the folder form PCSX2 keeps, with the YAML index it prints and
    parses. \<open>CardPs2Proofs\<close> gives the FAT as a table (locale \<open>entry_table\<close>), its chains, what they hold and
    what the listing and deleting do, \<open>CardPs2Inject\<close> the allocator and the loop that stores a file's data,
    \<open>CardPs2FolderProofs\<close> the dates and the folder form.
  \<^item> \<open>ClockGb\<close>, \<open>N64Save\<close>: \<^verbatim>\<open>clock_gb.c\<close> and \<^verbatim>\<open>n64_save.c\<close>.

  \<^bold>\<open>What is shown.\<close> For the PlayStation, VMU and GameCube cards, the listing is exactly the saves with a whole
  chain no other save shares, and accounts for every block; injecting adds the save, verifies and keeps
  every other save; deleting removes it and keeps the others; every branch of inject has its result code;
  and, by rule induction over the operations, every card that is built from a formatted one keeps its
  invariant. Sega CD and Saturn have the same as refinements of a list and of a map, for volumes that list
  without corrupt saves. Repairs write only what was free (VMU) or a copy that fails its checksum
  (GameCube). Files of every stored form load back as they were written; damaged Sega CD blocks are
  corrected. A Game Boy clock is read back from each layout with what the layout has room for.

  For the PlayStation 2 less is shown: dates and save folders go out and come back, the listing is
  the folders that read whole and share no cluster, and deleting from a sound card removes one save and
  keeps the others. Of injecting, the allocator and the storing of a file's data are characterised; no
  theorem covers the whole operation, and none of verifying on the card or loading and storing its file.

  \<^bold>\<open>Bounds and termination.\<close> No fuel is used: chain loops are bounded by the blocks of the card (their measure
  is the blocks not yet visited), parsers by the text left, the Saturn cursor by the volume. Where the
  code's bound is a property of its input (a size field, a count), the theorem has it as a hypothesis and a
  witness satisfies it. On a PlayStation 2 card of one page per cluster the code reads an unset array slot
  when it puts a folder on; the model's list lookup is unspecified there, and no theorem is about it.

  \<^bold>\<open>Not modelled.\<close> Collect and restore (\<^verbatim>\<open>sync*.c\<close>) orchestrate the operations above over the caller's file
  system; layouts, profiles and units (\<^verbatim>\<open>save_*.c\<close>) are tables of paths and directory searches; the
  identification of games (\<^verbatim>\<open>sigil.c\<close> and a file per platform) and the containers (\<^verbatim>\<open>io_*.c\<close>, \<^verbatim>\<open>zip_*.c\<close>,
  \<^verbatim>\<open>rzip.c\<close>) only read, and lean on zlib, zstd, lz4, libchdr and ciphers that are not under src/; the
  bindings and the command line marshal. Concurrency does not arise: the library keeps no shared state.
\<close>

end
